(* ===== verification/Prelude.thy ===== *)
theory Prelude
  imports Main "HOL-Library.Word"
begin

text \<open>
  Shared material of the development: the names of the machine types, the view of a byte buffer
  as a list of bits (most significant bit of each byte first, the order in which the C++ code
  numbers bit offsets), the words that accumulate such bits, and the generic lemmas on lists and
  words that the component theories use. \<open>bit_views\<close> collects the equations that describe a
  word or a buffer bit by bit.
\<close>

unbundle bit_operations_syntax

named_theorems bit_views \<open>bit-by-bit descriptions of words, masks and buffers\<close>

type_synonym byte = "8 word"
type_synonym u16 = "16 word"
type_synonym u32 = "32 word"
type_synonym u64 = "64 word"

section \<open>Buffers as bit lists\<close>

definition byte_bits :: "byte \<Rightarrow> bool list" where
  "byte_bits w = map (\<lambda>i. bit w (7 - i)) [0..<8]"

definition bits_of :: "byte list \<Rightarrow> bool list" where
  "bits_of bs = concat (map byte_bits bs)"

text \<open>The \<open>n\<close> low bits of a word, most significant first.\<close>

definition low_bits :: "nat \<Rightarrow> 'a::len word \<Rightarrow> bool list" where
  "low_bits n w = map (\<lambda>i. bit w (n - 1 - i)) [0..<n]"

text \<open>The \<open>n\<close> high bits of a 64-bit word, most significant first.\<close>

definition top_bits64 :: "nat \<Rightarrow> u64 \<Rightarrow> bool list" where
  "top_bits64 n w = map (\<lambda>i. bit w (63 - i)) [0..<n]"

text \<open>The word whose low bits are the given bits, the last of them lowest.\<close>

definition word_of_bits :: "bool list \<Rightarrow> 'a::len word" where
  "word_of_bits xs = horner_sum of_bool 2 (rev xs)"

definition nat_of_bits :: "bool list \<Rightarrow> nat" where
  "nat_of_bits xs = horner_sum of_bool 2 (rev xs)"

definition int_of_bits :: "bool \<Rightarrow> bool list \<Rightarrow> int" where
  "int_of_bits sgnd xs =
     (case xs of [] \<Rightarrow> 0
      | b # _ \<Rightarrow> int (nat_of_bits xs) - (if sgnd \<and> b then 2 ^ length xs else 0))"

lemma length_byte_bits [simp]: "length (byte_bits w) = 8"
  by (simp add: byte_bits_def)

lemma nth_byte_bits [bit_views]: "i < 8 \<Longrightarrow> byte_bits w ! i = bit w (7 - i)"
  by (simp add: byte_bits_def)

lemma byte_bits_inject: "byte_bits v = byte_bits w \<longleftrightarrow> v = w"
proof
  assume eq: "byte_bits v = byte_bits w"
  show "v = w"
  proof (rule bit_word_eqI)
    fix n assume "n < LENGTH(8)"
    then have n: "n < 8" by simp
    have "byte_bits v ! (7 - n) = byte_bits w ! (7 - n)" using eq by simp
    with n show "bit v n = bit w n" by (simp add: bit_views)
  qed
qed simp

lemma bits_of_Nil [simp]: "bits_of [] = []"
  by (simp add: bits_of_def)

lemma bits_of_Cons [simp]: "bits_of (b # bs) = byte_bits b @ bits_of bs"
  by (simp add: bits_of_def)

lemma bits_of_append [simp]: "bits_of (xs @ ys) = bits_of xs @ bits_of ys"
  by (simp add: bits_of_def)

lemma length_bits_of [simp]: "length (bits_of bs) = 8 * length bs"
  by (induction bs) auto

lemma nth_bits_of [bit_views]:
  "i < 8 * length bs \<Longrightarrow> bits_of bs ! i = bit (bs ! (i div 8)) (7 - i mod 8)"
proof (induction bs arbitrary: i)
  case Nil
  then show ?case by simp
next
  case (Cons b bs)
  show ?case
  proof (cases "i < 8")
    case True
    then show ?thesis by (simp add: nth_append bit_views)
  next
    case False
    then obtain j where j: "i = j + 8" using le_Suc_ex by (metis add.commute not_less)
    with Cons.prems have "j < 8 * length bs" by simp
    moreover have "(j + 8) div 8 = Suc (j div 8)" and "(j + 8) mod 8 = j mod 8" by simp_all
    ultimately show ?thesis using Cons.IH [of j] j by (simp add: nth_append)
  qed
qed

lemma drop_bits_of: "drop (8 * n) (bits_of bs) = bits_of (drop n bs)"
proof (induction bs arbitrary: n)
  case (Cons b bs)
  then show ?case by (cases n) auto
qed simp

lemma take_bits_of: "take (8 * n) (bits_of bs) = bits_of (take n bs)"
proof (induction bs arbitrary: n)
  case (Cons b bs)
  then show ?case by (cases n) auto
qed simp

lemma bits_of_inject: "length xs = length ys \<Longrightarrow> bits_of xs = bits_of ys \<longleftrightarrow> xs = ys"
  by (induction xs ys rule: list_induct2) (auto simp: byte_bits_inject)

section \<open>Words made of bits\<close>

lemma bit_word_of_bits [bit_views]:
  "bit (word_of_bits xs :: 'a::len word) n \<longleftrightarrow> n < LENGTH('a) \<and> n < length xs \<and> xs ! (length xs - 1 - n)"
  by (auto simp: word_of_bits_def bit_horner_sum_bit_word_iff rev_nth)

lemma bit_nat_of_bits [bit_views]:
  "bit (nat_of_bits xs) n \<longleftrightarrow> n < length xs \<and> xs ! (length xs - 1 - n)"
  by (auto simp: nat_of_bits_def bit_horner_sum_bit_iff rev_nth)

lemma length_low_bits [simp]: "length (low_bits n w) = n"
  by (simp add: low_bits_def)

lemma nth_low_bits [bit_views]: "i < n \<Longrightarrow> low_bits n w ! i = bit w (n - 1 - i)"
  by (simp add: low_bits_def)

lemma length_top_bits64 [simp]: "length (top_bits64 n w) = n"
  by (simp add: top_bits64_def)

lemma nth_top_bits64 [bit_views]: "i < n \<Longrightarrow> top_bits64 n w ! i = bit w (63 - i)"
  by (simp add: top_bits64_def)

lemma word_of_bits_Nil [simp]: "word_of_bits [] = 0"
  by (simp add: word_of_bits_def)

lemma word_of_bits_append:
  "(word_of_bits (xs @ ys) :: 'a::len word)
     = push_bit (length ys) (word_of_bits xs) OR word_of_bits ys"
  by (rule bit_word_eqI) (auto simp: bit_simps bit_views nth_append)

lemma nat_of_bits_Nil [simp]: "nat_of_bits [] = 0"
  by (simp add: nat_of_bits_def)

lemma nat_of_bits_snoc: "nat_of_bits (xs @ [b]) = 2 * nat_of_bits xs + of_bool b"
  by (simp add: nat_of_bits_def)

lemma nat_of_bits_append: "nat_of_bits (xs @ ys) = nat_of_bits xs * 2 ^ length ys + nat_of_bits ys"
  by (simp add: nat_of_bits_def horner_sum_append algebra_simps)

lemma nat_of_bits_less: "nat_of_bits xs < 2 ^ length xs"
  by (metis horner_sum_of_bool_2_less length_rev nat_of_bits_def)

lemma unat_word_of_bits:
  "length xs \<le> LENGTH('a) \<Longrightarrow> unat (word_of_bits xs :: 'a::len word) = nat_of_bits xs"
proof -
  assume le: "length xs \<le> LENGTH('a)"
  have "(of_nat (nat_of_bits xs) :: 'a word) = word_of_bits xs"
    by (rule bit_word_eqI) (simp add: bit_views bit_simps)
  moreover have "nat_of_bits xs < 2 ^ LENGTH('a)"
    using nat_of_bits_less [of xs] le by (meson less_le_trans one_le_numeral power_increasing)
  ultimately show ?thesis by (metis unat_of_nat mod_less)
qed

lemma word_of_low_bits: "n \<le> LENGTH('a) \<Longrightarrow> word_of_bits (low_bits n (w :: 'a::len word)) = take_bit n w"
  by (rule bit_word_eqI) (auto simp: bit_simps bit_views)

lemma low_bits_word_of_bits:
  "length xs \<le> LENGTH('a) \<Longrightarrow> low_bits (length xs) (word_of_bits xs :: 'a::len word) = xs"
  by (rule nth_equalityI) (auto simp: bit_views)

lemma low_bits_append:
  "low_bits (m + n) w = low_bits m (drop_bit n w) @ low_bits n w"
  by (rule nth_equalityI) (auto simp: bit_views bit_simps nth_append add.commute)

section \<open>Splicing a list into another\<close>

text \<open>\<open>overwrite xs i ys\<close> is \<open>xs\<close> with \<open>ys\<close> written over it from position \<open>i\<close> on.\<close>

definition overwrite :: "'a list \<Rightarrow> nat \<Rightarrow> 'a list \<Rightarrow> 'a list" where
  "overwrite xs i ys = take i xs @ ys @ drop (i + length ys) xs"

lemma length_overwrite [simp]: "i + length ys \<le> length xs \<Longrightarrow> length (overwrite xs i ys) = length xs"
  by (simp add: overwrite_def)

lemma nth_overwrite:
  "i + length ys \<le> length xs \<Longrightarrow> k < length xs \<Longrightarrow>
     overwrite xs i ys ! k = (if i \<le> k \<and> k < i + length ys then ys ! (k - i) else xs ! k)"
  by (auto simp: overwrite_def nth_append min_def)

lemma overwrite_Nil [simp]: "overwrite xs i [] = xs"
  by (simp add: overwrite_def)

lemma take_overwrite: "i + length ys \<le> length xs \<Longrightarrow> take i (overwrite xs i ys) = take i xs"
  by (simp add: overwrite_def)

lemma take_overwrite_end:
  "i + length ys \<le> length xs \<Longrightarrow> take (i + length ys) (overwrite xs i ys) = take i xs @ ys"
  by (simp add: overwrite_def)

end
