(* ===== verification/Bit_Copy.thy ===== *)
theory Bit_Copy
  imports Prelude
begin

text \<open>
  The copying primitives of \<open>crypto/common/bitstring.cpp\<close>, \<open>bits_memcpy\<close> and \<open>bits_memset\<close>, on
  byte buffers: a pointer is a buffer and a byte index, \<open>unsigned long long\<close> accumulators are
  64-bit words. An access outside a buffer is undefined in the C++ code and unspecified here, so
  the lemmas carry the size of the buffers as a premise. Each routine is related to the list
  operation on \<open>bits_of\<close> that it computes.
\<close>

section \<open>Masks and big-endian accesses\<close>

text \<open>\<open>(unsigned char)(-0x100 >> n)\<close> and \<open>0xff >> n\<close>.\<close>

definition hi_mask :: "nat \<Rightarrow> byte" where
  "hi_mask n = word_of_int (drop_bit n (- 0x100))"

definition lo_mask :: "nat \<Rightarrow> byte" where
  "lo_mask n = drop_bit n 0xff"

text \<open>\<open>td::bswap32(td::as<unsigned>(p))\<close> and \<open>td::bswap64(td::as<uint64>(p))\<close>, on a
  little-endian host: the bytes at \<open>p\<close> as one big-endian number.\<close>

definition load_be32 :: "byte list \<Rightarrow> nat \<Rightarrow> u64" where
  "load_be32 m p = push_bit 24 (ucast (m ! p)) OR push_bit 16 (ucast (m ! (p + 1)))
     OR push_bit 8 (ucast (m ! (p + 2))) OR ucast (m ! (p + 3))"

definition be32_bytes :: "u64 \<Rightarrow> byte list" where
  "be32_bytes w = [ucast (drop_bit 24 w), ucast (drop_bit 16 w), ucast (drop_bit 8 w), ucast w]"

definition store_be32 :: "byte list \<Rightarrow> nat \<Rightarrow> u64 \<Rightarrow> byte list" where
  "store_be32 m p w = overwrite m p (be32_bytes w)"

lemma bit_hi_mask [bit_views]: "bit (hi_mask n) i \<longleftrightarrow> i < 8 \<and> 8 \<le> i + n"
proof -
  have neg: "(- 0x100 :: int) = NOT (mask 8)" by (simp add: mask_eq_exp_minus_1 not_eq_complement)
  have "bit (- 0x100 :: int) j \<longleftrightarrow> 8 \<le> j" for j
    unfolding neg by (simp only: bit_not_iff bit_mask_iff) auto
  then show ?thesis by (auto simp: hi_mask_def bit_word_of_int_iff bit_drop_bit_eq add.commute)
qed

lemma bit_lo_mask [bit_views]: "bit (lo_mask n) i \<longleftrightarrow> i + n < 8"
proof -
  have "(0xff :: byte) = mask 8" by (simp add: mask_eq_exp_minus_1)
  then have "lo_mask n = drop_bit n (mask 8)" by (simp only: lo_mask_def)
  then show ?thesis by (auto simp: bit_drop_bit_eq bit_mask_iff possible_bit_def add.commute)
qed

lemma byte_bits_ucast: "byte_bits (ucast (w :: 'a::len word)) = low_bits 8 w"
  by (rule nth_equalityI) (auto simp: bit_views bit_simps)

lemma bits_of_be32_bytes: "bits_of (be32_bytes w) = low_bits 32 w"
  using low_bits_append [of 8 24 w] low_bits_append [of 8 16 w] low_bits_append [of 8 8 w]
  by (simp add: be32_bytes_def byte_bits_ucast)

lemma low_bits_ucast_byte: "low_bits 8 (ucast (b :: byte) :: u64) = byte_bits b"
  by (rule nth_equalityI) (auto simp: bit_views bit_simps)

lemma bit_byte_less: "bit (b :: byte) i \<Longrightarrow> i < 8"
  using bit_imp_le_length [of b i] by simp

lemma bit_ucast_byte_less: "bit (ucast (b :: byte) :: 'a::len word) i \<Longrightarrow> i < 8"
  by (auto simp: bit_simps dest: bit_byte_less)

lemma low_bits_push_or:
  fixes w x :: "'a::len word"
  assumes "\<And>i. bit x i \<Longrightarrow> i < n" and "b + n \<le> LENGTH('a)"
  shows "low_bits (b + n) (push_bit n w OR x) = low_bits b w @ low_bits n x"
proof (rule nth_equalityI)
  fix i assume "i < length (low_bits (b + n) (push_bit n w OR x))"
  then have "i < b + n" by simp
  moreover have "\<not> bit x j" if "n \<le> j" for j using assms(1) that not_less by blast
  moreover have "b + n - Suc i - n = b - Suc i" by simp
  ultimately show "low_bits (b + n) (push_bit n w OR x) ! i = (low_bits b w @ low_bits n x) ! i"
    using assms(2) by (cases "i < b") (auto simp add: bit_views bit_simps nth_append add.commute)
qed simp

lemma low_bits_or: "low_bits n (v OR w) = map2 (\<or>) (low_bits n v) (low_bits n w)"
  by (rule nth_equalityI) (auto simp: bit_views bit_simps)

lemma bit_load_be32_less: "bit (load_be32 m p) i \<Longrightarrow> i < 32"
  by (auto simp: load_be32_def bit_or_iff bit_push_bit_iff dest!: bit_ucast_byte_less)

lemma low_bits_push_byte:
  fixes w :: "'a::len word"
  assumes "b + 8 \<le> LENGTH('a)"
  shows "low_bits (b + 8) (push_bit 8 w OR ucast (c :: byte)) = low_bits b w @ byte_bits c"
proof -
  have "low_bits 8 (ucast c :: 'a word) = byte_bits c"
    using assms by (intro nth_equalityI) (auto simp: bit_views bit_simps)
  then show ?thesis
    using low_bits_push_or [of "ucast c" 8 b w] assms by (metis bit_ucast_byte_less)
qed

lemma low_bits_load_be32:
  assumes "p + 4 \<le> length m"
  shows "low_bits 32 (load_be32 m p) = take 32 (drop (8 * p) (bits_of m))"
proof -
  have be: "load_be32 m p = push_bit 8 (push_bit 8 (push_bit 8 (ucast (m ! p)) OR ucast (m ! (p + 1)))
      OR ucast (m ! (p + 2))) OR ucast (m ! (p + 3))"
    by (simp add: load_be32_def push_bit_or or.assoc)
  have "low_bits 32 (load_be32 m p) = byte_bits (m ! p) @ byte_bits (m ! (p + 1))
      @ byte_bits (m ! (p + 2)) @ byte_bits (m ! (p + 3))"
    unfolding be
    using low_bits_push_byte [where 'a = 64 and b = 24] low_bits_push_byte [where 'a = 64 and b = 16] low_bits_push_byte [where 'a = 64 and b = 8]
    by (simp add: low_bits_ucast_byte del: push_bit_or)
  also have "\<dots> = bits_of (take 4 (drop p m))"
    using assms by (simp add: numeral_eq_Suc Cons_nth_drop_Suc [symmetric] add.commute)
  also have "\<dots> = take 32 (drop (8 * p) (bits_of m))"
    using take_bits_of [of 4 "drop p m"] by (simp add: drop_bits_of)
  finally show ?thesis .
qed

section \<open>bits_memcpy\<close>

text \<open>Both offsets at the same position within a byte: whole bytes are copied, the two partial
  bytes are merged under a mask. \<open>bit_count\<close> already includes the offset.\<close>

definition bits_memcpy_aligned ::
  "byte list \<Rightarrow> nat \<Rightarrow> byte list \<Rightarrow> nat \<Rightarrow> nat \<Rightarrow> nat \<Rightarrow> byte list" where
  "bits_memcpy_aligned to t from f to_offs bit_count =
     (if bit_count < 8 then
        let m = hi_mask bit_count AND lo_mask to_offs
        in to[t := (to ! t AND NOT m) OR (from ! f AND m)]
      else
        let l = bit_count div 8;
            to1 = (if to_offs = 0 then overwrite to t (take l (drop f from))
                   else let m = lo_mask to_offs
                        in overwrite (to[t := (to ! t AND NOT m) OR (from ! f AND m)])
                             (t + 1) (take (l - 1) (drop (f + 1) from)));
            c = bit_count mod 8
        in if c \<noteq> 0 then
             let m = hi_mask c
             in to1[t + l := (to1 ! (t + l) AND NOT m) OR (from ! (f + l) AND m)]
           else to1)"

text \<open>The loops of the shifted copy: 32 bits at a time, then single bytes into the accumulator,
  then the accumulator out to the buffer.\<close>

function memcpy_words ::
  "byte list \<Rightarrow> nat \<Rightarrow> byte list \<Rightarrow> nat \<Rightarrow> u64 \<Rightarrow> nat \<Rightarrow> nat \<Rightarrow> byte list \<times> nat \<times> nat \<times> u64 \<times> nat" where
  "memcpy_words to t from f acc b bit_count =
     (if bit_count < 32 then (to, t, f, acc, bit_count)
      else let acc1 = push_bit 32 acc OR load_be32 from f
           in memcpy_words (store_be32 to t (drop_bit b acc1)) (t + 4) from (f + 4) acc1 b
                (bit_count - 32))"
  by pat_completeness auto
termination by (relation "measure (\<lambda>(to, t, from, f, acc, b, n). n)") auto

function memcpy_bytes :: "byte list \<Rightarrow> nat \<Rightarrow> u64 \<Rightarrow> nat \<Rightarrow> nat \<Rightarrow> nat \<times> u64 \<times> nat \<times> nat" where
  "memcpy_bytes from f acc b bit_count =
     (if bit_count < 8 then (f, acc, b, bit_count)
      else memcpy_bytes from (f + 1) (push_bit 8 acc OR ucast (from ! f)) (b + 8) (bit_count - 8))"
  by pat_completeness auto
termination by (relation "measure (\<lambda>(from, f, acc, b, n). n)") auto

function memcpy_drain :: "byte list \<Rightarrow> nat \<Rightarrow> u64 \<Rightarrow> nat \<Rightarrow> byte list \<times> nat \<times> nat" where
  "memcpy_drain to t acc b =
     (if b < 8 then (to, t, b)
      else memcpy_drain (to[t := ucast (drop_bit (b - 8) acc)]) (t + 1) acc (b - 8))"
  by pat_completeness auto
termination by (relation "measure (\<lambda>(to, t, acc, b). b)") auto

declare memcpy_words.simps [simp del] memcpy_bytes.simps [simp del] memcpy_drain.simps [simp del]

definition memcpy_gather ::
  "byte list \<Rightarrow> nat \<Rightarrow> byte list \<Rightarrow> nat \<Rightarrow> u64 \<Rightarrow> nat \<Rightarrow> nat \<Rightarrow> nat \<Rightarrow> nat \<Rightarrow> byte list \<times> nat \<times> u64 \<times> nat" where
  "memcpy_gather to t from f acc0 to_offs from_offs sz bit_count =
     (if bit_count < 8 then
        (to, t, push_bit sz acc0
           OR ucast (drop_bit (8 - bit_count) (from ! f AND lo_mask from_offs)), to_offs + sz)
      else
        let ld = 8 - from_offs;
            acc = push_bit ld acc0 OR ucast (from ! f AND lo_mask from_offs);
            b = to_offs + ld;
            (to2, t2, f2, acc2, n2) = memcpy_words to t from (f + 1) acc b (bit_count - 8);
            (f3, acc3, b3, n3) = memcpy_bytes from f2 acc2 b n2
        in if n3 > 0
           then (to2, t2, push_bit n3 acc3 OR ucast (drop_bit (8 - n3) (from ! f3)), b3 + n3)
           else (to2, t2, acc3, b3))"

definition bits_memcpy_shifted ::
  "byte list \<Rightarrow> nat \<Rightarrow> byte list \<Rightarrow> nat \<Rightarrow> nat \<Rightarrow> nat \<Rightarrow> nat \<Rightarrow> nat \<Rightarrow> byte list" where
  "bits_memcpy_shifted to t from f to_offs from_offs sz bit_count =
     (let acc0 = (if to_offs \<noteq> 0 then ucast (drop_bit (8 - to_offs) (to ! t)) else 0);
          (to1, t1, acc1, b1) = memcpy_gather to t from f acc0 to_offs from_offs sz bit_count;
          (to4, t4, b4) = memcpy_drain to1 t1 acc1 b1
      in if b4 > 0
         then to4[t4 := (to4 ! t4 AND lo_mask b4) OR ucast (push_bit (8 - b4) acc1)]
         else to4)"

definition bits_memcpy :: "byte list \<Rightarrow> nat \<Rightarrow> byte list \<Rightarrow> nat \<Rightarrow> nat \<Rightarrow> byte list" where
  "bits_memcpy to to_offs from from_offs bit_count =
     (if bit_count = 0 then to
      else let f = from_offs div 8; t = to_offs div 8; fo = from_offs mod 8; t_o = to_offs mod 8
           in if fo = t_o then bits_memcpy_aligned to t from f t_o (bit_count + fo)
              else bits_memcpy_shifted to t from f t_o fo bit_count (bit_count + fo))"

text \<open>The state of the shifted copy: the first \<open>t\<close> bytes of the buffer and the \<open>b\<close> pending bits of
  the accumulator are the stream \<open>S\<close> written so far, the rest of the buffer is as before.\<close>

definition memcpy_inv :: "byte list \<Rightarrow> bool list \<Rightarrow> byte list \<Rightarrow> nat \<Rightarrow> u64 \<Rightarrow> nat \<Rightarrow> bool" where
  "memcpy_inv orig S to t acc b \<longleftrightarrow>
     length to = length orig \<and> t \<le> length to \<and> drop t to = drop t orig
     \<and> bits_of (take t to) @ low_bits b acc = S"

lemma drop_eq_mono: "drop t xs = drop t ys \<Longrightarrow> drop (t + k) xs = drop (t + k) ys"
  by (metis add.commute drop_drop)

lemma memcpy_invI:
  "\<lbrakk>length to = length orig; t \<le> length to; drop t to = drop t orig; bits_of (take t to) @ low_bits b acc = S\<rbrakk>
    \<Longrightarrow> memcpy_inv orig S to t acc b"
  by (simp add: memcpy_inv_def)

lemma drop_overwrite_end:
  "t + length ys \<le> length to \<Longrightarrow> drop (t + length ys) (overwrite to t ys) = drop (t + length ys) to"
  by (simp add: overwrite_def)

lemma low_bits_split: "n \<le> m \<Longrightarrow> low_bits m w = low_bits (m - n) (drop_bit n w) @ low_bits n w"
  using low_bits_append [of "m - n" n w] by simp

lemma memcpy_words_inv:
  assumes "memcpy_words to t from f acc b n = (to', t', f', acc', n')"
    and "memcpy_inv orig S to t acc b" and "b \<le> 32"
    and "8 * f + n \<le> 8 * length from" and "8 * t + b + n \<le> 8 * length to"
  shows "memcpy_inv orig (S @ take (n - n') (drop (8 * f) (bits_of from))) to' t' acc' b
     \<and> n' < 32 \<and> n' \<le> n \<and> 8 * f' + n' = 8 * f + n \<and> 8 * t' + n' = 8 * t + n"
  using assms
proof (induction to t "from" f acc b n arbitrary: S rule: memcpy_words.induct)
  case (1 to t "from" f acc b n)
  show ?case
  proof (cases "n < 32")
    case True
    with "1.prems" show ?thesis by (simp add: memcpy_words.simps [of to])
  next
    case False
    define acc1 where "acc1 = push_bit 32 acc OR load_be32 from f"
    define ys where "ys = be32_bytes (drop_bit b acc1)"
    let ?D = "take 32 (drop (8 * f) (bits_of from))"
    have len: "length ys = 4" by (simp add: ys_def be32_bytes_def)
    have room: "t + length ys \<le> length to" using "1.prems"(5) False len by linarith
    have "low_bits 32 (drop_bit b acc1) @ low_bits b acc1 = low_bits (b + 32) acc1"
      using low_bits_append [of 32 b acc1] by (simp add: add.commute)
    also have "\<dots> = low_bits b acc @ low_bits 32 (load_be32 from f)"
      unfolding acc1_def using "1.prems"(3) by (intro low_bits_push_or) (auto dest: bit_load_be32_less)
    also have "\<dots> = low_bits b acc @ ?D"
      using "1.prems"(4) False by (subst low_bits_load_be32) auto
    finally have acc: "low_bits 32 (drop_bit b acc1) @ low_bits b acc1 = low_bits b acc @ ?D" .
    have inv: "memcpy_inv orig (S @ ?D) (store_be32 to t (drop_bit b acc1)) (t + 4) acc1 b"
    proof (rule memcpy_invI)
      have old: "length to = length orig" "drop t to = drop t orig" "bits_of (take t to) @ low_bits b acc = S"
        using "1.prems"(2) by (simp_all add: memcpy_inv_def)
      show "length (store_be32 to t (drop_bit b acc1)) = length orig"
        and "t + 4 \<le> length (store_be32 to t (drop_bit b acc1))"
        using room len old(1) by (simp_all add: store_be32_def flip: ys_def)
      show "drop (t + 4) (store_be32 to t (drop_bit b acc1)) = drop (t + 4) orig"
        using drop_overwrite_end [OF room] drop_eq_mono [OF old(2), of 4] len
        by (simp add: store_be32_def flip: ys_def)
      have "take (t + 4) (store_be32 to t (drop_bit b acc1)) = take t to @ ys"
        using take_overwrite_end [OF room] len by (simp add: store_be32_def flip: ys_def)
      then have "bits_of (take (t + 4) (store_be32 to t (drop_bit b acc1))) @ low_bits b acc1
          = bits_of (take t to) @ low_bits 32 (drop_bit b acc1) @ low_bits b acc1"
        by (simp add: ys_def bits_of_be32_bytes)
      then show "bits_of (take (t + 4) (store_be32 to t (drop_bit b acc1))) @ low_bits b acc1 = S @ ?D"
        using acc old(3) by (metis append.assoc)
    qed
    have rec: "memcpy_words (store_be32 to t (drop_bit b acc1)) (t + 4) from (f + 4) acc1 b (n - 32)
        = (to', t', f', acc', n')"
      using "1.prems"(1) False by (simp add: memcpy_words.simps [of to] Let_def acc1_def)
    have l: "length (store_be32 to t (drop_bit b acc1)) = length to"
      using room by (simp add: store_be32_def ys_def)
    have "memcpy_inv orig (S @ ?D @ take (n - 32 - n') (drop (8 * (f + 4)) (bits_of from))) to' t' acc' b
        \<and> n' < 32 \<and> n' \<le> n - 32 \<and> 8 * f' + n' = 8 * (f + 4) + (n - 32)
        \<and> 8 * t' + n' = 8 * (t + 4) + (n - 32)"
      using "1.IH" [OF False acc1_def rec inv] "1.prems"(3-5) False l by simp
    moreover have "?D @ take (n - 32 - n') (drop (8 * (f + 4)) (bits_of from))
        = take (n - n') (drop (8 * f) (bits_of from))" if "n' \<le> n - 32"
      using take_add [of 32 "n - 32 - n'" "drop (8 * f) (bits_of from)"] that False
      by (simp add: algebra_simps)
    ultimately show ?thesis using False by auto
  qed
qed

lemma memcpy_bytes_bits:
  assumes "memcpy_bytes from f acc b n = (f', acc', b', n')"
    and "b + n \<le> 64" and "8 * f + n \<le> 8 * length from"
  shows "low_bits b' acc' = low_bits b acc @ take (n - n') (drop (8 * f) (bits_of from))
     \<and> n' < 8 \<and> n' \<le> n \<and> b' + n' = b + n \<and> 8 * f' + n' = 8 * f + n"
  using assms
proof (induction "from" f acc b n rule: memcpy_bytes.induct)
  case (1 "from" f acc b n)
  show ?case
  proof (cases "n < 8")
    case True
    with "1.prems" show ?thesis by (simp add: memcpy_bytes.simps [of "from" f])
  next
    case False
    let ?a = "push_bit 8 acc OR ucast (from ! f)"
    have "memcpy_bytes from (f + 1) ?a (b + 8) (n - 8) = (f', acc', b', n')"
      using "1.prems"(1) False by (simp add: memcpy_bytes.simps [of "from" f])
    then have ih: "low_bits b' acc' = low_bits (b + 8) ?a
        @ take (n - 8 - n') (drop (8 * (f + 1)) (bits_of from))
        \<and> n' < 8 \<and> n' \<le> n - 8 \<and> b' + n' = b + 8 + (n - 8) \<and> 8 * f' + n' = 8 * (f + 1) + (n - 8)"
      using "1.IH" False "1.prems" by simp
    have "byte_bits (from ! f) = take 8 (drop (8 * f) (bits_of from))"
      using False "1.prems"(3) take_bits_of [of 1 "drop f from"]
      by (simp add: drop_bits_of take_Suc_conv_app_nth)
    then have "low_bits (b + 8) ?a = low_bits b acc @ take 8 (drop (8 * f) (bits_of from))"
      using low_bits_push_byte [of b acc] False "1.prems"(2) by simp
    with ih False take_add [of 8 "n - 8 - n'" "drop (8 * f) (bits_of from)"]
    show ?thesis by (auto simp: algebra_simps)
  qed
qed

lemma memcpy_drain_inv:
  assumes "memcpy_drain to t acc b = (to', t', b')"
    and "memcpy_inv orig S to t acc b" and "8 * t + b \<le> 8 * length to"
  shows "memcpy_inv orig S to' t' acc b' \<and> b' < 8 \<and> 8 * t' + b' = 8 * t + b"
  using assms
proof (induction to t acc b rule: memcpy_drain.induct)
  case (1 to t acc b)
  show ?case
  proof (cases "b < 8")
    case True
    with "1.prems" show ?thesis by (simp add: memcpy_drain.simps [of to])
  next
    case False
    let ?to = "to[t := ucast (drop_bit (b - 8) acc)]"
    have t: "t < length to" using "1.prems"(3) False by linarith
    have "low_bits b acc = low_bits 8 (drop_bit (b - 8) acc) @ low_bits (b - 8) acc"
      using low_bits_split [of "b - 8" b acc] False by simp
    then have "memcpy_inv orig S ?to (t + 1) acc (b - 8)"
      using "1.prems"(2) t
      by (auto simp: memcpy_inv_def take_Suc_conv_app_nth byte_bits_ucast dest: drop_eq_mono [where k = 1])
    moreover have "memcpy_drain ?to (t + 1) acc (b - 8) = (to', t', b')"
      using "1.prems"(1) False by (simp add: memcpy_drain.simps [of to])
    ultimately show ?thesis using "1.IH" False "1.prems"(3) by auto
  qed
qed

lemma memcpy_finish:
  assumes inv: "memcpy_inv orig S to t acc b" and b: "b < 8" and room: "8 * t + b \<le> 8 * length to"
  shows "bits_of (if b > 0 then to[t := (to ! t AND lo_mask b) OR ucast (push_bit (8 - b) acc)] else to)
     = S @ drop (length S) (bits_of orig)"
proof -
  have old: "length to = length orig" "drop t to = drop t orig" "bits_of (take t to) @ low_bits b acc = S"
    and tl: "t \<le> length to"
    using inv by (simp_all add: memcpy_inv_def)
  have lS: "length S = 8 * t + b" using old(3) tl by (auto simp flip: old(3))
  show ?thesis
  proof (cases "b = 0")
    case True
    then have "bits_of to = bits_of (take t to) @ bits_of (drop t to)"
      by (metis append_take_drop_id bits_of_append)
    with True old lS show ?thesis by (simp add: drop_bits_of low_bits_def)
  next
    case False
    then have t: "t < length to" using room by linarith
    let ?x = "(to ! t AND lo_mask b) OR ucast (push_bit (8 - b) acc)"
    have x: "byte_bits ?x = low_bits b acc @ drop b (byte_bits (to ! t))"
      using b False by (intro nth_equalityI)
        (auto simp: bit_views bit_simps nth_append intro!: arg_cong [where f = "bit acc"])
    have "bits_of (to[t := ?x]) = bits_of (take t to) @ byte_bits ?x @ bits_of (drop (Suc t) to)"
      using t by (simp add: upd_conv_take_nth_drop)
    also have "\<dots> = S @ drop b (byte_bits (orig ! t)) @ bits_of (drop (Suc t) orig)"
      using x old t nth_via_drop [of t to] drop_eq_mono [OF old(2), of 1]
      by (simp flip: old(3)) (metis Cons_nth_drop_Suc list.inject old(1))
    also have "drop b (byte_bits (orig ! t)) @ bits_of (drop (Suc t) orig) = drop (8 * t + b) (bits_of orig)"
      using t old(1) b drop_bits_of [of t orig]
      by (simp add: Cons_nth_drop_Suc [symmetric] add.commute [of _ b] flip: drop_drop)
    finally show ?thesis using False lS by simp
  qed
qed

lemma nth_bits_byte:
  "t < length to \<Longrightarrow> byte_bits (to ! t) = take 8 (drop (8 * t) (bits_of to))"
  using take_bits_of [of 1 "drop t to"] by (simp add: drop_bits_of take_Suc_conv_app_nth)

lemma take_partial_byte:
  assumes "t < length to" and "n \<le> 8"
  shows "take (8 * t + n) (bits_of to) = bits_of (take t to) @ take n (byte_bits (to ! t))"
  using assms by (simp add: take_add take_bits_of nth_bits_byte)

lemma low_bits_push_partial:
  fixes w :: "'a::len word"
  assumes "b + n \<le> LENGTH('a)" and "lo + n + hi = 8"
  shows "low_bits (b + n) (push_bit n w OR ucast (drop_bit lo (c AND lo_mask hi)))
     = low_bits b w @ take n (drop hi (byte_bits c))"
proof -
  let ?x = "ucast (drop_bit lo (c AND lo_mask hi)) :: 'a word"
  have e: "lo + n - Suc i = 7 - (hi + i)" if "i < n" for i using assms(2) that by arith
  have "low_bits n ?x = take n (drop hi (byte_bits c))"
    using assms by (intro nth_equalityI) (auto simp: bit_views bit_simps e)
  moreover have "i < n" if "bit ?x i" for i
    using that assms by (auto simp: bit_views bit_simps)
  ultimately show ?thesis using low_bits_push_or [of ?x n b w] assms(1) by simp
qed

lemma lo_mask_0 [simp]: "c AND lo_mask 0 = c"
  by (rule bit_word_eqI) (auto simp: bit_views bit_simps)

lemma take_chain4:
  assumes "n = a + b + c + d" and "q = p + a" and "r = q + b" and "u = r + c"
  shows "take n (drop p xs) = take a (drop p xs) @ take b (drop q xs) @ take c (drop r xs) @ take d (drop u xs)"
  by (simp add: assms take_add ac_simps)

lemma memcpy_gather_inv:
  assumes g: "memcpy_gather to t from f acc0 to_offs from_offs n (n + from_offs) = (to1, t1, acc1, b1)"
    and inv: "memcpy_inv orig S to t acc0 to_offs"
    and n: "n > 0" and o: "to_offs < 8" "from_offs < 8"
    and f: "8 * f + from_offs + n \<le> 8 * length from" and t: "8 * t + to_offs + n \<le> 8 * length to"
  shows "memcpy_inv orig (S @ take n (drop (8 * f + from_offs) (bits_of from))) to1 t1 acc1 b1
     \<and> 8 * t1 + b1 = 8 * t + to_offs + n \<and> length to1 = length to"
proof -
  let ?src = "drop (8 * f + from_offs) (bits_of from)"
  have fl: "f < length from" using f n by linarith
  show ?thesis
  proof (cases "n + from_offs < 8")
    case True
    have "low_bits (to_offs + n) (push_bit n acc0 OR
        ucast (drop_bit (8 - (n + from_offs)) (from ! f AND lo_mask from_offs)))
      = low_bits to_offs acc0 @ take n (drop from_offs (byte_bits (from ! f)))"
      using True o by (intro low_bits_push_partial) auto
    also have "take n (drop from_offs (byte_bits (from ! f))) = take n ?src"
      using True fl by (simp add: nth_bits_byte drop_take min_def add.commute)
    finally show ?thesis using True g inv by (auto simp: memcpy_gather_def memcpy_inv_def)
  next
    case False
    define ld where "ld = 8 - from_offs"
    define acc where "acc = push_bit ld acc0 OR ucast (from ! f AND lo_mask from_offs)"
    define m where "m = n + from_offs - 8"
    obtain to2 t2 f2 acc2 n2 where w: "memcpy_words to t from (f + 1) acc (to_offs + ld) m = (to2, t2, f2, acc2, n2)"
      by (metis prod_cases5)
    obtain f3 acc3 b3 n3 where y: "memcpy_bytes from f2 acc2 (to_offs + ld) n2 = (f3, acc3, b3, n3)"
      by (metis prod_cases4)
    have ld: "ld \<le> 8" "ld + m = n" using False o by (auto simp: ld_def m_def)
    have "low_bits (to_offs + ld) acc = low_bits to_offs acc0 @ take ld (drop from_offs (byte_bits (from ! f)))"
      unfolding acc_def using o low_bits_push_partial [of to_offs ld 0 from_offs acc0 "from ! f"]
      by (simp add: ld_def)
    also have "take ld (drop from_offs (byte_bits (from ! f))) = take ld ?src"
      using fl o by (simp add: nth_bits_byte drop_take ld_def add.commute)
    finally have inv1: "memcpy_inv orig (S @ take ld ?src) to t acc (to_offs + ld)"
      using inv by (auto simp: memcpy_inv_def)
    have W: "memcpy_inv orig ((S @ take ld ?src) @ take (m - n2) (drop (8 * (f + 1)) (bits_of from))) to2 t2 acc2 (to_offs + ld)
        \<and> n2 < 32 \<and> n2 \<le> m \<and> 8 * f2 + n2 = 8 * (f + 1) + m \<and> 8 * t2 + n2 = 8 * t + m"
      using f t ld o by (intro memcpy_words_inv [OF w inv1]) (auto simp: ld_def m_def)
    have Y: "low_bits b3 acc3 = low_bits (to_offs + ld) acc2 @ take (n2 - n3) (drop (8 * f2) (bits_of from))
        \<and> n3 < 8 \<and> n3 \<le> n2 \<and> b3 + n3 = to_offs + ld + n2 \<and> 8 * f3 + n3 = 8 * f2 + n2"
      using W o ld f by (intro memcpy_bytes_bits [OF y]) (auto simp: m_def ld_def)
    define accf where "accf = (if n3 > 0 then push_bit n3 acc3 OR ucast (drop_bit (8 - n3) (from ! f3)) else acc3)"
    have r: "to1 = to2 \<and> t1 = t2 \<and> acc1 = accf \<and> b1 = b3 + n3"
      using g False w y by (auto simp: memcpy_gather_def Let_def ld_def acc_def m_def accf_def)
    have "low_bits (b3 + n3) accf = low_bits b3 acc3 @ take n3 (drop (8 * f3) (bits_of from))"
    proof (cases "n3 = 0")
      case True
      then show ?thesis by (simp add: accf_def)
    next
      case False
      then have "f3 < length from" using Y W f ld by (auto simp: m_def)
      then show ?thesis
        using False Y W o ld low_bits_push_partial [of b3 n3 "8 - n3" 0 acc3 "from ! f3"]
        by (simp add: accf_def nth_bits_byte min_def)
    qed
    moreover have "take n ?src = take ld ?src @ take (m - n2) (drop (8 * (f + 1)) (bits_of from))
        @ take (n2 - n3) (drop (8 * f2) (bits_of from)) @ take n3 (drop (8 * f3) (bits_of from))"
      using W Y ld o by (intro take_chain4) (auto simp: ld_def)
    moreover have "length orig = length to" using inv by (simp add: memcpy_inv_def)
    ultimately show ?thesis using r W Y ld by (auto simp: memcpy_inv_def)
  qed
qed

lemma bits_memcpy_shifted_correct:
  assumes "n > 0" and o: "to_offs < 8" "from_offs < 8"
    and f: "8 * f + from_offs + n \<le> 8 * length from" and t: "8 * t + to_offs + n \<le> 8 * length to"
  shows "bits_of (bits_memcpy_shifted to t from f to_offs from_offs n (n + from_offs))
     = overwrite (bits_of to) (8 * t + to_offs) (take n (drop (8 * f + from_offs) (bits_of from)))"
proof -
  let ?src = "take n (drop (8 * f + from_offs) (bits_of from))"
  let ?S0 = "take (8 * t + to_offs) (bits_of to)"
  define acc0 :: u64 where "acc0 = (if to_offs \<noteq> 0 then ucast (drop_bit (8 - to_offs) (to ! t)) else 0)"
  obtain to1 t1 acc1 b1 where
    g: "memcpy_gather to t from f acc0 to_offs from_offs n (n + from_offs) = (to1, t1, acc1, b1)"
    by (metis prod_cases4)
  obtain to4 t4 b4 where d: "memcpy_drain to1 t1 acc1 b1 = (to4, t4, b4)" by (metis prod_cases3)
  have tl: "t < length to" using assms by linarith
  have "low_bits to_offs acc0 = take to_offs (byte_bits (to ! t))"
    using o by (intro nth_equalityI)
      (auto simp: acc0_def bit_views bit_simps intro!: arg_cong [where f = "bit (to ! t)"])
  then have inv0: "memcpy_inv to ?S0 to t acc0 to_offs"
    using tl o by (simp add: memcpy_inv_def take_partial_byte)
  have G: "memcpy_inv to (?S0 @ ?src) to1 t1 acc1 b1 \<and> 8 * t1 + b1 = 8 * t + to_offs + n
      \<and> length to1 = length to"
    using memcpy_gather_inv [OF g inv0] assms by simp
  have D: "memcpy_inv to (?S0 @ ?src) to4 t4 acc1 b4 \<and> b4 < 8 \<and> 8 * t4 + b4 = 8 * t1 + b1"
    using G t by (intro memcpy_drain_inv [OF d]) auto
  then have "length to4 = length to" by (simp add: memcpy_inv_def)
  then have "bits_of (bits_memcpy_shifted to t from f to_offs from_offs n (n + from_offs))
      = (?S0 @ ?src) @ drop (length (?S0 @ ?src)) (bits_of to)"
    unfolding bits_memcpy_shifted_def acc0_def [symmetric] Let_def g d prod.case
    using D G t by (intro memcpy_finish) auto
  then show ?thesis using t f by (simp add: overwrite_def)
qed

lemma bits_of_eqI:
  assumes "\<And>j k. j < length xs \<Longrightarrow> k < 8 \<Longrightarrow> bit (xs ! j) (7 - k) = zs ! (8 * j + k)"
    and "length zs = 8 * length xs"
  shows "bits_of xs = zs"
proof (rule nth_equalityI)
  fix i assume "i < length (bits_of xs)"
  then show "bits_of xs ! i = zs ! i"
    using assms(1) [of "i div 8" "i mod 8"] by (simp add: bit_views)
qed (simp add: assms)

lemma nth_overwrite_bits:
  assumes "8 * t + o' + n \<le> 8 * length to" and "8 * f + o' + n \<le> 8 * length from"
    and "j < length to" and "k < 8"
  shows "overwrite (bits_of to) (8 * t + o') (take n (drop (8 * f + o') (bits_of from))) ! (8 * j + k)
     = (if 8 * t + o' \<le> 8 * j + k \<and> 8 * j + k < 8 * t + o' + n
        then bit (from ! (f + j - t)) (7 - k) else bit (to ! j) (7 - k))"
proof -
  have "length (take n (drop (8 * f + o') (bits_of from))) = n" using assms by simp
  moreover have "8 * f + o' + (8 * j + k - (8 * t + o')) = 8 * (f + j - t) + k"
    if "8 * t + o' \<le> 8 * j + k" using that assms(4) by linarith
  ultimately show ?thesis using assms by (auto simp: nth_overwrite bit_views)
qed

lemma Suc_diff_Suc': "t \<le> i \<Longrightarrow> t \<noteq> i \<Longrightarrow> Suc (f + i - Suc t) = f + i - t"
  by simp

lemma bits_memcpy_aligned_nth:
  assumes "n > 0" and "o' < 8" and j: "j < length to" and k: "k < 8"
    and f: "8 * f + o' + n \<le> 8 * length from" and t: "8 * t + o' + n \<le> 8 * length to"
  shows "length (bits_memcpy_aligned to t from f o' (n + o')) = length to
     \<and> bit (bits_memcpy_aligned to t from f o' (n + o') ! j) (7 - k)
       = (if 8 * t + o' \<le> 8 * j + k \<and> 8 * j + k < 8 * t + o' + n
          then bit (from ! (f + j - t)) (7 - k) else bit (to ! j) (7 - k))"
proof (cases "n + o' < 8")
  case True
  have "t < length to" using t assms(1) by linarith
  with True j k show ?thesis
    by (auto simp: bits_memcpy_aligned_def Let_def nth_list_update bit_views bit_simps)
next
  case False
  define l where "l = (n + o') div 8"
  define c where "c = (n + o') mod 8"
  have lc: "n + o' = 8 * l + c" "c < 8" "l \<ge> 1" using False by (auto simp: l_def c_def)
  have tl: "t + l \<le> length to" "f + l \<le> length from" using lc t f by linarith+
  have tlc: "c \<noteq> 0 \<Longrightarrow> t + l < length to" "c \<noteq> 0 \<Longrightarrow> f + l < length from" using lc t f by linarith+
  define to1 where "to1 = (if o' = 0 then overwrite to t (take l (drop f from))
      else overwrite (to[t := (to ! t AND NOT (lo_mask o')) OR (from ! f AND lo_mask o')])
        (t + 1) (take (l - 1) (drop (f + 1) from)))"
  have len1: "length to1 = length to" using tl lc by (auto simp: to1_def)
  have to1: "bit (to1 ! i) (7 - k) = (if 8 * t + o' \<le> 8 * i + k \<and> i < t + l
      then bit (from ! (f + i - t)) (7 - k) else bit (to ! i) (7 - k))" if "i < length to" for i
    using that tl lc k assms(2) Suc_diff_Suc' [of t i f]
    by (auto simp: to1_def nth_overwrite nth_list_update bit_views bit_simps nth_append)
  have res: "bits_memcpy_aligned to t from f o' (n + o') = (if c \<noteq> 0 then
      to1[t + l := (to1 ! (t + l) AND NOT (hi_mask c)) OR (from ! (f + l) AND hi_mask c)] else to1)"
    unfolding bits_memcpy_aligned_def Let_def l_def [symmetric] c_def [symmetric] to1_def [symmetric]
    using False by (simp only: if_False)
  show ?thesis
  proof (cases "c \<noteq> 0 \<and> j = t + l")
    case True
    then have "8 * j + k < 8 * t + o' + n \<longleftrightarrow> k < c" "8 * t + o' \<le> 8 * j + k"
      using lc assms(2) by linarith+
    then show ?thesis
      unfolding res using True j k to1 [OF j] len1 by (auto simp: bit_views bit_simps)
  next
    case False
    then have "8 * j + k < 8 * t + o' + n \<longleftrightarrow> j < t + l" using lc k by linarith
    then show ?thesis unfolding res using False to1 [OF j] len1 by auto
  qed
qed

lemma bits_memcpy_correct:
  assumes "to_offs + n \<le> 8 * length to" and "from_offs + n \<le> 8 * length from"
  shows "bits_of (bits_memcpy to to_offs from from_offs n)
     = overwrite (bits_of to) to_offs (take n (drop from_offs (bits_of from)))"
proof (cases "n = 0")
  case True
  then show ?thesis by (simp add: bits_memcpy_def)
next
  case n: False
  let ?t = "to_offs div 8" and ?f = "from_offs div 8" and ?o = "to_offs mod 8" and ?fo = "from_offs mod 8"
  show ?thesis
  proof (cases "?fo = ?o")
    case True
    let ?r = "bits_memcpy_aligned to ?t from ?f ?o (n + ?o)"
    have eqs: "8 * ?t + ?o = to_offs" "8 * ?f + ?o = from_offs"
      using True by (metis mult_div_mod_eq)+
    have "0 < length to" using n assms(1) by linarith
    then have len: "length ?r = length to"
      using bits_memcpy_aligned_nth [of n ?o 0 to 0 ?f "from" ?t] n assms eqs by auto
    have "bits_of ?r = overwrite (bits_of to) to_offs (take n (drop from_offs (bits_of from)))"
    proof (rule bits_of_eqI)
      fix j k assume j: "j < length ?r" and k: "k < (8::nat)"
      show "bit (?r ! j) (7 - k) = overwrite (bits_of to) to_offs (take n (drop from_offs (bits_of from))) ! (8 * j + k)"
        using bits_memcpy_aligned_nth [of n ?o j to k ?f "from" ?t] j k n assms eqs len
          nth_overwrite_bits [of ?t ?o n to ?f "from" j k] by simp
    qed (use len assms in simp_all)
    with True n show ?thesis by (simp add: bits_memcpy_def Let_def)
  next
    case False
    with n assms bits_memcpy_shifted_correct [of n ?o ?fo ?f "from" ?t to] show ?thesis
      by (simp add: bits_memcpy_def Let_def)
  qed
qed

lemma length_bits_memcpy [simp]:
  "to_offs + n \<le> 8 * length to \<Longrightarrow> from_offs + n \<le> 8 * length from \<Longrightarrow>
     length (bits_memcpy to to_offs from from_offs n) = length to"
  using arg_cong [OF bits_memcpy_correct [of to_offs n to from_offs "from"], of length] by simp

section \<open>bits_memset\<close>

definition bits_memset :: "byte list \<Rightarrow> nat \<Rightarrow> bool \<Rightarrow> nat \<Rightarrow> byte list" where
  "bits_memset to to_offs val bit_count =
     (if bit_count = 0 then to
      else
        let t = to_offs div 8; o' = to_offs mod 8; sz = bit_count; n = bit_count + o'; c = to ! t
        in if n \<le> 8 then
             let m = drop_bit o' (hi_mask sz)
             in to[t := if val then c OR m else c AND NOT m]
           else
             let to1 = to[t := if val then c OR lo_mask o' else c AND hi_mask o'];
                 l = n div 8;
                 to2 = overwrite to1 (t + 1) (replicate (l - 1) (if val then 0xff else 0));
                 r = n mod 8
             in if r \<noteq> 0
                then to2[t + l := if val then to2 ! (t + l) OR hi_mask r else to2 ! (t + l) AND lo_mask r]
                else to2)"

lemma bit_0xff: "bit (0xff :: byte) i \<longleftrightarrow> i < 8"
proof -
  have "(0xff :: byte) = mask 8" by (simp add: mask_eq_exp_minus_1)
  then show ?thesis by (simp only: bit_mask_iff) (auto simp: possible_bit_def)
qed

lemma bits_memset_nth:
  assumes n: "n > 0" and t: "to_offs + n \<le> 8 * length to" and j: "j < length to" and k: "k < 8"
  shows "length (bits_memset to to_offs val n) = length to
     \<and> bit (bits_memset to to_offs val n ! j) (7 - k)
       = (if to_offs \<le> 8 * j + k \<and> 8 * j + k < to_offs + n then val else bit (to ! j) (7 - k))"
proof -
  define p where "p = to_offs div 8"
  define o' where "o' = to_offs mod 8"
  have po: "to_offs = 8 * p + o'" "o' < 8" by (simp_all add: p_def o'_def)
  have pl: "p < length to" using po n t by linarith
  show ?thesis
  proof (cases "n + o' \<le> 8")
    case True
    then have "bits_memset to to_offs val n
        = to[p := if val then to ! p OR drop_bit o' (hi_mask n) else to ! p AND NOT (drop_bit o' (hi_mask n))]"
      unfolding bits_memset_def Let_def p_def [symmetric] o'_def [symmetric] using n by simp
    moreover have "to_offs \<le> 8 * j + k \<and> 8 * j + k < to_offs + n \<longleftrightarrow> j = p \<and> o' \<le> k \<and> k < o' + n"
      using True po k by (cases j p rule: linorder_cases) auto
    moreover have "bit (drop_bit o' (hi_mask n)) (7 - k) \<longleftrightarrow> o' \<le> k \<and> k < o' + n"
      using True k by (auto simp: bit_drop_bit_eq bit_views)
    ultimately show ?thesis using pl by (cases "j = p") (auto simp add: bit_simps)
  next
    case False
    define l where "l = (n + o') div 8"
    define r where "r = (n + o') mod 8"
    have lr: "n + o' = 8 * l + r" "r < 8" "l \<ge> 1" using False by (auto simp: l_def r_def)
    have tl: "p + l \<le> length to" and tlr: "r \<noteq> 0 \<Longrightarrow> p + l < length to" using lr t po by linarith+
    define ff :: byte where "ff = 0xff"
    have bit_ff: "bit ff i \<longleftrightarrow> i < 8" for i unfolding ff_def by (rule bit_0xff)
    define to2 where "to2 = overwrite (to[p := if val then to ! p OR lo_mask o' else to ! p AND hi_mask o'])
        (p + 1) (replicate (l - 1) (if val then ff else 0))"
    have res: "bits_memset to to_offs val n = (if r \<noteq> 0
        then to2[p + l := if val then to2 ! (p + l) OR hi_mask r else to2 ! (p + l) AND lo_mask r] else to2)"
      unfolding bits_memset_def Let_def p_def [symmetric] o'_def [symmetric] l_def [symmetric]
        r_def [symmetric] ff_def [symmetric] to2_def [symmetric] using n False by (simp only: if_False) simp
    have len2: "length to2 = length to" using tl lr by (simp add: to2_def)
    have to2: "bit (to2 ! i) (7 - k) = (if to_offs \<le> 8 * i + k \<and> i < p + l then val else bit (to ! i) (7 - k))"
      if "i < length to" for i
    proof -
      have "to_offs \<le> 8 * i + k \<longleftrightarrow> p < i \<or> (i = p \<and> o' \<le> k)"
        using po k by (cases i p rule: linorder_cases) auto
      moreover have "Suc p \<le> i \<and> i < Suc p + (l - 1) \<longleftrightarrow> p < i \<and> i < p + l" using lr by linarith
      ultimately show ?thesis
        using that tl lr k by (simp add: to2_def nth_overwrite nth_list_update bit_views bit_simps bit_ff)
          (cases val; auto simp: bit_ff)
    qed
    show ?thesis
    proof (cases "r \<noteq> 0 \<and> j = p + l")
      case True
      then have "8 * j + k < to_offs + n \<longleftrightarrow> k < r" "to_offs \<le> 8 * j + k" using lr po by linarith+
      then show ?thesis unfolding res using True j k to2 [OF j] len2 by (auto simp: bit_views bit_simps)
    next
      case False
      then have "8 * j + k < to_offs + n \<longleftrightarrow> j < p + l" using lr k po by linarith
      then show ?thesis unfolding res using False to2 [OF j] len2 by auto
    qed
  qed
qed

lemma bits_memset_correct:
  assumes "to_offs + n \<le> 8 * length to"
  shows "bits_of (bits_memset to to_offs val n) = overwrite (bits_of to) to_offs (replicate n val)"
proof (cases "n = 0")
  case True
  then show ?thesis by (simp add: bits_memset_def)
next
  case n: False
  then have "0 < length to" using assms by linarith
  then have len: "length (bits_memset to to_offs val n) = length to"
    using bits_memset_nth [of n to_offs to 0 0 val] n assms by auto
  show ?thesis
  proof (rule bits_of_eqI)
    fix j k assume "j < length (bits_memset to to_offs val n)" and "k < (8::nat)"
    then show "bit (bits_memset to to_offs val n ! j) (7 - k)
        = overwrite (bits_of to) to_offs (replicate n val) ! (8 * j + k)"
      using bits_memset_nth [of n to_offs to j k val] n assms len by (auto simp: nth_overwrite bit_views)
  qed (use len assms in simp_all)
qed

lemma length_bits_memset [simp]:
  "to_offs + n \<le> 8 * length to \<Longrightarrow> length (bits_memset to to_offs val n) = length to"
  using arg_cong [OF bits_memset_correct [of to_offs n to val], of length] by simp

end
