(* ===== verification/Bit_Load.thy ===== *)
theory Bit_Load
  imports Bit_Copy
begin

text \<open>
  The transfer of integers between 64-bit words and bit positions of a buffer
  (\<open>bits_store_long_top\<close>, \<open>bits_load_long_top\<close> and their variants of
  \<open>crypto/common/bitstring.cpp\<close>), with the lemmas that say which bits are written and read.
\<close>

section \<open>Eight-byte accesses\<close>

definition be64_bytes :: "u64 \<Rightarrow> byte list" where
  "be64_bytes w = map (\<lambda>i. ucast (drop_bit (56 - 8 * i) w)) [0..<8]"

text \<open>\<open>td::bswap64\<close> of the bytes of a \<open>uint64\<close> in memory, first byte first.\<close>

definition be64 :: "byte list \<Rightarrow> u64" where
  "be64 bs = foldl (\<lambda>acc b. push_bit 8 acc OR ucast b) 0 bs"

lemma word_of_bits_byte: "word_of_bits (byte_bits b) = (ucast b :: 'a::len word)"
proof (rule bit_word_eqI)
  fix n assume "n < LENGTH('a)"
  then show "bit (word_of_bits (byte_bits b) :: 'a word) n = bit (ucast b :: 'a word) n"
    using bit_byte_less [of b n] by (cases "n < 8") (auto simp: bit_views bit_simps)
qed

lemma foldl_be64:
  "foldl (\<lambda>acc b. push_bit 8 acc OR ucast b) (word_of_bits xs :: u64) bs = word_of_bits (xs @ bits_of bs)"
proof (induction bs arbitrary: xs)
  case (Cons b bs)
  have "(push_bit 8 (word_of_bits xs) OR ucast b :: u64) = word_of_bits (xs @ byte_bits b)"
    by (simp add: word_of_bits_append word_of_bits_byte)
  with Cons.IH [of "xs @ byte_bits b"] show ?case by simp
qed simp

lemma be64_eq: "be64 bs = word_of_bits (bits_of bs)"
  using foldl_be64 [of "[]" bs] by (simp add: be64_def)

lemma length_be64_bytes [simp]: "length (be64_bytes w) = 8"
  by (simp add: be64_bytes_def)

lemma nth_be64_bytes: "i < 8 \<Longrightarrow> be64_bytes w ! i = ucast (drop_bit (56 - 8 * i) w)"
  by (simp add: be64_bytes_def)

lemma bits_of_be64_bytes: "bits_of (be64_bytes w) = top_bits64 64 w"
proof (rule nth_equalityI)
  fix i assume "i < length (bits_of (be64_bytes w))"
  then have i: "i < 64" by simp
  define d where "d = i div 8"
  define m where "m = i mod 8"
  have "i = 8 * d + m" "m < 8" by (simp_all add: d_def m_def)
  then have idx: "i = 8 * d + m" and dm: "d < 8" "m < 8" using i by linarith+
  then have "8 * d \<le> 56" "m \<le> 7" by linarith+
  then have dm': "56 - 8 * d + (7 - m) = 63 - i" unfolding idx by simp
  have "bits_of (be64_bytes w) ! i = bit (be64_bytes w ! d) (7 - m)"
    using i by (simp add: bit_views d_def m_def)
  also have "\<dots> = bit w (63 - i)"
    unfolding dm' [symmetric] using dm diff_less_Suc [of 7 m] by (auto simp: nth_be64_bytes bit_simps)
  also have "\<dots> = top_bits64 64 w ! i" using i by (simp add: bit_views)
  finally show "bits_of (be64_bytes w) ! i = top_bits64 64 w ! i" .
qed simp

lemma take_top_bits64: "n \<le> m \<Longrightarrow> take n (top_bits64 m w) = top_bits64 n w"
  by (rule nth_equalityI) (auto simp: bit_views)

section \<open>Storing\<close>

text \<open>The byte loop \<open>while (p >= q) { *to++ = (unsigned char)(z >> p); p -= 8; }\<close>.\<close>

function store_top_bytes :: "byte list \<Rightarrow> nat \<Rightarrow> u64 \<Rightarrow> int \<Rightarrow> int \<Rightarrow> byte list \<times> nat \<times> int" where
  "store_top_bytes to t z p q =
     (if p < q then (to, t, p)
      else store_top_bytes (to[t := ucast (drop_bit (nat p) z)]) (t + 1) z (p - 8) q)"
  by pat_completeness auto
termination by (relation "measure (\<lambda>(to, t, z, p, q). nat (p - q + 1))") auto

declare store_top_bytes.simps [simp del]

definition bits_store_long_top :: "byte list \<Rightarrow> nat \<Rightarrow> u64 \<Rightarrow> nat \<Rightarrow> byte list" where
  "bits_store_long_top to to_offs0 val top_bits0 =
     (if top_bits0 = 0 then to
      else
        let t = to_offs0 div 8; to_offs = to_offs0 mod 8
        in if to_offs = 0 \<and> top_bits0 mod 8 = 0 then
             overwrite to t (take (top_bits0 div 8) (be64_bytes val))
           else
             let z = push_bit 56 (ucast (to ! t AND hi_mask to_offs)) OR drop_bit to_offs val;
                 top_bits = top_bits0 + to_offs
             in if top_bits > 64 then
                  let to1 = overwrite to t (be64_bytes z);
                      z1 = push_bit (8 - to_offs) val;
                      m = lo_mask (top_bits - 64)
                  in to1[t + 8 := (to1 ! (t + 8) AND m) OR (ucast z1 AND NOT m)]
                else
                  let q = 64 - int top_bits;
                      (to1, t1, p1) = (if q \<le> 32 then (store_be32 to t (drop_bit 32 z), t + 4, 24)
                                       else (to, t, 56));
                      (to2, t2, p2) = store_top_bytes to1 t1 z p1 q;
                      rest = p2 + 8 - q
                  in if rest > 0 then
                       let m = lo_mask (nat rest)
                       in to2[t2 := (to2 ! t2 AND m) OR (ucast (drop_bit (nat p2) z) AND NOT m)]
                     else to2)"

definition bits_store_long :: "byte list \<Rightarrow> nat \<Rightarrow> u64 \<Rightarrow> nat \<Rightarrow> byte list" where
  "bits_store_long to to_offs val bits = bits_store_long_top to to_offs (push_bit (64 - bits) val) bits"

section \<open>Loading\<close>

text \<open>\<open>unsigned long long tmp; std::memcpy(&tmp, from, k)\<close> leaves the other bytes of \<open>tmp\<close>
  uninitialised: they are \<open>junk\<close> here, and the mask removes them.\<close>

definition bits_load_long_top_junk :: "byte list \<Rightarrow> byte list \<Rightarrow> nat \<Rightarrow> nat \<Rightarrow> u64" where
  "bits_load_long_top_junk junk from from_offs0 top_bits =
     (if top_bits = 0 then 0
      else
        let f = from_offs0 div 8; from_offs = from_offs0 mod 8; m = push_bit (64 - top_bits) (- 1)
        in if from_offs + top_bits \<le> 64 then
             let k = (from_offs + top_bits + 7) div 8;
                 tmp = take k (drop f from) @ drop k junk
             in push_bit from_offs (be64 tmp) AND m
           else
             let z = push_bit from_offs (be64 (take 8 (drop f from)))
             in (z OR ucast (drop_bit (8 - from_offs) (from ! (f + 8)))) AND m)"

definition bits_load_long_top :: "byte list \<Rightarrow> nat \<Rightarrow> nat \<Rightarrow> u64" where
  "bits_load_long_top = bits_load_long_top_junk (replicate 8 0)"

definition bits_load_ulong :: "byte list \<Rightarrow> nat \<Rightarrow> nat \<Rightarrow> u64" where
  "bits_load_ulong from from_offs bits =
     (if bits = 0 then 0 else drop_bit (64 - bits) (bits_load_long_top from from_offs bits))"

definition bits_load_long :: "byte list \<Rightarrow> nat \<Rightarrow> nat \<Rightarrow> u64" where
  "bits_load_long from from_offs bits = signed_drop_bit (64 - bits) (bits_load_long_top from from_offs bits)"

lemma word_of_bits_take_eq:
  assumes "length bs = 8" and "o' + n \<le> 64" and "n \<le> 64"
  shows "(push_bit o' (be64 bs) AND push_bit (64 - n) (- 1) :: u64)
     = push_bit (64 - n) (word_of_bits (take n (drop o' (bits_of bs))))"
proof (rule bit_word_eqI)
  fix i assume "i < LENGTH(64)"
  then have i: "i < 64" by simp
  then show "bit (push_bit o' (be64 bs) AND push_bit (64 - n) (- 1) :: u64) i
      = bit (push_bit (64 - n) (word_of_bits (take n (drop o' (bits_of bs)))) :: u64) i"
  proof (cases "64 - n \<le> i")
    case True
    have "63 - (i - o') = o' + (n - 1 - (i - (64 - n)))" "o' \<le> i" if "i - (64 - n) < n"
      using True i assms that by linarith+
    moreover have "i - (64 - n) < n" using True i assms by linarith
    ultimately show ?thesis
      using True i assms by (auto simp: be64_eq bit_simps bit_views)
  qed (auto simp: bit_simps)
qed

lemma word_of_bits_mask_top:
  assumes "length xs = 64" and "n \<le> 64"
  shows "(word_of_bits xs AND push_bit (64 - n) (- 1) :: u64) = push_bit (64 - n) (word_of_bits (take n xs))"
proof (rule bit_word_eqI)
  fix i assume "i < LENGTH(64)"
  moreover have "n - 1 - (i - (64 - n)) = 63 - i" if "64 - n \<le> i" "i < 64" using that assms by linarith
  ultimately show "bit (word_of_bits xs AND push_bit (64 - n) (- 1) :: u64) i
      = bit (push_bit (64 - n) (word_of_bits (take n xs)) :: u64) i"
    using assms by (auto simp: bit_simps bit_views)
qed

lemma word_of_bits_nine:
  assumes "length bs = 8" and "0 < o'" and "o' < 8"
  shows "(push_bit o' (be64 bs) OR ucast (drop_bit (8 - o') c) :: u64)
     = word_of_bits (take 64 (drop o' (bits_of bs @ byte_bits c)))"
proof (rule bit_word_eqI)
  fix i assume "i < LENGTH(64)"
  then have i: "i < 64" by simp
  show "bit (push_bit o' (be64 bs) OR ucast (drop_bit (8 - o') c) :: u64) i
      = bit (word_of_bits (take 64 (drop o' (bits_of bs @ byte_bits c))) :: u64) i"
  proof (cases "o' \<le> i")
    case True
    have "63 - (i - o') = o' + (63 - i)" "\<not> bit c (8 - o' + i)" "63 - i < 64 - o'" "i - o' < 64"
      using True i assms bit_byte_less [of c "8 - o' + i"] by linarith+
    then show ?thesis
      using True i assms by (simp add: be64_eq bit_simps bit_views nth_append)
  next
    case False
    then have "7 - (o' + (63 - i) - 64) = 8 - o' + i" "\<not> 63 - i < 64 - o'" using assms i by linarith+
    then show ?thesis
      using False i assms by (simp add: be64_eq bit_simps bit_views nth_append)
  qed
qed

lemma bits_load_long_top_junk_correct:
  assumes n: "n \<le> 64" and f: "from_offs + n \<le> 8 * length from" and j: "length junk = 8"
  shows "bits_load_long_top_junk junk from from_offs n
     = push_bit (64 - n) (word_of_bits (take n (drop from_offs (bits_of from))))"
proof (cases "n = 0")
  case True
  then show ?thesis by (simp add: bits_load_long_top_junk_def)
next
  case n0: False
  define p where "p = from_offs div 8"
  define o' where "o' = from_offs mod 8"
  have po: "from_offs = 8 * p + o'" "o' < 8" by (simp_all add: p_def o'_def)
  have dr: "drop from_offs (bits_of from) = drop o' (bits_of (drop p from))"
    by (simp add: po drop_bits_of [symmetric] add.commute)
  show ?thesis
  proof (cases "o' + n \<le> 64")
    case True
    define k where "k = (o' + n + 7) div 8"
    define tmp where "tmp = take k (drop p from) @ drop k junk"
    have k: "o' + n \<le> 8 * k" "k \<le> 8" "p + k \<le> length from"
      using True po f by (auto simp: k_def)
    have lt: "length tmp = 8" using k j by (simp add: tmp_def)
    have "bits_load_long_top_junk junk from from_offs n = push_bit o' (be64 tmp) AND push_bit (64 - n) (- 1)"
      unfolding bits_load_long_top_junk_def Let_def p_def [symmetric] o'_def [symmetric] k_def [symmetric]
        tmp_def [symmetric] using n0 True by simp
    also have "\<dots> = push_bit (64 - n) (word_of_bits (take n (drop o' (bits_of tmp))))"
      using word_of_bits_take_eq [OF lt True n] .
    also have "take n (drop o' (bits_of tmp)) = take n (drop o' (take (8 * k) (bits_of tmp)))"
      using k by (simp add: drop_take min_def)
    also have "take (8 * k) (bits_of tmp) = take (8 * k) (bits_of (drop p from))"
      using k by (simp add: take_bits_of tmp_def)
    also have "take n (drop o' \<dots>) = take n (drop from_offs (bits_of from))"
      using k by (simp add: dr drop_take min_def)
    finally show ?thesis .
  next
    case False
    have l: "p + 8 < length from" and o0: "0 < o'" using False po f n by linarith+
    let ?xs = "take 64 (drop o' (bits_of (take 8 (drop p from)) @ byte_bits (from ! (p + 8))))"
    have nine: "take 9 (drop p from) = take 8 (drop p from) @ [from ! (p + 8)]"
      using l take_Suc_conv_app_nth [of 8 "drop p from"] by (simp add: numeral_eq_Suc)
    have "bits_load_long_top_junk junk from from_offs n
        = (push_bit o' (be64 (take 8 (drop p from))) OR ucast (drop_bit (8 - o') (from ! (p + 8))))
          AND push_bit (64 - n) (- 1)"
      unfolding bits_load_long_top_junk_def Let_def p_def [symmetric] o'_def [symmetric]
      using n0 False by simp
    also have "\<dots> = word_of_bits ?xs AND push_bit (64 - n) (- 1)"
      using l o0 po by (subst word_of_bits_nine) auto
    also have "\<dots> = push_bit (64 - n) (word_of_bits (take n ?xs))"
      using l po n by (intro word_of_bits_mask_top) auto
    also have "bits_of (take 8 (drop p from)) @ byte_bits (from ! (p + 8)) = take 72 (bits_of (drop p from))"
      using take_bits_of [of 9 "drop p from"] by (simp add: nine)
    also have "take n (take 64 (drop o' (take 72 (bits_of (drop p from))))) = take n (drop from_offs (bits_of from))"
      unfolding dr using n po(2) by (simp add: drop_take min_def)
    finally show ?thesis .
  qed
qed

lemma bits_load_long_top_correct:
  "\<lbrakk>n \<le> 64; from_offs + n \<le> 8 * length from\<rbrakk> \<Longrightarrow>
     bits_load_long_top from from_offs n = push_bit (64 - n) (word_of_bits (take n (drop from_offs (bits_of from))))"
  by (simp add: bits_load_long_top_def bits_load_long_top_junk_correct)

lemma drop_push_word_of_bits:
  assumes "length xs = n" and "n \<le> 64"
  shows "drop_bit (64 - n) (push_bit (64 - n) (word_of_bits xs :: u64)) = word_of_bits xs"
  by (rule bit_word_eqI) (use assms in \<open>auto simp: bit_simps bit_views\<close>)

lemma bits_load_ulong_correct:
  assumes "n \<le> 64" and "from_offs + n \<le> 8 * length from"
  shows "bits_load_ulong from from_offs n = word_of_bits (take n (drop from_offs (bits_of from)))"
  using assms by (simp add: bits_load_ulong_def bits_load_long_top_correct drop_push_word_of_bits)

lemma unat_bits_load_ulong:
  assumes "n \<le> 64" and "from_offs + n \<le> 8 * length from"
  shows "unat (bits_load_ulong from from_offs n) = nat_of_bits (take n (drop from_offs (bits_of from)))"
  using assms by (simp add: bits_load_ulong_correct unat_word_of_bits)

text \<open>The arithmetic shift of \<open>bits_load_long\<close> reads the field in two's complement.\<close>

lemma sint_signed_drop_top:
  assumes l: "length xs = n" and n: "0 < n" "n \<le> 64" and top: "\<And>i. i < n \<Longrightarrow> bit (z :: u64) (63 - i) = xs ! i"
  shows "sint (signed_drop_bit (64 - n) z) = int_of_bits True xs"
proof -
  obtain b ys where xs: "xs = b # ys" using n l by (cases xs) auto
  have bitz: "bit z (64 - n + j) \<longleftrightarrow> bit (int (nat_of_bits xs)) j" if "j < n" for j
  proof -
    have e: "64 - n + j = 63 - (n - 1 - j)" and i: "n - 1 - j < n" using that n by linarith+
    show ?thesis unfolding e top [OF i] using that l by (simp add: bit_views bit_of_nat_iff)
  qed
  have "sint (signed_drop_bit (64 - n) z) = drop_bit (64 - n) (sint z)"
    by (simp add: sint_signed_drop_bit_eq)
  also have "sint z = signed_take_bit 63 (uint z)" by (simp add: sint_uint)
  also have "drop_bit (64 - n) (signed_take_bit 63 (uint z)) = signed_take_bit (n - 1) (int (nat_of_bits xs))"
  proof (rule bit_eqI)
    fix i
    have "min 63 (64 - n + i) = 64 - n + min (n - 1) i" "min (n - 1) i < n" "64 - n + min (n - 1) i < 64"
      using n by auto
    then show "bit (drop_bit (64 - n) (signed_take_bit 63 (uint z))) i
        = bit (signed_take_bit (n - 1) (int (nat_of_bits xs))) i"
      by (simp add: bit_drop_bit_eq bit_signed_take_bit_iff bit_uint_iff bitz)
  qed
  also have "\<dots> = int (nat_of_bits xs) - (if b then 2 ^ n else 0)"
  proof -
    have "take_bit n (int (nat_of_bits xs)) = int (nat_of_bits xs)"
      using nat_of_bits_less [of xs] l by (metis of_nat_less_iff of_nat_numeral of_nat_power take_bit_int_eq_self of_nat_0_le_iff)
    moreover have "bit (int (nat_of_bits xs)) (n - 1) = b"
      using n l xs by (simp add: bit_views bit_of_nat_iff)
    ultimately show ?thesis
      using n signed_take_bit_eq_take_bit_minus [of "n - 1" "int (nat_of_bits xs)"] by simp
  qed
  finally show ?thesis using l by (simp add: int_of_bits_def xs)
qed

lemma sint_bits_load_long:
  assumes n: "0 < n" "n \<le> 64" and f: "from_offs + n \<le> 8 * length from"
  shows "sint (bits_load_long from from_offs n) = int_of_bits True (take n (drop from_offs (bits_of from)))"
proof -
  define xs where "xs = take n (drop from_offs (bits_of from))"
  have l: "length xs = n" using f by (simp add: xs_def)
  have top: "bit (push_bit (64 - n) (word_of_bits xs) :: u64) (63 - i) = xs ! i" if "i < n" for i
  proof -
    have "63 - i - (64 - n) = n - 1 - i" "64 - n \<le> 63 - i" "n - 1 - (n - 1 - i) = i" "n - 1 - i < 64" "63 - i < 64"
      using that n by linarith+
    then show ?thesis using that l by (simp add: bit_simps bit_views)
  qed
  have "bits_load_long from from_offs n = signed_drop_bit (64 - n) (push_bit (64 - n) (word_of_bits xs))"
    using n f by (simp add: bits_load_long_def bits_load_long_top_correct xs_def)
  then show ?thesis using sint_signed_drop_top [OF l n top] by (simp add: xs_def)
qed

section \<open>The stored bits\<close>

lemma be32_bytes_be64_bytes: "be32_bytes (drop_bit 32 z) = take 4 (be64_bytes z)"
  by (simp add: be32_bytes_def be64_bytes_def upt_rec numeral_eq_Suc)

lemma overwrite_snoc:
  "t + length ys < length xs \<Longrightarrow> (overwrite xs t ys)[t + length ys := y] = overwrite xs t (ys @ [y])"
  by (rule nth_equalityI) (auto simp: nth_overwrite nth_list_update nth_append)

lemma store_top_bytes_eq:
  assumes "s \<le> j" and "j \<le> 8" and "r < 8" and "t + j \<le> length to" and "q = 64 - int (8 * j + r)"
  shows "store_top_bytes (overwrite to t (take s (be64_bytes z))) (t + s) z (56 - 8 * int s) q
     = (overwrite to t (take j (be64_bytes z)), t + j, 56 - 8 * int j)"
  using assms(1)
proof (induction "j - s" arbitrary: s)
  case 0
  then have "s = j" by simp
  moreover have "56 - 8 * int j < q" using assms by simp
  ultimately show ?case by (simp add: store_top_bytes.simps)
next
  case (Suc d)
  then have s: "s < 8" "s < j" using assms by linarith+
  have p: "\<not> 56 - 8 * int s < q" using s assms by linarith
  have nat_p: "nat (56 - 8 * int s) = 56 - 8 * s" by linarith
  have "(overwrite to t (take s (be64_bytes z)))[t + s := ucast (drop_bit (56 - 8 * s) z)]
      = overwrite to t (take (Suc s) (be64_bytes z))"
    using s assms overwrite_snoc [of t "take s (be64_bytes z)" to "ucast (drop_bit (56 - 8 * s) z)"]
    by (simp add: take_Suc_conv_app_nth nth_be64_bytes)
  moreover have "56 - 8 * int s - 8 = 56 - 8 * int (Suc s)" by simp
  ultimately have "store_top_bytes (overwrite to t (take s (be64_bytes z))) (t + s) z (56 - 8 * int s) q
      = store_top_bytes (overwrite to t (take (Suc s) (be64_bytes z))) (t + Suc s) z (56 - 8 * int (Suc s)) q"
    using p nat_p by (simp add: store_top_bytes.simps [of _ "t + s"])
  then show ?case using Suc.hyps(1) [of "Suc s"] Suc.hyps(2) s by simp
qed

lemma bit_be64_bytes:
  assumes "m < 8" and "k < 8"
  shows "bit (be64_bytes z ! m) (7 - k) = bit z (63 - (8 * m + k))"
proof -
  have "8 * m \<le> 56" "k \<le> 7" using assms by linarith+
  then have "56 - 8 * m + (7 - k) = 63 - (8 * m + k)" "7 - k < 8" by simp_all
  then show ?thesis using assms by (simp add: nth_be64_bytes bit_simps)
qed

lemma bits_store_long_top_small:
  assumes "n > 0" and "n + to_offs mod 8 \<le> 64" and "\<not> (to_offs mod 8 = 0 \<and> n mod 8 = 0)"
    and "p = to_offs div 8" and "o' = to_offs mod 8" and "j = (n + o') div 8" and "r = (n + o') mod 8"
    and "z = push_bit 56 (ucast (to ! p AND hi_mask o')) OR drop_bit o' val"
    and "w = overwrite to p (take j (be64_bytes z))" and "p + j \<le> length to"
  shows "bits_store_long_top to to_offs val n = (if r > 0
     then w[p + j := (w ! (p + j) AND lo_mask r) OR (ucast (drop_bit (56 - 8 * j) z) AND NOT (lo_mask r))]
     else w)"
proof -
  have jr: "n + o' = 8 * j + r" "r < 8" "j \<le> 8" using assms(2,5-7) by auto
  define q where "q = 64 - int (8 * j + r)"
  have q: "64 - int (n + o') = q" using jr by (simp add: q_def)
  have "\<exists>s. (if q \<le> 32 then (store_be32 to p (drop_bit 32 z), p + 4, 24) else (to, p, 56))
      = (overwrite to p (take s (be64_bytes z)), p + s, 56 - 8 * int s) \<and> s \<le> j"
  proof (cases "q \<le> 32")
    case True
    then show ?thesis using jr
      by (intro exI [of _ 4]) (auto simp: store_be32_def be32_bytes_be64_bytes q_def)
  next
    case False
    then show ?thesis by (intro exI [of _ 0]) simp
  qed
  then obtain s where s: "(if q \<le> 32 then (store_be32 to p (drop_bit 32 z), p + 4, 24) else (to, p, 56))
      = (overwrite to p (take s (be64_bytes z)), p + s, 56 - 8 * int s)" "s \<le> j" by blast
  have st: "store_top_bytes (overwrite to p (take s (be64_bytes z))) (p + s) z (56 - 8 * int s) q = (w, p + j, 56 - 8 * int j)"
    unfolding assms(9) by (rule store_top_bytes_eq [OF s(2) jr(3,2) assms(10) q_def])
  have rest: "56 - 8 * int j + 8 - q = int r" by (simp add: q_def)
  have pj: "nat (56 - 8 * int j) = 56 - 8 * j" by linarith
  have "(n = 0) = False" "(o' = 0 \<and> n mod 8 = 0) = False" "(64 < n + o') = False"
    using assms by auto
  then show ?thesis
    unfolding bits_store_long_top_def Let_def assms(4) [symmetric] assms(5) [symmetric] assms(8) [symmetric]
    by (simp only: if_False q s prod.case st rest pj nat_int of_nat_0_less_iff)
qed

lemma bits_store_long_top_nth:
  assumes n: "0 < n" "n \<le> 64" and t: "to_offs + n \<le> 8 * length to" and i: "i < length to" and k: "k < 8"
  shows "length (bits_store_long_top to to_offs val n) = length to
     \<and> bit (bits_store_long_top to to_offs val n ! i) (7 - k)
       = (if to_offs \<le> 8 * i + k \<and> 8 * i + k < to_offs + n then bit val (63 - (8 * i + k - to_offs))
          else bit (to ! i) (7 - k))"
proof -
  define p where "p = to_offs div 8"
  define o' where "o' = to_offs mod 8"
  have po: "to_offs = 8 * p + o'" "o' < 8" by (simp_all add: p_def o'_def)
  define z where "z = push_bit 56 (ucast (to ! p AND hi_mask o')) OR drop_bit o' val"
  have zb: "bit z (63 - m) = (if m < o' then bit (to ! p) (7 - m) else bit val (63 - (m - o')))"
    if "m < 64" for m
  proof -
    have eq: "63 - (m - o') = o' + (63 - m)" if "o' \<le> m" using that \<open>m < 64\<close> by linarith
    have "63 - m - 56 = 7 - m" by simp
    then show ?thesis using that po(2) eq bit_imp_le_length [of val "o' + (63 - m)"]
      by (auto simp: z_def bit_simps bit_views)
  qed
  have lo: "to_offs \<le> 8 * i + k \<longleftrightarrow> p < i \<or> (i = p \<and> o' \<le> k)"
    using po k by (cases i p rule: linorder_cases) auto
  define D where "D = 8 * i + k - to_offs"
  define M where "M = 8 * (i - p) + k"
  have off: "p \<le> i \<Longrightarrow> D = M - o'" using po by (auto simp: D_def M_def)
  have M: "p < i \<Longrightarrow> \<not> M < o'" "M = 8 * (i - p) + k" using po by (auto simp: M_def)
  have Mp: "i = p \<Longrightarrow> M = k" by (simp add: M_def)
  consider "o' = 0 \<and> n mod 8 = 0" | "\<not> (o' = 0 \<and> n mod 8 = 0)" "n + o' > 64"
    | "\<not> (o' = 0 \<and> n mod 8 = 0)" "n + o' \<le> 64" by linarith
  then show ?thesis
  proof cases
    case 1
    define j where "j = n div 8"
    have j: "n = 8 * j" "j \<le> 8" using 1 n by (auto simp: j_def)
    have pj: "p + j \<le> length to" using j t po 1 by linarith
    have res: "bits_store_long_top to to_offs val n = overwrite to p (take j (be64_bytes val))"
      unfolding bits_store_long_top_def Let_def p_def [symmetric] o'_def [symmetric] j_def [symmetric]
      using n 1 by simp
    have hi: "8 * i + k < to_offs + n \<longleftrightarrow> i < p + j" using 1 po j k by linarith
    have "bit (be64_bytes val ! (i - p)) (7 - k) = bit val (63 - M)" if "i < p + j"
      unfolding M_def using that j k by (intro bit_be64_bytes) auto
    then show ?thesis unfolding res D_def [symmetric] lo hi using pj j(2) 1 off i
      by (auto simp: nth_overwrite)
  next
    case 2
    have p8: "p + 8 < length to" using 2 t po by linarith
    have res: "bits_store_long_top to to_offs val n = (overwrite to p (be64_bytes z))[p + 8 :=
        (overwrite to p (be64_bytes z) ! (p + 8) AND lo_mask (n + o' - 64))
         OR (ucast (push_bit (8 - o') val) AND NOT (lo_mask (n + o' - 64)))]"
      unfolding bits_store_long_top_def Let_def p_def [symmetric] o'_def [symmetric] z_def [symmetric]
      using n 2 by auto
    show ?thesis
    proof (cases "i = p + 8")
      case True
      have hi: "8 * i + k < to_offs + n \<longleftrightarrow> k < n + o' - 64" using True po 2 by linarith
      have "bit (ucast (push_bit (8 - o') val) :: byte) (7 - k) = bit val (63 - D)" if "k < n + o' - 64"
      proof -
        have "D = 64 + k - o'" using off True by (simp add: M_def)
        moreover have "7 - k - (8 - o') = 63 - (64 + k - o')" "8 - o' \<le> 7 - k" "7 - k < 8" "7 - k < 64"
          using that po(2) n by linarith+
        ultimately show ?thesis by (simp add: bit_simps)
      qed
      moreover have "k < n + o' - 64 \<longleftrightarrow> \<not> (7 - k + (n + o' - 64) < 8)" using k by linarith
      ultimately show ?thesis unfolding res D_def [symmetric] hi lo using True p8
        by (auto simp: nth_overwrite bit_and_iff bit_or_iff bit_not_iff bit_lo_mask)
    next
      case False
      have hi: "8 * i + k < to_offs + n \<longleftrightarrow> i < p + 8" using False po 2 k n by linarith
      have "bit (be64_bytes z ! (i - p)) (7 - k) = bit z (63 - M)" "M < 64" if "i < p + 8"
        unfolding M_def using that k by (auto intro!: bit_be64_bytes)
      then show ?thesis unfolding res D_def [symmetric] lo hi using False p8 off i M(1) Mp
        by (cases i p rule: linorder_cases) (auto simp: nth_overwrite zb)
    qed
  next
    case 3
    define j where "j = (n + o') div 8"
    define r where "r = (n + o') mod 8"
    have jr: "n + o' = 8 * j + r" "r < 8" "j \<le> 8" using 3 by (auto simp: j_def r_def)
    have pj: "p + j \<le> length to" and pjr: "r > 0 \<Longrightarrow> p + j < length to" using jr t po by linarith+
    define w where "w = overwrite to p (take j (be64_bytes z))"
    have lw: "length w = length to" using pj jr by (simp add: w_def)
    have w: "bit (w ! i) (7 - k) = (if p \<le> i \<and> i < p + j then bit z (63 - M) else bit (to ! i) (7 - k))"
      using pj jr i k unfolding M_def by (auto simp: w_def nth_overwrite bit_be64_bytes)
    have res: "bits_store_long_top to to_offs val n = (if r > 0
       then w[p + j := (w ! (p + j) AND lo_mask r) OR (ucast (drop_bit (56 - 8 * j) z) AND NOT (lo_mask r))]
       else w)"
      by (rule bits_store_long_top_small [OF n(1) 3(2)[unfolded o'_def] 3(1)[unfolded o'_def]
          p_def o'_def j_def r_def z_def w_def pj])
    show ?thesis
    proof (cases "r > 0 \<and> i = p + j")
      case True
      have j7: "j \<le> 7" using True jr 3 by linarith
      have hi: "8 * i + k < to_offs + n \<longleftrightarrow> k < r" using True po jr by linarith
      have m: "56 - 8 * j + (7 - k) = 63 - M" "M < 64" "M = 8 * j + k" using j7 k True by (simp_all add: M_def)
      have "bit (ucast (drop_bit (56 - 8 * j) z) :: byte) (7 - k) = bit z (63 - M)"
        using k diff_less_Suc [of 7 k] by (simp add: bit_simps m(1))
      moreover have "k < r \<longleftrightarrow> \<not> (7 - k + r < 8)" using k by linarith
      ultimately show ?thesis unfolding res D_def [symmetric] lo hi using True pjr lw w off m(2) M(1) Mp
        by (cases "j = 0") (auto simp: bit_and_iff bit_or_iff bit_not_iff bit_lo_mask zb)
    next
      case False
      have hi: "8 * i + k < to_offs + n \<longleftrightarrow> i < p + j" using False po jr k by linarith
      have "M < 64" if "i < p + j" unfolding M_def using that k jr by linarith
      then have "bit (w ! i) (7 - k) = (if (p < i \<or> i = p \<and> o' \<le> k) \<and> i < p + j
          then bit val (63 - D) else bit (to ! i) (7 - k))"
        unfolding w using off M(1) Mp by (cases i p rule: linorder_cases) (auto simp: zb)
      then show ?thesis unfolding res D_def [symmetric] lo hi using False lw by auto
    qed
  qed
qed

lemma bits_store_long_top_correct:
  assumes "n \<le> 64" and "to_offs + n \<le> 8 * length to"
  shows "bits_of (bits_store_long_top to to_offs val n) = overwrite (bits_of to) to_offs (top_bits64 n val)"
proof (cases "n = 0")
  case True
  then show ?thesis by (simp add: bits_store_long_top_def top_bits64_def)
next
  case n: False
  then have "0 < length to" using assms by linarith
  then have len: "length (bits_store_long_top to to_offs val n) = length to"
    using bits_store_long_top_nth [of n to_offs to 0 0 val] n assms by auto
  show ?thesis
  proof (rule bits_of_eqI)
    fix j k assume "j < length (bits_store_long_top to to_offs val n)" and "k < (8::nat)"
    then show "bit (bits_store_long_top to to_offs val n ! j) (7 - k)
        = overwrite (bits_of to) to_offs (top_bits64 n val) ! (8 * j + k)"
      using bits_store_long_top_nth [of n to_offs to j k val] n assms len
      by (auto simp: nth_overwrite bit_views)
  qed (use len assms in simp_all)
qed

lemma length_bits_store_long_top [simp]:
  "n \<le> 64 \<Longrightarrow> to_offs + n \<le> 8 * length to \<Longrightarrow> length (bits_store_long_top to to_offs val n) = length to"
  using arg_cong [OF bits_store_long_top_correct [of n to_offs to val], of length] by simp

lemma top_bits64_push: "n \<le> 64 \<Longrightarrow> top_bits64 n (push_bit (64 - n) w) = low_bits n w"
  by (rule nth_equalityI) (auto simp: bit_views bit_simps)

lemma bits_store_long_correct:
  "n \<le> 64 \<Longrightarrow> to_offs + n \<le> 8 * length to \<Longrightarrow>
     bits_of (bits_store_long to to_offs val n) = overwrite (bits_of to) to_offs (low_bits n val)"
  by (simp add: bits_store_long_def bits_store_long_top_correct top_bits64_push)

text \<open>What was stored is loaded again.\<close>

lemma load_stored_long:
  assumes "n \<le> 64" and "offs + n \<le> 8 * length m"
  shows "bits_load_ulong (bits_store_long m offs val n) offs n = take_bit n val"
proof -
  have l: "bits_of (bits_store_long m offs val n) = overwrite (bits_of m) offs (low_bits n val)"
    by (rule bits_store_long_correct [OF assms])
  have "8 * length (bits_store_long m offs val n) = 8 * length m"
    using assms arg_cong [OF l, of length] by simp
  then have "bits_load_ulong (bits_store_long m offs val n) offs n = word_of_bits (take n (drop offs (overwrite (bits_of m) offs (low_bits n val))))"
    using assms by (simp add: bits_load_ulong_correct l)
  also have "take n (drop offs (overwrite (bits_of m) offs (low_bits n val))) = low_bits n val"
    using assms by (simp add: overwrite_def)
  finally show ?thesis using assms(1) by (simp add: word_of_low_bits)
qed

end
