(* ===== verification/Bit_Scan.thy ===== *)
theory Bit_Scan
  imports Bit_Load
begin

text \<open>
  Searching and comparing bit strings: the bit counts of \<open>td/utils/bits.h\<close>, and \<open>bits_memscan\<close>,
  \<open>bits_memscan_rev\<close>, \<open>bits_memcmp\<close> and \<open>bits_lexcmp\<close> of \<open>crypto/common/bitstring.cpp\<close>. The
  specification of the first two is \<open>scan\<close>, the length of the run at the start of a bit list.
\<close>

section \<open>Runs of equal bits\<close>

definition scan :: "bool \<Rightarrow> bool list \<Rightarrow> nat" where
  "scan c xs = length (takeWhile ((=) c) xs)"

lemma scan_Nil [simp]: "scan c [] = 0"
  by (simp add: scan_def)

lemma scan_Cons [simp]: "scan c (x # xs) = (if x = c then Suc (scan c xs) else 0)"
  by (auto simp: scan_def)

lemma scan_le: "scan c xs \<le> length xs"
  by (simp add: scan_def length_takeWhile_le)

lemma scan_append: "scan c (xs @ ys) = (if scan c xs = length xs then length xs + scan c ys else scan c xs)"
  by (induction xs) auto

lemma scan_take: "scan c (take n xs) = min n (scan c xs)"
  by (induction xs arbitrary: n) (auto simp: take_Cons' min_def)

lemma scan_replicate [simp]: "scan c (replicate n c) = n"
  by (induction n) auto

lemma scan_full: "scan c xs = length xs \<longleftrightarrow> (\<forall>x \<in> set xs. x = c)"
proof (induction xs)
  case (Cons x xs)
  then show ?case using scan_le [of c xs] by auto
qed simp

lemma scan_map_neq: "scan False (map (\<lambda>x. x = (\<not> c)) xs) = scan c xs"
  by (induction xs) auto

lemma nth_scan: "scan c xs < length xs \<Longrightarrow> xs ! scan c xs \<noteq> c"
  by (induction xs) auto

lemma nth_less_scan: "i < scan c xs \<Longrightarrow> xs ! i = c"
  by (induction xs arbitrary: i) (auto simp: nth_Cons' split: if_splits)

section \<open>Counting zeroes\<close>

text \<open>\<open>_BitScanReverse\<close> and \<open>_BitScanForward\<close>: the position of the highest and of the lowest set
  bit, if there is one.\<close>

definition bit_scan_reverse :: "'a::len word \<Rightarrow> nat option" where
  "bit_scan_reverse x = List.find (bit x) (rev [0..<LENGTH('a)])"

definition bit_scan_forward :: "'a::len word \<Rightarrow> nat option" where
  "bit_scan_forward x = List.find (bit x) [0..<LENGTH('a)]"

definition count_leading_zeroes32 :: "u32 \<Rightarrow> nat" where
  "count_leading_zeroes32 x = (case bit_scan_reverse x of Some res \<Rightarrow> 31 - res | None \<Rightarrow> 32)"

definition count_leading_zeroes64 :: "u64 \<Rightarrow> nat" where
  "count_leading_zeroes64 x = (case bit_scan_reverse x of Some res \<Rightarrow> 63 - res | None \<Rightarrow> 64)"

definition count_trailing_zeroes32 :: "u32 \<Rightarrow> nat" where
  "count_trailing_zeroes32 x = (case bit_scan_forward x of Some res \<Rightarrow> res | None \<Rightarrow> 32)"

definition count_trailing_zeroes64 :: "u64 \<Rightarrow> nat" where
  "count_trailing_zeroes64 x = (case bit_scan_forward x of Some res \<Rightarrow> res | None \<Rightarrow> 64)"

lemma low_bits_Suc: "low_bits (Suc n) w = bit w n # low_bits n w"
  using low_bits_append [of 1 n w] by (simp add: low_bits_def bit_simps)

lemma low_bits_0 [simp]: "low_bits 0 w = []"
  by (simp add: low_bits_def)

lemma find_high: "(case List.find (bit x) (rev [0..<n]) of Some r \<Rightarrow> n - 1 - r | None \<Rightarrow> n) = scan False (low_bits n x)"
proof (induction n)
  case (Suc n)
  have "r < n" if "List.find (bit x) (rev [0..<n]) = Some r" for r
    using that by (auto simp: find_Some_iff rev_nth)
  with Suc.IH show ?case by (fastforce simp: low_bits_Suc split: option.splits)
qed simp

lemma find_low_from:
  "(case List.find P [k..<k + n] of Some r \<Rightarrow> r | None \<Rightarrow> k + n) = k + scan False (map P [k..<k + n])"
proof (induction n arbitrary: k)
  case (Suc n)
  have "[k..<k + Suc n] = k # [Suc k..<Suc k + n]" by (simp add: upt_conv_Cons del: upt_Suc)
  then show ?case using Suc.IH [of "Suc k"] by (simp del: upt_Suc split: option.splits)
qed simp

lemma rev_low_bits: "rev (low_bits n w) = map (bit w) [0..<n]"
  by (rule nth_equalityI) (auto simp: rev_nth bit_views)

lemma count_leading_zeroes32_eq: "count_leading_zeroes32 x = scan False (low_bits 32 x)"
  using find_high [of 32 x] by (auto simp: count_leading_zeroes32_def bit_scan_reverse_def split: option.splits)

lemma count_leading_zeroes64_eq: "count_leading_zeroes64 x = scan False (low_bits 64 x)"
  using find_high [of 64 x] by (auto simp: count_leading_zeroes64_def bit_scan_reverse_def split: option.splits)

lemma count_trailing_zeroes32_eq: "count_trailing_zeroes32 x = scan False (rev (low_bits 32 x))"
  using find_low_from [of 0 32 "bit x"]
  by (auto simp: count_trailing_zeroes32_def bit_scan_forward_def rev_low_bits split: option.splits)

lemma count_trailing_zeroes64_eq: "count_trailing_zeroes64 x = scan False (rev (low_bits 64 x))"
  using find_low_from [of 0 64 "bit x"]
  by (auto simp: count_trailing_zeroes64_def bit_scan_forward_def rev_low_bits split: option.splits)

lemma low_bits_full_0: "low_bits LENGTH('a) (x :: 'a::len word) = replicate LENGTH('a) False \<longleftrightarrow> x = 0"
proof
  assume eq: "low_bits LENGTH('a) x = replicate LENGTH('a) False"
  show "x = 0"
  proof (rule bit_word_eqI)
    fix i assume i: "i < LENGTH('a)"
    then have "low_bits LENGTH('a) x ! (LENGTH('a) - 1 - i) = False" unfolding eq by simp
    with i show "bit x i = bit (0 :: 'a word) i" by (simp add: bit_views)
  qed
qed (auto simp: low_bits_def map_replicate_const)

section \<open>bits_memscan\<close>

text \<open>The byte loops: \<open>stop\<close> is the alignment test of the first of them. A result \<open>Inl\<close> is a
  \<open>return\<close>, \<open>Inr\<close> the pointer and the count with which the function goes on.\<close>

function memscan_bytes :: "(nat \<Rightarrow> bool) \<Rightarrow> byte list \<Rightarrow> u32 \<Rightarrow> nat \<Rightarrow> nat \<Rightarrow> nat \<Rightarrow> nat + nat \<times> nat" where
  "memscan_bytes stop m xor_val bit_count p rem =
     (if rem < 8 \<or> stop p then Inr (p, rem)
      else let v = push_bit 24 (ucast (m ! p) XOR xor_val)
           in if v \<noteq> 0 then Inl (bit_count - rem + count_leading_zeroes32 v)
              else memscan_bytes stop m xor_val bit_count (p + 1) (rem - 8))"
  by pat_completeness auto
termination by (relation "measure (\<lambda>(stop, m, x, n, p, rem). rem)") auto

function memscan_longs :: "byte list \<Rightarrow> u64 \<Rightarrow> nat \<Rightarrow> nat \<Rightarrow> nat \<Rightarrow> nat + nat \<times> nat" where
  "memscan_longs m xor_val bit_count p rem =
     (if rem < 64 then Inr (p, rem)
      else let z = be64 (take 8 (drop p m)) XOR xor_val
           in if z \<noteq> 0 then Inl (bit_count - rem + count_leading_zeroes64 z)
              else memscan_longs m xor_val bit_count (p + 8) (rem - 64))"
  by pat_completeness auto
termination by (relation "measure (\<lambda>(m, x, n, p, rem). rem)") auto

declare memscan_bytes.simps [simp del] memscan_longs.simps [simp del]

definition memscan_rest :: "byte list \<Rightarrow> u32 \<Rightarrow> nat \<Rightarrow> nat \<Rightarrow> nat \<Rightarrow> nat" where
  "memscan_rest m xor_val bit_count p rem =
     (if rem > 0 then
        let c = count_leading_zeroes32 (push_bit 24 (ucast (m ! p) XOR xor_val))
        in if c < rem then bit_count - rem + c else bit_count
      else bit_count)"

definition memscan_aligned :: "nat \<Rightarrow> byte list \<Rightarrow> bool \<Rightarrow> nat \<Rightarrow> nat \<Rightarrow> nat \<Rightarrow> nat" where
  "memscan_aligned base m cmp_to bit_count p0 rem0 =
     (let xor_val = (if cmp_to then - 1 else 0); xor_val_l = (if cmp_to then - 1 else 0)
      in case memscan_bytes (\<lambda>p. (base + p) mod 8 = 0) m xor_val bit_count p0 rem0 of
           Inl r \<Rightarrow> r
         | Inr (p, rem) \<Rightarrow>
             (case memscan_longs m xor_val_l bit_count p rem of
                Inl r \<Rightarrow> r
              | Inr (p, rem) \<Rightarrow>
                  (case memscan_bytes (\<lambda>_. False) m xor_val bit_count p rem of
                     Inl r \<Rightarrow> r
                   | Inr (p, rem) \<Rightarrow> memscan_rest m xor_val bit_count p rem)))"

text \<open>\<open>base\<close> is the address of the buffer, which only decides where the loop over 64-bit words
  starts.\<close>

definition bits_memscan :: "nat \<Rightarrow> byte list \<Rightarrow> nat \<Rightarrow> nat \<Rightarrow> bool \<Rightarrow> nat" where
  "bits_memscan base m offs0 bit_count cmp_to =
     (if bit_count = 0 then 0
      else
        let p = offs0 div 8; offs = offs0 mod 8; xor_val = (if cmp_to then - 1 else 0)
        in if offs \<noteq> 0 then
             let c = count_leading_zeroes32 (push_bit (24 + offs) (ucast (m ! p) XOR xor_val)); l = 8 - offs
             in if c < l \<or> bit_count \<le> l then min c bit_count
                else memscan_aligned base m cmp_to bit_count (p + 1) (bit_count - l)
           else memscan_aligned base m cmp_to bit_count p bit_count)"

lemma low_bits_xor_ones:
  "n \<le> LENGTH('a) \<Longrightarrow> low_bits n ((w :: 'a::len word) XOR (if c then - 1 else 0)) = map (\<lambda>x. x \<noteq> c) (low_bits n w)"
  by (rule nth_equalityI) (auto simp: bit_views bit_simps)

text \<open>A chunk of the stream at the top of a 32-bit or 64-bit word.\<close>

lemma clz_chunk:
  assumes "low_bits LENGTH('a) (v :: 'a::len word) = map (\<lambda>x. x \<noteq> c) xs @ replicate k False"
  shows "v = 0 \<longleftrightarrow> scan c xs = length xs"
    and "scan False (low_bits LENGTH('a) v) = (if scan c xs = length xs then LENGTH('a) else scan c xs)"
proof -
  have len: "length xs + k = LENGTH('a)" using arg_cong [OF assms, of length] by simp
  then show s: "scan False (low_bits LENGTH('a) v) = (if scan c xs = length xs then LENGTH('a) else scan c xs)"
    by (simp add: assms scan_append scan_map_neq)
  have "v = 0 \<longleftrightarrow> scan False (low_bits LENGTH('a) v) = LENGTH('a)"
  proof
    assume "scan False (low_bits LENGTH('a) v) = LENGTH('a)"
    then have "\<forall>x \<in> set (low_bits LENGTH('a) v). x = False"
      using scan_full [of False "low_bits LENGTH('a) v"] by simp
    then have "low_bits LENGTH('a) v = replicate LENGTH('a) False"
      by (metis length_low_bits replicate_eqI)
    then show "v = 0" by (simp add: low_bits_full_0)
  next
    assume "v = 0"
    then have "low_bits LENGTH('a) v = replicate LENGTH('a) False" by (simp add: low_bits_full_0)
    then show "scan False (low_bits LENGTH('a) v) = LENGTH('a)" by simp
  qed
  with s scan_le [of c xs] len show "v = 0 \<longleftrightarrow> scan c xs = length xs" by auto
qed

lemma low_bits_byte_chunk:
  assumes "o' \<le> 8"
  shows "low_bits 32 (push_bit (24 + o') (ucast (b :: byte) XOR (if c then - 1 else 0)) :: u32)
     = map (\<lambda>x. x \<noteq> c) (drop o' (byte_bits b)) @ replicate (24 + o') False"
proof (rule nth_equalityI)
  fix i assume "i < length (low_bits 32 (push_bit (24 + o') (ucast b XOR (if c then - 1 else 0)) :: u32))"
  then have i: "i < 32" by simp
  show "low_bits 32 (push_bit (24 + o') (ucast b XOR (if c then - 1 else 0)) :: u32) ! i
      = (map (\<lambda>x. x \<noteq> c) (drop o' (byte_bits b)) @ replicate (24 + o') False) ! i"
  proof (cases "i < 8 - o'")
    case True
    then have "31 - i - (24 + o') = 7 - (o' + i)" "24 + o' \<le> 31 - i" "7 - (o' + i) < 8" using assms by linarith+
    with True i show ?thesis by (auto simp: nth_append bit_views bit_simps)
  next
    case False
    then have "\<not> 24 + o' \<le> 31 - i" using i by linarith
    with False i assms show ?thesis by (auto simp: nth_append bit_views bit_simps)
  qed
qed (use assms in simp)

lemma clz_byte:
  fixes b :: byte and c :: bool
  assumes "o' \<le> 8"
  defines "v \<equiv> push_bit (24 + o') (ucast b XOR (if c then - 1 else 0)) :: u32"
    and "xs \<equiv> drop o' (byte_bits b)"
  shows "v = 0 \<longleftrightarrow> scan c xs = length xs"
    and "count_leading_zeroes32 v = (if scan c xs = length xs then 32 else scan c xs)"
  using clz_chunk [of v c xs "24 + o'"] low_bits_byte_chunk [OF assms(1), of b c]
  by (simp_all add: v_def xs_def count_leading_zeroes32_eq)

lemma clz_long:
  fixes c :: bool
  defines "v bs \<equiv> be64 bs XOR (if c then - 1 else 0) :: u64"
  assumes "length bs = 8"
  shows "v bs = 0 \<longleftrightarrow> scan c (bits_of bs) = 64"
    and "count_leading_zeroes64 (v bs) = (if scan c (bits_of bs) = 64 then 64 else scan c (bits_of bs))"
proof -
  have "low_bits 64 (be64 bs) = bits_of bs"
    using low_bits_word_of_bits [of "bits_of bs", where 'a = 64] assms(2) by (simp add: be64_eq)
  then have "low_bits LENGTH(64) (v bs) = map (\<lambda>x. x \<noteq> c) (bits_of bs) @ replicate 0 False"
    using low_bits_xor_ones [of 64 "be64 bs" c] by (simp add: v_def)
  from clz_chunk [OF this] show "v bs = 0 \<longleftrightarrow> scan c (bits_of bs) = 64"
    and "count_leading_zeroes64 (v bs) = (if scan c (bits_of bs) = 64 then 64 else scan c (bits_of bs))"
    using assms(2) by (simp_all add: count_leading_zeroes64_eq)
qed

lemma take_byte:
  "8 * p + 8 \<le> 8 * length m \<Longrightarrow> 8 \<le> rem \<Longrightarrow>
     take rem (drop (8 * p) (bits_of m)) = byte_bits (m ! p) @ take (rem - 8) (drop (8 * (p + 1)) (bits_of m))"
proof -
  assume a: "8 * p + 8 \<le> 8 * length m" "8 \<le> rem"
  then have "drop p m = m ! p # drop (Suc p) m" by (simp add: Cons_nth_drop_Suc)
  then show ?thesis using a drop_bits_of [of p m] drop_bits_of [of "Suc p" m] by simp
qed

lemma take_long:
  "8 * p + 64 \<le> 8 * length m \<Longrightarrow> 64 \<le> rem \<Longrightarrow>
     take rem (drop (8 * p) (bits_of m)) = bits_of (take 8 (drop p m)) @ take (rem - 64) (drop (8 * (p + 8)) (bits_of m))"
proof -
  assume a: "8 * p + 64 \<le> 8 * length m" "64 \<le> rem"
  have "drop p m = take 8 (drop p m) @ drop (p + 8) m" by (metis append_take_drop_id add.commute drop_drop)
  then have "bits_of (drop p m) = bits_of (take 8 (drop p m)) @ bits_of (drop (p + 8) m)"
    by (metis bits_of_append)
  then show ?thesis using a drop_bits_of [of p m] drop_bits_of [of "p + 8" m] by simp
qed

text \<open>The invariant of the search: the answer for the whole range is the answer for what is left.\<close>

definition memscan_inv :: "byte list \<Rightarrow> bool \<Rightarrow> nat \<Rightarrow> nat \<Rightarrow> nat \<Rightarrow> nat \<Rightarrow> bool" where
  "memscan_inv m c res n p rem \<longleftrightarrow>
     rem \<le> n \<and> 8 * p + rem \<le> 8 * length m \<and> res = n - rem + scan c (take rem (drop (8 * p) (bits_of m)))"

lemma memscan_bytes_inv:
  assumes "memscan_inv m c res n p rem"
  shows "case memscan_bytes stop m (if c then - 1 else 0) n p rem of
      Inl r \<Rightarrow> r = res
    | Inr (p', rem') \<Rightarrow> memscan_inv m c res n p' rem' \<and> (rem' < 8 \<or> stop p')"
  using assms
proof (induction "rem" arbitrary: p rule: less_induct)
  case (less "rem" p)
  show ?case
  proof (cases "rem < 8 \<or> stop p")
    case True
    with less.prems show ?thesis by (simp add: memscan_bytes.simps)
  next
    case False
    let ?x = "if c then - 1 else 0 :: u32"
    let ?v = "push_bit 24 (ucast (m ! p) XOR ?x) :: u32"
    have bits: "take rem (drop (8 * p) (bits_of m)) = byte_bits (m ! p) @ take (rem - 8) (drop (8 * (p + 1)) (bits_of m))"
      using less.prems False by (intro take_byte) (auto simp: memscan_inv_def)
    have v: "?v = 0 \<longleftrightarrow> scan c (byte_bits (m ! p)) = 8"
      "count_leading_zeroes32 ?v = (if scan c (byte_bits (m ! p)) = 8 then 32 else scan c (byte_bits (m ! p)))"
      using clz_byte [of 0 "m ! p" c] by simp_all
    show ?thesis
    proof (cases "?v = 0")
      case True
      then have "memscan_inv m c res n (p + 1) (rem - 8)"
        using less.prems False bits v by (auto simp: memscan_inv_def scan_append)
      with less.IH [of "rem - 8" "p + 1"] False True show ?thesis
        by (simp add: memscan_bytes.simps [of stop m _ n p])
    next
      case ne: False
      with False v less.prems bits show ?thesis
        by (simp add: memscan_bytes.simps [of stop m _ n p] memscan_inv_def scan_append)
    qed
  qed
qed

lemma memscan_longs_inv:
  assumes "memscan_inv m c res n p rem"
  shows "case memscan_longs m (if c then - 1 else 0) n p rem of
      Inl r \<Rightarrow> r = res
    | Inr (p', rem') \<Rightarrow> memscan_inv m c res n p' rem'"
  using assms
proof (induction "rem" arbitrary: p rule: less_induct)
  case (less "rem" p)
  show ?case
  proof (cases "rem < 64")
    case True
    with less.prems show ?thesis by (simp add: memscan_longs.simps)
  next
    case False
    let ?v = "be64 (take 8 (drop p m)) XOR (if c then - 1 else 0) :: u64"
    have bits: "take rem (drop (8 * p) (bits_of m))
        = bits_of (take 8 (drop p m)) @ take (rem - 64) (drop (8 * (p + 8)) (bits_of m))"
      using less.prems False by (intro take_long) (auto simp: memscan_inv_def)
    have len: "length (take 8 (drop p m)) = 8" using less.prems False by (auto simp: memscan_inv_def)
    note v = clz_long [OF len, of c]
    show ?thesis
    proof (cases "?v = 0")
      case True
      then have "memscan_inv m c res n (p + 8) (rem - 64)"
        using less.prems False bits v len by (auto simp: memscan_inv_def scan_append)
      with less.IH [of "rem - 64" "p + 8"] False True show ?thesis
        by (simp add: memscan_longs.simps [of m _ n p])
    next
      case ne: False
      with False v less.prems bits len show ?thesis
        by (simp add: memscan_longs.simps [of m _ n p] memscan_inv_def scan_append)
    qed
  qed
qed

lemma memscan_rest_inv:
  assumes "memscan_inv m c res n p rem" and "rem < 8"
  shows "memscan_rest m (if c then - 1 else 0) n p rem = res"
proof (cases "rem = 0")
  case True
  with assms show ?thesis by (simp add: memscan_rest_def memscan_inv_def)
next
  case False
  let ?v = "push_bit 24 (ucast (m ! p) XOR (if c then - 1 else 0)) :: u32"
  have "p < length m" using assms(1) False by (auto simp: memscan_inv_def)
  then have "take rem (drop (8 * p) (bits_of m)) = take rem (byte_bits (m ! p))"
    using assms(2) by (simp add: drop_bits_of flip: Cons_nth_drop_Suc)
  moreover have "count_leading_zeroes32 ?v = (if scan c (byte_bits (m ! p)) = 8 then 32 else scan c (byte_bits (m ! p)))"
    using clz_byte(2) [of 0 "m ! p" c] by simp
  ultimately show ?thesis using assms False by (auto simp: memscan_rest_def Let_def memscan_inv_def scan_take)
qed

lemma memscan_aligned_inv:
  assumes "memscan_inv m c res n p rem"
  shows "memscan_aligned base m c n p rem = res"
proof -
  let ?x = "if c then - 1 else 0 :: u32" and ?xl = "if c then - 1 else 0 :: u64"
  have tail: "(case memscan_bytes (\<lambda>_. False) m ?x n p2 rem2 of Inl r \<Rightarrow> r
      | Inr (p, rem) \<Rightarrow> memscan_rest m ?x n p rem) = res" if "memscan_inv m c res n p2 rem2" for p2 rem2
  proof (cases "memscan_bytes (\<lambda>_. False) m ?x n p2 rem2")
    case (Inl r)
    with memscan_bytes_inv [OF that, of "\<lambda>_. False"] show ?thesis by simp
  next
    case (Inr pr)
    obtain p' rem' where pr: "pr = (p', rem')" by force
    with Inr memscan_bytes_inv [OF that, of "\<lambda>_. False"] memscan_rest_inv [of m c res n p' rem']
    show ?thesis by (simp add: pr)
  qed
  have longs: "(case memscan_longs m ?xl n p1 rem1 of Inl r \<Rightarrow> r
      | Inr (p, rem) \<Rightarrow> (case memscan_bytes (\<lambda>_. False) m ?x n p rem of Inl r \<Rightarrow> r
          | Inr (p, rem) \<Rightarrow> memscan_rest m ?x n p rem)) = res" if "memscan_inv m c res n p1 rem1" for p1 rem1
  proof (cases "memscan_longs m ?xl n p1 rem1")
    case (Inl r)
    with memscan_longs_inv [OF that] show ?thesis by simp
  next
    case (Inr pr)
    obtain p' rem' where pr: "pr = (p', rem')" by force
    with Inr memscan_longs_inv [OF that] tail [of p' rem'] show ?thesis by (simp add: pr)
  qed
  show ?thesis
  proof (cases "memscan_bytes (\<lambda>p. (base + p) mod 8 = 0) m ?x n p rem")
    case (Inl r)
    with memscan_bytes_inv [OF assms, of "\<lambda>p. (base + p) mod 8 = 0"] show ?thesis
      by (simp add: memscan_aligned_def)
  next
    case (Inr pr)
    obtain p' rem' where pr: "pr = (p', rem')" by force
    with Inr memscan_bytes_inv [OF assms, of "\<lambda>p. (base + p) mod 8 = 0"] longs [of p' rem'] show ?thesis
      by (simp add: memscan_aligned_def pr)
  qed
qed

text \<open>The search is right wherever the buffer lies in memory.\<close>

lemma bits_memscan_correct:
  assumes "offs + n \<le> 8 * length m"
  shows "bits_memscan base m offs n c = scan c (take n (drop offs (bits_of m)))"
proof (cases "n = 0")
  case True
  then show ?thesis by (simp add: bits_memscan_def)
next
  case n: False
  define p where "p = offs div 8"
  define o' where "o' = offs mod 8"
  have po: "offs = 8 * p + o'" "o' < 8" by (simp_all add: p_def o'_def)
  have pl: "p < length m" using assms n po by linarith
  show ?thesis
  proof (cases "o' = 0")
    case True
    have "memscan_inv m c (scan c (take n (drop offs (bits_of m)))) n p n"
      using assms True po by (simp add: memscan_inv_def)
    from memscan_aligned_inv [OF this] show ?thesis
      unfolding bits_memscan_def Let_def p_def [symmetric] o'_def [symmetric] using n True by simp
  next
    case False
    define xs where "xs = drop o' (byte_bits (m ! p))"
    define k where "k = count_leading_zeroes32 (push_bit (24 + o') (ucast (m ! p) XOR (if c then - 1 else 0)))"
    have v: "k = (if scan c xs = 8 - o' then 32 else scan c xs)"
      using clz_byte(2) [of o' "m ! p" c] po by (simp add: xs_def k_def)
    have sx: "scan c xs \<le> 8 - o'" using scan_le [of c xs] by (simp add: xs_def)
    have "bits_of (drop p m) = byte_bits (m ! p) @ drop (8 * (p + 1)) (bits_of m)"
      using pl drop_bits_of [of "Suc p" m] by (simp flip: Cons_nth_drop_Suc)
    moreover have "drop offs (bits_of m) = drop o' (bits_of (drop p m))"
      by (simp add: po drop_bits_of [symmetric] add.commute)
    ultimately have bits: "drop offs (bits_of m) = xs @ drop (8 * (p + 1)) (bits_of m)"
      using po by (simp add: xs_def)
    have lx: "length xs = 8 - o'" by (simp add: xs_def)
    show ?thesis
    proof (cases "k < 8 - o' \<or> n \<le> 8 - o'")
      case True
      have "scan c (take n (drop offs (bits_of m))) = min k n"
        unfolding v bits using True sx lx by (auto simp: v scan_append scan_take min_def)
      with True n False show ?thesis
        unfolding bits_memscan_def Let_def p_def [symmetric] o'_def [symmetric] k_def [symmetric] by simp
    next
      case go: False
      then have "scan c xs = length xs" using v sx lx by (auto split: if_splits)
      then have "memscan_inv m c (scan c (take n (drop offs (bits_of m)))) n (p + 1) (n - (8 - o'))"
        unfolding memscan_inv_def bits using go assms po lx by (auto simp: scan_append)
      from memscan_aligned_inv [OF this] show ?thesis
        unfolding bits_memscan_def Let_def p_def [symmetric] o'_def [symmetric] k_def [symmetric]
        using n False go by simp
    qed
  qed
qed

section \<open>bits_memscan_rev\<close>

text \<open>The loops walk backwards from the end of the range; \<open>res\<close> counts the bits already seen.\<close>

function memscan_rev_words :: "byte list \<Rightarrow> u32 \<Rightarrow> nat \<Rightarrow> nat \<Rightarrow> nat \<Rightarrow> nat + nat \<times> nat \<times> nat" where
  "memscan_rev_words m xor_val p res bit_count =
     (if bit_count < 32 then Inr (p, res, bit_count)
      else let v = ucast (load_be32 m (p - 4)) XOR xor_val
           in if v \<noteq> 0 then Inl (count_trailing_zeroes32 v + res)
              else memscan_rev_words m xor_val (p - 4) (res + 32) (bit_count - 32))"
  by pat_completeness auto
termination by (relation "measure (\<lambda>(m, x, p, res, n). n)") auto

function memscan_rev_bytes :: "byte list \<Rightarrow> u32 \<Rightarrow> nat \<Rightarrow> nat \<Rightarrow> nat \<Rightarrow> nat + nat \<times> nat \<times> nat" where
  "memscan_rev_bytes m xor_val p res bit_count =
     (if bit_count < 8 then Inr (p, res, bit_count)
      else let v = ucast (m ! (p - 1)) XOR xor_val
           in if v \<noteq> 0 then Inl (count_trailing_zeroes32 v + res)
              else memscan_rev_bytes m xor_val (p - 1) (res + 8) (bit_count - 8))"
  by pat_completeness auto
termination by (relation "measure (\<lambda>(m, x, p, res, n). n)") auto

declare memscan_rev_words.simps [simp del] memscan_rev_bytes.simps [simp del]

definition memscan_rev_aligned :: "byte list \<Rightarrow> bool \<Rightarrow> nat \<Rightarrow> nat \<Rightarrow> nat \<Rightarrow> nat" where
  "memscan_rev_aligned m cmp_to p0 res0 n0 =
     (case memscan_rev_words m (if cmp_to then - 1 else 0) p0 res0 n0 of
        Inl r \<Rightarrow> r
      | Inr (p, res, n) \<Rightarrow>
          (case memscan_rev_bytes m (if cmp_to then 0xff else 0) p res n of
             Inl r \<Rightarrow> r
           | Inr (p, res, n) \<Rightarrow>
               if n > 0
               then min (count_trailing_zeroes32 (ucast (m ! (p - 1)) XOR (if cmp_to then 0xff else 0))) n + res
               else res))"

definition bits_memscan_rev :: "byte list \<Rightarrow> nat \<Rightarrow> nat \<Rightarrow> bool \<Rightarrow> nat" where
  "bits_memscan_rev m offs0 bit_count cmp_to =
     (if bit_count = 0 then 0
      else
        let p = (offs0 + bit_count) div 8; offs = (offs0 + bit_count) mod 8; res = offs;
            c = count_trailing_zeroes32 (ucast (drop_bit (8 - offs) (m ! p)) XOR (if cmp_to then - 1 else 0))
        in if offs \<noteq> 0 \<and> (c < offs \<or> res \<ge> bit_count) then min c bit_count
           else memscan_rev_aligned m cmp_to p res (bit_count - res))"

lemma ctz_chunk:
  fixes v :: u32
  assumes "low_bits 32 v = ys @ map (\<lambda>x. x \<noteq> c) xs"
  shows "count_trailing_zeroes32 v
     = (if scan c (rev xs) = length xs then length xs + scan False (rev ys) else scan c (rev xs))"
  using scan_map_neq [of c "rev xs"]
  by (simp add: count_trailing_zeroes32_eq assms scan_append rev_map)

lemma low_bits_ucast_eq: "n \<le> LENGTH('a) \<Longrightarrow> low_bits n (ucast (w :: 'b::len word) :: 'a::len word) = low_bits n w"
  by (rule nth_equalityI) (auto simp: bit_views bit_simps)

lemma u32_eq_0: "(v :: u32) = 0 \<longleftrightarrow> low_bits 32 v = replicate 32 False"
  using low_bits_full_0 [of v] by simp

lemma map_neq_full: "map (\<lambda>x. x \<noteq> c) xs = replicate (length xs) False \<longleftrightarrow> scan c (rev xs) = length xs"
proof -
  have "scan c (rev xs) = length xs \<longleftrightarrow> (\<forall>x \<in> set xs. x = c)" using scan_full [of c "rev xs"] by simp
  also have "\<dots> \<longleftrightarrow> map (\<lambda>x. x \<noteq> c) xs = replicate (length xs) False" by (induction xs) auto
  finally show ?thesis by blast
qed

lemma rev_word_chunk:
  fixes c :: bool
  defines "v m p \<equiv> ucast (load_be32 m p) XOR (if c then - 1 else 0) :: u32"
  assumes "xs = low_bits 32 (load_be32 m p)"
  shows "v m p = 0 \<longleftrightarrow> scan c (rev xs) = 32" and "v m p \<noteq> 0 \<Longrightarrow> count_trailing_zeroes32 (v m p) = scan c (rev xs)"
proof -
  have l: "length xs = 32" by (simp add: assms)
  have low: "low_bits 32 (v m p) = [] @ map (\<lambda>x. x \<noteq> c) xs"
    unfolding v_def assms(2) using low_bits_xor_ones [of 32 "ucast (load_be32 m p) :: u32" c]
    by (simp add: low_bits_ucast_eq)
  then show z: "v m p = 0 \<longleftrightarrow> scan c (rev xs) = 32"
    using map_neq_full [of c xs] l by (simp add: u32_eq_0)
  assume "v m p \<noteq> 0"
  with z ctz_chunk [OF low] l show "count_trailing_zeroes32 (v m p) = scan c (rev xs)" by simp
qed

lemma rev_byte_chunk:
  fixes c :: bool
  defines "v b \<equiv> ucast (b :: byte) XOR (if c then 0xff else 0) :: u32"
  shows "v b = 0 \<longleftrightarrow> scan c (rev (byte_bits b)) = 8"
    and "count_trailing_zeroes32 (v b) = (if scan c (rev (byte_bits b)) = 8 then 32 else scan c (rev (byte_bits b)))"
proof -
  have ff: "(0xff :: u32) = mask 8" by (simp add: mask_eq_exp_minus_1)
  have low: "low_bits 32 (v b) = replicate 24 False @ map (\<lambda>x. x \<noteq> c) (byte_bits b)"
  proof (rule nth_equalityI)
    fix i assume "i < length (low_bits 32 (v b))"
    then have i: "i < 32" by simp
    then have e: "31 - i < 8 \<longleftrightarrow> \<not> i < 24" "i \<ge> 24 \<Longrightarrow> 7 - (i - 24) = 31 - i" "31 - i < 32" by linarith+
    then have "\<not> bit b (31 - i)" if "i < 24" using that bit_byte_less [of b "31 - i"] by linarith
    then show "low_bits 32 (v b) ! i = (replicate 24 False @ map (\<lambda>x. x \<noteq> c) (byte_bits b)) ! i"
      unfolding v_def ff using i e by (cases "i < 24") (auto simp: bit_views bit_simps nth_append)
  qed simp
  show "count_trailing_zeroes32 (v b) = (if scan c (rev (byte_bits b)) = 8 then 32 else scan c (rev (byte_bits b)))"
    using ctz_chunk [OF low] by simp
  have "(replicate 32 False :: bool list) = replicate 24 False @ replicate 8 False" by (simp flip: replicate_add)
  then show "v b = 0 \<longleftrightarrow> scan c (rev (byte_bits b)) = 8"
    using map_neq_full [of c "byte_bits b"] low by (simp add: u32_eq_0)
qed

definition memscan_rev_inv :: "byte list \<Rightarrow> bool \<Rightarrow> nat \<Rightarrow> nat \<Rightarrow> nat \<Rightarrow> nat \<Rightarrow> nat \<Rightarrow> bool" where
  "memscan_rev_inv m c ans offs p res n \<longleftrightarrow>
     8 * p = offs + n \<and> p \<le> length m \<and> ans = res + scan c (rev (take n (drop offs (bits_of m))))"

lemma take_end_chunk:
  assumes "8 * p = offs + n" and "8 * k \<le> n" and "p \<le> length m"
  shows "take n (drop offs (bits_of m)) = take (n - 8 * k) (drop offs (bits_of m)) @ bits_of (take k (drop (p - k) m))"
proof -
  have "take n (drop offs (bits_of m)) = take (n - 8 * k) (drop offs (bits_of m)) @ take (8 * k) (drop (n - 8 * k) (drop offs (bits_of m)))"
    using assms(2) take_add [of "n - 8 * k" "8 * k" "drop offs (bits_of m)"] by simp
  moreover have "offs + (n - 8 * k) = 8 * (p - k)" using assms by (simp add: diff_mult_distrib2)
  ultimately show ?thesis by (simp add: add.commute drop_bits_of take_bits_of)
qed

lemma memscan_rev_words_inv:
  assumes "memscan_rev_inv m c ans offs p res n"
  shows "case memscan_rev_words m (if c then - 1 else 0) p res n of
      Inl r \<Rightarrow> r = ans
    | Inr (p', res', n') \<Rightarrow> memscan_rev_inv m c ans offs p' res' n'"
  using assms
proof (induction n arbitrary: p res rule: less_induct)
  case (less n)
  show ?case
  proof (cases "n < 32")
    case True
    with less.prems show ?thesis by (simp add: memscan_rev_words.simps [of m _ p])
  next
    case False
    have I: "8 * p = offs + n" "p \<le> length m" "ans = res + scan c (rev (take n (drop offs (bits_of m))))"
      using less.prems by (simp_all add: memscan_rev_inv_def)
    define xs where "xs = low_bits 32 (load_be32 m (p - 4))"
    have p4: "4 \<le> p" "8 * (p - 4) = offs + (n - 32)" using I False by linarith+
    have bits: "take n (drop offs (bits_of m)) = take (n - 32) (drop offs (bits_of m)) @ xs"
      using take_end_chunk [of p offs n 4 m] I(1,2) False p4(1) take_bits_of [of 4 "drop (p - 4) m"]
      by (simp add: xs_def low_bits_load_be32 drop_bits_of del: diff_mult_distrib2)
    have l: "length xs = 32" by (simp add: xs_def)
    note v = rev_word_chunk [of xs m "p - 4" c, OF xs_def]
    show ?thesis
    proof (cases "scan c (rev xs) = 32")
      case True
      have "memscan_rev_inv m c ans offs (p - 4) (res + 32) (n - 32)"
        using I p4 True l unfolding bits by (simp add: memscan_rev_inv_def scan_append)
      with less.IH [of "n - 32" "p - 4" "res + 32"] False True v show ?thesis
        by (simp add: memscan_rev_words.simps [of m _ p])
    next
      case ne: False
      with False v I bits l show ?thesis
        by (simp add: memscan_rev_words.simps [of m _ p] scan_append)
    qed
  qed
qed

lemma memscan_rev_bytes_inv:
  assumes "memscan_rev_inv m c ans offs p res n"
  shows "case memscan_rev_bytes m (if c then 0xff else 0) p res n of
      Inl r \<Rightarrow> r = ans
    | Inr (p', res', n') \<Rightarrow> memscan_rev_inv m c ans offs p' res' n' \<and> n' < 8"
  using assms
proof (induction n arbitrary: p res rule: less_induct)
  case (less n)
  show ?case
  proof (cases "n < 8")
    case True
    with less.prems show ?thesis by (simp add: memscan_rev_bytes.simps [of m _ p])
  next
    case False
    have I: "8 * p = offs + n" "p \<le> length m" "ans = res + scan c (rev (take n (drop offs (bits_of m))))"
      using less.prems by (simp_all add: memscan_rev_inv_def)
    define xs where "xs = byte_bits (m ! (p - 1))"
    have p4: "1 \<le> p" "8 * (p - 1) = offs + (n - 8)" using I False by linarith+
    have "take 1 (drop (p - 1) m) = [m ! (p - 1)]" using I p4 by (simp add: take_Suc_conv_app_nth)
    then have bits: "take n (drop offs (bits_of m)) = take (n - 8) (drop offs (bits_of m)) @ xs"
      using take_end_chunk [of p offs n 1 m] I False p4 by (simp add: xs_def)
    have l: "length xs = 8" by (simp add: xs_def)
    note v = rev_byte_chunk [where c = c, of "m ! (p - 1)", folded xs_def]
    show ?thesis
    proof (cases "scan c (rev xs) = 8")
      case True
      have "memscan_rev_inv m c ans offs (p - 1) (res + 8) (n - 8)"
        using I p4 True l unfolding bits by (simp add: memscan_rev_inv_def scan_append)
      with less.IH [of "n - 8" "p - 1" "res + 8"] False True v show ?thesis
        by (simp add: memscan_rev_bytes.simps [of m _ p])
    next
      case ne: False
      with False v I bits l show ?thesis
        by (simp add: memscan_rev_bytes.simps [of m _ p] scan_append)
    qed
  qed
qed

lemma memscan_rev_aligned_inv:
  assumes "memscan_rev_inv m c ans offs p res n"
  shows "memscan_rev_aligned m c p res n = ans"
proof -
  have last: "(if k > 0 then min (count_trailing_zeroes32 (ucast (m ! (q - 1)) XOR (if c then 0xff else 0))) k + r else r) = ans"
    if inv: "memscan_rev_inv m c ans offs q r k" and k: "k < 8" for q r k
  proof (cases "k = 0")
    case True
    with inv show ?thesis by (simp add: memscan_rev_inv_def)
  next
    case False
    have I: "8 * q = offs + k" "q \<le> length m" "ans = r + scan c (rev (take k (drop offs (bits_of m))))"
      using inv by (simp_all add: memscan_rev_inv_def)
    have q: "0 < q" "offs = 8 * (q - 1) + (8 - k)" using I False k by linarith+
    then have "drop (q - 1) m = m ! (q - 1) # drop q m" using I Cons_nth_drop_Suc [of "q - 1" m] by simp
    then have "drop offs (bits_of m) = drop (8 - k) (byte_bits (m ! (q - 1))) @ bits_of (drop q m)"
      using drop_bits_of [of "q - 1" m] q(2) by (simp add: add.commute flip: drop_drop)
    then have "take k (drop offs (bits_of m)) = drop (8 - k) (byte_bits (m ! (q - 1)))" using k by simp
    then have "rev (take k (drop offs (bits_of m))) = take k (rev (byte_bits (m ! (q - 1))))"
      using k by (simp add: rev_drop)
    then show ?thesis
      using I(3) False k rev_byte_chunk(2) [where c = c, of "m ! (q - 1)"] by (simp add: scan_take min_def)
  qed
  have bytes: "(case memscan_rev_bytes m (if c then 0xff else 0) q r k of Inl r \<Rightarrow> r
      | Inr (p, res, n) \<Rightarrow> if n > 0
          then min (count_trailing_zeroes32 (ucast (m ! (p - 1)) XOR (if c then 0xff else 0))) n + res else res) = ans"
    if inv: "memscan_rev_inv m c ans offs q r k" for q r k
  proof (cases "memscan_rev_bytes m (if c then 0xff else 0) q r k")
    case (Inl r)
    with memscan_rev_bytes_inv [OF inv] show ?thesis by simp
  next
    case (Inr t)
    obtain q' r' k' where "t = (q', r', k')" by (metis prod_cases3)
    with Inr memscan_rev_bytes_inv [OF inv] last [of q' r' k'] show ?thesis by simp
  qed
  show ?thesis
  proof (cases "memscan_rev_words m (if c then - 1 else 0) p res n")
    case (Inl r)
    with memscan_rev_words_inv [OF assms] show ?thesis by (simp add: memscan_rev_aligned_def)
  next
    case (Inr t)
    obtain q' r' k' where "t = (q', r', k')" by (metis prod_cases3)
    with Inr memscan_rev_words_inv [OF assms] bytes [of q' r' k'] show ?thesis
      by (simp add: memscan_rev_aligned_def)
  qed
qed

lemma bits_memscan_rev_correct:
  assumes "offs + n \<le> 8 * length m"
  shows "bits_memscan_rev m offs n c = scan c (rev (take n (drop offs (bits_of m))))"
proof (cases "n = 0")
  case True
  then show ?thesis by (simp add: bits_memscan_rev_def)
next
  case n: False
  define p where "p = (offs + n) div 8"
  define o' where "o' = (offs + n) mod 8"
  have po: "offs + n = 8 * p + o'" "o' < 8" by (simp_all add: p_def o'_def)
  define k where "k = count_trailing_zeroes32 (ucast (drop_bit (8 - o') (m ! p)) XOR (if c then - 1 else 0))"
  have rev: "bits_memscan_rev m offs n c = (if o' \<noteq> 0 \<and> (k < o' \<or> o' \<ge> n) then min k n
      else memscan_rev_aligned m c p o' (n - o'))"
    unfolding bits_memscan_rev_def Let_def p_def [symmetric] o'_def [symmetric] k_def [symmetric] using n by simp
  show ?thesis
  proof (cases "o' = 0")
    case True
    then have "memscan_rev_inv m c (scan c (rev (take n (drop offs (bits_of m))))) offs p 0 n"
      using assms po by (simp add: memscan_rev_inv_def)
    from memscan_rev_aligned_inv [OF this] True show ?thesis by (simp add: rev)
  next
    case o0: False
    have pl: "p < length m" using o0 po assms by linarith
    define xs where "xs = take o' (byte_bits (m ! p))"
    have lx: "length xs = o'" using po by (simp add: xs_def)
    have "low_bits 32 (ucast (drop_bit (8 - o') (m ! p)) XOR (if c then - 1 else 0) :: u32)
        = replicate (32 - o') c @ map (\<lambda>x. x \<noteq> c) xs" (is "low_bits 32 ?v = _")
    proof (rule nth_equalityI)
      fix i assume "i < length (low_bits 32 ?v)"
      then have i: "i < 32" by simp
      show "low_bits 32 ?v ! i = (replicate (32 - o') c @ map (\<lambda>x. x \<noteq> c) xs) ! i"
      proof (cases "i < 32 - o'")
        case True
        then have "\<not> bit (m ! p) (8 - o' + (31 - i))" using bit_byte_less [of "m ! p" "8 - o' + (31 - i)"] po by linarith
        then show ?thesis using True i by (auto simp: bit_views bit_simps nth_append)
      next
        case False
        then have e: "8 - o' + (31 - i) = 7 - (i - (32 - o'))" "i - (32 - o') < o'" "31 - i < 32"
          using i po by linarith+
        then show ?thesis using False i po by (auto simp: bit_views bit_simps nth_append xs_def)
      qed
    qed (use po lx in simp)
    from ctz_chunk [OF this] have k: "k = (if scan c (rev xs) = o' then o' + scan False (replicate (32 - o') c) else scan c (rev xs))"
      by (simp add: k_def lx)
    have sx: "scan c (rev xs) \<le> o'" using scan_le [of c "rev xs"] lx by simp
    have pre: "take (8 * p + o') (bits_of m) = take (8 * p) (bits_of m) @ xs"
      using pl drop_bits_of [of p m] po by (simp add: take_add xs_def flip: Cons_nth_drop_Suc)
    have bits: "take n (drop offs (bits_of m)) = drop offs (take (8 * p) (bits_of m) @ xs)"
      using po(1) unfolding pre [symmetric] by (simp add: drop_take flip: po(1))
    show ?thesis
    proof (cases "n \<le> o'")
      case True
      then have "take n (drop offs (bits_of m)) = drop (o' - n) xs"
        unfolding bits using po pl by (auto simp: min_def intro!: arg_cong2 [where f = drop])
      then have "rev (take n (drop offs (bits_of m))) = take n (rev xs)"
        using True lx by (simp add: rev_drop)
      then have "scan c (rev (take n (drop offs (bits_of m)))) = min n (scan c (rev xs))" by (simp add: scan_take)
      then show ?thesis using True o0 k sx by (auto simp: rev)
    next
      case False
      then have split: "take n (drop offs (bits_of m)) = take (n - o') (drop offs (bits_of m)) @ xs"
      proof -
        have "8 * p - offs = n - o'" "offs \<le> 8 * p" using False po(1) by linarith+
        then show ?thesis unfolding bits using pl by (simp add: drop_take)
      qed
      show ?thesis
      proof (cases "scan c (rev xs) = o'")
        case True
        have "memscan_rev_inv m c (scan c (rev (take n (drop offs (bits_of m))))) offs p o' (n - o')"
          using False po pl True lx unfolding memscan_rev_inv_def split by (auto simp: scan_append)
        from memscan_rev_aligned_inv [OF this] True False k show ?thesis by (simp add: rev)
      next
        case ne: False
        then have "scan c (rev (take n (drop offs (bits_of m)))) = k" unfolding split using lx k by (simp add: scan_append)
        with ne False k sx o0 show ?thesis by (simp add: rev)
      qed
    qed
  qed
qed

section \<open>bits_memcmp and bits_lexcmp\<close>

text \<open>The first result is the returned number, the second what is written to \<open>*same_upto\<close>, if
  anything is.\<close>

function memcmp_words :: "byte list \<Rightarrow> byte list \<Rightarrow> nat \<Rightarrow> nat \<Rightarrow> nat \<Rightarrow> u64 \<Rightarrow> nat \<Rightarrow> u64 \<Rightarrow> nat \<Rightarrow> nat
    \<Rightarrow> int \<times> nat + nat \<times> u64 \<times> nat \<times> u64 \<times> nat \<times> nat" where
  "memcmp_words m1 m2 z1 z2 b1 acc1 b2 acc2 processed bit_count =
     (if bit_count < 40 then Inr (b1, acc1, b2, acc2, processed, bit_count)
      else
        let a1 = acc1 OR push_bit (32 - z1) (load_be32 m1 b1);
            a2 = acc2 OR push_bit (32 - z2) (load_be32 m2 b2)
        in if (a1 XOR a2) AND push_bit 32 (- 1) \<noteq> 0
           then Inl (if a1 < a2 then - 1 else 1, processed + count_leading_zeroes64 (a1 XOR a2))
           else memcmp_words m1 m2 z1 z2 (b1 + 4) (push_bit 32 a1) (b2 + 4) (push_bit 32 a2)
                  (processed + 32) (bit_count - 32))"
  by pat_completeness auto
termination by (relation "measure (\<lambda>(m1, m2, z1, z2, b1, acc1, b2, acc2, processed, n). n)") auto

text \<open>\<open>offs\<close> is the number of bits still to be loaded; it may be negative.\<close>

function memcmp_bytes :: "byte list \<Rightarrow> nat \<Rightarrow> u64 \<Rightarrow> nat \<Rightarrow> int \<Rightarrow> nat \<times> u64 \<times> nat \<times> int" where
  "memcmp_bytes m b acc z offs =
     (if offs < 8 then (b, acc, z, offs)
      else memcmp_bytes m (b + 1) (acc OR push_bit (56 - z) (ucast (m ! b))) (z + 8) (offs - 8))"
  by pat_completeness auto
termination by (relation "measure (\<lambda>(m, b, acc, z, offs). nat offs)") auto

declare memcmp_words.simps [simp del] memcmp_bytes.simps [simp del]

definition memcmp_fill :: "byte list \<Rightarrow> nat \<Rightarrow> u64 \<Rightarrow> nat \<Rightarrow> int \<Rightarrow> u64 \<times> int" where
  "memcmp_fill m b acc z offs =
     (let (b1, acc1, z1, offs1) = memcmp_bytes m b acc z offs
      in (if offs1 > 0 then acc1 OR push_bit (56 - z1) (ucast (m ! b1)) else acc1, int z1 + offs1))"

definition bits_memcmp :: "byte list \<Rightarrow> nat \<Rightarrow> byte list \<Rightarrow> nat \<Rightarrow> nat \<Rightarrow> int \<times> nat option" where
  "bits_memcmp m1 bs1_offs0 m2 bs2_offs0 bit_count =
     (if bit_count = 0 then (0, None)
      else
        let b1 = bs1_offs0 div 8; b2 = bs2_offs0 div 8;
            bs1_offs = bs1_offs0 mod 8; bs2_offs = bs2_offs0 mod 8;
            acc1 = push_bit (56 + bs1_offs) (ucast (m1 ! b1)); z1 = 8 - bs1_offs;
            acc2 = push_bit (56 + bs2_offs) (ucast (m2 ! b2)); z2 = 8 - bs2_offs
        in case memcmp_words m1 m2 z1 z2 (b1 + 1) acc1 (b2 + 1) acc2 0 bit_count of
             Inl (r, s) \<Rightarrow> (r, Some s)
           | Inr (b1, acc1, b2, acc2, processed, n) \<Rightarrow>
               let (acc1, z1) = memcmp_fill m1 b1 acc1 z1 (int bs1_offs + int n - 8);
                   (acc2, z2) = memcmp_fill m2 b2 acc2 z2 (int bs2_offs + int n - 8)
               in if z1 \<noteq> 0 \<and> (acc1 XOR acc2) AND push_bit (nat (64 - z1)) (- 1) \<noteq> 0
                  then (if acc1 < acc2 then - 1 else 1, Some (processed + count_leading_zeroes64 (acc1 XOR acc2)))
                  else (0, Some (processed + n)))"

definition bits_lexcmp :: "byte list \<Rightarrow> nat \<Rightarrow> nat \<Rightarrow> byte list \<Rightarrow> nat \<Rightarrow> nat \<Rightarrow> int" where
  "bits_lexcmp m1 bs1_offs bs1_bit_count m2 bs2_offs bs2_bit_count =
     (let res = fst (bits_memcmp m1 bs1_offs m2 bs2_offs (min bs1_bit_count bs2_bit_count))
      in if res \<noteq> 0 \<or> bs1_bit_count = bs2_bit_count then res
         else if bs1_bit_count < bs2_bit_count then - 1 else 1)"

subsection \<open>Specification\<close>

text \<open>The length of the longest common prefix, and the lexicographic comparison.\<close>

definition lcp :: "bool list \<Rightarrow> bool list \<Rightarrow> nat" where
  "lcp xs ys = length (takeWhile (\<lambda>(x, y). x = y) (zip xs ys))"

fun lex_cmp :: "bool list \<Rightarrow> bool list \<Rightarrow> int" where
  "lex_cmp [] [] = 0"
| "lex_cmp [] (y # ys) = - 1"
| "lex_cmp (x # xs) [] = 1"
| "lex_cmp (x # xs) (y # ys) = (if x = y then lex_cmp xs ys else if y then - 1 else 1)"

lemma lcp_Nil [simp]: "lcp [] ys = 0" "lcp xs [] = 0"
  by (simp_all add: lcp_def)

lemma lcp_Cons [simp]: "lcp (x # xs) (y # ys) = (if x = y then Suc (lcp xs ys) else 0)"
  by (simp add: lcp_def)

lemma lcp_le: "lcp xs ys \<le> length xs" "lcp xs ys \<le> length ys"
  by (induction xs ys rule: lex_cmp.induct) auto

lemma lcp_take: "lcp (take n xs) (take n ys) = min n (lcp xs ys)"
  by (induction xs ys arbitrary: n rule: lex_cmp.induct) (auto simp: take_Cons' min_def)

lemma lcp_append:
  "length xs = length ys \<Longrightarrow>
     lcp (xs @ xs') (ys @ ys') = (if lcp xs ys = length xs then length xs + lcp xs' ys' else lcp xs ys)"
  by (induction xs ys rule: list_induct2) auto

lemma lcp_full: "length xs = length ys \<Longrightarrow> lcp xs ys = length xs \<longleftrightarrow> xs = ys"
proof (induction xs ys rule: list_induct2)
  case (Cons x xs y ys)
  then show ?case using lcp_le [of xs ys] by auto
qed simp

lemma lcp_refl [simp]: "lcp xs xs = length xs"
  by (induction xs) auto

lemma lex_cmp_lcp:
  "length xs = length ys \<Longrightarrow>
     lex_cmp xs ys = (if lcp xs ys = length xs then 0 else if ys ! lcp xs ys then - 1 else 1)"
  by (induction xs ys rule: list_induct2) auto

lemma lex_cmp_take_min:
  "lex_cmp xs ys = (let n = min (length xs) (length ys); r = lex_cmp (take n xs) (take n ys)
     in if r \<noteq> 0 \<or> length xs = length ys then r else if length xs < length ys then - 1 else 1)"
proof (induction xs ys rule: lex_cmp.induct)
  case (4 x xs y ys)
  then show ?case by (cases "x = y") (simp_all add: Let_def)
qed simp_all

lemma lex_cmp_append:
  "length xs = length ys \<Longrightarrow> lex_cmp (xs @ xs') (ys @ ys') = (if xs = ys then lex_cmp xs' ys' else lex_cmp xs ys)"
  by (induction xs ys rule: list_induct2) auto

lemma lex_cmp_eq_0: "lex_cmp xs ys = 0 \<longleftrightarrow> xs = ys"
  by (induction xs ys rule: lex_cmp.induct) auto

lemma lex_cmp_flip: "lex_cmp ys xs = - lex_cmp xs ys"
  by (induction xs ys rule: lex_cmp.induct) auto

subsection \<open>Comparing words\<close>

lemma nat_of_bits_Cons: "nat_of_bits (x # xs) = (if x then 2 ^ length xs else 0) + nat_of_bits xs"
  using nat_of_bits_append [of "[x]" xs] by (simp add: nat_of_bits_def)

lemma nat_of_bits_lex:
  "length xs = length ys \<Longrightarrow> nat_of_bits xs < nat_of_bits ys \<longleftrightarrow> lex_cmp xs ys = - 1"
proof (induction xs ys rule: list_induct2)
  case (Cons x xs y ys)
  then show ?case using nat_of_bits_less [of xs] nat_of_bits_less [of ys]
    by (cases x; cases y) (auto simp: nat_of_bits_Cons)
qed simp

lemma word_less_lex: "(a :: u64) < b \<longleftrightarrow> lex_cmp (low_bits 64 a) (low_bits 64 b) = - 1"
proof -
  have "unat w = nat_of_bits (low_bits 64 w)" for w :: u64
    using unat_word_of_bits [of "low_bits 64 w", where 'a = 64] word_of_low_bits [of 64 w] by (simp add: take_bit_word_eq_self)
  then show ?thesis by (simp add: word_less_nat_alt nat_of_bits_lex)
qed

lemma clz_xor: "count_leading_zeroes64 (a XOR b) = lcp (low_bits 64 a) (low_bits 64 b)"
proof -
  have "low_bits 64 (a XOR b) = map2 (\<noteq>) (low_bits 64 a) (low_bits 64 b)"
    by (rule nth_equalityI) (auto simp: bit_views bit_simps)
  moreover have "length xs = length ys \<Longrightarrow> scan False (map2 (\<noteq>) xs ys) = lcp xs ys" for xs ys
    by (induction xs ys rule: list_induct2) auto
  ultimately show ?thesis by (simp add: count_leading_zeroes64_eq)
qed

lemma top_differs:
  assumes "0 < z" and "z \<le> 64"
  shows "(a XOR b) AND push_bit (64 - z) (- 1) \<noteq> (0 :: u64) \<longleftrightarrow> lcp (low_bits 64 a) (low_bits 64 b) < z"
proof -
  have "lcp (low_bits 64 a) (low_bits 64 b) < z \<longleftrightarrow> take z (low_bits 64 a) \<noteq> take z (low_bits 64 b)"
    using lcp_full [of "take z (low_bits 64 a)" "take z (low_bits 64 b)"] assms
    by (auto simp: lcp_take min_def split: if_splits)
  also have "\<dots> \<longleftrightarrow> (\<exists>i<z. bit a (63 - i) \<noteq> bit b (63 - i))"
    using assms by (auto simp: list_eq_iff_nth_eq nth_low_bits)
  also have "\<dots> \<longleftrightarrow> (\<exists>j. 64 - z \<le> j \<and> j < 64 \<and> bit a j \<noteq> bit b j)" (is "?l \<longleftrightarrow> ?r")
  proof
    assume ?l
    then obtain i where "i < z" "bit a (63 - i) \<noteq> bit b (63 - i)" by blast
    with assms show ?r by (intro exI [of _ "63 - i"]) auto
  next
    assume ?r
    then obtain j where "64 - z \<le> j" "j < 64" "bit a j \<noteq> bit b j" by blast
    with assms show ?l by (intro exI [of _ "63 - j"]) auto
  qed
  also have "\<dots> \<longleftrightarrow> (a XOR b) AND push_bit (64 - z) (- 1) \<noteq> (0 :: u64)"
    by (force simp: bit_eq_iff bit_simps not_less)
  finally show ?thesis by blast
qed

lemma memcmp_result:
  assumes "0 < z" and "z \<le> 64" and "take z (low_bits 64 a) = xs" and "take z (low_bits 64 b) = ys"
  shows "(a XOR b) AND push_bit (64 - z) (- 1) \<noteq> (0 :: u64) \<longleftrightarrow> xs \<noteq> ys"
    and "xs \<noteq> ys \<Longrightarrow> (if a < b then - 1 else 1) = lex_cmp xs ys"
    and "xs \<noteq> ys \<Longrightarrow> count_leading_zeroes64 (a XOR b) = lcp xs ys"
proof -
  have len: "length xs = z" "length ys = z" using assms by auto
  have l: "lcp xs ys = min z (lcp (low_bits 64 a) (low_bits 64 b))" using assms(3,4) lcp_take by metis
  then show ne: "(a XOR b) AND push_bit (64 - z) (- 1) \<noteq> (0 :: u64) \<longleftrightarrow> xs \<noteq> ys"
    using top_differs [OF assms(1,2), of a b] lcp_full [of xs ys] len by auto
  assume d: "xs \<noteq> ys"
  then show "count_leading_zeroes64 (a XOR b) = lcp xs ys"
    using l lcp_full [of xs ys] len by (simp add: clz_xor min_def split: if_splits)
  have "low_bits 64 a = xs @ drop z (low_bits 64 a)" "low_bits 64 b = ys @ drop z (low_bits 64 b)"
    using assms(3,4) append_take_drop_id by metis+
  then have "lex_cmp (low_bits 64 a) (low_bits 64 b) = lex_cmp xs ys"
    using lex_cmp_append [of xs ys] d len by (metis (no_types))
  then show "(if a < b then - 1 else 1) = lex_cmp xs ys"
    using lex_cmp_lcp [of xs ys] lcp_full [of xs ys] d len by (auto simp: word_less_lex)
qed

subsection \<open>The accumulators\<close>

text \<open>The \<open>z\<close> high bits of the accumulator are the next bits of the stream, the others are zero.\<close>

definition acc_holds :: "u64 \<Rightarrow> bool list \<Rightarrow> bool" where
  "acc_holds acc xs \<longleftrightarrow> length xs \<le> 64 \<and> low_bits 64 acc = xs @ replicate (64 - length xs) False"

lemma acc_holds_append:
  assumes "acc_holds acc xs" and "length xs + k \<le> 64" and "\<And>i. bit w i \<Longrightarrow> i < k"
  shows "acc_holds (acc OR push_bit (64 - length xs - k) w) (xs @ low_bits k w)"
proof -
  have "low_bits 64 (acc OR push_bit (64 - length xs - k) w) = (xs @ low_bits k w) @ replicate (64 - length xs - k) False"
  proof (rule nth_equalityI)
    fix i assume "i < length (low_bits 64 (acc OR push_bit (64 - length xs - k) w))"
    then have i: "i < 64" by simp
    have a: "bit acc (63 - i) = (i < length xs \<and> xs ! i)"
    proof -
      have "low_bits 64 acc ! i = (xs @ replicate (64 - length xs) False) ! i"
        using assms(1) by (simp add: acc_holds_def)
      then show ?thesis using i by (auto simp: bit_views nth_append)
    qed
    have p: "bit (push_bit (64 - length xs - k) w) (63 - i) \<longleftrightarrow> length xs \<le> i \<and> i < length xs + k \<and> bit w (k - 1 - (i - length xs))"
    proof (cases "i < length xs + k")
      case True
      then have e: "63 - i - (64 - length xs - k) = length xs + k - 1 - i" "64 - length xs - k \<le> 63 - i"
        using assms(2) i by linarith+
      show ?thesis
      proof (cases "length xs \<le> i")
        case True
        then have "length xs + k - 1 - i = k - 1 - (i - length xs)" by simp
        moreover have "63 - i < 64" by simp
        ultimately show ?thesis using True e i \<open>i < length xs + k\<close>
          by (simp only: bit_push_bit_iff possible_bit_word) simp
      next
        case False
        then have "\<not> bit w (length xs + k - 1 - i)" using assms(3) [of "length xs + k - 1 - i"] by linarith
        with False e show ?thesis by (simp add: bit_push_bit_iff del: diff_diff_left)
      qed
    next
      case False
      then have "\<not> 64 - length xs - k \<le> 63 - i" using assms(2) i by linarith
      with False show ?thesis by (simp add: bit_push_bit_iff del: diff_diff_left)
    qed
    show "low_bits 64 (acc OR push_bit (64 - length xs - k) w) ! i
        = ((xs @ low_bits k w) @ replicate (64 - length xs - k) False) ! i"
      using i a p by (auto simp: nth_low_bits bit_or_iff nth_append)
  qed (use assms in simp)
  then show ?thesis using assms(2) by (simp add: acc_holds_def)
qed

lemma low_bits_push:
  assumes "n \<le> 64"
  shows "low_bits 64 (push_bit n (w :: u64)) = drop n (low_bits 64 w) @ replicate n False"
proof (rule nth_equalityI)
  fix i assume "i < length (low_bits 64 (push_bit n w))"
  then have i: "i < 64" by simp
  then have "63 - i - n = 63 - (n + i)" "n \<le> 63 - i \<longleftrightarrow> i < 64 - n" by linarith+
  then show "low_bits 64 (push_bit n w) ! i = (drop n (low_bits 64 w) @ replicate n False) ! i"
    using i assms by (auto simp: nth_low_bits nth_append bit_push_bit_iff)
qed (use assms in simp)

lemma acc_holds_shift:
  assumes "acc_holds acc xs" and "n \<le> length xs"
  shows "acc_holds (push_bit n acc) (drop n xs)"
proof -
  have "low_bits 64 (push_bit n acc) = drop n (low_bits 64 acc) @ replicate n False"
    using assms by (intro low_bits_push) (simp add: acc_holds_def)
  then show ?thesis using assms by (auto simp: acc_holds_def replicate_add [symmetric])
qed

lemma acc_holds_first:
  assumes "o' < 8"
  shows "acc_holds (push_bit (56 + o') (ucast (b :: byte))) (drop o' (byte_bits b))"
proof -
  have "acc_holds 0 []" by (simp add: acc_holds_def low_bits_def map_replicate_const)
  from acc_holds_append [OF this, of 8 "ucast b"] have "acc_holds (push_bit o' (push_bit 56 (ucast b))) (drop o' (byte_bits b))"
    using assms bit_ucast_byte_less [of b]
    by (intro acc_holds_shift) (auto simp: low_bits_ucast_byte)
  then show ?thesis by (simp add: add.commute)
qed

lemma acc_holds_take: "acc_holds acc xs \<Longrightarrow> n \<le> length xs \<Longrightarrow> take n (low_bits 64 acc) = take n xs"
  by (simp add: acc_holds_def)

text \<open>\<open>S\<close> is the stream from the current position; \<open>b\<close> points behind the \<open>z\<close> bits already loaded.\<close>

definition stream_at :: "byte list \<Rightarrow> nat \<Rightarrow> u64 \<Rightarrow> nat \<Rightarrow> bool list \<Rightarrow> bool" where
  "stream_at m b acc z S \<longleftrightarrow> z \<le> length S \<and> acc_holds acc (take z S) \<and> drop z S = bits_of (drop b m)"

lemma stream_at_byte:
  assumes "stream_at m b acc z S" and "z \<le> 56" and "z < length S"
  shows "stream_at m (b + 1) (acc OR push_bit (56 - z) (ucast (m ! b))) (z + 8) S" and "z + 8 \<le> length S"
proof -
  have "length S - z = 8 * (length m - b)"
    using assms(1) by (metis length_drop length_bits_of stream_at_def)
  then have b: "b < length m" using assms(3) by linarith
  then have d: "drop z S = byte_bits (m ! b) @ bits_of (drop (b + 1) m)"
    using assms(1) by (simp add: stream_at_def flip: Cons_nth_drop_Suc)
  have "length S - z = 8 + 8 * (length m - (b + 1))"
    using d by (metis length_append length_bits_of length_byte_bits length_drop)
  then show z: "z + 8 \<le> length S" using assms(3) by linarith
  have t: "take (z + 8) S = take z S @ low_bits 8 (ucast (m ! b) :: u64)"
    by (simp add: take_add d low_bits_ucast_byte)
  have l: "length (take z S) = z" using assms by simp
  have "acc_holds (acc OR push_bit (64 - length (take z S) - 8) (ucast (m ! b)))
      (take z S @ low_bits 8 (ucast (m ! b) :: u64))"
    by (rule acc_holds_append) (use assms l in \<open>auto simp: stream_at_def dest: bit_ucast_byte_less\<close>)
  moreover have "drop (z + 8) S = bits_of (drop (b + 1) m)"
    using arg_cong [OF d, of "drop 8"] by (simp add: add.commute)
  ultimately show "stream_at m (b + 1) (acc OR push_bit (56 - z) (ucast (m ! b))) (z + 8) S"
    using z l by (simp add: stream_at_def t)
qed

lemma stream_at_word:
  assumes "stream_at m b acc z S" and "z \<le> 32" and "z + 32 \<le> length S"
  shows "stream_at m (b + 4) (acc OR push_bit (32 - z) (load_be32 m b)) (z + 32) S"
proof -
  have "length S - z = 8 * (length m - b)"
    using assms(1) by (metis length_drop length_bits_of stream_at_def)
  then have b: "b + 4 \<le> length m" using assms(3) by linarith
  have d: "drop z S = bits_of (drop b m)" using assms(1) by (simp add: stream_at_def)
  have t: "take (z + 32) S = take z S @ low_bits 32 (load_be32 m b)"
    using b by (simp add: take_add d low_bits_load_be32 drop_bits_of)
  have l: "length (take z S) = z" using assms by simp
  have "acc_holds (acc OR push_bit (64 - length (take z S) - 32) (load_be32 m b))
      (take z S @ low_bits 32 (load_be32 m b))"
    by (rule acc_holds_append) (use assms l in \<open>auto simp: stream_at_def dest: bit_load_be32_less\<close>)
  moreover have "drop (z + 32) S = bits_of (drop (b + 4) m)"
    using arg_cong [OF d, of "drop 32"] drop_bits_of [of 4 "drop b m"] by (simp add: add.commute)
  ultimately show ?thesis using assms l by (simp add: stream_at_def t)
qed

lemma stream_at_shift:
  assumes "stream_at m b acc (z + n) S"
  shows "stream_at m b (push_bit n acc) z (drop n S)"
  using assms acc_holds_shift [of acc "take (z + n) S" n]
  by (auto simp: stream_at_def take_drop add.commute)

lemma memcmp_bytes_inv:
  assumes "memcmp_bytes m b acc z offs = (b', acc', z', offs')"
    and "stream_at m b acc z S" and "int z + offs = int n" and "n \<le> length S" and "n \<le> 40" and "z \<le> 40"
  shows "stream_at m b' acc' z' S \<and> int z' + offs' = int n \<and> offs' < 8 \<and> z' \<le> 40"
  using assms
proof (induction m b acc z offs rule: memcmp_bytes.induct)
  case (1 m b acc z offs)
  show ?case
  proof (cases "offs < 8")
    case True
    with "1.prems" show ?thesis by (simp add: memcmp_bytes.simps [of m b])
  next
    case False
    then have "z < length S" "z + 8 \<le> 40" using "1.prems" by linarith+
    with "1.prems" False stream_at_byte [OF "1.prems"(2)] show ?thesis
      by (intro "1.IH") (simp_all add: memcmp_bytes.simps [of m b])
  qed
qed

lemma memcmp_fill_correct:
  assumes "stream_at m b acc z S" and "z \<le> 40" and "n < 40" and "n \<le> length S"
  shows "snd (memcmp_fill m b acc z (int n - int z)) = int n
     \<and> take n (low_bits 64 (fst (memcmp_fill m b acc z (int n - int z)))) = take n S"
proof -
  obtain b1 acc1 z1 offs1 where r: "memcmp_bytes m b acc z (int n - int z) = (b1, acc1, z1, offs1)"
    by (metis prod_cases4)
  have I: "stream_at m b1 acc1 z1 S" "int z1 + offs1 = int n" "offs1 < 8" "z1 \<le> 40"
    using memcmp_bytes_inv [OF r assms(1)] assms by auto
  show ?thesis
  proof (cases "offs1 > 0")
    case True
    then have "z1 < length S" "n \<le> z1 + 8" using I assms by linarith+
    with stream_at_byte [OF I(1)] I(4) have "acc_holds (acc1 OR push_bit (56 - z1) (ucast (m ! b1))) (take (z1 + 8) S)"
      "z1 + 8 \<le> length S" by (auto simp: stream_at_def)
    then show ?thesis using True I \<open>n \<le> z1 + 8\<close> by (auto simp: memcmp_fill_def r acc_holds_take min_def)
  next
    case False
    then have "n \<le> z1" using I by linarith
    moreover have "acc_holds acc1 (take z1 S)" "z1 \<le> length S" using I by (auto simp: stream_at_def)
    ultimately show ?thesis using False I by (auto simp: memcmp_fill_def r acc_holds_take min_def)
  qed
qed

lemma take_neq_imp: "take n xs \<noteq> take n ys \<Longrightarrow> n \<le> m \<Longrightarrow> take m xs \<noteq> take m ys"
  by (metis min.absorb1 take_take)

lemma memcmp_words_inv:
  assumes "stream_at m1 b1 acc1 z1 S1" and "stream_at m2 b2 acc2 z2 S2"
    and "0 < z1" "z1 \<le> 8" "0 < z2" "z2 \<le> 8" and "n \<le> length S1" and "n \<le> length S2"
  shows "case memcmp_words m1 m2 z1 z2 b1 acc1 b2 acc2 done n of
      Inl (r, s) \<Rightarrow> r = lex_cmp (take n S1) (take n S2) \<and> s = done + lcp (take n S1) (take n S2)
        \<and> take n S1 \<noteq> take n S2
    | Inr (b1', acc1', b2', acc2', done', n') \<Rightarrow>
        stream_at m1 b1' acc1' z1 (drop (n - n') S1) \<and> stream_at m2 b2' acc2' z2 (drop (n - n') S2)
        \<and> take (n - n') S1 = take (n - n') S2 \<and> n' \<le> n \<and> n' < 40 \<and> done' = done + (n - n') \<and> (0 < n \<longrightarrow> 0 < n')"
  using assms
proof (induction n arbitrary: b1 acc1 b2 acc2 "done" S1 S2 rule: less_induct)
  case (less n)
  show ?case
  proof (cases "n < 40")
    case True
    with less.prems show ?thesis by (simp add: memcmp_words.simps [of m1 m2])
  next
    case n: False
    define a1 where "a1 = acc1 OR push_bit (32 - z1) (load_be32 m1 b1)"
    define a2 where "a2 = acc2 OR push_bit (32 - z2) (load_be32 m2 b2)"
    have st: "stream_at m1 (b1 + 4) a1 (z1 + 32) S1" "stream_at m2 (b2 + 4) a2 (z2 + 32) S2"
      unfolding a1_def a2_def using less.prems n by (auto intro!: stream_at_word)
    have low: "take 32 (low_bits 64 a1) = take 32 S1" "take 32 (low_bits 64 a2) = take 32 S2"
      using st n less.prems(7,8) by (auto simp: stream_at_def acc_holds_take min_def)
    have "0 < (32 :: nat)" "(32 :: nat) \<le> 64" by simp_all
    note res = memcmp_result [OF this low, simplified]
    show ?thesis
    proof (cases "take 32 S1 = take 32 S2")
      case True
      have IH: "n - 32 < n" "stream_at m1 (b1 + 4) (push_bit 32 a1) z1 (drop 32 S1)"
        "stream_at m2 (b2 + 4) (push_bit 32 a2) z2 (drop 32 S2)"
        using st stream_at_shift n by auto
      have step: "memcmp_words m1 m2 z1 z2 b1 acc1 b2 acc2 done n
          = memcmp_words m1 m2 z1 z2 (b1 + 4) (push_bit 32 a1) (b2 + 4) (push_bit 32 a2) (done + 32) (n - 32)"
        using n True res(1) by (simp add: memcmp_words.simps [of m1 m2 _ _ b1] flip: a1_def a2_def)
      have t: "take n S1 = take 32 S1 @ take (n - 32) (drop 32 S1)" "take n S2 = take 32 S2 @ take (n - 32) (drop 32 S2)"
        using n take_add [of 32 "n - 32" S1] take_add [of 32 "n - 32" S2] by simp_all
      have lt: "lex_cmp (take n S1) (take n S2) = lex_cmp (take (n - 32) (drop 32 S1)) (take (n - 32) (drop 32 S2))"
        "lcp (take n S1) (take n S2) = 32 + lcp (take (n - 32) (drop 32 S1)) (take (n - 32) (drop 32 S2))"
        using True less.prems(7,8) n unfolding t by (simp_all add: lex_cmp_append lcp_append)
      have dr: "drop (n - 32 - k) (drop 32 S) = drop (n - k) S" "take (n - k) S = take 32 S @ take (n - 32 - k) (drop 32 S)"
        if "k \<le> n - 32" for k and S :: "bool list"
        using that n take_add [of 32 "n - 32 - k" S] by simp_all
      have len: "n - 32 \<le> length (drop 32 S1)" "n - 32 \<le> length (drop 32 S2)" using less.prems(7,8) by simp_all
      note IH' = less.IH [OF IH less.prems(3-6) len, of "done + 32"]
      show ?thesis
      proof (cases "memcmp_words m1 m2 z1 z2 (b1 + 4) (push_bit 32 a1) (b2 + 4) (push_bit 32 a2) (done + 32) (n - 32)")
        case (Inl rs)
        obtain r s where "rs = (r, s)" by force
        moreover have "take n S1 \<noteq> take n S2 \<longleftrightarrow> take (n - 32) (drop 32 S1) \<noteq> take (n - 32) (drop 32 S2)"
          unfolding t True by simp
        ultimately show ?thesis using Inl IH' unfolding step lt by simp
      next
        case (Inr t)
        obtain b1' a1' b2' a2' d k where tt: "t = (b1', a1', b2', a2', d, k)" by (metis prod_cases6)
        then have "k \<le> n - 32" using Inr IH' by simp
        then have "n - (32 + k) + 32 = n - k" "32 + (n - (32 + k)) = n - k" using n by linarith+
        with Inr IH' n True tt show ?thesis unfolding step by (simp add: dr)
      qed
    next
      case False
      then have "memcmp_words m1 m2 z1 z2 b1 acc1 b2 acc2 done n
          = Inl (lex_cmp (take 32 S1) (take 32 S2), done + lcp (take 32 S1) (take 32 S2))"
        using n res by (simp add: memcmp_words.simps [of m1 m2 _ _ b1] flip: a1_def a2_def)
      moreover have t: "take n S1 = take 32 S1 @ take (n - 32) (drop 32 S1)" "take n S2 = take 32 S2 @ take (n - 32) (drop 32 S2)"
        using n take_add [of 32 "n - 32" S1] take_add [of 32 "n - 32" S2] by simp_all
      moreover have "lex_cmp (take n S1) (take n S2) = lex_cmp (take 32 S1) (take 32 S2)"
        "lcp (take n S1) (take n S2) = lcp (take 32 S1) (take 32 S2)"
        using False less.prems(7,8) n lcp_full [of "take 32 S1" "take 32 S2"]
        unfolding t by (simp_all add: lex_cmp_append lcp_append)
      moreover have "take n S1 \<noteq> take n S2" using False n by (intro take_neq_imp [OF False]) simp
      ultimately show ?thesis by simp
    qed
  qed
qed

lemma stream_at_start:
  assumes "offs < 8 * length m"
  shows "stream_at m (offs div 8 + 1) (push_bit (56 + offs mod 8) (ucast (m ! (offs div 8)))) (8 - offs mod 8)
     (drop offs (bits_of m))"
proof -
  define p where "p = offs div 8"
  define o' where "o' = offs mod 8"
  have po: "offs = 8 * p + o'" "o' < 8" by (simp_all add: p_def o'_def)
  have "p < length m" using assms po by linarith
  then have "bits_of (drop p m) = byte_bits (m ! p) @ bits_of (drop (p + 1) m)"
    by (simp flip: Cons_nth_drop_Suc)
  moreover have "drop offs (bits_of m) = drop o' (bits_of (drop p m))"
    by (simp add: po drop_bits_of [symmetric] add.commute)
  ultimately have d: "drop offs (bits_of m) = drop o' (byte_bits (m ! p)) @ bits_of (drop (p + 1) m)"
    using po by simp
  show ?thesis
    unfolding p_def [symmetric] o'_def [symmetric] d
    using acc_holds_first [OF po(2), of "m ! p"] by (simp add: stream_at_def)
qed

lemma bits_memcmp_correct:
  assumes "offs1 + n \<le> 8 * length m1" and "offs2 + n \<le> 8 * length m2"
  shows "bits_memcmp m1 offs1 m2 offs2 n =
    (lex_cmp (take n (drop offs1 (bits_of m1))) (take n (drop offs2 (bits_of m2))),
     if n = 0 then None else Some (lcp (take n (drop offs1 (bits_of m1))) (take n (drop offs2 (bits_of m2)))))"
proof (cases "n = 0")
  case True
  then show ?thesis by (simp add: bits_memcmp_def)
next
  case n: False
  let ?S1 = "drop offs1 (bits_of m1)" and ?S2 = "drop offs2 (bits_of m2)"
  define z1 where "z1 = 8 - offs1 mod 8"
  define z2 where "z2 = 8 - offs2 mod 8"
  define acc1 :: u64 where "acc1 = push_bit (56 + offs1 mod 8) (ucast (m1 ! (offs1 div 8)))"
  define acc2 :: u64 where "acc2 = push_bit (56 + offs2 mod 8) (ucast (m2 ! (offs2 div 8)))"
  have z: "0 < z1" "z1 \<le> 8" "0 < z2" "z2 \<le> 8" by (simp_all add: z1_def z2_def)
  have st: "stream_at m1 (offs1 div 8 + 1) acc1 z1 ?S1" "stream_at m2 (offs2 div 8 + 1) acc2 z2 ?S2"
    unfolding acc1_def acc2_def z1_def z2_def
    by (rule stream_at_start; use assms n in linarith)+
  have len: "n \<le> length ?S1" "n \<le> length ?S2" using assms by auto
  have zi: "int (offs1 mod 8) + int k - 8 = int k - int z1" "int (offs2 mod 8) + int k - 8 = int k - int z2" for k
    by (simp_all add: z1_def z2_def of_nat_diff)
  note W = memcmp_words_inv [OF st z len, of 0]
  define res where "res = memcmp_words m1 m2 z1 z2 (offs1 div 8 + 1) acc1 (offs2 div 8 + 1) acc2 0 n"
  have memcmp: "bits_memcmp m1 offs1 m2 offs2 n = (case res of
      Inl (r, s) \<Rightarrow> (r, Some s)
    | Inr (b1, acc1, b2, acc2, processed, n) \<Rightarrow>
        let (acc1, z1) = memcmp_fill m1 b1 acc1 z1 (int n - int z1);
            (acc2, z2) = memcmp_fill m2 b2 acc2 z2 (int n - int z2)
        in if z1 \<noteq> 0 \<and> (acc1 XOR acc2) AND push_bit (nat (64 - z1)) (- 1) \<noteq> 0
           then (if acc1 < acc2 then - 1 else 1, Some (processed + count_leading_zeroes64 (acc1 XOR acc2)))
           else (0, Some (processed + n)))"
    unfolding bits_memcmp_def Let_def z1_def [symmetric] z2_def [symmetric] acc1_def [symmetric] acc2_def [symmetric]
      res_def [symmetric] zi using n by simp
  show ?thesis
  proof (cases res)
    case (Inl rs)
    with W n show ?thesis by (simp add: memcmp res_def split: prod.splits)
  next
    case (Inr t)
    then obtain b1 a1 b2 a2 d k where t: "res = Inr (b1, a1, b2, a2, d, k)" by (metis prod_cases6)
    let ?T1 = "drop (n - k) ?S1" and ?T2 = "drop (n - k) ?S2"
    have I: "stream_at m1 b1 a1 z1 ?T1" "stream_at m2 b2 a2 z2 ?T2" "take (n - k) ?S1 = take (n - k) ?S2"
      "k \<le> n" "k < 40" "d = n - k" "0 < k"
      using W n unfolding res_def [symmetric] t by auto
    have z40: "z1 \<le> 40" "z2 \<le> 40" using z by linarith+
    have kl: "k \<le> length ?T1" "k \<le> length ?T2" using I(4) len by simp_all
    obtain c1 c2 where f: "memcmp_fill m1 b1 a1 z1 (int k - int z1) = (c1, int k)"
        "memcmp_fill m2 b2 a2 z2 (int k - int z2) = (c2, int k)"
      and c: "take k (low_bits 64 c1) = take k ?T1" "take k (low_bits 64 c2) = take k ?T2"
      using memcmp_fill_correct [OF I(1) z40(1) I(5) kl(1)] memcmp_fill_correct [OF I(2) z40(2) I(5) kl(2)]
      by (metis prod.collapse)
    have k64: "k \<le> 64" "nat (64 - int k) = 64 - k" using I(5) by auto
    note R = memcmp_result [OF I(7) k64(1) c]
    have tn: "take n ?S1 = take (n - k) ?S1 @ take k ?T1" "take n ?S2 = take (n - k) ?S1 @ take k ?T2"
      using I(3,4) take_add [of "n - k" k ?S1] take_add [of "n - k" k ?S2] by simp_all
    have lx: "lex_cmp (take n ?S1) (take n ?S2) = lex_cmp (take k ?T1) (take k ?T2)"
      "lcp (take n ?S1) (take n ?S2) = n - k + lcp (take k ?T1) (take k ?T2)"
      unfolding tn using I(4) len by (simp_all add: lex_cmp_append lcp_append)
    have "bits_memcmp m1 offs1 m2 offs2 n = (if take k ?T1 \<noteq> take k ?T2
        then (if c1 < c2 then - 1 else 1, Some (d + count_leading_zeroes64 (c1 XOR c2))) else (0, Some (d + k)))"
      unfolding memcmp t sum.case prod.case f Let_def using R(1) I(7) k64 by simp
    also have "\<dots> = (lex_cmp (take k ?T1) (take k ?T2), Some (d + lcp (take k ?T1) (take k ?T2)))"
      using R(2,3) kl by (auto simp: lex_cmp_eq_0)
    finally show ?thesis using lx I n by simp
  qed
qed

lemma bits_lexcmp_correct:
  assumes "offs1 + n1 \<le> 8 * length m1" and "offs2 + n2 \<le> 8 * length m2"
  shows "bits_lexcmp m1 offs1 n1 m2 offs2 n2
     = lex_cmp (take n1 (drop offs1 (bits_of m1))) (take n2 (drop offs2 (bits_of m2)))"
proof -
  let ?xs = "take n1 (drop offs1 (bits_of m1))" and ?ys = "take n2 (drop offs2 (bits_of m2))"
  have len: "length ?xs = n1" "length ?ys = n2" using assms by simp_all
  have "fst (bits_memcmp m1 offs1 m2 offs2 (min n1 n2)) = lex_cmp (take (min n1 n2) ?xs) (take (min n1 n2) ?ys)"
    using assms by (subst bits_memcmp_correct) auto
  then show ?thesis
    using lex_cmp_take_min [of ?xs ?ys] len by (simp add: bits_lexcmp_def Let_def)
qed

end
