(* ===== verification/Level_Mask.thy ===== *)
theory Level_Mask
  imports Bit_Scan
begin

text \<open>
  The level masks of cells, \<open>crypto/vm/cells/LevelMask.h\<close>: a 32-bit mask with a bit for every
  level at which a cell has a hash of its own. The masks of cells have at most three bits.
\<close>

type_synonym level_mask = u32

text \<open>\<open>td::count_bits32\<close> of \<open>td/utils/bits.h\<close>.\<close>

definition count_bits32 :: "u32 \<Rightarrow> u32" where
  "count_bits32 x0 =
     (let x1 = x0 - (drop_bit 1 x0 AND 0x55555555);
          x2 = (x1 AND 0x33333333) + (drop_bit 2 x1 AND 0x33333333);
          x3 = (x2 + drop_bit 4 x2) AND 0x0F0F0F0F;
          x4 = x3 + drop_bit 8 x3
      in (x4 + drop_bit 16 x4) AND 0x3F)"

definition mask_level :: "level_mask \<Rightarrow> nat" where
  "mask_level m = 32 - count_leading_zeroes32 m"

definition mask_hash_i :: "level_mask \<Rightarrow> nat" where
  "mask_hash_i m = unat (count_bits32 m)"

definition mask_hashes_count :: "level_mask \<Rightarrow> nat" where
  "mask_hashes_count m = mask_hash_i m + 1"

definition mask_apply :: "level_mask \<Rightarrow> nat \<Rightarrow> level_mask" where
  "mask_apply m level = m AND (push_bit level 1 - 1)"

definition mask_apply_or :: "level_mask \<Rightarrow> level_mask \<Rightarrow> level_mask" where
  "mask_apply_or m other = m OR other"

definition mask_shift_right :: "level_mask \<Rightarrow> level_mask" where
  "mask_shift_right m = drop_bit 1 m"

definition is_significant :: "level_mask \<Rightarrow> nat \<Rightarrow> bool" where
  "is_significant m level \<longleftrightarrow> level = 0 \<or> drop_bit (level - 1) m mod 2 \<noteq> 0"

text \<open>The condition of the \<open>CHECK\<close> in \<open>is_significant\<close>, which aborts the program when it is false.\<close>

definition is_significant_check :: "level_mask \<Rightarrow> nat \<Rightarrow> bool" where
  "is_significant_check m level \<longleftrightarrow> is_significant m level = (mask_level (mask_apply m level) = level)"

definition one_level :: "nat \<Rightarrow> level_mask" where
  "one_level level = (if level = 0 then 0 else push_bit (level - 1) 1)"

section \<open>Levels\<close>

lemma mask_level_le: "mask_level m \<le> 32"
  by (simp add: mask_level_def)

lemma bit_mask_level: "mask_level m \<le> i \<Longrightarrow> \<not> bit m i"
proof (cases "i < 32")
  case True
  assume "mask_level m \<le> i"
  with True have "31 - i < scan False (low_bits 32 m)"
    using scan_le [of False "low_bits 32 m"] by (simp add: mask_level_def count_leading_zeroes32_eq)
  then have "low_bits 32 m ! (31 - i) = False" by (rule nth_less_scan)
  with True show ?thesis by (simp add: bit_views)
next
  case False
  then show ?thesis using bit_imp_le_length [of m i] by auto
qed

lemma mask_level_pos: "0 < mask_level m \<Longrightarrow> bit m (mask_level m - 1)"
proof -
  assume pos: "0 < mask_level m"
  then have s: "scan False (low_bits 32 m) < length (low_bits 32 m)"
    by (simp add: mask_level_def count_leading_zeroes32_eq)
  from nth_scan [OF this] s show ?thesis
    by (simp add: mask_level_def count_leading_zeroes32_eq nth_low_bits)
qed

lemma mask_level_eqI: "\<lbrakk>bit m l; \<And>i. l < i \<Longrightarrow> \<not> bit m i\<rbrakk> \<Longrightarrow> mask_level m = Suc l"
proof -
  assume l: "bit m l" "\<And>i. l < i \<Longrightarrow> \<not> bit m i"
  have "l < mask_level m" using l(1) bit_mask_level [of m l] not_less by blast
  moreover from this have "\<not> l < mask_level m - 1" using l(2) mask_level_pos [of m] by force
  ultimately show ?thesis by linarith
qed

lemma mask_level_0 [simp]: "mask_level 0 = 0"
  using mask_level_pos [of 0] by (metis bit_0_eq bot_apply bot_bool_def bot_nat_0.not_eq_extremum)

lemma mask_level_eq_0: "mask_level m = 0 \<longleftrightarrow> m = 0"
proof
  assume "mask_level m = 0"
  then have "\<not> bit m i" for i using bit_mask_level [of m i] by simp
  then show "m = 0" by (intro bit_word_eqI) simp
qed simp

lemma mask_level_le_iff: "mask_level m \<le> n \<longleftrightarrow> (\<forall>i \<ge> n. \<not> bit m i)"
proof
  assume a: "\<forall>i \<ge> n. \<not> bit m i"
  show "mask_level m \<le> n"
  proof (rule ccontr)
    assume "\<not> mask_level m \<le> n"
    then have "n \<le> mask_level m - 1" "0 < mask_level m" by linarith+
    with a mask_level_pos [of m] show False by blast
  qed
qed (use bit_mask_level in fastforce)

lemma bit_mask_apply [bit_views]: "l < 32 \<Longrightarrow> bit (mask_apply m l) i \<longleftrightarrow> i < l \<and> bit m i"
proof -
  assume l: "l < 32"
  have "(push_bit l 1 - 1 :: u32) = mask l" by (simp add: mask_eq_exp_minus_1 push_bit_eq_mult)
  with l show ?thesis by (auto simp: mask_apply_def bit_and_iff bit_mask_iff)
qed

lemma is_significant_iff: "is_significant m l \<longleftrightarrow> l = 0 \<or> bit m (l - 1)"
  by (simp add: is_significant_def bit_iff_odd_drop_bit even_iff_mod_2_eq_zero)

lemma is_significant_check_holds: "l < 32 \<Longrightarrow> is_significant_check m l"
proof (cases l)
  case 0
  have "mask_apply m 0 = 0" by (simp add: mask_apply_def)
  with 0 show ?thesis by (simp add: is_significant_check_def is_significant_def)
next
  case (Suc k)
  assume l: "l < 32"
  have "mask_level (mask_apply m l) = Suc k" if "bit m k"
    using that l Suc by (intro mask_level_eqI) (auto simp: bit_views)
  moreover have "bit m k" if "mask_level (mask_apply m l) = Suc k"
    using mask_level_pos [of "mask_apply m l"] that l Suc by (simp add: bit_views)
  ultimately show ?thesis using Suc by (auto simp: is_significant_check_def is_significant_iff)
qed

section \<open>Masks of cells\<close>

text \<open>The masks of at most three bits, which fit the field of a cell.\<close>

definition cell_mask :: "level_mask \<Rightarrow> bool" where
  "cell_mask m \<longleftrightarrow> mask_level m \<le> 3"

lemma cell_mask_bits: "cell_mask m \<longleftrightarrow> (\<forall>i \<ge> 3. \<not> bit m i)"
  by (simp add: cell_mask_def mask_level_le_iff)

lemma bit_7: "bit (7 :: u32) i \<longleftrightarrow> i < 3"
proof -
  have "(7 :: u32) = mask 3" by (simp add: mask_eq_exp_minus_1)
  then show ?thesis by (simp only: bit_mask_iff) (auto simp: possible_bit_def)
qed

lemma cell_mask_and_7: "cell_mask m \<Longrightarrow> m AND 7 = m"
proof (rule bit_word_eqI)
  fix i assume "cell_mask m" "i < LENGTH(32)"
  then show "bit (m AND 7) i = bit m i" unfolding bit_and_iff bit_7 cell_mask_bits by (cases "i < 3") auto
qed

lemma cell_mask_cases: "cell_mask m \<Longrightarrow> m \<in> {0, 1, 2, 3, 4, 5, 6, 7}"
proof -
  assume m: "cell_mask m"
  then have "take_bit 3 m = m"
    unfolding cell_mask_bits by (intro bit_word_eqI) (metis bit_take_bit_iff not_less)
  then have "unat m = take_bit 3 (unat m)" by (metis unsigned_take_bit_eq)
  then have "unat m < 8" using take_bit_nat_less_exp [of 3 "unat m"] by simp
  then have "\<exists>k \<in> {0, 1, 2, 3, 4, 5, 6, 7}. m = word_of_nat k"
    by (intro bexI [of _ "unat m"]) auto
  then show ?thesis by auto
qed

lemma cell_mask_hash_i:
  "cell_mask m \<Longrightarrow> mask_hash_i m = length (filter (bit m) [0..<3])"
  using cell_mask_cases [of m] by (auto simp: mask_hash_i_def count_bits32_def Let_def upt_rec)

lemma cell_mask_0 [simp]: "cell_mask 0"
  by (simp add: cell_mask_def)

lemma cell_mask_apply: "l < 32 \<Longrightarrow> cell_mask m \<Longrightarrow> cell_mask (mask_apply m l)"
  by (simp add: cell_mask_bits bit_mask_apply)

lemma cell_mask_apply_or: "cell_mask m \<Longrightarrow> cell_mask m' \<Longrightarrow> cell_mask (mask_apply_or m m')"
  by (simp add: cell_mask_bits mask_apply_or_def bit_or_iff)

lemma cell_mask_shift_right: "cell_mask m \<Longrightarrow> cell_mask (mask_shift_right m)"
  by (simp add: cell_mask_bits mask_shift_right_def bit_drop_bit_eq)

lemma mask_apply_high: "l < 32 \<Longrightarrow> mask_level m \<le> l \<Longrightarrow> mask_apply m l = m"
  by (rule bit_word_eqI) (auto simp: bit_mask_apply mask_level_le_iff not_le [symmetric])

lemma mask_level_apply: "l < 32 \<Longrightarrow> mask_level (mask_apply m l) \<le> l"
  by (simp add: mask_level_le_iff bit_mask_apply)

lemma mask_apply_apply: "l < 32 \<Longrightarrow> k < 32 \<Longrightarrow> mask_apply (mask_apply m l) k = mask_apply m (min l k)"
  by (rule bit_word_eqI) (auto simp: bit_mask_apply min_def)

lemma mask_hash_i_0 [simp]: "mask_hash_i 0 = 0"
  by (simp add: mask_hash_i_def count_bits32_def)

lemma mask_apply_0 [simp]: "mask_apply 0 l = 0"
  by (simp add: mask_apply_def)

text \<open>Applying a level keeps the hash indices in order: the hash of a level is one of those stored.\<close>

lemma mask_hash_i_apply_le:
  assumes "cell_mask m" and "l < 32"
  shows "mask_hash_i (mask_apply m l) \<le> mask_hash_i m"
proof -
  have "filter (bit (mask_apply m l)) [0..<3] = filter (\<lambda>i. i < l) (filter (bit m) [0..<3])"
    using assms(2) by (auto simp: bit_mask_apply intro!: filter_cong)
  then have "length (filter (bit (mask_apply m l)) [0..<3]) \<le> length (filter (bit m) [0..<3])"
    by (metis length_filter_le)
  then show ?thesis using assms by (simp add: cell_mask_hash_i cell_mask_apply)
qed

lemma mask_level_values:
  "mask_level 1 = 1" "mask_level 2 = 2" "mask_level 3 = 2" "mask_level 4 = 3" "mask_level 5 = 3"
  "mask_level 6 = 3" "mask_level 7 = 3"
  by code_simp+

lemma mask_hash_i_below:
  assumes "cell_mask m" and "m \<noteq> 0"
  shows "mask_hashes_count (mask_apply m (mask_level m - 1)) = mask_hash_i m"
  using cell_mask_cases [OF assms(1)] assms(2)
  by (auto simp: mask_level_values mask_hashes_count_def mask_hash_i_def count_bits32_def mask_apply_def)

end
