(* ===== verification/Cells.thy ===== *)
theory Cells
  imports Level_Mask
begin

text \<open>
  Cells, \<open>crypto/vm/cells/DataCell.cpp\<close>, \<open>VirtualCell.h\<close> and \<open>Cell.cpp\<close>: the checks of
  \<open>DataCell::create\<close>, the hashes and depths it computes for every level, how they are read back
  and how a cell is serialized. SHA-256 (OpenSSL) is the parameter \<open>sha256\<close>.
\<close>

section \<open>Data\<close>

abbreviation (input) "max_refs \<equiv> 4 :: nat"
abbreviation (input) "max_bytes \<equiv> 128 :: nat"
abbreviation (input) "max_bits \<equiv> 1023 :: nat"
abbreviation (input) "hash_bytes \<equiv> 32 :: nat"
abbreviation (input) "hash_bits \<equiv> 256 :: nat"
abbreviation (input) "depth_bytes \<equiv> 2 :: nat"
abbreviation (input) "max_level \<equiv> 3 :: nat"
abbreviation (input) "max_depth \<equiv> 1024 :: nat"
abbreviation (input) "max_virtualization \<equiv> 7 :: nat"

datatype special_type = Ordinary | PrunnedBranch | Library | MerkleProof | MerkleUpdate | Unknown nat

definition special_type_of :: "nat \<Rightarrow> special_type" where
  "special_type_of n = (if n = 0 then Ordinary else if n = 1 then PrunnedBranch else if n = 2 then Library
     else if n = 3 then MerkleProof else if n = 4 then MerkleUpdate else Unknown n)"

text \<open>\<open>DataCell::Info\<close>.\<close>

record info =
  i_bits :: nat
  i_refs_count :: nat
  i_is_special :: bool
  i_level_mask :: level_mask
  i_hash_count :: nat
  i_virtualization :: nat

text \<open>A \<open>DataCell\<close> is its \<open>Info\<close> and its storage: the data bytes, the references, and a hash and a
  depth for every stored level. A \<open>VirtualCell\<close> shows a cell up to a level.\<close>

datatype cell =
    Data_Cell (c_info: info) (c_data: "byte list") (c_refs: "cell list")
      (c_hashes: "byte list list") (c_depths: "nat list")
  | Virtual_Cell (v_level: nat) (v_virtualization: nat) (v_cell: cell)

definition info_d1 :: "info \<Rightarrow> level_mask \<Rightarrow> byte" where
  "info_d1 i m = of_nat (i_refs_count i + 8 * of_bool (i_is_special i) + 32 * unat m)"

definition info_d2 :: "info \<Rightarrow> byte" where
  "info_d2 i = of_nat (i_bits i div 8 * 2) + (if i_bits i mod 8 \<noteq> 0 then 1 else 0)"

definition store_depth :: "byte list \<Rightarrow> nat \<Rightarrow> nat \<Rightarrow> byte list" where
  "store_depth dest pos depth = bits_store_long dest (8 * pos) (of_nat depth) 16"

definition load_depth :: "byte list \<Rightarrow> nat \<Rightarrow> nat" where
  "load_depth src pos = unat (bits_load_ulong src (8 * pos) 16 AND 0xffff)"

section \<open>Reading hashes and depths\<close>

definition data_special_type :: "info \<Rightarrow> byte list \<Rightarrow> special_type" where
  "data_special_type i data =
     (if i_is_special i then special_type_of (unat (bits_load_ulong data 0 8)) else Ordinary)"

primrec get_virtualization :: "cell \<Rightarrow> nat" where
  "get_virtualization (Data_Cell i data refs hashes depths) = i_virtualization i"
| "get_virtualization (Virtual_Cell vl v c) = v"

primrec get_level_mask :: "cell \<Rightarrow> level_mask" where
  "get_level_mask (Data_Cell i data refs hashes depths) = i_level_mask i"
| "get_level_mask (Virtual_Cell vl v c) = mask_apply (get_level_mask c) vl"

definition get_level :: "cell \<Rightarrow> nat" where
  "get_level c = mask_level (get_level_mask c)"

text \<open>The index of a stored hash or depth; a pruned branch keeps those of its lower levels in its
  data.\<close>

definition data_get_hash :: "info \<Rightarrow> byte list \<Rightarrow> byte list list \<Rightarrow> nat \<Rightarrow> byte list" where
  "data_get_hash i data hashes level =
     (let hash_i = mask_hash_i (mask_apply (i_level_mask i) level)
      in if data_special_type i data = PrunnedBranch then
           if hash_i \<noteq> mask_hash_i (i_level_mask i) then take hash_bytes (drop (2 + hash_bytes * hash_i) data)
           else hashes ! 0
         else hashes ! hash_i)"

definition data_get_depth :: "info \<Rightarrow> byte list \<Rightarrow> nat list \<Rightarrow> nat \<Rightarrow> nat" where
  "data_get_depth i data depths level =
     (let hash_i = mask_hash_i (mask_apply (i_level_mask i) level)
      in if data_special_type i data = PrunnedBranch then
           let this_hash_i = mask_hash_i (i_level_mask i)
           in if hash_i \<noteq> this_hash_i
              then load_depth data (2 + hash_bytes * this_hash_i + hash_i * depth_bytes)
              else depths ! 0
         else depths ! hash_i)"

definition fix_level :: "level_mask \<Rightarrow> nat \<Rightarrow> nat \<Rightarrow> nat" where
  "fix_level m vl level = mask_level (mask_apply (mask_apply m vl) level)"

primrec get_hash :: "cell \<Rightarrow> nat \<Rightarrow> byte list" where
  "get_hash (Data_Cell i data refs hashes depths) level = data_get_hash i data hashes level"
| "get_hash (Virtual_Cell vl v c) level = get_hash c (fix_level (get_level_mask c) vl level)"

primrec get_depth :: "cell \<Rightarrow> nat \<Rightarrow> nat" where
  "get_depth (Data_Cell i data refs hashes depths) level = data_get_depth i data depths level"
| "get_depth (Virtual_Cell vl v c) level = get_depth c (fix_level (get_level_mask c) vl level)"

section \<open>Creating a cell\<close>

type_synonym 'a result = "string + 'a"

text \<open>The data is copied into fresh storage, whose old content is \<open>junk\<close>, and completed with a
  one bit and zeroes.\<close>

definition copy_data_junk :: "byte list \<Rightarrow> byte list \<Rightarrow> nat \<Rightarrow> nat \<Rightarrow> byte list" where
  "copy_data_junk junk data offs bits =
     (let dp = bits_memcpy junk 0 data offs bits
      in if bits mod 8 \<noteq> 0 then
           let m = drop_bit (bits mod 8) 0x80; l = bits div 8
           in dp[l := (dp ! l AND - m) OR m]
         else dp)"

definition copy_data :: "byte list \<Rightarrow> nat \<Rightarrow> nat \<Rightarrow> byte list" where
  "copy_data data offs bits = copy_data_junk (replicate ((bits + 7) div 8) 0) data offs bits"

definition check_special ::
  "special_type \<Rightarrow> byte list \<Rightarrow> nat \<Rightarrow> nat \<Rightarrow> cell list \<Rightarrow> (level_mask \<times> nat) result" where
  "check_special type data offs bits refs =
     (case type of
        Ordinary \<Rightarrow>
          Inr (foldl (\<lambda>m r. mask_apply_or m (get_level_mask r)) 0 refs,
               foldl (\<lambda>v r. max v (get_virtualization r)) 0 refs)
      | PrunnedBranch \<Rightarrow>
          if length refs \<noteq> 0 then Inl ''PrunnedBranch special cell has a cell reference''
          else if bits < 16 then Inl ''Not enough data for a PrunnedBranch special cell''
          else
            let m = ucast (bits_load_ulong data (offs + 8) 8 AND 0xff); level = mask_level m
            in if level > max_level \<or> level = 0 then Inl ''Prunned Branch has an invalid level''
               else if bits \<noteq> (2 + mask_hashes_count (mask_apply m (level - 1)) * (hash_bytes + depth_bytes)) * 8
               then Inl ''Not enouch data for a PrunnedBranch special cell''
               else Inr (m, 0)
      | Library \<Rightarrow>
          if bits \<noteq> 8 + hash_bytes * 8 then Inl ''Not enouch data for a Library special cell''
          else Inr (0, 0)
      | MerkleProof \<Rightarrow>
          if bits \<noteq> 8 + (hash_bytes + depth_bytes) * 8
          then Inl ''Not enouch data for a MerkleProof special cell''
          else if length refs \<noteq> 1 then Inl ''Wrong references count for a MerkleProof special cell''
          else if fst (bits_memcmp data (offs + 8) (get_hash (refs ! 0) 0) 0 hash_bits) \<noteq> 0
          then Inl ''Hash mismatch in a MerkleProof special cell''
          else if unat (bits_load_ulong data (offs + 8 + hash_bits) (depth_bytes * 8)) \<noteq> get_depth (refs ! 0) 0
          then Inl ''Depth mismatch in a MerkleProof special cell''
          else Inr (mask_shift_right (get_level_mask (refs ! 0)), get_virtualization (refs ! 0))
      | MerkleUpdate \<Rightarrow>
          if bits \<noteq> 8 + (hash_bytes + depth_bytes) * 8 * 2
          then Inl ''Not enouch data for a MerkleUpdate special cell''
          else if length refs \<noteq> 2 then Inl ''Wrong references count for a MerkleUpdate special cell''
          else if fst (bits_memcmp data (offs + 8) (get_hash (refs ! 0) 0) 0 hash_bits) \<noteq> 0
          then Inl ''First hash mismatch in a MerkleProof special cell''
          else if fst (bits_memcmp data (offs + 8 + hash_bits) (get_hash (refs ! 1) 0) 0 hash_bits) \<noteq> 0
          then Inl ''Second hash mismatch in a MerkleProof special cell''
          else if unat (bits_load_ulong data (offs + 8 + 2 * hash_bits) (depth_bytes * 8)) \<noteq> get_depth (refs ! 0) 0
          then Inl ''First depth mismatch in a MerkleProof special cell''
          else if unat (bits_load_ulong data (offs + 8 + 2 * hash_bits + depth_bytes * 8) (depth_bytes * 8))
            \<noteq> get_depth (refs ! 1) 0
          then Inl ''Second depth mismatch in a MerkleProof special cell''
          else Inr (mask_shift_right (mask_apply_or (get_level_mask (refs ! 0)) (get_level_mask (refs ! 1))),
                    max (get_virtualization (refs ! 0)) (get_virtualization (refs ! 1)))
      | Unknown n \<Rightarrow> Inl ''Unknown special cell type'')"

text \<open>The message hashed for a level: the descriptor bytes, the data or the hash of the level below,
  the depths and the hashes of the references.\<close>

definition depth_buf :: "nat \<Rightarrow> byte list" where
  "depth_buf d = store_depth [0, 0] 0 d"

definition ref_level :: "special_type \<Rightarrow> nat \<Rightarrow> nat" where
  "ref_level type level_i = (if type = MerkleProof \<or> type = MerkleUpdate then level_i + 1 else level_i)"

definition level_message ::
  "info \<Rightarrow> special_type \<Rightarrow> level_mask \<Rightarrow> byte list \<Rightarrow> cell list \<Rightarrow> byte list list \<Rightarrow> nat \<Rightarrow> byte list" where
  "level_message i type m data refs hashes level_i =
     [info_d1 i (mask_apply m level_i), info_d2 i]
     @ (if hashes = [] then data else last hashes)
     @ concat (map (\<lambda>r. depth_buf (get_depth r (ref_level type level_i))) refs)
     @ concat (map (\<lambda>r. get_hash r (ref_level type level_i)) refs)"

definition level_depth :: "special_type \<Rightarrow> cell list \<Rightarrow> nat \<Rightarrow> nat" where
  "level_depth type refs level_i = foldl max 0 (map (\<lambda>r. get_depth r (ref_level type level_i)) refs)"

text \<open>The loop over the significant levels from \<open>hash_i_offset\<close> on, with the hashes and depths
  computed so far.\<close>

fun level_loop ::
  "(byte list \<Rightarrow> byte list) \<Rightarrow> info \<Rightarrow> special_type \<Rightarrow> level_mask \<Rightarrow> byte list \<Rightarrow> cell list
     \<Rightarrow> nat list \<Rightarrow> byte list list \<Rightarrow> nat list \<Rightarrow> (byte list list \<times> nat list) result" where
  "level_loop sha256 i type m data refs [] hashes depths = Inr (hashes, depths)"
| "level_loop sha256 i type m data refs (level_i # levels) hashes depths =
     (let depth = level_depth type refs level_i
      in if i_refs_count i \<noteq> 0 \<and> depth \<ge> max_depth then Inl ''Depth is too big''
         else level_loop sha256 i type m data refs levels
                (hashes @ [sha256 (level_message i type m data refs hashes level_i)])
                (depths @ [if i_refs_count i \<noteq> 0 then depth + 1 else depth]))"

definition significant_levels :: "level_mask \<Rightarrow> nat list" where
  "significant_levels m = filter (is_significant m) [0..<mask_level m + 1]"

definition create ::
  "(byte list \<Rightarrow> byte list) \<Rightarrow> byte list \<Rightarrow> nat \<Rightarrow> nat \<Rightarrow> cell option list \<Rightarrow> bool \<Rightarrow> cell result" where
  "create sha256 data offs bits oprefs special =
     (if None \<in> set oprefs then Inl ''Has null cell reference''
      else if special \<and> bits < 8 then Inl ''Not enough data for a special cell''
      else
        let refs = map the oprefs;
            type = (if special then special_type_of (unat (bits_load_ulong data offs 8)) else Ordinary)
        in if special \<and> type = Ordinary then Inl ''Special cell has Ordinary type''
           else case check_special type data offs bits refs of
             Inl e \<Rightarrow> Inl e
           | Inr (m, virtualization) \<Rightarrow>
               if bits > max_bits then Inl ''Too many bits''
               else if length refs > max_refs then Inl ''Too many cell references''
               else if virtualization > max_virtualization then Inl ''Too big virtualization''
               else
                 let hash_count = (if type = PrunnedBranch then 1 else mask_hashes_count m);
                     i = \<lparr>i_bits = bits, i_refs_count = length refs mod 8, i_is_special = special,
                          i_level_mask = m AND 7, i_hash_count = hash_count mod 8,
                          i_virtualization = virtualization mod 8\<rparr>;
                     storage = copy_data data offs bits;
                     hash_i_offset = mask_hashes_count m - hash_count
                 in case level_loop sha256 i type m storage refs (drop hash_i_offset (significant_levels m)) [] [] of
                      Inl e \<Rightarrow> Inl e
                    | Inr (hashes, depths) \<Rightarrow> Inr (Data_Cell i storage refs hashes depths))"

section \<open>Virtualization\<close>

text \<open>\<open>VirtualizationParameters\<close>; \<open>max_level()\<close> is 255.\<close>

record virt =
  vp_level :: nat
  vp_virtualization :: nat

definition virt_none :: virt where
  "virt_none = \<lparr>vp_level = 255, vp_virtualization = 0\<rparr>"

definition virt_apply :: "virt \<Rightarrow> virt \<Rightarrow> virt" where
  "virt_apply v outer = (if vp_level outer \<ge> vp_level v then v else outer)"

definition virtual_create :: "virt \<Rightarrow> cell \<Rightarrow> cell" where
  "virtual_create v c =
     (if get_level c \<le> vp_level v then c else Virtual_Cell (vp_level v) (vp_virtualization v) c)"

fun virtualize :: "cell \<Rightarrow> virt \<Rightarrow> cell" where
  "virtualize (Virtual_Cell vl vv c) v =
     (let virt = \<lparr>vp_level = vl, vp_virtualization = vv\<rparr>; new_virt = virt_apply virt v
      in if new_virt = virt then Virtual_Cell vl vv c else virtual_create new_virt c)"
| "virtualize c v = virtual_create v c"

primrec load_cell :: "cell \<Rightarrow> cell \<times> virt" where
  "load_cell (Data_Cell i data refs hashes depths) = (Data_Cell i data refs hashes depths, virt_none)"
| "load_cell (Virtual_Cell vl vv c) =
     (let (d, v) = load_cell c in (d, virt_apply v \<lparr>vp_level = vl, vp_virtualization = vv\<rparr>))"

section \<open>Comparing and serializing\<close>

definition check_equals_unloaded :: "cell \<Rightarrow> cell \<Rightarrow> unit result" where
  "check_equals_unloaded c other =
     (let m = get_level_mask c; levels = significant_levels m
      in if m \<noteq> get_level_mask other then Inl ''level mismatch''
         else if \<exists>i \<in> set levels. get_hash c i \<noteq> get_hash other i then Inl ''hash mismatch''
         else if \<exists>i \<in> set levels. get_depth c i \<noteq> get_depth other i then Inl ''depth mismatch''
         else Inr ())"

definition serialized_size :: "info \<Rightarrow> bool \<Rightarrow> nat" where
  "serialized_size i with_hashes =
     (i_bits i + 23) div 8
     + (if with_hashes then mask_hashes_count (i_level_mask i) * (hash_bytes + depth_bytes) else 0)"

text \<open>The bytes written to the buffer, none when it is too small.\<close>

fun serialize :: "cell \<Rightarrow> nat \<Rightarrow> bool \<Rightarrow> byte list" where
  "serialize (Data_Cell i data refs hashes depths) buff_size with_hashes =
     (let c = Data_Cell i data refs hashes depths; len = serialized_size i with_hashes;
          levels = significant_levels (i_level_mask i)
      in if len > buff_size then []
         else [info_d1 i (i_level_mask i) OR of_bool with_hashes * 16, info_d2 i]
           @ (if with_hashes
              then concat (map (get_hash c) levels) @ concat (map (\<lambda>l. depth_buf (get_depth c l)) levels)
              else [])
           @ data)"
| "serialize (Virtual_Cell vl vv c) buff_size with_hashes = []"

section \<open>Well-formed cells\<close>

definition tag_bits :: "nat \<Rightarrow> bool list" where
  "tag_bits bits = (if bits mod 8 = 0 then [] else True # replicate (7 - bits mod 8) False)"

definition wf_data :: "info \<Rightarrow> byte list \<Rightarrow> cell list \<Rightarrow> byte list list \<Rightarrow> nat list \<Rightarrow> bool" where
  "wf_data i data refs hashes depths \<longleftrightarrow>
     i_bits i \<le> max_bits \<and> length data = (i_bits i + 7) div 8
     \<and> drop (i_bits i) (bits_of data) = tag_bits (i_bits i)
     \<and> length refs = i_refs_count i \<and> i_refs_count i \<le> max_refs
     \<and> cell_mask (i_level_mask i) \<and> i_virtualization i \<le> max_virtualization
     \<and> i_hash_count i = (if data_special_type i data = PrunnedBranch then 1
                          else mask_hashes_count (i_level_mask i))
     \<and> length hashes = i_hash_count i \<and> length depths = i_hash_count i
     \<and> (\<forall>h \<in> set hashes. length h = hash_bytes) \<and> (\<forall>d \<in> set depths. d \<le> max_depth)
     \<and> (i_is_special i \<longrightarrow> 8 \<le> i_bits i)
     \<and> (data_special_type i data = PrunnedBranch \<longrightarrow>
          i_bits i = (2 + mask_hash_i (i_level_mask i) * (hash_bytes + depth_bytes)) * 8)"

fun wf_cell :: "cell \<Rightarrow> bool" where
  "wf_cell (Data_Cell i data refs hashes depths) \<longleftrightarrow>
     wf_data i data refs hashes depths \<and> (\<forall>r \<in> set refs. wf_cell r)"
| "wf_cell (Virtual_Cell vl vv c) \<longleftrightarrow> wf_cell c \<and> vl < get_level c"

lemma ceil_bytes: "(bits + 7) div 8 = (if bits mod 8 = 0 then bits div 8 else Suc (bits div 8))" for bits :: nat
  by (cases "bits mod 8 = 0") presburger+

lemma length_tag_bits: "bits + length (tag_bits bits) = 8 * ((bits + 7) div 8)"
proof -
  define q where "q = bits div 8"
  define r where "r = bits mod 8"
  have "bits = 8 * q + r" "r < 8" by (simp_all add: q_def r_def)
  then show ?thesis unfolding ceil_bytes tag_bits_def q_def [symmetric] r_def [symmetric] by auto
qed

lemma bit_0x80: "bit (0x80 :: byte) j \<longleftrightarrow> j = 7"
proof -
  have "(0x80 :: byte) = 2 ^ 7" by simp
  then show ?thesis by (simp only: bit_exp_iff) auto
qed

text \<open>Every bit of the copy is determined, whatever was in the storage.\<close>

lemma bits_of_copy_data_junk:
  assumes "length junk = (bits + 7) div 8" and "offs + bits \<le> 8 * length data"
  shows "bits_of (copy_data_junk junk data offs bits) = take bits (drop offs (bits_of data)) @ tag_bits bits"
proof -
  define q where "q = bits div 8"
  define r where "r = bits mod 8"
  have qr: "bits = 8 * q + r" "r < 8" by (simp_all add: q_def r_def)
  define dp where "dp = bits_memcpy junk 0 data offs bits"
  define src where "src = take bits (drop offs (bits_of data))"
  have room: "0 + bits \<le> 8 * length junk" using assms(1) by auto
  have bdp: "bits_of dp = overwrite (bits_of junk) 0 src"
    unfolding dp_def src_def using room assms(2) by (simp add: bits_memcpy_correct)
  have ldp: "length dp = length junk" unfolding dp_def using room assms(2) by simp
  have lsrc: "length src = bits" using assms(2) by (simp add: src_def)
  show ?thesis
  proof (cases "r = 0")
    case True
    then have "length junk = q" "bits = 8 * q" using assms(1) qr by auto
    then show ?thesis using True bdp lsrc
      unfolding copy_data_junk_def Let_def r_def [symmetric] dp_def [symmetric]
      by (simp add: overwrite_def tag_bits_def src_def)
  next
    case False
    have lj: "length junk = Suc q" using assms(1) qr False by (auto simp: div_nat_eqI)
    have c: "copy_data_junk junk data offs bits
        = dp[q := (dp ! q AND - drop_bit r 0x80) OR drop_bit r 0x80]"
      unfolding copy_data_junk_def Let_def r_def [symmetric] q_def [symmetric] dp_def [symmetric] using False by simp
    have old: "bit (dp ! j) (7 - k) = (if 8 * j + k < bits then src ! (8 * j + k)
        else bit (junk ! j) (7 - k))" if "j < Suc q" "k < 8" for j k
    proof -
      have "bits_of dp ! (8 * j + k) = bit (dp ! j) (7 - k)" using that ldp lj by (simp add: bit_views)
      moreover have "bits_of junk ! (8 * j + k) = bit (junk ! j) (7 - k)" using that lj by (simp add: bit_views)
      moreover have "8 * j + k < length (bits_of junk)" using that lj by simp
      ultimately show ?thesis using lsrc room unfolding bdp
        by (subst (asm) nth_overwrite) (simp_all split: if_splits)
    qed
    have m80: "bit (drop_bit r 0x80 :: byte) (7 - k) \<longleftrightarrow> k = r" if "k < 8" for k
    proof -
      have "bit (drop_bit r 0x80 :: byte) (7 - k) \<longleftrightarrow> r + (7 - k) = 7"
        by (simp only: bit_drop_bit_eq comp_def bit_0x80)
      then show ?thesis using that qr(2) by auto
    qed
    have "(- drop_bit r 0x80 :: byte) = push_bit (7 - r) (- 1)"
    proof -
      have "r \<in> {1, 2, 3, 4, 5, 6, 7}" using False qr(2) by auto
      then show ?thesis by (auto simp: push_bit_eq_mult simp del: push_bit_minus_one_eq_not_mask)
    qed
    then have neg: "bit (- drop_bit r 0x80 :: byte) (7 - k) \<longleftrightarrow> k \<le> r" if "k < 8" for k
      using that qr(2) by (auto simp: bit_not_iff bit_mask_iff)
    have tag: "tag_bits bits ! k = (k = 0)" if "k < 8 - r" for k
      using that False r_def by (auto simp: tag_bits_def nth_Cons')
    show ?thesis unfolding c src_def [symmetric]
    proof (rule bits_of_eqI)
      fix j k assume "j < length (dp[q := (dp ! q AND - drop_bit r 0x80) OR drop_bit r 0x80])" and k: "k < (8 :: nat)"
      then have j: "j < Suc q" using ldp lj by simp
      show "bit (dp[q := (dp ! q AND - drop_bit r 0x80) OR drop_bit r 0x80] ! j) (7 - k)
          = (src @ tag_bits bits) ! (8 * j + k)"
      proof (cases "j = q")
        case True
        then show ?thesis using ldp lj k old [OF j k] m80 [OF k] neg [OF k] lsrc qr tag [of "k - r"]
          by (cases "k < r") (auto simp: bit_or_iff bit_and_iff nth_append)
      next
        case False
        then have "8 * j + k < bits" using j k qr by linarith
        then show ?thesis using False old [OF j k] lsrc by (simp add: nth_append)
      qed
    qed (use ldp assms lsrc length_tag_bits [of bits] in simp_all)
  qed
qed

lemma bits_of_copy_data:
  "offs + bits \<le> 8 * length data \<Longrightarrow>
     bits_of (copy_data data offs bits) = take bits (drop offs (bits_of data)) @ tag_bits bits"
  by (simp add: copy_data_def bits_of_copy_data_junk)

lemma length_copy_data:
  assumes "offs + bits \<le> 8 * length data"
  shows "length (copy_data data offs bits) = (bits + 7) div 8"
proof -
  have "8 * length (copy_data data offs bits) = bits + length (tag_bits bits)"
    using arg_cong [OF bits_of_copy_data [OF assms], of length] assms by simp
  then show ?thesis by (simp add: length_tag_bits)
qed

section \<open>The invariant of created cells\<close>

lemma significant_levels_eq: "significant_levels m = 0 # map Suc (filter (bit m) [0..<mask_level m])"
proof -
  have "[0..<mask_level m + 1] = 0 # map Suc [0..<mask_level m]"
    by (simp add: map_Suc_upt upt_conv_Cons del: upt_Suc)
  then show ?thesis by (simp add: significant_levels_def is_significant_iff filter_map comp_def)
qed

lemma filter_bit_upt:
  assumes "mask_level m \<le> n"
  shows "filter (bit m) [0..<mask_level m] = filter (bit m) [0..<n]"
proof -
  obtain k where "n = mask_level m + k" using assms le_Suc_ex by blast
  then have "[0..<n] = [0..<mask_level m] @ [mask_level m..<n]" using upt_add_eq_append [of 0 "mask_level m" k] by simp
  moreover have "filter (bit m) [mask_level m..<n] = []" by (simp add: filter_empty_conv bit_mask_level)
  ultimately show ?thesis by simp
qed

lemma length_significant_levels: "cell_mask m \<Longrightarrow> length (significant_levels m) = mask_hashes_count m"
  by (simp add: significant_levels_eq mask_hashes_count_def cell_mask_hash_i filter_bit_upt cell_mask_def)

lemma mask_hashes_count_le: "cell_mask m \<Longrightarrow> mask_hashes_count m \<le> 4"
  using length_filter_le [of "bit m" "[0..<3]"] by (simp add: mask_hashes_count_def cell_mask_hash_i)

lemma level_loop_lengths:
  assumes "level_loop sha256 i type m data refs levels hs ds = Inr (hashes, depths)"
  shows "length hashes = length hs + length levels" and "length depths = length ds + length levels"
  using assms
  by (induction sha256 i type m data refs levels hs ds rule: level_loop.induct)
    (auto simp: Let_def split: if_splits)

lemma level_loop_sizes:
  assumes "level_loop sha256 i type m data refs levels hs ds = Inr (hashes, depths)"
    and "\<And>x. length (sha256 x) = hash_bytes"
    and "\<forall>h \<in> set hs. length h = hash_bytes" and "\<forall>d \<in> set ds. d \<le> max_depth"
    and "i_refs_count i = length refs"
  shows "(\<forall>h \<in> set hashes. length h = hash_bytes) \<and> (\<forall>d \<in> set depths. d \<le> max_depth)"
  using assms
proof (induction sha256 i type m data refs levels hs ds rule: level_loop.induct)
  case (2 sha256 i type m data refs level_i levels hs ds)
  define depth where "depth = level_depth type refs level_i"
  have ok: "\<not> (i_refs_count i \<noteq> 0 \<and> depth \<ge> max_depth)"
    using "2.prems"(1) by (auto simp: depth_def)
  have "i_refs_count i = 0 \<Longrightarrow> depth = 0"
    using "2.prems"(5) by (simp add: depth_def level_depth_def)
  then have d: "(if i_refs_count i \<noteq> 0 then depth + 1 else depth) \<le> max_depth"
    using ok by auto
  have rec: "level_loop sha256 i type m data refs levels
      (hs @ [sha256 (level_message i type m data refs hs level_i)])
      (ds @ [if i_refs_count i \<noteq> 0 then depth + 1 else depth]) = Inr (hashes, depths)"
    using "2.prems"(1) ok by (cases "i_refs_count i = 0") (simp_all add: depth_def Let_def)
  show ?case
    by (rule "2.IH" [OF refl _ rec [unfolded depth_def]])
      (use ok d "2.prems" in \<open>auto simp: depth_def simp del: not_le\<close>)
qed simp

lemma foldl_mask:
  assumes "\<forall>r \<in> set refs. cell_mask (get_level_mask r)" and "cell_mask m"
  shows "cell_mask (foldl (\<lambda>m r. mask_apply_or m (get_level_mask r)) m refs)"
  using assms by (induction refs arbitrary: m) (auto simp: cell_mask_apply_or)

lemma wf_cell_mask: "wf_cell c \<Longrightarrow> cell_mask (get_level_mask c)"
proof (induction c)
  case (Virtual_Cell vl vv c)
  then have "vl < 32" by (auto simp: get_level_def cell_mask_def)
  with Virtual_Cell show ?case by (auto intro: cell_mask_apply)
qed (auto simp: wf_data_def)

lemma check_special_mask:
  assumes "check_special type data offs bits refs = Inr (m, v)" and "\<forall>r \<in> set refs. wf_cell r"
  shows "cell_mask m"
proof -
  have r: "\<forall>r \<in> set refs. cell_mask (get_level_mask r)" using assms(2) wf_cell_mask by blast
  show ?thesis
  proof (cases type)
    case Ordinary
    with assms(1) foldl_mask [OF r cell_mask_0] show ?thesis by (simp add: check_special_def)
  next
    case PrunnedBranch
    with assms(1) show ?thesis
      by (simp add: check_special_def Let_def cell_mask_def not_less split: if_splits)
  next
    case Library
    with assms(1) show ?thesis by (simp add: check_special_def split: if_splits)
  next
    case MerkleProof
    with assms(1) have "length refs = 1" "m = mask_shift_right (get_level_mask (refs ! 0))"
      by (simp_all add: check_special_def split: if_splits)
    with r show ?thesis by (simp add: cell_mask_shift_right)
  next
    case MerkleUpdate
    with assms(1) have "length refs = 2"
      "m = mask_shift_right (mask_apply_or (get_level_mask (refs ! 0)) (get_level_mask (refs ! 1)))"
      by (simp_all add: check_special_def split: if_splits)
    with r show ?thesis by (simp add: cell_mask_shift_right cell_mask_apply_or)
  next
    case Unknown
    with assms(1) show ?thesis by (simp add: check_special_def)
  qed
qed

lemma take_drop_copy:
  assumes "offs + bits \<le> 8 * length data" and "k + n \<le> bits"
  shows "take n (drop k (bits_of (copy_data data offs bits))) = take n (drop (offs + k) (bits_of data))"
proof -
  define X where "X = drop offs (bits_of data)"
  have "bits \<le> length X" using assms(1) by (simp add: X_def)
  then have "n \<le> bits - k" "k \<le> bits" "min (length X - k) (bits - k) = bits - k" "min (length X) bits = bits"
    using assms(2) by linarith+
  then have "take n (drop k (take bits X @ tag_bits bits)) = take n (drop k X)"
    by (simp add: drop_take)
  then show ?thesis by (simp add: bits_of_copy_data [OF assms(1)] X_def add.commute)
qed

lemma load_copy_data:
  assumes "offs + bits \<le> 8 * length data" and "k + n \<le> bits" and "n \<le> 64"
  shows "bits_load_ulong (copy_data data offs bits) k n = bits_load_ulong data (offs + k) n"
proof -
  have "k + n \<le> 8 * length (copy_data data offs bits)"
    using assms(2) length_tag_bits [of bits] unfolding length_copy_data [OF assms(1)] by linarith
  moreover have "offs + k + n \<le> 8 * length data" using assms by linarith
  ultimately show ?thesis
    using assms(3) take_drop_copy [OF assms(1,2)] by (simp only: bits_load_ulong_correct)
qed

text \<open>The cell that \<open>create\<close> returns, with all the conditions it has passed.\<close>

definition created_info :: "nat \<Rightarrow> cell list \<Rightarrow> bool \<Rightarrow> special_type \<Rightarrow> level_mask \<Rightarrow> nat \<Rightarrow> info" where
  "created_info bits refs special type m v =
     \<lparr>i_bits = bits, i_refs_count = length refs mod 8, i_is_special = special, i_level_mask = m AND 7,
      i_hash_count = (if type = PrunnedBranch then 1 else mask_hashes_count m) mod 8,
      i_virtualization = v mod 8\<rparr>"

definition created_type :: "byte list \<Rightarrow> nat \<Rightarrow> bool \<Rightarrow> special_type" where
  "created_type data offs special =
     (if special then special_type_of (unat (bits_load_ulong data offs 8)) else Ordinary)"

definition created_levels :: "special_type \<Rightarrow> level_mask \<Rightarrow> nat list" where
  "created_levels type m =
     drop (mask_hashes_count m - (if type = PrunnedBranch then 1 else mask_hashes_count m)) (significant_levels m)"

lemma create_Some: "create sha256 data offs bits oprefs special = Inr c \<Longrightarrow> \<exists>refs. oprefs = map Some refs"
proof -
  assume c: "create sha256 data offs bits oprefs special = Inr c"
  have none: "None \<notin> set oprefs"
  proof
    assume "None \<in> set oprefs"
    then have "create sha256 data offs bits oprefs special = Inl ''Has null cell reference''"
      unfolding create_def by (simp only: if_True)
    with c show False by simp
  qed
  have "oprefs = map Some (map the oprefs)"
  proof (rule nth_equalityI)
    fix k assume "k < length oprefs"
    then show "oprefs ! k = map Some (map the oprefs) ! k"
      using none nth_mem [of k oprefs] by (cases "oprefs ! k") auto
  qed simp
  then show ?thesis by blast
qed

lemma create_unfold:
  fixes data offs special
  defines "type \<equiv> created_type data offs special"
  shows "create sha256 data offs bits (map Some refs) special =
     (if special \<and> bits < 8 then Inl ''Not enough data for a special cell''
      else if special \<and> type = Ordinary then Inl ''Special cell has Ordinary type''
      else case check_special type data offs bits refs of
        Inl e \<Rightarrow> Inl e
      | Inr (m, v) \<Rightarrow>
          if bits > max_bits then Inl ''Too many bits''
          else if length refs > max_refs then Inl ''Too many cell references''
          else if v > max_virtualization then Inl ''Too big virtualization''
          else case level_loop sha256 (created_info bits refs special type m v) type m (copy_data data offs bits) refs
              (created_levels type m) [] [] of
            Inl e \<Rightarrow> Inl e
          | Inr (hashes, depths) \<Rightarrow>
              Inr (Data_Cell (created_info bits refs special type m v) (copy_data data offs bits) refs hashes depths))"
proof -
  have none: "(None \<in> set (map Some refs)) = False" by auto
  have map: "map the (map Some refs) = refs" by (simp add: comp_def)
  show ?thesis
    unfolding create_def Let_def none if_False map created_info_def created_levels_def type_def created_type_def
    by (rule refl)
qed

lemma create_InrE:
  assumes c: "create sha256 data offs bits (map Some refs) special = Inr c"
  defines "type \<equiv> created_type data offs special"
  obtains m v hashes depths where
    "special \<longrightarrow> 8 \<le> bits" and "special \<longrightarrow> type \<noteq> Ordinary"
    and "check_special type data offs bits refs = Inr (m, v)"
    and "bits \<le> max_bits" and "length refs \<le> max_refs" and "v \<le> max_virtualization"
    and "level_loop sha256 (created_info bits refs special type m v) type m (copy_data data offs bits) refs
        (created_levels type m) [] [] = Inr (hashes, depths)"
    and "c = Data_Cell (created_info bits refs special type m v) (copy_data data offs bits) refs hashes depths"
proof -
  note eq = c [unfolded create_unfold, folded type_def]
  have s8: "\<not> (special \<and> bits < 8)"
  proof
    assume "special \<and> bits < 8"
    with eq show False by (simp only: if_True sum.distinct simp_thms)
  qed
  have so: "\<not> (special \<and> type = Ordinary)"
  proof
    assume "special \<and> type = Ordinary"
    with eq s8 show False by (simp only: if_True if_False sum.distinct simp_thms)
  qed
  note eq1 = eq [unfolded if_not_P [OF s8] if_not_P [OF so]]
  obtain m v where cs: "check_special type data offs bits refs = Inr (m, v)"
    using eq1 by (cases "check_special type data offs bits refs") auto
  note eq2 = eq1 [unfolded cs sum.case prod.case]
  from eq2 have lims: "bits \<le> max_bits" "length refs \<le> max_refs" "v \<le> max_virtualization"
    by (auto split: if_splits)
  then have nl: "\<not> bits > max_bits" "\<not> length refs > max_refs" "\<not> v > max_virtualization" by auto
  note eq3 = eq2 [unfolded if_not_P [OF nl(1)] if_not_P [OF nl(2)] if_not_P [OF nl(3)]]
  obtain hashes depths where
    ll: "level_loop sha256 (created_info bits refs special type m v) type m (copy_data data offs bits) refs
      (created_levels type m) [] [] = Inr (hashes, depths)"
    using eq3 by (auto split: sum.splits)
  note eq4 = eq3 [unfolded ll sum.case prod.case]
  show thesis by (rule that [OF _ _ cs lims ll]) (use s8 so eq4 in auto)
qed

lemma load_8_and_ff:
  "offs + 8 \<le> 8 * length data \<Longrightarrow>
     (bits_load_ulong data offs 8 AND 0xff) = bits_load_ulong data offs 8"
proof -
  assume a: "offs + 8 \<le> 8 * length data"
  have "(0xff :: u64) = mask 8" by (simp add: mask_eq_exp_minus_1)
  moreover have "take_bit 8 (bits_load_ulong data offs 8) = bits_load_ulong data offs 8"
    using a by (intro bit_word_eqI) (auto simp: bits_load_ulong_correct bit_take_bit_iff bit_word_of_bits)
  ultimately show ?thesis by (simp only: take_bit_eq_mask)
qed

text \<open>What \<open>create\<close> returns is well-formed, and holds the data and the references it was given.\<close>

theorem create_wf:
  assumes c: "create sha256 data offs bits (map Some refs) special = Inr c"
    and sha: "\<And>x. length (sha256 x) = hash_bytes"
    and refs: "\<forall>r \<in> set refs. wf_cell r"
    and data: "offs + bits \<le> 8 * length data"
  shows "wf_cell c" and "c_refs c = refs"
    and "bits_of (c_data c) = take bits (drop offs (bits_of data)) @ tag_bits bits"
    and "i_bits (c_info c) = bits" and "i_is_special (c_info c) = special"
proof -
  define type where "type = created_type data offs special"
  obtain m v hashes depths where
    s8: "special \<longrightarrow> 8 \<le> bits" and so: "special \<longrightarrow> type \<noteq> Ordinary"
    and cs: "check_special type data offs bits refs = Inr (m, v)"
    and lims: "bits \<le> max_bits" "length refs \<le> max_refs" "v \<le> max_virtualization"
    and ll: "level_loop sha256 (created_info bits refs special type m v) type m (copy_data data offs bits) refs
        (created_levels type m) [] [] = Inr (hashes, depths)"
    and ceq: "c = Data_Cell (created_info bits refs special type m v) (copy_data data offs bits) refs hashes depths"
    by (rule create_InrE [OF c, folded type_def]) (rule that)
  have m: "cell_mask m" by (rule check_special_mask [OF cs refs])
  define i where "i = created_info bits refs special type m v"
  have i: "i_bits i = bits" "i_refs_count i = length refs" "i_is_special i = special"
    "i_level_mask i = m" "i_virtualization i = v"
    "i_hash_count i = (if type = PrunnedBranch then 1 else mask_hashes_count m)"
    using lims cell_mask_and_7 [OF m] mask_hashes_count_le [OF m] by (auto simp: i_def created_info_def)
  have ty: "data_special_type i (copy_data data offs bits) = type"
    using s8 data load_copy_data [OF data, of 0 8]
    by (auto simp: data_special_type_def i type_def created_type_def)
  have lens: "length (created_levels type m) = i_hash_count i"
    using length_significant_levels [OF m] by (simp add: created_levels_def i) (simp add: mask_hashes_count_def)
  have sizes: "(\<forall>h \<in> set hashes. length h = hash_bytes) \<and> (\<forall>d \<in> set depths. d \<le> max_depth)"
    using level_loop_sizes [OF ll [folded i_def] sha] i by simp
  have pr: "bits = (2 + mask_hash_i m * (hash_bytes + depth_bytes)) * 8" if p: "type = PrunnedBranch"
  proof -
    have "bits = (2 + mask_hashes_count (mask_apply m (mask_level m - 1)) * (hash_bytes + depth_bytes)) * 8"
      and "mask_level m \<noteq> 0"
      using cs by (auto simp: check_special_def p Let_def split: if_splits)
    then show ?thesis using mask_hash_i_below [OF m] by (simp add: mask_level_eq_0)
  qed
  have "drop bits (bits_of (copy_data data offs bits)) = tag_bits bits"
    using data by (simp add: bits_of_copy_data)
  then have "wf_data i (copy_data data offs bits) refs hashes depths"
    using lims m data lens sizes level_loop_lengths [OF ll] s8 pr ty
    by (simp add: wf_data_def i length_copy_data)
  then show "wf_cell c" using refs by (simp add: ceq i_def)
  show "c_refs c = refs" "bits_of (c_data c) = take bits (drop offs (bits_of data)) @ tag_bits bits"
    "i_bits (c_info c) = bits" "i_is_special (c_info c) = special"
    using data i by (simp_all add: ceq bits_of_copy_data flip: i_def)
qed

end
