(* ===== verification/Cell_Hash.thy ===== *)
theory Cell_Hash
  imports Cells
begin

text \<open>
  Properties of the cells of \<open>Cells\<close>: sizes of hashes and depths at every level, the representation
  of ordinary cells, that a hash determines a tree of ordinary cells up to a collision of SHA-256,
  and the layout of serialized cells.
\<close>

section \<open>Hashes and depths of well-formed cells\<close>

lemma mask_level_apply_less: "l < 32 \<Longrightarrow> mask_level (mask_apply m l) < 32"
  using mask_level_apply [of l m] by simp

lemma length_get_hash:
  assumes "wf_cell c" and "l < 32"
  shows "length (get_hash c l) = hash_bytes"
  using assms
proof (induction c arbitrary: l)
  case (Data_Cell i data refs hashes depths)
  define k where "k = mask_hash_i (mask_apply (i_level_mask i) l)"
  have wf: "wf_data i data refs hashes depths" using Data_Cell.prems by simp
  then have k: "k \<le> mask_hash_i (i_level_mask i)"
    unfolding k_def using Data_Cell.prems(2) by (intro mask_hash_i_apply_le) (simp add: wf_data_def)
  show ?case
  proof (cases "data_special_type i data = PrunnedBranch")
    case True
    with wf have "hashes \<noteq> []" "\<forall>h \<in> set hashes. length h = 32"
      "length data = 2 + mask_hash_i (i_level_mask i) * 34"
      by (auto simp: wf_data_def)
    moreover have "hashes ! 0 \<in> set hashes" using \<open>hashes \<noteq> []\<close> by simp
    moreover have "min (mask_hash_i (i_level_mask i) * 34 - 32 * k) 32 = 32" if "k \<noteq> mask_hash_i (i_level_mask i)"
      using that k by linarith
    ultimately show ?thesis using True by (simp add: data_get_hash_def Let_def flip: k_def)
  next
    case False
    with wf k have "k < length hashes" "\<forall>h \<in> set hashes. length h = 32"
      by (auto simp: wf_data_def mask_hashes_count_def)
    with False show ?thesis by (simp add: data_get_hash_def Let_def flip: k_def)
  qed
next
  case (Virtual_Cell vl vv c)
  then show ?case by (simp add: fix_level_def mask_level_apply_less)
qed

lemma load_depth_less: "load_depth src pos < 2 ^ 16"
proof -
  have "(0xffff :: u64) = mask 16" by (simp add: mask_eq_exp_minus_1)
  then have "load_depth src pos = take_bit 16 (unat (bits_load_ulong src (8 * pos) 16))"
    unfolding load_depth_def by (simp only: take_bit_eq_mask [symmetric] unsigned_take_bit_eq)
  then show ?thesis by (metis take_bit_nat_less_exp)
qed

lemma get_depth_less:
  assumes "wf_cell c" and "l < 32"
  shows "get_depth c l < 2 ^ 16"
  using assms
proof (induction c arbitrary: l)
  case (Data_Cell i data refs hashes depths)
  define k where "k = mask_hash_i (mask_apply (i_level_mask i) l)"
  have wf: "wf_data i data refs hashes depths" using Data_Cell.prems by simp
  then have k: "k \<le> mask_hash_i (i_level_mask i)"
    unfolding k_def using Data_Cell.prems(2) by (intro mask_hash_i_apply_le) (simp add: wf_data_def)
  have d: "\<forall>d \<in> set depths. d < 65536" using wf by (auto simp: wf_data_def)
  have len: "length depths = (if data_special_type i data = PrunnedBranch then 1 else Suc (mask_hash_i (i_level_mask i)))"
    using wf by (simp add: wf_data_def mask_hashes_count_def)
  show ?case
  proof (cases "data_special_type i data = PrunnedBranch")
    case True
    then have "depths ! 0 \<in> set depths" using len by (intro nth_mem) simp
    then show ?thesis using True d load_depth_less [of data]
      by (simp add: data_get_depth_def Let_def flip: k_def)
  next
    case False
    then have "depths ! k \<in> set depths" using len k by (intro nth_mem) simp
    with False d show ?thesis by (simp add: data_get_depth_def Let_def flip: k_def)
  qed
next
  case (Virtual_Cell vl vv c)
  then show ?case by (simp add: fix_level_def mask_level_apply_less)
qed

lemma depth_buf_bits: "bits_of (depth_buf d) = low_bits 16 (of_nat d :: u64)"
  by (simp add: depth_buf_def store_depth_def bits_store_long_correct overwrite_def)

lemma length_depth_buf [simp]: "length (depth_buf d) = 2"
  using arg_cong [OF depth_buf_bits [of d], of length] by simp

text \<open>Depths survive the two bytes they are written to.\<close>

lemma load_depth_buf: "d < 2 ^ 16 \<Longrightarrow> load_depth (depth_buf d) 0 = d"
proof -
  assume d: "d < 2 ^ 16"
  have "bits_load_ulong (depth_buf d) 0 16 = take_bit 16 (of_nat d)"
    by (simp add: bits_load_ulong_correct depth_buf_bits word_of_low_bits)
  moreover have "(0xffff :: u64) = mask 16" by (simp add: mask_eq_exp_minus_1)
  ultimately have "load_depth (depth_buf d) 0 = unat (take_bit 16 (of_nat d :: u64))"
    unfolding load_depth_def mult_zero_right by (simp only: take_bit_eq_mask [symmetric]) simp
  also have "\<dots> = take_bit 16 (unat (of_nat d :: u64))" by (rule unsigned_take_bit_eq)
  also have "\<dots> = d" using d by (simp add: unat_of_nat take_bit_eq_mod)
  finally show ?thesis .
qed

section \<open>Trees of ordinary cells\<close>

text \<open>Cells built by \<open>create\<close> from ordinary cells only.\<close>

inductive plain :: "(byte list \<Rightarrow> byte list) \<Rightarrow> cell \<Rightarrow> bool" for sha256 where
  "\<lbrakk>\<forall>r \<in> set refs. plain sha256 r; offs + bits \<le> 8 * length data;
    create sha256 data offs bits (map Some refs) False = Inr c\<rbrakk> \<Longrightarrow> plain sha256 c"

definition plain_info :: "nat \<Rightarrow> nat \<Rightarrow> info" where
  "plain_info bits nrefs = \<lparr>i_bits = bits, i_refs_count = nrefs, i_is_special = False, i_level_mask = 0,
     i_hash_count = 1, i_virtualization = 0\<rparr>"

text \<open>The representation of an ordinary cell, whose hash is the hash of the cell.\<close>

definition representation :: "nat \<Rightarrow> byte list \<Rightarrow> cell list \<Rightarrow> byte list" where
  "representation bits data refs =
     [of_nat (length refs), of_nat (bits div 8 * 2 + (if bits mod 8 = 0 then 0 else 1))] @ data
     @ concat (map (\<lambda>r. depth_buf (get_depth r 0)) refs) @ concat (map (\<lambda>r. get_hash r 0) refs)"

definition plain_depth :: "cell list \<Rightarrow> nat" where
  "plain_depth refs = (if refs = [] then 0 else foldl max 0 (map (\<lambda>r. get_depth r 0) refs) + 1)"

lemma foldl_mask_0: "\<forall>r \<in> set refs. get_level_mask r = 0 \<Longrightarrow> foldl (\<lambda>m r. mask_apply_or m (get_level_mask r)) 0 refs = 0"
  by (induction refs) (auto simp: mask_apply_or_def)

lemma foldl_virt_0: "\<forall>r \<in> set refs. get_virtualization r = 0 \<Longrightarrow> foldl (\<lambda>v r. max v (get_virtualization r)) 0 refs = 0"
  by (induction refs) auto

lemma significant_levels_0 [simp]: "significant_levels 0 = [0]"
  by (simp add: significant_levels_eq)

lemma create_plain_unfold:
  assumes "\<forall>r \<in> set refs. get_level_mask r = 0" and "\<forall>r \<in> set refs. get_virtualization r = 0"
  shows "create sha256 data offs bits (map Some refs) False =
     (if bits > max_bits then Inl ''Too many bits''
      else if length refs > max_refs then Inl ''Too many cell references''
      else if refs \<noteq> [] \<and> foldl max 0 (map (\<lambda>r. get_depth r 0) refs) \<ge> max_depth then Inl ''Depth is too big''
      else Inr (Data_Cell (plain_info bits (length refs)) (copy_data data offs bits) refs
                  [sha256 (representation bits (copy_data data offs bits) refs)] [plain_depth refs]))"
proof (cases "bits > max_bits \<or> length refs > max_refs")
  case True
  then show ?thesis
    using assms by (auto simp: create_unfold created_type_def check_special_def foldl_mask_0 foldl_virt_0)
next
  case False
  then have lim: "\<not> bits > max_bits" "\<not> length refs > max_refs" by auto
  define i where "i = created_info bits refs False Ordinary 0 0"
  have i: "i = plain_info bits (length refs)"
    using lim by (simp add: i_def created_info_def plain_info_def mask_hashes_count_def)
  have lv: "created_levels Ordinary 0 = [0]" by (simp add: created_levels_def mask_hashes_count_def)
  have ty: "created_type data offs False = Ordinary" by (simp add: created_type_def)
  have cs: "check_special Ordinary data offs bits refs = Inr (0, 0)"
    using assms by (simp add: check_special_def foldl_mask_0 foldl_virt_0)
  have msg: "level_message i Ordinary 0 (copy_data data offs bits) refs [] 0
      = representation bits (copy_data data offs bits) refs"
    by (simp add: level_message_def representation_def i plain_info_def info_d1_def info_d2_def ref_level_def)
  have d: "level_depth Ordinary refs 0 = foldl max 0 (map (\<lambda>r. get_depth r 0) refs)"
    by (simp add: level_depth_def ref_level_def)
  have rc: "i_refs_count i = length refs" by (simp add: i plain_info_def)
  show ?thesis
    using lim msg d rc unfolding create_unfold ty cs sum.case prod.case i_def [symmetric] lv
    by (cases "refs = []") (auto simp: Let_def plain_depth_def i)
qed

lemma plain_form:
  assumes "plain sha256 c"
  shows "\<exists>bits data refs. c = Data_Cell (plain_info bits (length refs)) data refs
      [sha256 (representation bits data refs)] [plain_depth refs]
     \<and> (\<forall>r \<in> set refs. plain sha256 r) \<and> bits \<le> max_bits \<and> length refs \<le> max_refs \<and> length data = (bits + 7) div 8
     \<and> drop bits (bits_of data) = tag_bits bits \<and> plain_depth refs \<le> max_depth"
  using assms
proof (induction rule: plain.induct)
  case (1 refs offs bits data c)
  then have m: "\<forall>r \<in> set refs. get_level_mask r = 0" "\<forall>r \<in> set refs. get_virtualization r = 0"
    by (fastforce simp: plain_info_def)+
  note eq = "1.hyps"(2) [unfolded create_plain_unfold [OF m]]
  then have lim: "bits \<le> max_bits" "length refs \<le> max_refs"
    "refs = [] \<or> foldl max 0 (map (\<lambda>r. get_depth r 0) refs) < max_depth"
    and c: "c = Data_Cell (plain_info bits (length refs)) (copy_data data offs bits) refs
      [sha256 (representation bits (copy_data data offs bits) refs)] [plain_depth refs]"
    by (auto split: if_splits)
  have "drop bits (bits_of (copy_data data offs bits)) = tag_bits bits"
    using "1.hyps"(1) by (simp add: bits_of_copy_data)
  then show ?case
    using lim c "1.IH" "1.hyps"(1)
    by (intro exI [of _ bits] exI [of _ "copy_data data offs bits"] exI [of _ refs])
      (auto simp: length_copy_data plain_depth_def)
qed

lemma plain_get_hash:
  "get_hash (Data_Cell (plain_info bits n) data refs [h] [d]) l = h"
  "get_depth (Data_Cell (plain_info bits n) data refs [h] [d]) l = d"
  by (simp_all add: data_get_hash_def data_get_depth_def data_special_type_def plain_info_def)

lemma tag_position:
  assumes "drop a xs = True # replicate p False" and "drop b xs = True # replicate q False"
  shows "a = b"
proof -
  have False if "drop a xs = True # replicate p False" "drop b xs = True # replicate q False" "a < b" for a b p q
  proof -
    have "b < length xs" using that(2) by (metis drop_all list.distinct(1) not_less)
    then have "xs ! b" using that(2) by (metis nth_via_drop)
    moreover have "xs ! b = drop a xs ! (b - a)" using that(3) \<open>b < length xs\<close> by simp
    moreover have "b - a - 1 < p"
      using arg_cong [OF that(1), of length] \<open>b < length xs\<close> that(3) by simp
    ultimately show False using that(1,3) by (simp add: nth_Cons')
  qed
  from this [of a p b q] this [of b q a p] show ?thesis using assms by (metis linorder_neqE_nat)
qed

lemma d2_inject:
  assumes "bits \<le> max_bits" and "bits' \<le> max_bits"
    and "(of_nat (bits div 8 * 2 + (if bits mod 8 = 0 then 0 else 1)) :: byte)
       = of_nat (bits' div 8 * 2 + (if bits' mod 8 = 0 then 0 else 1))"
  shows "bits div 8 = bits' div 8" and "bits mod 8 = 0 \<longleftrightarrow> bits' mod 8 = 0"
proof -
  define q where "q = bits div 8 * 2 + (if bits mod 8 = 0 then 0 else 1 :: nat)"
  define q' where "q' = bits' div 8 * 2 + (if bits' mod 8 = 0 then 0 else 1 :: nat)"
  have "bits div 8 \<le> 127" "bits' div 8 \<le> 127" using assms(1,2) by linarith+
  then have "q < 2 ^ 8" "q' < 2 ^ 8" by (simp_all add: q_def q'_def)
  then have "q = q'"
    using assms(3) unfolding q_def [symmetric] q'_def [symmetric]
    by (simp add: word_of_nat_eq_iff take_bit_nat_eq_self)
  then have "q div 2 = q' div 2" "q mod 2 = q' mod 2" by simp_all
  then show "bits div 8 = bits' div 8" and "bits mod 8 = 0 \<longleftrightarrow> bits' mod 8 = 0"
    by (auto simp: q_def q'_def split: if_splits)
qed

text \<open>Completed data determines where it ends.\<close>

lemma completed_inject:
  assumes "bits div 8 = bits' div 8" and "bits mod 8 = 0 \<longleftrightarrow> bits' mod 8 = 0"
    and "drop bits (bits_of data) = tag_bits bits" and "drop bits' (bits_of data) = tag_bits bits'"
  shows "bits = bits'"
proof (cases "bits mod 8 = 0")
  case True
  then show ?thesis using assms(1,2) by (metis mult_div_mod_eq)
next
  case False
  then show ?thesis using assms tag_position by (auto simp: tag_bits_def)
qed

lemma representation_inject:
  assumes lim: "bits \<le> max_bits" "bits' \<le> max_bits" "length refs \<le> max_refs" "length refs' \<le> max_refs"
    and data: "length data = (bits + 7) div 8" "length data' = (bits' + 7) div 8"
      "drop bits (bits_of data) = tag_bits bits" "drop bits' (bits_of data') = tag_bits bits'"
    and hl: "\<forall>r \<in> set refs. length (get_hash r 0) = hash_bytes" "\<forall>r \<in> set refs'. length (get_hash r 0) = hash_bytes"
    and eq: "representation bits data refs = representation bits' data' refs'"
  shows "bits = bits'" and "data = data'" and "map (\<lambda>r. get_hash r 0) refs = map (\<lambda>r. get_hash r 0) refs'"
proof -
  have "(of_nat (length refs) :: byte) = of_nat (length refs')" using eq by (simp add: representation_def)
  moreover have "length refs < 2 ^ 8" "length refs' < 2 ^ 8" using lim by simp_all
  ultimately have n: "length refs = length refs'" by (simp add: word_of_nat_eq_iff take_bit_nat_eq_self)
  have "(of_nat (bits div 8 * 2 + (if bits mod 8 = 0 then 0 else 1)) :: byte)
       = of_nat (bits' div 8 * 2 + (if bits' mod 8 = 0 then 0 else 1))"
    using eq by (simp add: representation_def)
  note d2 = d2_inject [OF lim(1,2) this]
  then have len: "length data = length data'" using data by (simp add: ceil_bytes)
  have rest: "data @ concat (map (\<lambda>r. depth_buf (get_depth r 0)) refs) @ concat (map (\<lambda>r. get_hash r 0) refs)
      = data' @ concat (map (\<lambda>r. depth_buf (get_depth r 0)) refs') @ concat (map (\<lambda>r. get_hash r 0) refs')"
    using eq by (simp add: representation_def)
  then show d: "data = data'" using len by simp
  have "length (concat (map (\<lambda>r. depth_buf (get_depth r 0)) rs)) = 2 * length rs" for rs
    by (induction rs) auto
  then have "concat (map (\<lambda>r. get_hash r 0) refs) = concat (map (\<lambda>r. get_hash r 0) refs')"
    using rest d n by (metis append_eq_append_conv)
  then show "map (\<lambda>r. get_hash r 0) refs = map (\<lambda>r. get_hash r 0) refs'"
    using n hl by (subst (asm) concat_eq_concat_iff) (auto simp: set_zip)
  show "bits = bits'" using completed_inject [OF d2] data(3,4) d by simp
qed

text \<open>The messages hashed for the cells of a tree, and a collision among those of two trees. The
  function \<open>sha256\<close> cannot be free of collisions altogether, so the theorem exhibits one.\<close>

primrec hashed :: "cell \<Rightarrow> byte list list" where
  "hashed (Data_Cell i data refs hashes depths) = representation (i_bits i) data refs # concat (map hashed refs)"
| "hashed (Virtual_Cell vl vv c) = hashed c"

definition collision_in :: "(byte list \<Rightarrow> byte list) \<Rightarrow> cell \<Rightarrow> cell \<Rightarrow> bool" where
  "collision_in sha256 c c' \<longleftrightarrow> (\<exists>x \<in> set (hashed c). \<exists>y \<in> set (hashed c'). x \<noteq> y \<and> sha256 x = sha256 y)"

lemma plain_length_hash:
  "plain sha256 c \<Longrightarrow> (\<And>x. length (sha256 x) = hash_bytes) \<Longrightarrow> length (get_hash c l) = hash_bytes"
  using plain_form [of sha256 c] by (auto simp: plain_get_hash simp del: get_hash.simps)

lemma collision_in_refs:
  "r \<in> set refs \<Longrightarrow> r' \<in> set refs' \<Longrightarrow> collision_in sha256 r r' \<Longrightarrow>
     collision_in sha256 (Data_Cell i data refs hs ds) (Data_Cell i' data' refs' hs' ds')"
  unfolding collision_in_def by fastforce

lemma hash_determines_plain:
  assumes "plain sha256 c" and "plain sha256 c'" and "\<And>x. length (sha256 x) = hash_bytes"
    and "get_hash c l = get_hash c' l'"
  shows "c = c' \<or> collision_in sha256 c c'"
  using assms(1,2,4)
proof (induction c arbitrary: c' l l' rule: cell.induct)
  case (Data_Cell i data refs hashes depths)
  obtain bits where c: "i = plain_info bits (length refs)" "hashes = [sha256 (representation bits data refs)]"
    "depths = [plain_depth refs]"
    and p: "\<forall>r \<in> set refs. plain sha256 r" "bits \<le> max_bits" "length refs \<le> max_refs"
      "length data = (bits + 7) div 8" "drop bits (bits_of data) = tag_bits bits"
    using plain_form [OF Data_Cell.prems(1)] by auto
  obtain bits' data' refs' where c': "c' = Data_Cell (plain_info bits' (length refs')) data' refs'
      [sha256 (representation bits' data' refs')] [plain_depth refs']"
    and p': "\<forall>r \<in> set refs'. plain sha256 r" "bits' \<le> max_bits" "length refs' \<le> max_refs"
      "length data' = (bits' + 7) div 8" "drop bits' (bits_of data') = tag_bits bits'"
    using plain_form [OF Data_Cell.prems(2)] by auto
  let ?c = "Data_Cell i data refs hashes depths"
  have same: "sha256 (representation bits data refs) = sha256 (representation bits' data' refs')"
    using Data_Cell.prems(3) by (simp add: c c' plain_get_hash del: get_hash.simps)
  show ?case
  proof (rule disjCI)
    assume nc: "\<not> collision_in sha256 ?c c'"
    have "representation bits data refs \<in> set (hashed ?c)" "representation bits' data' refs' \<in> set (hashed c')"
      by (simp_all add: c c' plain_info_def)
    then have rep: "representation bits data refs = representation bits' data' refs'"
      using nc same by (auto simp: collision_in_def)
    have hl: "\<forall>r \<in> set refs. length (get_hash r 0) = hash_bytes" "\<forall>r \<in> set refs'. length (get_hash r 0) = hash_bytes"
      using p(1) p'(1) plain_length_hash assms(3) by blast+
    note inj = representation_inject [OF p(2) p'(2) p(3) p'(3) p(4) p'(4) p(5) p'(5) hl rep]
    have "refs = refs'"
    proof (rule nth_equalityI)
      show len: "length refs = length refs'" using inj(3) by (metis length_map)
      fix k assume k: "k < length refs"
      have "get_hash (refs ! k) 0 = get_hash (refs' ! k) 0"
        using arg_cong [OF inj(3), of "\<lambda>xs. xs ! k"] k len by simp
      with Data_Cell.IH [of "refs ! k" "refs' ! k"] p(1) p'(1) k len
      have "refs ! k = refs' ! k \<or> collision_in sha256 (refs ! k) (refs' ! k)" by simp
      moreover have "\<not> collision_in sha256 (refs ! k) (refs' ! k)"
        using nc k len unfolding c' by (metis collision_in_refs nth_mem)
      ultimately show "refs ! k = refs' ! k" by blast
    qed
    then show "?c = c'" using inj by (simp add: c c')
  qed
next
  case (Virtual_Cell vl vv c)
  then show ?case using plain_form by blast
qed

section \<open>Serialized cells\<close>

lemma length_concat_const: "\<forall>x \<in> set xs. length (f x) = k \<Longrightarrow> length (concat (map f xs)) = k * length xs"
  by (induction xs) auto

lemma length_serialize:
  assumes "wf_cell (Data_Cell i data refs hashes depths)" and "serialized_size i with_hashes \<le> buff_size"
  shows "length (serialize (Data_Cell i data refs hashes depths) buff_size with_hashes) = serialized_size i with_hashes"
proof -
  let ?c = "Data_Cell i data refs hashes depths"
  let ?ls = "significant_levels (i_level_mask i)"
  have wf: "wf_data i data refs hashes depths" using assms(1) by simp
  then have m: "cell_mask (i_level_mask i)" and len: "length data = (i_bits i + 7) div 8" by (simp_all add: wf_data_def)
  have "l < 32" if "l \<in> set ?ls" for l
    using that m by (auto simp: significant_levels_def cell_mask_def simp del: upt_Suc)
  then have "\<forall>l \<in> set ?ls. length (get_hash ?c l) = 32" using length_get_hash [OF assms(1)] by blast
  then have h: "length (concat (map (get_hash ?c) ?ls)) = 32 * mask_hashes_count (i_level_mask i)"
    using length_significant_levels [OF m] by (simp only: length_concat_const)
  have "\<forall>l \<in> set ?ls. length (depth_buf (get_depth ?c l)) = 2" by simp
  then have d: "length (concat (map (\<lambda>l. depth_buf (get_depth ?c l)) ?ls)) = 2 * mask_hashes_count (i_level_mask i)"
    using length_significant_levels [OF m] by (simp only: length_concat_const)
  have sz: "(i_bits i + 23) div 8 = (i_bits i + 7) div 8 + 2" by simp
  show ?thesis
    using assms(2) h d len unfolding serialize.simps Let_def
    by (auto simp: serialized_size_def sz simp del: get_hash.simps get_depth.simps)
qed

lemma serialize_too_small:
  "serialized_size i with_hashes > buff_size \<Longrightarrow>
     serialize (Data_Cell i data refs hashes depths) buff_size with_hashes = []"
  by (simp add: Let_def)

end
