(* ===== verification/Cell_Builder.thy ===== *)
theory Cell_Builder
  imports Cell_Hash
begin

text \<open>
  \<open>CellBuilder\<close> of \<open>crypto/vm/cells/CellBuilder.cpp\<close>: a buffer of 128 bytes with the number of bits
  written and the references. An operation returning \<open>bool\<close> is a function to the result and the
  new builder; one that throws gives \<open>Inl\<close> of the exception. Every operation is related to the list
  of bits written, \<open>builder_bits\<close>.
\<close>

section \<open>The builder\<close>

record builder =
  b_bits :: nat
  b_refs :: "cell list"
  b_data :: "byte list"

datatype builder_error = CellWriteError | CellCreateError

text \<open>A new builder; the contents of the buffer are left uninitialised by the constructor.\<close>

definition new_builder :: "byte list \<Rightarrow> builder" where
  "new_builder junk = \<lparr>b_bits = 0, b_refs = [], b_data = junk\<rparr>"

definition empty_builder :: builder where
  "empty_builder = new_builder (replicate max_bytes 0)"

definition builder_reset :: "builder \<Rightarrow> builder" where
  "builder_reset b = b\<lparr>b_bits := 0, b_refs := []\<rparr>"

definition builder_assign :: "builder \<Rightarrow> builder \<Rightarrow> builder" where
  "builder_assign b other = \<lparr>b_bits = b_bits other, b_refs = b_refs other,
     b_data = overwrite (b_data b) 0 (take ((b_bits other + 7) div 8) (b_data other))\<rparr>"

definition remaining_bits :: "builder \<Rightarrow> nat" where
  "remaining_bits b = max_bits - b_bits b"

definition remaining_refs :: "builder \<Rightarrow> nat" where
  "remaining_refs b = max_refs - length (b_refs b)"

definition can_extend_by :: "builder \<Rightarrow> nat \<Rightarrow> bool" where
  "can_extend_by b new_bits \<longleftrightarrow> new_bits \<le> max_bits - b_bits b"

definition can_extend_by2 :: "builder \<Rightarrow> nat \<Rightarrow> nat \<Rightarrow> bool" where
  "can_extend_by2 b new_bits new_refs \<longleftrightarrow>
     new_bits \<le> max_bits - b_bits b \<and> new_refs \<le> max_refs - length (b_refs b)"

definition can_extend_by_fast :: "builder \<Rightarrow> nat \<Rightarrow> bool" where
  "can_extend_by_fast b bits_req \<longleftrightarrow> int (b_bits b) \<le> int max_bits - int bits_req"

definition prepare_reserve :: "builder \<Rightarrow> nat \<Rightarrow> bool \<times> builder" where
  "prepare_reserve b bit_count =
     (if \<not> can_extend_by b bit_count then (False, b)
      else (True, b\<lparr>b_bits := b_bits b + bit_count\<rparr>))"

definition ensure_pass :: "bool \<times> builder \<Rightarrow> builder_error + builder" where
  "ensure_pass r = (if fst r then Inr (snd r) else Inl CellCreateError)"

section \<open>Storing bits\<close>

definition store_bits_bool :: "builder \<Rightarrow> byte list \<Rightarrow> nat \<Rightarrow> nat \<Rightarrow> bool \<times> builder" where
  "store_bits_bool b str bit_count bit_offset =
     (let pos = b_bits b; (ok, b1) = prepare_reserve b bit_count
      in if \<not> ok then (False, b1)
         else (True, b1\<lparr>b_data := bits_memcpy (b_data b1) pos str bit_offset bit_count\<rparr>))"

definition store_bits :: "builder \<Rightarrow> byte list \<Rightarrow> nat \<Rightarrow> nat \<Rightarrow> builder_error + builder" where
  "store_bits b str bit_count bit_offset =
     (let pos = b_bits b; (ok, b1) = prepare_reserve b bit_count
      in if \<not> ok then Inl CellCreateError
         else Inr (b1\<lparr>b_data := bits_memcpy (b_data b1) pos str bit_offset bit_count\<rparr>))"

definition store_bytes :: "builder \<Rightarrow> byte list \<Rightarrow> nat \<Rightarrow> builder_error + builder" where
  "store_bytes b str len = (if len \<le> max_bytes then store_bits b str (len * 8) 0 else Inl CellCreateError)"

definition store_bytes_bool :: "builder \<Rightarrow> byte list \<Rightarrow> nat \<Rightarrow> bool \<times> builder" where
  "store_bytes_bool b str len = (if len \<le> max_bytes then store_bits_bool b str (len * 8) 0 else (False, b))"

text \<open>Storing too many equal bits is silently skipped by \<open>store_bits_same\<close>.\<close>

definition store_bits_same :: "builder \<Rightarrow> nat \<Rightarrow> bool \<Rightarrow> builder" where
  "store_bits_same b bit_count val =
     (let pos = b_bits b; (ok, b1) = prepare_reserve b bit_count
      in if ok then b1\<lparr>b_data := bits_memset (b_data b1) pos val bit_count\<rparr> else b1)"

definition store_bits_same_bool :: "builder \<Rightarrow> nat \<Rightarrow> bool \<Rightarrow> bool \<times> builder" where
  "store_bits_same_bool b bit_count val =
     (let pos = b_bits b; (ok, b1) = prepare_reserve b bit_count
      in if \<not> ok then (False, b1) else (True, b1\<lparr>b_data := bits_memset (b_data b1) pos val bit_count\<rparr>))"

section \<open>Storing numbers\<close>

definition store_long_top :: "builder \<Rightarrow> u64 \<Rightarrow> nat \<Rightarrow> builder_error + builder" where
  "store_long_top b val top_bits =
     (let pos = b_bits b; (ok, b1) = prepare_reserve b top_bits
      in if \<not> ok then Inl CellCreateError
         else Inr (b1\<lparr>b_data := bits_store_long_top (b_data b1) pos val top_bits\<rparr>))"

definition store_long :: "builder \<Rightarrow> u64 \<Rightarrow> nat \<Rightarrow> builder_error + builder" where
  "store_long b val val_bits =
     store_long_top b (if val_bits = 0 then 0 else push_bit (64 - val_bits) val) val_bits"

text \<open>A call of \<open>store_long\<close> inside an operation that has checked the room: an exception cannot
  occur, and the unchanged builder stands for it.\<close>

definition stored :: "builder \<Rightarrow> builder_error + builder \<Rightarrow> builder" where
  "stored b r = (case r of Inl e \<Rightarrow> b | Inr b' \<Rightarrow> b')"

definition store_long_bool :: "builder \<Rightarrow> u64 \<Rightarrow> nat \<Rightarrow> bool \<times> builder" where
  "store_long_bool b val val_bits =
     (if val_bits > 64 \<or> \<not> can_extend_by b val_bits then (False, b)
      else (True, stored b (store_long b val val_bits)))"

definition store_bool_bool :: "builder \<Rightarrow> bool \<Rightarrow> bool \<times> builder" where
  "store_bool_bool b val =
     (if can_extend_by_fast b 1 then (True, stored b (store_long b (of_bool val) 1)) else (False, b))"

text \<open>\<open>val_bits = 0\<close> shifts by a negative amount in the code, which is undefined.\<close>

definition store_long_rchk_bool :: "builder \<Rightarrow> u64 \<Rightarrow> nat \<Rightarrow> bool \<times> builder" where
  "store_long_rchk_bool b val val_bits =
     (if val_bits > 64 \<or> \<not> can_extend_by b val_bits then (False, b)
      else if val_bits < 64 \<and> (sint val < sint (push_bit (val_bits - 1) (- 1) :: u64)
        \<or> sint val \<ge> sint (push_bit (val_bits - 1) 1 :: u64)) then (False, b)
      else (True, stored b (store_long b val val_bits)))"

definition store_ulong_rchk_bool :: "builder \<Rightarrow> u64 \<Rightarrow> nat \<Rightarrow> bool \<times> builder" where
  "store_ulong_rchk_bool b val val_bits =
     (if val_bits > 64 \<or> \<not> can_extend_by b val_bits then (False, b)
      else if val_bits < 64 \<and> val \<ge> push_bit val_bits 1 then (False, b)
      else (True, stored b (store_long b val val_bits)))"

definition store_uint_less :: "builder \<Rightarrow> u32 \<Rightarrow> u64 \<Rightarrow> bool \<times> builder" where
  "store_uint_less b upper_bound val =
     (if val < ucast upper_bound
      then store_long_bool b val (32 - count_leading_zeroes32 (upper_bound - 1)) else (False, b))"

definition store_uint_leq :: "builder \<Rightarrow> u32 \<Rightarrow> u64 \<Rightarrow> bool \<times> builder" where
  "store_uint_leq b upper_bound val =
     (if val \<le> ucast upper_bound
      then store_long_bool b val (32 - count_leading_zeroes32 upper_bound) else (False, b))"

section \<open>References and other builders\<close>

definition store_ref_bool :: "builder \<Rightarrow> cell option \<Rightarrow> bool \<times> builder" where
  "store_ref_bool b ref =
     (case ref of
        Some c \<Rightarrow> if length (b_refs b) < max_refs then (True, b\<lparr>b_refs := b_refs b @ [c]\<rparr>) else (False, b)
      | None \<Rightarrow> (False, b))"

definition store_ref :: "builder \<Rightarrow> cell option \<Rightarrow> builder_error + builder" where
  "store_ref b ref = ensure_pass (store_ref_bool b ref)"

definition store_maybe_ref :: "builder \<Rightarrow> cell option \<Rightarrow> bool \<times> builder" where
  "store_maybe_ref b ref =
     (case ref of
        None \<Rightarrow> store_long_bool b 0 1
      | Some c \<Rightarrow> let (ok, b1) = store_long_bool b 1 1 in if ok then store_ref_bool b1 (Some c) else (False, b1))"

definition append_bits_refs :: "builder \<Rightarrow> byte list \<Rightarrow> nat \<Rightarrow> nat \<Rightarrow> cell list \<Rightarrow> bool \<times> builder" where
  "append_bits_refs b data offs len refs =
     (if can_extend_by2 b len (length refs) then
        let pos = b_bits b; b1 = snd (prepare_reserve b len)
        in (True, b1\<lparr>b_data := bits_memcpy (b_data b1) pos data offs len, b_refs := b_refs b1 @ refs\<rparr>)
      else (False, b))"

definition append_data_cell_bool :: "builder \<Rightarrow> cell \<Rightarrow> bool \<times> builder" where
  "append_data_cell_bool b c = append_bits_refs b (c_data c) 0 (i_bits (c_info c)) (c_refs c)"

definition append_builder_bool :: "builder \<Rightarrow> builder \<Rightarrow> bool \<times> builder" where
  "append_builder_bool b cb = append_bits_refs b (b_data cb) 0 (b_bits cb) (b_refs cb)"

definition builder_depth :: "builder \<Rightarrow> nat" where
  "builder_depth b = foldl (\<lambda>d r. max d (1 + get_depth r max_level)) 0 (b_refs b) mod 65536"

section \<open>Finalizing\<close>

definition finalize_novm_nothrow :: "(byte list \<Rightarrow> byte list) \<Rightarrow> builder \<Rightarrow> bool \<Rightarrow> cell result \<times> builder" where
  "finalize_novm_nothrow sha256 b special =
     (create sha256 (b_data b) 0 (b_bits b) (map Some (b_refs b)) special, b\<lparr>b_bits := 0, b_refs := []\<rparr>)"

definition finalize_novm :: "(byte list \<Rightarrow> byte list) \<Rightarrow> builder \<Rightarrow> bool \<Rightarrow> (builder_error + cell) \<times> builder" where
  "finalize_novm sha256 b special =
     (let (res, b1) = finalize_novm_nothrow sha256 b special
      in (case res of Inl e \<Rightarrow> Inl CellWriteError | Inr c \<Rightarrow> Inr c, b1))"

text \<open>\<open>finalize\<close> and \<open>finalize_copy\<close> outside the virtual machine (no \<open>VmStateInterface\<close>).\<close>

definition finalize :: "(byte list \<Rightarrow> byte list) \<Rightarrow> builder \<Rightarrow> bool \<Rightarrow> builder_error + cell" where
  "finalize sha256 b special = fst (finalize_novm sha256 b special)"

definition finalize_copy :: "(byte list \<Rightarrow> byte list) \<Rightarrow> builder \<Rightarrow> bool \<Rightarrow> builder_error + cell" where
  "finalize_copy sha256 b special =
     (case create sha256 (b_data b) 0 (b_bits b) (map Some (b_refs b)) special of
        Inl e \<Rightarrow> Inl CellWriteError | Inr c \<Rightarrow> Inr c)"

text \<open>\<open>flush\<close> completes the last byte and gives the two descriptor bytes.\<close>

definition builder_flush :: "builder \<Rightarrow> byte list \<times> builder" where
  "builder_flush b =
     (let l = b_bits b div 8; r = b_bits b mod 8
      in if r \<noteq> 0 then
           let m = drop_bit r 0x80
           in ([of_nat (length (b_refs b)), of_nat (2 * l + 1)],
               b\<lparr>b_data := (b_data b)[l := (b_data b ! l AND - m) OR m]\<rparr>)
         else ([of_nat (length (b_refs b)), of_nat (2 * l)], b))"

definition compute_hash :: "(byte list \<Rightarrow> byte list) \<Rightarrow> builder \<Rightarrow> byte list" where
  "compute_hash sha256 b =
     (let (tmp, b1) = builder_flush b
      in sha256 (tmp @ take ((b_bits b + 7) div 8) (b_data b1)
                 @ concat (map (\<lambda>r. get_hash r max_level) (b_refs b))))"

definition builder_serialize :: "builder \<Rightarrow> nat \<Rightarrow> byte list" where
  "builder_serialize b buff_size =
     (let len = (b_bits b + 23) div 8
      in if len > buff_size then []
         else let (d, b1) = builder_flush b in d @ take (len - 2) (b_data b1))"

section \<open>What the builder holds\<close>

definition builder_ok :: "builder \<Rightarrow> bool" where
  "builder_ok b \<longleftrightarrow> b_bits b \<le> max_bits \<and> length (b_refs b) \<le> max_refs \<and> length (b_data b) = max_bytes"

definition builder_out :: "builder \<Rightarrow> bool list" where
  "builder_out b = take (b_bits b) (bits_of (b_data b))"

text \<open>The contract of the storing operations: all of the given bits and references are appended, or
  there is no room and nothing changes.\<close>

definition appends :: "builder \<Rightarrow> bool list \<Rightarrow> cell list \<Rightarrow> bool \<times> builder \<Rightarrow> bool" where
  "appends b ys cs r \<longleftrightarrow>
     fst r = (length ys \<le> remaining_bits b \<and> length cs \<le> remaining_refs b)
     \<and> (if fst r then builder_ok (snd r) \<and> builder_out (snd r) = builder_out b @ ys \<and> b_refs (snd r) = b_refs b @ cs
        else snd r = b)"

definition appends_or_throws :: "builder \<Rightarrow> bool list \<Rightarrow> cell list \<Rightarrow> builder_error + builder \<Rightarrow> bool" where
  "appends_or_throws b ys cs r \<longleftrightarrow>
     (case r of
        Inl e \<Rightarrow> e = CellCreateError \<and> \<not> (length ys \<le> remaining_bits b \<and> length cs \<le> remaining_refs b)
      | Inr b' \<Rightarrow> appends b ys cs (True, b'))"

lemma length_builder_out [simp]: "builder_ok b \<Longrightarrow> length (builder_out b) = b_bits b"
  by (simp add: builder_out_def builder_ok_def)

lemma builder_ok_new: "length junk = max_bytes \<Longrightarrow> builder_ok (new_builder junk)"
  by (simp add: builder_ok_def new_builder_def)

lemma builder_out_new [simp]: "builder_out (new_builder junk) = []"
  by (simp add: builder_out_def new_builder_def)

lemma appends_write:
  assumes ok: "builder_ok b" and n: "length ys = n" "n \<le> max_bits - b_bits b"
    and d: "bits_of d = overwrite (bits_of (b_data b)) (b_bits b) ys"
    and cs: "length cs \<le> remaining_refs b"
  shows "appends b ys cs (True, b\<lparr>b_bits := b_bits b + n, b_data := d, b_refs := b_refs b @ cs\<rparr>)"
proof -
  have room: "b_bits b + length ys \<le> length (bits_of (b_data b))" using ok n by (auto simp: builder_ok_def)
  then have "8 * length d = 8 * length (b_data b)"
    using arg_cong [OF d, of length] by simp
  moreover have "take (b_bits b + length ys) (bits_of d) = take (b_bits b) (bits_of (b_data b)) @ ys"
    unfolding d using room by (rule take_overwrite_end)
  ultimately show ?thesis
    using ok n cs by (auto simp: appends_def builder_ok_def builder_out_def remaining_bits_def remaining_refs_def)
qed

lemma appends_room: "builder_ok b \<Longrightarrow> appends b ys cs (False, b) \<longleftrightarrow>
    \<not> (length ys \<le> remaining_bits b \<and> length cs \<le> remaining_refs b)"
  by (auto simp: appends_def)

lemma appends_no_refs [simp]: "builder_ok b \<Longrightarrow> 0 \<le> remaining_refs b"
  by simp

lemma store_bits_bool_appends:
  assumes "builder_ok b" and "bit_offset + n \<le> 8 * length str"
  shows "appends b (take n (drop bit_offset (bits_of str))) [] (store_bits_bool b str n bit_offset)"
proof (cases "n \<le> max_bits - b_bits b")
  case True
  have room: "b_bits b + n \<le> 8 * length (b_data b)" using True assms(1) by (auto simp: builder_ok_def)
  have "appends b (take n (drop bit_offset (bits_of str))) []
      (True, b\<lparr>b_bits := b_bits b + n, b_data := bits_memcpy (b_data b) (b_bits b) str bit_offset n,
        b_refs := b_refs b @ []\<rparr>)"
    by (rule appends_write) (use assms True room in \<open>simp_all add: bits_memcpy_correct\<close>)
  then show ?thesis using True
    by (simp add: store_bits_bool_def prepare_reserve_def can_extend_by_def Let_def)
next
  case False
  then show ?thesis using assms
    by (simp add: store_bits_bool_def prepare_reserve_def can_extend_by_def appends_def remaining_bits_def Let_def)
qed

lemma store_bits_eq: "store_bits b str n off = ensure_pass (store_bits_bool b str n off)"
  by (simp add: store_bits_def store_bits_bool_def ensure_pass_def Let_def split: prod.split)

lemma ensure_pass_appends: "appends b ys cs r \<Longrightarrow> appends_or_throws b ys cs (ensure_pass r)"
  by (auto simp: appends_or_throws_def ensure_pass_def appends_def)

lemma store_bits_appends:
  "\<lbrakk>builder_ok b; off + n \<le> 8 * length str\<rbrakk> \<Longrightarrow>
     appends_or_throws b (take n (drop off (bits_of str))) [] (store_bits b str n off)"
  by (simp add: store_bits_eq ensure_pass_appends store_bits_bool_appends)

lemma store_bytes_appends:
  assumes "builder_ok b" and "len \<le> length str"
  shows "appends_or_throws b (bits_of (take len str)) [] (store_bytes b str len)"
proof (cases "len \<le> max_bytes")
  case True
  then show ?thesis using store_bits_appends [of b 0 "len * 8" str] assms
    by (simp add: store_bytes_def mult.commute flip: take_bits_of)
next
  case False
  then show ?thesis using assms by (simp add: store_bytes_def appends_or_throws_def remaining_bits_def)
qed

lemma store_bits_same_bool_appends:
  assumes "builder_ok b"
  shows "appends b (replicate n val) [] (store_bits_same_bool b n val)"
proof (cases "n \<le> max_bits - b_bits b")
  case True
  have room: "b_bits b + n \<le> 8 * length (b_data b)" using True assms(1) by (auto simp: builder_ok_def)
  have "appends b (replicate n val) []
      (True, b\<lparr>b_bits := b_bits b + n, b_data := bits_memset (b_data b) (b_bits b) val n, b_refs := b_refs b @ []\<rparr>)"
    by (rule appends_write) (use assms True room in \<open>simp_all add: bits_memset_correct\<close>)
  then show ?thesis using True
    by (simp add: store_bits_same_bool_def prepare_reserve_def can_extend_by_def Let_def)
next
  case False
  then show ?thesis using assms
    by (simp add: store_bits_same_bool_def prepare_reserve_def can_extend_by_def appends_def remaining_bits_def Let_def)
qed

lemma store_bits_same_eq: "store_bits_same b n val = snd (store_bits_same_bool b n val)"
  by (simp add: store_bits_same_def store_bits_same_bool_def Let_def prepare_reserve_def)

lemma low_bits_top: "n \<le> 64 \<Longrightarrow> top_bits64 n (if n = 0 then 0 else push_bit (64 - n) val) = low_bits n val"
  using top_bits64_push [of n val] by (cases "n = 0") (simp_all add: top_bits64_def low_bits_def)

lemma store_long_top_appends:
  assumes "builder_ok b" and "n \<le> 64"
  shows "appends_or_throws b (top_bits64 n val) [] (store_long_top b val n)"
proof (cases "n \<le> max_bits - b_bits b")
  case True
  have room: "b_bits b + n \<le> 8 * length (b_data b)" using True assms(1) by (auto simp: builder_ok_def)
  have "appends b (top_bits64 n val) []
      (True, b\<lparr>b_bits := b_bits b + n, b_data := bits_store_long_top (b_data b) (b_bits b) val n,
        b_refs := b_refs b @ []\<rparr>)"
    by (rule appends_write) (use assms True room in \<open>simp_all add: bits_store_long_top_correct\<close>)
  then show ?thesis using True
    by (simp add: store_long_top_def prepare_reserve_def can_extend_by_def appends_or_throws_def Let_def)
next
  case False
  then show ?thesis using assms
    by (simp add: store_long_top_def prepare_reserve_def can_extend_by_def appends_or_throws_def remaining_bits_def Let_def)
qed

lemma store_long_appends:
  "builder_ok b \<Longrightarrow> n \<le> 64 \<Longrightarrow> appends_or_throws b (low_bits n val) [] (store_long b val n)"
  using store_long_top_appends [of b n "if n = 0 then 0 else push_bit (64 - n) val"]
  by (simp only: store_long_def low_bits_top)

lemma stored_appends:
  assumes "appends_or_throws b ys cs r" and "length ys \<le> remaining_bits b" and "length cs \<le> remaining_refs b"
  shows "appends b ys cs (True, stored b r)"
  using assms by (auto simp: appends_or_throws_def stored_def split: sum.splits)

lemma store_long_bool_appends:
  assumes "builder_ok b" and "n \<le> 64"
  shows "appends b (low_bits n val) [] (store_long_bool b val n)"
proof (cases "can_extend_by b n")
  case True
  then have "n \<le> remaining_bits b" by (simp add: can_extend_by_def remaining_bits_def)
  with True show ?thesis using stored_appends [OF store_long_appends [OF assms]] assms(2)
    by (simp add: store_long_bool_def)
next
  case False
  then show ?thesis by (simp add: store_long_bool_def appends_def can_extend_by_def remaining_bits_def)
qed

lemma store_long_bool_too_wide: "64 < n \<Longrightarrow> store_long_bool b val n = (False, b)"
  by (simp add: store_long_bool_def)

lemma store_bool_bool_appends:
  assumes "builder_ok b"
  shows "appends b [val] [] (store_bool_bool b val)"
proof (cases "can_extend_by_fast b 1")
  case True
  then have "1 \<le> remaining_bits b" by (simp add: can_extend_by_fast_def remaining_bits_def)
  moreover have "low_bits 1 (of_bool val :: u64) = [val]" by (simp add: low_bits_def)
  ultimately show ?thesis using True stored_appends [OF store_long_appends [OF assms, of 1 "of_bool val"]]
    by (simp add: store_bool_bool_def)
next
  case False
  then show ?thesis using assms
    by (simp add: store_bool_bool_def appends_def can_extend_by_fast_def remaining_bits_def builder_ok_def)
qed

lemma store_ref_bool_appends: "builder_ok b \<Longrightarrow> appends b [] [c] (store_ref_bool b (Some c))"
  by (auto simp: store_ref_bool_def appends_def remaining_refs_def builder_ok_def builder_out_def)

lemma store_ref_bool_None [simp]: "store_ref_bool b None = (False, b)"
  by (simp add: store_ref_bool_def)

lemma append_bits_refs_appends:
  assumes "builder_ok b" and "offs + len \<le> 8 * length data"
  shows "appends b (take len (drop offs (bits_of data))) refs (append_bits_refs b data offs len refs)"
proof (cases "can_extend_by2 b len (length refs)")
  case True
  have room: "b_bits b + len \<le> 8 * length (b_data b)"
    using True assms(1) by (auto simp: builder_ok_def can_extend_by2_def)
  have "appends b (take len (drop offs (bits_of data))) refs
      (True, b\<lparr>b_bits := b_bits b + len, b_data := bits_memcpy (b_data b) (b_bits b) data offs len,
        b_refs := b_refs b @ refs\<rparr>)"
    by (rule appends_write)
      (use assms True room in \<open>simp_all add: bits_memcpy_correct can_extend_by2_def remaining_refs_def\<close>)
  then show ?thesis using True
    by (simp add: append_bits_refs_def prepare_reserve_def can_extend_by_def can_extend_by2_def Let_def)
next
  case False
  then show ?thesis using assms
    by (auto simp: append_bits_refs_def appends_def can_extend_by2_def remaining_bits_def remaining_refs_def)
qed

lemma append_builder_bool_appends:
  "builder_ok b \<Longrightarrow> builder_ok cb \<Longrightarrow> appends b (builder_out cb) (b_refs cb) (append_builder_bool b cb)"
  using append_bits_refs_appends [of b 0 "b_bits cb" "b_data cb" "b_refs cb"]
  by (simp add: append_builder_bool_def builder_out_def builder_ok_def)

text \<open>The range checks accept exactly the numbers that fit.\<close>

lemma sint_word_of_int64: "- (2 ^ 63) \<le> k \<Longrightarrow> k < 2 ^ 63 \<Longrightarrow> sint (word_of_int k :: u64) = k"
  using signed_take_bit_int_eq_self [of 63 k] by (simp add: sint_sbintrunc')

lemma sint_push_minus_1:
  assumes n: "n < 64"
  shows "sint (push_bit n (- 1) :: u64) = - (2 ^ n)"
proof -
  have eq: "(push_bit n (- 1) :: u64) = word_of_int (- (2 ^ n))"
    by (simp add: push_bit_eq_mult del: push_bit_minus_one_eq_not_mask)
  have "(2 ^ n :: int) \<le> 2 ^ 63" using n by (intro power_increasing) auto
  moreover have "(0 :: int) < 2 ^ n" by simp
  ultimately show ?thesis unfolding eq by (intro sint_word_of_int64) linarith+
qed

lemma sint_push_1:
  assumes n: "n < 63"
  shows "sint (push_bit n 1 :: u64) = 2 ^ n"
proof -
  have eq: "(push_bit n 1 :: u64) = word_of_int (2 ^ n)" by (simp add: push_bit_eq_mult)
  have "(2 ^ n :: int) < 2 ^ 63" using n by (intro power_strict_increasing) auto
  moreover have "(0 :: int) < 2 ^ n" by simp
  ultimately show ?thesis unfolding eq by (intro sint_word_of_int64) linarith+
qed

lemma unat_push_1:
  assumes n: "n < 64"
  shows "unat (push_bit n 1 :: u64) = 2 ^ n"
proof -
  have eq: "(push_bit n 1 :: u64) = of_nat (2 ^ n)" by (simp add: push_bit_eq_mult)
  have "(2 ^ n :: nat) < 2 ^ 64" using n by (intro power_strict_increasing) auto
  then show ?thesis unfolding eq by (simp only: unat_of_nat) simp
qed

lemma store_long_rchk_bool_eq:
  assumes "0 < n" and "n \<le> 64"
  shows "store_long_rchk_bool b val n =
     (if - (2 ^ (n - 1)) \<le> sint val \<and> sint val < 2 ^ (n - 1) then store_long_bool b val n else (False, b))"
proof (cases "n = 64")
  case True
  have "- (2 ^ 63) \<le> sint val" "sint val < 2 ^ 63"
    using sint_greater_eq [of val] sint_less [of val] by simp_all
  then show ?thesis using True by (simp add: store_long_rchk_bool_def store_long_bool_def)
next
  case False
  then have "n - 1 < 63" using assms by simp
  then show ?thesis using False assms sint_push_minus_1 [of "n - 1"] sint_push_1 [of "n - 1"]
    by (auto simp: store_long_rchk_bool_def store_long_bool_def not_less)
qed

lemma store_ulong_rchk_bool_eq:
  assumes "n \<le> 64"
  shows "store_ulong_rchk_bool b val n = (if unat val < 2 ^ n then store_long_bool b val n else (False, b))"
proof (cases "n = 64")
  case True
  have "unat val < 2 ^ 64" using unsigned_less [of val] by simp
  then show ?thesis using True by (simp add: store_ulong_rchk_bool_def store_long_bool_def)
next
  case False
  then have n: "n < 64" using assms by simp
  then have "unat (push_bit n 1 :: u64) = 2 ^ n" by (rule unat_push_1)
  then have "val \<ge> push_bit n 1 \<longleftrightarrow> \<not> unat val < 2 ^ n" by (simp add: word_le_nat_alt not_less)
  then show ?thesis using n by (auto simp: store_ulong_rchk_bool_def store_long_bool_def)
qed

text \<open>A field that passes its check is read back as the same number.\<close>

lemma nat_of_low_bits: "unat val < 2 ^ n \<Longrightarrow> n \<le> 64 \<Longrightarrow> nat_of_bits (low_bits n (val :: u64)) = unat val"
proof -
  assume a: "unat val < 2 ^ n" "n \<le> 64"
  have "nat_of_bits (low_bits n val) = unat (take_bit n val)"
    using a(2) unat_word_of_bits [of "low_bits n val", where 'a = 64] by (simp add: word_of_low_bits)
  also have "\<dots> = unat val" using a(1) by (simp add: unsigned_take_bit_eq take_bit_nat_eq_self)
  finally show ?thesis .
qed

section \<open>Finalizing a builder\<close>

lemma finalize_novm_resets:
  "builder_ok b \<Longrightarrow> builder_ok (snd (finalize_novm sha256 b special))
     \<and> builder_out (snd (finalize_novm sha256 b special)) = [] \<and> b_refs (snd (finalize_novm sha256 b special)) = []"
  by (simp add: finalize_novm_def finalize_novm_nothrow_def builder_ok_def builder_out_def)

lemma finalize_copy_eq: "finalize_copy sha256 b special = finalize sha256 b special"
  by (simp add: finalize_copy_def finalize_def finalize_novm_def finalize_novm_nothrow_def)

lemma finalize_InrD: "finalize sha256 b special = Inr c \<Longrightarrow>
     create sha256 (b_data b) 0 (b_bits b) (map Some (b_refs b)) special = Inr c"
  by (auto simp: finalize_def finalize_novm_def finalize_novm_nothrow_def split: sum.splits)

definition cell_bits :: "cell \<Rightarrow> bool list" where
  "cell_bits c = take (i_bits (c_info c)) (bits_of (c_data c))"

lemma finalize_cell:
  assumes c: "finalize sha256 b special = Inr c" and b: "builder_ok b"
    and sha: "\<And>x. length (sha256 x) = hash_bytes" and refs: "\<forall>r \<in> set (b_refs b). wf_cell r"
  shows "wf_cell c" and "cell_bits c = builder_out b" and "c_refs c = b_refs b" and "i_is_special (c_info c) = special"
proof -
  have room: "0 + b_bits b \<le> 8 * length (b_data b)" using b by (auto simp: builder_ok_def)
  note wf = create_wf [OF finalize_InrD [OF c] sha refs room]
  show "wf_cell c" "c_refs c = b_refs b" "i_is_special (c_info c) = special" using wf by simp_all
  show "cell_bits c = builder_out b"
    using wf(3,4) room by (simp add: cell_bits_def builder_out_def)
qed

lemma finalize_plain:
  assumes c: "finalize sha256 b False = Inr c" and b: "builder_ok b"
    and refs: "\<forall>r \<in> set (b_refs b). plain sha256 r"
  shows "plain sha256 c"
proof (rule plain.intros)
  show "0 + b_bits b \<le> 8 * length (b_data b)" using b by (auto simp: builder_ok_def)
  show "create sha256 (b_data b) 0 (b_bits b) (map Some (b_refs b)) False = Inr c" by (rule finalize_InrD [OF c])
qed (rule refs)

section \<open>Bounded numbers and optional references\<close>

lemma unat_less_mask_level: "unat (m :: u32) < 2 ^ mask_level m"
proof -
  have "take_bit (mask_level m) m = m"
    by (rule bit_word_eqI) (metis bit_mask_level bit_take_bit_iff not_less)
  then have "unat m = take_bit (mask_level m) (unat m)" by (metis unsigned_take_bit_eq)
  then show ?thesis by (metis take_bit_nat_less_exp)
qed

lemma unat_ucast64: "unat (ucast (x :: u32) :: u64) = unat x"
proof -
  have "unat x < 2 ^ 32" using unsigned_less [of x] by simp
  then have "unat x < 2 ^ 64" by simp
  then show ?thesis by (simp add: unsigned_ucast_eq take_bit_nat_eq_self)
qed

lemma store_uint_leq_appends:
  assumes "builder_ok b" and "val \<le> ucast upper_bound"
  shows "appends b (low_bits (mask_level upper_bound) val) [] (store_uint_leq b upper_bound val)"
    and "nat_of_bits (low_bits (mask_level upper_bound) val) = unat val"
proof -
  have lv: "mask_level upper_bound \<le> 64" using mask_level_le [of upper_bound] by simp
  show "appends b (low_bits (mask_level upper_bound) val) [] (store_uint_leq b upper_bound val)"
    using store_long_bool_appends [OF assms(1) lv, of val] assms(2)
    by (simp add: store_uint_leq_def mask_level_def)
  have "unat val \<le> unat upper_bound"
    using assms(2) by (simp add: word_le_nat_alt unat_ucast64)
  then have "unat val < 2 ^ mask_level upper_bound" using unat_less_mask_level [of upper_bound] by simp
  then show "nat_of_bits (low_bits (mask_level upper_bound) val) = unat val"
    using lv by (rule nat_of_low_bits)
qed

lemma store_uint_less_eq:
  "0 < upper_bound \<Longrightarrow> store_uint_less b upper_bound val = store_uint_leq b (upper_bound - 1) val"
proof -
  assume u: "0 < upper_bound"
  then have "unat (upper_bound - 1) = unat upper_bound - 1" "0 < unat upper_bound"
    by (simp_all add: unat_minus_one word_gt_0 unat_gt_0)
  then have "val < ucast upper_bound \<longleftrightarrow> val \<le> ucast (upper_bound - 1)"
    by (simp add: word_less_nat_alt word_le_nat_alt unat_ucast64) linarith
  then show ?thesis by (simp add: store_uint_less_def store_uint_leq_def)
qed

lemma store_maybe_ref_appends:
  assumes "builder_ok b"
    and "1 \<le> remaining_bits b" and "1 \<le> remaining_refs b"
  shows "appends b [ref \<noteq> None] (case ref of None \<Rightarrow> [] | Some c \<Rightarrow> [c]) (store_maybe_ref b ref)"
proof -
  have l: "low_bits (Suc 0) (0 :: u64) = [False]" "low_bits (Suc 0) (1 :: u64) = [True]"
    by (simp_all add: low_bits_def)
  show ?thesis
  proof (cases ref)
    case None
    then show ?thesis using store_long_bool_appends [OF assms(1), of 1 0] by (simp add: store_maybe_ref_def l)
  next
    case (Some c)
    obtain b1 where b1: "store_long_bool b 1 1 = (True, b1)" "builder_ok b1" "b_refs b1 = b_refs b"
      "builder_out b1 = builder_out b @ [True]"
      using store_long_bool_appends [OF assms(1), of 1 1] assms(2) by (cases "store_long_bool b 1 1") (auto simp: appends_def l)
    then show ?thesis using store_ref_bool_appends [OF b1(2), of c] assms Some
      by (auto simp: store_maybe_ref_def appends_def remaining_refs_def)
  qed
qed

section \<open>Sequences of fields\<close>

definition bind_err :: "'e + 'a \<Rightarrow> ('a \<Rightarrow> 'e + 'b) \<Rightarrow> 'e + 'b" where
  "bind_err r f = (case r of Inl e \<Rightarrow> Inl e | Inr x \<Rightarrow> f x)"

lemma bind_err_simps [simp]: "bind_err (Inl e) f = Inl e" "bind_err (Inr x) f = f x"
  by (simp_all add: bind_err_def)

lemma bind_err_Inr: "bind_err r f = Inr y \<longleftrightarrow> (\<exists>x. r = Inr x \<and> f x = Inr y)"
  by (cases r) simp_all

text \<open>Storing a list of things one after the other, as the loops of the code do.\<close>

primrec store_all :: "('b \<Rightarrow> 'x \<Rightarrow> 'e + 'b) \<Rightarrow> 'x list \<Rightarrow> 'b \<Rightarrow> 'e + 'b" where
  "store_all put [] b = Inr b"
| "store_all put (x # xs) b = bind_err (put b x) (store_all put xs)"

text \<open>What the users of a builder rely on: \<open>put\<close> appends the code of its argument when there is room
  and throws otherwise.\<close>

locale bit_writer =
  fixes ok :: "'b \<Rightarrow> bool"
    and out :: "'b \<Rightarrow> bool list"
    and room :: "'b \<Rightarrow> nat"
    and fits :: "'x \<Rightarrow> bool"
    and code :: "'x \<Rightarrow> bool list"
    and put :: "'b \<Rightarrow> 'x \<Rightarrow> 'e + 'b"
  assumes put_room: "\<lbrakk>ok b; fits x; length (code x) \<le> room b\<rbrakk> \<Longrightarrow>
      \<exists>b'. put b x = Inr b' \<and> ok b' \<and> out b' = out b @ code x \<and> room b' = room b - length (code x)"
    and put_full: "\<lbrakk>ok b; fits x; room b < length (code x)\<rbrakk> \<Longrightarrow> \<exists>e. put b x = Inl e"
begin

lemma store_all_room:
  "\<lbrakk>ok b; \<forall>x \<in> set xs. fits x; length (concat (map code xs)) \<le> room b\<rbrakk> \<Longrightarrow>
     \<exists>b'. store_all put xs b = Inr b' \<and> ok b' \<and> out b' = out b @ concat (map code xs)
       \<and> room b' = room b - length (concat (map code xs))"
proof (induction xs arbitrary: b)
  case (Cons x xs)
  then obtain b1 where b1: "put b x = Inr b1" "ok b1" "out b1 = out b @ code x" "room b1 = room b - length (code x)"
    using put_room [of b x] by auto
  then have "length (concat (map code xs)) \<le> room b1" using Cons.prems by simp
  with Cons.IH [of b1] b1 Cons.prems show ?case by auto
qed simp

lemma store_all_full:
  "\<lbrakk>ok b; \<forall>x \<in> set xs. fits x; room b < length (concat (map code xs))\<rbrakk> \<Longrightarrow> \<exists>e. store_all put xs b = Inl e"
proof (induction xs arbitrary: b)
  case (Cons x xs)
  show ?case
  proof (cases "length (code x) \<le> room b")
    case True
    then obtain b1 where b1: "put b x = Inr b1" "ok b1" "room b1 = room b - length (code x)"
      using put_room [of b x] Cons.prems by auto
    then have "room b1 < length (concat (map code xs))" using Cons.prems True by simp
    with Cons.IH [of b1] b1 Cons.prems show ?thesis by simp
  next
    case False
    with put_full [of b x] Cons.prems show ?thesis by auto
  qed
qed simp

end

definition put_field :: "builder \<Rightarrow> u64 \<times> nat \<Rightarrow> builder_error + builder" where
  "put_field b f = store_long b (fst f) (snd f)"

definition put_bytes :: "builder \<Rightarrow> byte list \<Rightarrow> builder_error + builder" where
  "put_bytes b s = store_bytes b s (length s)"

lemma appends_or_throws_room:
  assumes "appends_or_throws b ys [] r" and "builder_ok b" and "length ys \<le> remaining_bits b"
  shows "\<exists>b'. r = Inr b' \<and> builder_ok b' \<and> builder_out b' = builder_out b @ ys \<and> b_refs b' = b_refs b
     \<and> remaining_bits b' = remaining_bits b - length ys"
proof -
  obtain b' where r: "r = Inr b'" and a: "appends b ys [] (True, b')"
    using assms by (auto simp: appends_or_throws_def split: sum.splits)
  then have ok: "builder_ok b'" "builder_out b' = builder_out b @ ys" "b_refs b' = b_refs b"
    by (simp_all add: appends_def)
  have "length (builder_out b') = length (builder_out b @ ys)" by (simp only: ok(2))
  then have "b_bits b' = b_bits b + length ys" using assms(2) ok(1) by simp
  with r ok show ?thesis by (simp add: remaining_bits_def)
qed

lemma appends_or_throws_full:
  "appends_or_throws b ys [] r \<Longrightarrow> remaining_bits b < length ys \<Longrightarrow> \<exists>e. r = Inl e"
  by (auto simp: appends_or_throws_def appends_def split: sum.splits)

interpretation fields: bit_writer "\<lambda>b. builder_ok b \<and> b_refs b = rs" builder_out remaining_bits
    "\<lambda>f. snd f \<le> 64" "\<lambda>f. low_bits (snd f) (fst f)" put_field
proof unfold_locales
  fix b :: builder and x :: "u64 \<times> nat"
  assume a: "builder_ok b \<and> b_refs b = rs" "snd x \<le> 64"
  have app: "appends_or_throws b (low_bits (snd x) (fst x)) [] (put_field b x)"
    unfolding put_field_def using a by (intro store_long_appends) auto
  show "\<exists>b'. put_field b x = Inr b' \<and> (builder_ok b' \<and> b_refs b' = rs)
      \<and> builder_out b' = builder_out b @ low_bits (snd x) (fst x)
      \<and> remaining_bits b' = remaining_bits b - length (low_bits (snd x) (fst x))"
    if "length (low_bits (snd x) (fst x)) \<le> remaining_bits b"
    using appends_or_throws_room [OF app] a that by auto
  show "\<exists>e. put_field b x = Inl e" if "remaining_bits b < length (low_bits (snd x) (fst x))"
    using appends_or_throws_full [OF app] that by auto
qed

interpretation bytes: bit_writer "\<lambda>b. builder_ok b \<and> b_refs b = rs" builder_out remaining_bits
    "\<lambda>s. True" bits_of put_bytes
proof unfold_locales
  fix b :: builder and x :: "byte list"
  assume a: "builder_ok b \<and> b_refs b = rs"
  have app: "appends_or_throws b (bits_of x) [] (put_bytes b x)"
    unfolding put_bytes_def using store_bytes_appends [of b "length x" x] a by simp
  show "\<exists>b'. put_bytes b x = Inr b' \<and> (builder_ok b' \<and> b_refs b' = rs)
      \<and> builder_out b' = builder_out b @ bits_of x \<and> remaining_bits b' = remaining_bits b - length (bits_of x)"
    if "length (bits_of x) \<le> remaining_bits b"
    using appends_or_throws_room [OF app] a that by auto
  show "\<exists>e. put_bytes b x = Inl e" if "remaining_bits b < length (bits_of x)"
    using appends_or_throws_full [OF app] that by auto
qed

end
