(* ===== verification/Merkle.thy ===== *)
theory Merkle
  imports Cell_Builder
begin

text \<open>
  Pruned branches and Merkle cells, the last operations of \<open>crypto/vm/cells/CellBuilder.cpp\<close>: a
  pruned branch answers for the cell it stands for, and a Merkle proof is bound to the hash of its
  content.
\<close>

section \<open>Creating special cells\<close>

definition do_create_pruned_branch ::
  "(byte list \<Rightarrow> byte list) \<Rightarrow> cell \<Rightarrow> nat \<Rightarrow> nat \<Rightarrow> builder_error + cell" where
  "do_create_pruned_branch sha256 c new_level virt_level =
     (let m = mask_apply (get_level_mask c) virt_level; level = mask_level m
      in if new_level < level + 1 then Inl CellWriteError
         else
           bind_err (store_long empty_builder 1 8) (\<lambda>b.
           bind_err (store_long b (ucast (mask_apply_or m (one_level new_level))) 8) (\<lambda>b.
           bind_err (store_all put_bytes (map (get_hash c) (significant_levels m)) b) (\<lambda>b.
           bind_err (store_all put_field (map (\<lambda>i. (of_nat (get_depth c i), 16)) (significant_levels m)) b) (\<lambda>b.
           finalize sha256 b True)))))"

definition create_pruned_branch ::
  "(byte list \<Rightarrow> byte list) \<Rightarrow> cell \<Rightarrow> nat \<Rightarrow> nat \<Rightarrow> builder_error + cell" where
  "create_pruned_branch sha256 c new_level virt_level =
     (if get_level c \<le> virt_level \<and> get_virtualization c = 0 \<and> c_refs (fst (load_cell c)) = [] then Inr c
      else do_create_pruned_branch sha256 c new_level virt_level)"

definition create_merkle_proof :: "(byte list \<Rightarrow> byte list) \<Rightarrow> cell \<Rightarrow> builder_error + cell" where
  "create_merkle_proof sha256 cell_proof =
     bind_err (store_long empty_builder 3 8) (\<lambda>b.
     bind_err (put_bytes b (get_hash cell_proof 0)) (\<lambda>b.
     bind_err (store_long b (of_nat (get_depth cell_proof 0)) (depth_bytes * 8)) (\<lambda>b.
     bind_err (store_ref b (Some cell_proof)) (\<lambda>b.
     finalize sha256 b True))))"

definition create_merkle_update :: "(byte list \<Rightarrow> byte list) \<Rightarrow> cell \<Rightarrow> cell \<Rightarrow> builder_error + cell" where
  "create_merkle_update sha256 from_proof to_proof =
     bind_err (store_long empty_builder 4 8) (\<lambda>b.
     bind_err (put_bytes b (get_hash from_proof 0)) (\<lambda>b.
     bind_err (put_bytes b (get_hash to_proof 0)) (\<lambda>b.
     bind_err (store_long b (of_nat (get_depth from_proof 0)) (depth_bytes * 8)) (\<lambda>b.
     bind_err (store_long b (of_nat (get_depth to_proof 0)) (depth_bytes * 8)) (\<lambda>b.
     bind_err (store_ref b (Some from_proof)) (\<lambda>b.
     bind_err (store_ref b (Some to_proof)) (\<lambda>b.
     finalize sha256 b True)))))))"

section \<open>Levels and hashes\<close>

lemma mask_apply_floor: "l < 32 \<Longrightarrow> mask_apply m (mask_level (mask_apply m l)) = mask_apply m l"
proof (rule bit_word_eqI)
  fix i assume l: "l < 32"
  have f: "mask_level (mask_apply m l) < 32" using mask_level_apply [OF l, of m] l by simp
  have "bit (mask_apply m l) i \<Longrightarrow> i < mask_level (mask_apply m l)"
    using bit_mask_level [of "mask_apply m l" i] not_less by blast
  then show "bit (mask_apply m (mask_level (mask_apply m l))) i = bit (mask_apply m l) i"
    using l f mask_level_apply [OF l, of m] by (auto simp: bit_mask_apply)
qed

text \<open>The hash and the depth of a level are those of the significant level below it.\<close>

lemma get_hash_floor: "l < 32 \<Longrightarrow> get_hash c (mask_level (mask_apply (get_level_mask c) l)) = get_hash c l"
  by (cases c) (simp_all add: data_get_hash_def fix_level_def mask_apply_floor)

lemma get_depth_floor: "l < 32 \<Longrightarrow> get_depth c (mask_level (mask_apply (get_level_mask c) l)) = get_depth c l"
  by (cases c) (simp_all add: data_get_depth_def fix_level_def mask_apply_floor)

lemma nth_significant_levels_values:
  "\<forall>m \<in> set [0, 1, 2, 3, 4, 5, 6, 7]. \<forall>l \<in> set [0, 1, 2, 3].
     significant_levels m ! mask_hash_i (mask_apply m l) = mask_level (mask_apply m l)"
  by code_simp

lemma nth_significant_levels:
  assumes "cell_mask m" and "l < 32"
  shows "significant_levels m ! mask_hash_i (mask_apply m l) = mask_level (mask_apply m l)"
proof -
  have "mask_apply m (min l 3) = mask_apply m l"
    by (rule bit_word_eqI) (use assms not_less in \<open>auto simp: bit_mask_apply cell_mask_bits min_def\<close>)
  moreover have "min l 3 \<in> set [0, 1, 2, 3]" by (auto simp: min_def)
  moreover have "m \<in> set [0, 1, 2, 3, 4, 5, 6, 7]" using cell_mask_cases [OF assms(1)] by simp
  ultimately show ?thesis using nth_significant_levels_values by metis
qed

lemma take_drop_concat:
  assumes "\<forall>x \<in> set xs. length x = k" and "i < length xs"
  shows "take k (drop (k * i) (concat xs @ ys)) = xs ! i"
  using assms
proof (induction xs arbitrary: i)
  case (Cons x xs)
  then show ?case by (cases i) (auto simp: drop_append)
qed simp

section \<open>Building the data of a special cell\<close>

lemma store_long_room:
  "\<lbrakk>builder_ok b; n \<le> 64; n \<le> remaining_bits b\<rbrakk> \<Longrightarrow>
     \<exists>b'. store_long b v n = Inr b' \<and> builder_ok b' \<and> builder_out b' = builder_out b @ low_bits n v
       \<and> b_refs b' = b_refs b \<and> remaining_bits b' = remaining_bits b - n"
  using appends_or_throws_room [OF store_long_appends, of b n v] by simp

lemma put_bytes_room:
  "\<lbrakk>builder_ok b; 8 * length s \<le> remaining_bits b\<rbrakk> \<Longrightarrow>
     \<exists>b'. put_bytes b s = Inr b' \<and> builder_ok b' \<and> builder_out b' = builder_out b @ bits_of s
       \<and> b_refs b' = b_refs b \<and> remaining_bits b' = remaining_bits b - 8 * length s"
  using appends_or_throws_room [OF store_bytes_appends, of b "length s" s] by (simp add: put_bytes_def)

lemma load_builder:
  assumes "builder_ok b" and "k + n \<le> b_bits b" and "n \<le> 64"
  shows "bits_load_ulong (b_data b) k n = word_of_bits (take n (drop k (builder_out b)))"
proof -
  have "k + n \<le> 8 * length (b_data b)" using assms by (auto simp: builder_ok_def)
  moreover have "n \<le> b_bits b - k" using assms(2) by linarith
  ultimately show ?thesis
    using assms by (simp add: bits_load_ulong_correct builder_out_def drop_take)
qed

lemma builder_ok_empty: "builder_ok empty_builder"
  by (simp add: empty_builder_def builder_ok_new)

lemma empty_builder_simps [simp]:
  "builder_out empty_builder = []" "b_refs empty_builder = []" "remaining_bits empty_builder = max_bits"
  by (simp_all add: empty_builder_def new_builder_def builder_out_def remaining_bits_def)

lemma bits_of_concat: "bits_of (concat xs) = concat (map bits_of xs)"
  by (induction xs) auto

lemma whole_bytes:
  assumes "bits_of data = bits_of xs @ tag_bits (8 * length xs)"
  shows "data = xs"
proof -
  have "tag_bits (8 * length xs) = []" by (simp add: tag_bits_def)
  with assms have eq: "bits_of data = bits_of xs" by simp
  then have "8 * length data = 8 * length xs" by (metis length_bits_of)
  with eq show ?thesis by (simp add: bits_of_inject)
qed

section \<open>Pruned branches\<close>

definition pruned_mask :: "level_mask \<Rightarrow> nat \<Rightarrow> level_mask" where
  "pruned_mask m new_level = mask_apply_or m (one_level new_level)"

lemma bit_pruned_mask: "0 < nl \<Longrightarrow> nl \<le> 32 \<Longrightarrow> bit (pruned_mask m nl) i \<longleftrightarrow> bit m i \<or> i = nl - 1"
  by (auto simp: pruned_mask_def mask_apply_or_def one_level_def bit_or_iff bit_exp_iff)

lemma pruned_mask_facts:
  assumes "mask_level m < nl" and "nl \<le> 3"
  shows "mask_level (pruned_mask m nl) = nl" and "cell_mask (pruned_mask m nl)" and "cell_mask m"
    and "\<And>l. l < nl \<Longrightarrow> mask_apply (pruned_mask m nl) l = mask_apply m l"
    and "mask_hash_i (pruned_mask m nl) = mask_hashes_count m"
proof -
  have nl: "0 < nl" "nl \<le> 32" using assms by linarith+
  show lv: "mask_level (pruned_mask m nl) = nl"
    using mask_level_eqI [of "pruned_mask m nl" "nl - 1"] nl assms(1) bit_mask_level [of m]
    by (auto simp: bit_pruned_mask)
  then show cm: "cell_mask (pruned_mask m nl)" using assms by (simp add: cell_mask_def)
  show "cell_mask m" using assms by (simp add: cell_mask_def)
  show ap: "mask_apply (pruned_mask m nl) l = mask_apply m l" if "l < nl" for l
    by (rule bit_word_eqI) (use that nl assms in \<open>auto simp: bit_mask_apply bit_pruned_mask\<close>)
  have "pruned_mask m nl \<noteq> 0" using lv nl by auto
  from mask_hash_i_below [OF cm this] have "mask_hashes_count (mask_apply m (nl - 1)) = mask_hash_i (pruned_mask m nl)"
    using lv nl ap [of "nl - 1"] by simp
  moreover have "mask_apply m (nl - 1) = m" using assms nl by (intro mask_apply_high) auto
  ultimately show "mask_hash_i (pruned_mask m nl) = mask_hashes_count m" by simp
qed

text \<open>The bytes of a pruned branch.\<close>

definition pruned_data :: "cell \<Rightarrow> level_mask \<Rightarrow> nat \<Rightarrow> byte list" where
  "pruned_data c m nl = [1, ucast (pruned_mask m nl)] @ concat (map (get_hash c) (significant_levels m))
     @ concat (map (\<lambda>i. depth_buf (get_depth c i)) (significant_levels m))"

lemma pruned_builder:
  assumes wf: "wf_cell c" and m: "mask_level m < nl" "nl \<le> 3"
  shows "\<exists>b. builder_ok b \<and> b_refs b = [] \<and> builder_out b = bits_of (pruned_data c m nl)
     \<and> bind_err (store_long empty_builder 1 8) (\<lambda>b.
       bind_err (store_long b (ucast (pruned_mask m nl)) 8) (\<lambda>b.
       bind_err (store_all put_bytes (map (get_hash c) (significant_levels m)) b) (\<lambda>b.
       bind_err (store_all put_field (map (\<lambda>i. (of_nat (get_depth c i), 16)) (significant_levels m)) b) f))) = f b"
proof -
  let ?ls = "significant_levels m"
  note pm = pruned_mask_facts [OF m]
  have "mask_level m \<le> 2" using m by linarith
  then have "filter (bit m) [0..<mask_level m] = filter (bit m) [0..<2]" by (rule filter_bit_upt)
  then have k: "length ?ls \<le> 3"
    using length_filter_le [of "bit m" "[0..<2]"] by (simp add: significant_levels_eq)
  have "l < 32" if "l \<in> set ?ls" for l
    using that m by (auto simp: significant_levels_def simp del: upt_Suc)
  then have hl: "\<forall>l \<in> set ?ls. length (get_hash c l) = 32" using length_get_hash [OF wf] by blast
  then have hc: "length (concat (map (get_hash c) ?ls)) = 32 * length ?ls" by (rule length_concat_const)
  obtain b1 where b1: "store_long empty_builder 1 8 = Inr b1" "builder_ok b1" "builder_out b1 = low_bits 8 (1 :: u64)"
    "b_refs b1 = []" "remaining_bits b1 = 1015"
    using store_long_room [OF builder_ok_empty, of 8 1] by auto
  obtain b2 where b2: "store_long b1 (ucast (pruned_mask m nl)) 8 = Inr b2" "builder_ok b2"
    "builder_out b2 = low_bits 8 (1 :: u64) @ low_bits 8 (ucast (pruned_mask m nl) :: u64)" "b_refs b2 = []" "remaining_bits b2 = 1007"
    using store_long_room [OF b1(2), of 8 "ucast (pruned_mask m nl)"] b1 by auto
  have l8: "length (concat (map bits_of (map (get_hash c) ?ls))) = 8 * (32 * length ?ls)"
    using hc bits_of_concat [of "map (get_hash c) ?ls"] by (metis length_bits_of)
  then have r3: "length (concat (map bits_of (map (get_hash c) ?ls))) \<le> remaining_bits b2" using b2(5) k by linarith
  obtain b3 where b3: "store_all put_bytes (map (get_hash c) ?ls) b2 = Inr b3" "builder_ok b3" "b_refs b3 = []"
    "builder_out b3 = builder_out b2 @ concat (map bits_of (map (get_hash c) ?ls))"
    "remaining_bits b3 = 1007 - 8 * (32 * length ?ls)"
    using bytes.store_all_room [of b2 "[]" "map (get_hash c) ?ls", OF _ _ r3] b2 unfolding l8 by auto
  let ?fs = "map (\<lambda>i. (of_nat (get_depth c i) :: u64, 16 :: nat)) ?ls"
  have dl: "length (concat (map (\<lambda>f. low_bits (snd f) (fst f)) ?fs)) = 16 * length ?ls"
    unfolding map_map comp_def by (rule length_concat_const) simp
  then have r4: "length (concat (map (\<lambda>f. low_bits (snd f) (fst f)) ?fs)) \<le> remaining_bits b3" using b3(5) k by linarith
  have s64: "\<forall>x \<in> set ?fs. snd x \<le> 64" by simp
  obtain b4 where b4: "store_all put_field ?fs b3 = Inr b4" "builder_ok b4" "b_refs b4 = []"
    "builder_out b4 = builder_out b3 @ concat (map (\<lambda>f. low_bits (snd f) (fst f)) ?fs)"
    using fields.store_all_room [of b3 "[]" ?fs, OF _ s64 r4] b3 by auto
  have d: "concat (map (\<lambda>f. low_bits (snd f) (fst f)) ?fs) = bits_of (concat (map (\<lambda>i. depth_buf (get_depth c i)) ?ls))"
    by (simp add: bits_of_concat comp_def depth_buf_bits)
  have "low_bits 8 (1 :: u64) = byte_bits 1"
    using byte_bits_ucast [of "1 :: u64"] by simp
  moreover have "low_bits 8 (ucast (pruned_mask m nl) :: u64) = byte_bits (ucast (pruned_mask m nl))"
    by (rule nth_equalityI) (auto simp: bit_views bit_simps)
  ultimately have "builder_out b4 = bits_of (pruned_data c m nl)"
    unfolding b4(4) d b3(4) b2(3) by (simp add: pruned_data_def bits_of_concat)
  then show ?thesis using b1 b2 b3 b4 by (intro exI [of _ b4]) simp
qed

lemma length_pruned_data:
  assumes wf: "wf_cell c" and m: "mask_level m < 32"
  shows "length (pruned_data c m nl) = 2 + 34 * length (significant_levels m)"
proof -
  have "l < 32" if "l \<in> set (significant_levels m)" for l
    using that m by (auto simp: significant_levels_def simp del: upt_Suc)
  then have "\<forall>l \<in> set (significant_levels m). length (get_hash c l) = 32" using length_get_hash [OF wf] by blast
  then have "length (concat (map (get_hash c) (significant_levels m))) = 32 * length (significant_levels m)"
    by (rule length_concat_const)
  moreover have "length (concat (map (\<lambda>i. depth_buf (get_depth c i)) (significant_levels m))) = 2 * length (significant_levels m)"
    by (rule length_concat_const) simp
  ultimately show ?thesis by (simp add: pruned_data_def)
qed

lemma builder_storage:
  assumes "builder_ok b" and "builder_out b = bits_of xs"
  shows "b_bits b = 8 * length xs" and "copy_data (b_data b) 0 (b_bits b) = xs"
proof -
  show n: "b_bits b = 8 * length xs"
    using length_builder_out [OF assms(1)] unfolding assms(2) by simp
  have room: "0 + b_bits b \<le> 8 * length (b_data b)" using assms(1) by (auto simp: builder_ok_def)
  have "bits_of (copy_data (b_data b) 0 (b_bits b)) = bits_of xs @ tag_bits (8 * length xs)"
    using bits_of_copy_data [OF room] assms(2) n by (simp add: builder_out_def)
  then show "copy_data (b_data b) 0 (b_bits b) = xs" by (rule whole_bytes)
qed

lemma load_builder_byte:
  assumes "builder_ok b" and "builder_out b = bits_of xs" and "k < length xs"
  shows "bits_load_ulong (b_data b) (8 * k) 8 = ucast (xs ! k)"
proof -
  have "take 8 (drop (8 * k) (bits_of xs)) = byte_bits (xs ! k)"
    using assms(3) by (simp add: drop_bits_of flip: Cons_nth_drop_Suc)
  then show ?thesis
    using load_builder [OF assms(1), of "8 * k" 8] builder_storage(1) [OF assms(1,2)] assms(2,3)
    by (simp add: word_of_bits_byte)
qed

lemma byte_mask:
  "cell_mask m \<Longrightarrow> (ucast (ucast (ucast m :: byte) AND 0xff :: u64) :: u32) = m"
  using cell_mask_cases [of m] by auto

lemma finalize_pruned:
  assumes wf: "wf_cell c" and m: "mask_level m < nl" "nl \<le> 3"
    and b: "builder_ok b" "b_refs b = []" "builder_out b = bits_of (pruned_data c m nl)"
  shows "\<exists>i h. finalize sha256 b True = Inr (Data_Cell i (pruned_data c m nl) [] [h] [0])
     \<and> i_level_mask i = pruned_mask m nl \<and> i_is_special i"
proof -
  define pd where "pd = pruned_data c m nl"
  define bits where "bits = b_bits b"
  note pm = pruned_mask_facts [OF m]
  have lp: "length pd = 2 + 34 * mask_hashes_count m"
    using length_pruned_data [OF wf, of m nl] length_significant_levels [OF pm(3)] m by (simp add: pd_def)
  have bits: "bits = 8 * length pd" and st: "copy_data (b_data b) 0 bits = pd"
    using builder_storage [OF b(1,3)] by (simp_all add: bits_def pd_def)
  have byte: "bits_load_ulong (b_data b) (8 * k) 8 = ucast (pd ! k)" if "k < length pd" for k
    using load_builder_byte [OF b(1,3)] that by (simp add: pd_def)
  have pd01: "pd ! 0 = 1" "pd ! Suc 0 = ucast (pruned_mask m nl)" by (simp_all add: pd_def pruned_data_def)
  have ty: "created_type (b_data b) 0 True = PrunnedBranch"
    using byte [of 0] lp by (simp add: created_type_def pd01 special_type_of_def)
  have ld: "ucast (bits_load_ulong (b_data b) (0 + 8) 8 AND 0xff) = pruned_mask m nl"
    using byte [of 1] lp byte_mask [OF pm(2)] by (simp add: pd01)
  have "mask_apply m (nl - 1) = m" using m by (intro mask_apply_high) auto
  then have hc: "mask_hashes_count (mask_apply (pruned_mask m nl) (nl - 1)) = mask_hashes_count m"
    using pm(4) [of "nl - 1"] m by simp
  have cs: "check_special PrunnedBranch (b_data b) 0 bits [] = Inr (pruned_mask m nl, 0)"
    unfolding check_special_def special_type.case Let_def ld pm(1) hc using m bits lp by simp
  have "length (created_levels PrunnedBranch (pruned_mask m nl)) = 1"
    using length_significant_levels [OF pm(2)] by (simp add: created_levels_def mask_hashes_count_def)
  then obtain x where ls: "created_levels PrunnedBranch (pruned_mask m nl) = [x]"
    by (cases "created_levels PrunnedBranch (pruned_mask m nl)") auto
  define i where "i = created_info bits [] True PrunnedBranch (pruned_mask m nl) 0"
  have lim: "\<not> (True \<and> bits < 8)" "\<not> (True \<and> PrunnedBranch = Ordinary)"
    using bits lp by auto
  have "mask_hash_i m \<le> 2"
  proof -
    have "mask_level m \<le> 2" using m by linarith
    then have "filter (bit m) [0..<3] = filter (bit m) [0..<2]"
      using filter_bit_upt [of m 2] filter_bit_upt [of m 3] by simp
    then show ?thesis using length_filter_le [of "bit m" "[0..<2]"] by (simp add: cell_mask_hash_i [OF pm(3)])
  qed
  then have mb: "\<not> bits > max_bits" using bits lp by (simp add: mask_hashes_count_def)
  have "create sha256 (b_data b) 0 bits (map Some []) True
      = Inr (Data_Cell i pd [] [sha256 (level_message i PrunnedBranch (pruned_mask m nl) pd [] [] x)] [0])"
    unfolding create_unfold ty cs if_not_P [OF lim(1)] if_not_P [OF lim(2)] sum.case prod.case if_not_P [OF mb]
      st ls i_def [symmetric]
    by (simp add: i_def created_info_def level_depth_def Let_def)
  then have "finalize sha256 b True
      = Inr (Data_Cell i pd [] [sha256 (level_message i PrunnedBranch (pruned_mask m nl) pd [] [] x)] [0])"
    using b(2) by (simp add: finalize_def finalize_novm_def finalize_novm_nothrow_def flip: bits_def)
  moreover have "i_level_mask i = pruned_mask m nl" "i_is_special i"
    using cell_mask_and_7 [OF pm(2)] by (simp_all add: i_def created_info_def)
  ultimately show ?thesis unfolding pd_def by blast
qed

lemma pruned_data_hash:
  assumes wf: "wf_cell c" and m: "mask_level m < nl" "nl \<le> 3" and l: "l < nl"
  shows "take 32 (drop (2 + 32 * mask_hash_i (mask_apply m l)) (pruned_data c m nl))
     = get_hash c (mask_level (mask_apply m l))"
proof -
  let ?ls = "significant_levels m" and ?k = "mask_hash_i (mask_apply m l)"
  note pm = pruned_mask_facts [OF m]
  have "l' < 32" if "l' \<in> set ?ls" for l'
    using that m by (auto simp: significant_levels_def simp del: upt_Suc)
  then have hl: "\<forall>h \<in> set (map (get_hash c) ?ls). length h = 32" using length_get_hash [OF wf] by auto
  have l32: "l < 32" using l m by simp
  have k: "?k < length (map (get_hash c) ?ls)"
    using mask_hash_i_apply_le [OF pm(3) l32] length_significant_levels [OF pm(3)] by (simp add: mask_hashes_count_def)
  have "take 32 (drop (2 + 32 * ?k) (pruned_data c m nl)) = take 32 (drop (32 * ?k) (concat (map (get_hash c) ?ls)
      @ concat (map (\<lambda>i. depth_buf (get_depth c i)) ?ls)))"
    by (simp add: pruned_data_def)
  also have "\<dots> = map (get_hash c) ?ls ! ?k" by (rule take_drop_concat [OF hl k])
  also have "\<dots> = get_hash c (?ls ! ?k)" using k by simp
  also have "?ls ! ?k = mask_level (mask_apply m l)" by (rule nth_significant_levels [OF pm(3) l32])
  finally show ?thesis .
qed

lemma load_depth_at:
  assumes "take 2 (drop pos data) = depth_buf d" and "d < 2 ^ 16"
  shows "load_depth data pos = d"
proof -
  have len: "pos + 2 \<le> length data" using arg_cong [OF assms(1), of length] by simp
  have "take 16 (drop (8 * pos) (bits_of data)) = bits_of (depth_buf d)"
    using take_bits_of [of 2 "drop pos data"] assms(1) by (simp add: drop_bits_of)
  then have "bits_load_ulong data (8 * pos) 16 = bits_load_ulong (depth_buf d) 0 16"
    using len by (simp add: bits_load_ulong_correct)
  then have "load_depth data pos = load_depth (depth_buf d) 0" by (simp add: load_depth_def)
  then show ?thesis using load_depth_buf [OF assms(2)] by simp
qed

lemma pruned_data_depth:
  assumes wf: "wf_cell c" and m: "mask_level m < nl" "nl \<le> 3" and l: "l < nl"
  shows "load_depth (pruned_data c m nl) (2 + 32 * mask_hashes_count m + mask_hash_i (mask_apply m l) * 2)
     = get_depth c (mask_level (mask_apply m l))"
proof (rule load_depth_at)
  let ?ls = "significant_levels m" and ?k = "mask_hash_i (mask_apply m l)"
  note pm = pruned_mask_facts [OF m]
  have "l' < 32" if "l' \<in> set ?ls" for l'
    using that m by (auto simp: significant_levels_def simp del: upt_Suc)
  then have "\<forall>l \<in> set ?ls. length (get_hash c l) = 32" using length_get_hash [OF wf] by blast
  then have lc: "length (concat (map (get_hash c) ?ls)) = 32 * mask_hashes_count m"
    using length_significant_levels [OF pm(3)] length_concat_const by metis
  have l32: "l < 32" using l m by simp
  let ?ds = "map (\<lambda>i. depth_buf (get_depth c i)) ?ls"
  have dl: "\<forall>d \<in> set ?ds. length d = 2" by simp
  have k: "?k < length ?ds"
    using mask_hash_i_apply_le [OF pm(3) l32] length_significant_levels [OF pm(3)] by (simp add: mask_hashes_count_def)
  have "take 2 (drop (2 + 32 * mask_hashes_count m + ?k * 2) (pruned_data c m nl)) = take 2 (drop (2 * ?k) (concat ?ds @ []))"
    unfolding pruned_data_def using lc by (simp add: drop_append mult.commute)
  also have "\<dots> = ?ds ! ?k" by (rule take_drop_concat [OF dl k])
  also have "\<dots> = depth_buf (get_depth c (?ls ! ?k))" using k by simp
  also have "?ls ! ?k = mask_level (mask_apply m l)" by (rule nth_significant_levels [OF pm(3) l32])
  finally show "take 2 (drop (2 + 32 * mask_hashes_count m + ?k * 2) (pruned_data c m nl))
      = depth_buf (get_depth c (mask_level (mask_apply m l)))" .
  show "get_depth c (mask_level (mask_apply m l)) < 2 ^ 16"
    using mask_level_apply [OF l32, of m] l32 by (intro get_depth_less [OF wf]) simp
qed

lemma pruned_branch_answers:
  assumes wf: "wf_cell c" and virt: "virt_level < 32"
    and level: "mask_level (mask_apply (get_level_mask c) virt_level) < new_level" and new: "new_level \<le> 3"
  shows "\<exists>p. do_create_pruned_branch sha256 c new_level virt_level = Inr p \<and> get_level p = new_level
     \<and> (\<forall>l < new_level. get_hash p l = get_hash c (min virt_level l) \<and> get_depth p l = get_depth c (min virt_level l))"
proof -
  define m where "m = mask_apply (get_level_mask c) virt_level"
  have ml: "mask_level m < new_level" using level by (simp add: m_def)
  note pm = pruned_mask_facts [OF ml new]
  obtain b where b: "builder_ok b" "b_refs b = []" "builder_out b = bits_of (pruned_data c m new_level)"
    and do: "do_create_pruned_branch sha256 c new_level virt_level = finalize sha256 b True"
    using pruned_builder [OF wf ml new, of "\<lambda>b. finalize sha256 b True"] ml
    unfolding do_create_pruned_branch_def Let_def m_def [symmetric] pruned_mask_def by auto
  obtain i h where p: "finalize sha256 b True = Inr (Data_Cell i (pruned_data c m new_level) [] [h] [0])"
    and i: "i_level_mask i = pruned_mask m new_level" "i_is_special i"
    using finalize_pruned [OF wf ml new b] by blast
  let ?p = "Data_Cell i (pruned_data c m new_level) [] [h] [0]"
  have pl: "0 + 8 \<le> 8 * length (pruned_data c m new_level)" by (simp add: pruned_data_def)
  have "take 8 (bits_of (pruned_data c m new_level)) = byte_bits 1" by (simp add: pruned_data_def)
  then have "bits_load_ulong (pruned_data c m new_level) 0 8 = 1"
    using bits_load_ulong_correct [OF _ pl] word_of_bits_byte [of 1, where 'a = 64] by simp
  then have ty: "data_special_type i (pruned_data c m new_level) = PrunnedBranch"
    using i(2) by (simp add: data_special_type_def special_type_of_def)
  have "get_hash ?p l = get_hash c (min virt_level l) \<and> get_depth ?p l = get_depth c (min virt_level l)"
    if l: "l < new_level" for l
  proof -
    have l32: "l < 32" "min virt_level l < 32" using l new virt by auto
    have ml2: "mask_apply m l = mask_apply (get_level_mask c) (min virt_level l)"
      using mask_apply_apply [OF virt l32(1)] by (simp add: m_def)
    have "mask_hash_i (mask_apply m l) \<le> mask_hash_i m" by (rule mask_hash_i_apply_le [OF pm(3) l32(1)])
    then have ne: "mask_hash_i (mask_apply m l) \<noteq> mask_hashes_count m" by (simp add: mask_hashes_count_def)
    have "get_hash ?p l = get_hash c (mask_level (mask_apply m l))"
      using pruned_data_hash [OF wf ml new l] ne by (simp add: data_get_hash_def ty i pm(5) pm(4) [OF l] Let_def)
    moreover have "get_depth ?p l = get_depth c (mask_level (mask_apply m l))"
      using pruned_data_depth [OF wf ml new l] ne
      by (simp add: data_get_depth_def ty i pm(5) pm(4) [OF l] Let_def mult.commute)
    ultimately show ?thesis
      using get_hash_floor [OF l32(2), of c] get_depth_floor [OF l32(2), of c] by (simp add: ml2)
  qed
  moreover have "get_level ?p = new_level" using i pm(1) by (simp add: get_level_def)
  ultimately show ?thesis using do p by auto
qed

section \<open>Merkle proofs\<close>

lemma memcmp_zero:
  assumes "fst (bits_memcmp data offs h 0 256) = 0" and "offs + 256 \<le> 8 * length data" and "length h = 32"
  shows "take 256 (drop offs (bits_of data)) = bits_of h"
  using assms bits_memcmp_correct [of offs 256 data 0 h] by (simp add: lex_cmp_eq_0)

text \<open>A Merkle proof cell commits to the hash and the depth of its content at level 0.\<close>

lemma merkle_proof_bound:
  assumes c: "create sha256 data offs bits (map Some refs) True = Inr c"
    and ty: "created_type data offs True = MerkleProof"
    and refs: "\<forall>r \<in> set refs. wf_cell r" and data: "offs + bits \<le> 8 * length data"
  shows "\<exists>r. refs = [r] \<and> take 256 (drop (offs + 8) (bits_of data)) = bits_of (get_hash r 0)
     \<and> nat_of_bits (take 16 (drop (offs + 264) (bits_of data))) = get_depth r 0
     \<and> get_level_mask c = mask_shift_right (get_level_mask r)"
proof -
  obtain m v hashes depths where cs: "check_special MerkleProof data offs bits refs = Inr (m, v)"
    and ceq: "c = Data_Cell (created_info bits refs True MerkleProof m v) (copy_data data offs bits) refs hashes depths"
    by (rule create_InrE [OF c, unfolded ty]) (rule that)
  have bits: "bits = 280" and one: "length refs = 1"
    and h: "fst (bits_memcmp data (offs + 8) (get_hash (refs ! 0) 0) 0 256) = 0"
    and d: "unat (bits_load_ulong data (offs + 264) 16) = get_depth (refs ! 0) 0"
    and m: "m = mask_shift_right (get_level_mask (refs ! 0))"
    using cs by (simp_all add: check_special_def add.commute split: if_splits)
  obtain r where r: "refs = [r]" using one by (cases refs) auto
  have cm: "cell_mask m" by (rule check_special_mask [OF cs refs])
  have "length (get_hash r 0) = 32" using refs r by (intro length_get_hash) auto
  then have "take 256 (drop (offs + 8) (bits_of data)) = bits_of (get_hash r 0)"
    using h data bits r by (intro memcmp_zero) auto
  moreover have "nat_of_bits (take 16 (drop (offs + 264) (bits_of data))) = get_depth r 0"
    using d r data bits unat_bits_load_ulong [of 16 "offs + 264" data] by simp
  moreover have "get_level_mask c = mask_shift_right (get_level_mask r)"
    using ceq m r cell_mask_and_7 [OF cm] by (simp add: created_info_def)
  ultimately show ?thesis using r by blast
qed

lemma unat_take_16: "d < 2 ^ 16 \<Longrightarrow> unat (take_bit 16 (of_nat d :: u64)) = d"
proof -
  assume d: "d < 2 ^ 16"
  have "unat (take_bit 16 (of_nat d :: u64)) = take_bit 16 (unat (of_nat d :: u64))" by (rule unsigned_take_bit_eq)
  also have "\<dots> = d" using d by (simp add: unat_of_nat take_bit_eq_mod)
  finally show ?thesis .
qed

lemma level_loop_succeeds:
  assumes "\<forall>l \<in> set levels. level_depth type refs l < max_depth"
  shows "\<exists>r. level_loop sha256 i type m data refs levels hs ds = Inr r"
  using assms by (induction levels arbitrary: hs ds) (auto simp: Let_def)

lemma created_levels_subset: "set (created_levels type m) \<subseteq> set (significant_levels m)"
  by (simp add: created_levels_def set_drop_subset)

lemma special_load:
  assumes "builder_ok b" and "builder_out b = low_bits 8 (v :: u64) @ rest"
  shows "unat (bits_load_ulong (b_data b) 0 8) = unat (take_bit 8 v)"
proof -
  have "8 \<le> b_bits b" using length_builder_out [OF assms(1)] assms(2) by simp
  then show ?thesis using load_builder [OF assms(1), of 0 8] assms(2) by (simp add: word_of_low_bits)
qed

text \<open>The proof made for a cell passes the checks of \<open>create\<close>: it is refused only for its depth or
  its virtualization.\<close>

lemma merkle_proof_created:
  assumes wf: "wf_cell r" and depth: "\<forall>l < 32. get_depth r l < max_depth"
    and virt: "get_virtualization r \<le> max_virtualization"
  shows "\<exists>p. create_merkle_proof sha256 r = Inr p \<and> c_refs p = [r] \<and> data_special_type (c_info p) (c_data p) = MerkleProof
     \<and> get_level_mask p = mask_shift_right (get_level_mask r)"
proof -
  have lh: "length (get_hash r 0) = 32" by (rule length_get_hash [OF wf]) simp
  obtain b1 where b1: "store_long empty_builder 3 8 = Inr b1" "builder_ok b1" "builder_out b1 = low_bits 8 (3 :: u64)"
    "b_refs b1 = []" "remaining_bits b1 = 1015"
    using store_long_room [OF builder_ok_empty, of 8 3] by auto
  obtain b2 where b2: "put_bytes b1 (get_hash r 0) = Inr b2" "builder_ok b2"
    "builder_out b2 = low_bits 8 (3 :: u64) @ bits_of (get_hash r 0)" "b_refs b2 = []" "remaining_bits b2 = 759"
    using put_bytes_room [OF b1(2), of "get_hash r 0"] b1 lh by auto
  obtain b3 where b3: "store_long b2 (of_nat (get_depth r 0)) 16 = Inr b3" "builder_ok b3" "b_refs b3 = []"
    "builder_out b3 = low_bits 8 (3 :: u64) @ bits_of (get_hash r 0) @ low_bits 16 (of_nat (get_depth r 0) :: u64)"
    using store_long_room [OF b2(2), of 16 "of_nat (get_depth r 0)"] b2 by auto
  define b where "b = b3\<lparr>b_refs := [r]\<rparr>"
  have sr: "store_ref b3 (Some r) = Inr b"
    using b3 by (simp add: store_ref_def store_ref_bool_def ensure_pass_def b_def)
  have b: "builder_ok b" "b_refs b = [r]"
    "builder_out b = low_bits 8 (3 :: u64) @ bits_of (get_hash r 0) @ low_bits 16 (of_nat (get_depth r 0) :: u64)"
    using b3 by (simp_all add: b_def builder_ok_def builder_out_def)
  have bits: "b_bits b = 280" using length_builder_out [OF b(1)] lh unfolding b(3) by simp
  have room: "0 + b_bits b \<le> 8 * length (b_data b)" using b(1) by (auto simp: builder_ok_def)
  have ty: "created_type (b_data b) 0 True = MerkleProof"
    using special_load [OF b(1,3)] by (simp add: created_type_def special_type_of_def)
  have "take 256 (drop 8 (bits_of (b_data b))) = take 256 (drop 8 (builder_out b))"
    by (simp add: builder_out_def bits drop_take)
  also have "\<dots> = bits_of (get_hash r 0)" using lh by (simp add: b(3))
  finally have h: "fst (bits_memcmp (b_data b) 8 (get_hash r 0) 0 256) = 0"
    using bits_memcmp_correct [of 8 256 "b_data b" 0 "get_hash r 0"] room bits lh by (simp add: lex_cmp_eq_0)
  have "bits_load_ulong (b_data b) 264 16 = word_of_bits (take 16 (drop 264 (builder_out b)))"
    using b(1) bits by (intro load_builder) auto
  also have "take 16 (drop 264 (builder_out b)) = low_bits 16 (of_nat (get_depth r 0) :: u64)"
    using lh by (simp add: b(3))
  finally have d: "unat (bits_load_ulong (b_data b) 264 16) = get_depth r 0"
  proof -
    assume eq: "bits_load_ulong (b_data b) 264 16 = word_of_bits (low_bits 16 (of_nat (get_depth r 0) :: u64))"
    have "get_depth r 0 < 2 ^ 16" using get_depth_less [OF wf, of 0] by simp
    then show ?thesis
      unfolding eq by (simp add: word_of_low_bits unat_take_16 del: take_bit_of_nat)
  qed
  define m where "m = mask_shift_right (get_level_mask r)"
  define v where "v = get_virtualization r"
  have cs: "check_special MerkleProof (b_data b) 0 280 [r] = Inr (m, v)"
    using h d by (simp add: check_special_def m_def v_def)
  have cm: "cell_mask m" unfolding m_def by (rule cell_mask_shift_right [OF wf_cell_mask [OF wf]])
  have lev: "level_depth MerkleProof [r] l < max_depth" if "l \<in> set (created_levels MerkleProof m)" for l
  proof -
    have "l \<in> set (significant_levels m)" using that created_levels_subset by blast
    then have "l \<le> 3" using cm by (auto simp: significant_levels_def cell_mask_def simp del: upt_Suc)
    then show ?thesis using depth by (simp add: level_depth_def ref_level_def)
  qed
  define i where "i = created_info 280 [r] True MerkleProof m v"
  obtain hashes depths where ll: "level_loop sha256 i MerkleProof m (copy_data (b_data b) 0 280) [r]
      (created_levels MerkleProof m) [] [] = Inr (hashes, depths)"
    using level_loop_succeeds [of "created_levels MerkleProof m" MerkleProof "[r]"] lev by force
  let ?p = "Data_Cell i (copy_data (b_data b) 0 280) [r] hashes depths"
  have c: "create sha256 (b_data b) 0 280 (map Some [r]) True = Inr ?p"
    using virt unfolding create_unfold ty cs sum.case prod.case i_def [symmetric] ll by (simp add: v_def)
  have "create_merkle_proof sha256 r = Inr ?p"
    using b1 b2 b3 sr c b(2) bits
    by (simp add: create_merkle_proof_def finalize_def finalize_novm_def finalize_novm_nothrow_def)
  moreover have "bits_load_ulong (copy_data (b_data b) 0 280) 0 8 = bits_load_ulong (b_data b) 0 8"
    using load_copy_data [of 0 280 "b_data b" 0 8] room bits by simp
  then have "data_special_type i (copy_data (b_data b) 0 280) = MerkleProof"
    using ty by (simp add: data_special_type_def i_def created_info_def created_type_def)
  moreover have "get_level_mask ?p = m" using cell_mask_and_7 [OF cm] by (simp add: i_def created_info_def)
  ultimately show ?thesis by (auto simp: m_def)
qed

end
