(* ===== verification/Cell_Slice.thy ===== *)
theory Cell_Slice
  imports Cell_Builder
begin

text \<open>
  \<open>CellSlice\<close> of \<open>crypto/vm/cells/CellSlice.cpp\<close> and \<open>CellSlice.h\<close>: a window on the bits and the
  references of a cell, with the cache \<open>z\<close> of up to 64 bits that have been read ahead. The invariant
  says what the cache holds; with it every operation works on the bits \<open>slice_bits\<close> and the
  references \<open>slice_refs\<close> that are left. Operations that only look ahead are \<open>const\<close> in the code but
  fill the cache, so they return the slice as well.
\<close>

section \<open>The slice\<close>

record slice =
  s_virt :: virt
  s_cell :: "cell option"
  bits_st :: nat
  refs_st :: nat
  bits_en :: nat
  refs_en :: nat
  s_ptr :: "nat option"
  s_z :: u64
  s_zd :: nat

definition null_slice :: slice where
  "null_slice = \<lparr>s_virt = virt_none, s_cell = None, bits_st = 0, refs_st = 0, bits_en = 0, refs_en = 0,
     s_ptr = None, s_z = 0, s_zd = 0\<rparr>"

definition slice_data :: "slice \<Rightarrow> byte list" where
  "slice_data s = (case s_cell s of Some c \<Rightarrow> c_data c | None \<Rightarrow> [])"

definition slice_cell_refs :: "slice \<Rightarrow> cell list" where
  "slice_cell_refs s = (case s_cell s of Some c \<Rightarrow> c_refs c | None \<Rightarrow> [])"

definition slice_size :: "slice \<Rightarrow> nat" where
  "slice_size s = bits_en s - bits_st s"

definition slice_size_refs :: "slice \<Rightarrow> nat" where
  "slice_size_refs s = refs_en s - refs_st s"

definition slice_size_ext :: "slice \<Rightarrow> nat" where
  "slice_size_ext s = slice_size s + slice_size_refs s * 2 ^ 16"

definition slice_have :: "slice \<Rightarrow> nat \<Rightarrow> bool" where
  "slice_have s bits \<longleftrightarrow> bits \<le> slice_size s"

definition slice_have_refs :: "slice \<Rightarrow> nat \<Rightarrow> bool" where
  "slice_have_refs s refs \<longleftrightarrow> refs \<le> slice_size_refs s"

definition slice_have2 :: "slice \<Rightarrow> nat \<Rightarrow> nat \<Rightarrow> bool" where
  "slice_have2 s bits refs \<longleftrightarrow> bits \<le> slice_size s \<and> refs \<le> slice_size_refs s"

section \<open>The cache\<close>

definition init_preload :: "slice \<Rightarrow> slice" where
  "init_preload s =
     (if bits_st s \<ge> bits_en s then s\<lparr>s_zd := 0\<rparr>
      else let p = bits_st s div 8 + 1; t = 8 - bits_st s mod 8
           in s\<lparr>s_ptr := Some p, s_z := push_bit (64 - t) (ucast (slice_data s ! (p - 1))),
                s_zd := min t (slice_size s)\<rparr>)"

function preload_loop :: "byte list \<Rightarrow> nat \<Rightarrow> nat \<Rightarrow> u64 \<Rightarrow> nat \<Rightarrow> nat \<Rightarrow> nat \<times> u64 \<times> nat" where
  "preload_loop m req_bits ptr z zd remain =
     (if \<not> (zd < req_bits \<and> remain > 0) then (ptr, z, zd)
      else if zd > 56 then (ptr, z OR ucast (drop_bit (zd - 56) (m ! ptr)), zd)
      else let z1 = z OR push_bit (56 - zd) (ucast (m ! ptr))
           in if remain \<le> 8 then (ptr + 1, z1, zd + remain)
              else preload_loop m req_bits (ptr + 1) z1 (zd + 8) (remain - 8))"
  by pat_completeness auto
termination by (relation "measure (\<lambda>(m, req, ptr, z, zd, remain). remain)") auto

declare preload_loop.simps [simp del]

text \<open>The assertion of \<open>preload_at_least\<close>.\<close>

definition preload_assert :: "slice \<Rightarrow> nat \<Rightarrow> bool" where
  "preload_assert s req_bits \<longleftrightarrow> req_bits \<le> 64 \<and> slice_have s req_bits \<and> s_ptr s \<noteq> None"

definition preload_at_least :: "slice \<Rightarrow> nat \<Rightarrow> slice" where
  "preload_at_least s req_bits =
     (if req_bits \<le> s_zd s then s
      else
        let m = slice_data s; ptr = the (s_ptr s); zd = s_zd s; remain = bits_en s - bits_st s - zd
        in if zd \<le> 32 \<and> remain > 24 then
             let z = s_z s OR push_bit (32 - zd) (load_be32 m ptr)
             in if remain \<le> 32 then s\<lparr>s_ptr := Some (ptr + 4), s_z := z, s_zd := zd + remain\<rparr>
                else let (ptr, z, zd) = preload_loop m req_bits (ptr + 4) z (zd + 32) (remain - 32)
                     in s\<lparr>s_ptr := Some ptr, s_z := z, s_zd := zd\<rparr>
           else let (ptr, z, zd) = preload_loop m req_bits ptr (s_z s) zd remain
                in s\<lparr>s_ptr := Some ptr, s_z := z, s_zd := zd\<rparr>)"

definition slice_advance :: "slice \<Rightarrow> nat \<Rightarrow> bool \<times> slice" where
  "slice_advance s bits =
     (if slice_have s bits then
        let s1 = s\<lparr>bits_st := bits_st s + bits\<rparr>
        in if s_zd s1 \<le> bits then (True, init_preload s1)
           else (True, s1\<lparr>s_zd := s_zd s1 - bits, s_z := push_bit bits (s_z s1)\<rparr>)
      else (False, s))"

section \<open>Constructors\<close>

definition init_bits_refs :: "slice \<Rightarrow> slice" where
  "init_bits_refs s =
     (case s_cell s of
        None \<Rightarrow> s\<lparr>bits_en := 0, refs_en := 0\<rparr>
      | Some c \<Rightarrow>
          let s1 = s\<lparr>bits_en := i_bits (c_info c), refs_en := i_refs_count (c_info c)\<rparr>
          in if bits_en s1 \<noteq> 0 then init_preload s1 else s1)"

definition slice_of_loaded :: "cell option \<Rightarrow> virt \<Rightarrow> slice" where
  "slice_of_loaded c v = init_bits_refs (null_slice\<lparr>s_virt := v, s_cell := c\<rparr>)"

text \<open>\<open>load_cell_nothrow\<close>: \<open>mode\<close> 1 admits ordinary cells, 2 special ones, 3 both.\<close>

definition load_cell_nothrow :: "cell \<Rightarrow> nat \<Rightarrow> cell option \<times> virt" where
  "load_cell_nothrow c mode =
     (let (dc, v) = load_cell c
      in if drop_bit (of_bool (i_is_special (c_info dc))) mode mod 2 = 1 then (Some dc, v) else (None, virt_none))"

definition slice_NoVm :: "cell \<Rightarrow> slice" where
  "slice_NoVm c = (let (dc, v) = load_cell c in slice_of_loaded (Some dc) v)"

definition slice_NoVmOrd :: "cell \<Rightarrow> slice" where
  "slice_NoVmOrd c = (let (dc, v) = load_cell_nothrow c 1 in slice_of_loaded dc v)"

definition slice_NoVmSpec :: "cell \<Rightarrow> slice" where
  "slice_NoVmSpec c = (let (dc, v) = load_cell_nothrow c 2 in slice_of_loaded dc v)"

definition slice_window :: "slice \<Rightarrow> nat \<Rightarrow> nat \<Rightarrow> nat \<Rightarrow> nat \<Rightarrow> slice" where
  "slice_window cs be re bs rs =
     (let s = cs\<lparr>bits_st := bits_st cs + bs, refs_st := refs_st cs + rs, bits_en := bits_st cs + be,
                 refs_en := refs_st cs + re, s_ptr := None, s_z := 0, s_zd := 0\<rparr>
      in if be > bs then init_preload s else s)"

definition slice_first :: "slice \<Rightarrow> nat \<Rightarrow> nat \<Rightarrow> slice" where
  "slice_first cs be re =
     (let s = cs\<lparr>bits_en := bits_st cs + be, refs_en := refs_st cs + re, s_ptr := None, s_z := 0, s_zd := 0\<rparr>
      in if be \<noteq> 0 then init_preload s else s)"

definition slice_clear :: "slice \<Rightarrow> slice" where
  "slice_clear s = s\<lparr>s_zd := 0, bits_en := 0, bits_st := 0, refs_st := 0, refs_en := 0, s_ptr := None, s_cell := None\<rparr>"

section \<open>The invariant\<close>

text \<open>Of the cache \<open>z\<close> the first \<open>zd\<close> bits are the next bits of the buffer \<open>B\<close>; a bit that is set
  further down is set in the buffer as well, so that reading it again does no harm.\<close>

definition cache_ok :: "bool list \<Rightarrow> nat \<Rightarrow> u64 \<Rightarrow> nat \<Rightarrow> bool" where
  "cache_ok B st z zd \<longleftrightarrow> zd \<le> 64 \<and> st + zd \<le> length B \<and> (\<forall>i < zd. bit z (63 - i) = B ! (st + i))
     \<and> (\<forall>i < 64. zd \<le> i \<and> bit z (63 - i) \<longrightarrow> st + i < length B \<and> B ! (st + i))"

definition slice_ok :: "slice \<Rightarrow> bool" where
  "slice_ok s \<longleftrightarrow>
     bits_st s \<le> bits_en s \<and> refs_st s \<le> refs_en s
     \<and> bits_en s \<le> 8 * length (slice_data s) \<and> refs_en s \<le> length (slice_cell_refs s)
     \<and> (bits_st s < bits_en s \<longrightarrow>
          cache_ok (bits_of (slice_data s)) (bits_st s) (s_z s) (s_zd s) \<and> s_ptr s \<noteq> None
          \<and> (bits_st s + s_zd s < bits_en s \<longrightarrow> bits_st s + s_zd s = 8 * the (s_ptr s)))
     \<and> (bits_st s = bits_en s \<longrightarrow> s_zd s \<le> 64)"

text \<open>The bits and the references that are left.\<close>

definition slice_bits :: "slice \<Rightarrow> bool list" where
  "slice_bits s = take (slice_size s) (drop (bits_st s) (bits_of (slice_data s)))"

definition slice_refs :: "slice \<Rightarrow> cell list" where
  "slice_refs s = take (slice_size_refs s) (drop (refs_st s) (slice_cell_refs s))"

lemma length_slice_bits [simp]: "slice_ok s \<Longrightarrow> length (slice_bits s) = slice_size s"
  by (auto simp: slice_bits_def slice_ok_def slice_size_def)

lemma length_slice_refs [simp]: "slice_ok s \<Longrightarrow> length (slice_refs s) = slice_size_refs s"
  by (auto simp: slice_refs_def slice_ok_def slice_size_refs_def)

subsection \<open>Extending and shifting the cache\<close>

lemma cache_ok_extend:
  assumes c: "cache_ok B st z zd"
    and w: "\<And>i. i < 64 \<Longrightarrow> bit w (63 - i) \<longleftrightarrow> zd \<le> i \<and> i < zd + k \<and> B ! (st + i)"
    and len: "st + zd + k \<le> length B" and zd': "zd \<le> zd'" "zd' \<le> 64" "zd' \<le> zd + k"
  shows "cache_ok B st (z OR w) zd'"
  unfolding cache_ok_def
proof (intro conjI allI impI)
  show "zd' \<le> 64" "st + zd' \<le> length B" using len zd' by linarith+
  have set: "bit z (63 - i) \<Longrightarrow> i < 64 \<Longrightarrow> zd \<le> i \<Longrightarrow> st + i < length B \<and> B ! (st + i)" for i
    using c by (simp add: cache_ok_def)
  have low: "i < zd \<Longrightarrow> bit z (63 - i) = B ! (st + i)" for i using c by (simp add: cache_ok_def)
  show "bit (z OR w) (63 - i) = B ! (st + i)" if i: "i < zd'" for i
  proof -
    have i64: "i < 64" "i < zd + k" using i zd' by linarith+
    show ?thesis
    proof (cases "i < zd")
      case True
      then show ?thesis using low [OF True] w [OF i64(1)] by (simp add: bit_or_iff)
    next
      case False
      then show ?thesis using set [of i] w [OF i64(1)] i64 by (auto simp: bit_or_iff)
    qed
  qed
  fix i assume i: "i < 64" and a: "zd' \<le> i \<and> bit (z OR w) (63 - i)"
  then have zi: "zd \<le> i" and b: "bit z (63 - i) \<or> bit w (63 - i)" using zd' by (auto simp: bit_or_iff)
  from b have "st + i < length B \<and> B ! (st + i)"
  proof
    assume "bit w (63 - i)"
    then have "i < zd + k" "B ! (st + i)" using w [OF i] by blast+
    then show ?thesis using len by linarith
  qed (use set i zi in blast)
  then show "st + i < length B" "B ! (st + i)" by blast+
qed

lemma bit_push_top:
  assumes "i < 64"
  shows "bit (push_bit n (z :: u64)) (63 - i) \<longleftrightarrow> i + n < 64 \<and> bit z (63 - (i + n))"
proof -
  have e: "63 - i - n = 63 - (i + n)" by simp
  have "n \<le> 63 - i \<longleftrightarrow> i + n < 64" "63 - i < 64" using assms by linarith+
  then show ?thesis unfolding bit_push_bit_iff e possible_bit_word by auto
qed

lemma cache_ok_shift:
  assumes c: "cache_ok B st z zd" and n: "n \<le> zd" "n < 64"
  shows "cache_ok B (st + n) (push_bit n z) (zd - n)"
  unfolding cache_ok_def
proof (intro conjI allI impI)
  have zd: "zd \<le> 64" "st + zd \<le> length B" using c by (simp_all add: cache_ok_def)
  show "zd - n \<le> 64" "st + n + (zd - n) \<le> length B" using zd n by linarith+
  show "bit (push_bit n z) (63 - i) = B ! (st + n + i)" if "i < zd - n" for i
  proof -
    have i: "i + n < zd" "i < 64" "i + n < 64" using that zd by linarith+
    have e: "st + n + i = st + (i + n)" by simp
    have "bit z (63 - (i + n)) = B ! (st + (i + n))" using c i(1) by (simp only: cache_ok_def)
    then show ?thesis unfolding e bit_push_top [OF i(2)] using i(3) by blast
  qed
  fix i assume i: "i < 64" and a: "zd - n \<le> i \<and> bit (push_bit n z) (63 - i)"
  have e: "st + n + i = st + (i + n)" by simp
  have "i + n < 64" "bit z (63 - (i + n))" "zd \<le> i + n" using bit_push_top [OF i] a by auto
  then have "st + (i + n) < length B \<and> B ! (st + (i + n))" using c by (simp only: cache_ok_def)
  then show "st + n + i < length B" "B ! (st + n + i)" unfolding e by blast+
qed

subsection \<open>Reading ahead\<close>

lemma bit_load_be32_top:
  assumes p: "p + 4 \<le> length m" and zd: "zd \<le> 32" and i: "i < 64"
  shows "bit (push_bit (32 - zd) (load_be32 m p)) (63 - i) \<longleftrightarrow> zd \<le> i \<and> i < zd + 32 \<and> bits_of m ! (8 * p + (i - zd))"
proof -
  have e: "bit (load_be32 m p) (31 - j) = bits_of m ! (8 * p + j)" if "j < 32" for j
  proof -
    have "low_bits 32 (load_be32 m p) ! j = take 32 (drop (8 * p) (bits_of m)) ! j"
      by (simp only: low_bits_load_be32 [OF p])
    then show ?thesis using that p by (simp add: nth_low_bits)
  qed
  have b: "bit (push_bit (32 - zd) (load_be32 m p)) (63 - i) \<longleftrightarrow> i + (32 - zd) < 64 \<and> bit (load_be32 m p) (63 - (i + (32 - zd)))"
    by (rule bit_push_top [OF i])
  show ?thesis
  proof (cases "zd \<le> i \<and> i < zd + 32")
    case True
    then have f: "63 - (i + (32 - zd)) = 31 - (i - zd)" "i + (32 - zd) < 64" "i - zd < 32" using zd by linarith+
    show ?thesis unfolding b f(1) e [OF f(3)] using True f(2) by blast
  next
    case False
    have "\<not> bit (load_be32 m p) (63 - (i + (32 - zd)))" if "i < zd"
      using that zd i bit_load_be32_less [of m p "63 - (i + (32 - zd))"] by linarith
    then show ?thesis using b False by (cases "i < zd") auto
  qed
qed

lemma bit_byte_top:
  assumes p: "p < length m" and zd: "zd \<le> 56" and i: "i < 64"
  shows "bit (push_bit (56 - zd) (ucast (m ! p)) :: u64) (63 - i)
     \<longleftrightarrow> zd \<le> i \<and> i < zd + 8 \<and> bits_of m ! (8 * p + (i - zd))"
proof -
  have b: "bit (push_bit (56 - zd) (ucast (m ! p)) :: u64) (63 - i)
      \<longleftrightarrow> i + (56 - zd) < 64 \<and> bit (m ! p) (63 - (i + (56 - zd)))"
    unfolding bit_push_top [OF i] by (auto simp: bit_simps)
  show ?thesis
  proof (cases "zd \<le> i \<and> i < zd + 8")
    case True
    then have e: "63 - (i + (56 - zd)) = 7 - (i - zd)" "i + (56 - zd) < 64" "i - zd < 8" using zd by linarith+
    have "bits_of m ! (8 * p + (i - zd)) = bit (m ! p) (7 - (i - zd))" using e(3) p by (simp add: nth_bits_of)
    then show ?thesis using b e True by simp
  next
    case False
    have "\<not> bit (m ! p) (63 - (i + (56 - zd)))" if "i < zd"
      using that zd i bit_byte_less [of "m ! p" "63 - (i + (56 - zd))"] by linarith
    then show ?thesis using b False by (cases "i < zd") auto
  qed
qed

lemma bit_byte_low:
  assumes p: "p < length m" and zd: "56 < zd" "zd \<le> 64" and i: "i < 64"
  shows "bit (ucast (drop_bit (zd - 56) (m ! p)) :: u64) (63 - i)
     \<longleftrightarrow> zd \<le> i \<and> i < 64 \<and> bits_of m ! (8 * p + (i - zd))"
proof -
  have b: "bit (ucast (drop_bit (zd - 56) (m ! p)) :: u64) (63 - i) \<longleftrightarrow> bit (m ! p) (zd - 56 + (63 - i))"
    using i bit_byte_less [of "m ! p" "zd - 56 + (63 - i)"] by (auto simp: bit_simps)
  show ?thesis
  proof (cases "zd \<le> i")
    case True
    then have e: "zd - 56 + (63 - i) = 7 - (i - zd)" "i - zd < 8" using zd i by linarith+
    have "bits_of m ! (8 * p + (i - zd)) = bit (m ! p) (7 - (i - zd))" using e(2) p by (simp add: nth_bits_of)
    then show ?thesis using b e True i by simp
  next
    case False
    have "\<not> bit (m ! p) (zd - 56 + (63 - i))"
      using False zd i bit_byte_less [of "m ! p" "zd - 56 + (63 - i)"] by linarith
    then show ?thesis using b False by simp
  qed
qed

text \<open>The loop keeps the cache right, and reaches \<open>req_bits\<close> bits unless it ends with all 64.\<close>

lemma preload_loop_correct:
  assumes "preload_loop m req p z zd remain = (p', z', zd')"
    and "cache_ok (bits_of m) st z zd" and "remain > 0 \<longrightarrow> st + zd = 8 * p"
    and "st + zd + remain \<le> 8 * length m" and "req \<le> 64" and "req \<le> zd + remain"
  shows "cache_ok (bits_of m) st z' zd' \<and> zd \<le> zd' \<and> zd' \<le> zd + remain
     \<and> (zd' < zd + remain \<longrightarrow> st + zd' = 8 * p') \<and> (req \<le> 56 \<longrightarrow> req \<le> zd')
     \<and> (\<forall>i < req. bit z' (63 - i) = bits_of m ! (st + i))"
  using assms
proof (induction m req p z zd remain rule: preload_loop.induct)
  case (1 m req p z zd remain)
  have zd64: "zd \<le> 64" and low: "\<forall>i < zd. bit z (63 - i) = bits_of m ! (st + i)"
    using "1.prems"(2) by (simp_all add: cache_ok_def)
  consider "\<not> (zd < req \<and> remain > 0)" | "zd < req \<and> remain > 0" "zd > 56"
    | "zd < req \<and> remain > 0" "\<not> zd > 56" "remain \<le> 8" | "zd < req \<and> remain > 0" "\<not> zd > 56" "\<not> remain \<le> 8"
    by linarith
  then show ?case
  proof cases
    case 1
    then have "(p', z', zd') = (p, z, zd)" "req \<le> zd"
      using "1.prems"(1,6) by (auto simp: preload_loop.simps [of m req p])
    then show ?thesis using "1.prems" low by auto
  next
    case 2
    then have r: "p' = p" "z' = z OR ucast (drop_bit (zd - 56) (m ! p))" "zd' = zd"
      using "1.prems"(1) by (auto simp: preload_loop.simps [of m req p])
    have st: "st + zd = 8 * p" using "1.prems"(3) 2(1) by blast
    then have pl: "p < length m" using "1.prems"(4) 2(1) by linarith
    have len: "st + 64 \<le> length (bits_of m)" if "64 \<le> zd + 8" using st pl that by simp
    have w: "bit (ucast (drop_bit (zd - 56) (m ! p)) :: u64) (63 - i)
        \<longleftrightarrow> zd \<le> i \<and> i < zd + (64 - zd) \<and> bits_of m ! (st + i)" if "i < 64" for i
    proof -
      have "zd \<le> i \<Longrightarrow> 8 * p + (i - zd) = st + i" using st by linarith
      then show ?thesis unfolding bit_byte_low [OF pl 2(2) zd64 that] using zd64 by auto
    qed
    have l64: "st + zd + (64 - zd) \<le> length (bits_of m)" using st pl zd64 2(2) by simp
    have "cache_ok (bits_of m) st z' zd"
      unfolding r by (rule cache_ok_extend [OF "1.prems"(2) w l64]) (use zd64 in auto)
    moreover have "cache_ok (bits_of m) st z' 64"
      unfolding r by (rule cache_ok_extend [OF "1.prems"(2) w l64]) (use zd64 in auto)
    then have "\<forall>i < req. bit z' (63 - i) = bits_of m ! (st + i)"
      using "1.prems"(5) by (simp add: cache_ok_def)
    ultimately show ?thesis using r st 2 by auto
  next
    case 3
    have st: "st + zd = 8 * p" using "1.prems"(3) 3(1) by blast
    then have pl: "p < length m" using "1.prems"(4) 3(1) by linarith
    have r: "p' = p + 1" "z' = z OR push_bit (56 - zd) (ucast (m ! p))" "zd' = zd + remain"
      using "1.prems"(1) 3 by (auto simp: preload_loop.simps [of m req p] Let_def)
    have zd56: "zd \<le> 56" using 3(2) by simp
    have w: "bit (push_bit (56 - zd) (ucast (m ! p)) :: u64) (63 - i)
        \<longleftrightarrow> zd \<le> i \<and> i < zd + 8 \<and> bits_of m ! (st + i)" if "i < 64" for i
    proof -
      have "zd \<le> i \<Longrightarrow> 8 * p + (i - zd) = st + i" using st by linarith
      then show ?thesis unfolding bit_byte_top [OF pl zd56 that] by auto
    qed
    have l8: "st + zd + 8 \<le> length (bits_of m)" using st pl by simp
    have c: "cache_ok (bits_of m) st z' zd'"
      unfolding r by (rule cache_ok_extend [OF "1.prems"(2) w l8]) (use 3 zd56 in auto)
    then have "\<forall>i < req. bit z' (63 - i) = bits_of m ! (st + i)"
      using "1.prems"(6) r(3) by (simp add: cache_ok_def)
    with c r "1.prems"(6) show ?thesis by auto
  next
    case 4
    have st: "st + zd = 8 * p" using "1.prems"(3) 4(1) by blast
    then have pl: "p < length m" using "1.prems"(4) 4(1) by linarith
    have zd56: "zd \<le> 56" using 4(2) by simp
    define z1 where "z1 = z OR push_bit (56 - zd) (ucast (m ! p))"
    have rec: "preload_loop m req (p + 1) z1 (zd + 8) (remain - 8) = (p', z', zd')"
      using "1.prems"(1) 4 by (auto simp: preload_loop.simps [of m req p] Let_def z1_def)
    have w: "bit (push_bit (56 - zd) (ucast (m ! p)) :: u64) (63 - i)
        \<longleftrightarrow> zd \<le> i \<and> i < zd + 8 \<and> bits_of m ! (st + i)" if "i < 64" for i
    proof -
      have "zd \<le> i \<Longrightarrow> 8 * p + (i - zd) = st + i" using st by linarith
      then show ?thesis unfolding bit_byte_top [OF pl zd56 that] by auto
    qed
    have l8: "st + zd + 8 \<le> length (bits_of m)" using st pl by simp
    have c: "cache_ok (bits_of m) st z1 (zd + 8)"
      unfolding z1_def by (rule cache_ok_extend [OF "1.prems"(2) w l8]) (use zd56 in auto)
    have nn: "\<not> \<not> (zd < req \<and> remain > 0)" using 4(1) by simp
    have pre: "remain - 8 > 0 \<longrightarrow> st + (zd + 8) = 8 * (p + 1)" "st + (zd + 8) + (remain - 8) \<le> 8 * length m"
      "req \<le> zd + 8 + (remain - 8)" using st "1.prems"(4,6) 4(3) by auto
    have IH: "cache_ok (bits_of m) st z' zd' \<and> zd + 8 \<le> zd' \<and> zd' \<le> zd + 8 + (remain - 8)
        \<and> (zd' < zd + 8 + (remain - 8) \<longrightarrow> st + zd' = 8 * p') \<and> (req \<le> 56 \<longrightarrow> req \<le> zd')
        \<and> (\<forall>i < req. bit z' (63 - i) = bits_of m ! (st + i))"
      by (rule "1.IH" [OF nn 4(2) z1_def 4(3) rec c pre(1,2) "1.prems"(5) pre(3)])
    then show ?thesis using 4(3) by auto
  qed
qed

lemma slice_ok_cache:
  assumes "slice_ok s" and "bits_st s < bits_en s" and "cache_ok (bits_of (slice_data s)) (bits_st s) z zd"
    and "bits_st s + zd < bits_en s \<longrightarrow> bits_st s + zd = 8 * p"
  shows "slice_ok (s\<lparr>s_ptr := Some p, s_z := z, s_zd := zd\<rparr>)"
  using assms by (simp add: slice_ok_def slice_data_def slice_cell_refs_def)

lemma slice_view_cache [simp]:
  "slice_bits (s\<lparr>s_ptr := p, s_z := z, s_zd := zd\<rparr>) = slice_bits s"
  "slice_refs (s\<lparr>s_ptr := p, s_z := z, s_zd := zd\<rparr>) = slice_refs s"
  "slice_size (s\<lparr>s_ptr := p, s_z := z, s_zd := zd\<rparr>) = slice_size s"
  "slice_size_refs (s\<lparr>s_ptr := p, s_z := z, s_zd := zd\<rparr>) = slice_size_refs s"
  "slice_data (s\<lparr>s_ptr := p, s_z := z, s_zd := zd\<rparr>) = slice_data s"
  by (simp_all add: slice_bits_def slice_refs_def slice_size_def slice_size_refs_def slice_data_def slice_cell_refs_def)

lemma nth_slice_bits: "slice_ok s \<Longrightarrow> i < slice_size s \<Longrightarrow> slice_bits s ! i = bits_of (slice_data s) ! (bits_st s + i)"
  by (auto simp: slice_bits_def slice_ok_def slice_size_def)

lemma preload_at_least_correct:
  assumes ok: "slice_ok s" and hv: "slice_have s req" and req: "0 < req" "req \<le> 64"
  shows "\<exists>p z zd. preload_at_least s req = s\<lparr>s_ptr := Some p, s_z := z, s_zd := zd\<rparr>
     \<and> slice_ok (s\<lparr>s_ptr := Some p, s_z := z, s_zd := zd\<rparr>)
     \<and> (req \<le> 56 \<longrightarrow> req \<le> zd) \<and> (\<forall>i < req. bit z (63 - i) = slice_bits s ! i)"
proof -
  define m where "m = slice_data s"
  have st: "bits_st s < bits_en s" using hv req by (simp add: slice_have_def slice_size_def)
  then have c: "cache_ok (bits_of m) (bits_st s) (s_z s) (s_zd s)" and pn: "s_ptr s \<noteq> None"
    and pp: "bits_st s + s_zd s < bits_en s \<longrightarrow> bits_st s + s_zd s = 8 * the (s_ptr s)"
    and en: "bits_en s \<le> 8 * length m"
    using ok by (auto simp: slice_ok_def m_def)
  obtain p where p: "s_ptr s = Some p" using pn by auto
  have sb: "slice_bits s ! i = bits_of m ! (bits_st s + i)" if "i < req" for i
    using that hv nth_slice_bits [OF ok, of i] by (simp add: slice_have_def m_def)
  have zd64: "s_zd s \<le> 64" and low: "\<forall>i < s_zd s. bit (s_z s) (63 - i) = bits_of m ! (bits_st s + i)"
    using c by (simp_all add: cache_ok_def)
  show ?thesis
  proof (cases "req \<le> s_zd s")
    case True
    have same: "s\<lparr>s_ptr := Some p, s_z := s_z s, s_zd := s_zd s\<rparr> = s" using p by simp
    have "preload_at_least s req = s" using True by (simp add: preload_at_least_def)
    then show ?thesis using True ok low sb
      by - (rule exI [of _ p], rule exI [of _ "s_z s"], rule exI [of _ "s_zd s"], unfold same, auto)
  next
    case False
    define remain where "remain = bits_en s - bits_st s - s_zd s"
    have rem: "bits_st s + s_zd s + remain = bits_en s" "0 < remain" "req \<le> s_zd s + remain"
      using False hv st by (auto simp: slice_have_def slice_size_def remain_def)
    then have sp: "bits_st s + s_zd s = 8 * p" using pp p by simp
    have fin: ?thesis if r: "preload_at_least s req = s\<lparr>s_ptr := Some p', s_z := z', s_zd := zd'\<rparr>"
      and I: "cache_ok (bits_of m) (bits_st s) z' zd'" "bits_st s + zd' < bits_en s \<longrightarrow> bits_st s + zd' = 8 * p'"
        "req \<le> 56 \<longrightarrow> req \<le> zd'" "\<forall>i < req. bit z' (63 - i) = bits_of m ! (bits_st s + i)" for p' z' zd'
    proof -
      have "slice_ok (s\<lparr>s_ptr := Some p', s_z := z', s_zd := zd'\<rparr>)"
        by (rule slice_ok_cache [OF ok st I(1) [unfolded m_def] I(2)])
      then show ?thesis using r I(3,4) sb by blast
    qed
    have loop: ?thesis if s0: "preload_at_least s req = (let (ptr, z, zd) = preload_loop m req p0 z0 zd0 rem0
          in s\<lparr>s_ptr := Some ptr, s_z := z, s_zd := zd\<rparr>)"
      and c0: "cache_ok (bits_of m) (bits_st s) z0 zd0" and p0: "rem0 > 0 \<longrightarrow> bits_st s + zd0 = 8 * p0"
      and r0: "bits_st s + zd0 + rem0 = bits_en s" "req \<le> zd0 + rem0" for p0 z0 zd0 rem0
    proof -
      obtain p' z' zd' where l: "preload_loop m req p0 z0 zd0 rem0 = (p', z', zd')" by (metis prod_cases3)
      have "bits_st s + zd0 + rem0 \<le> 8 * length m" using r0(1) en by simp
      note L = preload_loop_correct [OF l c0 p0 this req(2) r0(2)]
      show ?thesis
      proof (rule fin)
        show "preload_at_least s req = s\<lparr>s_ptr := Some p', s_z := z', s_zd := zd'\<rparr>" using s0 l by simp
        show "bits_st s + zd' < bits_en s \<longrightarrow> bits_st s + zd' = 8 * p'" using L r0(1) by auto
      qed (use L in auto)
    qed
    show ?thesis
    proof (cases "s_zd s \<le> 32 \<and> remain > 24")
      case True
      define z where "z = s_z s OR push_bit (32 - s_zd s) (load_be32 m p)"
      have p4: "p + 4 \<le> length m" using sp rem(1) en True by linarith
      have w: "bit (push_bit (32 - s_zd s) (load_be32 m p)) (63 - i)
          \<longleftrightarrow> s_zd s \<le> i \<and> i < s_zd s + 32 \<and> bits_of m ! (bits_st s + i)" if "i < 64" for i
      proof -
        have "s_zd s \<le> i \<Longrightarrow> 8 * p + (i - s_zd s) = bits_st s + i" using sp by linarith
        then show ?thesis using bit_load_be32_top [OF p4 _ that, of "s_zd s"] True by auto
      qed
      have l32: "bits_st s + s_zd s + 32 \<le> length (bits_of m)" using sp p4 by simp
      show ?thesis
      proof (cases "remain \<le> 32")
        case r32: True
        have cz: "cache_ok (bits_of m) (bits_st s) z (s_zd s + remain)"
          unfolding z_def by (rule cache_ok_extend [OF c w l32]) (use True r32 in auto)
        show ?thesis
        proof (rule fin)
          show "preload_at_least s req = s\<lparr>s_ptr := Some (p + 4), s_z := z, s_zd := s_zd s + remain\<rparr>"
            unfolding preload_at_least_def Let_def m_def [symmetric] remain_def [symmetric] p option.sel z_def [symmetric]
            using False True r32 by simp
          show "\<forall>i < req. bit z (63 - i) = bits_of m ! (bits_st s + i)"
            using cz rem(3) by (simp add: cache_ok_def)
        qed (use cz rem in auto)
      next
        case r32: False
        have cz: "cache_ok (bits_of m) (bits_st s) z (s_zd s + 32)"
          unfolding z_def by (rule cache_ok_extend [OF c w l32]) (use True in auto)
        show ?thesis
        proof (rule loop)
          show "preload_at_least s req = (let (ptr, z, zd) = preload_loop m req (p + 4) z (s_zd s + 32) (remain - 32)
              in s\<lparr>s_ptr := Some ptr, s_z := z, s_zd := zd\<rparr>)"
            unfolding preload_at_least_def Let_def m_def [symmetric] remain_def [symmetric] p option.sel z_def [symmetric]
            using False True r32 by simp
        qed (use cz sp rem r32 in auto)
      qed
    next
      case nb: False
      show ?thesis
      proof (rule loop)
        show "preload_at_least s req = (let (ptr, z, zd) = preload_loop m req p (s_z s) (s_zd s) remain
            in s\<lparr>s_ptr := Some ptr, s_z := z, s_zd := zd\<rparr>)"
          unfolding preload_at_least_def Let_def m_def [symmetric] remain_def [symmetric] p option.sel
          using False nb by (simp only: if_False)
      qed (use c sp rem in auto)
    qed
  qed
qed

text \<open>The assertion of \<open>preload_at_least\<close> holds wherever the code calls it.\<close>

lemma preload_assert_holds:
  "slice_ok s \<Longrightarrow> slice_have s req \<Longrightarrow> 0 < req \<Longrightarrow> req \<le> 64 \<Longrightarrow> preload_assert s req"
  by (auto simp: preload_assert_def slice_ok_def slice_have_def slice_size_def)

subsection \<open>Moving on\<close>

lemma init_preload_ok:
  assumes "bits_st s \<le> bits_en s" "refs_st s \<le> refs_en s" "bits_en s \<le> 8 * length (slice_data s)"
    "refs_en s \<le> length (slice_cell_refs s)"
  shows "slice_ok (init_preload s)" and "slice_bits (init_preload s) = slice_bits s"
    and "slice_refs (init_preload s) = slice_refs s"
proof -
  show "slice_bits (init_preload s) = slice_bits s" "slice_refs (init_preload s) = slice_refs s"
    by (simp_all add: init_preload_def Let_def slice_bits_def slice_refs_def slice_size_def slice_size_refs_def
        slice_data_def slice_cell_refs_def)
  show "slice_ok (init_preload s)"
  proof (cases "bits_st s \<ge> bits_en s")
    case True
    then show ?thesis using assms
      by (simp add: init_preload_def slice_ok_def slice_data_def slice_cell_refs_def)
  next
    case False
    define m where "m = slice_data s"
    define p where "p = bits_st s div 8"
    define r where "r = bits_st s mod 8"
    have pr: "bits_st s = 8 * p + r" "r < 8" by (simp_all add: p_def r_def)
    have pl: "p < length m" using pr False assms(3) by (simp add: m_def)
    define t where "t = min (8 - r) (slice_size s)"
    define w :: u64 where "w = push_bit (56 + r) (ucast (m ! p))"
    have b: "bit w (63 - i) \<longleftrightarrow> i + r < 8 \<and> bits_of m ! (bits_st s + i)" if i: "i < 64" for i
    proof -
      have "bit w (63 - i) \<longleftrightarrow> i + (56 + r) < 64 \<and> bit (m ! p) (63 - (i + (56 + r)))"
        unfolding w_def bit_push_top [OF i] by (auto simp: bit_simps)
      moreover have "63 - (i + (56 + r)) = 7 - (i + r)" by simp
      moreover have "bits_of m ! (bits_st s + i) = bit (m ! p) (7 - (i + r))" if "i + r < 8"
      proof -
        have e: "bits_st s + i = 8 * p + (i + r)" using pr(1) by simp
        show ?thesis unfolding e using that pl by (simp add: nth_bits_of)
      qed
      ultimately show ?thesis by auto
    qed
    have "cache_ok (bits_of m) (bits_st s) w t"
      unfolding cache_ok_def
    proof (intro conjI allI impI)
      show "t \<le> 64" by (simp add: t_def)
      have "bits_st s + (8 - r) \<le> 8 * length m" using pr pl by linarith
      then show "bits_st s + t \<le> length (bits_of m)" by (simp add: t_def)
      show "bit w (63 - i) = bits_of m ! (bits_st s + i)" if "i < t" for i
      proof -
        have "i < 64" "i + r < 8" using that pr(2) by (auto simp: t_def)
        then show ?thesis using b by blast
      qed
      fix i assume "i < 64" and "t \<le> i \<and> bit w (63 - i)"
      then have "i + r < 8" "bits_of m ! (bits_st s + i)" using b by auto
      then show "bits_st s + i < length (bits_of m)" "bits_of m ! (bits_st s + i)" using pr pl by simp_all
    qed
    moreover have "init_preload s = s\<lparr>s_ptr := Some (p + 1), s_z := w, s_zd := t\<rparr>"
    proof -
      have "64 - (8 - r) = 56 + r" using pr(2) by simp
      then show ?thesis
        unfolding init_preload_def Let_def p_def [symmetric] r_def [symmetric] m_def [symmetric] t_def [symmetric] w_def
        using False by simp
    qed
    moreover have "bits_st s + t < bits_en s \<longrightarrow> bits_st s + t = 8 * (p + 1)"
      using pr by (auto simp: t_def slice_size_def min_def)
    ultimately show ?thesis using assms False
      by (simp add: slice_ok_def slice_data_def slice_cell_refs_def m_def)
  qed
qed

lemma slice_advance_correct:
  assumes ok: "slice_ok s"
  shows "fst (slice_advance s n) = (n \<le> slice_size s)"
    and "\<not> n \<le> slice_size s \<Longrightarrow> snd (slice_advance s n) = s"
    and "n \<le> slice_size s \<Longrightarrow> slice_ok (snd (slice_advance s n))
      \<and> slice_bits (snd (slice_advance s n)) = drop n (slice_bits s) \<and> slice_refs (snd (slice_advance s n)) = slice_refs s"
proof -
  show "fst (slice_advance s n) = (n \<le> slice_size s)" by (simp add: slice_advance_def slice_have_def Let_def)
  show "snd (slice_advance s n) = s" if "\<not> n \<le> slice_size s"
    using that by (simp add: slice_advance_def slice_have_def)
  assume n: "n \<le> slice_size s"
  define s1 where "s1 = s\<lparr>bits_st := bits_st s + n\<rparr>"
  have bnd: "bits_st s1 \<le> bits_en s1" "refs_st s1 \<le> refs_en s1" "bits_en s1 \<le> 8 * length (slice_data s1)"
    "refs_en s1 \<le> length (slice_cell_refs s1)"
    using ok n by (auto simp: s1_def slice_ok_def slice_size_def slice_data_def slice_cell_refs_def)
  have view: "slice_bits s1 = drop n (slice_bits s)" "slice_refs s1 = slice_refs s"
    using ok n by (auto simp: s1_def slice_bits_def slice_refs_def slice_size_def slice_size_refs_def slice_data_def
        slice_cell_refs_def slice_ok_def drop_take add.commute)
  show "slice_ok (snd (slice_advance s n)) \<and> slice_bits (snd (slice_advance s n)) = drop n (slice_bits s)
      \<and> slice_refs (snd (slice_advance s n)) = slice_refs s"
  proof (cases "s_zd s1 \<le> n")
    case True
    then have "snd (slice_advance s n) = init_preload s1"
      using n by (simp add: slice_advance_def slice_have_def Let_def s1_def)
    then show ?thesis using init_preload_ok [OF bnd] view by simp
  next
    case False
    then have zd: "n < s_zd s" by (simp add: s1_def)
    have r: "snd (slice_advance s n) = s1\<lparr>s_zd := s_zd s - n, s_z := push_bit n (s_z s)\<rparr>"
      using n False by (simp add: slice_advance_def slice_have_def Let_def s1_def)
    have v: "slice_bits (snd (slice_advance s n)) = slice_bits s1" "slice_refs (snd (slice_advance s n)) = slice_refs s1"
      unfolding r by (simp_all add: slice_bits_def slice_refs_def slice_size_def slice_size_refs_def slice_data_def slice_cell_refs_def)
    have "slice_ok (snd (slice_advance s n))"
    proof (cases "bits_st s < bits_en s")
      case True
      then have c: "cache_ok (bits_of (slice_data s)) (bits_st s) (s_z s) (s_zd s)" and p: "s_ptr s \<noteq> None"
        and pp: "bits_st s + s_zd s < bits_en s \<longrightarrow> bits_st s + s_zd s = 8 * the (s_ptr s)"
        using ok by (auto simp: slice_ok_def)
      have "n < 64" using c zd by (simp add: cache_ok_def)
      then have "cache_ok (bits_of (slice_data s)) (bits_st s + n) (push_bit n (s_z s)) (s_zd s - n)"
        using cache_ok_shift [OF c, of n] zd by simp
      then show ?thesis unfolding r slice_ok_def using bnd p pp zd c
        by (auto simp: s1_def slice_data_def slice_cell_refs_def cache_ok_def)
    next
      case False
      then show ?thesis unfolding r slice_ok_def using bnd ok
        by (auto simp: s1_def slice_data_def slice_cell_refs_def slice_ok_def)
    qed
    then show ?thesis using v view by simp
  qed
qed

end
