(* ===== verification/Slice_Ops.thy ===== *)
theory Slice_Ops
  imports Cell_Slice
begin

text \<open>
  The operations of \<open>CellSlice\<close> on the bits and the references that are left
  (\<open>crypto/vm/cells/CellSlice.cpp\<close>, \<open>CellSlice.h\<close>). An operation that fails through its result gives
  the failure value of the code with the unchanged slice. Where the code writes to a reference
  parameter, the value written is an option, \<open>None\<close> when the parameter is left alone. The usage
  tree of a slice is not modelled: its node is taken to be empty.
\<close>

section \<open>Moving on\<close>

definition advance_refs :: "slice \<Rightarrow> nat \<Rightarrow> bool \<times> slice" where
  "advance_refs s refs =
     (if slice_have_refs s refs then (True, s\<lparr>refs_st := refs_st s + refs\<rparr>) else (False, s))"

definition advance_ext :: "slice \<Rightarrow> nat \<Rightarrow> nat \<Rightarrow> bool \<times> slice" where
  "advance_ext s bits refs =
     (if slice_have s bits \<and> slice_have_refs s refs
      then slice_advance (s\<lparr>refs_st := refs_st s + refs\<rparr>) bits else (False, s))"

text \<open>The packed argument is taken apart with the bits in the high half, unlike in \<open>size_ext\<close>,
  \<open>have_ext\<close>, \<open>skip_ext\<close> and \<open>only_ext\<close>.\<close>

definition advance_packed :: "slice \<Rightarrow> u32 \<Rightarrow> bool \<times> slice" where
  "advance_packed s bits_refs = advance_ext s (unat (drop_bit 16 bits_refs)) (unat (bits_refs AND 0xffff))"

definition have_packed :: "slice \<Rightarrow> u32 \<Rightarrow> bool" where
  "have_packed s ext_size \<longleftrightarrow> slice_have2 s (unat (ext_size AND 0xffff)) (unat (drop_bit 16 ext_size))"

definition skip_first :: "slice \<Rightarrow> nat \<Rightarrow> nat \<Rightarrow> bool \<times> slice" where
  "skip_first s bits refs =
     (if \<not> slice_have2 s bits refs then (False, s) else slice_advance (s\<lparr>refs_st := refs_st s + refs\<rparr>) bits)"

definition skip_packed :: "slice \<Rightarrow> u32 \<Rightarrow> bool \<times> slice" where
  "skip_packed s sz = skip_first s (unat (sz AND 0xffff)) (unat (drop_bit 16 sz))"

definition only_first :: "slice \<Rightarrow> nat \<Rightarrow> nat \<Rightarrow> bool \<times> slice" where
  "only_first s bits refs =
     (if \<not> slice_have2 s bits refs then (False, s)
      else (True, s\<lparr>bits_en := bits_st s + bits, refs_en := refs_st s + refs\<rparr>))"

definition only_packed :: "slice \<Rightarrow> u32 \<Rightarrow> bool \<times> slice" where
  "only_packed s sz = only_first s (unat (sz AND 0xffff)) (unat (drop_bit 16 sz))"

definition only_last :: "slice \<Rightarrow> nat \<Rightarrow> nat \<Rightarrow> bool \<times> slice" where
  "only_last s bits refs =
     (if \<not> slice_have2 s bits refs then (False, s)
      else let s1 = s\<lparr>refs_st := refs_en s - refs\<rparr> in slice_advance s1 (slice_size s1 - bits))"

definition skip_last :: "slice \<Rightarrow> nat \<Rightarrow> nat \<Rightarrow> bool \<times> slice" where
  "skip_last s bits refs =
     (if \<not> slice_have2 s bits refs then (False, s)
      else (True, s\<lparr>bits_en := bits_en s - bits, refs_en := refs_en s - refs\<rparr>))"

definition cut_tail :: "slice \<Rightarrow> slice \<Rightarrow> bool \<times> slice" where
  "cut_tail s tail_cs = skip_last s (slice_size tail_cs) (slice_size_refs tail_cs)"

section \<open>Fetching numbers\<close>

definition fetch_ulong_eof :: u64 where
  "fetch_ulong_eof = - 1"

definition fetch_long_eof :: u64 where
  "fetch_long_eof = push_bit 63 (- 1)"

definition prefetch_octet :: "slice \<Rightarrow> int \<times> slice" where
  "prefetch_octet s =
     (if \<not> slice_have s 8 then (- 1, s)
      else let s1 = preload_at_least s 8 in (uint (drop_bit 56 (s_z s1)), s1))"

text \<open>The cache is shifted, but the position \<open>bits_st\<close> stays.\<close>

definition fetch_octet :: "slice \<Rightarrow> int \<times> slice" where
  "fetch_octet s =
     (if \<not> slice_have s 8 then (- 1, s)
      else let s1 = preload_at_least s 8
           in (uint (drop_bit 56 (s_z s1)), s1\<lparr>s_z := push_bit 8 (s_z s1), s_zd := s_zd s1 - 8\<rparr>))"

definition fetch_ulong :: "slice \<Rightarrow> nat \<Rightarrow> u64 \<times> slice" where
  "fetch_ulong s bits =
     (if \<not> slice_have s bits \<or> bits > 64 then (fetch_ulong_eof, s)
      else if bits = 0 then (0, s)
      else if bits \<le> 56 then
        let s1 = preload_at_least s bits; res = drop_bit (64 - bits) (s_z s1)
        in (res, s1\<lparr>s_z := push_bit bits (s_z s1), s_zd := s_zd s1 - bits, bits_st := bits_st s1 + bits\<rparr>)
      else
        let s1 = preload_at_least s bits; res = drop_bit (64 - bits) (s_z s1)
        in (res, snd (slice_advance s1 bits)))"

definition prefetch_ulong :: "slice \<Rightarrow> nat \<Rightarrow> u64 \<times> slice" where
  "prefetch_ulong s bits =
     (if \<not> slice_have s bits \<or> bits > 64 then (fetch_ulong_eof, s)
      else if bits = 0 then (0, s)
      else let s1 = preload_at_least s bits in (drop_bit (64 - bits) (s_z s1), s1))"

text \<open>The number of bits is lowered to what is left; the result is \<open>z\<close> itself.\<close>

definition prefetch_ulong_top :: "slice \<Rightarrow> nat \<Rightarrow> u64 \<times> nat \<times> slice" where
  "prefetch_ulong_top s bits =
     (let bits = (if bits > slice_size s then slice_size s else bits)
      in if bits = 0 then (0, 0, s) else let s1 = preload_at_least s bits in (s_z s1, bits, s1))"

definition fetch_long :: "slice \<Rightarrow> nat \<Rightarrow> u64 \<times> slice" where
  "fetch_long s bits =
     (if \<not> slice_have s bits \<or> bits > 64 then (fetch_long_eof, s)
      else if bits = 0 then (0, s)
      else if bits \<le> 56 then
        let s1 = preload_at_least s bits; res = signed_drop_bit (64 - bits) (s_z s1)
        in (res, s1\<lparr>s_z := push_bit bits (s_z s1), s_zd := s_zd s1 - bits, bits_st := bits_st s1 + bits\<rparr>)
      else
        let s1 = preload_at_least s bits; res = signed_drop_bit (64 - bits) (s_z s1)
        in (res, snd (slice_advance s1 bits)))"

definition prefetch_long :: "slice \<Rightarrow> nat \<Rightarrow> u64 \<times> slice" where
  "prefetch_long s bits =
     (if \<not> slice_have s bits \<or> bits > 64 then (fetch_long_eof, s)
      else if bits = 0 then (0, s)
      else let s1 = preload_at_least s bits in (signed_drop_bit (64 - bits) (s_z s1), s1))"

type_synonym 'a fetched = "bool \<times> 'a option \<times> slice"

definition fetch_long_bool :: "slice \<Rightarrow> nat \<Rightarrow> u64 fetched" where
  "fetch_long_bool s bits =
     (if bits > 64 \<or> \<not> slice_have s bits then (False, None, s)
      else let (res, s1) = fetch_long s bits in (True, Some res, s1))"

definition prefetch_long_bool :: "slice \<Rightarrow> nat \<Rightarrow> u64 fetched" where
  "prefetch_long_bool s bits =
     (if bits > 64 \<or> \<not> slice_have s bits then (False, None, s)
      else let (res, s1) = prefetch_long s bits in (True, Some res, s1))"

definition fetch_ulong_bool :: "slice \<Rightarrow> nat \<Rightarrow> u64 fetched" where
  "fetch_ulong_bool s bits =
     (if bits > 64 \<or> \<not> slice_have s bits then (False, None, s)
      else let (res, s1) = fetch_ulong s bits in (True, Some res, s1))"

definition prefetch_ulong_bool :: "slice \<Rightarrow> nat \<Rightarrow> u64 fetched" where
  "prefetch_ulong_bool s bits =
     (if bits > 64 \<or> \<not> slice_have s bits then (False, None, s)
      else let (res, s1) = prefetch_ulong s bits in (True, Some res, s1))"

definition fetch_bool_to :: "slice \<Rightarrow> bool fetched" where
  "fetch_bool_to s =
     (if \<not> slice_have s 1 then (False, None, s)
      else let (res, s1) = fetch_ulong s 1 in (True, Some (res \<noteq> 0), s1))"

text \<open>The version that sets or clears the bits of a mask in \<open>res\<close>.\<close>

definition fetch_bool_mask :: "slice \<Rightarrow> u32 \<Rightarrow> u32 \<Rightarrow> bool \<times> u32 \<times> slice" where
  "fetch_bool_mask s res msk =
     (if \<not> slice_have s 1 then (False, res, s)
      else let (v, s1) = fetch_ulong s 1
           in if v \<noteq> 0 then (True, res OR msk, s1) else (True, res AND NOT msk, s1))"

text \<open>\<open>fetch_uint_to\<close> for the 64-bit and 32-bit, unsigned and signed targets; the versions for
  \<open>long\<close> are those for 64 bits. A signed target refuses a number that comes out negative, after
  having written it and moved on.\<close>

definition fetch_uint_to_u64 :: "slice \<Rightarrow> nat \<Rightarrow> u64 fetched" where
  "fetch_uint_to_u64 s bits =
     (if bits > 64 \<or> \<not> slice_have s bits then (False, None, s)
      else let (res, s1) = fetch_ulong s bits in (True, Some res, s1))"

definition fetch_uint_to_i64 :: "slice \<Rightarrow> nat \<Rightarrow> u64 fetched" where
  "fetch_uint_to_i64 s bits =
     (if bits > 64 \<or> \<not> slice_have s bits then (False, None, s)
      else let (res, s1) = fetch_ulong s bits in (sint res \<ge> 0, Some res, s1))"

definition fetch_uint_to_u32 :: "slice \<Rightarrow> nat \<Rightarrow> u32 fetched" where
  "fetch_uint_to_u32 s bits =
     (if bits > 32 \<or> \<not> slice_have s bits then (False, None, s)
      else let (res, s1) = fetch_ulong s bits in (True, Some (ucast res), s1))"

definition fetch_uint_to_i32 :: "slice \<Rightarrow> nat \<Rightarrow> u32 fetched" where
  "fetch_uint_to_i32 s bits =
     (if bits > 32 \<or> \<not> slice_have s bits then (False, None, s)
      else let (res, s1) = fetch_ulong s bits; r = ucast res :: u32 in (sint r \<ge> 0, Some r, s1))"

definition fetch_int_to_i64 :: "slice \<Rightarrow> nat \<Rightarrow> u64 fetched" where
  "fetch_int_to_i64 s bits =
     (if bits > 64 \<or> \<not> slice_have s bits then (False, None, s)
      else let (res, s1) = fetch_long s bits in (True, Some res, s1))"

definition fetch_int_to_i32 :: "slice \<Rightarrow> nat \<Rightarrow> u32 fetched" where
  "fetch_int_to_i32 s bits =
     (if bits > 32 \<or> \<not> slice_have s bits then (False, None, s)
      else let (res, s1) = fetch_long s bits in (True, Some (ucast res), s1))"

text \<open>\<open>fetch_uint_less\<close> and \<open>fetch_uint_leq\<close>; the version for \<open>int\<close> takes at most 31 bits, the one
  for \<open>unsigned\<close> 32.\<close>

definition fetch_uint_less :: "nat \<Rightarrow> slice \<Rightarrow> u32 \<Rightarrow> u32 fetched" where
  "fetch_uint_less max_width s upper_bound =
     (let bits = 32 - count_leading_zeroes32 (upper_bound - 1)
      in if upper_bound = 0 \<or> bits > max_width \<or> \<not> slice_have s bits then (False, None, s)
         else let (res, s1) = fetch_ulong s bits; r = ucast res :: u32 in (r < upper_bound, Some r, s1))"

definition fetch_uint_leq :: "nat \<Rightarrow> slice \<Rightarrow> u32 \<Rightarrow> u32 fetched" where
  "fetch_uint_leq max_width s upper_bound =
     (let bits = 32 - count_leading_zeroes32 upper_bound
      in if bits > max_width \<or> \<not> slice_have s bits then (False, None, s)
         else let (res, s1) = fetch_ulong s bits; r = ucast res :: u32 in (r \<le> upper_bound, Some r, s1))"

text \<open>\<open>bselect\<close>: the number of bits set in \<open>mask\<close> at the positions up to the tag that is next, less
  one.\<close>

definition count_bits64 :: "u64 \<Rightarrow> nat" where
  "count_bits64 x = unat (count_bits32 (ucast (drop_bit 32 x)) + count_bits32 (ucast x))"

definition bselect :: "slice \<Rightarrow> nat \<Rightarrow> u64 \<Rightarrow> int \<times> slice" where
  "bselect s bits msk =
     (if bits > 6 \<or> \<not> slice_have s bits then (- 1, s)
      else let (v, s1) = prefetch_ulong s bits; n = unat v
           in (int (count_bits64 (msk AND (push_bit n 2 - 1))) - 1, s1))"

definition bselect_ext :: "slice \<Rightarrow> nat \<Rightarrow> u64 \<Rightarrow> int \<times> slice" where
  "bselect_ext s bits msk =
     (if bits > 6 then (- 1, s)
      else let (n, s1) = (if slice_have s bits then let (v, s1) = prefetch_ulong s bits in (unat v, s1)
                          else let (v, s1) = prefetch_ulong s (slice_size s)
                               in (push_bit (bits - slice_size s) (unat v), s1))
           in (int (count_bits64 (msk AND (push_bit n 2 - 1))) - 1, s1))"

section \<open>Bits, bytes and windows\<close>

text \<open>A \<open>BitSlice\<close> is the buffer of the cell, an offset and a length.\<close>

definition prefetch_bits :: "slice \<Rightarrow> nat \<Rightarrow> (byte list \<times> nat \<times> nat) option" where
  "prefetch_bits s bits = (if \<not> slice_have s bits then None else Some (slice_data s, bits_st s, bits))"

definition fetch_bits :: "slice \<Rightarrow> nat \<Rightarrow> (byte list \<times> nat \<times> nat) option \<times> slice" where
  "fetch_bits s bits =
     (if \<not> slice_have s bits then (None, s)
      else (Some (slice_data s, bits_st s, bits), snd (slice_advance s bits)))"

text \<open>Copying to the buffer \<open>buffer\<close> from its bit \<open>offs\<close> on.\<close>

definition prefetch_bits_to :: "slice \<Rightarrow> byte list \<Rightarrow> nat \<Rightarrow> nat \<Rightarrow> bool \<times> byte list" where
  "prefetch_bits_to s buffer offs bits =
     (case prefetch_bits s bits of
        None \<Rightarrow> (False, buffer)
      | Some (m, o1, n) \<Rightarrow> (True, bits_memcpy buffer offs m o1 n))"

definition fetch_bits_to :: "slice \<Rightarrow> byte list \<Rightarrow> nat \<Rightarrow> nat \<Rightarrow> bool \<times> byte list \<times> slice" where
  "fetch_bits_to s buffer offs bits =
     (case fetch_bits s bits of
        (None, s1) \<Rightarrow> (False, buffer, s1)
      | (Some (m, o1, n), s1) \<Rightarrow> (True, bits_memcpy buffer offs m o1 n, s1))"

definition prefetch_bytes :: "slice \<Rightarrow> byte list \<Rightarrow> nat \<Rightarrow> bool \<times> byte list" where
  "prefetch_bytes s buffer bytes = prefetch_bits_to s buffer 0 (bytes * 8)"

definition fetch_bytes :: "slice \<Rightarrow> byte list \<Rightarrow> nat \<Rightarrow> bool \<times> byte list \<times> slice" where
  "fetch_bytes s buffer bytes =
     (case prefetch_bytes s buffer bytes of
        (True, buffer1) \<Rightarrow> (True, buffer1, snd (slice_advance s (bytes * 8)))
      | (False, buffer1) \<Rightarrow> (False, buffer1, s))"

definition prefetch_subslice :: "slice \<Rightarrow> nat \<Rightarrow> nat \<Rightarrow> slice option" where
  "prefetch_subslice s bits refs = (if \<not> slice_have2 s bits refs then None else Some (slice_first s bits refs))"

definition fetch_subslice :: "slice \<Rightarrow> nat \<Rightarrow> nat \<Rightarrow> slice option \<times> slice" where
  "fetch_subslice s bits refs =
     (if \<not> slice_have2 s bits refs then (None, s)
      else (Some (slice_first s bits refs), snd (advance_refs (snd (slice_advance s bits)) refs)))"

definition prefetch_subslice_packed :: "slice \<Rightarrow> u32 \<Rightarrow> slice option" where
  "prefetch_subslice_packed s sz = prefetch_subslice s (unat (sz AND 0xffff)) (unat (drop_bit 16 sz))"

definition fetch_subslice_packed :: "slice \<Rightarrow> u32 \<Rightarrow> slice option \<times> slice" where
  "fetch_subslice_packed s sz = fetch_subslice s (unat (sz AND 0xffff)) (unat (drop_bit 16 sz))"

text \<open>\<open>operator+\<close> passes the size less the offset as the end of the window, which the constructor
  counts from the beginning of the slice.\<close>

definition slice_plus :: "slice \<Rightarrow> nat \<Rightarrow> slice" where
  "slice_plus s offs0 =
     (let offs = min offs0 (slice_size s) in slice_window s (slice_size s - offs) (slice_size_refs s) offs 0)"

definition slice_plus_assert :: "slice \<Rightarrow> nat \<Rightarrow> bool" where
  "slice_plus_assert s offs0 \<longleftrightarrow> (let offs = min offs0 (slice_size s) in offs \<le> slice_size s - offs)"

definition bit_at :: "slice \<Rightarrow> nat \<Rightarrow> int" where
  "bit_at s i = (if slice_have s i then of_bool (bits_of (slice_data s) ! (bits_st s + i)) else - 1)"

section \<open>References\<close>

definition child_merkle_depth :: "slice \<Rightarrow> nat \<Rightarrow> nat" where
  "child_merkle_depth s merkle_depth =
     (if merkle_depth = 255 then merkle_depth
      else case s_cell s of
        None \<Rightarrow> merkle_depth
      | Some c \<Rightarrow>
          if data_special_type (c_info c) (c_data c) = MerkleProof \<or> data_special_type (c_info c) (c_data c) = MerkleUpdate
          then merkle_depth + 1 else merkle_depth)"

definition child_virt :: "slice \<Rightarrow> virt" where
  "child_virt s = \<lparr>vp_level = child_merkle_depth s (vp_level (s_virt s)) mod 256,
                   vp_virtualization = vp_virtualization (s_virt s)\<rparr>"

definition prefetch_ref :: "slice \<Rightarrow> nat \<Rightarrow> cell option" where
  "prefetch_ref s offset =
     (if offset < slice_size_refs s
      then Some (virtualize (slice_cell_refs s ! (refs_st s + offset)) (child_virt s)) else None)"

definition fetch_ref :: "slice \<Rightarrow> cell option \<times> slice" where
  "fetch_ref s =
     (if slice_have_refs s 1
      then (Some (virtualize (slice_cell_refs s ! refs_st s) (child_virt s)), s\<lparr>refs_st := refs_st s + 1\<rparr>)
      else (None, s))"

definition prefetch_maybe_ref :: "slice \<Rightarrow> cell option fetched" where
  "prefetch_maybe_ref s =
     (let (z, s1) = prefetch_ulong s 1
      in if z = 0 then (True, Some None, s1)
         else if z = 1 then (prefetch_ref s1 0 \<noteq> None, Some (prefetch_ref s1 0), s1)
         else (False, None, s1))"

definition fetch_maybe_ref :: "slice \<Rightarrow> cell option fetched" where
  "fetch_maybe_ref s =
     (let (z, s1) = prefetch_ulong s 1
      in if z = 0 then let (ok, s2) = slice_advance s1 1 in (ok, Some None, s2)
         else if z = 1 then
           case prefetch_ref s1 0 of
             None \<Rightarrow> (False, Some None, s1)
           | Some c \<Rightarrow> let (ok, s2) = advance_ext s1 1 1 in (ok, Some (Some c), s2)
         else (False, None, s1))"

definition slice_depth :: "slice \<Rightarrow> nat" where
  "slice_depth s =
     foldl (\<lambda>d i. max d (get_depth (the (prefetch_ref s i)) max_level + 1)) 0 [0..<slice_size_refs s] mod 65536"

definition slice_level :: "slice \<Rightarrow> nat" where
  "slice_level s =
     foldl (\<lambda>l i. let l1 = get_level (virtualize (slice_cell_refs s ! i) (child_virt s)) in if l1 > l then l1 else l)
       0 [refs_st s..<refs_en s]"

definition get_cell_level :: "slice \<Rightarrow> nat" where
  "get_cell_level s =
     (case s_cell s of None \<Rightarrow> 0 | Some c \<Rightarrow> mask_level (mask_apply (get_level_mask c) (vp_level (s_virt s))))"

definition get_base_cell :: "slice \<Rightarrow> cell option" where
  "get_base_cell s = (case s_cell s of None \<Rightarrow> None | Some c \<Rightarrow> Some (virtualize c (s_virt s)))"

section \<open>Comparing slices\<close>

text \<open>For a slice whose cell is there: the code takes \<open>data()\<close> of the cell.\<close>

definition slice_begins_with :: "slice \<Rightarrow> nat \<Rightarrow> u64 \<Rightarrow> bool \<times> slice" where
  "slice_begins_with s bits value =
     (if \<not> slice_have s bits then (False, s)
      else let (v, s1) = prefetch_ulong s bits in ((v XOR value) AND (push_bit bits 1 - 1) = 0, s1))"

definition begins_with_skip :: "slice \<Rightarrow> nat \<Rightarrow> u64 \<Rightarrow> bool \<times> slice" where
  "begins_with_skip s bits value =
     (let (ok, s1) = slice_begins_with s bits value in if ok then slice_advance s1 bits else (False, s1))"

text \<open>The versions without a width: the highest bit of \<open>value\<close> is a marker.\<close>

definition marked_width :: "u64 \<Rightarrow> nat" where
  "marked_width value = 63 - count_leading_zeroes64 value"

definition begins_with_marked :: "slice \<Rightarrow> u64 \<Rightarrow> bool \<times> slice" where
  "begins_with_marked s value = slice_begins_with s (marked_width value) value"

definition begins_with_skip_marked :: "slice \<Rightarrow> u64 \<Rightarrow> bool \<times> slice" where
  "begins_with_skip_marked s value = begins_with_skip s (marked_width value) value"

text \<open>The first mismatch of two ranges of bits, \<open>bits_memcmp\<close>, compared with 0.\<close>

definition same_bits :: "byte list \<Rightarrow> nat \<Rightarrow> byte list \<Rightarrow> nat \<Rightarrow> nat \<Rightarrow> bool" where
  "same_bits m1 o1 m2 o2 n \<longleftrightarrow> fst (bits_memcmp m1 o1 m2 o2 n) = 0"

definition slice_lex_cmp :: "slice \<Rightarrow> slice \<Rightarrow> int" where
  "slice_lex_cmp s t =
     bits_lexcmp (slice_data s) (bits_st s) (slice_size s) (slice_data t) (bits_st t) (slice_size t)"

definition contents_equal :: "slice \<Rightarrow> slice \<Rightarrow> bool" where
  "contents_equal s t \<longleftrightarrow>
     slice_size s = slice_size t \<and> slice_size_refs s = slice_size_refs t
     \<and> same_bits (slice_data s) (bits_st s) (slice_data t) (bits_st t) (slice_size s)
     \<and> (\<forall>i \<in> set [0..<slice_size_refs s].
          get_hash (the (prefetch_ref s i)) max_level = get_hash (the (prefetch_ref t i)) max_level)"

definition is_prefix_of :: "slice \<Rightarrow> slice \<Rightarrow> bool" where
  "is_prefix_of s t \<longleftrightarrow>
     slice_size s \<le> slice_size t \<and> same_bits (slice_data s) (bits_st s) (slice_data t) (bits_st t) (slice_size s)"

definition is_prefix_of_bits :: "slice \<Rightarrow> byte list \<Rightarrow> nat \<Rightarrow> nat \<Rightarrow> bool" where
  "is_prefix_of_bits s bs offs len \<longleftrightarrow>
     slice_size s \<le> len \<and> same_bits (slice_data s) (bits_st s) bs offs (slice_size s)"

definition is_suffix_of :: "slice \<Rightarrow> slice \<Rightarrow> bool" where
  "is_suffix_of s t \<longleftrightarrow>
     slice_size s \<le> slice_size t
     \<and> same_bits (slice_data s) (bits_st s) (slice_data t) (bits_st t + (slice_size t - slice_size s)) (slice_size s)"

definition slice_has_prefix :: "slice \<Rightarrow> slice \<Rightarrow> bool" where
  "slice_has_prefix s t \<longleftrightarrow>
     slice_size s \<ge> slice_size t \<and> same_bits (slice_data s) (bits_st s) (slice_data t) (bits_st t) (slice_size t)"

definition has_prefix_bits :: "slice \<Rightarrow> byte list \<Rightarrow> nat \<Rightarrow> nat \<Rightarrow> bool" where
  "has_prefix_bits s bs offs len \<longleftrightarrow>
     slice_size s \<ge> len \<and> same_bits (slice_data s) (bits_st s) bs offs len"

definition slice_has_suffix :: "slice \<Rightarrow> slice \<Rightarrow> bool" where
  "slice_has_suffix s t \<longleftrightarrow>
     slice_size s \<ge> slice_size t
     \<and> same_bits (slice_data s) (bits_st s + (slice_size s - slice_size t)) (slice_data t) (bits_st t) (slice_size t)"

definition is_proper_prefix_of :: "slice \<Rightarrow> slice \<Rightarrow> bool" where
  "is_proper_prefix_of s t \<longleftrightarrow>
     slice_size s < slice_size t \<and> same_bits (slice_data s) (bits_st s) (slice_data t) (bits_st t) (slice_size s)"

definition is_proper_suffix_of :: "slice \<Rightarrow> slice \<Rightarrow> bool" where
  "is_proper_suffix_of s t \<longleftrightarrow>
     slice_size s < slice_size t
     \<and> same_bits (slice_data s) (bits_st s) (slice_data t) (bits_st t + (slice_size t - slice_size s)) (slice_size s)"

text \<open>\<open>same_upto\<close> starts at 0, the value left when the comparison does not set it.\<close>

definition upto_or_0 :: "int \<times> nat option \<Rightarrow> nat" where
  "upto_or_0 r = (case snd r of Some n \<Rightarrow> n | None \<Rightarrow> 0)"

definition common_prefix_len :: "slice \<Rightarrow> slice \<Rightarrow> nat" where
  "common_prefix_len s t =
     upto_or_0 (bits_memcmp (slice_data s) (bits_st s) (slice_data t) (bits_st t) (min (slice_size s) (slice_size t)))"

definition common_prefix_len_bits :: "slice \<Rightarrow> byte list \<Rightarrow> nat \<Rightarrow> nat \<Rightarrow> nat" where
  "common_prefix_len_bits s bs offs len =
     upto_or_0 (bits_memcmp (slice_data s) (bits_st s) bs offs (min (slice_size s) len))"

text \<open>The word loop of \<open>bits_memscan\<close> depends on the address of the buffer, \<open>base\<close>.\<close>

definition count_leading :: "nat \<Rightarrow> slice \<Rightarrow> bool \<Rightarrow> nat" where
  "count_leading base s b = bits_memscan base (slice_data s) (bits_st s) (slice_size s) b"

definition count_trailing :: "slice \<Rightarrow> bool \<Rightarrow> nat" where
  "count_trailing s b = bits_memscan_rev (slice_data s) (bits_st s) (slice_size s) b"

definition remove_trailing :: "slice \<Rightarrow> nat \<times> slice" where
  "remove_trailing s =
     (if bits_st s = bits_en s then (0, s)
      else
        let bits = bits_en s - bits_st s;
            trailing = bits_memscan_rev (slice_data s) (bits_st s) bits False
        in if trailing = bits then (trailing, s\<lparr>bits_en := bits_en s - trailing\<rparr>)
           else (trailing + 1, s\<lparr>bits_en := bits_en s - (trailing + 1)\<rparr>))"

section \<open>Slices and builders\<close>

definition cell_builder_add_slice_bool :: "builder \<Rightarrow> slice \<Rightarrow> bool \<times> builder" where
  "cell_builder_add_slice_bool cb cs =
     (if \<not> can_extend_by2 cb (slice_size cs) (slice_size_refs cs) then (False, cb)
      else
        let cb1 = foldl (\<lambda>b cnt. stored b (store_ref b (prefetch_ref cs cnt))) cb [0..<slice_size_refs cs]
        in case prefetch_bits cs (slice_size cs) of
             None \<Rightarrow> (True, cb1)
           | Some (m, offs, n) \<Rightarrow> (True, stored cb1 (store_bits cb1 m n offs)))"

definition cell_builder_add_slice :: "builder \<Rightarrow> slice \<Rightarrow> builder_error + builder" where
  "cell_builder_add_slice cb cs = ensure_pass (cell_builder_add_slice_bool cb cs)"

section \<open>What an operation reads\<close>

text \<open>\<open>reads s n k s'\<close>: of \<open>s\<close> the first \<open>n\<close> bits and \<open>k\<close> references have been taken, the rest is as
  before, and so is the cell it is a window on.\<close>

definition reads :: "slice \<Rightarrow> nat \<Rightarrow> nat \<Rightarrow> slice \<Rightarrow> bool" where
  "reads s n k s' \<longleftrightarrow> slice_ok s' \<and> slice_bits s' = drop n (slice_bits s) \<and> slice_refs s' = drop k (slice_refs s)
     \<and> s_cell s' = s_cell s \<and> s_virt s' = s_virt s"

text \<open>The references as the operations give them, virtualized for the level below the cell.\<close>

definition slice_children :: "slice \<Rightarrow> cell list" where
  "slice_children s = map (\<lambda>r. virtualize r (child_virt s)) (slice_refs s)"

lemma reads_refl [simp]: "slice_ok s \<Longrightarrow> reads s 0 0 s"
  by (simp add: reads_def)

lemma reads_trans: "reads s n k s' \<Longrightarrow> reads s' n' k' s'' \<Longrightarrow> reads s (n + n') (k + k') s''"
  by (simp add: reads_def add.commute)

lemma reads_ok: "reads s n k s' \<Longrightarrow> slice_ok s'"
  by (simp add: reads_def)

lemma child_virt_cong: "s_cell s' = s_cell s \<Longrightarrow> s_virt s' = s_virt s \<Longrightarrow> child_virt s' = child_virt s"
  by (simp add: child_virt_def child_merkle_depth_def)

lemma reads_children: "reads s n k s' \<Longrightarrow> slice_children s' = drop k (slice_children s)"
  using child_virt_cong [of s' s] by (simp add: reads_def slice_children_def drop_map)

lemma reads_size:
  assumes "reads s n k s'" and "slice_ok s"
  shows "slice_size s' = slice_size s - n" and "slice_size_refs s' = slice_size_refs s - k"
proof -
  have "length (slice_bits s') = length (slice_bits s) - n" "length (slice_refs s') = length (slice_refs s) - k"
    using assms(1) by (simp_all add: reads_def)
  then show "slice_size s' = slice_size s - n" "slice_size_refs s' = slice_size_refs s - k"
    using assms reads_ok [OF assms(1)] by simp_all
qed

lemma length_slice_children [simp]: "slice_ok s \<Longrightarrow> length (slice_children s) = slice_size_refs s"
  by (simp add: slice_children_def)

lemma init_preload_keeps [simp]:
  "s_cell (init_preload s) = s_cell s" "s_virt (init_preload s) = s_virt s"
  by (simp_all add: init_preload_def Let_def)

lemma slice_advance_keeps [simp]:
  "s_cell (snd (slice_advance s n)) = s_cell s" "s_virt (snd (slice_advance s n)) = s_virt s"
  by (simp_all add: slice_advance_def Let_def)

lemma slice_advance_reads:
  assumes "slice_ok s" and "n \<le> slice_size s"
  shows "fst (slice_advance s n)" and "reads s n 0 (snd (slice_advance s n))"
  using slice_advance_correct [OF assms(1), of n] assms(2) by (simp_all add: reads_def)

lemma slice_advance_no_room: "slice_size s < n \<Longrightarrow> slice_advance s n = (False, s)"
  by (simp add: slice_advance_def slice_have_def)

lemma skip_refs_reads:
  assumes ok: "slice_ok s" and k: "k \<le> slice_size_refs s"
  shows "reads s 0 k (s\<lparr>refs_st := refs_st s + k\<rparr>)"
proof -
  have "slice_ok (s\<lparr>refs_st := refs_st s + k\<rparr>)" "slice_bits (s\<lparr>refs_st := refs_st s + k\<rparr>) = slice_bits s"
    using ok k by (auto simp: slice_ok_def slice_data_def slice_cell_refs_def slice_size_refs_def slice_bits_def slice_size_def)
  moreover have "slice_refs (s\<lparr>refs_st := refs_st s + k\<rparr>) = drop k (slice_refs s)"
    using ok k by (simp add: slice_refs_def slice_size_refs_def slice_cell_refs_def slice_ok_def drop_take add.commute)
  ultimately show ?thesis by (simp add: reads_def)
qed

lemma advance_refs_reads:
  assumes "slice_ok s"
  shows "fst (advance_refs s k) = (k \<le> slice_size_refs s)"
    and "if k \<le> slice_size_refs s then reads s 0 k (snd (advance_refs s k)) else snd (advance_refs s k) = s"
  using skip_refs_reads [OF assms] by (simp_all add: advance_refs_def slice_have_refs_def)

text \<open>The operations that skip bits and references together: all of them or nothing.\<close>

definition skips :: "slice \<Rightarrow> nat \<Rightarrow> nat \<Rightarrow> bool \<times> slice \<Rightarrow> bool" where
  "skips s n k r \<longleftrightarrow> fst r = (n \<le> slice_size s \<and> k \<le> slice_size_refs s)
     \<and> (if fst r then reads s n k (snd r) else snd r = s)"

lemma advance_both_reads:
  assumes ok: "slice_ok s" and n: "n \<le> slice_size s" and k: "k \<le> slice_size_refs s"
  shows "fst (slice_advance (s\<lparr>refs_st := refs_st s + k\<rparr>) n)"
    and "reads s n k (snd (slice_advance (s\<lparr>refs_st := refs_st s + k\<rparr>) n))"
proof -
  have r: "reads s 0 k (s\<lparr>refs_st := refs_st s + k\<rparr>)" by (rule skip_refs_reads [OF ok k])
  have "n \<le> slice_size (s\<lparr>refs_st := refs_st s + k\<rparr>)" using n by (simp add: slice_size_def)
  then show "fst (slice_advance (s\<lparr>refs_st := refs_st s + k\<rparr>) n)"
    and "reads s n k (snd (slice_advance (s\<lparr>refs_st := refs_st s + k\<rparr>) n))"
    using slice_advance_reads [OF reads_ok [OF r]] reads_trans [OF r] by force+
qed

lemma advance_ext_skips: "slice_ok s \<Longrightarrow> skips s n k (advance_ext s n k)"
  using advance_both_reads [of s n k] by (simp add: skips_def advance_ext_def slice_have_def slice_have_refs_def)

lemma skip_first_skips: "slice_ok s \<Longrightarrow> skips s n k (skip_first s n k)"
  using advance_both_reads [of s n k] by (simp add: skips_def skip_first_def slice_have2_def)

text \<open>The operations that keep a part: the window moves, the cache stays right.\<close>

lemma slice_ok_shrink:
  assumes ok: "slice_ok s" and n: "n \<le> slice_size s" and k: "k \<le> slice_size_refs s"
  defines "t \<equiv> s\<lparr>bits_en := bits_st s + n, refs_en := refs_st s + k\<rparr>"
  shows "slice_ok t" and "slice_bits t = take n (slice_bits s)" and "slice_refs t = take k (slice_refs s)"
proof -
  have z: "cache_ok (bits_of (slice_data s)) (bits_st s) (s_z s) (s_zd s) \<Longrightarrow> s_zd s \<le> 64"
    by (simp add: cache_ok_def)
  have le: "bits_st s + n \<le> bits_en s" "refs_st s + k \<le> refs_en s"
    using ok n k by (auto simp: slice_ok_def slice_size_def slice_size_refs_def)
  show "slice_ok t" using ok le z
    by (auto simp: t_def slice_ok_def slice_data_def slice_cell_refs_def)
  show "slice_bits t = take n (slice_bits s)"
    using n by (simp add: t_def slice_bits_def slice_size_def slice_data_def min_def)
  show "slice_refs t = take k (slice_refs s)"
    using k by (simp add: t_def slice_refs_def slice_size_refs_def slice_cell_refs_def min_def)
qed

lemma only_first_takes:
  assumes ok: "slice_ok s"
  shows "fst (only_first s n k) = (n \<le> slice_size s \<and> k \<le> slice_size_refs s)"
    and "if n \<le> slice_size s \<and> k \<le> slice_size_refs s
      then slice_ok (snd (only_first s n k)) \<and> slice_bits (snd (only_first s n k)) = take n (slice_bits s)
        \<and> slice_refs (snd (only_first s n k)) = take k (slice_refs s)
      else snd (only_first s n k) = s"
  using slice_ok_shrink [OF ok] by (simp_all add: only_first_def slice_have2_def)

lemma skip_last_takes:
  assumes ok: "slice_ok s"
  shows "fst (skip_last s n k) = (n \<le> slice_size s \<and> k \<le> slice_size_refs s)"
    and "if n \<le> slice_size s \<and> k \<le> slice_size_refs s
      then slice_ok (snd (skip_last s n k)) \<and> slice_bits (snd (skip_last s n k)) = take (slice_size s - n) (slice_bits s)
        \<and> slice_refs (snd (skip_last s n k)) = take (slice_size_refs s - k) (slice_refs s)
      else snd (skip_last s n k) = s"
proof -
  show "fst (skip_last s n k) = (n \<le> slice_size s \<and> k \<le> slice_size_refs s)"
    by (simp add: skip_last_def slice_have2_def)
  show "if n \<le> slice_size s \<and> k \<le> slice_size_refs s
      then slice_ok (snd (skip_last s n k)) \<and> slice_bits (snd (skip_last s n k)) = take (slice_size s - n) (slice_bits s)
        \<and> slice_refs (snd (skip_last s n k)) = take (slice_size_refs s - k) (slice_refs s)
      else snd (skip_last s n k) = s"
  proof (cases "n \<le> slice_size s \<and> k \<le> slice_size_refs s")
    case True
    then have e: "bits_en s - n = bits_st s + (slice_size s - n)" "refs_en s - k = refs_st s + (slice_size_refs s - k)"
      using ok by (auto simp: slice_ok_def slice_size_def slice_size_refs_def)
    have "snd (skip_last s n k) = s\<lparr>bits_en := bits_en s - n, refs_en := refs_en s - k\<rparr>"
      using True by (simp add: skip_last_def slice_have2_def)
    then show ?thesis using True slice_ok_shrink [OF ok, of "slice_size s - n" "slice_size_refs s - k"]
      unfolding e by simp
  next
    case False
    then have "snd (skip_last s n k) = s" by (simp only: skip_last_def slice_have2_def if_True snd_conv not_False_eq_True)
    then show ?thesis using False by (simp only: if_False)
  qed
qed

lemma only_last_reads:
  assumes ok: "slice_ok s"
  shows "fst (only_last s n k) = (n \<le> slice_size s \<and> k \<le> slice_size_refs s)"
    and "if n \<le> slice_size s \<and> k \<le> slice_size_refs s
      then reads s (slice_size s - n) (slice_size_refs s - k) (snd (only_last s n k)) else snd (only_last s n k) = s"
proof -
  have z: "slice_size (s\<lparr>refs_st := x\<rparr>) = slice_size s" for x by (simp add: slice_size_def)
  have eq: "only_last s n k = slice_advance (s\<lparr>refs_st := refs_st s + (slice_size_refs s - k)\<rparr>) (slice_size s - n)"
    if a: "n \<le> slice_size s" "k \<le> slice_size_refs s"
  proof -
    have e: "refs_en s - k = refs_st s + (slice_size_refs s - k)"
      using a ok by (auto simp: slice_ok_def slice_size_refs_def)
    show ?thesis unfolding only_last_def Let_def slice_have2_def z e using a by (simp only: simp_thms if_False)
  qed
  have r: "fst (only_last s n k)" "reads s (slice_size s - n) (slice_size_refs s - k) (snd (only_last s n k))"
    if "n \<le> slice_size s" "k \<le> slice_size_refs s"
    unfolding eq [OF that] by (rule advance_both_reads [OF ok]; simp)+
  show "fst (only_last s n k) = (n \<le> slice_size s \<and> k \<le> slice_size_refs s)"
    using r by (auto simp: only_last_def slice_have2_def)
  show "if n \<le> slice_size s \<and> k \<le> slice_size_refs s
      then reads s (slice_size s - n) (slice_size_refs s - k) (snd (only_last s n k)) else snd (only_last s n k) = s"
    using r by (auto simp: only_last_def slice_have2_def)
qed

section \<open>Numbers\<close>

lemma preload_reads:
  assumes ok: "slice_ok s" and n: "n \<le> slice_size s" "0 < n" "n \<le> 64"
  shows "reads s 0 0 (preload_at_least s n)" and "n \<le> 56 \<longrightarrow> n \<le> s_zd (preload_at_least s n)"
    and "\<And>i. i < n \<Longrightarrow> bit (s_z (preload_at_least s n)) (63 - i) = slice_bits s ! i"
proof -
  have hv: "slice_have s n" using n by (simp add: slice_have_def)
  obtain p z zd where e: "preload_at_least s n = s\<lparr>s_ptr := Some p, s_z := z, s_zd := zd\<rparr>"
    and r: "slice_ok (s\<lparr>s_ptr := Some p, s_z := z, s_zd := zd\<rparr>)" "n \<le> 56 \<longrightarrow> n \<le> zd"
      "\<forall>i < n. bit z (63 - i) = slice_bits s ! i"
    using preload_at_least_correct [OF ok hv n(2,3)] by blast
  show "reads s 0 0 (preload_at_least s n)" "n \<le> 56 \<longrightarrow> n \<le> s_zd (preload_at_least s n)"
    "\<And>i. i < n \<Longrightarrow> bit (s_z (preload_at_least s n)) (63 - i) = slice_bits s ! i"
    using r by (simp_all add: reads_def e)
qed

lemma shift_cache_reads:
  assumes ok: "slice_ok s" and n: "n \<le> slice_size s" "0 < n" "n \<le> s_zd s" "n < 64"
  shows "reads s n 0 (s\<lparr>s_z := push_bit n (s_z s), s_zd := s_zd s - n, bits_st := bits_st s + n\<rparr>)"
proof -
  let ?t = "s\<lparr>s_z := push_bit n (s_z s), s_zd := s_zd s - n, bits_st := bits_st s + n\<rparr>"
  have st: "bits_st s < bits_en s" "bits_st s + n \<le> bits_en s" using n by (simp_all add: slice_size_def)
  have c: "cache_ok (bits_of (slice_data s)) (bits_st s) (s_z s) (s_zd s)" using ok st(1) by (simp add: slice_ok_def)
  have "cache_ok (bits_of (slice_data s)) (bits_st s + n) (push_bit n (s_z s)) (s_zd s - n)"
    by (rule cache_ok_shift [OF c n(3,4)])
  moreover have "s_zd s \<le> 64" using c by (simp add: cache_ok_def)
  ultimately have "slice_ok ?t" using ok st n
    by (auto simp: slice_ok_def slice_data_def slice_cell_refs_def)
  moreover have "slice_bits ?t = drop n (slice_bits s)"
    using st by (simp add: slice_bits_def slice_size_def slice_data_def drop_take add.commute)
  moreover have "slice_refs ?t = slice_refs s"
    by (simp add: slice_refs_def slice_size_refs_def slice_cell_refs_def)
  ultimately show ?thesis by (simp add: reads_def)
qed

lemma drop_top_word_of_bits:
  assumes "length xs = n" "n \<le> 64" "0 < n" and top: "\<And>i. i < n \<Longrightarrow> bit (z :: u64) (63 - i) = xs ! i"
  shows "drop_bit (64 - n) z = word_of_bits xs"
proof (rule bit_word_eqI)
  fix j assume "j < LENGTH(64)"
  then have j: "j < 64" by simp
  show "bit (drop_bit (64 - n) z) j = bit (word_of_bits xs :: u64) j"
  proof (cases "j < n")
    case True
    have e: "64 - n + j = 63 - (n - 1 - j)" and i: "n - 1 - j < n" using True assms(2,3) by linarith+
    have "bit (drop_bit (64 - n) z) j = xs ! (n - 1 - j)"
      unfolding bit_drop_bit_eq o_def e using top [OF i] by simp
    then show ?thesis using True j assms(1) by (simp add: bit_views)
  next
    case False
    then have "64 \<le> 64 - n + j" using assms(2) by linarith
    then have "\<not> bit z (64 - n + j)" using bit_imp_le_length [of z "64 - n + j"] by auto
    then show ?thesis using False assms(1) by (simp add: bit_views bit_drop_bit_eq)
  qed
qed

text \<open>The \<open>assert(zd >= bits)\<close> of the fetching operations.\<close>

lemma fetch_assert:
  "slice_ok s \<Longrightarrow> slice_have s n \<Longrightarrow> 0 < n \<Longrightarrow> n \<le> 56 \<Longrightarrow> n \<le> s_zd (preload_at_least s n)"
  using preload_reads(2) [of s n] by (simp add: slice_have_def)

text \<open>The shape shared by \<open>fetch_ulong\<close> and \<open>fetch_long\<close>.\<close>

lemma fetch_step_reads:
  assumes ok: "slice_ok s" and n: "n \<le> slice_size s" "n \<le> 64" "0 < n"
  defines "s1 \<equiv> preload_at_least s n"
  shows "reads s n 0 (if n \<le> 56 then s1\<lparr>s_z := push_bit n (s_z s1), s_zd := s_zd s1 - n, bits_st := bits_st s1 + n\<rparr>
                      else snd (slice_advance s1 n))"
proof -
  note P = preload_reads [OF ok n(1,3,2), folded s1_def]
  have s1: "slice_ok s1" "n \<le> slice_size s1" using reads_ok [OF P(1)] reads_size [OF P(1) ok] n(1) by simp_all
  have "reads s1 n 0 (if n \<le> 56 then s1\<lparr>s_z := push_bit n (s_z s1), s_zd := s_zd s1 - n, bits_st := bits_st s1 + n\<rparr>
                      else snd (slice_advance s1 n))"
    using shift_cache_reads [OF s1 n(3)] P(2) slice_advance_reads(2) [OF s1] by simp
  from reads_trans [OF P(1) this] show ?thesis by simp
qed

lemma fetch_ulong_correct:
  assumes ok: "slice_ok s" and n: "n \<le> slice_size s" "n \<le> 64"
  shows "fst (fetch_ulong s n) = word_of_bits (take n (slice_bits s))" and "reads s n 0 (snd (fetch_ulong s n))"
proof -
  have "fst (fetch_ulong s n) = word_of_bits (take n (slice_bits s)) \<and> reads s n 0 (snd (fetch_ulong s n))"
  proof (cases "n = 0")
    case True
    then show ?thesis using ok by (simp add: fetch_ulong_def slice_have_def)
  next
    case False
    then have n0: "0 < n" by simp
    have "drop_bit (64 - n) (s_z (preload_at_least s n)) = word_of_bits (take n (slice_bits s))"
      by (rule drop_top_word_of_bits) (use n n0 ok preload_reads(3) [OF ok n(1) n0 n(2)] in auto)
    then show ?thesis using fetch_step_reads [OF ok n n0] n False
      by (simp add: fetch_ulong_def slice_have_def Let_def split: if_splits)
  qed
  then show "fst (fetch_ulong s n) = word_of_bits (take n (slice_bits s))" "reads s n 0 (snd (fetch_ulong s n))"
    by blast+
qed

lemma fetch_ulong_eof_eq: "slice_size s < n \<or> 64 < n \<Longrightarrow> fetch_ulong s n = (fetch_ulong_eof, s)"
  by (auto simp: fetch_ulong_def slice_have_def)

lemma unat_fetch_ulong:
  "slice_ok s \<Longrightarrow> n \<le> slice_size s \<Longrightarrow> n \<le> 64 \<Longrightarrow> unat (fst (fetch_ulong s n)) = nat_of_bits (take n (slice_bits s))"
  by (simp add: fetch_ulong_correct unat_word_of_bits)

lemma fetch_long_correct:
  assumes ok: "slice_ok s" and n: "n \<le> slice_size s" "n \<le> 64"
  shows "sint (fst (fetch_long s n)) = int_of_bits True (take n (slice_bits s))" and "reads s n 0 (snd (fetch_long s n))"
proof -
  have "sint (fst (fetch_long s n)) = int_of_bits True (take n (slice_bits s)) \<and> reads s n 0 (snd (fetch_long s n))"
  proof (cases "n = 0")
    case True
    then show ?thesis using ok by (simp add: fetch_long_def slice_have_def int_of_bits_def)
  next
    case False
    then have n0: "0 < n" by simp
    have "sint (signed_drop_bit (64 - n) (s_z (preload_at_least s n))) = int_of_bits True (take n (slice_bits s))"
      by (rule sint_signed_drop_top) (use n n0 ok preload_reads(3) [OF ok n(1) n0 n(2)] in auto)
    then show ?thesis using fetch_step_reads [OF ok n n0] n False
      by (simp add: fetch_long_def slice_have_def Let_def split: if_splits)
  qed
  then show "sint (fst (fetch_long s n)) = int_of_bits True (take n (slice_bits s))" "reads s n 0 (snd (fetch_long s n))"
    by blast+
qed

lemma prefetch_ulong_correct:
  assumes ok: "slice_ok s" and n: "n \<le> slice_size s" "n \<le> 64"
  shows "fst (prefetch_ulong s n) = word_of_bits (take n (slice_bits s))" and "reads s 0 0 (snd (prefetch_ulong s n))"
proof -
  have "fst (prefetch_ulong s n) = word_of_bits (take n (slice_bits s)) \<and> reads s 0 0 (snd (prefetch_ulong s n))"
  proof (cases "n = 0")
    case True
    then show ?thesis using ok by (simp add: prefetch_ulong_def slice_have_def)
  next
    case False
    then have n0: "0 < n" by simp
    have "drop_bit (64 - n) (s_z (preload_at_least s n)) = word_of_bits (take n (slice_bits s))"
      by (rule drop_top_word_of_bits) (use n n0 ok preload_reads(3) [OF ok n(1) n0 n(2)] in auto)
    then show ?thesis using preload_reads(1) [OF ok n(1) n0 n(2)] n False
      by (simp add: prefetch_ulong_def slice_have_def Let_def)
  qed
  then show "fst (prefetch_ulong s n) = word_of_bits (take n (slice_bits s))" "reads s 0 0 (snd (prefetch_ulong s n))"
    by blast+
qed

lemma prefetch_ulong_eof_eq: "slice_size s < n \<or> 64 < n \<Longrightarrow> prefetch_ulong s n = (fetch_ulong_eof, s)"
  by (auto simp: prefetch_ulong_def slice_have_def)

lemma prefetch_ulong_top_correct:
  assumes ok: "slice_ok s" and n: "min n (slice_size s) \<le> 64"
  shows "case prefetch_ulong_top s n of (z, k, s') \<Rightarrow>
    k = min n (slice_size s) \<and> top_bits64 k z = take k (slice_bits s) \<and> reads s 0 0 s'"
proof (cases "min n (slice_size s) = 0")
  case True
  then show ?thesis using ok by (auto simp: prefetch_ulong_top_def Let_def top_bits64_def)
next
  case False
  define k where "k = min n (slice_size s)"
  have k: "k \<le> slice_size s" "0 < k" "k \<le> 64" using False n by (simp_all add: k_def)
  have "(if n > slice_size s then slice_size s else n) = k" by (simp add: k_def)
  then have e: "prefetch_ulong_top s n = (s_z (preload_at_least s k), k, preload_at_least s k)"
    using k by (simp add: prefetch_ulong_top_def Let_def)
  have "top_bits64 k (s_z (preload_at_least s k)) = take k (slice_bits s)"
    by (rule nth_equalityI) (use k ok preload_reads(3) [OF ok k] in \<open>simp_all add: nth_top_bits64\<close>)
  then show ?thesis using e preload_reads(1) [OF ok k] by (simp add: k_def)
qed

end
