(* ===== verification/Slice_View.thy ===== *)
theory Slice_View
  imports Slice_Ops "HOL-Library.Sublist"
begin

text \<open>
  What the remaining operations of \<open>CellSlice\<close> do to the bits and the references that are left:
  opening a cell, windows, references, comparison with other slices, and the way back into a
  builder.
\<close>

section \<open>Opening a cell\<close>

lemma slice_of_data_cell:
  assumes "wf_cell (Data_Cell i data refs hashes depths)"
  defines "c \<equiv> Data_Cell i data refs hashes depths"
  shows "slice_ok (slice_of_loaded (Some c) v)" and "slice_bits (slice_of_loaded (Some c) v) = cell_bits c"
    and "slice_refs (slice_of_loaded (Some c) v) = refs"
    and "s_cell (slice_of_loaded (Some c) v) = Some c" and "s_virt (slice_of_loaded (Some c) v) = v"
proof -
  define s1 where "s1 = null_slice\<lparr>s_virt := v, s_cell := Some c, bits_en := i_bits i, refs_en := i_refs_count i\<rparr>"
  have wf: "length data = (i_bits i + 7) div 8" "length refs = i_refs_count i"
    using assms by (simp_all add: wf_data_def)
  have "i_bits i \<le> 8 * length data" unfolding wf(1) by (simp add: ceil_bytes) presburger
  then have bnd: "bits_st s1 \<le> bits_en s1" "refs_st s1 \<le> refs_en s1" "bits_en s1 \<le> 8 * length (slice_data s1)"
    "refs_en s1 \<le> length (slice_cell_refs s1)"
    using wf by (simp_all add: s1_def null_slice_def slice_data_def slice_cell_refs_def c_def)
  have e: "slice_of_loaded (Some c) v = (if i_bits i \<noteq> 0 then init_preload s1 else s1)"
    by (simp add: slice_of_loaded_def init_bits_refs_def Let_def s1_def c_def null_slice_def)
  have view: "slice_bits s1 = cell_bits c" "slice_refs s1 = refs"
    using wf(2) by (simp_all add: s1_def slice_bits_def slice_refs_def slice_size_def slice_size_refs_def slice_data_def
        slice_cell_refs_def cell_bits_def c_def null_slice_def)
  have ok1: "i_bits i = 0 \<Longrightarrow> slice_ok s1"
    using bnd by (simp add: slice_ok_def s1_def null_slice_def)
  show "slice_ok (slice_of_loaded (Some c) v)" "slice_bits (slice_of_loaded (Some c) v) = cell_bits c"
    "slice_refs (slice_of_loaded (Some c) v) = refs"
    unfolding e using init_preload_ok [OF bnd] view ok1 by simp_all
  show "s_cell (slice_of_loaded (Some c) v) = Some c" "s_virt (slice_of_loaded (Some c) v) = v"
    unfolding e by (simp_all add: s1_def null_slice_def)
qed

lemma get_level_less: "get_level c \<le> 32"
  using mask_level_le [of "get_level_mask c"] by (simp add: get_level_def)

lemma virtualize_none: "wf_cell c \<Longrightarrow> virtualize c virt_none = c"
proof (cases c)
  case (Data_Cell i d rs hs ds)
  have "get_level c \<le> 255" using get_level_less [of c] by simp
  then show ?thesis by (simp add: Data_Cell virtual_create_def virt_none_def)
next
  case (Virtual_Cell vl vv r)
  assume "wf_cell c"
  then have "vl \<le> 255" using get_level_less [of r] by (simp add: Virtual_Cell)
  then show ?thesis by (simp add: Virtual_Cell virt_apply_def virt_none_def Let_def)
qed

lemma slice_NoVm_data_cell:
  assumes "wf_cell (Data_Cell i data refs hashes depths)"
  defines "c \<equiv> Data_Cell i data refs hashes depths"
  shows "slice_ok (slice_NoVm c)" and "slice_bits (slice_NoVm c) = cell_bits c" and "slice_refs (slice_NoVm c) = refs"
    and "slice_children (slice_NoVm c) = refs"
proof -
  have e: "slice_NoVm c = slice_of_loaded (Some c) virt_none" by (simp add: slice_NoVm_def c_def)
  note S = slice_of_data_cell [OF assms(1), folded c_def, of virt_none]
  show "slice_ok (slice_NoVm c)" "slice_bits (slice_NoVm c) = cell_bits c" "slice_refs (slice_NoVm c) = refs"
    unfolding e by (rule S)+
  have cv: "child_virt (slice_NoVm c) = virt_none"
    unfolding e using S(4,5) by (simp add: child_virt_def child_merkle_depth_def virt_none_def)
  have "virtualize r virt_none = r" if "r \<in> set refs" for r
    using assms(1) that by (intro virtualize_none) simp
  then show "slice_children (slice_NoVm c) = refs"
    using S(3) unfolding slice_children_def cv by (simp add: e map_idI)
qed

section \<open>Windows\<close>

lemma slice_first_takes:
  assumes ok: "slice_ok s" and n: "n \<le> slice_size s" and k: "k \<le> slice_size_refs s"
  shows "slice_ok (slice_first s n k)" and "slice_bits (slice_first s n k) = take n (slice_bits s)"
    and "slice_refs (slice_first s n k) = take k (slice_refs s)"
    and "slice_children (slice_first s n k) = take k (slice_children s)"
proof -
  define t where "t = s\<lparr>bits_en := bits_st s + n, refs_en := refs_st s + k, s_ptr := None, s_z := 0, s_zd := 0\<rparr>"
  have le: "bits_st s + n \<le> bits_en s" "refs_st s + k \<le> refs_en s"
    using ok n k by (auto simp: slice_ok_def slice_size_def slice_size_refs_def)
  have bnd: "bits_st t \<le> bits_en t" "refs_st t \<le> refs_en t" "bits_en t \<le> 8 * length (slice_data t)"
    "refs_en t \<le> length (slice_cell_refs t)"
    using ok le by (auto simp: t_def slice_ok_def slice_data_def slice_cell_refs_def)
  have view: "slice_bits t = take n (slice_bits s)" "slice_refs t = take k (slice_refs s)"
    using n k by (simp_all add: t_def slice_bits_def slice_refs_def slice_size_def slice_size_refs_def slice_data_def
        slice_cell_refs_def min_def)
  have e: "slice_first s n k = (if n \<noteq> 0 then init_preload t else t)"
    by (simp add: slice_first_def Let_def t_def)
  have ok0: "n = 0 \<Longrightarrow> slice_ok t" using bnd by (simp add: slice_ok_def t_def)
  show "slice_ok (slice_first s n k)" "slice_bits (slice_first s n k) = take n (slice_bits s)"
    and refs: "slice_refs (slice_first s n k) = take k (slice_refs s)"
    unfolding e using init_preload_ok [OF bnd] view ok0 by simp_all
  have "child_virt (slice_first s n k) = child_virt s"
    by (rule child_virt_cong) (simp_all add: e t_def)
  then show "slice_children (slice_first s n k) = take k (slice_children s)"
    using refs by (simp add: slice_children_def take_map)
qed

lemma slice_window_drops:
  assumes ok: "slice_ok s" and n: "bs \<le> be" "be \<le> slice_size s" and k: "rs \<le> re" "re \<le> slice_size_refs s"
  shows "slice_ok (slice_window s be re bs rs)" and "slice_bits (slice_window s be re bs rs) = drop bs (take be (slice_bits s))"
    and "slice_refs (slice_window s be re bs rs) = drop rs (take re (slice_refs s))"
    and "slice_children (slice_window s be re bs rs) = drop rs (take re (slice_children s))"
proof -
  define t where "t = s\<lparr>bits_st := bits_st s + bs, refs_st := refs_st s + rs, bits_en := bits_st s + be, refs_en := refs_st s + re,
    s_ptr := None, s_z := 0, s_zd := 0\<rparr>"
  have le: "bits_st s + be \<le> bits_en s" "refs_st s + re \<le> refs_en s"
    using ok n k by (auto simp: slice_ok_def slice_size_def slice_size_refs_def)
  have bnd: "bits_st t \<le> bits_en t" "refs_st t \<le> refs_en t" "bits_en t \<le> 8 * length (slice_data t)"
    "refs_en t \<le> length (slice_cell_refs t)"
    using ok le n k by (auto simp: t_def slice_ok_def slice_data_def slice_cell_refs_def)
  have view: "slice_bits t = drop bs (take be (slice_bits s))" "slice_refs t = drop rs (take re (slice_refs s))"
    using n k by (simp_all add: t_def slice_bits_def slice_refs_def slice_size_def slice_size_refs_def slice_data_def
        slice_cell_refs_def min_def drop_take add.commute)
  have e: "slice_window s be re bs rs = (if be > bs then init_preload t else t)"
    by (simp add: slice_window_def Let_def t_def)
  have ok0: "\<not> bs < be \<Longrightarrow> slice_ok t" using bnd n by (simp add: slice_ok_def t_def)
  show "slice_ok (slice_window s be re bs rs)" "slice_bits (slice_window s be re bs rs) = drop bs (take be (slice_bits s))"
    and refs: "slice_refs (slice_window s be re bs rs) = drop rs (take re (slice_refs s))"
    unfolding e using init_preload_ok [OF bnd] view ok0 by simp_all
  have "child_virt (slice_window s be re bs rs) = child_virt s"
    by (rule child_virt_cong) (simp_all add: e t_def)
  then show "slice_children (slice_window s be re bs rs) = drop rs (take re (slice_children s))"
    using refs by (simp add: slice_children_def take_map drop_map)
qed

lemma prefetch_subslice_takes:
  assumes "slice_ok s"
  shows "case prefetch_subslice s n k of
      None \<Rightarrow> \<not> (n \<le> slice_size s \<and> k \<le> slice_size_refs s)
    | Some t \<Rightarrow> n \<le> slice_size s \<and> k \<le> slice_size_refs s \<and> slice_ok t \<and> slice_bits t = take n (slice_bits s)
        \<and> slice_children t = take k (slice_children s)"
  using slice_first_takes [OF assms] by (simp add: prefetch_subslice_def slice_have2_def)

lemma fetch_subslice_splits:
  assumes ok: "slice_ok s"
  shows "case fetch_subslice s n k of
      (None, s') \<Rightarrow> \<not> (n \<le> slice_size s \<and> k \<le> slice_size_refs s) \<and> s' = s
    | (Some t, s') \<Rightarrow> slice_ok t \<and> reads s n k s' \<and> slice_bits s = slice_bits t @ slice_bits s'
        \<and> slice_children s = slice_children t @ slice_children s'"
proof (cases "n \<le> slice_size s \<and> k \<le> slice_size_refs s")
  case True
  define s1 where "s1 = snd (slice_advance s n)"
  have a: "reads s n 0 s1" unfolding s1_def using slice_advance_reads(2) [OF ok] True by blast
  have "reads s1 0 k (snd (advance_refs s1 k))"
    using advance_refs_reads(2) [OF reads_ok [OF a], of k] reads_size(2) [OF a ok] True by simp
  from reads_trans [OF a this] have r: "reads s n k (snd (advance_refs s1 k))" by simp
  moreover have "fetch_subslice s n k = (Some (slice_first s n k), snd (advance_refs s1 k))"
    using True by (simp add: fetch_subslice_def slice_have2_def s1_def)
  moreover have "slice_bits s = take n (slice_bits s) @ slice_bits (snd (advance_refs s1 k))"
    using r by (simp add: reads_def)
  moreover have "slice_children s = take k (slice_children s) @ slice_children (snd (advance_refs s1 k))"
    using reads_children [OF r] by simp
  ultimately show ?thesis using slice_first_takes [OF ok, of n k] True by simp
next
  case False
  then show ?thesis by (simp add: fetch_subslice_def slice_have2_def)
qed

section \<open>References\<close>

lemma prefetch_ref_eq:
  assumes "slice_ok s"
  shows "prefetch_ref s k = (if k < slice_size_refs s then Some (slice_children s ! k) else None)"
proof -
  have "k < slice_size_refs s \<Longrightarrow> slice_refs s ! k = slice_cell_refs s ! (refs_st s + k)"
    using assms by (auto simp: slice_refs_def slice_size_refs_def slice_ok_def)
  then show ?thesis using assms by (simp add: prefetch_ref_def slice_children_def)
qed

lemma fetch_ref_eq:
  assumes ok: "slice_ok s"
  shows "case fetch_ref s of
      (None, s') \<Rightarrow> slice_children s = [] \<and> s' = s
    | (Some c, s') \<Rightarrow> slice_children s = c # slice_children s' \<and> reads s 0 1 s'"
proof (cases "1 \<le> slice_size_refs s")
  case True
  have r: "reads s 0 1 (s\<lparr>refs_st := refs_st s + 1\<rparr>)" by (rule skip_refs_reads [OF ok True])
  have e: "fetch_ref s = (prefetch_ref s 0, s\<lparr>refs_st := refs_st s + 1\<rparr>)"
    using True by (simp add: fetch_ref_def prefetch_ref_def slice_have_refs_def)
  have "slice_children s = slice_children s ! 0 # drop 1 (slice_children s)"
    using True length_slice_children [OF ok] by (cases "slice_children s") auto
  then show ?thesis using e r True reads_children [OF r] by (simp add: prefetch_ref_eq [OF ok])
next
  case False
  then have "length (slice_children s) = 0" using ok by simp
  then show ?thesis using False by (simp add: fetch_ref_def slice_have_refs_def)
qed

lemma map_children: "slice_ok s \<Longrightarrow> map (prefetch_ref s) [0..<slice_size_refs s] = map Some (slice_children s)"
  by (rule nth_equalityI) (simp_all add: prefetch_ref_eq)

text \<open>An optional reference: a bit and, when it is set, the next reference.\<close>

lemma word_of_bits_one: "word_of_bits [b] = (of_bool b :: u64)"
  by (simp add: word_of_bits_def)

lemma fetch_maybe_ref_correct:
  assumes ok: "slice_ok s"
  shows "case fetch_maybe_ref s of (r, v, s') \<Rightarrow>
    (if slice_bits s = [] then \<not> r \<and> v = None \<and> s' = s
     else if \<not> hd (slice_bits s) then r \<and> v = Some None \<and> reads s 1 0 s'
     else if slice_children s = [] then \<not> r \<and> v = Some None \<and> reads s 0 0 s'
     else r \<and> v = Some (Some (hd (slice_children s))) \<and> reads s 1 1 s')"
proof (cases "slice_bits s")
  case Nil
  then have "slice_size s < 1" using ok length_slice_bits [OF ok] by simp
  then have "prefetch_ulong s 1 = (fetch_ulong_eof, s)" by (simp add: prefetch_ulong_eof_eq)
  then show ?thesis using Nil by (simp add: fetch_maybe_ref_def fetch_ulong_eof_def)
next
  case (Cons b bs)
  then have size: "1 \<le> slice_size s" using length_slice_bits [OF ok] by simp
  obtain z s1 where p: "prefetch_ulong s 1 = (z, s1)" by fastforce
  have z: "z = of_bool b" and r1: "reads s 0 0 s1"
    using prefetch_ulong_correct [OF ok size] p Cons by (simp_all add: word_of_bits_one)
  note ok1 = reads_ok [OF r1]
  have size1: "1 \<le> slice_size s1" "slice_size_refs s1 = slice_size_refs s" using reads_size [OF r1 ok] size by simp_all
  have ch: "slice_children s1 = slice_children s" using reads_children [OF r1] by simp
  show ?thesis
  proof (cases b)
    case False
    have "reads s 1 0 (snd (slice_advance s1 1))"
      using reads_trans [OF r1 slice_advance_reads(2) [OF ok1 size1(1)]] by simp
    then show ?thesis using False p z Cons slice_advance_reads(1) [OF ok1 size1(1)]
      by (simp add: fetch_maybe_ref_def case_prod_beta)
  next
    case True
    show ?thesis
    proof (cases "slice_children s")
      case Nil
      then have "slice_size_refs s = 0" using length_slice_children [OF ok] by simp
      then have "prefetch_ref s1 0 = None" using prefetch_ref_eq [OF ok1] size1 by simp
      then show ?thesis using p z Cons True Nil r1 by (simp add: fetch_maybe_ref_def)
    next
      case (Cons c cs)
      then have k: "1 \<le> slice_size_refs s1" using length_slice_children [OF ok] size1 by simp
      then have pr: "prefetch_ref s1 0 = Some c" using prefetch_ref_eq [OF ok1, of 0] ch Cons by simp
      have "skips s1 1 1 (advance_ext s1 1 1)" by (rule advance_ext_skips [OF ok1])
      then have a: "fst (advance_ext s1 1 1)" "reads s1 1 1 (snd (advance_ext s1 1 1))"
        using size1 k by (simp_all add: skips_def)
      have "reads s 1 1 (snd (advance_ext s1 1 1))" using reads_trans [OF r1 a(2)] by simp
      then show ?thesis using p z True pr Cons \<open>slice_bits s = b # bs\<close> a(1)
        by (simp add: fetch_maybe_ref_def case_prod_beta)
    qed
  qed
qed

section \<open>Comparing slices\<close>

lemma slice_bits_window: "slice_bits s = take (slice_size s) (drop (bits_st s) (bits_of (slice_data s)))"
  by (simp add: slice_bits_def)

lemma slice_room: "slice_ok s \<Longrightarrow> bits_st s + slice_size s \<le> 8 * length (slice_data s)"
  by (auto simp: slice_ok_def slice_size_def)

lemma same_bits_eq:
  assumes "o1 + n \<le> 8 * length m1" and "o2 + n \<le> 8 * length m2"
  shows "same_bits m1 o1 m2 o2 n \<longleftrightarrow> take n (drop o1 (bits_of m1)) = take n (drop o2 (bits_of m2))"
  using assms by (simp add: same_bits_def bits_memcmp_correct lex_cmp_eq_0)

lemma slice_sub_bits:
  assumes "i + n \<le> slice_size s"
  shows "take n (drop (bits_st s + i) (bits_of (slice_data s))) = take n (drop i (slice_bits s))"
proof -
  have "n \<le> slice_size s - i" using assms by linarith
  then show ?thesis by (simp add: slice_bits_window drop_take add.commute)
qed

lemma same_bits_slices:
  assumes "slice_ok s" "slice_ok t" and "i + n \<le> slice_size s" "j + n \<le> slice_size t"
  shows "same_bits (slice_data s) (bits_st s + i) (slice_data t) (bits_st t + j) n
     \<longleftrightarrow> take n (drop i (slice_bits s)) = take n (drop j (slice_bits t))"
proof -
  have "bits_st s + i + n \<le> 8 * length (slice_data s)" "bits_st t + j + n \<le> 8 * length (slice_data t)"
    using assms slice_room [of s] slice_room [of t] by linarith+
  then show ?thesis using slice_sub_bits assms(3,4) by (simp add: same_bits_eq)
qed

lemma is_prefix_of_eq:
  assumes ok: "slice_ok s" "slice_ok t"
  shows "is_prefix_of s t \<longleftrightarrow> prefix (slice_bits s) (slice_bits t)"
proof (cases "slice_size s \<le> slice_size t")
  case True
  have "is_prefix_of s t \<longleftrightarrow> slice_bits s = take (slice_size s) (slice_bits t)"
    using same_bits_slices [OF ok, of 0 "slice_size s" 0] True ok
    by (simp add: is_prefix_of_def)
  then show ?thesis using ok by (metis length_slice_bits prefixE append_eq_conv_conj take_is_prefix)
next
  case False
  then show ?thesis using ok prefix_length_le [of "slice_bits s" "slice_bits t"] by (auto simp: is_prefix_of_def)
qed

lemma slice_has_prefix_eq:
  "slice_ok s \<Longrightarrow> slice_ok t \<Longrightarrow> slice_has_prefix s t \<longleftrightarrow> prefix (slice_bits t) (slice_bits s)"
  using same_bits_slices [of s t 0 "slice_size t" 0] same_bits_slices [of t s 0 "slice_size t" 0] is_prefix_of_eq [of t s]
  by (auto simp: slice_has_prefix_def is_prefix_of_def)

lemma is_proper_prefix_of_eq:
  assumes "slice_ok s" "slice_ok t"
  shows "is_proper_prefix_of s t \<longleftrightarrow> strict_prefix (slice_bits s) (slice_bits t)"
proof -
  have "is_proper_prefix_of s t \<longleftrightarrow> is_prefix_of s t \<and> slice_size s \<noteq> slice_size t"
    by (auto simp: is_proper_prefix_of_def is_prefix_of_def)
  moreover have "prefix xs ys \<Longrightarrow> length xs = length ys \<Longrightarrow> xs = ys" for xs ys :: "bool list"
    by (auto elim: prefixE)
  ultimately show ?thesis using assms
    by (metis is_prefix_of_eq length_slice_bits strict_prefix_def)
qed

lemma suffix_eq_drop: "suffix xs ys \<longleftrightarrow> length xs \<le> length ys \<and> drop (length ys - length xs) ys = xs"
  by (metis suffix_def suffix_length_le append_eq_conv_conj suffix_drop length_append add_diff_cancel_right' suffix_take)

lemma is_suffix_of_eq:
  assumes ok: "slice_ok s" "slice_ok t"
  shows "is_suffix_of s t \<longleftrightarrow> suffix (slice_bits s) (slice_bits t)"
proof (cases "slice_size s \<le> slice_size t")
  case True
  have "is_suffix_of s t \<longleftrightarrow> slice_bits s = drop (slice_size t - slice_size s) (slice_bits t)"
    using same_bits_slices [OF ok, of 0 "slice_size s" "slice_size t - slice_size s"] True ok
    by (simp add: is_suffix_of_def)
  then show ?thesis using ok True by (auto simp: suffix_eq_drop)
next
  case False
  then show ?thesis using ok by (simp add: is_suffix_of_def suffix_eq_drop)
qed

lemma slice_lex_cmp_eq:
  "slice_ok s \<Longrightarrow> slice_ok t \<Longrightarrow> slice_lex_cmp s t = lex_cmp (slice_bits s) (slice_bits t)"
  using slice_room [of s] slice_room [of t] by (simp add: slice_lex_cmp_def bits_lexcmp_correct slice_bits_window)

lemma lcp_take_both: "lcp (take (length ys) xs) (take (length xs) ys) = lcp xs ys"
proof (induction xs arbitrary: ys)
  case (Cons x xs)
  then show ?case by (cases ys) (simp_all add: lcp_def)
qed simp

lemma common_prefix_len_eq:
  assumes ok: "slice_ok s" "slice_ok t"
  shows "common_prefix_len s t = lcp (slice_bits s) (slice_bits t)"
proof -
  let ?n = "min (slice_size s) (slice_size t)"
  have "bits_st s + ?n \<le> 8 * length (slice_data s)" "bits_st t + ?n \<le> 8 * length (slice_data t)"
    using slice_room [OF ok(1)] slice_room [OF ok(2)] by linarith+
  moreover have "take ?n (drop (bits_st s) (bits_of (slice_data s))) = take (slice_size t) (slice_bits s)"
    "take ?n (drop (bits_st t) (bits_of (slice_data t))) = take (slice_size s) (slice_bits t)"
    by (simp_all add: slice_bits_window min.commute)
  moreover have "lcp (take (slice_size t) (slice_bits s)) (take (slice_size s) (slice_bits t)) = lcp (slice_bits s) (slice_bits t)"
    using lcp_take_both [of "slice_bits t" "slice_bits s"] ok by simp
  moreover have "lcp (slice_bits s) (slice_bits t) = 0" if "?n = 0"
  proof -
    have "slice_bits s = [] \<or> slice_bits t = []"
      using that length_slice_bits [OF ok(1)] length_slice_bits [OF ok(2)] by (auto simp: min_def split: if_splits)
    then show ?thesis by auto
  qed
  ultimately show ?thesis by (simp add: common_prefix_len_def upto_or_0_def bits_memcmp_correct)
qed

lemma contents_equal_eq:
  assumes ok: "slice_ok s" "slice_ok t"
  shows "contents_equal s t \<longleftrightarrow> slice_bits s = slice_bits t
     \<and> map (\<lambda>c. get_hash c max_level) (slice_children s) = map (\<lambda>c. get_hash c max_level) (slice_children t)"
proof (cases "slice_size s = slice_size t \<and> slice_size_refs s = slice_size_refs t")
  case True
  have "contents_equal s t \<longleftrightarrow> slice_bits s = slice_bits t \<and> (\<forall>i < slice_size_refs s.
      get_hash (slice_children s ! i) max_level = get_hash (slice_children t ! i) max_level)"
    using True same_bits_slices [OF ok, of 0 "slice_size s" 0] ok
    by (auto simp: contents_equal_def prefetch_ref_eq)
  then show ?thesis using True ok by (auto simp: list_eq_iff_nth_eq)
next
  case False
  have "slice_bits s = slice_bits t \<Longrightarrow> slice_size s = slice_size t" using ok by (metis length_slice_bits)
  moreover have "map f (slice_children s) = map f (slice_children t) \<Longrightarrow> slice_size_refs s = slice_size_refs t" for f :: "cell \<Rightarrow> byte list"
    using ok by (metis length_map length_slice_children)
  ultimately show ?thesis using False unfolding contents_equal_def by blast
qed

lemma count_leading_eq: "slice_ok s \<Longrightarrow> count_leading base s b = scan b (slice_bits s)"
  using slice_room [of s] by (simp add: count_leading_def bits_memscan_correct slice_bits_window)

lemma count_trailing_eq: "slice_ok s \<Longrightarrow> count_trailing s b = scan b (rev (slice_bits s))"
  using slice_room [of s] by (simp add: count_trailing_def bits_memscan_rev_correct slice_bits_window)

end
