(* ===== verification/Slice_Codec.thy ===== *)
theory Slice_Codec
  imports Slice_View Merkle
begin

text \<open>
  Builders and slices together: appending a slice to a builder, the completion tag, bounded
  numbers, reading a sequence of fields, and the round trip from a builder through a finalized cell
  to a slice. Also \<open>load_cell_slice\<close> (\<open>CellSlice.cpp\<close>), which opens a cell for the virtual machine.
\<close>

section \<open>The completion tag\<close>

text \<open>What \<open>remove_trailing\<close> leaves: the trailing zeroes and the last one bit are gone.\<close>

definition strip_tag :: "bool list \<Rightarrow> bool list" where
  "strip_tag xs = rev (drop 1 (dropWhile Not (rev xs)))"

lemma dropWhile_zeroes: "dropWhile Not (replicate k False @ True # ys) = True # ys"
  by (induction k) simp_all

lemma strip_tag_append [simp]: "strip_tag (xs @ True # replicate k False) = xs"
  using dropWhile_zeroes [of k "rev xs"] by (simp add: strip_tag_def)

lemma strip_tag_take: "strip_tag xs = take (length xs - scan False (rev xs) - 1) xs"
proof -
  have "dropWhile Not (rev xs) = drop (scan False (rev xs)) (rev xs)"
  proof -
    have "(=) False = Not" by auto
    then show ?thesis by (simp add: scan_def dropWhile_eq_drop)
  qed
  then have "strip_tag xs = rev (drop (scan False (rev xs) + 1) (rev xs))"
    by (simp add: strip_tag_def)
  then show ?thesis by (simp add: rev_drop)
qed

lemma remove_trailing_correct:
  assumes ok: "slice_ok s"
  shows "slice_ok (snd (remove_trailing s))" and "slice_bits (snd (remove_trailing s)) = strip_tag (slice_bits s)"
    and "slice_refs (snd (remove_trailing s)) = slice_refs s"
    and "fst (remove_trailing s) = length (slice_bits s) - length (strip_tag (slice_bits s))"
proof -
  define t where "t = scan False (rev (slice_bits s))"
  have tl: "t \<le> slice_size s" using scan_le [of False "rev (slice_bits s)"] ok by (simp add: t_def)
  have "bits_memscan_rev (slice_data s) (bits_st s) (slice_size s) False = t"
    using count_trailing_eq [OF ok, of False] by (simp add: count_trailing_def t_def)
  then have e: "remove_trailing s = (if bits_st s = bits_en s then (0, s)
      else if t = slice_size s then (t, s\<lparr>bits_en := bits_en s - t\<rparr>) else (t + 1, s\<lparr>bits_en := bits_en s - (t + 1)\<rparr>))"
    by (simp add: remove_trailing_def Let_def slice_size_def)
  define k where "k = (if t = slice_size s then t else t + 1)"
  have k: "k \<le> slice_size s" using tl by (auto simp: k_def)
  have st: "strip_tag (slice_bits s) = take (slice_size s - k) (slice_bits s)"
    using ok tl unfolding strip_tag_take k_def t_def [symmetric] by auto
  have same: "s\<lparr>bits_en := bits_en s\<rparr> = s" by simp
  have k0: "bits_st s = bits_en s \<Longrightarrow> k = 0" using k by (simp add: slice_size_def)
  then have ek: "remove_trailing s = (k, s\<lparr>bits_en := bits_en s - k\<rparr>)"
    unfolding e by (auto simp: k_def same)
  have en: "bits_en s - k = bits_st s + (slice_size s - k)" "refs_en s = refs_st s + slice_size_refs s"
    using ok k by (auto simp: slice_ok_def slice_size_def slice_size_refs_def)
  have upd: "s\<lparr>bits_en := bits_en s - k\<rparr> = s\<lparr>bits_en := bits_st s + (slice_size s - k), refs_en := refs_st s + slice_size_refs s\<rparr>"
    unfolding en(1) en(2) [symmetric] by simp
  note S = slice_ok_shrink [OF ok, of "slice_size s - k" "slice_size_refs s", folded upd]
  show "slice_ok (snd (remove_trailing s))" "slice_bits (snd (remove_trailing s)) = strip_tag (slice_bits s)"
    "slice_refs (snd (remove_trailing s)) = slice_refs s"
    using S ok by (simp_all add: ek st)
  show "fst (remove_trailing s) = length (slice_bits s) - length (strip_tag (slice_bits s))"
    using ok k by (simp add: ek st)
qed

section \<open>Prefixes and bounded numbers\<close>

lemma xor_eq_0_iff_eq: "a XOR b = 0 \<longleftrightarrow> a = (b :: u64)"
proof
  assume "a XOR b = 0"
  then have "(a XOR b) XOR b = b" by simp
  then show "a = b" by (simp add: xor.assoc)
qed simp

lemma low_bits_eq_iff:
  assumes "length xs = n" "n < 64"
  shows "(word_of_bits xs XOR value) AND (push_bit n 1 - 1) = 0 \<longleftrightarrow> xs = low_bits n (value :: u64)"
proof -
  have m: "(push_bit n 1 - 1 :: u64) = mask n" by (simp add: mask_eq_exp_minus_1 push_bit_eq_mult)
  have "(word_of_bits xs XOR value) AND mask n = (take_bit n (word_of_bits xs) XOR take_bit n value)"
    by (simp add: take_bit_xor flip: take_bit_eq_mask)
  also have "\<dots> = 0 \<longleftrightarrow> take_bit n (word_of_bits xs) = take_bit n value" by (rule xor_eq_0_iff_eq)
  also have "\<dots> \<longleftrightarrow> xs = low_bits n value"
  proof
    assume e: "take_bit n (word_of_bits xs) = take_bit n value"
    have "low_bits n (take_bit n w) = low_bits n w" for w :: u64
      by (rule nth_equalityI) (auto simp: nth_low_bits bit_take_bit_iff)
    then have "low_bits n (word_of_bits xs :: u64) = low_bits n value" using e by metis
    then show "xs = low_bits n value" using low_bits_word_of_bits [of xs, where 'a = 64] assms by simp
  next
    assume "xs = low_bits n value"
    then show "take_bit n (word_of_bits xs) = take_bit n value" using assms(2) by (simp add: word_of_low_bits)
  qed
  finally show ?thesis unfolding m .
qed

lemma slice_begins_with_correct:
  assumes ok: "slice_ok s" and n: "n < 64"
  shows "fst (slice_begins_with s n value) = (take n (slice_bits s) = low_bits n value)"
    and "reads s 0 0 (snd (slice_begins_with s n value))"
proof -
  have len: "\<not> n \<le> slice_size s \<Longrightarrow> take n (slice_bits s) \<noteq> low_bits n value"
    using ok by (metis length_low_bits length_slice_bits length_take min.cobounded2 min.commute)
  show "fst (slice_begins_with s n value) = (take n (slice_bits s) = low_bits n value)"
  proof (cases "n \<le> slice_size s")
    case True
    have "length (take n (slice_bits s)) = n" using ok True by simp
    from low_bits_eq_iff [OF this n] show ?thesis
      using prefetch_ulong_correct(1) [OF ok True] n True
      by (simp add: slice_begins_with_def slice_have_def case_prod_beta)
  qed (use len in \<open>simp add: slice_begins_with_def slice_have_def\<close>)
  show "reads s 0 0 (snd (slice_begins_with s n value))"
    using prefetch_ulong_correct(2) [OF ok, of n] n ok by (simp add: slice_begins_with_def slice_have_def case_prod_beta)
qed

lemma begins_with_skip_correct:
  assumes ok: "slice_ok s" and n: "n < 64"
  shows "case begins_with_skip s n value of (r, s') \<Rightarrow>
    (if take n (slice_bits s) = low_bits n value then r \<and> reads s n 0 s' else \<not> r \<and> reads s 0 0 s')"
proof -
  obtain r s1 where e: "slice_begins_with s n value = (r, s1)" by fastforce
  note B = slice_begins_with_correct [OF assms, of "value", unfolded e fst_conv snd_conv]
  show ?thesis
  proof (cases r)
    case True
    then have "length (take n (slice_bits s)) = n" using B(1) by simp
    then have "n \<le> slice_size s" using ok by simp
    then have "n \<le> slice_size s1" using reads_size [OF B(2) ok] by simp
    note A = slice_advance_reads [OF reads_ok [OF B(2)] this]
    show ?thesis using True B A(1) reads_trans [OF B(2) A(2)]
      by (simp add: begins_with_skip_def e case_prod_beta)
  next
    case False
    then show ?thesis using B by (simp add: begins_with_skip_def e)
  qed
qed

text \<open>A number below a bound is stored in as many bits as the largest one needs and read back with
  the same bound.\<close>

lemma fetch_uint_leq_correct:
  assumes ok: "slice_ok s" and w: "mask_level upper \<le> max_width" "max_width \<le> 32"
  defines "n \<equiv> mask_level upper"
  shows "if n \<le> slice_size s
    then \<exists>r s'. fetch_uint_leq max_width s upper = (r \<le> upper, Some r, s') \<and> unat r = nat_of_bits (take n (slice_bits s))
      \<and> reads s n 0 s'
    else fetch_uint_leq max_width s upper = (False, None, s)"
proof (cases "n \<le> slice_size s")
  case True
  have bits: "32 - count_leading_zeroes32 upper = n" by (simp add: n_def mask_level_def)
  have n32: "n \<le> 32" "n \<le> 64" using w by (simp_all add: n_def)
  obtain v s1 where f: "fetch_ulong s n = (v, s1)" by fastforce
  have v: "unat v = nat_of_bits (take n (slice_bits s))" and r: "reads s n 0 s1"
    using unat_fetch_ulong [OF ok True n32(2)] fetch_ulong_correct(2) [OF ok True n32(2)] f by simp_all
  have "unat v < 2 ^ 32"
  proof -
    have "nat_of_bits (take n (slice_bits s)) < 2 ^ n" using nat_of_bits_less [of "take n (slice_bits s)"] True ok by simp
    also have "\<dots> \<le> 2 ^ 32" using n32(1) by (rule power_increasing) simp
    finally show ?thesis using v by simp
  qed
  then have "unat (ucast v :: u32) = unat v" by (simp add: unsigned_ucast_eq take_bit_nat_eq_self)
  then show ?thesis using True f v r w [folded n_def] unfolding fetch_uint_leq_def bits by (auto simp: slice_have_def Let_def)
next
  case False
  then show ?thesis by (simp add: fetch_uint_leq_def slice_have_def n_def mask_level_def)
qed

lemma fetch_uint_less_eq:
  assumes "0 < upper"
  shows "case fetch_uint_leq max_width s (upper - 1) of (ok, r, s') \<Rightarrow>
     fetch_uint_less max_width s upper = (ok, r, s')"
proof -
  have u: "upper \<noteq> 0" "r < upper \<longleftrightarrow> r \<le> upper - 1" for r :: u32
    using assms by (auto simp: word_less_nat_alt word_le_nat_alt unat_sub_if_size unat_minus_one)
  show ?thesis using u by (simp add: fetch_uint_less_def fetch_uint_leq_def case_prod_beta Let_def)
qed

section \<open>Slices into builders\<close>

definition append_cellslice_bool :: "builder \<Rightarrow> slice \<Rightarrow> bool \<times> builder" where
  "append_cellslice_bool b cs =
     append_bits_refs b (slice_data cs) (bits_st cs) (slice_size cs)
       (map (the \<circ> prefetch_ref cs) [0..<slice_size_refs cs])"

definition append_cellslice :: "builder \<Rightarrow> slice \<Rightarrow> builder_error + builder" where
  "append_cellslice b cs = ensure_pass (append_cellslice_bool b cs)"

definition append_cellslice_chk :: "builder \<Rightarrow> slice \<Rightarrow> nat \<Rightarrow> bool \<times> builder" where
  "append_cellslice_chk b cs size_ext =
     (if slice_size_ext cs = size_ext then append_cellslice_bool b cs else (False, b))"

text \<open>\<open>clone\<close> builds a cell of its own for the slice; without room or on an exception of \<open>finalize\<close> there
  is no value, and the empty slice stands for a failed append.\<close>

definition slice_clone :: "(byte list \<Rightarrow> byte list) \<Rightarrow> slice \<Rightarrow> builder_error + slice" where
  "slice_clone sha256 s =
     (case append_cellslice_bool empty_builder s of
        (False, cb) \<Rightarrow> Inr null_slice
      | (True, cb) \<Rightarrow>
          (case finalize sha256 cb False of
             Inl e \<Rightarrow> Inl e
           | Inr c \<Rightarrow> Inr (slice_NoVmOrd c)))"

definition as_cellslice :: "(byte list \<Rightarrow> byte list) \<Rightarrow> builder \<Rightarrow> builder_error + slice" where
  "as_cellslice sha256 b =
     (case finalize_copy sha256 b False of Inl e \<Rightarrow> Inl e | Inr c \<Rightarrow> Inr (slice_of_loaded (Some c) virt_none))"

definition builder_contents_equal :: "builder \<Rightarrow> slice \<Rightarrow> bool" where
  "builder_contents_equal b cs \<longleftrightarrow>
     b_bits b = slice_size cs \<and> length (b_refs b) = slice_size_refs cs
     \<and> same_bits (b_data b) 0 (slice_data cs) (bits_st cs) (b_bits b)
     \<and> (\<forall>i \<in> set [0..<length (b_refs b)].
          get_hash (b_refs b ! i) max_level = get_hash (the (prefetch_ref cs i)) max_level)"

lemma map_the_children:
  "slice_ok s \<Longrightarrow> map (the \<circ> prefetch_ref s) [0..<slice_size_refs s] = slice_children s"
  by (rule nth_equalityI) (simp_all add: prefetch_ref_eq)

lemma append_cellslice_appends:
  assumes "builder_ok b" and ok: "slice_ok s"
  shows "appends b (slice_bits s) (slice_children s) (append_cellslice_bool b s)"
  using append_bits_refs_appends [OF assms(1), of "bits_st s" "slice_size s" "slice_data s"] slice_room [OF ok]
  by (simp add: append_cellslice_bool_def map_the_children [OF ok] slice_bits_window)

lemma store_refs_foldl:
  assumes "builder_ok b" and "length cs \<le> remaining_refs b"
  shows "foldl (\<lambda>b c. stored b (store_ref b (Some c))) b cs = b\<lparr>b_refs := b_refs b @ cs\<rparr>"
  using assms
proof (induction cs arbitrary: b)
  case (Cons c cs)
  have room: "length (b_refs b) < max_refs" using Cons.prems by (simp add: remaining_refs_def)
  then have s: "stored b (store_ref b (Some c)) = b\<lparr>b_refs := b_refs b @ [c]\<rparr>"
    by (simp add: stored_def store_ref_def store_ref_bool_def ensure_pass_def)
  have "builder_ok (b\<lparr>b_refs := b_refs b @ [c]\<rparr>)" "length cs \<le> remaining_refs (b\<lparr>b_refs := b_refs b @ [c]\<rparr>)"
    using Cons.prems room by (simp_all add: builder_ok_def remaining_refs_def)
  from Cons.IH [OF this] show ?case using s by simp
qed simp

lemma cell_builder_add_slice_appends:
  assumes b: "builder_ok b" and ok: "slice_ok s"
  shows "appends b (slice_bits s) (slice_children s) (cell_builder_add_slice_bool b s)"
proof (cases "can_extend_by2 b (slice_size s) (slice_size_refs s)")
  case True
  have room: "slice_size s \<le> remaining_bits b" "slice_size_refs s \<le> remaining_refs b"
    using True by (simp_all add: can_extend_by2_def remaining_bits_def remaining_refs_def)
  define b1 where "b1 = b\<lparr>b_refs := b_refs b @ slice_children s\<rparr>"
  have "foldl (\<lambda>b cnt. stored b (store_ref b (prefetch_ref s cnt))) b [0..<slice_size_refs s]
      = foldl (\<lambda>b r. stored b (store_ref b r)) b (map (prefetch_ref s) [0..<slice_size_refs s])"
    by (simp add: foldl_map)
  also have "\<dots> = b1"
    using store_refs_foldl [OF b, of "slice_children s"] room ok by (simp add: map_children foldl_map b1_def)
  finally have f: "foldl (\<lambda>b cnt. stored b (store_ref b (prefetch_ref s cnt))) b [0..<slice_size_refs s] = b1" .
  have ok1: "builder_ok b1" using b room ok by (auto simp: b1_def builder_ok_def remaining_refs_def)
  have rb: "remaining_bits b1 = remaining_bits b" "builder_out b1 = builder_out b"
    by (simp_all add: b1_def remaining_bits_def builder_out_def)
  have "appends_or_throws b1 (slice_bits s) [] (store_bits b1 (slice_data s) (slice_size s) (bits_st s))"
    using store_bits_appends [OF ok1 slice_room [OF ok]] by (simp add: slice_bits_window)
  then have "appends b1 (slice_bits s) [] (True, stored b1 (store_bits b1 (slice_data s) (slice_size s) (bits_st s)))"
    using room ok rb by (intro stored_appends) auto
  moreover have "cell_builder_add_slice_bool b s
      = (True, stored b1 (store_bits b1 (slice_data s) (slice_size s) (bits_st s)))"
    using True f by (simp add: cell_builder_add_slice_bool_def prefetch_bits_def slice_have_def)
  ultimately show ?thesis using room ok rb by (simp add: appends_def b1_def)
next
  case False
  then show ?thesis using ok
    by (auto simp: cell_builder_add_slice_bool_def appends_def can_extend_by2_def remaining_bits_def remaining_refs_def)
qed

section \<open>Reading a sequence of fields\<close>

text \<open>Reading a list of formats one after the other, as the unpacking code does; the whole read fails
  when one of them does.\<close>

primrec load_all :: "('s \<Rightarrow> 'w \<Rightarrow> ('x \<times> 's) option) \<Rightarrow> 'w list \<Rightarrow> 's \<Rightarrow> ('x list \<times> 's) option" where
  "load_all get [] s = Some ([], s)"
| "load_all get (w # ws) s =
     (case get s w of
        None \<Rightarrow> None
      | Some (x, s1) \<Rightarrow>
          (case load_all get ws s1 of None \<Rightarrow> None | Some (xs, s2) \<Rightarrow> Some (x # xs, s2)))"

text \<open>What the users of a slice rely on: \<open>get\<close> takes the bits of its format when there are enough and
  fails otherwise.\<close>

locale bit_reader =
  fixes sok :: "'s \<Rightarrow> bool"
    and left :: "'s \<Rightarrow> bool list"
    and wd :: "'w \<Rightarrow> nat"
    and wfits :: "'w \<Rightarrow> bool"
    and decode :: "'w \<Rightarrow> bool list \<Rightarrow> 'y"
    and get :: "'s \<Rightarrow> 'w \<Rightarrow> ('y \<times> 's) option"
  assumes get_enough: "\<lbrakk>sok s; wfits w; wd w \<le> length (left s)\<rbrakk> \<Longrightarrow>
      \<exists>s'. get s w = Some (decode w (take (wd w) (left s)), s') \<and> sok s' \<and> left s' = drop (wd w) (left s)"
    and get_short: "\<lbrakk>sok s; wfits w; length (left s) < wd w\<rbrakk> \<Longrightarrow> get s w = None"
begin

lemma load_all_short:
  "\<lbrakk>sok s; \<forall>w \<in> set ws. wfits w; length (left s) < sum_list (map wd ws)\<rbrakk> \<Longrightarrow> load_all get ws s = None"
proof (induction ws arbitrary: s)
  case (Cons w ws)
  show ?case
  proof (cases "wd w \<le> length (left s)")
    case True
    then obtain y s' where s': "get s w = Some (y, s')" "sok s'" "left s' = drop (wd w) (left s)"
      using get_enough [of s w] Cons.prems by auto
    then have "length (left s') < sum_list (map wd ws)" using Cons.prems True by simp
    with Cons.IH [of s'] s' Cons.prems show ?thesis by simp
  next
    case False
    then show ?thesis using get_short [of s w] Cons.prems by simp
  qed
qed simp

end

text \<open>A writer and a reader that agree on the code of every value.\<close>

locale bit_codec =
  bit_writer ok out room fits code put + bit_reader sok left wd wfits decode get
  for ok :: "'b \<Rightarrow> bool" and out :: "'b \<Rightarrow> bool list" and room :: "'b \<Rightarrow> nat" and fits :: "'x \<Rightarrow> bool"
    and code :: "'x \<Rightarrow> bool list" and put :: "'b \<Rightarrow> 'x \<Rightarrow> 'e + 'b"
    and sok :: "'s \<Rightarrow> bool" and left :: "'s \<Rightarrow> bool list" and wd :: "'w \<Rightarrow> nat" and wfits :: "'w \<Rightarrow> bool"
    and decode :: "'w \<Rightarrow> bool list \<Rightarrow> 'y" and get :: "'s \<Rightarrow> 'w \<Rightarrow> ('y \<times> 's) option"
    and format :: "'x \<Rightarrow> 'w" and val :: "'x \<Rightarrow> 'y" +
  assumes format: "fits x \<Longrightarrow> wfits (format x) \<and> wd (format x) = length (code x) \<and> decode (format x) (code x) = val x"
begin

lemma load_all_codes:
  "\<lbrakk>sok s; \<forall>x \<in> set xs. fits x; left s = concat (map code xs) @ rest\<rbrakk> \<Longrightarrow>
     \<exists>s'. load_all get (map format xs) s = Some (map val xs, s') \<and> sok s' \<and> left s' = rest"
proof (induction xs arbitrary: s)
  case (Cons x xs)
  note f = format [of x]
  obtain s' where s': "get s (format x) = Some (val x, s')" "sok s'" "left s' = concat (map code xs) @ rest"
    using get_enough [of s "format x"] f Cons.prems by auto
  then show ?case using Cons.IH [of s'] Cons.prems by auto
qed simp

text \<open>What has been stored in an empty writer is read back from any reader of its bits.\<close>

theorem round_trip:
  assumes "ok b" "out b = []" "\<forall>x \<in> set xs. fits x" and st: "store_all put xs b = Inr b'"
    and "sok s" "left s = out b'"
  shows "\<exists>s'. load_all get (map format xs) s = Some (map val xs, s') \<and> sok s' \<and> left s' = []"
proof -
  have "length (concat (map code xs)) \<le> room b"
    using store_all_full [of b xs] assms(1,3) st by (metis not_less sum.simps(4) Inl_Inr_False)
  then have "out b' = concat (map code xs)"
    using store_all_room [of b xs] assms(1-3) st by auto
  then show ?thesis using load_all_codes [of s xs "[]"] assms by simp
qed

end

definition get_field :: "slice \<Rightarrow> nat \<Rightarrow> (u64 \<times> slice) option" where
  "get_field s n =
     (case fetch_ulong_bool s n of (ok, Some v, s') \<Rightarrow> if ok then Some (v, s') else None | _ \<Rightarrow> None)"

interpretation field_codec: bit_codec "\<lambda>b. builder_ok b \<and> b_refs b = rs" builder_out remaining_bits
    "\<lambda>f. snd f \<le> 64" "\<lambda>f. low_bits (snd f) (fst f)" put_field
    slice_ok slice_bits "\<lambda>n. n" "\<lambda>n. n \<le> 64" "\<lambda>n. word_of_bits" get_field snd "\<lambda>f. take_bit (snd f) (fst f)"
proof (rule bit_codec.intro, rule fields.bit_writer_axioms, unfold_locales)
  fix s :: slice and n :: nat
  assume ok: "slice_ok s" and n: "n \<le> 64"
  show "\<exists>s'. get_field s n = Some (word_of_bits (take n (slice_bits s)), s') \<and> slice_ok s' \<and> slice_bits s' = drop n (slice_bits s)"
    if "n \<le> length (slice_bits s)"
  proof -
    have l: "n \<le> slice_size s" using that ok by simp
    obtain v s' where f: "fetch_ulong s n = (v, s')" by fastforce
    note F = fetch_ulong_correct [OF ok l n, unfolded f fst_conv snd_conv]
    show ?thesis using F l n by (simp add: get_field_def fetch_ulong_bool_def slice_have_def f reads_def)
  qed
  show "get_field s n = None" if "length (slice_bits s) < n"
    using that ok by (simp add: get_field_def fetch_ulong_bool_def slice_have_def)
next
  fix f :: "u64 \<times> nat"
  assume "snd f \<le> 64"
  then show "snd f \<le> 64 \<and> snd f = length (low_bits (snd f) (fst f))
      \<and> word_of_bits (low_bits (snd f) (fst f)) = take_bit (snd f) (fst f)"
    by (simp add: word_of_low_bits)
qed

text \<open>Bytes go through \<open>fetch_bytes\<close>.\<close>

definition get_bytes :: "slice \<Rightarrow> nat \<Rightarrow> (byte list \<times> slice) option" where
  "get_bytes s n = (case fetch_bytes s (replicate n 0) n of (ok, buffer, s') \<Rightarrow> if ok then Some (buffer, s') else None)"

definition bytes_of_bits :: "nat \<Rightarrow> bool list \<Rightarrow> byte list" where
  "bytes_of_bits n xs = map (\<lambda>i. word_of_bits (take 8 (drop (8 * i) xs))) [0..<n]"

lemma bytes_of_bits_bits_of: "bytes_of_bits (length bs) (bits_of bs) = bs"
proof (rule nth_equalityI)
  fix i assume "i < length (bytes_of_bits (length bs) (bits_of bs))"
  then have i: "i < length bs" by (simp add: bytes_of_bits_def)
  have "take 8 (drop (8 * i) (bits_of bs)) = bits_of (take 1 (drop i bs))"
    using take_bits_of [of 1 "drop i bs"] by (simp add: drop_bits_of)
  also have "take 1 (drop i bs) = [bs ! i]" using i by (simp add: take_Suc_conv_app_nth)
  finally show "bytes_of_bits (length bs) (bits_of bs) ! i = bs ! i"
    using i by (simp add: bytes_of_bits_def word_of_bits_byte)
qed (simp add: bytes_of_bits_def)

lemma fetch_bytes_correct:
  assumes ok: "slice_ok s" and n: "8 * n \<le> slice_size s" and buf: "length buffer = n"
  shows "\<exists>s'. fetch_bytes s buffer n = (True, bytes_of_bits n (slice_bits s), s') \<and> reads s (8 * n) 0 s'"
proof -
  define bs where "bs = bits_memcpy buffer 0 (slice_data s) (bits_st s) (n * 8)"
  have room: "bits_st s + n * 8 \<le> 8 * length (slice_data s)" using slice_room [OF ok] n by linarith
  have b: "bits_of bs = take (8 * n) (slice_bits s)"
  proof -
    have "bits_of bs = overwrite (bits_of buffer) 0 (take (n * 8) (drop (bits_st s) (bits_of (slice_data s))))"
      unfolding bs_def by (rule bits_memcpy_correct) (use room buf in auto)
    also have "\<dots> = take (n * 8) (drop (bits_st s) (bits_of (slice_data s)))"
      using room buf by (simp add: overwrite_def)
    finally show ?thesis using n by (simp add: slice_bits_window mult.commute)
  qed
  have "length (bits_of bs) = 8 * n" unfolding b using n ok by simp
  then have l: "length bs = n" by simp
  have "bytes_of_bits n (slice_bits s) = bytes_of_bits n (take (8 * n) (slice_bits s))"
  proof -
    have "take 8 (drop (8 * i) (slice_bits s)) = take 8 (drop (8 * i) (take (8 * n) (slice_bits s)))" if "i < n" for i
      using that by (simp add: drop_take min_def)
    then show ?thesis by (simp add: bytes_of_bits_def)
  qed
  also have "\<dots> = bs" using bytes_of_bits_bits_of [of bs] b l by simp
  finally have eq: "bytes_of_bits n (slice_bits s) = bs" .
  have "fetch_bytes s buffer n = (True, bs, snd (slice_advance s (n * 8)))"
    using n by (simp add: fetch_bytes_def prefetch_bytes_def prefetch_bits_to_def prefetch_bits_def slice_have_def bs_def
        mult.commute)
  moreover have "reads s (8 * n) 0 (snd (slice_advance s (n * 8)))"
    using slice_advance_reads(2) [OF ok n] by (simp add: mult.commute)
  ultimately show ?thesis using eq by simp
qed

interpretation byte_codec: bit_codec "\<lambda>b. builder_ok b \<and> b_refs b = rs" builder_out remaining_bits
    "\<lambda>s. True" bits_of put_bytes slice_ok slice_bits "\<lambda>n. 8 * n" "\<lambda>n. True" bytes_of_bits get_bytes length "\<lambda>x. x"
proof (rule bit_codec.intro, rule bytes.bit_writer_axioms, unfold_locales)
  fix s :: slice and n :: nat
  assume ok: "slice_ok s"
  show "\<exists>s'. get_bytes s n = Some (bytes_of_bits n (take (8 * n) (slice_bits s)), s') \<and> slice_ok s'
      \<and> slice_bits s' = drop (8 * n) (slice_bits s)" if "8 * n \<le> length (slice_bits s)"
  proof -
    have l: "8 * n \<le> slice_size s" using that ok by simp
    obtain s' where f: "fetch_bytes s (replicate n 0) n = (True, bytes_of_bits n (slice_bits s), s')" "reads s (8 * n) 0 s'"
      using fetch_bytes_correct [OF ok l, of "replicate n 0"] by auto
    have "bytes_of_bits n (slice_bits s) = bytes_of_bits n (take (8 * n) (slice_bits s))"
      by (simp add: bytes_of_bits_def drop_take min_def)
    then show ?thesis using f by (simp add: get_bytes_def reads_def)
  qed
  show "get_bytes s n = None" if "length (slice_bits s) < 8 * n"
    using that ok by (simp add: get_bytes_def fetch_bytes_def prefetch_bytes_def prefetch_bits_to_def prefetch_bits_def
        slice_have_def mult.commute)
qed (simp add: bytes_of_bits_bits_of)

section \<open>From a builder to a slice\<close>

text \<open>A finalized builder is opened as a slice of what it held.\<close>

lemma finalize_slice:
  assumes c: "finalize sha256 b special = Inr c" and b: "builder_ok b"
    and sha: "\<And>x. length (sha256 x) = hash_bytes" and refs: "\<forall>r \<in> set (b_refs b). wf_cell r"
  shows "slice_ok (slice_NoVm c)" and "slice_bits (slice_NoVm c) = builder_out b"
    and "slice_children (slice_NoVm c) = b_refs b"
proof -
  note F = finalize_cell [OF c b sha refs]
  obtain refs' i hs ds d where ce: "c = Data_Cell i d refs' hs ds"
    using create_Some [OF finalize_InrD [OF c]] create_InrE [OF finalize_InrD [OF c]] by metis
  note S = slice_NoVm_data_cell [OF F(1) [unfolded ce]]
  show "slice_ok (slice_NoVm c)" "slice_bits (slice_NoVm c) = builder_out b"
    "slice_children (slice_NoVm c) = b_refs b"
    using S F(2,3) by (simp_all add: ce)
qed

lemma fields_round_trip:
  assumes st: "store_all put_field fs empty_builder = Inr b" and w: "\<forall>f \<in> set fs. snd f \<le> 64"
    and c: "finalize sha256 b False = Inr c" and sha: "\<And>x. length (sha256 x) = hash_bytes"
  shows "\<exists>s'. load_all get_field (map snd fs) (slice_NoVm c) = Some (map (\<lambda>f. take_bit (snd f) (fst f)) fs, s')
     \<and> slice_bits s' = []"
proof -
  have e: "builder_ok empty_builder \<and> b_refs empty_builder = []" by (simp add: builder_ok_empty)
  have room: "length (concat (map (\<lambda>f. low_bits (snd f) (fst f)) fs)) \<le> remaining_bits empty_builder"
  proof (rule ccontr)
    assume "\<not> length (concat (map (\<lambda>f. low_bits (snd f) (fst f)) fs)) \<le> remaining_bits empty_builder"
    then have "\<exists>e. store_all put_field fs empty_builder = Inl e"
      using fields.store_all_full [OF e w] by (simp only: not_le)
    with st show False by simp
  qed
  obtain b' where "store_all put_field fs empty_builder = Inr b'" "builder_ok b'" "b_refs b' = []"
    using fields.store_all_room [OF e w room] by blast
  with st have b: "builder_ok b" "b_refs b = []" by simp_all
  have "\<forall>r \<in> set (b_refs b). wf_cell r" using b(2) by simp
  note F = finalize_slice [OF c b(1) sha this]
  have "builder_out empty_builder = []" by simp
  from field_codec.round_trip [OF e this w st F(1,2)] show ?thesis by blast
qed

section \<open>Opening a cell for the virtual machine\<close>

text \<open>The virtual machine, when there is one, registers the hash of every cell it loads and resolves
  the hash of a library; \<open>can_be_special\<close> says whether the caller takes a special cell, and the
  result says whether it is one. A library that resolves to a library is followed again, so that
  the loop need not end.\<close>

datatype load_error = Cell_und string | Virt_error nat

type_synonym loaded = "byte list list \<times> (load_error + (cell \<times> virt) \<times> bool)"

partial_function (option) load_cell_slice_impl ::
  "(bool list \<Rightarrow> cell option) option \<Rightarrow> cell \<Rightarrow> bool \<Rightarrow> byte list list \<Rightarrow> loaded option" where
  "load_cell_slice_impl vm c can_be_special reg =
     (let reg1 = (case vm of None \<Rightarrow> reg | Some f \<Rightarrow> reg @ [get_hash c max_level]);
          dc = fst (load_cell c); v = snd (load_cell c);
          type = data_special_type (c_info dc) (c_data dc); special = i_is_special (c_info dc)
      in if type = PrunnedBranch \<and> vp_virtualization v \<noteq> 0 then Some (reg1, Inl (Virt_error (vp_virtualization v)))
         else if can_be_special then Some (reg1, Inr ((dc, v), special))
         else if \<not> special then Some (reg1, Inr ((dc, v), False))
         else if type = Library then
           (case vm of
              None \<Rightarrow> Some (reg1, Inl (Cell_und ''failed to load library cell (no vm_state_interface available)''))
            | Some load_library \<Rightarrow>
                (case load_library (take hash_bits (drop 8 (bits_of (c_data dc)))) of
                   None \<Rightarrow> Some (reg1, Inl (Cell_und ''failed to load library cell''))
                 | Some c1 \<Rightarrow> load_cell_slice_impl vm c1 False reg1))
         else if type = PrunnedBranch then Some (reg1, Inl (Cell_und ''trying to load prunned cell''))
         else Some (reg1, Inl (Cell_und ''unexpected special cell'')))"

declare load_cell_slice_impl.simps [code]

definition load_cell_slice :: "(bool list \<Rightarrow> cell option) option \<Rightarrow> cell \<Rightarrow> (load_error + slice) option" where
  "load_cell_slice vm c =
     map_option (\<lambda>(reg, r). case r of Inl e \<Rightarrow> Inl e | Inr ((dc, v), sp) \<Rightarrow> Inr (slice_of_loaded (Some dc) v))
       (load_cell_slice_impl vm c False [])"

definition load_cell_slice_special ::
  "(bool list \<Rightarrow> cell option) option \<Rightarrow> cell \<Rightarrow> (load_error + slice \<times> bool) option" where
  "load_cell_slice_special vm c =
     map_option (\<lambda>(reg, r). case r of Inl e \<Rightarrow> Inl e | Inr ((dc, v), sp) \<Rightarrow> Inr (slice_of_loaded (Some dc) v, sp))
       (load_cell_slice_impl vm c True [])"

text \<open>Without a virtual machine there is no loop.\<close>

lemma load_cell_slice_impl_novm: "\<exists>r. load_cell_slice_impl None c can_be_special reg = Some r"
  by (subst load_cell_slice_impl.simps) (simp add: Let_def)

text \<open>Only ordinary cells reach a caller that does not take special ones, and never an absent branch
  of a virtualized tree.\<close>

definition load_allowed :: "bool \<Rightarrow> loaded \<Rightarrow> bool" where
  "load_allowed can_be_special r \<longleftrightarrow>
     (case snd r of
        Inl e \<Rightarrow> True
      | Inr ((dc, v), sp) \<Rightarrow> sp = i_is_special (c_info dc) \<and> (sp \<longrightarrow> can_be_special)
          \<and> \<not> (data_special_type (c_info dc) (c_data dc) = PrunnedBranch \<and> vp_virtualization v \<noteq> 0))"

lemma load_allowed_mono: "load_allowed False r \<Longrightarrow> load_allowed can_be_special r"
  by (auto simp: load_allowed_def split: sum.splits prod.splits)

lemma load_cell_slice_impl_allowed:
  assumes "load_cell_slice_impl vm c can_be_special reg = Some r"
  shows "load_allowed can_be_special r"
  using assms
proof (induction rule: load_cell_slice_impl.raw_induct
    [where P = "\<lambda>vm c can_be_special reg r. load_allowed can_be_special r", rotated, consumes 1, case_names step])
  case (step load vm c can_be_special reg r)
  define dc where "dc = fst (load_cell c)"
  define v where "v = snd (load_cell c)"
  define reg1 where "reg1 = (case vm of None \<Rightarrow> reg | Some f \<Rightarrow> reg @ [get_hash c max_level])"
  note body = step(2) [unfolded Let_def, folded reg1_def dc_def v_def]
  show ?case
  proof (cases "data_special_type (c_info dc) (c_data dc) = PrunnedBranch \<and> vp_virtualization v \<noteq> 0")
    case True
    with body have "r = (reg1, Inl (Virt_error (vp_virtualization v)))" by simp
    then show ?thesis by (simp add: load_allowed_def)
  next
    case False
    show ?thesis
    proof (cases "can_be_special \<or> \<not> i_is_special (c_info dc)")
      case True
      then have "r = (reg1, Inr ((dc, v), i_is_special (c_info dc)))"
        using body False by (auto simp only: if_False split: if_splits)
      then show ?thesis using True False by (auto simp: load_allowed_def)
    next
      case F: False
      then have step': "(if data_special_type (c_info dc) (c_data dc) = Library then
           (case vm of
              None \<Rightarrow> Some (reg1, Inl (Cell_und ''failed to load library cell (no vm_state_interface available)''))
            | Some load_library \<Rightarrow>
                (case load_library (take hash_bits (drop 8 (bits_of (c_data dc)))) of
                   None \<Rightarrow> Some (reg1, Inl (Cell_und ''failed to load library cell''))
                 | Some c1 \<Rightarrow> load vm c1 False reg1))
         else if data_special_type (c_info dc) (c_data dc) = PrunnedBranch
         then Some (reg1, Inl (Cell_und ''trying to load prunned cell''))
         else Some (reg1, Inl (Cell_und ''unexpected special cell''))) = Some r"
        using body False by (simp only: if_False not_not de_Morgan_disj simp_thms)
      have "snd r = Inl e \<Longrightarrow> load_allowed can_be_special r" for e by (simp add: load_allowed_def)
      moreover have "(\<exists>e. snd r = Inl e) \<or> (\<exists>c1. load vm c1 False reg1 = Some r)"
        using step' by (auto split: if_splits option.splits)
      ultimately show ?thesis using step(1) load_allowed_mono by blast
    qed
  qed
qed

end
