(* ===== verification/Slice_Quirks.thy ===== *)
theory Slice_Quirks
  imports Slice_Codec
begin

text \<open>
  Operations of \<open>CellSlice\<close> that do not do what their neighbours do: \<open>fetch_octet\<close> leaves the position
  behind, \<open>operator+\<close> drops bits at both ends, \<open>advance_ext\<close> on a packed size swaps its halves, and
  \<open>bit_at\<close> admits the position after the last bit.
\<close>

lemma fetch_octet_stays:
  assumes ok: "slice_ok s" and n: "8 \<le> slice_size s"
  shows "fst (fetch_octet s) = int (nat_of_bits (take 8 (slice_bits s))) \<and> slice_size (snd (fetch_octet s)) = slice_size s
     \<and> s_zd (snd (fetch_octet s)) = s_zd (preload_at_least s 8) - 8"
proof -
  define s1 where "s1 = preload_at_least s 8"
  have P: "reads s 0 0 s1" "\<And>i. i < 8 \<Longrightarrow> bit (s_z s1) (63 - i) = slice_bits s ! i"
    using preload_reads [OF ok n] by (simp_all add: s1_def)
  have f: "fetch_octet s = (uint (drop_bit 56 (s_z s1)), s1\<lparr>s_z := push_bit 8 (s_z s1), s_zd := s_zd s1 - 8\<rparr>)"
    using n by (simp add: fetch_octet_def slice_have_def Let_def s1_def)
  have l: "length (take 8 (slice_bits s)) = 8" using n ok by simp
  have "drop_bit (64 - 8) (s_z s1) = word_of_bits (take 8 (slice_bits s))"
    by (rule drop_top_word_of_bits [OF l]) (use P(2) in auto)
  then have "uint (drop_bit 56 (s_z s1)) = int (nat_of_bits (take 8 (slice_bits s)))"
    using l unat_word_of_bits [of "take 8 (slice_bits s)", where 'a = 64] by (simp add: uint_nat)
  moreover have "slice_size s1 = slice_size s" using reads_size [OF P(1) ok] by simp
  ultimately show ?thesis by (simp add: f s1_def [symmetric] slice_size_def)
qed

lemma slice_plus_window:
  assumes "slice_ok s"
  shows "if 2 * offs \<le> slice_size s
    then slice_plus_assert s offs \<and> slice_ok (slice_plus s offs)
      \<and> slice_bits (slice_plus s offs) = drop offs (take (slice_size s - offs) (slice_bits s))
      \<and> slice_children (slice_plus s offs) = slice_children s
    else slice_plus_assert s offs \<longleftrightarrow> slice_size s = 0"
proof (cases "2 * offs \<le> slice_size s")
  case True
  then have n: "offs \<le> slice_size s - offs" "slice_size s - offs \<le> slice_size s" and m: "min offs (slice_size s) = offs" by simp_all
  note W = slice_window_drops [OF assms n le0 order.refl]
  have "length (slice_children s) = slice_size_refs s" using length_slice_children [OF assms] .
  then show ?thesis using True W n(1) by (simp add: slice_plus_def slice_plus_assert_def m)
next
  case False
  then show ?thesis by (auto simp: slice_plus_assert_def min_def)
qed

lemma packed_halves:
  assumes "n < 2 ^ 16" and "k < 2 ^ 16"
  shows "unat (of_nat (n + k * 2 ^ 16) AND 0xffff :: u32) = n" and "unat (drop_bit 16 (of_nat (n + k * 2 ^ 16) :: u32)) = k"
proof -
  have "n + k * 2 ^ 16 < 2 ^ 32" using assms by simp
  then have u: "unat (of_nat (n + k * 2 ^ 16) :: u32) = n + k * 2 ^ 16" by (simp only: unat_of_nat) simp
  have m: "(0xffff :: u32) = mask 16" by (simp add: mask_eq_exp_minus_1)
  have "unat (of_nat (n + k * 2 ^ 16) AND 0xffff :: u32) = take_bit 16 (n + k * 2 ^ 16)"
    unfolding m by (simp only: u unsigned_take_bit_eq flip: take_bit_eq_mask)
  then show "unat (of_nat (n + k * 2 ^ 16) AND 0xffff :: u32) = n" using assms by (simp add: take_bit_eq_mod)
  have "unat (drop_bit 16 (of_nat (n + k * 2 ^ 16) :: u32)) = (n + k * 2 ^ 16) div 2 ^ 16"
  proof -
    have "take_bit 32 (n + k * 2 ^ 16) = n + k * 2 ^ 16"
      using \<open>n + k * 2 ^ 16 < 2 ^ 32\<close> by (rule take_bit_nat_eq_self)
    then show ?thesis unfolding unsigned_drop_bit_eq u by (simp add: drop_bit_eq_div)
  qed
  then show "unat (drop_bit 16 (of_nat (n + k * 2 ^ 16) :: u32)) = k" using assms by simp
qed

text \<open>\<open>bit_at\<close> reads past the end of the slice at \<open>i = size()\<close>.\<close>

lemma bit_at_end: "bit_at s (slice_size s) = of_bool (bits_of (slice_data s) ! (bits_st s + slice_size s))"
  by (simp add: bit_at_def slice_have_def)

lemma bit_at_inside: "slice_ok s \<Longrightarrow> i < slice_size s \<Longrightarrow> bit_at s i = of_bool (slice_bits s ! i)"
  by (simp add: bit_at_def slice_have_def nth_slice_bits)

section \<open>Libraries\<close>

text \<open>The cell that a library cell is replaced by.\<close>

definition library_target :: "(bool list \<Rightarrow> cell option) \<Rightarrow> cell \<Rightarrow> cell option" where
  "library_target f c =
     (let dc = fst (load_cell c)
      in if data_special_type (c_info dc) (c_data dc) = Library \<and> i_is_special (c_info dc)
         then f (take hash_bits (drop 8 (bits_of (c_data dc)))) else None)"

lemma load_cell_slice_impl_ends:
  assumes "\<And>c c'. library_target f c = Some c' \<Longrightarrow> rank c' < (rank c :: nat)"
  shows "\<exists>r. load_cell_slice_impl (Some f) c can_be_special reg = Some r"
proof (induction "rank c" arbitrary: c can_be_special reg rule: less_induct)
  case less
  show ?case
  proof (cases "library_target f c")
    case None
    then show ?thesis by (subst load_cell_slice_impl.simps) (auto simp: library_target_def Let_def split: option.splits)
  next
    case (Some c')
    have "\<exists>r. load_cell_slice_impl (Some f) c' False reg = Some r" for reg by (rule less.hyps [OF assms [OF Some]])
    then show ?thesis using Some
      by (subst load_cell_slice_impl.simps) (auto simp: library_target_def Let_def split: if_splits)
  qed
qed

end
