(* ===== verification/Builder_Hash.thy ===== *)
theory Builder_Hash
  imports Cell_Builder
begin

text \<open>
  \<open>CellBuilder::compute_hash\<close> against the hash of the finalized cell: the messages hashed differ by the
  depths of the references.
\<close>

lemma memcpy_same:
  assumes "bits \<le> 8 * length data"
  shows "bits_memcpy (take ((bits + 7) div 8) data) 0 data 0 bits = take ((bits + 7) div 8) data"
proof -
  let ?n = "(bits + 7) div 8"
  have n: "bits \<le> 8 * ?n" "?n \<le> length data" using assms by presburger+
  have eq: "bits_of (bits_memcpy (take ?n data) 0 data 0 bits) = overwrite (bits_of (take ?n data)) 0 (take bits (bits_of data))"
    using bits_memcpy_correct [of 0 bits "take ?n data" 0 data] assms n by (simp add: min_absorb2)
  also have "\<dots> = take bits (bits_of data) @ drop bits (take (8 * ?n) (bits_of data))"
    using assms by (simp add: overwrite_def take_bits_of min_absorb2)
  also have "\<dots> = take (8 * ?n) (bits_of data)"
  proof -
    have "take bits (bits_of data) = take bits (take (8 * ?n) (bits_of data))" using n by (simp add: min_absorb1)
    then show ?thesis by (metis append_take_drop_id)
  qed
  also have "\<dots> = bits_of (take ?n data)" by (rule take_bits_of)
  finally have e: "bits_of (bits_memcpy (take ?n data) 0 data 0 bits) = bits_of (take ?n data)" .
  then have "length (bits_memcpy (take ?n data) 0 data 0 bits) = length (take ?n data)"
    by (metis length_bits_of mult_left_cancel zero_neq_numeral)
  with e show ?thesis by (simp add: bits_of_inject)
qed

text \<open>\<open>flush\<close> completes the data of the builder as \<open>create\<close> completes that of the cell.\<close>

lemma flushed_data:
  assumes b: "builder_ok b"
  shows "take ((b_bits b + 7) div 8) (b_data (snd (builder_flush b))) = copy_data (b_data b) 0 (b_bits b)"
proof -
  define n where "n = (b_bits b + 7) div 8"
  define data where "data = b_data b"
  define bits where "bits = b_bits b"
  have len: "bits \<le> 8 * length data" using b by (auto simp: builder_ok_def data_def bits_def)
  have "take n (b_data (snd (builder_flush b))) = copy_data_junk (take n data) data 0 bits"
    using memcpy_same [OF len] ceil_bytes [of bits]
    by (auto simp: builder_flush_def copy_data_junk_def Let_def n_def data_def bits_def take_update_swap ceil_bytes)
  moreover have "n = (bits + 7) div 8" "n \<le> length data" using len unfolding n_def bits_def by presburger+
  then have "bits_of (copy_data_junk (take n data) data 0 bits) = bits_of (copy_data data 0 bits)"
    using len by (simp add: bits_of_copy_data_junk bits_of_copy_data)
  moreover have "length (copy_data_junk (take n data) data 0 bits) = length (copy_data data 0 bits)"
    using calculation(2) by (metis length_bits_of mult_left_cancel zero_neq_numeral)
  ultimately show ?thesis by (simp add: bits_of_inject n_def data_def bits_def)
qed

text \<open>The first part of the messages: two bytes of description and the completed data.\<close>

definition message_head :: "builder \<Rightarrow> byte list" where
  "message_head b =
     [of_nat (length (b_refs b)), of_nat (b_bits b div 8 * 2 + (if b_bits b mod 8 = 0 then 0 else 1))] @ copy_data (b_data b) 0 (b_bits b)"

lemma compute_hash_message:
  assumes b: "builder_ok b" and refs: "\<forall>r \<in> set (b_refs b). plain sha256 r"
    and c: "finalize sha256 b False = Inr c"
  shows "get_hash c l = sha256 (message_head b @ concat (map (\<lambda>r. depth_buf (get_depth r 0)) (b_refs b)) @ concat (map (\<lambda>r. get_hash r 0) (b_refs b)))"
    and "compute_hash sha256 b = sha256 (message_head b @ concat (map (\<lambda>r. get_hash r 0) (b_refs b)))"
proof -
  have room: "0 + b_bits b \<le> 8 * length (b_data b)" using b by (auto simp: builder_ok_def)
  have pc: "plain sha256 c" by (rule finalize_plain [OF c b refs])
  have one: "get_level_mask r = 0 \<and> get_virtualization r = 0 \<and> get_hash r 3 = get_hash r 0" if r: "plain sha256 r" for r
  proof -
    obtain bits data refs where re: "r = Data_Cell (plain_info bits (length refs)) data refs
        [sha256 (representation bits data refs)] [plain_depth refs]"
      using plain_form [OF r] by blast
    have "get_hash r 3 = get_hash r 0" unfolding re by (simp only: plain_get_hash)
    then show ?thesis by (simp add: re plain_info_def)
  qed
  then have lv: "\<forall>r \<in> set (b_refs b). get_level_mask r = 0" "\<forall>r \<in> set (b_refs b). get_virtualization r = 0"
    and lvl: "\<forall>r \<in> set (b_refs b). get_hash r 3 = get_hash r 0"
    using refs by blast+
  have ce: "c = Data_Cell (plain_info (b_bits b) (length (b_refs b))) (copy_data (b_data b) 0 (b_bits b)) (b_refs b)
      [sha256 (representation (b_bits b) (copy_data (b_data b) 0 (b_bits b)) (b_refs b))] [plain_depth (b_refs b)]"
    using finalize_InrD [OF c] unfolding create_plain_unfold [OF lv] by (simp split: if_splits)
  show "get_hash c l = sha256 (message_head b @ concat (map (\<lambda>r. depth_buf (get_depth r 0)) (b_refs b)) @ concat (map (\<lambda>r. get_hash r 0) (b_refs b)))"
    using plain_get_hash [of "b_bits b"] by (simp add: ce representation_def message_head_def del: get_hash.simps)
  let ?d = "[of_nat (length (b_refs b)), of_nat (b_bits b div 8 * 2 + (if b_bits b mod 8 = 0 then 0 else 1))] :: byte list"
  have f: "fst (builder_flush b) = ?d" by (simp add: builder_flush_def Let_def mult.commute)
  have "compute_hash sha256 b = sha256 (?d @ take ((b_bits b + 7) div 8) (b_data (snd (builder_flush b)))
      @ concat (map (\<lambda>r. get_hash r 3) (b_refs b)))"
    unfolding compute_hash_def case_prod_beta Let_def f ..
  also have "map (\<lambda>r. get_hash r 3) (b_refs b) = map (\<lambda>r. get_hash r 0) (b_refs b)" using lvl by simp
  finally show "compute_hash sha256 b = sha256 (message_head b @ concat (map (\<lambda>r. get_hash r 0) (b_refs b)))"
    by (simp add: flushed_data [OF b] message_head_def)
qed

end
