(* ===== verification/Samples.thy ===== *)
theory Samples
  imports Slice_Codec Builder_Hash
begin

text \<open>
  Concrete cells on which the properties are instantiated. \<open>zero_hash\<close> stands for the hash function:
  it gives 32 bytes for every message.
\<close>

definition zero_hash :: "byte list \<Rightarrow> byte list" where
  "zero_hash x = replicate 32 0"

definition leaf_a :: cell where
  "leaf_a = Data_Cell (plain_info 0 0) [] [] [replicate 32 0] [0]"

definition leaf_b :: cell where
  "leaf_b = Data_Cell (plain_info 8 0) [7] [] [replicate 32 0] [0]"

definition library_leaf :: cell where
  "library_leaf = Data_Cell ((plain_info 264 0)\<lparr>i_is_special := True\<rparr>) (2 # replicate 32 0) [] [replicate 32 0] [0]"

lemma length_zero_hash [simp]: "length (zero_hash x) = 32"
  by (simp add: zero_hash_def)

lemma leaf_a_created: "create zero_hash [] 0 0 (map Some []) False = Inr leaf_a"
  by code_simp

lemma leaf_b_created: "create zero_hash [7] 0 8 (map Some []) False = Inr leaf_b"
  by code_simp

lemma plain_leaf_a: "plain zero_hash leaf_a"
  by (rule plain.intros [OF _ _ leaf_a_created]) simp_all

lemma plain_leaf_b: "plain zero_hash leaf_b"
  by (rule plain.intros [OF _ _ leaf_b_created]) simp_all

lemma wf_leaf_a: "wf_cell leaf_a"
  by code_simp

lemma wf_leaf_b: "wf_cell leaf_b"
  by code_simp

lemma slice_leaf_b: "slice_ok (slice_NoVm leaf_b)" "slice_bits (slice_NoVm leaf_b) = bits_of [7]"
  "slice_children (slice_NoVm leaf_b) = []" "slice_refs (slice_NoVm leaf_b) = []"
  using slice_NoVm_data_cell [OF wf_leaf_b [unfolded leaf_b_def]]
  by (simp_all add: leaf_b_def cell_bits_def plain_info_def)

lemma slice_size_leaf_b: "slice_size (slice_NoVm leaf_b) = 8" "slice_size_refs (slice_NoVm leaf_b) = 0"
  using length_slice_bits [OF slice_leaf_b(1)] length_slice_children [OF slice_leaf_b(1)] by (simp_all add: slice_leaf_b)

lemma library_type: "data_special_type ((plain_info 264 0)\<lparr>i_is_special := True\<rparr>) (2 # replicate 32 0) = Library"
  by code_simp

lemma created_Inr: "(\<forall>e. create sha256 data offs bits refs special \<noteq> Inl e) \<Longrightarrow> \<exists>c. create sha256 data offs bits refs special = Inr c"
  by (cases "create sha256 data offs bits refs special") auto

lemma sample_proof: "\<exists>c. create zero_hash (3 # replicate 34 0) 0 280 (map Some [leaf_b]) True = Inr c"
proof (rule created_Inr, rule allI)
  fix e show "create zero_hash (3 # replicate 34 0) 0 280 (map Some [leaf_b]) True \<noteq> Inl e" by code_simp
qed

lemma sample_empty: "\<exists>c. finalize zero_hash empty_builder False = Inr c"
proof -
  have "create zero_hash (b_data empty_builder) 0 (b_bits empty_builder) (map Some (b_refs empty_builder)) False = Inr leaf_a"
    by code_simp
  then show ?thesis by (simp add: finalize_def finalize_novm_def finalize_novm_nothrow_def)
qed

lemma plain_finalizes: "builder_ok b \<Longrightarrow> b_refs b = [] \<Longrightarrow> \<exists>c. finalize zero_hash b False = Inr c"
  using create_plain_unfold [of "[]" zero_hash "b_data b" 0 "b_bits b"]
  by (simp add: finalize_def finalize_novm_def finalize_novm_nothrow_def builder_ok_def)

lemma sample_fields:
  obtains b where "store_all put_field [(21, 5), (7, 64)] empty_builder = Inr b"
    and "\<exists>c. finalize zero_hash b False = Inr c"
proof -
  have e: "builder_ok empty_builder \<and> b_refs empty_builder = []"
    by (simp add: builder_ok_empty)
  obtain b where b: "store_all put_field [(21, 5), (7, 64)] empty_builder = Inr b" "builder_ok b" "b_refs b = []"
    using fields.store_all_room [OF e, of "[(21, 5), (7, 64)]"] by auto
  from b(1) plain_finalizes [OF b(2,3)] show ?thesis by (rule that)
qed

text \<open>A hash function that tells messages of different lengths apart.\<close>

definition len_hash :: "byte list \<Rightarrow> byte list" where
  "len_hash x = replicate 31 0 @ [of_nat (length x)]"

definition len_leaf :: cell where
  "len_leaf = Data_Cell (plain_info 0 0) [] [] [replicate 31 0 @ [2]] [0]"

definition one_ref :: builder where
  "one_ref = empty_builder\<lparr>b_refs := [len_leaf]\<rparr>"

lemma plain_len_leaf: "plain len_hash len_leaf"
proof -
  have "create len_hash [] 0 0 (map Some []) False = Inr len_leaf" by code_simp
  then show ?thesis by (rule plain.intros [rotated 2]) simp_all
qed

lemma one_ref_ok: "builder_ok one_ref" "\<exists>c. finalize len_hash one_ref False = Inr c"
proof -
  show "builder_ok one_ref" by code_simp
  have "case finalize len_hash one_ref False of Inl e \<Rightarrow> False | Inr c \<Rightarrow> True" by code_simp
  then show "\<exists>c. finalize len_hash one_ref False = Inr c" by (auto split: sum.splits)
qed

end
