(* ===== verification/Bit_Ptr.thy ===== *)
theory Bit_Ptr
  imports Bit_Scan
begin

text \<open>
  Pointers to bits, \<open>BitPtr\<close> and \<open>ConstBitPtr\<close> of \<open>crypto/common/bitstring.h\<close>: a buffer of bytes and a
  position in it, counted in bits.
\<close>

section \<open>Pointers to bits\<close>

type_synonym bit_ptr = "byte list \<times> nat"

definition ptr_add :: "bit_ptr \<Rightarrow> nat \<Rightarrow> bit_ptr" where
  "ptr_add p k = (fst p, snd p + k)"

text \<open>\<open>BitSelector\<close>: one bit, read and written through its mask.\<close>

definition bit_mask_at :: "nat \<Rightarrow> byte" where
  "bit_mask_at offs = drop_bit (offs mod 8) 0x80"

definition ptr_bit :: "bit_ptr \<Rightarrow> nat \<Rightarrow> bool" where
  "ptr_bit p i = (let offs = snd p + i in fst p ! (offs div 8) AND bit_mask_at offs \<noteq> 0)"

definition ptr_set_bit :: "bit_ptr \<Rightarrow> nat \<Rightarrow> bool \<Rightarrow> byte list" where
  "ptr_set_bit p i val =
     (let offs = snd p + i; k = offs div 8
      in (fst p)[k := if val then fst p ! k OR bit_mask_at offs else fst p ! k AND NOT (bit_mask_at offs)])"

text \<open>The \<open>n\<close> bits a pointer reaches, and that they are inside the buffer.\<close>

definition ptr_bits :: "bit_ptr \<Rightarrow> nat \<Rightarrow> bool list" where
  "ptr_bits p n = take n (drop (snd p) (bits_of (fst p)))"

definition ptr_ok :: "bit_ptr \<Rightarrow> nat \<Rightarrow> bool" where
  "ptr_ok p n \<longleftrightarrow> snd p + n \<le> 8 * length (fst p)"

lemma length_ptr_bits [simp]: "ptr_ok p n \<Longrightarrow> length (ptr_bits p n) = n"
  by (simp add: ptr_ok_def ptr_bits_def)

lemma ptr_ok_add [simp]: "ptr_ok p n \<Longrightarrow> k + m \<le> n \<Longrightarrow> ptr_ok (ptr_add p k) m"
  by (simp add: ptr_ok_def ptr_add_def)

lemma ptr_ok_le: "ptr_ok p n \<Longrightarrow> m \<le> n \<Longrightarrow> ptr_ok p m"
  by (simp add: ptr_ok_def)

lemma ptr_bits_add: "k + m \<le> n \<Longrightarrow> ptr_bits (ptr_add p k) m = take m (drop k (ptr_bits p n))"
  by (simp add: ptr_bits_def ptr_add_def drop_take add.commute)

lemma ptr_bits_take: "m \<le> n \<Longrightarrow> ptr_bits p m = take m (ptr_bits p n)"
  by (simp add: ptr_bits_def min_def)

lemma bit_mask_at_eq: "bit_mask_at offs = push_bit (7 - offs mod 8) 1"
proof -
  have "\<forall>m \<in> set [0..<8]. (drop_bit m 0x80 :: byte) = push_bit (7 - m) 1" by code_simp
  then show ?thesis by (simp add: bit_mask_at_def)
qed

lemma ptr_bit_eq: "snd p + i < 8 * length (fst p) \<Longrightarrow> ptr_bit p i = bits_of (fst p) ! (snd p + i)"
  by (simp only: ptr_bit_def Let_def bit_mask_at_eq nth_bits_of bit_iff_and_push_bit_not_eq_0)

lemma ptr_bit_nth: "ptr_ok p n \<Longrightarrow> i < n \<Longrightarrow> ptr_bit p i = ptr_bits p n ! i"
  by (simp add: ptr_bit_eq ptr_bits_def ptr_ok_def)

lemma length_ptr_set_bit [simp]: "length (ptr_set_bit p i val) = length (fst p)"
  by (simp add: ptr_set_bit_def Let_def)

lemma bits_of_ptr_set_bit:
  assumes "snd p + i < 8 * length (fst p)"
  shows "bits_of (ptr_set_bit p i val) = (bits_of (fst p))[snd p + i := val]"
proof (rule nth_equalityI)
  fix q assume "q < length (bits_of (ptr_set_bit p i val))"
  then have q: "q < 8 * length (fst p)" by simp
  define offs where "offs = snd p + i"
  define b where "b = fst p ! (offs div 8)"
  have o: "offs < 8 * length (fst p)" using assms by (simp add: offs_def)
  have k: "7 - q mod 8 < 8" "7 - offs mod 8 < 8" "7 - offs mod 8 = 7 - q mod 8 \<longleftrightarrow> q mod 8 = offs mod 8" by linarith+
  have new: "ptr_set_bit p i val = (fst p)[offs div 8 := (if val then set_bit (7 - offs mod 8) b else unset_bit (7 - offs mod 8) b)]"
    by (simp add: ptr_set_bit_def Let_def offs_def [symmetric] b_def bit_mask_at_eq set_bit_eq_or unset_bit_eq_and_not)
  show "bits_of (ptr_set_bit p i val) ! q = (bits_of (fst p))[snd p + i := val] ! q"
  proof (cases "q div 8 = offs div 8")
    case True
    have e: "q = offs \<longleftrightarrow> q mod 8 = offs mod 8" using True by (metis div_mult_mod_eq)
    have "bits_of (ptr_set_bit p i val) ! q = (if q = offs then val else bit b (7 - q mod 8))"
      using q o True k by (simp add: new nth_bits_of bit_set_bit_iff bit_unset_bit_iff possible_bit_def e)
    then show ?thesis using q o True by (simp add: nth_list_update offs_def [symmetric] nth_bits_of b_def)
  next
    case False
    then have "q \<noteq> offs" by auto
    then show ?thesis using q o False by (simp add: new nth_bits_of offs_def [symmetric])
  qed
qed simp

lemma ptr_bits_0 [simp]: "ptr_bits p 0 = []"
  by (simp add: ptr_bits_def)

end
