(* ===== verification/Dict_Label.thy ===== *)
theory Dict_Label
  imports Slice_Codec Bit_Ptr
begin

text \<open>
  The labels of dictionary edges, \<open>HmLabel\<close>, of \<open>crypto/vm/dict.cpp\<close>: \<open>LabelParser\<close>, which reads the
  label at the beginning of a node, and \<open>append_dict_label\<close>, which writes one in the shortest of its
  four forms. A key is a pointer to bits, as in the code: a buffer and a position.
  Everything runs outside a virtual machine.
\<close>

section \<open>Errors\<close>

datatype vm_errno = Excno_cell_und | Excno_dict_err | Excno_cell_ov | Excno_range_chk

datatype dict_error = Vm_error vm_errno | Build_error builder_error | Load_error load_error | Null_cell | Combine_error | Assertion

definition build :: "builder_error + 'a \<Rightarrow> dict_error + 'a" where
  "build r = (case r of Inl e \<Rightarrow> Inl (Build_error e) | Inr x \<Rightarrow> Inr x)"

lemma build_simps [simp]: "build (Inl e) = Inl (Build_error e)" "build (Inr x) = Inr x"
  by (simp_all add: build_def)

text \<open>Opening a node; a null reference is not a cell.\<close>

definition load_cell_slice_ref :: "cell option \<Rightarrow> dict_error + slice" where
  "load_cell_slice_ref c =
     (case c of
        None \<Rightarrow> Inl Null_cell
      | Some c \<Rightarrow>
          (case load_cell_slice None c of
             Some (Inr s) \<Rightarrow> Inr s
           | Some (Inl e) \<Rightarrow> Inl (Load_error e)
           | None \<Rightarrow> Inl Null_cell))"

section \<open>The label parser\<close>

record label =
  l_remainder :: slice
  l_offs :: int
  l_same :: nat
  l_bits :: nat
  l_sbits :: nat

definition new_label :: label where
  "new_label = \<lparr>l_remainder = null_slice, l_offs = 0, l_same = 0, l_bits = 0, l_sbits = 0\<rparr>"

text \<open>The width of a length up to \<open>max_label_len\<close>.\<close>

definition len_width :: "nat \<Rightarrow> nat" where
  "len_width max_label_len = 32 - count_leading_zeroes32 (of_nat max_label_len)"

definition int32_of :: "u64 \<Rightarrow> int" where
  "int32_of v = sint (ucast v :: u32)"

text \<open>The result says whether the label has been read; \<open>count_leading\<close> is used for an aligned buffer.\<close>

definition parse_label :: "label \<Rightarrow> slice \<Rightarrow> nat \<Rightarrow> bool \<times> label \<times> slice" where
  "parse_label lab cs0 max_label_len =
     (let (tag, cs) = prefetch_ulong cs0 2; ltype = int32_of tag
      in if ltype = 0 then (True, lab\<lparr>l_bits := 0, l_offs := 2\<rparr>, snd (slice_advance cs 2))
         else if ltype = 1 then
           let cs1 = snd (slice_advance cs 1); n = count_leading 0 cs1 True
           in if n > max_label_len \<or> \<not> slice_have cs1 (2 * n + 1) then (False, lab\<lparr>l_bits := n\<rparr>, cs1)
              else (True, lab\<lparr>l_bits := n, l_offs := int n + 2\<rparr>, snd (slice_advance cs1 (n + 1)))
         else if ltype = 2 then
           let len_bits = len_width max_label_len; (v, cs1) = fetch_ulong (snd (slice_advance cs 2)) len_bits;
               n = int32_of v
           in if n < 0 \<or> n > int max_label_len then (False, lab\<lparr>l_bits := nat n\<rparr>, cs1)
              else (slice_have cs1 (nat n), lab\<lparr>l_bits := nat n, l_offs := int len_bits + 2\<rparr>, cs1)
         else if ltype = 3 then
           let len_bits = len_width max_label_len
           in if \<not> slice_have cs (3 + len_bits) then (False, lab, cs)
              else
                let (same, cs1) = fetch_ulong cs 3; (v, cs2) = fetch_ulong cs1 len_bits; n = int32_of v
                in if n < 0 \<or> n > int max_label_len then (False, lab\<lparr>l_same := unat same, l_bits := nat n\<rparr>, cs2)
                   else (True, lab\<lparr>l_same := unat same, l_bits := nat n, l_offs := - 1\<rparr>, cs2)
         else (False, lab, cs))"

definition label_is_valid :: "label \<Rightarrow> bool" where
  "label_is_valid lab \<longleftrightarrow> l_offs lab \<noteq> 0"

definition label_validate :: "label \<Rightarrow> dict_error + label" where
  "label_validate lab = (if \<not> label_is_valid lab then Inl (Vm_error Excno_cell_und) else Inr lab)"

definition label_validate_ext :: "label \<Rightarrow> nat \<Rightarrow> dict_error + label" where
  "label_validate_ext lab n =
     bind_err (label_validate lab) (\<lambda>lab.
       if l_bits lab > n then Inl (Vm_error Excno_dict_err)
       else if l_bits lab < n
         \<and> (slice_size (l_remainder lab) \<noteq> l_sbits lab \<or> slice_size_refs (l_remainder lab) \<noteq> 2)
       then Inl (Vm_error Excno_dict_err) else Inr lab)"

definition label_validate_simple :: "label \<Rightarrow> nat \<Rightarrow> dict_error + label" where
  "label_validate_simple lab n =
     bind_err (label_validate lab) (\<lambda>lab.
       if l_bits lab > n then Inl (Vm_error Excno_dict_err)
       else if l_bits lab < n
         \<and> (slice_size (l_remainder lab) < l_sbits lab \<or> slice_size_refs (l_remainder lab) < 2)
       then Inl (Vm_error Excno_dict_err) else Inr lab)"

text \<open>The modes of the constructors.\<close>

abbreviation (input) "chk_none \<equiv> 0 :: nat"
abbreviation (input) "chk_min \<equiv> 1 :: nat"
abbreviation (input) "chk_size \<equiv> 2 :: nat"
abbreviation (input) "chk_all \<equiv> 3 :: nat"

definition label_of_slice :: "slice \<Rightarrow> nat \<Rightarrow> nat \<Rightarrow> dict_error + label" where
  "label_of_slice cs max_label_len auto_validate =
     (let (ok, lab, cs1) = parse_label new_label cs max_label_len;
          lab1 = (if \<not> ok then lab\<lparr>l_offs := 0\<rparr>
                  else lab\<lparr>l_sbits := (if l_same lab \<noteq> 0 then 0 else l_bits lab), l_remainder := cs1\<rparr>)
      in if auto_validate = 0 then Inr lab1
         else if auto_validate > 2 then label_validate_ext lab1 max_label_len
         else if auto_validate = 2 then label_validate_simple lab1 max_label_len
         else label_validate lab1)"

definition label_of_cell :: "cell option \<Rightarrow> nat \<Rightarrow> nat \<Rightarrow> dict_error + label" where
  "label_of_cell c max_label_len auto_validate =
     bind_err (load_cell_slice_ref c) (\<lambda>cs. label_of_slice cs max_label_len auto_validate)"

definition label_is_prefix_of :: "label \<Rightarrow> bit_ptr \<Rightarrow> nat \<Rightarrow> bool" where
  "label_is_prefix_of lab key len =
     (if l_bits lab > len then False
      else if l_same lab = 0 then has_prefix_bits (l_remainder lab) (fst key) (snd key) (l_bits lab)
      else bits_memscan 0 (fst key) (snd key) (l_bits lab) (odd (l_same lab)) = l_bits lab)"

definition label_common_prefix_len :: "label \<Rightarrow> bit_ptr \<Rightarrow> nat \<Rightarrow> nat" where
  "label_common_prefix_len lab key len =
     (if l_same lab = 0 then common_prefix_len_bits (l_remainder lab) (fst key) (snd key) (min (l_bits lab) len)
      else bits_memscan 0 (fst key) (snd key) (min (l_bits lab) len) (odd (l_same lab)))"

definition label_has_prefix :: "label \<Rightarrow> bit_ptr \<Rightarrow> nat \<Rightarrow> bool" where
  "label_has_prefix lab key len \<longleftrightarrow> len \<le> l_bits lab \<and> label_common_prefix_len lab key len = len"

definition extract_label_to :: "label \<Rightarrow> bit_ptr \<Rightarrow> byte list \<times> label" where
  "extract_label_to lab to =
     (if l_same lab = 0
      then (bits_memcpy (fst to) (snd to) (slice_data (l_remainder lab)) (bits_st (l_remainder lab)) (l_bits lab),
            lab\<lparr>l_remainder := snd (slice_advance (l_remainder lab) (l_bits lab))\<rparr>)
      else (bits_memset (fst to) (snd to) (odd (l_same lab)) (l_bits lab), lab))"

definition copy_label_prefix_to :: "label \<Rightarrow> bit_ptr \<Rightarrow> int \<Rightarrow> int \<times> byte list" where
  "copy_label_prefix_to lab to max_len =
     (if max_len \<le> 0 then (max_len, fst to)
      else
        let sz = min (nat max_len) (l_bits lab)
        in (int sz,
            if l_same lab = 0
            then bits_memcpy (fst to) (snd to) (slice_data (l_remainder lab)) (bits_st (l_remainder lab)) sz
            else bits_memset (fst to) (snd to) (odd (l_same lab)) sz))"

definition skip_label :: "label \<Rightarrow> label" where
  "skip_label lab = lab\<lparr>l_remainder := snd (slice_advance (l_remainder lab) (l_sbits lab))\<rparr>"

section \<open>Writing a label\<close>

definition append_dict_label_same :: "builder \<Rightarrow> bool \<Rightarrow> nat \<Rightarrow> nat \<Rightarrow> dict_error + builder" where
  "append_dict_label_same cb same len max_len =
     (let k = len_width max_len
      in build
        (if len > 1 \<and> int k < 2 * int len - 1 then store_all put_field [(6 + of_bool same, 3), (of_nat len, k)] cb
         else if k < len then store_all put_field [(2, 2), (of_nat len, k), (- of_bool same, len)] cb
         else store_all put_field [(0, 1), (- 2, len + 1), (- of_bool same, len)] cb))"

definition append_dict_label :: "builder \<Rightarrow> bit_ptr \<Rightarrow> nat \<Rightarrow> nat \<Rightarrow> dict_error + builder" where
  "append_dict_label cb label len max_len =
     (if len > 0 \<and> bits_memscan 0 (fst label) (snd label) len (ptr_bit label 0) = len
      then append_dict_label_same cb (ptr_bit label 0) len max_len
      else
        let k = len_width max_len
        in bind_err
          (build (if k < len then store_all put_field [(2, 2), (of_nat len, k)] cb
                  else store_all put_field [(0, 1), (- 2, len + 1)] cb))
          (\<lambda>cb. if remaining_bits cb < len then Inl (Vm_error Excno_cell_ov)
                else build (store_bits cb (fst label) len (snd label))))"

section \<open>The format of a label\<close>

text \<open>The label at the beginning of a node and what follows it.\<close>

fun parse_bits :: "nat \<Rightarrow> bool list \<Rightarrow> (bool list \<times> bool list) option" where
  "parse_bits n (False # False # r) = Some ([], r)"
| "parse_bits n (False # True # r) =
     (let k = Suc (scan True r)
      in if k > n \<or> length r < 2 * k then None
         else Some (take k (drop k r), drop (2 * k) r))"
| "parse_bits n (True # False # r) =
     (let w = len_width n; k = nat_of_bits (take w r)
      in if length r < w \<or> k > n \<or> length r < w + k then None
         else Some (take k (drop w r), drop (w + k) r))"
| "parse_bits n (True # True # same # r) =
     (let w = len_width n; k = nat_of_bits (take w r)
      in if length r < w \<or> k > n then None else Some (replicate k same, drop w r))"
| "parse_bits n _ = None"

definition same_code :: "nat \<Rightarrow> bool \<Rightarrow> nat \<Rightarrow> bool list" where
  "same_code n same len =
     (let w = len_width n
      in if len > 1 \<and> int w < 2 * int len - 1 then [True, True, same] @ low_bits w (of_nat len :: u64)
         else if w < len then [True, False] @ low_bits w (of_nat len :: u64) @ replicate len same
         else [False] @ replicate len True @ [False] @ replicate len same)"

definition label_code :: "nat \<Rightarrow> bool list \<Rightarrow> bool list" where
  "label_code n ls =
     (let w = len_width n; len = length ls
      in if ls \<noteq> [] \<and> (\<forall>b \<in> set ls. b = hd ls) then same_code n (hd ls) len
         else if w < len then [True, False] @ low_bits w (of_nat len :: u64) @ ls
         else [False] @ replicate len True @ [False] @ ls)"

lemma len_width_le: "n < 2 ^ 31 \<Longrightarrow> len_width n \<le> 31"
proof -
  assume n: "n < 2 ^ 31"
  have "\<not> bit (of_nat n :: u32) i" if "31 \<le> i" for i
  proof -
    have "(2::nat) ^ 31 \<le> 2 ^ i" using that by (intro power_increasing) auto
    with n have "n < 2 ^ i" by linarith
    then have "\<not> bit n i" by (simp add: bit_iff_odd)
    then show ?thesis by (simp add: bit_of_nat_iff)
  qed
  then show ?thesis by (simp add: len_width_def flip: mask_level_def) (simp add: mask_level_le_iff)
qed

lemma less_len_width: "n < 2 ^ 31 \<Longrightarrow> n < 2 ^ len_width n"
proof -
  assume n: "n < 2 ^ 31"
  then have "unat (of_nat n :: u32) = n" by (simp add: unat_of_nat)
  with unat_less_mask_level [of "of_nat n :: u32"] show ?thesis by (simp add: len_width_def mask_level_def)
qed

lemma int32_of_bits: "length xs < 32 \<Longrightarrow> int32_of (word_of_bits xs) = int (nat_of_bits xs)"
proof -
  assume l: "length xs < 32"
  have "nat_of_bits xs < 2 ^ length xs" by (rule nat_of_bits_less)
  also have "(2::nat) ^ length xs \<le> 2 ^ 31" using l by (intro power_increasing) auto
  finally have b: "nat_of_bits xs < 2 ^ 31" .
  have "unat (word_of_bits xs :: u64) = nat_of_bits xs" using l by (simp add: unat_word_of_bits)
  then have "(word_of_bits xs :: u64) = of_nat (nat_of_bits xs)" by (metis ucast_id unat_eq_nat_uint of_nat_unat)
  then have u: "(ucast (word_of_bits xs :: u64) :: u32) = of_nat (nat_of_bits xs)"
    using b by (simp add: unsigned_of_nat take_bit_nat_eq_self)
  have "sint (word_of_int (int (nat_of_bits xs)) :: u32) = int (nat_of_bits xs)"
    unfolding sint_sbintrunc' using b by (intro signed_take_bit_int_eq_self) auto
  then show ?thesis by (simp add: int32_of_def u)
qed

lemma int32_of_eof [simp]: "int32_of fetch_ulong_eof = - 1"
  by code_simp

text \<open>A written label is read back.\<close>

lemma scan_ones: "scan True (replicate k True @ False # r) = k"
  by (simp add: scan_append)

lemma parse_unary:
  "length ls \<le> n \<Longrightarrow> parse_bits n (False # replicate (length ls) True @ False # ls @ rest) = Some (ls, rest)"
proof (cases ls)
  case (Cons b bs)
  assume l: "length ls \<le> n"
  let ?r = "replicate (length bs) True @ False # ls @ rest"
  have "parse_bits n (False # True # ?r) = Some (ls, rest)"
    using l by (simp add: scan_ones Let_def Cons)
  then show ?thesis by (simp add: Cons)
qed simp

lemma width_code: "length ls \<le> n \<Longrightarrow> n < 2 ^ 31 \<Longrightarrow> nat_of_bits (low_bits (len_width n) (of_nat (length ls) :: u64)) = length ls"
proof -
  assume l: "length ls \<le> n" "n < 2 ^ 31"
  have u: "unat (of_nat (length ls) :: u64) = length ls" using l by (simp add: unat_of_nat)
  have "length ls < 2 ^ len_width n" using less_len_width [OF l(2)] l(1) by linarith
  with len_width_le [OF l(2)] show ?thesis using nat_of_low_bits [of "of_nat (length ls) :: u64" "len_width n"]
    by (simp only: u)
qed

lemma parse_binary:
  "length ls \<le> n \<Longrightarrow> n < 2 ^ 31 \<Longrightarrow>
     parse_bits n (True # False # low_bits (len_width n) (of_nat (length ls) :: u64) @ ls @ rest) = Some (ls, rest)"
  by (simp add: Let_def width_code)

lemma parse_same:
  "length ls \<le> n \<Longrightarrow> n < 2 ^ 31 \<Longrightarrow> ls = replicate (length ls) same \<Longrightarrow>
     parse_bits n (True # True # same # low_bits (len_width n) (of_nat (length ls) :: u64) @ rest) = Some (ls, rest)"
  by (simp add: Let_def width_code)

lemma all_hd_replicate: "\<forall>b \<in> set ls. b = hd ls \<Longrightarrow> ls = replicate (length ls) (hd ls)"
  by (simp add: replicate_length_same [symmetric])

lemma parse_same_code:
  assumes "length ls \<le> n" and "n < 2 ^ 31" and "ls = replicate (length ls) same"
  shows "parse_bits n (same_code n same (length ls) @ rest) = Some (ls, rest)"
proof -
  have e: "replicate (length ls) same @ rest = ls @ rest" using assms(3) by simp
  show ?thesis
    using parse_same [OF assms, of rest] parse_binary [OF assms(1,2), of rest] parse_unary [OF assms(1), of rest]
    by (simp only: same_code_def Let_def append.assoc append_Cons append_Nil e simp_thms split: if_splits)
qed

theorem parse_label_code:
  assumes "length ls \<le> n" and "n < 2 ^ 31"
  shows "parse_bits n (label_code n ls @ rest) = Some (ls, rest)"
proof (cases "ls \<noteq> [] \<and> (\<forall>b \<in> set ls. b = hd ls)")
  case True
  then have "ls = replicate (length ls) (hd ls)" using all_hd_replicate by blast
  from parse_same_code [OF assms this, of rest] True show ?thesis by (simp add: label_code_def)
next
  case False
  then show ?thesis
    using parse_binary [OF assms, of rest] parse_unary [OF assms(1), of rest]
    by (simp only: label_code_def Let_def append.assoc append_Cons append_Nil if_False simp_thms split: if_splits)
qed

section \<open>The parser reads the format\<close>

text \<open>What a label object shows: the bits of the label, the bits that follow it, and the references of
  the node.\<close>

definition label_view :: "label \<Rightarrow> bool list \<Rightarrow> bool list \<Rightarrow> cell list \<Rightarrow> bool" where
  "label_view lab ls rest cs \<longleftrightarrow>
     l_offs lab \<noteq> 0 \<and> l_bits lab = length ls \<and> slice_ok (l_remainder lab)
     \<and> slice_children (l_remainder lab) = cs
     \<and> (if l_same lab = 0 then slice_bits (l_remainder lab) = ls @ rest \<and> l_sbits lab = length ls
        else ls = replicate (length ls) (odd (l_same lab)) \<and> slice_bits (l_remainder lab) = rest \<and> l_sbits lab = 0)"

definition parsed :: "slice \<Rightarrow> bool list \<Rightarrow> bool list \<Rightarrow> bool \<times> label \<times> slice \<Rightarrow> bool" where
  "parsed s ls rest r \<longleftrightarrow> (case r of (ok, lab, s') \<Rightarrow>
     ok \<and> l_offs lab \<noteq> 0 \<and> l_bits lab = length ls
     \<and> (\<exists>k. reads s k 0 s') \<and>
     (if l_same lab = 0 then slice_bits s' = ls @ rest
      else ls = replicate (length ls) (odd (l_same lab)) \<and> slice_bits s' = rest))"

lemma slice_size_bits: "slice_ok s \<Longrightarrow> slice_size s = length (slice_bits s)"
  by simp

lemma prefetch_tag:
  assumes ok: "slice_ok s" and b: "slice_bits s = a # b # r"
  shows "int32_of (fst (prefetch_ulong s 2)) = 2 * of_bool a + of_bool b" and "reads s 0 0 (snd (prefetch_ulong s 2))"
proof -
  have n: "2 \<le> slice_size s" using slice_size_bits [OF ok] b by simp
  note P = prefetch_ulong_correct [OF ok n]
  have "int32_of (fst (prefetch_ulong s 2)) = int (nat_of_bits [a, b])" using P(1) b by (simp add: int32_of_bits)
  then show "int32_of (fst (prefetch_ulong s 2)) = 2 * of_bool a + of_bool b" by (simp add: nat_of_bits_Cons)
  show "reads s 0 0 (snd (prefetch_ulong s 2))" using P(2) by simp
qed

lemma advance_step:
  assumes r: "reads s0 j 0 s" and n: "n \<le> length (slice_bits s)"
  shows "reads s0 (j + n) 0 (snd (slice_advance s n))" and "slice_bits (snd (slice_advance s n)) = drop n (slice_bits s)"
proof -
  have ok: "slice_ok s" by (rule reads_ok [OF r])
  have "n \<le> slice_size s" using n slice_size_bits [OF ok] by simp
  note A = slice_advance_reads(2) [OF ok this]
  show "reads s0 (j + n) 0 (snd (slice_advance s n))" using reads_trans [OF r A] by simp
  show "slice_bits (snd (slice_advance s n)) = drop n (slice_bits s)" using A by (simp add: reads_def)
qed

lemma fetch_step:
  assumes r: "reads s0 j 0 s" and n: "n \<le> length (slice_bits s)" and w: "n \<le> 31"
  shows "int32_of (fst (fetch_ulong s n)) = int (nat_of_bits (take n (slice_bits s)))"
    and "unat (fst (fetch_ulong s n)) = nat_of_bits (take n (slice_bits s))"
    and "reads s0 (j + n) 0 (snd (fetch_ulong s n))" and "slice_bits (snd (fetch_ulong s n)) = drop n (slice_bits s)"
proof -
  have ok: "slice_ok s" by (rule reads_ok [OF r])
  have le: "n \<le> slice_size s" using n slice_size_bits [OF ok] by simp
  have w': "n \<le> 64" using w by simp
  note F = fetch_ulong_correct [OF ok le w']
  show "int32_of (fst (fetch_ulong s n)) = int (nat_of_bits (take n (slice_bits s)))"
    using F(1) w by (simp add: int32_of_bits)
  show "unat (fst (fetch_ulong s n)) = nat_of_bits (take n (slice_bits s))"
    by (rule unat_fetch_ulong [OF ok le w'])
  show "reads s0 (j + n) 0 (snd (fetch_ulong s n))" using reads_trans [OF r F(2)] by simp
  show "slice_bits (snd (fetch_ulong s n)) = drop n (slice_bits s)" using F(2) by (simp add: reads_def)
qed

lemma parse_label_unary:
  assumes ok: "slice_ok s" and b: "slice_bits s = False # True # r" and l: "l_same lab = 0"
  defines "k \<equiv> Suc (scan True r)"
  shows "if k > n \<or> length r < 2 * k then \<not> fst (parse_label lab s n)
    else parsed s (take k (drop k r)) (drop (2 * k) r) (parse_label lab s n)"
proof -
  obtain v s1 where e: "prefetch_ulong s 2 = (v, s1)" by fastforce
  note P = prefetch_tag [OF ok b, unfolded e fst_conv snd_conv]
  have b1: "slice_bits s1 = False # True # r" using P(2) b by (simp add: reads_def)
  define s2 where "s2 = snd (slice_advance s1 1)"
  have s2: "reads s 1 0 s2" "slice_bits s2 = True # r"
    using advance_step [OF P(2), of 1] b1 by (simp_all add: s2_def)
  have ok2: "slice_ok s2" by (rule reads_ok [OF s2(1)])
  have c: "count_leading 0 s2 True = k" using count_leading_eq [OF ok2] s2(2) by (simp add: k_def)
  have h: "slice_have s2 (2 * k + 1) \<longleftrightarrow> \<not> length r < 2 * k"
    using slice_size_bits [OF ok2] s2(2) by (auto simp: slice_have_def)
  have tag: "int32_of v = 1" using P(1) by simp
  have pl: "parse_label lab s n =
    (if k > n \<or> length r < 2 * k then (False, lab\<lparr>l_bits := k\<rparr>, s2)
     else (True, lab\<lparr>l_bits := k, l_offs := int k + 2\<rparr>, snd (slice_advance s2 (k + 1))))"
    unfolding parse_label_def e Let_def by (simp only: case_prod_conv tag s2_def [symmetric] c h) simp
  show ?thesis
  proof (cases "k > n \<or> length r < 2 * k")
    case True
    then show ?thesis by (simp add: pl)
  next
    case False
    note A = advance_step [OF s2(1), of "k + 1"]
    have "take k (drop k r) @ drop (2 * k) r = drop k r"
      using append_take_drop_id [of k "drop k r"] by (simp add: mult_2)
    then show ?thesis using False A s2(2) l by (auto simp: pl parsed_def)
  qed
qed

lemma parse_label_empty:
  assumes ok: "slice_ok s" and b: "slice_bits s = False # False # r" and l: "l_same lab = 0"
  shows "parsed s [] r (parse_label lab s n)"
proof -
  obtain v s1 where e: "prefetch_ulong s 2 = (v, s1)" by fastforce
  note P = prefetch_tag [OF ok b, unfolded e fst_conv snd_conv]
  have b1: "slice_bits s1 = False # False # r" using P(2) b by (simp add: reads_def)
  have "parse_label lab s n = (True, lab\<lparr>l_bits := 0, l_offs := 2\<rparr>, snd (slice_advance s1 2))"
    using P(1) by (simp add: parse_label_def e)
  then show ?thesis using advance_step [OF P(2), of 2] b1 l by (auto simp: parsed_def)
qed

lemma parse_label_binary:
  assumes ok: "slice_ok s" and b: "slice_bits s = True # False # r" and l: "l_same lab = 0" and n: "n < 2 ^ 31"
  defines "w \<equiv> len_width n"
  defines "k \<equiv> nat_of_bits (take w r)"
  shows "if length r < w \<or> k > n \<or> length r < w + k then \<not> fst (parse_label lab s n)
    else parsed s (take k (drop w r)) (drop (w + k) r) (parse_label lab s n)"
proof -
  obtain v s1 where e: "prefetch_ulong s 2 = (v, s1)" by fastforce
  note P = prefetch_tag [OF ok b, unfolded e fst_conv snd_conv]
  have b1: "slice_bits s1 = True # False # r" using P(2) b by (simp add: reads_def)
  define s2 where "s2 = snd (slice_advance s1 2)"
  have s2: "reads s 2 0 s2" "slice_bits s2 = r" using advance_step [OF P(2), of 2] b1 by (simp_all add: s2_def numeral_2_eq_2)
  have ok2: "slice_ok s2" by (rule reads_ok [OF s2(1)])
  obtain x s3 where e3: "fetch_ulong s2 w = (x, s3)" by fastforce
  have tag: "int32_of v = 2" using P(1) by simp
  have pl: "parse_label lab s n =
    (if int32_of x < 0 \<or> int32_of x > int n then (False, lab\<lparr>l_bits := nat (int32_of x)\<rparr>, s3)
     else (slice_have s3 (nat (int32_of x)), lab\<lparr>l_bits := nat (int32_of x), l_offs := int w + 2\<rparr>, s3))"
    unfolding parse_label_def e Let_def by (simp only: case_prod_conv tag s2_def [symmetric] w_def [symmetric] e3) simp
  show ?thesis
  proof (cases "length r < w")
    case True
    then have "fetch_ulong s2 w = (fetch_ulong_eof, s2)"
      using slice_size_bits [OF ok2] s2(2) by (intro fetch_ulong_eof_eq) simp
    then have "x = fetch_ulong_eof" using e3 by simp
    then show ?thesis using True by (simp add: pl)
  next
    case False
    have w31: "w \<le> 31" using len_width_le [OF n] by (simp add: w_def)
    have "w \<le> length (slice_bits s2)" using False s2(2) by simp
    note F = fetch_step [OF s2(1) this w31, unfolded e3 fst_conv snd_conv s2(2)]
    have x: "int32_of x = int k" using F(1) by (simp add: k_def)
    have ok3: "slice_ok s3" by (rule reads_ok [OF F(3)])
    have h: "slice_have s3 k \<longleftrightarrow> \<not> length r < w + k"
      using slice_size_bits [OF ok3] F(4) False by (auto simp: slice_have_def)
    have d: "take k (drop w r) @ drop (w + k) r = drop w r"
      using append_take_drop_id [of k "drop w r"] by (simp add: add.commute)
    show ?thesis
    proof (cases "k > n \<or> length r < w + k")
      case True
      then show ?thesis using h by (auto simp: pl x)
    next
      case g: False
      then have "parse_label lab s n = (True, lab\<lparr>l_bits := k, l_offs := int w + 2\<rparr>, s3)"
        using h by (simp add: pl x)
      then show ?thesis using g F False d l by (auto simp: parsed_def)
    qed
  qed
qed

lemma nat_of_bits_three: "nat_of_bits [True, True, b] = 6 + of_bool b"
  by (simp add: nat_of_bits_Cons)

lemma parse_label_same:
  assumes ok: "slice_ok s" and b: "slice_bits s = True # True # same # r" and n: "n < 2 ^ 31"
  defines "w \<equiv> len_width n"
  defines "k \<equiv> nat_of_bits (take w r)"
  shows "if length r < w \<or> k > n then \<not> fst (parse_label lab s n)
    else parsed s (replicate k same) (drop w r) (parse_label lab s n)"
proof -
  obtain v s1 where e: "prefetch_ulong s 2 = (v, s1)" by fastforce
  note P = prefetch_tag [OF ok b, unfolded e fst_conv snd_conv]
  have b1: "slice_bits s1 = True # True # same # r" using P(2) b by (simp add: reads_def)
  have ok1: "slice_ok s1" by (rule reads_ok [OF P(2)])
  have h: "slice_have s1 (3 + w) \<longleftrightarrow> \<not> length r < w"
    using slice_size_bits [OF ok1] b1 by (auto simp: slice_have_def)
  obtain y s2 where e2: "fetch_ulong s1 3 = (y, s2)" by fastforce
  have "3 \<le> length (slice_bits s1)" using b1 by simp
  note F = fetch_step [OF P(2) this, unfolded e2 fst_conv snd_conv b1, simplified]
  obtain x s3 where e3: "fetch_ulong s2 w = (x, s3)" by fastforce
  have tag: "int32_of v = 3" using P(1) by simp
  have pl: "parse_label lab s n =
    (if length r < w then (False, lab, s1)
     else if int32_of x < 0 \<or> int32_of x > int n
     then (False, lab\<lparr>l_same := unat y, l_bits := nat (int32_of x)\<rparr>, s3)
     else (True, lab\<lparr>l_same := unat y, l_bits := nat (int32_of x), l_offs := - 1\<rparr>, s3))"
    unfolding parse_label_def e Let_def
    by (simp only: case_prod_conv tag w_def [symmetric] h e2 e3) simp
  show ?thesis
  proof (cases "length r < w")
    case True
    then show ?thesis by (simp add: pl)
  next
    case False
    have w31: "w \<le> 31" using len_width_le [OF n] by (simp add: w_def)
    have b2: "slice_bits s2 = r" using F(4) by simp
    have "w \<le> length (slice_bits s2)" using False b2 by simp
    note G = fetch_step [OF F(3) this w31, unfolded e3 fst_conv snd_conv b2]
    have x: "int32_of x = int k" using G(1) by (simp add: k_def)
    have y: "unat y = 6 + of_bool same" using F(2) by (simp add: nat_of_bits_three)
    show ?thesis using False G(3,4) by (auto simp: pl x y parsed_def)
  qed
qed

lemma parse_label_short:
  assumes ok: "slice_ok s" and b: "length (slice_bits s) < 2 \<or> slice_bits s = [True, True]"
  shows "\<not> fst (parse_label lab s n)"
proof (cases "length (slice_bits s) < 2")
  case True
  then have "prefetch_ulong s 2 = (fetch_ulong_eof, s)"
    using slice_size_bits [OF ok] by (intro prefetch_ulong_eof_eq) simp
  then show ?thesis by (simp add: parse_label_def)
next
  case False
  then have b2: "slice_bits s = True # True # []" using b by simp
  obtain v s1 where e: "prefetch_ulong s 2 = (v, s1)" by fastforce
  note P = prefetch_tag [OF ok b2, unfolded e fst_conv snd_conv]
  have "slice_bits s1 = [True, True]" using P(2) b2 by (simp add: reads_def)
  then have "\<not> slice_have s1 (3 + len_width n)"
    using slice_size_bits [OF reads_ok [OF P(2)]] by (simp add: slice_have_def)
  then show ?thesis using P(1) by (simp add: parse_label_def e Let_def)
qed

theorem parse_label_correct:
  assumes ok: "slice_ok s" and n: "n < 2 ^ 31" and l: "l_same lab = 0"
  shows "case parse_bits n (slice_bits s) of
      None \<Rightarrow> \<not> fst (parse_label lab s n)
    | Some (ls, rest) \<Rightarrow> parsed s ls rest (parse_label lab s n)"
proof (cases "(n, slice_bits s)" rule: parse_bits.cases)
  case (1 m r)
  then show ?thesis using parse_label_empty [OF ok _ l] by simp
next
  case (2 m r)
  then show ?thesis using parse_label_unary [OF ok _ l, of r n] by (auto simp: Let_def split: if_splits)
next
  case (3 m r)
  then show ?thesis using parse_label_binary [OF ok _ l n, of r] by (auto simp: Let_def split: if_splits)
next
  case (4 m same r)
  then show ?thesis using parse_label_same [OF ok _ n, of same r lab] by (auto simp: Let_def split: if_splits)
qed (use parse_label_short [OF ok, of lab n] in auto)

section \<open>Opening a node\<close>

lemma parse_bits_length: "parse_bits n xs = Some (ls, rest) \<Longrightarrow> length ls \<le> n"
  by (induction n xs rule: parse_bits.induct) (auto simp: Let_def split: if_splits)

lemma parsed_view:
  assumes "parsed s ls rest (r, lab, s')"
  shows "label_view (lab\<lparr>l_sbits := if l_same lab \<noteq> 0 then 0 else l_bits lab, l_remainder := s'\<rparr>) ls rest (slice_children s)"
proof -
  obtain k where k: "reads s k 0 s'" using assms by (auto simp: parsed_def)
  show ?thesis using assms reads_ok [OF k] reads_children [OF k] by (auto simp: label_view_def parsed_def)
qed

lemma label_view_size:
  assumes "label_view lab ls rest cs"
  shows "slice_size (l_remainder lab) = l_sbits lab + length rest" and "slice_size_refs (l_remainder lab) = length cs"
proof -
  have ok: "slice_ok (l_remainder lab)" "slice_children (l_remainder lab) = cs"
    using assms by (auto simp: label_view_def split: if_splits)
  have b: "slice_bits (l_remainder lab) = (if l_same lab = 0 then ls @ rest else rest)"
    "l_sbits lab = (if l_same lab = 0 then length ls else 0)"
    using assms by (auto simp: label_view_def split: if_splits)
  show "slice_size (l_remainder lab) = l_sbits lab + length rest"
    unfolding slice_size_bits [OF ok(1)] b by simp
  show "slice_size_refs (l_remainder lab) = length cs" using ok by auto
qed

text \<open>A fork, which a label shorter than the key announces, must have two references and, under the
  strictest mode, nothing else.\<close>

definition bad_fork :: "nat \<Rightarrow> nat \<Rightarrow> bool list \<Rightarrow> bool list \<Rightarrow> cell list \<Rightarrow> bool" where
  "bad_fork mode n ls rest cs \<longleftrightarrow>
     length ls < n \<and> (mode > 2 \<and> (rest \<noteq> [] \<or> length cs \<noteq> 2) \<or> mode = 2 \<and> length cs < 2)"

theorem label_of_slice_correct:
  assumes ok: "slice_ok s" and n: "n < 2 ^ 31" and mode: "mode \<noteq> 0"
  shows "case parse_bits n (slice_bits s) of
      None \<Rightarrow> label_of_slice s n mode = Inl (Vm_error Excno_cell_und)
    | Some (ls, rest) \<Rightarrow>
        if bad_fork mode n ls rest (slice_children s) then label_of_slice s n mode = Inl (Vm_error Excno_dict_err)
        else \<exists>lab. label_of_slice s n mode = Inr lab \<and> label_view lab ls rest (slice_children s)"
proof -
  obtain r lab s' where e: "parse_label new_label s n = (r, lab, s')" by (metis prod_cases3)
  have "l_same new_label = 0" by (simp add: new_label_def)
  note P = parse_label_correct [OF ok n this, unfolded e]
  show ?thesis
  proof (cases "parse_bits n (slice_bits s)")
    case None
    with P have "\<not> r" by simp
    with None mode show ?thesis
      by (simp add: label_of_slice_def e label_validate_def label_validate_ext_def label_validate_simple_def
          label_is_valid_def Let_def)
  next
    case (Some p)
    obtain ls rest where p: "p = (ls, rest)" by fastforce
    have pr: "parsed s ls rest (r, lab, s')" using P Some p by simp
    define lab1 where "lab1 = lab\<lparr>l_sbits := if l_same lab \<noteq> 0 then 0 else l_bits lab, l_remainder := s'\<rparr>"
    have v: "label_view lab1 ls rest (slice_children s)" unfolding lab1_def by (rule parsed_view [OF pr])
    have r: r using pr by (simp add: parsed_def)
    have le: "length ls \<le> n" using parse_bits_length Some p by blast
    have lab1: "label_is_valid lab1" "l_bits lab1 = length ls"
      using v by (simp_all add: label_view_def label_is_valid_def)
    have len: "length (slice_children s) = slice_size_refs (l_remainder lab1)" using label_view_size(2) [OF v] by simp
    have sz: "slice_size (l_remainder lab1) = l_sbits lab1 + length rest"
      "slice_size_refs (l_remainder lab1) = length (slice_children s)"
      using label_view_size [OF v] by simp_all
    have val: "label_validate lab1 = Inr lab1" using lab1(1) by (simp add: label_validate_def)
    have "label_of_slice s n mode =
        (if mode > 2 then label_validate_ext lab1 n else if mode = 2 then label_validate_simple lab1 n
         else label_validate lab1)"
      using r mode by (simp add: label_of_slice_def e lab1_def)
    moreover have "label_validate_ext lab1 n =
        (if length ls < n \<and> (rest \<noteq> [] \<or> length (slice_children s) \<noteq> 2) then Inl (Vm_error Excno_dict_err) else Inr lab1)"
      using le by (simp add: label_validate_ext_def val lab1(2) sz)
    moreover have "label_validate_simple lab1 n =
        (if length ls < n \<and> length (slice_children s) < 2 then Inl (Vm_error Excno_dict_err) else Inr lab1)"
      using le by (simp add: label_validate_simple_def val lab1(2) sz)
    ultimately have "label_of_slice s n mode =
        (if bad_fork mode n ls rest (slice_children s) then Inl (Vm_error Excno_dict_err) else Inr lab1)"
      by (simp only: bad_fork_def val) auto
    then show ?thesis using Some p v by auto
  qed
qed

text \<open>Cells outside of any proof or virtualization, which open without an exception.\<close>

definition ordinary :: "cell \<Rightarrow> bool" where
  "ordinary c \<longleftrightarrow> wf_cell c \<and> (case c of Data_Cell i d rs hs ds \<Rightarrow> \<not> i_is_special i | _ \<Rightarrow> False)"

lemma load_ordinary:
  assumes "ordinary c"
  shows "\<exists>s. load_cell_slice_ref (Some c) = Inr s \<and> slice_ok s \<and> slice_bits s = cell_bits c \<and> slice_children s = c_refs c"
proof -
  obtain i d rs hs ds where c: "c = Data_Cell i d rs hs ds" "\<not> i_is_special i" "wf_cell (Data_Cell i d rs hs ds)"
    using assms by (cases c) (auto simp: ordinary_def)
  have l: "load_cell c = (c, virt_none)" using c by (simp add: virt_none_def)
  have "load_cell_slice_ref (Some c) = Inr (slice_NoVm c)"
    using c by (simp add: load_cell_slice_ref_def load_cell_slice_def load_cell_slice_impl.simps slice_NoVm_def
        data_special_type_def l Let_def)
  then show ?thesis using slice_NoVm_data_cell [OF c(3)] by (simp add: c(1))
qed

section \<open>What the label operations compute\<close>

lemma memscan_ptr: "ptr_ok key n \<Longrightarrow> bits_memscan 0 (fst key) (snd key) n b = scan b (ptr_bits key n)"
  by (simp add: bits_memscan_correct ptr_ok_def ptr_bits_def)

lemma scan_same: "scan b xs = n \<Longrightarrow> take n xs = replicate n b"
  using scan_le [of b xs] nth_less_scan [of _ b xs] by (intro nth_equalityI) auto

lemma lcp_replicate: "lcp (replicate n b) ys = min n (scan b ys)"
proof (induction n arbitrary: ys)
  case (Suc n)
  then show ?case by (cases ys) auto
qed simp

lemma take_ptr_bits: "m \<le> n \<Longrightarrow> take m (ptr_bits p n) = ptr_bits p m"
  by (simp add: ptr_bits_def min_def)

lemma lcp_take_left: "m = length xs \<Longrightarrow> lcp xs (take m ys) = lcp xs ys"
  using lcp_take [of m xs ys] lcp_le(1) [of xs ys] by simp

lemma common_prefix_len_bits_ptr:
  assumes ok: "slice_ok s" and key: "ptr_ok key n" and n: "n \<le> slice_size s"
  shows "common_prefix_len_bits s (fst key) (snd key) n = lcp (take n (slice_bits s)) (ptr_bits key n)"
proof -
  have "bits_st s + n \<le> 8 * length (slice_data s)" using slice_room [OF ok] n by linarith
  moreover have "take n (drop (bits_st s) (bits_of (slice_data s))) = take n (slice_bits s)"
    using slice_sub_bits [of 0 n s] n by simp
  ultimately show ?thesis using key n
    by (simp add: common_prefix_len_bits_def bits_memcmp_correct ptr_ok_def ptr_bits_def upto_or_0_def min_absorb2)
qed

lemma view_room: "label_view lab ls rest cs \<Longrightarrow> l_same lab = 0 \<Longrightarrow> length ls \<le> slice_size (l_remainder lab)"
  using label_view_size(1) [of lab ls rest cs] by (auto simp: label_view_def)

lemma label_common_prefix_len_eq:
  assumes v: "label_view lab ls rest cs" and key: "ptr_ok key len"
  shows "label_common_prefix_len lab key len = lcp ls (ptr_bits key len)"
proof -
  define m where "m = min (length ls) len"
  have b: "l_bits lab = length ls" using v by (simp add: label_view_def)
  have k: "ptr_ok key m" using key by (simp add: m_def ptr_ok_def)
  have cut: "lcp (take m ls) (ptr_bits key m) = lcp ls (ptr_bits key len)"
    using lcp_take [of m ls "ptr_bits key len"] lcp_le [of ls "ptr_bits key len"] key
    by (simp add: m_def take_ptr_bits)
  show ?thesis
  proof (cases "l_same lab = 0")
    case True
    have s: "slice_ok (l_remainder lab)" "slice_bits (l_remainder lab) = ls @ rest"
      using v True by (simp_all add: label_view_def)
    have "m \<le> slice_size (l_remainder lab)" using view_room [OF v True] by (simp add: m_def)
    from common_prefix_len_bits_ptr [OF s(1) k this] s(2) show ?thesis
      using True b cut by (simp add: label_common_prefix_len_def m_def [symmetric]) (simp add: m_def)
  next
    case False
    then have ls: "ls = replicate (length ls) (odd (l_same lab))" using v by (simp add: label_view_def)
    have "lcp (take m ls) (ptr_bits key m) = min m (scan (odd (l_same lab)) (ptr_bits key m))"
      by (subst ls) (simp add: m_def lcp_replicate)
    also have "\<dots> = scan (odd (l_same lab)) (ptr_bits key m)"
      using scan_le [of "odd (l_same lab)" "ptr_bits key m"] k by (simp add: min_def)
    finally show ?thesis using False b cut memscan_ptr [OF k]
      by (simp add: label_common_prefix_len_def m_def [symmetric])
  qed
qed

lemma lcp_prefix: "lcp xs ys = length xs \<longleftrightarrow> prefix xs ys"
proof (induction xs arbitrary: ys)
  case (Cons x xs)
  then show ?case by (cases ys) auto
qed simp

lemma lcp_sym: "lcp xs ys = lcp ys xs"
  by (induction xs ys rule: list_induct2') auto

lemma lcp_cases:
  obtains (equal) "ls2 = ls1" "lcp ls2 ls1 = length ls1"
    | (first) x t where "ls2 = ls1 @ x # t" "lcp ls2 ls1 = length ls1"
    | (second) x t where "ls1 = ls2 @ x # t" "lcp ls2 ls1 = length ls2"
    | (part) p x t1 t2 where "ls1 = p @ x # t1" "ls2 = p @ (\<not> x) # t2" "lcp ls2 ls1 = length p"
proof -
  have split: "(ls2 = ls1 \<or> (\<exists>x t. ls2 = ls1 @ x # t) \<or> (\<exists>x t. ls1 = ls2 @ x # t))
      \<or> (\<exists>p x t1 t2. ls1 = p @ x # t1 \<and> ls2 = p @ (\<not> x) # t2)"
  proof (induction ls1 arbitrary: ls2)
    case Nil
    then show ?case by (cases ls2) auto
  next
    case (Cons a ls1)
    show ?case
    proof (cases ls2)
      case c: (Cons b ys)
      show ?thesis
      proof (cases "a = b")
        case True
        from Cons.IH [of ys] show ?thesis unfolding c True
          by (elim disjE exE conjE) (auto, metis append_Cons)
      next
        case False
        have "a # ls1 = [] @ a # ls1" "ls2 = [] @ (\<not> a) # ys" using False c by auto
        then show ?thesis by blast
      qed
    qed auto
  qed
  have app: "lcp (p @ xs) (p @ ys) = length p + lcp xs ys" for p xs ys by (induction p) simp_all
  from split show ?thesis
  proof (elim disjE exE)
    assume e: "ls2 = ls1"
    show ?thesis by (rule equal [OF e]) (simp add: e)
  next
    fix x t assume e: "ls2 = ls1 @ x # t"
    show ?thesis by (rule first [OF e]) (use app [of ls1 "x # t" "[]"] in \<open>simp add: e\<close>)
  next
    fix x t assume e: "ls1 = ls2 @ x # t"
    show ?thesis by (rule second [OF e]) (use app [of ls2 "[]" "x # t"] in \<open>simp add: e\<close>)
  next
    fix p x t1 t2 assume e: "ls1 = p @ x # t1 \<and> ls2 = p @ (\<not> x) # t2"
    show ?thesis by (rule part [of p x t1 t2]) (use e app [of p "(\<not> x) # t2" "x # t1"] in simp_all)
  qed
qed

lemma has_prefix_bits_ptr:
  assumes ok: "slice_ok s" and key: "ptr_ok key n" and n: "n \<le> slice_size s"
  shows "has_prefix_bits s (fst key) (snd key) n \<longleftrightarrow> take n (slice_bits s) = ptr_bits key n"
proof -
  have "bits_st s + n \<le> 8 * length (slice_data s)" using slice_room [OF ok] n by linarith
  moreover have "take n (drop (bits_st s) (bits_of (slice_data s))) = take n (slice_bits s)"
    using slice_sub_bits [of 0 n s] n by simp
  ultimately show ?thesis using key n by (simp add: has_prefix_bits_def same_bits_eq ptr_ok_def ptr_bits_def)
qed

lemma label_is_prefix_of_eq:
  assumes v: "label_view lab ls rest cs" and key: "ptr_ok key len"
  shows "label_is_prefix_of lab key len \<longleftrightarrow> prefix ls (ptr_bits key len)"
proof (cases "length ls \<le> len")
  case False
  then have "\<not> prefix ls (ptr_bits key len)" using prefix_length_le [of ls "ptr_bits key len"] key by auto
  moreover have "l_bits lab = length ls" using v by (simp add: label_view_def)
  ultimately show ?thesis using False by (simp add: label_is_prefix_of_def)
next
  case True
  have b: "l_bits lab = length ls" using v by (simp add: label_view_def)
  have k: "ptr_ok key (length ls)" by (rule ptr_ok_le [OF key True])
  have p: "prefix ls (ptr_bits key len) \<longleftrightarrow> ls = ptr_bits key (length ls)"
    using True take_is_prefix [of "length ls" "ptr_bits key len"] prefix_order.eq_iff
    by (metis take_ptr_bits append_eq_conv_conj prefix_def)
  show ?thesis
  proof (cases "l_same lab = 0")
    case same: True
    have s: "slice_ok (l_remainder lab)" "slice_bits (l_remainder lab) = ls @ rest"
      using v same by (simp_all add: label_view_def)
    show ?thesis using has_prefix_bits_ptr [OF s(1) k view_room [OF v same]] True same b s(2)
      by (simp add: label_is_prefix_of_def p)
  next
    case False
    then have ls: "ls = replicate (length ls) (odd (l_same lab))" using v by (simp add: label_view_def)
    have "scan (odd (l_same lab)) (ptr_bits key (length ls)) = length ls \<longleftrightarrow> ls = ptr_bits key (length ls)"
    proof
      assume "scan (odd (l_same lab)) (ptr_bits key (length ls)) = length ls"
      from scan_same [OF this] k ls show "ls = ptr_bits key (length ls)" by simp
    next
      assume "ls = ptr_bits key (length ls)"
      with ls have "ptr_bits key (length ls) = replicate (length ls) (odd (l_same lab))" by simp
      then show "scan (odd (l_same lab)) (ptr_bits key (length ls)) = length ls" by simp
    qed
    then show ?thesis using True False b memscan_ptr [OF k] by (simp add: label_is_prefix_of_def p)
  qed
qed

lemma view_data:
  assumes v: "label_view lab ls rest cs" and l: "l_same lab = 0" and n: "n \<le> length ls"
  shows "bits_st (l_remainder lab) + n \<le> 8 * length (slice_data (l_remainder lab))"
    and "take n (drop (bits_st (l_remainder lab)) (bits_of (slice_data (l_remainder lab)))) = take n ls"
proof -
  have ok: "slice_ok (l_remainder lab)" "slice_bits (l_remainder lab) = ls @ rest"
    using v l by (simp_all add: label_view_def)
  have le: "n \<le> slice_size (l_remainder lab)" using view_room [OF v l] n by simp
  show "bits_st (l_remainder lab) + n \<le> 8 * length (slice_data (l_remainder lab))"
    using slice_room [OF ok(1)] le by linarith
  show "take n (drop (bits_st (l_remainder lab)) (bits_of (slice_data (l_remainder lab)))) = take n ls"
    using slice_sub_bits [of 0 n "l_remainder lab"] le ok(2) n by simp
qed

text \<open>The bits of the label, copied or filled in.\<close>

lemma label_copy:
  assumes v: "label_view lab ls rest cs" and to: "ptr_ok to n" and n: "n \<le> length ls"
  defines "buf \<equiv> (if l_same lab = 0
      then bits_memcpy (fst to) (snd to) (slice_data (l_remainder lab)) (bits_st (l_remainder lab)) n
      else bits_memset (fst to) (snd to) (odd (l_same lab)) n)"
  shows "bits_of buf = overwrite (bits_of (fst to)) (snd to) (take n ls)" and "length buf = length (fst to)"
proof -
  have r: "snd to + n \<le> 8 * length (fst to)" using to by (simp add: ptr_ok_def)
  have "bits_of buf = overwrite (bits_of (fst to)) (snd to) (take n ls) \<and> length buf = length (fst to)"
  proof (cases "l_same lab = 0")
    case True
    note D = view_data [OF v True n]
    show ?thesis using bits_memcpy_correct [OF r D(1)] D(2) length_bits_memcpy [OF r D(1)] True by (simp add: buf_def)
  next
    case False
    then have "ls = replicate (length ls) (odd (l_same lab))" using v by (simp add: label_view_def)
    then have "take n ls = replicate n (odd (l_same lab))" using n by (metis min_absorb1 take_replicate)
    then show ?thesis using bits_memset_correct [OF r] length_bits_memset [OF r] False by (simp add: buf_def)
  qed
  then show "bits_of buf = overwrite (bits_of (fst to)) (snd to) (take n ls)" "length buf = length (fst to)" by blast+
qed

lemma slice_children_advance:
  "slice_ok s \<Longrightarrow> n \<le> slice_size s \<Longrightarrow> slice_children (snd (slice_advance s n)) = slice_children s"
  using reads_children [OF slice_advance_reads(2)] by simp

lemma advance_rest:
  assumes v: "label_view lab ls rest cs"
  defines "s \<equiv> snd (slice_advance (l_remainder lab) (l_sbits lab))"
  shows "slice_ok s" and "slice_bits s = rest" and "slice_children s = cs"
proof -
  have ok: "slice_ok (l_remainder lab)" "slice_children (l_remainder lab) = cs"
    using v by (auto simp: label_view_def split: if_splits)
  have le: "l_sbits lab \<le> slice_size (l_remainder lab)" using label_view_size(1) [OF v] by simp
  note A = slice_advance_reads(2) [OF ok(1) le]
  show "slice_ok s" unfolding s_def by (rule reads_ok [OF A])
  show "slice_bits s = rest" using A v by (auto simp: s_def reads_def label_view_def split: if_splits)
  show "slice_children s = cs" using slice_children_advance [OF ok(1) le] ok(2) by (simp add: s_def)
qed

lemma skip_label_rest:
  assumes v: "label_view lab ls rest cs"
  shows "slice_ok (l_remainder (skip_label lab))" and "slice_bits (l_remainder (skip_label lab)) = rest"
    and "slice_children (l_remainder (skip_label lab)) = cs"
  using advance_rest [OF v] by (simp_all add: skip_label_def)

lemma extract_label_rest:
  assumes v: "label_view lab ls rest cs" and to: "ptr_ok to (length ls)"
  shows "bits_of (fst (extract_label_to lab to)) = overwrite (bits_of (fst to)) (snd to) ls"
    and "length (fst (extract_label_to lab to)) = length (fst to)"
    and "l_bits (snd (extract_label_to lab to)) = length ls"
    and "slice_ok (l_remainder (snd (extract_label_to lab to)))"
    and "slice_bits (l_remainder (snd (extract_label_to lab to))) = rest"
    and "slice_children (l_remainder (snd (extract_label_to lab to))) = cs"
proof -
  have b: "l_bits lab = length ls" using v by (simp add: label_view_def)
  note C = label_copy [OF v to order.refl, folded b]
  show "bits_of (fst (extract_label_to lab to)) = overwrite (bits_of (fst to)) (snd to) ls"
    "length (fst (extract_label_to lab to)) = length (fst to)"
    using C b by (simp_all add: extract_label_to_def split: if_splits)
  show "l_bits (snd (extract_label_to lab to)) = length ls" using b by (simp add: extract_label_to_def)
  have r: "l_remainder (snd (extract_label_to lab to)) = snd (slice_advance (l_remainder lab) (l_sbits lab))
      \<or> l_same lab \<noteq> 0 \<and> l_remainder (snd (extract_label_to lab to)) = l_remainder lab"
    using v by (auto simp: extract_label_to_def label_view_def)
  have "l_same lab \<noteq> 0 \<Longrightarrow> slice_ok (l_remainder lab) \<and> slice_bits (l_remainder lab) = rest
      \<and> slice_children (l_remainder lab) = cs" using v by (simp add: label_view_def)
  with r advance_rest [OF v]
  show "slice_ok (l_remainder (snd (extract_label_to lab to)))"
    "slice_bits (l_remainder (snd (extract_label_to lab to))) = rest"
    "slice_children (l_remainder (snd (extract_label_to lab to))) = cs" by auto
qed

section \<open>The writer writes the format\<close>

definition written :: "builder \<Rightarrow> bool list \<Rightarrow> dict_error + builder \<Rightarrow> bool" where
  "written b ys r \<longleftrightarrow>
     (if length ys \<le> remaining_bits b
      then \<exists>b'. r = Inr b' \<and> builder_ok b' \<and> builder_out b' = builder_out b @ ys \<and> b_refs b' = b_refs b
        \<and> remaining_bits b' = remaining_bits b - length ys
      else \<exists>e. r = Inl e)"

lemma store_fields_written:
  assumes b: "builder_ok b" and w: "\<forall>f \<in> set fs. snd f \<le> 64"
    and ys: "concat (map (\<lambda>f. low_bits (snd f) (fst f)) fs) = ys"
  shows "written b ys (build (store_all put_field fs b))"
proof (cases "length ys \<le> remaining_bits b")
  case True
  obtain b' where "store_all put_field fs b = Inr b'" "builder_ok b'" "b_refs b' = b_refs b"
    "builder_out b' = builder_out b @ ys" "remaining_bits b' = remaining_bits b - length ys"
    using fields.store_all_room [of b "b_refs b" fs] b w True unfolding ys by blast
  with True show ?thesis by (simp add: written_def)
next
  case False
  then obtain e where "store_all put_field fs b = Inl e"
    using fields.store_all_full [of b "b_refs b" fs] b w unfolding ys by auto
  with False show ?thesis by (simp add: written_def)
qed

lemma low_bits_same: "n \<le> 64 \<Longrightarrow> low_bits n (- of_bool same :: u64) = replicate n same"
  by (rule nth_equalityI) (cases same; simp add: bit_views bit_minus_1_iff possible_bit_def)+

lemma low_bits_minus_2: "n < 64 \<Longrightarrow> low_bits (n + 1) (- 2 :: u64) = replicate n True @ [False]"
  by (rule nth_equalityI) (auto simp: bit_views bit_minus_2_iff possible_bit_def nth_append less_Suc_eq)

lemma low_bits_tags: "low_bits 2 (2 :: u64) = [True, False]" "low_bits 1 (0 :: u64) = [False]"
  by code_simp+

lemma low_bits_same_tag: "low_bits 3 (6 + of_bool same :: u64) = [True, True, same]"
proof -
  have "low_bits 3 (6 :: u64) = [True, True, False]" "low_bits 3 (7 :: u64) = [True, True, True]" by code_simp+
  then show ?thesis by (cases same) simp_all
qed

lemma append_dict_label_same_writes:
  assumes b: "builder_ok b" and len: "len \<le> n" and n: "n < 2 ^ 31"
  shows "written b (same_code n same len) (append_dict_label_same b same len n)"
proof -
  define w where "w = len_width n"
  have w31: "w \<le> 31" using len_width_le [OF n] by (simp add: w_def)
  let ?r = "build (if len > 1 \<and> int w < 2 * int len - 1 then store_all put_field [(6 + of_bool same, 3), (of_nat len, w)] b
         else if w < len then store_all put_field [(2, 2), (of_nat len, w), (- of_bool same, len)] b
         else store_all put_field [(0, 1), (- 2, len + 1), (- of_bool same, len)] b)"
  have e: "append_dict_label_same b same len n = ?r" by (simp add: append_dict_label_same_def w_def Let_def)
  consider (a) "len > 1 \<and> int w < 2 * int len - 1" | (b) "\<not> (len > 1 \<and> int w < 2 * int len - 1)" "w < len"
    | (c) "\<not> (len > 1 \<and> int w < 2 * int len - 1)" "\<not> w < len" by blast
  then have "written b (same_code n same len) ?r"
  proof cases
    case a
    show ?thesis unfolding if_P [OF a]
      by (rule store_fields_written [OF b])
        (use a w31 in \<open>simp_all add: same_code_def w_def [symmetric] low_bits_same_tag\<close>)
  next
    case b': b
    then have l: "len \<le> 1" by linarith
    show ?thesis unfolding if_not_P [OF b'(1)] if_P [OF b'(2)]
      by (rule store_fields_written [OF b])
        (use b' l w31 in \<open>simp_all add: same_code_def w_def [symmetric] low_bits_tags low_bits_same\<close>)
  next
    case c
    then have l: "len + 1 \<le> 64" "len < 64" "len \<le> 64" using w31 by linarith+
    show ?thesis unfolding if_not_P [OF c(1)] if_not_P [OF c(2)]
      by (rule store_fields_written [OF b])
        (use c l low_bits_tags(2) low_bits_minus_2 [OF l(2)] in
          \<open>simp_all add: same_code_def w_def [symmetric] low_bits_same\<close>)
  qed
  then show ?thesis by (simp only: e)
qed

lemma written_store_bits:
  assumes b: "builder_ok b" and l: "ptr_ok p len"
  shows "written b (ptr_bits p len) (if remaining_bits b < len then Inl (Vm_error Excno_cell_ov)
     else build (store_bits b (fst p) len (snd p)))"
proof (cases "remaining_bits b < len")
  case True
  then show ?thesis using l by (simp add: written_def)
next
  case False
  have a: "appends_or_throws b (ptr_bits p len) [] (store_bits b (fst p) len (snd p))"
    unfolding ptr_bits_def using l by (intro store_bits_appends [OF b]) (simp add: ptr_ok_def)
  obtain b' where "store_bits b (fst p) len (snd p) = Inr b'" "builder_ok b'"
    "builder_out b' = builder_out b @ ptr_bits p len" "b_refs b' = b_refs b"
    "remaining_bits b' = remaining_bits b - length (ptr_bits p len)"
    using appends_or_throws_room [OF a b] False l by auto
  then show ?thesis using False l by (simp add: written_def)
qed

lemma written_bind:
  assumes "written b xs r" and "\<And>b'. builder_ok b' \<Longrightarrow> written b' ys (f b')"
  shows "written b (xs @ ys) (bind_err r f)"
proof (cases "length xs \<le> remaining_bits b")
  case True
  then obtain b' where b': "r = Inr b'" "builder_ok b'" "builder_out b' = builder_out b @ xs" "b_refs b' = b_refs b"
    "remaining_bits b' = remaining_bits b - length xs" using assms(1) by (auto simp: written_def)
  have e: "length ys \<le> remaining_bits b' \<longleftrightarrow> length (xs @ ys) \<le> remaining_bits b" using True b'(5) by auto
  show ?thesis using assms(2) [OF b'(2)] b' unfolding written_def e by auto
next
  case False
  then show ?thesis using assms(1) by (auto simp: written_def)
qed

lemma scan_all_same: "xs \<noteq> [] \<Longrightarrow> scan (xs ! 0) xs = length xs \<longleftrightarrow> (\<forall>b \<in> set xs. b = hd xs)"
  by (simp add: scan_full hd_conv_nth)

theorem append_dict_label_writes:
  assumes b: "builder_ok b" and p: "ptr_ok p len" and len: "len \<le> n" and n: "n < 2 ^ 31"
  shows "written b (label_code n (ptr_bits p len)) (append_dict_label b p len n)"
proof -
  define ls where "ls = ptr_bits p len"
  define w where "w = len_width n"
  have w31: "w \<le> 31" using len_width_le [OF n] by (simp add: w_def)
  have ll: "length ls = len" using p by (simp add: ls_def)
  have c: "0 < len \<and> bits_memscan 0 (fst p) (snd p) len (ptr_bit p 0) = len \<longleftrightarrow> ls \<noteq> [] \<and> (\<forall>b \<in> set ls. b = hd ls)"
    using memscan_ptr [OF p] scan_all_same [of ls] ll ptr_bit_nth [OF p, of 0] by (auto simp: ls_def [symmetric])
  show ?thesis
  proof (cases "ls \<noteq> [] \<and> (\<forall>b \<in> set ls. b = hd ls)")
    case True
    then have "ptr_bit p 0 = hd ls" using ptr_bit_nth [OF p, of 0] ll by (auto simp: ls_def hd_conv_nth)
    then have "append_dict_label b p len n = append_dict_label_same b (hd ls) len n"
      using True c by (simp add: append_dict_label_def)
    then show ?thesis using append_dict_label_same_writes [OF b len n, of "hd ls"] True ll
      by (simp add: label_code_def ls_def [symmetric])
  next
    case False
    define r where "r = build (if w < len then store_all put_field [(2, 2), (of_nat len, w)] b
                  else store_all put_field [(0, 1), (- 2, len + 1)] b)"
    have e: "append_dict_label b p len n =
       bind_err r (\<lambda>cb. if remaining_bits cb < len then Inl (Vm_error Excno_cell_ov)
                else build (store_bits cb (fst p) len (snd p)))"
      unfolding append_dict_label_def c if_not_P [OF False] r_def w_def Let_def by (rule refl)
    define pre where "pre = (if w < len then [True, False] @ low_bits w (of_nat len :: u64)
        else [False] @ replicate len True @ [False])"
    have "written b pre r"
    proof (cases "w < len")
      case True
      then show ?thesis unfolding r_def pre_def if_P [OF True]
        by (intro store_fields_written [OF b]) (use w31 in \<open>simp_all add: low_bits_tags\<close>)
    next
      case f: False
      then have l: "len < 64" using w31 by linarith
      show ?thesis unfolding r_def pre_def if_not_P [OF f]
        by (rule store_fields_written [OF b])
          (use l low_bits_tags(2) low_bits_minus_2 [OF l] in simp_all)
    qed
    then have "written b (pre @ ls) (append_dict_label b p len n)"
      unfolding e ls_def by (rule written_bind) (rule written_store_bits [OF _ p])
    moreover have "label_code n ls = pre @ ls"
      unfolding label_code_def Let_def if_not_P [OF False] pre_def w_def ll by simp
    ultimately show ?thesis by (simp add: ls_def)
  qed
qed

end
