(* ===== verification/Dict_Node.thy ===== *)
theory Dict_Node
  imports Dict_Label
begin

text \<open>
  The nodes of a dictionary, \<open>crypto/vm/dict.cpp\<close>: how they are built, and what a tree of cells
  stands for. \<open>dict_rep n c es\<close> says that the cell \<open>c\<close> is the root of a well-formed dictionary with
  keys of \<open>n\<close> bits whose entries, in the order of the keys, are \<open>es\<close>: pairs of a key and a value, the
  bits and the references of the rest of a leaf.
\<close>

section \<open>Building\<close>

definition dict_finalize :: "(byte list \<Rightarrow> byte list) \<Rightarrow> builder \<Rightarrow> dict_error + cell \<times> builder" where
  "dict_finalize sha256 cb =
     (case finalize_novm sha256 cb False of
        (Inl e, cb1) \<Rightarrow> Inl (Build_error e)
      | (Inr c, cb1) \<Rightarrow> Inr (c, cb1))"

text \<open>A call that reports failure by its result, and the exception thrown then.\<close>

definition or_throw :: "vm_errno \<Rightarrow> bool \<times> 'a \<Rightarrow> dict_error + 'a" where
  "or_throw e r = (if fst r then Inr (snd r) else Inl (Vm_error e))"

definition store_two_refs :: "builder \<Rightarrow> cell option \<Rightarrow> cell option \<Rightarrow> dict_error + builder" where
  "store_two_refs cb c1 c2 = build (bind_err (store_ref cb c1) (\<lambda>cb. store_ref cb c2))"

section \<open>What a dictionary stands for\<close>

type_synonym dict_val = "bool list \<times> cell list"
type_synonym dict_entry = "bool list \<times> dict_val"

definition pre :: "bool list \<Rightarrow> dict_entry list \<Rightarrow> dict_entry list" where
  "pre p es = map (\<lambda>(k, v). (p @ k, v)) es"

inductive dict_rep :: "nat \<Rightarrow> cell \<Rightarrow> dict_entry list \<Rightarrow> bool"
  and payload_rep :: "nat \<Rightarrow> bool list \<Rightarrow> cell list \<Rightarrow> dict_entry list \<Rightarrow> bool" where
  node: "\<lbrakk>ordinary c; parse_bits n (cell_bits c) = Some (ls, rest); payload_rep (n - length ls) rest (c_refs c) es\<rbrakk>
     \<Longrightarrow> dict_rep n c (pre ls es)"
| leaf: "payload_rep 0 rest refs [([], rest, refs)]"
| fork: "\<lbrakk>dict_rep m a ea; dict_rep m b eb\<rbrakk> \<Longrightarrow> payload_rep (Suc m) [] [a, b] (pre [False] ea @ pre [True] eb)"

inductive_cases payload_0E: "payload_rep 0 rest refs es"
inductive_cases payload_SucE: "payload_rep (Suc m) rest refs es"
inductive_cases dict_repE: "dict_rep n c es"

definition dict_rep_opt :: "nat \<Rightarrow> cell option \<Rightarrow> dict_entry list \<Rightarrow> bool" where
  "dict_rep_opt n co es \<longleftrightarrow> (case co of None \<Rightarrow> es = [] | Some c \<Rightarrow> dict_rep n c es)"

lemma pre_simps [simp]: "pre p [] = []" "pre p ((k, v) # es) = (p @ k, v) # pre p es" "pre p (xs @ ys) = pre p xs @ pre p ys"
  "pre [] es = es" "pre p (pre q es) = pre (p @ q) es"
  by (auto simp: pre_def)

lemma set_pre: "set (map fst (pre p es)) = (\<lambda>k. p @ k) ` set (map fst es)"
  by (force simp: pre_def)

lemma map_of_pre: "map_of (pre p es) k = (if prefix p k then map_of es (drop (length p) k) else None)"
proof (induction es)
  case (Cons e es)
  obtain k1 v where e: "e = (k1, v)" by (cases e)
  have "p @ k1 = k \<longleftrightarrow> prefix p k \<and> k1 = drop (length p) k" by (auto simp: prefix_def)
  then show ?case using Cons.IH by (auto simp: e)
qed simp

lemma dict_rep_lengths:
  "dict_rep n c es \<Longrightarrow> \<forall>k \<in> set (map fst es). length k = n"
  "payload_rep n rest refs es \<Longrightarrow> \<forall>k \<in> set (map fst es). length k = n"
proof (induction rule: dict_rep_payload_rep.inducts)
  case (node c n ls rest es)
  then show ?case using parse_bits_length [OF node.hyps(2)] by (auto simp: set_pre simp del: set_map)
next
  case (fork m a ea b eb)
  then show ?case by (simp add: set_pre del: set_map) auto
qed simp

lemma dict_rep_not_empty:
  "dict_rep n c es \<Longrightarrow> es \<noteq> []"
  "payload_rep n rest refs es \<Longrightarrow> es \<noteq> []"
  by (induction rule: dict_rep_payload_rep.inducts) (auto simp: pre_def)

text \<open>The entries are sorted by their keys.\<close>

definition sorted_keys :: "dict_entry list \<Rightarrow> bool" where
  "sorted_keys es \<longleftrightarrow> sorted_wrt (\<lambda>x y. lex_cmp (fst x) (fst y) = - 1) es"

lemma lex_cmp_same_prefix: "lex_cmp (p @ x) (p @ y) = lex_cmp x y"
  by (induction p) simp_all

lemma sorted_keys_pre: "sorted_keys (pre p es) = sorted_keys es"
  by (simp add: sorted_keys_def pre_def sorted_wrt_map case_prod_beta lex_cmp_same_prefix)

lemma sorted_keys_fork: "sorted_keys ea \<Longrightarrow> sorted_keys eb \<Longrightarrow> sorted_keys (pre [False] ea @ pre [True] eb)"
  using sorted_keys_pre [of "[False]" ea] sorted_keys_pre [of "[True]" eb]
  by (auto simp: sorted_keys_def sorted_wrt_append pre_def)

lemma dict_rep_sorted:
  "dict_rep n c es \<Longrightarrow> sorted_keys es"
  "payload_rep n rest refs es \<Longrightarrow> sorted_keys es"
  by (induction rule: dict_rep_payload_rep.inducts)
    (simp_all add: sorted_keys_pre sorted_keys_fork, simp add: sorted_keys_def)

lemma sorted_keys_distinct: "sorted_keys es \<Longrightarrow> distinct (map fst es)"
proof (induction es)
  case (Cons e es)
  have "fst e \<noteq> fst y" if "y \<in> set es" for y
    using Cons.prems that by (auto simp: sorted_keys_def lex_cmp_eq_0 [symmetric])
  then show ?case using Cons by (force simp: sorted_keys_def)
qed simp

text \<open>The value under a key: below the label, on the side of the next bit.\<close>

lemma map_of_fork:
  "map_of (pre [False] ea @ pre [True] eb) (b # k) = map_of (if b then eb else ea) k"
  by (cases b) (auto simp: map_add_def map_of_pre split: option.splits)

lemma payload_bits: "payload_rep (Suc m) rest refs es \<Longrightarrow>
    \<exists>a b ea eb. rest = [] \<and> refs = [a, b] \<and> dict_rep m a ea \<and> dict_rep m b eb \<and> es = pre [False] ea @ pre [True] eb"
  by (erule payload_SucE) blast

section \<open>Opening a node\<close>

lemma ordinary_refs: "ordinary c \<Longrightarrow> r \<in> set (c_refs c) \<Longrightarrow> wf_cell r"
  by (cases c) (auto simp: ordinary_def)

lemma label_of_ordinary:
  assumes c: "ordinary c" and n: "n < 2 ^ 31" and p: "parse_bits n (cell_bits c) = Some (ls, rest)"
    and f: "\<not> bad_fork mode n ls rest (c_refs c)" and mode: "mode \<noteq> 0"
  shows "\<exists>lab. label_of_cell (Some c) n mode = Inr lab \<and> label_view lab ls rest (c_refs c)"
proof -
  obtain s where s: "load_cell_slice_ref (Some c) = Inr s" "slice_ok s" "slice_bits s = cell_bits c"
    "slice_children s = c_refs c" using load_ordinary [OF c] by blast
  from label_of_slice_correct [OF s(2) n mode] p f s show ?thesis by (auto simp: label_of_cell_def)
qed

lemma payload_no_bad_fork: "payload_rep (n - length ls) rest refs es \<Longrightarrow> \<not> bad_fork mode n ls rest refs"
proof (cases "length ls < n")
  case True
  assume "payload_rep (n - length ls) rest refs es"
  moreover obtain m where "n - length ls = Suc m" using True by (metis Suc_diff_Suc)
  ultimately show ?thesis using payload_bits [of m rest refs es] by (auto simp: bad_fork_def)
qed (simp add: bad_fork_def)

text \<open>What the operations see of a node of a dictionary.\<close>

lemma dict_rep_label:
  assumes r: "dict_rep n c es" and n: "n < 2 ^ 31" and mode: "mode \<noteq> 0"
  shows "\<exists>lab ls rest es0. label_of_cell (Some c) n mode = Inr lab \<and> label_view lab ls rest (c_refs c) \<and> length ls \<le> n
     \<and> payload_rep (n - length ls) rest (c_refs c) es0 \<and> es = pre ls es0
     \<and> ordinary c \<and> parse_bits n (cell_bits c) = Some (ls, rest)"
proof -
  obtain ls rest es0 where c: "ordinary c" "parse_bits n (cell_bits c) = Some (ls, rest)"
    "payload_rep (n - length ls) rest (c_refs c) es0" "es = pre ls es0"
    using r by (blast elim: dict_repE)
  from label_of_ordinary [OF c(1) n c(2) payload_no_bad_fork [OF c(3)] mode] parse_bits_length [OF c(2)] c
  show ?thesis by blast
qed

section \<open>What has been built\<close>

text \<open>The content of a builder for a node.\<close>

definition node_built :: "builder \<Rightarrow> nat \<Rightarrow> bool list \<Rightarrow> bool list \<Rightarrow> cell list \<Rightarrow> bool" where
  "node_built cb n ls rest refs \<longleftrightarrow>
     builder_ok cb \<and> builder_out cb = label_code n ls @ rest \<and> b_refs cb = refs"

lemma finalize_ordinary:
  assumes c: "dict_finalize sha256 cb = Inr (c, cb')" and b: "builder_ok cb"
    and sha: "\<And>x. length (sha256 x) = hash_bytes" and refs: "\<forall>r \<in> set (b_refs cb). wf_cell r"
  shows "ordinary c" and "cell_bits c = builder_out cb" and "c_refs c = b_refs cb"
    and "builder_ok cb'" and "builder_out cb' = []" and "b_refs cb' = []"
proof -
  have f: "finalize sha256 cb False = Inr c" "cb' = snd (finalize_novm sha256 cb False)"
    using c by (auto simp: dict_finalize_def finalize_def split: prod.splits sum.splits)
  note F = finalize_cell [OF f(1) b sha refs]
  obtain i d rs hs ds where e: "c = Data_Cell i d rs hs ds"
    using create_Some [OF finalize_InrD [OF f(1)]] create_InrE [OF finalize_InrD [OF f(1)]] by metis
  show "ordinary c" using F(1,4) by (simp add: ordinary_def e)
  show "cell_bits c = builder_out cb" "c_refs c = b_refs cb" using F by simp_all
  show "builder_ok cb'" "builder_out cb' = []" "b_refs cb' = []"
    using finalize_novm_resets [OF b, of sha256 False] f(2) by simp_all
qed

text \<open>A node made of a label and the content behind it.\<close>

definition node_cell :: "nat \<Rightarrow> cell \<Rightarrow> bool list \<Rightarrow> bool list \<Rightarrow> cell list \<Rightarrow> bool" where
  "node_cell n c ls rest refs \<longleftrightarrow> ordinary c \<and> parse_bits n (cell_bits c) = Some (ls, rest) \<and> c_refs c = refs"

lemma node_cell_rep: "node_cell n c ls rest refs \<Longrightarrow> payload_rep (n - length ls) rest refs es \<Longrightarrow> dict_rep n c (pre ls es)"
  by (auto simp: node_cell_def intro: node)

lemma node_cell_label:
  assumes c: "node_cell n c ls rest refs" and n: "n < 2 ^ 31" and f: "\<not> bad_fork mode n ls rest refs" and mode: "mode \<noteq> 0"
  shows "\<exists>lab. label_of_cell (Some c) n mode = Inr lab \<and> label_view lab ls rest refs" and "length ls \<le> n"
    and "\<forall>r \<in> set refs. wf_cell r"
  using label_of_ordinary [OF _ n _ _ mode, of c ls rest] parse_bits_length [of n "cell_bits c" ls rest] c f ordinary_refs [of c]
  by (auto simp: node_cell_def)

lemma built_rep:
  assumes c: "dict_finalize sha256 cb = Inr (c, cb')" and b: "node_built cb n ls rest refs"
    and sha: "\<And>x. length (sha256 x) = hash_bytes" and refs: "\<forall>r \<in> set refs. wf_cell r"
    and n: "length ls \<le> n" "n < 2 ^ 31" and p: "payload_rep (n - length ls) rest refs es"
  shows "dict_rep n c (pre ls es)"
proof -
  have b': "builder_ok cb" "builder_out cb = label_code n ls @ rest" "b_refs cb = refs"
    using b by (simp_all add: node_built_def)
  have "\<forall>r \<in> set (b_refs cb). wf_cell r" using refs b'(3) by simp
  note F = finalize_ordinary [OF c b'(1) sha this]
  show ?thesis
    by (rule node [OF F(1)]) (use F(2,3) b' p parse_label_code [OF n] in simp_all)
qed

lemma dict_rep_wf: "dict_rep n c es \<Longrightarrow> wf_cell c"
  by (erule dict_repE) (simp add: ordinary_def)

end
