(* ===== verification/Dict_Set.thy ===== *)
theory Dict_Set
  imports Dict_Node
begin

text \<open>
  Looking up and storing in dictionaries with keys of a fixed length: \<open>DictionaryFixed::lookup\<close>,
  \<open>dict_set\<close> and \<open>dict_lookup_set\<close> of \<open>crypto/vm/dict.cpp\<close>. A dictionary with the entries \<open>es\<close> is the
  finite map \<open>map_of es\<close>.
\<close>

section \<open>Operations\<close>

lemma bind_err_cong [fundef_cong]:
  "r = r' \<Longrightarrow> (\<And>x. r' = Inr x \<Longrightarrow> f x = f' x) \<Longrightarrow> bind_err r f = bind_err r' f'"
  by (cases r') simp_all

lemma parse_label_bounded: "parse_label lab s n = (True, lab', s') \<Longrightarrow> l_bits lab' \<le> n"
  by (auto simp: parse_label_def Let_def split: if_splits prod.splits)

lemma label_of_cell_bounded:
  assumes "label_of_cell c n mode = Inr lab" and "mode \<noteq> 0"
  shows "l_bits lab \<le> n"
proof -
  obtain s where s: "label_of_slice s n mode = Inr lab"
    using assms(1) by (cases "load_cell_slice_ref c") (auto simp: label_of_cell_def)
  obtain r lab' s' where p: "parse_label new_label s n = (r, lab', s')" by (metis prod_cases3)
  have r using s assms(2) by (auto simp: label_of_slice_def p Let_def label_validate_ext_def label_validate_simple_def
        label_validate_def label_is_valid_def split: if_splits)
  then have "l_bits lab' \<le> n" using parse_label_bounded [of new_label s n lab' s'] p by simp
  moreover have "l_bits lab = l_bits lab'"
    using s \<open>r\<close> by (auto simp: label_of_slice_def p Let_def label_validate_ext_def label_validate_simple_def
        label_validate_def label_is_valid_def split: if_splits)
  ultimately show ?thesis by simp
qed

text \<open>The loop of \<open>DictionaryFixed::lookup\<close> and \<open>extract_value_ref\<close>.\<close>

function dict_lookup :: "cell option \<Rightarrow> bit_ptr \<Rightarrow> nat \<Rightarrow> dict_error + slice option" where
  "dict_lookup c key n =
     bind_err (label_of_cell c n chk_all) (\<lambda>lab.
       if \<not> label_is_prefix_of lab key n then Inr None
       else if n - l_bits lab = 0 then Inr (Some (l_remainder (skip_label lab)))
       else
         let key1 = ptr_add key (l_bits lab); sw = ptr_bit key1 0
         in dict_lookup (prefetch_ref (l_remainder lab) (of_bool sw)) (ptr_add key1 1) (n - l_bits lab - 1))"
  by pat_completeness auto
termination by (relation "measure (\<lambda>(c, key, n). n)") auto

declare dict_lookup.simps [simp del]

definition extract_value_ref :: "slice option \<Rightarrow> dict_error + cell option" where
  "extract_value_ref cs =
     (case cs of
        None \<Rightarrow> Inr None
      | Some s \<Rightarrow> if slice_size s = 0 \<and> slice_size_refs s = 1 then Inr (prefetch_ref s 0)
                  else Inl (Vm_error Excno_dict_err))"

datatype set_mode = Mode_Set | Mode_Replace | Mode_Add

type_synonym store_value = "builder \<Rightarrow> bool \<times> builder"

text \<open>A new leaf, the lower part of an edge that is split after \<open>pfx_len\<close> bits, and a fork.\<close>

definition create_leaf ::
  "(byte list \<Rightarrow> byte list) \<Rightarrow> builder \<Rightarrow> bit_ptr \<Rightarrow> nat \<Rightarrow> nat \<Rightarrow> store_value \<Rightarrow> dict_error + cell \<times> builder" where
  "create_leaf sha256 cb key len n store_val =
     bind_err (append_dict_label cb key len n) (\<lambda>cb.
     bind_err (or_throw Excno_cell_ov (store_val cb)) (\<lambda>cb. dict_finalize sha256 cb))"

definition slice_ptr :: "slice \<Rightarrow> bit_ptr" where
  "slice_ptr s = (slice_data s, bits_st s)"

definition lower_edge ::
  "(byte list \<Rightarrow> byte list) \<Rightarrow> builder \<Rightarrow> label \<Rightarrow> nat \<Rightarrow> nat \<Rightarrow> dict_error + cell \<times> builder" where
  "lower_edge sha256 cb lab pfx_len m =
     (let t = l_bits lab - pfx_len - 1
      in bind_err
        (if l_same lab \<noteq> 0
         then bind_err (append_dict_label_same cb (odd (l_same lab)) t m) (\<lambda>cb. Inr (cb, l_remainder lab))
         else
           let cs = snd (slice_advance (l_remainder lab) (pfx_len + 1))
           in bind_err (append_dict_label cb (slice_ptr cs) t m) (\<lambda>cb. Inr (cb, snd (slice_advance cs t))))
        (\<lambda>(cb, cs).
           bind_err (or_throw Excno_cell_ov (cell_builder_add_slice_bool cb cs)) (\<lambda>cb. dict_finalize sha256 cb)))"

definition create_fork ::
  "(byte list \<Rightarrow> byte list) \<Rightarrow> builder \<Rightarrow> bit_ptr \<Rightarrow> nat \<Rightarrow> nat \<Rightarrow> cell option \<Rightarrow> cell option \<Rightarrow> dict_error + cell" where
  "create_fork sha256 cb key len n c1 c2 =
     bind_err (append_dict_label cb key len n) (\<lambda>cb.
     bind_err (store_two_refs cb c1 c2) (\<lambda>cb.
     bind_err (dict_finalize sha256 cb) (\<lambda>(c, cb). Inr c)))"

text \<open>A new node inside the current edge.\<close>

definition insert_fork ::
  "(byte list \<Rightarrow> byte list) \<Rightarrow> label \<Rightarrow> bit_ptr \<Rightarrow> nat \<Rightarrow> nat \<Rightarrow> store_value \<Rightarrow> dict_error + cell" where
  "insert_fork sha256 lab key n pfx_len store_val =
     (let m = n - pfx_len - 1
      in bind_err (create_leaf sha256 empty_builder (ptr_add key (pfx_len + 1)) m m store_val) (\<lambda>(c1, cb).
         bind_err (lower_edge sha256 cb lab pfx_len m) (\<lambda>(c2, cb).
           let (c1, c2) = (if ptr_bit key pfx_len then (c2, c1) else (c1, c2))
           in create_fork sha256 cb key pfx_len n (Some c1) (Some c2))))"

function dict_set ::
  "(byte list \<Rightarrow> byte list) \<Rightarrow> cell option \<Rightarrow> bit_ptr \<Rightarrow> nat \<Rightarrow> store_value \<Rightarrow> set_mode \<Rightarrow> dict_error + cell option \<times> bool" where
  "dict_set sha256 dict key n store_val mode =
     (if dict = None then
        if mode = Mode_Replace then Inr (None, False)
        else bind_err (create_leaf sha256 empty_builder key n n store_val) (\<lambda>(c, cb). Inr (Some c, True))
      else
        bind_err (label_of_cell dict n chk_all) (\<lambda>lab.
        bind_err (label_validate lab) (\<lambda>_.
          let pfx_len = label_common_prefix_len lab key n
          in if pfx_len < l_bits lab then
               if mode = Mode_Replace then Inr (None, False)
               else bind_err (insert_fork sha256 lab key n pfx_len store_val) (\<lambda>c. Inr (Some c, True))
             else if l_bits lab = n then
               if mode = Mode_Add then Inr (None, False)
               else bind_err (create_leaf sha256 empty_builder key n n store_val) (\<lambda>(c, cb). Inr (Some c, True))
             else
               let c1 = prefetch_ref (l_remainder lab) 0; c2 = prefetch_ref (l_remainder lab) 1;
                   right = ptr_bit key (l_bits lab)
               in bind_err (dict_set sha256 (if right then c2 else c1) (ptr_add key (l_bits lab + 1)) (n - l_bits lab - 1)
                    store_val mode) (\<lambda>(res, changed).
                    if \<not> changed then Inr (None, False)
                    else
                      let (c1, c2) = (if right then (c1, res) else (res, c2))
                      in bind_err (create_fork sha256 empty_builder key (l_bits lab) n c1 c2)
                           (\<lambda>c. Inr (Some c, True))))))"
  by pat_completeness auto
termination
proof (relation "measure (\<lambda>(sha256, dict, key, n, store_val, mode). n)")
  fix dict n lab
  assume "label_of_cell dict n chk_all = Inr lab" "l_bits lab \<noteq> n"
  then have "l_bits lab < n" using label_of_cell_bounded [of dict n chk_all lab] by simp
  then show "((sha256, if right then c2 else c1, ptr_add key (l_bits lab + 1), n - l_bits lab - 1, store_val, mode),
      sha256, dict, key, n, store_val, mode) \<in> measure (\<lambda>(sha256, dict, key, n, store_val, mode). n)"
    for sha256 :: "byte list \<Rightarrow> byte list" and right c2 c1 key store_val and mode :: set_mode by simp
qed simp

declare dict_set.simps [simp del]

text \<open>\<open>dict_lookup_set\<close> also gives the old value.\<close>

function dict_lookup_set ::
  "(byte list \<Rightarrow> byte list) \<Rightarrow> cell option \<Rightarrow> bit_ptr \<Rightarrow> nat \<Rightarrow> store_value \<Rightarrow> set_mode
     \<Rightarrow> dict_error + slice option \<times> cell option \<times> bool" where
  "dict_lookup_set sha256 dict key n store_val mode =
     (if dict = None then
        if mode = Mode_Replace then Inr (None, None, False)
        else bind_err (create_leaf sha256 empty_builder key n n store_val) (\<lambda>(c, cb). Inr (None, Some c, True))
      else
        bind_err (label_of_cell dict n chk_all) (\<lambda>lab.
          let pfx_len = label_common_prefix_len lab key n
          in if pfx_len < l_bits lab then
               if mode = Mode_Replace then Inr (None, None, False)
               else bind_err (insert_fork sha256 lab key n pfx_len store_val) (\<lambda>c. Inr (None, Some c, True))
             else if l_bits lab = n then
               let old_val = snd (slice_advance (l_remainder lab) (l_sbits lab))
               in if mode = Mode_Add then Inr (Some old_val, None, False)
                  else bind_err (create_leaf sha256 empty_builder key n n store_val)
                         (\<lambda>(c, cb). Inr (Some old_val, Some c, True))
             else
               let c1 = prefetch_ref (l_remainder lab) 0; c2 = prefetch_ref (l_remainder lab) 1;
                   right = ptr_bit key (l_bits lab)
               in bind_err (dict_lookup_set sha256 (if right then c2 else c1) (ptr_add key (l_bits lab + 1))
                    (n - l_bits lab - 1) store_val mode) (\<lambda>(old_val, res, changed).
                    if \<not> changed then Inr (old_val, None, False)
                    else
                      let (c1, c2) = (if right then (c1, res) else (res, c2))
                      in bind_err (create_fork sha256 empty_builder key (l_bits lab) n c1 c2)
                           (\<lambda>c. Inr (old_val, Some c, True)))))"
  by pat_completeness auto
termination
proof (relation "measure (\<lambda>(sha256, dict, key, n, store_val, mode). n)")
  fix dict n lab
  assume "label_of_cell dict n chk_all = Inr lab" "l_bits lab \<noteq> n"
  then have "l_bits lab < n" using label_of_cell_bounded [of dict n chk_all lab] by simp
  then show "((sha256, if right then c2 else c1, ptr_add key (l_bits lab + 1), n - l_bits lab - 1, store_val, mode),
      sha256, dict, key, n, store_val, mode) \<in> measure (\<lambda>(sha256, dict, key, n, store_val, mode). n)"
    for sha256 :: "byte list \<Rightarrow> byte list" and right c2 c1 key store_val and mode :: set_mode by simp
qed simp

declare dict_lookup_set.simps [simp del]

section \<open>Looking up\<close>

definition value_of :: "slice option \<Rightarrow> dict_val option" where
  "value_of r = map_option (\<lambda>s. (slice_bits s, slice_children s)) r"

definition value_ok :: "slice option \<Rightarrow> bool" where
  "value_ok r \<longleftrightarrow> (case r of None \<Rightarrow> True | Some s \<Rightarrow> slice_ok s)"

lemma view_bits: "label_view lab ls rest cs \<Longrightarrow> l_bits lab = length ls"
  by (simp add: label_view_def)

lemma view_ref:
  assumes "label_view lab ls rest cs"
  shows "prefetch_ref (l_remainder lab) k = (if k < length cs then Some (cs ! k) else None)"
proof -
  have ok: "slice_ok (l_remainder lab)" "slice_children (l_remainder lab) = cs"
    using assms by (auto simp: label_view_def split: if_splits)
  show ?thesis using prefetch_ref_eq [OF ok(1), of k] label_view_size(2) [OF assms] ok(2) by simp
qed

lemma view_advanced_ref:
  assumes "slice_ok s" and "slice_children s = cs"
  shows "prefetch_ref s k = (if k < length cs then Some (cs ! k) else None)"
  using prefetch_ref_eq [OF assms(1), of k] assms by auto

lemma ptr_bits_drop: "k \<le> n \<Longrightarrow> ptr_bits (ptr_add p k) (n - k) = drop k (ptr_bits p n)"
  by (simp add: ptr_bits_def ptr_add_def drop_take add.commute)

text \<open>A key at a node: the label, the next bit and the rest.\<close>

lemma key_split:
  assumes key: "ptr_ok key n" and p: "prefix ls (ptr_bits key n)" and lt: "length ls < n"
  shows "ptr_bits key n = ls @ ptr_bit key (length ls) # ptr_bits (ptr_add key (length ls + 1)) (n - length ls - 1)"
    and "ptr_ok (ptr_add key (length ls + 1)) (n - length ls - 1)"
proof -
  let ?k = "ptr_bits key n"
  have k: "length ?k = n" using key by simp
  have "?k = ls @ drop (length ls) ?k" using p by (auto simp: prefix_def)
  also have "drop (length ls) ?k = ?k ! length ls # drop (length ls + 1) ?k"
    using lt k by (simp add: Cons_nth_drop_Suc)
  also have "drop (length ls + 1) ?k = ptr_bits (ptr_add key (length ls + 1)) (n - length ls - 1)"
    using ptr_bits_drop [of "length ls + 1" n key] lt by simp
  finally show "?k = ls @ ptr_bit key (length ls) # ptr_bits (ptr_add key (length ls + 1)) (n - length ls - 1)"
    using ptr_bit_nth [OF key lt] by simp
  show "ptr_ok (ptr_add key (length ls + 1)) (n - length ls - 1)" using key lt by (simp add: ptr_ok_def ptr_add_def)
qed

lemma map_of_pre_append: "map_of (pre p es) (p @ k) = map_of es k"
  by (simp add: map_of_pre)

lemma map_of_node: "map_of (pre ls (pre [False] ea @ pre [True] eb)) (ls @ b # k) = map_of (if b then eb else ea) k"
  by (rule trans [OF map_of_pre_append map_of_fork])

lemma payload_fork_step:
  assumes "payload_rep (n - length ls) rest refs es" and "length ls < n"
  shows "\<exists>a b ea eb. rest = [] \<and> refs = [a, b] \<and> dict_rep (n - length ls - 1) a ea \<and> dict_rep (n - length ls - 1) b eb
     \<and> es = pre [False] ea @ pre [True] eb"
proof -
  obtain m where m: "n - length ls = Suc m" using assms(2) by (metis Suc_diff_Suc)
  then have "n - length ls - 1 = m" by simp
  with payload_bits [of m rest refs es] assms(1) show ?thesis by (simp add: m)
qed

lemma payload_leaf: "payload_rep (n - length ls) rest refs es \<Longrightarrow> length ls = n \<Longrightarrow> es = [([], rest, refs)]"
  by (auto elim: payload_0E)

theorem dict_lookup_correct:
  assumes "dict_rep n c es" and "ptr_ok key n" and "n < 2 ^ 31"
  shows "\<exists>r. dict_lookup (Some c) key n = Inr r \<and> value_of r = map_of es (ptr_bits key n) \<and> value_ok r"
  using assms
proof (induction n arbitrary: c es key rule: less_induct)
  case (less n)
  obtain lab ls rest es0 where L: "label_of_cell (Some c) n chk_all = Inr lab" "label_view lab ls rest (c_refs c)"
    "length ls \<le> n" "payload_rep (n - length ls) rest (c_refs c) es0" "es = pre ls es0"
    using dict_rep_label [OF less.prems(1,3), of chk_all] by auto
  note B = view_bits [OF L(2)] and P = label_is_prefix_of_eq [OF L(2) less.prems(2)]
  show ?case
  proof (cases "prefix ls (ptr_bits key n)")
    case False
    then have "map_of es (ptr_bits key n) = None" by (simp add: L(5) map_of_pre)
    then show ?thesis using False P by (simp add: dict_lookup.simps [of "Some c"] L(1) value_of_def value_ok_def)
  next
    case pfx: True
    show ?thesis
    proof (cases "length ls = n")
      case True
      then have "ptr_bits key n = ls" using pfx True length_ptr_bits [OF less.prems(2)] by (auto simp: prefix_def)
      then have "map_of es (ptr_bits key n) = Some (rest, c_refs c)"
        using payload_leaf [OF L(4) True] by (simp add: L(5))
      then show ?thesis using True pfx P B skip_label_rest [OF L(2)]
        by (simp add: dict_lookup.simps [of "Some c"] L(1) value_of_def value_ok_def)
    next
      case False
      then have lt: "length ls < n" using L(3) by simp
      obtain a b ea eb where F: "rest = []" "c_refs c = [a, b]" "dict_rep (n - length ls - 1) a ea"
        "dict_rep (n - length ls - 1) b eb" "es0 = pre [False] ea @ pre [True] eb"
        using payload_fork_step [OF L(4) lt] by blast
      note K = key_split [OF less.prems(2) pfx lt]
      define sw where "sw = ptr_bit key (length ls)"
      have sw: "ptr_bit (ptr_add key (length ls)) 0 = sw" "ptr_add (ptr_add key (length ls)) 1 = ptr_add key (length ls + 1)"
        by (simp_all add: sw_def ptr_bit_def ptr_add_def)
      have rec: "dict_lookup (Some c) key n =
          dict_lookup (Some (if sw then b else a)) (ptr_add key (length ls + 1)) (n - length ls - 1)"
        using lt pfx P B F(2) view_ref [OF L(2), of "of_bool sw"]
        by (subst dict_lookup.simps) (auto simp: L(1) sw [simplified])
      have m: "map_of es (ptr_bits key n) = map_of (if sw then eb else ea) (ptr_bits (ptr_add key (length ls + 1)) (n - length ls - 1))"
        unfolding K(1) sw_def [symmetric] L(5) F(5) by (rule map_of_node)
      have d: "dict_rep (n - length ls - 1) (if sw then b else a) (if sw then eb else ea)" using F by simp
      have "n - length ls - 1 < n" using lt by simp
      from less.IH [OF this d K(2)] less.prems(3) show ?thesis unfolding rec m by simp
    qed
  qed
qed

section \<open>Errors and outcomes\<close>

text \<open>On a well-formed dictionary an operation that builds cells fails only when something does not
  fit in a cell. \<open>dict_ok P r\<close>: the result satisfies \<open>P\<close>, or there was no room.\<close>

definition no_room :: "dict_error \<Rightarrow> bool" where
  "no_room e \<longleftrightarrow> e = Vm_error Excno_cell_ov \<or> (\<exists>b. e = Build_error b)"

definition dict_ok :: "('a \<Rightarrow> bool) \<Rightarrow> dict_error + 'a \<Rightarrow> bool" where
  "dict_ok P r \<longleftrightarrow> (case r of Inl e \<Rightarrow> no_room e | Inr x \<Rightarrow> P x)"

lemma dict_ok_Inr [simp]: "dict_ok P (Inr x) \<longleftrightarrow> P x"
  by (simp add: dict_ok_def)

lemma dict_ok_bind: "dict_ok Q r \<Longrightarrow> (\<And>x. Q x \<Longrightarrow> dict_ok P (f x)) \<Longrightarrow> dict_ok P (bind_err r f)"
  by (cases r) (simp_all add: dict_ok_def)

lemma dict_ok_mono: "dict_ok Q r \<Longrightarrow> (\<And>x. Q x \<Longrightarrow> P x) \<Longrightarrow> dict_ok P r"
  by (auto simp: dict_ok_def split: sum.splits)

lemma no_room_simps [simp]: "no_room (Vm_error Excno_cell_ov)" "no_room (Build_error b)"
  by (simp_all add: no_room_def)

definition fresh :: "builder \<Rightarrow> bool" where
  "fresh cb \<longleftrightarrow> builder_ok cb \<and> builder_out cb = [] \<and> b_refs cb = []"

lemma fresh_empty [simp]: "fresh empty_builder"
  using builder_ok_empty by (simp add: fresh_def empty_builder_def) (simp add: new_builder_def)

lemma build_no_room: "build r = Inl e \<Longrightarrow> no_room e"
  by (auto simp: build_def split: sum.splits)

lemma append_dict_label_no_room: "append_dict_label cb p len n = Inl e \<Longrightarrow> no_room e"
  unfolding append_dict_label_def append_dict_label_same_def Let_def bind_err_def
  by (auto split: if_splits sum.splits dest: build_no_room)

lemma written_node:
  assumes w: "written cb (label_code n ls) r" and f: "fresh cb" and e: "\<And>e. r = Inl e \<Longrightarrow> no_room e"
  shows "dict_ok (\<lambda>cb'. node_built cb' n ls [] []) r"
  using w f e by (cases r) (auto simp: written_def fresh_def node_built_def dict_ok_def split: if_splits)

lemma append_dict_label_ok:
  assumes f: "fresh cb" and p: "ptr_ok p len" and len: "len \<le> n" and n: "n < 2 ^ 31"
  shows "dict_ok (\<lambda>cb'. node_built cb' n (ptr_bits p len) [] []) (append_dict_label cb p len n)"
proof (rule written_node [OF _ f append_dict_label_no_room])
  show "written cb (label_code n (ptr_bits p len)) (append_dict_label cb p len n)"
    using append_dict_label_writes [OF _ p len n] f by (simp add: fresh_def)
qed

lemma append_dict_label_same_ok:
  assumes f: "fresh cb" and len: "len \<le> n" and n: "n < 2 ^ 31"
  shows "dict_ok (\<lambda>cb'. builder_ok cb' \<and> builder_out cb' = same_code n same len \<and> b_refs cb' = [])
     (append_dict_label_same cb same len n)"
proof -
  have "written cb (same_code n same len) (append_dict_label_same cb same len n)"
    using append_dict_label_same_writes [OF _ len n] f by (simp add: fresh_def)
  moreover have "append_dict_label_same cb same len n = Inl e \<Longrightarrow> no_room e" for e
    by (auto simp: append_dict_label_same_def Let_def dest: build_no_room)
  ultimately show ?thesis using f
    by (cases "append_dict_label_same cb same len n") (auto simp: written_def fresh_def dict_ok_def split: if_splits)
qed

text \<open>A node whose label has been written in any of the forms that the parser reads.\<close>

definition node_coded :: "builder \<Rightarrow> nat \<Rightarrow> bool list \<Rightarrow> bool list \<Rightarrow> cell list \<Rightarrow> bool" where
  "node_coded cb n ls rest refs \<longleftrightarrow>
     builder_ok cb \<and> parse_bits n (builder_out cb) = Some (ls, rest) \<and> b_refs cb = refs
     \<and> (\<forall>r. parse_bits n (builder_out cb @ r) = Some (ls, rest @ r))"

lemma node_built_coded:
  "node_built cb n ls rest refs \<Longrightarrow> length ls \<le> n \<Longrightarrow> n < 2 ^ 31 \<Longrightarrow> node_coded cb n ls rest refs"
  using parse_label_code by (simp add: node_built_def node_coded_def)

lemma same_code_coded:
  assumes "builder_ok cb" "builder_out cb = same_code n same len" "b_refs cb = []" and n: "len \<le> n" "n < 2 ^ 31"
  shows "node_coded cb n (replicate len same) [] []"
  using parse_same_code [of "replicate len same" n same] assms
  by (simp add: node_coded_def) (metis append_Nil2 length_replicate)

lemma add_more_ok:
  assumes b: "node_coded cb n ls rest refs" and a: "builder_ok cb \<Longrightarrow> appends cb ys cs r"
  shows "dict_ok (\<lambda>cb'. node_coded cb' n ls (rest @ ys) (refs @ cs)) (or_throw Excno_cell_ov r)"
proof (cases "fst r")
  case True
  have "builder_ok (snd r)" "builder_out (snd r) = builder_out cb @ ys" "b_refs (snd r) = b_refs cb @ cs"
    using a b True by (auto simp: appends_def node_coded_def)
  then have "node_coded (snd r) n ls (rest @ ys) (refs @ cs)" using b by (simp add: node_coded_def)
  then show ?thesis using True by (simp add: or_throw_def)
qed (simp add: or_throw_def dict_ok_def)

lemmas add_content_ok = add_more_ok [where rest = "[]" and refs = "[]", unfolded append_Nil]

lemma store_ref_ok: "builder_ok cb \<Longrightarrow> appends_or_throws cb [] [c] (store_ref cb (Some c))"
  using ensure_pass_appends [OF store_ref_bool_appends, of cb c] by (simp add: store_ref_def)

lemma store_two_refs_ok:
  assumes b: "node_coded cb n ls rest []"
  shows "dict_ok (\<lambda>cb'. node_coded cb' n ls rest [c1, c2]) (store_two_refs cb (Some c1) (Some c2))"
proof (cases "store_ref cb (Some c1)")
  case Inr1: (Inr cb1)
  have 1: "builder_ok cb1" "builder_out cb1 = builder_out cb" "b_refs cb1 = [c1]"
    using store_ref_ok [of cb c1] b by (auto simp: appends_or_throws_def appends_def Inr1 node_coded_def)
  show ?thesis
  proof (cases "store_ref cb1 (Some c2)")
    case (Inr cb2)
    have "builder_ok cb2" "builder_out cb2 = builder_out cb1" "b_refs cb2 = [c1, c2]"
      using store_ref_ok [of cb1 c2] 1 by (auto simp: appends_or_throws_def appends_def Inr)
    then show ?thesis using b 1 by (simp add: store_two_refs_def Inr Inr1 node_coded_def)
  qed (simp add: store_two_refs_def Inr1 dict_ok_def)
qed (simp add: store_two_refs_def dict_ok_def)

lemma finalize_node_cell:
  assumes b: "node_coded cb n ls rest refs" and sha: "\<And>x. length (sha256 x) = hash_bytes" and refs: "\<forall>r \<in> set refs. wf_cell r"
  shows "dict_ok (\<lambda>(c, cb'). node_cell n c ls rest refs \<and> fresh cb') (dict_finalize sha256 cb)"
proof (cases "dict_finalize sha256 cb")
  case (Inr p')
  obtain c cb' where f: "dict_finalize sha256 cb = Inr (c, cb')" using Inr by (cases p') auto
  have b': "builder_ok cb" "\<forall>r \<in> set (b_refs cb). wf_cell r" using b refs by (simp_all add: node_coded_def)
  note F = finalize_ordinary [OF f b'(1) sha b'(2)]
  show ?thesis using F b by (simp add: f fresh_def node_cell_def node_coded_def)
qed (auto simp: dict_ok_def dict_finalize_def split: prod.splits sum.splits)

lemma finalize_node_ok:
  assumes b: "node_coded cb n ls rest refs" and sha: "\<And>x. length (sha256 x) = hash_bytes"
    and refs: "\<forall>r \<in> set refs. wf_cell r" and p: "payload_rep (n - length ls) rest refs es"
  shows "dict_ok (\<lambda>(c, cb'). dict_rep n c (pre ls es) \<and> fresh cb') (dict_finalize sha256 cb)"
  by (rule dict_ok_mono [OF finalize_node_cell [OF b sha refs]]) (use node_cell_rep p in auto)

section \<open>Storing\<close>

text \<open>What a caller stores: a value, its bits and its references, and a function that appends them to a
  builder or reports that they do not fit.\<close>

locale value_store =
  fixes vok :: "'v \<Rightarrow> bool"
    and vbits :: "'v \<Rightarrow> bool list"
    and vrefs :: "'v \<Rightarrow> cell list"
    and put :: "'v \<Rightarrow> store_value"
  assumes put_appends: "\<lbrakk>vok v; builder_ok b\<rbrakk> \<Longrightarrow> appends b (vbits v) (vrefs v) (put v b)"
    and vrefs_wf: "\<lbrakk>vok v; r \<in> set (vrefs v)\<rbrakk> \<Longrightarrow> wf_cell r"
begin

lemma create_leaf_ok:
  assumes v: "vok v" and f: "fresh cb" and p: "ptr_ok p n" and n: "n < 2 ^ 31"
    and sha: "\<And>x. length (sha256 x) = hash_bytes"
  shows "dict_ok (\<lambda>(c, cb'). dict_rep n c [(ptr_bits p n, vbits v, vrefs v)] \<and> fresh cb')
     (create_leaf sha256 cb p n n (put v))"
  unfolding create_leaf_def
proof (rule dict_ok_bind [OF append_dict_label_ok [OF f p order.refl n]])
  fix cb1 assume b1: "node_built cb1 n (ptr_bits p n) [] []"
  have len: "length (ptr_bits p n) = n" using p by simp
  have c1: "node_coded cb1 n (ptr_bits p n) [] []" using node_built_coded [OF b1 _ n] len by simp
  show "dict_ok (\<lambda>(c, cb'). dict_rep n c [(ptr_bits p n, vbits v, vrefs v)] \<and> fresh cb')
     (bind_err (or_throw Excno_cell_ov (put v cb1)) (dict_finalize sha256))"
  proof (rule dict_ok_bind [OF add_content_ok [OF c1 put_appends [OF v]]], assumption)
    fix cb2 assume b2: "node_coded cb2 n (ptr_bits p n) (vbits v) (vrefs v)"
    have l: "payload_rep (n - length (ptr_bits p n)) (vbits v) (vrefs v) [([], vbits v, vrefs v)]"
      using len by (simp add: leaf)
    show "dict_ok (\<lambda>(c, cb'). dict_rep n c [(ptr_bits p n, vbits v, vrefs v)] \<and> fresh cb') (dict_finalize sha256 cb2)"
      using finalize_node_ok [OF b2 sha _ l] vrefs_wf [OF v] by simp
  qed
qed

end

lemma slice_ptr_bits: "slice_ok s \<Longrightarrow> n \<le> slice_size s \<Longrightarrow> ptr_bits (slice_ptr s) n = take n (slice_bits s) \<and> ptr_ok (slice_ptr s) n"
  using slice_sub_bits [of 0 n s] slice_room [of s] by (simp add: slice_ptr_def ptr_bits_def ptr_ok_def)

lemma lower_edge_cell:
  assumes v: "label_view lab ls rest cs" and j: "j < length ls" and n: "length ls \<le> n" "n < 2 ^ 31"
    and f: "fresh cb" and wf: "\<forall>r \<in> set cs. wf_cell r" and sha: "\<And>x. length (sha256 x) = hash_bytes"
  shows "dict_ok (\<lambda>(c, cb'). node_cell (n - j - 1) c (drop (j + 1) ls) rest cs \<and> fresh cb')
     (lower_edge sha256 cb lab j (n - j - 1))"
proof -
  define m where "m = n - j - 1"
  define t where "t = length ls - j - 1"
  have B: "l_bits lab = length ls" by (rule view_bits [OF v])
  have m: "t \<le> m" "m < 2 ^ 31" using n j by (simp_all add: m_def t_def)
  have drop_len: "length (drop (j + 1) ls) = t" by (simp add: t_def)
  have content: "dict_ok (\<lambda>(c, cb'). node_cell m c (drop (j + 1) ls) rest cs \<and> fresh cb')
      (bind_err (or_throw Excno_cell_ov (cell_builder_add_slice_bool cb1 cs1)) (dict_finalize sha256))"
    if c1: "node_coded cb1 m (drop (j + 1) ls) [] []" and s1: "slice_ok cs1" "slice_bits cs1 = rest" "slice_children cs1 = cs"
    for cb1 cs1
  proof (rule dict_ok_bind [OF add_content_ok [OF c1 cell_builder_add_slice_appends [OF _ s1(1)]]], assumption)
    fix cb2 assume b2: "node_coded cb2 m (drop (j + 1) ls) (slice_bits cs1) (slice_children cs1)"
    show "dict_ok (\<lambda>(c, cb'). node_cell m c (drop (j + 1) ls) rest cs \<and> fresh cb') (dict_finalize sha256 cb2)"
      using finalize_node_cell [OF b2 sha] wf s1 by simp
  qed
  show ?thesis
  proof (cases "l_same lab = 0")
    case False
    have r: "slice_ok (l_remainder lab)" "slice_bits (l_remainder lab) = rest" "slice_children (l_remainder lab) = cs"
      and ls: "ls = replicate (length ls) (odd (l_same lab))"
      using v False by (simp_all add: label_view_def)
    have d: "drop (j + 1) ls = replicate t (odd (l_same lab))" by (subst ls) (simp add: t_def)
    have e: "lower_edge sha256 cb lab j m =
       bind_err (append_dict_label_same cb (odd (l_same lab)) t m) (\<lambda>cb.
         bind_err (or_throw Excno_cell_ov (cell_builder_add_slice_bool cb (l_remainder lab))) (dict_finalize sha256))"
      using False by (cases "append_dict_label_same cb (odd (l_same lab)) t m")
        (simp_all add: lower_edge_def B t_def m_def)
    show ?thesis unfolding m_def [symmetric] e
    proof (rule dict_ok_bind [OF append_dict_label_same_ok [OF f m]])
      fix cb1 assume "builder_ok cb1 \<and> builder_out cb1 = same_code m (odd (l_same lab)) t \<and> b_refs cb1 = []"
      then have "node_coded cb1 m (drop (j + 1) ls) [] []" unfolding d using same_code_coded m by blast
      from content [OF this r]
      show "dict_ok (\<lambda>(c, cb'). node_cell m c (drop (j + 1) ls) rest cs \<and> fresh cb')
         (bind_err (or_throw Excno_cell_ov (cell_builder_add_slice_bool cb1 (l_remainder lab))) (dict_finalize sha256))" .
    qed
  next
    case True
    define s where "s = l_remainder lab"
    have s: "slice_ok s" "slice_bits s = ls @ rest" "slice_children s = cs"
      using v True by (simp_all add: label_view_def s_def)
    have sz: "slice_size s = length ls + length rest" using slice_size_bits [OF s(1)] s(2) by simp
    define s1 where "s1 = snd (slice_advance s (j + 1))"
    have le1: "j + 1 \<le> slice_size s" using sz j by simp
    have R1: "reads s (j + 1) 0 s1" unfolding s1_def by (rule slice_advance_reads(2) [OF s(1) le1])
    have b1: "slice_ok s1" "slice_bits s1 = drop (j + 1) ls @ rest" "slice_children s1 = cs"
      using R1 s j reads_children [OF R1] by (simp_all add: reads_def)
    have sz1: "slice_size s1 = t + length rest" using slice_size_bits [OF b1(1)] b1(2) j by (simp add: t_def)
    have tle: "t \<le> slice_size s1" using sz1 by simp
    have R2: "reads s1 t 0 (snd (slice_advance s1 t))" by (rule slice_advance_reads(2) [OF b1(1) tle])
    have b2: "slice_ok (snd (slice_advance s1 t))" "slice_bits (snd (slice_advance s1 t)) = rest"
      "slice_children (snd (slice_advance s1 t)) = cs"
      using R2 b1 reads_children [OF R2] drop_len by (simp_all add: reads_def)
    have lbl: "ptr_bits (slice_ptr s1) t = drop (j + 1) ls" "ptr_ok (slice_ptr s1) t"
      using slice_ptr_bits [OF b1(1) tle] b1(2) drop_len by simp_all
    have e: "lower_edge sha256 cb lab j m =
       bind_err (append_dict_label cb (slice_ptr s1) t m) (\<lambda>cb.
         bind_err (or_throw Excno_cell_ov (cell_builder_add_slice_bool cb (snd (slice_advance s1 t)))) (dict_finalize sha256))"
      using True by (cases "append_dict_label cb (slice_ptr s1) t m")
        (simp_all add: lower_edge_def B t_def [simplified] m_def s1_def s_def Let_def)
    show ?thesis unfolding m_def [symmetric] e
    proof (rule dict_ok_bind [OF append_dict_label_ok [OF f lbl(2) m]])
      fix cb1 assume "node_built cb1 m (ptr_bits (slice_ptr s1) t) [] []"
      then have "node_coded cb1 m (drop (j + 1) ls) [] []"
        unfolding lbl(1) using node_built_coded drop_len m by simp
      from content [OF this b2]
      show "dict_ok (\<lambda>(c, cb'). node_cell m c (drop (j + 1) ls) rest cs \<and> fresh cb')
         (bind_err (or_throw Excno_cell_ov (cell_builder_add_slice_bool cb1 (snd (slice_advance s1 t)))) (dict_finalize sha256))" .
    qed
  qed
qed

lemma lower_edge_ok:
  assumes v: "label_view lab ls rest cs" and j: "j < length ls" and n: "length ls \<le> n" "n < 2 ^ 31"
    and f: "fresh cb" and wf: "\<forall>r \<in> set cs. wf_cell r" and sha: "\<And>x. length (sha256 x) = hash_bytes"
    and p: "payload_rep (n - length ls) rest cs es"
  shows "dict_ok (\<lambda>(c, cb'). dict_rep (n - j - 1) c (pre (drop (j + 1) ls) es) \<and> fresh cb')
     (lower_edge sha256 cb lab j (n - j - 1))"
proof -
  have "n - j - 1 - length (drop (j + 1) ls) = n - length ls" using n j by simp
  with node_cell_rep p have "node_cell (n - j - 1) c (drop (j + 1) ls) rest cs \<Longrightarrow> dict_rep (n - j - 1) c (pre (drop (j + 1) ls) es)" for c
    by metis
  then show ?thesis by (intro dict_ok_mono [OF lower_edge_cell [OF v j n f wf sha]]) auto
qed

lemma create_fork_ok:
  assumes f: "fresh cb" and p: "ptr_ok key len" and len: "len < n" and n: "n < 2 ^ 31"
    and a: "dict_rep (n - len - 1) a ea" and b: "dict_rep (n - len - 1) b eb"
    and sha: "\<And>x. length (sha256 x) = hash_bytes"
  shows "dict_ok (\<lambda>c. dict_rep n c (pre (ptr_bits key len) (pre [False] ea @ pre [True] eb)))
     (create_fork sha256 cb key len n (Some a) (Some b))"
  unfolding create_fork_def
proof (rule dict_ok_bind [OF append_dict_label_ok [OF f p less_imp_le [OF len] n]])
  fix cb1 assume b1: "node_built cb1 n (ptr_bits key len) [] []"
  have l: "length (ptr_bits key len) = len" using p by simp
  have c1: "node_coded cb1 n (ptr_bits key len) [] []" using node_built_coded [OF b1 _ n] len l by simp
  have "Suc (n - len - 1) = n - len" using len by simp
  then have q: "payload_rep (n - length (ptr_bits key len)) [] [a, b] (pre [False] ea @ pre [True] eb)"
    using fork [OF a b] l by simp
  have wf: "\<forall>r \<in> set [a, b]. wf_cell r" using dict_rep_wf [OF a] dict_rep_wf [OF b] by simp
  show "dict_ok (\<lambda>c. dict_rep n c (pre (ptr_bits key len) (pre [False] ea @ pre [True] eb)))
     (bind_err (store_two_refs cb1 (Some a) (Some b)) (\<lambda>cb. bind_err (dict_finalize sha256 cb) (\<lambda>(c, cb). Inr c)))"
  proof (rule dict_ok_bind [OF store_two_refs_ok [OF c1]])
    fix cb2 assume b2: "node_coded cb2 n (ptr_bits key len) [] [a, b]"
    show "dict_ok (\<lambda>c. dict_rep n c (pre (ptr_bits key len) (pre [False] ea @ pre [True] eb)))
       (bind_err (dict_finalize sha256 cb2) (\<lambda>(c, cb). Inr c))"
      by (rule dict_ok_bind [OF finalize_node_ok [OF b2 sha wf q]]) auto
  qed
qed

text \<open>The key leaves the label after \<open>lcp\<close> bits.\<close>

lemma lcp_split:
  assumes "lcp ls k = j" and "j < length ls" and "j < length k"
  shows "k = take j k @ k ! j # drop (j + 1) k" and "ls = take j k @ (\<not> k ! j) # drop (j + 1) ls" and "\<not> prefix ls k"
proof -
  show "k = take j k @ k ! j # drop (j + 1) k" using id_take_nth_drop [OF assms(3)] by simp
  have d: "take j ls = take j k \<and> ls ! j \<noteq> k ! j"
    using assms
  proof (induction ls arbitrary: k j)
    case (Cons x ls)
    then show ?case by (cases k; cases j) (auto split: if_splits)
  qed simp
  then have "take j k @ (\<not> k ! j) # drop (j + 1) ls = take j ls @ ls ! j # drop (Suc j) ls" by auto
  also have "\<dots> = ls" by (rule id_take_nth_drop [OF assms(2), symmetric])
  finally show "ls = take j k @ (\<not> k ! j) # drop (j + 1) ls" ..
  show "\<not> prefix ls k" using assms lcp_prefix [of ls k] by simp
qed

lemma map_of_snoc_new: "map_of es k = None \<Longrightarrow> map_of (es @ [(k, v)]) = (map_of es)(k \<mapsto> v)"
  by (rule ext) (auto simp: map_add_def split: option.splits)

definition set_result :: "set_mode \<Rightarrow> nat \<Rightarrow> dict_entry list \<Rightarrow> bool list \<Rightarrow> dict_val \<Rightarrow> cell option \<times> bool \<Rightarrow> bool" where
  "set_result mode n es k v r \<longleftrightarrow>
     (if mode = Mode_Replace \<and> map_of es k = None \<or> mode = Mode_Add \<and> map_of es k \<noteq> None then r = (None, False)
      else snd r \<and> (\<exists>c es'. fst r = Some c \<and> dict_rep n c es' \<and> map_of es' = (map_of es)(k \<mapsto> v)))"

context value_store
begin

lemma insert_fork_ok:
  assumes v: "vok v" and lv: "label_view lab ls rest cs" and key: "ptr_ok key n" and n: "length ls \<le> n" "n < 2 ^ 31"
    and j: "lcp ls (ptr_bits key n) < length ls" and wf: "\<forall>r \<in> set cs. wf_cell r"
    and p: "payload_rep (n - length ls) rest cs es" and sha: "\<And>x. length (sha256 x) = hash_bytes"
  shows "dict_ok (\<lambda>c. \<exists>es'. dict_rep n c es' \<and> map_of es' = (map_of (pre ls es))(ptr_bits key n \<mapsto> (vbits v, vrefs v)))
     (insert_fork sha256 lab key n (lcp ls (ptr_bits key n)) (put v))"
proof -
  define k where "k = ptr_bits key n"
  define j where "j = lcp ls k"
  define m where "m = n - j - 1"
  define b where "b = k ! j"
  have lk: "length k = n" using key by (simp add: k_def)
  have jl: "j < length ls" "j < n" using assms(6) n by (simp_all add: j_def k_def)
  note S = lcp_split [OF j_def [symmetric] jl(1), unfolded lk, OF jl(2), folded b_def]
  have kk: "ptr_ok (ptr_add key (j + 1)) m" using jl key by (simp add: m_def ptr_ok_def ptr_add_def)
  have kd: "ptr_bits (ptr_add key (j + 1)) m = drop (j + 1) k"
    using ptr_bits_drop [of "j + 1" n key] jl by (simp add: m_def k_def)
  have kj: "ptr_ok key j" "ptr_bits key j = take j k" using jl key ptr_bits_take [of j n key]
    by (simp_all add: ptr_ok_def k_def)
  have bit: "ptr_bit key j = b" using ptr_bit_nth [OF key jl(2)] by (simp add: b_def k_def)
  have none: "map_of (pre ls es) k = None" using S(3) by (simp add: map_of_pre)
  have m31: "m < 2 ^ 31" using n by (simp add: m_def)
  let ?new = "[(drop (j + 1) k, vbits v, vrefs v)]" and ?old = "pre (drop (j + 1) ls) es"
  have new: "pre (take j k @ [b]) ?new = [(k, vbits v, vrefs v)]" using S(1) by simp
  have old: "pre (take j k @ [\<not> b]) ?old = pre ls es" using S(2) by simp
  have upd: "map_of (pre (take j k) (pre [False] (if b then ?old else ?new) @ pre [True] (if b then ?new else ?old)))
      = (map_of (pre ls es))(k \<mapsto> (vbits v, vrefs v))"
    using new old map_of_snoc_new [OF none] by (cases b) simp_all
  show ?thesis
    unfolding insert_fork_def Let_def j_def [symmetric] k_def [symmetric] m_def [symmetric]
  proof (rule dict_ok_bind [OF create_leaf_ok [OF v fresh_empty kk m31 sha, unfolded kd]])
    fix x1 assume "case x1 of (c, cb') \<Rightarrow> dict_rep m c ?new \<and> fresh cb'"
    then obtain c1 cb1 where x1: "x1 = (c1, cb1)" "dict_rep m c1 ?new" "fresh cb1" by (cases x1) auto
    show "dict_ok (\<lambda>c. \<exists>es'. dict_rep n c es' \<and> map_of es' = (map_of (pre ls es))(k \<mapsto> (vbits v, vrefs v)))
       (case x1 of (c1, cb) \<Rightarrow> bind_err (lower_edge sha256 cb lab j m) (\<lambda>(c2, cb).
          case if ptr_bit key j then (c2, c1) else (c1, c2) of
            (c1, c2) \<Rightarrow> create_fork sha256 cb key j n (Some c1) (Some c2)))"
      unfolding x1 prod.case
    proof (rule dict_ok_bind [OF lower_edge_ok [OF lv jl(1) n x1(3) wf sha p, folded m_def]])
      fix x2 assume "case x2 of (c, cb') \<Rightarrow> dict_rep m c ?old \<and> fresh cb'"
      then obtain c2 cb2 where x2: "x2 = (c2, cb2)" "dict_rep m c2 ?old" "fresh cb2" by (cases x2) auto
      have l: "dict_rep (n - j - 1) (if b then c2 else c1) (if b then ?old else ?new)"
        and r: "dict_rep (n - j - 1) (if b then c1 else c2) (if b then ?new else ?old)"
        using x1(2) x2(2) unfolding m_def [symmetric] by simp_all
      have "dict_ok (\<lambda>c. dict_rep n c (pre (take j k) (pre [False] (if b then ?old else ?new) @ pre [True] (if b then ?new else ?old))))
          (create_fork sha256 cb2 key j n (Some (if b then c2 else c1)) (Some (if b then c1 else c2)))"
        using create_fork_ok [OF x2(3) kj(1) jl(2) n(2) l r sha] unfolding kj(2) .
      then have "dict_ok (\<lambda>c. \<exists>es'. dict_rep n c es' \<and> map_of es' = (map_of (pre ls es))(k \<mapsto> (vbits v, vrefs v)))
          (create_fork sha256 cb2 key j n (Some (if b then c2 else c1)) (Some (if b then c1 else c2)))"
        by (rule dict_ok_mono) (use upd in blast)
      then show "dict_ok (\<lambda>c. \<exists>es'. dict_rep n c es' \<and> map_of es' = (map_of (pre ls es))(k \<mapsto> (vbits v, vrefs v)))
         (case x2 of (c2, cb) \<Rightarrow> case if ptr_bit key j then (c2, c1) else (c1, c2) of
              (c1, c2) \<Rightarrow> create_fork sha256 cb key j n (Some c1) (Some c2))"
        by (simp add: x2(1) bit split: if_splits)
    qed
  qed
qed

end

lemma map_of_node_upd:
  assumes e: "map_of e' = (map_of (if b then eb else ea))(k \<mapsto> v)"
  shows "map_of (pre ls (pre [False] (if b then ea else e') @ pre [True] (if b then e' else eb)))
     = (map_of (pre ls (pre [False] ea @ pre [True] eb)))(ls @ b # k \<mapsto> v)"
proof (rule ext)
  fix x
  show "map_of (pre ls (pre [False] (if b then ea else e') @ pre [True] (if b then e' else eb))) x
     = ((map_of (pre ls (pre [False] ea @ pre [True] eb)))(ls @ b # k \<mapsto> v)) x"
  proof (cases "prefix ls x")
    case False
    then show ?thesis by (auto simp: map_of_pre simp del: pre_simps)
  next
    case True
    then obtain y where y: "x = ls @ y" by (auto simp: prefix_def)
    show ?thesis
    proof (cases y)
      case Nil
      have "map_of (pre ls (pre [False] p @ pre [True] q)) (ls @ []) = None" for p q :: "dict_entry list"
        by (rule trans [OF map_of_pre_append]) (auto simp: map_of_pre map_add_def)
      then show ?thesis unfolding y Nil fun_upd_apply by (simp add: map_add_def)
    next
      case (Cons b' y')
      show ?thesis unfolding y Cons fun_upd_apply map_of_node using e by (cases b; cases b') auto
    qed
  qed
qed

lemma if_pair_swap:
  "(case if p then (x, r) else (r, y) of (c1, c2) \<Rightarrow> f c1 c2) = f (if p then x else r) (if p then r else y)"
  by simp

lemma if_Some: "(if p then Some x else Some y) = Some (if p then x else y)"
  by simp

context value_store
begin

lemma new_leaf_ok:
  assumes v: "vok v" and p: "ptr_ok key n" and n: "n < 2 ^ 31" and sha: "\<And>x. length (sha256 x) = hash_bytes"
  shows "dict_ok (\<lambda>r. snd r \<and> (\<exists>c. fst r = Some c \<and> dict_rep n c [(ptr_bits key n, vbits v, vrefs v)]))
     (bind_err (create_leaf sha256 empty_builder key n n (put v)) (\<lambda>(c, cb). Inr (Some c, True)))"
  by (rule dict_ok_bind [OF create_leaf_ok [OF v fresh_empty p n sha]]) auto

theorem dict_set_ok:
  assumes "dict_rep_opt n dict es" and "ptr_ok key n" and "n < 2 ^ 31"
    and v: "vok v" and sha: "\<And>x. length (sha256 x) = hash_bytes"
  shows "dict_ok (set_result mode n es (ptr_bits key n) (vbits v, vrefs v)) (dict_set sha256 dict key n (put v) mode)"
  using assms(1-3)
proof (induction n arbitrary: dict es key rule: less_induct)
  case (less n)
  let ?k = "ptr_bits key n" and ?v = "(vbits v, vrefs v)"
  let ?P = "set_result mode n es ?k ?v"
  have leaf: "dict_ok ?P (bind_err (create_leaf sha256 empty_builder key n n (put v)) (\<lambda>(c, cb). Inr (Some c, True)))"
    if "map_of [(?k, ?v)] = (map_of es)(?k \<mapsto> ?v)"
      "\<not> (mode = Mode_Replace \<and> map_of es ?k = None \<or> mode = Mode_Add \<and> map_of es ?k \<noteq> None)"
  proof (rule dict_ok_mono [OF new_leaf_ok [OF v less.prems(2,3) sha]])
    fix r assume "snd r \<and> (\<exists>c. fst r = Some c \<and> dict_rep n c [(?k, ?v)])"
    then show "?P r" unfolding set_result_def if_not_P [OF that(2)] that(1) [symmetric] by blast
  qed
  show ?case
  proof (cases dict)
    case None
    then have es: "es = []" using less.prems(1) by (simp add: dict_rep_opt_def)
    show ?thesis
    proof (cases "mode = Mode_Replace")
      case True
      then show ?thesis by (simp add: None es dict_set.simps [of _ None] set_result_def)
    next
      case False
      then show ?thesis using leaf by (simp add: None es dict_set.simps [of _ None])
    qed
  next
    case (Some c)
    have rep: "dict_rep n c es" using less.prems(1) by (simp add: Some dict_rep_opt_def)
    obtain lab ls rest es0 where L: "label_of_cell (Some c) n chk_all = Inr lab" "label_view lab ls rest (c_refs c)"
      "length ls \<le> n" "payload_rep (n - length ls) rest (c_refs c) es0" "es = pre ls es0" "ordinary c"
      using dict_rep_label [OF rep less.prems(3), of chk_all] by auto
    note B = view_bits [OF L(2)]
    have wf: "\<forall>r \<in> set (c_refs c). wf_cell r" using ordinary_refs [OF L(6)] by blast
    have val: "label_validate lab = Inr lab" using L(2) by (simp add: label_validate_def label_is_valid_def label_view_def)
    define j where "j = lcp ls ?k"
    have pl: "label_common_prefix_len lab key n = j"
      using label_common_prefix_len_eq [OF L(2) less.prems(2)] by (simp add: j_def)
    note unf = dict_set.simps [of sha256 "Some c" key n "put v" mode, unfolded L(1) val bind_err_simps pl B]
    show ?thesis
    proof (cases "j < length ls")
      case True
      then have np: "\<not> prefix ls ?k" using lcp_prefix [of ls ?k] by (simp add: j_def)
      have none: "map_of es ?k = None" using np by (simp add: L(5) map_of_pre)
      show ?thesis
      proof (cases "mode = Mode_Replace")
        case m: True
        then show ?thesis unfolding Some unf using True none by (simp add: set_result_def)
      next
        case False
        have "dict_ok ?P (bind_err (insert_fork sha256 lab key n j (put v)) (\<lambda>c. Inr (Some c, True)))"
          by (rule dict_ok_bind [OF insert_fork_ok [OF v L(2) less.prems(2) L(3) less.prems(3) True [unfolded j_def] wf L(4) sha, folded j_def]])
            (use False none in \<open>auto simp: set_result_def L(5)\<close>)
        then show ?thesis unfolding Some unf using True False by simp
      qed
    next
      case False
      then have pfx: "prefix ls ?k" using lcp_prefix [of ls ?k] lcp_le(1) [of ls ?k] by (simp add: j_def)
      show ?thesis
      proof (cases "length ls = n")
        case True
        then have ls: "ls = ?k" using pfx length_ptr_bits [OF less.prems(2)] by (auto simp: prefix_def)
        have es: "es = [(?k, rest, c_refs c)]" using payload_leaf [OF L(4) True] ls by (simp add: L(5))
        show ?thesis
        proof (cases "mode = Mode_Add")
          case m: True
          then show ?thesis unfolding Some unf using True False es by (simp add: set_result_def)
        next
          case m: False
          have "map_of [(?k, ?v)] = (map_of es)(?k \<mapsto> ?v)" by (rule ext) (simp add: es)
          from leaf [OF this] m show ?thesis unfolding Some unf using True False es by simp
        qed
      next
        case ne: False
        then have lt: "length ls < n" using L(3) by simp
        obtain a b ea eb where F: "rest = []" "c_refs c = [a, b]" "dict_rep (n - length ls - 1) a ea"
          "dict_rep (n - length ls - 1) b eb" "es0 = pre [False] ea @ pre [True] eb"
          using payload_fork_step [OF L(4) lt] by blast
        note K = key_split [OF less.prems(2) pfx lt]
        define m where "m = n - length ls - 1"
        define right where "right = ptr_bit key (length ls)"
        define key' where "key' = ptr_add key (length ls + 1)"
        define k' where "k' = ptr_bits key' m"
        have k: "?k = ls @ right # k'" using K(1) by (simp only: right_def k'_def key'_def m_def)
        have lsb: "ptr_bits key (length ls) = ls" "ptr_ok key (length ls)"
          using ptr_bits_take [of "length ls" n key] lt k less.prems(2) by (simp_all add: ptr_ok_def)
        have mp: "map_of es (ls @ right # k') = map_of (if right then eb else ea) k'"
          unfolding L(5) F(5) by (rule map_of_node)
        have refs: "prefetch_ref (l_remainder lab) 0 = Some a" "prefetch_ref (l_remainder lab) 1 = Some b"
          using view_ref [OF L(2)] F(2) by simp_all
        have mn: "m < n" "m < 2 ^ 31" using lt less.prems(3) by (simp_all add: m_def)
        have "dict_rep_opt m (if right then Some b else Some a) (if right then eb else ea)"
          using F(3,4) by (simp add: dict_rep_opt_def m_def)
        note IH = less.IH [OF mn(1) this K(2) [folded key'_def m_def] mn(2), folded k'_def]
        have step: "dict_ok ?P
            (bind_err (dict_set sha256 (if right then Some b else Some a) key' m (put v) mode) (\<lambda>(res, changed).
               if \<not> changed then Inr (None, False)
               else let (c1, c2) = (if right then (Some a, res) else (res, Some b))
                    in bind_err (create_fork sha256 empty_builder key (length ls) n c1 c2) (\<lambda>c. Inr (Some c, True))))"
        proof (rule dict_ok_bind [OF IH])
          fix x assume x: "set_result mode m (if right then eb else ea) k' ?v x"
          show "dict_ok ?P (case x of (res, changed) \<Rightarrow>
               if \<not> changed then Inr (None, False)
               else let (c1, c2) = (if right then (Some a, res) else (res, Some b))
                    in bind_err (create_fork sha256 empty_builder key (length ls) n c1 c2) (\<lambda>c. Inr (Some c, True)))"
          proof (cases "mode = Mode_Replace \<and> map_of es ?k = None \<or> mode = Mode_Add \<and> map_of es ?k \<noteq> None")
            case True
            then have "x = (None, False)" using x by (simp add: set_result_def k mp)
            then show ?thesis using True by (simp add: set_result_def)
          next
            case nm: False
            then obtain c' e' where x': "x = (Some c', True)" "dict_rep m c' e'"
              "map_of e' = (map_of (if right then eb else ea))(k' \<mapsto> ?v)"
              using x by (cases x) (auto simp: set_result_def k mp)
            have l: "dict_rep (n - length ls - 1) (if right then a else c') (if right then ea else e')"
              and r: "dict_rep (n - length ls - 1) (if right then c' else b) (if right then e' else eb)"
              using F(3,4) x'(2) by (simp_all add: m_def)
            have upd: "map_of (pre ls (pre [False] (if right then ea else e') @ pre [True] (if right then e' else eb)))
                = (map_of es)(?k \<mapsto> ?v)"
              unfolding k L(5) F(5) by (rule map_of_node_upd [OF x'(3)])
            show ?thesis
              unfolding x'(1) prod.case if_True if_False not_True_eq_False Let_def if_pair_swap if_Some
              by (rule dict_ok_bind [OF create_fork_ok [OF fresh_empty lsb(2) lt less.prems(3) l r sha, unfolded lsb(1)]])
                (use nm upd in \<open>auto simp: set_result_def\<close>)
          qed
        qed
        show ?thesis unfolding Some unf Let_def if_not_P [OF False] if_not_P [OF ne] refs right_def [symmetric] key'_def [symmetric] m_def [symmetric]
          using step [unfolded Let_def] by (simp only: option.simps if_False)
      qed
    qed
  qed
qed

end

text \<open>\<open>dict_lookup_set\<close> makes the same changes, and its first component is the old value.\<close>

lemma label_of_cell_validate:
  assumes "label_of_cell c n chk_all = Inr lab"
  shows "label_validate lab = Inr lab"
proof -
  obtain s where "label_of_slice s n chk_all = Inr lab"
    using assms by (cases "load_cell_slice_ref c") (auto simp: label_of_cell_def)
  then obtain l where "label_validate_ext l n = Inr lab"
    by (auto simp: label_of_slice_def Let_def split: if_splits prod.splits)
  then show ?thesis by (auto simp: label_validate_ext_def label_validate_def split: if_splits)
qed

lemma bind_err_assoc: "bind_err (bind_err r f) g = bind_err r (\<lambda>x. bind_err (f x) g)"
  by (cases r) simp_all

lemma bind_err_eqI: "r = r' \<Longrightarrow> (\<And>x. r' = Inr x \<Longrightarrow> f x = g x) \<Longrightarrow> bind_err r f = bind_err r' g"
  by (cases r') simp_all

theorem dict_lookup_set_changes:
  "bind_err (dict_lookup_set sha256 dict key n store_val mode) (\<lambda>(old, c, changed). Inr (c, changed))
     = dict_set sha256 dict key n store_val mode"
proof (induction sha256 dict key n store_val mode rule: dict_lookup_set.induct)
  case (1 sha256 dict key n store_val mode)
  let ?drop = "\<lambda>(old :: slice option, c :: cell option, changed :: bool). (Inr (c, changed) :: dict_error + cell option \<times> bool)"
  show ?case
  proof (cases dict)
    case None
    then show ?thesis
      by (cases "create_leaf sha256 empty_builder key n n store_val")
        (auto simp: dict_set.simps [of _ None] dict_lookup_set.simps [of _ None])
  next
    case (Some c)
    then have ne: "dict \<noteq> None" by simp
    show ?thesis
      unfolding dict_lookup_set.simps [of sha256 dict] dict_set.simps [of sha256 dict] if_not_P [OF ne] bind_err_assoc
    proof (rule bind_err_eqI [OF refl])
      fix lab assume lab: "label_of_cell dict n chk_all = Inr lab"
      define pl where "pl = label_common_prefix_len lab key n"
      note IH = 1 [OF ne lab pl_def]
      show "bind_err (let pfx_len = label_common_prefix_len lab key n
          in if pfx_len < l_bits lab then
               if mode = Mode_Replace then Inr (None, None, False)
               else bind_err (insert_fork sha256 lab key n pfx_len store_val) (\<lambda>c. Inr (None, Some c, True))
             else if l_bits lab = n then
               let old_val = snd (slice_advance (l_remainder lab) (l_sbits lab))
               in if mode = Mode_Add then Inr (Some old_val, None, False)
                  else bind_err (create_leaf sha256 empty_builder key n n store_val)
                         (\<lambda>(c, cb). Inr (Some old_val, Some c, True))
             else
               let c1 = prefetch_ref (l_remainder lab) 0; c2 = prefetch_ref (l_remainder lab) 1;
                   right = ptr_bit key (l_bits lab)
               in bind_err (dict_lookup_set sha256 (if right then c2 else c1) (ptr_add key (l_bits lab + 1))
                    (n - l_bits lab - 1) store_val mode) (\<lambda>(old_val, res, changed).
                    if \<not> changed then Inr (old_val, None, False)
                    else
                      let (c1, c2) = (if right then (c1, res) else (res, c2))
                      in bind_err (create_fork sha256 empty_builder key (l_bits lab) n c1 c2)
                           (\<lambda>c. Inr (old_val, Some c, True)))) ?drop
        = bind_err (label_validate lab) (\<lambda>_.
          let pfx_len = label_common_prefix_len lab key n
          in if pfx_len < l_bits lab then
               if mode = Mode_Replace then Inr (None, False)
               else bind_err (insert_fork sha256 lab key n pfx_len store_val) (\<lambda>c. Inr (Some c, True))
             else if l_bits lab = n then
               if mode = Mode_Add then Inr (None, False)
               else bind_err (create_leaf sha256 empty_builder key n n store_val) (\<lambda>(c, cb). Inr (Some c, True))
             else
               let c1 = prefetch_ref (l_remainder lab) 0; c2 = prefetch_ref (l_remainder lab) 1;
                   right = ptr_bit key (l_bits lab)
               in bind_err (dict_set sha256 (if right then c2 else c1) (ptr_add key (l_bits lab + 1)) (n - l_bits lab - 1)
                    store_val mode) (\<lambda>(res, changed).
                    if \<not> changed then Inr (None, False)
                    else
                      let (c1, c2) = (if right then (c1, res) else (res, c2))
                      in bind_err (create_fork sha256 empty_builder key (l_bits lab) n c1 c2)
                           (\<lambda>c. Inr (Some c, True))))"
      proof (cases "pl < l_bits lab \<or> l_bits lab = n")
        case True
        then show ?thesis
          unfolding label_of_cell_validate [OF lab] bind_err_simps Let_def pl_def [symmetric]
          by (cases "insert_fork sha256 lab key n pl store_val"; cases "create_leaf sha256 empty_builder key n n store_val")
            auto
      next
        case False
        then have f: "\<not> pl < l_bits lab" "l_bits lab \<noteq> n" by simp_all
        define sub where "sub = dict_lookup_set sha256 (if ptr_bit key (l_bits lab) then prefetch_ref (l_remainder lab) 1
            else prefetch_ref (l_remainder lab) 0) (ptr_add key (l_bits lab + 1)) (n - l_bits lab - 1) store_val mode"
        have s: "dict_set sha256 (if ptr_bit key (l_bits lab) then prefetch_ref (l_remainder lab) 1
            else prefetch_ref (l_remainder lab) 0) (ptr_add key (l_bits lab + 1)) (n - l_bits lab - 1) store_val mode
            = bind_err sub ?drop"
          unfolding sub_def by (rule IH [OF f refl refl refl, symmetric])
        show ?thesis
          unfolding label_of_cell_validate [OF lab] bind_err_simps Let_def pl_def [symmetric] if_not_P [OF f(1)]
            if_not_P [OF f(2)] s sub_def [symmetric] bind_err_assoc
          by (rule bind_err_eqI [OF refl])
            (auto simp: bind_err_assoc bind_err_def split: sum.splits prod.splits if_splits)
      qed
    qed
  qed
qed

theorem dict_lookup_set_old:
  assumes "dict_rep n c es" and "ptr_ok key n" and "n < 2 ^ 31"
    and "dict_lookup_set sha256 (Some c) key n store_val mode = Inr (old, c', changed)"
  shows "value_of old = map_of es (ptr_bits key n) \<and> value_ok old"
  using assms
proof (induction n arbitrary: c es key old c' changed rule: less_induct)
  case (less n)
  let ?k = "ptr_bits key n"
  obtain lab ls rest es0 where L: "label_of_cell (Some c) n chk_all = Inr lab" "label_view lab ls rest (c_refs c)"
    "length ls \<le> n" "payload_rep (n - length ls) rest (c_refs c) es0" "es = pre ls es0"
    using dict_rep_label [OF less.prems(1,3), of chk_all] by auto
  note B = view_bits [OF L(2)]
  define j where "j = lcp ls ?k"
  have pl: "label_common_prefix_len lab key n = j"
    using label_common_prefix_len_eq [OF L(2) less.prems(2)] by (simp add: j_def)
  note run = less.prems(4) [unfolded dict_lookup_set.simps [of sha256 "Some c"] L(1) bind_err_simps Let_def pl B]
  show ?case
  proof (cases "j < length ls")
    case True
    then have "\<not> prefix ls ?k" using lcp_prefix [of ls ?k] by (simp add: j_def)
    then have "map_of es ?k = None" by (simp add: L(5) map_of_pre)
    moreover have "old = None" using run True
      by (cases "insert_fork sha256 lab key n j store_val") (auto split: if_splits)
    ultimately show ?thesis by (simp add: value_of_def value_ok_def)
  next
    case False
    then have pfx: "prefix ls ?k" using lcp_prefix [of ls ?k] lcp_le(1) [of ls ?k] by (simp add: j_def)
    show ?thesis
    proof (cases "length ls = n")
      case True
      then have "ls = ?k" using pfx length_ptr_bits [OF less.prems(2)] by (auto simp: prefix_def)
      then have m: "map_of es ?k = Some (rest, c_refs c)" using payload_leaf [OF L(4) True] by (simp add: L(5))
      have "old = Some (snd (slice_advance (l_remainder lab) (l_sbits lab)))"
        using run False True by (cases "create_leaf sha256 empty_builder key n n store_val") (auto split: if_splits)
      then show ?thesis using m advance_rest [OF L(2)] by (simp add: value_of_def value_ok_def)
    next
      case ne: False
      then have lt: "length ls < n" using L(3) by simp
      obtain a b ea eb where F: "rest = []" "c_refs c = [a, b]" "dict_rep (n - length ls - 1) a ea"
        "dict_rep (n - length ls - 1) b eb" "es0 = pre [False] ea @ pre [True] eb"
        using payload_fork_step [OF L(4) lt] by blast
      note K = key_split [OF less.prems(2) pfx lt]
      define right where "right = ptr_bit key (length ls)"
      have refs: "prefetch_ref (l_remainder lab) 0 = Some a" "prefetch_ref (l_remainder lab) 1 = Some b"
        using view_ref [OF L(2)] F(2) by simp_all
      obtain old1 res1 ch1 where sub: "dict_lookup_set sha256 (Some (if right then b else a)) (ptr_add key (length ls + 1))
          (n - length ls - 1) store_val mode = Inr (old1, res1, ch1)" and old: "old = old1"
        using run [unfolded if_not_P [OF False] if_not_P [OF ne] refs right_def [symmetric] if_Some]
        by (auto simp: bind_err_def split: sum.splits if_splits prod.splits)
      have d: "dict_rep (n - length ls - 1) (if right then b else a) (if right then eb else ea)" using F by simp
      have "n - length ls - 1 < n" using lt by simp
      from less.IH [OF this d K(2) _ sub] less.prems(3)
      have "value_of old1 = map_of (if right then eb else ea) (ptr_bits (ptr_add key (length ls + 1)) (n - length ls - 1))
          \<and> value_ok old1" by simp
      then show ?thesis unfolding old K(1) right_def [symmetric] L(5) F(5) by (simp only: map_of_node)
    qed
  qed
qed

section \<open>The values that are stored\<close>

interpretation slices: value_store "\<lambda>s. slice_ok s \<and> (\<forall>r \<in> set (slice_children s). wf_cell r)" slice_bits slice_children
    "\<lambda>s cb. cell_builder_add_slice_bool cb s"
  by unfold_locales (simp_all add: cell_builder_add_slice_appends)

interpretation cells: value_store wf_cell "\<lambda>c. []" "\<lambda>c. [c]" "\<lambda>c cb. store_ref_bool cb (Some c)"
  by unfold_locales (simp_all add: store_ref_bool_appends)

interpretation builders: value_store "\<lambda>b. builder_ok b \<and> (\<forall>r \<in> set (b_refs b). wf_cell r)" builder_out b_refs
    "\<lambda>b cb. append_builder_bool cb b"
  by unfold_locales (simp_all add: append_builder_bool_appends)

end
