(* ===== verification/Dict_Delete.thy ===== *)
theory Dict_Delete
  imports Dict_Set
begin

text \<open>
  Deleting from a dictionary, \<open>dict_lookup_delete\<close> of \<open>crypto/vm/dict.cpp\<close>. A fork that loses one of
  its children is replaced by the other one, with the labels of the two edges joined.
\<close>

section \<open>Joining two edges\<close>

abbreviation (input) "max_key_bits \<equiv> 1023 :: nat"
abbreviation (input) "max_key_bytes \<equiv> 128 :: nat"

text \<open>A node is built again with another label in front of its payload.\<close>

definition relabel ::
  "(byte list \<Rightarrow> byte list) \<Rightarrow> builder \<Rightarrow> bit_ptr \<Rightarrow> nat \<Rightarrow> nat \<Rightarrow> slice \<Rightarrow> dict_error + cell \<times> builder" where
  "relabel sha256 cb label len n payload =
     bind_err (append_dict_label cb label len n) (\<lambda>cb.
     bind_err (or_throw Excno_cell_ov (cell_builder_add_slice_bool cb payload)) (\<lambda>cb. dict_finalize sha256 cb))"

text \<open>The buffer holds \<open>pos\<close> bits of a key from bit \<open>offs\<close> on; the label of the node \<open>c\<close> is written behind
  them, and the node is built again with the longer label. The buffer is used further by some of
  the callers.\<close>

definition join_edge_on ::
  "(byte list \<Rightarrow> byte list) \<Rightarrow> builder \<Rightarrow> byte list \<Rightarrow> nat \<Rightarrow> nat \<Rightarrow> cell option \<Rightarrow> nat \<Rightarrow> nat \<Rightarrow> dict_error + cell \<times> byte list" where
  "join_edge_on sha256 cb buf offs pos c n mode =
     bind_err (label_of_cell c (n - pos) mode) (\<lambda>lab.
       let (buf1, lab1) = extract_label_to lab (buf, offs + pos)
       in bind_err (relabel sha256 cb (buf1, offs) (pos + l_bits lab1) n (l_remainder lab1)) (\<lambda>(c, cb). Inr (c, buf1)))"

abbreviation join_edge ::
  "(byte list \<Rightarrow> byte list) \<Rightarrow> byte list \<Rightarrow> nat \<Rightarrow> nat \<Rightarrow> cell option \<Rightarrow> nat \<Rightarrow> nat \<Rightarrow> dict_error + cell \<times> byte list" where
  "join_edge sha256 \<equiv> join_edge_on sha256 empty_builder"

lemma relabel_cell:
  assumes f: "fresh cb" and p: "ptr_ok key len" "ptr_bits key len = ls" and len: "len \<le> n" "n < 2 ^ 31"
    and s: "slice_ok s" "slice_bits s = rest" "slice_children s = cs" and wf: "\<forall>r \<in> set cs. wf_cell r"
    and sha: "\<And>x. length (sha256 x) = hash_bytes"
  shows "dict_ok (\<lambda>(c, cb'). node_cell n c ls rest cs \<and> fresh cb') (relabel sha256 cb key len n s)"
  unfolding relabel_def
proof (rule dict_ok_bind [OF append_dict_label_ok [OF f p(1) len, unfolded p(2)]])
  fix cb1 assume b1: "node_built cb1 n ls [] []"
  have "length ls \<le> n" using p len(1) by auto
  then have c1: "node_coded cb1 n ls [] []" using node_built_coded [OF b1 _ len(2)] by simp
  have a: "appends cb1 rest cs (cell_builder_add_slice_bool cb1 s)" if "builder_ok cb1"
    using cell_builder_add_slice_appends [OF that s(1)] s by simp
  show "dict_ok (\<lambda>(c, cb'). node_cell n c ls rest cs \<and> fresh cb')
     (bind_err (or_throw Excno_cell_ov (cell_builder_add_slice_bool cb1 s)) (dict_finalize sha256))"
  proof (rule dict_ok_bind [OF add_content_ok [OF c1 a]], assumption)
    fix cb2 assume "node_coded cb2 n ls rest cs"
    from finalize_node_cell [OF this sha wf]
    show "dict_ok (\<lambda>(c, cb'). node_cell n c ls rest cs \<and> fresh cb') (dict_finalize sha256 cb2)" .
  qed
qed

lemma relabel_ok:
  assumes f: "fresh cb" and p: "ptr_ok key len" "ptr_bits key len = ls" and len: "len \<le> n" "n < 2 ^ 31"
    and s: "slice_ok s" "slice_bits s = rest" "slice_children s = cs" and wf: "\<forall>r \<in> set cs. wf_cell r"
    and q: "payload_rep (n - length ls) rest cs es" and sha: "\<And>x. length (sha256 x) = hash_bytes"
  shows "dict_ok (\<lambda>(c, cb'). dict_rep n c (pre ls es) \<and> fresh cb') (relabel sha256 cb key len n s)"
  by (rule dict_ok_mono [OF relabel_cell [OF f p len s wf sha]]) (use node_cell_rep q in auto)

lemma take_overwrite_le: "m \<le> i \<Longrightarrow> i + length ys \<le> length xs \<Longrightarrow> take m (overwrite xs i ys) = take m xs"
  by (simp add: overwrite_def)

lemma ptr_bits_extract:
  assumes b: "bits_of buf1 = overwrite (bits_of buf) (offs + pos) ls" and r: "offs + pos + length ls \<le> 8 * length buf"
  shows "ptr_bits (buf1, offs) (pos + length ls) = ptr_bits (buf, offs) pos @ ls"
proof -
  have r': "offs + pos + length ls \<le> length (bits_of buf)" using r by simp
  have "take (offs + pos + length ls) (bits_of buf1) = take (offs + pos) (bits_of buf) @ ls"
    unfolding b by (rule take_overwrite_end [OF r'])
  then have "drop offs (take (offs + pos + length ls) (bits_of buf1)) = drop offs (take (offs + pos) (bits_of buf) @ ls)"
    by (rule arg_cong)
  then show ?thesis using r by (simp add: ptr_bits_def drop_take)
qed

lemma join_edge_on_cell:
  assumes f: "fresh cb" and c: "node_cell (n - pos) c ls rest cs" "\<not> bad_fork mode (n - pos) ls rest cs" and p: "pos \<le> n"
    and n: "n < 2 ^ 31" and buf: "ptr_ok (buf, offs) n" and sha: "\<And>x. length (sha256 x) = hash_bytes" and mode: "mode \<noteq> 0"
  shows "dict_ok (\<lambda>(c', buf'). node_cell n c' (ptr_bits (buf, offs) pos @ ls) rest cs \<and> length buf' = length buf
      \<and> take (offs + pos) (bits_of buf') = take (offs + pos) (bits_of buf))
     (join_edge_on sha256 cb buf offs pos (Some c) n mode)"
proof -
  have n': "n - pos < 2 ^ 31" using n by simp
  note N = node_cell_label [OF c(1) n' c(2) mode]
  obtain lab where L: "label_of_cell (Some c) (n - pos) mode = Inr lab" "label_view lab ls rest cs" using N(1) by blast
  obtain buf1 lab1 where x: "extract_label_to lab (buf, offs + pos) = (buf1, lab1)" by fastforce
  have room: "offs + pos + length ls \<le> 8 * length buf" using buf N(2) p by (simp add: ptr_ok_def)
  then have "ptr_ok (buf, offs + pos) (length ls)" by (simp add: ptr_ok_def)
  note X = extract_label_rest [OF L(2) this, unfolded x fst_conv snd_conv]
  have k: "ptr_bits (buf1, offs) (pos + length ls) = ptr_bits (buf, offs) pos @ ls"
    by (rule ptr_bits_extract [OF X(1) room])
  have ok1: "ptr_ok (buf1, offs) (pos + length ls)" using room X(2) by (simp add: ptr_ok_def)
  have le: "pos + length ls \<le> n" using N(2) p by simp
  have keep: "take (offs + pos) (bits_of buf1) = take (offs + pos) (bits_of buf)"
    unfolding X(1) using room by (intro take_overwrite_le) simp_all
  show ?thesis
    unfolding join_edge_on_def L(1) bind_err_simps x Let_def prod.case X(3)
    by (rule dict_ok_bind [OF relabel_cell [OF f ok1 k le n X(4,5,6) N(3) sha]]) (auto simp: X(2) keep)
qed

lemma join_edge_on_ok:
  assumes f: "fresh cb" and c: "dict_rep (n - pos) c ec" and p: "pos \<le> n" and n: "n < 2 ^ 31" and buf: "ptr_ok (buf, offs) n"
    and sha: "\<And>x. length (sha256 x) = hash_bytes" and mode: "mode \<noteq> 0"
  shows "dict_ok (\<lambda>(c', buf'). dict_rep n c' (pre (ptr_bits (buf, offs) pos) ec) \<and> length buf' = length buf
      \<and> take (offs + pos) (bits_of buf') = take (offs + pos) (bits_of buf))
     (join_edge_on sha256 cb buf offs pos (Some c) n mode)"
proof -
  obtain ls rest es where r: "ordinary c" "parse_bits (n - pos) (cell_bits c) = Some (ls, rest)"
    "payload_rep (n - pos - length ls) rest (c_refs c) es" "ec = pre ls es"
    using c by (blast elim: dict_repE)
  have N: "node_cell (n - pos) c ls rest (c_refs c)" using r by (simp add: node_cell_def)
  have "length (ptr_bits (buf, offs) pos) = pos" using buf p by (simp add: ptr_ok_def ptr_bits_def)
  then have q: "payload_rep (n - length (ptr_bits (buf, offs) pos @ ls)) rest (c_refs c) es" using r(3) by simp
  show ?thesis
    by (rule dict_ok_mono [OF join_edge_on_cell [OF f N payload_no_bad_fork [OF r(3)] p n buf sha mode]])
      (use node_cell_rep [OF _ q] r(4) in auto)
qed

lemmas join_edge_ok = join_edge_on_ok [OF fresh_empty]
lemmas join_edge_cell = join_edge_on_cell [OF fresh_empty]

section \<open>The operation\<close>

definition finish_create_fork ::
  "(byte list \<Rightarrow> byte list) \<Rightarrow> builder \<Rightarrow> cell option \<Rightarrow> cell option \<Rightarrow> dict_error + cell" where
  "finish_create_fork sha256 cb c1 c2 =
     bind_err (or_throw Excno_dict_err
       (let (ok1, cb1) = store_ref_bool cb c1 in if ok1 then store_ref_bool cb1 c2 else (False, cb1)))
       (\<lambda>cb. bind_err (dict_finalize sha256 cb) (\<lambda>(c, cb). Inr c))"

text \<open>The key up to the fork and the bit of the child that stays, in a buffer of its own.\<close>

definition merge_edge ::
  "(byte list \<Rightarrow> byte list) \<Rightarrow> bit_ptr \<Rightarrow> nat \<Rightarrow> bool \<Rightarrow> cell option \<Rightarrow> nat \<Rightarrow> nat \<Rightarrow> dict_error + cell" where
  "merge_edge sha256 key len bit_val c n mode =
     (let buf0 = replicate max_key_bytes 0;
          buf1 = bits_memcpy buf0 0 (fst key) (snd key) len;
          buf2 = bits_memset buf1 len bit_val 1
      in bind_err (join_edge sha256 buf2 0 (len + 1) c n mode) (\<lambda>(c, buf). Inr c))"

function dict_lookup_delete ::
  "(byte list \<Rightarrow> byte list) \<Rightarrow> cell option \<Rightarrow> bit_ptr \<Rightarrow> nat \<Rightarrow> dict_error + slice option \<times> cell option" where
  "dict_lookup_delete sha256 dict key n =
     (if dict = None then Inr (None, None)
      else
        bind_err (label_of_cell dict n chk_all) (\<lambda>lab.
          let pfx_len = label_common_prefix_len lab key n
          in if pfx_len < l_bits lab then Inr (None, None)
             else if l_bits lab = n then Inr (Some (l_remainder (skip_label lab)), None)
             else
               let c1 = prefetch_ref (l_remainder lab) 0; c2 = prefetch_ref (l_remainder lab) 1;
                   sw_bit = ptr_bit key (l_bits lab)
               in bind_err (dict_lookup_delete sha256 (if sw_bit then c2 else c1) (ptr_add key (l_bits lab + 1))
                    (n - l_bits lab - 1)) (\<lambda>(old_val, res).
                    if old_val = None then Inr (None, None)
                    else
                      let (c1, c2) = (if sw_bit then (c1, res) else (res, c2))
                      in if c1 \<noteq> None \<and> c2 \<noteq> None then
                           bind_err (append_dict_label empty_builder key (l_bits lab) n) (\<lambda>cb.
                           bind_err (finish_create_fork sha256 cb c1 c2) (\<lambda>c. Inr (old_val, Some c)))
                         else
                           let (c1, c2) = (if \<not> sw_bit then (c2, c1) else (c1, c2))
                           in bind_err (merge_edge sha256 key (l_bits lab) (\<not> sw_bit) c1 n chk_all)
                                (\<lambda>c. Inr (old_val, Some c)))))"
  by pat_completeness auto
termination
proof (relation "measure (\<lambda>(sha256, dict, key, n). n)")
  fix dict n lab
  assume "label_of_cell dict n chk_all = Inr lab" "l_bits lab \<noteq> n"
  then have "l_bits lab < n" using label_of_cell_bounded [of dict n chk_all lab] by simp
  then show "((sha256, if right then c2 else c1, ptr_add key (l_bits lab + 1), n - l_bits lab - 1), sha256, dict, key, n)
      \<in> measure (\<lambda>(sha256, dict, key, n). n)"
    for sha256 :: "byte list \<Rightarrow> byte list" and right c2 c1 key by simp
qed simp

declare dict_lookup_delete.simps [simp del]

section \<open>Deleting from the map\<close>

lemma finish_coded_fork_ok:
  assumes c1: "node_coded cb n ls [] []" and len: "length ls < n"
    and a: "dict_rep (n - length ls - 1) a ea" and b: "dict_rep (n - length ls - 1) b eb"
    and sha: "\<And>x. length (sha256 x) = hash_bytes"
  shows "dict_ok (\<lambda>c. dict_rep n c (pre ls (pre [False] ea @ pre [True] eb))) (finish_create_fork sha256 cb (Some a) (Some b))"
proof -
  have "Suc (n - length ls - 1) = n - length ls" using len by simp
  then have q: "payload_rep (n - length ls) [] [a, b] (pre [False] ea @ pre [True] eb)"
    using fork [OF a b] by simp
  have wf: "\<forall>r \<in> set [a, b]. wf_cell r" using dict_rep_wf [OF a] dict_rep_wf [OF b] by simp
  let ?cb2 = "cb\<lparr>b_refs := [a, b]\<rparr>"
  have r: "b_refs cb = []" using c1 by (simp add: node_coded_def)
  have e: "(let (ok1, cb1) = store_ref_bool cb (Some a) in if ok1 then store_ref_bool cb1 (Some b) else (False, cb1)) = (True, ?cb2)"
    by (simp add: store_ref_bool_def r)
  have c2: "node_coded ?cb2 n ls [] [a, b]"
    using c1 by (simp add: node_coded_def builder_ok_def builder_out_def)
  show ?thesis
    unfolding finish_create_fork_def e or_throw_def fst_conv snd_conv if_True bind_err_simps
    by (rule dict_ok_bind [OF finalize_node_ok [OF c2 sha wf q]]) auto
qed

lemma finish_create_fork_ok:
  assumes f: "fresh cb" and p: "ptr_ok key len" and len: "len < n" and n: "n < 2 ^ 31"
    and a: "dict_rep (n - len - 1) a ea" and b: "dict_rep (n - len - 1) b eb"
    and sha: "\<And>x. length (sha256 x) = hash_bytes"
  shows "dict_ok (\<lambda>c. dict_rep n c (pre (ptr_bits key len) (pre [False] ea @ pre [True] eb)))
     (bind_err (append_dict_label cb key len n) (\<lambda>cb. finish_create_fork sha256 cb (Some a) (Some b)))"
proof (rule dict_ok_bind [OF append_dict_label_ok [OF f p less_imp_le [OF len] n]])
  fix cb1 assume b1: "node_built cb1 n (ptr_bits key len) [] []"
  have l: "length (ptr_bits key len) = len" using p by simp
  have c1: "node_coded cb1 n (ptr_bits key len) [] []" using node_built_coded [OF b1 _ n] len l by simp
  show "dict_ok (\<lambda>c. dict_rep n c (pre (ptr_bits key len) (pre [False] ea @ pre [True] eb)))
     (finish_create_fork sha256 cb1 (Some a) (Some b))"
    by (rule finish_coded_fork_ok [OF c1 _ _ _ sha]) (use len l a b in simp_all)
qed

text \<open>The buffer with the key up to the fork and the bit of the child that stays.\<close>

lemma merge_buffer:
  fixes bit_val :: bool
  assumes len: "len < n" and n: "n \<le> max_key_bits" and key: "ptr_ok key len"
  defines "buf0 \<equiv> replicate max_key_bytes 0 :: byte list"
  defines "buf1 \<equiv> bits_memcpy buf0 0 (fst key) (snd key) len"
  defines "buf2 \<equiv> bits_memset buf1 len bit_val 1"
  shows "ptr_bits (buf2, 0) (len + 1) = ptr_bits key len @ [bit_val]" and "ptr_ok (buf2, 0) n"
proof -
  have r0: "0 + len \<le> 8 * length buf0" using len n by (simp add: buf0_def)
  have rk: "snd key + len \<le> 8 * length (fst key)" using key by (simp add: ptr_ok_def)
  have l1: "length buf1 = max_key_bytes" using length_bits_memcpy [OF r0 rk] by (simp add: buf1_def buf0_def)
  have b1: "bits_of buf1 = overwrite (bits_of buf0) 0 (ptr_bits key len)"
    unfolding buf1_def ptr_bits_def by (rule bits_memcpy_correct [OF r0 rk])
  have r1: "len + 1 \<le> 8 * length buf1" using len n l1 by simp
  have l2: "length buf2 = max_key_bytes" using length_bits_memset [OF r1] l1 by (simp add: buf2_def)
  have b2: "bits_of buf2 = overwrite (bits_of buf1) len [bit_val]"
    using bits_memset_correct [OF r1, of bit_val] by (simp add: buf2_def)
  have lk: "length (ptr_bits key len) = len" using key by simp
  have t: "take len (bits_of buf1) = ptr_bits key len"
    unfolding b1 using lk r0 by (simp add: overwrite_def)
  have "len + length [bit_val] \<le> length (bits_of buf1)" using r1 by simp
  from take_overwrite_end [OF this] show "ptr_bits (buf2, 0) (len + 1) = ptr_bits key len @ [bit_val]"
    by (simp add: ptr_bits_def [of "(buf2, 0)"] b2 t)
  show "ptr_ok (buf2, 0) n" using n l2 by (simp add: ptr_ok_def)
qed

lemma merge_edge_cell:
  assumes c: "node_cell (n - len - 1) c ls rest cs" "\<not> bad_fork mode (n - len - 1) ls rest cs" and len: "len < n"
    and n: "n \<le> max_key_bits" and key: "ptr_ok key len" and sha: "\<And>x. length (sha256 x) = hash_bytes" and mode: "mode \<noteq> 0"
  shows "dict_ok (\<lambda>c'. node_cell n c' (ptr_bits key len @ bit_val # ls) rest cs) (merge_edge sha256 key len bit_val (Some c) n mode)"
proof -
  note B = merge_buffer [OF len n key, of bit_val]
  have c': "node_cell (n - (len + 1)) c ls rest cs" "\<not> bad_fork mode (n - (len + 1)) ls rest cs" using c by simp_all
  have "len + 1 \<le> n" "n < 2 ^ 31" using len n by simp_all
  note J = join_edge_cell [OF c' this B(2) sha mode, unfolded B(1)]
  show ?thesis
    unfolding merge_edge_def Let_def by (rule dict_ok_bind [OF J]) auto
qed

lemma merge_edge_ok:
  assumes c: "dict_rep (n - len - 1) c ec" and len: "len < n" and n: "n \<le> max_key_bits" and key: "ptr_ok key len"
    and sha: "\<And>x. length (sha256 x) = hash_bytes" and mode: "mode \<noteq> 0"
  shows "dict_ok (\<lambda>c'. dict_rep n c' (pre (ptr_bits key len @ [bit_val]) ec)) (merge_edge sha256 key len bit_val (Some c) n mode)"
proof -
  note B = merge_buffer [OF len n key, of bit_val]
  have c': "dict_rep (n - (len + 1)) c ec" using c by simp
  have "len + 1 \<le> n" "n < 2 ^ 31" using len n by simp_all
  note J = join_edge_ok [OF c' this B(2) sha mode, unfolded B(1)]
  show ?thesis
    unfolding merge_edge_def Let_def by (rule dict_ok_bind [OF J]) auto
qed

text \<open>The three cases of a key at a node: it leaves the label, it is the key of a leaf, or it goes on
  behind the fork.\<close>

lemma dict_rep_cases [consumes 3, case_names miss hit branch]:
  assumes rep: "dict_rep n c es" and key: "ptr_ok key n" and n: "n < 2 ^ 31"
  obtains (miss) lab ls rest es0 where "label_of_cell (Some c) n chk_all = Inr lab" "label_view lab ls rest (c_refs c)"
      "l_bits lab = length ls" "label_common_prefix_len lab key n = lcp ls (ptr_bits key n)"
      "lcp ls (ptr_bits key n) < length ls" "length ls \<le> n" "map_of es (ptr_bits key n) = None" "es = pre ls es0"
      "payload_rep (n - length ls) rest (c_refs c) es0"
    | (hit) lab rest where "label_of_cell (Some c) n chk_all = Inr lab" "label_view lab (ptr_bits key n) rest (c_refs c)"
      "l_bits lab = n" "label_common_prefix_len lab key n = n" "es = [(ptr_bits key n, rest, c_refs c)]"
    | (branch) lab ls a b ea eb where "label_of_cell (Some c) n chk_all = Inr lab" "label_view lab ls [] [a, b]"
      "l_bits lab = length ls" "label_common_prefix_len lab key n = length ls" "length ls < n"
      "c_refs c = [a, b]" "prefetch_ref (l_remainder lab) 0 = Some a" "prefetch_ref (l_remainder lab) 1 = Some b"
      "dict_rep (n - length ls - 1) a ea" "dict_rep (n - length ls - 1) b eb"
      "es = pre ls (pre [False] ea @ pre [True] eb)"
      "ptr_bits key n = ls @ ptr_bit key (length ls) # ptr_bits (ptr_add key (length ls + 1)) (n - length ls - 1)"
      "ptr_ok (ptr_add key (length ls + 1)) (n - length ls - 1)" "ptr_bits key (length ls) = ls" "ptr_ok key (length ls)"
proof -
  let ?k = "ptr_bits key n"
  obtain lab ls rest es0 where L: "label_of_cell (Some c) n chk_all = Inr lab" "label_view lab ls rest (c_refs c)"
    "length ls \<le> n" "payload_rep (n - length ls) rest (c_refs c) es0" "es = pre ls es0"
    using dict_rep_label [OF rep n, of chk_all] by auto
  note B = view_bits [OF L(2)] and P = label_common_prefix_len_eq [OF L(2) key]
  show ?thesis
  proof (cases "lcp ls ?k < length ls")
    case True
    then have "\<not> prefix ls ?k" using lcp_prefix [of ls ?k] by simp
    then have "map_of es ?k = None" by (simp add: L(5) map_of_pre)
    from miss [OF L(1,2) B P True L(3) this L(5,4)] show ?thesis .
  next
    case False
    then have l: "lcp ls ?k = length ls" and pfx: "prefix ls ?k"
      using lcp_prefix [of ls ?k] lcp_le(1) [of ls ?k] by simp_all
    show ?thesis
    proof (cases "length ls = n")
      case True
      then have ls: "ls = ?k" using pfx length_ptr_bits [OF key] by (auto simp: prefix_def)
      have "es = [(?k, rest, c_refs c)]" using payload_leaf [OF L(4) True] ls by (simp add: L(5))
      then show ?thesis using hit [of lab rest] L(1,2) B P l ls True by simp
    next
      case ne: False
      then have lt: "length ls < n" using L(3) by simp
      obtain a b ea eb where F: "rest = []" "c_refs c = [a, b]" "dict_rep (n - length ls - 1) a ea"
        "dict_rep (n - length ls - 1) b eb" "es0 = pre [False] ea @ pre [True] eb"
        using payload_fork_step [OF L(4) lt] by blast
      note K = key_split [OF key pfx lt]
      have lsb: "ptr_bits key (length ls) = ls" "ptr_ok key (length ls)"
        using ptr_bits_take [of "length ls" n key] lt pfx key by (auto simp: ptr_ok_def prefix_def)
      have refs: "prefetch_ref (l_remainder lab) 0 = Some a" "prefetch_ref (l_remainder lab) 1 = Some b"
        using view_ref [OF L(2)] F(2) by simp_all
      show ?thesis
        by (rule branch [OF L(1) L(2) [unfolded F(1,2)] B P [unfolded l] lt F(2) refs F(3,4) L(5) [unfolded F(5)] K lsb])
    qed
  qed
qed

definition delete_result :: "nat \<Rightarrow> dict_entry list \<Rightarrow> bool list \<Rightarrow> slice option \<times> cell option \<Rightarrow> bool" where
  "delete_result n es k r \<longleftrightarrow>
     value_of (fst r) = map_of es k \<and> value_ok (fst r)
     \<and> (if map_of es k = None then snd r = None
        else \<exists>es'. dict_rep_opt n (snd r) es' \<and> map_of es' = (map_of es)(k := None))"

lemma map_of_node_del:
  assumes e: "map_of e' = (map_of (if b then eb else ea))(k := None)"
  shows "map_of (pre ls (pre [False] (if b then ea else e') @ pre [True] (if b then e' else eb)))
     = (map_of (pre ls (pre [False] ea @ pre [True] eb)))(ls @ b # k := None)"
proof (rule ext)
  fix x
  show "map_of (pre ls (pre [False] (if b then ea else e') @ pre [True] (if b then e' else eb))) x
     = ((map_of (pre ls (pre [False] ea @ pre [True] eb)))(ls @ b # k := None)) x"
  proof (cases "prefix ls x")
    case False
    then show ?thesis by (auto simp: map_of_pre simp del: pre_simps)
  next
    case True
    then obtain y where y: "x = ls @ y" by (auto simp: prefix_def)
    show ?thesis
    proof (cases y)
      case Nil
      have "map_of (pre ls (pre [False] p @ pre [True] q)) (ls @ []) = None" for p q :: "dict_entry list"
        by (rule trans [OF map_of_pre_append]) (auto simp: map_of_pre map_add_def)
      then show ?thesis unfolding y Nil fun_upd_apply by (simp add: map_add_def)
    next
      case (Cons b' y')
      show ?thesis unfolding y Cons fun_upd_apply map_of_node using e by (cases b; cases b') auto
    qed
  qed
qed

theorem dict_lookup_delete_ok:
  assumes "dict_rep_opt n dict es" and "ptr_ok key n" and "n \<le> max_key_bits"
    and sha: "\<And>x. length (sha256 x) = hash_bytes"
  shows "dict_ok (delete_result n es (ptr_bits key n)) (dict_lookup_delete sha256 dict key n)"
  using assms(1-3)
proof (induction n arbitrary: dict es key rule: less_induct)
  case (less n)
  let ?k = "ptr_bits key n"
  have n31: "n < 2 ^ 31" using less.prems(3) by simp
  show ?case
  proof (cases dict)
    case None
    then show ?thesis using less.prems(1)
      by (simp add: dict_rep_opt_def dict_lookup_delete.simps [of _ None] delete_result_def value_of_def value_ok_def)
  next
    case (Some c)
    have rep: "dict_rep n c es" using less.prems(1) by (simp add: Some dict_rep_opt_def)
    have ne: "Some c \<noteq> None" by simp
    note unf = dict_lookup_delete.simps [of sha256 "Some c" key n, unfolded if_not_P [OF ne]]
    from rep less.prems(2) n31 show ?thesis
    proof (cases rule: dict_rep_cases)
      case (miss lab ls rest es0)
      then show ?thesis unfolding Some unf miss(1) bind_err_simps Let_def
        by (simp add: delete_result_def value_of_def value_ok_def)
    next
      case (hit lab rest)
      have "map_of [] = (map_of es)(?k := None)" by (rule ext) (simp add: hit(5))
      then show ?thesis unfolding Some unf hit(1) bind_err_simps Let_def using hit skip_label_rest [OF hit(2)]
        by (auto simp: delete_result_def value_of_def value_ok_def dict_rep_opt_def)
    next
      case (branch lab ls a b ea eb)
      define m where "m = n - length ls - 1"
      define right where "right = ptr_bit key (length ls)"
      define key' where "key' = ptr_add key (length ls + 1)"
      define k' where "k' = ptr_bits key' m"
      have k: "?k = ls @ right # k'" using branch(12) by (simp only: right_def k'_def key'_def m_def)
      have mp: "map_of es ?k = map_of (if right then eb else ea) k'" unfolding k branch(11) by (rule map_of_node)
      have mn: "m < n" "m \<le> max_key_bits" using branch(5) less.prems(3) by (simp_all add: m_def)
      have "dict_rep_opt m (Some (if right then b else a)) (if right then eb else ea)"
        using branch(9,10) by (simp add: dict_rep_opt_def m_def)
      note IH = less.IH [OF mn(1) this branch(13) [folded key'_def m_def] mn(2), folded k'_def]
      have f: "\<not> length ls < length ls" "length ls \<noteq> n" using branch(5) by simp_all
      show ?thesis
        unfolding Some unf branch(1) bind_err_simps Let_def branch(3,4) if_not_P [OF f(1)] if_not_P [OF f(2)] branch(7,8)
          right_def [symmetric] if_Some key'_def [symmetric] m_def [symmetric]
      proof (rule dict_ok_bind [OF IH])
        fix x assume x: "delete_result m (if right then eb else ea) k' x"
        obtain old res where xe: "x = (old, res)" by fastforce
        note D = x [unfolded xe delete_result_def fst_conv snd_conv]
        show "dict_ok (delete_result n es ?k) (case x of (old_val, res) \<Rightarrow>
            if old_val = None then Inr (None, None)
            else case if right then (Some a, res) else (res, Some b) of
              (c1, c2) \<Rightarrow>
                if c1 \<noteq> None \<and> c2 \<noteq> None
                then bind_err (append_dict_label empty_builder key (length ls) n)
                   (\<lambda>cb. bind_err (finish_create_fork sha256 cb c1 c2) (\<lambda>c. Inr (old_val, Some c)))
                else case if \<not> right then (c2, c1) else (c1, c2) of
                   (c1, c2) \<Rightarrow> bind_err (merge_edge sha256 key (length ls) (\<not> right) c1 n 3)
                     (\<lambda>c. Inr (old_val, Some c)))"
        proof (cases old)
          case None
          then have "map_of es ?k = None" using D by (simp add: mp value_of_def)
          then show ?thesis by (simp add: xe None delete_result_def value_of_def value_ok_def)
        next
          case (Some s)
          then have old: "map_of es ?k \<noteq> None" "value_of old = map_of es ?k" "value_ok old" "old \<noteq> None"
          proof -
            show "value_of old = map_of es ?k" "value_ok old" "old \<noteq> None" using D Some by (simp_all add: mp)
            then show "map_of es ?k \<noteq> None" by (metis Some value_of_def option.simps(3,9))
          qed
          obtain e' where e': "dict_rep_opt m res e'" "map_of e' = (map_of (if right then eb else ea))(k' := None)"
            using D old(1) by (auto simp: mp)
          have upd: "map_of (pre ls (pre [False] (if right then ea else e') @ pre [True] (if right then e' else eb)))
              = (map_of es)(?k := None)"
            unfolding k branch(11) by (rule map_of_node_del [OF e'(2)])
          have result: "dict_ok (delete_result n es ?k) (bind_err r (\<lambda>c. Inr (old, Some c)))"
            if r: "dict_ok (\<lambda>c. dict_rep n c E) r" and E: "map_of E = (map_of es)(?k := None)" for r E
            by (rule dict_ok_bind [OF r]) (use old E in \<open>auto simp: delete_result_def dict_rep_opt_def\<close>)
          show ?thesis
          proof (cases res)
            case None
            have "e' = []" using e'(1) by (simp add: None dict_rep_opt_def)
            then have "map_of (pre (ls @ [\<not> right]) (if right then ea else eb)) = (map_of es)(?k := None)"
              using upd by (cases right) simp_all
            moreover have "dict_rep (n - length ls - 1) (if right then a else b) (if right then ea else eb)"
              using branch(9,10) by simp
            note merge_edge_ok [OF this branch(5) less.prems(3) branch(15) sha, of chk_all "\<not> right", unfolded branch(14)]
            ultimately show ?thesis
              using result [of "pre (ls @ [\<not> right]) (if right then ea else eb)"
                  "merge_edge sha256 key (length ls) (\<not> right) (Some (if right then a else b)) n 3"] old(4)
              by (cases right) (auto simp: xe None)
          next
            case (Some c')
            have l: "dict_rep (n - length ls - 1) (if right then a else c') (if right then ea else e')"
              and r: "dict_rep (n - length ls - 1) (if right then c' else b) (if right then e' else eb)"
              using branch(9,10) e'(1) by (simp_all add: m_def Some dict_rep_opt_def)
            note result [OF finish_create_fork_ok [OF fresh_empty branch(15,5) n31 l r sha, unfolded branch(14)] upd]
            then show ?thesis using old(4) by (cases right) (auto simp: xe Some bind_err_assoc)
          qed
        qed
      qed
    qed
  qed
qed

text \<open>A key that is not there: nothing is written, and nothing can fail.\<close>

theorem dict_lookup_delete_absent:
  assumes "dict_rep_opt n dict es" and "ptr_ok key n" and "n < 2 ^ 31" and "map_of es (ptr_bits key n) = None"
  shows "dict_lookup_delete sha256 dict key n = Inr (None, None)"
  using assms
proof (induction n arbitrary: dict es key rule: less_induct)
  case (less n)
  show ?case
  proof (cases dict)
    case None
    then show ?thesis by (simp add: dict_lookup_delete.simps [of _ None])
  next
    case (Some c)
    have rep: "dict_rep n c es" using less.prems(1) by (simp add: Some dict_rep_opt_def)
    note unf = dict_lookup_delete.simps [of sha256 "Some c" key n]
    from rep less.prems(2,3) show ?thesis
    proof (cases rule: dict_rep_cases)
      case (miss lab ls rest es0)
      then show ?thesis unfolding Some unf miss(1) by simp
    next
      case (hit lab rest)
      then show ?thesis using less.prems(4) by simp
    next
      case (branch lab ls a b ea eb)
      let ?m = "n - length ls - 1" and ?key = "ptr_add key (length ls + 1)" and ?right = "ptr_bit key (length ls)"
      have m: "?m < n" "?m < 2 ^ 31" using branch(5) less.prems(3) by simp_all
      have d: "dict_rep_opt ?m (Some (if ?right then b else a)) (if ?right then eb else ea)"
        using branch(9,10) by (simp add: dict_rep_opt_def)
      have "map_of (if ?right then eb else ea) (ptr_bits ?key ?m) = None"
        using less.prems(4) unfolding branch(11,12) map_of_node .
      from less.IH [OF m(1) d branch(13) m(2) this] show ?thesis
        unfolding Some unf branch(1) using branch(3-5,7,8) by (simp add: Let_def if_distrib [of Some] cong: if_cong)
    qed
  qed
qed

end
