(* ===== verification/Dict_Order.thy ===== *)
theory Dict_Order
  imports Dict_Delete
begin

text \<open>
  The first, the last and the nearest key of a dictionary: \<open>dict_lookup_minmax\<close> and
  \<open>dict_lookup_nearest\<close> of \<open>crypto/vm/dict.cpp\<close>. The lowest bit of \<open>mode\<close> is the side taken for the
  first bit of the key, the next one that for all of the others, so that the keys can be taken as
  signed numbers; the key found is left in the buffer.
\<close>

section \<open>Operations\<close>

text \<open>The loop of \<open>dict_lookup_minmax\<close>, for a dictionary that is not empty.\<close>

function minmax_loop :: "cell option \<Rightarrow> bit_ptr \<Rightarrow> nat \<Rightarrow> int \<Rightarrow> dict_error + slice option \<times> byte list" where
  "minmax_loop dict key n mode =
     bind_err (label_of_cell dict n chk_all) (\<lambda>lab.
       let (buf, lab1) = extract_label_to lab key; l = l_bits lab; key1 = ptr_add (buf, snd key) l
       in if n - l = 0 then Inr (Some (l_remainder lab1), buf)
          else
            let mode1 = (if l \<noteq> 0 then mode div 2 else mode); side = odd mode1
            in minmax_loop (prefetch_ref (l_remainder lab1) (of_bool side))
                 (ptr_set_bit key1 0 side, snd key1 + 1) (n - l - 1) (mode1 div 2))"
  by pat_completeness auto
termination by (relation "measure (\<lambda>(dict, key, n, mode). n)") auto

declare minmax_loop.simps [simp del]

definition dict_lookup_minmax :: "cell option \<Rightarrow> bit_ptr \<Rightarrow> nat \<Rightarrow> int \<Rightarrow> dict_error + slice option \<times> byte list" where
  "dict_lookup_minmax dict key n mode =
     (if dict = None then Inr (None, fst key) else minmax_loop dict key n mode)"

function dict_lookup_nearest ::
  "cell option \<Rightarrow> bit_ptr \<Rightarrow> nat \<Rightarrow> bool \<Rightarrow> int \<Rightarrow> dict_error + slice option \<times> byte list" where
  "dict_lookup_nearest dict key n allow_eq mode =
     (if dict = None then Inr (None, fst key)
      else
        bind_err (label_of_cell dict n chk_all) (\<lambda>lab.
          let pfx_len = label_common_prefix_len lab key n
          in if pfx_len < l_bits lab then
               if ptr_bit key pfx_len = odd (if pfx_len \<noteq> 0 then mode div 2 else mode) then Inr (None, fst key)
               else dict_lookup_minmax dict key n (NOT mode)
             else
               let mode1 = (if l_bits lab \<noteq> 0 then mode div 2 else mode); key1 = ptr_add key (l_bits lab)
               in if n - l_bits lab = 0 then
                    if \<not> allow_eq then Inr (None, fst key) else Inr (Some (l_remainder (skip_label lab)), fst key)
                  else
                    let side = ptr_bit key1 0
                    in bind_err (dict_lookup_nearest (prefetch_ref (l_remainder lab) (of_bool side)) (ptr_add key1 1)
                         (n - l_bits lab - 1) allow_eq (mode1 div 2)) (\<lambda>(res, buf).
                         if res \<noteq> None \<or> side = odd mode1 then Inr (res, buf)
                         else dict_lookup_minmax (prefetch_ref (l_remainder lab) (of_bool (odd mode1)))
                                (ptr_set_bit (buf, snd key1) 0 (odd mode1), snd key1 + 1) (n - l_bits lab - 1)
                                (NOT mode1 div 2))))"
  by pat_completeness auto
termination by (relation "measure (\<lambda>(dict, key, n, allow_eq, mode). n)") auto

declare dict_lookup_nearest.simps [simp del]

section \<open>The order of the keys\<close>

text \<open>The key with the bits flipped that are taken in reverse: keys are compared through this image.\<close>

definition oriented :: "int \<Rightarrow> bool list \<Rightarrow> bool list" where
  "oriented mode k =
     (case k of [] \<Rightarrow> [] | b # bs \<Rightarrow> (b \<noteq> odd mode) # map (\<lambda>x. x \<noteq> odd (mode div 2)) bs)"

definition key_le :: "int \<Rightarrow> bool list \<Rightarrow> bool list \<Rightarrow> bool" where
  "key_le mode a b \<longleftrightarrow> lex_cmp (oriented mode a) (oriented mode b) \<noteq> 1"

definition key_less :: "int \<Rightarrow> bool list \<Rightarrow> bool list \<Rightarrow> bool" where
  "key_less mode a b \<longleftrightarrow> lex_cmp (oriented mode a) (oriented mode b) = - 1"

text \<open>The modes of the callers: plain or signed, and either of them in reverse.\<close>

definition mode_ok :: "int \<Rightarrow> bool" where
  "mode_ok mode \<longleftrightarrow> mode div 2 div 2 = mode div 2"

lemma mode_ok_cases: "mode_ok mode \<longleftrightarrow> mode \<in> {- 2, - 1, 0, 1}"
  unfolding mode_ok_def by auto

lemma mode_ok_div [simp]: "mode_ok mode \<Longrightarrow> mode_ok (mode div 2)" "mode_ok mode \<Longrightarrow> mode_ok (mode div 2 div 2)"
  by (simp_all add: mode_ok_def)

lemma not_div_2: "NOT (m :: int) div 2 = NOT (m div 2)"
  unfolding not_int_def by presburger

lemma odd_not [simp]: "odd (NOT m) \<longleftrightarrow> \<not> odd (m :: int)"
  by (simp add: even_not_iff)

lemma mode_ok_not [simp]: "mode_ok (NOT mode) \<longleftrightarrow> mode_ok mode"
  by (auto simp: mode_ok_def not_div_2)

lemma length_oriented [simp]: "length (oriented mode k) = length k"
  by (simp add: oriented_def split: list.split)

lemma oriented_tail:
  "mode_ok mode \<Longrightarrow> oriented (mode div 2) k = map (\<lambda>x. x \<noteq> odd (mode div 2)) k"
  by (cases k) (auto simp: oriented_def mode_ok_def)

definition next_mode :: "int \<Rightarrow> nat \<Rightarrow> int" where
  "next_mode mode l = (if l \<noteq> 0 then mode div 2 else mode)"

lemma oriented_split:
  assumes m: "mode_ok mode"
  shows "oriented mode (ls @ b # k) =
     oriented mode ls @ (b \<noteq> odd (next_mode mode (length ls))) # oriented (next_mode mode (length ls) div 2) k"
proof (cases ls)
  case Nil
  show ?thesis unfolding Nil next_mode_def by (simp add: oriented_tail [OF m]) (simp add: oriented_def)
next
  case (Cons c cs)
  have "oriented (mode div 2 div 2) k = map (\<lambda>x. x \<noteq> odd (mode div 2)) k"
    using oriented_tail [of "mode div 2" k] m by (simp add: mode_ok_def)
  then show ?thesis using m by (simp add: Cons oriented_def next_mode_def)
qed

lemma lex_cmp_Cons_eq: "lex_cmp (x # a) (x # b) = lex_cmp a b"
  by simp

lemma lex_cmp_flip_all: "length a = length b \<Longrightarrow> lex_cmp (map Not a) (map Not b) = lex_cmp b a"
  by (induction a b rule: list_induct2) auto

lemma oriented_not: "oriented (NOT mode) k = map Not (oriented mode k)"
  by (auto simp: oriented_def not_div_2 split: list.split)

lemma lex_cmp_values: "lex_cmp a b \<in> {- 1, 0, 1}"
  by (induction a b rule: lex_cmp.induct) auto

lemma key_le_not: "length a = length b \<Longrightarrow> key_le (NOT mode) a b = key_le mode b a"
  by (simp add: key_le_def oriented_not lex_cmp_flip_all)

lemma key_le_split:
  fixes ls :: "bool list"
  assumes m: "mode_ok mode"
  defines "m1 \<equiv> next_mode mode (length ls)"
  shows "key_le mode (ls @ x # a) (ls @ y # b) \<longleftrightarrow> (if x = y then key_le (m1 div 2) a b else x = odd m1)"
  unfolding key_le_def oriented_split [OF m] m1_def lex_cmp_same_prefix by auto

lemma key_less_split:
  fixes ls :: "bool list"
  assumes m: "mode_ok mode"
  defines "m1 \<equiv> next_mode mode (length ls)"
  shows "key_less mode (ls @ x # a) (ls @ y # b) \<longleftrightarrow> (if x = y then key_less (m1 div 2) a b else x = odd m1)"
  unfolding key_less_def oriented_split [OF m] m1_def lex_cmp_same_prefix by auto

lemma key_le_refl [simp]: "key_le mode a a"
  using lex_cmp_eq_0 [of "oriented mode a" "oriented mode a"] by (simp add: key_le_def)

text \<open>The result of \<open>dict_lookup_minmax\<close> and of \<open>dict_lookup_nearest\<close>: an entry, and its key in the
  buffer.\<close>

definition found :: "bit_ptr \<Rightarrow> dict_entry list \<Rightarrow> bool list \<Rightarrow> slice option \<times> byte list \<Rightarrow> bool" where
  "found key es k r \<longleftrightarrow>
     (\<exists>v. value_of (fst r) = Some v \<and> (k, v) \<in> set es) \<and> value_ok (fst r)
     \<and> length (snd r) = length (fst key) \<and> bits_of (snd r) = overwrite (bits_of (fst key)) (snd key) k"

definition least_key :: "int \<Rightarrow> dict_entry list \<Rightarrow> bool list \<Rightarrow> bool" where
  "least_key mode es k \<longleftrightarrow> (\<forall>k' \<in> fst ` set es. key_le mode k k')"

lemma set_pre_entries: "set (pre p es) = (\<lambda>(k, v). (p @ k, v)) ` set es"
  by (simp add: pre_def)

lemma entries_fork:
  "set (pre ls (pre [False] ea @ pre [True] eb)) = (\<Union>b. (\<lambda>(k, v). (ls @ b # k, v)) ` set (if b then eb else ea))"
proof -
  have "set (pre ls (pre [False] ea @ pre [True] eb)) =
      (\<lambda>(k, v). (ls @ False # k, v)) ` set ea \<union> (\<lambda>(k, v). (ls @ True # k, v)) ` set eb"
    by (simp add: set_pre_entries)
  then show ?thesis by (simp add: UNIV_bool)
qed

lemma entry_fork: "(ls @ b # k, v) \<in> set (pre ls (pre [False] ea @ pre [True] eb)) \<longleftrightarrow> (k, v) \<in> set (if b then eb else ea)"
  unfolding entries_fork by auto

lemma key_fork:
  "k' \<in> fst ` set (pre ls (pre [False] ea @ pre [True] eb)) \<Longrightarrow>
     \<exists>b y. k' = ls @ b # y \<and> y \<in> fst ` set (if b then eb else ea)"
  unfolding entries_fork by force

lemma overwrite_append:
  "i + length ys + length zs \<le> length xs \<Longrightarrow> overwrite (overwrite xs i ys) (i + length ys) zs = overwrite xs i (ys @ zs)"
  by (rule nth_equalityI) (auto simp: nth_overwrite nth_append)

text \<open>The buffer after the label, the bit of the branch and the rest of the key.\<close>

lemma buffer_step:
  assumes b1: "bits_of buf1 = overwrite (bits_of buf) offs ls" "length buf1 = length buf"
    and r: "offs + length ls + 1 + length k \<le> 8 * length buf"
    and b2: "bits_of buf2 = overwrite (bits_of (ptr_set_bit (ptr_add (buf1, offs) (length ls)) 0 side)) (offs + length ls + 1) k"
      "length buf2 = length buf1"
  shows "bits_of buf2 = overwrite (bits_of buf) offs (ls @ side # k)" and "length buf2 = length buf"
proof -
  have "snd (ptr_add (buf1, offs) (length ls)) + 0 < 8 * length (fst (ptr_add (buf1, offs) (length ls)))"
    using r b1(2) by (simp add: ptr_add_def)
  from bits_of_ptr_set_bit [OF this, of side]
  have s: "bits_of (ptr_set_bit (ptr_add (buf1, offs) (length ls)) 0 side) = (overwrite (bits_of buf) offs ls)[offs + length ls := side]"
    by (simp add: ptr_add_def b1(1))
  also have "\<dots> = overwrite (bits_of buf) offs (ls @ [side])" by (rule overwrite_snoc) (use r in simp)
  finally have "bits_of buf2 = overwrite (overwrite (bits_of buf) offs (ls @ [side])) (offs + length (ls @ [side])) k"
    using b2(1) by simp
  also have "\<dots> = overwrite (bits_of buf) offs ((ls @ [side]) @ k)" by (rule overwrite_append) (use r in simp)
  finally show "bits_of buf2 = overwrite (bits_of buf) offs (ls @ side # k)" by simp
  show "length buf2 = length buf" using b1 b2 by simp
qed

lemma minmax_loop_ok:
  assumes "dict_rep n c es" and "ptr_ok key n" and "n < 2 ^ 31" and "mode_ok mode"
  shows "\<exists>r k. minmax_loop (Some c) key n mode = Inr r \<and> found key es k r \<and> least_key mode es k"
  using assms
proof (induction n arbitrary: c es key mode rule: less_induct)
  case (less n)
  obtain lab ls rest es0 where L: "label_of_cell (Some c) n chk_all = Inr lab" "label_view lab ls rest (c_refs c)"
    "length ls \<le> n" "payload_rep (n - length ls) rest (c_refs c) es0" "es = pre ls es0"
    using dict_rep_label [OF less.prems(1,3), of chk_all] by auto
  obtain buf lab1 where x: "extract_label_to lab key = (buf, lab1)" by fastforce
  note X = extract_label_rest [OF L(2) ptr_ok_le [OF less.prems(2) L(3)], unfolded x fst_conv snd_conv]
  note B = view_bits [OF L(2)]
  note unf = minmax_loop.simps [of "Some c" key n mode, unfolded L(1) bind_err_simps x Let_def prod.case B]
  show ?case
  proof (cases "length ls = n")
    case True
    have "es = [(ls, rest, c_refs c)]" using payload_leaf [OF L(4) True] by (simp add: L(5))
    then have "found key es ls (Some (l_remainder lab1), buf)" "least_key mode es ls"
      using X by (simp_all add: found_def value_of_def value_ok_def least_key_def)
    then show ?thesis unfolding unf using True by auto
  next
    case False
    then have lt: "length ls < n" using L(3) by simp
    obtain a b ea eb where F: "rest = []" "c_refs c = [a, b]" "dict_rep (n - length ls - 1) a ea"
      "dict_rep (n - length ls - 1) b eb" "es0 = pre [False] ea @ pre [True] eb"
      using payload_fork_step [OF L(4) lt] by blast
    define m1 where "m1 = next_mode mode (length ls)"
    define side where "side = odd m1"
    define m where "m = n - length ls - 1"
    define key1 where "key1 = (ptr_set_bit (ptr_add (buf, snd key) (length ls)) 0 side, snd key + length ls + 1)"
    have ref: "prefetch_ref (l_remainder lab1) (of_bool side) = Some (if side then b else a)"
      using view_advanced_ref [OF X(4,6)] F(2) by simp
    have d: "dict_rep m (if side then b else a) (if side then eb else ea)" using F by (simp add: m_def)
    have ok1: "ptr_ok key1 m" using less.prems(2) lt X(2) by (simp add: key1_def m_def ptr_ok_def ptr_add_def)
    have mm: "m < n" "m < 2 ^ 31" "mode_ok (m1 div 2)" using lt less.prems(3,4) by (simp_all add: m_def m1_def next_mode_def)
    obtain r k where r: "minmax_loop (Some (if side then b else a)) key1 m (m1 div 2) = Inr r"
      "found key1 (if side then eb else ea) k r" "least_key (m1 div 2) (if side then eb else ea) k"
      using less.IH [OF mm(1) d ok1 mm(2,3)] by blast
    have run: "minmax_loop (Some c) key n mode = Inr r"
      unfolding unf using False lt r(1) ref by (simp add: m1_def next_mode_def side_def key1_def m_def ptr_add_def)
    obtain v where v: "value_of (fst r) = Some v" "(k, v) \<in> set (if side then eb else ea)" and ok: "value_ok (fst r)"
      using r(2) by (auto simp: found_def)
    have lk: "length k = m" using dict_rep_lengths(1) [OF d] v(2) by force
    have room: "snd key + length ls + 1 + length k \<le> 8 * length (fst key)"
      using less.prems(2) lt by (simp add: lk m_def ptr_ok_def)
    have "bits_of (snd r) = overwrite (bits_of (ptr_set_bit (ptr_add (buf, snd key) (length ls)) 0 side)) (snd key + length ls + 1) k"
      "length (snd r) = length buf"
      using r(2) by (simp_all add: found_def key1_def ptr_add_def)
    note W = buffer_step [OF X(1,2) room this]
    have "(ls @ side # k, v) \<in> set es" unfolding L(5) F(5) entry_fork by (rule v(2))
    then have f: "found key es (ls @ side # k) r" using v(1) ok W by (auto simp: found_def)
    have "key_le mode (ls @ side # k) k'" if k': "k' \<in> fst ` set es" for k'
    proof -
      obtain b' y where y: "k' = ls @ b' # y" "y \<in> fst ` set (if b' then eb else ea)"
        using key_fork [OF k' [unfolded L(5) F(5)]] by blast
      show ?thesis unfolding y(1) key_le_split [OF less.prems(4)] m1_def [symmetric]
        using r(3) y(2) by (auto simp: least_key_def side_def)
    qed
    then have "least_key mode es (ls @ side # k)" by (simp add: least_key_def)
    with run f show ?thesis by blast
  qed
qed

section \<open>The nearest key\<close>

text \<open>The keys that come before \<open>k\<close>, and \<open>k\<close> itself when it is allowed. With the mode reversed they are
  those that come after it.\<close>

definition below :: "int \<Rightarrow> bool \<Rightarrow> bool list \<Rightarrow> bool list \<Rightarrow> bool" where
  "below mode allow_eq k k' \<longleftrightarrow> key_less mode k' k \<or> allow_eq \<and> k' = k"

definition nearest :: "bit_ptr \<Rightarrow> dict_entry list \<Rightarrow> int \<Rightarrow> bool \<Rightarrow> bool list \<Rightarrow> slice option \<times> byte list \<Rightarrow> bool" where
  "nearest key es mode allow_eq k r \<longleftrightarrow>
     (if \<exists>k' \<in> fst ` set es. below mode allow_eq k k'
      then \<exists>k0. found key es k0 r \<and> below mode allow_eq k k0
        \<and> (\<forall>k' \<in> fst ` set es. below mode allow_eq k k' \<longrightarrow> key_le mode k' k0)
      else r = (None, fst key))"

lemma key_less_irrefl [simp]: "\<not> key_less mode a a"
  using lex_cmp_eq_0 [of "oriented mode a" "oriented mode a"] by (simp add: key_less_def)

lemma below_split:
  fixes ls :: "bool list"
  assumes m: "mode_ok mode"
  defines "m1 \<equiv> next_mode mode (length ls)"
  shows "below mode eq (ls @ x # a) (ls @ y # b) \<longleftrightarrow> (if x = y then below (m1 div 2) eq a b else y = odd m1)"
  unfolding below_def key_less_split [OF m] m1_def by auto

lemma overwrite_self: "i + n \<le> length xs \<Longrightarrow> overwrite xs i (take n (drop i xs)) = xs"
  by (rule nth_equalityI) (auto simp: nth_overwrite)

lemma buffer_self: "ptr_ok key n \<Longrightarrow> overwrite (bits_of (fst key)) (snd key) (ptr_bits key n) = bits_of (fst key)"
  by (simp add: ptr_bits_def ptr_ok_def overwrite_self)

lemma found_key: "found key es k r \<Longrightarrow> k \<in> fst ` set es"
  by (force simp: found_def)

lemma rep_key_length: "dict_rep n c es \<Longrightarrow> k \<in> fst ` set es \<Longrightarrow> length k = n"
  using dict_rep_lengths(1) by auto

lemma least_key_not:
  assumes rep: "dict_rep n c es" and k: "k \<in> fst ` set es" and l: "least_key (NOT mode) es k"
  shows "\<forall>k' \<in> fst ` set es. key_le mode k' k"
proof
  fix k' assume k': "k' \<in> fst ` set es"
  have "length k = length k'" using rep_key_length [OF rep] k k' by simp
  moreover have "key_le (NOT mode) k k'" using l k' unfolding least_key_def by blast
  ultimately show "key_le mode k' k" by (simp only: key_le_not)
qed

theorem dict_lookup_nearest_ok:
  assumes "dict_rep_opt n dict es" and "ptr_ok key n" and "n < 2 ^ 31" and "mode_ok mode"
  shows "\<exists>r. dict_lookup_nearest dict key n allow_eq mode = Inr r \<and> nearest key es mode allow_eq (ptr_bits key n) r"
  using assms
proof (induction n arbitrary: dict es key mode rule: less_induct)
  case (less n)
  let ?k = "ptr_bits key n"
  show ?case
  proof (cases dict)
    case None
    then show ?thesis using less.prems(1)
      by (simp add: dict_rep_opt_def dict_lookup_nearest.simps [of None] nearest_def)
  next
    case (Some c)
    have rep: "dict_rep n c es" using less.prems(1) by (simp add: Some dict_rep_opt_def)
    have ne: "Some c \<noteq> None" by simp
    note unf = dict_lookup_nearest.simps [of "Some c" key n allow_eq mode, unfolded if_not_P [OF ne]]
    from rep less.prems(2,3) show ?thesis
    proof (cases rule: dict_rep_cases)
      case (miss lab ls rest es0)
      define j where "j = lcp ls ?k"
      have jl: "j < length ls" "j < n" using miss(5,6) by (simp_all add: j_def)
      have lk: "length ?k = n" using less.prems(2) by simp
      define x where "x = ?k ! j"
      note S = lcp_split [OF j_def [symmetric] jl(1), unfolded lk, OF jl(2), folded x_def]
      define m1 where "m1 = next_mode mode j"
      have lt: "length (take j ?k) = j" using lk jl by simp
      have keys: "below mode allow_eq ?k k' \<longleftrightarrow> (\<not> x) = odd m1" if k': "k' \<in> fst ` set es" for k'
      proof -
        obtain z where "k' = ls @ z" using k' by (auto simp: miss(8) set_pre_entries)
        then have "k' = take j ?k @ (\<not> x) # (drop (j + 1) ls @ z)" using S(2) by (metis append.assoc append_Cons)
        then show ?thesis using below_split [OF less.prems(4), of allow_eq "take j ?k" x "drop (j + 1) ?k" "\<not> x"] S(1) lt
          by (simp add: m1_def)
      qed
      have bit: "ptr_bit key j = x" using ptr_bit_nth [OF less.prems(2) jl(2)] by (simp add: x_def)
      have md: "(if j \<noteq> 0 then mode div 2 else mode) = m1" by (simp add: m1_def next_mode_def)
      have run: "dict_lookup_nearest dict key n allow_eq mode =
          (if x = odd m1 then Inr (None, fst key) else dict_lookup_minmax dict key n (NOT mode))"
        unfolding Some unf miss(1) bind_err_simps Let_def miss(3,4) j_def [symmetric] if_P [OF jl(1)] bit md ..
      show ?thesis
      proof (cases "x = odd m1")
        case True
        then show ?thesis unfolding run using keys by (simp add: nearest_def)
      next
        case False
        obtain r k0 where r: "minmax_loop (Some c) key n (NOT mode) = Inr r" "found key es k0 r" "least_key (NOT mode) es k0"
          using minmax_loop_ok [OF rep less.prems(2,3), of "NOT mode"] less.prems(4) by auto
        have k0: "k0 \<in> fst ` set es" by (rule found_key [OF r(2)])
        have "nearest key es mode allow_eq ?k r"
          using r(2) keys k0 False least_key_not [OF rep k0 r(3)] unfolding nearest_def by auto
        then show ?thesis unfolding run using False r(1) by (simp add: dict_lookup_minmax_def Some)
      qed
    next
      case (hit lab rest)
      have run: "dict_lookup_nearest dict key n allow_eq mode =
          Inr (if allow_eq then (Some (l_remainder (skip_label lab)), fst key) else (None, fst key))"
        unfolding Some unf hit(1) bind_err_simps Let_def hit(3,4) by simp
      have "found key es ?k (Some (l_remainder (skip_label lab)), fst key)"
        using skip_label_rest [OF hit(2)] buffer_self [OF less.prems(2)]
        by (simp add: found_def hit(5) value_of_def value_ok_def)
      then show ?thesis unfolding run by (auto simp: nearest_def hit(5) below_def)
    next
      case (branch lab ls a b ea eb)
      define m where "m = n - length ls - 1"
      define side where "side = ptr_bit key (length ls)"
      define key' where "key' = ptr_add key (length ls + 1)"
      define k' where "k' = ptr_bits key' m"
      define m1 where "m1 = next_mode mode (length ls)"
      have k: "?k = ls @ side # k'" using branch(12) by (simp only: side_def k'_def key'_def m_def)
      have mm: "m < n" "m < 2 ^ 31" "mode_ok (m1 div 2)" "mode_ok (NOT m1 div 2)"
        using branch(5) less.prems(3,4) by (simp_all add: m_def m1_def next_mode_def not_div_2)
      have s: "ptr_bit (ptr_add key (length ls)) 0 = side" "ptr_add (ptr_add key (length ls)) 1 = key'"
        "snd (ptr_add key (length ls)) + 1 = snd key'"
        by (simp_all add: side_def key'_def ptr_bit_def ptr_add_def)
      have md: "(if length ls \<noteq> 0 then mode div 2 else mode) = m1" by (simp add: m1_def next_mode_def)
      have ref: "prefetch_ref (l_remainder lab) (of_bool p) = Some (if p then b else a)" for p
        using branch(7,8) by (cases p) simp_all
      have d: "dict_rep m (if p then b else a) (if p then eb else ea)" for p using branch(9,10) by (simp add: m_def)
      have "dict_rep_opt m (Some (if side then b else a)) (if side then eb else ea)" using d by (simp add: dict_rep_opt_def)
      then obtain r where r: "dict_lookup_nearest (Some (if side then b else a)) key' m allow_eq (m1 div 2) = Inr r"
        "nearest key' (if side then eb else ea) (m1 div 2) allow_eq k' r"
        using less.IH [OF mm(1) _ branch(13) [folded key'_def m_def] mm(2,3), folded k'_def] by blast
      have f: "\<not> length ls < length ls" "n - length ls \<noteq> 0" using branch(5) by simp_all
      have run: "dict_lookup_nearest dict key n allow_eq mode =
          (case r of (res, buf) \<Rightarrow>
             if res \<noteq> None \<or> side = odd m1 then Inr (res, buf)
             else dict_lookup_minmax (Some (if odd m1 then b else a))
                    (ptr_set_bit (buf, snd (ptr_add key (length ls))) 0 (odd m1), snd key') m (NOT m1 div 2))"
        unfolding Some unf branch(1) bind_err_simps Let_def branch(3,4) if_not_P [OF f(1)] if_not_P [OF f(2)] md s ref
          m_def [symmetric] r(1) ..
      have self: "overwrite (bits_of (fst key)) (snd key) (ls @ [side]) = bits_of (fst key)"
        "overwrite (bits_of (fst key)) (snd key) ls = bits_of (fst key)"
      proof -
        have p: "ptr_ok key (length ls + 1)" using less.prems(2) branch(5) by (simp add: ptr_ok_def)
        have "ptr_bits key (length ls + 1) = ls @ [side]"
          using ptr_bits_take [of "length ls + 1" n key] branch(5) by (simp add: k)
        from buffer_self [OF p, unfolded this] buffer_self [OF branch(15), unfolded branch(14)]
        show "overwrite (bits_of (fst key)) (snd key) (ls @ [side]) = bits_of (fst key)"
          "overwrite (bits_of (fst key)) (snd key) ls = bits_of (fst key)" .
      qed
      note split = below_split [OF less.prems(4), of allow_eq ls side k', folded m1_def, folded k]
      show ?thesis
      proof (cases "\<exists>y \<in> fst ` set (if side then eb else ea). below (m1 div 2) allow_eq k' y")
        case True
        then obtain k0 where k0: "found key' (if side then eb else ea) k0 r" "below (m1 div 2) allow_eq k' k0"
          "\<forall>y \<in> fst ` set (if side then eb else ea). below (m1 div 2) allow_eq k' y \<longrightarrow> key_le (m1 div 2) y k0"
          using r(2) by (auto simp: nearest_def)
        have lk0: "length k0 = m" by (rule rep_key_length [OF d found_key [OF k0(1)]])
        have "overwrite (bits_of (fst key)) (snd key') k0 = overwrite (bits_of (fst key)) (snd key) ((ls @ [side]) @ k0)"
        proof -
          have "snd key + length (ls @ [side]) + length k0 \<le> length (bits_of (fst key))"
            using less.prems(2) branch(5) by (simp add: lk0 m_def ptr_ok_def)
          from overwrite_append [OF this] show ?thesis unfolding self(1) by (simp add: key'_def ptr_add_def)
        qed
        then have fnd: "found key es (ls @ side # k0) r"
          using k0(1) entry_fork [of ls side k0] by (auto simp: found_def branch(11) key'_def ptr_add_def)
        have bl: "below mode allow_eq ?k (ls @ side # k0)" using k0(2) by (simp add: split)
        have mx: "key_le mode k'' (ls @ side # k0)" if k'': "k'' \<in> fst ` set es" "below mode allow_eq ?k k''" for k''
        proof -
          obtain b' y where y: "k'' = ls @ b' # y" "y \<in> fst ` set (if b' then eb else ea)"
            using key_fork [OF k''(1) [unfolded branch(11)]] by blast
          then show ?thesis using k''(2) k0(3)
            unfolding y(1) split key_le_split [OF less.prems(4)] m1_def [symmetric] by (auto split: if_splits)
        qed
        have "ls @ side # k0 \<in> fst ` set es" by (rule found_key [OF fnd])
        then have "nearest key es mode allow_eq ?k r" using fnd bl mx unfolding nearest_def by auto
        moreover have "fst r \<noteq> None" using k0(1) by (auto simp: found_def value_of_def)
        ultimately show ?thesis unfolding run by (cases r) auto
      next
        case False
        then have rn: "r = (None, fst key)" using r(2) by (simp add: nearest_def key'_def ptr_add_def)
        have below_iff: "below mode allow_eq ?k k'' \<longleftrightarrow> (\<exists>y. k'' = ls @ (\<not> side) # y) \<and> (\<not> side) = odd m1"
          if k'': "k'' \<in> fst ` set es" for k''
        proof -
          obtain b' y where y: "k'' = ls @ b' # y" "y \<in> fst ` set (if b' then eb else ea)"
            using key_fork [OF k'' [unfolded branch(11)]] by blast
          then show ?thesis using False unfolding y(1) split by auto
        qed
        show ?thesis
        proof (cases "side = odd m1")
          case True
          then show ?thesis unfolding run rn using below_iff by (simp add: nearest_def)
        next
          case ns: False
          then have o: "odd m1 = (\<not> side)" by auto
          define key2 where "key2 = (ptr_set_bit (fst key, snd (ptr_add key (length ls))) 0 (\<not> side), snd key')"
          have ok2: "ptr_ok key2 m" using branch(13) by (simp add: key2_def m_def ptr_ok_def key'_def ptr_add_def)
          obtain r2 k0 where r2: "minmax_loop (Some (if \<not> side then b else a)) key2 m (NOT m1 div 2) = Inr r2"
            "found key2 (if \<not> side then eb else ea) k0 r2" "least_key (NOT m1 div 2) (if \<not> side then eb else ea) k0"
            using minmax_loop_ok [OF d ok2 mm(2,4), of "\<not> side"] by blast
          have run2: "dict_lookup_nearest dict key n allow_eq mode = Inr r2"
            unfolding run rn prod.case o using r2(1) by (simp add: dict_lookup_minmax_def key2_def)
          have k0: "k0 \<in> fst ` set (if \<not> side then eb else ea)" by (rule found_key [OF r2(2)])
          have lk0: "length k0 = m" by (rule rep_key_length [OF d k0])
          have room: "snd key + length ls + 1 + length k0 \<le> 8 * length (fst key)"
            using less.prems(2) branch(5) by (simp add: lk0 m_def ptr_ok_def)
          have "bits_of (snd r2) = overwrite (bits_of (ptr_set_bit (ptr_add (fst key, snd key) (length ls)) 0 (\<not> side)))
              (snd key + length ls + 1) k0" "length (snd r2) = length (fst key)"
            using r2(2) by (simp_all add: found_def key2_def key'_def ptr_add_def)
          note W = buffer_step [OF self(2) [symmetric] refl room this]
          have fnd: "found key es (ls @ (\<not> side) # k0) r2"
            using r2(2) W entry_fork [of ls "\<not> side" k0] by (auto simp: found_def branch(11))
          have bl: "below mode allow_eq ?k (ls @ (\<not> side) # k0)" using o by (simp add: split)
          have mx: "key_le mode k'' (ls @ (\<not> side) # k0)" if k'': "k'' \<in> fst ` set es" "below mode allow_eq ?k k''" for k''
          proof -
            obtain y where y: "k'' = ls @ (\<not> side) # y" using below_iff [OF k''(1)] k''(2) by blast
            have "y \<in> fst ` set (if \<not> side then eb else ea)"
              using key_fork [OF k''(1) [unfolded branch(11)]] by (auto simp: y)
            then have "key_le (m1 div 2) y k0"
              using least_key_not [OF d k0 r2(3) [unfolded not_div_2]] by blast
            then show ?thesis unfolding y key_le_split [OF less.prems(4)] m1_def [symmetric] by simp
          qed
          have "ls @ (\<not> side) # k0 \<in> fst ` set es" by (rule found_key [OF fnd])
          then have "nearest key es mode allow_eq ?k r2" using fnd bl mx unfolding nearest_def by auto
          then show ?thesis using run2 by blast
        qed
      qed
    qed
  qed
qed

end
