(* ===== verification/Dict_Map.thy ===== *)
theory Dict_Map
  imports Dict_Delete
begin

text \<open>
  Rewriting all the values of a dictionary, \<open>dict_map\<close> of \<open>crypto/vm/dict.cpp\<close>. The key of the current
  node is built up in a buffer, which goes through the recursion; a leaf for which the function
  reports failure is left out.
\<close>

section \<open>Operation\<close>

lemma label_leaves_less: "label_of_cell c n 3 = Inr lab \<Longrightarrow> l_bits lab \<noteq> n \<Longrightarrow> n - Suc (l_bits lab) < n"
  using label_of_cell_bounded [of c n 3 lab] by simp

text \<open>\<open>map_func_t\<close>: the builder with the label of the leaf, the value, the whole key and its length.\<close>

type_synonym map_func = "builder \<Rightarrow> slice \<Rightarrow> bit_ptr \<Rightarrow> nat \<Rightarrow> bool \<times> builder"

function dict_map ::
  "(byte list \<Rightarrow> byte list) \<Rightarrow> cell option \<Rightarrow> bit_ptr \<Rightarrow> nat \<Rightarrow> nat \<Rightarrow> map_func \<Rightarrow> dict_error + cell option \<times> byte list" where
  "dict_map sha256 dict key n total_key_len map_func =
     (if dict = None then Inr (None, fst key)
      else
        bind_err (label_of_cell dict n chk_all) (\<lambda>lab.
          let l = l_bits lab; (buf, lab1) = extract_label_to lab key
          in if l = n then
               bind_err (append_dict_label empty_builder (buf, snd key) l n) (\<lambda>cb.
                 let (ok, cb1) = map_func cb (l_remainder lab1) (buf, snd key + n - total_key_len) total_key_len
                 in if \<not> ok then Inr (None, buf)
                    else bind_err (dict_finalize sha256 cb1) (\<lambda>(c, cb). Inr (Some c, buf)))
             else
               let c1 = prefetch_ref (l_remainder lab1) 0; c2 = prefetch_ref (l_remainder lab1) 1;
                   offs = snd key + l + 1; buf1 = ptr_set_bit (buf, snd key + l) 0 False
               in bind_err (dict_map sha256 c1 (buf1, offs) (n - l - 1) total_key_len map_func) (\<lambda>(c1, buf2).
                    let buf3 = ptr_set_bit (buf2, snd key + l) 0 True
                    in bind_err (dict_map sha256 c2 (buf3, offs) (n - l - 1) total_key_len map_func) (\<lambda>(c2, buf4).
                      if c1 = None \<and> c2 = None then Inr (None, buf4)
                      else if c1 = None \<or> c2 = None then
                        let (c1, buf5) = (if c1 = None then (c2, buf4) else (c1, ptr_set_bit (buf4, snd key + l) 0 False))
                        in bind_err (join_edge sha256 buf5 (snd key) (l + 1) c1 n chk_all) (\<lambda>(c, buf). Inr (Some c, buf))
                      else
                        bind_err (create_fork sha256 empty_builder (buf4, snd key) l n c1 c2)
                          (\<lambda>c. Inr (Some c, buf4))))))"
  by pat_completeness auto
termination
  by (relation "measure (\<lambda>(sha256, dict, key, n, total, f). n)") (auto intro: label_leaves_less)

declare dict_map.simps [simp del]

section \<open>The buffer\<close>

text \<open>The buffer begins with the bits \<open>Q\<close> of a key.\<close>

definition holds :: "byte list \<Rightarrow> bool list \<Rightarrow> bool" where
  "holds buf Q \<longleftrightarrow> length Q \<le> 8 * length buf \<and> take (length Q) (bits_of buf) = Q"

lemma holds_prefix: "holds buf (Q @ R) \<Longrightarrow> holds buf Q"
proof -
  assume h: "holds buf (Q @ R)"
  then have "take (length Q) (take (length (Q @ R)) (bits_of buf)) = take (length Q) (Q @ R)" by (simp add: holds_def)
  then show ?thesis using h by (simp add: holds_def)
qed

lemma holds_nil [simp]: "holds buf []"
  by (simp add: holds_def)

lemma holds_set_bit:
  assumes h: "holds buf Q" and l: "length Q < 8 * length buf"
  shows "holds (ptr_set_bit (buf, length Q) 0 b) (Q @ [b])"
proof -
  have "bits_of (ptr_set_bit (buf, length Q) 0 b) = (bits_of buf)[length Q := b]"
    using bits_of_ptr_set_bit [of "(buf, length Q)" 0 b] l by simp
  then show ?thesis using h l by (simp add: holds_def take_Suc_conv_app_nth)
qed

lemma holds_keep: "holds buf Q \<Longrightarrow> take (length Q) (bits_of buf') = take (length Q) (bits_of buf) \<Longrightarrow> length buf' = length buf \<Longrightarrow>
    holds buf' Q"
  by (simp add: holds_def)

lemma holds_extract:
  assumes h: "holds buf Q" and b: "bits_of buf1 = overwrite (bits_of buf) (length Q) ls" "length buf1 = length buf"
    and r: "length Q + length ls \<le> 8 * length buf"
  shows "holds buf1 (Q @ ls)"
proof -
  have "length Q + length ls \<le> length (bits_of buf)" using r by simp
  from take_overwrite_end [OF this] show ?thesis using h b r by (simp add: holds_def)
qed

lemma holds_ptr:
  assumes h: "holds buf (Q @ R)"
  shows "ptr_bits (buf, length Q) (length R) = R" and "s \<le> length Q \<Longrightarrow> ptr_bits (buf, s) (length Q + length R - s) = drop s Q @ R"
proof -
  have t: "take (length Q + length R) (bits_of buf) = Q @ R" using h by (simp add: holds_def)
  then have "drop (length Q) (take (length Q + length R) (bits_of buf)) = R" by simp
  then show "ptr_bits (buf, length Q) (length R) = R" by (simp add: ptr_bits_def drop_take)
  assume s: "s \<le> length Q"
  have "drop s (take (length Q + length R) (bits_of buf)) = drop s Q @ R" unfolding t using s by simp
  then show "ptr_bits (buf, s) (length Q + length R - s) = drop s Q @ R" by (simp add: ptr_bits_def drop_take)
qed

section \<open>Every entry is rewritten or left out\<close>

text \<open>\<open>mapped\<close>: every entry of the first list is rewritten by \<open>keeps\<close> or left out by \<open>drops\<close>, under
  its whole key.\<close>

inductive mapped ::
  "(bool list \<Rightarrow> dict_val \<Rightarrow> dict_val \<Rightarrow> bool) \<Rightarrow> (bool list \<Rightarrow> dict_val \<Rightarrow> bool) \<Rightarrow> bool list
     \<Rightarrow> dict_entry list \<Rightarrow> dict_entry list \<Rightarrow> bool"
  for keeps :: "bool list \<Rightarrow> dict_val \<Rightarrow> dict_val \<Rightarrow> bool" and drops :: "bool list \<Rightarrow> dict_val \<Rightarrow> bool" where
  mapped_Nil: "mapped keeps drops P [] []"
| mapped_keep: "keeps (P @ k) v v' \<Longrightarrow> mapped keeps drops P es es' \<Longrightarrow> mapped keeps drops P ((k, v) # es) ((k, v') # es')"
| mapped_drop: "drops (P @ k) v \<Longrightarrow> mapped keeps drops P es es' \<Longrightarrow> mapped keeps drops P ((k, v) # es) es'"

lemma mapped_append: "mapped keeps drops P xs xs' \<Longrightarrow> mapped keeps drops P ys ys' \<Longrightarrow> mapped keeps drops P (xs @ ys) (xs' @ ys')"
  by (induction rule: mapped.induct) (auto intro: mapped.intros)

lemma mapped_pre: "mapped keeps drops P' es es' \<Longrightarrow> P' = P @ p \<Longrightarrow> mapped keeps drops P (pre p es) (pre p es')"
  by (induction rule: mapped.induct) (auto intro: mapped.intros)

lemma mapped_fork:
  "mapped keeps drops (P @ ls @ [False]) ea ea' \<Longrightarrow> mapped keeps drops (P @ ls @ [True]) eb eb' \<Longrightarrow>
     mapped keeps drops P (pre ls (pre [False] ea @ pre [True] eb)) (pre ls (pre [False] ea' @ pre [True] eb'))"
  by (rule mapped_pre [where P' = "P @ ls"], rule mapped_append; (erule mapped_pre)?) simp_all

text \<open>For a function on values: it is mapped over the entries.\<close>

lemma mapped_function:
  "mapped (\<lambda>k v v'. f k v = Some v') (\<lambda>k v. f k v = None) P es es' \<longleftrightarrow>
     es' = concat (map (\<lambda>(k, v). case f (P @ k) v of None \<Rightarrow> [] | Some v' \<Rightarrow> [(k, v')]) es)"
proof
  assume "mapped (\<lambda>k v v'. f k v = Some v') (\<lambda>k v. f k v = None) P es es'"
  then show "es' = concat (map (\<lambda>(k, v). case f (P @ k) v of None \<Rightarrow> [] | Some v' \<Rightarrow> [(k, v')]) es)"
    by induction simp_all
next
  assume "es' = concat (map (\<lambda>(k, v). case f (P @ k) v of None \<Rightarrow> [] | Some v' \<Rightarrow> [(k, v')]) es)"
  then show "mapped (\<lambda>k v v'. f k v = Some v') (\<lambda>k v. f k v = None) P es es'"
    by (induction es arbitrary: es') (auto intro: mapped.intros split: option.splits)
qed

definition map_result ::
  "(bool list \<Rightarrow> dict_val \<Rightarrow> dict_val \<Rightarrow> bool) \<Rightarrow> (bool list \<Rightarrow> dict_val \<Rightarrow> bool) \<Rightarrow> nat \<Rightarrow> bool list \<Rightarrow> dict_entry list
     \<Rightarrow> nat \<Rightarrow> bool list \<Rightarrow> cell option \<times> byte list \<Rightarrow> bool" where
  "map_result keeps drops n P es len Q r \<longleftrightarrow>
     (\<exists>es'. dict_rep_opt n (fst r) es' \<and> mapped keeps drops P es es') \<and> holds (snd r) Q \<and> length (snd r) = len"

text \<open>What \<open>dict_map\<close> relies on: when the function succeeds it has appended a new value, and what the
  new value may be is \<open>keeps\<close>; \<open>drops\<close> says when it may report failure.\<close>

text \<open>The builder that the function gets has nothing but the label of the leaf in it.\<close>

definition label_only :: "nat \<Rightarrow> builder \<Rightarrow> bool" where
  "label_only key_len b \<longleftrightarrow> builder_ok b \<and> b_refs b = [] \<and> length (builder_out b) \<le> key_len + 33"

lemma node_built_label_only:
  assumes b: "node_built cb n ls [] []" and n: "length ls \<le> n" "n \<le> key_len" "n < 2 ^ 31"
  shows "label_only key_len cb"
proof -
  have "length (label_code n ls) \<le> 2 + len_width n + length ls"
    by (cases ls) (auto simp: label_code_def same_code_def Let_def)
  then show ?thesis using b n len_width_le [OF n(3)] by (simp add: node_built_def label_only_def)
qed

locale map_function =
  fixes mf :: map_func
    and total :: nat
    and keeps :: "bool list \<Rightarrow> dict_val \<Rightarrow> dict_val \<Rightarrow> bool"
    and drops :: "bool list \<Rightarrow> dict_val \<Rightarrow> bool"
  assumes mf_keeps: "\<lbrakk>label_only total b; slice_ok s; \<forall>r \<in> set (slice_children s). wf_cell r; ptr_ok key total;
      mf b s key total = (True, b')\<rbrakk> \<Longrightarrow>
      \<exists>v'. keeps (ptr_bits key total) (slice_bits s, slice_children s) v' \<and> appends b (fst v') (snd v') (True, b')
        \<and> (\<forall>r \<in> set (snd v'). wf_cell r)"
    and mf_drops: "\<lbrakk>label_only total b; slice_ok s; ptr_ok key total; mf b s key total = (False, b')\<rbrakk> \<Longrightarrow>
      drops (ptr_bits key total) (slice_bits s, slice_children s)"
begin

lemma map_leaf_ok:
  assumes nb: "node_built cb n ls [] []" and h: "holds buf (Q @ ls)" and ls: "length ls = n"
    and s: "slice_ok s" "slice_bits s = rest" "slice_children s = cs" and wf: "\<forall>r \<in> set cs. wf_cell r"
    and t: "n \<le> total" "total \<le> length Q + n" "n < 2 ^ 31" and sha: "\<And>x. length (sha256 x) = hash_bytes"
  shows "dict_ok (map_result keeps drops n (drop (length Q + n - total) Q) [(ls, rest, cs)] (length buf) Q)
    (let (ok, cb1) = mf cb s (buf, length Q + n - total) total
     in if \<not> ok then Inr (None, buf) else bind_err (dict_finalize sha256 cb1) (\<lambda>(c, cb). Inr (Some c, buf)))"
proof -
  let ?st = "length Q + n - total"
  have st: "?st \<le> length Q" "length Q + n - ?st = total" using t by simp_all
  have key: "ptr_bits (buf, ?st) total = drop ?st Q @ ls" using holds_ptr(2) [OF h st(1)] ls st(2) by simp
  have pk: "ptr_ok (buf, ?st) total" using h ls st t by (simp add: ptr_ok_def holds_def)
  have hQ: "holds buf Q" by (rule holds_prefix [OF h])
  obtain ok cb1 where m: "mf cb s (buf, ?st) total = (ok, cb1)" by fastforce
  have b: "node_coded cb n ls [] []" using node_built_coded [OF nb _ t(3)] ls by simp
  have bo: "label_only total cb" by (rule node_built_label_only [OF nb _ t(1,3)]) (simp add: ls)
  have wf': "\<forall>r \<in> set (slice_children s). wf_cell r" using wf s(3) by simp
  show ?thesis
  proof (cases ok)
    case False
    then have "drops (drop ?st Q @ ls) (rest, cs)" using mf_drops [OF bo s(1) pk] m s key by simp
    then have "mapped keeps drops (drop ?st Q) [(ls, rest, cs)] []" by (intro mapped.intros)
    then show ?thesis using False m hQ by (auto simp: map_result_def dict_rep_opt_def)
  next
    case True
    obtain v' where v': "keeps (drop ?st Q @ ls) (rest, cs) v'" "appends cb (fst v') (snd v') (True, cb1)"
      "\<forall>r \<in> set (snd v'). wf_cell r"
      using mf_keeps [OF bo s(1) wf' pk, of cb1] m s key True by auto
    have c1: "node_coded cb1 n ls (fst v') (snd v')"
      using add_content_ok [OF b, of "fst v'" "snd v'" "(True, cb1)"] v'(2) by (simp add: or_throw_def)
    have pl: "payload_rep (n - length ls) (fst v') (snd v') [([], fst v', snd v')]" using leaf [of "fst v'" "snd v'"] ls by simp
    have mp: "mapped keeps drops (drop ?st Q) [(ls, rest, cs)] [(ls, v')]" using v'(1) by (intro mapped.intros)
    have "dict_ok (map_result keeps drops n (drop ?st Q) [(ls, rest, cs)] (length buf) Q)
        (bind_err (dict_finalize sha256 cb1) (\<lambda>(c, cb). Inr (Some c, buf)))"
      by (rule dict_ok_bind [OF finalize_node_ok [OF c1 sha v'(3) pl]])
        (use mp hQ in \<open>auto simp: map_result_def dict_rep_opt_def\<close>)
    then show ?thesis using True m by simp
  qed
qed

theorem dict_map_ok:
  assumes "dict_rep_opt n dict es" and "holds buf Q" and "length Q + n \<le> 8 * length buf"
    and "n \<le> total" and "total \<le> length Q + n" and "n < 2 ^ 31"
    and sha: "\<And>x. length (sha256 x) = hash_bytes"
  shows "dict_ok (map_result keeps drops n (drop (length Q + n - total) Q) es (length buf) Q)
     (dict_map sha256 dict (buf, length Q) n total mf)"
  using assms(1-6)
proof (induction n arbitrary: dict es buf Q rule: less_induct)
  case (less n)
  let ?st = "length Q + n - total"
  let ?P = "map_result keeps drops n (drop ?st Q) es (length buf) Q"
  show ?case
  proof (cases dict)
    case None
    then show ?thesis using less.prems(1,2)
      by (auto simp: dict_map.simps [of _ None] map_result_def dict_rep_opt_def intro: mapped_Nil)
  next
    case (Some c)
    have rep: "dict_rep n c es" using less.prems(1) by (simp add: Some dict_rep_opt_def)
    obtain lab ls rest es0 where L: "label_of_cell (Some c) n chk_all = Inr lab" "label_view lab ls rest (c_refs c)"
      "length ls \<le> n" "payload_rep (n - length ls) rest (c_refs c) es0" "es = pre ls es0" "ordinary c"
      using dict_rep_label [OF rep less.prems(6), of chk_all] by auto
    have wf: "\<forall>r \<in> set (c_refs c). wf_cell r" using ordinary_refs [OF L(6)] by blast
    obtain buf1 lab1 where x: "extract_label_to lab (buf, length Q) = (buf1, lab1)" by fastforce
    have "ptr_ok (buf, length Q) (length ls)" using less.prems(3) L(3) by (simp add: ptr_ok_def)
    note X = extract_label_rest [OF L(2) this, unfolded x fst_conv snd_conv]
    have room: "length Q + length ls \<le> 8 * length buf" using less.prems(3) L(3) by simp
    have h1: "holds buf1 (Q @ ls)" using holds_extract [OF less.prems(2) _ _ room] X(1,2) by simp
    have ne: "Some c \<noteq> None" by simp
    note B = view_bits [OF L(2)]
    note unf = dict_map.simps [of sha256 "Some c" "(buf, length Q)" n total mf, unfolded if_not_P [OF ne] L(1) bind_err_simps
        Let_def B x prod.case snd_conv]
    show ?thesis
    proof (cases "length ls = n")
      case True
      have es: "es = [(ls, rest, c_refs c)]" using payload_leaf [OF L(4) True] by (simp add: L(5))
      have p1: "ptr_ok (buf1, length Q) n" using less.prems(3) X(2) by (simp add: ptr_ok_def)
      have k1: "ptr_bits (buf1, length Q) n = ls" using holds_ptr(1) [OF h1] True by simp
      show ?thesis
        unfolding Some unf True if_P [OF refl]
      proof (rule dict_ok_bind [OF append_dict_label_ok [OF fresh_empty p1 order.refl less.prems(6), unfolded k1]])
        fix cb assume cb: "node_built cb n ls [] []"
        show "dict_ok ?P (case mf cb (l_remainder lab1) (buf1, length Q + n - total) total of
            (ok, cb1) \<Rightarrow> if \<not> ok then Inr (None, buf1)
               else bind_err (dict_finalize sha256 cb1) (\<lambda>(c, cb). Inr (Some c, buf1)))"
          using map_leaf_ok [OF cb h1 True X(4,5,6) wf less.prems(4-6) sha] unfolding es X(2) Let_def .
      qed
    next
      case False
      then have lt: "length ls < n" using L(3) by simp
      obtain a b ea eb where F: "rest = []" "c_refs c = [a, b]" "dict_rep (n - length ls - 1) a ea"
        "dict_rep (n - length ls - 1) b eb" "es0 = pre [False] ea @ pre [True] eb"
        using payload_fork_step [OF L(4) lt] by blast
      have es: "es = pre ls (pre [False] ea @ pre [True] eb)" by (simp only: L(5) F(5))
      define m where "m = n - length ls - 1"
      define q where "q = length Q + length ls"
      have refs: "prefetch_ref (l_remainder lab1) 0 = Some a" "prefetch_ref (l_remainder lab1) 1 = Some b"
        using view_advanced_ref [OF X(4,6)] F(2) by simp_all
      have mm: "m < n" "m \<le> total" "m < 2 ^ 31" using lt less.prems(4,6) by (simp_all add: m_def)
      have q: "q = length (Q @ ls)" "q < 8 * length buf" "q + 1 = length (Q @ ls @ [x])" for x
        using less.prems(3) lt by (simp_all add: q_def)
      have st: "length (Q @ ls @ [x]) + m - total = ?st" "drop ?st (Q @ ls @ [x]) = drop ?st Q @ ls @ [x]" for x
        using lt less.prems(4) by (simp_all add: m_def)
      have sz: "length (Q @ ls @ [x]) + m \<le> 8 * length buf" "total \<le> length (Q @ ls @ [x]) + m" for x
        using lt less.prems(3,5) by (simp_all add: m_def)
      have set_bit: "holds (ptr_set_bit (bf, q) 0 x) (Q @ ls @ [x])" if "holds bf (Q @ ls)" "length bf = length buf" for bf x
        using holds_set_bit [OF that(1), of x] that(2) q by simp
      have shorter: "holds bf (Q @ ls)" if "holds bf (Q @ ls @ [x])" for bf x
        using holds_prefix [of bf "Q @ ls" "[x]"] that by simp
      have da: "dict_rep_opt m (Some a) ea" "dict_rep_opt m (Some b) eb" using F by (simp_all add: dict_rep_opt_def m_def)
      define buf2 where "buf2 = ptr_set_bit (buf1, q) 0 False"
      have h2: "holds buf2 (Q @ ls @ [False])" "length buf2 = length buf"
        using set_bit [OF h1 X(2)] X(2) by (simp_all add: buf2_def)
      note sub = less.IH [OF mm(1) da(1) h2(1) _ mm(2) sz(2) mm(3), unfolded h2(2), OF sz(1), unfolded st, folded q(3)]
      show ?thesis
        unfolding Some unf if_not_P [OF False] fst_conv q_def [symmetric] m_def [symmetric] buf2_def [symmetric] refs
      proof (rule dict_ok_bind [OF sub])
        fix x1 assume "map_result keeps drops m (drop ?st Q @ ls @ [False]) ea (length buf) (Q @ ls @ [False]) x1"
        then obtain c1 buf3 ea' where x1: "x1 = (c1, buf3)" "dict_rep_opt m c1 ea'"
          "mapped keeps drops (drop ?st Q @ ls @ [False]) ea ea'" "holds buf3 (Q @ ls @ [False])" "length buf3 = length buf"
          by (cases x1) (auto simp: map_result_def)
        define buf4 where "buf4 = ptr_set_bit (buf3, q) 0 True"
        have h4: "holds buf4 (Q @ ls @ [True])" "length buf4 = length buf"
          using set_bit [OF shorter [OF x1(4)] x1(5)] x1(5) by (simp_all add: buf4_def)
        note sub2 = less.IH [OF mm(1) da(2) h4(1) _ mm(2) sz(2) mm(3), unfolded h4(2), OF sz(1), unfolded st, folded q(3)]
        show "dict_ok ?P (case x1 of (c1, buf2) \<Rightarrow>
            bind_err (dict_map sha256 (Some b) (ptr_set_bit (buf2, q) 0 True, q + 1) m total mf) (\<lambda>(c2, buf4).
              if c1 = None \<and> c2 = None then Inr (None, buf4)
              else if c1 = None \<or> c2 = None then
                case if c1 = None then (c2, buf4) else (c1, ptr_set_bit (buf4, q) 0 False) of
                  (c1, buf5) \<Rightarrow> bind_err (join_edge sha256 buf5 (length Q) (length ls + 1) c1 n 3) (\<lambda>(c, buf). Inr (Some c, buf))
              else bind_err (create_fork sha256 empty_builder (buf4, length Q) (length ls) n c1 c2)
                (\<lambda>c. Inr (Some c, buf4))))"
          unfolding x1(1) prod.case buf4_def [symmetric]
        proof (rule dict_ok_bind [OF sub2])
          fix x2 assume "map_result keeps drops m (drop ?st Q @ ls @ [True]) eb (length buf) (Q @ ls @ [True]) x2"
          then obtain c2 buf5 eb' where x2: "x2 = (c2, buf5)" "dict_rep_opt m c2 eb'"
            "mapped keeps drops (drop ?st Q @ ls @ [True]) eb eb'" "holds buf5 (Q @ ls @ [True])" "length buf5 = length buf"
            by (cases x2) (auto simp: map_result_def)
          have mp: "mapped keeps drops (drop ?st Q) es (pre ls (pre [False] ea' @ pre [True] eb'))"
            unfolding es using mapped_fork [OF x1(3) x2(3)] .
          have h5: "holds buf5 (Q @ ls)" "holds buf5 Q" using shorter [OF x2(4)] holds_prefix by blast+
          have join: "dict_ok ?P (bind_err (join_edge sha256 bf (length Q) (length ls + 1) (Some c') n 3)
              (\<lambda>(c, buf). Inr (Some c, buf)))"
            if j: "holds bf (Q @ ls @ [x])" "length bf = length buf" "dict_rep m c' e'"
              "pre ls (pre [False] ea' @ pre [True] eb') = pre (ls @ [x]) e'" for bf x c' e'
          proof -
            have k: "ptr_bits (bf, length Q) (length ls + 1) = ls @ [x]" using holds_ptr(1) [OF j(1)] by simp
            have p: "ptr_ok (bf, length Q) n" using less.prems(3) j(2) by (simp add: ptr_ok_def)
            have r: "dict_rep (n - (length ls + 1)) c' e'" using j(3) by (simp add: m_def)
            have "dict_ok (\<lambda>(c', buf'). dict_rep n c' (pre (ls @ [x]) e') \<and> length buf' = length bf
                \<and> take (length Q + (length ls + 1)) (bits_of buf') = take (length Q + (length ls + 1)) (bits_of bf))
               (join_edge sha256 bf (length Q) (length ls + 1) (Some c') n 3)"
              using join_edge_ok [OF r _ less.prems(6) p sha, of 3] lt unfolding k by simp
            then show ?thesis
            proof (rule dict_ok_bind)
              fix y assume "case y of (c', buf') \<Rightarrow> dict_rep n c' (pre (ls @ [x]) e') \<and> length buf' = length bf
                \<and> take (length Q + (length ls + 1)) (bits_of buf') = take (length Q + (length ls + 1)) (bits_of bf)"
              then obtain c'' bf' where y: "y = (c'', bf')" "dict_rep n c'' (pre (ls @ [x]) e')" "length bf' = length bf"
                "take (length Q + (length ls + 1)) (bits_of bf') = take (length Q + (length ls + 1)) (bits_of bf)"
                by (cases y) auto
              have "holds bf' (Q @ ls @ [x])" by (rule holds_keep [OF j(1) _ y(3)]) (use y(4) in simp)
              then have "holds bf' Q" by (rule holds_prefix)
              then show "dict_ok ?P (case y of (c, buf) \<Rightarrow> Inr (Some c, buf))"
                using y mp j(2) unfolding j(4) by (auto simp: map_result_def dict_rep_opt_def)
            qed
          qed
          show "dict_ok ?P (case x2 of (c2, buf4) \<Rightarrow>
              if c1 = None \<and> c2 = None then Inr (None, buf4)
              else if c1 = None \<or> c2 = None then
                case if c1 = None then (c2, buf4) else (c1, ptr_set_bit (buf4, q) 0 False) of
                  (c1, buf5) \<Rightarrow> bind_err (join_edge sha256 buf5 (length Q) (length ls + 1) c1 n 3) (\<lambda>(c, buf). Inr (Some c, buf))
              else bind_err (create_fork sha256 empty_builder (buf4, length Q) (length ls) n c1 c2)
                (\<lambda>c. Inr (Some c, buf4)))"
            unfolding x2(1) prod.case
          proof (cases c1)
            case c1: None
            then have ea': "ea' = []" using x1(2) by (simp add: dict_rep_opt_def)
            show "dict_ok ?P (if c1 = None \<and> c2 = None then Inr (None, buf5)
              else if c1 = None \<or> c2 = None then
                case if c1 = None then (c2, buf5) else (c1, ptr_set_bit (buf5, q) 0 False) of
                  (c1, buf5) \<Rightarrow> bind_err (join_edge sha256 buf5 (length Q) (length ls + 1) c1 n 3) (\<lambda>(c, buf). Inr (Some c, buf))
              else bind_err (create_fork sha256 empty_builder (buf5, length Q) (length ls) n c1 c2)
                (\<lambda>c. Inr (Some c, buf5)))"
            proof (cases c2)
              case None
              then have "eb' = []" using x2(2) by (simp add: dict_rep_opt_def)
              then show ?thesis using c1 None mp ea' h5 x2(5) by (auto simp: map_result_def dict_rep_opt_def)
            next
              case (Some c')
              then have "dict_rep m c' eb'" using x2(2) by (simp add: dict_rep_opt_def)
              from join [OF x2(4,5) this] show ?thesis using c1 Some ea' by simp
            qed
          next
            case c1: (Some c1')
            then have r1: "dict_rep m c1' ea'" using x1(2) by (simp add: dict_rep_opt_def)
            show "dict_ok ?P (if c1 = None \<and> c2 = None then Inr (None, buf5)
              else if c1 = None \<or> c2 = None then
                case if c1 = None then (c2, buf5) else (c1, ptr_set_bit (buf5, q) 0 False) of
                  (c1, buf5) \<Rightarrow> bind_err (join_edge sha256 buf5 (length Q) (length ls + 1) c1 n 3) (\<lambda>(c, buf). Inr (Some c, buf))
              else bind_err (create_fork sha256 empty_builder (buf5, length Q) (length ls) n c1 c2)
                (\<lambda>c. Inr (Some c, buf5)))"
            proof (cases c2)
              case None
              then have "eb' = []" using x2(2) by (simp add: dict_rep_opt_def)
              then show ?thesis
                using join [OF set_bit [OF h5(1) x2(5), of False] _ r1] x2(5) c1 None by simp
            next
              case (Some c2')
              then have r2: "dict_rep m c2' eb'" using x2(2) by (simp add: dict_rep_opt_def)
              have k: "ptr_bits (buf5, length Q) (length ls) = ls" by (rule holds_ptr(1) [OF h5(1)])
              have p: "ptr_ok (buf5, length Q) (length ls)" using room x2(5) by (simp add: ptr_ok_def)
              note cf = create_fork_ok [OF fresh_empty p lt less.prems(6) r1 [unfolded m_def] r2 [unfolded m_def] sha, unfolded k]
              have "dict_ok ?P (bind_err (create_fork sha256 empty_builder (buf5, length Q) (length ls) n (Some c1') (Some c2'))
                  (\<lambda>c. Inr (Some c, buf5)))"
                by (rule dict_ok_bind [OF cf]) (use mp h5 x2(5) in \<open>auto simp: map_result_def dict_rep_opt_def\<close>)
              then show ?thesis using c1 Some by simp
            qed
          qed
        qed
      qed
    qed
  qed
qed

end

text \<open>Copying the values gives the dictionary back, but for values that may not fit behind a label.\<close>

interpretation copying: map_function "\<lambda>cb s key l. cell_builder_add_slice_bool cb s" len "\<lambda>k v v'. v' = v"
    "\<lambda>k v. max_bits < len + 33 + length (fst v) \<or> max_refs < length (snd v)"
proof unfold_locales
  fix b s key b'
  assume b: "label_only len b" and s: "slice_ok s" and wf: "\<forall>r \<in> set (slice_children s). wf_cell r"
    and e: "cell_builder_add_slice_bool b s = (True, b')"
  have "builder_ok b" using b by (simp add: label_only_def)
  from cell_builder_add_slice_appends [OF this s] wf
  show "\<exists>v'. v' = (slice_bits s, slice_children s) \<and> appends b (fst v') (snd v') (True, b') \<and> (\<forall>r \<in> set (snd v'). wf_cell r)"
    unfolding e by simp
next
  fix b s key b'
  assume b: "label_only len b" and s: "slice_ok s" and e: "cell_builder_add_slice_bool b s = (False, b')"
  have ok: "builder_ok b" "b_refs b = []" "b_bits b \<le> len + 33" using b by (auto simp: label_only_def)
  have "\<not> (length (slice_bits s) \<le> remaining_bits b \<and> length (slice_children s) \<le> remaining_refs b)"
    using cell_builder_add_slice_appends [OF ok(1) s] unfolding e by (simp add: appends_def)
  then show "max_bits < len + 33 + length (fst (slice_bits s, slice_children s)) \<or> max_refs < length (snd (slice_bits s, slice_children s))"
    using ok by (auto simp: remaining_bits_def remaining_refs_def)
qed

text \<open>When they all fit, the entries are the same.\<close>

lemma mapped_copy: "mapped (\<lambda>k v v'. v' = v) drops P es es' \<Longrightarrow> \<forall>(k, v) \<in> set es. \<not> drops (P @ k) v \<Longrightarrow> es' = es"
  by (induction rule: mapped.induct) auto

end
