(* ===== verification/Dict_Object.thy ===== *)
theory Dict_Object
  imports Dict_Order Dict_Map
begin

text \<open>
  The dictionary object, \<open>DictionaryBase\<close>, \<open>DictionaryFixed\<close> and \<open>Dictionary\<close> of \<open>crypto/vm/dict.h\<close>
  and \<open>dict.cpp\<close>: its root, as a slice and as a cell, the length of its keys and its flags. Every
  operation validates the object first, so it gives back the object. The methods that build cells
  take the hash function, and all of them may throw.
\<close>

unbundle bit_operations_syntax

section \<open>State\<close>

record dict =
  d_root :: "slice option"
  d_root_cell :: "cell option"
  d_key_bits :: int
  d_flags :: u32

definition f_valid :: u32 where "f_valid = 1"
definition f_root_cached :: u32 where "f_root_cached = 2"
definition f_invalid :: u32 where "f_invalid = 0x80"

definition dict_is_valid :: "dict \<Rightarrow> bool" where
  "dict_is_valid d \<longleftrightarrow> d_flags d AND f_valid \<noteq> 0"

definition dict_is_empty :: "dict \<Rightarrow> bool" where
  "dict_is_empty d \<longleftrightarrow> d_root_cell d = None"

definition dict_reset :: "dict \<Rightarrow> dict" where
  "dict_reset d = d\<lparr>d_root := None, d_root_cell := None, d_flags := f_valid\<rparr>"

definition dict_invalidate :: "dict \<Rightarrow> bool \<times> dict" where
  "dict_invalidate d = (False, d\<lparr>d_flags := d_flags d OR f_invalid\<rparr>)"

definition set_root_cell :: "dict \<Rightarrow> cell option \<Rightarrow> dict" where
  "set_root_cell d c = d\<lparr>d_root_cell := c, d_flags := d_flags d AND NOT f_root_cached\<rparr>"

definition dict_validate :: "dict \<Rightarrow> bool \<times> dict" where
  "dict_validate d =
     (if dict_is_valid d then (True, d)
      else if d_flags d AND f_invalid \<noteq> 0 then (False, d)
      else if d_key_bits d < 0 \<or> d_key_bits d > int max_key_bits then dict_invalidate d
      else if d_flags d AND f_root_cached \<noteq> 0 then
        (case d_root d of
           None \<Rightarrow> dict_invalidate d
         | Some r \<Rightarrow>
             if slice_size r \<noteq> 1 then dict_invalidate d
             else
               let (v, r1) = prefetch_ulong r 1; non_empty = (v \<noteq> 0); d1 = d\<lparr>d_root := Some r1\<rparr>
               in if slice_size_refs r1 \<noteq> (if non_empty then 1 else 0) then dict_invalidate d1
                  else if d_root_cell d1 \<noteq> None then dict_invalidate d1
                  else
                    let d2 = (if non_empty then d1\<lparr>d_root_cell := prefetch_ref r1 0\<rparr> else d1)
                    in (True, d2\<lparr>d_flags := d_flags d2 OR f_valid\<rparr>))
      else if d_root d \<noteq> None then dict_invalidate d
      else (True, d\<lparr>d_flags := d_flags d OR f_valid\<rparr>))"

definition force_validate :: "dict \<Rightarrow> dict_error + dict" where
  "force_validate d =
     (if dict_is_valid d then Inr d
      else let (ok, d1) = dict_validate d in if \<not> ok then Inl (Vm_error Excno_dict_err) else Inr d1)"

section \<open>Constructors\<close>

definition finish_new :: "bool \<Rightarrow> dict \<Rightarrow> dict_error + dict" where
  "finish_new validate d = (if validate then force_validate d else Inr d)"

definition new_dict_ref :: "slice option \<Rightarrow> int \<Rightarrow> bool \<Rightarrow> dict_error + dict" where
  "new_dict_ref root n validate =
     finish_new validate \<lparr>d_root = root, d_root_cell = None, d_key_bits = n, d_flags = f_root_cached\<rparr>"

definition new_dict_slice :: "slice \<Rightarrow> int \<Rightarrow> bool \<Rightarrow> dict_error + dict" where
  "new_dict_slice root_cs n validate =
     (let (v, cs) = prefetch_ulong root_cs 1; f = int32_of v;
          d = \<lparr>d_root = None, d_root_cell = None, d_key_bits = n, d_flags = 0\<rparr>
      in finish_new validate
        (if f < 0 then d\<lparr>d_flags := f_invalid\<rparr>
         else if f > 0 then
           if slice_size_refs cs \<noteq> 0 then d\<lparr>d_root_cell := prefetch_ref cs 0\<rparr> else d\<lparr>d_flags := f_invalid\<rparr>
         else d))"

definition new_dict_advance :: "slice \<Rightarrow> int \<Rightarrow> bool \<Rightarrow> dict_error + dict \<times> slice" where
  "new_dict_advance root_cs n validate =
     (let (v, cs) = prefetch_ulong root_cs 1; f = int32_of v;
          d = \<lparr>d_root = None, d_root_cell = None, d_key_bits = n, d_flags = 0\<rparr>;
          (d1, cs1) =
            (if f = 0 then (d, snd (slice_advance cs 1))
             else if f > 0 \<and> slice_size_refs cs \<noteq> 0 then
               let cs1 = snd (slice_advance cs 1); (c, cs2) = fetch_ref cs1 in (d\<lparr>d_root_cell := c\<rparr>, cs2)
             else (d\<lparr>d_flags := f_invalid\<rparr>, cs))
      in bind_err (finish_new validate d1) (\<lambda>d2. Inr (d2, cs1)))"

definition new_dict_cell :: "cell option \<Rightarrow> int \<Rightarrow> bool \<Rightarrow> dict_error + dict" where
  "new_dict_cell c n validate = finish_new validate \<lparr>d_root = None, d_root_cell = c, d_key_bits = n, d_flags = 0\<rparr>"

definition new_dict :: "int \<Rightarrow> bool \<Rightarrow> dict_error + dict" where
  "new_dict n validate = finish_new validate \<lparr>d_root = None, d_root_cell = None, d_key_bits = n, d_flags = 0\<rparr>"

definition init_root_for_nonempty :: "(byte list \<Rightarrow> byte list) \<Rightarrow> dict \<Rightarrow> slice \<Rightarrow> dict_error + bool \<times> dict" where
  "init_root_for_nonempty sha256 d cs =
     (case append_cellslice_bool empty_builder cs of
        (False, cb) \<Rightarrow> Inr (False, d)
      | (True, cb) \<Rightarrow> bind_err (dict_finalize sha256 cb) (\<lambda>(c, cb). Inr (True, d\<lparr>d_root_cell := Some c\<rparr>)))"

definition new_dict_nonempty ::
  "(byte list \<Rightarrow> byte list) \<Rightarrow> slice option \<Rightarrow> int \<Rightarrow> bool \<Rightarrow> dict_error + dict" where
  "new_dict_nonempty sha256 root n validate =
     (let d = \<lparr>d_root = None, d_root_cell = None, d_key_bits = n, d_flags = 0\<rparr>
      in bind_err
        (case root of
           None \<Rightarrow> Inr (snd (dict_invalidate d))
         | Some cs \<Rightarrow>
             bind_err (init_root_for_nonempty sha256 d cs) (\<lambda>(ok, d1). Inr (if \<not> ok then snd (dict_invalidate d1) else d1)))
        (finish_new validate))"

definition construct_root_from :: "(byte list \<Rightarrow> byte list) \<Rightarrow> slice \<Rightarrow> dict_error + cell option" where
  "construct_root_from sha256 root_node_cs =
     (case append_cellslice_bool empty_builder root_node_cs of
        (False, cb) \<Rightarrow> Inr None
      | (True, cb) \<Rightarrow> bind_err (dict_finalize sha256 cb) (\<lambda>(c, cb). Inr (Some c)))"

section \<open>The root\<close>

definition new_empty_dictionary :: "(byte list \<Rightarrow> byte list) \<Rightarrow> dict_error + slice" where
  "new_empty_dictionary sha256 =
     bind_err (build (store_long empty_builder 0 1)) (\<lambda>cb.
     bind_err (dict_finalize sha256 cb) (\<lambda>(c, cb). Inr (slice_of_loaded (Some c) virt_none)))"

definition compute_root :: "(byte list \<Rightarrow> byte list) \<Rightarrow> dict \<Rightarrow> dict_error + bool \<times> dict" where
  "compute_root sha256 d =
     (if \<not> dict_is_valid d then Inr (False, d)
      else case d_root_cell d of
        None \<Rightarrow>
          bind_err (new_empty_dictionary sha256) (\<lambda>r.
            Inr (True, d\<lparr>d_root := Some r, d_flags := d_flags d OR f_root_cached\<rparr>))
      | Some c \<Rightarrow>
          bind_err (build (bind_err (store_long empty_builder 1 1) (\<lambda>cb. store_ref cb (Some c)))) (\<lambda>cb.
          bind_err (dict_finalize sha256 cb) (\<lambda>(c, cb).
            Inr (True, d\<lparr>d_root := Some (slice_of_loaded (Some c) virt_none), d_flags := d_flags d OR f_root_cached\<rparr>))))"

definition get_root :: "(byte list \<Rightarrow> byte list) \<Rightarrow> dict \<Rightarrow> dict_error + slice option \<times> dict" where
  "get_root sha256 d =
     (if d_flags d AND f_root_cached = 0 then
        bind_err (compute_root sha256 d) (\<lambda>(ok, d1). Inr (if ok then d_root d1 else None, d1))
      else Inr (d_root d, d))"

definition extract_root :: "(byte list \<Rightarrow> byte list) \<Rightarrow> dict \<Rightarrow> dict_error + slice option \<times> dict" where
  "extract_root sha256 d =
     (if d_flags d AND f_root_cached = 0 then
        bind_err (compute_root sha256 d) (\<lambda>(ok, d1).
          Inr (if ok then (d_root d1, d1\<lparr>d_root := None, d_flags := f_invalid\<rparr>) else (None, d1)))
      else Inr (d_root d, d\<lparr>d_root := None, d_flags := f_invalid\<rparr>))"

definition append_dict_to_bool :: "dict \<Rightarrow> builder \<Rightarrow> bool \<times> builder" where
  "append_dict_to_bool d cb = (if dict_is_valid d then store_maybe_ref cb (d_root_cell d) else (False, cb))"

definition append_dict_to_bool_move :: "dict \<Rightarrow> builder \<Rightarrow> bool \<times> builder \<times> dict" where
  "append_dict_to_bool_move d cb =
     (if \<not> dict_is_valid d then (False, cb, d)
      else let (ok, cb1) = store_maybe_ref cb (d_root_cell d)
           in (ok, cb1, d\<lparr>d_root_cell := None, d_flags := f_invalid\<rparr>))"

section \<open>Looking up\<close>

definition obj_lookup :: "dict \<Rightarrow> bit_ptr \<Rightarrow> nat \<Rightarrow> dict_error + slice option \<times> dict" where
  "obj_lookup d key key_len =
     bind_err (force_validate d) (\<lambda>d.
       if int key_len \<noteq> d_key_bits d \<or> dict_is_empty d then Inr (None, d)
       else bind_err (dict_lookup (d_root_cell d) key key_len) (\<lambda>r. Inr (r, d)))"

definition obj_lookup_ref :: "dict \<Rightarrow> bit_ptr \<Rightarrow> nat \<Rightarrow> dict_error + cell option \<times> dict" where
  "obj_lookup_ref d key key_len =
     bind_err (obj_lookup d key key_len) (\<lambda>(r, d). bind_err (extract_value_ref r) (\<lambda>c. Inr (c, d)))"

definition key_exists :: "dict \<Rightarrow> bit_ptr \<Rightarrow> nat \<Rightarrow> dict_error + bool \<times> dict" where
  "key_exists d key key_len = bind_err (obj_lookup d key key_len) (\<lambda>(r, d). Inr (r \<noteq> None, d))"

text \<open>Keys given as numbers. A dictionary with keys of no bits shifts by \<open>- 1\<close> in the signed version,
  which is undefined in the code.\<close>

definition int_key_exists :: "dict \<Rightarrow> u64 \<Rightarrow> dict_error + bool \<times> dict" where
  "int_key_exists d key =
     bind_err (force_validate d) (\<lambda>d.
       let l = nat (d_key_bits d); m = push_bit (l - 1) 1 :: u64
       in if dict_is_empty d \<or> l > 64 then Inr (False, d)
          else if l < 64 \<and> (sint key < - sint m \<or> sint key \<ge> sint m) then Inr (False, d)
          else key_exists d (bits_store_long (replicate 8 0) 0 key l, 0) l)"

definition uint_key_exists :: "dict \<Rightarrow> u64 \<Rightarrow> dict_error + bool \<times> dict" where
  "uint_key_exists d key =
     bind_err (force_validate d) (\<lambda>d.
       let l = nat (d_key_bits d)
       in if dict_is_empty d \<or> l > 64 then Inr (False, d)
          else if l < 64 \<and> key \<ge> push_bit l 1 then Inr (False, d)
          else key_exists d (bits_store_long (replicate 8 0) 0 key l, 0) l)"

definition has_common_prefix :: "dict \<Rightarrow> bit_ptr \<Rightarrow> int \<Rightarrow> dict_error + bool \<times> dict" where
  "has_common_prefix d pfx prefix_len =
     bind_err (force_validate d) (\<lambda>d.
       if dict_is_empty d \<or> prefix_len \<le> 0 then Inr (True, d)
       else if prefix_len > d_key_bits d then Inr (False, d)
       else bind_err (label_of_cell (d_root_cell d) (nat (d_key_bits d)) chk_all) (\<lambda>lab.
         Inr (label_has_prefix lab pfx (nat prefix_len), d)))"

definition get_common_prefix :: "dict \<Rightarrow> bit_ptr \<Rightarrow> nat \<Rightarrow> dict_error + int \<times> byte list \<times> dict" where
  "get_common_prefix d buffer buffer_len =
     bind_err (force_validate d) (\<lambda>d.
       if dict_is_empty d then Inr (0, fst buffer, d)
       else bind_err (label_of_cell (d_root_cell d) (nat (d_key_bits d)) chk_all) (\<lambda>lab.
         let (r, buf) = copy_label_prefix_to lab buffer (int buffer_len) in Inr (r, buf, d)))"

definition order_mode :: "bool \<Rightarrow> bool \<Rightarrow> int" where
  "order_mode last_first invert_first = (- of_bool last_first) XOR of_bool invert_first"

definition get_minmax_key :: "dict \<Rightarrow> bit_ptr \<Rightarrow> nat \<Rightarrow> bool \<Rightarrow> bool \<Rightarrow> dict_error + (slice option \<times> byte list) \<times> dict" where
  "get_minmax_key d key_buffer key_len fetch_max invert_first =
     bind_err (force_validate d) (\<lambda>d.
       if int key_len \<noteq> d_key_bits d then Inr ((None, fst key_buffer), d)
       else bind_err (dict_lookup_minmax (d_root_cell d) key_buffer key_len (order_mode fetch_max invert_first))
              (\<lambda>r. Inr (r, d)))"

definition lookup_nearest_key ::
  "dict \<Rightarrow> bit_ptr \<Rightarrow> nat \<Rightarrow> bool \<Rightarrow> bool \<Rightarrow> bool \<Rightarrow> dict_error + (slice option \<times> byte list) \<times> dict" where
  "lookup_nearest_key d key_buffer key_len fetch_next allow_eq invert_first =
     bind_err (force_validate d) (\<lambda>d.
       if int key_len \<noteq> d_key_bits d then Inr ((None, fst key_buffer), d)
       else bind_err (dict_lookup_nearest (d_root_cell d) key_buffer key_len allow_eq (order_mode fetch_next invert_first))
              (\<lambda>r. Inr (r, d)))"

section \<open>Changing\<close>

definition set_gen ::
  "(byte list \<Rightarrow> byte list) \<Rightarrow> dict \<Rightarrow> bit_ptr \<Rightarrow> nat \<Rightarrow> store_value \<Rightarrow> set_mode \<Rightarrow> dict_error + bool \<times> dict" where
  "set_gen sha256 d key key_len store_val mode =
     bind_err (force_validate d) (\<lambda>d.
       if int key_len \<noteq> d_key_bits d then Inr (False, d)
       else bind_err (dict_set sha256 (d_root_cell d) key key_len store_val mode) (\<lambda>(c, changed).
         Inr (changed, if changed then set_root_cell d c else d)))"

definition obj_set :: "(byte list \<Rightarrow> byte list) \<Rightarrow> dict \<Rightarrow> bit_ptr \<Rightarrow> nat \<Rightarrow> slice \<Rightarrow> set_mode \<Rightarrow> dict_error + bool \<times> dict" where
  "obj_set sha256 d key key_len v mode =
     set_gen sha256 d key key_len (\<lambda>cb. cell_builder_add_slice_bool cb v) mode"

definition obj_set_ref :: "(byte list \<Rightarrow> byte list) \<Rightarrow> dict \<Rightarrow> bit_ptr \<Rightarrow> nat \<Rightarrow> cell option \<Rightarrow> set_mode \<Rightarrow> dict_error + bool \<times> dict" where
  "obj_set_ref sha256 d key key_len val_ref mode = set_gen sha256 d key key_len (\<lambda>cb. store_ref_bool cb val_ref) mode"

definition obj_set_builder :: "(byte list \<Rightarrow> byte list) \<Rightarrow> dict \<Rightarrow> bit_ptr \<Rightarrow> nat \<Rightarrow> builder \<Rightarrow> set_mode \<Rightarrow> dict_error + bool \<times> dict" where
  "obj_set_builder sha256 d key key_len val_b mode =
     set_gen sha256 d key key_len (\<lambda>cb. append_builder_bool cb val_b) mode"

definition lookup_set_gen ::
  "(byte list \<Rightarrow> byte list) \<Rightarrow> dict \<Rightarrow> bit_ptr \<Rightarrow> nat \<Rightarrow> store_value \<Rightarrow> set_mode \<Rightarrow> dict_error + slice option \<times> dict" where
  "lookup_set_gen sha256 d key key_len store_val mode =
     bind_err (force_validate d) (\<lambda>d.
       if int key_len \<noteq> d_key_bits d then Inr (None, d)
       else bind_err (dict_lookup_set sha256 (d_root_cell d) key key_len store_val mode) (\<lambda>(old, c, changed).
         Inr (old, if changed then set_root_cell d c else d)))"

definition lookup_set :: "(byte list \<Rightarrow> byte list) \<Rightarrow> dict \<Rightarrow> bit_ptr \<Rightarrow> nat \<Rightarrow> slice \<Rightarrow> set_mode \<Rightarrow> dict_error + slice option \<times> dict" where
  "lookup_set sha256 d key key_len v mode =
     lookup_set_gen sha256 d key key_len (\<lambda>cb. cell_builder_add_slice_bool cb v) mode"

definition lookup_set_ref ::
  "(byte list \<Rightarrow> byte list) \<Rightarrow> dict \<Rightarrow> bit_ptr \<Rightarrow> nat \<Rightarrow> cell option \<Rightarrow> set_mode \<Rightarrow> dict_error + cell option \<times> dict" where
  "lookup_set_ref sha256 d key key_len val_ref mode =
     bind_err (lookup_set_gen sha256 d key key_len (\<lambda>cb. store_ref_bool cb val_ref) mode) (\<lambda>(r, d).
       bind_err (extract_value_ref r) (\<lambda>c. Inr (c, d)))"

definition lookup_set_builder ::
  "(byte list \<Rightarrow> byte list) \<Rightarrow> dict \<Rightarrow> bit_ptr \<Rightarrow> nat \<Rightarrow> builder \<Rightarrow> set_mode \<Rightarrow> dict_error + slice option \<times> dict" where
  "lookup_set_builder sha256 d key key_len val_b mode =
     lookup_set_gen sha256 d key key_len (\<lambda>cb. append_builder_bool cb val_b) mode"

definition lookup_delete :: "(byte list \<Rightarrow> byte list) \<Rightarrow> dict \<Rightarrow> bit_ptr \<Rightarrow> nat \<Rightarrow> dict_error + slice option \<times> dict" where
  "lookup_delete sha256 d key key_len =
     bind_err (force_validate d) (\<lambda>d.
       if int key_len \<noteq> d_key_bits d then Inr (None, d)
       else bind_err (dict_lookup_delete sha256 (d_root_cell d) key key_len) (\<lambda>(old, c).
         Inr (old, if old \<noteq> None then set_root_cell d c else d)))"

definition lookup_delete_ref :: "(byte list \<Rightarrow> byte list) \<Rightarrow> dict \<Rightarrow> bit_ptr \<Rightarrow> nat \<Rightarrow> dict_error + cell option \<times> dict" where
  "lookup_delete_ref sha256 d key key_len =
     bind_err (lookup_delete sha256 d key key_len) (\<lambda>(r, d). bind_err (extract_value_ref r) (\<lambda>c. Inr (c, d)))"

definition extract_minmax_key ::
  "(byte list \<Rightarrow> byte list) \<Rightarrow> dict \<Rightarrow> bit_ptr \<Rightarrow> nat \<Rightarrow> bool \<Rightarrow> bool \<Rightarrow> dict_error + (slice option \<times> byte list) \<times> dict" where
  "extract_minmax_key sha256 d key_buffer key_len fetch_max invert_first =
     bind_err (force_validate d) (\<lambda>d.
       if int key_len \<noteq> d_key_bits d then Inr ((None, fst key_buffer), d)
       else bind_err (dict_lookup_minmax (d_root_cell d) key_buffer key_len (order_mode fetch_max invert_first)) (\<lambda>(val, buf).
         if val = None then Inr ((None, buf), d)
         else bind_err (dict_lookup_delete sha256 (d_root_cell d) (buf, snd key_buffer) key_len) (\<lambda>(old, c).
           Inr ((val, buf), set_root_cell d c))))"

definition get_minmax_key_ref :: "dict \<Rightarrow> bit_ptr \<Rightarrow> nat \<Rightarrow> bool \<Rightarrow> bool \<Rightarrow> dict_error + (cell option \<times> byte list) \<times> dict" where
  "get_minmax_key_ref d key_buffer key_len fetch_max invert_first =
     bind_err (get_minmax_key d key_buffer key_len fetch_max invert_first) (\<lambda>((r, buf), d).
       bind_err (extract_value_ref r) (\<lambda>c. Inr ((c, buf), d)))"

definition extract_minmax_key_ref ::
  "(byte list \<Rightarrow> byte list) \<Rightarrow> dict \<Rightarrow> bit_ptr \<Rightarrow> nat \<Rightarrow> bool \<Rightarrow> bool \<Rightarrow> dict_error + (cell option \<times> byte list) \<times> dict" where
  "extract_minmax_key_ref sha256 d key_buffer key_len fetch_max invert_first =
     bind_err (extract_minmax_key sha256 d key_buffer key_len fetch_max invert_first) (\<lambda>((r, buf), d).
       bind_err (extract_value_ref r) (\<lambda>c. Inr ((c, buf), d)))"

definition obj_map :: "(byte list \<Rightarrow> byte list) \<Rightarrow> dict \<Rightarrow> map_func \<Rightarrow> dict_error + dict" where
  "obj_map sha256 d map_func =
     bind_err (force_validate d) (\<lambda>d.
       let key_len = nat (d_key_bits d)
       in bind_err (dict_map sha256 (d_root_cell d) (replicate max_key_bytes 0, 0) key_len key_len map_func)
            (\<lambda>(c, buf). Inr (set_root_cell d c)))"

section \<open>The invariant\<close>

text \<open>The slice of a root: one bit, which says whether there is a cell, and the cell.\<close>

definition root_slice :: "slice option \<Rightarrow> cell option \<Rightarrow> bool" where
  "root_slice r c \<longleftrightarrow>
     (case r of None \<Rightarrow> False
      | Some s \<Rightarrow> slice_ok s \<and> slice_bits s = [c \<noteq> None] \<and> slice_children s = (case c of None \<Rightarrow> [] | Some c \<Rightarrow> [c]))"

definition dict_inv :: "dict \<Rightarrow> nat \<Rightarrow> dict_entry list \<Rightarrow> bool" where
  "dict_inv d n es \<longleftrightarrow>
     dict_is_valid d \<and> d_key_bits d = int n \<and> n \<le> max_key_bits \<and> dict_rep_opt n (d_root_cell d) es
     \<and> (d_flags d AND f_root_cached \<noteq> 0 \<longrightarrow> root_slice (d_root d) (d_root_cell d))"

lemma and_power_iff: "(x :: u32) AND push_bit i 1 \<noteq> 0 \<longleftrightarrow> bit x i"
  by (simp only: bit_iff_and_push_bit_not_eq_0)

lemma flag_powers: "f_valid = push_bit 0 1" "f_root_cached = push_bit 1 1" "f_invalid = push_bit 7 1"
  by (simp_all add: f_valid_def f_root_cached_def f_invalid_def)

lemma flag_bits:
  "(x AND f_valid \<noteq> 0) = bit x 0" "(x AND f_root_cached \<noteq> 0) = bit x 1" "(x AND f_invalid \<noteq> 0) = bit x 7"
  by (simp_all only: flag_powers and_power_iff)

lemma bit_flags:
  "bit f_valid i \<longleftrightarrow> i = 0" "bit f_root_cached i \<longleftrightarrow> i = 1" "bit f_invalid i \<longleftrightarrow> i = 7"
  by (simp_all only: flag_powers bit_push_bit_iff) (auto simp: bit_1_iff possible_bit_def)

lemma flag_updates:
  "bit (x OR f_valid) i \<longleftrightarrow> bit x i \<or> i = 0" "bit (x OR f_root_cached) i \<longleftrightarrow> bit x i \<or> i = 1"
  "bit (x OR f_invalid) i \<longleftrightarrow> bit x i \<or> i = 7" "bit (x AND NOT f_root_cached) i \<longleftrightarrow> bit x i \<and> i \<noteq> 1"
  by (auto simp: bit_or_iff bit_and_iff bit_not_iff bit_flags dest: bit_imp_possible_bit)

lemma dict_is_valid_bit: "dict_is_valid d \<longleftrightarrow> bit (d_flags d) 0"
  by (simp only: dict_is_valid_def flag_bits)

lemma force_validate_valid [simp]: "dict_is_valid d \<Longrightarrow> force_validate d = Inr d"
  by (simp add: force_validate_def)

lemma dict_inv_valid [simp]: "dict_inv d n es \<Longrightarrow> force_validate d = Inr d"
  by (simp add: dict_inv_def)

lemma dict_inv_set_root_cell: "dict_inv d n es \<Longrightarrow> dict_rep_opt n c es' \<Longrightarrow> dict_inv (set_root_cell d c) n es'"
  by (simp add: dict_inv_def dict_is_valid_bit flag_bits set_root_cell_def flag_updates)

text \<open>A dictionary starts out empty, if the length of its keys is allowed.\<close>

theorem new_dict_inv:
  "if 0 \<le> n \<and> n \<le> int max_key_bits then \<exists>d. new_dict n True = Inr d \<and> dict_inv d (nat n) []
   else new_dict n True = Inl (Vm_error Excno_dict_err)"
proof -
  have z: "(0 :: u32) AND f = 0" for f by simp
  have v: "\<not> dict_is_valid \<lparr>d_root = None, d_root_cell = None, d_key_bits = n, d_flags = 0\<rparr>"
    by (simp add: dict_is_valid_bit)
  show ?thesis
    using v by (auto simp: new_dict_def finish_new_def force_validate_def dict_validate_def dict_invalidate_def dict_inv_def
        dict_is_valid_bit flag_bits flag_updates dict_rep_opt_def bit_flags)
qed

section \<open>The operations on the map of a dictionary\<close>

theorem obj_lookup_ok:
  assumes d: "dict_inv d n es" and key: "ptr_ok key n"
  shows "\<exists>r. obj_lookup d key n = Inr (r, d) \<and> value_of r = map_of es (ptr_bits key n) \<and> value_ok r"
proof -
  have i: "d_key_bits d = int n" "dict_rep_opt n (d_root_cell d) es" "n < 2 ^ 31" using d by (simp_all add: dict_inv_def)
  show ?thesis
  proof (cases "d_root_cell d")
    case None
    then show ?thesis using i d
      by (simp add: obj_lookup_def dict_is_empty_def dict_rep_opt_def value_of_def value_ok_def)
  next
    case (Some c)
    then have "dict_rep n c es" using i by (simp add: dict_rep_opt_def)
    from dict_lookup_correct [OF this key i(3)] show ?thesis using i d Some
      by (auto simp: obj_lookup_def dict_is_empty_def)
  qed
qed

definition obj_set_result :: "set_mode \<Rightarrow> nat \<Rightarrow> dict_entry list \<Rightarrow> bool list \<Rightarrow> dict_val \<Rightarrow> bool \<times> dict \<Rightarrow> bool" where
  "obj_set_result mode n es k v r \<longleftrightarrow>
     fst r = (\<not> (mode = Mode_Replace \<and> map_of es k = None \<or> mode = Mode_Add \<and> map_of es k \<noteq> None))
     \<and> (\<exists>es'. dict_inv (snd r) n es' \<and> map_of es' = (if fst r then (map_of es)(k \<mapsto> v) else map_of es))"

context value_store
begin

lemma set_gen_ok:
  assumes d: "dict_inv d n es" and key: "ptr_ok key n" and v: "vok v" and sha: "\<And>x. length (sha256 x) = hash_bytes"
  shows "dict_ok (obj_set_result mode n es (ptr_bits key n) (vbits v, vrefs v)) (set_gen sha256 d key n (put v) mode)"
proof -
  have i: "d_key_bits d = int n" "dict_rep_opt n (d_root_cell d) es" "n < 2 ^ 31" using d by (simp_all add: dict_inv_def)
  let ?k = "ptr_bits key n" and ?v = "(vbits v, vrefs v)"
  have e: "set_gen sha256 d key n (put v) mode =
      bind_err (dict_set sha256 (d_root_cell d) key n (put v) mode) (\<lambda>(c, changed).
         Inr (changed, if changed then set_root_cell d c else d))"
    using d i by (simp add: set_gen_def)
  show ?thesis unfolding e
  proof (rule dict_ok_bind [OF dict_set_ok [OF i(2) key i(3) v sha]])
    fix x assume x: "set_result mode n es ?k ?v x"
    obtain c ch where xe: "x = (c, ch)" by fastforce
    show "dict_ok (obj_set_result mode n es ?k ?v) (case x of (c, changed) \<Rightarrow>
        Inr (changed, if changed then set_root_cell d c else d))"
    proof (cases "mode = Mode_Replace \<and> map_of es ?k = None \<or> mode = Mode_Add \<and> map_of es ?k \<noteq> None")
      case True
      then have "x = (None, False)" using x by (simp add: set_result_def)
      then show ?thesis using True d by (auto simp: obj_set_result_def)
    next
      case False
      then obtain c' es' where c': "x = (Some c', True)" "dict_rep n c' es'" "map_of es' = (map_of es)(?k \<mapsto> ?v)"
        using x xe by (auto simp: set_result_def)
      then have "dict_inv (set_root_cell d (Some c')) n es'"
        using dict_inv_set_root_cell [OF d] by (simp add: dict_rep_opt_def)
      then show ?thesis using False c' by (auto simp: obj_set_result_def)
    qed
  qed
qed

end

definition obj_delete_result :: "nat \<Rightarrow> dict_entry list \<Rightarrow> bool list \<Rightarrow> slice option \<times> dict \<Rightarrow> bool" where
  "obj_delete_result n es k r \<longleftrightarrow>
     value_of (fst r) = map_of es k \<and> value_ok (fst r) \<and> (\<exists>es'. dict_inv (snd r) n es' \<and> map_of es' = (map_of es)(k := None))"

theorem lookup_delete_ok:
  assumes d: "dict_inv d n es" and key: "ptr_ok key n" and sha: "\<And>x. length (sha256 x) = hash_bytes"
  shows "dict_ok (obj_delete_result n es (ptr_bits key n)) (lookup_delete sha256 d key n)"
proof -
  have i: "d_key_bits d = int n" "dict_rep_opt n (d_root_cell d) es" "n \<le> max_key_bits" using d by (simp_all add: dict_inv_def)
  let ?k = "ptr_bits key n"
  have e: "lookup_delete sha256 d key n =
      bind_err (dict_lookup_delete sha256 (d_root_cell d) key n) (\<lambda>(old, c).
         Inr (old, if old \<noteq> None then set_root_cell d c else d))"
    using d i by (simp add: lookup_delete_def)
  show ?thesis unfolding e
  proof (rule dict_ok_bind [OF dict_lookup_delete_ok [OF i(2) key i(3) sha]])
    fix x assume x: "delete_result n es ?k x"
    obtain old c where xe: "x = (old, c)" by fastforce
    note D = x [unfolded delete_result_def xe fst_conv snd_conv]
    show "dict_ok (obj_delete_result n es ?k) (case x of (old, c) \<Rightarrow> Inr (old, if old \<noteq> None then set_root_cell d c else d))"
    proof (cases "map_of es ?k")
      case None
      then have "old = None" using D by (simp add: value_of_def)
      moreover have "map_of es = (map_of es)(?k := None)" using None by (simp add: fun_upd_idem)
      ultimately show ?thesis using d D by (auto simp: xe obj_delete_result_def)
    next
      case (Some v)
      then have "old \<noteq> None" using D by (auto simp: value_of_def)
      moreover obtain es' where "dict_rep_opt n c es'" "map_of es' = (map_of es)(?k := None)" using D Some by auto
      ultimately show ?thesis using D dict_inv_set_root_cell [OF d] by (auto simp: xe obj_delete_result_def)
    qed
  qed
qed

theorem lookup_delete_absent:
  assumes d: "dict_inv d n es" and key: "ptr_ok key n" and none: "map_of es (ptr_bits key n) = None"
  shows "lookup_delete sha256 d key n = Inr (None, d)"
proof -
  have i: "d_key_bits d = int n" "dict_rep_opt n (d_root_cell d) es" "n < 2 ^ 31" using d by (simp_all add: dict_inv_def)
  from dict_lookup_delete_absent [OF i(2) key i(3) none] show ?thesis using d i by (simp add: lookup_delete_def)
qed

end
