(* ===== verification/Dict_Store.thy ===== *)
theory Dict_Store
  imports Dict_Object
begin

text \<open>
  A dictionary in other data: its root as a slice of its own (\<open>DictionaryBase::get_root\<close> and the
  constructor from a root), as a field of a larger structure (\<open>append_dict_to_bool\<close> and the
  constructor that advances a slice), and as a map for its clients.
\<close>

unbundle bit_operations_syntax

section \<open>The root as a slice\<close>

lemma finalized_slice:
  assumes c: "dict_finalize sha256 cb = Inr (c, cb')" and b: "builder_ok cb"
    and sha: "\<And>x. length (sha256 x) = hash_bytes" and refs: "\<forall>r \<in> set (b_refs cb). wf_cell r"
  shows "slice_ok (slice_of_loaded (Some c) virt_none)" and "slice_bits (slice_of_loaded (Some c) virt_none) = builder_out cb"
    and "slice_children (slice_of_loaded (Some c) virt_none) = b_refs cb"
proof -
  have f: "finalize sha256 cb False = Inr c"
    using c by (auto simp: dict_finalize_def finalize_def split: prod.splits sum.splits)
  obtain i d rs hs ds where "c = Data_Cell i d rs hs ds"
    using finalize_ordinary(1) [OF c b sha refs] by (cases c) (auto simp: ordinary_def)
  then have "slice_of_loaded (Some c) virt_none = slice_NoVm c" by (simp add: slice_NoVm_def virt_none_def)
  then show "slice_ok (slice_of_loaded (Some c) virt_none)" "slice_bits (slice_of_loaded (Some c) virt_none) = builder_out cb"
    "slice_children (slice_of_loaded (Some c) virt_none) = b_refs cb"
    using finalize_slice [OF f b sha refs] by simp_all
qed

lemma finalize_root:
  assumes b: "builder_ok cb" "builder_out cb = [co \<noteq> None]" "b_refs cb = (case co of None \<Rightarrow> [] | Some c \<Rightarrow> [c])"
    and sha: "\<And>x. length (sha256 x) = hash_bytes" and co: "\<And>c. co = Some c \<Longrightarrow> wf_cell c"
  shows "dict_ok (\<lambda>(c, cb'). root_slice (Some (slice_of_loaded (Some c) virt_none)) co) (dict_finalize sha256 cb)"
proof (cases "dict_finalize sha256 cb")
  case (Inr p)
  obtain c cb' where p: "p = (c, cb')" by (cases p)
  have "\<forall>r \<in> set (b_refs cb). wf_cell r" using b(3) co by (cases co) auto
  from finalized_slice [OF Inr [unfolded p] b(1) sha this] show ?thesis
    using b by (simp add: Inr p root_slice_def)
qed (auto simp: dict_ok_def dict_finalize_def split: prod.splits sum.splits)

lemma store_long_one: "dict_ok (\<lambda>cb. builder_ok cb \<and> builder_out cb = [b] \<and> b_refs cb = [])
    (build (store_long empty_builder (of_bool b) 1))"
proof -
  have "low_bits 1 (of_bool b :: u64) = [b]" by (cases b) (simp_all add: low_bits_def)
  then have "appends_or_throws empty_builder [b] [] (store_long empty_builder (of_bool b) 1)"
    using store_long_appends [OF builder_ok_empty, of 1 "of_bool b"] by simp
  then show ?thesis using fresh_empty
    by (auto simp: dict_ok_def build_def appends_or_throws_def appends_def fresh_def split: sum.splits)
qed

lemma compute_root_ok:
  assumes d: "dict_inv d n es" and sha: "\<And>x. length (sha256 x) = hash_bytes"
  shows "dict_ok (\<lambda>(ok, d'). ok \<and> root_slice (d_root d') (d_root_cell d) \<and> dict_inv d' n es \<and> d_root_cell d' = d_root_cell d)
     (compute_root sha256 d)"
proof -
  have v: "dict_is_valid d" "\<And>c. d_root_cell d = Some c \<Longrightarrow> wf_cell c"
    using d by (auto simp: dict_inv_def dict_rep_opt_def dest: dict_rep_wf)
  have keep: "dict_inv (d\<lparr>d_root := r, d_flags := d_flags d OR f_root_cached\<rparr>) n es" if "root_slice r (d_root_cell d)" for r
    using d that by (simp add: dict_inv_def dict_is_valid_bit flag_updates)
  show ?thesis
  proof (cases "d_root_cell d")
    case None
    have "dict_ok (\<lambda>s. root_slice (Some s) None) (new_empty_dictionary sha256)"
      unfolding new_empty_dictionary_def
    proof (rule dict_ok_bind [OF store_long_one [of False, unfolded of_bool_eq]])
      fix cb assume cb: "builder_ok cb \<and> builder_out cb = [False] \<and> b_refs cb = []"
      show "dict_ok (\<lambda>s. root_slice (Some s) None)
          (bind_err (dict_finalize sha256 cb) (\<lambda>(c, cb). Inr (slice_of_loaded (Some c) virt_none)))"
        by (rule dict_ok_bind [OF finalize_root [of cb None sha256]]) (use cb sha in auto)
    qed
    then show ?thesis unfolding compute_root_def using v None keep
      by (auto intro!: dict_ok_bind [where Q = "\<lambda>s. root_slice (Some s) None"])
  next
    case (Some c)
    have "dict_ok (\<lambda>cb. builder_ok cb \<and> builder_out cb = [True] \<and> b_refs cb = [c])
        (build (bind_err (store_long empty_builder 1 1) (\<lambda>cb. store_ref cb (Some c))))"
    proof (cases "store_long empty_builder 1 1")
      case (Inr cb)
      then have cb: "builder_ok cb" "builder_out cb = [True]" "b_refs cb = []" using store_long_one [of True] by simp_all
      then show ?thesis using store_ref_ok [OF cb(1), of c] Inr
        by (auto simp: dict_ok_def build_def appends_or_throws_def appends_def split: sum.splits)
    qed (simp add: dict_ok_def)
    then show ?thesis unfolding compute_root_def using v Some
    proof (simp, elim dict_ok_bind)
      fix cb assume cb: "builder_ok cb \<and> builder_out cb = [True] \<and> b_refs cb = [c]"
      show "dict_ok (\<lambda>(ok, d'). ok \<and> root_slice (d_root d') (Some c) \<and> dict_inv d' n es \<and> d_root_cell d' = Some c)
         (bind_err (dict_finalize sha256 cb)
           (\<lambda>(c, cb). Inr (True, d\<lparr>d_root := Some (slice_of_loaded (Some c) virt_none), d_flags := d_flags d OR f_root_cached\<rparr>)))"
        by (rule dict_ok_bind [OF finalize_root [of cb "Some c" sha256]]) (use cb sha v keep Some in auto)
    qed
  qed
qed

theorem get_root_ok:
  assumes d: "dict_inv d n es" and sha: "\<And>x. length (sha256 x) = hash_bytes"
  shows "dict_ok (\<lambda>(r, d'). root_slice r (d_root_cell d) \<and> dict_inv d' n es \<and> d_root_cell d' = d_root_cell d) (get_root sha256 d)"
proof (cases "d_flags d AND f_root_cached = 0")
  case True
  then show ?thesis unfolding get_root_def if_P [OF True]
    by (intro dict_ok_bind [OF compute_root_ok [OF d sha]]) auto
next
  case False
  then show ?thesis using d by (simp add: get_root_def dict_inv_def)
qed

lemma root_slice_prefetch:
  assumes r: "root_slice (Some r) co"
  shows "slice_size r = 1" and "fst (prefetch_ulong r 1) = of_bool (co \<noteq> None)" and "root_slice (Some (snd (prefetch_ulong r 1))) co"
    and "slice_size_refs (snd (prefetch_ulong r 1)) = of_bool (co \<noteq> None)"
    and "prefetch_ref (snd (prefetch_ulong r 1)) 0 = co"
proof -
  have ok: "slice_ok r" "slice_bits r = [co \<noteq> None]" "slice_children r = (case co of None \<Rightarrow> [] | Some c \<Rightarrow> [c])"
    using r by (simp_all add: root_slice_def)
  show size: "slice_size r = 1" using slice_size_bits [OF ok(1)] ok(2) by simp
  have le: "1 \<le> slice_size r" using size by simp
  note P = prefetch_ulong_correct [OF ok(1) le]
  show "fst (prefetch_ulong r 1) = of_bool (co \<noteq> None)" using P(1) ok(2) by (simp add: word_of_bits_one)
  have p: "slice_ok (snd (prefetch_ulong r 1))" "slice_children (snd (prefetch_ulong r 1)) = slice_children r"
    using reads_ok reads_children P(2) by fastforce+
  show "root_slice (Some (snd (prefetch_ulong r 1))) co"
    using P(2) p ok by (simp add: root_slice_def reads_def)
  have len: "slice_size_refs (snd (prefetch_ulong r 1)) = length (slice_children r)"
    using length_slice_children [OF p(1)] p(2) by simp
  then show "slice_size_refs (snd (prefetch_ulong r 1)) = of_bool (co \<noteq> None)" using ok(3) by (cases co) simp_all
  show "prefetch_ref (snd (prefetch_ulong r 1)) 0 = co"
    using prefetch_ref_eq [OF p(1), of 0] len p(2) ok(3) by (cases co) simp_all
qed

theorem new_dict_ref_ok:
  assumes r: "root_slice r co" and n: "n \<le> max_key_bits" and es: "dict_rep_opt n co es"
  shows "\<exists>d. new_dict_ref r (int n) True = Inr d \<and> dict_inv d n es \<and> d_root_cell d = co"
proof -
  obtain s where s: "r = Some s" using r by (cases r) (simp_all add: root_slice_def)
  note P = root_slice_prefetch [OF r [unfolded s]]
  have f: "\<not> bit f_root_cached 0" "bit f_root_cached 1" "\<not> bit f_root_cached 7" by (simp_all add: bit_flags)
  have f0: "f_root_cached \<noteq> 0" by (simp add: f_root_cached_def)
  define d where "d = \<lparr>d_root = Some (snd (prefetch_ulong s 1)), d_root_cell = co, d_key_bits = int n,
      d_flags = f_root_cached OR f_valid\<rparr>"
  have e: "new_dict_ref r (int n) True = Inr d"
    using n f f0 P by (cases co) (simp_all add: new_dict_ref_def finish_new_def force_validate_def dict_validate_def
        dict_is_valid_bit flag_bits s d_def case_prod_beta Let_def)
  have "dict_inv d n es"
    using P(3) n es by (simp add: d_def dict_inv_def dict_is_valid_bit flag_updates flag_bits)
  then show ?thesis using e by (auto simp: d_def)
qed

section \<open>The root as a field\<close>

text \<open>A dictionary stored in a builder is read back, with what follows it left in the slice.\<close>

lemma append_dict_ok:
  assumes d: "dict_inv d n es" and b: "builder_ok cb" "1 \<le> remaining_bits cb" "1 \<le> remaining_refs cb"
  shows "appends cb [d_root_cell d \<noteq> None] (case d_root_cell d of None \<Rightarrow> [] | Some c \<Rightarrow> [c]) (append_dict_to_bool d cb)"
  using d store_maybe_ref_appends [OF b, of "d_root_cell d"] by (simp add: append_dict_to_bool_def dict_inv_def)

theorem new_dict_advance_ok:
  assumes s: "slice_ok s" "slice_bits s = (co \<noteq> None) # xs" "slice_children s = (case co of None \<Rightarrow> [] | Some c \<Rightarrow> [c]) @ cs"
    and n: "n \<le> max_key_bits" and es: "dict_rep_opt n co es"
  shows "\<exists>d s'. new_dict_advance s (int n) True = Inr (d, s') \<and> dict_inv d n es \<and> d_root_cell d = co
     \<and> slice_ok s' \<and> slice_bits s' = xs \<and> slice_children s' = cs"
proof -
  have le: "1 \<le> slice_size s" using slice_size_bits [OF s(1)] s(2) by simp
  note P = prefetch_ulong_correct [OF s(1) le]
  define s1 where "s1 = snd (prefetch_ulong s 1)"
  have p: "prefetch_ulong s 1 = (of_bool (co \<noteq> None), s1)"
    using P(1) s(2) by (simp add: s1_def word_of_bits_one prod_eq_iff)
  have r1: "reads s 0 0 s1" using P(2) by (simp add: s1_def)
  have s1: "slice_ok s1" "slice_children s1 = slice_children s" "slice_size s1 = slice_size s"
    "slice_size_refs s1 = length (slice_children s)"
    using reads_ok [OF r1] reads_children [OF r1] reads_size [OF r1 s(1)] s(1) by simp_all
  have le1: "1 \<le> slice_size s1" using le s1(3) by simp
  define s2 where "s2 = snd (slice_advance s1 1)"
  have r2: "reads s 1 0 s2" using reads_trans [OF r1 slice_advance_reads(2) [OF s1(1) le1]] by (simp add: s2_def)
  have s2: "slice_ok s2" "slice_bits s2 = xs" "slice_children s2 = slice_children s"
    using reads_ok [OF r2] reads_children [OF r2] r2 s(2) by (simp_all add: reads_def)
  have f: "int32_of 0 = 0" "int32_of 1 = 1" by (simp_all add: int32_of_def)
  have fin: "finish_new True \<lparr>d_root = None, d_root_cell = co, d_key_bits = int n, d_flags = 0\<rparr>
      = Inr \<lparr>d_root = None, d_root_cell = co, d_key_bits = int n, d_flags = f_valid\<rparr>"
    using n by (simp add: finish_new_def force_validate_def dict_validate_def dict_is_valid_bit)
  have inv: "dict_inv \<lparr>d_root = None, d_root_cell = co, d_key_bits = int n, d_flags = f_valid\<rparr> n es"
    using n es by (simp add: dict_inv_def dict_is_valid_bit flag_bits bit_flags)
  show ?thesis
  proof (cases co)
    case None
    have "new_dict_advance s (int n) True = Inr (\<lparr>d_root = None, d_root_cell = co, d_key_bits = int n, d_flags = f_valid\<rparr>, s2)"
      using None fin by (simp add: new_dict_advance_def Let_def p [unfolded One_nat_def] f s2_def [unfolded One_nat_def])
    then show ?thesis using inv s2 s(3) None by simp
  next
    case (Some c)
    obtain s3 where s3: "fetch_ref s2 = (Some c, s3)" "slice_children s3 = cs" "reads s2 0 1 s3"
      using fetch_ref_eq [OF s2(1)] s2(3) s(3) Some by (cases "fetch_ref s2") (auto split: option.splits)
    have "new_dict_advance s (int n) True = Inr (\<lparr>d_root = None, d_root_cell = co, d_key_bits = int n, d_flags = f_valid\<rparr>, s3)"
      using Some fin s1(4) s(3) s3(1) by (simp add: new_dict_advance_def Let_def p [unfolded One_nat_def] f s2_def [unfolded One_nat_def, symmetric])
    then show ?thesis using inv s3 s2(2) reads_ok [OF s3(3)] by (simp add: reads_def)
  qed
qed

section \<open>A dictionary as a map\<close>

text \<open>What a client relies on: a store that stands for a map, with one operation that sets a key, one
  that removes it and one that reads it. Setting and removing may run out of room; reading does not
  fail.\<close>

datatype ('p, 'v) change = Put 'p 'v | Drop 'p

fun run_changes ::
  "('p \<Rightarrow> 'v \<Rightarrow> 'd \<Rightarrow> dict_error + 'd) \<Rightarrow> ('p \<Rightarrow> 'd \<Rightarrow> dict_error + 'd) \<Rightarrow> ('p, 'v) change list \<Rightarrow> 'd \<Rightarrow> dict_error + 'd" where
  "run_changes put del [] d = Inr d"
| "run_changes put del (Put p v # cs) d = bind_err (put p v d) (run_changes put del cs)"
| "run_changes put del (Drop p # cs) d = bind_err (del p d) (run_changes put del cs)"

fun effect :: "('p \<Rightarrow> 'k) \<Rightarrow> ('v \<Rightarrow> 'w) \<Rightarrow> ('p, 'v) change list \<Rightarrow> ('k \<rightharpoonup> 'w) \<Rightarrow> ('k \<rightharpoonup> 'w)" where
  "effect kof vof [] m = m"
| "effect kof vof (Put p v # cs) m = effect kof vof cs (m(kof p \<mapsto> vof v))"
| "effect kof vof (Drop p # cs) m = effect kof vof cs (m(kof p := None))"

fun change_ok :: "('p \<Rightarrow> bool) \<Rightarrow> ('v \<Rightarrow> bool) \<Rightarrow> ('p, 'v) change \<Rightarrow> bool" where
  "change_ok kok vok (Put p v) = (kok p \<and> vok v)"
| "change_ok kok vok (Drop p) = kok p"

locale map_store =
  fixes rep :: "'d \<Rightarrow> ('k \<rightharpoonup> 'w) \<Rightarrow> bool"
    and kok :: "'p \<Rightarrow> bool" and kof :: "'p \<Rightarrow> 'k"
    and vok :: "'v \<Rightarrow> bool" and vof :: "'v \<Rightarrow> 'w"
    and put :: "'p \<Rightarrow> 'v \<Rightarrow> 'd \<Rightarrow> dict_error + 'd"
    and del :: "'p \<Rightarrow> 'd \<Rightarrow> dict_error + 'd"
    and get :: "'p \<Rightarrow> 'd \<Rightarrow> dict_error + 'w option"
  assumes put_ok: "\<lbrakk>rep d m; kok p; vok v\<rbrakk> \<Longrightarrow> dict_ok (\<lambda>d'. rep d' (m(kof p \<mapsto> vof v))) (put p v d)"
    and del_ok: "\<lbrakk>rep d m; kok p\<rbrakk> \<Longrightarrow> dict_ok (\<lambda>d'. rep d' (m(kof p := None))) (del p d)"
    and get_ok: "\<lbrakk>rep d m; kok p\<rbrakk> \<Longrightarrow> get p d = Inr (m (kof p))"
begin

lemma run_changes_ok:
  "rep d m \<Longrightarrow> \<forall>c \<in> set cs. change_ok kok vok c \<Longrightarrow> dict_ok (\<lambda>d'. rep d' (effect kof vof cs m)) (run_changes put del cs d)"
proof (induction cs arbitrary: d m)
  case (Cons c cs)
  show ?case
  proof (cases c)
    case (Put p v)
    then have "kok p" "vok v" using Cons.prems(2) by simp_all
    from put_ok [OF Cons.prems(1) this] show ?thesis unfolding Put run_changes.simps effect.simps
      by (rule dict_ok_bind) (erule Cons.IH, use Cons.prems(2) in simp)
  next
    case (Drop p)
    then have "kok p" using Cons.prems(2) by simp
    from del_ok [OF Cons.prems(1) this] show ?thesis unfolding Drop run_changes.simps effect.simps
      by (rule dict_ok_bind) (erule Cons.IH, use Cons.prems(2) in simp)
  qed
qed simp

lemma read_after_changes:
  assumes "rep d m" and "\<forall>c \<in> set cs. change_ok kok vok c" and "kok p"
  shows "dict_ok (\<lambda>d'. get p d' = Inr (effect kof vof cs m (kof p))) (run_changes put del cs d)"
  by (rule dict_ok_mono [OF run_changes_ok [OF assms(1,2)]]) (rule get_ok [OF _ assms(3)])

end

text \<open>The dictionary is such a store, with slices as values.\<close>

definition put_slice :: "(byte list \<Rightarrow> byte list) \<Rightarrow> nat \<Rightarrow> bit_ptr \<Rightarrow> slice \<Rightarrow> dict \<Rightarrow> dict_error + dict" where
  "put_slice sha256 n p s d = bind_err (obj_set sha256 d p n s Mode_Set) (\<lambda>(ok, d). Inr d)"

definition drop_key :: "(byte list \<Rightarrow> byte list) \<Rightarrow> nat \<Rightarrow> bit_ptr \<Rightarrow> dict \<Rightarrow> dict_error + dict" where
  "drop_key sha256 n p d = bind_err (lookup_delete sha256 d p n) (\<lambda>(old, d). Inr d)"

definition read_key :: "nat \<Rightarrow> bit_ptr \<Rightarrow> dict \<Rightarrow> dict_error + dict_val option" where
  "read_key n p d = bind_err (obj_lookup d p n) (\<lambda>(r, d). Inr (value_of r))"

definition dict_store :: "(byte list \<Rightarrow> byte list) \<Rightarrow> nat \<Rightarrow> dict \<Rightarrow> (bool list \<rightharpoonup> dict_val) \<Rightarrow> bool" where
  "dict_store sha256 n d m \<longleftrightarrow> (\<forall>x. length (sha256 x) = hash_bytes) \<and> (\<exists>es. dict_inv d n es \<and> m = map_of es)"

definition slice_value_ok :: "slice \<Rightarrow> bool" where
  "slice_value_ok s \<longleftrightarrow> slice_ok s \<and> (\<forall>r \<in> set (slice_children s). wf_cell r)"

definition slice_value :: "slice \<Rightarrow> dict_val" where
  "slice_value s = (slice_bits s, slice_children s)"

lemma put_slice_ok:
  assumes "dict_store sha256 n d m" and "ptr_ok p n" and "slice_value_ok s"
  shows "dict_ok (\<lambda>d'. dict_store sha256 n d' (m(ptr_bits p n \<mapsto> slice_value s))) (put_slice sha256 n p s d)"
proof -
  obtain es where sha: "\<And>x. length (sha256 x) = hash_bytes" and d: "dict_inv d n es" "m = map_of es"
    using assms(1) by (auto simp: dict_store_def)
  have "dict_ok (obj_set_result Mode_Set n es (ptr_bits p n) (slice_value s)) (obj_set sha256 d p n s Mode_Set)"
    using slices.set_gen_ok [OF d(1) assms(2) assms(3) [unfolded slice_value_ok_def] sha]
    by (simp add: obj_set_def slice_value_def)
  then show ?thesis unfolding put_slice_def
    by (rule dict_ok_bind) (use sha d in \<open>auto simp: obj_set_result_def dict_store_def\<close>, metis)
qed

lemma drop_key_ok:
  assumes "dict_store sha256 n d m" and "ptr_ok p n"
  shows "dict_ok (\<lambda>d'. dict_store sha256 n d' (m(ptr_bits p n := None))) (drop_key sha256 n p d)"
proof -
  obtain es where sha: "\<And>x. length (sha256 x) = hash_bytes" and d: "dict_inv d n es" "m = map_of es"
    using assms(1) by (auto simp: dict_store_def)
  show ?thesis unfolding drop_key_def
    by (rule dict_ok_bind [OF lookup_delete_ok [OF d(1) assms(2) sha]])
      (use sha d in \<open>auto simp: obj_delete_result_def dict_store_def\<close>, metis)
qed

lemma read_key_ok: "dict_store sha256 n d m \<Longrightarrow> ptr_ok p n \<Longrightarrow> read_key n p d = Inr (m (ptr_bits p n))"
  by (auto simp: dict_store_def read_key_def dest!: obj_lookup_ok)

interpretation dict_map_store: map_store "dict_store sha256 n" "\<lambda>p. ptr_ok p n" "\<lambda>p. ptr_bits p n" slice_value_ok slice_value
    "put_slice sha256 n" "drop_key sha256 n" "read_key n"
  by unfold_locales (rule put_slice_ok drop_key_ok read_key_ok; assumption)+

end
