(* ===== verification/Dict_Access.thy ===== *)
theory Dict_Access
  imports Dict_Store
begin

text \<open>
  What the methods of a dictionary object find and change, for its map: the smallest and the greatest
  key, the nearest key, with keys read as numbers, rewriting of all values, and prefixes.
\<close>

unbundle bit_operations_syntax

section \<open>Labels\<close>

text \<open>A label that has been written is what is parsed from the cell.\<close>

theorem label_survives:
  assumes w: "append_dict_label empty_builder p len n = Inr cb" and p: "ptr_ok p len" and len: "len \<le> n" "n < 2 ^ 31"
    and c: "dict_finalize sha256 cb = Inr (c, cb')" and sha: "\<And>x. length (sha256 x) = hash_bytes"
  shows "\<exists>lab. label_of_cell (Some c) n 1 = Inr lab \<and> label_view lab (ptr_bits p len) [] []"
proof -
  have e: "builder_out empty_builder = []" "b_refs empty_builder = []" using fresh_empty by (simp_all add: fresh_def)
  have b: "builder_ok cb" "builder_out cb = label_code n (ptr_bits p len)" "b_refs cb = []"
    using append_dict_label_writes [OF builder_ok_empty p len] w e by (auto simp: written_def split: if_splits)
  have refs: "\<forall>r \<in> set (b_refs cb). wf_cell r" by (simp add: b(3))
  note F = finalize_ordinary [OF c b(1) sha refs]
  have "length (ptr_bits p len) \<le> n" using p len by simp
  from parse_label_code [OF this len(2), of "[]"]
  have "parse_bits n (cell_bits c) = Some (ptr_bits p len, [])" using F(2) b(2) by simp
  from label_of_ordinary [OF F(1) len(2) this, of 1] show ?thesis using F(3) b(3) by (simp add: bad_fork_def)
qed

section \<open>The order of the keys\<close>

text \<open>A key as a number, unsigned or in two's complement.\<close>

definition key_num :: "bool \<Rightarrow> bool list \<Rightarrow> int" where
  "key_num sgnd k = int (nat_of_bits k) - (if sgnd \<and> k \<noteq> [] \<and> hd k then 2 ^ length k else 0)"

lemma order_mode_cases:
  "order_mode False False = 0" "order_mode False True = 1" "order_mode True invert = NOT (order_mode False invert)"
  by (cases invert; simp add: order_mode_def)+

lemma mode_ok_order [simp]: "mode_ok (order_mode last_first invert_first)"
  by (cases last_first; cases invert_first) (simp_all add: order_mode_cases mode_ok_cases)

lemma lex_le_nat: "length a = length b \<Longrightarrow> lex_cmp a b \<noteq> 1 \<longleftrightarrow> nat_of_bits a \<le> nat_of_bits b"
  using nat_of_bits_lex [of b a] lex_cmp_flip [of a b] by fastforce

lemma oriented_unsigned [simp]: "oriented 0 k = k"
  by (simp add: oriented_def split: list.split)

lemma oriented_signed: "oriented 1 k = (case k of [] \<Rightarrow> [] | b # bs \<Rightarrow> (\<not> b) # bs)"
  by (simp add: oriented_def split: list.split)

lemma key_le_forward:
  assumes "length a = length b"
  shows "key_le (order_mode False sgnd) a b \<longleftrightarrow> key_num sgnd a \<le> key_num sgnd b"
proof (cases sgnd)
  case False
  then show ?thesis using assms by (simp add: order_mode_cases key_le_def lex_le_nat key_num_def)
next
  case True
  show ?thesis
  proof (cases a)
    case Nil
    then show ?thesis using assms True by (simp add: key_num_def)
  next
    case (Cons x xs)
    then obtain y ys where b: "b = y # ys" "length xs = length ys" using assms by (cases b) auto
    have pos: "key_num True (z # zs) = int (nat_of_bits ((\<not> z) # zs)) - 2 ^ length zs" for z zs
      by (simp add: key_num_def nat_of_bits_Cons)
    have "key_le 1 (x # xs) (y # ys) \<longleftrightarrow> nat_of_bits ((\<not> x) # xs) \<le> nat_of_bits ((\<not> y) # ys)"
      unfolding key_le_def oriented_signed list.case by (rule lex_le_nat) (simp add: b(2))
    then show ?thesis using True b(2) by (simp add: Cons b(1) order_mode_cases pos)
  qed
qed

theorem key_le_order:
  "length a = length b \<Longrightarrow>
     key_le (order_mode last_first sgnd) a b \<longleftrightarrow>
       (if last_first then key_num sgnd b \<le> key_num sgnd a else key_num sgnd a \<le> key_num sgnd b)"
  by (cases last_first) (simp_all add: order_mode_cases(3) key_le_not key_le_forward)

lemma key_less_iff: "key_less mode a b \<longleftrightarrow> \<not> key_le mode b a"
  using lex_cmp_flip [of "oriented mode a" "oriented mode b"] by (simp add: key_less_def key_le_def)

section \<open>The smallest, the greatest and the nearest key\<close>

lemma dict_inv_parts:
  assumes "dict_inv d n es"
  shows "dict_is_valid d" "d_key_bits d = int n" "n \<le> max_key_bits" "n < 2 ^ 31" "dict_rep_opt n (d_root_cell d) es"
  using assms by (simp_all add: dict_inv_def)

lemma dict_inv_lengths: "dict_inv d n es \<Longrightarrow> k \<in> fst ` set es \<Longrightarrow> length k = n"
  using dict_rep_lengths(1) by (auto simp: dict_inv_def dict_rep_opt_def split: option.splits)

definition extreme :: "bool \<Rightarrow> bool \<Rightarrow> dict_entry list \<Rightarrow> bool list \<Rightarrow> bool" where
  "extreme greatest sgnd es k \<longleftrightarrow>
     (\<forall>k' \<in> fst ` set es. if greatest then key_num sgnd k' \<le> key_num sgnd k else key_num sgnd k \<le> key_num sgnd k')"

theorem get_minmax_key_ok:
  assumes d: "dict_inv d n es" and key: "ptr_ok key n"
  shows "if es = [] then get_minmax_key d key n greatest sgnd = Inr ((None, fst key), d)
    else \<exists>r k. get_minmax_key d key n greatest sgnd = Inr (r, d) \<and> found key es k r \<and> extreme greatest sgnd es k"
proof -
  note D = dict_inv_parts [OF d]
  have e: "get_minmax_key d key n greatest sgnd =
      bind_err (dict_lookup_minmax (d_root_cell d) key n (order_mode greatest sgnd)) (\<lambda>r. Inr (r, d))"
    using d D(2) by (simp add: get_minmax_key_def)
  show ?thesis
  proof (cases "d_root_cell d")
    case None
    then have "es = []" using D(5) by (simp add: dict_rep_opt_def)
    then show ?thesis by (simp add: e None dict_lookup_minmax_def)
  next
    case (Some c)
    then have c: "dict_rep n c es" using D(5) by (simp add: dict_rep_opt_def)
    obtain r k where r: "minmax_loop (Some c) key n (order_mode greatest sgnd) = Inr r" "found key es k r"
      "least_key (order_mode greatest sgnd) es k"
      using minmax_loop_ok [OF c key D(4) mode_ok_order] by blast
    have k: "length k = n" using dict_inv_lengths [OF d found_key [OF r(2)]] .
    have "extreme greatest sgnd es k"
      using r(3) dict_inv_lengths [OF d] k unfolding extreme_def least_key_def by (simp add: key_le_order)
    then show ?thesis using r dict_rep_not_empty(1) [OF c] by (auto simp: e Some dict_lookup_minmax_def)
  qed
qed

text \<open>The keys after \<open>k\<close>, or before it, and the nearest of them.\<close>

definition beyond :: "bool \<Rightarrow> bool \<Rightarrow> bool \<Rightarrow> bool list \<Rightarrow> bool list \<Rightarrow> bool" where
  "beyond after allow_eq sgnd k k' \<longleftrightarrow>
     (if after then key_num sgnd k < key_num sgnd k' else key_num sgnd k' < key_num sgnd k) \<or> allow_eq \<and> k' = k"

theorem lookup_nearest_key_ok:
  assumes d: "dict_inv d n es" and key: "ptr_ok key n"
  defines "k \<equiv> ptr_bits key n"
  shows "\<exists>r. lookup_nearest_key d key n after allow_eq sgnd = Inr (r, d)
    \<and> (if \<exists>k' \<in> fst ` set es. beyond after allow_eq sgnd k k'
       then \<exists>k0. found key es k0 r \<and> beyond after allow_eq sgnd k k0
         \<and> (\<forall>k' \<in> fst ` set es. beyond after allow_eq sgnd k k' \<longrightarrow>
              (if after then key_num sgnd k0 \<le> key_num sgnd k' else key_num sgnd k' \<le> key_num sgnd k0))
       else r = (None, fst key))"
proof -
  note D = dict_inv_parts [OF d]
  have lk: "length k = n" using key by (simp add: k_def)
  have b: "below (order_mode after sgnd) allow_eq k k' \<longleftrightarrow> beyond after allow_eq sgnd k k'" if "length k' = n" for k'
    using that lk by (auto simp: below_def beyond_def key_less_iff key_le_order)
  obtain r where r: "dict_lookup_nearest (d_root_cell d) key n allow_eq (order_mode after sgnd) = Inr r"
    "nearest key es (order_mode after sgnd) allow_eq k r"
    using dict_lookup_nearest_ok [OF D(5) key D(4) mode_ok_order] unfolding k_def by blast
  have e: "lookup_nearest_key d key n after allow_eq sgnd = Inr (r, d)"
    using d D(2) r(1) by (simp add: lookup_nearest_key_def)
  have any: "(\<exists>k' \<in> fst ` set es. below (order_mode after sgnd) allow_eq k k')
      = (\<exists>k' \<in> fst ` set es. beyond after allow_eq sgnd k k')"
    using b dict_inv_lengths [OF d] by (intro bex_cong) auto
  show ?thesis
  proof (cases "\<exists>k' \<in> fst ` set es. beyond after allow_eq sgnd k k'")
    case True
    then obtain k0 where k0: "found key es k0 r" "below (order_mode after sgnd) allow_eq k k0"
      "\<forall>k' \<in> fst ` set es. below (order_mode after sgnd) allow_eq k k' \<longrightarrow> key_le (order_mode after sgnd) k' k0"
      using r(2) any unfolding nearest_def by auto
    have l0: "length k0 = n" using dict_inv_lengths [OF d found_key [OF k0(1)]] .
    have "if after then key_num sgnd k0 \<le> key_num sgnd k' else key_num sgnd k' \<le> key_num sgnd k0"
      if k': "k' \<in> fst ` set es" "beyond after allow_eq sgnd k k'" for k'
      using k0(3) k' b [of k'] dict_inv_lengths [OF d k'(1)] l0 by (auto simp: key_le_order)
    moreover have "beyond after allow_eq sgnd k k0" using k0(2) b [OF l0] by simp
    ultimately show ?thesis unfolding if_P [OF True] using e k0(1) by blast
  next
    case False
    then show ?thesis using e r(2) any unfolding nearest_def by simp
  qed
qed

section \<open>Rewriting all values\<close>

theorem obj_map_ok:
  assumes d: "dict_inv d n es" and f: "map_function mf n keeps drops" and sha: "\<And>x. length (sha256 x) = hash_bytes"
  shows "dict_ok (\<lambda>d'. \<exists>es'. dict_inv d' n es' \<and> mapped keeps drops [] es es') (obj_map sha256 d mf)"
proof -
  note D = dict_inv_parts [OF d]
  have e: "obj_map sha256 d mf =
      bind_err (dict_map sha256 (d_root_cell d) (replicate max_key_bytes 0, length ([] :: bool list)) n n mf)
        (\<lambda>(c, buf). Inr (set_root_cell d c))"
    using d D(2) by (simp add: obj_map_def)
  have sz: "n \<le> 8 * length (replicate max_key_bytes 0 :: byte list)" using D(3) by simp
  show ?thesis unfolding e
    by (rule dict_ok_bind [OF map_function.dict_map_ok [OF f D(5) holds_nil _ _ _ D(4) sha]])
      (use sz dict_inv_set_root_cell [OF d] in \<open>auto simp: map_result_def, blast\<close>)
qed

end
