(* ===== verification/Dict_Filter.thy ===== *)
theory Dict_Filter
  imports Dict_Map Dict_Object
begin

text \<open>
  Removing the entries that a function refuses, \<open>dict_filter\<close> of \<open>crypto/vm/dict.cpp\<close>. The function says
  for every leaf whether it stays; a result of \<open>2^30\<close> or more decides for all of the remaining leaves
  as well, and a negative result stops with an error. Subtrees that do not change are kept as they are.
\<close>

unbundle bit_operations_syntax

section \<open>Operation\<close>

text \<open>\<open>filter_func_t\<close>: the value, the whole key and its length.\<close>

type_synonym filter_func = "slice \<Rightarrow> bit_ptr \<Rightarrow> nat \<Rightarrow> int"

text \<open>What becomes of a fork: it disappears, is replaced by the child that is left, or gets new
  children. The buffer ends with the bit of the right child.\<close>

definition filter_fork ::
  "(byte list \<Rightarrow> byte list) \<Rightarrow> byte list \<Rightarrow> nat \<Rightarrow> nat \<Rightarrow> nat \<Rightarrow> cell option \<Rightarrow> cell option \<Rightarrow> dict_error + cell option \<times> byte list" where
  "filter_fork sha256 buf offs l n left right =
     (if left = None \<and> right = None then Inr (None, buf)
      else if left \<noteq> None \<and> right \<noteq> None then
        bind_err (append_dict_label empty_builder (buf, offs) l n) (\<lambda>cb.
        bind_err (finish_create_fork sha256 cb left right) (\<lambda>c. Inr (Some c, buf)))
      else
        let (left, buf) = (if left = None then (right, buf) else (left, ptr_set_bit (buf, offs + l) 0 False))
        in bind_err (join_edge sha256 buf offs (l + 1) left n chk_all) (\<lambda>(c, buf). Inr (Some c, buf)))"

function dict_filter ::
  "(byte list \<Rightarrow> byte list) \<Rightarrow> cell option \<Rightarrow> bit_ptr \<Rightarrow> nat \<Rightarrow> filter_func \<Rightarrow> nat \<Rightarrow> int
     \<Rightarrow> dict_error + (cell option \<times> int) \<times> byte list \<times> int" where
  "dict_filter sha256 dict key n check_leaf key_bits skip_rest =
     (if dict = None then Inr ((None, 0), fst key, skip_rest)
      else if skip_rest \<ge> 0 then Inr ((None, skip_rest), fst key, skip_rest)
      else
        bind_err (label_of_cell dict n chk_all) (\<lambda>lab.
          let l = l_bits lab; (buf, lab1) = extract_label_to lab key
          in if l = n then
               let res = check_leaf (l_remainder lab1) (buf, snd key + l - key_bits) key_bits;
                   (res, skip_rest) =
                     (if res \<ge> 2 ^ 30 then let res = res AND (2 ^ 30 - 1) in (res, if res \<noteq> 0 then 0 else 2 ^ 30)
                      else (res, skip_rest))
               in Inr ((None, if res < 0 then res else of_bool (res = 0)), buf, skip_rest)
             else
               let offs = snd key + l + 1; c1 = prefetch_ref (l_remainder lab1) 0; c2 = prefetch_ref (l_remainder lab1) 1;
                   buf1 = ptr_set_bit (buf, snd key + l) 0 False
               in bind_err (dict_filter sha256 c1 (buf1, offs) (n - l - 1) check_leaf key_bits skip_rest)
                    (\<lambda>((left, left_res), buf2, skip_rest).
                    if left_res < 0 then Inr ((left, left_res), buf2, skip_rest)
                    else
                      let buf3 = ptr_set_bit (buf2, snd key + l) 0 True
                      in bind_err (dict_filter sha256 c2 (buf3, offs) (n - l - 1) check_leaf key_bits skip_rest)
                        (\<lambda>((right, right_res), buf4, skip_rest).
                        if left_res OR right_res \<le> 0 then Inr ((right, right_res), buf4, skip_rest)
                        else
                          let left = (if left_res \<noteq> 0 then left else c1); right = (if right_res \<noteq> 0 then right else c2);
                              changes = (if (left_res OR right_res) AND 2 ^ 30 \<noteq> 0 then 2 ^ 30 else left_res + right_res)
                          in bind_err (filter_fork sha256 buf4 (snd key) l n left right)
                               (\<lambda>(c, buf). Inr ((c, changes), buf, skip_rest))))))"
  by pat_completeness auto
termination
  by (relation "measure (\<lambda>(sha256, dict, key, n, f, kb, s). n)") (auto intro: label_leaves_less)

declare dict_filter.simps [simp del]

definition obj_filter :: "(byte list \<Rightarrow> byte list) \<Rightarrow> dict \<Rightarrow> filter_func \<Rightarrow> dict_error + int \<times> dict" where
  "obj_filter sha256 d check_leaf =
     bind_err (force_validate d) (\<lambda>d.
       let n = nat (d_key_bits d)
       in bind_err (dict_filter sha256 (d_root_cell d) (replicate max_key_bytes 0, 0) n check_leaf n (- 1))
            (\<lambda>((c, changes), buf, skip_rest). Inr (changes, if changes > 0 then set_root_cell d c else d)))"

section \<open>Filtering a list of entries\<close>

text \<open>The error, if there is one; the entries that stay; whether entries have been dropped unseen; the
  decision for the rest.\<close>

fun filter_run :: "(bool list \<Rightarrow> dict_val \<Rightarrow> int) \<Rightarrow> int \<Rightarrow> dict_entry list \<Rightarrow> int option \<times> dict_entry list \<times> bool \<times> int" where
  "filter_run f skip [] = (None, [], False, skip)"
| "filter_run f skip ((k, v) # es) =
     (if skip \<ge> 0 then (None, if skip = 0 then (k, v) # es else [], skip \<noteq> 0, skip)
      else
        let r = f k v
        in if r < 0 then (Some r, [], False, skip)
           else
             let last = r \<ge> 2 ^ 30; keep = (if last then r mod 2 ^ 30 \<noteq> 0 else r \<noteq> 0);
                 (e, es', unseen, skip') = filter_run f (if last then if keep then 0 else 2 ^ 30 else skip) es
             in (e, if keep then (k, v) # es' else es', unseen, skip'))"

lemma filter_run_skip: "skip \<ge> 0 \<Longrightarrow> filter_run f skip es = (None, if skip = 0 then es else [], skip \<noteq> 0 \<and> es \<noteq> [], skip)"
  by (cases es rule: list.exhaust; cases "hd es") auto

lemma filter_run_pre:
  "filter_run f skip (pre p es) = (case filter_run (\<lambda>k. f (p @ k)) skip es of (e, es', i, s) \<Rightarrow> (e, pre p es', i, s))"
proof (induction es arbitrary: skip)
  case (Cons x es)
  obtain k v where x: "x = (k, v)" by (cases x)
  show ?case using Cons.IH by (auto simp: x Let_def split: prod.splits)
qed simp

lemma filter_run_append:
  "filter_run f skip (xs @ ys) =
     (case filter_run f skip xs of
        (Some e, xs', i, s) \<Rightarrow> (Some e, xs', i, s)
      | (None, xs', i, s) \<Rightarrow> (case filter_run f s ys of (e, ys', j, s') \<Rightarrow> (e, xs' @ ys', i \<or> j, s')))"
proof (induction xs arbitrary: skip)
  case Nil
  show ?case by (simp split: prod.splits)
next
  case (Cons x xs)
  obtain k v where x: "x = (k, v)" by (cases x)
  show ?case
  proof (cases "skip \<ge> 0")
    case True
    then show ?thesis by (auto simp: x filter_run_skip split: prod.splits)
  next
    case False
    then show ?thesis using Cons.IH by (auto simp: x Let_def split: prod.splits option.splits)
  qed
qed

text \<open>With a predicate: the list is filtered.\<close>

lemma filter_run_pred:
  "filter_run (\<lambda>k v. of_bool (p k v)) (- 1) es = (None, filter (\<lambda>(k, v). p k v) es, False, - 1)"
  by (induction es) (auto simp: Let_def)

lemma filter_run_fork:
  assumes "filter_run (\<lambda>k. f (ls @ [False] @ k)) skip ea = (e1, ea', i1, s1)"
    and "filter_run (\<lambda>k. f (ls @ [True] @ k)) s1 eb = (e2, eb', i2, s2)"
  shows "filter_run f skip (pre ls (pre [False] ea @ pre [True] eb)) =
     (case e1 of Some e \<Rightarrow> (Some e, pre (ls @ [False]) ea', i1, s1)
      | None \<Rightarrow> (e2, pre ls (pre [False] ea' @ pre [True] eb'), i1 \<or> i2, s2))"
  using assms by (simp add: filter_run_pre filter_run_append split: option.splits)

lemma filter_run_shorter: "filter_run f skip es = (e, es', i, s) \<Longrightarrow> length es' \<le> length es"
proof (induction es arbitrary: skip e es' i s)
  case (Cons x es)
  obtain k v where x: "x = (k, v)" by (cases x)
  show ?case using Cons.prems
    by (auto simp: x Let_def split: if_splits prod.splits dest!: Cons.IH)
qed simp

lemma filter_run_same: "filter_run f skip es = (None, es', i, s) \<Longrightarrow> length es' = length es \<Longrightarrow> es' = es"
proof (induction es arbitrary: skip es' i s)
  case (Cons x es)
  obtain k v where x: "x = (k, v)" by (cases x)
  show ?case using Cons.prems
    by (auto simp: x Let_def split: if_splits prod.splits dest: Cons.IH filter_run_shorter)
qed simp

lemma filter_run_unseen: "filter_run f skip es = (e, es', True, s) \<Longrightarrow> length es' < length es"
proof (induction es arbitrary: skip e es' s)
  case (Cons x es)
  obtain k v where x: "x = (k, v)" by (cases x)
  show ?case using Cons.prems
    by (auto simp: x Let_def split: if_splits prod.splits dest: Cons.IH)
qed simp

lemma filter_run_error: "filter_run f skip es = (Some r, es', i, s) \<Longrightarrow> r < 0"
proof (induction es arbitrary: skip es' i s)
  case (Cons x es)
  obtain k v where x: "x = (k, v)" by (cases x)
  show ?case using Cons.prems
    by (auto simp: x Let_def split: if_splits prod.splits dest: Cons.IH)
qed simp

section \<open>The number of changes\<close>

text \<open>\<open>c\<close> counts the entries that are gone, of \<open>N\<close> entries of which \<open>K\<close> stay, up to \<open>2^30\<close>, which
  stands for infinity.\<close>

definition counted :: "nat \<Rightarrow> nat \<Rightarrow> bool \<Rightarrow> int \<Rightarrow> bool" where
  "counted N K unseen c \<longleftrightarrow>
     K \<le> N \<and> 0 \<le> c \<and> (c = 0 \<longleftrightarrow> K = N) \<and> (unseen \<longrightarrow> c = 2 ^ 30)
     \<and> (\<not> unseen \<and> N - K < 2 ^ 30 \<longrightarrow> c = int (N - K))"

definition add_changes :: "int \<Rightarrow> int \<Rightarrow> int" where
  "add_changes a b = (if (a OR b) AND 2 ^ 30 \<noteq> 0 then 2 ^ 30 else a + b)"

lemma and_power_int: "(x :: int) AND 2 ^ n \<noteq> 0 \<longleftrightarrow> bit x n"
  using bit_iff_and_push_bit_not_eq_0 [of x n] by (simp add: push_bit_eq_mult)

lemma small_bit: "0 \<le> (a :: int) \<Longrightarrow> a < 2 ^ n \<Longrightarrow> \<not> bit a n"
  by (simp add: bit_iff_odd)

lemma or_pos: "0 \<le> (a :: int) \<Longrightarrow> 0 \<le> b \<Longrightarrow> a OR b \<le> 0 \<longleftrightarrow> a = 0 \<and> b = 0"
  by (metis or_eq_0_iff or_nonnegative_int_iff order_antisym order_refl)

lemma counted_add:
  assumes a: "counted N1 K1 u1 a" and b: "counted N2 K2 u2 b" and c: "\<not> a OR b \<le> 0"
  shows "counted (N1 + N2) (K1 + K2) (u1 \<or> u2) (add_changes a b)"
proof -
  have pos: "0 \<le> a" "0 \<le> b" "a \<noteq> 0 \<or> b \<noteq> 0" using a b c or_pos [of a b] by (auto simp: counted_def)
  have "K1 + K2 \<noteq> N1 + N2" using a b pos(3) by (auto simp: counted_def)
  moreover have "add_changes a b > 0" using pos by (auto simp: add_changes_def)
  moreover have "add_changes a b = 2 ^ 30" if "u1 \<or> u2"
  proof -
    have "a = 2 ^ 30 \<or> b = 2 ^ 30" using a b that by (auto simp: counted_def)
    then have "bit (a OR b) 30" unfolding bit_or_iff by (auto simp: bit_iff_odd)
    then show ?thesis by (simp add: add_changes_def and_power_int [of _ 30, simplified])
  qed
  moreover have "add_changes a b = int (N1 + N2 - (K1 + K2))" if "\<not> (u1 \<or> u2)" "N1 + N2 - (K1 + K2) < 2 ^ 30"
  proof -
    have ab: "a = int (N1 - K1)" "b = int (N2 - K2)" "K1 \<le> N1" "K2 \<le> N2" using a b that by (auto simp: counted_def)
    have "\<not> bit (a OR b) 30" unfolding bit_or_iff
      using small_bit [of a 30] small_bit [of b 30] ab that(2) by auto
    then show ?thesis using ab by (simp add: add_changes_def and_power_int [of _ 30, simplified])
  qed
  ultimately show ?thesis using a b unfolding counted_def by auto
qed

section \<open>The fork\<close>

definition holding :: "nat \<Rightarrow> dict_entry list \<Rightarrow> bool list \<Rightarrow> nat \<Rightarrow> cell option \<times> byte list \<Rightarrow> bool" where
  "holding n es Q len r \<longleftrightarrow> dict_rep_opt n (fst r) es \<and> holds (snd r) Q \<and> length (snd r) = len"

lemma join_edge_on_holding:
  assumes f: "fresh cb" and h: "holds buf (Q @ ls @ [x])" and len: "length Q + n \<le> 8 * length buf" and l: "length ls < n" and n: "n < 2 ^ 31"
    and c: "dict_rep (n - length ls - 1) c es" and sha: "\<And>x. length (sha256 x) = hash_bytes"
  shows "dict_ok (holding n (pre (ls @ [x]) es) Q (length buf))
     (bind_err (join_edge_on sha256 cb buf (length Q) (length ls + 1) (Some c) n chk_all) (\<lambda>(c, buf). Inr (Some c, buf)))"
proof -
  have k: "ptr_bits (buf, length Q) (length ls + 1) = ls @ [x]" using holds_ptr(1) [OF h] by simp
  have p: "ptr_ok (buf, length Q) n" using len by (simp add: ptr_ok_def)
  have r: "dict_rep (n - (length ls + 1)) c es" using c by simp
  have m: "length ls + 1 \<le> n" "(3 :: nat) \<noteq> 0" using l by simp_all
  show ?thesis
  proof (rule dict_ok_bind [OF join_edge_on_ok [OF f r m(1) n p sha m(2), unfolded k]])
    fix y assume "case y of (c', buf') \<Rightarrow> dict_rep n c' (pre (ls @ [x]) es) \<and> length buf' = length buf
      \<and> take (length Q + (length ls + 1)) (bits_of buf') = take (length Q + (length ls + 1)) (bits_of buf)"
    then obtain c'' bf' where y: "y = (c'', bf')" "dict_rep n c'' (pre (ls @ [x]) es)" "length bf' = length buf"
      "take (length Q + (length ls + 1)) (bits_of bf') = take (length Q + (length ls + 1)) (bits_of buf)"
      by (cases y) auto
    have "holds bf' (Q @ ls @ [x])" by (rule holds_keep [OF h _ y(3)]) (use y(4) in simp)
    then have "holds bf' Q" by (rule holds_prefix)
    then show "dict_ok (holding n (pre (ls @ [x]) es) Q (length buf)) (case y of (c, buf) \<Rightarrow> Inr (Some c, buf))"
      using y by (simp add: holding_def dict_rep_opt_def)
  qed
qed

lemmas join_edge_holding = join_edge_on_holding [OF fresh_empty]

lemma filter_fork_ok:
  assumes h: "holds buf (Q @ ls @ [True])" and len: "length Q + n \<le> 8 * length buf" and l: "length ls < n" and n: "n < 2 ^ 31"
    and a: "dict_rep_opt (n - length ls - 1) left ea" and b: "dict_rep_opt (n - length ls - 1) right eb"
    and sha: "\<And>x. length (sha256 x) = hash_bytes"
  shows "dict_ok (holding n (pre ls (pre [False] ea @ pre [True] eb)) Q (length buf))
     (filter_fork sha256 buf (length Q) (length ls) n left right)"
proof -
  have h': "holds buf (Q @ ls)" "holds buf Q" using holds_prefix [of buf "Q @ ls" "[True]"] holds_prefix h by auto
  show ?thesis
  proof (cases left)
    case left: None
    then have ea: "ea = []" using a by (simp add: dict_rep_opt_def)
    show ?thesis
    proof (cases right)
      case None
      then show ?thesis using left ea b h' by (simp add: filter_fork_def holding_def dict_rep_opt_def)
    next
      case (Some c)
      then have "dict_rep (n - length ls - 1) c eb" using b by (simp add: dict_rep_opt_def)
      from join_edge_holding [OF h len l n this sha] show ?thesis using left Some ea by (simp add: filter_fork_def)
    qed
  next
    case left: (Some c1)
    then have r1: "dict_rep (n - length ls - 1) c1 ea" using a by (simp add: dict_rep_opt_def)
    show ?thesis
    proof (cases right)
      case None
      then have eb: "eb = []" using b by (simp add: dict_rep_opt_def)
      have "length (Q @ ls) < 8 * length buf" using len l by simp
      from holds_set_bit [OF h'(1) this, of False]
      have hf: "holds (ptr_set_bit (buf, length Q + length ls) 0 False) (Q @ ls @ [False])" by simp
      have len': "length Q + n \<le> 8 * length (ptr_set_bit (buf, length Q + length ls) 0 False)" using len by simp
      from join_edge_holding [OF hf len' l n r1 sha] show ?thesis
        using left None eb by (simp add: filter_fork_def)
    next
      case (Some c2)
      then have r2: "dict_rep (n - length ls - 1) c2 eb" using b by (simp add: dict_rep_opt_def)
      have k: "ptr_bits (buf, length Q) (length ls) = ls" by (rule holds_ptr(1) [OF h'(1)])
      have p: "ptr_ok (buf, length Q) (length ls)" using len l by (simp add: ptr_ok_def)
      have "dict_ok (holding n (pre ls (pre [False] ea @ pre [True] eb)) Q (length buf))
         (bind_err (bind_err (append_dict_label empty_builder (buf, length Q) (length ls) n)
            (\<lambda>cb. finish_create_fork sha256 cb (Some c1) (Some c2))) (\<lambda>c. Inr (Some c, buf)))"
        by (rule dict_ok_bind [OF finish_create_fork_ok [OF fresh_empty p l n r1 r2 sha, unfolded k]])
          (use h' in \<open>simp add: holding_def dict_rep_opt_def\<close>)
      then show ?thesis using left Some by (simp add: filter_fork_def bind_err_assoc)
    qed
  qed
qed

section \<open>The dictionary is filtered\<close>

definition filter_result ::
  "nat \<Rightarrow> dict_entry list \<Rightarrow> bool list \<Rightarrow> nat \<Rightarrow> int option \<times> dict_entry list \<times> bool \<times> int
     \<Rightarrow> (cell option \<times> int) \<times> byte list \<times> int \<Rightarrow> bool" where
  "filter_result n es Q len run r \<longleftrightarrow>
     (case run of (err, es', unseen, skip') \<Rightarrow>
      case r of ((c, chg), buf, skip) \<Rightarrow>
        (case err of
           Some e \<Rightarrow> chg = e
         | None \<Rightarrow> skip = skip' \<and> holds buf Q \<and> length buf = len \<and> counted (length es) (length es') unseen chg
             \<and> (chg \<noteq> 0 \<longrightarrow> dict_rep_opt n c es')))"

definition skip_ok :: "int \<Rightarrow> bool" where
  "skip_ok skip \<longleftrightarrow> skip < 0 \<or> skip = 0 \<or> skip = 2 ^ 30"

lemma filter_run_skip_ok: "filter_run f skip es = (e, es', i, s) \<Longrightarrow> skip_ok skip \<Longrightarrow> skip_ok s"
proof (induction es arbitrary: skip e es' i s)
  case (Cons x es)
  obtain k v where x: "x = (k, v)" by (cases x)
  show ?case
  proof (cases "skip \<ge> 0 \<or> f k v < 0")
    case True
    then show ?thesis using Cons.prems by (auto simp: x Let_def split: if_splits)
  next
    case False
    have "skip_ok 0" "skip_ok (2 ^ 30)" by (simp_all add: skip_ok_def)
    then show ?thesis using Cons.prems False
      by (auto simp: x Let_def split: if_splits prod.splits dest: Cons.IH)
  qed
qed simp

lemma and_mask_30: "(r :: int) AND (2 ^ 30 - 1) = r mod 2 ^ 30"
  by (metis mask_eq_exp_minus_1 take_bit_eq_mask take_bit_eq_mod)

text \<open>After both children of a fork have been filtered without an error in the left one.\<close>

lemma kept_child:
  assumes "filter_run f skip es = (None, es', i, s)" and "counted (length es) (length es') i c"
    and "c \<noteq> 0 \<longrightarrow> dict_rep_opt m co es'" and "dict_rep_opt m (Some a) es"
  shows "dict_rep_opt m (if c \<noteq> 0 then co else Some a) es'"
  using assms filter_run_same [OF assms(1)] by (auto simp: counted_def)

lemma filter_tail_ok:
  assumes r1: "filter_run f skip ea = (None, ea', i1, s1)" and r2: "filter_run g s1 eb = (e2, eb', i2, s2)"
    and x1: "counted (length ea) (length ea') i1 c1" "c1 \<noteq> 0 \<longrightarrow> dict_rep_opt (n - length ls - 1) left ea'"
    and x2: "filter_result (n - length ls - 1) eb (Q @ ls @ [True]) blen (e2, eb', i2, s2) ((right, c2), buf, t)"
    and a: "dict_rep_opt (n - length ls - 1) (Some a) ea" and b: "dict_rep_opt (n - length ls - 1) (Some b) eb"
    and len: "length Q + n \<le> 8 * blen" and l: "length ls < n" and n: "n < 2 ^ 31"
    and sha: "\<And>x. length (sha256 x) = hash_bytes"
  shows "dict_ok (filter_result n (pre ls (pre [False] ea @ pre [True] eb)) Q blen
       (e2, pre ls (pre [False] ea' @ pre [True] eb'), i1 \<or> i2, s2))
     (if c1 OR c2 \<le> 0 then Inr ((right, c2), buf, t)
      else bind_err (filter_fork sha256 buf (length Q) (length ls) n (if c1 \<noteq> 0 then left else Some a) (if c2 \<noteq> 0 then right else Some b))
        (\<lambda>(c, buf). Inr ((c, if (c1 OR c2) AND 2 ^ 30 \<noteq> 0 then 2 ^ 30 else c1 + c2), buf, t)))"
proof (cases e2)
  case (Some e)
  then have "c2 < 0" using x2 filter_run_error r2 by (simp add: filter_result_def)
  then have le: "c1 OR c2 \<le> 0" by (simp add: less_imp_le)
  show ?thesis unfolding if_P [OF le] using Some x2 by (simp add: filter_result_def)
next
  case None
  have y2: "t = s2" "length buf = blen" "holds buf (Q @ ls @ [True])" "counted (length eb) (length eb') i2 c2"
    "c2 \<noteq> 0 \<longrightarrow> dict_rep_opt (n - length ls - 1) right eb'"
    using x2 by (simp_all add: filter_result_def None)
  have lens: "length (pre p es) = length es" for p es by (simp add: pre_def)
  show ?thesis
  proof (cases "c1 OR c2 \<le> 0")
    case True
    have "0 \<le> c1" "0 \<le> c2" using x1(1) y2(4) by (simp_all add: counted_def)
    then have z: "c1 = 0" "c2 = 0" using True or_pos by blast+
    have "holds buf Q" by (rule holds_prefix [OF y2(3)])
    moreover have "counted (length ea + length eb) (length ea' + length eb') (i1 \<or> i2) 0"
      using x1(1) y2(4) by (auto simp: counted_def z)
    ultimately show ?thesis using None z y2(1,2) by (simp add: filter_result_def lens)
  next
    case False
    have k: "dict_rep_opt (n - length ls - 1) (if c1 \<noteq> 0 then left else Some a) ea'"
      "dict_rep_opt (n - length ls - 1) (if c2 \<noteq> 0 then right else Some b) eb'"
      using kept_child [OF r1 x1(1,2) a] kept_child [OF r2 [unfolded None] y2(4,5) b] by blast+
    have len': "length Q + n \<le> 8 * length buf" using len y2(2) by simp
    note cnt = counted_add [OF x1(1) y2(4) False, unfolded add_changes_def]
    show ?thesis unfolding if_not_P [OF False]
      by (rule dict_ok_bind [OF filter_fork_ok [OF y2(3) len' l n k sha]])
        (use cnt y2(1) in \<open>simp add: holding_def filter_result_def y2(2) None lens case_prod_beta\<close>)
  qed
qed

locale filter_function =
  fixes check :: filter_func
    and total :: nat
    and f :: "bool list \<Rightarrow> dict_val \<Rightarrow> int"
  assumes check_value: "\<lbrakk>slice_ok s; ptr_ok key total\<rbrakk> \<Longrightarrow> check s key total = f (ptr_bits key total) (slice_bits s, slice_children s)"
begin

lemma filter_leaf_ok:
  assumes h: "holds buf (Q @ ls)" and ls: "length ls = n" and skip: "skip < 0"
    and s: "slice_ok sl" "slice_bits sl = rest" "slice_children sl = cs" and t: "n \<le> total" "total \<le> length Q + n"
  shows "filter_result n [(ls, rest, cs)] Q (length buf) (filter_run (\<lambda>k. f (drop (length Q + n - total) Q @ k)) skip [(ls, rest, cs)])
    (let res = check sl (buf, length Q + n - total) total;
         (res, skip_rest) =
           (if res \<ge> 2 ^ 30 then let res = res AND (2 ^ 30 - 1) in (res, if res \<noteq> 0 then 0 else 2 ^ 30) else (res, skip))
     in ((None, if res < 0 then res else of_bool (res = 0)), buf, skip_rest))"
proof -
  let ?st = "length Q + n - total"
  have st: "?st \<le> length Q" "length Q + n - ?st = total" using t by simp_all
  have key: "ptr_bits (buf, ?st) total = drop ?st Q @ ls" using holds_ptr(2) [OF h st(1)] ls st(2) by simp
  have pk: "ptr_ok (buf, ?st) total" using h ls st t by (simp add: ptr_ok_def holds_def)
  have c: "check sl (buf, ?st) total = f (drop ?st Q @ ls) (rest, cs)" using check_value [OF s(1) pk] key s by simp
  have hQ: "holds buf Q" by (rule holds_prefix [OF h])
  define r where "r = f (drop ?st Q @ ls) (rest, cs)"
  have m: "0 \<le> r mod 2 ^ 30" by simp
  show ?thesis
    unfolding c r_def [symmetric] Let_def and_mask_30
    using skip hQ m by (auto simp: filter_result_def r_def [symmetric] Let_def counted_def dict_rep_opt_def)
qed

theorem dict_filter_ok:
  assumes "dict_rep_opt n dict es" and "holds buf Q" and "length Q + n \<le> 8 * length buf"
    and "n \<le> total" and "total \<le> length Q + n" and "n < 2 ^ 31" and "skip_ok skip"
    and sha: "\<And>x. length (sha256 x) = hash_bytes"
  shows "dict_ok (filter_result n es Q (length buf) (filter_run (\<lambda>k. f (drop (length Q + n - total) Q @ k)) skip es))
     (dict_filter sha256 dict (buf, length Q) n check total skip)"
  using assms(1-7)
proof (induction n arbitrary: dict es buf Q skip rule: less_induct)
  case (less n)
  let ?st = "length Q + n - total"
  let ?f = "\<lambda>k. f (drop ?st Q @ k)"
  show ?case
  proof (cases dict)
    case None
    then show ?thesis using less.prems(1,2)
      by (simp add: dict_filter.simps [of _ None] dict_rep_opt_def filter_result_def counted_def)
  next
    case (Some c)
    have rep: "dict_rep n c es" using less.prems(1) by (simp add: Some dict_rep_opt_def)
    have ne: "Some c \<noteq> None" by simp
    show ?thesis
    proof (cases "skip \<ge> 0")
      case True
      then show ?thesis using less.prems(2,7) dict_rep_not_empty(1) [OF rep]
        by (auto simp: Some dict_filter.simps [of _ "Some c"] dict_rep_opt_def filter_result_def counted_def
            filter_run_skip skip_ok_def)
    next
      case skip: False
      obtain lab ls rest es0 where L: "label_of_cell (Some c) n chk_all = Inr lab" "label_view lab ls rest (c_refs c)"
        "length ls \<le> n" "payload_rep (n - length ls) rest (c_refs c) es0" "es = pre ls es0" "ordinary c"
        using dict_rep_label [OF rep less.prems(6), of chk_all] by auto
      obtain buf1 lab1 where x: "extract_label_to lab (buf, length Q) = (buf1, lab1)" by fastforce
      have "ptr_ok (buf, length Q) (length ls)" using less.prems(3) L(3) by (simp add: ptr_ok_def)
      note X = extract_label_rest [OF L(2) this, unfolded x fst_conv snd_conv]
      have room: "length Q + length ls \<le> 8 * length buf" using less.prems(3) L(3) by simp
      have h1: "holds buf1 (Q @ ls)" using holds_extract [OF less.prems(2) _ _ room] X(1,2) by simp
      note B = view_bits [OF L(2)]
      note unf = dict_filter.simps [of sha256 "Some c" "(buf, length Q)" n check total skip, unfolded if_not_P [OF ne] if_not_P [OF skip]
          L(1) bind_err_simps Let_def B x prod.case fst_conv snd_conv]
      show ?thesis
      proof (cases "length ls = n")
        case True
        have es: "es = [(ls, rest, c_refs c)]" using payload_leaf [OF L(4) True] by (simp add: L(5))
        have "skip < 0" using skip by simp
        from filter_leaf_ok [OF h1 True this X(4,5,6) less.prems(4,5)] show ?thesis
          unfolding Some unf True if_P [OF refl] es X(2) Let_def by (simp only: case_prod_beta dict_ok_Inr)
      next
        case False
        then have lt: "length ls < n" using L(3) by simp
        obtain a b ea eb where F: "rest = []" "c_refs c = [a, b]" "dict_rep (n - length ls - 1) a ea"
          "dict_rep (n - length ls - 1) b eb" "es0 = pre [False] ea @ pre [True] eb"
          using payload_fork_step [OF L(4) lt] by blast
        have es: "es = pre ls (pre [False] ea @ pre [True] eb)" by (simp only: L(5) F(5))
        define m where "m = n - length ls - 1"
        define q where "q = length Q + length ls"
        have refs: "prefetch_ref (l_remainder lab1) 0 = Some a" "prefetch_ref (l_remainder lab1) 1 = Some b"
          using view_advanced_ref [OF X(4,6)] F(2) by simp_all
        have mm: "m < n" "m \<le> total" "m < 2 ^ 31" using lt less.prems(4,6) by (simp_all add: m_def)
        have q: "q = length (Q @ ls)" "q < 8 * length buf" "q + 1 = length (Q @ ls @ [x])" for x
          using less.prems(3) lt by (simp_all add: q_def)
        have st: "length (Q @ ls @ [x]) + m - total = ?st" "drop ?st (Q @ ls @ [x]) = drop ?st Q @ ls @ [x]" for x
          using lt less.prems(4) by (simp_all add: m_def)
        have sz: "length (Q @ ls @ [x]) + m \<le> 8 * length buf" "total \<le> length (Q @ ls @ [x]) + m" for x
          using lt less.prems(3,5) by (simp_all add: m_def)
        have set_bit: "holds (ptr_set_bit (bf, q) 0 x) (Q @ ls @ [x])" if "holds bf (Q @ ls)" "length bf = length buf" for bf x
          using holds_set_bit [OF that(1), of x] that(2) q by simp
        have shorter: "holds bf (Q @ ls)" if "holds bf (Q @ ls @ [x])" for bf x
          using holds_prefix [of bf "Q @ ls" "[x]"] that by simp
        have da: "dict_rep_opt m (Some a) ea" "dict_rep_opt m (Some b) eb" using F by (simp_all add: dict_rep_opt_def m_def)
        obtain e1 ea' i1 s1 where r1: "filter_run (\<lambda>k. f ((drop ?st Q @ ls @ [False]) @ k)) skip ea = (e1, ea', i1, s1)"
          by (metis prod_cases4)
        obtain e2 eb' i2 s2 where r2: "filter_run (\<lambda>k. f ((drop ?st Q @ ls @ [True]) @ k)) s1 eb = (e2, eb', i2, s2)"
          by (metis prod_cases4)
        have r1': "filter_run (\<lambda>k. ?f (ls @ [False] @ k)) skip ea = (e1, ea', i1, s1)"
          and r2': "filter_run (\<lambda>k. ?f (ls @ [True] @ k)) s1 eb = (e2, eb', i2, s2)" using r1 r2 by simp_all
        note run = filter_run_fork [of ?f, OF r1' r2', folded es]
        let ?P = "filter_result n es Q (length buf) (filter_run ?f skip es)"
        define buf2 where "buf2 = ptr_set_bit (buf1, q) 0 False"
        have h2: "holds buf2 (Q @ ls @ [False])" "length buf2 = length buf"
          using set_bit [OF h1 X(2)] X(2) by (simp_all add: buf2_def)
        note sub = less.IH [OF mm(1) da(1) h2(1) _ mm(2) sz(2) mm(3) less.prems(7), unfolded h2(2), OF sz(1), unfolded st, folded q(3),
            unfolded r1]
        show ?thesis
          unfolding Some unf if_not_P [OF False] fst_conv q_def [symmetric] m_def [symmetric] buf2_def [symmetric] refs
        proof (rule dict_ok_bind [OF sub])
          fix x1 assume x1: "filter_result m ea (Q @ ls @ [False]) (length buf) (e1, ea', i1, s1) x1"
          obtain left a1 buf3 t1 where x1e: "x1 = ((left, a1), buf3, t1)" by (metis prod.collapse)
          show "dict_ok ?P (case x1 of (x, xa) \<Rightarrow> (case x of (left, left_res) \<Rightarrow> \<lambda>(buf2, skip_rest).
              if left_res < 0 then Inr ((left, left_res), buf2, skip_rest)
              else bind_err (dict_filter sha256 (Some b) (ptr_set_bit (buf2, q) 0 True, q + 1) m check total skip_rest)
                (\<lambda>((right, right_res), buf4, skip_rest).
                  if left_res OR right_res \<le> 0 then Inr ((right, right_res), buf4, skip_rest)
                  else bind_err (filter_fork sha256 buf4 (length Q) (length ls) n (if left_res \<noteq> 0 then left else Some a)
                      (if right_res \<noteq> 0 then right else Some b))
                    (\<lambda>(c, buf). Inr ((c, if (left_res OR right_res) AND 2 ^ 30 \<noteq> 0 then 2 ^ 30 else left_res + right_res), buf, skip_rest)))) xa)"
            unfolding x1e prod.case
          proof (cases e1)
            case (Some e)
            then have "a1 = e" "a1 < 0" using x1 filter_run_error [OF r1 [unfolded Some]] by (simp_all add: filter_result_def x1e)
            then show "dict_ok ?P (if a1 < 0 then Inr ((left, a1), buf3, t1)
              else bind_err (dict_filter sha256 (Some b) (ptr_set_bit (buf3, q) 0 True, q + 1) m check total t1)
                (\<lambda>((right, right_res), buf4, skip_rest).
                  if a1 OR right_res \<le> 0 then Inr ((right, right_res), buf4, skip_rest)
                  else bind_err (filter_fork sha256 buf4 (length Q) (length ls) n (if a1 \<noteq> 0 then left else Some a)
                      (if right_res \<noteq> 0 then right else Some b))
                    (\<lambda>(c, buf). Inr ((c, if (a1 OR right_res) AND 2 ^ 30 \<noteq> 0 then 2 ^ 30 else a1 + right_res), buf, skip_rest))))"
              by (simp add: run Some filter_result_def)
          next
            case None
            have y1: "t1 = s1" "holds buf3 (Q @ ls @ [False])" "length buf3 = length buf"
              "counted (length ea) (length ea') i1 a1" "a1 \<noteq> 0 \<longrightarrow> dict_rep_opt m left ea'"
              using x1 by (simp_all add: filter_result_def x1e None)
            have pos: "\<not> a1 < 0" using y1(4) by (simp add: counted_def)
            define buf4 where "buf4 = ptr_set_bit (buf3, q) 0 True"
            have h4: "holds buf4 (Q @ ls @ [True])" "length buf4 = length buf"
              using set_bit [OF shorter [OF y1(2)] y1(3)] y1(3) by (simp_all add: buf4_def)
            note sub2 = less.IH [OF mm(1) da(2) h4(1) _ mm(2) sz(2) mm(3) filter_run_skip_ok [OF r1 less.prems(7)], unfolded h4(2),
                OF sz(1), unfolded st, folded q(3), unfolded r2]
            show "dict_ok ?P (if a1 < 0 then Inr ((left, a1), buf3, t1)
              else bind_err (dict_filter sha256 (Some b) (ptr_set_bit (buf3, q) 0 True, q + 1) m check total t1)
                (\<lambda>((right, right_res), buf4, skip_rest).
                  if a1 OR right_res \<le> 0 then Inr ((right, right_res), buf4, skip_rest)
                  else bind_err (filter_fork sha256 buf4 (length Q) (length ls) n (if a1 \<noteq> 0 then left else Some a)
                      (if right_res \<noteq> 0 then right else Some b))
                    (\<lambda>(c, buf). Inr ((c, if (a1 OR right_res) AND 2 ^ 30 \<noteq> 0 then 2 ^ 30 else a1 + right_res), buf, skip_rest))))"
              unfolding if_not_P [OF pos] buf4_def [symmetric] y1(1)
            proof (rule dict_ok_bind [OF sub2])
              fix x2 assume x2: "filter_result m eb (Q @ ls @ [True]) (length buf) (e2, eb', i2, s2) x2"
              obtain right a2 buf5 t2 where x2e: "x2 = ((right, a2), buf5, t2)" by (metis prod.collapse)
              show "dict_ok ?P (case x2 of (x, xa) \<Rightarrow> (case x of (right, right_res) \<Rightarrow> \<lambda>(buf4, skip_rest).
                  if a1 OR right_res \<le> 0 then Inr ((right, right_res), buf4, skip_rest)
                  else bind_err (filter_fork sha256 buf4 (length Q) (length ls) n (if a1 \<noteq> 0 then left else Some a)
                      (if right_res \<noteq> 0 then right else Some b))
                    (\<lambda>(c, buf). Inr ((c, if (a1 OR right_res) AND 2 ^ 30 \<noteq> 0 then 2 ^ 30 else a1 + right_res), buf, skip_rest))) xa)"
                unfolding x2e prod.case run None option.case
                by (rule filter_tail_ok [OF r1 [unfolded None] r2 y1(4) y1(5) [unfolded m_def] x2 [unfolded m_def x2e]
                      da(1) [unfolded m_def] da(2) [unfolded m_def] less.prems(3) lt less.prems(6) sha, folded es])
            qed
          qed
        qed
      qed
    qed
  qed
qed

end

section \<open>The dictionary object\<close>

theorem obj_filter_ok:
  assumes d: "dict_inv d n es" and f: "filter_function check n f" and sha: "\<And>x. length (sha256 x) = hash_bytes"
  shows "dict_ok (\<lambda>(changes, d').
      case filter_run f (- 1) es of
        (Some e, es', unseen, s) \<Rightarrow> changes = e \<and> d' = d
      | (None, es', unseen, s) \<Rightarrow> dict_inv d' n es' \<and> counted (length es) (length es') unseen changes)
    (obj_filter sha256 d check)"
proof -
  have D: "d_key_bits d = int n" "n \<le> max_key_bits" "n < 2 ^ 31" "dict_rep_opt n (d_root_cell d) es"
    using d by (simp_all add: dict_inv_def)
  obtain err es' unseen s where run: "filter_run f (- 1) es = (err, es', unseen, s)" by (metis prod_cases4)
  have e: "obj_filter sha256 d check =
      bind_err (dict_filter sha256 (d_root_cell d) (replicate max_key_bytes 0, length ([] :: bool list)) n check n (- 1))
        (\<lambda>((c, changes), buf, skip_rest). Inr (changes, if changes > 0 then set_root_cell d c else d))"
    using d D(1) by (simp add: obj_filter_def)
  have sz: "length ([] :: bool list) + n \<le> 8 * length (replicate max_key_bytes 0 :: byte list)" using D(2) by simp
  have "dict_ok (filter_result n es [] (length (replicate max_key_bytes 0 :: byte list)) (err, es', unseen, s))
      (dict_filter sha256 (d_root_cell d) (replicate max_key_bytes 0, length ([] :: bool list)) n check n (- 1))"
    using filter_function.dict_filter_ok [OF f D(4) holds_nil sz _ _ D(3) _ sha, of "- 1"] run by (simp add: skip_ok_def)
  then show ?thesis unfolding e run
  proof (rule dict_ok_bind)
    fix x assume x: "filter_result n es [] (length (replicate max_key_bytes 0 :: byte list)) (err, es', unseen, s) x"
    obtain c chg buf t where xe: "x = ((c, chg), buf, t)" by (metis prod.collapse)
    show "dict_ok (\<lambda>(changes, d'). case (err, es', unseen, s) of
          (Some e, es', unseen, s) \<Rightarrow> changes = e \<and> d' = d
        | (None, es', unseen, s) \<Rightarrow> dict_inv d' n es' \<and> counted (length es) (length es') unseen changes)
      (case x of (x, xa) \<Rightarrow> (case x of (c, changes) \<Rightarrow> \<lambda>(buf, skip_rest).
         Inr (changes, if changes > 0 then set_root_cell d c else d)) xa)"
    proof (cases err)
      case (Some e)
      then have "chg = e" "e < 0" using x filter_run_error run by (auto simp: xe filter_result_def)
      then show ?thesis by (simp add: xe Some)
    next
      case None
      have y: "counted (length es) (length es') unseen chg" "chg \<noteq> 0 \<longrightarrow> dict_rep_opt n c es'"
        using x by (simp_all add: xe filter_result_def None)
      show ?thesis
      proof (cases "chg = 0")
        case True
        then have "es' = es" using filter_run_same [OF run [unfolded None]] y(1) by (simp add: counted_def)
        then show ?thesis using True y(1) d by (simp add: xe None)
      next
        case False
        then have "chg > 0" using y(1) by (simp add: counted_def)
        then show ?thesis using y False dict_inv_set_root_cell [OF d, of c es'] by (simp add: xe None)
      qed
    qed
  qed
qed

text \<open>Filtering by a predicate on keys and values.\<close>

definition pred_filter :: "(bool list \<Rightarrow> dict_val \<Rightarrow> bool) \<Rightarrow> filter_func" where
  "pred_filter p = (\<lambda>s key len. of_bool (p (ptr_bits key len) (slice_bits s, slice_children s)))"

interpretation predicate: filter_function "pred_filter p" len "\<lambda>k v. of_bool (p k v)"
  by unfold_locales (simp add: pred_filter_def)

theorem obj_filter_pred:
  assumes d: "dict_inv d n es" and sha: "\<And>x. length (sha256 x) = hash_bytes"
  shows "dict_ok (\<lambda>(changes, d'). dict_inv d' n (filter (\<lambda>(k, v). p k v) es)
      \<and> (length (filter (\<lambda>(k, v). \<not> p k v) es) < 2 ^ 30 \<longrightarrow> changes = int (length (filter (\<lambda>(k, v). \<not> p k v) es))))
    (obj_filter sha256 d (pred_filter p))"
proof -
  have "length es - length (filter (\<lambda>(k, v). p k v) es) = length (filter (\<lambda>(k, v). \<not> p k v) es)"
  proof -
    have e: "filter (\<lambda>(k, v). \<not> p k v) es = filter (\<lambda>x. \<not> (case x of (k, v) \<Rightarrow> p k v)) es"
      by (rule filter_cong) auto
    show ?thesis using sum_length_filter_compl [of "\<lambda>(k, v). p k v" es] unfolding e by linarith
  qed
  then show ?thesis
    by (intro dict_ok_mono [OF obj_filter_ok [OF d predicate.filter_function_axioms sha, of p]])
      (auto simp: filter_run_pred counted_def)
qed

end
