(* ===== verification/Dict_Prefix.thy ===== *)
theory Dict_Prefix
  imports Dict_Object
begin

text \<open>
  The part of a dictionary whose keys begin with a prefix, \<open>extract_prefix_subdict_internal\<close> and its
  callers of \<open>crypto/vm/dict.cpp\<close>. Only the root of the result is built anew, with a label that has the
  prefix in front of it or without the prefix.
\<close>

section \<open>Operations\<close>

definition finish_subdict :: "(byte list \<Rightarrow> byte list) \<Rightarrow> dict_error + builder \<Rightarrow> slice \<Rightarrow> dict_error + cell option \<times> bool" where
  "finish_subdict sha256 r rest =
     bind_err r (\<lambda>cb.
     bind_err (or_throw Excno_cell_ov (append_cellslice_bool cb rest)) (\<lambda>cb.
     bind_err (dict_finalize sha256 cb) (\<lambda>(c, cb). Inr (Some c, True))))"

text \<open>The end of the loop: the prefix has been consumed inside the label of the node at depth \<open>m\<close>.\<close>

definition prefix_end ::
  "(byte list \<Rightarrow> byte list) \<Rightarrow> label \<Rightarrow> bit_ptr \<Rightarrow> nat \<Rightarrow> bool \<Rightarrow> nat \<Rightarrow> nat \<Rightarrow> dict_error + cell option \<times> bool" where
  "prefix_end sha256 lab pfx prefix_len remove_prefix key_bits m =
     (if \<not> remove_prefix then
        if m = 0 then Inr (None, False)
        else
          let buf = bits_memcpy (replicate max_key_bytes 0) 0 (fst pfx) (snd pfx) m;
              (buf1, lab1) = extract_label_to lab (buf, m)
          in finish_subdict sha256 (append_dict_label empty_builder (buf1, 0) (m + l_bits lab) key_bits) (l_remainder lab1)
      else
        let t = m + l_bits lab - prefix_len
        in if l_same lab = 0 then
             finish_subdict sha256
               (append_dict_label empty_builder
                 (slice_data (l_remainder lab), bits_st (l_remainder lab) + l_bits lab - t) t (key_bits - prefix_len))
               (l_remainder (skip_label lab))
           else
             finish_subdict sha256 (append_dict_label_same empty_builder (odd (l_same lab)) t (key_bits - prefix_len))
               (l_remainder lab))"

function prefix_loop ::
  "(byte list \<Rightarrow> byte list) \<Rightarrow> cell option \<Rightarrow> bit_ptr \<Rightarrow> nat \<Rightarrow> bool \<Rightarrow> nat \<Rightarrow> nat \<Rightarrow> dict_error + cell option \<times> bool" where
  "prefix_loop sha256 dict pfx prefix_len remove_prefix key_bits m =
     bind_err (label_of_cell dict (key_bits - m) chk_all) (\<lambda>lab.
       let l = min (prefix_len - m) (l_bits lab)
       in if label_common_prefix_len lab (ptr_add pfx m) l < l then Inr (None, True)
          else if m + l_bits lab < prefix_len then
            let m1 = m + l_bits lab
            in prefix_loop sha256 (prefetch_ref (l_remainder lab) (of_bool (ptr_bit pfx m1))) pfx prefix_len remove_prefix
                 key_bits (m1 + 1)
          else prefix_end sha256 lab pfx prefix_len remove_prefix key_bits m)"
  by pat_completeness auto
termination by (relation "measure (\<lambda>(sha256, dict, pfx, l, r, n, m). l - m)") auto

declare prefix_loop.simps [simp del]

definition extract_prefix_subdict ::
  "(byte list \<Rightarrow> byte list) \<Rightarrow> dict \<Rightarrow> cell option \<Rightarrow> bit_ptr \<Rightarrow> int \<Rightarrow> bool \<Rightarrow> dict_error + cell option \<times> bool" where
  "extract_prefix_subdict sha256 d dict pfx prefix_len remove_prefix =
     (if dict_is_empty d \<or> prefix_len \<le> 0 then Inr (None, False)
      else if prefix_len > d_key_bits d then Inr (None, True)
      else prefix_loop sha256 dict pfx (nat prefix_len) remove_prefix (nat (d_key_bits d)) 0)"

definition cut_prefix_subdict ::
  "(byte list \<Rightarrow> byte list) \<Rightarrow> dict \<Rightarrow> bit_ptr \<Rightarrow> int \<Rightarrow> bool \<Rightarrow> dict_error + bool \<times> dict" where
  "cut_prefix_subdict sha256 d pfx prefix_len remove_prefix =
     bind_err (force_validate d) (\<lambda>d.
       if prefix_len < 0 then Inr (False, d)
       else if prefix_len > d_key_bits d \<and> remove_prefix then Inr (False, d)
       else
         bind_err (extract_prefix_subdict sha256 d (d_root_cell d) pfx prefix_len remove_prefix) (\<lambda>(c, changed).
           let d1 = (if remove_prefix then d\<lparr>d_key_bits := d_key_bits d - prefix_len\<rparr> else d)
           in Inr (True, if changed then set_root_cell d1 c else d1)))"

definition extract_prefix_subdict_root ::
  "(byte list \<Rightarrow> byte list) \<Rightarrow> dict \<Rightarrow> bit_ptr \<Rightarrow> int \<Rightarrow> bool \<Rightarrow> dict_error + cell option \<times> dict" where
  "extract_prefix_subdict_root sha256 d pfx prefix_len remove_prefix =
     bind_err (force_validate d) (\<lambda>d.
     bind_err (extract_prefix_subdict sha256 d (d_root_cell d) pfx prefix_len remove_prefix) (\<lambda>(c, changed).
       Inr (if changed then c else d_root_cell d, d)))"

section \<open>The entries with a prefix\<close>

definition with_prefix :: "bool list \<Rightarrow> dict_entry list \<Rightarrow> dict_entry list" where
  "with_prefix p es = filter (\<lambda>(k, v). prefix p k) es"

definition chop :: "nat \<Rightarrow> dict_entry list \<Rightarrow> dict_entry list" where
  "chop n es = map (\<lambda>(k, v). (drop n k, v)) es"

lemma with_prefix_all: "prefix p q \<Longrightarrow> with_prefix p (pre q es) = pre q es"
  by (auto simp: with_prefix_def pre_def filter_id_conv intro: prefix_order.trans)

lemma with_prefix_none: "\<not> prefix p q \<Longrightarrow> \<not> prefix q p \<Longrightarrow> with_prefix p (pre q es) = []"
proof -
  assume "\<not> prefix p q" "\<not> prefix q p"
  then have "\<not> prefix p (q @ k)" for k using prefix_same_cases [of p "q @ k" q] by auto
  then show "with_prefix p (pre q es) = []" by (auto simp: with_prefix_def pre_def filter_empty_conv)
qed

lemma with_prefix_pre: "with_prefix (p @ q) (pre p es) = pre p (with_prefix q es)"
  by (induction es) (auto simp: with_prefix_def pre_def)

lemma with_prefix_append: "with_prefix p (xs @ ys) = with_prefix p xs @ with_prefix p ys"
  by (simp add: with_prefix_def)

lemma with_prefix_fork:
  "with_prefix (ls @ b # q) (pre ls (pre [False] ea @ pre [True] eb)) = pre (ls @ [b]) (with_prefix q (if b then eb else ea))"
proof -
  have "with_prefix (b # q) (pre [x] es) = (if x = b then pre [b] (with_prefix q es) else [])" for x es
    using with_prefix_pre [of "[b]" q es] with_prefix_none [of "b # q" "[x]" es] by auto
  then show ?thesis unfolding with_prefix_pre with_prefix_append by (cases b) simp_all
qed

lemma chop_pre: "n \<le> length p \<Longrightarrow> chop n (pre p es) = pre (drop n p) es"
  by (simp add: chop_def pre_def case_prod_beta)

lemma chop_pre_add: "chop (length p + n) (pre p es) = chop n es"
  by (simp add: chop_def pre_def case_prod_beta)

section \<open>The operations on the entries\<close>

definition subdict :: "nat \<Rightarrow> bool list \<Rightarrow> bool list \<Rightarrow> bool \<Rightarrow> dict_entry list \<Rightarrow> dict_entry list" where
  "subdict m P D remove_prefix es = (if remove_prefix then chop (length D) (with_prefix D es) else pre (take m P) (with_prefix D es))"

lemma subdict_0: "subdict 0 P P r es = (if r then chop (length P) (with_prefix P es) else with_prefix P es)"
  by (simp add: subdict_def)

text \<open>At depth \<open>m\<close>: \<open>D\<close> is the rest of the prefix \<open>P\<close>.\<close>

definition prefix_result :: "nat \<Rightarrow> nat \<Rightarrow> bool list \<Rightarrow> bool \<Rightarrow> dict_entry list \<Rightarrow> cell option \<times> bool \<Rightarrow> bool" where
  "prefix_result n m P remove_prefix es r \<longleftrightarrow>
     (if snd r then dict_rep_opt (if remove_prefix then n - length P else n) (fst r) (subdict m P (drop m P) remove_prefix es)
      else \<not> remove_prefix \<and> m = 0 \<and> with_prefix P es = es)"

lemma finish_subdict_ok:
  assumes w: "dict_ok (\<lambda>cb. node_coded cb n ls [] []) r"
    and s: "slice_ok s" "slice_bits s = rest" "slice_children s = cs" and wf: "\<forall>r \<in> set cs. wf_cell r"
    and p: "payload_rep (n - length ls) rest cs es" and sha: "\<And>x. length (sha256 x) = hash_bytes"
  shows "dict_ok (\<lambda>(c, changed). changed \<and> dict_rep_opt n c (pre ls es)) (finish_subdict sha256 r s)"
  unfolding finish_subdict_def
proof (rule dict_ok_bind [OF w])
  fix cb assume cb: "node_coded cb n ls [] []"
  have a: "appends cb rest cs (append_cellslice_bool cb s)" if "builder_ok cb"
    using append_cellslice_appends [OF that s(1)] s by simp
  show "dict_ok (\<lambda>(c, changed). changed \<and> dict_rep_opt n c (pre ls es))
     (bind_err (or_throw Excno_cell_ov (append_cellslice_bool cb s)) (\<lambda>cb.
        bind_err (dict_finalize sha256 cb) (\<lambda>(c, cb). Inr (Some c, True))))"
  proof (rule dict_ok_bind [OF add_content_ok [OF cb a]], assumption)
    fix cb2 assume c2: "node_coded cb2 n ls rest cs"
    show "dict_ok (\<lambda>(c, changed). changed \<and> dict_rep_opt n c (pre ls es))
       (bind_err (dict_finalize sha256 cb2) (\<lambda>(c, cb). Inr (Some c, True)))"
      by (rule dict_ok_bind [OF finalize_node_ok [OF c2 sha wf p]]) (auto simp: dict_rep_opt_def)
  qed
qed

lemma label_coded:
  assumes "ptr_ok p len" and "len \<le> n" and "n < 2 ^ 31" and "ptr_bits p len = ls"
  shows "dict_ok (\<lambda>cb. node_coded cb n ls [] []) (append_dict_label empty_builder p len n)"
  by (rule dict_ok_mono [OF append_dict_label_ok [OF fresh_empty assms(1-3), unfolded assms(4)]])
    (use node_built_coded assms in auto)

lemma same_label_coded:
  assumes "len \<le> n" and "n < 2 ^ 31"
  shows "dict_ok (\<lambda>cb. node_coded cb n (replicate len b) [] []) (append_dict_label_same empty_builder b len n)"
  by (rule dict_ok_mono [OF append_dict_label_same_ok [OF fresh_empty assms]]) (use same_code_coded assms in auto)

lemma prefix_end_ok:
  assumes v: "label_view lab ls rest cs" and p: "payload_rep (n - m - length ls) rest cs es0" and wf: "\<forall>r \<in> set cs. wf_cell r"
    and len: "length ls \<le> n - m" "m \<le> length P" "length P \<le> n" "n \<le> max_key_bits" and pk: "ptr_ok pfx (length P)" "ptr_bits pfx (length P) = P"
    and D: "prefix (drop m P) ls" and sha: "\<And>x. length (sha256 x) = hash_bytes"
  shows "dict_ok (prefix_result n m P remove_prefix (pre ls es0)) (prefix_end sha256 lab pfx (length P) remove_prefix n m)"
proof -
  let ?D = "drop m P"
  have u: "with_prefix ?D (pre ls es0) = pre ls es0" by (rule with_prefix_all [OF D])
  have B: "l_bits lab = length ls" using v by (simp add: label_view_def)
  have n: "n < 2 ^ 31" using len(4) by simp
  show ?thesis
  proof (cases remove_prefix)
    case False
    show ?thesis
    proof (cases "m = 0")
      case True
      then show ?thesis using False u by (simp add: prefix_end_def prefix_result_def)
    next
      case m: False
      define buf where "buf = bits_memcpy (replicate max_key_bytes 0) 0 (fst pfx) (snd pfx) m"
      obtain buf1 lab1 where x: "extract_label_to lab (buf, m) = (buf1, lab1)" by fastforce
      have r0: "0 + m \<le> 8 * length (replicate max_key_bytes 0 :: byte list)" using len by simp
      have rk: "snd pfx + m \<le> 8 * length (fst pfx)" using pk(1) len(2) by (simp add: ptr_ok_def)
      have l1: "length buf = max_key_bytes" using length_bits_memcpy [OF r0 rk] by (simp add: buf_def)
      have "ptr_bits pfx m = take m P" using ptr_bits_take [of m "length P" pfx] len(2) pk(2) by simp
      then have b1: "bits_of buf = overwrite (bits_of (replicate max_key_bytes 0)) 0 (take m P)"
        unfolding buf_def using bits_memcpy_correct [OF r0 rk] by (simp add: ptr_bits_def)
      have k: "ptr_bits (buf, 0) m = take m P" using len by (simp add: ptr_bits_def b1 overwrite_def)
      have room: "m + length ls \<le> 8 * length buf" using l1 len by simp
      then have "ptr_ok (buf, m) (length ls)" by (simp add: ptr_ok_def)
      note X = extract_label_rest [OF v this, unfolded x fst_conv snd_conv]
      have k1: "ptr_bits (buf1, 0) (m + length ls) = take m P @ ls"
        using ptr_bits_extract [of buf1 buf 0 m ls] X(1) room k by simp
      have ok1: "ptr_ok (buf1, 0) (m + length ls)" using room X(2) by (simp add: ptr_ok_def)
      have le: "m + length ls \<le> n" using len by simp
      have pl: "payload_rep (n - length (take m P @ ls)) rest cs es0" using p len(2) by simp
      have "dict_ok (\<lambda>(c, changed). changed \<and> dict_rep_opt n c (pre (take m P @ ls) es0))
          (prefix_end sha256 lab pfx (length P) remove_prefix n m)"
        unfolding prefix_end_def buf_def [symmetric] Let_def x prod.case B
        using finish_subdict_ok [OF label_coded [OF ok1 le n k1] X(4,5,6) wf pl sha] False m by simp
      then show ?thesis
        by (rule dict_ok_mono) (use False u in \<open>auto simp: prefix_result_def subdict_def\<close>)
    qed
  next
    case True
    define t where "t = m + length ls - length P"
    have dl: "length ?D \<le> length ls" using prefix_length_le [OF D] .
    have lt: "length (drop (length ?D) ls) = t" "t \<le> n - length P" "t \<le> length ls" "length ls - t = length ?D"
      using dl len by (simp_all add: t_def)
    have ch: "chop (length ?D) (with_prefix ?D (pre ls es0)) = pre (drop (length ?D) ls) es0" unfolding u by (rule chop_pre [OF dl])
    have pl: "payload_rep (n - length P - length (drop (length ?D) ls)) rest cs es0" using p len dl unfolding lt(1) by (simp add: t_def)
    have n': "n - length P < 2 ^ 31" using n by simp
    have "dict_ok (\<lambda>(c, changed). changed \<and> dict_rep_opt (n - length P) c (pre (drop (length ?D) ls) es0))
        (prefix_end sha256 lab pfx (length P) remove_prefix n m)"
    proof (cases "l_same lab = 0")
      case same: True
      let ?p = "(slice_data (l_remainder lab), bits_st (l_remainder lab) + length ls - t)"
      have V: "bits_st (l_remainder lab) + length ls \<le> 8 * length (slice_data (l_remainder lab))"
        "take (length ls) (drop (bits_st (l_remainder lab)) (bits_of (slice_data (l_remainder lab)))) = ls"
        using view_data [OF v same order.refl] by simp_all
      have ok: "ptr_ok ?p t" using V(1) lt(3) by (simp add: ptr_ok_def)
      have s: "bits_st (l_remainder lab) + length ls - t = bits_st (l_remainder lab) + length ?D" using lt dl by simp
      have k: "ptr_bits ?p t = drop (length ?D) ls"
        using arg_cong [OF V(2), of "drop (length ?D)"] lt(1) unfolding s ptr_bits_def fst_conv snd_conv
        by (simp add: drop_take add.commute)
      show ?thesis unfolding prefix_end_def Let_def B t_def [symmetric]
        using finish_subdict_ok [OF label_coded [OF ok lt(2) n' k] skip_label_rest [OF v] wf pl sha] True same by simp
    next
      case same: False
      have s: "slice_ok (l_remainder lab)" "slice_bits (l_remainder lab) = rest" "slice_children (l_remainder lab) = cs"
        "ls = replicate (length ls) (odd (l_same lab))" using v same by (simp_all add: label_view_def)
      have k: "replicate t (odd (l_same lab)) = drop (length ?D) ls" by (subst s(4)) (use lt in simp)
      show ?thesis unfolding prefix_end_def Let_def B t_def [symmetric]
        using finish_subdict_ok [OF same_label_coded [OF lt(2) n', of "odd (l_same lab)", unfolded k] s(1,2,3) wf pl sha] True same by simp
    qed
    then show ?thesis by (rule dict_ok_mono) (use True ch in \<open>auto simp: prefix_result_def subdict_def\<close>)
  qed
qed

lemma prefix_same_length: "length p = length q \<Longrightarrow> prefix p q \<Longrightarrow> p = q"
  by (auto simp: prefix_def)

lemma prefix_loop_ok:
  assumes "dict_rep (n - m) c es" and "m \<le> length P" and "length P \<le> n" and n: "n \<le> max_key_bits"
    and pk: "ptr_ok pfx (length P)" "ptr_bits pfx (length P) = P" and sha: "\<And>x. length (sha256 x) = hash_bytes"
    and "m = 0 \<longrightarrow> P \<noteq> []"
  shows "dict_ok (prefix_result n m P remove_prefix es) (prefix_loop sha256 (Some c) pfx (length P) remove_prefix n m)"
  using assms(1-3,8)
proof (induction "length P - m" arbitrary: m c es rule: less_induct)
  case less
  let ?D = "drop m P"
  have n31: "n - m < 2 ^ 31" using n by simp
  obtain lab ls rest es0 where L: "label_of_cell (Some c) (n - m) chk_all = Inr lab" "label_view lab ls rest (c_refs c)"
    "length ls \<le> n - m" "payload_rep (n - m - length ls) rest (c_refs c) es0" "es = pre ls es0" "ordinary c"
    using dict_rep_label [OF less.prems(1) n31, of chk_all] by auto
  have wf: "\<forall>r \<in> set (c_refs c). wf_cell r" using ordinary_refs [OF L(6)] by blast
  note B = view_bits [OF L(2)]
  define l where "l = min (length P - m) (length ls)"
  have "ptr_ok (ptr_add pfx m) l" using ptr_ok_add [OF pk(1), of m l] less.prems(2) by (simp add: l_def)
  note C = label_common_prefix_len_eq [OF L(2) this]
  have dk: "ptr_bits (ptr_add pfx m) l = take l ?D"
    using ptr_bits_add [of m l "length P" pfx] pk(2) less.prems(2) by (simp add: l_def drop_take)
  have ll: "length (take l ?D) = l" by (simp add: l_def)
  have pf: "lcp ls (take l ?D) < l \<longleftrightarrow> \<not> prefix (take l ?D) ls"
    using lcp_prefix [of "take l ?D" ls] lcp_le(2) [of ls "take l ?D"] unfolding ll lcp_sym [of "take l ?D" ls] by auto
  note unf = prefix_loop.simps [of sha256 "Some c" pfx "length P" remove_prefix n m, unfolded L(1) bind_err_simps Let_def B l_def [symmetric] C dk]
  show ?case
  proof (cases "lcp ls (take l ?D) < l")
    case True
    have "\<not> prefix ?D ls" using True pf prefix_order.trans [OF take_is_prefix, of ?D ls l] by blast
    moreover have "\<not> prefix ls ?D"
    proof
      assume "prefix ls ?D"
      then have "take l ?D = take l ls" by (auto simp: prefix_def l_def)
      then show False using True pf take_is_prefix [of l ls] by simp
    qed
    ultimately have "with_prefix ?D es = []" unfolding L(5) by (rule with_prefix_none)
    then show ?thesis unfolding unf if_P [OF True] by (simp add: prefix_result_def subdict_def chop_def dict_rep_opt_def)
  next
    case False
    then have tk: "prefix (take l ?D) ls" using pf by simp
    show ?thesis
    proof (cases "m + length ls < length P")
      case True
      then have l: "l = length ls" by (simp add: l_def)
      have lt: "length ls < n - m" using True less.prems(3) by simp
      obtain a b ea eb where F: "rest = []" "c_refs c = [a, b]" "dict_rep (n - m - length ls - 1) a ea"
        "dict_rep (n - m - length ls - 1) b eb" "es0 = pre [False] ea @ pre [True] eb"
        using payload_fork_step [OF L(4) lt] by blast
      define x where "x = ptr_bit pfx (m + length ls)"
      define e where "e = (if x then eb else ea)"
      define m1 where "m1 = m + length ls + 1"
      have xk: "x = P ! (m + length ls)" using ptr_bit_nth [OF pk(1) True] pk(2) by (simp add: x_def)
      have "length (take (length ls) ?D) = length ls" using True by simp
      then have tl: "take (length ls) ?D = ls" using tk unfolding l by (rule prefix_same_length)
      have Dx: "?D = ls @ x # drop m1 P"
        using id_take_nth_drop [of "length ls" ?D] True tl xk by (simp add: m1_def add.commute)
      have P': "P = take m P @ ls @ x # drop m1 P" using Dx by (metis append_take_drop_id)
      have tm: "take m1 P = take m P @ ls @ [x]"
        by (subst P') (use less.prems(2) in \<open>simp add: m1_def\<close>)
      have m1: "n - m1 = n - m - length ls - 1" "m1 \<le> length P" "length P - m1 < length P - m"
        using True by (simp_all add: m1_def)
      have c': "prefetch_ref (l_remainder lab) (of_bool x) = Some (if x then b else a)" "dict_rep (n - m1) (if x then b else a) e"
        using view_ref [OF L(2)] F(2,3,4) by (simp_all add: m1(1) e_def)
      have "with_prefix ?D es = pre (ls @ [x]) (with_prefix (drop m1 P) e)"
        unfolding Dx L(5) F(5) e_def by (rule with_prefix_fork)
      then have sd: "subdict m P ?D remove_prefix es = subdict m1 P (drop m1 P) remove_prefix e"
        using chop_pre_add [of "ls @ [x]" "length (drop m1 P)"] by (simp add: subdict_def tm Dx)
      have "dict_ok (prefix_result n m1 P remove_prefix e)
          (prefix_loop sha256 (Some (if x then b else a)) pfx (length P) remove_prefix n m1)"
        using less.hyps [OF m1(3) c'(2) m1(2) less.prems(3)] by (simp add: m1_def)
      moreover have "m1 \<noteq> 0" by (simp add: m1_def)
      ultimately have "dict_ok (prefix_result n m P remove_prefix es)
          (prefix_loop sha256 (Some (if x then b else a)) pfx (length P) remove_prefix n m1)"
        by (elim dict_ok_mono) (auto simp: prefix_result_def sd split: if_splits)
      then show ?thesis unfolding unf if_not_P [OF False] if_P [OF True] x_def [symmetric] c'(1) m1_def [symmetric] .
    next
      case last: False
      then have "l = length P - m" by (simp add: l_def)
      then have D: "prefix ?D ls" using tk by simp
      show ?thesis
        unfolding unf if_not_P [OF False] if_not_P [OF last] L(5)
        by (rule prefix_end_ok [OF L(2,4) wf L(3) less.prems(2,3) n pk D sha])
    qed
  qed
qed

section \<open>The dictionary object\<close>

lemma with_prefix_long: "\<forall>k \<in> set (map fst es). length k < length p \<Longrightarrow> with_prefix p es = []"
  by (fastforce simp: with_prefix_def filter_empty_conv dest: prefix_length_le)

lemma with_prefix_Nil [simp]: "with_prefix [] es = es"
  by (simp add: with_prefix_def)

lemma chop_0 [simp]: "chop 0 es = es"
  by (simp add: chop_def)

text \<open>The entries that are left, with keys of \<open>n\<close> bits; the prefix is \<open>P\<close>.\<close>

lemma extract_prefix_subdict_ok:
  assumes d: "dict_inv d n es" and pk: "ptr_ok pfx (length P)" "ptr_bits pfx (length P) = P"
    and len: "remove_prefix \<longrightarrow> length P \<le> n" and sha: "\<And>x. length (sha256 x) = hash_bytes"
  defines "es' \<equiv> if remove_prefix then chop (length P) (with_prefix P es) else with_prefix P es"
  shows "dict_ok (\<lambda>(c, changed). dict_rep_opt (if remove_prefix then n - length P else n)
       (if changed then c else d_root_cell d) es')
     (extract_prefix_subdict sha256 d (d_root_cell d) pfx (int (length P)) remove_prefix)"
proof -
  have D: "d_key_bits d = int n" "n \<le> max_key_bits" "dict_rep_opt n (d_root_cell d) es"
    using d by (simp_all add: dict_inv_def)
  show ?thesis
  proof (cases "d_root_cell d")
    case None
    then have "es' = []" using D(3) by (simp add: dict_rep_opt_def es'_def with_prefix_def chop_def)
    then show ?thesis using None by (simp add: extract_prefix_subdict_def dict_is_empty_def dict_rep_opt_def)
  next
    case (Some c)
    then have c: "dict_rep n c es" using D(3) by (simp add: dict_rep_opt_def)
    consider "P = []" | "P \<noteq> []" "length P > n" | "P \<noteq> []" "length P \<le> n" by linarith
    then show ?thesis
    proof cases
      case 1
      then show ?thesis using c Some by (simp add: extract_prefix_subdict_def es'_def dict_rep_opt_def)
    next
      case 2
      then have "with_prefix P es = []" using dict_rep_lengths(1) [OF c] by (intro with_prefix_long) simp
      then show ?thesis using 2 len D(1) by (simp add: extract_prefix_subdict_def es'_def dict_rep_opt_def dict_is_empty_def Some)
    next
      case 3
      have "dict_ok (prefix_result n 0 P remove_prefix es) (prefix_loop sha256 (Some c) pfx (length P) remove_prefix n 0)"
        by (rule prefix_loop_ok [OF _ _ 3(2) D(2) pk sha]) (use c 3(1) in simp_all)
      then have "dict_ok (\<lambda>(c', changed). dict_rep_opt (if remove_prefix then n - length P else n)
          (if changed then c' else d_root_cell d) es') (prefix_loop sha256 (Some c) pfx (length P) remove_prefix n 0)"
        by (rule dict_ok_mono) (use c Some in \<open>auto simp: prefix_result_def subdict_0 es'_def dict_rep_opt_def split: if_splits\<close>)
      then show ?thesis using 3 D(1) by (simp add: extract_prefix_subdict_def dict_is_empty_def Some)
    qed
  qed
qed

theorem cut_prefix_subdict_ok:
  assumes d: "dict_inv d n es" and pk: "ptr_ok pfx (length P)" "ptr_bits pfx (length P) = P"
    and sha: "\<And>x. length (sha256 x) = hash_bytes"
  shows "if remove_prefix \<and> n < length P then cut_prefix_subdict sha256 d pfx (int (length P)) remove_prefix = Inr (False, d)
    else dict_ok (\<lambda>(ok, d'). ok \<and>
        (if remove_prefix then dict_inv d' (n - length P) (chop (length P) (with_prefix P es)) else dict_inv d' n (with_prefix P es)))
      (cut_prefix_subdict sha256 d pfx (int (length P)) remove_prefix)"
proof (cases "remove_prefix \<and> n < length P")
  case True
  then show ?thesis using d by (simp add: cut_prefix_subdict_def) (simp add: dict_inv_def)
next
  case False
  let ?es' = "if remove_prefix then chop (length P) (with_prefix P es) else with_prefix P es"
  let ?n = "if remove_prefix then n - length P else n"
  let ?d = "if remove_prefix then d\<lparr>d_key_bits := d_key_bits d - int (length P)\<rparr> else d"
  have len: "remove_prefix \<longrightarrow> length P \<le> n" using False by auto
  have "d_key_bits d = int n" using d by (simp add: dict_inv_def)
  then have e: "cut_prefix_subdict sha256 d pfx (int (length P)) remove_prefix =
      bind_err (extract_prefix_subdict sha256 d (d_root_cell d) pfx (int (length P)) remove_prefix)
        (\<lambda>(c, changed). Inr (True, if changed then set_root_cell ?d c else ?d))"
    using d False by (auto simp: cut_prefix_subdict_def Let_def)
  have "dict_ok (\<lambda>(ok, d'). ok \<and> dict_inv d' ?n ?es') (cut_prefix_subdict sha256 d pfx (int (length P)) remove_prefix)"
    unfolding e
  proof (rule dict_ok_bind [OF extract_prefix_subdict_ok [OF d pk len sha]])
    fix x assume x: "case x of (c, changed) \<Rightarrow> dict_rep_opt ?n (if changed then c else d_root_cell d) ?es'"
    obtain c changed where xe: "x = (c, changed)" by (cases x)
    have "dict_inv (if changed then set_root_cell ?d c else ?d) ?n ?es'"
      using x d len by (auto simp: xe dict_inv_def dict_is_valid_bit flag_bits set_root_cell_def flag_updates)
    then show "dict_ok (\<lambda>(ok, d'). ok \<and> dict_inv d' ?n ?es')
        (case x of (c, changed) \<Rightarrow> Inr (True, if changed then set_root_cell ?d c else ?d))" by (simp add: xe)
  qed
  then show ?thesis unfolding if_not_P [OF False] by (rule dict_ok_mono) auto
qed

end
