(* ===== verification/Dict_Visit.thy ===== *)
theory Dict_Visit
  imports Dict_Object
begin

text \<open>
  Visiting the entries of a dictionary, \<open>dict_check_for_each\<close> and \<open>dict_validate_check\<close> of
  \<open>crypto/vm/dict.cpp\<close>. The function is called with the value, the whole key and its length, in the
  order of the keys, and the visit stops when it fails; its effects are those on a state that goes
  through the visit. \<open>validate_check\<close> looks at the structure of the forks as well.
\<close>

unbundle bit_operations_syntax

section \<open>Operations\<close>

type_synonym 's foreach_func = "slice \<Rightarrow> bit_ptr \<Rightarrow> nat \<Rightarrow> 's \<Rightarrow> dict_error + bool \<times> 's"

function dict_check_for_each ::
  "cell option \<Rightarrow> bit_ptr \<Rightarrow> nat \<Rightarrow> nat \<Rightarrow> 's foreach_func \<Rightarrow> bool \<Rightarrow> 's \<Rightarrow> dict_error + (bool \<times> 's) \<times> byte list" where
  "dict_check_for_each dict key_buffer n total_key_len foreach_func invert_first s =
     (if dict = None then Inr ((True, s), fst key_buffer)
      else
        bind_err (label_of_cell dict n chk_all) (\<lambda>lab.
          let l = l_bits lab; offs = snd key_buffer; (buf, lab) = extract_label_to lab key_buffer
          in if l = n then
               bind_err (foreach_func (l_remainder lab) (buf, offs + n - total_key_len) total_key_len s) (\<lambda>r. Inr (r, buf))
             else
               let c1 = prefetch_ref (l_remainder lab) 0; c2 = prefetch_ref (l_remainder lab) 1;
                   invert_first = (if l \<noteq> 0 then False else invert_first);
                   (c1, c2) = (if invert_first then (c2, c1) else (c1, c2));
                   buf = ptr_set_bit (buf, offs + l) 0 invert_first
               in bind_err (dict_check_for_each c1 (buf, offs + l + 1) (n - l - 1) total_key_len foreach_func False s)
                    (\<lambda>((ok, s), buf).
                      if \<not> ok then Inr ((False, s), buf)
                      else
                        let buf = ptr_set_bit (buf, offs + l) 0 (\<not> invert_first)
                        in dict_check_for_each c2 (buf, offs + l + 1) (n - l - 1) total_key_len foreach_func False s)))"
  by pat_completeness auto
termination
  by (relation "measure (\<lambda>(dict, key, n, total, f, inv, s). n)") (auto intro: label_leaves_less)

declare dict_check_for_each.simps [simp del]

text \<open>Nothing may be left of a fork when its two references have been taken.\<close>

definition slice_empty_ext :: "slice \<Rightarrow> bool" where
  "slice_empty_ext s \<longleftrightarrow> slice_size s = 0 \<and> slice_size_refs s = 0"

definition check_fork :: "slice \<Rightarrow> cell option \<Rightarrow> cell option \<Rightarrow> nat \<Rightarrow> bool" where
  "check_fork cs c1 c2 n = slice_empty_ext cs"

definition check_leaf :: "slice \<Rightarrow> bit_ptr \<Rightarrow> nat \<Rightarrow> bool" where
  "check_leaf cs key key_len = True"

function dict_validate_check ::
  "cell option \<Rightarrow> bit_ptr \<Rightarrow> nat \<Rightarrow> nat \<Rightarrow> 's foreach_func \<Rightarrow> bool \<Rightarrow> 's \<Rightarrow> dict_error + (bool \<times> 's) \<times> byte list" where
  "dict_validate_check dict key_buffer n total_key_len foreach_func invert_first s =
     (if dict = None then Inr ((True, s), fst key_buffer)
      else
        bind_err (label_of_cell dict n chk_all) (\<lambda>lab.
          let l = l_bits lab; offs = snd key_buffer; (buf, lab) = extract_label_to lab key_buffer
          in if l = n then
               let key = (buf, offs + n - total_key_len)
               in if \<not> check_leaf (l_remainder lab) key total_key_len then Inr ((False, s), buf)
                  else bind_err (foreach_func (l_remainder lab) key total_key_len s) (\<lambda>r. Inr (r, buf))
             else
               let (c1, cs) = fetch_ref (l_remainder lab); (c2, cs) = fetch_ref cs
               in if \<not> check_fork cs c1 c2 (n - l) then Inr ((False, s), buf)
                  else
                    let invert_first = (if l \<noteq> 0 then False else invert_first);
                        (c1, c2) = (if invert_first then (c2, c1) else (c1, c2));
                        buf = ptr_set_bit (buf, offs + l) 0 invert_first
                    in bind_err (dict_validate_check c1 (buf, offs + l + 1) (n - l - 1) total_key_len foreach_func False s)
                         (\<lambda>((ok, s), buf).
                           if \<not> ok then Inr ((False, s), buf)
                           else
                             let buf = ptr_set_bit (buf, offs + l) 0 (\<not> invert_first)
                             in dict_validate_check c2 (buf, offs + l + 1) (n - l - 1) total_key_len foreach_func False s)))"
  by pat_completeness auto
termination
  by (relation "measure (\<lambda>(dict, key, n, total, f, inv, s). n)") (auto intro: label_leaves_less)

declare dict_validate_check.simps [simp del]

definition check_for_each :: "dict \<Rightarrow> 's foreach_func \<Rightarrow> bool \<Rightarrow> 's \<Rightarrow> dict_error + (bool \<times> 's) \<times> dict" where
  "check_for_each d foreach_func invert_first s =
     bind_err (force_validate d) (\<lambda>d.
       if dict_is_empty d then Inr ((True, s), d)
       else
         let key_len = nat (d_key_bits d)
         in bind_err (dict_check_for_each (d_root_cell d) (replicate max_key_bytes 0, 0) key_len key_len foreach_func
              invert_first s) (\<lambda>(r, buf). Inr (r, d)))"

definition validate_check :: "dict \<Rightarrow> 's foreach_func \<Rightarrow> bool \<Rightarrow> 's \<Rightarrow> dict_error + (bool \<times> 's) \<times> dict" where
  "validate_check d foreach_func invert_first s =
     (let (ok, d) = dict_validate d
      in if \<not> ok then Inr ((False, s), d)
         else if dict_is_empty d then Inr ((True, s), d)
         else
           let key_len = nat (d_key_bits d)
           in bind_err (dict_validate_check (d_root_cell d) (replicate max_key_bytes 0, 0) key_len key_len foreach_func
                invert_first s) (\<lambda>(r, buf). Inr (r, d)))"

definition validate_all :: "dict \<Rightarrow> dict_error + bool \<times> dict" where
  "validate_all d =
     bind_err (validate_check d (\<lambda>value key n s. Inr (True, s)) False ()) (\<lambda>((ok, s), d).
       Inr (if ok then (True, d) else dict_invalidate d))"

section \<open>Visiting a list of entries\<close>

fun visit_all :: "(bool list \<Rightarrow> 'v \<Rightarrow> 's \<Rightarrow> dict_error + bool \<times> 's) \<Rightarrow> (bool list \<times> 'v) list \<Rightarrow> 's \<Rightarrow> dict_error + bool \<times> 's" where
  "visit_all f [] s = Inr (True, s)"
| "visit_all f ((k, v) # es) s = bind_err (f k v s) (\<lambda>(ok, s). if ok then visit_all f es s else Inr (False, s))"

lemma visit_all_append:
  "visit_all f (xs @ ys) s = bind_err (visit_all f xs s) (\<lambda>(ok, s). if ok then visit_all f ys s else Inr (False, s))"
proof (induction xs arbitrary: s)
  case (Cons x xs)
  obtain k v where x: "x = (k, v)" by (cases x)
  show ?case using Cons.IH by (cases "f k v s") (auto simp: x)
qed simp

lemma visit_all_pre: "visit_all f (pre p es) s = visit_all (\<lambda>k. f (p @ k)) es s"
proof (induction es arbitrary: s)
  case (Cons x es)
  obtain k v where x: "x = (k, v)" by (cases x)
  show ?case using Cons.IH by (cases "f (p @ k) v s") (auto simp: x)
qed simp

text \<open>A predicate: the visit finds out whether it holds for all of the entries.\<close>

lemma visit_all_pred: "visit_all (\<lambda>k v s. Inr (p k v, s)) es s = Inr (list_all (\<lambda>(k, v). p k v) es, s)"
  by (induction es) auto

text \<open>A function that never stops: its effects one after the other.\<close>

lemma visit_all_fold: "visit_all (\<lambda>k v s. Inr (True, g k v s)) es s = Inr (True, fold (\<lambda>(k, v). g k v) es s)"
  by (induction es arbitrary: s) auto

text \<open>The entries in the order of the visit: those whose key begins with 1 come first, when the first
  bit is inverted.\<close>

definition visit_order :: "bool \<Rightarrow> dict_entry list \<Rightarrow> dict_entry list" where
  "visit_order invert_first es =
     (if invert_first then filter (\<lambda>e. take 1 (fst e) = [True]) es @ filter (\<lambda>e. take 1 (fst e) \<noteq> [True]) es else es)"

lemma set_visit_order [simp]: "set (visit_order flip es) = set es"
  by (auto simp: visit_order_def)

lemma visit_order_False [simp]: "visit_order False es = es"
  by (simp add: visit_order_def)

lemma visit_order_label: "ls \<noteq> [] \<Longrightarrow> visit_order flip (pre ls es) = pre ls es"
proof -
  assume "ls \<noteq> []"
  then obtain b bs where ls: "ls = b # bs" by (cases ls) auto
  have "filter (\<lambda>e. take 1 (fst e) = [True]) (pre ls es) = (if b then pre ls es else [])"
    "filter (\<lambda>e. take 1 (fst e) \<noteq> [True]) (pre ls es) = (if b then [] else pre ls es)"
    by (auto simp: pre_def ls filter_empty_conv intro!: filter_True)
  then show ?thesis by (simp add: visit_order_def)
qed

lemma visit_order_fork:
  "visit_order flip (pre [False] ea @ pre [True] eb) = (if flip then pre [True] eb @ pre [False] ea else pre [False] ea @ pre [True] eb)"
proof -
  have "filter (\<lambda>e. take 1 (fst e) = [True]) (pre [False] ea) = []" "filter (\<lambda>e. take 1 (fst e) = [True]) (pre [True] eb) = pre [True] eb"
    "filter (\<lambda>e. take 1 (fst e) \<noteq> [True]) (pre [False] ea) = pre [False] ea" "filter (\<lambda>e. take 1 (fst e) \<noteq> [True]) (pre [True] eb) = []"
    by (auto simp: pre_def filter_empty_conv intro!: filter_True)
  then show ?thesis by (simp add: visit_order_def)
qed

lemma visit_order_single [simp]: "visit_order flip [e] = [e]"
  by (simp add: visit_order_def)

text \<open>It is the order of the keys, as they are or as signed numbers.\<close>

lemma key_less_plain: "key_less 0 a b \<longleftrightarrow> lex_cmp a b = - 1"
  using oriented_tail [of 0] by (simp add: key_less_def mode_ok_def)

lemma key_less_signed:
  "key_less 1 (x # a) (y # b) \<longleftrightarrow> (if x = y then lex_cmp a b = - 1 else x)"
  by (simp add: key_less_def oriented_def)

lemma key_less_same: "lex_cmp a b = - 1 \<Longrightarrow> take 1 a = take 1 b \<Longrightarrow> key_less 1 a b"
  by (cases a; cases b) (simp_all add: key_less_signed)

lemma key_less_start: "take 1 a = [True] \<Longrightarrow> take 1 b \<noteq> [True] \<Longrightarrow> length a = length b \<Longrightarrow> key_less 1 a b"
  by (cases a; cases b) (simp_all add: key_less_signed)

lemma start_False: "take 1 a \<noteq> [True] \<Longrightarrow> take 1 b \<noteq> [True] \<Longrightarrow> length a = length b \<Longrightarrow> take 1 a = take 1 b"
  by (cases a; cases b) simp_all

lemma visit_order_sorted:
  assumes sorted: "sorted_keys es" and len: "\<And>k. k \<in> set (map fst es) \<Longrightarrow> length k = n"
  shows "sorted_wrt (\<lambda>x y. key_less (of_bool flip) (fst x) (fst y)) (visit_order flip es)"
proof (cases flip)
  case False
  then show ?thesis using sorted by (simp add: key_less_plain sorted_keys_def)
next
  case True
  let ?A = "filter (\<lambda>e. take 1 (fst e) = [True]) es" and ?B = "filter (\<lambda>e. take 1 (fst e) \<noteq> [True]) es"
  let ?R = "\<lambda>x y. key_less 1 (fst x) (fst y)"
  have lens: "length (fst x) = length (fst y)" if "x \<in> set es" "y \<in> set es" for x y
  proof -
    have "length (fst x) = n" "length (fst y) = n" by (rule len, use that in simp)+
    then show ?thesis by simp
  qed
  have srt: "sorted_wrt (\<lambda>x y. lex_cmp (fst x) (fst y) = - 1) (filter P es)" for P
    using sorted by (simp add: sorted_keys_def sorted_wrt_filter)
  have a: "sorted_wrt ?R ?A"
    by (rule sorted_wrt_mono_rel [OF _ srt]) (simp add: key_less_same)
  have b: "sorted_wrt ?R ?B"
  proof (rule sorted_wrt_mono_rel [OF _ srt])
    fix x y assume x: "x \<in> set ?B" and y: "y \<in> set ?B" and c: "lex_cmp (fst x) (fst y) = - 1"
    have "x \<in> set es" "y \<in> set es" using x y by simp_all
    then have "take 1 (fst x) = take 1 (fst y)" using start_False [OF _ _ lens] x y by simp
    then show "?R x y" by (rule key_less_same [OF c])
  qed
  have c: "?R x y" if "x \<in> set ?A" "y \<in> set ?B" for x y
    by (rule key_less_start [OF _ _ lens]) (use that in simp_all)
  have "sorted_wrt ?R (?A @ ?B)" unfolding sorted_wrt_append using a b c by blast
  then show ?thesis using True by (simp add: visit_order_def)
qed

lemma visit_order_of_dict:
  assumes d: "dict_inv d n es"
  shows "sorted_wrt (\<lambda>x y. key_less (of_bool flip) (fst x) (fst y)) (visit_order flip es)"
proof (cases "d_root_cell d")
  case None
  then show ?thesis using d by (simp add: dict_inv_def dict_rep_opt_def visit_order_def)
next
  case (Some c)
  then have r: "dict_rep n c es" using d by (simp add: dict_inv_def dict_rep_opt_def)
  show ?thesis
    by (rule visit_order_sorted [OF dict_rep_sorted(1) [OF r] bspec [OF dict_rep_lengths(1) [OF r]]])
qed

section \<open>The visit of the tree\<close>

text \<open>A node under a key in the buffer: it is opened, and its label put into the buffer.\<close>

lemma open_node_mode:
  assumes rep: "dict_rep n c es" and h: "holds buf Q" and room: "length Q + n \<le> 8 * length buf" and n: "n < 2 ^ 31" and mode: "mode \<noteq> 0"
  obtains (leaf) lab buf1 lab1 ls rest where "label_of_cell (Some c) n mode = Inr lab" "l_bits lab = n"
      "extract_label_to lab (buf, length Q) = (buf1, lab1)" "length ls = n" "es = [(ls, rest, c_refs c)]"
      "holds buf1 (Q @ ls)" "length buf1 = length buf" "slice_ok (l_remainder lab1)"
      "slice_bits (l_remainder lab1) = rest" "slice_children (l_remainder lab1) = c_refs c" "label_view lab ls rest (c_refs c)"
    | (fork) lab buf1 lab1 ls a b ea eb where "label_of_cell (Some c) n mode = Inr lab" "l_bits lab = length ls"
      "extract_label_to lab (buf, length Q) = (buf1, lab1)" "length ls < n" "c_refs c = [a, b]"
      "dict_rep (n - length ls - 1) a ea" "dict_rep (n - length ls - 1) b eb" "es = pre ls (pre [False] ea @ pre [True] eb)"
      "holds buf1 (Q @ ls)" "length buf1 = length buf" "slice_ok (l_remainder lab1)"
      "slice_bits (l_remainder lab1) = []" "slice_children (l_remainder lab1) = [a, b]" "label_view lab ls [] [a, b]"
proof -
  obtain lab ls rest es0 where L: "label_of_cell (Some c) n mode = Inr lab" "label_view lab ls rest (c_refs c)"
    "length ls \<le> n" "payload_rep (n - length ls) rest (c_refs c) es0" "es = pre ls es0"
    using dict_rep_label [OF rep n mode] by blast
  obtain buf1 lab1 where x: "extract_label_to lab (buf, length Q) = (buf1, lab1)" by fastforce
  have "ptr_ok (buf, length Q) (length ls)" using room L(3) by (simp add: ptr_ok_def)
  note X = extract_label_rest [OF L(2) this, unfolded x fst_conv snd_conv]
  have room: "length Q + length ls \<le> 8 * length buf" using room L(3) by simp
  have h1: "holds buf1 (Q @ ls)" using holds_extract [OF h _ _ room] X(1,2) by simp
  note B = view_bits [OF L(2)]
  show ?thesis
  proof (cases "length ls = n")
    case True
    have "es = [(ls, rest, c_refs c)]" using payload_leaf [OF L(4) True] by (simp add: L(5))
    from leaf [OF L(1) _ x True this h1 X(2,4-6) L(2)] B True show ?thesis by simp
  next
    case False
    then have lt: "length ls < n" using L(3) by simp
    obtain a b ea eb where F: "rest = []" "c_refs c = [a, b]" "dict_rep (n - length ls - 1) a ea"
      "dict_rep (n - length ls - 1) b eb" "es0 = pre [False] ea @ pre [True] eb"
      using payload_fork_step [OF L(4) lt] by blast
    have "es = pre ls (pre [False] ea @ pre [True] eb)" by (simp only: L(5) F(5))
    from fork [OF L(1) _ x lt F(2-4) this h1 X(2,4)] X(5,6) F(1,2) B L(2) show ?thesis by simp
  qed
qed

lemmas open_node [consumes 4, case_names leaf fork] = open_node_mode [where mode = chk_all, OF _ _ _ _ numeral_neq_zero]

text \<open>The buffer below a fork, on the side \<open>side\<close>.\<close>

lemma below_fork:
  assumes h: "holds buf (Q @ ls @ R)" and room: "length Q + n \<le> 8 * length buf" and lt: "length ls < n"
    and t: "n \<le> len" "len \<le> length Q + n" and m: "m = n - length ls - 1"
    and Q': "Q' = Q @ ls @ [side]" and buf': "buf' = ptr_set_bit (buf, length Q + length ls) 0 side"
  shows "holds buf' Q'" and "length buf' = length buf" and "m < n" and "m \<le> len" and "len \<le> length Q' + m"
    and "length Q' + m \<le> 8 * length buf'" and "length Q' = length Q + length ls + 1"
    and "length Q' + m - len = length Q + n - len" and "drop (length Q + n - len) Q' = drop (length Q + n - len) Q @ ls @ [side]"
proof -
  have "holds buf (Q @ ls)" using holds_prefix [of buf "Q @ ls" R] h by simp
  from holds_set_bit [OF this, of side] show "holds buf' Q'" using room lt by (simp add: buf' Q')
  show l: "length buf' = length buf" by (simp add: buf')
  show "m < n" "m \<le> len" "len \<le> length Q' + m" "length Q' + m \<le> 8 * length buf'" "length Q' = length Q + length ls + 1"
    "length Q' + m - len = length Q + n - len" "drop (length Q + n - len) Q' = drop (length Q + n - len) Q @ ls @ [side]"
    using room lt t l by (simp_all add: m Q')
qed

definition visited :: "dict_error + bool \<times> 's \<Rightarrow> bool list \<Rightarrow> nat \<Rightarrow> dict_error + (bool \<times> 's) \<times> byte list \<Rightarrow> bool" where
  "visited r Q room x \<longleftrightarrow>
     (case x of
        Inl e \<Rightarrow> r = Inl e
      | Inr (y, buf) \<Rightarrow> r = Inr y \<and> (fst y \<longrightarrow> holds buf Q \<and> length buf = room))"

text \<open>A visit of all entries leaves the last key in the buffer.\<close>

definition last_key :: "bool list \<Rightarrow> dict_entry list \<Rightarrow> bool list" where
  "last_key Q es = (if es = [] then Q else Q @ fst (last es))"

lemma holds_last: "holds buf (last_key Q es) \<Longrightarrow> holds buf Q"
  by (auto simp: last_key_def intro: holds_prefix split: if_splits)

text \<open>What the visit relies on: the function does not look beyond the key and the value.\<close>

locale foreach_function =
  fixes func :: "'s foreach_func"
    and len :: nat
    and f :: "bool list \<Rightarrow> dict_val \<Rightarrow> 's \<Rightarrow> dict_error + bool \<times> 's"
  assumes func_value: "\<lbrakk>slice_ok v; ptr_ok key len\<rbrakk> \<Longrightarrow> func v key len s = f (ptr_bits key len) (slice_bits v, slice_children v) s"
begin

theorem dict_check_for_each_last:
  assumes "dict_rep_opt n dict es" and "holds buf Q" and "length Q + n \<le> 8 * length buf"
    and "n \<le> len" and "len \<le> length Q + n" and "n < 2 ^ 31"
  shows "visited (visit_all (\<lambda>k. f (drop (length Q + n - len) Q @ k)) (visit_order flip es) s) (last_key Q (visit_order flip es)) (length buf)
     (dict_check_for_each dict (buf, length Q) n len func flip s)"
  using assms
proof (induction n arbitrary: dict es buf Q flip s rule: less_induct)
  case (less n)
  let ?st = "length Q + n - len"
  show ?case
  proof (cases dict)
    case None
    then show ?thesis using less.prems(1,2)
      by (simp add: dict_check_for_each.simps [of None] dict_rep_opt_def visited_def visit_order_def last_key_def)
  next
    case (Some c)
    have rep: "dict_rep n c es" using less.prems(1) by (simp add: Some dict_rep_opt_def)
    have ne: "Some c \<noteq> None" by simp
    note unf = dict_check_for_each.simps [of "Some c" "(buf, length Q)" n len func flip s, unfolded if_not_P [OF ne]]
    from rep less.prems(2,3,6) show ?thesis
    proof (cases rule: open_node)
      case (leaf lab buf1 lab1 ls rest)
      have st: "?st \<le> length Q" "length Q + n - ?st = len" using less.prems(4,5) by simp_all
      have key: "ptr_bits (buf1, ?st) len = drop ?st Q @ ls" using holds_ptr(2) [OF leaf(6) st(1)] leaf(4) st(2) by simp
      have pk: "ptr_ok (buf1, ?st) len" using leaf(4,6) st less.prems(4) by (simp add: ptr_ok_def holds_def)
      have run: "dict_check_for_each dict (buf, length Q) n len func flip s =
          bind_err (f (drop ?st Q @ ls) (rest, c_refs c) s) (\<lambda>r. Inr (r, buf1))"
        unfolding Some unf leaf(1,2,3) bind_err_simps Let_def prod.case fst_conv snd_conv if_P [OF refl]
          func_value [OF leaf(8) pk] key leaf(9,10) ..
      show ?thesis unfolding run leaf(5) visit_order_single using leaf(6,7)
        by (cases "f (drop ?st Q @ ls) (rest, c_refs c) s") (auto simp: visited_def last_key_def)
    next
      case (fork lab buf1 lab1 ls a b ea eb)
      define sw where "sw = (if length ls \<noteq> 0 then False else flip)"
      define m where "m = n - length ls - 1"
      define q where "q = length Q + length ls"
      define buf2 where "buf2 = ptr_set_bit (buf1, q) 0 sw"
      define Q1 where "Q1 = Q @ ls @ [sw]"
      have h1: "holds buf1 (Q @ ls @ [])" "length Q + n \<le> 8 * length buf1" using fork(9,10) less.prems(3) by simp_all
      note B = below_fork [OF h1 fork(4) less.prems(4,5), OF m_def Q1_def buf2_def [unfolded q_def]]
      have nl: "length ls \<noteq> n" using fork(4) by simp
      have refs: "prefetch_ref (l_remainder lab1) 0 = Some a" "prefetch_ref (l_remainder lab1) 1 = Some b"
        using view_advanced_ref [OF fork(11,13)] by simp_all
      have pair: "(if sw then (Some b, Some a) else (Some a, Some b)) = (Some (if sw then b else a), Some (if sw then a else b))" by simp
      have run: "dict_check_for_each dict (buf, length Q) n len func flip s =
          bind_err (dict_check_for_each (Some (if sw then b else a)) (buf2, q + 1) m len func False s)
            (\<lambda>((ok, s), buf).
              if \<not> ok then Inr ((False, s), buf)
              else dict_check_for_each (Some (if sw then a else b)) (ptr_set_bit (buf, q) 0 (\<not> sw), q + 1) m len func False s)"
        unfolding Some unf fork(1,2,3) bind_err_simps Let_def prod.case fst_conv snd_conv if_not_P [OF nl] refs
          sw_def [symmetric] pair q_def [symmetric] m_def [symmetric] buf2_def [symmetric] ..
      have m31: "m < 2 ^ 31" using B(3) less.prems(6) by simp
      have d: "dict_rep_opt m (Some (if x then b else a)) (if x then eb else ea)" for x
        using fork(6,7) by (simp add: dict_rep_opt_def m_def)
      have d': "dict_rep_opt m (Some (if sw then a else b)) (if sw then ea else eb)" using d [of "\<not> sw"] by (cases sw) simp_all
      let ?f = "\<lambda>k. f (drop ?st Q @ k)"
      have order: "visit_order flip es = pre (ls @ [sw]) (if sw then eb else ea) @ pre (ls @ [\<not> sw]) (if sw then ea else eb)"
      proof (cases "ls = []")
        case True
        then show ?thesis by (simp add: fork(8) visit_order_fork sw_def)
      next
        case False
        from visit_order_label [OF this, of flip "pre [False] ea @ pre [True] eb"] False show ?thesis
          by (simp add: fork(8) sw_def)
      qed
      define r1 where "r1 = visit_all (\<lambda>k. f (drop ?st Q @ (ls @ [sw]) @ k)) (if sw then eb else ea) s"
      have spec: "visit_all ?f (visit_order flip es) s =
          bind_err r1 (\<lambda>(ok, s). if ok then visit_all (\<lambda>k. f (drop ?st Q @ (ls @ [\<not> sw]) @ k)) (if sw then ea else eb) s else Inr (False, s))"
        unfolding order visit_all_append visit_all_pre r1_def ..
      have V1: "visited r1 (last_key Q1 (if sw then eb else ea)) (length buf2)
          (dict_check_for_each (Some (if sw then b else a)) (buf2, q + 1) m len func False s)"
        using less.IH [OF B(3) d B(1,6,4,5) m31, where flip = False and s = s] B(7,8,9) by (simp add: r1_def q_def)
      show ?thesis
      proof (cases "dict_check_for_each (Some (if sw then b else a)) (buf2, q + 1) m len func False s")
        case (Inl e)
        then show ?thesis using V1 unfolding run spec by (simp add: visited_def)
      next
        case (Inr y)
        obtain ok s1 buf3 where y: "y = ((ok, s1), buf3)" by (metis prod.collapse)
        have v: "r1 = Inr (ok, s1)" "ok \<Longrightarrow> holds buf3 Q1" "ok \<Longrightarrow> length buf3 = length buf"
          using V1 [unfolded Inr y] B(2) fork(10) holds_last [of buf3 Q1] by (auto simp: visited_def)
        show ?thesis
        proof (cases ok)
          case False
          then show ?thesis unfolding run spec Inr v(1) by (simp add: y visited_def)
        next
          case True
          define Q2 where "Q2 = Q @ ls @ [\<not> sw]"
          define buf4 where "buf4 = ptr_set_bit (buf3, q) 0 (\<not> sw)"
          have len3: "length Q + n \<le> 8 * length buf3" using less.prems(3) v(3) [OF True] by simp
          note B' = below_fork [OF v(2) [OF True, unfolded Q1_def] len3 fork(4) less.prems(4,5), OF m_def Q2_def buf4_def [unfolded q_def]]
          have "visited (visit_all (\<lambda>k. f (drop ?st Q @ (ls @ [\<not> sw]) @ k)) (if sw then ea else eb) s1)
              (last_key Q2 (if sw then ea else eb)) (length buf4)
              (dict_check_for_each (Some (if sw then a else b)) (buf4, q + 1) m len func False s1)"
            using less.IH [OF B'(3) d' B'(1,6,4,5) m31, where flip = False and s = s1] B'(7,8,9) by (simp add: q_def)
          moreover have "last_key Q (visit_order flip es) = last_key Q2 (if sw then ea else eb)"
            unfolding order Q2_def using dict_rep_not_empty(1) [OF fork(6)] dict_rep_not_empty(1) [OF fork(7)]
            by (simp add: last_key_def pre_def last_map case_prod_beta)
          ultimately show ?thesis unfolding run spec Inr v(1) y buf4_def [symmetric]
            using True v(3) B'(2) by (auto simp: visited_def buf4_def [symmetric] split: sum.splits)
        qed
      qed
    qed
  qed
qed

lemma dict_check_for_each_ok:
  assumes "dict_rep_opt n dict es" and "holds buf Q" and "length Q + n \<le> 8 * length buf"
    and "n \<le> len" and "len \<le> length Q + n" and "n < 2 ^ 31"
  shows "visited (visit_all (\<lambda>k. f (drop (length Q + n - len) Q @ k)) (visit_order flip es) s) Q (length buf)
     (dict_check_for_each dict (buf, length Q) n len func flip s)"
  using dict_check_for_each_last [OF assms, of flip s] holds_last by (auto simp: visited_def split: sum.splits)

end

section \<open>The dictionary object\<close>

theorem check_for_each_visits:
  assumes d: "dict_inv d n es" and f: "foreach_function func n f"
  shows "check_for_each d func flip s = bind_err (visit_all f (visit_order flip es) s) (\<lambda>r. Inr (r, d))"
proof (cases "d_root_cell d")
  case None
  then have "es = []" using d by (simp add: dict_inv_def dict_rep_opt_def)
  then show ?thesis using d None by (simp add: check_for_each_def dict_is_empty_def visit_order_def)
next
  case (Some c)
  have D: "d_key_bits d = int n" "n \<le> max_key_bits" "n < 2 ^ 31" "dict_rep_opt n (Some c) es"
    using d Some by (simp_all add: dict_inv_def)
  have room: "length ([] :: bool list) + n \<le> 8 * length (replicate max_key_bytes 0 :: byte list)" using D(2) by simp
  have "visited (visit_all f (visit_order flip es) s) [] (length (replicate max_key_bytes 0 :: byte list))
      (dict_check_for_each (Some c) (replicate max_key_bytes 0, 0) n n func flip s)"
    using foreach_function.dict_check_for_each_ok [OF f D(4) holds_nil room _ _ D(3), where flip = flip and s = s] by simp
  then show ?thesis using d D(1) Some
    by (auto simp: check_for_each_def dict_is_empty_def visited_def split: sum.splits)
qed

text \<open>A predicate on the entries.\<close>

definition pred_visit :: "(bool list \<Rightarrow> dict_val \<Rightarrow> bool) \<Rightarrow> unit foreach_func" where
  "pred_visit p = (\<lambda>v key len s. Inr (p (ptr_bits key len) (slice_bits v, slice_children v), s))"

interpretation pred_visit: foreach_function "pred_visit p" len "\<lambda>k v s. Inr (p k v, s)"
  by unfold_locales (simp add: pred_visit_def)

text \<open>Collecting the entries.\<close>

definition collect_visit :: "dict_entry list foreach_func" where
  "collect_visit = (\<lambda>v key len es. Inr (True, es @ [(ptr_bits key len, slice_bits v, slice_children v)]))"

interpretation collect_visit: foreach_function collect_visit len "\<lambda>k v es. Inr (True, es @ [(k, v)])"
  by unfold_locales (simp add: collect_visit_def)

lemma collect_visits:
  "dict_inv d n es \<Longrightarrow> check_for_each d collect_visit flip [] = Inr ((True, visit_order flip es), d)"
proof -
  assume d: "dict_inv d n es"
  have "fold (\<lambda>(k, v) es. es @ [(k, v)]) xs ys = ys @ xs" for xs ys :: "dict_entry list"
    by (induction xs arbitrary: ys) auto
  then show ?thesis
    by (simp add: check_for_each_visits [OF d collect_visit.foreach_function_axioms] visit_all_fold)
qed

section \<open>Validation\<close>

text \<open>Trees without virtualized cells, which is what is read from a bag of cells.\<close>

fun unvirtual :: "cell \<Rightarrow> bool" where
  "unvirtual (Data_Cell i data refs hashes depths) \<longleftrightarrow> (\<forall>r \<in> set refs. unvirtual r)"
| "unvirtual (Virtual_Cell vl vv c) \<longleftrightarrow> False"

definition sound_tree :: "cell option \<Rightarrow> bool" where
  "sound_tree co \<longleftrightarrow> (\<forall>c. co = Some c \<longrightarrow> wf_cell c \<and> unvirtual c)"

lemma label_opened:
  assumes l: "label_of_cell (Some c) n chk_all = Inr lab" and c: "wf_cell c" "unvirtual c" and n: "n < 2 ^ 31"
  shows "ordinary c \<and> (\<exists>ls rest. parse_bits n (cell_bits c) = Some (ls, rest) \<and> length ls \<le> n \<and> label_view lab ls rest (c_refs c)
     \<and> (length ls < n \<longrightarrow> rest = [] \<and> (\<exists>a b. c_refs c = [a, b] \<and> wf_cell a \<and> wf_cell b \<and> unvirtual a \<and> unvirtual b)))"
proof -
  obtain i d rs hs ds where e: "c = Data_Cell i d rs hs ds" using c(2) by (cases c) auto
  have ord: "ordinary c"
  proof (rule ccontr)
    assume "\<not> ordinary c"
    then have "i_is_special i" using c(1) by (simp add: ordinary_def e)
    then show False using l
      by (auto simp: label_of_cell_def load_cell_slice_ref_def load_cell_slice_def e load_cell_slice_impl.simps Let_def
          split: if_splits)
  qed
  obtain s where s: "load_cell_slice_ref (Some c) = Inr s" "slice_ok s" "slice_bits s = cell_bits c" "slice_children s = c_refs c"
    using load_ordinary [OF ord] by blast
  have l': "label_of_slice s n chk_all = Inr lab" using l s(1) by (simp add: label_of_cell_def)
  note C = label_of_slice_correct [OF s(2) n, of chk_all, unfolded l' s(3,4)]
  obtain ls rest where p: "parse_bits n (cell_bits c) = Some (ls, rest)"
    using C by (cases "parse_bits n (cell_bits c)") auto
  have v: "\<not> bad_fork chk_all n ls rest (c_refs c)" "label_view lab ls rest (c_refs c)"
    using C p by (auto split: if_splits)
  have "\<exists>a b. c_refs c = [a, b] \<and> wf_cell a \<and> wf_cell b \<and> unvirtual a \<and> unvirtual b" if "length ls < n"
  proof -
    have "length (c_refs c) = 2" using v(1) that by (simp add: bad_fork_def)
    then obtain a b where r: "c_refs c = [a, b]" by (auto simp: numeral_2_eq_2 length_Suc_conv)
    have "\<forall>r \<in> set (c_refs c). wf_cell r \<and> unvirtual r" using c by (simp add: e)
    then show ?thesis using r by simp
  qed
  then show ?thesis using ord p parse_bits_length [OF p] v by (auto simp: bad_fork_def)
qed

lemma opened_rest:
  assumes v: "label_view lab ls rest cs"
  shows "l_bits lab = length ls" and "slice_ok (l_remainder (snd (extract_label_to lab to)))"
    and "slice_bits (l_remainder (snd (extract_label_to lab to))) = rest"
    and "slice_children (l_remainder (snd (extract_label_to lab to))) = cs"
proof -
  have e: "snd (extract_label_to lab to) = snd (extract_label_to lab (replicate (length ls) 0, 0))"
    by (simp add: extract_label_to_def)
  have p: "ptr_ok (replicate (length ls) 0, 0) (length ls)" by (simp add: ptr_ok_def)
  show "slice_ok (l_remainder (snd (extract_label_to lab to)))" "slice_bits (l_remainder (snd (extract_label_to lab to))) = rest"
    "slice_children (l_remainder (snd (extract_label_to lab to))) = cs"
    unfolding e by (rule extract_label_rest [OF v p])+
  show "l_bits lab = length ls" using v by (simp add: label_view_def)
qed

lemma fetch_two:
  assumes s: "slice_ok s" "slice_bits s = []" "slice_children s = [a, b]"
  shows "\<exists>s1 s2. fetch_ref s = (Some a, s1) \<and> fetch_ref s1 = (Some b, s2) \<and> slice_empty_ext s2"
proof -
  obtain s1 where f1: "fetch_ref s = (Some a, s1)" and r1: "slice_children s1 = [b]" "reads s 0 1 s1"
    using fetch_ref_eq [OF s(1)] s(3) by (cases "fetch_ref s") (auto split: option.splits)
  have ok1: "slice_ok s1" "slice_bits s1 = []" using r1(2) s by (simp_all add: reads_def)
  obtain s2 where f2: "fetch_ref s1 = (Some b, s2)" and r2: "slice_children s2 = []" "reads s1 0 1 s2"
    using fetch_ref_eq [OF ok1(1)] r1(1) by (cases "fetch_ref s1") (auto split: option.splits)
  have ok2: "slice_ok s2" "slice_bits s2 = []" using r2(2) ok1 by (simp_all add: reads_def)
  have "slice_empty_ext s2"
    using length_slice_bits [OF ok2(1)] length_slice_children [OF ok2(1)] ok2(2) r2(1) by (simp add: slice_empty_ext_def)
  then show ?thesis using f1 f2 by blast
qed

text \<open>On such a tree the forks need no second check: the parser has rejected all that would fail it.\<close>

lemma dict_validate_check_eq:
  assumes "sound_tree dict" and "n < 2 ^ 31"
  shows "dict_validate_check dict key n len func flip s = dict_check_for_each dict key n len func flip s"
  using assms
proof (induction n arbitrary: dict key flip s rule: less_induct)
  case (less n)
  show ?case
  proof (cases dict)
    case None
    then show ?thesis by (simp add: dict_validate_check.simps [of None] dict_check_for_each.simps [of None])
  next
    case (Some c)
    have ne: "Some c \<noteq> None" by simp
    note unf = dict_validate_check.simps [of "Some c"] dict_check_for_each.simps [of "Some c"] if_not_P [OF ne]
    have c: "wf_cell c" "unvirtual c" using less.prems(1) by (simp_all add: sound_tree_def Some)
    show ?thesis
    proof (cases "label_of_cell (Some c) n chk_all")
      case (Inl e)
      show ?thesis unfolding Some unf Inl by simp
    next
      case (Inr lab)
      from label_opened [OF Inr c less.prems(2)]
      obtain ls rest where L: "length ls \<le> n" "label_view lab ls rest (c_refs c)"
        "length ls < n \<Longrightarrow> rest = [] \<and> (\<exists>a b. c_refs c = [a, b] \<and> wf_cell a \<and> wf_cell b \<and> unvirtual a \<and> unvirtual b)"
        by blast
      obtain buf lab1 where x: "extract_label_to lab key = (buf, lab1)" by fastforce
      note R = opened_rest(1) [OF L(2)] opened_rest(2-4) [OF L(2), of key, unfolded x snd_conv]
      show ?thesis
      proof (cases "length ls = n")
        case True
        show ?thesis unfolding Some unf Inr bind_err_simps Let_def x prod.case R(1) True if_P [OF refl]
          by (simp add: check_leaf_def)
      next
        case False
        then have lt: "length ls < n" using L(1) by simp
        obtain a b where F: "rest = []" "c_refs c = [a, b]" "wf_cell a" "wf_cell b" "unvirtual a" "unvirtual b"
          using L(3) [OF lt] by blast
        obtain s1 s2 where ft: "fetch_ref (l_remainder lab1) = (Some a, s1)" "fetch_ref s1 = (Some b, s2)" "slice_empty_ext s2"
          using fetch_two [OF R(2) R(3) [unfolded F(1)] R(4) [unfolded F(2)]] by blast
        have refs: "prefetch_ref (l_remainder lab1) 0 = Some a" "prefetch_ref (l_remainder lab1) 1 = Some b"
          using view_advanced_ref [OF R(2) R(4)] F(2) by simp_all
        have chk: "\<not> \<not> check_fork s2 (Some a) (Some b) (n - length ls)" using ft(3) by (simp add: check_fork_def)
        have m: "n - length ls - 1 < n" "n - length ls - 1 < 2 ^ 31" using lt less.prems(2) by simp_all
        have ab: "sound_tree (Some a)" "sound_tree (Some b)" using F by (simp_all add: sound_tree_def)
        have two: "sound_tree (fst (if x then (Some b, Some a) else (Some a, Some b)))"
          "sound_tree (snd (if x then (Some b, Some a) else (Some a, Some b)))" for x using ab by simp_all
        show ?thesis unfolding Some unf Inr bind_err_simps Let_def x prod.case R(1) if_not_P [OF False] ft(1,2) if_not_P [OF chk] refs
          unfolding case_prod_beta less.IH [OF m(1) two(1) m(2)] less.IH [OF m(1) two(2) m(2)] ..
      qed
    qed
  qed
qed

text \<open>A visit that never stops goes through the whole of a tree, or finds out that it is not a dictionary.\<close>

lemma full_visit_sound:
  assumes "dict_check_for_each dict key n len (\<lambda>v k l s. Inr (True, s)) flip s = Inr (r, buf)"
    and "sound_tree dict" and "n < 2 ^ 31"
  shows "fst r \<and> (\<exists>es. dict_rep_opt n dict es)"
  using assms
proof (induction n arbitrary: dict key flip s r buf rule: less_induct)
  case (less n)
  show ?case
  proof (cases dict)
    case None
    then show ?thesis using less.prems(1) by (auto simp: dict_check_for_each.simps [of None] dict_rep_opt_def)
  next
    case (Some c)
    have ne: "Some c \<noteq> None" by simp
    note unf = dict_check_for_each.simps [of "Some c"] if_not_P [OF ne]
    have c: "wf_cell c" "unvirtual c" using less.prems(2) by (simp_all add: sound_tree_def Some)
    obtain lab where Inr: "label_of_cell (Some c) n chk_all = Inr lab"
      using less.prems(1) unfolding Some unf by (cases "label_of_cell (Some c) n chk_all") simp_all
    from label_opened [OF Inr c less.prems(3)]
    obtain ls rest where L: "length ls \<le> n" "label_view lab ls rest (c_refs c)"
      "length ls < n \<Longrightarrow> rest = [] \<and> (\<exists>a b. c_refs c = [a, b] \<and> wf_cell a \<and> wf_cell b \<and> unvirtual a \<and> unvirtual b)"
      "ordinary c" "parse_bits n (cell_bits c) = Some (ls, rest)"
      by blast
    obtain buf1 lab1 where x: "extract_label_to lab key = (buf1, lab1)" by fastforce
    note R = opened_rest(1) [OF L(2)] opened_rest(2-4) [OF L(2), of key, unfolded x snd_conv]
    show ?thesis
    proof (cases "length ls = n")
      case True
      have "payload_rep (n - length ls) rest (c_refs c) [([], rest, c_refs c)]" unfolding True diff_self_eq_0 by (rule leaf)
      then have "dict_rep n c (pre ls [([], rest, c_refs c)])" by (rule node [OF L(4,5)])
      moreover have "fst r" using less.prems(1)
        unfolding Some unf Inr bind_err_simps Let_def x prod.case R(1) True if_P [OF refl] by auto
      ultimately show ?thesis by (auto simp: Some dict_rep_opt_def)
    next
      case False
      then have lt: "length ls < n" using L(1) by simp
      obtain a b where F: "rest = []" "c_refs c = [a, b]" "wf_cell a" "wf_cell b" "unvirtual a" "unvirtual b"
        using L(3) [OF lt] by blast
      have refs: "prefetch_ref (l_remainder lab1) 0 = Some a" "prefetch_ref (l_remainder lab1) 1 = Some b"
        using view_advanced_ref [OF R(2) R(4)] F(2) by simp_all
      have m: "n - length ls - 1 < n" "n - length ls - 1 < 2 ^ 31" using lt less.prems(3) by simp_all
      have m': "n - length ls = Suc (n - length ls - 1)" using lt by simp
      have tree: "sound_tree (fst (if x then (Some b, Some a) else (Some a, Some b)))"
        "sound_tree (snd (if x then (Some b, Some a) else (Some a, Some b)))" for x using F by (simp_all add: sound_tree_def)
      let ?sw = "if length ls \<noteq> 0 then False else flip"
      let ?ab = "if ?sw then (Some b, Some a) else (Some a, Some b)"
      let ?visit = "\<lambda>d k s. dict_check_for_each d k (n - length ls - 1) len (\<lambda>v k l s. Inr (True, s)) False s"
      have "bind_err (?visit (fst ?ab) (ptr_set_bit (buf1, snd key + length ls) 0 ?sw, snd key + length ls + 1) s)
          (\<lambda>p. if \<not> fst (fst p) then Inr ((False, snd (fst p)), snd p)
            else ?visit (snd ?ab) (ptr_set_bit (snd p, snd key + length ls) 0 (\<not> ?sw), snd key + length ls + 1) (snd (fst p)))
          = Inr (r, buf)"
        using less.prems(1) unfolding Some unf Inr bind_err_simps Let_def x prod.case R(1) if_not_P [OF False] refs
        unfolding case_prod_beta .
      then obtain p where v1: "?visit (fst ?ab) (ptr_set_bit (buf1, snd key + length ls) 0 ?sw, snd key + length ls + 1) s = Inr p"
        and rest: "(if \<not> fst (fst p) then Inr ((False, snd (fst p)), snd p)
            else ?visit (snd ?ab) (ptr_set_bit (snd p, snd key + length ls) 0 (\<not> ?sw), snd key + length ls + 1) (snd (fst p)))
          = Inr (r, buf)"
        unfolding bind_err_Inr by blast
      have v1': "?visit (fst ?ab) (ptr_set_bit (buf1, snd key + length ls) 0 ?sw, snd key + length ls + 1) s = Inr (fst p, snd p)"
        using v1 by simp
      have 1: "fst (fst p)" "\<exists>es. dict_rep_opt (n - length ls - 1) (fst ?ab) es"
        using less.IH [OF m(1) v1' tree(1) m(2)] by blast+
      have "?visit (snd ?ab) (ptr_set_bit (snd p, snd key + length ls) 0 (\<not> ?sw), snd key + length ls + 1) (snd (fst p)) = Inr (r, buf)"
        using rest 1(1) by (simp only: not_True_eq_False simp_thms if_False)
      from less.IH [OF m(1) this tree(2) m(2)]
      have 2: "fst r" "\<exists>es. dict_rep_opt (n - length ls - 1) (snd ?ab) es" by blast+
      have "\<exists>es. dict_rep (n - length ls - 1) a es" "\<exists>es. dict_rep (n - length ls - 1) b es"
        using 1(2) 2(2) by (auto simp: dict_rep_opt_def split: if_splits)
      then obtain ea eb where "payload_rep (Suc (n - length ls - 1)) rest (c_refs c) (pre [False] ea @ pre [True] eb)"
        unfolding F(1,2) using fork by blast
      then have "payload_rep (n - length ls) rest (c_refs c) (pre [False] ea @ pre [True] eb)"
        unfolding m' [symmetric] .
      then have "dict_rep n c (pre ls (pre [False] ea @ pre [True] eb))" by (rule node [OF L(4,5)])
      then show ?thesis using 2(1) by (auto simp: Some dict_rep_opt_def)
    qed
  qed
qed

text \<open>So validation accepts exactly the dictionaries.\<close>

theorem validate_all_iff:
  assumes d: "dict_is_valid d" "d_key_bits d = int n" "n \<le> max_key_bits" and tree: "sound_tree (d_root_cell d)"
  shows "validate_all d = Inr (True, d) \<longleftrightarrow> (\<exists>es. dict_rep_opt n (d_root_cell d) es)"
    and "validate_all d = Inr (ok, d') \<Longrightarrow> ok \<and> d' = d"
proof -
  have n: "n < 2 ^ 31" using d(3) by simp
  let ?yes = "\<lambda>value key n s. Inr (True, s) :: dict_error + bool \<times> unit"
  have val: "dict_validate d = (True, d)" using d(1) by (simp add: dict_validate_def)
  have run: "validate_all d =
      bind_err (if d_root_cell d = None then Inr ((True, ()), d)
        else bind_err (dict_check_for_each (d_root_cell d) (replicate max_key_bytes 0, 0) n n ?yes False ())
               (\<lambda>(r, buf). Inr (r, d)))
        (\<lambda>((ok, s), d). Inr (if ok then (True, d) else dict_invalidate d))"
    by (simp add: validate_all_def validate_check_def val d(2) dict_is_empty_def dict_validate_check_eq [OF tree n])
  show sound: "ok \<and> d' = d" if "validate_all d = Inr (ok, d')" for ok d'
    using that full_visit_sound [OF _ tree n, of "(replicate max_key_bytes 0, 0)" n False "()"] unfolding run
    by (fastforce simp: bind_err_Inr split: if_splits)
  show "validate_all d = Inr (True, d) \<longleftrightarrow> (\<exists>es. dict_rep_opt n (d_root_cell d) es)"
  proof
    assume "validate_all d = Inr (True, d)"
    then show "\<exists>es. dict_rep_opt n (d_root_cell d) es"
      using full_visit_sound [OF _ tree n, of "(replicate max_key_bytes 0, 0)" n False "()"] unfolding run
      by (fastforce simp: bind_err_Inr dict_rep_opt_def split: if_splits)
  next
    assume "\<exists>es. dict_rep_opt n (d_root_cell d) es"
    then obtain es where es: "dict_rep_opt n (d_root_cell d) es" by blast
    have room: "length ([] :: bool list) + n \<le> 8 * length (replicate max_key_bytes 0 :: byte list)" using d(3) by simp
    have f: "foreach_function ?yes n (\<lambda>k v s. Inr (True, s))" by unfold_locales simp
    have "visit_all (\<lambda>k v s. Inr (True, s)) es () = (Inr (True, ()) :: dict_error + bool \<times> unit)"
      using visit_all_pred [of "\<lambda>k v. True" es "()"] by (simp add: list_all_iff case_prod_beta)
    then obtain buf where "dict_check_for_each (d_root_cell d) (replicate max_key_bytes 0, 0) n n ?yes False () = Inr ((True, ()), buf)"
      using foreach_function.dict_check_for_each_ok [OF f es holds_nil room _ _ n, where flip = False and s = "()"]
      by (auto simp: visited_def split: sum.splits)
    then show "validate_all d = Inr (True, d)" unfolding run by simp
  qed
qed

end
