(* ===== verification/Dict_Combine.thy ===== *)
theory Dict_Combine
  imports Dict_Filter
begin

text \<open>
  Two dictionaries combined into one, \<open>dict_combine_with\<close> of \<open>crypto/vm/dict.cpp\<close>: the entries of
  both, where a function joins the two values of a key that is in both, or refuses it. The recursion
  goes down the two trees at once. Where a label of one tree reaches deeper than that of the other,
  the tree is passed on with the number of bits of its label that are already behind.
\<close>

unbundle bit_operations_syntax

section \<open>Operation\<close>

text \<open>\<open>combine_func_t\<close>: the builder with the label of the leaf, the two values, the whole key and its
  length. The function may throw.\<close>

type_synonym combine_func = "builder \<Rightarrow> slice \<Rightarrow> slice \<Rightarrow> bit_ptr \<Rightarrow> nat \<Rightarrow> dict_error + bool \<times> builder"

text \<open>The bits of the label that are behind must be in the buffer.\<close>

definition skip_assert :: "label \<Rightarrow> bit_ptr \<Rightarrow> nat \<Rightarrow> bool" where
  "skip_assert lab key skip \<longleftrightarrow>
     skip \<le> l_bits lab \<and> (skip = 0 \<or> label_common_prefix_len lab (fst key, snd key - skip) skip = skip)"

text \<open>The labels part at bit \<open>c\<close>: both nodes are cut there and become the children of a new fork. The
  label of the first one is in the buffer already.\<close>

definition combine_disjoint ::
  "(byte list \<Rightarrow> byte list) \<Rightarrow> byte list \<Rightarrow> nat \<Rightarrow> nat \<Rightarrow> nat \<Rightarrow> nat \<Rightarrow> nat \<Rightarrow> slice \<Rightarrow> label \<Rightarrow> nat
     \<Rightarrow> dict_error + cell option \<times> byte list" where
  "combine_disjoint sha256 buf offs n c l1 l2 rest1 label2 skip2 =
     bind_err (relabel sha256 empty_builder (buf, offs + c + 1) (l1 - c - 1) (n - c - 1) rest1) (\<lambda>(dict1, cb).
       let (buf, label2) = extract_label_to label2 (buf, offs - skip2)
       in bind_err (relabel sha256 cb (buf, offs + c + 1) (l2 - c - 1) (n - c - 1) (l_remainder label2)) (\<lambda>(dict2, cb).
            let (dict1, dict2) = (if \<not> ptr_bit (buf, offs) c then (dict2, dict1) else (dict1, dict2))
            in bind_err (append_dict_label cb (buf, offs) c n) (\<lambda>cb.
               bind_err (finish_create_fork sha256 cb (Some dict1) (Some dict2)) (\<lambda>d. Inr (Some d, buf)))))"

text \<open>The children of a fork after one of them, the one on the side \<open>sw\<close>, has been combined.\<close>

definition combine_fork ::
  "(byte list \<Rightarrow> byte list) \<Rightarrow> byte list \<Rightarrow> nat \<Rightarrow> nat \<Rightarrow> nat \<Rightarrow> bool \<Rightarrow> cell option \<Rightarrow> cell option
     \<Rightarrow> dict_error + cell option \<times> byte list" where
  "combine_fork sha256 buf offs n c sw c1 c2 =
     (if c1 \<noteq> None \<and> c2 \<noteq> None then
        bind_err (append_dict_label empty_builder (buf, offs) c n) (\<lambda>cb.
        bind_err (finish_create_fork sha256 cb c1 c2) (\<lambda>d. Inr (Some d, buf)))
      else
        let buf = ptr_set_bit (buf, offs + c) 0 (\<not> sw); (c1, c2) = (if \<not> sw then (c2, c1) else (c1, c2))
        in if c1 = None \<or> c2 \<noteq> None then Inl Assertion else bind_err (join_edge sha256 buf offs (c + 1) c1 n chk_all) (\<lambda>(d, buf). Inr (Some d, buf)))"

text \<open>The same after both of them have been combined; the builder has the label of the fork in it.\<close>

definition combine_both ::
  "(byte list \<Rightarrow> byte list) \<Rightarrow> builder \<Rightarrow> byte list \<Rightarrow> nat \<Rightarrow> nat \<Rightarrow> nat \<Rightarrow> cell option \<Rightarrow> cell option
     \<Rightarrow> dict_error + cell option \<times> byte list" where
  "combine_both sha256 cb buf offs n c c1 c2 =
     (if c1 \<noteq> None \<and> c2 \<noteq> None then bind_err (finish_create_fork sha256 cb c1 c2) (\<lambda>d. Inr (Some d, buf))
      else if c1 = None \<and> c2 = None then Inr (None, buf)
      else
        let sw = (c1 = None); buf = ptr_set_bit (buf, offs + c) 0 sw; c1 = (if sw then c2 else c1)
        in bind_err (join_edge_on sha256 (builder_reset cb) buf offs (c + 1) c1 n chk_all) (\<lambda>(d, buf). Inr (Some d, buf)))"

lemma label_all_bounded: "label_of_cell c n chk_all = Inr lab \<Longrightarrow> l_bits lab \<le> n"
  using label_of_cell_bounded [of c n chk_all lab] by simp

text \<open>The labels of the two roots: the first one is written to the buffer and compared with the second
  one there. The result is the buffer, the two labels, their bits that are not behind and the bits
  \<open>c\<close> of these that they share.\<close>

definition combine_labels ::
  "cell option \<Rightarrow> cell option \<Rightarrow> bit_ptr \<Rightarrow> nat \<Rightarrow> nat \<Rightarrow> nat
     \<Rightarrow> dict_error + byte list \<times> label \<times> label \<times> nat \<times> nat \<times> nat" where
  "combine_labels dict1 dict2 key n skip1 skip2 =
     bind_err (label_of_cell dict1 (n + skip1) chk_all) (\<lambda>label1.
     bind_err (label_of_cell dict2 (n + skip2) chk_all) (\<lambda>label2.
       if \<not> (skip_assert label1 key skip1 \<and> skip_assert label2 key skip2) then Inl Assertion
       else
         let l1 = l_bits label1 - skip1; l2 = l_bits label2 - skip2; offs = snd key;
             (buf, label1) = extract_label_to label1 (fst key, offs - skip1);
             c = label_common_prefix_len label2 (buf, offs - skip2) (skip2 + l1) - skip2
         in if \<not> (c \<le> l1 \<and> c \<le> l2) then Inl Assertion else Inr (buf, label1, label2, l1, l2, c)))"

lemma combine_less:
  assumes "combine_labels dict1 dict2 key n skip1 skip2 = Inr (buf, label1, label2, l1, l2, c)"
    and "c = l1 \<and> c = l2 \<longrightarrow> c \<noteq> n"
  shows "n - c - 1 < n"
proof -
  obtain x y where "label_of_cell dict1 (n + skip1) chk_all = Inr x" and "label_of_cell dict2 (n + skip2) chk_all = Inr y"
    and "l1 = l_bits x - skip1" "l2 = l_bits y - skip2" "c \<le> l1" "c \<le> l2"
    using assms(1) by (auto simp: combine_labels_def bind_err_Inr Let_def split: if_splits prod.splits)
  then show ?thesis
    using assms(2) label_all_bounded [of dict1 "n + skip1" x] label_all_bounded [of dict2 "n + skip2" y] by linarith
qed

function dict_combine_with ::
  "(byte list \<Rightarrow> byte list) \<Rightarrow> cell option \<Rightarrow> cell option \<Rightarrow> bit_ptr \<Rightarrow> nat \<Rightarrow> nat \<Rightarrow> combine_func \<Rightarrow> int \<Rightarrow> nat \<Rightarrow> nat
     \<Rightarrow> dict_error + cell option \<times> byte list" where
  "dict_combine_with sha256 dict1 dict2 key n total_key_len combine_func mode skip1 skip2 =
     (if dict1 = None then
        if skip2 \<noteq> 0 then Inl Assertion
        else if mode AND 1 \<noteq> 0 \<and> dict2 = None then Inl Combine_error else Inr (dict2, fst key)
      else if dict2 = None then
        if skip1 \<noteq> 0 then Inl Assertion
        else if mode AND 2 \<noteq> 0 then Inl Combine_error else Inr (dict1, fst key)
      else
        bind_err (combine_labels dict1 dict2 key n skip1 skip2) (\<lambda>(buf, label1, label2, l1, l2, c).
          let offs = snd key
          in if c < l1 \<and> c < l2 then
               if mode AND 3 \<noteq> 0 then Inl Combine_error
               else combine_disjoint sha256 buf offs n c l1 l2 (l_remainder label1) label2 skip2
             else if c = l1 \<and> c = l2 then
               let label2 = skip_label label2
               in bind_err (append_dict_label empty_builder (buf, offs) c n) (\<lambda>cb.
                    if c = n then
                      bind_err (combine_func cb (l_remainder label1) (l_remainder label2) (buf, offs + n - total_key_len) total_key_len)
                        (\<lambda>(ok, cb). if \<not> ok then Inr (None, buf)
                           else bind_err (dict_finalize sha256 cb) (\<lambda>(d, cb). Inr (Some d, buf)))
                    else
                      let buf = ptr_set_bit (buf, offs + c) 0 False
                      in bind_err (dict_combine_with sha256 (prefetch_ref (l_remainder label1) 0) (prefetch_ref (l_remainder label2) 0)
                           (buf, offs + c + 1) (n - c - 1) total_key_len combine_func 0 0 0) (\<lambda>(c1, buf).
                           let buf = ptr_set_bit (buf, offs + c) 0 True
                           in bind_err (dict_combine_with sha256 (prefetch_ref (l_remainder label1) 1)
                                (prefetch_ref (l_remainder label2) 1) (buf, offs + c + 1) (n - c - 1) total_key_len combine_func 0 0 0)
                                (\<lambda>(c2, buf). combine_both sha256 cb buf offs n c c1 c2)))
             else if c = l1 then
               if mode AND 2 \<noteq> 0 then Inl Combine_error
               else
                 let c1 = prefetch_ref (l_remainder label1) 0; c2 = prefetch_ref (l_remainder label1) 1;
                     (buf, label2) = extract_label_to label2 (buf, offs - skip2); sw = ptr_bit (buf, offs) c
                 in bind_err (dict_combine_with sha256 (if sw then c2 else c1) dict2 (buf, offs + c + 1) (n - c - 1)
                      total_key_len combine_func mode 0 (skip2 + c + 1)) (\<lambda>(r, buf).
                      let (c1, c2) = (if sw then (c1, r) else (r, c2)) in combine_fork sha256 buf offs n c sw c1 c2)
             else
               if mode AND 1 \<noteq> 0 then Inl Combine_error
               else
                 let label2 = skip_label label2; c1 = prefetch_ref (l_remainder label2) 0; c2 = prefetch_ref (l_remainder label2) 1;
                     sw = ptr_bit (buf, offs) c
                 in bind_err (dict_combine_with sha256 dict1 (if sw then c2 else c1) (buf, offs + c + 1) (n - c - 1)
                      total_key_len combine_func mode (skip1 + c + 1) 0) (\<lambda>(r, buf).
                      let (c1, c2) = (if sw then (c1, r) else (r, c2)) in combine_fork sha256 buf offs n c sw c1 c2)))"
  by pat_completeness auto
termination
  by (relation "measure (\<lambda>(sha256, d1, d2, key, n, rest). n)")
    (rule wf_measure, (simp only: in_measure prod.case, clarify, drule combine_less, blast, blast)+)

declare dict_combine_with.simps [simp del]

definition combine_with :: "(byte list \<Rightarrow> byte list) \<Rightarrow> dict \<Rightarrow> dict \<Rightarrow> combine_func \<Rightarrow> int \<Rightarrow> dict_error + bool \<times> dict \<times> dict" where
  "combine_with sha256 d d2 combine_func mode =
     bind_err (force_validate d) (\<lambda>d.
     bind_err (force_validate d2) (\<lambda>d2.
       let key_len = nat (d_key_bits d)
       in if d_key_bits d \<noteq> d_key_bits d2 then Inl (Vm_error Excno_dict_err)
          else
            case dict_combine_with sha256 (d_root_cell d) (d_root_cell d2) (replicate max_key_bytes 0, 0) key_len key_len
              combine_func mode 0 0 of
              Inr (res, buf) \<Rightarrow> Inr (True, set_root_cell d res, d2)
            | Inl e \<Rightarrow> if e = Combine_error then Inr (False, d, d2) else Inl e))"

text \<open>Without a function a key that is in both dictionaries is an error.\<close>

definition conflict_func :: combine_func where
  "conflict_func cb v1 v2 key key_len = Inl Combine_error"

definition combine_disjoint_with :: "(byte list \<Rightarrow> byte list) \<Rightarrow> dict \<Rightarrow> dict \<Rightarrow> dict_error + bool \<times> dict \<times> dict" where
  "combine_disjoint_with sha256 d d2 = combine_with sha256 d d2 conflict_func 0"

section \<open>Two lists of entries combined\<close>

text \<open>\<open>joined k v1 v2 r\<close> says what may come of the values \<open>v1\<close> and \<open>v2\<close> of the key \<open>k\<close>: \<open>r\<close>, a value
  or nothing; \<open>fails k v1 v2 e\<close> that they may be refused with the exception \<open>e\<close>.\<close>

definition merged ::
  "(bool list \<Rightarrow> dict_val \<Rightarrow> dict_val \<Rightarrow> dict_val option \<Rightarrow> bool) \<Rightarrow> bool list \<Rightarrow> dict_val option \<Rightarrow> dict_val option
     \<Rightarrow> dict_val option \<Rightarrow> bool" where
  "merged joined k r1 r2 r \<longleftrightarrow>
     (case r1 of None \<Rightarrow> r = r2 | Some v1 \<Rightarrow> (case r2 of None \<Rightarrow> r = Some v1 | Some v2 \<Rightarrow> joined k v1 v2 r))"

lemma merged_simps [simp]: "merged joined k None r r" "merged joined k r None r"
  by (simp_all add: merged_def split: option.split)

definition combined ::
  "(bool list \<Rightarrow> dict_val \<Rightarrow> dict_val \<Rightarrow> dict_val option \<Rightarrow> bool) \<Rightarrow> bool list \<Rightarrow> dict_entry list \<Rightarrow> dict_entry list
     \<Rightarrow> dict_entry list \<Rightarrow> bool" where
  "combined joined P e1 e2 e \<longleftrightarrow> (\<forall>k. merged joined (P @ k) (map_of e1 k) (map_of e2 k) (map_of e k))"

definition clash ::
  "(bool list \<Rightarrow> dict_val \<Rightarrow> dict_val \<Rightarrow> dict_error \<Rightarrow> bool) \<Rightarrow> bool list \<Rightarrow> dict_entry list \<Rightarrow> dict_entry list \<Rightarrow> dict_error \<Rightarrow> bool" where
  "clash fails P e1 e2 e \<longleftrightarrow> (\<exists>k v1 v2. map_of e1 k = Some v1 \<and> map_of e2 k = Some v2 \<and> fails (P @ k) v1 v2 e)"

text \<open>The entries of a node: those of its left and of its right side behind the label.\<close>

abbreviation sides :: "bool list \<Rightarrow> dict_entry list \<Rightarrow> dict_entry list \<Rightarrow> dict_entry list" where
  "sides p ea eb \<equiv> pre p (pre [False] ea @ pre [True] eb)"

lemma map_of_sides:
  "map_of (sides p ea eb) k =
     (if prefix p k \<and> length p < length k
      then map_of (if k ! length p then eb else ea) (drop (length p + 1) k) else None)"
proof (cases "prefix p k \<and> length p < length k")
  case True
  then obtain x k' where k: "k = p @ x # k'" by (metis append_Nil2 less_irrefl list.exhaust prefix_def)
  have m: "map_of (sides p ea eb) k = map_of (pre [False] ea @ pre [True] eb) (x # k')"
    unfolding k map_of_pre by simp
  show ?thesis unfolding m map_of_fork by (simp add: k)
next
  case False
  have "map_of (sides p ea eb) k = None"
  proof (cases "prefix p k")
    case True
    then have "k = p" using False by (auto simp: prefix_def)
    then show ?thesis unfolding map_of_pre by (simp add: map_of_pre map_add_def)
  qed (simp add: map_of_pre del: pre_simps)
  then show ?thesis using False by auto
qed

lemma map_of_side: "map_of (sides p ea eb) (p @ x # k) = map_of (if x then eb else ea) k"
  unfolding map_of_sides by simp

lemma combined_sides:
  assumes a: "combined joined (P @ p @ [False]) ea1 ea2 ea" and b: "combined joined (P @ p @ [True]) eb1 eb2 eb"
  shows "combined joined P (sides p ea1 eb1) (sides p ea2 eb2) (sides p ea eb)"
  unfolding combined_def
proof
  fix k
  show "merged joined (P @ k) (map_of (sides p ea1 eb1) k) (map_of (sides p ea2 eb2) k) (map_of (sides p ea eb) k)"
  proof (cases "prefix p k \<and> length p < length k")
    case True
    then obtain x k' where k: "k = p @ x # k'" by (metis append_Nil2 less_irrefl list.exhaust prefix_def)
    show ?thesis using a [unfolded combined_def, rule_format, of k'] b [unfolded combined_def, rule_format, of k']
      unfolding k map_of_side by (cases x) simp_all
  next
    case False
    then show ?thesis unfolding map_of_sides if_not_P [OF False] by simp
  qed
qed

lemma clash_sides:
  "clash fails (P @ p @ [False]) ea1 ea2 e \<Longrightarrow> clash fails P (sides p ea1 eb1) (sides p ea2 eb2) e"
  "clash fails (P @ p @ [True]) eb1 eb2 e \<Longrightarrow> clash fails P (sides p ea1 eb1) (sides p ea2 eb2) e"
proof -
  assume "clash fails (P @ p @ [False]) ea1 ea2 e"
  then obtain k v1 v2 where "map_of ea1 k = Some v1" "map_of ea2 k = Some v2" "fails (P @ p @ False # k) v1 v2 e"
    by (auto simp: clash_def)
  then show "clash fails P (sides p ea1 eb1) (sides p ea2 eb2) e"
    unfolding clash_def by (intro exI [of _ "p @ False # k"] exI [of _ v1] exI [of _ v2]) (simp only: map_of_side if_False simp_thms)
next
  assume "clash fails (P @ p @ [True]) eb1 eb2 e"
  then obtain k v1 v2 where "map_of eb1 k = Some v1" "map_of eb2 k = Some v2" "fails (P @ p @ True # k) v1 v2 e"
    by (auto simp: clash_def)
  then show "clash fails P (sides p ea1 eb1) (sides p ea2 eb2) e"
    unfolding clash_def by (intro exI [of _ "p @ True # k"] exI [of _ v1] exI [of _ v2]) (simp only: map_of_side if_True simp_thms)
qed

lemma combined_empty [simp]: "combined joined P [] es es" "combined joined P es [] es"
  by (simp_all add: combined_def)

lemma one_side: "pre (p @ x # t) es = sides p (if x then [] else pre t es) (if x then pre t es else [])"
  by (cases x) simp_all

section \<open>The steps\<close>

text \<open>A dictionary with keys of \<open>n\<close> bits in a tree whose keys have the bits \<open>S\<close> in front of them, all
  of which are in the label of the root.\<close>

definition node_rep :: "nat \<Rightarrow> bool list \<Rightarrow> cell \<Rightarrow> bool list \<Rightarrow> bool list \<Rightarrow> dict_entry list \<Rightarrow> bool" where
  "node_rep n S c ls rest e0 \<longleftrightarrow>
     ordinary c \<and> parse_bits (n + length S) (cell_bits c) = Some (S @ ls, rest) \<and> length ls \<le> n
     \<and> payload_rep (n - length ls) rest (c_refs c) e0"

definition sub_rep :: "nat \<Rightarrow> bool list \<Rightarrow> cell option \<Rightarrow> dict_entry list \<Rightarrow> bool" where
  "sub_rep n S co es \<longleftrightarrow>
     (case co of
        None \<Rightarrow> S = [] \<and> es = []
      | Some c \<Rightarrow> \<exists>ls rest e0. node_rep n S c ls rest e0 \<and> es = pre ls e0)"

lemma sub_rep_Nil: "sub_rep n [] co es \<longleftrightarrow> dict_rep_opt n co es"
proof (cases co)
  case (Some c)
  have "dict_rep n c es \<longleftrightarrow> (\<exists>ls rest e0. node_rep n [] c ls rest e0 \<and> es = pre ls e0)"
    using parse_bits_length [of n "cell_bits c"] by (auto simp: node_rep_def intro: node elim!: dict_repE)
  then show ?thesis by (simp add: Some sub_rep_def dict_rep_opt_def)
qed (simp add: sub_rep_def dict_rep_opt_def)

lemma open_sub:
  assumes r: "node_rep n S c ls rest e0" and n: "n + length S < 2 ^ 31"
  shows "\<exists>lab. label_of_cell (Some c) (n + length S) chk_all = Inr lab \<and> label_view lab (S @ ls) rest (c_refs c)"
proof -
  have "n + length S - length (S @ ls) = n - length ls" by simp
  then have "payload_rep (n + length S - length (S @ ls)) rest (c_refs c) e0" using r by (simp add: node_rep_def)
  from payload_no_bad_fork [OF this] r n show ?thesis
    by (intro label_of_ordinary) (auto simp: node_rep_def)
qed

lemma node_rep_deeper:
  assumes r: "node_rep n S c (p @ x # t) rest e0"
  shows "sub_rep (n - length p - 1) (S @ p @ [x]) (Some c) (pre t e0)" and "length p < n"
proof -
  have l: "length p + 1 + length t \<le> n" using r by (simp add: node_rep_def)
  then show "length p < n" by simp
  have "node_rep (n - length p - 1) (S @ p @ [x]) c t rest e0" using r l by (simp add: node_rep_def)
  then show "sub_rep (n - length p - 1) (S @ p @ [x]) (Some c) (pre t e0)" by (auto simp: sub_rep_def)
qed

text \<open>The label of such a node goes to the buffer behind what is in it, or is compared with it.\<close>

lemma extract_sub:
  assumes v: "label_view lab (S @ ls) rest cs" and h: "holds buf (Q @ R)" and S: "suffix S Q"
    and room: "length Q + length ls \<le> 8 * length buf" and x: "extract_label_to lab (buf, length Q - length S) = (buf1, lab1)"
  shows "holds buf1 (Q @ ls)" and "length buf1 = length buf" and "slice_ok (l_remainder lab1)"
    and "slice_bits (l_remainder lab1) = rest" and "slice_children (l_remainder lab1) = cs"
proof -
  obtain Q0 where Q: "Q = Q0 @ S" using S by (auto simp: suffix_def)
  have o: "length Q - length S = length Q0" by (simp add: Q)
  have "ptr_ok (buf, length Q0) (length (S @ ls))" using room by (simp add: ptr_ok_def Q)
  note X = extract_label_rest [OF v this, unfolded x [unfolded o] fst_conv snd_conv]
  have h0: "holds buf Q0" using holds_prefix [of buf Q0 "S @ R"] h by (simp add: Q)
  have room0: "length Q0 + length (S @ ls) \<le> 8 * length buf" using room by (simp add: Q)
  show "holds buf1 (Q @ ls)" using holds_extract [OF h0 _ X(2) room0] X(1) by (simp add: Q)
  show "length buf1 = length buf" "slice_ok (l_remainder lab1)" "slice_bits (l_remainder lab1) = rest"
    "slice_children (l_remainder lab1) = cs" by (rule X)+
qed

lemma prefix_of_sub:
  assumes v: "label_view lab (S @ ls) rest cs" and h: "holds buf (Q @ R)" and S: "suffix S Q"
  shows "label_common_prefix_len lab (buf, length Q - length S) (length S + length R) = length S + lcp ls R"
proof -
  obtain Q0 where Q: "Q = Q0 @ S" using S by (auto simp: suffix_def)
  have o: "length Q - length S = length Q0" by (simp add: Q)
  have h': "holds buf (Q0 @ S @ R)" using h by (simp add: Q)
  have b: "ptr_bits (buf, length Q0) (length S + length R) = S @ R" using holds_ptr(1) [OF h'] by simp
  have p: "ptr_ok (buf, length Q0) (length S + length R)" using h' by (simp add: ptr_ok_def holds_def)
  have "lcp (S @ ls) (S @ R) = length S + lcp ls R" by (induction S) simp_all
  then show ?thesis using label_common_prefix_len_eq [OF v p] b by (simp add: o)
qed

text \<open>The fork is built again with the child that has been combined, or its other child is joined to
  the edge above.\<close>

lemma combine_fork_ok:
  assumes h: "holds buf (Q @ p @ [sw])" and room: "length Q + n \<le> 8 * length buf" and l: "length p < n" and n: "n < 2 ^ 31"
    and r: "dict_rep_opt (n - length p - 1) r er" and o: "dict_rep (n - length p - 1) other eo"
    and sha: "\<And>x. length (sha256 x) = hash_bytes"
  shows "dict_ok (holding n (sides p (if sw then eo else er) (if sw then er else eo)) Q (length buf))
     (combine_fork sha256 buf (length Q) n (length p) sw (if sw then Some other else r) (if sw then r else Some other))"
proof -
  have h': "holds buf (Q @ p)" "holds buf Q" using holds_prefix [of buf "Q @ p" "[sw]"] holds_prefix h by auto
  show ?thesis
  proof (cases r)
    case None
    then have er: "er = []" using r by (simp add: dict_rep_opt_def)
    define buf1 where "buf1 = ptr_set_bit (buf, length Q + length p) 0 (\<not> sw)"
    have "length (Q @ p) < 8 * length buf" using room l by simp
    from holds_set_bit [OF h'(1) this, of "\<not> sw"]
    have h1: "holds buf1 (Q @ p @ [\<not> sw])" by (simp add: buf1_def)
    have l1: "length buf1 = length buf" by (simp add: buf1_def)
    have room1: "length Q + n \<le> 8 * length buf1" using room by (simp add: l1)
    have run: "combine_fork sha256 buf (length Q) n (length p) sw (if sw then Some other else r) (if sw then r else Some other) =
        bind_err (join_edge sha256 buf1 (length Q) (length p + 1) (Some other) n chk_all) (\<lambda>(c, buf). Inr (Some c, buf))"
      by (cases sw) (simp_all add: combine_fork_def None buf1_def)
    have es: "sides p (if sw then eo else er) (if sw then er else eo) = pre (p @ [\<not> sw]) eo"
      by (cases sw) (simp_all add: er)
    show ?thesis unfolding run es using join_edge_holding [OF h1 room1 l n o sha] by (simp only: l1)
  next
    case (Some c)
    then have rc: "dict_rep (n - length p - 1) c er" using r by (simp add: dict_rep_opt_def)
    have k: "ptr_bits (buf, length Q) (length p) = p" by (rule holds_ptr(1) [OF h'(1)])
    have ok: "ptr_ok (buf, length Q) (length p)" using room l by (simp add: ptr_ok_def)
    define a where "a = (if sw then other else c)"
    define b where "b = (if sw then c else other)"
    have ab: "dict_rep (n - length p - 1) a (if sw then eo else er)" "dict_rep (n - length p - 1) b (if sw then er else eo)"
      using rc o by (simp_all add: a_def b_def)
    have run: "combine_fork sha256 buf (length Q) n (length p) sw (if sw then Some other else r) (if sw then r else Some other) =
        bind_err (bind_err (append_dict_label empty_builder (buf, length Q) (length p) n)
          (\<lambda>cb. finish_create_fork sha256 cb (Some a) (Some b))) (\<lambda>c. Inr (Some c, buf))"
      by (cases sw) (simp_all add: combine_fork_def Some a_def b_def bind_err_assoc)
    show ?thesis unfolding run
      by (rule dict_ok_bind [OF finish_create_fork_ok [OF fresh_empty ok l n ab sha, unfolded k]])
        (use h' in \<open>simp add: holding_def dict_rep_opt_def\<close>)
  qed
qed

lemma fresh_reset: "node_coded cb n p [] [] \<Longrightarrow> fresh (builder_reset cb)"
  by (simp add: node_coded_def fresh_def builder_ok_def builder_out_def builder_reset_def)

lemma combine_both_ok:
  assumes cb: "node_coded cb n p [] []" and h: "holds buf (Q @ p @ [True])" and room: "length Q + n \<le> 8 * length buf"
    and l: "length p < n" and n: "n < 2 ^ 31"
    and a: "dict_rep_opt (n - length p - 1) c1 ea" and b: "dict_rep_opt (n - length p - 1) c2 eb"
    and sha: "\<And>x. length (sha256 x) = hash_bytes"
  shows "dict_ok (holding n (sides p ea eb) Q (length buf)) (combine_both sha256 cb buf (length Q) n (length p) c1 c2)"
proof -
  have h': "holds buf (Q @ p)" "holds buf Q" using holds_prefix [of buf "Q @ p" "[True]"] holds_prefix h by auto
  have joins: "dict_ok (holding n (pre (p @ [sw]) es) Q (length buf))
      (bind_err (join_edge_on sha256 (builder_reset cb) (ptr_set_bit (buf, length Q + length p) 0 sw) (length Q) (length p + 1)
        (Some c) n chk_all) (\<lambda>(d, buf). Inr (Some d, buf)))"
    if c: "dict_rep (n - length p - 1) c es" for sw c es
  proof -
    define buf1 where "buf1 = ptr_set_bit (buf, length Q + length p) 0 sw"
    have "length (Q @ p) < 8 * length buf" using room l by simp
    from holds_set_bit [OF h'(1) this, of sw]
    have h1: "holds buf1 (Q @ p @ [sw])" by (simp add: buf1_def)
    have l1: "length buf1 = length buf" by (simp add: buf1_def)
    have room1: "length Q + n \<le> 8 * length buf1" using room by (simp add: l1)
    show ?thesis unfolding buf1_def [symmetric]
      using join_edge_on_holding [OF fresh_reset [OF cb] h1 room1 l n c sha] by (simp only: l1)
  qed
  show ?thesis
  proof (cases c1)
    case c1: None
    then have ea: "ea = []" using a by (simp add: dict_rep_opt_def)
    show ?thesis
    proof (cases c2)
      case None
      then have "eb = []" using b by (simp add: dict_rep_opt_def)
      then show ?thesis using c1 None ea h' by (simp add: combine_both_def holding_def dict_rep_opt_def)
    next
      case (Some c)
      then have "dict_rep (n - length p - 1) c eb" using b by (simp add: dict_rep_opt_def)
      from joins [OF this, of True] show ?thesis using c1 Some ea by (simp add: combine_both_def)
    qed
  next
    case c1: (Some c1')
    then have r1: "dict_rep (n - length p - 1) c1' ea" using a by (simp add: dict_rep_opt_def)
    show ?thesis
    proof (cases c2)
      case None
      then have "eb = []" using b by (simp add: dict_rep_opt_def)
      with joins [OF r1, of False] show ?thesis using c1 None by (simp add: combine_both_def)
    next
      case (Some c2')
      then have r2: "dict_rep (n - length p - 1) c2' eb" using b by (simp add: dict_rep_opt_def)
      have run: "combine_both sha256 cb buf (length Q) n (length p) c1 c2 =
          bind_err (finish_create_fork sha256 cb (Some c1') (Some c2')) (\<lambda>d. Inr (Some d, buf))"
        by (simp add: combine_both_def c1 Some)
      show ?thesis unfolding run
        by (rule dict_ok_bind [OF finish_coded_fork_ok [OF cb l r1 r2 sha]]) (use h' in \<open>simp add: holding_def dict_rep_opt_def\<close>)
    qed
  qed
qed

text \<open>Two nodes whose labels part become the children of a new fork.\<close>

lemma combine_disjoint_ok:
  assumes h: "holds buf (Q @ p @ x # t1)" and S2: "suffix S2 Q" and room: "length Q + n \<le> 8 * length buf" and n: "n < 2 ^ 31"
    and s1: "slice_ok s1" "slice_bits s1 = rest1" "slice_children s1 = cs1" "\<forall>r \<in> set cs1. wf_cell r"
    and l1: "length p + 1 + length t1 \<le> n" and p1: "payload_rep (n - length (p @ x # t1)) rest1 cs1 e1"
    and v2: "label_view label2 (S2 @ p @ (\<not> x) # t2) rest2 cs2" and wf2: "\<forall>r \<in> set cs2. wf_cell r"
    and l2: "length p + 1 + length t2 \<le> n" and p2: "payload_rep (n - length (p @ (\<not> x) # t2)) rest2 cs2 e2"
    and sha: "\<And>x. length (sha256 x) = hash_bytes"
  shows "dict_ok (holding n (sides p (if x then pre t2 e2 else pre t1 e1) (if x then pre t1 e1 else pre t2 e2)) Q (length buf))
     (combine_disjoint sha256 buf (length Q) n (length p) (length (p @ x # t1)) (length (p @ (\<not> x) # t2)) s1 label2 (length S2))"
proof -
  define m where "m = n - length p - 1"
  have m: "length t1 \<le> m" "length t2 \<le> m" "m < 2 ^ 31" "length p < n" using l1 l2 n by (simp_all add: m_def)
  have q1: "payload_rep (m - length t1) rest1 cs1 e1" and q2: "payload_rep (m - length t2) rest2 cs2 e2"
    using p1 p2 by (simp_all add: m_def)
  have len: "length (p @ x # t1) - length p - 1 = length t1" "length (p @ (\<not> x) # t2) - length p - 1 = length t2" by simp_all
  have behind: "ptr_bits (bf, length Q + length p + 1) (length t) = t" if "holds bf (Q @ p @ y # t)" for bf y t
    using holds_ptr(1) [of bf "Q @ p @ [y]" t] that by simp
  have in_buf: "ptr_ok (bf, length Q + length p + 1) (length t)" if "length t \<le> m" "length bf = length buf" for bf :: "byte list" and t :: "bool list"
    using that room m(4) by (simp add: ptr_ok_def m_def)
  obtain buf2 lab2 where x2: "extract_label_to label2 (buf, length Q - length S2) = (buf2, lab2)" by fastforce
  have room2: "length Q + length (p @ (\<not> x) # t2) \<le> 8 * length buf" using room l2 by simp
  note X = extract_sub [OF v2 h S2 room2 x2]
  have bit: "ptr_bit (buf2, length Q) (length p) = (\<not> x)"
  proof -
    have "ptr_bits (buf2, length Q) (length (p @ (\<not> x) # t2)) = p @ (\<not> x) # t2" by (rule holds_ptr(1) [OF X(1)])
    moreover have "ptr_ok (buf2, length Q) (length (p @ (\<not> x) # t2))" using X(1) by (simp add: ptr_ok_def holds_def)
    ultimately show ?thesis using ptr_bit_nth [of "(buf2, length Q)" "length (p @ (\<not> x) # t2)" "length p"] by simp
  qed
  have hp: "holds buf2 (Q @ p)" "holds buf2 Q" using holds_prefix [of buf2 "Q @ p" "(\<not> x) # t2"] holds_prefix X(1) by auto
  let ?P = "holding n (sides p (if x then pre t2 e2 else pre t1 e1) (if x then pre t1 e1 else pre t2 e2)) Q (length buf)"
  show ?thesis
    unfolding combine_disjoint_def Let_def x2 prod.case bit len m_def [symmetric]
  proof (rule dict_ok_bind [OF relabel_ok [OF fresh_empty in_buf [OF m(1) refl] behind [OF h] m(1,3) s1(1-4) q1 sha]])
    fix y1 assume "case y1 of (c, cb') \<Rightarrow> dict_rep m c (pre t1 e1) \<and> fresh cb'"
    then obtain d1 cb1 where y1: "y1 = (d1, cb1)" "dict_rep m d1 (pre t1 e1)" "fresh cb1" by (cases y1) auto
    show "dict_ok ?P (case y1 of (dict1, cb) \<Rightarrow>
        bind_err (relabel sha256 cb (buf2, length Q + length p + 1) (length t2) m (l_remainder lab2)) (\<lambda>(dict2, cb).
          case if \<not> (\<not> x) then (dict2, dict1) else (dict1, dict2) of (dict1, dict2) \<Rightarrow>
            bind_err (append_dict_label cb (buf2, length Q) (length p) n) (\<lambda>cb.
              bind_err (finish_create_fork sha256 cb (Some dict1) (Some dict2)) (\<lambda>d. Inr (Some d, buf2)))))"
      unfolding y1(1) prod.case
    proof (rule dict_ok_bind [OF relabel_ok [OF y1(3) in_buf [OF m(2) X(2)] behind [OF X(1)] m(2,3) X(3-5) wf2 q2 sha]])
      fix y2 assume "case y2 of (c, cb') \<Rightarrow> dict_rep m c (pre t2 e2) \<and> fresh cb'"
      then obtain d2 cb2 where y2: "y2 = (d2, cb2)" "dict_rep m d2 (pre t2 e2)" "fresh cb2" by (cases y2) auto
      define a where "a = (if x then d2 else d1)"
      define b where "b = (if x then d1 else d2)"
      have ab: "(if \<not> (\<not> x) then (d2, d1) else (d1, d2)) = (a, b)" by (simp add: a_def b_def)
      have d: "dict_rep (n - length p - 1) a (if x then pre t2 e2 else pre t1 e1)"
        "dict_rep (n - length p - 1) b (if x then pre t1 e1 else pre t2 e2)"
        using y1(2) y2(2) by (simp_all add: a_def b_def m_def)
      have k: "ptr_bits (buf2, length Q) (length p) = p" by (rule holds_ptr(1) [OF hp(1)])
      have ok: "ptr_ok (buf2, length Q) (length p)" using room m(4) X(2) by (simp add: ptr_ok_def)
      have "dict_ok ?P (bind_err (bind_err (append_dict_label cb2 (buf2, length Q) (length p) n)
          (\<lambda>cb. finish_create_fork sha256 cb (Some a) (Some b))) (\<lambda>c. Inr (Some c, buf2)))"
        by (rule dict_ok_bind [OF finish_create_fork_ok [OF y2(3) ok m(4) n d sha, unfolded k]])
          (use hp X(2) in \<open>simp add: holding_def dict_rep_opt_def\<close>)
      then show "dict_ok ?P (case y2 of (dict2, cb) \<Rightarrow>
          case if \<not> (\<not> x) then (dict2, d1) else (d1, dict2) of (dict1, dict2) \<Rightarrow>
            bind_err (append_dict_label cb (buf2, length Q) (length p) n) (\<lambda>cb.
              bind_err (finish_create_fork sha256 cb (Some dict1) (Some dict2)) (\<lambda>d. Inr (Some d, buf2))))"
        unfolding y2(1) prod.case ab bind_err_assoc .
    qed
  qed
qed

section \<open>The two trees are combined\<close>

text \<open>\<open>ok_or A P r\<close>: the result satisfies \<open>P\<close>, or there was no room, or it is one of the exceptions \<open>A\<close>.\<close>

definition ok_or :: "(dict_error \<Rightarrow> bool) \<Rightarrow> ('a \<Rightarrow> bool) \<Rightarrow> dict_error + 'a \<Rightarrow> bool" where
  "ok_or A P r \<longleftrightarrow> (case r of Inl e \<Rightarrow> no_room e \<or> A e | Inr x \<Rightarrow> P x)"

lemma ok_or_simps [simp]: "ok_or A P (Inr x) \<longleftrightarrow> P x" "ok_or A P (Inl e) \<longleftrightarrow> no_room e \<or> A e"
  by (simp_all add: ok_or_def)

lemma ok_or_bind:
  "ok_or B Q r \<Longrightarrow> (\<And>e. B e \<Longrightarrow> A e) \<Longrightarrow> (\<And>x. Q x \<Longrightarrow> ok_or A P (f x)) \<Longrightarrow> ok_or A P (bind_err r f)"
  by (cases r) auto

lemma dict_ok_bind_or: "dict_ok Q r \<Longrightarrow> (\<And>x. Q x \<Longrightarrow> ok_or A P (f x)) \<Longrightarrow> ok_or A P (bind_err r f)"
  by (cases r) (auto simp: dict_ok_def)

lemma dict_ok_or: "dict_ok Q r \<Longrightarrow> (\<And>x. Q x \<Longrightarrow> P x) \<Longrightarrow> ok_or A P r"
  by (cases r) (auto simp: dict_ok_def)

definition combine_result ::
  "(bool list \<Rightarrow> dict_val \<Rightarrow> dict_val \<Rightarrow> dict_val option \<Rightarrow> bool) \<Rightarrow> nat \<Rightarrow> bool list \<Rightarrow> dict_entry list \<Rightarrow> dict_entry list
     \<Rightarrow> bool list \<Rightarrow> nat \<Rightarrow> cell option \<times> byte list \<Rightarrow> bool" where
  "combine_result joined n P e1 e2 Q len r \<longleftrightarrow> (\<exists>e. holding n e Q len r \<and> combined joined P e1 e2 e)"

definition combine_errors ::
  "(bool list \<Rightarrow> dict_val \<Rightarrow> dict_val \<Rightarrow> dict_error \<Rightarrow> bool) \<Rightarrow> int \<Rightarrow> bool list \<Rightarrow> dict_entry list \<Rightarrow> dict_entry list
     \<Rightarrow> dict_error \<Rightarrow> bool" where
  "combine_errors fails mode P e1 e2 e \<longleftrightarrow> mode \<noteq> 0 \<and> e = Combine_error \<or> clash fails P e1 e2 e"

text \<open>What the function may do with two values: give a new value, nothing, or an exception.\<close>

lemma combine_labels_ok:
  assumes N1: "node_rep n S1 c1 ls1 rest1 f1" and N2: "node_rep n S2 c2 ls2 rest2 f2"
    and S: "suffix S1 Q" "suffix S2 Q" and h: "holds buf Q" and room: "length Q + n \<le> 8 * length buf" and n: "length Q + n < 2 ^ 31"
  obtains buf1 lab1 lab2 where
    "combine_labels (Some c1) (Some c2) (buf, length Q) n (length S1) (length S2) =
       Inr (buf1, lab1, lab2, length ls1, length ls2, lcp ls2 ls1)"
    and "holds buf1 (Q @ ls1)" and "length buf1 = length buf" and "slice_ok (l_remainder lab1)"
    and "slice_bits (l_remainder lab1) = rest1" and "slice_children (l_remainder lab1) = c_refs c1"
    and "label_view lab2 (S2 @ ls2) rest2 (c_refs c2)"
proof -
  have sl: "length S1 \<le> length Q" "length S2 \<le> length Q" using S by (simp_all add: suffix_length_le)
  have n31: "n + length S1 < 2 ^ 31" "n + length S2 < 2 ^ 31" using n sl by linarith+
  obtain lab0 where L1: "label_of_cell (Some c1) (n + length S1) chk_all = Inr lab0" "label_view lab0 (S1 @ ls1) rest1 (c_refs c1)"
    using open_sub [OF N1 n31(1)] by blast
  obtain lab2 where L2: "label_of_cell (Some c2) (n + length S2) chk_all = Inr lab2" "label_view lab2 (S2 @ ls2) rest2 (c_refs c2)"
    using open_sub [OF N2 n31(2)] by blast
  have B: "l_bits lab0 = length S1 + length ls1" "l_bits lab2 = length S2 + length ls2"
    using view_bits [OF L1(2)] view_bits [OF L2(2)] by simp_all
  have hQ: "holds buf (Q @ [])" using h by simp
  have asserts: "\<not> \<not> (skip_assert lab0 (buf, length Q) (length S1) \<and> skip_assert lab2 (buf, length Q) (length S2))"
    using prefix_of_sub [OF L1(2) hQ S(1)] prefix_of_sub [OF L2(2) hQ S(2)] B by (simp add: skip_assert_def)
  obtain buf1 lab1 where x1: "extract_label_to lab0 (buf, length Q - length S1) = (buf1, lab1)" by fastforce
  have "length Q + length ls1 \<le> 8 * length buf" using room N1 by (simp add: node_rep_def)
  note X1 = extract_sub [OF L1(2) hQ S(1) this x1]
  have cpl: "label_common_prefix_len lab2 (buf1, length Q - length S2) (length S2 + length ls1) - length S2 = lcp ls2 ls1"
    using prefix_of_sub [OF L2(2) X1(1) S(2)] by simp
  have c: "\<not> \<not> (lcp ls2 ls1 \<le> length ls1 \<and> lcp ls2 ls1 \<le> length ls2)"
    by (cases rule: lcp_cases [of ls2 ls1]) simp_all
  have "combine_labels (Some c1) (Some c2) (buf, length Q) n (length S1) (length S2) =
      Inr (buf1, lab1, lab2, length ls1, length ls2, lcp ls2 ls1)"
    unfolding combine_labels_def L1(1) L2(1) bind_err_simps fst_conv snd_conv B if_not_P [OF asserts]
      Let_def x1 prod.case add_diff_cancel_left' cpl if_not_P [OF c] ..
  then show ?thesis using X1 L2(2) by (rule that)
qed

locale combine_function =
  fixes cf :: combine_func
    and len :: nat
    and joined :: "bool list \<Rightarrow> dict_val \<Rightarrow> dict_val \<Rightarrow> dict_val option \<Rightarrow> bool"
    and fails :: "bool list \<Rightarrow> dict_val \<Rightarrow> dict_val \<Rightarrow> dict_error \<Rightarrow> bool"
  assumes cf_joins: "\<lbrakk>builder_ok b; slice_ok s; slice_ok t; \<forall>r \<in> set (slice_children s) \<union> set (slice_children t). wf_cell r;
      ptr_ok key len; cf b s t key len = Inr (True, b')\<rbrakk> \<Longrightarrow>
      \<exists>v. joined (ptr_bits key len) (slice_bits s, slice_children s) (slice_bits t, slice_children t) (Some v)
        \<and> appends b (fst v) (snd v) (True, b') \<and> (\<forall>r \<in> set (snd v). wf_cell r)"
    and cf_drops: "\<lbrakk>builder_ok b; slice_ok s; slice_ok t; ptr_ok key len; cf b s t key len = Inr (False, b')\<rbrakk> \<Longrightarrow>
      joined (ptr_bits key len) (slice_bits s, slice_children s) (slice_bits t, slice_children t) None"
    and cf_fails: "\<lbrakk>builder_ok b; slice_ok s; slice_ok t; ptr_ok key len; cf b s t key len = Inl e\<rbrakk> \<Longrightarrow>
      fails (ptr_bits key len) (slice_bits s, slice_children s) (slice_bits t, slice_children t) e"
begin

lemma combine_leaf_ok:
  assumes b: "node_coded cb n ls [] []" and h: "holds buf (Q @ ls)" and ls: "length ls = n"
    and s: "slice_ok s" "slice_bits s = rest1" "slice_children s = cs1" and t: "slice_ok t" "slice_bits t = rest2" "slice_children t = cs2"
    and wf: "\<forall>r \<in> set cs1 \<union> set cs2. wf_cell r"
    and k: "n \<le> len" "len \<le> length Q + n" and sha: "\<And>x. length (sha256 x) = hash_bytes"
  defines "P \<equiv> drop (length Q + n - len) Q"
  shows "ok_or (combine_errors fails mode P [(ls, rest1, cs1)] [(ls, rest2, cs2)])
     (combine_result joined n P [(ls, rest1, cs1)] [(ls, rest2, cs2)] Q (length buf))
     (bind_err (cf cb s t (buf, length Q + n - len) len)
       (\<lambda>(ok, cb). if \<not> ok then Inr (None, buf) else bind_err (dict_finalize sha256 cb) (\<lambda>(d, cb). Inr (Some d, buf))))"
proof -
  let ?st = "length Q + n - len" and ?e1 = "[(ls, rest1, cs1)]" and ?e2 = "[(ls, rest2, cs2)]"
  have st: "?st \<le> length Q" "length Q + n - ?st = len" using k by simp_all
  have key: "ptr_bits (buf, ?st) len = P @ ls" using holds_ptr(2) [OF h st(1)] ls st(2) by (simp add: P_def)
  have pk: "ptr_ok (buf, ?st) len" using h ls st k by (simp add: ptr_ok_def holds_def)
  have hQ: "holds buf Q" by (rule holds_prefix [OF h])
  have bo: "builder_ok cb" using b by (simp add: node_coded_def)
  have wf': "\<forall>r \<in> set (slice_children s) \<union> set (slice_children t). wf_cell r" using wf s(3) t(3) by simp
  have res: "combined joined P ?e1 ?e2 e" if "joined (P @ ls) (rest1, cs1) (rest2, cs2) (map_of e ls)" "\<And>k. k \<noteq> ls \<Longrightarrow> map_of e k = None"
    for e using that by (auto simp: combined_def merged_def)
  show ?thesis
  proof (cases "cf cb s t (buf, ?st) len")
    case (Inl e)
    then have "fails (P @ ls) (rest1, cs1) (rest2, cs2) e" using cf_fails [OF bo s(1) t(1) pk] key s t by simp
    then show ?thesis by (auto simp: Inl combine_errors_def clash_def)
  next
    case (Inr y)
    obtain ok cb1 where y: "y = (ok, cb1)" by (cases y)
    show ?thesis
    proof (cases ok)
      case False
      then have "joined (P @ ls) (rest1, cs1) (rest2, cs2) None" using cf_drops [OF bo s(1) t(1) pk, of cb1] Inr y key s t by simp
      then have "combined joined P ?e1 ?e2 []" by (intro res) simp_all
      then show ?thesis using Inr y False hQ by (auto simp: combine_result_def holding_def dict_rep_opt_def)
    next
      case True
      obtain v where v: "joined (P @ ls) (rest1, cs1) (rest2, cs2) (Some v)" "appends cb (fst v) (snd v) (True, cb1)"
        "\<forall>r \<in> set (snd v). wf_cell r"
        using cf_joins [OF bo s(1) t(1) wf' pk, of cb1] Inr y True key s t by auto
      have c1: "node_coded cb1 n ls (fst v) (snd v)"
        using add_content_ok [OF b, of "fst v" "snd v" "(True, cb1)"] v(2) by (simp add: or_throw_def)
      have pl: "payload_rep (n - length ls) (fst v) (snd v) [([], fst v, snd v)]" using leaf [of "fst v" "snd v"] ls by simp
      have "combined joined P ?e1 ?e2 [(ls, v)]" by (rule res) (use v(1) in simp_all)
      then have "ok_or (combine_errors fails mode P ?e1 ?e2) (combine_result joined n P ?e1 ?e2 Q (length buf))
          (bind_err (dict_finalize sha256 cb1) (\<lambda>(d, cb). Inr (Some d, buf)))"
        by (intro dict_ok_bind_or [OF finalize_node_ok [OF c1 sha v(3) pl]])
          (use hQ in \<open>auto simp: combine_result_def holding_def dict_rep_opt_def\<close>)
      then show ?thesis using Inr y True by simp
    qed
  qed
qed

lemma fork_result:
  assumes m: "dict_ok (holding n (sides p ea eb) Q l) r"
    and a: "combined joined (P @ p @ [False]) ea1 ea2 ea" and b: "combined joined (P @ p @ [True]) eb1 eb2 eb"
  shows "ok_or A (combine_result joined n P (sides p ea1 eb1) (sides p ea2 eb2) Q l) r"
  unfolding combine_result_def
  by (rule dict_ok_or [OF m], rule exI, rule conjI, assumption, rule combined_sides [OF a b])

text \<open>One of the two goes on below the fork of the other, on the side \<open>x\<close>.\<close>

lemma one_deeper_ok:
  assumes rec: "ok_or (combine_errors fails mode (P @ p @ [x]) u1 u2)
      (combine_result joined (n - length p - 1) (P @ p @ [x]) u1 u2 (Q @ p @ [x]) l) r"
    and o: "dict_rep (n - length p - 1) other eo" and same: "combined joined (P @ p @ [\<not> x]) o1 o2 eo"
    and e1: "e1 = sides p (if x then o1 else u1) (if x then u1 else o1)"
    and e2: "e2 = sides p (if x then o2 else u2) (if x then u2 else o2)"
    and room: "length Q + n \<le> 8 * l" and lt: "length p < n" and n: "n < 2 ^ 31" and sha: "\<And>x. length (sha256 x) = hash_bytes"
  shows "ok_or (combine_errors fails mode P e1 e2) (combine_result joined n P e1 e2 Q l)
     (bind_err r (\<lambda>(r, buf). case if x then (Some other, r) else (r, Some other) of
        (c1, c2) \<Rightarrow> combine_fork sha256 buf (length Q) n (length p) x c1 c2))"
proof (rule ok_or_bind [OF rec])
  fix e assume "combine_errors fails mode (P @ p @ [x]) u1 u2 e"
  then show "combine_errors fails mode P e1 e2 e"
    unfolding e1 e2 using clash_sides [of fails P p] by (cases x) (auto simp only: combine_errors_def if_True if_False)
next
  fix y assume y: "combine_result joined (n - length p - 1) (P @ p @ [x]) u1 u2 (Q @ p @ [x]) l y"
  obtain c buf er where Y: "y = (c, buf)" "dict_rep_opt (n - length p - 1) c er" "holds buf (Q @ p @ [x])" "length buf = l"
    "combined joined (P @ p @ [x]) u1 u2 er"
    using y by (cases y) (auto simp: combine_result_def holding_def)
  have room': "length Q + n \<le> 8 * length buf" using room Y(4) by simp
  note F = combine_fork_ok [OF Y(3) room' lt n Y(2) o sha, unfolded Y(4)]
  have pair: "(if x then (Some other, c) else (c, Some other)) = (if x then Some other else c, if x then c else Some other)" by simp
  show "ok_or (combine_errors fails mode P e1 e2) (combine_result joined n P e1 e2 Q l)
     (case y of (r, buf) \<Rightarrow> case if x then (Some other, r) else (r, Some other) of
        (c1, c2) \<Rightarrow> combine_fork sha256 buf (length Q) n (length p) x c1 c2)"
    unfolding Y(1) prod.case pair e1 e2
    by (rule fork_result [OF F]) (use same Y(5) in \<open>cases x; simp\<close>)+
qed

text \<open>Both have a fork here: the sides are combined one after the other.\<close>

lemma both_deeper_ok:
  assumes cb: "node_coded cb n p [] []" and h: "holds buf (Q @ p)" and room: "length Q + n \<le> 8 * length buf"
    and lt: "length p < n" and n: "n < 2 ^ 31" and sha: "\<And>x. length (sha256 x) = hash_bytes"
    and rec: "\<And>x bf. \<lbrakk>holds bf (Q @ p @ [x]); length bf = length buf\<rbrakk> \<Longrightarrow>
      ok_or (combine_errors fails 0 (P @ p @ [x]) (if x then eb1 else ea1) (if x then eb2 else ea2))
        (combine_result joined (n - length p - 1) (P @ p @ [x]) (if x then eb1 else ea1) (if x then eb2 else ea2)
          (Q @ p @ [x]) (length buf)) (rec x bf)"
  shows "ok_or (combine_errors fails mode P (sides p ea1 eb1) (sides p ea2 eb2))
     (combine_result joined n P (sides p ea1 eb1) (sides p ea2 eb2) Q (length buf))
     (bind_err (rec False (ptr_set_bit (buf, length Q + length p) 0 False)) (\<lambda>(c1, buf).
        bind_err (rec True (ptr_set_bit (buf, length Q + length p) 0 True)) (\<lambda>(c2, buf).
          combine_both sha256 cb buf (length Q) n (length p) c1 c2)))"
proof -
  have set_bit: "holds (ptr_set_bit (bf, length Q + length p) 0 x) (Q @ p @ [x])" if "holds bf (Q @ p)" "length bf = length buf" for bf x
    using holds_set_bit [OF that(1), of x] that(2) room lt by simp
  have len': "length (ptr_set_bit (bf, length Q + length p) 0 x) = length buf" if "length bf = length buf" for bf x
    using that by simp
  have errs: "combine_errors fails mode P (sides p ea1 eb1) (sides p ea2 eb2) e"
    if "combine_errors fails 0 (P @ p @ [x]) (if x then eb1 else ea1) (if x then eb2 else ea2) e" for x e
    using that clash_sides [of fails P p] by (cases x) (auto simp only: combine_errors_def if_True if_False)
  show ?thesis
  proof (rule ok_or_bind [OF rec [OF set_bit [OF h refl] len' [OF refl]] errs])
    fix y1 assume y1: "combine_result joined (n - length p - 1) (P @ p @ [False]) (if False then eb1 else ea1)
      (if False then eb2 else ea2) (Q @ p @ [False]) (length buf) y1"
    obtain c1 buf1 ea where Y1: "y1 = (c1, buf1)" "dict_rep_opt (n - length p - 1) c1 ea" "holds buf1 (Q @ p @ [False])"
      "length buf1 = length buf" "combined joined (P @ p @ [False]) ea1 ea2 ea"
      using y1 by (cases y1) (auto simp: combine_result_def holding_def)
    have h1: "holds buf1 (Q @ p)" using holds_prefix [of buf1 "Q @ p" "[False]"] Y1(3) by simp
    show "ok_or (combine_errors fails mode P (sides p ea1 eb1) (sides p ea2 eb2))
     (combine_result joined n P (sides p ea1 eb1) (sides p ea2 eb2) Q (length buf))
     (case y1 of (c1, buf) \<Rightarrow> bind_err (rec True (ptr_set_bit (buf, length Q + length p) 0 True)) (\<lambda>(c2, buf).
          combine_both sha256 cb buf (length Q) n (length p) c1 c2))"
      unfolding Y1(1) prod.case
    proof (rule ok_or_bind [OF rec [OF set_bit [OF h1 Y1(4)] len' [OF Y1(4)]] errs])
      fix y2 assume y2: "combine_result joined (n - length p - 1) (P @ p @ [True]) (if True then eb1 else ea1)
        (if True then eb2 else ea2) (Q @ p @ [True]) (length buf) y2"
      obtain c2 buf2 eb where Y2: "y2 = (c2, buf2)" "dict_rep_opt (n - length p - 1) c2 eb" "holds buf2 (Q @ p @ [True])"
        "length buf2 = length buf" "combined joined (P @ p @ [True]) eb1 eb2 eb"
        using y2 by (cases y2) (auto simp: combine_result_def holding_def)
      have room2: "length Q + n \<le> 8 * length buf2" using room Y2(4) by simp
      show "ok_or (combine_errors fails mode P (sides p ea1 eb1) (sides p ea2 eb2))
       (combine_result joined n P (sides p ea1 eb1) (sides p ea2 eb2) Q (length buf))
       (case y2 of (c2, buf) \<Rightarrow> combine_both sha256 cb buf (length Q) n (length p) c1 c2)"
        unfolding Y2(1) prod.case
        by (rule fork_result [OF combine_both_ok [OF cb Y2(3) room2 lt n Y1(2) Y2(2) sha, unfolded Y2(4)] Y1(5) Y2(5)])
    qed
  qed
qed

theorem dict_combine_with_ok:
  assumes "sub_rep n S1 d1 e1" and "sub_rep n S2 d2 e2" and "(d1 = None \<longrightarrow> S2 = []) \<and> (d2 = None \<longrightarrow> S1 = [])"
    and "suffix S1 Q" and "suffix S2 Q" and "holds buf Q" and "length Q + n \<le> 8 * length buf"
    and "n \<le> len" and "len \<le> length Q + n" and "length Q + n < 2 ^ 31"
    and sha: "\<And>x. length (sha256 x) = hash_bytes"
  shows "ok_or (combine_errors fails mode (drop (length Q + n - len) Q) e1 e2)
     (combine_result joined n (drop (length Q + n - len) Q) e1 e2 Q (length buf))
     (dict_combine_with sha256 d1 d2 (buf, length Q) n len cf mode (length S1) (length S2))"
  using assms(1-10)
proof (induction n arbitrary: S1 S2 d1 d2 e1 e2 Q buf mode rule: less_induct)
  case (less n)
  define P where "P = drop (length Q + n - len) Q"
  let ?A = "combine_errors fails mode P e1 e2"
  let ?R = "combine_result joined n P e1 e2 Q (length buf)"
  show ?case
  proof (cases "d1 = None \<or> d2 = None")
    case True
    then show ?thesis
    proof
      assume d: "d1 = None"
      then have e: "e1 = []" "S1 = []" "S2 = []" using less.prems(1,3) by (auto simp: sub_rep_def)
      have "dict_rep_opt n d2 e2" using less.prems(2) by (simp add: e sub_rep_Nil)
      then have "?R (d2, buf)" using less.prems(6) by (auto simp: combine_result_def holding_def e)
      then show ?thesis by (auto simp: dict_combine_with.simps [of _ None] d e P_def combine_errors_def)
    next
      assume d: "d2 = None"
      then have e: "e2 = []" "S1 = []" "S2 = []" using less.prems(2,3) by (auto simp: sub_rep_def)
      have "dict_rep_opt n d1 e1" using less.prems(1) by (simp add: e sub_rep_Nil)
      then have "?R (d1, buf)" using less.prems(6) by (auto simp: combine_result_def holding_def e)
      moreover have "?R (None, buf)" if "d1 = None"
        using \<open>?R (d1, buf)\<close> that by simp
      ultimately show ?thesis by (auto simp: dict_combine_with.simps d e P_def combine_errors_def)
    qed
  next
    case False
    then obtain c1 c2 where d: "d1 = Some c1" "d2 = Some c2" by auto
    have ne: "Some c1 \<noteq> None" "Some c2 \<noteq> None" by simp_all
    obtain ls1 rest1 f1 where N1: "node_rep n S1 c1 ls1 rest1 f1" "e1 = pre ls1 f1"
      using less.prems(1) by (auto simp: d sub_rep_def)
    obtain ls2 rest2 f2 where N2: "node_rep n S2 c2 ls2 rest2 f2" "e2 = pre ls2 f2"
      using less.prems(2) by (auto simp: d sub_rep_def)
    have n31: "n < 2 ^ 31" using less.prems(10) by simp
    have len1: "length ls1 \<le> n" "payload_rep (n - length ls1) rest1 (c_refs c1) f1"
      and len2: "length ls2 \<le> n" "payload_rep (n - length ls2) rest2 (c_refs c2) f2"
      using N1(1) N2(1) by (simp_all add: node_rep_def)
    have wf: "\<forall>r \<in> set (c_refs c1). wf_cell r" "\<forall>r \<in> set (c_refs c2). wf_cell r"
      using N1(1) N2(1) ordinary_refs by (auto simp: node_rep_def)
    obtain buf1 lab1' lab2 where labels: "combine_labels (Some c1) (Some c2) (buf, length Q) n (length S1) (length S2) =
        Inr (buf1, lab1', lab2, length ls1, length ls2, lcp ls2 ls1)"
      and X1: "holds buf1 (Q @ ls1)" "length buf1 = length buf" "slice_ok (l_remainder lab1')"
        "slice_bits (l_remainder lab1') = rest1" "slice_children (l_remainder lab1') = c_refs c1"
      and L2: "label_view lab2 (S2 @ ls2) rest2 (c_refs c2)"
      using combine_labels_ok [OF N1(1) N2(1) less.prems(4-7,10)] .
    have room: "length Q + n \<le> 8 * length buf1" using less.prems(7) X1(2) by simp
    note X2 = skip_label_rest [OF L2]
    note unf = dict_combine_with.simps [of sha256 "Some c1" "Some c2" "(buf, length Q)" n len cf mode "length S1" "length S2",
        unfolded if_not_P [OF ne(1)] if_not_P [OF ne(2)] labels bind_err_simps fst_conv snd_conv Let_def prod.case]
    have st: "length (Q @ p @ [x]) + (n - length p - 1) - len = length Q + n - len"
      "drop (length Q + n - len) (Q @ p @ [x]) = P @ p @ [x]"
      "length (Q @ p @ [x]) = length Q + length p + 1" "n - length p - 1 < n" "n - length p - 1 \<le> len"
      "len \<le> length (Q @ p @ [x]) + (n - length p - 1)" "length (Q @ p @ [x]) + (n - length p - 1) < 2 ^ 31"
      "bf_len = length buf \<Longrightarrow> length (Q @ p @ [x]) + (n - length p - 1) \<le> 8 * bf_len"
      if "length p < n" for p and x :: bool and bf_len
      using that less.prems(7-10) by (simp_all add: P_def)
    have w31: "n - length p - 1 < 2 ^ 31" for p using n31 by simp
    show ?thesis
      unfolding P_def [symmetric] d
    proof (cases rule: lcp_cases [of ls2 ls1])
      case equal
      let ?c = "length ls1"
      have c: "\<not> (?c < ?c \<and> ?c < ?c)" "?c = ?c \<and> ?c = ?c" by simp_all
      have k: "ptr_bits (buf1, length Q) ?c = ls1" by (rule holds_ptr(1) [OF X1(1)])
      have ok: "ptr_ok (buf1, length Q) ?c" using X1(1) by (simp add: ptr_ok_def holds_def)
      show "ok_or ?A ?R (dict_combine_with sha256 (Some c1) (Some c2) (buf, length Q) n len cf mode (length S1) (length S2))"
        unfolding unf equal(1) lcp_refl if_not_P [OF c(1)] if_P [OF c(2)]
      proof (rule dict_ok_bind_or [OF append_dict_label_ok [OF fresh_empty ok len1(1) n31, unfolded k]])
        fix cb assume "node_built cb n ls1 [] []"
        from node_built_coded [OF this len1(1) n31] have cb: "node_coded cb n ls1 [] []" .
        show "ok_or ?A ?R (if ?c = n then
              bind_err (cf cb (l_remainder lab1') (l_remainder (skip_label lab2)) (buf1, length Q + n - len) len)
                (\<lambda>(ok, cb). if \<not> ok then Inr (None, buf1) else bind_err (dict_finalize sha256 cb) (\<lambda>(d, cb). Inr (Some d, buf1)))
            else
              bind_err (dict_combine_with sha256 (prefetch_ref (l_remainder lab1') 0) (prefetch_ref (l_remainder (skip_label lab2)) 0)
                (ptr_set_bit (buf1, length Q + ?c) 0 False, length Q + ?c + 1) (n - ?c - 1) len cf 0 0 0) (\<lambda>(c1, buf).
                bind_err (dict_combine_with sha256 (prefetch_ref (l_remainder lab1') 1) (prefetch_ref (l_remainder (skip_label lab2)) 1)
                  (ptr_set_bit (buf, length Q + ?c) 0 True, length Q + ?c + 1) (n - ?c - 1) len cf 0 0 0) (\<lambda>(c2, buf).
                  combine_both sha256 cb buf (length Q) n ?c c1 c2)))"
        proof (cases "?c = n")
          case True
          have "f1 = [([], rest1, c_refs c1)]" "f2 = [([], rest2, c_refs c2)]"
            using payload_leaf [OF len1(2) True] payload_leaf [OF len2(2)] True equal(1) by simp_all
          then have e: "e1 = [(ls1, rest1, c_refs c1)]" "e2 = [(ls1, rest2, c_refs c2)]" using N1(2) N2(2) equal(1) by simp_all
          have wf12: "\<forall>r \<in> set (c_refs c1) \<union> set (c_refs c2). wf_cell r" using wf by blast
          show ?thesis unfolding if_P [OF True] e
            using combine_leaf_ok [OF cb X1(1) True X1(3-5) X2 wf12 less.prems(8,9) sha, of mode] by (simp only: P_def X1(2))
        next
          case False
          then have lt: "length ls1 < n" using len1(1) by simp
          obtain a1 b1 ea1 eb1 where F1: "c_refs c1 = [a1, b1]" "dict_rep (n - ?c - 1) a1 ea1" "dict_rep (n - ?c - 1) b1 eb1"
            "f1 = pre [False] ea1 @ pre [True] eb1"
            using payload_fork_step [OF len1(2) lt] by blast
          obtain a2 b2 ea2 eb2 where F2: "c_refs c2 = [a2, b2]" "dict_rep (n - ?c - 1) a2 ea2" "dict_rep (n - ?c - 1) b2 eb2"
            "f2 = pre [False] ea2 @ pre [True] eb2"
            using payload_fork_step [OF len2(2)] lt equal(1) by auto
          have refs: "prefetch_ref (l_remainder lab1') 0 = Some a1" "prefetch_ref (l_remainder lab1') 1 = Some b1"
            "prefetch_ref (l_remainder (skip_label lab2)) 0 = Some a2" "prefetch_ref (l_remainder (skip_label lab2)) 1 = Some b2"
            using view_advanced_ref [OF X1(3,5)] view_advanced_ref [OF X2(1,3)] F1(1) F2(1) by simp_all
          define rec where "rec = (\<lambda>x bf. dict_combine_with sha256 (Some (if x then b1 else a1)) (Some (if x then b2 else a2))
            (bf, length Q + ?c + 1) (n - ?c - 1) len cf 0 0 0)"
          have R: "ok_or (combine_errors fails 0 (P @ ls1 @ [x]) (if x then eb1 else ea1) (if x then eb2 else ea2))
              (combine_result joined (n - ?c - 1) (P @ ls1 @ [x]) (if x then eb1 else ea1) (if x then eb2 else ea2)
                (Q @ ls1 @ [x]) (length buf1)) (rec x bf)"
            if h: "holds bf (Q @ ls1 @ [x])" "length bf = length buf1" for x bf
          proof -
            have s1: "sub_rep (n - ?c - 1) [] (Some (if x then b1 else a1)) (if x then eb1 else ea1)"
              and s2: "sub_rep (n - ?c - 1) [] (Some (if x then b2 else a2)) (if x then eb2 else ea2)"
              using F1(2,3) F2(2,3) by (simp_all add: sub_rep_Nil dict_rep_opt_def)
            have rm: "length (Q @ ls1 @ [x]) + (n - ?c - 1) \<le> 8 * length bf" using st(8) [OF lt] h(2) X1(2) by simp
            note S = st(1-3) [OF lt, of x] st(4,5) [OF lt] st(6,7) [OF lt, of x]
            show ?thesis
              using less.IH [OF S(4) s1 s2 _ _ _ h(1) rm S(5-7), of 0, unfolded S(1,2), unfolded S(3)] h(2) by (simp add: rec_def)
          qed
          have e: "e1 = sides ls1 ea1 eb1" "e2 = sides ls1 ea2 eb2" unfolding N1(2) N2(2) F1(4) F2(4) equal(1) by simp_all
          show ?thesis
            unfolding if_not_P [OF False] refs e
            using both_deeper_ok [OF cb X1(1) room lt n31 sha, of P eb1 ea1 eb2 ea2 rec mode, OF R] by (simp add: rec_def X1(2))
        qed
      qed
    next
      case (first x t)
      have c: "\<not> (length ls1 < length ls1 \<and> length ls1 < length ls2)"
        "\<not> (length ls1 = length ls1 \<and> length ls1 = length ls2)"
        using first(1) by simp_all
      obtain buf2 lab2' where x2: "extract_label_to lab2 (buf1, length Q - length S2) = (buf2, lab2')" by fastforce
      have lt: "length ls1 < n" and deep: "sub_rep (n - length ls1 - 1) (S2 @ ls1 @ [x]) (Some c2) (pre t f2)"
        using node_rep_deeper [OF N2(1) [unfolded first(1)]] by simp_all
      have "length Q + length ls2 \<le> 8 * length buf1" using room len2(1) by simp
      note X3 = extract_sub [OF L2 X1(1) less.prems(5) this x2]
      have hx: "holds buf2 (Q @ ls1 @ [x])" using holds_prefix [of buf2 "Q @ ls1 @ [x]" t] X3(1) first(1) by simp
      have bit: "ptr_bit (buf2, length Q) (length ls1) = x"
        using ptr_bit_nth [of "(buf2, length Q)" "length ls2" "length ls1"] holds_ptr(1) [OF X3(1)] X3(1) first(1)
        by (simp add: ptr_ok_def holds_def)
      obtain a b ea eb where F: "c_refs c1 = [a, b]" "dict_rep (n - length ls1 - 1) a ea" "dict_rep (n - length ls1 - 1) b eb"
        "f1 = pre [False] ea @ pre [True] eb"
        using payload_fork_step [OF len1(2) lt] by blast
      have refs: "prefetch_ref (l_remainder lab1') 0 = Some a" "prefetch_ref (l_remainder lab1') 1 = Some b"
        using view_advanced_ref [OF X1(3,5)] F(1) by simp_all
      have run: "dict_combine_with sha256 (Some c1) (Some c2) (buf, length Q) n len cf mode (length S1) (length S2) =
          (if mode AND 2 \<noteq> 0 then Inl Combine_error
           else bind_err (dict_combine_with sha256 (if x then Some b else Some a) (Some c2) (buf2, length Q + length ls1 + 1)
                  (n - length ls1 - 1) len cf mode 0 (length S2 + length ls1 + 1))
             (\<lambda>(r, buf). case if x then (Some a, r) else (r, Some b) of
                (c1, c2) \<Rightarrow> combine_fork sha256 buf (length Q) n (length ls1) x c1 c2))"
        unfolding unf first(2) if_not_P [OF c(1)] if_not_P [OF c(2)] if_P [OF refl] x2 prod.case bit refs ..
      have s1: "sub_rep (n - length ls1 - 1) [] (if x then Some b else Some a) (if x then eb else ea)"
        using F(2,3) by (simp add: sub_rep_Nil dict_rep_opt_def)
      have rm: "length (Q @ ls1 @ [x]) + (n - length ls1 - 1) \<le> 8 * length buf2" using st(8) [OF lt] X3(2) X1(2) by simp
      have sf: "suffix [] (Q @ ls1 @ [x])" "suffix (S2 @ ls1 @ [x]) (Q @ ls1 @ [x])" "(if x then Some b else Some a) \<noteq> None"
        using less.prems(5) by (auto simp: suffix_def)
      note S = st(1-3) [OF lt, of x] st(4,5) [OF lt] st(6,7) [OF lt, of x]
      have rec: "ok_or (combine_errors fails mode (P @ ls1 @ [x]) (if x then eb else ea) (pre t f2))
          (combine_result joined (n - length ls1 - 1) (P @ ls1 @ [x]) (if x then eb else ea) (pre t f2) (Q @ ls1 @ [x]) (length buf))
          (dict_combine_with sha256 (if x then Some b else Some a) (Some c2) (buf2, length Q + length ls1 + 1)
             (n - length ls1 - 1) len cf mode 0 (length S2 + length ls1 + 1))"
        using less.IH [OF S(4) s1 deep _ sf(1,2) hx rm S(5-7), of mode, unfolded S(1,2), unfolded S(3)] sf(3) X3(2) X1(2) by simp
      have e1: "e1 = sides ls1 (if x then if x then ea else eb else if x then eb else ea) (if x then if x then eb else ea else if x then ea else eb)"
        unfolding N1(2) F(4) by (cases x) simp_all
      have e2: "e2 = sides ls1 (if x then [] else pre t f2) (if x then pre t f2 else [])"
        unfolding N2(2) first(1) one_side ..
      have o: "dict_rep (n - length ls1 - 1) (if x then a else b) (if x then ea else eb)" using F(2,3) by simp
      have pair: "(if x then (Some a, r) else (r, Some b)) = (if x then (Some (if x then a else b), r) else (r, Some (if x then a else b)))"
        for r by simp
      have "ok_or ?A ?R (bind_err (dict_combine_with sha256 (if x then Some b else Some a) (Some c2) (buf2, length Q + length ls1 + 1)
            (n - length ls1 - 1) len cf mode 0 (length S2 + length ls1 + 1))
          (\<lambda>(r, buf). case if x then (Some a, r) else (r, Some b) of
             (c1, c2) \<Rightarrow> combine_fork sha256 buf (length Q) n (length ls1) x c1 c2))"
        unfolding pair by (rule one_deeper_ok [OF rec o combined_empty(2) e1 e2 less.prems(7) lt n31 sha])
      then show "ok_or ?A ?R (dict_combine_with sha256 (Some c1) (Some c2) (buf, length Q) n len cf mode (length S1) (length S2))"
        unfolding run by (cases "mode AND 2 \<noteq> 0") (auto simp: combine_errors_def)
    next
      case (second x t)
      have c: "\<not> (length ls2 < length ls1 \<and> length ls2 < length ls2)"
        "\<not> (length ls2 = length ls1 \<and> length ls2 = length ls2)" "length ls2 \<noteq> length ls1"
        using second(1) by simp_all
      have lt: "length ls2 < n" and deep: "sub_rep (n - length ls2 - 1) (S1 @ ls2 @ [x]) (Some c1) (pre t f1)"
        using node_rep_deeper [OF N1(1) [unfolded second(1)]] by simp_all
      have hx: "holds buf1 (Q @ ls2 @ [x])" using holds_prefix [of buf1 "Q @ ls2 @ [x]" t] X1(1) second(1) by simp
      have bit: "ptr_bit (buf1, length Q) (length ls2) = x"
        using ptr_bit_nth [of "(buf1, length Q)" "length ls1" "length ls2"] holds_ptr(1) [OF X1(1)] X1(1) second(1)
        by (simp add: ptr_ok_def holds_def)
      obtain a b ea eb where F: "c_refs c2 = [a, b]" "dict_rep (n - length ls2 - 1) a ea" "dict_rep (n - length ls2 - 1) b eb"
        "f2 = pre [False] ea @ pre [True] eb"
        using payload_fork_step [OF len2(2) lt] by blast
      have refs: "prefetch_ref (l_remainder (skip_label lab2)) 0 = Some a" "prefetch_ref (l_remainder (skip_label lab2)) 1 = Some b"
        using view_advanced_ref [OF X2(1,3)] F(1) by simp_all
      have run: "dict_combine_with sha256 (Some c1) (Some c2) (buf, length Q) n len cf mode (length S1) (length S2) =
          (if mode AND 1 \<noteq> 0 then Inl Combine_error
           else bind_err (dict_combine_with sha256 (Some c1) (if x then Some b else Some a) (buf1, length Q + length ls2 + 1)
                  (n - length ls2 - 1) len cf mode (length S1 + length ls2 + 1) 0)
             (\<lambda>(r, buf). case if x then (Some a, r) else (r, Some b) of
                (c1, c2) \<Rightarrow> combine_fork sha256 buf (length Q) n (length ls2) x c1 c2))"
        unfolding unf second(2) if_not_P [OF c(1)] if_not_P [OF c(2)] if_not_P [OF c(3)] prod.case bit refs ..
      have s2: "sub_rep (n - length ls2 - 1) [] (if x then Some b else Some a) (if x then eb else ea)"
        using F(2,3) by (simp add: sub_rep_Nil dict_rep_opt_def)
      have rm: "length (Q @ ls2 @ [x]) + (n - length ls2 - 1) \<le> 8 * length buf1" using st(8) [OF lt] X1(2) by simp
      have sf: "suffix [] (Q @ ls2 @ [x])" "suffix (S1 @ ls2 @ [x]) (Q @ ls2 @ [x])" "(if x then Some b else Some a) \<noteq> None"
        using less.prems(4) by (auto simp: suffix_def)
      note S = st(1-3) [OF lt, of x] st(4,5) [OF lt] st(6,7) [OF lt, of x]
      have rec: "ok_or (combine_errors fails mode (P @ ls2 @ [x]) (pre t f1) (if x then eb else ea))
          (combine_result joined (n - length ls2 - 1) (P @ ls2 @ [x]) (pre t f1) (if x then eb else ea) (Q @ ls2 @ [x]) (length buf))
          (dict_combine_with sha256 (Some c1) (if x then Some b else Some a) (buf1, length Q + length ls2 + 1)
             (n - length ls2 - 1) len cf mode (length S1 + length ls2 + 1) 0)"
        using less.IH [OF S(4) deep s2 _ sf(2,1) hx rm S(5-7), of mode, unfolded S(1,2), unfolded S(3)] sf(3) X1(2) by simp
      have e1: "e1 = sides ls2 (if x then [] else pre t f1) (if x then pre t f1 else [])"
        unfolding N1(2) second(1) one_side ..
      have e2: "e2 = sides ls2 (if x then if x then ea else eb else if x then eb else ea) (if x then if x then eb else ea else if x then ea else eb)"
        unfolding N2(2) F(4) by (cases x) simp_all
      have o: "dict_rep (n - length ls2 - 1) (if x then a else b) (if x then ea else eb)" using F(2,3) by simp
      have pair: "(if x then (Some a, r) else (r, Some b)) = (if x then (Some (if x then a else b), r) else (r, Some (if x then a else b)))"
        for r by simp
      have "ok_or ?A ?R (bind_err (dict_combine_with sha256 (Some c1) (if x then Some b else Some a) (buf1, length Q + length ls2 + 1)
            (n - length ls2 - 1) len cf mode (length S1 + length ls2 + 1) 0)
          (\<lambda>(r, buf). case if x then (Some a, r) else (r, Some b) of
             (c1, c2) \<Rightarrow> combine_fork sha256 buf (length Q) n (length ls2) x c1 c2))"
        unfolding pair by (rule one_deeper_ok [OF rec o combined_empty(1) e1 e2 less.prems(7) lt n31 sha])
      then show "ok_or ?A ?R (dict_combine_with sha256 (Some c1) (Some c2) (buf, length Q) n len cf mode (length S1) (length S2))"
        unfolding run by (cases "mode AND 1 \<noteq> 0") (auto simp: combine_errors_def)
    next
      case (part p x t1 t2)
      have c: "length p < length ls1 \<and> length p < length ls2"
        using part(1,2) by simp_all
      have run: "dict_combine_with sha256 (Some c1) (Some c2) (buf, length Q) n len cf mode (length S1) (length S2) =
          (if mode AND 3 \<noteq> 0 then Inl Combine_error
           else combine_disjoint sha256 buf1 (length Q) n (length p) (length ls1) (length ls2) (l_remainder lab1') lab2 (length S2))"
        unfolding unf part(3) if_P [OF c] ..
      have l: "length p + 1 + length t1 \<le> n" "length p + 1 + length t2 \<le> n" using len1(1) len2(1) part(1,2) by simp_all
      have h: "holds buf1 (Q @ p @ x # t1)" using X1(1) part(1) by simp
      note D = combine_disjoint_ok [OF h less.prems(5) room n31 X1(3-5) wf(1) l(1) len1(2) [unfolded part(1)]
          L2 [unfolded part(2)] wf(2) l(2) len2(2) [unfolded part(2)] sha, folded part(1,2), unfolded X1(2)]
      have e: "e1 = sides p (if x then [] else pre t1 f1) (if x then pre t1 f1 else [])"
        "e2 = sides p (if x then pre t2 f2 else []) (if x then [] else pre t2 f2)"
        unfolding N1(2) N2(2) part(1,2) one_side by simp_all
      have "ok_or ?A ?R (combine_disjoint sha256 buf1 (length Q) n (length p) (length ls1) (length ls2) (l_remainder lab1') lab2 (length S2))"
        unfolding e by (rule fork_result [OF D]) (cases x; simp)+
      then show "ok_or ?A ?R (dict_combine_with sha256 (Some c1) (Some c2) (buf, length Q) n len cf mode (length S1) (length S2))"
        unfolding run by (cases "mode AND 3 \<noteq> 0") (auto simp: combine_errors_def)
    qed
  qed
qed

end

section \<open>The dictionary objects\<close>

definition combine_with_result ::
  "(bool list \<Rightarrow> dict_val \<Rightarrow> dict_val \<Rightarrow> dict_val option \<Rightarrow> bool) \<Rightarrow> (bool list \<Rightarrow> dict_val \<Rightarrow> dict_val \<Rightarrow> dict_error \<Rightarrow> bool)
     \<Rightarrow> int \<Rightarrow> nat \<Rightarrow> dict \<Rightarrow> dict \<Rightarrow> dict_entry list \<Rightarrow> dict_entry list \<Rightarrow> dict_error + bool \<times> dict \<times> dict \<Rightarrow> bool" where
  "combine_with_result joined fails mode n d d2 e1 e2 r \<longleftrightarrow>
     (case r of
        Inl e \<Rightarrow> no_room e \<or> e \<noteq> Combine_error \<and> clash fails [] e1 e2 e
      | Inr (ok, d', d2') \<Rightarrow> d2' = d2 \<and>
          (if ok then \<exists>e. dict_inv d' n e \<and> combined joined [] e1 e2 e
           else d' = d \<and> (mode \<noteq> 0 \<or> clash fails [] e1 e2 Combine_error)))"

theorem combine_with_ok:
  assumes d: "dict_inv d n e1" and d2: "dict_inv d2 n e2" and f: "combine_function cf n joined fails"
    and sha: "\<And>x. length (sha256 x) = hash_bytes"
  shows "combine_with_result joined fails mode n d d2 e1 e2 (combine_with sha256 d d2 cf mode)"
proof -
  have D: "d_key_bits d = int n" "d_key_bits d2 = int n" "n \<le> max_key_bits" "length ([] :: bool list) + n < 2 ^ 31"
    "sub_rep n [] (d_root_cell d) e1" "sub_rep n [] (d_root_cell d2) e2"
    using d d2 by (simp_all add: dict_inv_def sub_rep_Nil)
  let ?buf = "replicate max_key_bytes 0 :: byte list"
  have room: "length ([] :: bool list) + n \<le> 8 * length ?buf" using D(3) by simp
  define r where "r = dict_combine_with sha256 (d_root_cell d) (d_root_cell d2) (?buf, 0) n n cf mode 0 0"
  have R: "ok_or (combine_errors fails mode [] e1 e2) (combine_result joined n [] e1 e2 [] (length ?buf)) r"
    using combine_function.dict_combine_with_ok [OF f D(5,6) _ _ _ holds_nil room _ _ D(4) sha, of mode] by (simp add: r_def)
  have run: "combine_with sha256 d d2 cf mode =
      (case r of Inr (res, buf) \<Rightarrow> Inr (True, set_root_cell d res, d2)
       | Inl e \<Rightarrow> if e = Combine_error then Inr (False, d, d2) else Inl e)"
    using d d2 by (simp add: combine_with_def D(1,2) r_def)
  show ?thesis
  proof (cases r)
    case (Inl e)
    then show ?thesis using R unfolding run by (auto simp: combine_with_result_def combine_errors_def no_room_def)
  next
    case (Inr y)
    obtain c buf where y: "y = (c, buf)" by (cases y)
    obtain e where e: "dict_rep_opt n c e" "combined joined [] e1 e2 e"
      using R by (auto simp: Inr y combine_result_def holding_def)
    have "dict_inv (set_root_cell d c) n e" by (rule dict_inv_set_root_cell [OF d e(1)])
    then show ?thesis using e(2) unfolding run by (auto simp: Inr y combine_with_result_def)
  qed
qed

interpretation conflict: combine_function conflict_func len "\<lambda>k v1 v2 r. False" "\<lambda>k v1 v2 e. e = Combine_error"
  by unfold_locales (simp_all add: conflict_func_def)

text \<open>Without a function the result is the union of two maps without common keys.\<close>

theorem combine_disjoint_with_ok:
  assumes d: "dict_inv d n e1" and d2: "dict_inv d2 n e2" and sha: "\<And>x. length (sha256 x) = hash_bytes"
  shows "dict_ok (\<lambda>(ok, d', d2'). d2' = d2 \<and> ok = (dom (map_of e1) \<inter> dom (map_of e2) = {})
      \<and> (if ok then \<exists>e. dict_inv d' n e \<and> map_of e = map_of e1 ++ map_of e2 else d' = d))
    (combine_disjoint_with sha256 d d2)"
proof -
  have R: "combine_with_result (\<lambda>k v1 v2 r. False) (\<lambda>k v1 v2 e. e = Combine_error) 0 n d d2 e1 e2 (combine_disjoint_with sha256 d d2)"
    unfolding combine_disjoint_with_def by (rule combine_with_ok [OF d d2 conflict.combine_function_axioms sha])
  have clash: "clash (\<lambda>k v1 v2 e. e = Combine_error) [] e1 e2 Combine_error \<longleftrightarrow> dom (map_of e1) \<inter> dom (map_of e2) \<noteq> {}"
    by (auto simp: clash_def dom_def)
  have union: "dom (map_of e1) \<inter> dom (map_of e2) = {} \<and> map_of e = map_of e1 ++ map_of e2"
    if "combined (\<lambda>k v1 v2 r. False) [] e1 e2 e" for e
  proof -
    have m: "map_of e1 k = None \<and> map_of e k = map_of e2 k \<or> map_of e2 k = None \<and> map_of e k = map_of e1 k" for k
    proof -
      have "merged (\<lambda>k v1 v2 r. False) k (map_of e1 k) (map_of e2 k) (map_of e k)" using that by (simp add: combined_def)
      then show ?thesis by (cases "map_of e1 k"; cases "map_of e2 k") (simp_all add: merged_def)
    qed
    have "map_of e1 k = None \<or> map_of e2 k = None" for k using m [of k] by (elim disjE conjE) simp_all
    then have "x \<notin> dom (map_of e2)" if "x \<in> dom (map_of e1)" for x using that unfolding domIff by metis
    then have "dom (map_of e1) \<inter> dom (map_of e2) = {}" by (auto simp: disjoint_iff)
    moreover have "map_of e k = (map_of e1 ++ map_of e2) k" for k
      using m [of k] by (auto simp: map_add_def split: option.splits)
    ultimately show ?thesis by blast
  qed
  show ?thesis
  proof (cases "combine_disjoint_with sha256 d d2")
    case (Inl e)
    then show ?thesis using R by (auto simp: combine_with_result_def clash_def dict_ok_def)
  next
    case (Inr y)
    then show ?thesis using R union clash by (cases y) (auto simp: combine_with_result_def split: if_splits)
  qed
qed

text \<open>The lowest bit of \<open>mode\<close> refuses two empty dictionaries and accepts an empty first one.\<close>

lemma combine_mode_one:
  "dict_combine_with sha256 None None key n len cf 1 0 0 = Inl Combine_error"
  "dict_combine_with sha256 None (Some c) key n len cf 1 0 0 = Inr (Some c, fst key)"
  by (simp_all add: dict_combine_with.simps [of _ None])

end
