(* ===== verification/Dict_Scan.thy ===== *)
theory Dict_Scan
  imports Dict_Combine Dict_Visit
begin

text \<open>
  The differences of two dictionaries, \<open>dict_scan_diff\<close> of \<open>crypto/vm/dict.cpp\<close>: a function is called, in
  the order of the keys, for every key that is in one of them only or has different values. The two
  trees are walked at once, and equal subtrees are recognized by their hashes and passed over.
\<close>

unbundle bit_operations_syntax

section \<open>Operations\<close>

text \<open>\<open>scan_diff_func_t\<close>: the key, its length, and the two values.\<close>

type_synonym 's diff_func = "bit_ptr \<Rightarrow> nat \<Rightarrow> slice option \<Rightarrow> slice option \<Rightarrow> 's \<Rightarrow> dict_error + bool \<times> 's"

text \<open>The reference to the slice is passed by value and copied before it is changed.\<close>

definition check_fork_raw :: "slice \<Rightarrow> nat \<Rightarrow> bool" where
  "check_fork_raw cs n =
     (let (c1, cs) = fetch_ref cs; (c2, cs) = fetch_ref cs in c1 \<noteq> None \<and> c2 \<noteq> None \<and> check_fork cs c1 c2 n)"

definition fork_fails :: "int \<Rightarrow> int \<Rightarrow> slice \<Rightarrow> nat \<Rightarrow> bool" where
  "fork_fails mode which cs n \<longleftrightarrow> mode AND which \<noteq> 0 \<and> \<not> check_fork_raw cs n"

definition leaf_fails :: "int \<Rightarrow> int \<Rightarrow> slice \<Rightarrow> bit_ptr \<Rightarrow> nat \<Rightarrow> bool" where
  "leaf_fails mode which cs key len \<longleftrightarrow> mode AND which \<noteq> 0 \<and> \<not> check_leaf cs key len"

text \<open>The \<open>&&\<close> of two visits: the second one is left out when the first one has stopped.\<close>

definition and_then ::
  "dict_error + (bool \<times> 's) \<times> byte list \<Rightarrow> ('s \<Rightarrow> byte list \<Rightarrow> dict_error + (bool \<times> 's) \<times> byte list)
     \<Rightarrow> dict_error + (bool \<times> 's) \<times> byte list" where
  "and_then r f = bind_err r (\<lambda>((ok, s), buf). if ok then f s buf else Inr ((False, s), buf))"

lemma and_then_cong [fundef_cong]:
  "r = r' \<Longrightarrow> (\<And>s buf. r' = Inr ((True, s), buf) \<Longrightarrow> f s buf = g s buf) \<Longrightarrow> and_then r f = and_then r' g"
  by (cases r') (auto simp: and_then_def)

text \<open>One of the dictionaries is empty; \<open>first\<close> says that the other one, \<open>dict\<close>, is the first.\<close>

definition one_of :: "bool \<Rightarrow> 'v \<Rightarrow> 'v option \<times> 'v option" where
  "one_of first v = (if first then (Some v, None) else (None, Some v))"

function scan_one ::
  "bool \<Rightarrow> cell option \<Rightarrow> bit_ptr \<Rightarrow> nat \<Rightarrow> nat \<Rightarrow> 's diff_func \<Rightarrow> int \<Rightarrow> 's \<Rightarrow> dict_error + (bool \<times> 's) \<times> byte list" where
  "scan_one first dict key n total_key_len diff_func mode s =
     (if dict = None then Inr ((True, s), fst key)
      else
        bind_err (label_of_cell dict n chk_all) (\<lambda>label.
          let l = l_bits label; offs = snd key; (buf, label) = extract_label_to label key; which = (if first then 1 else 2)
          in if l \<ge> n then
               let key = (buf, offs + l - total_key_len)
               in if leaf_fails mode which (l_remainder label) key total_key_len then Inl (Vm_error Excno_dict_err)
                  else
                    let (v1, v2) = one_of first (l_remainder label)
                    in bind_err (diff_func key total_key_len v1 v2 s) (\<lambda>r. Inr (r, buf))
             else if fork_fails mode which (l_remainder label) (n - l) then Inl (Vm_error Excno_dict_err)
             else
               and_then (scan_one first (prefetch_ref (l_remainder label) 0) (ptr_set_bit (buf, offs + l) 0 False, offs + l + 1) (n - l - 1)
                   total_key_len diff_func mode s) (\<lambda>s buf.
                 scan_one first (prefetch_ref (l_remainder label) 1) (ptr_set_bit (buf, offs + l) 0 True, offs + l + 1) (n - l - 1)
                   total_key_len diff_func mode s)))"
  by pat_completeness auto
termination
  by (relation "measure (\<lambda>(first, dict, key, n, rest). n)") auto

declare scan_one.simps [simp del]

text \<open>The keys of the two dictionaries part at bit \<open>c\<close>.\<close>

definition scan_disjoint ::
  "cell option \<Rightarrow> cell option \<Rightarrow> byte list \<Rightarrow> nat \<Rightarrow> nat \<Rightarrow> nat \<Rightarrow> nat \<Rightarrow> 's diff_func \<Rightarrow> int \<Rightarrow> nat \<Rightarrow> nat \<Rightarrow> 's
     \<Rightarrow> dict_error + (bool \<times> 's) \<times> byte list" where
  "scan_disjoint dict1 dict2 buf offs n c total_key_len diff_func mode skip1 skip2 s =
     (if \<not> ptr_bit (buf, offs) c then
        and_then (scan_one True dict1 (buf, offs - skip1) (n + skip1) total_key_len diff_func mode s) (\<lambda>s buf.
          scan_one False dict2 (buf, offs - skip2) (n + skip2) total_key_len diff_func mode s)
      else
        and_then (scan_one False dict2 (buf, offs - skip2) (n + skip2) total_key_len diff_func mode s) (\<lambda>s buf.
          scan_one True dict1 (buf, offs - skip1) (n + skip1) total_key_len diff_func mode s))"

text \<open>Two leaves with the same key.\<close>

definition scan_leaves ::
  "slice \<Rightarrow> slice \<Rightarrow> bit_ptr \<Rightarrow> nat \<Rightarrow> 's diff_func \<Rightarrow> int \<Rightarrow> 's \<Rightarrow> dict_error + (bool \<times> 's) \<times> byte list" where
  "scan_leaves v1 v2 key total_key_len diff_func mode s =
     (if leaf_fails mode 1 v1 key total_key_len \<or> leaf_fails mode 2 v2 key total_key_len then Inl (Vm_error Excno_dict_err)
      else if contents_equal v1 v2 then Inr ((True, s), fst key)
      else bind_err (diff_func key total_key_len (Some v1) (Some v2) s) (\<lambda>r. Inr (r, fst key)))"

text \<open>The two references are the same, or the cells have the same hash, which the former implies.\<close>

definition same_cells :: "cell option \<Rightarrow> cell option \<Rightarrow> bool" where
  "same_cells dict1 dict2 = (get_hash (the dict1) max_level = get_hash (the dict2) max_level)"

function dict_scan_diff ::
  "cell option \<Rightarrow> cell option \<Rightarrow> bit_ptr \<Rightarrow> nat \<Rightarrow> nat \<Rightarrow> 's diff_func \<Rightarrow> int \<Rightarrow> nat \<Rightarrow> nat \<Rightarrow> 's
     \<Rightarrow> dict_error + (bool \<times> 's) \<times> byte list" where
  "dict_scan_diff dict1 dict2 key n total_key_len diff_func mode skip1 skip2 s =
     (if dict1 = None then
        if dict2 = None then Inr ((True, s), fst key)
        else if skip2 \<noteq> 0 then Inl Assertion
        else scan_one False dict2 key n total_key_len diff_func mode s
      else if dict2 = None then
        if skip1 \<noteq> 0 then Inl Assertion else scan_one True dict1 key n total_key_len diff_func mode s
      else if skip1 = skip2 \<and> same_cells dict1 dict2 then Inr ((True, s), fst key)
      else
        bind_err (combine_labels dict1 dict2 key n skip1 skip2) (\<lambda>(buf, label1, label2, l1, l2, c).
          let offs = snd key
          in if c < l1 \<and> c < l2 then scan_disjoint dict1 dict2 buf offs n c total_key_len diff_func mode skip1 skip2 s
             else if c = l1 \<and> c = l2 then
               let label2 = skip_label label2
               in if c = n then scan_leaves (l_remainder label1) (l_remainder label2) (buf, offs + n - total_key_len) total_key_len
                    diff_func mode s
                  else if fork_fails mode 1 (l_remainder label1) (n - c) \<or> fork_fails mode 2 (l_remainder label2) (n - c)
                  then Inl (Vm_error Excno_dict_err)
                  else
                    and_then (dict_scan_diff (prefetch_ref (l_remainder label1) 0) (prefetch_ref (l_remainder label2) 0)
                        (ptr_set_bit (buf, offs + c) 0 False, offs + c + 1) (n - c - 1) total_key_len diff_func mode 0 0 s) (\<lambda>s buf.
                      dict_scan_diff (prefetch_ref (l_remainder label1) 1) (prefetch_ref (l_remainder label2) 1)
                        (ptr_set_bit (buf, offs + c) 0 True, offs + c + 1) (n - c - 1) total_key_len diff_func mode 0 0 s)
             else if c = l1 then
               if fork_fails mode 1 (l_remainder label1) (n - c) then Inl (Vm_error Excno_dict_err)
               else
                 let c1 = prefetch_ref (l_remainder label1) 0; c2 = prefetch_ref (l_remainder label1) 1;
                     (buf, label2) = extract_label_to label2 (buf, offs - skip2); sw = ptr_bit (buf, offs) c;
                     buf = ptr_set_bit (buf, offs + c) 0 False
                 in if \<not> sw then
                      and_then (dict_scan_diff c1 dict2 (buf, offs + c + 1) (n - c - 1) total_key_len diff_func mode 0 (skip2 + c + 1) s)
                        (\<lambda>s buf. dict_scan_diff c2 None (ptr_set_bit (buf, offs + c) 0 True, offs + c + 1) (n - c - 1) total_key_len
                          diff_func mode 0 0 s)
                    else
                      and_then (dict_scan_diff c1 None (buf, offs + c + 1) (n - c - 1) total_key_len diff_func mode 0 0 s)
                        (\<lambda>s buf. dict_scan_diff c2 dict2 (ptr_set_bit (buf, offs + c) 0 True, offs + c + 1) (n - c - 1) total_key_len
                          diff_func mode 0 (skip2 + c + 1) s)
             else
               let label2 = skip_label label2
               in if fork_fails mode 2 (l_remainder label2) (n - c) then Inl (Vm_error Excno_dict_err)
                  else
                    let c1 = prefetch_ref (l_remainder label2) 0; c2 = prefetch_ref (l_remainder label2) 1; sw = ptr_bit (buf, offs) c;
                        buf = ptr_set_bit (buf, offs + c) 0 False
                    in if \<not> sw then
                         and_then (dict_scan_diff dict1 c1 (buf, offs + c + 1) (n - c - 1) total_key_len diff_func mode (skip1 + c + 1) 0 s)
                           (\<lambda>s buf. dict_scan_diff None c2 (ptr_set_bit (buf, offs + c) 0 True, offs + c + 1) (n - c - 1) total_key_len
                             diff_func mode 0 0 s)
                       else
                         and_then (dict_scan_diff None c1 (buf, offs + c + 1) (n - c - 1) total_key_len diff_func mode 0 0 s)
                           (\<lambda>s buf. dict_scan_diff dict1 c2 (ptr_set_bit (buf, offs + c) 0 True, offs + c + 1) (n - c - 1) total_key_len
                             diff_func mode (skip1 + c + 1) 0 s)))"
  by pat_completeness auto
termination
  by (relation "measure (\<lambda>(dict1, dict2, key, n, rest). n)")
    (rule wf_measure, (simp only: in_measure prod.case, clarify, drule combine_less, blast, blast)+)

declare dict_scan_diff.simps [simp del]

text \<open>The state of the function is lost when it throws \<open>CombineError\<close>, which is taken for a stop.\<close>

definition scan_diff ::
  "dict \<Rightarrow> dict \<Rightarrow> 's diff_func \<Rightarrow> int \<Rightarrow> 's \<Rightarrow> dict_error + (bool \<times> 's option) \<times> dict \<times> dict" where
  "scan_diff d d2 diff_func check_augm s =
     bind_err (force_validate d) (\<lambda>d.
     bind_err (force_validate d2) (\<lambda>d2.
       let key_len = nat (d_key_bits d)
       in if d_key_bits d \<noteq> d_key_bits d2 then Inl (Vm_error Excno_dict_err)
          else
            case dict_scan_diff (d_root_cell d) (d_root_cell d2) (replicate max_key_bytes 0, 0) key_len key_len diff_func check_augm 0 0 s of
              Inr ((ok, s), buf) \<Rightarrow> Inr ((ok, Some s), d, d2)
            | Inl e \<Rightarrow> if e = Combine_error then Inr ((False, None), d, d2) else Inl e))"

section \<open>The differences of two lists of entries\<close>

fun merge_entries :: "dict_entry list \<Rightarrow> dict_entry list \<Rightarrow> (bool list \<times> dict_val option \<times> dict_val option) list" where
  "merge_entries [] e2 = map (\<lambda>(k, v). (k, one_of False v)) e2"
| "merge_entries (x # e1) [] = map (\<lambda>(k, v). (k, one_of True v)) (x # e1)"
| "merge_entries ((k1, v1) # e1) ((k2, v2) # e2) =
     (if k1 = k2 then (k1, Some v1, Some v2) # merge_entries e1 e2
      else if lex_cmp k1 k2 = - 1 then (k1, one_of True v1) # merge_entries e1 ((k2, v2) # e2)
      else (k2, one_of False v2) # merge_entries ((k1, v1) # e1) e2)"

definition diffs :: "dict_entry list \<Rightarrow> dict_entry list \<Rightarrow> (bool list \<times> dict_val option \<times> dict_val option) list" where
  "diffs e1 e2 = filter (\<lambda>d. fst (snd d) \<noteq> snd (snd d)) (merge_entries e1 e2)"

definition pre_diff :: "bool list \<Rightarrow> (bool list \<times> 'd) list \<Rightarrow> (bool list \<times> 'd) list" where
  "pre_diff p ds = map (\<lambda>(k, d). (p @ k, d)) ds"

lemma merge_right [simp]: "merge_entries e1 [] = map (\<lambda>(k, v). (k, one_of True v)) e1"
  by (cases e1) simp_all

lemma diffs_one: "diffs e [] = map (\<lambda>(k, v). (k, one_of True v)) e" "diffs [] e = map (\<lambda>(k, v). (k, one_of False v)) e"
  by (auto simp: diffs_def one_of_def filter_map o_def case_prod_beta intro!: filter_True)

lemma diffs_same [simp]: "diffs e e = []"
proof -
  have "\<forall>d \<in> set (merge_entries e e). fst (snd d) = snd (snd d)" by (induction e) auto
  then show ?thesis by (auto simp: diffs_def filter_empty_conv)
qed

lemma merge_pre: "merge_entries (pre p a) (pre p b) = pre_diff p (merge_entries a b)"
proof (induction a b rule: merge_entries.induct)
  case (3 k1 v1 e1 k2 v2 e2)
  then show ?case by (simp add: pre_diff_def lex_cmp_same_prefix)
qed (auto simp: pre_def pre_diff_def)

lemma merge_right_side:
  "merge_entries (pre [True] b1) ((False # k, v) # e2) = (False # k, one_of False v) # merge_entries (pre [True] b1) e2"
  "merge_entries ((False # k, v) # e1) (pre [True] b2) = (False # k, one_of True v) # merge_entries e1 (pre [True] b2)"
  by (cases b1; auto simp: pre_def) (cases b2; auto simp: pre_def)

lemma merge_fork:
  "merge_entries (pre [False] a1 @ pre [True] b1) (pre [False] a2 @ pre [True] b2) =
     pre_diff [False] (merge_entries a1 a2) @ pre_diff [True] (merge_entries b1 b2)"
proof (induction a1 a2 rule: merge_entries.induct)
  case (1 e2)
  show ?case
  proof (induction e2)
    case (Cons x e2)
    then show ?case by (cases x) (simp add: merge_right_side pre_diff_def)
  qed (simp add: merge_pre pre_diff_def)
next
  case (2 x e1)
  have "merge_entries (pre [False] e @ pre [True] b1) (pre [True] b2) =
      pre_diff [False] (merge_entries e []) @ pre_diff [True] (merge_entries b1 b2)" for e
  proof (induction e)
    case (Cons y e)
    then show ?case by (cases y) (simp add: merge_right_side pre_diff_def)
  qed (simp add: merge_pre pre_diff_def)
  from this [of "x # e1"] show ?case by (simp add: pre_def)
next
  case (3 k1 v1 e1 k2 v2 e2)
  then show ?case by (simp add: pre_diff_def)
qed

lemma diffs_pre: "diffs (pre p a) (pre p b) = pre_diff p (diffs a b)"
  unfolding diffs_def merge_pre by (simp add: pre_diff_def filter_map o_def case_prod_beta)

lemma pre_diff_simps [simp]: "pre_diff p (xs @ ys) = pre_diff p xs @ pre_diff p ys" "pre_diff p (pre_diff q xs) = pre_diff (p @ q) xs"
  by (auto simp: pre_diff_def)

lemma diffs_sides:
  "diffs (sides p ea1 eb1) (sides p ea2 eb2) = pre_diff (p @ [False]) (diffs ea1 ea2) @ pre_diff (p @ [True]) (diffs eb1 eb2)"
proof -
  have "diffs (pre [False] ea1 @ pre [True] eb1) (pre [False] ea2 @ pre [True] eb2) =
      pre_diff [False] (diffs ea1 ea2) @ pre_diff [True] (diffs eb1 eb2)"
    unfolding diffs_def merge_fork by (simp add: pre_diff_def filter_map o_def case_prod_beta)
  then show ?thesis unfolding diffs_pre by simp
qed

text \<open>They are the keys with different values in the two dictionaries, or in one only, in the order of the keys.\<close>

lemma merge_keys: "set (map fst (merge_entries e1 e2)) = set (map fst e1) \<union> set (map fst e2)"
  by (induction e1 e2 rule: merge_entries.induct) (auto simp: image_image case_prod_beta)

lemma sorted_keys_Cons: "sorted_keys ((k, v) # es) \<longleftrightarrow> (\<forall>x \<in> set es. lex_cmp k (fst x) = - 1) \<and> sorted_keys es"
  by (simp add: sorted_keys_def)

lemma head_fresh: "\<forall>x \<in> set es. lex_cmp k (fst x) = - 1 \<Longrightarrow> map_of es k = None"
  using lex_cmp_eq_0 [of k k] by (force simp: map_of_eq_None_iff)

lemma lex_cmp_trans: "lex_cmp a b = - 1 \<Longrightarrow> lex_cmp b c = - 1 \<Longrightarrow> lex_cmp a c = - 1"
proof (induction a b arbitrary: c rule: lex_cmp.induct)
  case (2 y ys)
  then show ?case by (cases c) auto
next
  case (4 x xs y ys)
  then show ?case by (cases c) (auto split: if_splits)
qed auto

lemma merge_one:
  assumes "sorted_keys es"
  shows "(k, d) \<in> set (map (\<lambda>(k, v). (k, one_of first v)) es) \<longleftrightarrow> (\<exists>v. map_of es k = Some v \<and> d = one_of first v)"
proof -
  have "(k, d) \<in> set (map (\<lambda>(k, v). (k, one_of first v)) es) \<longleftrightarrow> (\<exists>v. (k, v) \<in> set es \<and> d = one_of first v)" by force
  then show ?thesis unfolding map_of_eq_Some_iff [OF sorted_keys_distinct [OF assms]] .
qed

text \<open>The key \<open>k1\<close> comes before all of the other keys.\<close>

lemma sorted_after: "sorted_keys ((k2, v2) # e2) \<Longrightarrow> lex_cmp k1 k2 = - 1 \<Longrightarrow> \<forall>x \<in> set ((k2, v2) # e2). lex_cmp k1 (fst x) = - 1"
  using lex_cmp_trans by (auto simp: sorted_keys_Cons)

lemma lex_cmp_cases: obtains "a = b" | "a \<noteq> b" "lex_cmp a b = - 1" | "a \<noteq> b" "lex_cmp a b \<noteq> - 1" "lex_cmp b a = - 1"
  using lex_cmp_values [of a b] lex_cmp_eq_0 [of a b] lex_cmp_flip [of b a] by auto

lemma merge_values:
  "sorted_keys e1 \<Longrightarrow> sorted_keys e2 \<Longrightarrow>
     (k, d) \<in> set (merge_entries e1 e2) \<longleftrightarrow> d = (map_of e1 k, map_of e2 k) \<and> d \<noteq> (None, None)"
proof (induction e1 e2 rule: merge_entries.induct)
  case (1 e2)
  then show ?case unfolding merge_entries.simps merge_one [OF 1(2)] by (cases "map_of e2 k") (auto simp: one_of_def)
next
  case (2 x e1)
  then show ?case unfolding merge_entries.simps merge_one [OF 2(1)]
    by (cases "map_of (x # e1) k") (auto simp: one_of_def simp del: map_of.simps(2))
next
  case (3 k1 v1 e1 k2 v2 e2)
  have s: "sorted_keys e1" "sorted_keys e2" "\<forall>x \<in> set e1. lex_cmp k1 (fst x) = - 1" "\<forall>x \<in> set e2. lex_cmp k2 (fst x) = - 1"
    using 3(4,5) by (simp_all add: sorted_keys_Cons)
  note f = head_fresh [OF s(3)] head_fresh [OF s(4)]
  show ?case
  proof (cases rule: lex_cmp_cases [of k1 k2])
    case 1
    then show ?thesis using 3(1) [OF 1 s(1,2)] f by (auto simp del: split_paired_Ex split_paired_All)
  next
    case 2
    have n: "map_of ((k2, v2) # e2) k1 = None" by (rule head_fresh [OF sorted_after [OF 3(5) 2(2)]])
    have e: "merge_entries ((k1, v1) # e1) ((k2, v2) # e2) = (k1, one_of True v1) # merge_entries e1 ((k2, v2) # e2)"
      using 2 by simp
    show ?thesis unfolding e using 3(2) [OF 2 s(1) 3(5)] f(1) n by (cases "k = k1") (auto simp: one_of_def)
  next
    case 3
    have n: "map_of ((k1, v1) # e1) k2 = None" by (rule head_fresh [OF sorted_after [OF "3.prems"(1) 3(3)]])
    have e: "merge_entries ((k1, v1) # e1) ((k2, v2) # e2) = (k2, one_of False v2) # merge_entries ((k1, v1) # e1) e2"
      using 3 by simp
    show ?thesis unfolding e using "3.IH"(3) [OF 3(1,2) "3.prems"(1) s(2)] f(2) n by (cases "k = k2") (auto simp: one_of_def)
  qed
qed

lemma diffs_set:
  assumes "sorted_keys e1" and "sorted_keys e2"
  shows "(k, a, b) \<in> set (diffs e1 e2) \<longleftrightarrow> a = map_of e1 k \<and> b = map_of e2 k \<and> a \<noteq> b"
proof -
  have "(k, a, b) \<in> set (diffs e1 e2) \<longleftrightarrow> (k, a, b) \<in> set (merge_entries e1 e2) \<and> a \<noteq> b" by (simp add: diffs_def)
  also have "\<dots> \<longleftrightarrow> (a = map_of e1 k \<and> b = map_of e2 k \<and> (a, b) \<noteq> (None, None)) \<and> a \<noteq> b"
    unfolding merge_values [OF assms] by blast
  finally show ?thesis by (metis Pair_inject)
qed

lemma merge_sorted: "sorted_keys e1 \<Longrightarrow> sorted_keys e2 \<Longrightarrow> sorted_wrt (\<lambda>x y. lex_cmp (fst x) (fst y) = - 1) (merge_entries e1 e2)"
proof (induction e1 e2 rule: merge_entries.induct)
  case (1 e2)
  then show ?case by (simp add: sorted_wrt_map sorted_keys_def case_prod_beta)
next
  case (2 x e1)
  then show ?case unfolding merge_entries.simps sorted_wrt_map by (simp only: sorted_keys_def case_prod_beta fst_conv)
next
  case (3 k1 v1 e1 k2 v2 e2)
  have s: "sorted_keys e1" "sorted_keys e2" "\<forall>x \<in> set e1. lex_cmp k1 (fst x) = - 1" "\<forall>x \<in> set e2. lex_cmp k2 (fst x) = - 1"
    using 3(4,5) by (simp_all add: sorted_keys_Cons)
  have all: "\<forall>x \<in> set (merge_entries a b). lex_cmp k (fst x) = - 1"
    if "\<forall>x \<in> set a. lex_cmp k (fst x) = - 1" "\<forall>x \<in> set b. lex_cmp k (fst x) = - 1" for k a b
  proof
    fix x assume "x \<in> set (merge_entries a b)"
    then have "fst x \<in> set (map fst a) \<union> set (map fst b)" using merge_keys [of a b] by (metis image_eqI list.set_map)
    then show "lex_cmp k (fst x) = - 1" using that by auto
  qed
  show ?case
  proof (cases rule: lex_cmp_cases [of k1 k2])
    case 1
    then show ?thesis using 3(1) [OF 1 s(1,2)] all [OF s(3), of e2] s(4) by simp
  next
    case 2
    then show ?thesis using 3(2) [OF 2 s(1) 3(5)] all [OF s(3) sorted_after [OF 3(5) 2(2)]] by simp
  next
    case 3
    then show ?thesis using "3.IH"(3) [OF 3(1,2) "3.prems"(1) s(2)] all [OF sorted_after [OF "3.prems"(1) 3(3)] s(4)] by simp
  qed
qed

lemma diffs_sorted: "sorted_keys e1 \<Longrightarrow> sorted_keys e2 \<Longrightarrow> sorted_wrt (\<lambda>x y. lex_cmp (fst x) (fst y) = - 1) (diffs e1 e2)"
  unfolding diffs_def by (intro sorted_wrt_filter merge_sorted)

section \<open>Hashes\<close>

text \<open>The hashes of the cells of the one tree tell them from those of the other.\<close>

primrec tree_cells :: "cell \<Rightarrow> cell list" where
  "tree_cells (Data_Cell i data refs hashes depths) = Data_Cell i data refs hashes depths # concat (map tree_cells refs)"
| "tree_cells (Virtual_Cell vl vv c) = Virtual_Cell vl vv c # tree_cells c"

definition faithful :: "cell option \<Rightarrow> cell option \<Rightarrow> bool" where
  "faithful co co' \<longleftrightarrow>
     (\<forall>c \<in> set_option co. \<forall>c' \<in> set_option co'. \<forall>x \<in> set (tree_cells c). \<forall>y \<in> set (tree_cells c').
        get_hash x max_level = get_hash y max_level \<longrightarrow> x = y)"

lemma tree_cells_self [simp]: "c \<in> set (tree_cells c)"
  by (cases c) simp_all

lemma tree_cells_ref: "ordinary c \<Longrightarrow> r \<in> set (c_refs c) \<Longrightarrow> set (tree_cells r) \<subseteq> set (tree_cells c)"
  by (cases c) (auto simp: ordinary_def)

lemma faithful_None [simp]: "faithful None c" "faithful c None"
  by (simp_all add: faithful_def)

lemma faithful_root: "faithful (Some c) (Some c') \<Longrightarrow> get_hash c max_level = get_hash c' max_level \<longleftrightarrow> c = c'"
  unfolding faithful_def by (auto dest: bspec)

lemma faithful_refs:
  assumes "faithful (Some c) (Some c')"
  shows "ordinary c \<Longrightarrow> r \<in> set (c_refs c) \<Longrightarrow> faithful (Some r) (Some c')"
    and "ordinary c' \<Longrightarrow> r' \<in> set (c_refs c') \<Longrightarrow> faithful (Some c) (Some r')"
  using assms tree_cells_ref unfolding faithful_def by fastforce+

lemma faithful_values:
  assumes f: "faithful (Some c) (Some c')" and o: "ordinary c" "ordinary c'"
  shows "map (\<lambda>c. get_hash c max_level) (c_refs c) = map (\<lambda>c. get_hash c max_level) (c_refs c') \<longleftrightarrow> c_refs c = c_refs c'"
proof
  assume e: "map (\<lambda>c. get_hash c max_level) (c_refs c) = map (\<lambda>c. get_hash c max_level) (c_refs c')"
  show "c_refs c = c_refs c'"
  proof (rule nth_equalityI)
    show l: "length (c_refs c) = length (c_refs c')" by (rule map_eq_imp_length_eq [OF e])
    fix i assume i: "i < length (c_refs c)"
    have "faithful (Some (c_refs c ! i)) (Some (c_refs c' ! i))"
      using faithful_refs(2) [OF faithful_refs(1) [OF f o(1) nth_mem [OF i]] o(2)] i l by simp
    moreover have "get_hash (c_refs c ! i) max_level = get_hash (c_refs c' ! i) max_level"
      using arg_cong [OF e, of "\<lambda>xs. xs ! i"] i l by simp
    ultimately show "c_refs c ! i = c_refs c' ! i" by (simp add: faithful_root)
  qed
qed simp

section \<open>The steps\<close>

lemma visited_then:
  assumes "visited r1 Q1 room1 x"
    and "\<And>s buf. r1 = Inr (True, s) \<Longrightarrow> holds buf Q1 \<Longrightarrow> length buf = room1 \<Longrightarrow> visited (g s) Q room (h s buf)"
  shows "visited (bind_err r1 (\<lambda>(ok, s). if ok then g s else Inr (False, s))) Q room (and_then x h)"
proof (cases x)
  case (Inl e)
  then show ?thesis using assms(1) by (simp add: visited_def and_then_def)
next
  case (Inr y)
  obtain ok s buf where y: "y = ((ok, s), buf)" by (metis prod.collapse)
  have "r1 = Inr (ok, s)" "ok \<Longrightarrow> holds buf Q1" "ok \<Longrightarrow> length buf = room1" using assms(1) by (simp_all add: visited_def Inr y)
  then show ?thesis using assms(2) [of s buf] by (cases ok) (simp_all add: and_then_def Inr y visited_def)
qed

lemma visited_weaken: "visited r Q room x \<Longrightarrow> Q = Q' @ R \<Longrightarrow> visited r Q' room x"
  by (auto simp: visited_def split: sum.splits intro: holds_prefix)

definition one_func :: "'s diff_func \<Rightarrow> bool \<Rightarrow> 's foreach_func" where
  "one_func func first v key l s = (let (v1, v2) = one_of first v in func key l v1 v2 s)"

lemma visit_all_map: "visit_all F (map (\<lambda>(k, v). (k, g v)) es) s = visit_all (\<lambda>k v. F k (g v)) es s"
proof (induction es arbitrary: s)
  case (Cons x es)
  obtain k v where x: "x = (k, v)" by (cases x)
  show ?case using Cons.IH by (cases "F k (g v) s") (auto simp: x)
qed simp

lemma visited_append:
  assumes r: "\<And>buf s. holds buf Q \<Longrightarrow> length buf = room \<Longrightarrow> visited (visit_all F D1 s) Q room (r1 buf s)"
    "\<And>buf s. holds buf Q \<Longrightarrow> length buf = room \<Longrightarrow> visited (visit_all F D2 s) Q room (r2 buf s)"
    and h: "holds buf Q" "length buf = room"
  shows "visited (visit_all F (D1 @ D2) s) Q room (and_then (r1 buf s) (\<lambda>s buf. r2 buf s))"
  unfolding visit_all_append by (rule visited_then [OF r(1) [OF h] r(2)])

lemma fork_holds:
  assumes "slice_ok s" and "slice_bits s = []" and "slice_children s = [a, b]"
  shows "\<not> fork_fails mode which s n"
  using fetch_two [OF assms] by (auto simp: fork_fails_def check_fork_raw_def check_fork_def)

text \<open>A tree has one list of entries only.\<close>

lemma dict_rep_unique:
  "dict_rep n c es \<Longrightarrow> dict_rep n c es' \<Longrightarrow> es = es'"
  "payload_rep n rest refs es \<Longrightarrow> payload_rep n rest refs es' \<Longrightarrow> es = es'"
proof (induction arbitrary: es' and es' rule: dict_rep_payload_rep.inducts)
  case (node c n ls rest es)
  from node.prems show ?case by (rule dict_repE) (use node.hyps(2) node.IH in auto)
next
  case (leaf rest refs)
  then show ?case by (auto elim: payload_0E)
next
  case (fork m a ea b eb)
  from fork.prems show ?case by (rule payload_SucE) (use fork.IH in auto)
qed

lemma node_rep_unique:
  "node_rep n S c ls rest e \<Longrightarrow> node_rep n S c ls' rest' e' \<Longrightarrow> ls = ls' \<and> e = e'"
  by (auto simp: node_rep_def dest: dict_rep_unique(2))

text \<open>What the comparison relies on: the function does not look beyond the key and the values.\<close>

locale diff_function =
  fixes func :: "'s diff_func"
    and len :: nat
    and f :: "bool list \<Rightarrow> dict_val option \<Rightarrow> dict_val option \<Rightarrow> 's \<Rightarrow> dict_error + bool \<times> 's"
  assumes func_values: "\<lbrakk>value_ok v1; value_ok v2; ptr_ok key len\<rbrakk> \<Longrightarrow>
    func key len v1 v2 s = f (ptr_bits key len) (value_of v1) (value_of v2) s"
begin

sublocale one: foreach_function "one_func func first" len "\<lambda>k v s. case one_of first v of (a, b) \<Rightarrow> f k a b s"
  by unfold_locales (simp add: one_func_def one_of_def func_values value_ok_def value_of_def)

text \<open>Against an empty dictionary the comparison is a visit.\<close>

lemma scan_one_eq:
  assumes "dict_rep_opt n dict es" and "n < 2 ^ 31"
  shows "scan_one first dict key n len func mode s = dict_check_for_each dict key n len (one_func func first) False s"
  using assms
proof (induction n arbitrary: dict key s es rule: less_induct)
  case (less n)
  show ?case
  proof (cases dict)
    case None
    then show ?thesis by (simp add: scan_one.simps [of _ None] dict_check_for_each.simps [of None])
  next
    case (Some c)
    have ne: "Some c \<noteq> None" by simp
    have rep: "dict_rep n c es" using less.prems(1) by (simp add: Some dict_rep_opt_def)
    obtain lab ls rest es0 where L: "label_of_cell (Some c) n chk_all = Inr lab" "label_view lab ls rest (c_refs c)" "length ls \<le> n"
      "payload_rep (n - length ls) rest (c_refs c) es0"
      using dict_rep_label [OF rep less.prems(2), of chk_all] by auto
    obtain buf lab1 where x: "extract_label_to lab key = (buf, lab1)" by fastforce
    note R = opened_rest(1) [OF L(2)] opened_rest(2-4) [OF L(2), of key, unfolded x snd_conv]
    note unf = scan_one.simps [of first "Some c"] dict_check_for_each.simps [of "Some c"] if_not_P [OF ne]
    show ?thesis
    proof (cases "length ls = n")
      case True
      show ?thesis unfolding Some unf L(1) bind_err_simps Let_def x prod.case R(1) True if_P [OF refl]
        by (simp add: leaf_fails_def check_leaf_def one_func_def case_prod_beta)
    next
      case False
      then have lt: "length ls < n" and nl: "\<not> length ls \<ge> n" using L(3) by simp_all
      obtain a b ea eb where F: "rest = []" "c_refs c = [a, b]" "dict_rep (n - length ls - 1) a ea" "dict_rep (n - length ls - 1) b eb"
        using payload_fork_step [OF L(4) lt] by blast
      note ok = fork_holds [OF R(2) R(3) [unfolded F(1)] R(4) [unfolded F(2)]]
      have refs: "prefetch_ref (l_remainder lab1) 0 = Some a" "prefetch_ref (l_remainder lab1) 1 = Some b"
        using view_advanced_ref [OF R(2) R(4)] F(2) by simp_all
      have m: "n - length ls - 1 < n" "n - length ls - 1 < 2 ^ 31" using lt less.prems(2) by simp_all
      have d: "dict_rep_opt (n - length ls - 1) (Some a) ea" "dict_rep_opt (n - length ls - 1) (Some b) eb"
        using F(3,4) by (simp_all add: dict_rep_opt_def)
      have sw: "(if length ls \<noteq> 0 then False else False) = False" by simp
      show ?thesis
        unfolding Some unf L(1) bind_err_simps Let_def x prod.case R(1) if_not_P [OF False] if_not_P [OF nl] if_not_P [OF ok] refs sw
          if_False not_False_eq_True less.IH [OF m(1) d(1) m(2)] less.IH [OF m(1) d(2) m(2)]
        by (simp add: and_then_def) (rule arg_cong [where f = "bind_err _"], auto simp: fun_eq_iff)
    qed
  qed
qed

lemma scan_one_ok:
  assumes N: "node_rep n S c ls rest e0" and S: "suffix S Q" and h: "holds buf Q" and room: "length Q + n \<le> 8 * length buf"
    and len: "len = length Q + n" and n: "len < 2 ^ 31"
  shows "visited (visit_all (\<lambda>k d. f (Q @ k) (fst d) (snd d)) (map (\<lambda>(k, v). (k, one_of first v)) (pre ls e0)) s) Q (length buf)
     (scan_one first (Some c) (buf, length Q - length S) (n + length S) len func mode s)"
proof -
  obtain Q0 where Q: "Q = Q0 @ S" using S by (auto simp: suffix_def)
  have "dict_rep (n + length S) c (pre (S @ ls) e0)"
    by (rule node) (use N in \<open>auto simp: node_rep_def\<close>)
  then have d: "dict_rep_opt (n + length S) (Some c) (pre (S @ ls) e0)" by (simp add: dict_rep_opt_def)
  have ne: "e0 \<noteq> []" using N dict_rep_not_empty(2) by (auto simp: node_rep_def)
  have h0: "holds buf Q0" using holds_prefix [of buf Q0 S] h by (simp add: Q)
  have room0: "length Q0 + (n + length S) \<le> 8 * length buf" and len0: "n + length S \<le> len" "len \<le> length Q0 + (n + length S)"
    "n + length S < 2 ^ 31"
    using room len n by (simp_all add: Q)
  have run: "scan_one first (Some c) (buf, length Q - length S) (n + length S) len func mode s =
      dict_check_for_each (Some c) (buf, length Q0) (n + length S) len (one_func func first) False s"
    unfolding scan_one_eq [OF d len0(3)] by (simp add: Q)
  have l: "last_key Q0 (visit_order False (pre (S @ ls) e0)) = Q @ ls @ fst (last e0)"
    using ne by (simp add: last_key_def pre_def last_map case_prod_beta Q)
  have v: "visit_all (\<lambda>k d. f (Q @ k) (fst d) (snd d)) (map (\<lambda>(k, v). (k, one_of first v)) es) s =
      visit_all (\<lambda>k v s. case one_of first v of (a, b) \<Rightarrow> f (Q @ k) a b s) es s" for es s
    unfolding visit_all_map by (simp only: case_prod_beta)
  have st: "length Q0 + (n + length S) - len = 0" using len by (simp add: Q)
  have "visit_all (\<lambda>k v s. case one_of first v of (a, b) \<Rightarrow> f (Q0 @ k) a b s) (pre (S @ ls) e0) s =
      visit_all (\<lambda>k v s. case one_of first v of (a, b) \<Rightarrow> f (Q @ k) a b s) (pre ls e0) s"
    unfolding visit_all_pre by (simp add: Q)
  with one.dict_check_for_each_last [OF d h0 room0 len0, of first False s, unfolded st drop_0 l] show ?thesis
    unfolding run v by (auto intro: visited_weaken)
qed

text \<open>Both sides of a fork, one after the other.\<close>

lemma visit_all_pre_diff: "visit_all F (pre_diff p ds) s = visit_all (\<lambda>k. F (p @ k)) ds s"
proof (induction ds arbitrary: s)
  case (Cons d ds)
  obtain k v where d: "d = (k, v)" by (cases d)
  show ?case using Cons.IH by (cases "F (p @ k) v s") (auto simp: d pre_diff_def)
qed (simp add: pre_diff_def)

lemma two_sides:
  assumes h: "holds buf (Q @ p @ R)" and room: "length Q + n \<le> 8 * length buf" and lt: "length p < n"
    and rec: "\<And>x buf' s. holds buf' (Q @ p @ [x]) \<Longrightarrow> length buf' = length buf \<Longrightarrow>
      visited (visit_all (\<lambda>k d. f ((Q @ p @ [x]) @ k) (fst d) (snd d)) (D x) s) (Q @ p @ [x]) (length buf) (run x buf' s)"
  shows "visited (visit_all (\<lambda>k d. f (Q @ k) (fst d) (snd d)) (pre_diff (p @ [False]) (D False) @ pre_diff (p @ [True]) (D True)) s)
     Q (length buf)
     (and_then (run False (ptr_set_bit (buf, length Q + length p) 0 False) s)
       (\<lambda>s buf. run True (ptr_set_bit (buf, length Q + length p) 0 True) s))"
proof -
  let ?V = "\<lambda>x. visit_all (\<lambda>k d. f ((Q @ p @ [x]) @ k) (fst d) (snd d)) (D x)"
  have hs: "holds (ptr_set_bit (buf', length Q + length p) 0 x) (Q @ p @ [x])"
    if "holds buf' (Q @ p @ R')" "length buf' = length buf" for buf' x R'
  proof -
    have "holds buf' (Q @ p)" using that(1) holds_prefix [of buf' "Q @ p" R'] by simp
    moreover have "length (Q @ p) < 8 * length buf'" using room lt that(2) by simp
    ultimately show ?thesis using holds_set_bit [of buf' "Q @ p" x] by simp
  qed
  have e: "visit_all (\<lambda>k d. f (Q @ k) (fst d) (snd d)) (pre_diff (p @ [False]) (D False) @ pre_diff (p @ [True]) (D True)) s =
      bind_err (?V False s) (\<lambda>(ok, s). if ok then ?V True s else Inr (False, s))"
    unfolding visit_all_append visit_all_pre_diff by (simp cong: if_cong)
  have "visited (bind_err (?V False s) (\<lambda>(ok, s). if ok then ?V True s else Inr (False, s))) (Q @ p @ [True]) (length buf)
      (and_then (run False (ptr_set_bit (buf, length Q + length p) 0 False) s)
        (\<lambda>s buf. run True (ptr_set_bit (buf, length Q + length p) 0 True) s))"
  proof (rule visited_then)
    show "visited (?V False s) (Q @ p @ [False]) (length buf) (run False (ptr_set_bit (buf, length Q + length p) 0 False) s)"
      by (rule rec) (use hs [OF h] in simp_all)
    fix s' buf' assume "holds buf' (Q @ p @ [False])" and "length buf' = length buf"
    then show "visited (?V True s') (Q @ p @ [True]) (length buf) (run True (ptr_set_bit (buf', length Q + length p) 0 True) s')"
      by (intro rec) (use hs [of buf' "[False]" True] in simp_all)
  qed
  from visited_weaken [OF this, of Q "p @ [True]"] show ?thesis unfolding e by simp
qed

lemma scan_leaves_ok:
  assumes h: "holds buf (Q @ ls)" and len: "length ls = n" "len = length Q + n"
    and v1: "slice_ok v1" "slice_bits v1 = rest1" "slice_children v1 = c_refs c1"
    and v2: "slice_ok v2" "slice_bits v2 = rest2" "slice_children v2 = c_refs c2"
    and o: "ordinary c1" "ordinary c2" and fa: "faithful (Some c1) (Some c2)"
  shows "visited (visit_all (\<lambda>k d. f (Q @ k) (fst d) (snd d)) (diffs [(ls, rest1, c_refs c1)] [(ls, rest2, c_refs c2)]) s) Q (length buf)
     (scan_leaves v1 v2 (buf, length Q + n - len) len func mode s)"
proof -
  have key: "ptr_bits (buf, 0) len = Q @ ls" "ptr_ok (buf, 0) len" using h len by (simp_all add: holds_def ptr_bits_def ptr_ok_def)
  have eq: "contents_equal v1 v2 \<longleftrightarrow> (rest1, c_refs c1) = (rest2, c_refs c2)"
    using contents_equal_eq [OF v1(1) v2(1)] faithful_values [OF fa o] v1 v2 by simp
  have run: "scan_leaves v1 v2 (buf, length Q + n - len) len func mode s =
      (if (rest1, c_refs c1) = (rest2, c_refs c2) then Inr ((True, s), buf)
       else bind_err (f (Q @ ls) (Some (rest1, c_refs c1)) (Some (rest2, c_refs c2)) s) (\<lambda>r. Inr (r, buf)))"
    using func_values [of "Some v1" "Some v2" "(buf, 0)" s] v1 v2 key len
    by (simp add: scan_leaves_def leaf_fails_def check_leaf_def eq value_ok_def value_of_def)
  have "holds buf Q" by (rule holds_prefix [OF h])
  then show ?thesis unfolding run diffs_def
    by (cases "f (Q @ ls) (Some (rest1, c_refs c1)) (Some (rest2, c_refs c2)) s") (auto simp: visited_def)
qed

lemma scan_disjoint_ok:
  assumes N1: "node_rep n S1 c1 (p @ x # t1) rest1 f1" and N2: "node_rep n S2 c2 (p @ (\<not> x) # t2) rest2 f2"
    and S: "suffix S1 Q" "suffix S2 Q" and h: "holds buf (Q @ p @ x # t1)" and room: "length Q + n \<le> 8 * length buf"
    and len: "len = length Q + n" "len < 2 ^ 31"
  shows "visited (visit_all (\<lambda>k d. f (Q @ k) (fst d) (snd d)) (diffs (pre (p @ x # t1) f1) (pre (p @ (\<not> x) # t2) f2)) s) Q (length buf)
     (scan_disjoint (Some c1) (Some c2) buf (length Q) n (length p) len func mode (length S1) (length S2) s)"
proof -
  have lt: "length p < n" using N1 by (simp add: node_rep_def)
  have "ptr_bit (buf, length Q) (length p) = (p @ x # t1) ! length p"
    using ptr_bit_nth [of "(buf, length Q)" "length (p @ x # t1)" "length p"] holds_ptr(1) [OF h] h by (simp add: ptr_ok_def holds_def)
  then have bit: "ptr_bit (buf, length Q) (length p) = x" by simp
  have hQ: "holds buf Q" by (rule holds_prefix [OF h])
  let ?F = "\<lambda>k d. f (Q @ k) (fst d) (snd d)"
  let ?D1 = "map (\<lambda>(k, v). (k, one_of True v)) (pre (p @ x # t1) f1)"
  let ?D2 = "map (\<lambda>(k, v). (k, one_of False v)) (pre (p @ (\<not> x) # t2) f2)"
  have D: "diffs (pre (p @ x # t1) f1) (pre (p @ (\<not> x) # t2) f2) = (if x then ?D2 @ ?D1 else ?D1 @ ?D2)"
    unfolding one_side diffs_sides by (cases x) (auto simp: diffs_one pre_diff_def pre_def)
  have V1: "visited (visit_all ?F ?D1 s) Q (length buf) (scan_one True (Some c1) (buf', length Q - length S1) (n + length S1) len func mode s)"
    if "holds buf' Q" "length buf' = length buf" for buf' s
    using scan_one_ok [OF N1 S(1) that(1) _ len] room that(2) by simp
  have V2: "visited (visit_all ?F ?D2 s) Q (length buf) (scan_one False (Some c2) (buf', length Q - length S2) (n + length S2) len func mode s)"
    if "holds buf' Q" "length buf' = length buf" for buf' s
    using scan_one_ok [OF N2 S(2) that(1) _ len] room that(2) by simp
  show ?thesis unfolding D scan_disjoint_def bit
    using visited_append [OF V1 V2 hQ refl] visited_append [OF V2 V1 hQ refl] by (cases x) simp_all
qed

theorem dict_scan_diff_ok:
  assumes "sub_rep n S1 d1 e1" and "sub_rep n S2 d2 e2" and "(d1 = None \<longrightarrow> S2 = []) \<and> (d2 = None \<longrightarrow> S1 = [])"
    and "suffix S1 Q" and "suffix S2 Q" and "holds buf Q" and "length Q + n \<le> 8 * length buf"
    and "len = length Q + n" and n: "len < 2 ^ 31" and "faithful d1 d2"
  shows "visited (visit_all (\<lambda>k d. f (Q @ k) (fst d) (snd d)) (diffs e1 e2) s) Q (length buf)
     (dict_scan_diff d1 d2 (buf, length Q) n len func mode (length S1) (length S2) s)"
  using assms(1-8,10)
proof (induction n arbitrary: S1 S2 d1 d2 e1 e2 Q buf s rule: less_induct)
  case (less n)
  let ?F = "\<lambda>k d. f (Q @ k) (fst d) (snd d)"
  show ?case
  proof (cases "d1 = None \<or> d2 = None")
    case True
    note prems = less.prems(3-8)
    have one: "visited (visit_all ?F (map (\<lambda>(k, v). (k, one_of first v)) e) s) Q (length buf) (scan_one first d (buf, length Q) n len func mode s)"
      if sub: "sub_rep n [] d e" for d e first
    proof (cases d)
      case None
      then show ?thesis using sub prems(4) by (simp add: sub_rep_def scan_one.simps [of _ None] visited_def)
    next
      case (Some c)
      then obtain ls rest e0 where N: "node_rep n [] c ls rest e0" "e = pre ls e0" using sub by (auto simp: sub_rep_def)
      from scan_one_ok [OF N(1) _ prems(4-6) n, of first s mode] show ?thesis by (simp add: Some N(2))
    qed
    show ?thesis
    proof (cases d1)
      case None
      then have e: "e1 = []" "S1 = []" "S2 = []" using less.prems(1) prems(1) by (auto simp: sub_rep_def)
      show ?thesis using one [of d2 e2 False] less.prems(2) None
        by (cases d2) (simp_all add: dict_scan_diff.simps [of None] e diffs_one scan_one.simps [of _ None])
    next
      case (Some c)
      then have d2: "d2 = None" "e2 = []" "S1 = []" "S2 = []" using True less.prems(2) prems(1) by (auto simp: sub_rep_def)
      show ?thesis using one [of d1 e1 True] less.prems(1) Some
        by (simp add: dict_scan_diff.simps [of "Some c" None] d2 diffs_one)
    qed
  next
    case False
    then obtain c1 c2 where d: "d1 = Some c1" "d2 = Some c2" by auto
    have ne: "Some c1 \<noteq> None" "Some c2 \<noteq> None" by simp_all
    obtain ls1 rest1 f1 where N1: "node_rep n S1 c1 ls1 rest1 f1" "e1 = pre ls1 f1"
      using less.prems(1) by (auto simp: d sub_rep_def)
    obtain ls2 rest2 f2 where N2: "node_rep n S2 c2 ls2 rest2 f2" "e2 = pre ls2 f2"
      using less.prems(2) by (auto simp: d sub_rep_def)
    note fa = less.prems(9) [unfolded d]
    have o: "ordinary c1" "ordinary c2" and len1: "length ls1 \<le> n" "payload_rep (n - length ls1) rest1 (c_refs c1) f1"
      and len2: "length ls2 \<le> n" "payload_rep (n - length ls2) rest2 (c_refs c2) f2"
      using N1(1) N2(1) by (simp_all add: node_rep_def)
    show ?thesis
    proof (cases "length S1 = length S2 \<and> same_cells d1 d2")
      case True
      then have c: "c1 = c2" using faithful_root [OF fa] by (simp add: same_cells_def d)
      have "S1 = S2" using less.prems(4,5) True by (auto simp: suffix_def)
      then have "e1 = e2" using node_rep_unique [OF N1(1)] N2 N1(2) c by auto
      then show ?thesis using True d less.prems(6) by (simp add: dict_scan_diff.simps [of "Some c1" "Some c2"] visited_def)
    next
      case diff: False
      have n31: "length Q + n < 2 ^ 31" using less.prems(8) n by simp
      obtain buf1 lab1' lab2 where labels: "combine_labels (Some c1) (Some c2) (buf, length Q) n (length S1) (length S2) =
          Inr (buf1, lab1', lab2, length ls1, length ls2, lcp ls2 ls1)"
        and X1: "holds buf1 (Q @ ls1)" "length buf1 = length buf" "slice_ok (l_remainder lab1')"
          "slice_bits (l_remainder lab1') = rest1" "slice_children (l_remainder lab1') = c_refs c1"
        and L2: "label_view lab2 (S2 @ ls2) rest2 (c_refs c2)"
        using combine_labels_ok [OF N1(1) N2(1) less.prems(4-7) n31] .
      have room: "length Q + n \<le> 8 * length buf1" using less.prems(7) X1(2) by simp
      note X2 = skip_label_rest [OF L2]
      note unf = dict_scan_diff.simps [of "Some c1" "Some c2" "(buf, length Q)" n len func mode "length S1" "length S2" s,
          unfolded if_not_P [OF ne(1)] if_not_P [OF ne(2)] if_not_P [OF diff [unfolded d]] labels bind_err_simps snd_conv Let_def prod.case]
      have rec: "visited (visit_all (\<lambda>k d. f ((Q @ p @ [x]) @ k) (fst d) (snd d)) (diffs e1' e2') s') (Q @ p @ [x]) (length buf)
          (dict_scan_diff d1' d2' (buf', length Q + length p + 1) (n - length p - 1) len func mode (length T1) (length T2) s')"
        if "length p < n" and "sub_rep (n - length p - 1) T1 d1' e1'" and "sub_rep (n - length p - 1) T2 d2' e2'"
          and "(d1' = None \<longrightarrow> T2 = []) \<and> (d2' = None \<longrightarrow> T1 = [])" and "suffix T1 (Q @ p @ [x])" and "suffix T2 (Q @ p @ [x])"
          and "faithful d1' d2'" and "holds buf' (Q @ p @ [x])" and "length buf' = length buf"
        for p x T1 T2 d1' d2' e1' e2' buf' s'
      proof -
        have "n - length p - 1 < n" "length (Q @ p @ [x]) + (n - length p - 1) \<le> 8 * length buf'"
          "len = length (Q @ p @ [x]) + (n - length p - 1)" "length (Q @ p @ [x]) = length Q + length p + 1"
          using that(1,9) less.prems(7,8) by simp_all
        from less.IH [OF this(1) that(2-6,8) this(2,3) that(7), of s', unfolded this(4)] that(9) show ?thesis by simp
      qed
      have faR: "faithful (Some r1) (Some r2)" if "r1 \<in> set (c_refs c1)" "r2 \<in> set (c_refs c2)" for r1 r2
        by (rule faithful_refs(2) [OF faithful_refs(1) [OF fa o(1) that(1)] o(2) that(2)])
      have "visited (visit_all ?F (diffs e1 e2) s) Q (length buf)
          (dict_scan_diff (Some c1) (Some c2) (buf, length Q) n len func mode (length S1) (length S2) s)"
      proof (cases rule: lcp_cases [of ls2 ls1])
        case equal
        let ?c = "length ls1"
        have c: "\<not> (?c < ?c \<and> ?c < ?c)" "?c = ?c \<and> ?c = ?c" by simp_all
        note run = unf [unfolded equal(1) lcp_refl if_not_P [OF c(1)] if_P [OF c(2)]]
        show ?thesis
        proof (cases "?c = n")
          case True
          have "e1 = [(ls1, rest1, c_refs c1)]" "e2 = [(ls1, rest2, c_refs c2)]"
            using payload_leaf [OF len1(2) True] payload_leaf [OF len2(2)] True N1(2) N2(2) equal(1) by simp_all
          then show ?thesis unfolding run if_P [OF True]
            using scan_leaves_ok [OF X1(1) True less.prems(8) X1(3-5) X2 o fa, of s mode] X1(2) by simp
        next
          case False
          then have lt: "length ls1 < n" using len1(1) by simp
          obtain a1 b1 ea1 eb1 where F1: "rest1 = []" "c_refs c1 = [a1, b1]" "dict_rep (n - ?c - 1) a1 ea1" "dict_rep (n - ?c - 1) b1 eb1"
            "f1 = pre [False] ea1 @ pre [True] eb1"
            using payload_fork_step [OF len1(2) lt] by blast
          obtain a2 b2 ea2 eb2 where F2: "rest2 = []" "c_refs c2 = [a2, b2]" "dict_rep (n - ?c - 1) a2 ea2" "dict_rep (n - ?c - 1) b2 eb2"
            "f2 = pre [False] ea2 @ pre [True] eb2"
            using payload_fork_step [OF len2(2)] lt equal(1) by auto
          have refs: "prefetch_ref (l_remainder lab1') 0 = Some a1" "prefetch_ref (l_remainder lab1') 1 = Some b1"
            "prefetch_ref (l_remainder (skip_label lab2)) 0 = Some a2" "prefetch_ref (l_remainder (skip_label lab2)) 1 = Some b2"
            using view_advanced_ref [OF X1(3,5)] view_advanced_ref [OF X2(1,3)] F1(2) F2(2) by simp_all
          have ok: "\<not> (fork_fails mode 1 (l_remainder lab1') (n - ?c) \<or> fork_fails mode 2 (l_remainder (skip_label lab2)) (n - ?c))"
            using fork_holds [OF X1(3) X1(4) [unfolded F1(1)] X1(5) [unfolded F1(2)]]
              fork_holds [OF X2(1) X2(2) [unfolded F2(1)] X2(3) [unfolded F2(2)]] by simp
          define D where "D = (\<lambda>x. diffs (if x then eb1 else ea1) (if x then eb2 else ea2))"
          define go where "go = (\<lambda>x bf s. dict_scan_diff (Some (if x then b1 else a1)) (Some (if x then b2 else a2))
            (bf, length Q + ?c + 1) (n - ?c - 1) len func mode 0 0 s)"
          have R: "visited (visit_all (\<lambda>k d. f ((Q @ ls1 @ [x]) @ k) (fst d) (snd d)) (D x) s') (Q @ ls1 @ [x]) (length buf1) (go x bf s')"
            if h: "holds bf (Q @ ls1 @ [x])" "length bf = length buf1" for x bf s'
          proof -
            have "sub_rep (n - ?c - 1) [] (Some (if x then b1 else a1)) (if x then eb1 else ea1)"
              "sub_rep (n - ?c - 1) [] (Some (if x then b2 else a2)) (if x then eb2 else ea2)"
              using F1(3,4) F2(3,4) by (simp_all add: sub_rep_Nil dict_rep_opt_def)
            from rec [OF lt this _ _ _ _ h(1)] faR F1(2) F2(2) h(2) X1(2) show ?thesis by (simp add: go_def D_def)
          qed
          have e: "diffs e1 e2 = pre_diff (ls1 @ [False]) (D False) @ pre_diff (ls1 @ [True]) (D True)"
            unfolding N1(2) N2(2) F1(5) F2(5) equal(1) D_def diffs_sides by simp
          have h: "holds buf1 (Q @ ls1 @ [])" using X1(1) by simp
          show ?thesis unfolding run if_not_P [OF False] if_not_P [OF ok] refs e
            using two_sides [OF h room lt R, where s = s] by (simp add: go_def X1(2))
        qed
      next
        case (first x t)
        let ?c = "length ls1"
        have c: "\<not> (?c < ?c \<and> ?c < length ls2)" "\<not> (?c = ?c \<and> ?c = length ls2)" using first(1) by simp_all
        obtain buf2 lab2' where x2: "extract_label_to lab2 (buf1, length Q - length S2) = (buf2, lab2')" by fastforce
        have lt: "?c < n" and deep: "sub_rep (n - ?c - 1) (S2 @ ls1 @ [x]) (Some c2) (pre t f2)"
          using node_rep_deeper [OF N2(1) [unfolded first(1)]] by simp_all
        have "length Q + length ls2 \<le> 8 * length buf1" using room len2(1) by simp
        note X3 = extract_sub [OF L2 X1(1) less.prems(5) this x2]
        have h: "holds buf2 (Q @ ls1 @ x # t)" using X3(1) first(1) by simp
        have bit: "ptr_bit (buf2, length Q) ?c = x"
          using ptr_bit_nth [of "(buf2, length Q)" "length ls2" "?c"] holds_ptr(1) [OF X3(1)] X3(1) first(1)
          by (simp add: ptr_ok_def holds_def)
        have room2: "length Q + n \<le> 8 * length buf2" using room X3(2) by simp
        obtain a b ea eb where F: "rest1 = []" "c_refs c1 = [a, b]" "dict_rep (n - ?c - 1) a ea" "dict_rep (n - ?c - 1) b eb"
          "f1 = pre [False] ea @ pre [True] eb"
          using payload_fork_step [OF len1(2) lt] by blast
        have refs: "prefetch_ref (l_remainder lab1') 0 = Some a" "prefetch_ref (l_remainder lab1') 1 = Some b"
          using view_advanced_ref [OF X1(3,5)] F(2) by simp_all
        note ok = fork_holds [OF X1(3) X1(4) [unfolded F(1)] X1(5) [unfolded F(2)]]
        define D where "D = (\<lambda>y. diffs (if y then eb else ea) (if y = x then pre t f2 else []))"
        define go where "go = (\<lambda>y bf s. dict_scan_diff (Some (if y then b else a)) (if y = x then Some c2 else None)
          (bf, length Q + ?c + 1) (n - ?c - 1) len func mode 0 (if y = x then length S2 + ?c + 1 else 0) s)"
        have R: "visited (visit_all (\<lambda>k d. f ((Q @ ls1 @ [y]) @ k) (fst d) (snd d)) (D y) s') (Q @ ls1 @ [y]) (length buf2) (go y bf s')"
          if h: "holds bf (Q @ ls1 @ [y])" "length bf = length buf2" for y bf s'
        proof -
          have r1: "sub_rep (n - ?c - 1) [] (Some (if y then b else a)) (if y then eb else ea)"
            using F(3,4) by (simp add: sub_rep_Nil dict_rep_opt_def)
          have r2: "sub_rep (n - ?c - 1) (if y = x then S2 @ ls1 @ [x] else []) (if y = x then Some c2 else None) (if y = x then pre t f2 else [])"
            using deep by (simp add: sub_rep_def)
          have sf: "suffix (if y = x then S2 @ ls1 @ [x] else []) (Q @ ls1 @ [y])" using less.prems(5) by (auto simp: suffix_def)
          have fy: "faithful (Some (if y then b else a)) (if y = x then Some c2 else None)"
            using faithful_refs(1) [OF fa o(1)] F(2) by simp
          show ?thesis using rec [OF lt r1 r2 _ _ sf fy h(1), of s'] h(2) X1(2) X3(2) by (cases x; cases y) (simp_all add: go_def D_def)
        qed
        have e: "diffs e1 e2 = pre_diff (ls1 @ [False]) (D False) @ pre_diff (ls1 @ [True]) (D True)"
          unfolding N1(2) N2(2) F(5) first(1) one_side D_def diffs_sides by (cases x) simp_all
        show ?thesis unfolding unf first(2) if_not_P [OF c(1)] if_not_P [OF c(2)] if_P [OF refl] if_not_P [OF ok] refs x2 prod.case bit e
          using two_sides [OF h room2 lt R, where s = s] by (cases x) (simp_all add: go_def X1(2) X3(2))
      next
        case (second x t)
        let ?c = "length ls2"
        have c: "\<not> (?c < length ls1 \<and> ?c < ?c)" "\<not> (?c = length ls1 \<and> ?c = ?c)" "?c \<noteq> length ls1" using second(1) by simp_all
        have lt: "?c < n" and deep: "sub_rep (n - ?c - 1) (S1 @ ls2 @ [x]) (Some c1) (pre t f1)"
          using node_rep_deeper [OF N1(1) [unfolded second(1)]] by simp_all
        have h: "holds buf1 (Q @ ls2 @ x # t)" using X1(1) second(1) by simp
        have bit: "ptr_bit (buf1, length Q) ?c = x"
          using ptr_bit_nth [of "(buf1, length Q)" "length ls1" "?c"] holds_ptr(1) [OF X1(1)] X1(1) second(1)
          by (simp add: ptr_ok_def holds_def)
        obtain a b ea eb where F: "rest2 = []" "c_refs c2 = [a, b]" "dict_rep (n - ?c - 1) a ea" "dict_rep (n - ?c - 1) b eb"
          "f2 = pre [False] ea @ pre [True] eb"
          using payload_fork_step [OF len2(2) lt] by blast
        have refs: "prefetch_ref (l_remainder (skip_label lab2)) 0 = Some a" "prefetch_ref (l_remainder (skip_label lab2)) 1 = Some b"
          using view_advanced_ref [OF X2(1,3)] F(2) by simp_all
        note ok = fork_holds [OF X2(1) X2(2) [unfolded F(1)] X2(3) [unfolded F(2)]]
        define D where "D = (\<lambda>y. diffs (if y = x then pre t f1 else []) (if y then eb else ea))"
        define go where "go = (\<lambda>y bf s. dict_scan_diff (if y = x then Some c1 else None) (Some (if y then b else a))
          (bf, length Q + ?c + 1) (n - ?c - 1) len func mode (if y = x then length S1 + ?c + 1 else 0) 0 s)"
        have R: "visited (visit_all (\<lambda>k d. f ((Q @ ls2 @ [y]) @ k) (fst d) (snd d)) (D y) s') (Q @ ls2 @ [y]) (length buf1) (go y bf s')"
          if h: "holds bf (Q @ ls2 @ [y])" "length bf = length buf1" for y bf s'
        proof -
          have r1: "sub_rep (n - ?c - 1) [] (Some (if y then b else a)) (if y then eb else ea)"
            using F(3,4) by (simp add: sub_rep_Nil dict_rep_opt_def)
          have r2: "sub_rep (n - ?c - 1) (if y = x then S1 @ ls2 @ [x] else []) (if y = x then Some c1 else None) (if y = x then pre t f1 else [])"
            using deep by (simp add: sub_rep_def)
          have sf: "suffix (if y = x then S1 @ ls2 @ [x] else []) (Q @ ls2 @ [y])" using less.prems(4) by (auto simp: suffix_def)
          have fy: "faithful (if y = x then Some c1 else None) (Some (if y then b else a))"
            using faithful_refs(2) [OF fa o(2)] F(2) by simp
          show ?thesis using rec [OF lt r2 r1 _ sf _ fy h(1), of s'] h(2) X1(2) by (cases x; cases y) (simp_all add: go_def D_def)
        qed
        have e: "diffs e1 e2 = pre_diff (ls2 @ [False]) (D False) @ pre_diff (ls2 @ [True]) (D True)"
          unfolding N1(2) N2(2) F(5) second(1) one_side D_def diffs_sides by (cases x) simp_all
        show ?thesis unfolding unf second(2) if_not_P [OF c(1)] if_not_P [OF c(2)] if_not_P [OF c(3)] if_not_P [OF ok] refs bit e
          using two_sides [OF h room lt R, where s = s] by (cases x) (simp_all add: go_def X1(2))
      next
        case (part p x t1 t2)
        have c: "length p < length ls1 \<and> length p < length ls2" using part(1,2) by simp
        show ?thesis unfolding unf part(3) if_P [OF c] unfolding N1(2) N2(2) part(1,2)
          using scan_disjoint_ok [OF N1(1) [unfolded part(1)] N2(1) [unfolded part(2)] less.prems(4,5) X1(1) [unfolded part(1)] room
            less.prems(8) n, of s mode] X1(2) by simp
      qed
      then show ?thesis unfolding d .
    qed
  qed
qed

end

section \<open>The dictionary objects\<close>

text \<open>Cells made by \<open>create\<close> are told apart by their hashes, as long as the hash function has no
  collision among them.\<close>

lemma plain_tree_cells:
  "plain sha256 c \<Longrightarrow> x \<in> set (tree_cells c) \<Longrightarrow> plain sha256 x \<and> set (hashed x) \<subseteq> set (hashed c)"
proof (induction c)
  case (Data_Cell i data refs hashes depths)
  from plain_form [OF Data_Cell.prems(1)] have p: "\<forall>r \<in> set refs. plain sha256 r" by auto
  show ?case
  proof (cases "x = Data_Cell i data refs hashes depths")
    case False
    then obtain r where r: "r \<in> set refs" "x \<in> set (tree_cells r)" using Data_Cell.prems(2) by auto
    from Data_Cell.IH [OF r(1) bspec [OF p r(1)] r(2)] show ?thesis using r(1) by auto
  qed (simp add: Data_Cell.prems(1))
next
  case (Virtual_Cell vl vv c)
  from plain_form [OF Virtual_Cell.prems(1)] show ?case by simp
qed

lemma faithful_plain:
  assumes "plain sha256 c" and "plain sha256 c'" and sha: "\<And>x. length (sha256 x) = hash_bytes" and "\<not> collision_in sha256 c c'"
  shows "faithful (Some c) (Some c')"
  unfolding faithful_def
proof clarsimp
  fix x y assume x: "x \<in> set (tree_cells c)" and y: "y \<in> set (tree_cells c')" and h: "get_hash x max_level = get_hash y max_level"
  note X = plain_tree_cells [OF assms(1) x] plain_tree_cells [OF assms(2) y]
  have "\<not> collision_in sha256 x y" using X assms(4) unfolding collision_in_def by blast
  then show "x = y" using hash_determines_plain [of sha256 x y, OF _ _ sha h] X by blast
qed

lemma dict_inv_sorted: "dict_inv d n es \<Longrightarrow> sorted_keys es"
  using dict_rep_sorted(1) by (auto simp: dict_inv_def dict_rep_opt_def sorted_keys_def split: option.splits)

theorem scan_diff_ok:
  assumes d: "dict_inv d n e1" and d2: "dict_inv d2 n e2" and f: "diff_function func n f"
    and fa: "faithful (d_root_cell d) (d_root_cell d2)"
  shows "scan_diff d d2 func mode s =
     (case visit_all (\<lambda>k v. f k (fst v) (snd v)) (diffs e1 e2) s of
        Inr (ok, s) \<Rightarrow> Inr ((ok, Some s), d, d2)
      | Inl e \<Rightarrow> if e = Combine_error then Inr ((False, None), d, d2) else Inl e)"
proof -
  have D: "d_key_bits d = int n" "d_key_bits d2 = int n" "n \<le> max_key_bits" "n < 2 ^ 31"
    "sub_rep n [] (d_root_cell d) e1" "sub_rep n [] (d_root_cell d2) e2"
    using d d2 by (simp_all add: dict_inv_def sub_rep_Nil)
  let ?buf = "replicate max_key_bytes 0 :: byte list"
  have room: "length ([] :: bool list) + n \<le> 8 * length ?buf" using D(3) by simp
  have "visited (visit_all (\<lambda>k v. f k (fst v) (snd v)) (diffs e1 e2) s) [] (length ?buf)
      (dict_scan_diff (d_root_cell d) (d_root_cell d2) (?buf, 0) n n func mode 0 0 s)"
    using diff_function.dict_scan_diff_ok [OF f D(5,6) _ _ _ holds_nil room _ D(4) fa, of s mode] by simp
  then show ?thesis using d d2
    by (auto simp: scan_diff_def D(1,2) visited_def split: sum.splits)
qed

text \<open>A function that makes a list of what it is called with.\<close>

definition note_diff :: "(bool list \<times> dict_val option \<times> dict_val option) list diff_func" where
  "note_diff key len v1 v2 s = Inr (True, s @ [(ptr_bits key len, value_of v1, value_of v2)])"

interpretation note_diff: diff_function note_diff len "\<lambda>k v1 v2 s. Inr (True, s @ [(k, v1, v2)])"
  by unfold_locales (simp add: note_diff_def)

text \<open>A function that stops at the first difference: the dictionaries are compared.\<close>

definition stop_diff :: "unit diff_func" where
  "stop_diff key len v1 v2 s = Inr (False, s)"

interpretation stop_diff: diff_function stop_diff len "\<lambda>k v1 v2 s. Inr (False, s)"
  by unfold_locales (simp add: stop_diff_def)

theorem scan_diff_compares:
  assumes d: "dict_inv d n e1" and d2: "dict_inv d2 n e2" and fa: "faithful (d_root_cell d) (d_root_cell d2)"
  shows "scan_diff d d2 stop_diff mode () = Inr ((map_of e1 = map_of e2, Some ()), d, d2)"
proof -
  note s = dict_inv_sorted [OF d] dict_inv_sorted [OF d2]
  have "map_of e1 = map_of e2 \<longleftrightarrow> diffs e1 e2 = []"
  proof
    assume e: "map_of e1 = map_of e2"
    have "(k, a, b) \<notin> set (diffs e1 e2)" for k a b unfolding diffs_set [OF s] by (simp add: e)
    then have "x \<notin> set (diffs e1 e2)" for x by (cases x) simp
    then show "diffs e1 e2 = []" by (cases "diffs e1 e2") auto
  next
    assume e: "diffs e1 e2 = []"
    have "map_of e1 k = map_of e2 k" for k using diffs_set [OF s, of k "map_of e1 k" "map_of e2 k"] by (simp add: e)
    then show "map_of e1 = map_of e2" by blast
  qed
  then show ?thesis unfolding scan_diff_ok [OF d d2 stop_diff.diff_function_axioms fa] by (cases "diffs e1 e2") auto
qed

end
