(* ===== verification/Pfx_Dict.thy ===== *)
theory Pfx_Dict
  imports Dict_Object
begin

text \<open>
  Prefix code dictionaries, \<open>PrefixDictionary\<close> of \<open>crypto/vm/dict.cpp\<close>: the keys have any length up to a
  bound, and no key is a prefix of another one. Behind the label of a node there is a bit that tells
  a leaf from a fork, so that a leaf may end a key anywhere. This theory has the operations, what a
  tree stands for, and looking up.
\<close>

section \<open>Operations\<close>

text \<open>The bit behind the label, and the check of a fork.\<close>

definition pfx_constructor :: "label \<Rightarrow> dict_error + bool \<times> slice" where
  "pfx_constructor lab =
     (let cs = l_remainder (skip_label lab)
      in if \<not> slice_have cs 1 then Inl (Vm_error Excno_dict_err)
         else let (v, cs) = fetch_ulong cs 1 in Inr (v \<noteq> 0, cs))"

definition pfx_valid_fork :: "slice \<Rightarrow> bool" where
  "pfx_valid_fork cs \<longleftrightarrow> slice_size cs = 0 \<and> slice_size_refs cs = 2"

text \<open>The loop of \<open>lookup_prefix\<close>: \<open>m\<close> bits of the key are left, and the result is a value with the
  number of bits of the key that have been followed.\<close>

function pfx_lookup_loop :: "cell option \<Rightarrow> bit_ptr \<Rightarrow> nat \<Rightarrow> nat \<Rightarrow> nat \<Rightarrow> dict_error + slice option \<times> nat" where
  "pfx_lookup_loop c key key_len m n =
     bind_err (label_of_cell c n chk_min) (\<lambda>lab.
       let l = label_common_prefix_len lab key m
       in if l < l_bits lab then Inr (None, key_len - m + l)
          else
            bind_err (pfx_constructor lab) (\<lambda>(is_fork, cs).
              let n = n - l_bits lab; m = m - l_bits lab
              in if \<not> is_fork then Inr (Some cs, key_len - m)
                 else if n = 0 then Inl (Vm_error Excno_dict_err)
                 else if \<not> pfx_valid_fork cs then Inl (Vm_error Excno_dict_err)
                 else if m = 0 then Inr (None, key_len)
                 else
                   let key = ptr_add key (l_bits lab); sw = ptr_bit key 0
                   in pfx_lookup_loop (prefetch_ref cs (of_bool sw)) (ptr_add key 1) key_len (m - 1) (n - 1)))"
  by pat_completeness auto
termination by (relation "measure (\<lambda>(c, key, key_len, m, n). n)") auto

declare pfx_lookup_loop.simps [simp del]

text \<open>A new leaf and a fork.\<close>

definition create_pfx_leaf ::
  "(byte list \<Rightarrow> byte list) \<Rightarrow> builder \<Rightarrow> bit_ptr \<Rightarrow> nat \<Rightarrow> nat \<Rightarrow> store_value \<Rightarrow> dict_error + cell \<times> builder" where
  "create_pfx_leaf sha256 cb key len n store_val =
     bind_err (append_dict_label cb key len n) (\<lambda>cb.
     bind_err (build (store_long cb 0 1)) (\<lambda>cb.
     bind_err (or_throw Excno_cell_ov (store_val cb)) (\<lambda>cb. dict_finalize sha256 cb)))"

definition create_pfx_fork ::
  "(byte list \<Rightarrow> byte list) \<Rightarrow> builder \<Rightarrow> bit_ptr \<Rightarrow> nat \<Rightarrow> nat \<Rightarrow> cell option \<Rightarrow> cell option \<Rightarrow> dict_error + cell" where
  "create_pfx_fork sha256 cb key len n c1 c2 =
     bind_err (append_dict_label cb key len n) (\<lambda>cb.
     bind_err (build (store_long cb 1 1)) (\<lambda>cb.
     bind_err (store_two_refs cb c1 c2) (\<lambda>cb.
     bind_err (dict_finalize sha256 cb) (\<lambda>(c, cb). Inr c))))"

text \<open>A new node inside the current edge.\<close>

definition insert_pfx_fork ::
  "(byte list \<Rightarrow> byte list) \<Rightarrow> label \<Rightarrow> bit_ptr \<Rightarrow> nat \<Rightarrow> nat \<Rightarrow> nat \<Rightarrow> store_value \<Rightarrow> dict_error + cell" where
  "insert_pfx_fork sha256 lab key m n l store_val =
     (let q = l + 1
      in bind_err (create_pfx_leaf sha256 empty_builder (ptr_add key q) (m - q) (n - q) store_val) (\<lambda>(c1, cb).
         bind_err (lower_edge sha256 cb lab l (n - q)) (\<lambda>(c2, cb).
           let (c1, c2) = (if ptr_bit key l then (c2, c1) else (c1, c2))
           in create_pfx_fork sha256 cb key l n (Some c1) (Some c2))))"

text \<open>The assertion of the operations below.\<close>

definition pfx_assert :: "label \<Rightarrow> nat \<Rightarrow> nat \<Rightarrow> nat \<Rightarrow> bool" where
  "pfx_assert lab l m n \<longleftrightarrow> l \<le> l_bits lab \<and> l_bits lab \<le> n \<and> l \<le> m \<and> m \<le> n"

function pfx_dict_set ::
  "(byte list \<Rightarrow> byte list) \<Rightarrow> cell option \<Rightarrow> bit_ptr \<Rightarrow> nat \<Rightarrow> nat \<Rightarrow> store_value \<Rightarrow> set_mode \<Rightarrow> dict_error + cell option \<times> bool" where
  "pfx_dict_set sha256 dict key m n store_val mode =
     (if m > n then Inr (None, False)
      else if dict = None then
        if mode = Mode_Replace then Inr (None, False)
        else bind_err (create_pfx_leaf sha256 empty_builder key m n store_val) (\<lambda>(c, cb). Inr (Some c, True))
      else
        bind_err (label_of_cell dict n chk_min) (\<lambda>lab.
          let l = label_common_prefix_len lab key m
          in if \<not> pfx_assert lab l m n then Inl Assertion
             else if l < l_bits lab then
               if l = m \<or> mode = Mode_Replace then Inr (None, False)
               else bind_err (insert_pfx_fork sha256 lab key m n l store_val) (\<lambda>c. Inr (Some c, True))
             else
               bind_err (pfx_constructor lab) (\<lambda>(is_fork, cs).
                 if \<not> is_fork then
                   if l \<noteq> m \<or> mode = Mode_Add then Inr (None, False)
                   else bind_err (create_pfx_leaf sha256 empty_builder key m n store_val) (\<lambda>(c, cb). Inr (Some c, True))
                 else if \<not> pfx_valid_fork cs then Inl (Vm_error Excno_dict_err)
                 else if m = l then Inr (None, False)
                 else
                   let c1 = prefetch_ref cs 0; c2 = prefetch_ref cs 1; right = ptr_bit key l
                   in bind_err (pfx_dict_set sha256 (if right then c2 else c1) (ptr_add key (l + 1)) (m - l - 1) (n - l - 1)
                        store_val mode) (\<lambda>(res, changed).
                        if \<not> changed then Inr (None, False)
                        else
                          let (c1, c2) = (if right then (c1, res) else (res, c2))
                          in bind_err (create_pfx_fork sha256 empty_builder key l n c1 c2) (\<lambda>c. Inr (Some c, True))))))"
  by pat_completeness auto
termination
  by (relation "measure (\<lambda>(sha256, dict, key, m, n, rest). n)") (auto simp: pfx_assert_def)

declare pfx_dict_set.simps [simp del]

function pfx_dict_lookup_delete ::
  "(byte list \<Rightarrow> byte list) \<Rightarrow> cell option \<Rightarrow> bit_ptr \<Rightarrow> nat \<Rightarrow> nat \<Rightarrow> dict_error + slice option \<times> cell option" where
  "pfx_dict_lookup_delete sha256 dict key m n =
     (if dict = None then Inr (None, None)
      else
        bind_err (label_of_cell dict n chk_min) (\<lambda>lab.
          let l = label_common_prefix_len lab key m
          in if \<not> pfx_assert lab l m n then Inl Assertion
             else if l < l_bits lab then Inr (None, None)
             else
               bind_err (pfx_constructor lab) (\<lambda>(is_fork, cs).
                 if \<not> is_fork then if l < m then Inr (None, None) else Inr (Some cs, None)
                 else if \<not> pfx_valid_fork cs then Inl (Vm_error Excno_dict_err)
                 else if l = m then Inr (None, None)
                 else
                   let c1 = prefetch_ref cs 0; c2 = prefetch_ref cs 1; sw_bit = ptr_bit key l
                   in bind_err (pfx_dict_lookup_delete sha256 (if sw_bit then c2 else c1) (ptr_add key (l + 1)) (m - l - 1) (n - l - 1))
                        (\<lambda>(old_val, res).
                        if old_val = None then Inr (None, None)
                        else
                          let (c1, c2) = (if sw_bit then (c1, res) else (res, c2))
                          in if c1 \<noteq> None \<and> c2 \<noteq> None then
                               bind_err (create_pfx_fork sha256 empty_builder key (l_bits lab) n c1 c2) (\<lambda>c. Inr (old_val, Some c))
                             else
                               let (c1, c2) = (if \<not> sw_bit then (c2, c1) else (c1, c2))
                               in if c1 = None \<or> c2 \<noteq> None then Inl Assertion
                                  else bind_err (merge_edge sha256 key (l_bits lab) (\<not> sw_bit) c1 n chk_min)
                                    (\<lambda>c. Inr (old_val, Some c))))))"
  by pat_completeness auto
termination
  by (relation "measure (\<lambda>(sha256, dict, key, m, n). n)") (auto simp: pfx_assert_def)

declare pfx_dict_lookup_delete.simps [simp del]

section \<open>The object\<close>

text \<open>The length of a key is not negative in \<open>lookup_prefix\<close> and \<open>lookup\<close>, which do not check it.\<close>

definition pfx_lookup_prefix :: "dict \<Rightarrow> bit_ptr \<Rightarrow> nat \<Rightarrow> dict_error + (slice option \<times> nat) \<times> dict" where
  "pfx_lookup_prefix d key key_len =
     bind_err (force_validate d) (\<lambda>d.
       if dict_is_empty d then Inr ((None, 0), d)
       else bind_err (pfx_lookup_loop (d_root_cell d) key key_len key_len (nat (d_key_bits d))) (\<lambda>r. Inr (r, d)))"

definition pfx_lookup :: "dict \<Rightarrow> bit_ptr \<Rightarrow> nat \<Rightarrow> dict_error + slice option \<times> dict" where
  "pfx_lookup d key key_len =
     bind_err (force_validate d) (\<lambda>d.
       if int key_len > d_key_bits d then Inr (None, d)
       else bind_err (pfx_lookup_prefix d key key_len) (\<lambda>((r, pos), d). Inr (if pos = key_len then r else None, d)))"

definition pfx_set_gen ::
  "(byte list \<Rightarrow> byte list) \<Rightarrow> dict \<Rightarrow> bit_ptr \<Rightarrow> int \<Rightarrow> store_value \<Rightarrow> set_mode \<Rightarrow> dict_error + bool \<times> dict" where
  "pfx_set_gen sha256 d key key_len store_val mode =
     bind_err (force_validate d) (\<lambda>d.
       if key_len > d_key_bits d \<or> key_len < 0 then Inr (False, d)
       else bind_err (pfx_dict_set sha256 (d_root_cell d) key (nat key_len) (nat (d_key_bits d)) store_val mode) (\<lambda>(c, changed).
         Inr (changed, if changed then set_root_cell d c else d)))"

definition pfx_set :: "(byte list \<Rightarrow> byte list) \<Rightarrow> dict \<Rightarrow> bit_ptr \<Rightarrow> int \<Rightarrow> slice \<Rightarrow> set_mode \<Rightarrow> dict_error + bool \<times> dict" where
  "pfx_set sha256 d key key_len v mode = pfx_set_gen sha256 d key key_len (\<lambda>cb. cell_builder_add_slice_bool cb v) mode"

definition pfx_set_builder ::
  "(byte list \<Rightarrow> byte list) \<Rightarrow> dict \<Rightarrow> bit_ptr \<Rightarrow> int \<Rightarrow> builder \<Rightarrow> set_mode \<Rightarrow> dict_error + bool \<times> dict" where
  "pfx_set_builder sha256 d key key_len val_b mode =
     pfx_set_gen sha256 d key key_len (\<lambda>cb. append_builder_bool cb val_b) mode"

definition pfx_lookup_delete ::
  "(byte list \<Rightarrow> byte list) \<Rightarrow> dict \<Rightarrow> bit_ptr \<Rightarrow> int \<Rightarrow> dict_error + slice option \<times> dict" where
  "pfx_lookup_delete sha256 d key key_len =
     bind_err (force_validate d) (\<lambda>d.
       if key_len > d_key_bits d \<or> key_len < 0 then Inr (None, d)
       else bind_err (pfx_dict_lookup_delete sha256 (d_root_cell d) key (nat key_len) (nat (d_key_bits d))) (\<lambda>(old, c).
         Inr (old, if old \<noteq> None then set_root_cell d c else d)))"

section \<open>What a tree stands for\<close>

inductive pfx_rep :: "nat \<Rightarrow> cell \<Rightarrow> dict_entry list \<Rightarrow> bool" where
  pfx_leaf: "node_cell n c ls (False # v) refs \<Longrightarrow> pfx_rep n c [(ls, v, refs)]"
| pfx_fork: "\<lbrakk>node_cell n c ls [True] [a, b]; length ls < n; pfx_rep (n - length ls - 1) a ea; pfx_rep (n - length ls - 1) b eb\<rbrakk>
     \<Longrightarrow> pfx_rep n c (pre ls (pre [False] ea @ pre [True] eb))"

definition pfx_rep_opt :: "nat \<Rightarrow> cell option \<Rightarrow> dict_entry list \<Rightarrow> bool" where
  "pfx_rep_opt n co es \<longleftrightarrow> (case co of None \<Rightarrow> es = [] | Some c \<Rightarrow> pfx_rep n c es)"

definition keys_of :: "dict_entry list \<Rightarrow> bool list set" where
  "keys_of es = set (map fst es)"

lemma keys_of_simps [simp]: "keys_of [] = {}" "keys_of ((k, v) # es) = insert k (keys_of es)" "keys_of (xs @ ys) = keys_of xs \<union> keys_of ys"
  by (auto simp: keys_of_def)

lemma keys_of_pre [simp]: "keys_of (pre p es) = (\<lambda>k. p @ k) ` keys_of es"
  unfolding keys_of_def by (rule set_pre)

lemma keys_of_map: "k \<in> keys_of es \<longleftrightarrow> map_of es k \<noteq> None"
  by (simp add: keys_of_def map_of_eq_None_iff)

lemma keys_of_empty [simp]: "keys_of es = {} \<longleftrightarrow> es = []"
  by (simp add: keys_of_def)

lemma pfx_rep_not_empty: "pfx_rep n c es \<Longrightarrow> es \<noteq> []"
  by (induction rule: pfx_rep.induct) (auto simp: pre_def)

lemma pfx_rep_lengths: "pfx_rep n c es \<Longrightarrow> k \<in> keys_of es \<Longrightarrow> length k \<le> n"
proof (induction arbitrary: k rule: pfx_rep.induct)
  case (pfx_leaf n c ls v refs)
  then show ?case using parse_bits_length by (auto simp: node_cell_def)
next
  case (pfx_fork n c ls a b ea eb)
  from pfx_fork.prems obtain k' where "k = ls @ False # k' \<and> k' \<in> keys_of ea \<or> k = ls @ True # k' \<and> k' \<in> keys_of eb" by auto
  then show ?case using pfx_fork.IH [of k'] pfx_fork.hyps(2) by auto
qed

lemma pfx_rep_sorted: "pfx_rep n c es \<Longrightarrow> sorted_keys es"
proof (induction rule: pfx_rep.induct)
  case (pfx_fork n c ls a b ea eb)
  then show ?case unfolding sorted_keys_pre by (intro sorted_keys_fork)
qed (simp add: sorted_keys_def)

text \<open>No key is a prefix of another one.\<close>

definition prefix_free :: "dict_entry list \<Rightarrow> bool" where
  "prefix_free es \<longleftrightarrow> (\<forall>k \<in> keys_of es. \<forall>k' \<in> keys_of es. prefix k k' \<longrightarrow> k = k')"

lemma pfx_rep_free: "pfx_rep n c es \<Longrightarrow> prefix_free es"
  by (induction rule: pfx_rep.induct) (auto simp: prefix_free_def)

text \<open>The keys that \<open>k\<close> would not get along with.\<close>

definition clashes :: "dict_entry list \<Rightarrow> bool list \<Rightarrow> bool" where
  "clashes es k \<longleftrightarrow> (\<exists>k' \<in> keys_of es. k' \<noteq> k \<and> (prefix k k' \<or> prefix k' k))"

lemma clashes_side: "clashes (pre ls (pre [False] ea @ pre [True] eb)) (ls @ b # k) = clashes (if b then eb else ea) k"
  by (cases b) (auto simp: clashes_def bex_Un)

lemma clashes_label: "es \<noteq> [] \<Longrightarrow> lcp ls k < length ls \<Longrightarrow> clashes (pre ls es) k \<longleftrightarrow> lcp ls k = length k"
proof -
  assume es: "es \<noteq> []" and l: "lcp ls k < length ls"
  obtain x where x: "x \<in> keys_of es" using es by (metis keys_of_empty ex_in_conv)
  have np: "\<not> prefix ls k" using l lcp_prefix [of ls k] by simp
  have p: "prefix k ls \<longleftrightarrow> lcp ls k = length k" unfolding lcp_prefix [symmetric] by (simp add: lcp_sym)
  have "prefix k (ls @ y) \<longleftrightarrow> prefix k ls" for y using np by (auto simp: prefix_append)
  moreover have "ls @ y \<noteq> k" "\<not> prefix (ls @ y) k" for y using np by (auto dest: append_prefixD)
  ultimately have "clashes (pre ls es) k \<longleftrightarrow> (\<exists>y \<in> keys_of es. prefix k ls)" by (simp add: clashes_def)
  then show ?thesis using x p by blast
qed

section \<open>A key at a node\<close>

lemma pfx_constructor_view:
  assumes v: "label_view lab ls (b # v) refs"
  shows "\<exists>cs. pfx_constructor lab = Inr (b, cs) \<and> slice_ok cs \<and> slice_bits cs = v \<and> slice_children cs = refs"
proof -
  define s where "s = l_remainder (skip_label lab)"
  have s: "slice_ok s" "slice_bits s = b # v" "slice_children s = refs"
    using skip_label_rest [OF v] by (simp_all add: s_def)
  have n: "1 \<le> slice_size s" "(1 :: nat) \<le> 64" using slice_size_bits [OF s(1)] s(2) by simp_all
  obtain w cs where f: "fetch_ulong s 1 = (w, cs)" by fastforce
  note F = fetch_ulong_correct [OF s(1) n, unfolded f fst_conv snd_conv]
  have "w \<noteq> 0 \<longleftrightarrow> b" using F(1) s(2) by (cases b) (simp_all add: word_of_bits_def)
  then show ?thesis using F(2) s reads_children [OF F(2)] n(1)
    by (auto simp: pfx_constructor_def s_def [symmetric] f [simplified] slice_have_def reads_def)
qed

lemma node_cell_opened:
  assumes c: "node_cell n c ls rest refs" and n: "n < 2 ^ 31"
  obtains lab where "label_of_cell (Some c) n chk_min = Inr lab" "label_view lab ls rest refs" "l_bits lab = length ls"
    "length ls \<le> n"
  using node_cell_label [OF c n, of chk_min] view_bits by (auto simp: bad_fork_def)

lemma pfx_rep_cases [consumes 3, case_names miss leaf fork]:
  assumes rep: "pfx_rep n c es" and key: "ptr_ok key m" and n: "n < 2 ^ 31"
  obtains (miss) lab ls rest refs es0 where "label_of_cell (Some c) n chk_min = Inr lab" "label_view lab ls rest refs"
      "l_bits lab = length ls" "label_common_prefix_len lab key m = lcp ls (ptr_bits key m)"
      "m \<le> n \<Longrightarrow> pfx_assert lab (lcp ls (ptr_bits key m)) m n" "lcp ls (ptr_bits key m) < length ls" "node_cell n c ls rest refs"
      "es = pre ls es0" "es0 \<noteq> []"
      "\<And>c' ls' m'. node_cell m' c' ls' rest refs \<Longrightarrow> m' - length ls' = n - length ls \<Longrightarrow> pfx_rep m' c' (pre ls' es0)"
    | (leaf) lab ls v refs k' cs where "label_of_cell (Some c) n chk_min = Inr lab" "label_view lab ls (False # v) refs"
      "l_bits lab = length ls" "label_common_prefix_len lab key m = length ls" "m \<le> n \<Longrightarrow> pfx_assert lab (length ls) m n"
      "es = [(ls, v, refs)]" "ptr_bits key m = ls @ k'"
      "pfx_constructor lab = Inr (False, cs)" "slice_ok cs" "slice_bits cs = v" "slice_children cs = refs"
    | (fork) lab ls a b ea eb cs where "label_of_cell (Some c) n chk_min = Inr lab" "label_view lab ls [True] [a, b]"
      "l_bits lab = length ls" "label_common_prefix_len lab key m = length ls" "m \<le> n \<Longrightarrow> pfx_assert lab (length ls) m n"
      "length ls < n" "pfx_rep (n - length ls - 1) a ea" "pfx_rep (n - length ls - 1) b eb"
      "es = pre ls (pre [False] ea @ pre [True] eb)" "pfx_constructor lab = Inr (True, cs)" "pfx_valid_fork cs"
      "prefetch_ref cs 0 = Some a" "prefetch_ref cs 1 = Some b" "prefix ls (ptr_bits key m)" "length ls \<le> m"
      "ptr_bits key (length ls) = ls" "ptr_ok key (length ls)"
proof -
  let ?k = "ptr_bits key m"
  have common: "label_common_prefix_len lab key m = lcp ls ?k" "m \<le> n \<Longrightarrow> pfx_assert lab (lcp ls ?k) m n"
    if "label_view lab ls rest refs" "length ls \<le> n" for lab ls rest refs
    using label_common_prefix_len_eq [OF that(1) key] view_bits [OF that(1)] lcp_le [of ls ?k] key that(2)
    by (simp_all add: pfx_assert_def)
  from rep show ?thesis
  proof cases
    case (pfx_leaf ls v refs)
    obtain lab where L: "label_of_cell (Some c) n chk_min = Inr lab" "label_view lab ls (False # v) refs" "l_bits lab = length ls"
      "length ls \<le> n" using node_cell_opened [OF pfx_leaf(2) n] .
    note C = common [OF L(2,4)]
    show ?thesis
    proof (cases "lcp ls ?k < length ls")
      case True
      show ?thesis
        by (rule miss [OF L(1-3) C True pfx_leaf(2), of "[([], v, refs)]"])
          (use pfx_leaf(1) in \<open>auto intro: pfx_rep.pfx_leaf\<close>)
    next
      case False
      then have e: "lcp ls ?k = length ls" using lcp_le(1) [of ls ?k] by simp
      then obtain k' where k': "?k = ls @ k'" using lcp_prefix [of ls ?k] by (auto simp: prefix_def)
      obtain cs where cs: "pfx_constructor lab = Inr (False, cs)" "slice_ok cs" "slice_bits cs = v" "slice_children cs = refs"
        using pfx_constructor_view [OF L(2)] by blast
      show ?thesis by (rule leaf [OF L(1-3) C [unfolded e] pfx_leaf(1) k' cs])
    qed
  next
    case (pfx_fork ls a b ea eb)
    obtain lab where L: "label_of_cell (Some c) n chk_min = Inr lab" "label_view lab ls [True] [a, b]" "l_bits lab = length ls"
      "length ls \<le> n" using node_cell_opened [OF pfx_fork(2) n] .
    note C = common [OF L(2,4)]
    show ?thesis
    proof (cases "lcp ls ?k < length ls")
      case True
      have "pfx_rep m' c' (pre ls' (pre [False] ea @ pre [True] eb))"
        if "node_cell m' c' ls' [True] [a, b]" "m' - length ls' = n - length ls" for m' c' ls'
        by (rule pfx_rep.pfx_fork [OF that(1)]) (use pfx_fork(3-5) that(2) in simp_all)
      moreover have "pre [False] ea @ pre [True] eb \<noteq> []" using pfx_rep_not_empty [OF pfx_fork(4)] by (simp add: pre_def)
      ultimately show ?thesis using miss [OF L(1-3) C True pfx_fork(2,1)] by blast
    next
      case False
      then have e: "lcp ls ?k = length ls" using lcp_le(1) [of ls ?k] by simp
      then have p: "prefix ls ?k" using lcp_prefix [of ls ?k] by simp
      have l: "length ls \<le> m" using prefix_length_le [OF p] key by simp
      obtain cs where cs: "pfx_constructor lab = Inr (True, cs)" "slice_ok cs" "slice_bits cs = []" "slice_children cs = [a, b]"
        using pfx_constructor_view [OF L(2)] by blast
      have "slice_size_refs cs = 2" using arg_cong [OF cs(4), of length] cs(2) by simp
      then have v: "pfx_valid_fork cs" using slice_size_bits [OF cs(2)] cs(3) by (simp add: pfx_valid_fork_def)
      have refs: "prefetch_ref cs 0 = Some a" "prefetch_ref cs 1 = Some b" using view_advanced_ref [OF cs(2,4)] by simp_all
      have lsb: "ptr_bits key (length ls) = ls" "ptr_ok key (length ls)"
        using ptr_bits_take [OF l, of key] l p key by (auto simp: ptr_ok_def prefix_def)
      show ?thesis by (rule fork [OF L(1-3) C [unfolded e] pfx_fork(3-5,1) cs(1) v refs p l lsb])
    qed
  qed
qed

section \<open>Looking up\<close>

text \<open>The longest part of \<open>k\<close> that a key begins with.\<close>

definition longest :: "dict_entry list \<Rightarrow> bool list \<Rightarrow> nat \<Rightarrow> bool" where
  "longest es k pos \<longleftrightarrow> (\<exists>x \<in> keys_of es. lcp x k = pos) \<and> (\<forall>x \<in> keys_of es. lcp x k \<le> pos)"

lemma lcp_same: "lcp (p @ x) (p @ y) = length p + lcp x y"
  by (induction p) simp_all

lemma lcp_off: "lcp p k < length p \<Longrightarrow> lcp (p @ x) k = lcp p k"
proof (induction p arbitrary: k)
  case (Cons b p)
  then show ?case by (cases k) (auto split: if_splits)
qed simp

lemma longest_side:
  "longest (if b then eb else ea) k pos \<Longrightarrow> longest (pre ls (pre [False] ea @ pre [True] eb)) (ls @ b # k) (length ls + 1 + pos)"
  using lcp_same [of ls _ "b # k"] by (cases b) (fastforce simp: longest_def bex_Un ball_Un)+

lemma map_of_sides_end: "map_of (pre ls (pre [False] ea @ pre [True] eb)) ls = None"
  by (auto simp: map_of_pre map_add_def)

lemma longest_end:
  assumes "ea \<noteq> []"
  shows "longest (pre ls (pre [False] ea @ pre [True] eb)) ls (length ls)"
proof -
  obtain x where "x \<in> keys_of ea" using assms by (metis keys_of_empty ex_in_conv)
  then show ?thesis using lcp_same [of ls _ "[]"] by (auto simp: longest_def bex_Un ball_Un)
qed

theorem pfx_lookup_loop_ok:
  assumes "pfx_rep n c es" and "ptr_ok key m" and "n < 2 ^ 31" and "m \<le> key_len"
  shows "\<exists>r pos. pfx_lookup_loop (Some c) key key_len m n = Inr (r, key_len - m + pos) \<and> pos \<le> m
     \<and> longest es (ptr_bits key m) pos \<and> value_of r = map_of es (take pos (ptr_bits key m)) \<and> value_ok r"
  using assms
proof (induction n arbitrary: c es key m rule: less_induct)
  case (less n)
  let ?k = "ptr_bits key m"
  have lk: "length ?k = m" using less.prems(2) by simp
  note unf = pfx_lookup_loop.simps [of "Some c"]
  from less.prems(1-3) show ?case
  proof (cases rule: pfx_rep_cases)
    case (miss lab ls rest refs es0)
    obtain x where "x \<in> keys_of es0" using miss(9) by (metis keys_of_empty ex_in_conv)
    then have "longest es ?k (lcp ls ?k)" unfolding miss(8) using lcp_off [OF miss(6)] by (auto simp: longest_def)
    moreover have "\<not> prefix ls (take (lcp ls ?k) ?k)" using miss(6) prefix_length_le [of ls "take (lcp ls ?k) ?k"] by auto
    then have "map_of es (take (lcp ls ?k) ?k) = None" unfolding miss(8) by (simp add: map_of_pre)
    moreover have "lcp ls ?k \<le> m" using lcp_le(2) [of ls ?k] lk by simp
    ultimately show ?thesis unfolding unf miss(1) bind_err_simps Let_def
      using miss(6) by (simp add: miss(3,4) value_of_def value_ok_def)
  next
    case (leaf lab ls v refs k' cs)
    have l: "length ls \<le> m" using arg_cong [OF leaf(7), of length] lk by simp
    have "longest es ?k (length ls)" using lcp_same [of ls "[]" k'] by (simp add: longest_def leaf(6,7))
    moreover have "map_of es (take (length ls) ?k) = Some (v, refs)" by (simp add: leaf(6,7))
    moreover have "key_len - (m - length ls) = key_len - m + length ls" using l less.prems(4) by simp
    ultimately show ?thesis unfolding unf leaf(1) bind_err_simps Let_def
      using l leaf(9-11) by (simp add: leaf(3,4,8) value_of_def value_ok_def)
  next
    case (fork lab ls a b ea eb cs)
    have f: "\<not> length ls < length ls" "n - length ls \<noteq> 0" using fork(6) by simp_all
    show ?thesis
    proof (cases "m = length ls")
      case True
      have k: "?k = ls" using fork(16) True by simp
      have "map_of es ls = None" unfolding fork(9) by (rule map_of_sides_end)
      moreover have "longest es ls (length ls)" unfolding fork(9) by (rule longest_end [OF pfx_rep_not_empty [OF fork(7)]])
      moreover have "pfx_lookup_loop (Some c) key key_len m n = Inr (None, key_len)"
        unfolding unf fork(1) bind_err_simps Let_def using True f by (simp add: fork(3,4) [unfolded True] fork(10,11))
      ultimately show ?thesis using True less.prems(4) k
        by (intro exI [of _ None] exI [of _ "length ls"]) (simp add: value_of_def value_ok_def)
    next
      case False
      then have lt: "length ls < m" using fork(15) by simp
      define sw where "sw = ptr_bit key (length ls)"
      define key' where "key' = ptr_add key (length ls + 1)"
      have K: "?k = ls @ sw # ptr_bits key' (m - length ls - 1)" "ptr_ok key' (m - length ls - 1)"
        using key_split [OF less.prems(2) fork(14) lt] by (simp_all add: sw_def key'_def)
      have sw: "ptr_bit (ptr_add key (length ls)) 0 = sw" "ptr_add (ptr_add key (length ls)) 1 = key'"
        by (simp_all add: sw_def key'_def ptr_bit_def ptr_add_def)
      have refs: "prefetch_ref cs (of_bool sw) = Some (if sw then b else a)" using fork(12,13) by (cases sw) simp_all
      have run: "pfx_lookup_loop (Some c) key key_len m n =
          pfx_lookup_loop (Some (if sw then b else a)) key' key_len (m - length ls - 1) (n - length ls - 1)"
        unfolding unf fork(1) bind_err_simps Let_def
        using lt f by (simp add: fork(3,4,10,11) sw [simplified] refs)
      have "n - length ls - 1 < n" "pfx_rep (n - length ls - 1) (if sw then b else a) (if sw then eb else ea)"
        "n - length ls - 1 < 2 ^ 31" "m - length ls - 1 \<le> key_len"
        using fork(6-8) less.prems(3,4) by simp_all
      from less.IH [OF this(1,2) K(2) this(3,4)] obtain r pos where
        I: "pfx_lookup_loop (Some c) key key_len m n = Inr (r, key_len - (m - length ls - 1) + pos)" "pos \<le> m - length ls - 1"
          "longest (if sw then eb else ea) (ptr_bits key' (m - length ls - 1)) pos"
          "value_of r = map_of (if sw then eb else ea) (take pos (ptr_bits key' (m - length ls - 1)))" "value_ok r"
        unfolding run by blast
      have "key_len - (m - length ls - 1) + pos = key_len - m + (length ls + 1 + pos)" "length ls + 1 + pos \<le> m"
        using lt less.prems(4) I(2) by simp_all
      moreover have "map_of es (take (length ls + 1 + pos) ?k) = value_of r"
        unfolding K(1) fork(9) I(4) by (simp add: map_of_node [simplified])
      moreover have "longest es ?k (length ls + 1 + pos)" unfolding K(1) fork(9) by (rule longest_side [OF I(3)])
      ultimately show ?thesis using I(1,5) by (intro exI [of _ r] exI [of _ "length ls + 1 + pos"]) simp
    qed
  qed
qed

end
