(* ===== verification/Pfx_Change.thy ===== *)
theory Pfx_Change
  imports Pfx_Dict
begin

unbundle bit_operations_syntax

text \<open>
  Storing in and deleting from prefix code dictionaries, \<open>pfx_dict_set\<close> and \<open>pfx_dict_lookup_delete\<close> of
  \<open>crypto/vm/dict.cpp\<close>: a key is refused when another key is a prefix of it or begins with it, so
  that the keys stay free of prefixes.
\<close>

section \<open>Nodes that are built\<close>

lemma append_label_coded:
  assumes f: "fresh cb" and p: "ptr_ok key len" and len: "len \<le> n" and n: "n < 2 ^ 31"
  shows "dict_ok (\<lambda>cb'. node_coded cb' n (ptr_bits key len) [] []) (append_dict_label cb key len n)"
  by (rule dict_ok_mono [OF append_dict_label_ok [OF f p len n]]) (use node_built_coded p len n in simp)

lemma store_tag_ok:
  assumes b: "node_coded cb n ls [] []"
  shows "dict_ok (\<lambda>cb'. node_coded cb' n ls [b] []) (build (store_long cb (of_bool b) 1))"
proof (cases "store_long cb (of_bool b) 1")
  case (Inr cb')
  have "low_bits 1 (of_bool b :: u64) = [b]" by (cases b) (simp_all add: low_bits_def)
  then have "appends_or_throws cb [b] [] (store_long cb (of_bool b) 1)"
    using store_long_appends [of cb 1 "of_bool b"] b by (simp add: node_coded_def)
  then have "builder_ok cb'" "builder_out cb' = builder_out cb @ [b]" "b_refs cb' = b_refs cb"
    by (auto simp: Inr [simplified] appends_or_throws_def appends_def)
  then show ?thesis unfolding Inr using b by (simp add: node_coded_def)
qed (simp add: dict_ok_def)

lemma store_tag_values:
  assumes b: "node_coded cb n ls [] []"
  shows "dict_ok (\<lambda>cb'. node_coded cb' n ls [False] []) (build (store_long cb 0 1))"
    and "dict_ok (\<lambda>cb'. node_coded cb' n ls [True] []) (build (store_long cb 1 1))"
  using store_tag_ok [OF b, of False] store_tag_ok [OF b, of True] by simp_all

lemma create_pfx_fork_cell:
  assumes f: "fresh cb" and p: "ptr_ok key len" and len: "len \<le> n" and n: "n < 2 ^ 31"
    and wf: "wf_cell a" "wf_cell b" and sha: "\<And>x. length (sha256 x) = hash_bytes"
  shows "dict_ok (\<lambda>c. node_cell n c (ptr_bits key len) [True] [a, b]) (create_pfx_fork sha256 cb key len n (Some a) (Some b))"
  unfolding create_pfx_fork_def
proof (rule dict_ok_bind [OF append_label_coded [OF f p len n]])
  fix cb1 assume b1: "node_coded cb1 n (ptr_bits key len) [] []"
  show "dict_ok (\<lambda>c. node_cell n c (ptr_bits key len) [True] [a, b])
     (bind_err (build (store_long cb1 1 1)) (\<lambda>cb. bind_err (store_two_refs cb (Some a) (Some b))
        (\<lambda>cb. bind_err (dict_finalize sha256 cb) (\<lambda>(c, cb). Inr c))))"
  proof (rule dict_ok_bind [OF store_tag_values(2) [OF b1]])
    fix cb2 assume b2: "node_coded cb2 n (ptr_bits key len) [True] []"
    show "dict_ok (\<lambda>c. node_cell n c (ptr_bits key len) [True] [a, b])
       (bind_err (store_two_refs cb2 (Some a) (Some b)) (\<lambda>cb. bind_err (dict_finalize sha256 cb) (\<lambda>(c, cb). Inr c)))"
    proof (rule dict_ok_bind [OF store_two_refs_ok [OF b2]])
      fix cb3 assume b3: "node_coded cb3 n (ptr_bits key len) [True] [a, b]"
      have wf': "\<forall>r \<in> set [a, b]. wf_cell r" using wf by simp
      show "dict_ok (\<lambda>c. node_cell n c (ptr_bits key len) [True] [a, b]) (bind_err (dict_finalize sha256 cb3) (\<lambda>(c, cb). Inr c))"
        by (rule dict_ok_bind [OF finalize_node_cell [OF b3 sha wf']]) auto
    qed
  qed
qed

lemma pfx_rep_wf: "pfx_rep n c es \<Longrightarrow> wf_cell c"
  by (erule pfx_rep.cases) (auto simp: node_cell_def ordinary_def)

lemma create_pfx_fork_ok:
  assumes f: "fresh cb" and p: "ptr_ok key len" and len: "len < n" and n: "n < 2 ^ 31"
    and a: "pfx_rep (n - len - 1) a ea" and b: "pfx_rep (n - len - 1) b eb" and sha: "\<And>x. length (sha256 x) = hash_bytes"
  shows "dict_ok (\<lambda>c. pfx_rep n c (pre (ptr_bits key len) (pre [False] ea @ pre [True] eb)))
     (create_pfx_fork sha256 cb key len n (Some a) (Some b))"
proof (rule dict_ok_mono [OF create_pfx_fork_cell [OF f p less_imp_le [OF len] n pfx_rep_wf [OF a] pfx_rep_wf [OF b] sha]])
  fix c assume "node_cell n c (ptr_bits key len) [True] [a, b]"
  then show "pfx_rep n c (pre (ptr_bits key len) (pre [False] ea @ pre [True] eb))"
    by (rule pfx_rep.pfx_fork) (use p len a b in simp_all)
qed

context value_store
begin

lemma create_pfx_leaf_ok:
  assumes v: "vok v" and f: "fresh cb" and p: "ptr_ok key m" and m: "m \<le> n" and n: "n < 2 ^ 31"
    and sha: "\<And>x. length (sha256 x) = hash_bytes"
  shows "dict_ok (\<lambda>(c, cb'). pfx_rep n c [(ptr_bits key m, vbits v, vrefs v)] \<and> fresh cb')
     (create_pfx_leaf sha256 cb key m n (put v))"
  unfolding create_pfx_leaf_def
proof (rule dict_ok_bind [OF append_label_coded [OF f p m n]])
  fix cb1 assume b1: "node_coded cb1 n (ptr_bits key m) [] []"
  let ?P = "\<lambda>(c, cb'). pfx_rep n c [(ptr_bits key m, vbits v, vrefs v)] \<and> fresh cb'"
  show "dict_ok ?P (bind_err (build (store_long cb1 0 1)) (\<lambda>cb. bind_err (or_throw Excno_cell_ov (put v cb)) (dict_finalize sha256)))"
  proof (rule dict_ok_bind [OF store_tag_values(1) [OF b1]])
    fix cb2 assume b2: "node_coded cb2 n (ptr_bits key m) [False] []"
    show "dict_ok ?P (bind_err (or_throw Excno_cell_ov (put v cb2)) (dict_finalize sha256))"
    proof (rule dict_ok_bind [OF add_more_ok [OF b2 put_appends [OF v]]], assumption)
      fix cb3 assume "node_coded cb3 n (ptr_bits key m) ([False] @ vbits v) ([] @ vrefs v)"
      then have b3: "node_coded cb3 n (ptr_bits key m) (False # vbits v) (vrefs v)" by simp
      show "dict_ok ?P (dict_finalize sha256 cb3)"
        by (rule dict_ok_mono [OF finalize_node_cell [OF b3 sha]]) (use vrefs_wf [OF v] in \<open>auto intro: pfx_leaf\<close>)
    qed
  qed
qed

end

section \<open>Storing\<close>

definition pfx_set_result :: "set_mode \<Rightarrow> nat \<Rightarrow> dict_entry list \<Rightarrow> bool list \<Rightarrow> dict_val \<Rightarrow> cell option \<times> bool \<Rightarrow> bool" where
  "pfx_set_result mode n es k v r \<longleftrightarrow>
     (if length k > n \<or> clashes es k \<or> mode = Mode_Replace \<and> map_of es k = None \<or> mode = Mode_Add \<and> map_of es k \<noteq> None
      then r = (None, False)
      else snd r \<and> (\<exists>c es'. fst r = Some c \<and> pfx_rep n c es' \<and> map_of es' = (map_of es)(k \<mapsto> v)))"

context value_store
begin

lemma insert_pfx_fork_ok:
  assumes v: "vok v" and lv: "label_view lab ls rest cs" and c: "node_cell n c ls rest cs" and key: "ptr_ok key m" and m: "m \<le> n"
    and n: "n < 2 ^ 31" and j: "lcp ls (ptr_bits key m) < length ls" "lcp ls (ptr_bits key m) \<noteq> m"
    and up: "\<And>c' ls' m'. node_cell m' c' ls' rest cs \<Longrightarrow> m' - length ls' = n - length ls \<Longrightarrow> pfx_rep m' c' (pre ls' es)"
    and sha: "\<And>x. length (sha256 x) = hash_bytes"
  shows "dict_ok (\<lambda>c. \<exists>es'. pfx_rep n c es' \<and> map_of es' = (map_of (pre ls es))(ptr_bits key m \<mapsto> (vbits v, vrefs v)))
     (insert_pfx_fork sha256 lab key m n (lcp ls (ptr_bits key m)) (put v))"
proof -
  define k where "k = ptr_bits key m"
  define j where "j = lcp ls k"
  define q where "q = n - j - 1"
  define b where "b = k ! j"
  have lk: "length k = m" using key by (simp add: k_def)
  have ln: "length ls \<le> n" "\<forall>r \<in> set cs. wf_cell r"
    using node_cell_label(2,3) [OF c n, of chk_min] by (simp_all add: bad_fork_def)
  have jl: "j < length ls" "j < m" using assms(7,8) lcp_le(2) [of ls k] lk by (simp_all add: j_def k_def)
  note S = lcp_split [OF j_def [symmetric] jl(1), unfolded lk, OF jl(2), folded b_def]
  have kk: "ptr_ok (ptr_add key (j + 1)) (m - j - 1)" using jl key by (simp add: ptr_ok_def ptr_add_def)
  have kd: "ptr_bits (ptr_add key (j + 1)) (m - j - 1) = drop (j + 1) k"
    using ptr_bits_drop [of "j + 1" m key] jl by (simp add: k_def)
  have kj: "ptr_ok key j" "ptr_bits key j = take j k" using jl key ptr_bits_take [of j m key]
    by (simp_all add: ptr_ok_def k_def)
  have bit: "ptr_bit key j = b" using ptr_bit_nth [OF key jl(2)] by (simp add: b_def k_def)
  have none: "map_of (pre ls es) k = None" using S(3) by (simp add: map_of_pre)
  have q: "q < 2 ^ 31" "m - j - 1 \<le> q" "j < n" using n m jl by (simp_all add: q_def)
  let ?new = "[(drop (j + 1) k, vbits v, vrefs v)]" and ?old = "pre (drop (j + 1) ls) es"
  have new: "pre (take j k @ [b]) ?new = [(k, vbits v, vrefs v)]" using S(1) by simp
  have old: "pre (take j k @ [\<not> b]) ?old = pre ls es" using S(2) by simp
  have upd: "map_of (pre (take j k) (pre [False] (if b then ?old else ?new) @ pre [True] (if b then ?new else ?old)))
      = (map_of (pre ls es))(k \<mapsto> (vbits v, vrefs v))"
    using new old map_of_snoc_new [OF none] by (cases b) simp_all
  let ?P = "\<lambda>c. \<exists>es'. pfx_rep n c es' \<and> map_of es' = (map_of (pre ls es))(k \<mapsto> (vbits v, vrefs v))"
  have qe: "n - (j + 1) = q" "m - (j + 1) = m - j - 1" by (simp_all add: q_def)
  show ?thesis
    unfolding insert_pfx_fork_def Let_def j_def [symmetric] k_def [symmetric] qe
  proof (rule dict_ok_bind [OF create_pfx_leaf_ok [OF v fresh_empty kk q(2,1) sha, unfolded kd]])
    fix x1 assume "case x1 of (c, cb') \<Rightarrow> pfx_rep q c ?new \<and> fresh cb'"
    then obtain c1 cb1 where x1: "x1 = (c1, cb1)" "pfx_rep q c1 ?new" "fresh cb1" by (cases x1) auto
    show "dict_ok ?P
       (case x1 of (c1, cb) \<Rightarrow> bind_err (lower_edge sha256 cb lab j q) (\<lambda>(c2, cb).
          case if ptr_bit key j then (c2, c1) else (c1, c2) of
            (c1, c2) \<Rightarrow> create_pfx_fork sha256 cb key j n (Some c1) (Some c2)))"
      unfolding x1 prod.case
    proof (rule dict_ok_bind [OF lower_edge_cell [OF lv jl(1) ln(1) n x1(3) ln(2) sha, folded q_def]])
      fix x2 assume "case x2 of (c, cb') \<Rightarrow> node_cell q c (drop (j + 1) ls) rest cs \<and> fresh cb'"
      then obtain c2 cb2 where x2: "x2 = (c2, cb2)" "node_cell q c2 (drop (j + 1) ls) rest cs" "fresh cb2" by (cases x2) auto
      have "q - length (drop (j + 1) ls) = n - length ls" using jl ln(1) by (simp add: q_def)
      note c2 = up [OF x2(2) this]
      have l: "pfx_rep (n - j - 1) (if b then c2 else c1) (if b then ?old else ?new)"
        and r: "pfx_rep (n - j - 1) (if b then c1 else c2) (if b then ?new else ?old)"
        using x1(2) c2 unfolding q_def [symmetric] by simp_all
      have "dict_ok (\<lambda>c. pfx_rep n c (pre (take j k) (pre [False] (if b then ?old else ?new) @ pre [True] (if b then ?new else ?old))))
          (create_pfx_fork sha256 cb2 key j n (Some (if b then c2 else c1)) (Some (if b then c1 else c2)))"
        using create_pfx_fork_ok [OF x2(3) kj(1) q(3) n l r sha] unfolding kj(2) .
      then have "dict_ok ?P (create_pfx_fork sha256 cb2 key j n (Some (if b then c2 else c1)) (Some (if b then c1 else c2)))"
        by (rule dict_ok_mono) (use upd in blast)
      then show "dict_ok ?P (case x2 of (c2, cb) \<Rightarrow>
          case if ptr_bit key j then (c2, c1) else (c1, c2) of
            (c1, c2) \<Rightarrow> create_pfx_fork sha256 cb key j n (Some c1) (Some c2))"
        unfolding x2 prod.case bit by (cases b) simp_all
    qed
  qed
qed

theorem pfx_dict_set_ok:
  assumes "vok v" and "pfx_rep_opt n dict es" and "ptr_ok key m" and "n < 2 ^ 31"
    and sha: "\<And>x. length (sha256 x) = hash_bytes"
  shows "dict_ok (pfx_set_result mode n es (ptr_bits key m) (vbits v, vrefs v)) (pfx_dict_set sha256 dict key m n (put v) mode)"
  using assms(1-4)
proof (induction n arbitrary: dict es key m rule: less_induct)
  case (less n)
  let ?k = "ptr_bits key m" and ?v = "(vbits v, vrefs v)"
  let ?P = "pfx_set_result mode n es ?k ?v"
  have lk: "length ?k = m" using less.prems(3) by simp
  show ?case
  proof (cases "m > n")
    case True
    then show ?thesis using lk by (simp add: pfx_dict_set.simps [of sha256 dict] pfx_set_result_def)
  next
    case False
    then have m: "m \<le> n" and nm: "\<not> m > n" by simp_all
    have leaf_ok: "dict_ok ?P (bind_err (create_pfx_leaf sha256 empty_builder key m n (put v)) (\<lambda>(c, cb). Inr (Some c, True)))"
      if "\<not> (clashes es ?k \<or> mode = Mode_Replace \<and> map_of es ?k = None \<or> mode = Mode_Add \<and> map_of es ?k \<noteq> None)"
        and "map_of [(?k, ?v)] = (map_of es)(?k \<mapsto> ?v)"
    proof (rule dict_ok_bind [OF create_pfx_leaf_ok [OF less.prems(1) fresh_empty less.prems(3) m less.prems(4) sha]])
      fix x assume "case x of (c, cb) \<Rightarrow> pfx_rep n c [(?k, vbits v, vrefs v)] \<and> fresh cb"
      then obtain c cb where x: "x = (c, cb)" "pfx_rep n c [(?k, ?v)]" by (cases x) auto
      then have "\<exists>es'. pfx_rep n c es' \<and> map_of es' = (map_of es)(?k \<mapsto> ?v)" using that(2) by blast
      then show "dict_ok ?P (case x of (c, cb) \<Rightarrow> Inr (Some c, True))" using that(1) m lk by (simp add: x(1) pfx_set_result_def)
    qed
    show ?thesis
    proof (cases dict)
      case None
      then have es: "es = []" using less.prems(2) by (simp add: pfx_rep_opt_def)
      have nc: "\<not> clashes es ?k" by (simp add: clashes_def es)
      show ?thesis
      proof (cases "mode = Mode_Replace")
        case True
        then show ?thesis using m by (simp add: None pfx_dict_set.simps [of sha256 None] pfx_set_result_def es)
      next
        case nr: False
        show ?thesis using leaf_ok nc nr m by (simp add: None pfx_dict_set.simps [of sha256 None] es)
      qed
    next
      case (Some c)
      have rep: "pfx_rep n c es" using less.prems(2) by (simp add: Some pfx_rep_opt_def)
      have ne: "Some c \<noteq> None" by simp
      note unf = pfx_dict_set.simps [of sha256 "Some c" key m n, unfolded if_not_P [OF nm] if_not_P [OF ne]]
      from rep less.prems(3,4) show ?thesis
      proof (cases rule: pfx_rep_cases)
        case (miss lab ls rest refs es0)
        have cl: "clashes es ?k \<longleftrightarrow> lcp ls ?k = m" unfolding miss(8) clashes_label [OF miss(9,6)] lk ..
        have none: "map_of es ?k = None" using miss(6) lcp_prefix [of ls ?k] by (simp add: miss(8) map_of_pre)
        have a: "\<not> \<not> pfx_assert lab (lcp ls ?k) m n" using miss(5) m by simp
        show ?thesis
        proof (cases "lcp ls ?k = m \<or> mode = Mode_Replace")
          case True
          then have "?P (None, False)" using cl none by (auto simp: pfx_set_result_def)
          then show ?thesis unfolding Some unf miss(1) bind_err_simps Let_def miss(3,4) if_not_P [OF a] if_P [OF miss(6)] if_P [OF True]
            by simp
        next
          case False
          then have j: "lcp ls ?k \<noteq> m" by simp
          have "dict_ok ?P (bind_err (insert_pfx_fork sha256 lab key m n (lcp ls ?k) (put v)) (\<lambda>c. Inr (Some c, True)))"
            by (rule dict_ok_bind [OF insert_pfx_fork_ok [OF less.prems(1) miss(2,7) less.prems(3) m less.prems(4) miss(6) j miss(10) sha]])
              (use False cl none m lk miss(8) in \<open>auto simp: pfx_set_result_def\<close>)
          then show ?thesis unfolding Some unf miss(1) bind_err_simps Let_def miss(3,4) if_not_P [OF a] if_P [OF miss(6)] if_not_P [OF False] .
        qed
      next
        case (leaf lab ls v' refs k' cs)
        have a: "\<not> \<not> pfx_assert lab (length ls) m n" using leaf(5) m by simp
        have lm: "length ls + length k' = m" using arg_cong [OF leaf(7), of length] lk by simp
        have cl: "clashes es ?k \<longleftrightarrow> length ls \<noteq> m" unfolding leaf(6,7) using lm by (auto simp: clashes_def)
        have fnd: "map_of es ?k \<noteq> None \<longleftrightarrow> length ls = m" unfolding leaf(6,7) using lm by auto
        have ll: "\<not> length ls < length ls" by simp
        note run = unf [unfolded leaf(1) bind_err_simps Let_def leaf(3,4) if_not_P [OF a] if_not_P [OF ll] leaf(8) prod.case not_False_eq_True if_True]
        show ?thesis
        proof (cases "length ls \<noteq> m \<or> mode = Mode_Add")
          case True
          then have "?P (None, False)" using cl fnd by (auto simp: pfx_set_result_def)
          then show ?thesis unfolding Some run if_P [OF True] by simp
        next
          case False
          then have "k' = []" using lm by simp
          then have "map_of [(?k, ?v)] = (map_of es)(?k \<mapsto> ?v)" unfolding leaf(6,7) by auto
          then show ?thesis unfolding Some run if_not_P [OF False] using leaf_ok False cl fnd by blast
        qed
      next
        case (fork lab ls a b ea eb cs)
        have as: "\<not> \<not> pfx_assert lab (length ls) m n" using fork(5) m by simp
        have ll: "\<not> length ls < length ls" and vf: "\<not> \<not> pfx_valid_fork cs" using fork(11) by simp_all
        note run = unf [unfolded fork(1) bind_err_simps Let_def fork(3,4) if_not_P [OF as] if_not_P [OF ll] fork(10) prod.case
            not_True_eq_False if_False if_not_P [OF vf] fork(12,13)]
        show ?thesis
        proof (cases "m = length ls")
          case True
          then have k: "?k = ls" using fork(16) by simp
          obtain x where "x \<in> keys_of ea" using pfx_rep_not_empty [OF fork(7)] by (metis keys_of_empty ex_in_conv)
          then have "clashes es ?k" unfolding k fork(9) by (auto simp: clashes_def bex_Un)
          then show ?thesis unfolding Some run if_P [OF True] by (simp add: pfx_set_result_def)
        next
          case ne: False
          then have lt: "length ls < m" using fork(15) by simp
          define right where "right = ptr_bit key (length ls)"
          define key' where "key' = ptr_add key (length ls + 1)"
          define m' where "m' = m - length ls - 1"
          define n' where "n' = n - length ls - 1"
          define k' where "k' = ptr_bits key' m'"
          have K: "?k = ls @ right # k'" "ptr_ok key' m'"
            using key_split [OF less.prems(3) fork(14) lt] by (simp_all add: right_def key'_def m'_def k'_def)
          have mp: "map_of es ?k = map_of (if right then eb else ea) k'" unfolding K(1) fork(9) by (rule map_of_node)
          have cl: "clashes es ?k = clashes (if right then eb else ea) k'" unfolding K(1) fork(9) by (rule clashes_side)
          have lk': "length k' > n' \<longleftrightarrow> length ?k > n" using K(2) lt lk fork(6) by (simp add: m'_def n'_def k'_def) arith
          have mn: "n' < n" "n' < 2 ^ 31" using fork(6) less.prems(4) by (simp_all add: n'_def)
          have "pfx_rep_opt n' (Some (if right then b else a)) (if right then eb else ea)"
            using fork(7,8) by (simp add: pfx_rep_opt_def n'_def)
          note IH = less.IH [OF mn(1) less.prems(1) this K(2) mn(2), folded k'_def]
          show ?thesis
            unfolding Some run if_not_P [OF ne] right_def [symmetric] key'_def [symmetric] m'_def [symmetric] n'_def [symmetric] if_Some
          proof (rule dict_ok_bind [OF IH])
            fix x assume x: "pfx_set_result mode n' (if right then eb else ea) k' ?v x"
            show "dict_ok ?P (case x of (res, changed) \<Rightarrow>
                if \<not> changed then Inr (None, False)
                else case if right then (Some a, res) else (res, Some b) of
                  (c1, c2) \<Rightarrow> bind_err (create_pfx_fork sha256 empty_builder key (length ls) n c1 c2) (\<lambda>c. Inr (Some c, True)))"
            proof (cases "length ?k > n \<or> clashes es ?k \<or> mode = Mode_Replace \<and> map_of es ?k = None \<or> mode = Mode_Add \<and> map_of es ?k \<noteq> None")
              case True
              then have "x = (None, False)" using x by (simp add: pfx_set_result_def mp cl lk')
              then show ?thesis using True by (simp add: pfx_set_result_def)
            next
              case nf: False
              then obtain c' e' where x': "x = (Some c', True)" "pfx_rep n' c' e'"
                "map_of e' = (map_of (if right then eb else ea))(k' \<mapsto> ?v)"
                using x by (cases x) (auto simp: pfx_set_result_def mp cl lk')
              have l: "pfx_rep (n - length ls - 1) (if right then a else c') (if right then ea else e')"
                and r: "pfx_rep (n - length ls - 1) (if right then c' else b) (if right then e' else eb)"
                using fork(7,8) x'(2) by (simp_all add: n'_def)
              have upd: "map_of (pre ls (pre [False] (if right then ea else e') @ pre [True] (if right then e' else eb)))
                  = (map_of es)(?k \<mapsto> ?v)"
                unfolding K(1) fork(9) by (rule map_of_node_upd [OF x'(3)])
              show ?thesis
                unfolding x'(1) prod.case if_False not_True_eq_False if_pair_swap if_Some
                by (rule dict_ok_bind [OF create_pfx_fork_ok [OF fresh_empty fork(17,6) less.prems(4) l r sha, unfolded fork(16)]])
                  (use nf upd in \<open>auto simp: pfx_set_result_def\<close>)
            qed
          qed
        qed
      qed
    qed
  qed
qed

end

section \<open>Deleting\<close>

text \<open>A node built again with another label and the same content.\<close>

lemma pfx_rep_node:
  assumes "pfx_rep n c es"
  obtains ls rest refs es0 where "node_cell n c ls rest refs" "es = pre ls es0"
    "\<And>m c' ls'. node_cell m c' ls' rest refs \<Longrightarrow> m - length ls' = n - length ls \<Longrightarrow> pfx_rep m c' (pre ls' es0)"
  using assms
proof cases
  case (pfx_leaf ls v refs)
  show ?thesis by (rule that [OF pfx_leaf(2), of "[([], v, refs)]"]) (use pfx_leaf(1) in \<open>auto intro: pfx_rep.pfx_leaf\<close>)
next
  case (pfx_fork ls a b ea eb)
  show ?thesis
  proof (rule that [OF pfx_fork(2,1)])
    fix m c' ls' assume "node_cell m c' ls' [True] [a, b]" "m - length ls' = n - length ls"
    then show "pfx_rep m c' (pre ls' (pre [False] ea @ pre [True] eb))"
      by (intro pfx_rep.pfx_fork) (use pfx_fork(3-5) in simp_all)
  qed
qed

lemma pfx_merge_ok:
  assumes c: "pfx_rep (n - len - 1) c ec" and len: "len < n" and n: "n \<le> max_key_bits" and key: "ptr_ok key len"
    and sha: "\<And>x. length (sha256 x) = hash_bytes"
  shows "dict_ok (\<lambda>c'. pfx_rep n c' (pre (ptr_bits key len @ [bit_val]) ec)) (merge_edge sha256 key len bit_val (Some c) n chk_min)"
proof -
  obtain ls rest refs e0 where N: "node_cell (n - len - 1) c ls rest refs" "ec = pre ls e0"
    "\<And>m c' ls'. node_cell m c' ls' rest refs \<Longrightarrow> m - length ls' = n - len - 1 - length ls \<Longrightarrow> pfx_rep m c' (pre ls' e0)"
    by (rule pfx_rep_node [OF c]) blast
  have f: "\<not> bad_fork chk_min (n - len - 1) ls rest refs" "chk_min \<noteq> 0" by (simp_all add: bad_fork_def)
  have l: "n - length (ptr_bits key len @ bit_val # ls) = n - len - 1 - length ls" using key by simp
  show ?thesis
    by (rule dict_ok_mono [OF merge_edge_cell [OF N(1) f(1) len n key sha f(2)]]) (use N(3) [OF _ l] in \<open>simp add: N(2)\<close>)
qed

definition pfx_delete_result :: "nat \<Rightarrow> dict_entry list \<Rightarrow> bool list \<Rightarrow> slice option \<times> cell option \<Rightarrow> bool" where
  "pfx_delete_result n es k r \<longleftrightarrow>
     value_of (fst r) = map_of es k \<and> value_ok (fst r)
     \<and> (if map_of es k = None then snd r = None
        else \<exists>es'. pfx_rep_opt n (snd r) es' \<and> map_of es' = (map_of es)(k := None))"

theorem pfx_dict_lookup_delete_ok:
  assumes "pfx_rep_opt n dict es" and "ptr_ok key m" and "m \<le> n" and "n \<le> max_key_bits"
    and sha: "\<And>x. length (sha256 x) = hash_bytes"
  shows "dict_ok (pfx_delete_result n es (ptr_bits key m)) (pfx_dict_lookup_delete sha256 dict key m n)"
  using assms(1-4)
proof (induction n arbitrary: dict es key m rule: less_induct)
  case (less n)
  let ?k = "ptr_bits key m"
  let ?P = "pfx_delete_result n es ?k"
  have lk: "length ?k = m" and n31: "n < 2 ^ 31" using less.prems(2,4) by simp_all
  have missing: "?P (None, None)" if "map_of es ?k = None"
    using that by (simp add: pfx_delete_result_def value_of_def value_ok_def)
  show ?case
  proof (cases dict)
    case None
    then have "es = []" using less.prems(1) by (simp add: pfx_rep_opt_def)
    then show ?thesis using missing by (simp add: None pfx_dict_lookup_delete.simps [of sha256 None])
  next
    case (Some c)
    have rep: "pfx_rep n c es" using less.prems(1) by (simp add: Some pfx_rep_opt_def)
    have ne: "Some c \<noteq> None" by simp
    note unf = pfx_dict_lookup_delete.simps [of sha256 "Some c" key m n, unfolded if_not_P [OF ne]]
    from rep less.prems(2) n31 show ?thesis
    proof (cases rule: pfx_rep_cases)
      case (miss lab ls rest refs es0)
      have none: "map_of es ?k = None" using miss(6) lcp_prefix [of ls ?k] by (simp add: miss(8) map_of_pre)
      have a: "\<not> \<not> pfx_assert lab (lcp ls ?k) m n" using miss(5) less.prems(3) by simp
      show ?thesis unfolding Some unf miss(1) bind_err_simps Let_def miss(3,4) if_not_P [OF a] if_P [OF miss(6)]
        using missing [OF none] by simp
    next
      case (leaf lab ls v refs k' cs)
      have a: "\<not> \<not> pfx_assert lab (length ls) m n" using leaf(5) less.prems(3) by simp
      have ll: "\<not> length ls < length ls" by simp
      have lm: "length ls + length k' = m" using arg_cong [OF leaf(7), of length] lk by simp
      note run = unf [unfolded leaf(1) bind_err_simps Let_def leaf(3,4) if_not_P [OF a] if_not_P [OF ll] leaf(8) prod.case not_False_eq_True if_True]
      show ?thesis
      proof (cases "length ls < m")
        case True
        then have "map_of es ?k = None" unfolding leaf(6,7) using lm by auto
        then show ?thesis unfolding Some run if_P [OF True] using missing by simp
      next
        case False
        then have "length k' = 0" using lm by linarith
        then have k: "?k = ls" using leaf(7) by simp
        have "map_of [] = (map_of es)(?k := None)" by (rule ext) (simp add: k leaf(6))
        then show ?thesis unfolding Some run if_not_P [OF False] using leaf(6,9-11) k
          by (auto simp: pfx_delete_result_def value_of_def value_ok_def pfx_rep_opt_def)
      qed
    next
      case (fork lab ls a b ea eb cs)
      have as: "\<not> \<not> pfx_assert lab (length ls) m n" using fork(5) less.prems(3) by simp
      have ll: "\<not> length ls < length ls" and vf: "\<not> \<not> pfx_valid_fork cs" using fork(11) by simp_all
      note run = unf [unfolded fork(1) bind_err_simps Let_def fork(3,4) if_not_P [OF as] if_not_P [OF ll] fork(10) prod.case
          not_True_eq_False if_False if_not_P [OF vf] fork(12,13)]
      show ?thesis
      proof (cases "length ls = m")
        case True
        then have "?k = ls" using fork(16) by simp
        then have "map_of es ?k = None" unfolding fork(9) using map_of_sides_end by simp
        then show ?thesis unfolding Some run if_P [OF True] using missing by simp
      next
        case nl: False
        then have lt: "length ls < m" using fork(15) by simp
        define right where "right = ptr_bit key (length ls)"
        define key' where "key' = ptr_add key (length ls + 1)"
        define m' where "m' = m - length ls - 1"
        define n' where "n' = n - length ls - 1"
        define k' where "k' = ptr_bits key' m'"
        have K: "?k = ls @ right # k'" "ptr_ok key' m'"
          using key_split [OF less.prems(2) fork(14) lt] by (simp_all add: right_def key'_def m'_def k'_def)
        have mp: "map_of es ?k = map_of (if right then eb else ea) k'" unfolding K(1) fork(9) by (rule map_of_node)
        have mn: "n' < n" "m' \<le> n'" "n' \<le> max_key_bits" using fork(6) less.prems(3,4) by (simp_all add: n'_def m'_def)
        have "pfx_rep_opt n' (Some (if right then b else a)) (if right then eb else ea)"
          using fork(7,8) by (simp add: pfx_rep_opt_def n'_def)
        note IH = less.IH [OF mn(1) this K(2) mn(2,3), folded k'_def]
        show ?thesis
          unfolding Some run if_not_P [OF nl] right_def [symmetric] key'_def [symmetric] m'_def [symmetric] n'_def [symmetric] if_Some
        proof (rule dict_ok_bind [OF IH])
          fix x assume x: "pfx_delete_result n' (if right then eb else ea) k' x"
          obtain old res where xe: "x = (old, res)" by fastforce
          note D = x [unfolded xe pfx_delete_result_def fst_conv snd_conv]
          show "dict_ok ?P (case x of (old_val, res) \<Rightarrow>
              if old_val = None then Inr (None, None)
              else case if right then (Some a, res) else (res, Some b) of
                (c1, c2) \<Rightarrow>
                  if c1 \<noteq> None \<and> c2 \<noteq> None
                  then bind_err (create_pfx_fork sha256 empty_builder key (length ls) n c1 c2) (\<lambda>c. Inr (old_val, Some c))
                  else case if \<not> right then (c2, c1) else (c1, c2) of
                     (c1, c2) \<Rightarrow> if c1 = None \<or> c2 \<noteq> None then Inl Assertion
                       else bind_err (merge_edge sha256 key (length ls) (\<not> right) c1 n chk_min) (\<lambda>c. Inr (old_val, Some c)))"
          proof (cases old)
            case None
            then have "map_of es ?k = None" using D by (simp add: mp value_of_def)
            then show ?thesis using missing by (simp add: xe None)
          next
            case (Some s)
            have old: "value_of old = map_of es ?k" "value_ok old" "old \<noteq> None" "map_of es ?k \<noteq> None"
              using D Some by (simp_all add: mp value_of_def) metis
            obtain e' where e': "pfx_rep_opt n' res e'" "map_of e' = (map_of (if right then eb else ea))(k' := None)"
              using D old(4) by (auto simp: mp)
            have upd: "map_of (pre ls (pre [False] (if right then ea else e') @ pre [True] (if right then e' else eb)))
                = (map_of es)(?k := None)"
              unfolding K(1) fork(9) by (rule map_of_node_del [OF e'(2)])
            have result: "dict_ok ?P (bind_err r (\<lambda>c. Inr (old, Some c)))"
              if r: "dict_ok (\<lambda>c. pfx_rep n c E) r" and E: "map_of E = (map_of es)(?k := None)" for r E
              by (rule dict_ok_bind [OF r]) (use old E in \<open>auto simp: pfx_delete_result_def pfx_rep_opt_def\<close>)
            show ?thesis
            proof (cases res)
              case None
              have "e' = []" using e'(1) by (simp add: None pfx_rep_opt_def)
              then have E: "map_of (pre (ls @ [\<not> right]) (if right then ea else eb)) = (map_of es)(?k := None)"
                using upd by (cases right) simp_all
              have "pfx_rep (n - length ls - 1) (if right then a else b) (if right then ea else eb)" using fork(7,8) by simp
              from result [OF pfx_merge_ok [OF this fork(6) less.prems(4) fork(17) sha, of "\<not> right", unfolded fork(16)] E]
              show ?thesis using old(3) by (cases right) (auto simp: xe None)
            next
              case (Some c')
              have l: "pfx_rep (n - length ls - 1) (if right then a else c') (if right then ea else e')"
                and r: "pfx_rep (n - length ls - 1) (if right then c' else b) (if right then e' else eb)"
                using fork(7,8) e'(1) by (simp_all add: n'_def Some pfx_rep_opt_def)
              note result [OF create_pfx_fork_ok [OF fresh_empty fork(17,6) n31 l r sha, unfolded fork(16)] upd]
              then show ?thesis using old(3) by (cases right) (auto simp: xe Some)
            qed
          qed
        qed
      qed
    qed
  qed
qed

section \<open>The object\<close>

text \<open>The invariant: a valid object whose root is a tree of keys free of prefixes.\<close>

definition pfx_inv :: "dict \<Rightarrow> nat \<Rightarrow> dict_entry list \<Rightarrow> bool" where
  "pfx_inv d n es \<longleftrightarrow>
     dict_is_valid d \<and> d_key_bits d = int n \<and> n \<le> max_key_bits \<and> pfx_rep_opt n (d_root_cell d) es
     \<and> (d_flags d AND f_root_cached \<noteq> 0 \<longrightarrow> root_slice (d_root d) (d_root_cell d))"

lemma pfx_inv_valid [simp]: "pfx_inv d n es \<Longrightarrow> force_validate d = Inr d"
  by (simp add: pfx_inv_def)

lemma pfx_inv_set_root_cell: "pfx_inv d n es \<Longrightarrow> pfx_rep_opt n c es' \<Longrightarrow> pfx_inv (set_root_cell d c) n es'"
  by (simp add: pfx_inv_def dict_is_valid_bit flag_bits set_root_cell_def flag_updates)

lemma pfx_inv_free: "pfx_inv d n es \<Longrightarrow> prefix_free es"
  by (cases "d_root_cell d") (auto simp: pfx_inv_def pfx_rep_opt_def pfx_rep_free prefix_free_def [of "[]"])

theorem pfx_lookup_prefix_ok:
  assumes d: "pfx_inv d n es" and key: "ptr_ok key m" and es: "es \<noteq> []"
  shows "\<exists>r pos. pfx_lookup_prefix d key m = Inr ((r, pos), d) \<and> pos \<le> m \<and> longest es (ptr_bits key m) pos
     \<and> value_of r = map_of es (take pos (ptr_bits key m)) \<and> value_ok r"
proof -
  obtain c where c: "d_root_cell d = Some c" "pfx_rep n c es" "n < 2 ^ 31" "nat (d_key_bits d) = n"
    using d es by (cases "d_root_cell d") (auto simp: pfx_inv_def pfx_rep_opt_def)
  from pfx_lookup_loop_ok [OF c(2) key c(3) order.refl] show ?thesis
    using d c by (auto simp: pfx_lookup_prefix_def dict_is_empty_def)
qed

lemma longest_full: "longest es k pos \<Longrightarrow> map_of es k \<noteq> None \<Longrightarrow> pos = length k"
proof (rule antisym)
  assume l: "longest es k pos" and k: "map_of es k \<noteq> None"
  show "pos \<le> length k" using l lcp_le(2) [of _ k] by (auto simp: longest_def)
  have "k \<in> keys_of es" using k unfolding keys_of_map .
  then show "length k \<le> pos" using l unfolding longest_def by (metis lcp_refl)
qed

theorem pfx_lookup_ok:
  assumes d: "pfx_inv d n es" and key: "ptr_ok key m"
  shows "\<exists>r. pfx_lookup d key m = Inr (r, d) \<and> value_of r = map_of es (ptr_bits key m) \<and> value_ok r"
proof -
  let ?k = "ptr_bits key m"
  have lk: "length ?k = m" using key by simp
  have none: "map_of es ?k = None" if "m > n \<or> es = []"
    using that
  proof
    assume "m > n"
    then have "?k \<notin> keys_of es" using pfx_rep_lengths [of n _ es ?k] d lk
      by (cases "d_root_cell d") (auto simp: pfx_inv_def pfx_rep_opt_def)
    then show ?thesis using keys_of_map [of ?k es] by blast
  qed simp
  show ?thesis
  proof (cases "m > n \<or> es = []")
    case True
    have "es = [] \<Longrightarrow> d_root_cell d = None"
      using d pfx_rep_not_empty by (cases "d_root_cell d") (auto simp: pfx_inv_def pfx_rep_opt_def)
    then show ?thesis using True none d
      by (auto simp: pfx_lookup_def pfx_lookup_prefix_def dict_is_empty_def pfx_inv_def value_of_def value_ok_def)
  next
    case False
    then have es: "es \<noteq> []" and m: "\<not> int m > d_key_bits d" using d by (auto simp: pfx_inv_def)
    obtain r pos where P: "pfx_lookup_prefix d key m = Inr ((r, pos), d)" "pos \<le> m" "longest es ?k pos"
      "value_of r = map_of es (take pos ?k)" "value_ok r" using pfx_lookup_prefix_ok [OF d key es] by blast
    have "value_of (if pos = m then r else None) = map_of es ?k"
    proof (cases "pos = m")
      case True
      then show ?thesis using P(4) lk by simp
    next
      case False
      then have "map_of es ?k = None" using longest_full [OF P(3)] lk by blast
      then show ?thesis using False by (simp add: value_of_def)
    qed
    then show ?thesis using P(1,5) m d by (auto simp: pfx_lookup_def value_ok_def)
  qed
qed

definition pfx_changed :: "set_mode \<Rightarrow> nat \<Rightarrow> dict_entry list \<Rightarrow> int \<Rightarrow> bool list \<Rightarrow> bool" where
  "pfx_changed mode n es key_len k \<longleftrightarrow>
     0 \<le> key_len \<and> key_len \<le> int n \<and> \<not> clashes es k
     \<and> \<not> (mode = Mode_Replace \<and> map_of es k = None) \<and> \<not> (mode = Mode_Add \<and> map_of es k \<noteq> None)"

context value_store
begin

theorem pfx_set_gen_ok:
  assumes v: "vok v" and d: "pfx_inv d n es" and key: "ptr_ok key (nat key_len)" and sha: "\<And>x. length (sha256 x) = hash_bytes"
  defines "k \<equiv> ptr_bits key (nat key_len)"
  shows "dict_ok (\<lambda>(ok, d'). ok = pfx_changed mode n es key_len k
      \<and> (if ok then \<exists>es'. pfx_inv d' n es' \<and> map_of es' = (map_of es)(k \<mapsto> (vbits v, vrefs v)) else d' = d))
    (pfx_set_gen sha256 d key key_len (put v) mode)"
proof (cases "key_len > int n \<or> key_len < 0")
  case True
  then have "d_key_bits d < key_len \<or> key_len < 0" using d by (auto simp: pfx_inv_def)
  then show ?thesis using d True by (auto simp: pfx_set_gen_def pfx_changed_def)
next
  case False
  have D: "d_key_bits d = int n" "pfx_rep_opt n (d_root_cell d) es" "n < 2 ^ 31" using d by (simp_all add: pfx_inv_def)
  have lk: "length k = nat key_len" using key by (simp add: k_def)
  have f: "\<not> (key_len > d_key_bits d \<or> key_len < 0)" using False D(1) by simp
  let ?Q = "\<lambda>(ok, d'). ok = pfx_changed mode n es key_len k
      \<and> (if ok then \<exists>es'. pfx_inv d' n es' \<and> map_of es' = (map_of es)(k \<mapsto> (vbits v, vrefs v)) else d' = d)"
  have "dict_ok ?Q (bind_err (pfx_dict_set sha256 (d_root_cell d) key (nat key_len) n (put v) mode) (\<lambda>(c, changed).
      Inr (changed, if changed then set_root_cell d c else d)))"
  proof (rule dict_ok_bind [OF pfx_dict_set_ok [OF v D(2) key D(3) sha]])
    fix x assume x: "pfx_set_result mode n es (ptr_bits key (nat key_len)) (vbits v, vrefs v) x"
    obtain c ok where xe: "x = (c, ok)" by fastforce
    have ch: "pfx_changed mode n es key_len k \<longleftrightarrow>
        \<not> (length k > n \<or> clashes es k \<or> mode = Mode_Replace \<and> map_of es k = None \<or> mode = Mode_Add \<and> map_of es k \<noteq> None)"
      using False lk by (auto simp: pfx_changed_def)
    show "dict_ok ?Q (case x of (c, changed) \<Rightarrow> Inr (changed, if changed then set_root_cell d c else d))"
    proof (cases "pfx_changed mode n es key_len k")
      case True
      then obtain c' es' where "ok" "c = Some c'" "pfx_rep n c' es'" "map_of es' = (map_of es)(k \<mapsto> (vbits v, vrefs v))"
        using x [folded k_def] ch by (auto simp: xe pfx_set_result_def split: if_splits)
      moreover from this have "pfx_inv (set_root_cell d c) n es'" by (intro pfx_inv_set_root_cell [OF d]) (simp add: pfx_rep_opt_def)
      ultimately show ?thesis using True by (auto simp: xe)
    next
      case nc: False
      then show ?thesis using x [folded k_def] ch by (auto simp: xe pfx_set_result_def split: if_splits)
    qed
  qed
  then show ?thesis using d D(1) f by (simp add: pfx_set_gen_def)
qed

end

theorem pfx_lookup_delete_ok:
  assumes d: "pfx_inv d n es" and key: "ptr_ok key (nat key_len)" and sha: "\<And>x. length (sha256 x) = hash_bytes"
    and len: "0 \<le> key_len" "key_len \<le> int n"
  defines "k \<equiv> ptr_bits key (nat key_len)"
  shows "dict_ok (\<lambda>(old, d'). value_of old = map_of es k \<and> value_ok old
      \<and> (if old = None then d' = d else \<exists>es'. pfx_inv d' n es' \<and> map_of es' = (map_of es)(k := None)))
    (pfx_lookup_delete sha256 d key key_len)"
proof -
  have D: "d_key_bits d = int n" "pfx_rep_opt n (d_root_cell d) es" "n \<le> max_key_bits" using d by (simp_all add: pfx_inv_def)
  have m: "nat key_len \<le> n" and f: "\<not> (key_len > d_key_bits d \<or> key_len < 0)" using len D(1) by simp_all
  let ?Q = "\<lambda>(old, d'). value_of old = map_of es k \<and> value_ok old
      \<and> (if old = None then d' = d else \<exists>es'. pfx_inv d' n es' \<and> map_of es' = (map_of es)(k := None))"
  have "dict_ok ?Q (bind_err (pfx_dict_lookup_delete sha256 (d_root_cell d) key (nat key_len) n) (\<lambda>(old, c).
      Inr (old, if old \<noteq> None then set_root_cell d c else d)))"
  proof (rule dict_ok_bind [OF pfx_dict_lookup_delete_ok [OF D(2) key m D(3) sha]])
    fix x assume x: "pfx_delete_result n es (ptr_bits key (nat key_len)) x"
    obtain old c where xe: "x = (old, c)" by fastforce
    note R = x [folded k_def, unfolded xe pfx_delete_result_def fst_conv snd_conv]
    show "dict_ok ?Q (case x of (old, c) \<Rightarrow> Inr (old, if old \<noteq> None then set_root_cell d c else d))"
    proof (cases old)
      case None
      then show ?thesis using R by (simp add: xe)
    next
      case (Some s)
      then obtain es' where "pfx_rep_opt n c es'" "map_of es' = (map_of es)(k := None)"
        using R by (auto simp: value_of_def split: if_splits)
      moreover from this have "pfx_inv (set_root_cell d c) n es'" by (intro pfx_inv_set_root_cell [OF d])
      ultimately show ?thesis using R Some by (auto simp: xe)
    qed
  qed
  then show ?thesis using d D(1) f by (simp add: pfx_lookup_delete_def)
qed

text \<open>A key that is not there: nothing is written, and nothing can fail.\<close>

theorem pfx_dict_lookup_delete_absent:
  assumes "pfx_rep_opt n dict es" and "ptr_ok key m" and "m \<le> n" and "n < 2 ^ 31" and "map_of es (ptr_bits key m) = None"
  shows "pfx_dict_lookup_delete sha256 dict key m n = Inr (None, None)"
  using assms
proof (induction n arbitrary: dict es key m rule: less_induct)
  case (less n)
  have lk: "length (ptr_bits key m) = m" using less.prems(2) by simp
  show ?case
  proof (cases dict)
    case None
    then show ?thesis by (simp add: pfx_dict_lookup_delete.simps [of sha256 None])
  next
    case (Some c)
    have rep: "pfx_rep n c es" using less.prems(1) by (simp add: Some pfx_rep_opt_def)
    note unf = pfx_dict_lookup_delete.simps [of sha256 "Some c" key m n]
    from rep less.prems(2,4) show ?thesis
    proof (cases rule: pfx_rep_cases)
      case (miss lab ls rest refs es0)
      then show ?thesis unfolding Some unf miss(1) using less.prems(3) by simp
    next
      case (leaf lab ls v refs k' cs)
      have "k' \<noteq> []" using less.prems(5) leaf(6,7) by auto
      then have "length ls < m" using arg_cong [OF leaf(7), of length] lk by (cases k') simp_all
      then show ?thesis unfolding Some unf leaf(1) using leaf(3,4,5,8) less.prems(3) by simp
    next
      case (fork lab ls a b ea eb cs)
      show ?thesis
      proof (cases "length ls = m")
        case True
        then show ?thesis unfolding Some unf fork(1) using fork(3,4,5,10,11) less.prems(3) by simp
      next
        case False
        then have lt: "length ls < m" using fork(15) by simp
        let ?right = "ptr_bit key (length ls)" and ?key = "ptr_add key (length ls + 1)" and ?m = "m - length ls - 1" and ?n = "n - length ls - 1"
        note K = key_split [OF less.prems(2) fork(14) lt]
        have n: "?n < n" "?n < 2 ^ 31" "?m \<le> ?n" using fork(6) less.prems(3,4) by simp_all
        have d: "pfx_rep_opt ?n (Some (if ?right then b else a)) (if ?right then eb else ea)"
          using fork(7,8) by (simp add: pfx_rep_opt_def)
        have "map_of (if ?right then eb else ea) (ptr_bits ?key ?m) = None"
          using less.prems(5) unfolding fork(9) K(1) map_of_node .
        from less.IH [OF n(1) d K(2) n(3,2) this] show ?thesis
          unfolding Some unf fork(1) using fork(3,4,5,10-13) less.prems(3) lt by (simp add: Let_def if_distrib [of Some] cong: if_cong)
      qed
    qed
  qed
qed

theorem pfx_lookup_delete_absent:
  assumes d: "pfx_inv d n es" and key: "ptr_ok key (nat key_len)" and none: "0 \<le> key_len \<Longrightarrow> key_len \<le> int n \<Longrightarrow> map_of es (ptr_bits key (nat key_len)) = None"
  shows "pfx_lookup_delete sha256 d key key_len = Inr (None, d)"
proof (cases "0 \<le> key_len \<and> key_len \<le> int n")
  case True
  have D: "d_key_bits d = int n" "pfx_rep_opt n (d_root_cell d) es" "n < 2 ^ 31" using d by (simp_all add: pfx_inv_def)
  have "nat key_len \<le> n" using True by arith
  from pfx_dict_lookup_delete_absent [OF D(2) key this D(3) none] True show ?thesis using d D(1) by (simp add: pfx_lookup_delete_def)
next
  case False
  then have "key_len > d_key_bits d \<or> key_len < 0" using d by (auto simp: pfx_inv_def)
  then show ?thesis using d by (simp add: pfx_lookup_delete_def)
qed

end
