(* ===== verification/Dict_Iterator.thy ===== *)
theory Dict_Iterator
  imports Dict_Visit
begin

text \<open>
  Iterators over a dictionary, \<open>DictIterator\<close> of \<open>crypto/vm/dict.h\<close> and \<open>crypto/vm/dict.cpp\<close>. An
  iterator keeps the key it is at in a buffer, the leaf, and the path down to it: a fork with the two
  children, the side taken, and the position of its bit in the key. \<open>mode\<close> is the side that comes
  first, as in \<open>Dict_Order\<close>: its lowest bit for the first bit of the key, the next one for all of the others.
  A call that throws leaves no iterator.
\<close>

unbundle bit_operations_syntax

section \<open>State\<close>

record fork =
  fk_next :: "cell option"
  fk_alt :: "cell option"
  fk_pos :: nat
  fk_v :: bool

text \<open>\<open>dict_\<close> is only asked whether it is there. The key is at the beginning of its buffer.\<close>

record dict_iter =
  it_dict :: bool
  it_root :: "cell option"
  it_label_mode :: nat
  it_key_bits :: int
  it_flags :: int
  it_order :: int
  it_key :: "byte list"
  it_path :: "fork list"
  it_leaf :: "slice option"

section \<open>Operations\<close>

definition fork_rotate :: "fork \<Rightarrow> byte list \<Rightarrow> fork \<times> byte list" where
  "fork_rotate pe key =
     (let v = (\<not> fk_v pe)
      in (pe\<lparr>fk_next := fk_alt pe, fk_alt := fk_next pe, fk_v := v\<rparr>, ptr_set_bit (key, fk_pos pe) 0 v))"

definition it_f_valid :: int where "it_f_valid = 4"

definition iter_is_valid :: "dict_iter \<Rightarrow> bool" where
  "iter_is_valid it \<longleftrightarrow> it_flags it AND it_f_valid \<noteq> 0"

definition iter_eof :: "dict_iter \<Rightarrow> bool" where
  "iter_eof it \<longleftrightarrow> it_leaf it = None"

definition iter_reset :: "dict_iter \<Rightarrow> dict_iter" where
  "iter_reset it = it\<lparr>it_dict := False, it_root := None, it_path := [], it_leaf := None\<rparr>"

definition iter_prevalidate :: "dict_iter \<Rightarrow> int \<Rightarrow> bool \<times> dict_iter" where
  "iter_prevalidate it mode =
     (if it_key_bits it \<le> 0 \<or> it_key_bits it > int max_key_bits then
        let it = iter_reset it
        in (False, it\<lparr>it_flags := it_flags it AND NOT it_f_valid, it_key_bits := 0\<rparr>)
      else
        let it = (if mode \<ge> 0 then it\<lparr>it_order := (- (mode AND 1)) XOR ((mode div 2) AND 1)\<rparr> else it)
        in (True, it\<lparr>it_flags := it_flags it OR it_f_valid\<rparr>))"

text \<open>The constructors: from a root cell, from a dictionary.\<close>

definition new_iter :: "cell option \<Rightarrow> int \<Rightarrow> int \<Rightarrow> dict_iter" where
  "new_iter root_cell key_bits mode =
     snd (iter_prevalidate
       \<lparr>it_dict = False, it_root = root_cell, it_label_mode = chk_size, it_key_bits = key_bits, it_flags = mode div 4,
        it_order = 0, it_key = replicate max_key_bytes 0, it_path = [], it_leaf = None\<rparr> (mode AND 3))"

definition new_iter_dict :: "dict \<Rightarrow> int \<Rightarrow> dict_iter" where
  "new_iter_dict d mode =
     (new_iter (d_root_cell d) (d_key_bits d) mode)\<lparr>it_dict := True, it_label_mode := chk_all\<rparr>"

definition cur_pos :: "dict_iter \<Rightarrow> bit_ptr option" where
  "cur_pos it = (if iter_eof it then None else Some (it_key it, 0))"

definition cur_value :: "dict_iter \<Rightarrow> slice option" where
  "cur_value it = (if it_dict it then it_leaf it else None)"

definition compare_keys :: "dict_iter \<Rightarrow> bit_ptr \<Rightarrow> bit_ptr \<Rightarrow> int" where
  "compare_keys it a b =
     (if it_key_bits it = 0 then 0
      else
        let c = of_bool (ptr_bit a 0) - of_bool (ptr_bit b 0)
        in if c \<noteq> 0 then (if it_order it AND 1 \<noteq> 0 then - c else c)
           else
             let c = fst (bits_memcmp (fst a) (snd a) (fst b) (snd b) (nat (it_key_bits it)))
             in if it_order it \<ge> 0 then c else - c)"

text \<open>\<open>dive\<close> goes from the end of the path down to a leaf, on the side of \<open>mode\<close>.\<close>

function dive_loop ::
  "nat \<Rightarrow> cell option \<Rightarrow> nat \<Rightarrow> nat \<Rightarrow> int \<Rightarrow> byte list \<Rightarrow> fork list \<Rightarrow> dict_error + fork list \<times> byte list \<times> slice" where
  "dive_loop label_mode node n m mode key path =
     bind_err (label_of_cell node n label_mode) (\<lambda>label.
       let l = l_bits label; (key, label) = extract_label_to label (key, m)
       in if l > n then Inl Assertion
          else if n - l = 0 then Inr (path, key, l_remainder label)
          else
            let m = m + l; mode = (if l \<noteq> 0 then mode div 2 else mode); bit = odd mode;
                node = prefetch_ref (l_remainder label) (of_bool bit); alt = prefetch_ref (l_remainder label) (of_bool (\<not> bit))
            in dive_loop label_mode node (n - l - 1) (m + 1) (mode div 2) (ptr_set_bit (key, m) 0 bit)
                 (path @ [\<lparr>fk_next = node, fk_alt = alt, fk_pos = m, fk_v = bit\<rparr>]))"
  by pat_completeness auto
termination by (relation "measure (\<lambda>(label_mode, node, n, m, mode, key, path). n)") auto

declare dive_loop.simps [simp del]

definition iter_dive :: "dict_iter \<Rightarrow> int \<Rightarrow> dict_error + bool \<times> dict_iter" where
  "iter_dive it mode =
     (let n = nat (it_key_bits it);
          (node, m, n, mode) =
            (if it_path it = [] then (it_root it, 0, n, mode)
             else
               let m = fk_pos (last (it_path it)) + 1
               in (fk_next (last (it_path it)), m, n - m, mode div 2))
      in bind_err (dive_loop (it_label_mode it) node n m mode (it_key it) (it_path it)) (\<lambda>(path, key, leaf).
           Inr (True, it\<lparr>it_path := path, it_key := key, it_leaf := Some leaf\<rparr>)))"

text \<open>The loop of \<open>rewind\<close> keeps the beginning of the path that is right already.\<close>

fun rewind_loop :: "dict_iter \<Rightarrow> fork list \<Rightarrow> fork list \<Rightarrow> int \<Rightarrow> dict_error + bool \<times> dict_iter" where
  "rewind_loop it kept [] mode = (if \<not> iter_eof it then Inr (True, it) else iter_dive it mode)"
| "rewind_loop it kept (pe # rest) mode =
     (if \<not> int (fk_pos pe) < it_key_bits it then Inl Assertion
      else
        let mode = (if fk_pos pe \<noteq> 0 then mode div 2 else mode)
        in if fk_v pe \<noteq> odd mode then
             let (pe, key) = fork_rotate pe (it_key it)
             in iter_dive (it\<lparr>it_key := key, it_leaf := None, it_path := kept @ [pe]\<rparr>) mode
           else rewind_loop it (kept @ [pe]) rest (mode div 2))"

definition iter_rewind :: "dict_iter \<Rightarrow> bool \<Rightarrow> dict_error + bool \<times> dict_iter" where
  "iter_rewind it to_end =
     (if \<not> iter_is_valid it then Inr (False, it)
      else if it_root it = None then Inr (True, it)
      else rewind_loop it [] (it_path it) (it_order it XOR - of_bool to_end))"

definition rebind_to :: "dict_iter \<Rightarrow> dict \<Rightarrow> int \<Rightarrow> dict_error + bool \<times> dict_iter" where
  "rebind_to it d do_rewind =
     (let it = (iter_reset it)\<lparr>it_dict := True, it_label_mode := chk_all, it_root := d_root_cell d, it_key_bits := d_key_bits d\<rparr>;
          (ok, it) = iter_prevalidate (it\<lparr>it_flags := it_flags it AND 3\<rparr>) (- 1)
      in if \<not> ok then Inr (False, it)
         else if do_rewind = 0 then Inr (True, it)
         else iter_rewind it (do_rewind < 0))"

text \<open>The loop of \<open>next\<close> and of the end of \<open>lookup\<close>, on the path from its end: forks whose second side
  has been visited are dropped.\<close>

fun iter_backtrace :: "dict_iter \<Rightarrow> fork list \<Rightarrow> int \<Rightarrow> dict_error + bool \<times> dict_iter" where
  "iter_backtrace it [] mode = Inr (False, it\<lparr>it_path := []\<rparr>)"
| "iter_backtrace it (pe # up) mode =
     (if fk_v pe = odd (if fk_pos pe > 0 then mode div 2 else mode) then
        let (pe, key) = fork_rotate pe (it_key it)
        in iter_dive (it\<lparr>it_key := key, it_path := rev up @ [pe]\<rparr>) mode
      else iter_backtrace it up mode)"

definition iter_next :: "dict_iter \<Rightarrow> bool \<Rightarrow> dict_error + bool \<times> dict_iter" where
  "iter_next it go_back =
     (if \<not> iter_is_valid it \<or> it_root it = None \<or> iter_eof it then Inr (False, it)
      else iter_backtrace (it\<lparr>it_leaf := None\<rparr>) (rev (it_path it)) (it_order it XOR - of_bool go_back))"

definition iter_prev :: "dict_iter \<Rightarrow> dict_error + bool \<times> dict_iter" where
  "iter_prev it = iter_next it True"

text \<open>The part of the path that a lookup of the first \<open>bp\<close> bits can keep; the fork at bit \<open>bp\<close> is turned.\<close>

fun lookup_reuse :: "dict_iter \<Rightarrow> fork list \<Rightarrow> fork list \<Rightarrow> nat \<Rightarrow> nat \<Rightarrow> int \<Rightarrow> dict_iter" where
  "lookup_reuse it kept [] bp pos_bits fill_mode = it\<lparr>it_path := kept\<rparr>"
| "lookup_reuse it kept (pe # rest) bp pos_bits fill_mode =
     (if \<not> fk_pos pe \<le> bp then it\<lparr>it_path := kept\<rparr>
      else if fk_pos pe = bp then
        if bp < pos_bits \<or> fk_v pe \<noteq> odd (if bp > 0 then fill_mode div 2 else fill_mode) then
          let (pe, key) = fork_rotate pe (it_key it) in it\<lparr>it_key := key, it_path := kept @ [pe]\<rparr>
        else it\<lparr>it_path := kept\<rparr>
      else lookup_reuse it (kept @ [pe]) rest bp pos_bits fill_mode)"

text \<open>The descent of \<open>lookup\<close> along the bits that are asked for, and what is left to be done when it
  ends: nothing, to dive from the end of the path, or to go back on it.\<close>

datatype lookup_end =
    Found "fork list" "byte list" slice
  | Dive_on "fork list" "byte list"
  | Go_back "fork list" "byte list"

definition lookup_action :: "bit_ptr \<Rightarrow> nat \<Rightarrow> bool \<Rightarrow> int \<Rightarrow> nat \<Rightarrow> nat \<Rightarrow> nat \<Rightarrow> nat" where
  "lookup_action pos pos_bits strict_after mode m pfx_len l =
     (if pfx_len = pos_bits - m then if strict_after then 2 else 1
      else if pfx_len < l then
        if ptr_bit pos (m + pfx_len) \<noteq> odd (if m + pfx_len > 0 then mode div 2 else mode) then 2 else 1
      else 0)"

function lookup_loop ::
  "nat \<Rightarrow> bit_ptr \<Rightarrow> nat \<Rightarrow> bool \<Rightarrow> int \<Rightarrow> cell option \<Rightarrow> nat \<Rightarrow> nat \<Rightarrow> byte list \<Rightarrow> fork list \<Rightarrow> dict_error + lookup_end" where
  "lookup_loop label_mode pos pos_bits strict_after mode node n m key path =
     (if \<not> m < pos_bits then Inr (if strict_after then Go_back path key else Dive_on path key)
      else
        bind_err (label_of_cell node n label_mode) (\<lambda>label.
          let pfx_len = label_common_prefix_len label (ptr_add pos m) (pos_bits - m); l = l_bits label;
              (key, label) = extract_label_to label (key, m);
              action = lookup_action pos pos_bits strict_after mode m pfx_len l
          in if pfx_len > l \<or> l > n then Inl Assertion
             else if action = 2 then Inr (Go_back path key)
             else if n - l = 0 then Inr (Found path key (l_remainder label))
             else
               let m = m + l; bit = (if action = 1 then odd (if m > 0 then mode div 2 else mode) else ptr_bit pos m);
                   node = prefetch_ref (l_remainder label) (of_bool bit); alt = prefetch_ref (l_remainder label) (of_bool (\<not> bit));
                   path = path @ [\<lparr>fk_next = node, fk_alt = alt, fk_pos = m, fk_v = bit\<rparr>]; key = ptr_set_bit (key, m) 0 bit
               in if action = 1 then Inr (Dive_on path key)
                  else lookup_loop label_mode pos pos_bits strict_after mode node (n - l - 1) (m + 1) key path))"
  by pat_completeness auto
termination by (relation "measure (\<lambda>(label_mode, pos, pos_bits, strict_after, mode, node, n, rest). n)") auto

declare lookup_loop.simps [simp del]

definition lookup_finish :: "dict_iter \<Rightarrow> int \<Rightarrow> lookup_end \<Rightarrow> dict_error + bool \<times> dict_iter" where
  "lookup_finish it mode r =
     (case r of
        Found path key leaf \<Rightarrow> Inr (True, it\<lparr>it_path := path, it_key := key, it_leaf := Some leaf\<rparr>)
      | Dive_on path key \<Rightarrow> iter_dive (it\<lparr>it_path := path, it_key := key\<rparr>) mode
      | Go_back path key \<Rightarrow> iter_backtrace (it\<lparr>it_path := path, it_key := key, it_leaf := None\<rparr>) (rev path) mode)"

definition lookup_from :: "dict_iter \<Rightarrow> bit_ptr \<Rightarrow> nat \<Rightarrow> bool \<Rightarrow> bool \<Rightarrow> dict_error + bool \<times> dict_iter" where
  "lookup_from it pos pos_bits strict_after backw =
     (let n = nat (it_key_bits it); mode = - of_bool backw XOR it_order it;
          (node, m, n) =
            (if it_path it = [] then (it_root it, 0, n)
             else let m = fk_pos (last (it_path it)) + 1 in (fk_next (last (it_path it)), m, n - m))
      in bind_err (lookup_loop (it_label_mode it) pos pos_bits strict_after mode node n m (it_key it) (it_path it))
           (lookup_finish it mode))"

text \<open>The bits are read from a buffer that is not the one of the iterator.\<close>

definition iter_lookup :: "dict_iter \<Rightarrow> bit_ptr \<Rightarrow> int \<Rightarrow> bool \<Rightarrow> bool \<Rightarrow> dict_error + bool \<times> dict_iter" where
  "iter_lookup it pos pos_bits strict_after backw =
     (if \<not> iter_is_valid it \<or> it_root it = None \<or> pos_bits < 0 \<or> pos_bits > it_key_bits it then Inr (False, it)
      else
        let fill_mode = - of_bool (strict_after \<noteq> backw) XOR it_order it; k = nat pos_bits
        in if \<not> iter_eof it then
             let r = bits_memcmp (it_key it) 0 (fst pos) (snd pos) k
             in if fst r = 0 \<and> pos_bits \<ge> it_key_bits it then
                  if \<not> strict_after then Inr (True, it) else iter_next it backw
                else
                  let bp = (if fst r = 0 then k else upto_or_0 r)
                  in lookup_from (lookup_reuse it [] (it_path it) bp k fill_mode) pos k strict_after backw
           else lookup_from it pos k strict_after backw)"

text \<open>The iterators of a dictionary.\<close>

definition null_iterator :: "dict \<Rightarrow> dict_error + dict_iter \<times> dict" where
  "null_iterator d = bind_err (force_validate d) (\<lambda>d. Inr (new_iter_dict d 0, d))"

definition make_iterator :: "dict \<Rightarrow> int \<Rightarrow> dict_error + dict_iter \<times> dict" where
  "make_iterator d mode =
     bind_err (force_validate d) (\<lambda>d. bind_err (iter_rewind (new_iter_dict d mode) False) (\<lambda>(ok, it). Inr (it, d)))"

definition init_iterator :: "dict \<Rightarrow> bool \<Rightarrow> bool \<Rightarrow> dict_error + dict_iter \<times> dict" where
  "init_iterator d backw invert_first = make_iterator d (of_bool backw + 2 * of_bool invert_first)"

section \<open>The order of the iteration\<close>

text \<open>The entries in the order of the mode.\<close>

definition arranged :: "int \<Rightarrow> dict_entry list \<Rightarrow> dict_entry list" where
  "arranged mode es =
     (let first = visit_order (odd mode \<noteq> odd (mode div 2)) es in if odd (mode div 2) then rev first else first)"

lemma set_arranged [simp]: "set (arranged mode es) = set es"
  by (simp add: arranged_def Let_def)

lemma pre_pre: "pre p (pre q es) = pre (p @ q) es"
  by (auto simp: pre_def)

lemma arranged_single [simp]: "arranged mode [e] = [e]"
  by (simp add: arranged_def Let_def)

lemma arranged_Nil [simp]: "arranged mode [] = []"
  by (simp add: arranged_def Let_def visit_order_def)

lemma arranged_eq_Nil [simp]: "arranged mode es = [] \<longleftrightarrow> es = []"
  using set_arranged [of mode es] by (metis set_empty)

lemma pre_eq_Nil [simp]: "pre p es = [] \<longleftrightarrow> es = []"
  by (simp add: pre_def)

lemma arranged_not: "arranged (NOT mode) es = rev (arranged mode es)"
  by (simp add: arranged_def Let_def not_div_2)

lemma rev_pre: "rev (pre p es) = pre p (rev es)"
  by (simp add: pre_def rev_map)

lemma arranged_label:
  assumes m: "mode_ok mode"
  shows "arranged mode (pre ls es) = pre ls (arranged (next_mode mode (length ls)) es)"
proof (cases "ls = []")
  case True
  then show ?thesis by (simp add: next_mode_def pre_def)
next
  case False
  have "mode div 2 div 2 = mode div 2" using m by (simp add: mode_ok_def)
  then show ?thesis using False by (simp add: arranged_def Let_def visit_order_label next_mode_def rev_pre)
qed

text \<open>At a fork the side of the mode comes first.\<close>

lemma arranged_fork:
  assumes m: "mode_ok mode"
  shows "arranged mode (pre [False] ea @ pre [True] eb) =
     pre [odd mode] (arranged (mode div 2) (if odd mode then eb else ea))
     @ pre [\<not> odd mode] (arranged (mode div 2) (if odd mode then ea else eb))"
proof -
  have "mode div 2 div 2 = mode div 2" using m by (simp add: mode_ok_def)
  then show ?thesis
    by (cases "odd mode"; cases "odd (mode div 2)") (simp_all add: arranged_def Let_def visit_order_fork rev_pre)
qed

text \<open>The same for a node below the key \<open>Q\<close>, with the label \<open>ls\<close>.\<close>

lemma next_mode_next: "mode_ok mode \<Longrightarrow> next_mode (next_mode mode a) b = next_mode mode (a + b)"
  by (simp add: next_mode_def mode_ok_def)

lemma next_mode_ok [simp]: "mode_ok mode \<Longrightarrow> mode_ok (next_mode mode a)"
  by (simp add: next_mode_def)

lemma next_mode_div [simp]: "mode_ok mode \<Longrightarrow> next_mode mode a div 2 = mode div 2"
  by (simp add: next_mode_def mode_ok_def)

lemma next_mode_Suc [simp]: "next_mode mode (Suc a) = mode div 2"
  by (simp add: next_mode_def)

lemma arranged_node:
  assumes m: "mode_ok mode" and d: "d = odd (next_mode mode (length Q + length ls))"
  shows "pre Q (arranged (next_mode mode (length Q)) (pre ls (pre [False] ea @ pre [True] eb))) =
     pre (Q @ ls @ [d]) (arranged (mode div 2) (if d then eb else ea))
     @ pre (Q @ ls @ [\<not> d]) (arranged (mode div 2) (if d then ea else eb))"
  unfolding arranged_label [OF next_mode_ok [OF m]] next_mode_next [OF m] arranged_fork [OF next_mode_ok [OF m]]
    next_mode_div [OF m] d
  by (simp add: pre_pre)

section \<open>The path\<close>

definition fork_at :: "cell \<Rightarrow> cell \<Rightarrow> nat \<Rightarrow> bool \<Rightarrow> fork" where
  "fork_at a b pos v = \<lparr>fk_next = Some (if v then b else a), fk_alt = Some (if v then a else b), fk_pos = pos, fk_v = v\<rparr>"

lemma fork_at_simps [simp]:
  "fk_next (fork_at a b pos v) = Some (if v then b else a)" "fk_pos (fork_at a b pos v) = pos" "fk_v (fork_at a b pos v) = v"
  by (simp_all add: fork_at_def)

lemma rotate_fork_at [simp]: "fork_rotate (fork_at a b pos v) key = (fork_at a b pos (\<not> v), ptr_set_bit (key, pos) 0 (\<not> v))"
  by (simp add: fork_rotate_def fork_at_def)

text \<open>A path \<open>ps\<close> leads to the node \<open>c\<close> below the key \<open>Q\<close>: \<open>bef\<close> are the entries that come before those
  of the node, \<open>aft\<close> those that come after them.\<close>

inductive spine ::
  "int \<Rightarrow> nat \<Rightarrow> cell \<Rightarrow> dict_entry list \<Rightarrow> fork list \<Rightarrow> nat \<Rightarrow> cell \<Rightarrow> bool list \<Rightarrow> dict_entry list \<Rightarrow> dict_entry list
     \<Rightarrow> dict_entry list \<Rightarrow> bool"
  for mode :: int and N :: nat and root :: cell and entries :: "dict_entry list" where
  top: "dict_rep N root entries \<Longrightarrow> spine mode N root entries [] N root [] entries [] []"
| below: "\<lbrakk>spine mode N root entries ps n c Q (pre ls (pre [False] ea @ pre [True] eb)) bef aft; length ls < n;
     dict_rep (n - length ls - 1) a ea; dict_rep (n - length ls - 1) b eb; p = length Q + length ls;
     sib = pre (Q @ ls @ [\<not> v]) (arranged (mode div 2) (if v then ea else eb)); first = (v = odd (next_mode mode p))\<rbrakk>
   \<Longrightarrow> spine mode N root entries (ps @ [fork_at a b p v]) (n - length ls - 1) (if v then b else a) (Q @ ls @ [v])
     (if v then eb else ea) (if first then bef else bef @ sib) (if first then sib @ aft else aft)"

lemma spine_first:
  assumes "spine mode N root entries ps n c Q (pre ls (pre [False] ea @ pre [True] eb)) bef aft" and "length ls < n"
    and "dict_rep (n - length ls - 1) a ea" and "dict_rep (n - length ls - 1) b eb" and "p = length Q + length ls"
    and "v = odd (next_mode mode p)"
  shows "spine mode N root entries (ps @ [fork_at a b p v]) (n - length ls - 1) (if v then b else a) (Q @ ls @ [v])
     (if v then eb else ea) bef (pre (Q @ ls @ [\<not> v]) (arranged (mode div 2) (if v then ea else eb)) @ aft)"
  using spine.below [OF assms(1-5) refl, of True v] assms(6) by simp

lemma spine_second:
  assumes "spine mode N root entries ps n c Q (pre ls (pre [False] ea @ pre [True] eb)) bef aft" and "length ls < n"
    and "dict_rep (n - length ls - 1) a ea" and "dict_rep (n - length ls - 1) b eb" and "p = length Q + length ls"
    and "v \<noteq> odd (next_mode mode p)"
  shows "spine mode N root entries (ps @ [fork_at a b p v]) (n - length ls - 1) (if v then b else a) (Q @ ls @ [v])
     (if v then eb else ea) (bef @ pre (Q @ ls @ [\<not> v]) (arranged (mode div 2) (if v then ea else eb))) aft"
  using spine.below [OF assms(1-5) refl, of False v] assms(6) by simp

lemma spine_rep:
  assumes "spine mode N root entries ps n c Q es bef aft"
  shows "dict_rep n c es" and "length Q + n = N" and "dict_rep N root entries"
  using assms by (induction rule: spine.induct) auto

lemma spine_order:
  assumes "spine mode N root entries ps n c Q es bef aft" and m: "mode_ok mode"
  shows "arranged mode entries = bef @ pre Q (arranged (next_mode mode (length Q)) es) @ aft"
  using assms(1)
proof (induction rule: spine.induct)
  case top
  then show ?case by (simp add: next_mode_def pre_def)
next
  case (below ps n c Q ls ea eb bef aft a b p sib v first)
  show ?case
    unfolding below.IH arranged_node [OF m refl] below.hyps(5-7)
    by (cases "odd (next_mode mode (length Q + length ls))"; cases v) simp_all
qed

text \<open>Taken in reverse.\<close>

lemma next_mode_not: "next_mode (NOT mode) p = NOT (next_mode mode p)"
  by (simp add: next_mode_def not_div_2)

lemma spine_not: "spine mode N root entries ps n c Q es bef aft \<Longrightarrow> spine (NOT mode) N root entries ps n c Q es (rev aft) (rev bef)"
proof (induction rule: spine.induct)
  case top
  then show ?case by (simp add: spine.top)
next
  case (below ps n c Q ls ea eb bef aft a b p sib v first)
  have s: "rev sib = pre (Q @ ls @ [\<not> v]) (arranged (NOT mode div 2) (if v then ea else eb))"
    unfolding below.hyps(6) by (simp only: rev_pre not_div_2 arranged_not)
  have f: "(\<not> first) = (v = odd (next_mode (NOT mode) p))" unfolding below.hyps(7) next_mode_not by auto
  from spine.below [OF below.IH below.hyps(2-5) s f] show ?case by (cases first) simp_all
qed

text \<open>The leaf at the end of a path.\<close>

definition at_leaf ::
  "int \<Rightarrow> nat \<Rightarrow> cell \<Rightarrow> dict_entry list \<Rightarrow> fork list \<Rightarrow> byte list \<Rightarrow> slice \<Rightarrow> dict_entry list \<Rightarrow> dict_entry \<Rightarrow> dict_entry list \<Rightarrow> bool" where
  "at_leaf mode N root entries ps key leaf bef x aft \<longleftrightarrow>
     (\<exists>n c Q ls rest. spine mode N root entries ps n c Q [(ls, rest, c_refs c)] bef aft \<and> length ls = n
        \<and> x = (Q @ ls, rest, c_refs c) \<and> holds key (Q @ ls)
        \<and> slice_ok leaf \<and> slice_bits leaf = rest \<and> slice_children leaf = c_refs c)"

lemma at_leaf_not:
  "at_leaf mode N root entries ps key leaf bef x aft \<Longrightarrow> at_leaf (NOT mode) N root entries ps key leaf (rev aft) x (rev bef)"
  unfolding at_leaf_def by (blast dest: spine_not)

lemma at_leaf_order:
  "at_leaf mode N root entries ps key leaf bef x aft \<Longrightarrow> mode_ok mode \<Longrightarrow> arranged mode entries = bef @ x # aft"
  unfolding at_leaf_def using spine_order [of mode N root entries ps] by force

section \<open>Diving\<close>

lemma dive_loop_ok:
  assumes "spine mode N root entries ps n c Q es bef aft" and "holds buf Q" and m: "mode_ok mode" and lm: "lm \<noteq> 0"
    and "N \<le> 8 * length buf" and N: "N < 2 ^ 31"
  shows "\<exists>ps' buf' leaf x xs. dive_loop lm (Some c) n (length Q) (next_mode mode (length Q)) buf ps = Inr (ps', buf', leaf)
     \<and> pre Q (arranged (next_mode mode (length Q)) es) = x # xs \<and> length buf' = length buf
     \<and> at_leaf mode N root entries ps' buf' leaf bef x (xs @ aft)"
  using assms(1,2,5)
proof (induction n arbitrary: c Q es bef aft buf ps rule: less_induct)
  case (less n)
  note R = spine_rep [OF less.prems(1)]
  have room: "length Q + n \<le> 8 * length buf" and n31: "n < 2 ^ 31" using R(2) less.prems(3) N by simp_all
  from R(1) less.prems(2) room n31 lm show ?case
  proof (cases rule: open_node_mode)
    case (leaf lab buf1 lab1 ls rest)
    have run: "dive_loop lm (Some c) n (length Q) (next_mode mode (length Q)) buf ps = Inr (ps, buf1, l_remainder lab1)"
      using leaf(1-3) by (simp add: dive_loop.simps [of lm "Some c"] Let_def)
    have "at_leaf mode N root entries ps buf1 (l_remainder lab1) bef (Q @ ls, rest, c_refs c) ([] @ aft)"
      unfolding at_leaf_def using less.prems(1) leaf(4-10) by auto
    then show ?thesis using run leaf(5,7) by (auto simp: pre_def)
  next
    case (fork lab buf1 lab1 ls a b ea eb)
    define p where "p = length Q + length ls"
    define d where "d = odd (next_mode mode p)"
    define buf2 where "buf2 = ptr_set_bit (buf1, p) 0 d"
    define sib where "sib = pre (Q @ ls @ [\<not> d]) (arranged (mode div 2) (if d then ea else eb))"
    have "length (Q @ ls) < 8 * length buf1" using room fork(4,10) by simp
    from holds_set_bit [OF fork(9) this, of d] have h2: "holds buf2 (Q @ ls @ [d])" by (simp add: buf2_def p_def)
    have len2: "length buf2 = length buf" using fork(10) by (simp add: buf2_def)
    have sp: "spine mode N root entries (ps @ [fork_at a b p d]) (n - length ls - 1) (if d then b else a) (Q @ ls @ [d])
        (if d then eb else ea) bef (sib @ aft)"
      unfolding sib_def by (rule spine_first [OF less.prems(1) [unfolded fork(8)] fork(4,6,7) p_def d_def])
    have nm: "(if length ls \<noteq> 0 then mode div 2 else next_mode mode (length Q)) = next_mode mode p"
      unfolding p_def next_mode_next [OF m, symmetric] by (simp only: next_mode_def [of _ "length ls"] next_mode_div [OF m])
    have refs: "prefetch_ref (l_remainder lab1) (of_bool d) = Some (if d then b else a)"
      "prefetch_ref (l_remainder lab1) (of_bool (\<not> d)) = Some (if d then a else b)"
      using view_advanced_ref [OF fork(11,13)] by simp_all
    have "length ls \<le> n" "n - length ls \<noteq> 0" using fork(4) by simp_all
    then have run: "dive_loop lm (Some c) n (length Q) (next_mode mode (length Q)) buf ps =
        dive_loop lm (Some (if d then b else a)) (n - length ls - 1) (p + 1) (mode div 2) buf2 (ps @ [fork_at a b p d])"
      unfolding dive_loop.simps [of lm "Some c"] fork(1) bind_err_simps fork(3) Let_def prod.case fork(2) nm
        p_def [symmetric] d_def [symmetric] refs buf2_def [symmetric] fork_at_def next_mode_div [OF m] by simp
    have below: "n - length ls - 1 < n" "length (Q @ ls @ [d]) = Suc p" using fork(4) by (simp_all add: p_def)
    obtain ps' buf' leaf x xs where I: "dive_loop lm (Some (if d then b else a)) (n - length ls - 1) (Suc p) (mode div 2) buf2
        (ps @ [fork_at a b p d]) = Inr (ps', buf', leaf)"
      "pre (Q @ ls @ [d]) (arranged (mode div 2) (if d then eb else ea)) = x # xs" "length buf' = length buf2"
      "at_leaf mode N root entries ps' buf' leaf bef x (xs @ sib @ aft)"
      using less.IH [OF below(1) sp h2, unfolded below(2) next_mode_Suc] less.prems(3) len2 by auto
    have "pre Q (arranged (next_mode mode (length Q)) es) = x # xs @ sib"
      unfolding fork(8) arranged_node [OF m d_def [unfolded p_def]] sib_def I(2) by simp
    then show ?thesis using I(1,3,4) run len2 by auto
  qed
qed

section \<open>The iterator\<close>

definition iter_inv :: "dict_iter \<Rightarrow> nat \<Rightarrow> dict_entry list \<Rightarrow> bool" where
  "iter_inv it n es \<longleftrightarrow>
     iter_is_valid it \<and> it_key_bits it = int n \<and> 0 < n \<and> n \<le> max_key_bits \<and> dict_rep_opt n (it_root it) es
     \<and> mode_ok (it_order it) \<and> it_label_mode it \<noteq> 0 \<and> length (it_key it) = max_key_bytes"

text \<open>Where an iterator is, in the order of the mode: \<open>bef\<close> are the entries behind it, \<open>aft\<close> the one it is
  at and those that follow.\<close>

definition iter_place :: "int \<Rightarrow> dict_iter \<Rightarrow> nat \<Rightarrow> dict_entry list \<Rightarrow> dict_entry list \<Rightarrow> dict_entry list \<Rightarrow> bool" where
  "iter_place mode it n es bef aft \<longleftrightarrow>
     arranged mode es = bef @ aft
     \<and> (case aft of
          [] \<Rightarrow> it_path it = [] \<and> it_leaf it = None
        | x # xs \<Rightarrow> \<exists>root leaf. it_root it = Some root \<and> it_leaf it = Some leaf
            \<and> at_leaf mode n root es (it_path it) (it_key it) leaf bef x xs)"

definition same_iter :: "dict_iter \<Rightarrow> dict_iter \<Rightarrow> bool" where
  "same_iter it it' \<longleftrightarrow>
     it_dict it' = it_dict it \<and> it_root it' = it_root it \<and> it_label_mode it' = it_label_mode it \<and> it_key_bits it' = it_key_bits it
     \<and> it_flags it' = it_flags it \<and> it_order it' = it_order it \<and> length (it_key it') = length (it_key it)"

lemma same_iter_inv: "same_iter it it' \<Longrightarrow> iter_inv it n es \<Longrightarrow> iter_inv it' n es"
  by (simp add: same_iter_def iter_inv_def iter_is_valid_def)

text \<open>An operation that moves the iterator to the entries \<open>aft\<close>.\<close>

definition moved ::
  "dict_iter \<Rightarrow> int \<Rightarrow> nat \<Rightarrow> dict_entry list \<Rightarrow> dict_entry list \<Rightarrow> dict_entry list \<Rightarrow> bool \<Rightarrow> dict_error + bool \<times> dict_iter \<Rightarrow> bool" where
  "moved it mode n es bef aft ok r \<longleftrightarrow> (\<exists>it'. r = Inr (ok, it') \<and> same_iter it it' \<and> iter_place mode it' n es bef aft)"

lemma iter_place_not:
  assumes "iter_place mode it n es bef aft"
  shows "iter_place (NOT mode) it n es (if aft = [] then rev bef else rev (tl aft)) (if aft = [] then [] else hd aft # rev bef)"
  using assms by (cases aft) (auto simp: iter_place_def arranged_not intro: at_leaf_not)

lemma spine_last:
  assumes "spine mode N root entries ps n c Q es bef aft"
  shows "ps = [] \<and> Q = [] \<and> c = root \<and> n = N \<or> ps \<noteq> [] \<and> Q \<noteq> [] \<and> fk_next (last ps) = Some c \<and> Suc (fk_pos (last ps)) = length Q"
  using assms by (cases rule: spine.cases) auto

lemma iter_dive_ok:
  assumes i: "iter_inv it n es" "it_root it = Some root" and s: "spine mode n root es (it_path it) m c Q es' bef aft"
    and h: "holds (it_key it) Q" and m: "mode_ok mode" and M: "if Q = [] then M = mode else M div 2 = mode div 2"
  shows "moved it mode n es bef (pre Q (arranged (next_mode mode (length Q)) es') @ aft) True (iter_dive it M)"
proof -
  have I: "it_key_bits it = int n" "n \<le> 8 * length (it_key it)" "n < 2 ^ 31" "it_label_mode it \<noteq> 0"
    using i(1) by (simp_all add: iter_inv_def)
  obtain ps' buf' leaf x xs where D: "dive_loop (it_label_mode it) (Some c) m (length Q) (next_mode mode (length Q)) (it_key it) (it_path it) =
      Inr (ps', buf', leaf)" "pre Q (arranged (next_mode mode (length Q)) es') = x # xs" "length buf' = length (it_key it)"
    "at_leaf mode n root es ps' buf' leaf bef x (xs @ aft)"
    using dive_loop_ok [OF s h m I(4,2,3)] by blast
  have "iter_dive it M =
      bind_err (dive_loop (it_label_mode it) (Some c) m (length Q) (next_mode mode (length Q)) (it_key it) (it_path it))
        (\<lambda>(path, key, leaf). Inr (True, it\<lparr>it_path := path, it_key := key, it_leaf := Some leaf\<rparr>))"
    using spine_last [OF s] spine_rep(2) [OF s] i(2) I(1) M by (auto simp: iter_dive_def next_mode_def split: if_splits)
  then have "iter_dive it M = Inr (True, it\<lparr>it_path := ps', it_key := buf', it_leaf := Some leaf\<rparr>)" by (simp add: D(1))
  moreover have "same_iter it (it\<lparr>it_path := ps', it_key := buf', it_leaf := Some leaf\<rparr>)" using D(3) by (simp add: same_iter_def)
  moreover have "iter_place mode (it\<lparr>it_path := ps', it_key := buf', it_leaf := Some leaf\<rparr>) n es bef (x # xs @ aft)"
    using D(4) at_leaf_order [OF D(4) m] i(2) by (simp add: iter_place_def)
  ultimately show ?thesis unfolding moved_def D(2) by auto
qed

text \<open>A fork is turned: the bit in the key as well.\<close>

lemma turned_key:
  assumes "holds key (Q @ ls @ [v])"
  shows "holds (ptr_set_bit (key, length Q + length ls) 0 w) (Q @ ls @ [w])"
proof -
  have h: "holds key (Q @ ls)" using holds_prefix [of key "Q @ ls" "[v]"] assms by simp
  have "length (Q @ ls) < 8 * length key" using assms by (simp add: holds_def)
  from holds_set_bit [OF h this, of w] show ?thesis by simp
qed

lemma next_mode_pos: "(if 0 < p then mode div 2 else mode) = next_mode mode p"
  by (simp add: next_mode_def)

lemma moved_same: "moved it' mode n es bef aft ok r \<Longrightarrow> same_iter it it' \<Longrightarrow> moved it mode n es bef aft ok r"
  unfolding moved_def same_iter_def by auto

lemma backtrace_ok:
  assumes "spine mode n root es ps m c Q es' bef aft" and m: "mode_ok mode"
    and "iter_inv it n es" and "it_root it = Some root" and "it_leaf it = None" and "holds (it_key it) Q"
  shows "moved it mode n es (bef @ pre Q (arranged (next_mode mode (length Q)) es')) aft (aft \<noteq> []) (iter_backtrace it (rev ps) mode)"
  using assms(1,3-6)
proof (induction rule: spine.induct)
  case top
  then show ?case by (simp add: moved_def same_iter_def iter_place_def next_mode_def pre_def)
next
  case (below ps k c Q ls ea eb bef aft a b p sib v first)
  show ?case
  proof (cases first)
    case True
    let ?it = "it\<lparr>it_key := ptr_set_bit (it_key it, p) 0 (\<not> v), it_path := ps @ [fork_at a b p (\<not> v)]\<rparr>"
    have v: "(\<not> v) \<noteq> odd (next_mode mode p)" and v': "v = odd (next_mode mode p)" using True below.hyps(7) by auto
    have s: "spine mode n root es (it_path ?it) (k - length ls - 1) (if \<not> v then b else a) (Q @ ls @ [\<not> v]) (if \<not> v then eb else ea)
        (bef @ pre (Q @ ls @ [\<not> \<not> v]) (arranged (mode div 2) (if \<not> v then ea else eb))) aft"
      using spine_second [OF below.hyps(1-5) v] by simp
    have same: "same_iter it ?it" by (simp add: same_iter_def)
    have h: "holds (it_key ?it) (Q @ ls @ [\<not> v])"
      using turned_key [OF below.prems(4)] by (simp add: below.hyps(5))
    have "moved ?it mode n es (bef @ pre (Q @ ls @ [v]) (arranged (mode div 2) (if v then eb else ea)))
        (pre (Q @ ls @ [\<not> v]) (arranged (mode div 2) (if v then ea else eb)) @ aft) True (iter_dive ?it mode)"
      using iter_dive_ok [OF same_iter_inv [OF same below.prems(1)] _ s h m, of mode] below.prems(2) by (cases v) simp_all
    note D = moved_same [OF this same]
    have run: "iter_backtrace it (rev (ps @ [fork_at a b p v])) mode = iter_dive ?it mode"
      using v' by (simp add: next_mode_pos)
    have ne: "sib \<noteq> []"
      unfolding below.hyps(6) using dict_rep_not_empty(1) [OF below.hyps(3)] dict_rep_not_empty(1) [OF below.hyps(4)] by simp
    show ?thesis using D True ne unfolding run below.hyps(6) by simp
  next
    case False
    have v: "v \<noteq> odd (next_mode mode p)" using False below.hyps(7) by auto
    have "holds (it_key it) Q" by (rule holds_prefix [OF below.prems(4)])
    note I = below.IH [OF below.prems(1-3) this]
    have run: "iter_backtrace it (rev (ps @ [fork_at a b p v])) mode = iter_backtrace it (rev ps) mode"
      using v by (simp add: next_mode_pos)
    have d: "(\<not> v) = odd (next_mode mode (length Q + length ls))" using v by (simp add: below.hyps(5))
    have all: "bef @ pre Q (arranged (next_mode mode (length Q)) (pre ls (pre [False] ea @ pre [True] eb))) =
        (bef @ sib) @ pre (Q @ ls @ [v]) (arranged (next_mode mode (length (Q @ ls @ [v]))) (if v then eb else ea))"
      unfolding arranged_node [OF m d] below.hyps(6) by (cases v) simp_all
    show ?thesis using I unfolding all run if_not_P [OF False] .
  qed
qed

section \<open>Rewinding\<close>

lemma spine_split:
  assumes "spine mode N root es ps n0 c0 Q0 es0 bef0 aft0" and "ps = kept @ pe # rest"
  shows "\<exists>n c Q ls ea eb bef aft a b v R. spine mode N root es kept n c Q (pre ls (pre [False] ea @ pre [True] eb)) bef aft
     \<and> length ls < n \<and> dict_rep (n - length ls - 1) a ea \<and> dict_rep (n - length ls - 1) b eb
     \<and> pe = fork_at a b (length Q + length ls) v \<and> Q0 = (Q @ ls @ [v]) @ R"
  using assms
proof (induction arbitrary: rest rule: spine.induct)
  case top
  then show ?case by simp
next
  case (below ps n c Q ls ea eb bef aft a b p sib v first)
  show ?case
  proof (cases rest rule: rev_cases)
    case Nil
    then have "ps = kept" "pe = fork_at a b p v" using below.prems by simp_all
    then show ?thesis using below.hyps(1-5) by blast
  next
    case (snoc rest' pe')
    then have "ps = kept @ pe # rest'" using below.prems by simp
    from below.IH [OF this] show ?thesis by fastforce
  qed
qed

lemma spine_firsts:
  "spine mode N root es ps n c Q es' bef aft \<Longrightarrow> \<forall>pe \<in> set ps. fk_v pe = odd (next_mode mode (fk_pos pe)) \<Longrightarrow> bef = []"
  by (induction rule: spine.induct) auto

lemma spine_pos: "spine mode N root es ps n c Q es' bef aft \<Longrightarrow> pe \<in> set ps \<Longrightarrow> fk_pos pe < length Q"
  by (induction rule: spine.induct) auto

definition walk_mode :: "int \<Rightarrow> 'a list \<Rightarrow> int" where
  "walk_mode mode kept = (if kept = [] then mode else mode div 2)"

lemma rewind_loop_ok:
  assumes "iter_inv it n es" and "it_root it = Some root" and m: "mode_ok mode"
    and "at_leaf mode n root es (kept @ rest) (it_key it) leaf bef x aft" and "it_leaf it = Some leaf" and "it_path it = kept @ rest"
    and "\<forall>pe \<in> set kept. fk_v pe = odd (next_mode mode (fk_pos pe))"
  shows "moved it mode n es [] (arranged mode es) True (rewind_loop it kept rest (walk_mode mode kept))"
  using assms(4,6,7)
proof (induction rest arbitrary: kept)
  case Nil
  obtain k c Q ls rst where s: "spine mode n root es kept k c Q [(ls, rst, c_refs c)] bef aft"
    using Nil.prems(1) by (auto simp: at_leaf_def)
  have "bef = []" by (rule spine_firsts [OF s Nil.prems(3)])
  then have "arranged mode es = x # aft" using at_leaf_order [OF Nil.prems(1) m] by simp
  then show ?case using Nil.prems(1,2) assms(2,5) \<open>bef = []\<close>
    by (auto simp: moved_def same_iter_def iter_place_def iter_eof_def)
next
  case (Cons pe rest)
  obtain k0 c0 Q0 ls0 rst where s0: "spine mode n root es (kept @ pe # rest) k0 c0 Q0 [(ls0, rst, c_refs c0)] bef aft"
    and h0: "holds (it_key it) (Q0 @ ls0)"
    using Cons.prems(1) by (auto simp: at_leaf_def)
  obtain k c Q ls ea eb bef' aft' a b v R where s: "spine mode n root es kept k c Q (pre ls (pre [False] ea @ pre [True] eb)) bef' aft'"
    and F: "length ls < k" "dict_rep (k - length ls - 1) a ea" "dict_rep (k - length ls - 1) b eb"
    and pe: "pe = fork_at a b (length Q + length ls) v" and Q0: "Q0 = (Q @ ls @ [v]) @ R"
    using spine_split [OF s0 refl] by blast
  define p where "p = length Q + length ls"
  have pn: "int (fk_pos pe) < it_key_bits it" using spine_rep(2) [OF s] F(1) assms(1) by (simp add: pe iter_inv_def)
  have wm: "(if fk_pos pe \<noteq> 0 then walk_mode mode kept div 2 else walk_mode mode kept) = next_mode mode p"
    using m spine_last [OF s] by (auto simp: walk_mode_def pe p_def next_mode_def mode_ok_def)
  show ?case
  proof (cases "v = odd (next_mode mode p)")
    case True
    have w: "walk_mode mode (kept @ [pe]) = next_mode mode p div 2" using m by (simp add: walk_mode_def)
    have "rewind_loop it kept (pe # rest) (walk_mode mode kept) = rewind_loop it (kept @ [pe]) rest (walk_mode mode (kept @ [pe]))"
      using pn True unfolding rewind_loop.simps wm Let_def w by (simp add: pe)
    moreover have "fk_v pe = odd (next_mode mode (fk_pos pe))" using True by (simp add: pe p_def)
    ultimately show ?thesis using Cons.IH [of "kept @ [pe]"] Cons.prems by simp
  next
    case False
    let ?it = "it\<lparr>it_key := ptr_set_bit (it_key it, p) 0 (\<not> v), it_leaf := None, it_path := kept @ [fork_at a b p (\<not> v)]\<rparr>"
    have first: "(\<not> v) = odd (next_mode mode p)" using False by auto
    have bef': "bef' = []" by (rule spine_firsts [OF s Cons.prems(3)])
    have s': "spine mode n root es (it_path ?it) (k - length ls - 1) (if \<not> v then b else a) (Q @ ls @ [\<not> v]) (if \<not> v then eb else ea)
        [] (pre (Q @ ls @ [\<not> \<not> v]) (arranged (mode div 2) (if \<not> v then ea else eb)) @ aft')"
      using spine_first [OF s F p_def first] bef' by simp
    have same: "same_iter it ?it" by (simp add: same_iter_def)
    have "holds (it_key it) (Q @ ls @ [v])" using h0 unfolding Q0 by (metis append_assoc holds_prefix)
    from turned_key [OF this, of "\<not> v"] have h: "holds (it_key ?it) (Q @ ls @ [\<not> v])" by (simp add: p_def)
    have run: "rewind_loop it kept (pe # rest) (walk_mode mode kept) = iter_dive ?it (next_mode mode p)"
      using pn False unfolding rewind_loop.simps wm Let_def by (simp add: pe p_def)
    have "moved ?it mode n es [] (arranged mode es) True (iter_dive ?it (next_mode mode p))"
      using iter_dive_ok [OF same_iter_inv [OF same assms(1)] _ s' h m, of "next_mode mode p"] assms(2) spine_order [OF s' m] m by simp
    from moved_same [OF this same] show ?thesis unfolding run .
  qed
qed

lemma rewind_fresh:
  assumes "iter_inv it n es" and "it_root it = Some root" and m: "mode_ok mode" and "it_path it = []" and "it_leaf it = None"
  shows "moved it mode n es [] (arranged mode es) True (rewind_loop it [] (it_path it) mode)"
proof -
  have "dict_rep n root es" using assms(1,2) by (simp add: iter_inv_def dict_rep_opt_def)
  from spine.top [OF this, of mode] have s: "spine mode n root es (it_path it) n root [] es [] []" by (simp add: assms(4))
  from iter_dive_ok [OF assms(1,2) s holds_nil m, of mode] show ?thesis
    using assms(4,5) by (simp add: iter_eof_def next_mode_def pre_def)
qed

text \<open>An operation takes its direction as an argument.\<close>

definition toward :: "dict_iter \<Rightarrow> bool \<Rightarrow> int" where
  "toward it backw = (if backw then NOT (it_order it) else it_order it)"

lemma toward_xor [simp]: "it_order it XOR - of_bool b = toward it b" "- of_bool b XOR it_order it = toward it b"
  by (cases b; simp add: toward_def; rule bit_eqI; simp add: bit_xor_iff bit_not_iff)+

lemma toward_ok: "iter_inv it n es \<Longrightarrow> mode_ok (toward it b)"
  by (simp add: toward_def iter_inv_def)

text \<open>An iterator in use: its place in one direction is one in the other.\<close>

definition iter_ready :: "dict_iter \<Rightarrow> nat \<Rightarrow> dict_entry list \<Rightarrow> bool" where
  "iter_ready it n es \<longleftrightarrow> iter_inv it n es \<and> (\<exists>bef aft. iter_place (it_order it) it n es bef aft)"

lemma ready_toward: "iter_ready it n es \<Longrightarrow> \<exists>bef aft. iter_place (toward it b) it n es bef aft"
  unfolding iter_ready_def toward_def using iter_place_not by (cases b) (simp, blast, simp)

lemma moved_ready:
  assumes "moved it (toward it b) n es bef aft ok (Inr (r, it'))" and "iter_inv it n es"
  shows "iter_ready it' n es"
proof -
  have s: "same_iter it it'" and p: "iter_place (toward it b) it' n es bef aft" using assms(1) by (auto simp: moved_def)
  have o: "toward it b = toward it' b" using s by (simp add: toward_def same_iter_def)
  have "\<exists>bef aft. iter_place (it_order it') it' n es bef aft"
    using p iter_place_not [OF p] unfolding o by (cases b) (auto simp: toward_def)
  then show ?thesis using same_iter_inv [OF s assms(2)] by (simp add: iter_ready_def)
qed

theorem iter_rewind_ok:
  assumes r: "iter_ready it n es"
  shows "moved it (toward it to_end) n es [] (arranged (toward it to_end) es) True (iter_rewind it to_end)"
proof -
  have i: "iter_inv it n es" and v: "iter_is_valid it" using r by (simp_all add: iter_ready_def iter_inv_def)
  note m = toward_ok [OF i, of to_end]
  obtain bef aft where p: "iter_place (toward it to_end) it n es bef aft" using ready_toward [OF r] by blast
  show ?thesis
  proof (cases "it_root it")
    case None
    then have "es = []" using i by (simp add: iter_inv_def dict_rep_opt_def)
    then show ?thesis using p None v
      by (cases aft) (auto simp: iter_rewind_def moved_def same_iter_def iter_place_def)
  next
    case (Some root)
    have run: "iter_rewind it to_end = rewind_loop it [] (it_path it) (toward it to_end)" using v Some by (simp add: iter_rewind_def)
    show ?thesis
    proof (cases aft)
      case Nil
      then show ?thesis using p rewind_fresh [OF i Some m] unfolding run by (simp add: iter_place_def)
    next
      case (Cons x xs)
      then obtain leaf where l: "it_leaf it = Some leaf" "at_leaf (toward it to_end) n root es (it_path it) (it_key it) leaf bef x xs"
        using p Some by (auto simp: iter_place_def)
      from rewind_loop_ok [OF i Some m, of "[]"] l show ?thesis unfolding run by (simp add: walk_mode_def)
    qed
  qed
qed

theorem iter_next_ok:
  assumes i: "iter_inv it n es" and p: "iter_place (toward it backw) it n es bef (x # aft)"
  shows "moved it (toward it backw) n es (bef @ [x]) aft (aft \<noteq> []) (iter_next it backw)"
proof -
  obtain root leaf where l: "it_root it = Some root" "it_leaf it = Some leaf"
    "at_leaf (toward it backw) n root es (it_path it) (it_key it) leaf bef x aft"
    using p by (auto simp: iter_place_def)
  obtain k c Q ls rest where s: "spine (toward it backw) n root es (it_path it) k c Q [(ls, rest, c_refs c)] bef aft"
    and x: "x = (Q @ ls, rest, c_refs c)" and h: "holds (it_key it) (Q @ ls)"
    using l(3) by (auto simp: at_leaf_def)
  have same: "same_iter it (it\<lparr>it_leaf := None\<rparr>)" by (simp add: same_iter_def)
  have "moved (it\<lparr>it_leaf := None\<rparr>) (toward it backw) n es (bef @ [x]) aft (aft \<noteq> [])
      (iter_backtrace (it\<lparr>it_leaf := None\<rparr>) (rev (it_path it)) (toward it backw))"
    using backtrace_ok [OF s toward_ok [OF i] same_iter_inv [OF same i]] l(1) holds_prefix [OF h] by (simp add: x pre_def)
  from moved_same [OF this same] show ?thesis using i l(1,2) by (simp add: iter_next_def iter_inv_def iter_eof_def)
qed

lemma iter_next_end: "it_leaf it = None \<Longrightarrow> iter_next it backw = Inr (False, it)"
  by (simp add: iter_next_def iter_eof_def)

end
