(* ===== verification/Iter_Lookup.thy ===== *)
theory Iter_Lookup
  imports Dict_Iterator
begin

text \<open>
  \<open>DictIterator::lookup\<close> finds the first entry of a direction that is not before some bits, from
  wherever the iterator is: the part of the path that leads along these bits is kept. What is read
  step by step from there on, from the beginning, or back again, is the list of entries in order.
\<close>

unbundle bit_operations_syntax

section \<open>Lookup\<close>

text \<open>The keys that come before those that begin with the bits \<open>p\<close>, and these themselves when they are
  to be left behind.\<close>

definition before_pos :: "int \<Rightarrow> bool \<Rightarrow> bool list \<Rightarrow> bool list \<Rightarrow> bool" where
  "before_pos mode strict p k \<longleftrightarrow> key_less mode (take (length p) k) p \<or> strict \<and> take (length p) k = p"

definition cuts :: "int \<Rightarrow> bool \<Rightarrow> bool list \<Rightarrow> dict_entry list \<Rightarrow> dict_entry list \<Rightarrow> bool" where
  "cuts mode strict p bef aft \<longleftrightarrow>
     (\<forall>x \<in> set bef. before_pos mode strict p (fst x)) \<and> (\<forall>x \<in> set aft. \<not> before_pos mode strict p (fst x))"

lemma cuts_append:
  "cuts mode strict p (xs @ ys) zs \<longleftrightarrow> cuts mode strict p xs zs \<and> cuts mode strict p ys []"
  "cuts mode strict p zs (xs @ ys) \<longleftrightarrow> cuts mode strict p zs ys \<and> cuts mode strict p [] xs"
  by (auto simp: cuts_def)

lemma before_apart:
  assumes m: "mode_ok mode" and p: "p = q @ (\<not> x) # t"
  shows "before_pos mode strict p (q @ x # k) \<longleftrightarrow> x = odd (next_mode mode (length q))"
proof -
  have "take (length p) (q @ x # k) = q @ x # take (length t) k" by (simp add: p)
  then show ?thesis unfolding before_pos_def p by (simp add: key_less_split [OF m])
qed

lemma before_inside: "before_pos mode strict p (p @ k) = strict"
  by (simp add: before_pos_def)

lemma set_pre_keys: "x \<in> set (pre q es) \<Longrightarrow> \<exists>k. fst x = q @ k"
  by (auto simp: pre_def)

lemma cuts_apart:
  assumes m: "mode_ok mode" and p: "p = q @ (\<not> x) # t" and es: "\<forall>e \<in> set es. \<exists>k. fst e = q @ x # k"
  shows "x = odd (next_mode mode (length q)) \<Longrightarrow> cuts mode strict p es []"
    and "x \<noteq> odd (next_mode mode (length q)) \<Longrightarrow> cuts mode strict p [] es"
  using es before_apart [OF m p] by (auto simp: cuts_def)

lemma cuts_inside:
  assumes "\<forall>e \<in> set es. \<exists>k. fst e = p @ k"
  shows "strict \<Longrightarrow> cuts mode strict p es []" and "\<not> strict \<Longrightarrow> cuts mode strict p [] es"
  using assms before_inside [of mode strict p] by (auto simp: cuts_def)

text \<open>A path along the bits \<open>p\<close> cuts the entries there.\<close>

lemma spine_cuts:
  assumes "spine mode n root es ps m c Q es' bef aft" and "mode_ok mode" and "p = Q @ p'"
  shows "cuts mode strict p bef aft"
  using assms(1,3)
proof (induction arbitrary: p' rule: spine.induct)
  case top
  then show ?case by (simp add: cuts_def)
next
  case (below ps k c Q ls ea eb bef aft a b i sib v first)
  have I: "cuts mode strict p bef aft" using below.IH below.prems by simp
  have p: "p = (Q @ ls) @ (\<not> \<not> v) # p'" using below.prems by simp
  have "\<forall>e \<in> set sib. \<exists>k. fst e = (Q @ ls) @ (\<not> v) # k"
    unfolding below.hyps(6) by (auto simp: pre_def)
  note C = cuts_apart [OF assms(2) p this]
  show ?case
    using I C below.hyps(5,7) by (cases first) (auto simp: cuts_append)
qed

lemma finish_back:
  assumes i: "iter_inv it n es" "it_root it = Some root" and s: "spine mode n root es ps m c Q es' bef aft"
    and h: "holds key Q" and l: "length key = length (it_key it)" and m: "mode_ok mode"
  shows "moved it mode n es (bef @ pre Q (arranged (next_mode mode (length Q)) es')) aft (aft \<noteq> [])
     (lookup_finish it mode (Go_back ps key))"
proof -
  let ?it = "it\<lparr>it_path := ps, it_key := key, it_leaf := None\<rparr>"
  have same: "same_iter it ?it" using l by (simp add: same_iter_def)
  have "moved ?it mode n es (bef @ pre Q (arranged (next_mode mode (length Q)) es')) aft (aft \<noteq> []) (iter_backtrace ?it (rev ps) mode)"
    using backtrace_ok [OF s m same_iter_inv [OF same i(1)]] i(2) h by simp
  from moved_same [OF this same] show ?thesis by (simp add: lookup_finish_def)
qed

lemma finish_dive:
  assumes i: "iter_inv it n es" "it_root it = Some root" and s: "spine mode n root es ps m c Q es' bef aft"
    and h: "holds key Q" and l: "length key = length (it_key it)" and m: "mode_ok mode"
  shows "moved it mode n es bef (pre Q (arranged (next_mode mode (length Q)) es') @ aft) True (lookup_finish it mode (Dive_on ps key))"
proof -
  let ?it = "it\<lparr>it_path := ps, it_key := key\<rparr>"
  have same: "same_iter it ?it" using l by (simp add: same_iter_def)
  have "moved ?it mode n es bef (pre Q (arranged (next_mode mode (length Q)) es') @ aft) True (iter_dive ?it mode)"
    using iter_dive_ok [OF same_iter_inv [OF same i(1)] _ _ _ m, of root m c Q es' bef aft mode] i(2) s h by simp
  from moved_same [OF this same] show ?thesis by (simp add: lookup_finish_def)
qed

text \<open>What the label of a node says of the entries below it.\<close>

lemma action_cases:
  assumes pos: "ptr_ok pos (length p)" "ptr_bits pos (length p) = p" and p: "p = Q @ p'" and m: "mode_ok mode"
  obtains (behind) "lookup_action pos (length p) strict mode (length Q) (lcp ls p') (length ls) = 2"
      "\<And>es. \<forall>e \<in> set es. \<exists>k. fst e = (Q @ ls) @ k \<Longrightarrow> cuts mode strict p es []"
    | (ahead) "lookup_action pos (length p) strict mode (length Q) (lcp ls p') (length ls) = 1"
      "\<And>es. \<forall>e \<in> set es. \<exists>k. fst e = (Q @ ls) @ k \<Longrightarrow> cuts mode strict p [] es"
    | (along) x t where "lookup_action pos (length p) strict mode (length Q) (lcp ls p') (length ls) = 0" "p' = ls @ x # t"
proof -
  have inside: ?thesis if ls: "ls = p' @ t" and l: "lcp ls p' = length p'" for t
  proof -
    have a: "lookup_action pos (length p) strict mode (length Q) (lcp ls p') (length ls) = (if strict then 2 else 1)"
      by (simp add: lookup_action_def l p)
    have "\<exists>k. fst e = p @ k" if "\<exists>k. fst e = (Q @ ls) @ k" for e :: dict_entry using that by (auto simp: ls p)
    then have "cuts mode strict p es []" if "\<forall>e \<in> set es. \<exists>k. fst e = (Q @ ls) @ k" strict for es
      using cuts_inside(1) [of es p strict mode] that by blast
    moreover have "cuts mode strict p [] es" if "\<forall>e \<in> set es. \<exists>k. fst e = (Q @ ls) @ k" "\<not> strict" for es
      using cuts_inside(2) [of es p strict mode] that \<open>\<And>e. \<exists>k. fst e = (Q @ ls) @ k \<Longrightarrow> \<exists>k. fst e = p @ k\<close> by blast
    ultimately show ?thesis using a behind ahead by (cases strict) auto
  qed
  show ?thesis
  proof (cases rule: lcp_cases [of ls p'])
    case equal
    then show ?thesis using inside [of "[]"] by simp
  next
    case (first x t)
    then show ?thesis using inside [of "x # t"] by simp
  next
    case (second x t)
    then show ?thesis using along [of x t] by (simp add: lookup_action_def p)
  next
    case (part q x t1 t2)
    let ?i = "length Q + length q"
    have pe: "p = (Q @ q) @ (\<not> \<not> x) # t1" using p part(1) by simp
    have "ptr_bit pos ?i = p ! ?i" using ptr_bit_nth [OF pos(1), of ?i] pos(2) by (simp add: pe)
    also have "\<dots> = x" by (simp add: pe nth_append)
    finally have b: "ptr_bit pos ?i = x" .
    have a: "lookup_action pos (length p) strict mode (length Q) (lcp ls p') (length ls) =
        (if x \<noteq> odd (next_mode mode ?i) then 2 else 1)"
      unfolding lookup_action_def part(3) b next_mode_pos by (simp add: pe part(2))
    have e: "\<forall>e \<in> set es. \<exists>k. fst e = (Q @ q) @ (\<not> x) # k" if "\<forall>e \<in> set es. \<exists>k. fst e = (Q @ ls) @ k" for es :: "dict_entry list"
      using that by (fastforce simp: part(2))
    note C = cuts_apart [OF m pe e]
    show ?thesis using a C behind ahead by (cases "x = odd (next_mode mode ?i)") auto
  qed
qed

lemma lookup_loop_ok:
  assumes i: "iter_inv it n es" "it_root it = Some root" and m: "mode_ok mode"
    and pos: "ptr_ok pos (length p)" "ptr_bits pos (length p) = p" "length p \<le> n"
    and "spine mode n root es ps k c Q es' bef aft" and "holds key Q" and "p = Q @ p'" and "length key = length (it_key it)"
  shows "\<exists>bef' aft'. cuts mode strict p bef' aft' \<and> moved it mode n es bef' aft' (aft' \<noteq> [])
     (bind_err (lookup_loop (it_label_mode it) pos (length p) strict mode (Some c) k (length Q) key ps) (lookup_finish it mode))"
  using assms(7-10)
proof (induction k arbitrary: c Q es' bef aft key ps p' rule: less_induct)
  case (less k)
  have I: "n \<le> 8 * length key" "n < 2 ^ 31" "it_label_mode it \<noteq> 0" using i(1) less.prems(4) by (simp_all add: iter_inv_def)
  note s = less.prems(1) and h = less.prems(2) and p = less.prems(3)
  note R = spine_rep [OF s]
  note cut = spine_cuts [OF s m p, of strict]
  define S where "S = pre Q (arranged (next_mode mode (length Q)) es')"
  have Sne: "S \<noteq> []" using dict_rep_not_empty(1) [OF R(1)] by (simp add: S_def)
  have behind: ?case if "cuts mode strict p S []"
    and "lookup_loop (it_label_mode it) pos (length p) strict mode (Some c) k (length Q) key ps = Inr (Go_back ps key')"
    and "holds key' Q" and "length key' = length key" for key'
    using finish_back [OF i s that(3) _ m] that(1,2,4) cut less.prems(4)
    by (intro exI [of _ "bef @ S"] exI [of _ aft]) (simp add: cuts_append S_def)
  show ?case
  proof (cases "p' = []")
    case True
    have S: "\<forall>e \<in> set S. \<exists>k. fst e = p @ k" using p True by (auto simp: S_def pre_def)
    have run: "lookup_loop (it_label_mode it) pos (length p) strict mode (Some c) k (length Q) key ps =
        Inr (if strict then Go_back ps key else Dive_on ps key)"
      using p True by (simp add: lookup_loop.simps)
    show ?thesis
    proof (cases strict)
      case True
      then show ?thesis using behind [OF cuts_inside(1) [OF S]] run h by simp
    next
      case False
      then show ?thesis using finish_dive [OF i s h less.prems(4) m] cuts_inside(2) [OF S, of strict mode] cut run Sne
        by (intro exI [of _ bef] exI [of _ "S @ aft"]) (simp add: cuts_append S_def)
    qed
  next
    case False
    then have lt: "length Q < length p" and lp: "length p - length Q = length p'" using p by simp_all
    have room: "length Q + k \<le> 8 * length key" "k < 2 ^ 31" using R(2) I by simp_all
    have pp: "ptr_ok (ptr_add pos (length Q)) (length p')" using pos(1) p by (simp add: ptr_ok_def ptr_add_def)
    have pb: "ptr_bits (ptr_add pos (length Q)) (length p') = p'" using ptr_bits_add [of "length Q" "length p'" "length p" pos] pos(2) p by simp
    have cpl: "label_common_prefix_len lab (ptr_add pos (length Q)) (length p - length Q) = lcp ls p'"
      if "label_view lab ls rest cs" for lab ls rest cs
      using label_common_prefix_len_eq [OF that pp] pb lp by simp
    note unf = lookup_loop.simps [of "it_label_mode it" pos "length p" strict mode "Some c" k "length Q" key ps]
    have Sk: "\<forall>e \<in> set S. \<exists>k. fst e = (Q @ ls) @ k" if "es' = pre ls es0" for ls es0
      unfolding S_def that by (auto simp: pre_def)
    from R(1) h room I(3) show ?thesis
    proof (cases rule: open_node_mode)
      case (leaf lab buf1 lab1 ls rest)
      have es': "es' = pre ls [([], rest, c_refs c)]" using leaf(5) by (simp add: pre_def)
      have hk: "holds buf1 Q" by (rule holds_prefix [OF leaf(6)])
      note run = unf [unfolded leaf(1) bind_err_simps leaf(3) Let_def prod.case leaf(2) cpl [OF leaf(11)]]
      have le: "\<not> (lcp ls p' > k \<or> k > k)" using lcp_le(1) [of ls p'] leaf(4) by simp
      from pos(1,2) p m show ?thesis
      proof (cases rule: action_cases [where strict = strict and ls = ls])
        case b: behind
        have "lookup_loop (it_label_mode it) pos (length p) strict mode (Some c) k (length Q) key ps = Inr (Go_back ps buf1)"
          using run le lt leaf(4) b(1) by simp
        then show ?thesis using behind [OF b(2) [OF Sk [OF es']] _ hk leaf(7)] by simp
      next
        case a: ahead
        let ?it = "it\<lparr>it_path := ps, it_key := buf1, it_leaf := Some (l_remainder lab1)\<rparr>"
        have run': "lookup_loop (it_label_mode it) pos (length p) strict mode (Some c) k (length Q) key ps = Inr (Found ps buf1 (l_remainder lab1))"
          using run le lt leaf(4) a(1) by simp
        have l: "at_leaf mode n root es ps buf1 (l_remainder lab1) bef (Q @ ls, rest, c_refs c) aft"
          unfolding at_leaf_def using s leaf(4-10) by auto
        have S: "S = [(Q @ ls, rest, c_refs c)]" by (simp add: S_def leaf(5) pre_def)
        have "iter_place mode ?it n es bef ((Q @ ls, rest, c_refs c) # aft)"
          using l at_leaf_order [OF l m] i(2) by (simp add: iter_place_def)
        moreover have "same_iter it ?it" using leaf(7) less.prems(4) by (simp add: same_iter_def)
        moreover have "cuts mode strict p bef (S @ aft)" using a(2) [OF Sk [OF es']] cut by (simp add: cuts_append)
        ultimately show ?thesis unfolding run' S by (auto simp: moved_def lookup_finish_def)
      next
        case (along x t)
        then have "n < length p" using leaf(4) R(2) p by simp
        then show ?thesis using pos(3) by simp
      qed
    next
      case (fork lab buf1 lab1 ls a b ea eb)
      define i where "i = length Q + length ls"
      define d where "d = odd (next_mode mode i)"
      have hk: "holds buf1 Q" by (rule holds_prefix [OF fork(9)])
      have ne: "k - length ls \<noteq> 0" using fork(4) by simp
      have le: "\<not> (lcp ls p' > length ls \<or> length ls > k)" using lcp_le(1) [of ls p'] fork(4) by simp
      have refs: "prefetch_ref (l_remainder lab1) (of_bool v) = Some (if v then b else a)"
        "prefetch_ref (l_remainder lab1) (of_bool (\<not> v)) = Some (if v then a else b)" for v
        using view_advanced_ref [OF fork(11,13)] by simp_all
      note run = unf [unfolded fork(1) bind_err_simps fork(3) Let_def prod.case fork(2) cpl [OF fork(14)] if_not_P [OF le] if_not_P [OF ne]
          i_def [symmetric] refs next_mode_pos]
      have room1: "length (Q @ ls) < 8 * length buf1" using room fork(4,10) by simp
      have hv: "holds (ptr_set_bit (buf1, i) 0 v) (Q @ ls @ [v])" for v
        using holds_set_bit [OF fork(9) room1, of v] by (simp add: i_def)
      have len: "length (ptr_set_bit (buf1, i) 0 v) = length (it_key it)" for v using fork(10) less.prems(4) by simp
      note s = s [unfolded fork(8)]
      from pos(1,2) p m show ?thesis
      proof (cases rule: action_cases [where strict = strict and ls = ls])
        case b: behind
        have "lookup_loop (it_label_mode it) pos (length p) strict mode (Some c) k (length Q) key ps = Inr (Go_back ps buf1)"
          using run lt b(1) by simp
        then show ?thesis using behind [OF b(2) [OF Sk [OF fork(8)]] _ hk fork(10)] by simp
      next
        case ah: ahead
        have run': "lookup_loop (it_label_mode it) pos (length p) strict mode (Some c) k (length Q) key ps =
            Inr (Dive_on (ps @ [fork_at a b i d]) (ptr_set_bit (buf1, i) 0 d))"
          using run lt ah(1) by (simp add: d_def fork_at_def)
        note s' = spine_first [OF s fork(4,6,7) i_def d_def]
        have S: "S = pre (Q @ ls @ [d]) (arranged (next_mode mode (length (Q @ ls @ [d]))) (if d then eb else ea))
            @ pre (Q @ ls @ [\<not> d]) (arranged (mode div 2) (if d then ea else eb))"
          unfolding S_def fork(8) arranged_node [OF m d_def [unfolded i_def]] by simp
        have "moved it mode n es bef (S @ aft) True (lookup_finish it mode (Dive_on (ps @ [fork_at a b i d]) (ptr_set_bit (buf1, i) 0 d)))"
          using finish_dive [OF assms(1,2) s' hv len m] unfolding S by simp
        moreover have "cuts mode strict p bef (S @ aft)" using ah(2) [OF Sk [OF fork(8)]] cut by (simp add: cuts_append)
        ultimately show ?thesis using Sne unfolding run' by (intro exI [of _ bef] exI [of _ "S @ aft"]) simp
      next
        case (along x t)
        have "ptr_bit pos i = p ! i" using ptr_bit_nth [OF pos(1), of i] pos(2) by (simp add: p along(2) i_def)
        also have "\<dots> = x" by (simp add: p along(2) i_def nth_append)
        finally have bit: "ptr_bit pos i = x" .
        have run': "lookup_loop (it_label_mode it) pos (length p) strict mode (Some c) k (length Q) key ps =
            lookup_loop (it_label_mode it) pos (length p) strict mode (Some (if x then b else a)) (k - length ls - 1) (length (Q @ ls @ [x]))
              (ptr_set_bit (buf1, i) 0 x) (ps @ [fork_at a b i x])"
          using run lt along(1) bit by (simp add: fork_at_def i_def)
        note s' = spine.below [OF s fork(4,6,7) i_def refl refl, of x]
        have "k - length ls - 1 < k" "p = (Q @ ls @ [x]) @ t" using fork(4) p along(2) by simp_all
        from less.IH [OF this(1) s' hv this(2) len] show ?thesis unfolding run' .
      qed
    qed
  qed
qed

text \<open>\<open>lookup_from\<close> starts at the end of the path.\<close>

lemma lookup_from_start:
  assumes i: "iter_inv it n es" "it_root it = Some root" and s: "spine mode n root es (it_path it) k c Q es' bef aft"
    and t: "toward it backw = mode"
  shows "lookup_from it pos l strict backw =
     bind_err (lookup_loop (it_label_mode it) pos l strict mode (Some c) k (length Q) (it_key it) (it_path it)) (lookup_finish it mode)"
proof -
  have n: "nat (it_key_bits it) = n" using i(1) by (simp add: iter_inv_def)
  have k: "k = n - length Q" using spine_rep(2) [OF s] by simp
  show ?thesis unfolding k using spine_last [OF s] i(2) by (auto simp: lookup_from_def Let_def t n)
qed

lemma lookup_from_ok:
  assumes i: "iter_inv it n es" "it_root it = Some root" and t: "toward it backw = mode"
    and pos: "ptr_ok pos (length p)" "ptr_bits pos (length p) = p" "length p \<le> n"
    and s: "spine mode n root es (it_path it) k c Q es' bef aft" and h: "holds (it_key it) Q" and p: "p = Q @ p'"
  shows "\<exists>bef' aft'. cuts mode strict p bef' aft' \<and> moved it mode n es bef' aft' (aft' \<noteq> []) (lookup_from it pos (length p) strict backw)"
  unfolding lookup_from_start [OF i s t]
  by (rule lookup_loop_ok [OF i _ pos s h p refl]) (use toward_ok [OF i(1), of backw] t in simp)

text \<open>The fork at the end of the bits has been turned to the side that is wanted, or away from it.\<close>

lemma lookup_from_turned:
  assumes i: "iter_inv it n es" "it_root it = Some root" and t: "toward it backw = mode"
    and s: "spine mode n root es ps k c Q (pre ls (pre [False] ea @ pre [True] eb)) bef aft"
    and F: "length ls < k" "dict_rep (k - length ls - 1) a ea" "dict_rep (k - length ls - 1) b eb"
    and p: "p = Q @ ls" and v: "v = (strict \<noteq> odd (next_mode mode (length p)))"
    and path: "it_path it = ps @ [fork_at a b (length p) v]" and h: "holds (it_key it) (Q @ ls @ [v])"
  shows "\<exists>bef' aft'. cuts mode strict p bef' aft' \<and> moved it mode n es bef' aft' (aft' \<noteq> []) (lookup_from it pos (length p) strict backw)"
proof -
  have m: "mode_ok mode" using toward_ok [OF i(1), of backw] t by simp
  have lp: "length p = length Q + length ls" by (simp add: p)
  have key: "\<forall>e \<in> set (pre (Q @ ls @ [x]) X). \<exists>k. fst e = p @ k" for x X by (auto simp: pre_def p)
  define A where "A = pre (Q @ ls @ [v]) (arranged (mode div 2) (if v then eb else ea))"
  define B where "B = pre (Q @ ls @ [\<not> v]) (arranged (mode div 2) (if v then ea else eb))"
  have ne: "A \<noteq> []" using dict_rep_not_empty(1) [OF F(2)] dict_rep_not_empty(1) [OF F(3)] by (simp add: A_def)
  have loop: "lookup_loop lm pos (length p) strict mode (Some x) j (length (Q @ ls @ [v])) (it_key it) (it_path it) =
      Inr (if strict then Go_back (it_path it) (it_key it) else Dive_on (it_path it) (it_key it))" for lm x j
    by (simp add: lookup_loop.simps lp)
  show ?thesis
  proof (cases strict)
    case True
    then have "v \<noteq> odd (next_mode mode (length p))" using v by simp
    note s' = spine_second [OF s F lp this, folded path]
    have "moved it mode n es (bef @ B @ A) aft (aft \<noteq> []) (lookup_from it pos (length p) strict backw)"
      unfolding lookup_from_start [OF i s' t] loop using finish_back [OF i s' h refl m] True by (simp add: A_def B_def)
    moreover have "cuts mode strict p (bef @ B @ A) aft"
      using spine_cuts [OF s m p, of strict] cuts_inside(1) [OF key True] by (simp add: cuts_append A_def B_def)
    ultimately show ?thesis by blast
  next
    case False
    then have "v = odd (next_mode mode (length p))" using v by simp
    note s' = spine_first [OF s F lp this, folded path]
    have "moved it mode n es bef (A @ B @ aft) True (lookup_from it pos (length p) strict backw)"
      unfolding lookup_from_start [OF i s' t] loop using finish_dive [OF i s' h refl m] False by (simp add: A_def B_def)
    moreover have "cuts mode strict p bef (A @ B @ aft)"
      using spine_cuts [OF s m p, of strict] cuts_inside(2) [OF key False] by (simp add: cuts_append A_def B_def)
    ultimately show ?thesis using ne by (intro exI [of _ bef] exI [of _ "A @ B @ aft"]) simp
  qed
qed

section \<open>The part of the path that is kept\<close>

lemma spine_length: "spine mode N root es ps n c Q es' bef aft \<Longrightarrow> \<forall>pe \<in> set ps. fk_pos pe < bp \<Longrightarrow> length Q \<le> bp"
  using spine_last [of mode N root es ps n c Q es' bef aft] by (metis Suc_leI last_in_set le0 list.size(3))

text \<open>The path of the iterator, of which \<open>kept\<close> is the part above bit \<open>bp\<close>, is at the key \<open>K\<close>; \<open>p\<close>
  agrees with it up to this bit, and not there.\<close>

lemma fill_side: "odd (next_mode (toward it (strict \<noteq> backw)) i) = (strict \<noteq> odd (next_mode (toward it backw) i))"
  by (cases strict; cases backw) (simp_all add: toward_def next_mode_not)

lemma reuse_ok:
  assumes i: "iter_inv it n es" "it_root it = Some root" and t: "toward it backw = mode"
    and pos: "ptr_ok pos (length p)" "ptr_bits pos (length p) = p" "length p \<le> n"
    and s0: "spine mode n root es (kept @ rest) k0 c0 Q0 es0 bef0 aft0" and h0: "holds (it_key it) (Q0 @ ls0)"
    and agree: "take bp (Q0 @ ls0) = take bp p" "bp \<le> length p" "bp < length p \<Longrightarrow> bp < length (Q0 @ ls0) \<Longrightarrow> (Q0 @ ls0) ! bp \<noteq> p ! bp"
    and kept: "\<forall>pe \<in> set kept. fk_pos pe < bp"
  shows "\<exists>bef' aft'. cuts mode strict p bef' aft' \<and> moved it mode n es bef' aft' (aft' \<noteq> [])
     (lookup_from (lookup_reuse it kept rest bp (length p) (toward it (strict \<noteq> backw))) pos (length p) strict backw)"
  using s0 kept
proof (induction rest arbitrary: kept)
  let ?done = "\<lambda>it'. \<exists>bef' aft'. cuts mode strict p bef' aft' \<and> moved it mode n es bef' aft' (aft' \<noteq> []) (lookup_from it' pos (length p) strict backw)"
  have along: "?done it'" if same: "same_iter it it'" and s: "spine mode n root es (it_path it') k c Q es' bef aft"
    and h: "holds (it_key it') Q" and Q: "Q = take (length Q) p" for it' k c Q es' bef aft
  proof -
    have "toward it' backw = toward it backw" using same by (simp add: same_iter_def toward_def)
    then have r: "it_root it' = Some root" "toward it' backw = mode" using same i(2) t by (simp_all add: same_iter_def)
    have "p = Q @ drop (length Q) p" using Q by (metis append_take_drop_id)
    from lookup_from_ok [OF same_iter_inv [OF same i(1)] r pos s h this] show ?thesis using moved_same [OF _ same] by blast
  qed
  have keep: "?done (it\<lparr>it_path := kept\<rparr>)" if s: "spine mode n root es kept k c Q es' bef aft" and "Q0 = Q @ R"
    and "\<forall>pe \<in> set kept. fk_pos pe < bp" for kept k c Q es' bef aft R
  proof (rule along)
    show "spine mode n root es (it_path (it\<lparr>it_path := kept\<rparr>)) k c Q es' bef aft" using s by simp
    show "holds (it_key (it\<lparr>it_path := kept\<rparr>)) Q" using h0 that(2) holds_prefix [of "it_key it" Q "R @ ls0"] by simp
    have "length Q \<le> bp" by (rule spine_length [OF s that(3)])
    moreover have "take (length Q) (take bp (Q0 @ ls0)) = take (length Q) (take bp p)" using agree(1) by simp
    ultimately show "Q = take (length Q) p" using that(2) by (simp add: min_def)
  qed (simp add: same_iter_def)
  {
    case Nil
    then show ?case using keep [of kept k0 c0 Q0 es0 bef0 aft0 "[]"] by simp
  next
    case (Cons pe rest)
    obtain k c Q ls ea eb bef aft a b v R where s: "spine mode n root es kept k c Q (pre ls (pre [False] ea @ pre [True] eb)) bef aft"
      and F: "length ls < k" "dict_rep (k - length ls - 1) a ea" "dict_rep (k - length ls - 1) b eb"
      and pe: "pe = fork_at a b (length Q + length ls) v" and Q0: "Q0 = (Q @ ls @ [v]) @ R"
      using spine_split [OF Cons.prems(1) refl] by blast
    define j where "j = length Q + length ls"
    have K: "?done (it\<lparr>it_path := kept\<rparr>)" using keep [OF s _ Cons.prems(2), of "ls @ [v] @ R"] Q0 by simp
    define fill where "fill = toward it (strict \<noteq> backw)"
    have fill: "odd (next_mode fill bp) = (strict \<noteq> odd (next_mode mode bp))" unfolding fill_def fill_side t ..
    consider "\<not> j \<le> bp" | "j = bp" "\<not> (bp < length p \<or> v \<noteq> (strict \<noteq> odd (next_mode mode bp)))"
      | "j = bp" "bp < length p \<or> v \<noteq> (strict \<noteq> odd (next_mode mode bp))" | "j < bp" by linarith
    then show ?case
    proof cases
      case 1
      then show ?thesis unfolding fill_def [symmetric] using K by (simp add: pe j_def)
    next
      case 2
      then show ?thesis unfolding fill_def [symmetric] using K by (simp add: pe j_def [symmetric] next_mode_pos fill)
    next
      case 3
      let ?it = "it\<lparr>it_key := ptr_set_bit (it_key it, j) 0 (\<not> v), it_path := kept @ [fork_at a b j (\<not> v)]\<rparr>"
      have same: "same_iter it ?it" by (simp add: same_iter_def)
      have run: "lookup_reuse it kept (pe # rest) bp (length p) fill = ?it"
        using 3 by (simp add: pe j_def [symmetric] next_mode_pos fill)
      have "holds (it_key it) (Q @ ls @ [v])" using h0 Q0 holds_prefix [of "it_key it" "Q @ ls @ [v]" "R @ ls0"] by simp
      from turned_key [OF this, of "\<not> v"] have h: "holds (it_key ?it) (Q @ ls @ [\<not> v])" by (simp add: j_def)
      have tk: "take j p = Q @ ls" using agree(1) 3(1) by (simp add: Q0 j_def [symmetric]) (simp add: j_def)
      show ?thesis
      proof (cases "j < length p")
        case True
        have "p ! j \<noteq> v" using agree(3) True 3(1) by (auto simp: Q0 j_def nth_append)
        then have "take (Suc j) p = Q @ ls @ [\<not> v]" using True tk by (simp add: take_Suc_conv_app_nth)
        then have "Q @ ls @ [\<not> v] = take (length (Q @ ls @ [\<not> v])) p" by (simp add: j_def)
        from along [OF same _ h this] spine.below [OF s F j_def refl refl, of "\<not> v"] show ?thesis unfolding fill_def [symmetric] run by simp
      next
        case False
        then have jp: "j = length p" using 3(1) agree(2) by simp
        then have p: "p = Q @ ls" using tk by simp
        have "toward ?it backw = toward it backw" by (simp add: toward_def)
        then have r: "it_root ?it = Some root" "toward ?it backw = mode" using i(2) t by simp_all
        have v: "(\<not> v) = (strict \<noteq> odd (next_mode mode (length p)))" using 3 jp by auto
        have path: "it_path ?it = kept @ [fork_at a b (length p) (\<not> v)]" by (simp add: jp)
        from lookup_from_turned [OF same_iter_inv [OF same i(1)] r s F p v path h]
        show ?thesis unfolding fill_def [symmetric] run using moved_same [OF _ same] by blast
      qed
    next
      case 4
      then have "lookup_reuse it kept (pe # rest) bp (length p) fill =
          lookup_reuse it (kept @ [pe]) rest bp (length p) fill"
        by (simp add: pe j_def)
      then show ?thesis unfolding fill_def [symmetric] using Cons.IH [of "kept @ [pe]"] Cons.prems 4 by (simp add: pe j_def fill_def)
    qed
  }
qed

section \<open>The lookup of the iterator\<close>

text \<open>The two parts of the order at which the lookup arrives: the entries before the bits \<open>p\<close>, in the
  direction taken, and the others.\<close>

lemma cuts_filter:
  assumes "cuts mode strict p bef aft"
  shows "filter (\<lambda>x. before_pos mode strict p (fst x)) (bef @ aft) = bef"
    and "filter (\<lambda>x. \<not> before_pos mode strict p (fst x)) (bef @ aft) = aft"
  using assms by (auto simp: cuts_def filter_empty_conv intro: filter_True)

lemma moved_cut:
  assumes "cuts mode strict p bef aft" and "moved it mode n es bef aft ok r"
  shows "bef = filter (\<lambda>x. before_pos mode strict p (fst x)) (arranged mode es)"
    and "aft = filter (\<lambda>x. \<not> before_pos mode strict p (fst x)) (arranged mode es)"
proof -
  have "arranged mode es = bef @ aft" using assms(2) by (auto simp: moved_def iter_place_def)
  then show "bef = filter (\<lambda>x. before_pos mode strict p (fst x)) (arranged mode es)"
    "aft = filter (\<lambda>x. \<not> before_pos mode strict p (fst x)) (arranged mode es)"
    using cuts_filter [OF assms(1)] by simp_all
qed

text \<open>The bits \<open>p\<close> and the key \<open>K\<close> that the iterator is at agree up to this bit, and not there.\<close>

lemma agreement:
  assumes "length p = l" and "l \<le> length K"
  defines "bp \<equiv> (if take l K = p then l else lcp (take l K) p)"
  shows "take bp K = take bp p" and "bp \<le> length p" and "bp < length p \<Longrightarrow> K ! bp \<noteq> p ! bp"
proof -
  have lens: "length (take l K) = length p" using assms by simp
  have "take bp K = take bp p \<and> bp \<le> length p \<and> (bp < length p \<longrightarrow> K ! bp \<noteq> p ! bp)"
  proof (cases rule: lcp_cases [of "take l K" p])
    case equal
    then show ?thesis using assms by auto
  next
    case (part q x t1 t2)
    have ne: "take l K \<noteq> p" using part by simp
    have "take (length q) (take l K) = q" "take l K ! length q = (\<not> x)" "p ! length q = x" "take (length q) p = q"
      unfolding part(1,2) by (simp_all add: nth_append)
    moreover have "length q < l" using assms(1) part(1) by simp
    ultimately show ?thesis using ne part(1,3) by (simp add: bp_def min_def)
  qed (use lens in simp_all)
  then show "take bp K = take bp p" "bp \<le> length p" "bp < length p \<Longrightarrow> K ! bp \<noteq> p ! bp" by blast+
qed

theorem iter_lookup_ok:
  fixes backw strict :: bool
  assumes r: "iter_ready it n es" and root: "it_root it = Some root"
    and pos: "ptr_ok pos l" "l \<le> n"
  defines "mode \<equiv> toward it backw" and "p \<equiv> ptr_bits pos l"
  shows "\<exists>bef aft. cuts mode strict p bef aft \<and> moved it mode n es bef aft (aft \<noteq> []) (iter_lookup it pos (int l) strict backw)"
proof -
  have i: "iter_inv it n es" and kb: "it_key_bits it = int n" and v: "iter_is_valid it" and n: "n \<le> 8 * length (it_key it)"
    using r by (simp_all add: iter_ready_def iter_inv_def)
  have m: "mode_ok mode" using toward_ok [OF i] by (simp add: mode_def)
  have lp: "length p = l" using pos(1) by (simp add: p_def)
  have pos': "ptr_ok pos (length p)" "ptr_bits pos (length p) = p" "length p \<le> n" using pos by (simp_all add: lp p_def)
  obtain bef aft where pl: "iter_place mode it n es bef aft" using ready_toward [OF r, of backw] by (auto simp: mode_def)
  show ?thesis
  proof (cases aft)
    case Nil
    then have e: "it_path it = []" "it_leaf it = None" using pl by (simp_all add: iter_place_def)
    have "dict_rep n root es" using i root by (simp add: iter_inv_def dict_rep_opt_def)
    from spine.top [OF this, of mode] have s: "spine mode n root es (it_path it) n root [] es [] []" by (simp add: e)
    have run: "iter_lookup it pos (int l) strict backw = lookup_from it pos (length p) strict backw"
      using v root pos(2) kb e by (simp add: iter_lookup_def iter_eof_def lp)
    show ?thesis unfolding run by (rule lookup_from_ok [OF i root _ pos' s]) (simp_all add: mode_def)
  next
    case (Cons x xs)
    obtain leaf where l: "it_leaf it = Some leaf" "at_leaf mode n root es (it_path it) (it_key it) leaf bef x xs"
      using pl root Cons by (auto simp: iter_place_def)
    obtain k c Q ls rest where s: "spine mode n root es (it_path it) k c Q [(ls, rest, c_refs c)] bef xs"
      and x: "x = (Q @ ls, rest, c_refs c)" and h: "holds (it_key it) (Q @ ls)" and ls: "length ls = k"
      using l(2) by (auto simp: at_leaf_def)
    define K where "K = Q @ ls"
    have K: "length K = n" using spine_rep(2) [OF s] ls by (simp add: K_def)
    have "take l (take n (bits_of (it_key it))) = take l K" using h K by (simp add: holds_def K_def)
    then have tk: "take l (bits_of (it_key it)) = take l K" using pos(2) by (simp add: min_def)
    have cmp: "bits_memcmp (it_key it) 0 (fst pos) (snd pos) l =
        (lex_cmp (take l K) p, if l = 0 then None else Some (lcp (take l K) p))"
      using bits_memcmp_correct [of 0 l "it_key it" "snd pos" "fst pos"] n pos by (simp add: tk p_def ptr_bits_def ptr_ok_def)
    have eq: "fst (bits_memcmp (it_key it) 0 (fst pos) (snd pos) l) = 0 \<longleftrightarrow> take l K = p" by (simp add: cmp lex_cmp_eq_0)
    have upto: "(if take l K = p then l else upto_or_0 (bits_memcmp (it_key it) 0 (fst pos) (snd pos) l)) =
        (if take l K = p then l else lcp (take l K) p)"
      using lp by (auto simp: cmp upto_or_0_def)
    have unf: "iter_lookup it pos (int l) strict backw =
        (if take l K = p \<and> l = n then if \<not> strict then Inr (True, it) else iter_next it backw
         else lookup_from (lookup_reuse it [] (it_path it) (if take l K = p then l else lcp (take l K) p) l
                (toward it (strict \<noteq> backw))) pos l strict backw)"
    proof -
      have c: "int l \<ge> int n \<longleftrightarrow> l = n" and g: "\<not> (\<not> iter_is_valid it \<or> it_root it = None \<or> int l < 0 \<or> int l > int n)"
        and e: "\<not> iter_eof it"
        using v root pos(2) l(1) by (auto simp: iter_eof_def)
      show ?thesis unfolding iter_lookup_def kb if_not_P [OF g] Let_def if_P [OF e] nat_int eq c upto toward_xor ..
    qed
    show ?thesis
    proof (cases "take l K = p \<and> l = n")
      case at: True
      then have p: "p = Q @ ls" using K unfolding K_def [symmetric] by auto
      have C: "cuts mode strict p bef xs" by (rule spine_cuts [OF s m p])
      have xk: "\<forall>e \<in> set [x]. \<exists>k. fst e = p @ k" by (simp add: x p)
      show ?thesis
      proof (cases strict)
        case True
        have "moved it mode n es (bef @ [x]) xs (xs \<noteq> []) (iter_next it backw)"
          using iter_next_ok [OF i, of backw bef x xs] pl Cons by (simp add: mode_def)
        moreover have "cuts mode strict p (bef @ [x]) xs" using C cuts_inside(1) [OF xk True] by (simp add: cuts_append)
        ultimately show ?thesis unfolding unf if_P [OF at] using True by auto
      next
        case False
        have "moved it mode n es bef (x # xs) True (Inr (True, it))" using pl Cons by (simp add: moved_def same_iter_def)
        moreover have "cuts mode strict p bef (x # xs)"
          using C cuts_inside(2) [OF xk False] cuts_append(2) [of mode strict p bef "[x]" xs] by simp
        ultimately show ?thesis unfolding unf if_P [OF at] using False
          by (simp, rule_tac x = bef in exI, rule_tac x = "x # xs" in exI, simp)
      qed
    next
      case False
      define bp where "bp = (if take l K = p then l else lcp (take l K) p)"
      have run: "iter_lookup it pos (int l) strict backw =
          lookup_from (lookup_reuse it [] (it_path it) bp (length p) (toward it (strict \<noteq> backw))) pos (length p) strict backw"
        unfolding unf if_not_P [OF False] bp_def lp ..
      have "l \<le> length K" using pos(2) K by simp
      note a = agreement [OF lp this, folded bp_def, unfolded K_def]
      have s': "spine mode n root es ([] @ it_path it) k c Q [(ls, rest, c_refs c)] bef xs" using s by simp
      show ?thesis unfolding run
        by (rule reuse_ok [OF i root meta_eq_to_obj_eq [OF mode_def [symmetric]] pos' s' h a(1,2)]) (use a(3) in auto)
    qed
  qed
qed

section \<open>Walking\<close>

text \<open>The order of the iteration is that of the keys.\<close>

lemma key_less_prefix:
  assumes m: "mode_ok mode" and l: "length a = length b"
  shows "key_less mode (ls @ a) (ls @ b) = key_less (next_mode mode (length ls)) a b"
proof (cases a)
  case Nil
  then show ?thesis using l by simp
next
  case (Cons x a')
  then obtain y b' where b: "b = y # b'" using l by (cases b) auto
  have "key_less (next_mode mode (length ls)) ([] @ x # a') ([] @ y # b') =
      (if x = y then key_less (next_mode mode (length ls) div 2) a' b' else x = odd (next_mode mode (length ls)))"
    using key_less_split [OF next_mode_ok [OF m], of "length ls" "[]"] by (simp add: next_mode_def)
  then show ?thesis unfolding Cons b key_less_split [OF m] by simp
qed

lemma sorted_pre:
  assumes m: "mode_ok mode" and l: "\<forall>k \<in> set (map fst es). length k = n"
    and s: "sorted_wrt (\<lambda>x y. key_less (next_mode mode (length ls)) (fst x) (fst y)) es"
  shows "sorted_wrt (\<lambda>x y. key_less mode (fst x) (fst y)) (pre ls es)"
proof -
  have "sorted_wrt (\<lambda>x y. key_less mode (ls @ fst x) (ls @ fst y)) es"
    by (rule sorted_wrt_mono_rel [OF _ s]) (use l key_less_prefix [OF m] in simp)
  then show ?thesis by (simp add: pre_def sorted_wrt_map case_prod_beta)
qed

lemma arranged_sorted:
  "dict_rep n c es \<Longrightarrow> mode_ok mode \<Longrightarrow> sorted_wrt (\<lambda>x y. key_less mode (fst x) (fst y)) (arranged mode es)"
  "payload_rep n rest refs es \<Longrightarrow> mode_ok mode \<Longrightarrow> sorted_wrt (\<lambda>x y. key_less mode (fst x) (fst y)) (arranged mode es)"
proof (induction arbitrary: mode and mode rule: dict_rep_payload_rep.inducts)
  case (node c n ls rest es)
  have l: "\<forall>k \<in> set (map fst (arranged m es)). length k = n - length ls" for m
    using dict_rep_lengths(2) [OF node.hyps(3)] by simp
  show ?case unfolding arranged_label [OF node.prems]
    by (rule sorted_pre [OF node.prems l node.IH]) (simp add: node.prems)
next
  case (leaf rest refs)
  then show ?case by simp
next
  case (fork m a ea b eb)
  have l: "\<forall>k \<in> set (map fst (arranged m' (if x then eb else ea))). length k = m" for m' x
    using dict_rep_lengths(1) [OF fork.hyps(1)] dict_rep_lengths(1) [OF fork.hyps(2)] by simp
  have "sorted_wrt (\<lambda>x y. key_less mode (fst x) (fst y)) (pre [x] (arranged (mode div 2) (if x then eb else ea)))" for x
    by (rule sorted_pre [OF fork.prems l]) (use fork.IH [of "mode div 2"] fork.prems in \<open>simp add: next_mode_def\<close>)
  from this [of "odd mode"] this [of "\<not> odd mode"] show ?case
    using key_less_split [OF fork.prems, of "[]"] unfolding arranged_fork [OF fork.prems]
    by (auto simp: sorted_wrt_append pre_def next_mode_def)
qed

text \<open>A cursor over a list of entries, and what is read from one step by step.\<close>

fun cursor_walk :: "('i \<Rightarrow> bool) \<Rightarrow> ('i \<Rightarrow> 'x) \<Rightarrow> ('i \<Rightarrow> 'e + bool \<times> 'i) \<Rightarrow> nat \<Rightarrow> 'i \<Rightarrow> 'e + 'x list" where
  "cursor_walk eof entry step 0 it = Inr []"
| "cursor_walk eof entry step (Suc fuel) it =
     (if eof it then Inr []
      else bind_err (step it) (\<lambda>(ok, it'). bind_err (cursor_walk eof entry step fuel it') (\<lambda>xs. Inr (entry it # xs))))"

locale cursor =
  fixes eof :: "'i \<Rightarrow> bool" and entry :: "'i \<Rightarrow> 'x" and step :: "'i \<Rightarrow> 'e + bool \<times> 'i" and left :: "'i \<Rightarrow> 'x list \<Rightarrow> bool"
  assumes left_Nil: "left it [] \<Longrightarrow> eof it"
    and left_Cons: "left it (x # xs) \<Longrightarrow> \<not> eof it \<and> entry it = x \<and> (\<exists>it'. step it = Inr (xs \<noteq> [], it') \<and> left it' xs)"
begin

lemma walk_left: "left it xs \<Longrightarrow> length xs \<le> fuel \<Longrightarrow> cursor_walk eof entry step fuel it = Inr xs"
proof (induction fuel arbitrary: it xs)
  case (Suc fuel)
  show ?case
  proof (cases xs)
    case Nil
    then show ?thesis using left_Nil Suc.prems(1) by simp
  next
    case (Cons x ys)
    then show ?thesis using left_Cons [of it x ys] Suc by auto
  qed
qed simp

end

declare cursor_walk.simps [simp del]

definition iter_entry :: "dict_iter \<Rightarrow> dict_entry" where
  "iter_entry it =
     (ptr_bits (it_key it, 0) (nat (it_key_bits it)),
      (case it_leaf it of None \<Rightarrow> ([], []) | Some v \<Rightarrow> (slice_bits v, slice_children v)))"

abbreviation iter_walk :: "bool \<Rightarrow> nat \<Rightarrow> dict_iter \<Rightarrow> dict_error + dict_entry list" where
  "iter_walk backw \<equiv> cursor_walk iter_eof iter_entry (\<lambda>it. iter_next it backw)"

definition iter_left :: "nat \<Rightarrow> dict_entry list \<Rightarrow> bool \<Rightarrow> dict_iter \<Rightarrow> dict_entry list \<Rightarrow> bool" where
  "iter_left n es backw it xs \<longleftrightarrow> iter_inv it n es \<and> (\<exists>bef. iter_place (toward it backw) it n es bef xs)"

lemma iter_entry_place:
  assumes "iter_inv it n es" and "iter_place mode it n es bef (x # xs)"
  shows "iter_entry it = x"
proof -
  obtain leaf root where l: "it_leaf it = Some leaf" "at_leaf mode n root es (it_path it) (it_key it) leaf bef x xs"
    using assms(2) by (auto simp: iter_place_def)
  obtain k c Q ls rest where s: "spine mode n root es (it_path it) k c Q [(ls, rest, c_refs c)] bef xs"
    and x: "x = (Q @ ls, rest, c_refs c)" and h: "holds (it_key it) (Q @ ls)" and ls: "length ls = k"
    and v: "slice_bits leaf = rest" "slice_children leaf = c_refs c"
    using l(2) by (auto simp: at_leaf_def)
  have "nat (it_key_bits it) = length (Q @ ls)" using spine_rep(2) [OF s] ls assms(1) by (simp add: iter_inv_def)
  then have "ptr_bits (it_key it, 0) (nat (it_key_bits it)) = Q @ ls" using h by (simp add: ptr_bits_def holds_def)
  then show ?thesis using x l(1) v by (simp add: iter_entry_def)
qed

lemma same_toward: "same_iter it it' \<Longrightarrow> toward it' b = toward it b"
  by (simp add: same_iter_def toward_def)

interpretation iter: cursor iter_eof iter_entry "\<lambda>it. iter_next it backw" "iter_left n es backw"
proof
  fix it assume "iter_left n es backw it []"
  then show "iter_eof it" by (auto simp: iter_left_def iter_place_def iter_eof_def)
next
  fix it x xs assume l: "iter_left n es backw it (x # xs)"
  then obtain bef where i: "iter_inv it n es" and p: "iter_place (toward it backw) it n es bef (x # xs)"
    by (auto simp: iter_left_def)
  obtain it' where "iter_next it backw = Inr (xs \<noteq> [], it')" "same_iter it it'" "iter_place (toward it backw) it' n es (bef @ [x]) xs"
    using iter_next_ok [OF i p] by (auto simp: moved_def)
  moreover have "\<not> iter_eof it" using p by (auto simp: iter_place_def iter_eof_def)
  ultimately show "\<not> iter_eof it \<and> iter_entry it = x \<and> (\<exists>it'. iter_next it backw = Inr (xs \<noteq> [], it') \<and> iter_left n es backw it' xs)"
    using iter_entry_place [OF i p] same_iter_inv [OF _ i] same_toward by (auto simp: iter_left_def)
qed

lemma moved_left: "moved it (toward it backw) n es bef xs ok (Inr (r, it')) \<Longrightarrow> iter_inv it n es \<Longrightarrow> iter_left n es backw it' xs"
  unfolding moved_def iter_left_def using same_iter_inv same_toward by fastforce

section \<open>The iterators of a dictionary\<close>

definition iter_order :: "int \<Rightarrow> int" where
  "iter_order mode = (- (mode AND 1)) XOR ((mode div 2) AND 1)"

lemma mode_and_3: "mode AND 3 \<in> {0, 1, 2, 3 :: int}"
proof -
  have "mode AND 3 = take_bit 2 mode" by (simp add: take_bit_eq_mask mask_eq_exp_minus_1)
  then have "mode AND 3 = mode mod 4" by (simp add: take_bit_eq_mod)
  then show ?thesis by auto
qed

lemma iter_order_ok: "mode_ok (iter_order (mode AND 3))"
  using mode_and_3 [of mode] by (auto simp: iter_order_def mode_ok_cases)

lemma new_iter_fields:
  assumes "0 < n" and "n \<le> max_key_bits" and "d_key_bits d = int n"
  shows "it_order (new_iter_dict d mode) = iter_order (mode AND 3)" and "it_root (new_iter_dict d mode) = d_root_cell d"
    and "it_path (new_iter_dict d mode) = []" and "it_leaf (new_iter_dict d mode) = None"
    and "iter_is_valid (new_iter_dict d mode)" and "it_key_bits (new_iter_dict d mode) = int n"
    and "it_label_mode (new_iter_dict d mode) = chk_all" and "length (it_key (new_iter_dict d mode)) = max_key_bytes"
proof -
  have "mode AND 3 \<ge> 0" using mode_and_3 [of mode] by auto
  moreover have "(x OR 4) AND 4 = (4 :: int)" for x by (rule bit_eqI) (auto simp: bit_simps)
  ultimately show "it_order (new_iter_dict d mode) = iter_order (mode AND 3)" "it_root (new_iter_dict d mode) = d_root_cell d"
    "it_path (new_iter_dict d mode) = []" "it_leaf (new_iter_dict d mode) = None" "iter_is_valid (new_iter_dict d mode)"
    "it_key_bits (new_iter_dict d mode) = int n" "it_label_mode (new_iter_dict d mode) = chk_all"
    "length (it_key (new_iter_dict d mode)) = max_key_bytes"
    using assms by (simp_all add: new_iter_dict_def new_iter_def iter_prevalidate_def iter_order_def Let_def iter_is_valid_def it_f_valid_def)
qed

lemma new_iter_ready:
  assumes d: "dict_inv d n es" and n: "0 < n"
  shows "iter_ready (new_iter_dict d mode) n es"
proof -
  have D: "n \<le> max_key_bits" "d_key_bits d = int n" "dict_rep_opt n (d_root_cell d) es" using d by (simp_all add: dict_inv_def)
  note F = new_iter_fields [OF n D(1,2), of mode]
  have "iter_inv (new_iter_dict d mode) n es" using F D n iter_order_ok [of mode] by (simp add: iter_inv_def)
  moreover have "iter_place (it_order (new_iter_dict d mode)) (new_iter_dict d mode) n es (arranged (it_order (new_iter_dict d mode)) es) []"
    using F by (simp add: iter_place_def)
  ultimately show ?thesis unfolding iter_ready_def by blast
qed

theorem make_iterator_ok:
  assumes d: "dict_inv d n es" and n: "0 < n"
  shows "\<exists>it. make_iterator d mode = Inr (it, d) \<and> it_order it = iter_order (mode AND 3) \<and> iter_ready it n es
     \<and> iter_left n es False it (arranged (iter_order (mode AND 3)) es)"
proof -
  let ?it = "new_iter_dict d mode"
  have D: "n \<le> max_key_bits" "d_key_bits d = int n" using d by (simp_all add: dict_inv_def)
  note F = new_iter_fields [OF n D, of mode]
  have r: "iter_ready ?it n es" by (rule new_iter_ready [OF d n])
  then have i: "iter_inv ?it n es" by (simp add: iter_ready_def)
  have t: "toward ?it False = iter_order (mode AND 3)" by (simp add: toward_def F(1))
  note M = iter_rewind_ok [OF r, of False]
  then obtain it where it: "iter_rewind ?it False = Inr (True, it)" "same_iter ?it it" by (auto simp: moved_def)
  have "make_iterator d mode = Inr (it, d)" using d it(1) by (simp add: make_iterator_def)
  moreover have "it_order it = iter_order (mode AND 3)" using it(2) F(1) by (simp add: same_iter_def)
  moreover note moved_ready [OF M [unfolded it(1)] i] moved_left [OF M [unfolded it(1)] i]
  ultimately show ?thesis unfolding t by blast
qed

text \<open>Keys are compared in the order of the iteration.\<close>

lemma key_less_tail:
  assumes m: "mode_ok mode" and l: "length a = length b"
  shows "key_less (mode div 2) a b \<longleftrightarrow> (if mode \<ge> 0 then lex_cmp a b < 0 else lex_cmp a b > 0)"
proof -
  have o: "odd (mode div 2) \<longleftrightarrow> \<not> mode \<ge> 0" using m by (auto simp: mode_ok_cases)
  have v: "lex_cmp a b \<in> {- 1, 0, 1}" by (rule lex_cmp_values)
  show ?thesis
  proof (cases "odd (mode div 2)")
    case True
    then have "key_less (mode div 2) a b \<longleftrightarrow> lex_cmp b a = - 1"
      using lex_cmp_flip_all [OF l] by (simp add: key_less_def oriented_tail [OF m])
    then show ?thesis using True o v lex_cmp_flip [of b a] by auto
  next
    case False
    then have "key_less (mode div 2) a b \<longleftrightarrow> lex_cmp a b = - 1" by (simp add: key_less_def oriented_tail [OF m])
    then show ?thesis using False o v by auto
  qed
qed

theorem compare_keys_ok:
  assumes i: "iter_inv it n es" and a: "ptr_ok a n" and b: "ptr_ok b n"
  shows "compare_keys it a b < 0 \<longleftrightarrow> key_less (it_order it) (ptr_bits a n) (ptr_bits b n)"
    and "compare_keys it a b = 0 \<longleftrightarrow> ptr_bits a n = ptr_bits b n"
proof -
  have n: "0 < n" "it_key_bits it = int n" and m: "mode_ok (it_order it)" using i by (simp_all add: iter_inv_def)
  obtain x k where x: "ptr_bits a n = x # k" using a n(1) length_ptr_bits [OF a] by (cases "ptr_bits a n") auto
  obtain y k' where y: "ptr_bits b n = y # k'" using b n(1) length_ptr_bits [OF b] by (cases "ptr_bits b n") auto
  have l: "length k = length k'" using length_ptr_bits [OF a] length_ptr_bits [OF b] x y by simp
  have bit: "ptr_bit a 0 = x" "ptr_bit b 0 = y" using ptr_bit_nth [OF a n(1)] ptr_bit_nth [OF b n(1)] x y by simp_all
  have cmp: "fst (bits_memcmp (fst a) (snd a) (fst b) (snd b) n) = lex_cmp (x # k) (y # k')"
    using bits_memcmp_correct [of "snd a" n "fst a" "snd b" "fst b"] a b x y by (simp add: ptr_ok_def ptr_bits_def)
  have one: "it_order it AND 1 \<noteq> 0 \<longleftrightarrow> odd (it_order it)" by (simp add: and_one_eq odd_iff_mod_2_eq_one)
  have C: "compare_keys it a b =
      (if x \<noteq> y then if odd (it_order it) then of_bool y - of_bool x else of_bool x - of_bool y
       else if it_order it \<ge> 0 then lex_cmp k k' else - lex_cmp k k')"
    using n by (cases x; cases y) (simp_all add: compare_keys_def bit cmp one Let_def)
  have L: "key_less (it_order it) (x # k) (y # k') \<longleftrightarrow>
      (if x = y then key_less (it_order it div 2) k k' else x = odd (it_order it))"
    using key_less_split [OF m, of "[]" x k y k'] by (simp add: next_mode_def)
  show "compare_keys it a b < 0 \<longleftrightarrow> key_less (it_order it) (ptr_bits a n) (ptr_bits b n)"
    unfolding C x y L using key_less_tail [OF m l] by (cases x; cases y) auto
  show "compare_keys it a b = 0 \<longleftrightarrow> ptr_bits a n = ptr_bits b n"
    unfolding C x y using lex_cmp_eq_0 [of k k'] by (cases x; cases y) auto
qed

lemma length_arranged [simp]: "length (arranged mode es) = length es"
proof -
  have "length (visit_order flip es) = length es" for flip
    using sum_length_filter_compl [of "\<lambda>e. take 1 (fst e) = [True]" es] by (simp add: visit_order_def)
  then show ?thesis by (simp add: arranged_def Let_def)
qed

theorem make_iterator_walk:
  assumes d: "dict_inv d n es" and n: "0 < n"
  shows "\<exists>it. make_iterator d mode = Inr (it, d) \<and> iter_ready it n es
     \<and> (\<forall>fuel \<ge> length es. iter_walk False fuel it = Inr (arranged (iter_order (mode AND 3)) es))"
proof -
  obtain it where it: "make_iterator d mode = Inr (it, d)" "iter_ready it n es"
    "iter_left n es False it (arranged (iter_order (mode AND 3)) es)"
    using make_iterator_ok [OF d n] by blast
  from iter.walk_left [OF it(3)] it(1,2) show ?thesis by auto
qed

text \<open>For keys of no bits the iterator is not valid, and at the end at once.\<close>

lemma make_iterator_no_bits:
  assumes d: "dict_inv d 0 es"
  shows "\<exists>it. make_iterator d mode = Inr (it, d) \<and> iter_eof it \<and> \<not> iter_is_valid it"
proof -
  have b: "d_key_bits d = 0" using d by (simp add: dict_inv_def)
  have "\<not> iter_is_valid (new_iter_dict d mode)" "iter_eof (new_iter_dict d mode)"
    by (simp_all add: new_iter_dict_def new_iter_def iter_prevalidate_def b Let_def iter_reset_def iter_is_valid_def iter_eof_def it_f_valid_def and.assoc)
  then show ?thesis using d by (auto simp: make_iterator_def iter_rewind_def)
qed

theorem iter_lookup_walk:
  fixes backw strict :: bool
  assumes r: "iter_ready it n es" and pos: "ptr_ok pos l" "l \<le> n"
  defines "rest \<equiv> filter (\<lambda>x. \<not> before_pos (toward it backw) strict (ptr_bits pos l) (fst x)) (arranged (toward it backw) es)"
  shows "\<exists>it'. iter_lookup it pos (int l) strict backw = Inr (rest \<noteq> [], it') \<and> iter_ready it' n es
     \<and> iter_walk backw (length es) it' = Inr rest"
proof (cases "it_root it")
  case None
  then have e: "es = []" using r by (simp add: iter_ready_def iter_inv_def dict_rep_opt_def)
  obtain bef aft where "iter_place (toward it backw) it n es bef aft" using ready_toward [OF r] by blast
  then have "iter_left n es backw it []" using r e by (auto simp: iter_left_def iter_ready_def iter_place_def)
  moreover have "rest = []" by (simp add: rest_def e)
  moreover have "iter_lookup it pos (int l) strict backw = Inr (False, it)" using None by (simp add: iter_lookup_def)
  ultimately show ?thesis using r e by (simp add: cursor_walk.simps)
next
  case (Some root)
  have i: "iter_inv it n es" using r by (simp add: iter_ready_def)
  obtain bef aft where c: "cuts (toward it backw) strict (ptr_bits pos l) bef aft"
    and m: "moved it (toward it backw) n es bef aft (aft \<noteq> []) (iter_lookup it pos (int l) strict backw)"
    using iter_lookup_ok [OF r Some pos] by blast
  have a: "aft = rest" unfolding rest_def by (rule moved_cut(2) [OF c m])
  obtain it' where it': "iter_lookup it pos (int l) strict backw = Inr (aft \<noteq> [], it')" using m by (auto simp: moved_def)
  note m = m [unfolded it']
  have "length aft \<le> length es" unfolding a rest_def using length_filter_le length_arranged by metis
  from iter.walk_left [OF moved_left [OF m i] this] moved_ready [OF m i] it' show ?thesis unfolding a by auto
qed

text \<open>A step in one direction is undone by one in the other.\<close>

theorem iter_next_back:
  assumes r: "iter_ready it n es" and s: "iter_next it backw = Inr (True, it1)"
  shows "iter_ready it1 n es" and "\<exists>it2. iter_next it1 (\<not> backw) = Inr (True, it2) \<and> iter_entry it2 = iter_entry it"
proof -
  have i: "iter_inv it n es" using r by (simp add: iter_ready_def)
  obtain bef aft where p: "iter_place (toward it backw) it n es bef aft" using ready_toward [OF r] by blast
  have "aft \<noteq> []"
  proof
    assume "aft = []"
    then show False using p s iter_next_end [of it backw] by (simp add: iter_place_def)
  qed
  then obtain x xs where "aft = x # xs" by (cases aft) auto
  note p = p [unfolded this]
  note m = iter_next_ok [OF i p, unfolded s]
  then have xs: "xs \<noteq> []" and same: "same_iter it it1" and p1: "iter_place (toward it backw) it1 n es (bef @ [x]) xs"
    by (auto simp: moved_def)
  have i1: "iter_inv it1 n es" by (rule same_iter_inv [OF same i])
  show "iter_ready it1 n es" by (rule moved_ready [OF m i])
  have t: "toward it1 (\<not> backw) = NOT (toward it backw)" using same by (cases backw) (simp_all add: toward_def same_iter_def)
  have "iter_place (toward it1 (\<not> backw)) it1 n es (rev (tl xs)) (hd xs # x # rev bef)"
    using iter_place_not [OF p1] xs by (simp add: t)
  from iter_next_ok [OF i1 this] obtain it2 where it2: "iter_next it1 (\<not> backw) = Inr (True, it2)" "same_iter it1 it2"
    "iter_place (toward it1 (\<not> backw)) it2 n es (rev (tl xs) @ [hd xs]) (x # rev bef)"
    by (auto simp: moved_def)
  have "iter_entry it2 = x" by (rule iter_entry_place [OF same_iter_inv [OF it2(2) i1] it2(3)])
  moreover have "iter_entry it = x" by (rule iter_entry_place [OF i p])
  ultimately show "\<exists>it2. iter_next it1 (\<not> backw) = Inr (True, it2) \<and> iter_entry it2 = iter_entry it" using it2(1) by auto
qed

lemma arranged_of_dict:
  assumes d: "dict_inv d n es"
  shows "sorted_wrt (\<lambda>x y. key_less (iter_order (mode AND 3)) (fst x) (fst y)) (arranged (iter_order (mode AND 3)) es)"
proof (cases "d_root_cell d")
  case None
  then show ?thesis using d by (simp add: dict_inv_def dict_rep_opt_def)
next
  case (Some c)
  then have "dict_rep n c es" using d by (simp add: dict_inv_def dict_rep_opt_def)
  from arranged_sorted(1) [OF this iter_order_ok] show ?thesis .
qed

end
