(* ===== verification/Dict_Samples.thy ===== *)
theory Dict_Samples
  imports Dict_Access Dict_Scan Pfx_Change Samples
begin

text \<open>
  A dictionary on which the properties of dictionaries are instantiated: keys of one bit, with a value
  of eight bits under each of the two keys.
\<close>

definition leaf_7 :: cell where
  "leaf_7 = Data_Cell (plain_info 10 0) [1, 0xE0] [] [replicate 32 0] [0]"

definition leaf_9 :: cell where
  "leaf_9 = Data_Cell (plain_info 10 0) [2, 0x60] [] [replicate 32 0] [0]"

definition sample_root :: cell where
  "sample_root = Data_Cell (plain_info 2 2) [0x20] [leaf_7, leaf_9] [replicate 32 0] [1]"

definition sample_entries :: "dict_entry list" where
  "sample_entries = [([False], bits_of [7], []), ([True], bits_of [9], [])]"

definition sample_dict :: dict where
  "sample_dict = \<lparr>d_root = None, d_root_cell = Some sample_root, d_key_bits = 1, d_flags = 1\<rparr>"

lemma wf_sample: "wf_cell leaf_7" "wf_cell leaf_9" "wf_cell sample_root"
  by code_simp+

lemma sample_bits: "cell_bits leaf_7 = False # False # bits_of [7]" "cell_bits leaf_9 = False # False # bits_of [9]"
  "cell_bits sample_root = [False, False]"
  by code_simp+

lemma ordinary_sample: "ordinary leaf_7" "ordinary leaf_9" "ordinary sample_root"
  using wf_sample by (simp_all add: ordinary_def leaf_7_def leaf_9_def sample_root_def plain_info_def)

lemma rep_leaf: "ordinary c \<Longrightarrow> cell_bits c = False # False # v \<Longrightarrow> c_refs c = [] \<Longrightarrow> dict_rep 0 c [([], v, [])]"
  using node [of c 0 "[]" v "[([], v, [])]"] leaf [of v "[]"] by simp

lemma sample_rep: "dict_rep 1 sample_root sample_entries"
proof -
  have a: "dict_rep 0 leaf_7 [([], bits_of [7], [])]" "dict_rep 0 leaf_9 [([], bits_of [9], [])]"
    by (rule rep_leaf, rule ordinary_sample, rule sample_bits, simp add: leaf_7_def leaf_9_def)+
  have "dict_rep 1 sample_root (pre [] (pre [False] [([], bits_of [7], [])] @ pre [True] [([], bits_of [9], [])]))"
  proof (rule node [OF ordinary_sample(3)])
    show "parse_bits 1 (cell_bits sample_root) = Some ([], [])" by (simp add: sample_bits)
    show "payload_rep (1 - length []) [] (c_refs sample_root) (pre [False] [([], bits_of [7], [])] @ pre [True] [([], bits_of [9], [])])"
      using fork [OF a] by (simp add: sample_root_def)
  qed
  then show ?thesis by (simp add: sample_entries_def)
qed

lemma sample_inv: "dict_inv sample_dict 1 sample_entries"
  using sample_rep by (simp add: dict_inv_def sample_dict_def dict_is_valid_def f_valid_def f_root_cached_def dict_rep_opt_def)

lemma sample_keys: "ptr_ok ([0x80], 0) 1" "ptr_bits ([0x80], 0) 1 = [True]" "ptr_ok ([0], 0) 1" "ptr_bits ([0], 0) 1 = [False]"
  by code_simp+

lemma sample_opt: "dict_rep_opt 1 (Some sample_root) sample_entries"
  using sample_rep by (simp add: dict_rep_opt_def)

lemma sample_store: "dict_store zero_hash 1 sample_dict (map_of sample_entries)"
  using sample_inv by (auto simp: dict_store_def)

text \<open>Two dictionaries that share one leaf and differ in the other one; every cell has a hash of its own.\<close>

definition hashed_leaf :: "byte list \<Rightarrow> nat \<Rightarrow> cell" where
  "hashed_leaf data h = Data_Cell (plain_info 10 0) data [] [replicate 32 (of_nat h)] [0]"

definition hashed_root :: "cell \<Rightarrow> cell \<Rightarrow> nat \<Rightarrow> cell" where
  "hashed_root a b h = Data_Cell (plain_info 2 2) [0x20] [a, b] [replicate 32 (of_nat h)] [1]"

definition old_root :: cell where
  "old_root = hashed_root (hashed_leaf [1, 0xE0] 7) (hashed_leaf [2, 0x60] 9) 1"

definition changed_root :: cell where
  "changed_root = hashed_root (hashed_leaf [1, 0xE0] 7) (hashed_leaf [2, 0x20] 8) 2"

definition old_dict :: dict where
  "old_dict = sample_dict\<lparr>d_root_cell := Some old_root\<rparr>"

definition changed_dict :: dict where
  "changed_dict = sample_dict\<lparr>d_root_cell := Some changed_root\<rparr>"

definition changed_entries :: "dict_entry list" where
  "changed_entries = [([False], bits_of [7], []), ([True], bits_of [8], [])]"

lemma rep_fork:
  assumes "ordinary c" and "cell_bits c = [False, False]" and "c_refs c = [a, b]"
    and "dict_rep 0 a [([], va, [])]" and "dict_rep 0 b [([], vb, [])]"
  shows "dict_rep 1 c [([False], va, []), ([True], vb, [])]"
  using node [OF assms(1), of 1 "[]" "[]" "pre [False] [([], va, [])] @ pre [True] [([], vb, [])]"] fork [OF assms(4,5)]
  by (simp add: assms(2,3))

lemma hashed_bits:
  "cell_bits (hashed_leaf [1, 0xE0] 7) = False # False # bits_of [7]"
  "cell_bits (hashed_leaf [2, 0x60] 9) = False # False # bits_of [9]"
  "cell_bits (hashed_leaf [2, 0x20] 8) = False # False # bits_of [8]"
  "cell_bits old_root = [False, False]" "cell_bits changed_root = [False, False]"
  by code_simp+

lemma wf_hashed: "wf_cell old_root" "wf_cell changed_root"
  by code_simp+

lemma hashed_refs:
  "c_refs old_root = [hashed_leaf [1, 0xE0] 7, hashed_leaf [2, 0x60] 9]"
  "c_refs changed_root = [hashed_leaf [1, 0xE0] 7, hashed_leaf [2, 0x20] 8]"
  by (simp_all add: old_root_def changed_root_def hashed_root_def)

lemma hashed_ordinary:
  "ordinary old_root" "ordinary changed_root"
  "ordinary (hashed_leaf [1, 0xE0] 7)" "ordinary (hashed_leaf [2, 0x60] 9)" "ordinary (hashed_leaf [2, 0x20] 8)"
  using wf_hashed by (simp_all add: ordinary_def old_root_def changed_root_def hashed_root_def hashed_leaf_def plain_info_def)

lemma hashed_rep: "dict_rep 1 old_root sample_entries" "dict_rep 1 changed_root changed_entries"
  unfolding sample_entries_def changed_entries_def
  by (rule rep_fork rep_leaf hashed_ordinary hashed_bits hashed_refs | simp add: hashed_leaf_def)+

lemma hashed_inv: "dict_inv old_dict 1 sample_entries" "dict_inv changed_dict 1 changed_entries"
  using hashed_rep sample_inv by (simp_all add: dict_inv_def old_dict_def changed_dict_def sample_dict_def dict_is_valid_def dict_rep_opt_def f_valid_def f_root_cached_def)

text \<open>No two different cells of the two trees have the same hash.\<close>

lemma hashed_faithful: "faithful (d_root_cell old_dict) (d_root_cell changed_dict)"
proof -
  have h: "get_hash (hashed_leaf data h) max_level = replicate 32 (of_nat h)" "get_hash (hashed_root a b h) max_level = replicate 32 (of_nat h)"
    for data h a b
    by (simp_all add: hashed_leaf_def hashed_root_def plain_get_hash del: get_hash.simps)
  have t: "tree_cells (hashed_leaf data h) = [hashed_leaf data h]" "tree_cells (hashed_root a b h) = hashed_root a b h # tree_cells a @ tree_cells b"
    for data h a b
    by (simp_all add: hashed_leaf_def hashed_root_def)
  show ?thesis unfolding faithful_def old_dict_def changed_dict_def old_root_def changed_root_def by (simp add: t h)
qed

text \<open>A prefix code dictionary with the keys \<open>0\<close> and \<open>1\<close>, of at most eight bits.\<close>

definition pfx_root :: cell where
  "pfx_root = Data_Cell (plain_info 3 2) [0x30] [leaf_7, leaf_9] [replicate 32 0] [1]"

definition pfx_entries :: "dict_entry list" where
  "pfx_entries = [([False], tl (bits_of [7]), []), ([True], tl (bits_of [9]), [])]"

definition pfx_dict :: dict where
  "pfx_dict = \<lparr>d_root = None, d_root_cell = Some pfx_root, d_key_bits = 8, d_flags = 1\<rparr>"

lemma pfx_leaf_rep: "node_cell n c [] (False # v) [] \<Longrightarrow> pfx_rep n c [([], v, [])]"
  by (rule pfx_leaf)

lemma pfx_sample_rep: "pfx_rep 8 pfx_root pfx_entries"
proof -
  have bits: "bits_of [7] = False # tl (bits_of [7])" "bits_of [9] = False # tl (bits_of [9])" "cell_bits pfx_root = [False, False, True]"
    by code_simp+
  have wf: "wf_cell pfx_root" by code_simp
  have a: "pfx_rep 7 leaf_7 [([], tl (bits_of [7]), [])]"
    by (rule pfx_leaf_rep) (use ordinary_sample(1) sample_bits(1) bits(1) in \<open>simp add: node_cell_def leaf_7_def\<close>)
  have b: "pfx_rep 7 leaf_9 [([], tl (bits_of [9]), [])]"
    by (rule pfx_leaf_rep) (use ordinary_sample(2) sample_bits(2) bits(2) in \<open>simp add: node_cell_def leaf_9_def\<close>)
  have "node_cell 8 pfx_root [] [True] [leaf_7, leaf_9]"
    using wf bits(3) by (simp add: node_cell_def ordinary_def pfx_root_def plain_info_def)
  from pfx_fork [OF this, of "[([], tl (bits_of [7]), [])]" "[([], tl (bits_of [9]), [])]"] a b
  show ?thesis by (simp add: pfx_entries_def)
qed

lemma pfx_sample_inv: "pfx_inv pfx_dict 8 pfx_entries"
  using pfx_sample_rep by (simp add: pfx_inv_def pfx_dict_def dict_is_valid_def f_valid_def f_root_cached_def pfx_rep_opt_def)

text \<open>A function for \<open>combine_with\<close> that keeps what is equal on both sides and lets the rest disappear.\<close>

definition keep_equal :: combine_func where
  "keep_equal cb s t key n =
     (if contents_equal s t
      then let (ok, cb') = cell_builder_add_slice_bool cb s in if ok then Inr (True, cb') else Inl Combine_error
      else Inr (False, cb))"

interpretation keep_equal: combine_function keep_equal len "\<lambda>k v1 v2 r. case r of Some v \<Rightarrow> v = v1 \<and> fst v1 = fst v2 | None \<Rightarrow> v1 \<noteq> v2"
    "\<lambda>k v1 v2 e. e = Combine_error"
proof unfold_locales
  fix b s t key b'
  assume b: "builder_ok b" and s: "slice_ok s" "slice_ok t" and wf: "\<forall>r \<in> set (slice_children s) \<union> set (slice_children t). wf_cell r"
    and e: "keep_equal b s t key len = Inr (True, b')"
  have "contents_equal s t" and c: "cell_builder_add_slice_bool b s = (True, b')"
    using e by (auto simp: keep_equal_def split: if_splits prod.splits)
  then have "slice_bits s = slice_bits t" using contents_equal_eq [OF s] by simp
  then show "\<exists>v. (case Some v of None \<Rightarrow> (slice_bits s, slice_children s) \<noteq> (slice_bits t, slice_children t)
        | Some v \<Rightarrow> v = (slice_bits s, slice_children s) \<and> fst (slice_bits s, slice_children s) = fst (slice_bits t, slice_children t))
      \<and> appends b (fst v) (snd v) (True, b') \<and> (\<forall>r \<in> set (snd v). wf_cell r)"
    using cell_builder_add_slice_appends [OF b s(1)] wf unfolding c by simp
next
  fix b s t key b'
  assume s: "slice_ok s" "slice_ok t" and e: "keep_equal b s t key len = Inr (False, b')"
  have "\<not> contents_equal s t" using e by (auto simp: keep_equal_def split: if_splits prod.splits)
  then show "case None of None \<Rightarrow> (slice_bits s, slice_children s) \<noteq> (slice_bits t, slice_children t)
        | Some v \<Rightarrow> v = (slice_bits s, slice_children s) \<and> fst (slice_bits s, slice_children s) = fst (slice_bits t, slice_children t)"
    using contents_equal_eq [OF s] by auto
next
  fix b s t key e
  assume "keep_equal b s t key len = Inl e"
  then show "e = Combine_error" by (auto simp: keep_equal_def split: if_splits prod.splits)
qed

text \<open>A computation that ends without an error.\<close>

definition succeeds :: "'e + 'a \<Rightarrow> bool" where
  "succeeds r \<longleftrightarrow> (case r of Inl e \<Rightarrow> False | Inr x \<Rightarrow> True)"

lemma succeedsD: "succeeds r \<Longrightarrow> \<exists>x. r = Inr x"
  by (auto simp: succeeds_def split: sum.splits)

end
