(* ===== verification/Bit_Text.thy ===== *)
theory Bit_Text
  imports Bit_Ptr Bit_Load
begin

text \<open>
  The text forms of bit strings, \<open>crypto/common/bitstring.cpp\<close>: binary digits, and hexadecimal
  digits with a completion tag, a one and zeroes that fill the last digit and are announced by an
  underscore. Pointers into buffers and into strings are indices. A read outside a buffer, which the code
  does when it fetches a byte that it does not use, gives an unspecified byte.
\<close>

unbundle bit_operations_syntax

section \<open>Writing\<close>

fun binary_loop :: "byte list \<Rightarrow> nat \<Rightarrow> byte \<Rightarrow> byte \<Rightarrow> nat \<Rightarrow> string" where
  "binary_loop bs ptr val m 0 = ''''"
| "binary_loop bs ptr val m (Suc len) =
     (if val AND m \<noteq> 0 then CHR ''1'' else CHR ''0'') #
     (let m = drop_bit 1 m
      in if m = 0 then binary_loop bs (ptr + 1) (bs ! ptr) 0x80 len else binary_loop bs ptr val m len)"

definition bits_to_binary :: "byte list \<Rightarrow> nat \<Rightarrow> nat \<Rightarrow> string" where
  "bits_to_binary bs offs len =
     (if len = 0 then ''''
      else let ptr = offs div 8 in binary_loop bs (ptr + 1) (bs ! ptr) (drop_bit (offs mod 8) 0x80) len)"

definition hex_digits :: string where
  "hex_digits = ''0123456789ABCDEF''"

definition hex_digit :: "u64 \<Rightarrow> char" where
  "hex_digit d = hex_digits ! unat (d AND 15)"

text \<open>The bytes go through an accumulator: it is filled with whole bytes, and digits are taken from it.\<close>

function hex_fill :: "byte list \<Rightarrow> nat \<Rightarrow> u64 \<Rightarrow> nat \<Rightarrow> nat \<Rightarrow> nat \<times> u64 \<times> nat \<times> nat" where
  "hex_fill bs ptr acc bits len =
     (if len \<ge> 8 \<and> bits \<le> 56 then hex_fill bs (ptr + 1) (push_bit 8 acc OR ucast (bs ! ptr)) (bits + 8) (len - 8)
      else (ptr, acc, bits, len))"
  by pat_completeness auto
termination by (relation "measure (\<lambda>(bs, ptr, acc, bits, len). len)") auto

declare hex_fill.simps [simp del]

function hex_emit :: "u64 \<Rightarrow> nat \<Rightarrow> string" where
  "hex_emit acc bits = (if bits \<ge> 4 then hex_digit (drop_bit (bits - 4) acc) # hex_emit acc (bits - 4) else '''')"
  by pat_completeness auto
termination by (relation "measure snd") auto

declare hex_emit.simps [simp del]

lemma hex_fill_less: "hex_fill bs ptr acc bits len = (ptr', acc', bits', len') \<Longrightarrow> len' \<le> len \<and> (bits \<le> 56 \<and> 8 \<le> len \<longrightarrow> len' < len)
    \<and> (\<not> bits \<le> 56 \<longrightarrow> bits' = bits)"
proof (induction bs ptr acc bits len rule: hex_fill.induct)
  case (1 bs ptr acc bits len)
  show ?case
  proof (cases "len \<ge> 8 \<and> bits \<le> 56")
    case True
    then have "hex_fill bs (ptr + 1) (push_bit 8 acc OR ucast (bs ! ptr)) (bits + 8) (len - 8) = (ptr', acc', bits', len')"
      using "1.prems" by (simp add: hex_fill.simps [of bs ptr])
    from "1.IH" [OF True this] True show ?thesis by linarith
  next
    case False
    then show ?thesis using "1.prems" by (auto simp: hex_fill.simps [of bs ptr])
  qed
qed

function hex_loop :: "byte list \<Rightarrow> nat \<Rightarrow> u64 \<Rightarrow> nat \<Rightarrow> nat \<Rightarrow> string \<times> nat \<times> u64 \<times> nat \<times> nat" where
  "hex_loop bs ptr acc bits len =
     (if len \<ge> 8 then
        let (ptr, acc, bits, len) = hex_fill bs ptr acc bits len;
            (s, rest) = hex_loop bs ptr acc (bits mod 4) len
        in (hex_emit acc bits @ s, rest)
      else ('''', ptr, acc, bits, len))"
  by pat_completeness auto
termination
proof (relation "measures [\<lambda>(bs, ptr, acc, bits, len). len, \<lambda>(bs, ptr, acc, bits, len). bits]")
  fix bs :: "byte list" and ptr bits len :: nat and acc :: u64 and x ptr' y acc' z bits' len'
  assume "len \<ge> 8" and "x = hex_fill bs ptr acc bits len" and "(ptr', y) = x" and "(acc', z) = y" and "(bits', len') = z"
  then have f: "hex_fill bs ptr acc bits len = (ptr', acc', bits', len')" and l: "len \<ge> 8" by simp_all
  have "bits mod 4 < 4" by simp
  then have "bits mod 4 < bits" if "\<not> bits \<le> 56" using that by linarith
  then show "((bs, ptr', acc', bits' mod 4, len'), bs, ptr, acc, bits, len)
      \<in> measures [\<lambda>(bs, ptr, acc, bits, len). len, \<lambda>(bs, ptr, acc, bits, len). bits]"
    using hex_fill_less [OF f] l by (cases "bits \<le> 56") auto
qed simp

declare hex_loop.simps [simp del]

text \<open>What is left is completed to whole digits.\<close>

definition hex_end :: "u64 \<Rightarrow> nat \<Rightarrow> string" where
  "hex_end acc bits =
     (let f = bits mod 4;
          (acc, bits) = (if f \<noteq> 0 then (push_bit (3 - f) (2 * acc + 1), bits + (4 - f)) else (acc, bits))
      in hex_emit acc bits @ (if f \<noteq> 0 then ''_'' else ''''))"

definition bits_to_hex :: "byte list \<Rightarrow> nat \<Rightarrow> nat \<Rightarrow> string" where
  "bits_to_hex bs offs len =
     (if len = 0 then ''''
      else
        let ptr = offs div 8; offs = offs mod 8; acc = ucast (bs ! ptr AND drop_bit offs 0xff); bits = 8 - offs
        in if bits > len then hex_end (drop_bit (bits - len) acc) len
           else
             let (s, ptr, acc, bits, len) = hex_loop bs (ptr + 1) acc bits (len - bits);
                 (acc, bits) = (if len > 0 then (push_bit len acc OR ucast (drop_bit (8 - len) (bs ! ptr)), bits + len) else (acc, bits))
             in s @ hex_end acc bits)"

section \<open>Reading\<close>

definition hex_value :: "char \<Rightarrow> nat option" where
  "hex_value c =
     (let n = of_char c :: nat
      in if 48 \<le> n \<and> n \<le> 57 \<or> 97 \<le> n \<and> n \<le> 102 \<or> 65 \<le> n \<and> n \<le> 70
         then Some (if n \<le> 57 then n - 48 else (n OR 0x20) - 97 + 10)
         else None)"

text \<open>The loop over the characters, with the number of characters read, the byte that is written, the
  number of digits and whether the tag was there. A character that cannot be read, or has no room,
  ends it with the number of characters read.\<close>

fun hex_scan :: "string \<Rightarrow> nat \<Rightarrow> byte list \<Rightarrow> nat \<Rightarrow> nat \<Rightarrow> nat \<Rightarrow> bool \<Rightarrow> nat \<times> byte list + byte list \<times> nat \<times> nat \<times> bool" where
  "hex_scan [] rptr buff ptr digits buff_size cmpl = Inr (buff, ptr, digits, cmpl)"
| "hex_scan (c # cs) rptr buff ptr digits buff_size cmpl =
     (let rptr = rptr + 1
      in if c = CHR '' '' \<or> c = CHR 0x09 then hex_scan cs rptr buff ptr digits buff_size cmpl
         else if cmpl then Inl (rptr, buff)
         else
           case hex_value c of
             Some val \<Rightarrow>
               if digits \<ge> 2 * buff_size then Inl (rptr, buff)
               else if even digits
               then hex_scan cs rptr (buff[ptr := push_bit 4 (of_nat val)]) ptr (digits + 1) buff_size cmpl
               else hex_scan cs rptr (buff[ptr := buff ! ptr OR of_nat val]) (ptr + 1) (digits + 1) buff_size cmpl
           | None \<Rightarrow> if c = CHR ''_'' then hex_scan cs rptr buff ptr digits buff_size True else Inl (rptr, buff))"

text \<open>The tag is taken away bit by bit, from the end: \<open>t\<close> is what is left of a byte, below a one. The byte
  before the first is fetched when the whole buffer has only zeroes; \<open>before\<close> is what is there.\<close>

definition byte_at :: "byte \<Rightarrow> byte list \<Rightarrow> int \<Rightarrow> byte" where
  "byte_at before buff ptr = (if ptr < 0 then before else buff ! nat ptr)"

fun hex_untag :: "byte \<Rightarrow> byte list \<Rightarrow> int \<Rightarrow> u32 \<Rightarrow> nat \<Rightarrow> nat" where
  "hex_untag before buff ptr t 0 = 0"
| "hex_untag before buff ptr t (Suc bits) =
     (if odd t then bits
      else
        let t = drop_bit 1 t
        in if t = 1 then hex_untag before buff (ptr - 1) (0x100 + ucast (byte_at before buff (ptr - 1))) bits
           else hex_untag before buff ptr t bits)"

definition parse_bitstring_hex_literal :: "byte \<Rightarrow> byte list \<Rightarrow> nat \<Rightarrow> string \<Rightarrow> int \<times> byte list" where
  "parse_bitstring_hex_literal before buff buff_size str =
     (case hex_scan str 0 buff 0 0 buff_size False of
        Inl (n, buff) \<Rightarrow> (- int n, buff)
      | Inr (buff, ptr, digits, cmpl) \<Rightarrow>
          let bits = 4 * digits
          in if cmpl \<and> bits \<noteq> 0 then
               let (ptr, t) = (if odd digits then (int ptr, drop_bit 4 (0x100 + ucast (byte_at before buff (int ptr))))
                               else (int ptr - 1, 0x100 + ucast (byte_at before buff (int ptr - 1))))
               in (int (hex_untag before buff ptr t bits), buff)
             else (int bits, buff))"

fun binary_scan :: "bit_ptr \<Rightarrow> nat \<Rightarrow> string \<Rightarrow> nat \<Rightarrow> bit_ptr \<times> string \<times> nat" where
  "binary_scan buff buff_size [] ptr = (buff, [], ptr)"
| "binary_scan buff buff_size (c # cs) ptr =
     (if buff_size \<noteq> 0 \<and> (c = CHR ''0'' \<or> c = CHR ''1'')
      then binary_scan (ptr_set_bit buff 0 (odd (of_char c :: nat)), snd buff + 1) (buff_size - 1) cs (ptr + 1)
      else (buff, c # cs, ptr))"

definition parse_bitstring_binary_literal :: "bit_ptr \<Rightarrow> nat \<Rightarrow> string \<Rightarrow> int \<times> byte list" where
  "parse_bitstring_binary_literal buff buff_size str =
     (case binary_scan buff buff_size str 0 of
        (buff, rest, ptr) \<Rightarrow> (if rest = [] then int ptr else - int ptr - 1, fst buff))"

section \<open>What is written\<close>

text \<open>The text of a list of bits.\<close>

definition nibble :: "bool list \<Rightarrow> char" where
  "nibble xs = hex_digits ! nat_of_bits xs"

fun hex_text :: "bool list \<Rightarrow> string" where
  "hex_text (a # b # c # d # xs) = nibble [a, b, c, d] # hex_text xs"
| "hex_text [] = []"
| "hex_text xs = [nibble (xs @ True # replicate (3 - length xs) False), CHR ''_'']"

definition binary_text :: "bool list \<Rightarrow> string" where
  "binary_text xs = map (\<lambda>b. if b then CHR ''1'' else CHR ''0'') xs"

lemma binary_loop_ok:
  assumes "p + len \<le> 8 * length bs"
  shows "len = 0 \<or> val = bs ! (p div 8) \<Longrightarrow>
     binary_loop bs (p div 8 + 1) val (bit_mask_at p) len = binary_text (take len (drop p (bits_of bs)))"
  using assms
proof (induction len arbitrary: p val)
  case 0
  then show ?case by (simp add: binary_text_def)
next
  case (Suc len)
  have v: "val = bs ! (p div 8)" using Suc.prems by simp
  have p: "p < 8 * length bs" using Suc.prems by simp
  have b: "val AND bit_mask_at p \<noteq> 0 \<longleftrightarrow> bits_of bs ! p"
    using ptr_bit_eq [of "(bs, p)" 0] p by (simp add: ptr_bit_def v)
  have t: "take (Suc len) (drop p (bits_of bs)) = bits_of bs ! p # take len (drop (Suc p) (bits_of bs))"
    using p by (simp add: Cons_nth_drop_Suc [symmetric])
  have m: "drop_bit 1 (bit_mask_at p) = (if p mod 8 = 7 then 0 else bit_mask_at (Suc p))"
    and z: "bit_mask_at (Suc p) \<noteq> 0" "p mod 8 = 7 \<Longrightarrow> bit_mask_at (Suc p) = 0x80"
  proof -
    have k: "\<forall>k \<in> set [0..<8]. drop_bit 1 (drop_bit k 0x80 :: byte) = (if k = 7 then 0 else drop_bit (Suc k) 0x80)"
      and z: "\<forall>k \<in> set [0..<8]. (drop_bit k 0x80 :: byte) \<noteq> 0" by code_simp+
    have i: "q mod 8 \<in> set [0..<8]" for q :: nat by (simp only: set_upt atLeastLessThan_iff) simp
    show "drop_bit 1 (bit_mask_at p) = (if p mod 8 = 7 then 0 else bit_mask_at (Suc p))"
    proof (cases "p mod 8 = 7")
      case True
      with bspec [OF k i, of p] show ?thesis unfolding bit_mask_at_def by presburger
    next
      case False
      then have "Suc p mod 8 = Suc (p mod 8)" by (simp add: mod_Suc)
      with bspec [OF k i, of p] False show ?thesis by (simp only: bit_mask_at_def if_False)
    qed
    show "bit_mask_at (Suc p) \<noteq> 0" unfolding bit_mask_at_def by (rule bspec [OF z i])
    show "bit_mask_at (Suc p) = 0x80" if "p mod 8 = 7"
    proof -
      have "Suc p mod 8 = 0" using that by (simp add: mod_Suc)
      then show ?thesis by (simp add: bit_mask_at_def)
    qed
  qed
  have d: "p mod 8 = 7 \<Longrightarrow> Suc p div 8 = Suc (p div 8)" "p mod 8 \<noteq> 7 \<Longrightarrow> Suc p div 8 = p div 8" by arith+
  show ?case
  proof (cases "p mod 8 = 7")
    case True
    have "binary_loop bs (p div 8 + 1 + 1) (bs ! (p div 8 + 1)) 0x80 len = binary_text (take len (drop (Suc p) (bits_of bs)))"
      using Suc.IH [of "bs ! (p div 8 + 1)" "Suc p"] Suc.prems z(2) [OF True] d(1) [OF True] by simp
    then show ?thesis using b t m True by (simp add: Let_def binary_text_def)
  next
    case False
    have "binary_loop bs (p div 8 + 1) val (bit_mask_at (Suc p)) len = binary_text (take len (drop (Suc p) (bits_of bs)))"
      using Suc.IH [of val "Suc p"] Suc.prems v d(2) [OF False] by simp
    then show ?thesis using b t m z(1) False by (simp add: Let_def binary_text_def)
  qed
qed

lemma bits_to_binary_ok:
  "offs + len \<le> 8 * length bs \<Longrightarrow> bits_to_binary bs offs len = binary_text (take len (drop offs (bits_of bs)))"
  using binary_loop_ok [of offs len bs "bs ! (offs div 8)"]
  by (simp add: bits_to_binary_def binary_text_def bit_mask_at_def Let_def)


subsection \<open>Hexadecimal digits\<close>

lemma hex_text_4: "length xs = 4 \<Longrightarrow> hex_text (xs @ ys) = nibble xs # hex_text ys"
  by (cases xs rule: hex_text.cases) auto

lemma low_bits_4: "hex_digit (w :: u64) = nibble (low_bits 4 w)"
proof -
  have "w AND 15 = take_bit 4 w" by (simp add: take_bit_eq_mask mask_eq_exp_minus_1)
  then have "w AND 15 = word_of_bits (low_bits 4 w)" by (simp add: word_of_low_bits)
  moreover have "unat (word_of_bits (low_bits 4 w) :: u64) = nat_of_bits (low_bits 4 w)"
    by (rule unat_word_of_bits) simp
  ultimately show ?thesis by (simp add: hex_digit_def nibble_def)
qed

lemma hex_emit_ok:
  "hex_text (low_bits bits acc @ ys) = hex_emit acc bits @ hex_text (low_bits (bits mod 4) acc @ ys)"
proof (induction acc bits rule: hex_emit.induct)
  case (1 acc bits)
  show ?case
  proof (cases "4 \<le> bits")
    case True
    then obtain k where k: "bits = 4 + k" using le_Suc_ex by blast
    show ?thesis
      using "1.IH" True low_bits_append [of 4 k acc] hex_text_4 [of "low_bits 4 (drop_bit k acc)" "low_bits k acc @ ys"]
      by (simp add: k hex_emit.simps [of acc "4 + k"] low_bits_4)
  qed (simp add: hex_emit.simps [of acc bits])
qed

lemma hex_text_rest:
  "xs \<noteq> [] \<Longrightarrow> length xs < 4 \<Longrightarrow> hex_text xs = hex_text (xs @ True # replicate (3 - length xs) False) @ ''_''"
  by (cases xs rule: hex_text.cases) (auto simp: numeral_eq_Suc)

lemma low_bits_completed:
  fixes acc :: u64
  assumes "0 < f" "f < 4" "bits + 4 - f \<le> 64"
  shows "low_bits (bits + (4 - f)) (push_bit (3 - f) (2 * acc + 1)) = low_bits bits acc @ True # replicate (3 - f) False"
proof -
  have "2 * acc + 1 = push_bit 1 acc OR (1 :: u64)"
    by (simp add: or_one_eq push_bit_eq_mult)
  then have "low_bits (bits + 1) (2 * acc + 1) = low_bits bits acc @ low_bits 1 (1 :: u64)"
    using low_bits_push_or [of "1 :: u64" 1 bits acc] assms by (simp add: bit_1_iff)
  moreover have "low_bits (bits + 1 + (3 - f)) (push_bit (3 - f) (2 * acc + 1) OR 0)
      = low_bits (bits + 1) (2 * acc + 1) @ low_bits (3 - f) (0 :: u64)"
    by (rule low_bits_push_or) (use assms in auto)
  moreover have "low_bits 1 (1 :: u64) = [True]" "low_bits (3 - f) (0 :: u64) = replicate (3 - f) False"
    by (simp_all add: low_bits_def map_replicate_const)
  moreover have "bits + 1 + (3 - f) = bits + (4 - f)" "Suc (bits + 3 - f) = bits + 4 - f" using assms by arith+
  ultimately show ?thesis by simp
qed

lemma hex_end_ok: "bits \<le> 60 \<Longrightarrow> hex_end acc bits = hex_text (low_bits bits acc)"
proof (cases "bits mod 4 = 0")
  case True
  then show ?thesis using hex_emit_ok [of bits acc "[]"] by (simp add: hex_end_def)
next
  case False
  let ?f = "bits mod 4"
  assume b: "bits \<le> 60"
  have m: "(bits + (4 - ?f)) mod 4 = 0" using False by arith
  let ?acc = "push_bit (3 - ?f) (2 * acc + 1)"
  have e: "low_bits (bits + (4 - ?f)) ?acc = low_bits bits acc @ True # replicate (3 - ?f) False"
    by (rule low_bits_completed) (use False b in auto)
  have "hex_emit ?acc (bits + (4 - ?f)) = hex_text (low_bits bits acc @ True # replicate (3 - ?f) False)"
    using hex_emit_ok [of "bits + (4 - ?f)" ?acc "[]"] m e by simp
  also have "\<dots> = hex_emit acc bits @ hex_text (low_bits ?f acc @ True # replicate (3 - ?f) False)"
    by (rule hex_emit_ok)
  finally have "hex_end acc bits = hex_emit acc bits @ hex_text (low_bits ?f acc @ True # replicate (3 - ?f) False) @ ''_''"
    using False by (simp add: hex_end_def Let_def)
  also have "\<dots> = hex_emit acc bits @ hex_text (low_bits ?f acc)"
    using hex_text_rest [of "low_bits ?f acc"] False by (simp flip: length_greater_0_conv)
  also have "\<dots> = hex_text (low_bits bits acc)" using hex_emit_ok [of bits acc "[]"] by simp
  finally show ?thesis .
qed

lemma hex_fill_ok:
  assumes "8 * ptr + len \<le> 8 * length bs" and "bits \<le> 64" and "hex_fill bs ptr acc bits len = (ptr', acc', bits', len')"
  shows "low_bits bits' acc' @ take len' (drop (8 * ptr') (bits_of bs)) = low_bits bits acc @ take len (drop (8 * ptr) (bits_of bs))
    \<and> 8 * ptr' + len' \<le> 8 * length bs \<and> bits' \<le> 64"
  using assms
proof (induction bs ptr acc bits len rule: hex_fill.induct)
  case (1 bs ptr acc bits len)
  show ?case
  proof (cases "len \<ge> 8 \<and> bits \<le> 56")
    case True
    have f: "hex_fill bs (ptr + 1) (push_bit 8 acc OR ucast (bs ! ptr)) (bits + 8) (len - 8) = (ptr', acc', bits', len')"
      using "1.prems"(3) True by (simp add: hex_fill.simps [of bs ptr])
    have t: "take len (drop (8 * ptr) (bits_of bs)) = byte_bits (bs ! ptr) @ take (len - 8) (drop (8 * (ptr + 1)) (bits_of bs))"
      by (rule take_byte) (use True "1.prems"(1) in linarith)+
    have l: "low_bits (bits + 8) (push_bit 8 acc OR ucast (bs ! ptr)) = low_bits bits acc @ byte_bits (bs ! ptr)"
      using True by (simp add: low_bits_push_byte)
    show ?thesis using "1.IH" [OF True _ _ f] True "1.prems"(1) unfolding l t by simp
  next
    case False
    then show ?thesis using "1.prems" by (auto simp: hex_fill.simps [of bs ptr])
  qed
qed

lemma hex_loop_ok:
  assumes "8 * ptr + len \<le> 8 * length bs" and "bits \<le> 8" and "hex_loop bs ptr acc bits len = (s, ptr', acc', bits', len')"
  shows "hex_text (low_bits bits acc @ take len (drop (8 * ptr) (bits_of bs)))
      = s @ hex_text (low_bits bits' acc' @ take len' (drop (8 * ptr') (bits_of bs)))
    \<and> 8 * ptr' + len' \<le> 8 * length bs \<and> bits' \<le> 8 \<and> len' < 8"
  using assms
proof (induction bs ptr acc bits len arbitrary: s rule: hex_loop.induct)
  case (1 bs ptr acc bits len)
  show ?case
  proof (cases "len \<ge> 8")
    case True
    obtain p2 a2 b2 l2 where f: "hex_fill bs ptr acc bits len = (p2, a2, b2, l2)" by (metis prod_cases4)
    obtain s2 rest where l: "hex_loop bs p2 a2 (b2 mod 4) l2 = (s2, rest)" by (metis surj_pair)
    have e: "s = hex_emit a2 b2 @ s2" "rest = (ptr', acc', bits', len')"
      using "1.prems"(3) True f l by (simp_all add: hex_loop.simps [of bs ptr])
    note k = hex_fill_ok [OF "1.prems"(1) _ f]
    have "b2 mod 4 \<le> 8" by (rule order.trans [of _ 4]) auto
    note i = "1.IH" [OF True f [symmetric] refl refl refl _ this l [unfolded e(2)]]
    show ?thesis using k i "1.prems"(2) hex_emit_ok [of b2 a2 "take l2 (drop (8 * p2) (bits_of bs))"]
      by (simp add: e(1))
  next
    case False
    then show ?thesis using "1.prems" by (simp add: hex_loop.simps [of bs ptr])
  qed
qed


lemma hex_first_byte:
  "o' < 8 \<Longrightarrow> low_bits (8 - o') (ucast (b AND drop_bit o' 0xff) :: u64) = drop o' (byte_bits (b :: byte))"
proof (rule nth_equalityI)
  have m: "bit (255 :: int) i \<longleftrightarrow> i < 8" for i
    using bit_mask_iff [of 8 i, where 'a = int] by (simp add: mask_eq_exp_minus_1)
  fix i assume "o' < 8" "i < length (low_bits (8 - o') (ucast (b AND drop_bit o' 0xff) :: u64))"
  then show "low_bits (8 - o') (ucast (b AND drop_bit o' 0xff) :: u64) ! i = drop o' (byte_bits b) ! i"
    by (auto simp: bit_views bit_simps bit_0xff m)
qed simp

lemma bits_to_hex_ok:
  assumes "offs + len \<le> 8 * length bs"
  shows "bits_to_hex bs offs len = hex_text (take len (drop offs (bits_of bs)))"
proof (cases "len = 0")
  case False
  define p o' where "p = offs div 8" and "o' = offs mod 8"
  have o: "offs = 8 * p + o'" "o' < 8" by (simp_all add: p_def o'_def)
  have p: "p < length bs" using assms False o by linarith
  define acc where "acc = (ucast (bs ! p AND drop_bit o' 0xff) :: u64)"
  have a: "low_bits (8 - o') acc = drop o' (byte_bits (bs ! p))" unfolding acc_def by (rule hex_first_byte [OF o(2)])
  have d: "drop offs (bits_of bs) = drop o' (byte_bits (bs ! p)) @ drop (8 * (p + 1)) (bits_of bs)"
    using p o by (simp add: drop_bits_of drop_drop [symmetric] add.commute [of "8 * p"] Cons_nth_drop_Suc [symmetric] del: drop_drop)
  show ?thesis
  proof (cases "8 - o' > len")
    case True
    have "low_bits len (drop_bit (8 - o' - len) acc) = take len (low_bits (8 - o') acc)"
      using low_bits_append [of len "8 - o' - len" acc] True by simp
    then have "hex_end (drop_bit (8 - o' - len) acc) len = hex_text (take len (drop o' (byte_bits (bs ! p))))"
      using hex_end_ok [of len] True by (simp add: a)
    then show ?thesis using False True d
      by (simp add: bits_to_hex_def Let_def p_def [symmetric] o'_def [symmetric] acc_def [symmetric])
  next
    case long: False
    obtain s ptr' acc' bits' len' where l: "hex_loop bs (p + 1) acc (8 - o') (len - (8 - o')) = (s, ptr', acc', bits', len')"
      by (metis prod_cases5)
    have r: "8 * (p + 1) + (len - (8 - o')) \<le> 8 * length bs" using assms o long by arith
    note k = hex_loop_ok [OF r _ l]
    have t: "take len (drop offs (bits_of bs)) = low_bits (8 - o') acc @ take (len - (8 - o')) (drop (8 * (p + 1)) (bits_of bs))"
      using long o(2) by (simp add: d a)
    have e: "bits_to_hex bs offs len = s @ hex_end (if len' > 0 then push_bit len' acc' OR ucast (drop_bit (8 - len') (bs ! ptr')) else acc')
        (if len' > 0 then bits' + len' else bits')"
      using False long l by (simp add: bits_to_hex_def Let_def p_def [symmetric] o'_def [symmetric] acc_def [symmetric])
    have h: "hex_text (low_bits (8 - o') acc @ take (len - (8 - o')) (drop (8 * (p + 1)) (bits_of bs)))
        = s @ hex_text (low_bits bits' acc' @ take len' (drop (8 * ptr') (bits_of bs)))"
      and le: "8 * ptr' + len' \<le> 8 * length bs" "bits' \<le> 8" "len' < 8" using k by simp_all
    have "low_bits (bits' + len') (push_bit len' acc' OR ucast (drop_bit (8 - len') (bs ! ptr'))) = low_bits bits' acc' @ take len' (drop (8 * ptr') (bits_of bs))"
      if "len' > 0"
    proof -
      have "ptr' < length bs" using le that by linarith
      then have "take len' (drop (8 * ptr') (bits_of bs)) = take len' (byte_bits (bs ! ptr'))"
        using le by (simp add: drop_bits_of Cons_nth_drop_Suc [symmetric])
      then show ?thesis using low_bits_push_partial [of bits' len' "8 - len'" 0 acc' "bs ! ptr'"] le by simp
    qed
    then have "bits_to_hex bs offs len = s @ hex_text (low_bits bits' acc' @ take len' (drop (8 * ptr') (bits_of bs)))"
      unfolding e using hex_end_ok le by (cases "len' > 0") simp_all
    then show ?thesis by (simp only: t h)
  qed
qed (simp add: bits_to_hex_def)


section \<open>What is read\<close>

text \<open>The bits of a text, if it is one: blanks do not count, and a tag at the end takes the last one and
  the zeroes behind it away.\<close>

definition blank :: "char \<Rightarrow> bool" where
  "blank c \<longleftrightarrow> c = CHR '' '' \<or> c = CHR 0x09"

definition digit_bits :: "nat \<Rightarrow> bool list" where
  "digit_bits v = low_bits 4 (of_nat v :: byte)"

fun hex_bits :: "string \<Rightarrow> (bool list \<times> bool) option" where
  "hex_bits [] = Some ([], False)"
| "hex_bits (c # cs) =
     (case hex_value c of
        Some v \<Rightarrow> map_option (\<lambda>(xs, tag). (digit_bits v @ xs, tag)) (hex_bits cs)
      | None \<Rightarrow> if c = CHR ''_'' \<and> cs = [] then Some ([], True) else None)"

definition untag :: "bool list \<Rightarrow> bool list" where
  "untag xs = rev (tl (dropWhile Not (rev xs)))"

definition hex_literal :: "string \<Rightarrow> (bool list \<times> bool) option" where
  "hex_literal str = hex_bits (filter (\<lambda>c. \<not> blank c) str)"

lemma untag_Nil [simp]: "untag [] = []"
  by (simp add: untag_def)

lemma untag_snoc [simp]: "untag (xs @ [b]) = (if b then xs else untag xs)"
  by (simp add: untag_def)

lemma length_digit_bits [simp]: "length (digit_bits v) = 4"
  by (simp add: digit_bits_def)

lemma untag_prefix: "untag xs = take (length (untag xs)) xs"
proof (induction xs rule: rev_induct)
  case (snoc x xs)
  have "length (untag xs) \<le> length xs" by (metis snoc length_take min.cobounded1)
  then show ?case using snoc by simp
qed simp

lemma hex_value_not_blank: "hex_value c = Some v \<Longrightarrow> \<not> blank c \<and> c \<noteq> CHR ''_''"
  by (auto simp: hex_value_def blank_def Let_def split: if_splits)

lemma hex_value_less: "hex_value c = Some v \<Longrightarrow> v < 16"
proof -
  assume a: "hex_value c = Some v"
  define n where "n = (of_char c :: nat)"
  have l: "\<forall>k \<in> set ([65..<71] @ [97..<103]). (k OR 0x20) - 97 + 10 < (16 :: nat)" by code_simp
  show ?thesis
  proof (cases "n \<le> 57")
    case True
    then show ?thesis using a by (auto simp: hex_value_def Let_def n_def [symmetric] split: if_splits)
  next
    case False
    then have "n \<in> set ([65..<71] @ [97..<103])" "v = (n OR 0x20) - 97 + 10"
      using a by (auto simp: hex_value_def Let_def n_def [symmetric] split: if_splits)
    then show ?thesis using bspec [OF l] by simp
  qed
qed

text \<open>One digit more.\<close>

lemma bits_of_update_byte:
  "k < length bs \<Longrightarrow> bits_of (bs[k := b]) = overwrite (bits_of bs) (8 * k) (byte_bits b)"
  by (simp add: upd_conv_take_nth_drop overwrite_def take_bits_of add.commute flip: drop_bits_of)

lemma digit_high: "byte_bits (push_bit 4 (of_nat v)) = digit_bits v @ replicate 4 False"
  by (rule nth_equalityI) (auto simp: digit_bits_def bit_views bit_simps nth_append)

lemma digit_low:
  assumes "v < 16" and "byte_bits b = hi @ replicate 4 False"
  shows "byte_bits (b OR of_nat v) = hi @ digit_bits v"
proof (rule nth_equalityI)
  have h: "length hi = 4" using arg_cong [OF assms(2), of length] by simp
  then show "length (byte_bits (b OR of_nat v)) = length (hi @ digit_bits v)" by simp
  have v: "\<not> bit v j" if "4 \<le> j" for j
  proof -
    have "take_bit 4 v = v" using assms(1) by (simp add: take_bit_nat_eq_self)
    then show ?thesis using bit_take_bit_iff [of 4 v j] that by simp
  qed
  fix i assume "i < length (byte_bits (b OR of_nat v))"
  then have i: "i < 8" by simp
  have b: "bit b (7 - i) = (hi @ replicate 4 False) ! i" using i by (simp add: assms(2) [symmetric] bit_views)
  have o: "byte_bits (b OR of_nat v) ! i \<longleftrightarrow> bit b (7 - i) \<or> bit v (7 - i)"
    using i by (auto simp: bit_views bit_or_iff bit_of_nat_iff possible_bit_def)
  show "byte_bits (b OR of_nat v) ! i = (hi @ digit_bits v) ! i"
  proof (cases "i < 4")
    case True
    then show ?thesis unfolding o b using v [of "7 - i"] h by (simp add: nth_append)
  next
    case False
    then have "7 - i = 3 - (i - 4)" by simp
    with False show ?thesis unfolding o b using i h
      by (auto simp: nth_append digit_bits_def bit_views bit_of_nat_iff possible_bit_def)
  qed
qed

definition digits_held :: "byte list \<Rightarrow> nat \<Rightarrow> bool list \<Rightarrow> bool" where
  "digits_held buff digits xs \<longleftrightarrow>
     4 * digits = length xs \<and> take (4 * digits) (bits_of buff) = xs \<and>
     (odd digits \<longrightarrow> take 4 (drop (4 * digits) (bits_of buff)) = replicate 4 False)"

lemma digits_held_even:
  assumes "digits_held buff digits xs" "even digits" "digits div 2 < length buff" "v < 16"
  shows "digits_held (buff[digits div 2 := push_bit 4 (of_nat v)]) (digits + 1) (xs @ digit_bits v)"
proof -
  let ?k = "digits div 2"
  have k: "4 * digits = 8 * ?k" using assms(2) by auto
  have o: "bits_of (buff[?k := push_bit 4 (of_nat v)]) = take (8 * ?k) (bits_of buff) @ digit_bits v @ replicate 4 False @ drop (8 * ?k + 8) (bits_of buff)"
    using assms(3,4) by (simp add: bits_of_update_byte overwrite_def digit_high)
  have x: "length xs = 8 * ?k" "take (8 * ?k) (bits_of buff) = xs" using assms(1) by (auto simp: digits_held_def k)
  show ?thesis using assms(2,3) unfolding digits_held_def o x(2) by (simp add: x(1) k)
qed

lemma digits_held_odd:
  assumes "digits_held buff digits xs" "odd digits" "digits div 2 < length buff" "v < 16"
  shows "digits_held (buff[digits div 2 := buff ! (digits div 2) OR of_nat v]) (digits + 1) (xs @ digit_bits v)"
proof -
  let ?k = "digits div 2"
  have k: "4 * digits = 8 * ?k + 4" using assms(2) by (auto elim: oddE)
  let ?b = "byte_bits (buff ! ?k)"
  have x: "length xs = 8 * ?k + 4" "take (8 * ?k + 4) (bits_of buff) = xs" "take 4 (drop (8 * ?k + 4) (bits_of buff)) = replicate 4 False"
    using assms(1,2) unfolding digits_held_def k by auto
  have "drop 4 ?b = replicate 4 False"
    using assms(3) x(3) by (simp add: nth_bits_byte drop_take add.commute)
  then have b: "?b = take 4 ?b @ replicate 4 False" by (metis append_take_drop_id)
  have xs: "xs = take (8 * ?k) (bits_of buff) @ take 4 ?b"
    using assms(3) x(2) take_partial_byte [of ?k buff 4] by (simp add: take_bits_of)
  have o: "bits_of (buff[?k := buff ! ?k OR of_nat v]) = take (8 * ?k) (bits_of buff) @ (take 4 ?b @ digit_bits v) @ drop (8 * ?k + 8) (bits_of buff)"
    using assms(3) digit_low [OF assms(4) b] by (simp add: bits_of_update_byte overwrite_def)
  show ?thesis using assms(2,3) unfolding digits_held_def o xs by (simp add: k)
qed


text \<open>What the loop over the characters should find in what is left of the text, when there is room for
  \<open>n\<close> bits more.\<close>

definition rest_literal :: "bool \<Rightarrow> string \<Rightarrow> (bool list \<times> bool) option" where
  "rest_literal cmpl str =
     (if cmpl then if filter (\<lambda>c. \<not> blank c) str = [] then Some ([], True) else None else hex_literal str)"

definition room :: "nat \<Rightarrow> (bool list \<times> bool) option \<Rightarrow> (bool list \<times> bool) option" where
  "room n lit = (case lit of Some (ys, tag) \<Rightarrow> if length ys \<le> n then Some (ys, tag) else None | None \<Rightarrow> None)"

definition scan_result ::
  "(bool list \<times> bool) option \<Rightarrow> bool list \<Rightarrow> nat \<Rightarrow> nat \<Rightarrow> nat \<times> byte list + byte list \<times> nat \<times> nat \<times> bool \<Rightarrow> bool" where
  "scan_result lit xs l rptr r =
     (case r of
        Inl (n, buff) \<Rightarrow> lit = None \<and> rptr < n \<and> length buff = l
      | Inr (buff, ptr, digits, tag) \<Rightarrow>
          \<exists>ys. lit = Some (ys, tag) \<and> digits_held buff digits (xs @ ys) \<and> ptr = digits div 2 \<and> length buff = l)"

lemma rest_literal_simps [simp]:
  "rest_literal True [] = Some ([], True)" "rest_literal False [] = Some ([], False)"
  "rest_literal cmpl (c # cs) =
     (if blank c then rest_literal cmpl cs
      else if cmpl then None
      else case hex_value c of
        Some v \<Rightarrow> map_option (\<lambda>(xs, tag). (digit_bits v @ xs, tag)) (rest_literal False cs)
      | None \<Rightarrow> if c = CHR ''_'' then rest_literal True cs else None)"
  by (auto simp: rest_literal_def hex_literal_def split: option.splits)

lemma room_digit:
  "room n (map_option (\<lambda>(xs, tag). (digit_bits v @ xs, tag)) lit) =
     (if n < 4 then None else map_option (\<lambda>(xs, tag). (digit_bits v @ xs, tag)) (room (n - 4) lit))"
  by (auto simp: room_def split: option.splits)

lemma scan_result_digit:
  assumes "scan_result (room (n - 4) lit) (xs @ digit_bits v) l (Suc rptr) r" and "4 \<le> n"
  shows "scan_result (room n (map_option (\<lambda>(xs, tag). (digit_bits v @ xs, tag)) lit)) xs l rptr r"
  using assms by (auto simp: room_digit scan_result_def split: sum.splits)

lemma scan_result_Suc: "scan_result lit xs l (Suc rptr) r \<Longrightarrow> scan_result lit xs l rptr r"
  by (auto simp: scan_result_def split: sum.splits)

lemma hex_scan_ok:
  assumes "digits_held buff digits xs" and "digits \<le> 2 * buff_size" and "buff_size \<le> length buff"
  shows "scan_result (room (8 * buff_size - 4 * digits) (rest_literal cmpl str)) xs (length buff) rptr
     (hex_scan str rptr buff (digits div 2) digits buff_size cmpl)"
  using assms
proof (induction str arbitrary: rptr buff digits xs cmpl)
  case Nil
  then show ?case by (cases cmpl) (auto simp: room_def scan_result_def)
next
  case (Cons c cs)
  consider (blank) "blank c" | (tagged) "\<not> blank c" "cmpl"
    | (no) "\<not> blank c" "\<not> cmpl" "hex_value c = None" | (digit) v where "\<not> blank c" "\<not> cmpl" "hex_value c = Some v"
    by fastforce
  then show ?case
  proof cases
    case blank
    then have "hex_scan (c # cs) rptr buff (digits div 2) digits buff_size cmpl
        = hex_scan cs (Suc rptr) buff (digits div 2) digits buff_size cmpl"
      by (auto simp: blank_def)
    then show ?thesis using Cons.IH [OF Cons.prems, of cmpl "Suc rptr"] blank by (simp add: scan_result_Suc)
  next
    case tagged
    then show ?thesis by (simp add: Let_def blank_def room_def scan_result_def)
  next
    case no
    then show ?thesis using Cons.IH [OF Cons.prems, of True "Suc rptr"]
      by (auto simp: Let_def blank_def room_def [of _ None] intro: scan_result_Suc) (simp add: scan_result_def)
  next
    case digit
    show ?thesis
    proof (cases "digits \<ge> 2 * buff_size")
      case True
      then show ?thesis using digit
        by (simp add: Let_def blank_def room_digit scan_result_def)
    next
      case False
      define b where "b = (if even digits then buff[digits div 2 := push_bit 4 (of_nat v)]
        else buff[digits div 2 := buff ! (digits div 2) OR of_nat v])"
      have bl: "length b = length buff" by (simp add: b_def)
      have k: "digits div 2 < length buff" using False Cons.prems(3) by linarith
      have h: "digits_held b (Suc digits) (xs @ digit_bits v)"
        using digits_held_even [OF Cons.prems(1) _ k hex_value_less [OF digit(3)]]
          digits_held_odd [OF Cons.prems(1) _ k hex_value_less [OF digit(3)]] by (simp add: b_def)
      have e: "hex_scan (c # cs) rptr buff (digits div 2) digits buff_size cmpl
          = hex_scan cs (Suc rptr) b (Suc digits div 2) (Suc digits) buff_size cmpl"
        using digit False by (auto simp: Let_def blank_def b_def)
      have "scan_result (room (8 * buff_size - 4 * Suc digits) (rest_literal cmpl cs)) (xs @ digit_bits v) (length b) (Suc rptr)
          (hex_scan cs (Suc rptr) b (Suc digits div 2) (Suc digits) buff_size cmpl)"
        by (rule Cons.IH [OF h]) (use False Cons.prems bl in auto)
      then have "scan_result (room (8 * buff_size - 4 * digits - 4) (rest_literal False cs)) (xs @ digit_bits v) (length buff) (Suc rptr)
          (hex_scan (c # cs) rptr buff (digits div 2) digits buff_size cmpl)"
        using digit(2) unfolding e by (simp add: bl add.commute)
      then show ?thesis using scan_result_digit [of "8 * buff_size - 4 * digits"] digit False by simp
    qed
  qed
qed

text \<open>The tag.\<close>

lemma tagged_byte: "low_bits 8 (0x100 + ucast (c :: byte) :: u32) = byte_bits c" "drop_bit 8 (0x100 + ucast (c :: byte) :: u32) = 1"
proof -
  define h where "h = push_bit 8 (1 :: u32)"
  have h: "bit h i \<longleftrightarrow> i = 8" for i
    unfolding h_def bit_push_bit_iff bit_1_iff by (auto simp: possible_bit_def)
  have "h AND ucast c = 0"
    by (rule bit_word_eqI) (auto simp: bit_and_iff h dest: bit_ucast_byte_less)
  then have "h + ucast c = h OR ucast c" by (rule disjunctive_add_eq_or)
  then have e: "0x100 + ucast c = h OR (ucast c :: u32)" by (simp add: h_def)
  show "low_bits 8 (0x100 + ucast c :: u32) = byte_bits c"
    using low_bits_push_byte [where 'a = 32, of 0 1 c] by (simp add: e h_def)
  show "drop_bit 8 (0x100 + ucast c :: u32) = 1" unfolding e
    by (rule bit_word_eqI) (auto simp: bit_drop_bit_eq bit_or_iff h bit_1_iff dest: bit_ucast_byte_less)
qed

lemma hex_untag_ok:
  assumes "length xs = bits" and "bits = 0 \<or> xs = bits_of (take (nat ptr) buff) @ low_bits r t \<and> 0 \<le> ptr \<and> ptr < int (length buff) + 1 \<and> drop_bit r t = 1 \<and> 0 < r"
  shows "hex_untag before buff ptr t bits = length (untag xs)"
  using assms
proof (induction bits arbitrary: xs ptr t r)
  case (Suc bits)
  then obtain q where r: "r = Suc q" by (metis Suc_pred nat.discI)
  define t' where "t' = drop_bit 1 t"
  have xs: "xs = bits_of (take (nat ptr) buff) @ low_bits q t' @ [odd t]" and p: "0 \<le> ptr" "ptr \<le> int (length buff)" and t: "drop_bit q t' = 1"
    using Suc.prems low_bits_append [of q 1 t] low_bits_Suc [of 0 t] by (auto simp: r t'_def bit_0)
  show ?case
  proof (cases "odd t")
    case True
    then have "untag xs = bits_of (take (nat ptr) buff) @ low_bits q t'" unfolding xs append_assoc [symmetric] untag_snoc by simp
    then show ?thesis using True Suc.prems(1) by (simp add: xs)
  next
    case False
    let ?ys = "bits_of (take (nat ptr) buff) @ low_bits q t'"
    have u: "untag xs = untag ?ys" using False unfolding xs append_assoc [symmetric] untag_snoc by simp
    have l: "length ?ys = bits" using Suc.prems(1) by (simp add: xs)
    have z: "t' = 1 \<longleftrightarrow> q = 0"
    proof
      assume "t' = 1"
      then have "bit (drop_bit q t') 0 \<longleftrightarrow> q = 0" by (simp add: bit_drop_bit_eq bit_1_iff)
      then show "q = 0" unfolding t by simp
    qed (use t in simp)
    show ?thesis
    proof (cases "q = 0")
      case True
      define c where "c = byte_at before buff (ptr - 1)"
      have "bits = 0 \<or> ?ys = bits_of (take (nat (ptr - 1)) buff) @ low_bits 8 (0x100 + ucast c :: u32) \<and> 1 \<le> ptr"
      proof (cases "ptr = 0")
        case False
        then have "nat ptr = Suc (nat (ptr - 1))" "nat (ptr - 1) < length buff" using p by linarith+
        then show ?thesis using p False True
          by (simp add: take_Suc_conv_app_nth tagged_byte c_def byte_at_def)
      qed (use l True in simp)
      then have "hex_untag before buff (ptr - 1) (0x100 + ucast c) bits = length (untag ?ys)"
        using Suc.IH [OF l, of "ptr - 1" 8] p tagged_byte by auto
      then show ?thesis using u True False z by (simp add: t'_def [symmetric, simplified] c_def Let_def)
    next
      case q: False
      have "hex_untag before buff ptr t' bits = length (untag ?ys)"
        by (rule Suc.IH [OF l, of _ q]) (use q t p in auto)
      then show ?thesis using u q False z by (simp add: t'_def [symmetric, simplified] Let_def)
    qed
  qed
qed simp


lemma parse_bitstring_hex_literal_ok:
  assumes "buff_size \<le> length buff"
  shows "case room (8 * buff_size) (hex_literal str) of
       Some (xs, tag) \<Rightarrow>
         (let ys = if tag then untag xs else xs; (r, buff') = parse_bitstring_hex_literal before buff buff_size str
          in r = int (length ys) \<and> take (length ys) (bits_of buff') = ys \<and> length buff' = length buff)
     | None \<Rightarrow> fst (parse_bitstring_hex_literal before buff buff_size str) < 0"
proof -
  have s: "scan_result (room (8 * buff_size) (hex_literal str)) [] (length buff) 0 (hex_scan str 0 buff 0 0 buff_size False)"
    using hex_scan_ok [of buff 0 "[]" buff_size False str 0] assms by (simp add: digits_held_def rest_literal_def)
  show ?thesis
  proof (cases "hex_scan str 0 buff 0 0 buff_size False")
    case (Inl a)
    then show ?thesis using s by (cases a) (simp add: scan_result_def parse_bitstring_hex_literal_def)
  next
    case (Inr a)
    then obtain m ptr digits tag where a: "a = (m, ptr, digits, tag)" by (metis prod_cases4)
    with s Inr obtain xs where lit: "room (8 * buff_size) (hex_literal str) = Some (xs, tag)"
      and d: "digits_held m digits xs" and ptr: "ptr = digits div 2" and l: "length m = length buff"
      by (auto simp: scan_result_def)
    have xs: "length xs = 4 * digits" "take (4 * digits) (bits_of m) = xs" using d by (auto simp: digits_held_def)
    show ?thesis
    proof (cases "tag \<and> digits \<noteq> 0")
      case False
      then have "parse_bitstring_hex_literal before buff buff_size str = (int (4 * digits), m)"
        using Inr by (auto simp: parse_bitstring_hex_literal_def a Let_def)
      moreover have "(if tag then untag xs else xs) = xs" using False xs(1) by auto
      ultimately show ?thesis using xs l by (simp add: lit)
    next
      case True
      define c where "c = byte_at before m (if odd digits then int ptr else int ptr - 1)"
      have p: "parse_bitstring_hex_literal before buff buff_size str
          = (int (hex_untag before m (if odd digits then int ptr else int ptr - 1)
              (if odd digits then drop_bit 4 (0x100 + ucast c) else 0x100 + ucast c) (4 * digits)), m)"
        using Inr True by (simp add: parse_bitstring_hex_literal_def a c_def)
      have "hex_untag before m (if odd digits then int ptr else int ptr - 1)
          (if odd digits then drop_bit 4 (0x100 + ucast c) else 0x100 + ucast c) (4 * digits) = length (untag xs)"
      proof (cases "even digits")
        case even: True
        then have "ptr \<noteq> 0" "4 * digits = 8 * ptr" using True ptr by auto
        then obtain k where k: "ptr = Suc k" "4 * digits = 8 * Suc k" using not0_implies_Suc by blast
        have "k < length m" using xs by (auto simp: k(2) dest!: arg_cong [of _ _ length])
        then have "xs = bits_of (take k m) @ byte_bits c"
          using xs(2) even by (simp add: k take_bits_of take_Suc_conv_app_nth c_def byte_at_def del: mult_Suc_right)
        moreover have "int k < int (length m) + 1" using \<open>k < length m\<close> by simp
        ultimately have "hex_untag before m (int k) (0x100 + ucast c) (4 * digits) = length (untag xs)"
          using xs(1) hex_untag_ok [of xs "4 * digits" "int k" m 8] tagged_byte [of c] by simp
        then show ?thesis using even by (simp add: k)
      next
        case odd: False
        then have k: "4 * digits = 8 * ptr + 4" using ptr by (auto elim: oddE)
        have b: "ptr < length m" using xs by (auto simp: k dest!: arg_cong [of _ _ length])
        have "low_bits 4 (drop_bit 4 (0x100 + ucast c :: u32)) = take 4 (byte_bits c)"
          using low_bits_append [of 4 4 "0x100 + ucast c :: u32"] by (simp add: tagged_byte flip: tagged_byte(1))
        moreover have "xs = bits_of (take ptr m) @ take 4 (byte_bits c)"
          using xs(2) odd b take_partial_byte [of ptr m 4] by (simp add: k c_def byte_at_def)
        moreover have "drop_bit 4 (drop_bit 4 (0x100 + ucast c :: u32)) = 1" using tagged_byte(2) [of c] by simp
        ultimately have "hex_untag before m (int ptr) (drop_bit 4 (0x100 + ucast c)) (4 * digits) = length (untag xs)"
          using b xs(1) hex_untag_ok [of xs "4 * digits" "int ptr" m 4] by simp
        then show ?thesis using odd by simp
      qed
      moreover have "take (length (untag xs)) (bits_of m) = untag xs"
        using untag_prefix [of xs] xs(2) by (metis length_take min.cobounded2 min_absorb1 take_take)
      ultimately show ?thesis using True l by (simp add: lit p)
    qed
  qed
qed


subsection \<open>What was written is read\<close>

definition completed :: "bool list \<Rightarrow> bool list \<times> bool" where
  "completed xs =
     (if length xs mod 4 = 0 then (xs, False) else (xs @ True # replicate (3 - length xs mod 4) False, True))"

lemma nibble_read:
  "hex_value (nibble [a, b, c, d]) = Some (nat_of_bits [a, b, c, d])" "digit_bits (nat_of_bits [a, b, c, d]) = [a, b, c, d]"
proof -
  have "\<forall>a b c d. hex_value (nibble [a, b, c, d]) = Some (nat_of_bits [a, b, c, d]) \<and> digit_bits (nat_of_bits [a, b, c, d]) = [a, b, c, d]"
    by code_simp
  then show "hex_value (nibble [a, b, c, d]) = Some (nat_of_bits [a, b, c, d])" "digit_bits (nat_of_bits [a, b, c, d]) = [a, b, c, d]"
    by blast+
qed

lemma completed_simps:
  "completed (a # b # c # d # xs) = (case completed xs of (ys, tag) \<Rightarrow> ([a, b, c, d] @ ys, tag))"
  "completed [] = ([], False)" "completed [a] = ([a, True, False, False], True)"
  "completed [a, b] = ([a, b, True, False], True)" "completed [a, b, c] = ([a, b, c, True], True)"
  by (simp_all add: completed_def numeral_2_eq_2)

lemma hex_literal_text: "hex_literal (hex_text xs) = Some (completed xs)"
proof -
  have n: "\<not> blank (nibble [a, b, c, d])" for a b c d using hex_value_not_blank [OF nibble_read(1)] by simp
  have t: "\<not> blank (CHR ''_'')" "hex_value (CHR ''_'') = None" by code_simp+
  show ?thesis unfolding hex_literal_def
    by (induction xs rule: hex_text.induct)
      (simp_all only: hex_text.simps hex_bits.simps filter.simps n t nibble_read completed_simps if_True if_False option.simps
        not_False_eq_True not_True_eq_False split: prod.split, simp_all add: numeral_2_eq_2 n t nibble_read)
qed

lemma untag_zeroes [simp]: "untag (xs @ True # replicate k False) = xs"
proof (induction k)
  case (Suc k)
  then show ?case using untag_snoc [of "xs @ True # replicate k False" False] by (simp add: replicate_append_same)
qed (use untag_snoc [of xs True] in simp)

lemma hex_round_trip:
  assumes "offs + len \<le> 8 * length bs" and "len \<le> 8 * buff_size" and "buff_size \<le> length buff"
  shows "case parse_bitstring_hex_literal before buff buff_size (bits_to_hex bs offs len) of
      (r, buff') \<Rightarrow> r = int len \<and> take len (bits_of buff') = take len (drop offs (bits_of bs))"
proof -
  define xs where "xs = take len (drop offs (bits_of bs))"
  obtain ys tag where c: "completed xs = (ys, tag)" by fastforce
  have l: "length xs = len" using assms(1) by (simp add: xs_def)
  have "length ys \<le> 8 * buff_size" using c l assms(2) by (auto simp: completed_def split: if_splits) presburger
  moreover have "(if tag then untag ys else ys) = xs" using c by (auto simp: completed_def split: if_splits)
  moreover have "hex_literal (bits_to_hex bs offs len) = Some (ys, tag)"
    by (simp add: bits_to_hex_ok [OF assms(1)] hex_literal_text c flip: xs_def)
  ultimately show ?thesis
    using parse_bitstring_hex_literal_ok [OF assms(3), of before "bits_to_hex bs offs len"] l
    by (auto simp: room_def xs_def Let_def split: prod.splits)
qed

subsection \<open>Binary digits\<close>

definition binary_digit :: "char \<Rightarrow> bool" where
  "binary_digit c \<longleftrightarrow> c = CHR ''0'' \<or> c = CHR ''1''"

lemma overwrite_update:
  "p < length xs \<Longrightarrow> overwrite (xs[p := v]) (Suc p) ys = overwrite xs p (v # ys)"
  by (simp add: overwrite_def upd_conv_take_nth_drop take_Suc_conv_app_nth add.commute)

text \<open>How many characters of a text are read, with room for so many bits.\<close>

definition binary_count :: "nat \<Rightarrow> string \<Rightarrow> nat" where
  "binary_count n str = length (takeWhile binary_digit (take n str))"

lemma binary_scan_ok:
  fixes str :: string
  assumes "ptr_ok (m, p) buff_size"
  defines "k \<equiv> binary_count buff_size str"
  shows "\<exists>m'. binary_scan (m, p) buff_size str n = ((m', p + k), drop k str, n + k) \<and> length m' = length m \<and>
     bits_of m' = overwrite (bits_of m) p (map (\<lambda>c. c = CHR ''1'') (take k str))"
  using assms(1) unfolding k_def binary_count_def
proof (induction str arbitrary: m p buff_size n)
  case (Cons c cs)
  show ?case
  proof (cases "buff_size \<noteq> 0 \<and> binary_digit c")
    case True
    then obtain bs' where buff_size: "buff_size = Suc bs'" by (cases buff_size) auto
    have b: "odd (of_char c :: nat) \<longleftrightarrow> c = CHR ''1''" using True by (auto simp: binary_digit_def)
    let ?m = "ptr_set_bit (m, p) 0 (c = CHR ''1'')"
    have "p < 8 * length m" using Cons.prems by (simp add: ptr_ok_def buff_size)
    then have u: "bits_of ?m = (bits_of m)[p := (c = CHR ''1'')]" "p < length (bits_of m)"
      using bits_of_ptr_set_bit [of "(m, p)" 0] by simp_all
    have "ptr_ok (?m, Suc p) bs'" using Cons.prems by (simp add: ptr_ok_def buff_size)
    from Cons.IH [OF this, of "Suc n"] show ?thesis using True u
      by (auto simp: buff_size b binary_digit_def overwrite_update)
  qed (auto simp: binary_digit_def take_Cons')
qed simp

lemma parse_bitstring_binary_literal_ok:
  fixes str :: string
  assumes "ptr_ok (m, p) buff_size"
  defines "k \<equiv> binary_count buff_size str"
  shows "case parse_bitstring_binary_literal (m, p) buff_size str of
      (r, m') \<Rightarrow> r = (if k = length str then int k else - int k - 1) \<and>
        bits_of m' = overwrite (bits_of m) p (map (\<lambda>c. c = CHR ''1'') (take k str))"
proof -
  have "k \<le> length str" unfolding k_def binary_count_def by (metis length_takeWhile_le length_take min.bounded_iff)
  then show ?thesis
    using binary_scan_ok [OF assms(1), of str 0] by (auto simp: k_def [symmetric] parse_bitstring_binary_literal_def)
qed

lemma binary_round_trip:
  assumes "offs + len \<le> 8 * length bs" and "ptr_ok (m, p) len"
  shows "case parse_bitstring_binary_literal (m, p) len (bits_to_binary bs offs len) of
      (r, m') \<Rightarrow> r = int len \<and> bits_of m' = overwrite (bits_of m) p (take len (drop offs (bits_of bs)))"
proof -
  define xs where "xs = take len (drop offs (bits_of bs))"
  have l: "length xs = len" using assms(1) by (simp add: xs_def)
  have t: "takeWhile binary_digit (binary_text xs) = binary_text xs" "map (\<lambda>c. c = CHR ''1'') (binary_text xs) = xs"
    "length (binary_text xs) = length xs"
    by (auto simp: binary_text_def binary_digit_def takeWhile_eq_all_conv o_def intro: map_idI)
  show ?thesis
    using parse_bitstring_binary_literal_ok [OF assms(2), of "binary_text xs"] t l
    by (simp add: binary_count_def bits_to_binary_ok [OF assms(1)] flip: xs_def)
qed

end
