(* ===== verification/Aug_Dict.thy ===== *)
theory Aug_Dict
  imports Dict_Object
begin

text \<open>
  Dictionaries whose nodes carry extra data, \<open>AugmentedDictionary\<close> and \<open>AugmentationData\<close> of
  \<open>crypto/vm/dict.h\<close> and \<open>dict.cpp\<close>. The extra data of a leaf is computed from its value and stands in
  front of it; that of a fork is computed from the extra data of its children and stands behind the
  references to them. The class is a \<open>DictionaryFixed\<close> with some of its virtual functions overridden:
  its object is a \<open>dict\<close>, and the augmentation, which the object refers to, is an argument.
\<close>

section \<open>Augmentations\<close>

text \<open>The functions that a concrete augmentation supplies. They fail by their result.\<close>

record augmentation =
  skip_extra :: "slice \<Rightarrow> bool \<times> slice"
  eval_leaf :: "builder \<Rightarrow> slice \<Rightarrow> bool \<times> builder \<times> slice"
  eval_fork :: "builder \<Rightarrow> slice \<Rightarrow> slice \<Rightarrow> bool \<times> builder"
  eval_empty :: "builder \<Rightarrow> bool \<times> builder"

definition aug_check_empty :: "augmentation \<Rightarrow> slice \<Rightarrow> bool" where
  "aug_check_empty aug cs = (let (ok, cb) = eval_empty aug empty_builder in ok \<and> builder_contents_equal cb cs)"

definition aug_check_leaf :: "augmentation \<Rightarrow> slice \<Rightarrow> slice \<Rightarrow> bool \<times> slice" where
  "aug_check_leaf aug cs val_cs =
     (let (ok, cb, val_cs) = eval_leaf aug empty_builder val_cs in (ok \<and> builder_contents_equal cb cs, val_cs))"

definition aug_check_fork :: "augmentation \<Rightarrow> slice \<Rightarrow> slice \<Rightarrow> slice \<Rightarrow> bool" where
  "aug_check_fork aug cs left_cs right_cs =
     (let (ok, cb) = eval_fork aug empty_builder left_cs right_cs in ok \<and> builder_contents_equal cb cs)"

definition aug_check_leaf_key_extra :: "augmentation \<Rightarrow> slice \<Rightarrow> slice \<Rightarrow> bit_ptr \<Rightarrow> nat \<Rightarrow> bool \<times> slice" where
  "aug_check_leaf_key_extra aug val_cs extra_cs key key_len = aug_check_leaf aug extra_cs val_cs"

text \<open>\<open>extract_extra\<close> moves the slice behind the extra data, which is its result.\<close>

definition extract_extra :: "augmentation \<Rightarrow> slice \<Rightarrow> slice option \<times> slice" where
  "extract_extra aug cs =
     (let res = cs; (ok, cs) = skip_extra aug cs
      in if \<not> ok then (None, cs)
         else let (ok, res) = cut_tail res cs in (if ok then Some res else None, cs))"

definition extract_extra_ref :: "augmentation \<Rightarrow> slice \<Rightarrow> slice option" where
  "extract_extra_ref aug cs_ref =
     (let (ok, cs) = skip_extra aug cs_ref
      in if \<not> ok then None else let (ok, cs_ref) = cut_tail cs_ref cs in if ok then Some cs_ref else None)"

definition extract_extra_to :: "augmentation \<Rightarrow> slice \<Rightarrow> bool \<times> slice \<times> slice" where
  "extract_extra_to aug cs =
     (let extra = cs
      in if s_cell cs = None then (False, cs, extra)
         else
           let (ok, cs) = skip_extra aug cs
           in if \<not> ok then (False, cs, extra)
              else let (ok, extra) = cut_tail extra cs in (ok, cs, extra))"

section \<open>Nodes\<close>

definition aug_get_node_extra ::
  "augmentation \<Rightarrow> (byte list \<Rightarrow> byte list) \<Rightarrow> cell option \<Rightarrow> nat \<Rightarrow> dict_error + slice option" where
  "aug_get_node_extra aug sha256 cell_ref n =
     (if cell_ref = None then
        let (ok, cb) = eval_empty aug empty_builder
        in if \<not> ok then Inr None
           else bind_err (dict_finalize sha256 cb) (\<lambda>(c, cb). Inr (Some (slice_of_loaded (Some c) virt_none)))
      else
        bind_err (label_of_cell cell_ref n chk_size) (\<lambda>lab.
          let lab = skip_label lab
          in if l_bits lab = n then Inr (extract_extra_ref aug (l_remainder lab))
             else
               let (ok, remainder) = advance_refs (l_remainder lab) 2
               in if \<not> ok then Inr None
                  else
                    let (ok, cs) = skip_extra aug remainder
                    in if ok \<and> slice_size cs = 0 \<and> slice_size_refs cs = 0 then Inr (Some remainder) else Inr None))"

definition aug_finish_create_leaf ::
  "augmentation \<Rightarrow> (byte list \<Rightarrow> byte list) \<Rightarrow> builder \<Rightarrow> slice \<Rightarrow> dict_error + cell \<times> builder" where
  "aug_finish_create_leaf aug sha256 cb val =
     bind_err (or_throw Excno_dict_err (let (ok, cb, value_copy) = eval_leaf aug cb val in (ok, cb))) (\<lambda>cb.
     bind_err (or_throw Excno_dict_err (append_cellslice_bool cb val)) (\<lambda>cb. dict_finalize sha256 cb))"

definition aug_finish_create_fork ::
  "augmentation \<Rightarrow> (byte list \<Rightarrow> byte list) \<Rightarrow> builder \<Rightarrow> cell option \<Rightarrow> cell option \<Rightarrow> nat \<Rightarrow> dict_error + cell" where
  "aug_finish_create_fork aug sha256 cb c1 c2 n =
     bind_err (or_throw Excno_dict_err
       (let (ok1, cb1) = store_ref_bool cb c1 in if ok1 then store_ref_bool cb1 c2 else (False, cb1))) (\<lambda>cb.
     bind_err (aug_get_node_extra aug sha256 c1 (n - 1)) (\<lambda>extra1.
     bind_err (aug_get_node_extra aug sha256 c2 (n - 1)) (\<lambda>extra2.
       case (extra1, extra2) of
         (Some e1, Some e2) \<Rightarrow>
           bind_err (or_throw Excno_dict_err (eval_fork aug cb e1 e2)) (\<lambda>cb.
           bind_err (dict_finalize sha256 cb) (\<lambda>(c, cb). Inr c))
       | _ \<Rightarrow> Inl (Vm_error Excno_dict_err))))"

definition aug_create_leaf ::
  "augmentation \<Rightarrow> (byte list \<Rightarrow> byte list) \<Rightarrow> bit_ptr \<Rightarrow> nat \<Rightarrow> slice \<Rightarrow> dict_error + cell \<times> builder" where
  "aug_create_leaf aug sha256 key n val =
     bind_err (append_dict_label empty_builder key n n) (\<lambda>cb. aug_finish_create_leaf aug sha256 cb val)"

definition aug_create_fork ::
  "augmentation \<Rightarrow> (byte list \<Rightarrow> byte list) \<Rightarrow> bit_ptr \<Rightarrow> nat \<Rightarrow> nat \<Rightarrow> cell option \<Rightarrow> cell option \<Rightarrow> dict_error + cell" where
  "aug_create_fork aug sha256 key len n c1 c2 =
     bind_err (append_dict_label empty_builder key len n) (\<lambda>cb. aug_finish_create_fork aug sha256 cb c1 c2 (n - len))"

section \<open>Operations on trees\<close>

text \<open>The loop of \<open>DictionaryFixed::lookup\<close>, which opens the nodes of an augmented dictionary in another
  mode.\<close>

function aug_dict_lookup :: "cell option \<Rightarrow> bit_ptr \<Rightarrow> nat \<Rightarrow> dict_error + slice option" where
  "aug_dict_lookup c key n =
     bind_err (label_of_cell c n chk_size) (\<lambda>lab.
       if \<not> label_is_prefix_of lab key n then Inr None
       else if n - l_bits lab = 0 then Inr (Some (l_remainder (skip_label lab)))
       else
         let key1 = ptr_add key (l_bits lab); sw = ptr_bit key1 0
         in aug_dict_lookup (prefetch_ref (l_remainder lab) (of_bool sw)) (ptr_add key1 1) (n - l_bits lab - 1))"
  by pat_completeness auto
termination by (relation "measure (\<lambda>(c, key, n). n)") auto

declare aug_dict_lookup.simps [simp del]

lemma label_leaves_less2:
  "label_of_cell dict n chk_size = Inr lab \<Longrightarrow> l_bits lab \<noteq> n \<Longrightarrow> n - Suc (l_bits lab) < n"
  using label_of_cell_bounded [of dict n chk_size lab] by simp

definition aug_insert_fork ::
  "augmentation \<Rightarrow> (byte list \<Rightarrow> byte list) \<Rightarrow> label \<Rightarrow> bit_ptr \<Rightarrow> nat \<Rightarrow> nat \<Rightarrow> slice \<Rightarrow> dict_error + cell" where
  "aug_insert_fork aug sha256 lab key n pfx_len val =
     (let m = n - pfx_len - 1
      in bind_err (aug_create_leaf aug sha256 (ptr_add key (pfx_len + 1)) m val) (\<lambda>(c1, cb).
         bind_err (lower_edge sha256 cb lab pfx_len m) (\<lambda>(c2, cb).
           let (c1, c2) = (if ptr_bit key pfx_len then (c2, c1) else (c1, c2))
           in aug_create_fork aug sha256 key pfx_len n (Some c1) (Some c2))))"

function aug_dict_set ::
  "augmentation \<Rightarrow> (byte list \<Rightarrow> byte list) \<Rightarrow> cell option \<Rightarrow> bit_ptr \<Rightarrow> nat \<Rightarrow> slice \<Rightarrow> set_mode \<Rightarrow> dict_error + cell option \<times> bool" where
  "aug_dict_set aug sha256 dict key n val mode =
     (if dict = None then
        if mode = Mode_Replace then Inr (None, False)
        else bind_err (aug_create_leaf aug sha256 key n val) (\<lambda>(c, cb). Inr (Some c, True))
      else
        bind_err (label_of_cell dict n chk_size) (\<lambda>lab.
        bind_err (label_validate lab) (\<lambda>_.
          let pfx_len = label_common_prefix_len lab key n
          in if pfx_len < l_bits lab then
               if mode = Mode_Replace then Inr (None, False)
               else bind_err (aug_insert_fork aug sha256 lab key n pfx_len val) (\<lambda>c. Inr (Some c, True))
             else if l_bits lab = n then
               if mode = Mode_Add then Inr (None, False)
               else bind_err (aug_create_leaf aug sha256 key n val) (\<lambda>(c, cb). Inr (Some c, True))
             else
               let c1 = prefetch_ref (l_remainder lab) 0; c2 = prefetch_ref (l_remainder lab) 1;
                   right = ptr_bit key (l_bits lab)
               in bind_err (aug_dict_set aug sha256 (if right then c2 else c1) (ptr_add key (l_bits lab + 1)) (n - l_bits lab - 1)
                    val mode) (\<lambda>(res, changed).
                    if \<not> changed then Inr (None, False)
                    else
                      let (c1, c2) = (if right then (c1, res) else (res, c2))
                      in bind_err (aug_create_fork aug sha256 key (l_bits lab) n c1 c2)
                           (\<lambda>c. Inr (Some c, True))))))"
  by pat_completeness auto
termination
  by (relation "measure (\<lambda>(aug, sha256, dict, key, n, val, mode). n)") (auto intro: label_leaves_less2)

declare aug_dict_set.simps [simp del]

text \<open>\<open>DictionaryFixed::dict_lookup_delete\<close> with the overridden functions.\<close>

function aug_dict_lookup_delete ::
  "augmentation \<Rightarrow> (byte list \<Rightarrow> byte list) \<Rightarrow> cell option \<Rightarrow> bit_ptr \<Rightarrow> nat \<Rightarrow> dict_error + slice option \<times> cell option" where
  "aug_dict_lookup_delete aug sha256 dict key n =
     (if dict = None then Inr (None, None)
      else
        bind_err (label_of_cell dict n chk_size) (\<lambda>lab.
          let pfx_len = label_common_prefix_len lab key n
          in if pfx_len < l_bits lab then Inr (None, None)
             else if l_bits lab = n then Inr (Some (l_remainder (skip_label lab)), None)
             else
               let c1 = prefetch_ref (l_remainder lab) 0; c2 = prefetch_ref (l_remainder lab) 1;
                   sw_bit = ptr_bit key (l_bits lab)
               in bind_err (aug_dict_lookup_delete aug sha256 (if sw_bit then c2 else c1) (ptr_add key (l_bits lab + 1))
                    (n - l_bits lab - 1)) (\<lambda>(old_val, res).
                    if old_val = None then Inr (None, None)
                    else
                      let (c1, c2) = (if sw_bit then (c1, res) else (res, c2))
                      in if c1 \<noteq> None \<and> c2 \<noteq> None then
                           bind_err (aug_create_fork aug sha256 key (l_bits lab) n c1 c2) (\<lambda>c. Inr (old_val, Some c))
                         else
                           let (c1, c2) = (if \<not> sw_bit then (c2, c1) else (c1, c2))
                           in bind_err (merge_edge sha256 key (l_bits lab) (\<not> sw_bit) c1 n chk_size)
                                (\<lambda>c. Inr (old_val, Some c)))))"
  by pat_completeness auto
termination
  by (relation "measure (\<lambda>(aug, sha256, dict, key, n). n)") (auto intro: label_leaves_less2)

declare aug_dict_lookup_delete.simps [simp del]

section \<open>The object\<close>

definition aug_get_root_extra :: "augmentation \<Rightarrow> (byte list \<Rightarrow> byte list) \<Rightarrow> dict \<Rightarrow> dict_error + slice option" where
  "aug_get_root_extra aug sha256 d = aug_get_node_extra aug sha256 (d_root_cell d) (nat (d_key_bits d))"

definition aug_validate :: "augmentation \<Rightarrow> (byte list \<Rightarrow> byte list) \<Rightarrow> dict \<Rightarrow> dict_error + bool \<times> dict" where
  "aug_validate aug sha256 d =
     (if dict_is_valid d then Inr (True, d)
      else if d_flags d AND f_invalid \<noteq> 0 then Inr (False, d)
      else if d_key_bits d < 0 \<or> d_key_bits d > int max_key_bits then Inr (dict_invalidate d)
      else if d_flags d AND f_root_cached \<noteq> 0 then
        (case d_root d of
           None \<Rightarrow> Inr (dict_invalidate d)
         | Some r \<Rightarrow>
             if slice_size r = 0 then Inr (dict_invalidate d)
             else
               let (v, r1) = prefetch_ulong r 1; non_empty = (v \<noteq> 0); d1 = d\<lparr>d_root := Some r1\<rparr>
               in if non_empty \<and> slice_size_refs r1 = 0 then Inr (dict_invalidate d1)
                  else if d_root_cell d1 \<noteq> None then Inr (dict_invalidate d1)
                  else
                    let (ok, cs) = slice_advance r1 1
                    in if \<not> ok then Inr (dict_invalidate d1)
                       else if non_empty then
                         let (c, cs) = fetch_ref cs; d2 = d1\<lparr>d_root_cell := c\<rparr>
                         in bind_err (aug_get_root_extra aug sha256 d2) (\<lambda>root_extra.
                              if root_extra = None \<or> \<not> contents_equal (the root_extra) cs then Inr (dict_invalidate d2)
                              else Inr (True, d2\<lparr>d_flags := d_flags d2 OR f_valid\<rparr>))
                       else if \<not> aug_check_empty aug cs then Inr (dict_invalidate d1)
                       else Inr (True, d1\<lparr>d_flags := d_flags d1 OR f_valid\<rparr>))
      else if d_root d \<noteq> None then Inr (dict_invalidate d)
      else Inr (True, d\<lparr>d_flags := d_flags d OR f_valid\<rparr>))"

definition aug_force_validate :: "augmentation \<Rightarrow> (byte list \<Rightarrow> byte list) \<Rightarrow> dict \<Rightarrow> dict_error + dict" where
  "aug_force_validate aug sha256 d =
     (if dict_is_valid d then Inr d
      else bind_err (aug_validate aug sha256 d) (\<lambda>(ok, d1). if \<not> ok then Inl (Vm_error Excno_dict_err) else Inr d1))"

definition aug_finish_new :: "augmentation \<Rightarrow> (byte list \<Rightarrow> byte list) \<Rightarrow> bool \<Rightarrow> dict \<Rightarrow> dict_error + dict" where
  "aug_finish_new aug sha256 validate d = (if validate then aug_force_validate aug sha256 d else Inr d)"

definition new_aug_dict :: "augmentation \<Rightarrow> (byte list \<Rightarrow> byte list) \<Rightarrow> int \<Rightarrow> bool \<Rightarrow> dict_error + dict" where
  "new_aug_dict aug sha256 n validate = bind_err (new_dict n False) (aug_finish_new aug sha256 validate)"

definition new_aug_dict_ref ::
  "augmentation \<Rightarrow> (byte list \<Rightarrow> byte list) \<Rightarrow> slice option \<Rightarrow> int \<Rightarrow> bool \<Rightarrow> dict_error + dict" where
  "new_aug_dict_ref aug sha256 root n validate = bind_err (new_dict_ref root n False) (aug_finish_new aug sha256 validate)"

definition new_aug_dict_cell ::
  "augmentation \<Rightarrow> (byte list \<Rightarrow> byte list) \<Rightarrow> cell option \<Rightarrow> int \<Rightarrow> bool \<Rightarrow> dict_error + dict" where
  "new_aug_dict_cell aug sha256 c n validate = bind_err (new_dict_cell c n False) (aug_finish_new aug sha256 validate)"

definition new_aug_dict_nonempty ::
  "augmentation \<Rightarrow> (byte list \<Rightarrow> byte list) \<Rightarrow> slice option \<Rightarrow> int \<Rightarrow> bool \<Rightarrow> dict_error + dict" where
  "new_aug_dict_nonempty aug sha256 root n validate =
     bind_err (new_dict_nonempty sha256 root n False) (aug_finish_new aug sha256 validate)"

definition aug_get_empty_dictionary :: "augmentation \<Rightarrow> (byte list \<Rightarrow> byte list) \<Rightarrow> dict_error + slice option" where
  "aug_get_empty_dictionary aug sha256 =
     bind_err (build (store_long empty_builder 0 1)) (\<lambda>cb.
       let (ok, cb) = eval_empty aug cb
       in if ok then bind_err (dict_finalize sha256 cb) (\<lambda>(c, cb). Inr (Some (slice_of_loaded (Some c) virt_none)))
          else Inr None)"

text \<open>A slice that may be a null reference, appended.\<close>

definition append_extra_bool :: "builder \<Rightarrow> slice option \<Rightarrow> bool \<times> builder" where
  "append_extra_bool cb cs_ref = (case cs_ref of None \<Rightarrow> (False, cb) | Some cs \<Rightarrow> append_cellslice_bool cb cs)"

definition aug_store_root ::
  "augmentation \<Rightarrow> (byte list \<Rightarrow> byte list) \<Rightarrow> dict \<Rightarrow> cell \<Rightarrow> builder \<Rightarrow> (builder \<Rightarrow> bool \<times> builder) \<Rightarrow> dict_error + bool \<times> builder" where
  "aug_store_root aug sha256 d c cb store_one =
     (let (ok, cb) = store_one cb
      in if \<not> ok then Inr (False, cb)
         else
           let (ok, cb) = store_ref_bool cb (Some c)
           in if \<not> ok then Inr (False, cb)
              else bind_err (aug_get_root_extra aug sha256 d) (\<lambda>extra. Inr (append_extra_bool cb extra)))"

definition aug_compute_root :: "augmentation \<Rightarrow> (byte list \<Rightarrow> byte list) \<Rightarrow> dict \<Rightarrow> dict_error + bool \<times> dict" where
  "aug_compute_root aug sha256 d =
     (if \<not> dict_is_valid d then Inr (False, d)
      else case d_root_cell d of
        None \<Rightarrow>
          bind_err (aug_get_empty_dictionary aug sha256) (\<lambda>r.
            Inr (True, d\<lparr>d_root := r, d_flags := d_flags d OR f_root_cached\<rparr>))
      | Some c \<Rightarrow>
          bind_err (aug_store_root aug sha256 d c empty_builder (\<lambda>cb. store_long_bool cb 1 1)) (\<lambda>(ok, cb).
            if \<not> ok then Inr (False, d)
            else bind_err (dict_finalize sha256 cb) (\<lambda>(c, cb).
              Inr (True, d\<lparr>d_root := Some (slice_of_loaded (Some c) virt_none), d_flags := d_flags d OR f_root_cached\<rparr>))))"

definition aug_get_root :: "augmentation \<Rightarrow> (byte list \<Rightarrow> byte list) \<Rightarrow> dict \<Rightarrow> dict_error + slice option \<times> dict" where
  "aug_get_root aug sha256 d =
     (if d_flags d AND f_root_cached = 0 then
        bind_err (aug_compute_root aug sha256 d) (\<lambda>(ok, d1). Inr (if ok then d_root d1 else None, d1))
      else Inr (d_root d, d))"

definition aug_extract_root :: "augmentation \<Rightarrow> (byte list \<Rightarrow> byte list) \<Rightarrow> dict \<Rightarrow> dict_error + slice option \<times> dict" where
  "aug_extract_root aug sha256 d =
     (if d_flags d AND f_root_cached = 0 then
        bind_err (aug_compute_root aug sha256 d) (\<lambda>(ok, d1).
          Inr (if ok then (d_root d1, d1\<lparr>d_root := None, d_flags := f_invalid\<rparr>) else (None, d1)))
      else Inr (d_root d, d\<lparr>d_root := None, d_flags := f_invalid\<rparr>))"

definition aug_append_dict_to_bool ::
  "augmentation \<Rightarrow> (byte list \<Rightarrow> byte list) \<Rightarrow> dict \<Rightarrow> builder \<Rightarrow> dict_error + bool \<times> builder" where
  "aug_append_dict_to_bool aug sha256 d cb =
     (if \<not> dict_is_valid d then Inr (False, cb)
      else case d_root_cell d of
        None \<Rightarrow> let (ok, cb) = store_bits_same_bool cb 1 False in Inr (if ok then eval_empty aug cb else (False, cb))
      | Some c \<Rightarrow> aug_store_root aug sha256 d c cb (\<lambda>cb. store_bits_same_bool cb 1 True))"

definition aug_append_dict_to_bool_move ::
  "augmentation \<Rightarrow> (byte list \<Rightarrow> byte list) \<Rightarrow> dict \<Rightarrow> builder \<Rightarrow> dict_error + (bool \<times> builder) \<times> dict" where
  "aug_append_dict_to_bool_move aug sha256 d cb =
     (if \<not> dict_is_valid d then Inr ((False, cb), d)
      else bind_err (aug_append_dict_to_bool aug sha256 d cb) (\<lambda>r. Inr (r, d\<lparr>d_flags := f_invalid\<rparr>)))"

section \<open>Values and their extra data\<close>

definition aug_extract_value :: "augmentation \<Rightarrow> slice option \<Rightarrow> slice option" where
  "aug_extract_value aug value_extra =
     (case value_extra of
        None \<Rightarrow> None
      | Some cs \<Rightarrow> let (ok, cs) = skip_extra aug cs in if ok then Some cs else None)"

definition aug_extract_value_ref :: "augmentation \<Rightarrow> slice option \<Rightarrow> cell option" where
  "aug_extract_value_ref aug value_extra =
     (case value_extra of
        None \<Rightarrow> None
      | Some cs \<Rightarrow> let (ok, cs) = skip_extra aug cs in if ok \<and> slice_size_ext cs = 0x10000 then prefetch_ref cs 0 else None)"

definition aug_decompose_value_extra :: "augmentation \<Rightarrow> slice option \<Rightarrow> (slice \<times> slice) option" where
  "aug_decompose_value_extra aug value_extra =
     (case value_extra of
        None \<Rightarrow> None
      | Some cs \<Rightarrow>
          (case extract_extra aug cs of (None, cs) \<Rightarrow> None | (Some extra, cs) \<Rightarrow> Some (cs, extra)))"

definition aug_decompose_value_ref_extra :: "augmentation \<Rightarrow> slice option \<Rightarrow> (cell option \<times> slice) option" where
  "aug_decompose_value_ref_extra aug value_extra =
     (case value_extra of
        None \<Rightarrow> None
      | Some cs \<Rightarrow>
          (case extract_extra aug cs of
             (None, cs) \<Rightarrow> None
           | (Some extra, cs) \<Rightarrow> if slice_size_ext cs \<noteq> 0x10000 then None else Some (prefetch_ref cs 0, extra)))"

definition aug_extract_leaf_value :: "augmentation \<Rightarrow> slice option \<Rightarrow> slice option" where
  "aug_extract_leaf_value aug leaf =
     (case leaf of
        None \<Rightarrow> None
      | Some cs \<Rightarrow> let (ok, cs) = skip_extra aug cs in if ok then Some cs else None)"

text \<open>The tests that validation makes of leaves and forks: the extra data is what the augmentation gives.\<close>

definition aug_dict_check_leaf :: "augmentation \<Rightarrow> slice \<Rightarrow> bit_ptr \<Rightarrow> nat \<Rightarrow> bool \<times> slice" where
  "aug_dict_check_leaf aug cs key key_len =
     (let (ok, cs, extra) = extract_extra_to aug cs
      in if \<not> ok then (False, cs) else aug_check_leaf_key_extra aug cs extra key key_len)"

definition aug_dict_check_fork ::
  "augmentation \<Rightarrow> (byte list \<Rightarrow> byte list) \<Rightarrow> slice \<Rightarrow> cell option \<Rightarrow> cell option \<Rightarrow> nat \<Rightarrow> dict_error + bool" where
  "aug_dict_check_fork aug sha256 cs c1 c2 n =
     (if n = 0 then Inr False
      else bind_err (aug_get_node_extra aug sha256 c1 (n - 1)) (\<lambda>extra1.
        bind_err (aug_get_node_extra aug sha256 c2 (n - 1)) (\<lambda>extra2.
          case (extra1, extra2) of
            (Some e1, Some e2) \<Rightarrow> Inr (aug_check_fork aug cs e1 e2)
          | _ \<Rightarrow> Inr False)))"

text \<open>The pairs of null references that stand for a missing value are \<open>None\<close> here.\<close>

definition aug_lookup_with_extra ::
  "augmentation \<Rightarrow> (byte list \<Rightarrow> byte list) \<Rightarrow> dict \<Rightarrow> bit_ptr \<Rightarrow> nat \<Rightarrow> dict_error + slice option \<times> dict" where
  "aug_lookup_with_extra aug sha256 d key key_len =
     bind_err (aug_force_validate aug sha256 d) (\<lambda>d.
       if int key_len \<noteq> d_key_bits d \<or> dict_is_empty d then Inr (None, d)
       else bind_err (aug_dict_lookup (d_root_cell d) key key_len) (\<lambda>r. Inr (r, d)))"

definition aug_lookup :: "augmentation \<Rightarrow> (byte list \<Rightarrow> byte list) \<Rightarrow> dict \<Rightarrow> bit_ptr \<Rightarrow> nat \<Rightarrow> dict_error + slice option \<times> dict" where
  "aug_lookup aug sha256 d key key_len =
     bind_err (aug_lookup_with_extra aug sha256 d key key_len) (\<lambda>(r, d). Inr (aug_extract_value aug r, d))"

definition aug_lookup_ref :: "augmentation \<Rightarrow> (byte list \<Rightarrow> byte list) \<Rightarrow> dict \<Rightarrow> bit_ptr \<Rightarrow> nat \<Rightarrow> dict_error + cell option \<times> dict" where
  "aug_lookup_ref aug sha256 d key key_len =
     bind_err (aug_lookup_with_extra aug sha256 d key key_len) (\<lambda>(r, d). Inr (aug_extract_value_ref aug r, d))"

definition aug_lookup_extra ::
  "augmentation \<Rightarrow> (byte list \<Rightarrow> byte list) \<Rightarrow> dict \<Rightarrow> bit_ptr \<Rightarrow> nat \<Rightarrow> dict_error + (slice \<times> slice) option \<times> dict" where
  "aug_lookup_extra aug sha256 d key key_len =
     bind_err (aug_lookup_with_extra aug sha256 d key key_len) (\<lambda>(r, d). Inr (aug_decompose_value_extra aug r, d))"

definition aug_lookup_ref_extra ::
  "augmentation \<Rightarrow> (byte list \<Rightarrow> byte list) \<Rightarrow> dict \<Rightarrow> bit_ptr \<Rightarrow> nat \<Rightarrow> dict_error + (cell option \<times> slice) option \<times> dict" where
  "aug_lookup_ref_extra aug sha256 d key key_len =
     bind_err (aug_lookup_with_extra aug sha256 d key key_len) (\<lambda>(r, d). Inr (aug_decompose_value_ref_extra aug r, d))"

definition aug_lookup_delete_with_extra ::
  "augmentation \<Rightarrow> (byte list \<Rightarrow> byte list) \<Rightarrow> dict \<Rightarrow> bit_ptr \<Rightarrow> nat \<Rightarrow> dict_error + slice option \<times> dict" where
  "aug_lookup_delete_with_extra aug sha256 d key key_len =
     bind_err (aug_force_validate aug sha256 d) (\<lambda>d.
       if int key_len \<noteq> d_key_bits d then Inr (None, d)
       else bind_err (aug_dict_lookup_delete aug sha256 (d_root_cell d) key key_len) (\<lambda>(old, c).
         Inr (old, if old \<noteq> None then set_root_cell d c else d)))"

definition aug_lookup_delete ::
  "augmentation \<Rightarrow> (byte list \<Rightarrow> byte list) \<Rightarrow> dict \<Rightarrow> bit_ptr \<Rightarrow> nat \<Rightarrow> dict_error + slice option \<times> dict" where
  "aug_lookup_delete aug sha256 d key key_len =
     bind_err (aug_lookup_delete_with_extra aug sha256 d key key_len) (\<lambda>(r, d). Inr (aug_extract_value aug r, d))"

definition aug_lookup_delete_ref ::
  "augmentation \<Rightarrow> (byte list \<Rightarrow> byte list) \<Rightarrow> dict \<Rightarrow> bit_ptr \<Rightarrow> nat \<Rightarrow> dict_error + cell option \<times> dict" where
  "aug_lookup_delete_ref aug sha256 d key key_len =
     bind_err (aug_lookup_delete_with_extra aug sha256 d key key_len) (\<lambda>(r, d). Inr (aug_extract_value_ref aug r, d))"

definition aug_lookup_delete_extra ::
  "augmentation \<Rightarrow> (byte list \<Rightarrow> byte list) \<Rightarrow> dict \<Rightarrow> bit_ptr \<Rightarrow> nat \<Rightarrow> dict_error + (slice \<times> slice) option \<times> dict" where
  "aug_lookup_delete_extra aug sha256 d key key_len =
     bind_err (aug_lookup_delete_with_extra aug sha256 d key key_len) (\<lambda>(r, d). Inr (aug_decompose_value_extra aug r, d))"

section \<open>Storing\<close>

definition aug_set ::
  "augmentation \<Rightarrow> (byte list \<Rightarrow> byte list) \<Rightarrow> dict \<Rightarrow> bit_ptr \<Rightarrow> nat \<Rightarrow> slice \<Rightarrow> set_mode \<Rightarrow> dict_error + bool \<times> dict" where
  "aug_set aug sha256 d key key_len val mode =
     bind_err (aug_force_validate aug sha256 d) (\<lambda>d.
       if int key_len \<noteq> d_key_bits d then Inr (False, d)
       else bind_err (aug_dict_set aug sha256 (d_root_cell d) key key_len val mode) (\<lambda>(c, changed).
         Inr (changed, if changed then set_root_cell d c else d)))"

definition aug_set_slice ::
  "augmentation \<Rightarrow> (byte list \<Rightarrow> byte list) \<Rightarrow> dict \<Rightarrow> bit_ptr \<Rightarrow> nat \<Rightarrow> slice option \<Rightarrow> set_mode \<Rightarrow> dict_error + bool \<times> dict" where
  "aug_set_slice aug sha256 d key key_len val mode =
     (case val of None \<Rightarrow> Inr (False, d) | Some cs \<Rightarrow> aug_set aug sha256 d key key_len cs mode)"

text \<open>The two variants have a parameter for the mode, and leave it out of the call of \<open>set\<close>.\<close>

definition aug_set_ref ::
  "augmentation \<Rightarrow> (byte list \<Rightarrow> byte list) \<Rightarrow> dict \<Rightarrow> bit_ptr \<Rightarrow> nat \<Rightarrow> cell option \<Rightarrow> set_mode \<Rightarrow> dict_error + bool \<times> dict" where
  "aug_set_ref aug sha256 d key key_len value_ref mode =
     (case value_ref of
        None \<Rightarrow> Inr (False, d)
      | Some c \<Rightarrow>
          bind_err (build (store_ref empty_builder (Some c))) (\<lambda>cb.
          bind_err (dict_finalize sha256 cb) (\<lambda>(c, cb).
          bind_err (load_cell_slice_ref (Some c)) (\<lambda>cs. aug_set aug sha256 d key key_len cs Mode_Set))))"

definition aug_set_builder ::
  "augmentation \<Rightarrow> (byte list \<Rightarrow> byte list) \<Rightarrow> dict \<Rightarrow> bit_ptr \<Rightarrow> nat \<Rightarrow> builder \<Rightarrow> set_mode \<Rightarrow> dict_error + bool \<times> dict" where
  "aug_set_builder aug sha256 d key key_len val_b mode =
     bind_err (build (finalize_copy sha256 val_b False)) (\<lambda>c.
     bind_err (load_cell_slice_ref (Some c)) (\<lambda>cs. aug_set aug sha256 d key key_len cs Mode_Set))"

end
