(* ===== verification/Aug_Rep.thy ===== *)
theory Aug_Rep
  imports Aug_Dict
begin

text \<open>
  What the tree of cells of an augmented dictionary stands for: its entries, and the extra data at its
  root. The locale \<open>augmentation_laws\<close> says what the dictionary relies on, and the lemmas show that
  the operations on trees change the entries as they should and keep the extra data in order.
\<close>

section \<open>Outcomes\<close>

text \<open>Extra data that cannot be computed, or has no room, is reported as an error of the dictionary.\<close>

definition aug_ok :: "('a \<Rightarrow> bool) \<Rightarrow> dict_error + 'a \<Rightarrow> bool" where
  "aug_ok P r \<longleftrightarrow> (case r of Inl e \<Rightarrow> no_room e \<or> e = Vm_error Excno_dict_err | Inr x \<Rightarrow> P x)"

lemma aug_ok_Inr [simp]: "aug_ok P (Inr x) \<longleftrightarrow> P x"
  by (simp add: aug_ok_def)

lemma aug_ok_dict_err [simp]: "aug_ok P (Inl (Vm_error Excno_dict_err))"
  by (simp add: aug_ok_def)

lemma aug_ok_bind: "aug_ok Q r \<Longrightarrow> (\<And>x. Q x \<Longrightarrow> aug_ok P (f x)) \<Longrightarrow> aug_ok P (bind_err r f)"
  by (cases r) (simp_all add: aug_ok_def)

lemma aug_ok_mono: "aug_ok Q r \<Longrightarrow> (\<And>x. Q x \<Longrightarrow> P x) \<Longrightarrow> aug_ok P r"
  by (auto simp: aug_ok_def split: sum.splits)

lemma dict_ok_aug_ok: "dict_ok P r \<Longrightarrow> aug_ok P r"
  by (auto simp: aug_ok_def dict_ok_def split: sum.splits)

lemma aug_ok_or_throw: "(fst r \<Longrightarrow> P (snd r)) \<Longrightarrow> aug_ok P (or_throw Excno_dict_err r)"
  by (auto simp: or_throw_def aug_ok_def)

section \<open>What is relied on\<close>

definition content :: "slice \<Rightarrow> dict_val" where
  "content s = (slice_bits s, slice_children s)"

definition joined :: "dict_val \<Rightarrow> dict_val \<Rightarrow> dict_val" where
  "joined x y = (fst x @ fst y, snd x @ snd y)"

definition added :: "builder \<Rightarrow> dict_val \<Rightarrow> builder \<Rightarrow> bool" where
  "added b x b' \<longleftrightarrow> builder_ok b' \<and> builder_out b' = builder_out b @ fst x \<and> b_refs b' = b_refs b @ snd x"

lemma appends_added: "appends b (fst x) (snd x) r \<Longrightarrow> fst r \<Longrightarrow> added b x (snd r)"
  by (simp add: appends_def added_def)

text \<open>\<open>leafE\<close> and \<open>forkE\<close> give the extra data of a leaf and of a fork; \<open>is_extra\<close> says what extra data looks
  like, and nothing that looks like it is the beginning of something else that does.\<close>

locale augmentation_laws =
  fixes aug :: augmentation
    and leafE :: "dict_val \<Rightarrow> dict_val"
    and forkE :: "dict_val \<Rightarrow> dict_val \<Rightarrow> dict_val"
    and emptyE :: dict_val
    and is_extra :: "dict_val \<Rightarrow> bool"
  assumes eval_leaf_adds: "\<lbrakk>builder_ok b; slice_ok s; \<forall>r \<in> set (slice_children s). wf_cell r; eval_leaf aug b s = (True, b', s')\<rbrakk>
      \<Longrightarrow> added b (leafE (content s)) b' \<and> is_extra (leafE (content s))"
    and eval_fork_adds: "\<lbrakk>builder_ok b; slice_ok s; slice_ok t; is_extra (content s); is_extra (content t); eval_fork aug b s t = (True, b')\<rbrakk>
      \<Longrightarrow> added b (forkE (content s) (content t)) b' \<and> is_extra (forkE (content s) (content t))"
    and eval_empty_adds: "\<lbrakk>builder_ok b; eval_empty aug b = (True, b')\<rbrakk> \<Longrightarrow> added b emptyE b' \<and> is_extra emptyE"
    and skip_extra_reads: "\<lbrakk>slice_ok s; content s = joined x y; is_extra x\<rbrakk>
      \<Longrightarrow> \<exists>s'. skip_extra aug s = (True, s') \<and> reads s (length (fst x)) (length (snd x)) s'"
    and eval_empty_fits: "\<lbrakk>builder_ok b; b_bits b \<le> 1; b_refs b = []\<rbrakk> \<Longrightarrow> fst (eval_empty aug b)"
    and extra_wf: "is_extra x \<Longrightarrow> \<forall>r \<in> set (snd x). wf_cell r"
    and extra_fits: "is_extra x \<Longrightarrow> length (fst x) < max_bits \<and> length (snd x) < max_refs"

section \<open>What a tree stands for\<close>

inductive aug_rep ::
  "(dict_val \<Rightarrow> dict_val) \<Rightarrow> (dict_val \<Rightarrow> dict_val \<Rightarrow> dict_val) \<Rightarrow> (dict_val \<Rightarrow> bool) \<Rightarrow> nat \<Rightarrow> cell \<Rightarrow> dict_entry list \<Rightarrow> dict_val \<Rightarrow> bool"
  for leafE forkE is_extra where
  aug_leaf: "\<lbrakk>es = [(ls, v)]; x = leafE v; node_cell n c ls (fst (joined x v)) (snd (joined x v)); length ls = n; is_extra x\<rbrakk>
     \<Longrightarrow> aug_rep leafE forkE is_extra n c es x"
| aug_fork: "\<lbrakk>es = pre ls (pre [False] ea @ pre [True] eb); x = forkE xa xb; node_cell n c ls (fst x) (a # b # snd x); length ls < n;
     aug_rep leafE forkE is_extra (n - length ls - 1) a ea xa; aug_rep leafE forkE is_extra (n - length ls - 1) b eb xb; is_extra x\<rbrakk>
     \<Longrightarrow> aug_rep leafE forkE is_extra n c es x"

lemma aug_rep_not_empty: "aug_rep le fe ie n c es x \<Longrightarrow> es \<noteq> []"
  by (induction rule: aug_rep.induct) (auto simp: pre_def)

lemma aug_rep_wf: "aug_rep le fe ie n c es x \<Longrightarrow> wf_cell c"
  by (erule aug_rep.cases) (simp_all add: node_cell_def ordinary_def)

lemma aug_rep_extra: "aug_rep le fe ie n c es x \<Longrightarrow> ie x"
  by (erule aug_rep.cases) simp_all

lemma aug_rep_lengths: "aug_rep le fe ie n c es x \<Longrightarrow> \<forall>k \<in> set (map fst es). length k = n"
proof (induction rule: aug_rep.induct)
  case (aug_fork es ls ea eb x xa xb n c a b)
  then show ?case by (simp add: set_pre del: set_map) auto
qed simp

lemma aug_rep_sorted: "aug_rep le fe ie n c es x \<Longrightarrow> sorted_keys es"
proof (induction rule: aug_rep.induct)
  case (aug_fork es ls ea eb x xa xb n c a b)
  then show ?case by (simp only: sorted_keys_pre sorted_keys_fork)
qed (simp add: sorted_keys_def)

text \<open>When the extra data of forks is combined by an associative operation, that of the root is
  the combination of the extra data of the leaves, in the order of the keys.\<close>

fun combined :: "(dict_val \<Rightarrow> dict_val \<Rightarrow> dict_val) \<Rightarrow> dict_val list \<Rightarrow> dict_val" where
  "combined f [] = undefined"
| "combined f [x] = x"
| "combined f (x # y # zs) = f x (combined f (y # zs))"

lemma combined_append:
  assumes a: "\<And>x y z. f (f x y) z = f x (f y z)" and ne: "xs \<noteq> []" "ys \<noteq> []"
  shows "combined f (xs @ ys) = f (combined f xs) (combined f ys)"
  using ne(1)
proof (induction xs)
  case (Cons x xs)
  show ?case
  proof (cases xs)
    case Nil
    then show ?thesis using ne(2) by (cases ys) simp_all
  next
    case (Cons y zs)
    then show ?thesis using Cons.IH a by simp
  qed
qed simp

lemma aug_rep_combined:
  assumes a: "\<And>x y z. fe (fe x y) z = fe x (fe y z)" and r: "aug_rep le fe ie n c es x"
  shows "x = combined fe (map (\<lambda>e. le (snd e)) es)"
  using r
proof (induction rule: aug_rep.induct)
  case (aug_fork es ls ea eb x xa xb n c a b)
  have p: "map (\<lambda>e. le (snd e)) (pre q es) = map (\<lambda>e. le (snd e)) es" for q es by (simp add: pre_def case_prod_beta)
  have "ea \<noteq> []" "eb \<noteq> []" using aug_fork.hyps aug_rep_not_empty by blast+
  then show ?case unfolding aug_fork.hyps(1,2) p map_append using aug_fork.IH a by (subst combined_append) simp_all
qed simp

section \<open>A key at a node\<close>

lemma aug_node_opened:
  assumes c: "node_cell n c ls rest refs" and n: "n < 2 ^ 31" and f: "length ls < n \<Longrightarrow> 2 \<le> length refs"
  obtains lab where "label_of_cell (Some c) n chk_size = Inr lab" "label_view lab ls rest refs" "l_bits lab = length ls"
    "length ls \<le> n"
proof -
  have "\<not> bad_fork chk_size n ls rest refs" using f by (auto simp: bad_fork_def)
  from node_cell_label [OF c n this] that view_bits show ?thesis by auto
qed

lemma aug_rep_cases [consumes 3, case_names miss hit branch]:
  assumes rep: "aug_rep le fe ie n c es x" and key: "ptr_ok key n" and n: "n < 2 ^ 31"
  obtains (miss) lab ls rest refs es0 where "label_of_cell (Some c) n chk_size = Inr lab" "label_view lab ls rest refs"
      "l_bits lab = length ls" "label_common_prefix_len lab key n = lcp ls (ptr_bits key n)"
      "lcp ls (ptr_bits key n) < length ls" "length ls \<le> n" "es = pre ls es0" "node_cell n c ls rest refs"
      "\<And>m c' ls'. node_cell m c' ls' rest refs \<Longrightarrow> m - length ls' = n - length ls \<Longrightarrow> aug_rep le fe ie m c' (pre ls' es0) x"
    | (hit) lab v where "label_of_cell (Some c) n chk_size = Inr lab"
      "label_view lab (ptr_bits key n) (fst (joined x v)) (snd (joined x v))"
      "l_bits lab = n" "label_common_prefix_len lab key n = n" "es = [(ptr_bits key n, v)]" "x = le v" "ie x"
    | (branch) lab ls a b ea eb xa xb where "label_of_cell (Some c) n chk_size = Inr lab" "label_view lab ls (fst x) (a # b # snd x)"
      "l_bits lab = length ls" "label_common_prefix_len lab key n = length ls" "length ls < n"
      "prefetch_ref (l_remainder lab) 0 = Some a" "prefetch_ref (l_remainder lab) 1 = Some b"
      "aug_rep le fe ie (n - length ls - 1) a ea xa" "aug_rep le fe ie (n - length ls - 1) b eb xb"
      "es = pre ls (pre [False] ea @ pre [True] eb)"
      "ptr_bits key n = ls @ ptr_bit key (length ls) # ptr_bits (ptr_add key (length ls + 1)) (n - length ls - 1)"
      "ptr_ok (ptr_add key (length ls + 1)) (n - length ls - 1)" "ptr_bits key (length ls) = ls" "ptr_ok key (length ls)"
      "x = fe xa xb" "ie x"
proof -
  let ?k = "ptr_bits key n"
  have k: "length ?k = n" using key by simp
  from rep show ?thesis
  proof cases
    case (aug_leaf ls v)
    obtain lab where L: "label_of_cell (Some c) n chk_size = Inr lab" "label_view lab ls (fst (joined x v)) (snd (joined x v))"
      "l_bits lab = length ls" "length ls \<le> n" using aug_node_opened [OF aug_leaf(3) n] aug_leaf(4) by blast
    note P = label_common_prefix_len_eq [OF L(2) key]
    show ?thesis
    proof (cases "lcp ls ?k < length ls")
      case True
      have "aug_rep le fe ie m c' (pre ls' [([], v)]) x"
        if "node_cell m c' ls' (fst (joined x v)) (snd (joined x v))" "m - length ls' = n - length ls" for m c' ls'
        using that aug_leaf parse_bits_length [of m "cell_bits c'" ls'] by (intro aug_rep.aug_leaf) (auto simp: node_cell_def)
      then show ?thesis using miss [OF L(1-3) P True L(4) _ aug_leaf(3), of "[([], v)]"] aug_leaf(1) by simp
    next
      case False
      then have "prefix ls ?k" using lcp_prefix [of ls ?k] lcp_le(1) [of ls ?k] by simp
      then have ls: "ls = ?k" using k aug_leaf(4) by (auto simp: prefix_def)
      show ?thesis by (rule hit [OF L(1) L(2) [unfolded ls]]) (use L(3) P aug_leaf ls k in auto)
    qed
  next
    case (aug_fork ls ea eb xa xb a b)
    obtain lab where L: "label_of_cell (Some c) n chk_size = Inr lab" "label_view lab ls (fst x) (a # b # snd x)"
      "l_bits lab = length ls" "length ls \<le> n" using aug_node_opened [OF aug_fork(3) n] by auto
    note P = label_common_prefix_len_eq [OF L(2) key]
    show ?thesis
    proof (cases "lcp ls ?k < length ls")
      case True
      have "aug_rep le fe ie m c' (pre ls' (pre [False] ea @ pre [True] eb)) x"
        if "node_cell m c' ls' (fst x) (a # b # snd x)" "m - length ls' = n - length ls" for m c' ls'
      proof (rule aug_rep.aug_fork)
        show "pre ls' (pre [False] ea @ pre [True] eb) = pre ls' (pre [False] ea @ pre [True] eb)" by (rule refl)
        show "x = fe xa xb" "node_cell m c' ls' (fst x) (a # b # snd x)" "ie x" by fact+
        show "length ls' < m" using that(2) aug_fork(4) by simp
        show "aug_rep le fe ie (m - length ls' - 1) a ea xa" "aug_rep le fe ie (m - length ls' - 1) b eb xb"
          unfolding that(2) by fact+
      qed
      then show ?thesis using miss [OF L(1-3) P True L(4) aug_fork(1,3)] by blast
    next
      case False
      then have e: "lcp ls ?k = length ls" and pfx: "prefix ls ?k" using lcp_prefix [of ls ?k] lcp_le(1) [of ls ?k] by simp_all
      have lsb: "ptr_bits key (length ls) = ls" "ptr_ok key (length ls)"
        using ptr_bits_take [of "length ls" n key] aug_fork(4) pfx key by (auto simp: ptr_ok_def prefix_def)
      have refs: "prefetch_ref (l_remainder lab) 0 = Some a" "prefetch_ref (l_remainder lab) 1 = Some b"
        using view_ref [OF L(2)] by simp_all
      show ?thesis
        by (rule branch [OF L(1-3) P [unfolded e] aug_fork(4) refs aug_fork(5,6,1) key_split [OF key pfx aug_fork(4)] lsb aug_fork(2,7)])
    qed
  qed
qed


section \<open>Slices of extra data\<close>

lemma cut_tail_reads:
  assumes ok: "slice_ok s" and r: "reads s n k s'" and le: "n \<le> slice_size s" "k \<le> slice_size_refs s"
  shows "fst (cut_tail s s')" and "slice_ok (snd (cut_tail s s'))"
    and "content (snd (cut_tail s s')) = (take n (slice_bits s), take k (slice_children s))"
proof -
  note R = reads_size [OF r ok]
  note T = skip_last_takes [OF ok, of "slice_size s'" "slice_size_refs s'"]
  have d: "slice_size s - slice_size s' = n" "slice_size_refs s - slice_size_refs s' = k" "slice_size s' \<le> slice_size s"
    "slice_size_refs s' \<le> slice_size_refs s" using R le by simp_all
  show "fst (cut_tail s s')" "slice_ok (snd (cut_tail s s'))" using T d by (simp_all add: cut_tail_def)
  have "s_cell (snd (cut_tail s s')) = s_cell s" "s_virt (snd (cut_tail s s')) = s_virt s"
    by (simp_all add: cut_tail_def skip_last_def)
  from child_virt_cong [OF this]
  show "content (snd (cut_tail s s')) = (take n (slice_bits s), take k (slice_children s))"
    using T(2) d by (simp add: content_def slice_children_def cut_tail_def take_map)
qed

lemma reads_content: "reads s n k s' \<Longrightarrow> content s' = (drop n (slice_bits s), drop k (slice_children s))"
  using reads_children by (simp add: content_def reads_def)

lemma joined_empty [simp]: "joined x ([], []) = x" "joined ([], []) x = x"
  by (simp_all add: joined_def)

lemma coded_added: "node_coded b n ls rest refs \<Longrightarrow> added b x b' \<Longrightarrow> node_coded b' n ls (rest @ fst x) (refs @ snd x)"
  by (simp add: node_coded_def added_def)

definition aug_val_ok :: "slice \<Rightarrow> bool" where
  "aug_val_ok v \<longleftrightarrow> slice_ok v \<and> (\<forall>r \<in> set (slice_children v). wf_cell r)"

context augmentation_laws
begin

lemma skip_extra_ok:
  assumes s: "slice_ok s" "content s = joined x v" and x: "is_extra x"
  obtains s' where "skip_extra aug s = (True, s')" "slice_ok s'" "content s' = v"
    "fst (cut_tail s s')" "slice_ok (snd (cut_tail s s'))" "content (snd (cut_tail s s')) = x"
proof -
  obtain s' where r: "skip_extra aug s = (True, s')" "reads s (length (fst x)) (length (snd x)) s'"
    using skip_extra_reads [OF s x] by blast
  have b: "slice_bits s = fst x @ fst v" "slice_children s = snd x @ snd v" using s(2) by (simp_all add: content_def joined_def)
  have le: "length (fst x) \<le> slice_size s" "length (snd x) \<le> slice_size_refs s"
    using arg_cong [OF b(1), of length] arg_cong [OF b(2), of length] s(1) by simp_all
  show ?thesis
    using that [OF r(1) reads_ok [OF r(2)]] reads_content [OF r(2)] cut_tail_reads [OF s(1) r(2) le] by (simp add: b)
qed

lemma extract_extra_ok:
  assumes s: "slice_ok s" "content s = joined x v" and x: "is_extra x"
  obtains e s' where "extract_extra aug s = (Some e, s')" "extract_extra_ref aug s = Some e" "slice_ok e" "content e = x"
    "slice_ok s'" "content s' = v"
proof -
  obtain s' where "skip_extra aug s = (True, s')" "slice_ok s'" "content s' = v"
    "fst (cut_tail s s')" "slice_ok (snd (cut_tail s s'))" "content (snd (cut_tail s s')) = x"
    using skip_extra_ok [OF s x] .
  then show ?thesis
    by (intro that [of "snd (cut_tail s s')" s']) (simp_all add: extract_extra_def extract_extra_ref_def case_prod_beta)
qed

lemma get_node_extra_ok:
  assumes r: "aug_rep leafE forkE is_extra n c es x" and n: "n < 2 ^ 31"
  obtains e where "aug_get_node_extra aug sha256 (Some c) n = Inr (Some e)" "slice_ok e" "content e = x"
  using r
proof cases
  case (aug_leaf ls v)
  obtain lab where L: "label_of_cell (Some c) n chk_size = Inr lab" "label_view lab ls (fst (joined x v)) (snd (joined x v))"
    "l_bits lab = length ls" "length ls \<le> n" using aug_node_opened [OF aug_leaf(3) n] aug_leaf(4) by blast
  note S = skip_label_rest [OF L(2)]
  have "content (l_remainder (skip_label lab)) = joined x v" using S by (simp add: content_def)
  from extract_extra_ok [OF S(1) this aug_leaf(5)] obtain e where
    "extract_extra_ref aug (l_remainder (skip_label lab)) = Some e" "slice_ok e" "content e = x" by metis
  moreover have "l_bits (skip_label lab) = n" using L(3) aug_leaf(4) by (simp add: skip_label_def)
  ultimately show ?thesis by (intro that [of e]) (simp_all add: aug_get_node_extra_def L(1))
next
  case (aug_fork ls ea eb xa xb a b)
  obtain lab where L: "label_of_cell (Some c) n chk_size = Inr lab" "label_view lab ls (fst x) (a # b # snd x)"
    "l_bits lab = length ls" "length ls \<le> n" using aug_node_opened [OF aug_fork(3) n] by auto
  define s where "s = l_remainder (skip_label lab)"
  have S: "slice_ok s" "slice_bits s = fst x" "slice_children s = a # b # snd x"
    using skip_label_rest [OF L(2)] by (simp_all add: s_def)
  have "2 \<le> slice_size_refs s" using arg_cong [OF S(3), of length] S(1) by simp
  then have A: "fst (advance_refs s 2)" "reads s 0 2 (snd (advance_refs s 2))" using advance_refs_reads [OF S(1), of 2] by simp_all
  define t where "t = snd (advance_refs s 2)"
  have at: "advance_refs s 2 = (True, t)" using A(1) by (cases "advance_refs s 2") (simp add: t_def)
  have T: "slice_ok t" "content t = joined x ([], [])" using reads_ok [OF A(2)] reads_content [OF A(2)] S by (simp_all add: t_def)
  obtain s' where K: "skip_extra aug t = (True, s')" "slice_ok s'" "content s' = ([], [])"
    using skip_extra_ok [OF T aug_fork(7)] by metis
  have "slice_size s' = 0" "slice_size_refs s' = 0"
    using K(2,3) by (metis content_def length_slice_bits list.size(3) prod.inject, metis content_def length_slice_children list.size(3) prod.inject)
  moreover have "l_bits (skip_label lab) \<noteq> n" using L(3) aug_fork(4) by (simp add: skip_label_def)
  ultimately show ?thesis using T K(1) at
    by (intro that [of t]) (simp_all add: aug_get_node_extra_def L(1) Let_def s_def [symmetric])
qed

section \<open>Building\<close>

lemma finish_aug_leaf_ok:
  assumes b: "node_coded cb n ls [] []" and len: "length ls = n" and v: "aug_val_ok val" and sha: "\<And>x. length (sha256 x) = hash_bytes"
  shows "aug_ok (\<lambda>(c, cb'). aug_rep leafE forkE is_extra n c [(ls, content val)] (leafE (content val)) \<and> fresh cb')
     (aug_finish_create_leaf aug sha256 cb val)"
  unfolding aug_finish_create_leaf_def
proof (rule aug_ok_bind [OF aug_ok_or_throw])
  let ?x = "leafE (content val)"
  have ok: "builder_ok cb" "slice_ok val" "\<forall>r \<in> set (slice_children val). wf_cell r"
    using b v by (simp_all add: node_coded_def aug_val_ok_def)
  assume "fst (let (ok, cb, value_copy) = eval_leaf aug cb val in (ok, cb))"
  then show "added cb ?x (snd (let (ok, cb, value_copy) = eval_leaf aug cb val in (ok, cb))) \<and> is_extra ?x"
    using eval_leaf_adds [OF ok] by (cases "eval_leaf aug cb val") (simp add: case_prod_beta)
next
  fix cb1 assume "added cb (leafE (content val)) cb1 \<and> is_extra (leafE (content val))"
  then have c1: "node_coded cb1 n ls (fst (leafE (content val))) (snd (leafE (content val)))" and x: "is_extra (leafE (content val))"
    using coded_added [OF b] by simp_all
  let ?x = "leafE (content val)"
  have b1: "builder_ok cb1" using c1 by (simp add: node_coded_def)
  have ok: "slice_ok val" using v by (simp add: aug_val_ok_def)
  have ap: "appends cb1 (fst (content val)) (snd (content val)) (append_cellslice_bool cb1 val)"
    using append_cellslice_appends [OF b1 ok] by (simp add: content_def)
  show "aug_ok (\<lambda>(c, cb'). aug_rep leafE forkE is_extra n c [(ls, content val)] ?x \<and> fresh cb')
     (bind_err (or_throw Excno_dict_err (append_cellslice_bool cb1 val)) (dict_finalize sha256))"
  proof (rule aug_ok_bind [OF aug_ok_or_throw [where P = "added cb1 (content val)", OF appends_added [OF ap]]], assumption)
    fix cb2 assume "added cb1 (content val) cb2"
    from coded_added [OF c1 this]
    have c2: "node_coded cb2 n ls (fst (joined ?x (content val))) (snd (joined ?x (content val)))" by (simp add: joined_def)
    have wf: "\<forall>r \<in> set (snd (joined ?x (content val))). wf_cell r"
      using extra_wf [OF x] v by (auto simp: joined_def content_def aug_val_ok_def)
    have "aug_rep leafE forkE is_extra n c [(ls, content val)] ?x"
      if "node_cell n c ls (fst (joined ?x (content val))) (snd (joined ?x (content val)))" for c
      by (rule aug_leaf [where ls = ls and v = "content val"]) (use that len x in simp_all)
    then show "aug_ok (\<lambda>(c, cb'). aug_rep leafE forkE is_extra n c [(ls, content val)] ?x \<and> fresh cb') (dict_finalize sha256 cb2)"
      by (intro dict_ok_aug_ok dict_ok_mono [OF finalize_node_cell [OF c2 sha wf]]) auto
  qed
qed

lemma create_aug_leaf_ok:
  assumes p: "ptr_ok key n" and n: "n < 2 ^ 31" and v: "aug_val_ok val" and sha: "\<And>x. length (sha256 x) = hash_bytes"
  shows "aug_ok (\<lambda>(c, cb'). aug_rep leafE forkE is_extra n c [(ptr_bits key n, content val)] (leafE (content val)) \<and> fresh cb')
     (aug_create_leaf aug sha256 key n val)"
  unfolding aug_create_leaf_def
proof (rule aug_ok_bind [OF dict_ok_aug_ok [OF append_dict_label_ok [OF fresh_empty p order.refl n]]])
  fix cb assume "node_built cb n (ptr_bits key n) [] []"
  then have "node_coded cb n (ptr_bits key n) [] []" using node_built_coded n p by simp
  from finish_aug_leaf_ok [OF this _ v sha] p
  show "aug_ok (\<lambda>(c, cb'). aug_rep leafE forkE is_extra n c [(ptr_bits key n, content val)] (leafE (content val)) \<and> fresh cb')
     (aug_finish_create_leaf aug sha256 cb val)" by simp
qed

lemma finish_aug_fork_ok:
  assumes b: "node_coded cb n ls [] []" and len: "length ls < n" and n: "n < 2 ^ 31"
    and l: "aug_rep leafE forkE is_extra (n - length ls - 1) a ea xa" and r: "aug_rep leafE forkE is_extra (n - length ls - 1) b eb xb"
    and sha: "\<And>x. length (sha256 x) = hash_bytes"
  shows "aug_ok (\<lambda>c. aug_rep leafE forkE is_extra n c (pre ls (pre [False] ea @ pre [True] eb)) (forkE xa xb))
     (aug_finish_create_fork aug sha256 cb (Some a) (Some b) (n - length ls))"
proof -
  let ?cb = "cb\<lparr>b_refs := [a, b]\<rparr>"
  have "b_refs cb = []" using b by (simp add: node_coded_def)
  then have e: "(let (ok1, cb1) = store_ref_bool cb (Some a) in if ok1 then store_ref_bool cb1 (Some b) else (False, cb1)) = (True, ?cb)"
    by (simp add: store_ref_bool_def)
  have c: "node_coded ?cb n ls [] [a, b]" using b by (simp add: node_coded_def builder_ok_def builder_out_def)
  have m: "n - length ls - 1 < 2 ^ 31" using n by simp
  obtain e1 where e1: "aug_get_node_extra aug sha256 (Some a) (n - length ls - 1) = Inr (Some e1)" "slice_ok e1" "content e1 = xa"
    using get_node_extra_ok [OF l m] .
  obtain e2 where e2: "aug_get_node_extra aug sha256 (Some b) (n - length ls - 1) = Inr (Some e2)" "slice_ok e2" "content e2 = xb"
    using get_node_extra_ok [OF r m] .
  have x: "is_extra (content e1)" "is_extra (content e2)" using aug_rep_extra [OF l] aug_rep_extra [OF r] e1 e2 by simp_all
  have ok: "builder_ok ?cb" using c by (simp add: node_coded_def)
  show ?thesis
    unfolding aug_finish_create_fork_def e or_throw_def [of _ "(True, ?cb)"] fst_conv snd_conv if_True bind_err_simps e1(1) e2(1) prod.case option.case
  proof (rule aug_ok_bind [OF aug_ok_or_throw])
    assume "fst (eval_fork aug ?cb e1 e2)"
    then show "added ?cb (forkE xa xb) (snd (eval_fork aug ?cb e1 e2)) \<and> is_extra (forkE xa xb)"
      using eval_fork_adds [OF ok e1(2) e2(2) x] e1(3) e2(3) by (cases "eval_fork aug ?cb e1 e2") simp
  next
    fix cb1 assume "added ?cb (forkE xa xb) cb1 \<and> is_extra (forkE xa xb)"
    then have c1: "node_coded cb1 n ls (fst (forkE xa xb)) (a # b # snd (forkE xa xb))" and x: "is_extra (forkE xa xb)"
      using coded_added [OF c] by simp_all
    have wf: "\<forall>r \<in> set (a # b # snd (forkE xa xb)). wf_cell r" using aug_rep_wf [OF l] aug_rep_wf [OF r] extra_wf [OF x] by simp
    show "aug_ok (\<lambda>c. aug_rep leafE forkE is_extra n c (pre ls (pre [False] ea @ pre [True] eb)) (forkE xa xb))
       (bind_err (dict_finalize sha256 cb1) (\<lambda>(c, cb). Inr c))"
      by (rule aug_ok_bind [OF dict_ok_aug_ok [OF finalize_node_cell [OF c1 sha wf]]])
        (auto intro: aug_fork [OF refl refl _ len l r x] simp del: pre_simps)
  qed
qed

lemma create_aug_fork_ok:
  assumes p: "ptr_ok key len" and len: "len < n" and n: "n < 2 ^ 31"
    and l: "aug_rep leafE forkE is_extra (n - len - 1) a ea xa" and r: "aug_rep leafE forkE is_extra (n - len - 1) b eb xb"
    and sha: "\<And>x. length (sha256 x) = hash_bytes"
  shows "aug_ok (\<lambda>c. aug_rep leafE forkE is_extra n c (pre (ptr_bits key len) (pre [False] ea @ pre [True] eb)) (forkE xa xb))
     (aug_create_fork aug sha256 key len n (Some a) (Some b))"
  unfolding aug_create_fork_def
proof (rule aug_ok_bind [OF dict_ok_aug_ok [OF append_dict_label_ok [OF fresh_empty p less_imp_le [OF len] n]]])
  fix cb assume "node_built cb n (ptr_bits key len) [] []"
  then have "node_coded cb n (ptr_bits key len) [] []" using node_built_coded n p len by simp
  from finish_aug_fork_ok [OF this _ n _ _ sha, of a ea xa b eb xb] p len l r
  show "aug_ok (\<lambda>c. aug_rep leafE forkE is_extra n c (pre (ptr_bits key len) (pre [False] ea @ pre [True] eb)) (forkE xa xb))
     (aug_finish_create_fork aug sha256 cb (Some a) (Some b) (n - len))" by simp
qed

end

end
