(* ===== verification/Aug_Change.thy ===== *)
theory Aug_Change
  imports Aug_Rep
begin

text \<open>
  Looking up, storing and deleting in the tree of an augmented dictionary: the map of its entries
  changes as that of an ordinary dictionary does, and the extra data of every node is renewed.
\<close>

text \<open>A value with its extra data in front.\<close>

definition with_extra :: "(dict_val \<Rightarrow> dict_val) \<Rightarrow> dict_val \<Rightarrow> dict_val" where
  "with_extra leafE v = joined (leafE v) v"

definition aug_rep_opt ::
  "(dict_val \<Rightarrow> dict_val) \<Rightarrow> (dict_val \<Rightarrow> dict_val \<Rightarrow> dict_val) \<Rightarrow> (dict_val \<Rightarrow> bool) \<Rightarrow> nat \<Rightarrow> cell option \<Rightarrow> dict_entry list \<Rightarrow> bool" where
  "aug_rep_opt le fe ie n co es \<longleftrightarrow> (case co of None \<Rightarrow> es = [] | Some c \<Rightarrow> \<exists>x. aug_rep le fe ie n c es x)"

definition aug_set_result ::
  "(dict_val \<Rightarrow> dict_val) \<Rightarrow> (dict_val \<Rightarrow> dict_val \<Rightarrow> dict_val) \<Rightarrow> (dict_val \<Rightarrow> bool) \<Rightarrow> set_mode \<Rightarrow> nat \<Rightarrow> dict_entry list
     \<Rightarrow> bool list \<Rightarrow> dict_val \<Rightarrow> cell option \<times> bool \<Rightarrow> bool" where
  "aug_set_result le fe ie mode n es k v r \<longleftrightarrow>
     (if mode = Mode_Replace \<and> map_of es k = None \<or> mode = Mode_Add \<and> map_of es k \<noteq> None then r = (None, False)
      else snd r \<and> (\<exists>c es' x. fst r = Some c \<and> aug_rep le fe ie n c es' x \<and> map_of es' = (map_of es)(k \<mapsto> v)))"

definition aug_delete_result ::
  "(dict_val \<Rightarrow> dict_val) \<Rightarrow> (dict_val \<Rightarrow> dict_val \<Rightarrow> dict_val) \<Rightarrow> (dict_val \<Rightarrow> bool) \<Rightarrow> nat \<Rightarrow> dict_entry list
     \<Rightarrow> bool list \<Rightarrow> slice option \<times> cell option \<Rightarrow> bool" where
  "aug_delete_result le fe ie n es k r \<longleftrightarrow>
     value_of (fst r) = map_option (with_extra le) (map_of es k) \<and> value_ok (fst r)
     \<and> (if map_of es k = None then snd r = None
        else \<exists>es'. aug_rep_opt le fe ie n (snd r) es' \<and> map_of es' = (map_of es)(k := None))"

lemma aug_set_resultI:
  assumes "\<not> (mode = Mode_Replace \<and> map_of es k = None \<or> mode = Mode_Add \<and> map_of es k \<noteq> None)"
    and "aug_rep le fe ie n c es' x" and "map_of es' = (map_of es)(k \<mapsto> v)"
  shows "aug_set_result le fe ie mode n es k v (Some c, True)"
  unfolding aug_set_result_def if_not_P [OF assms(1)] fst_conv snd_conv using assms(2,3) by blast

lemma aug_rep_optI: "aug_rep le fe ie n c es x \<Longrightarrow> aug_rep_opt le fe ie n (Some c) es"
  unfolding aug_rep_opt_def option.case by blast

context augmentation_laws
begin

section \<open>Looking up\<close>

theorem aug_dict_lookup_correct:
  assumes "aug_rep leafE forkE is_extra n c es x" and "ptr_ok key n" and "n < 2 ^ 31"
  shows "\<exists>r. aug_dict_lookup (Some c) key n = Inr r \<and> value_of r = map_option (with_extra leafE) (map_of es (ptr_bits key n)) \<and> value_ok r"
  using assms
proof (induction n arbitrary: c es key x rule: less_induct)
  case (less n)
  note unf = aug_dict_lookup.simps [of "Some c"]
  from less.prems show ?case
  proof (cases rule: aug_rep_cases)
    case (miss lab ls rest refs es0)
    have "\<not> prefix ls (ptr_bits key n)" using miss(5) lcp_prefix [of ls "ptr_bits key n"] by simp
    then show ?thesis unfolding unf miss(1) bind_err_simps using label_is_prefix_of_eq [OF miss(2) less.prems(2)]
      by (simp add: miss(7) map_of_pre value_of_def value_ok_def)
  next
    case (hit lab v)
    then show ?thesis unfolding unf hit(1) bind_err_simps
      using label_is_prefix_of_eq [OF hit(2) less.prems(2)] skip_label_rest [OF hit(2)]
      by (simp add: value_of_def value_ok_def with_extra_def)
  next
    case (branch lab ls a b ea eb xa xb)
    define sw where "sw = ptr_bit key (length ls)"
    have sw: "ptr_bit (ptr_add key (length ls)) 0 = sw" "ptr_add (ptr_add key (length ls)) 1 = ptr_add key (length ls + 1)"
      by (simp_all add: sw_def ptr_bit_def ptr_add_def)
    have "prefix ls (ptr_bits key n)" using branch(11) by simp
    then have run: "aug_dict_lookup (Some c) key n =
        aug_dict_lookup (Some (if sw then b else a)) (ptr_add key (length ls + 1)) (n - length ls - 1)"
      unfolding unf branch(1) bind_err_simps
      using label_is_prefix_of_eq [OF branch(2) less.prems(2)] branch(3,5) view_ref [OF branch(2), of "of_bool sw"]
      by (simp add: Let_def sw [simplified])
    have m: "map_of es (ptr_bits key n) = map_of (if sw then eb else ea) (ptr_bits (ptr_add key (length ls + 1)) (n - length ls - 1))"
      unfolding branch(11,10) sw_def by (rule map_of_node)
    have d: "aug_rep leafE forkE is_extra (n - length ls - 1) (if sw then b else a) (if sw then eb else ea) (if sw then xb else xa)"
      using branch(8,9) by simp
    have "n - length ls - 1 < n" using branch(5) by simp
    from less.IH [OF this d branch(12)] less.prems(3) show ?thesis unfolding run m by simp
  qed
qed

section \<open>Storing\<close>

lemma insert_fork_ok:
  assumes v: "aug_val_ok val" and lv: "label_view lab ls rest refs" and key: "ptr_ok key n" and n: "length ls \<le> n" "n < 2 ^ 31"
    and j: "lcp ls (ptr_bits key n) < length ls" and c: "node_cell n c ls rest refs"
    and p: "\<And>m c' ls'. node_cell m c' ls' rest refs \<Longrightarrow> m - length ls' = n - length ls \<Longrightarrow> aug_rep leafE forkE is_extra m c' (pre ls' es) x"
    and sha: "\<And>x. length (sha256 x) = hash_bytes"
  shows "aug_ok (\<lambda>c. \<exists>es' x'. aug_rep leafE forkE is_extra n c es' x' \<and> map_of es' = (map_of (pre ls es))(ptr_bits key n \<mapsto> content val))
     (aug_insert_fork aug sha256 lab key n (lcp ls (ptr_bits key n)) val)"
proof -
  define k where "k = ptr_bits key n"
  define j where "j = lcp ls k"
  define m where "m = n - j - 1"
  define b where "b = k ! j"
  have lk: "length k = n" using key by (simp add: k_def)
  have jl: "j < length ls" "j < n" using assms(6) n by (simp_all add: j_def k_def)
  note S = lcp_split [OF j_def [symmetric] jl(1), unfolded lk, OF jl(2), folded b_def]
  have kk: "ptr_ok (ptr_add key (j + 1)) m" using jl key by (simp add: m_def ptr_ok_def ptr_add_def)
  have kd: "ptr_bits (ptr_add key (j + 1)) m = drop (j + 1) k"
    using ptr_bits_drop [of "j + 1" n key] jl by (simp add: m_def k_def)
  have kj: "ptr_ok key j" "ptr_bits key j = take j k" using jl key ptr_bits_take [of j n key]
    by (simp_all add: ptr_ok_def k_def)
  have bit: "ptr_bit key j = b" using ptr_bit_nth [OF key jl(2)] by (simp add: b_def k_def)
  have none: "map_of (pre ls es) k = None" using S(3) by (simp add: map_of_pre)
  have m31: "m < 2 ^ 31" using n by (simp add: m_def)
  have wf: "\<forall>r \<in> set refs. wf_cell r" using node_cell_label(3) [OF c n(2), of chk_min] by (simp add: bad_fork_def)
  let ?v = "content val"
  let ?new = "[(drop (j + 1) k, ?v)]" and ?old = "pre (drop (j + 1) ls) es"
  have new: "pre (take j k @ [b]) ?new = [(k, ?v)]" using S(1) by simp
  have old: "pre (take j k @ [\<not> b]) ?old = pre ls es" using S(2) by simp
  have upd: "map_of (pre (take j k) (pre [False] (if b then ?old else ?new) @ pre [True] (if b then ?new else ?old)))
      = (map_of (pre ls es))(k \<mapsto> ?v)"
    using new old map_of_snoc_new [OF none] by (cases b) simp_all
  have lower: "aug_rep leafE forkE is_extra m c2 ?old x" if "node_cell m c2 (drop (j + 1) ls) rest refs" for c2
    by (rule p [OF that]) (use jl n in \<open>simp add: m_def\<close>)
  show ?thesis
    unfolding aug_insert_fork_def Let_def j_def [symmetric] k_def [symmetric] m_def [symmetric]
  proof (rule aug_ok_bind [OF create_aug_leaf_ok [OF kk m31 v sha, unfolded kd]])
    fix x1 assume "case x1 of (c, cb') \<Rightarrow> aug_rep leafE forkE is_extra m c ?new (leafE ?v) \<and> fresh cb'"
    then obtain c1 cb1 where x1: "x1 = (c1, cb1)" "aug_rep leafE forkE is_extra m c1 ?new (leafE ?v)" "fresh cb1" by (cases x1) auto
    show "aug_ok (\<lambda>c. \<exists>es' x'. aug_rep leafE forkE is_extra n c es' x' \<and> map_of es' = (map_of (pre ls es))(k \<mapsto> ?v))
       (case x1 of (c1, cb) \<Rightarrow> bind_err (lower_edge sha256 cb lab j m) (\<lambda>(c2, cb).
          case if ptr_bit key j then (c2, c1) else (c1, c2) of
            (c1, c2) \<Rightarrow> aug_create_fork aug sha256 key j n (Some c1) (Some c2)))"
      unfolding x1 prod.case
    proof (rule aug_ok_bind [OF dict_ok_aug_ok [OF lower_edge_cell [OF lv jl(1) n x1(3) wf sha, folded m_def]]])
      fix x2 assume "case x2 of (c, cb') \<Rightarrow> node_cell m c (drop (j + 1) ls) rest refs \<and> fresh cb'"
      then obtain c2 cb2 where x2: "x2 = (c2, cb2)" "aug_rep leafE forkE is_extra m c2 ?old x" using lower by (cases x2) auto
      have l: "aug_rep leafE forkE is_extra (n - j - 1) (if b then c2 else c1) (if b then ?old else ?new) (if b then x else leafE ?v)"
        and r: "aug_rep leafE forkE is_extra (n - j - 1) (if b then c1 else c2) (if b then ?new else ?old) (if b then leafE ?v else x)"
        using x1(2) x2(2) unfolding m_def [symmetric] by simp_all
      have "aug_ok (\<lambda>c. \<exists>es' x'. aug_rep leafE forkE is_extra n c es' x' \<and> map_of es' = (map_of (pre ls es))(k \<mapsto> ?v))
          (aug_create_fork aug sha256 key j n (Some (if b then c2 else c1)) (Some (if b then c1 else c2)))"
        by (rule aug_ok_mono [OF create_aug_fork_ok [OF kj(1) jl(2) n(2) l r sha, unfolded kj(2)]]) (use upd in blast)
      then show "aug_ok (\<lambda>c. \<exists>es' x'. aug_rep leafE forkE is_extra n c es' x' \<and> map_of es' = (map_of (pre ls es))(k \<mapsto> ?v))
         (case x2 of (c2, cb) \<Rightarrow> case if ptr_bit key j then (c2, c1) else (c1, c2) of
              (c1, c2) \<Rightarrow> aug_create_fork aug sha256 key j n (Some c1) (Some c2))"
        by (simp add: x2(1) bit split: if_splits)
    qed
  qed
qed

lemma new_leaf_ok:
  assumes "ptr_ok key n" and "n < 2 ^ 31" and "aug_val_ok val" and sha: "\<And>x. length (sha256 x) = hash_bytes"
    and upd: "map_of [(ptr_bits key n, content val)] = (map_of es)(ptr_bits key n \<mapsto> content val)"
    and m: "\<not> (mode = Mode_Replace \<and> map_of es (ptr_bits key n) = None \<or> mode = Mode_Add \<and> map_of es (ptr_bits key n) \<noteq> None)"
  shows "aug_ok (aug_set_result leafE forkE is_extra mode n es (ptr_bits key n) (content val))
     (bind_err (aug_create_leaf aug sha256 key n val) (\<lambda>(c, cb). Inr (Some c, True)))"
proof (rule aug_ok_bind [OF create_aug_leaf_ok [OF assms(1-3) sha]])
  fix r assume "case r of (c, cb') \<Rightarrow> aug_rep leafE forkE is_extra n c [(ptr_bits key n, content val)] (leafE (content val)) \<and> fresh cb'"
  then show "aug_ok (aug_set_result leafE forkE is_extra mode n es (ptr_bits key n) (content val)) (case r of (c, cb) \<Rightarrow> Inr (Some c, True))"
    using upd by (cases r) (auto intro: aug_set_resultI [OF m] simp del: fun_upd_apply)
qed

theorem aug_dict_set_ok:
  assumes "aug_rep_opt leafE forkE is_extra n dict es" and "ptr_ok key n" and "n < 2 ^ 31"
    and v: "aug_val_ok val" and sha: "\<And>x. length (sha256 x) = hash_bytes"
  shows "aug_ok (aug_set_result leafE forkE is_extra mode n es (ptr_bits key n) (content val)) (aug_dict_set aug sha256 dict key n val mode)"
  using assms(1-3)
proof (induction n arbitrary: dict es key rule: less_induct)
  case (less n)
  let ?k = "ptr_bits key n" and ?v = "content val"
  let ?P = "aug_set_result leafE forkE is_extra mode n es ?k ?v"
  note leaf = new_leaf_ok [OF less.prems(2,3) v sha]
  show ?case
  proof (cases dict)
    case None
    then have es: "es = []" using less.prems(1) by (simp add: aug_rep_opt_def)
    show ?thesis
    proof (cases "mode = Mode_Replace")
      case True
      then show ?thesis by (simp add: None es aug_dict_set.simps [of _ _ None] aug_set_result_def)
    next
      case False
      then show ?thesis using leaf [of "[]" mode] by (simp add: None es aug_dict_set.simps [of _ _ None])
    qed
  next
    case (Some c)
    then obtain x where rep: "aug_rep leafE forkE is_extra n c es x" using less.prems(1) by (auto simp: aug_rep_opt_def)
    have ne: "Some c \<noteq> None" by simp
    note unf = aug_dict_set.simps [of aug sha256 "Some c" key n val mode, unfolded if_not_P [OF ne]]
    have val: "label_validate lab = Inr lab" if "label_view lab ls rest refs" for lab ls rest refs
      using that by (simp add: label_validate_def label_is_valid_def label_view_def)
    from rep less.prems(2,3) show ?thesis
    proof (cases rule: aug_rep_cases)
      case (miss lab ls rest refs es0)
      have none: "map_of es ?k = None" using miss(5) lcp_prefix [of ls ?k] by (simp add: miss(7) map_of_pre)
      note ins = insert_fork_ok [OF v miss(2) less.prems(2) miss(6) less.prems(3) miss(5,8,9) sha, folded miss(7)]
      show ?thesis
      proof (cases "mode = Mode_Replace")
        case True
        then show ?thesis unfolding Some unf miss(1) val [OF miss(2)] bind_err_simps Let_def
          using none by (simp add: miss(3-5) aug_set_result_def)
      next
        case False
        have "aug_ok ?P (bind_err (aug_insert_fork aug sha256 lab key n (lcp ls ?k) val) (\<lambda>c. Inr (Some c, True)))"
          by (rule aug_ok_bind [OF ins]) (use False none in \<open>auto intro: aug_set_resultI\<close>)
        then show ?thesis unfolding Some unf miss(1) val [OF miss(2)] bind_err_simps Let_def
          using False by (simp add: miss(3-5))
      qed
    next
      case (hit lab v')
      show ?thesis
      proof (cases "mode = Mode_Add")
        case True
        then show ?thesis unfolding Some unf hit(1) val [OF hit(2)] bind_err_simps Let_def
          by (simp add: hit(3-5) aug_set_result_def)
      next
        case False
        have "map_of [(?k, ?v)] = (map_of es)(?k \<mapsto> ?v)" by (rule ext) (simp add: hit(5))
        from leaf [OF this] False show ?thesis unfolding Some unf hit(1) val [OF hit(2)] bind_err_simps Let_def
          by (simp add: hit(3-5))
      qed
    next
      case (branch lab ls a b ea eb xa xb)
      define m where "m = n - length ls - 1"
      define right where "right = ptr_bit key (length ls)"
      define key' where "key' = ptr_add key (length ls + 1)"
      define k' where "k' = ptr_bits key' m"
      have k: "?k = ls @ right # k'" using branch(11) by (simp only: right_def k'_def key'_def m_def)
      have mp: "map_of es ?k = map_of (if right then eb else ea) k'" unfolding k branch(10) by (rule map_of_node)
      have mn: "m < n" "m < 2 ^ 31" using branch(5) less.prems(3) by (simp_all add: m_def)
      have "aug_rep_opt leafE forkE is_extra m (Some (if right then b else a)) (if right then eb else ea)"
        using branch(8,9) by (cases right) (auto simp: m_def intro: aug_rep_optI)
      note IH = less.IH [OF mn(1) this branch(12) [folded key'_def m_def] mn(2), folded k'_def]
      have f: "\<not> length ls < length ls" "length ls \<noteq> n" using branch(5) by simp_all
      show ?thesis
        unfolding Some unf branch(1) val [OF branch(2)] bind_err_simps Let_def branch(3,4) if_not_P [OF f(1)] if_not_P [OF f(2)] branch(6,7)
          right_def [symmetric] if_Some key'_def [symmetric] m_def [symmetric]
      proof (rule aug_ok_bind [OF IH])
        fix r assume r: "aug_set_result leafE forkE is_extra mode m (if right then eb else ea) k' ?v r"
        show "aug_ok ?P (case r of (res, changed) \<Rightarrow>
            if \<not> changed then Inr (None, False)
            else case if right then (Some a, res) else (res, Some b) of
              (c1, c2) \<Rightarrow> bind_err (aug_create_fork aug sha256 key (length ls) n c1 c2) (\<lambda>c. Inr (Some c, True)))"
        proof (cases "mode = Mode_Replace \<and> map_of es ?k = None \<or> mode = Mode_Add \<and> map_of es ?k \<noteq> None")
          case True
          then have "r = (None, False)" using r by (simp add: aug_set_result_def mp)
          then show ?thesis using True by (simp add: aug_set_result_def)
        next
          case nm: False
          then obtain c' e' x' where r': "r = (Some c', True)" "aug_rep leafE forkE is_extra m c' e' x'"
            "map_of e' = (map_of (if right then eb else ea))(k' \<mapsto> ?v)"
            using r by (cases r) (auto simp: aug_set_result_def mp)
          have l: "aug_rep leafE forkE is_extra (n - length ls - 1) (if right then a else c') (if right then ea else e') (if right then xa else x')"
            and rr: "aug_rep leafE forkE is_extra (n - length ls - 1) (if right then c' else b) (if right then e' else eb) (if right then x' else xb)"
            using branch(8,9) r'(2) by (simp_all add: m_def)
          have upd: "map_of (pre ls (pre [False] (if right then ea else e') @ pre [True] (if right then e' else eb)))
              = (map_of es)(?k \<mapsto> ?v)"
            unfolding k branch(10) by (rule map_of_node_upd [OF r'(3)])
          show ?thesis
            unfolding r'(1) prod.case if_True if_False not_True_eq_False if_pair_swap if_Some
            by (rule aug_ok_bind [OF create_aug_fork_ok [OF branch(14,5) less.prems(3) l rr sha, unfolded branch(13)]])
              (use upd in \<open>auto intro: aug_set_resultI [OF nm] simp del: pre_simps\<close>)
        qed
      qed
    qed
  qed
qed

section \<open>Deleting\<close>

lemma merge_ok:
  assumes r: "aug_rep leafE forkE is_extra (n - len - 1) c ec x" and len: "len < n" and n: "n \<le> max_key_bits" and key: "ptr_ok key len"
    and sha: "\<And>x. length (sha256 x) = hash_bytes"
  shows "dict_ok (\<lambda>c'. aug_rep leafE forkE is_extra n c' (pre (ptr_bits key len @ [bit_val]) ec) x)
     (merge_edge sha256 key len bit_val (Some c) n chk_size)"
  using r
proof cases
  case (aug_leaf ls v)
  have l: "length (ptr_bits key len @ bit_val # ls) = n" using key len aug_leaf(4) by simp
  have f: "\<not> bad_fork chk_size (n - len - 1) ls (fst (joined x v)) (snd (joined x v))" using aug_leaf(4) by (simp add: bad_fork_def)
  have "aug_rep leafE forkE is_extra n c' (pre (ptr_bits key len @ [bit_val]) ec) x"
    if "node_cell n c' (ptr_bits key len @ bit_val # ls) (fst (joined x v)) (snd (joined x v))" for c'
    by (rule aug_rep.aug_leaf [where ls = "ptr_bits key len @ bit_val # ls" and v = v]) (use that l aug_leaf in simp_all)
  then show ?thesis by (intro dict_ok_mono [OF merge_edge_cell [OF aug_leaf(3) f len n key sha]]) simp_all
next
  case (aug_fork ls ea eb xa xb a b)
  let ?ls = "ptr_bits key len @ bit_val # ls"
  have l: "length ?ls < n" "n - length ?ls = n - len - 1 - length ls" using key len aug_fork(4) by simp_all
  have f: "\<not> bad_fork chk_size (n - len - 1) ls (fst x) (a # b # snd x)" by (simp add: bad_fork_def)
  have "aug_rep leafE forkE is_extra n c' (pre (ptr_bits key len @ [bit_val]) ec) x" if "node_cell n c' ?ls (fst x) (a # b # snd x)" for c'
  proof (rule aug_rep.aug_fork)
    show "pre (ptr_bits key len @ [bit_val]) ec = pre ?ls (pre [False] ea @ pre [True] eb)" using aug_fork(1) by simp
    show "x = forkE xa xb" "node_cell n c' ?ls (fst x) (a # b # snd x)" "is_extra x" by fact+
    show "length ?ls < n" by (rule l)
    show "aug_rep leafE forkE is_extra (n - length ?ls - 1) a ea xa" "aug_rep leafE forkE is_extra (n - length ?ls - 1) b eb xb"
      unfolding l(2) by fact+
  qed
  then show ?thesis by (intro dict_ok_mono [OF merge_edge_cell [OF aug_fork(3) f len n key sha]]) simp_all
qed

theorem aug_dict_lookup_delete_ok:
  assumes "aug_rep_opt leafE forkE is_extra n dict es" and "ptr_ok key n" and "n \<le> max_key_bits"
    and sha: "\<And>x. length (sha256 x) = hash_bytes"
  shows "aug_ok (aug_delete_result leafE forkE is_extra n es (ptr_bits key n)) (aug_dict_lookup_delete aug sha256 dict key n)"
  using assms(1-3)
proof (induction n arbitrary: dict es key rule: less_induct)
  case (less n)
  let ?k = "ptr_bits key n"
  let ?P = "aug_delete_result leafE forkE is_extra n es ?k"
  have n31: "n < 2 ^ 31" using less.prems(3) by simp
  show ?case
  proof (cases dict)
    case None
    then show ?thesis using less.prems(1)
      by (simp add: aug_rep_opt_def aug_dict_lookup_delete.simps [of _ _ None] aug_delete_result_def value_of_def value_ok_def)
  next
    case (Some c)
    then obtain x where rep: "aug_rep leafE forkE is_extra n c es x" using less.prems(1) by (auto simp: aug_rep_opt_def)
    have ne: "Some c \<noteq> None" by simp
    note unf = aug_dict_lookup_delete.simps [of aug sha256 "Some c" key n, unfolded if_not_P [OF ne]]
    from rep less.prems(2) n31 show ?thesis
    proof (cases rule: aug_rep_cases)
      case (miss lab ls rest refs es0)
      have "map_of es ?k = None" using miss(5) lcp_prefix [of ls ?k] by (simp add: miss(7) map_of_pre)
      then show ?thesis unfolding Some unf miss(1) bind_err_simps Let_def
        using miss(5) by (simp add: miss(3,4) aug_delete_result_def value_of_def value_ok_def)
    next
      case (hit lab v)
      have "map_of [] = (map_of es)(?k := None)" by (rule ext) (simp add: hit(5))
      then show ?thesis unfolding Some unf hit(1) bind_err_simps Let_def using hit(3-6) skip_label_rest [OF hit(2)]
        by (auto simp: aug_delete_result_def value_of_def value_ok_def aug_rep_opt_def with_extra_def)
    next
      case (branch lab ls a b ea eb xa xb)
      define m where "m = n - length ls - 1"
      define right where "right = ptr_bit key (length ls)"
      define key' where "key' = ptr_add key (length ls + 1)"
      define k' where "k' = ptr_bits key' m"
      have k: "?k = ls @ right # k'" using branch(11) by (simp only: right_def k'_def key'_def m_def)
      have mp: "map_of es ?k = map_of (if right then eb else ea) k'" unfolding k branch(10) by (rule map_of_node)
      have mn: "m < n" "m \<le> max_key_bits" using branch(5) less.prems(3) by (simp_all add: m_def)
      have "aug_rep_opt leafE forkE is_extra m (Some (if right then b else a)) (if right then eb else ea)"
        using branch(8,9) by (cases right) (auto simp: m_def intro: aug_rep_optI)
      note IH = less.IH [OF mn(1) this branch(12) [folded key'_def m_def] mn(2), folded k'_def]
      have f: "\<not> length ls < length ls" "length ls \<noteq> n" using branch(5) by simp_all
      show ?thesis
        unfolding Some unf branch(1) bind_err_simps Let_def branch(3,4) if_not_P [OF f(1)] if_not_P [OF f(2)] branch(6,7)
          right_def [symmetric] if_Some key'_def [symmetric] m_def [symmetric]
      proof (rule aug_ok_bind [OF IH])
        fix r assume r: "aug_delete_result leafE forkE is_extra m (if right then eb else ea) k' r"
        obtain old res where re: "r = (old, res)" by fastforce
        note D = r [unfolded re aug_delete_result_def fst_conv snd_conv]
        show "aug_ok ?P (case r of (old_val, res) \<Rightarrow>
            if old_val = None then Inr (None, None)
            else case if right then (Some a, res) else (res, Some b) of
              (c1, c2) \<Rightarrow>
                if c1 \<noteq> None \<and> c2 \<noteq> None
                then bind_err (aug_create_fork aug sha256 key (length ls) n c1 c2) (\<lambda>c. Inr (old_val, Some c))
                else case if \<not> right then (c2, c1) else (c1, c2) of
                   (c1, c2) \<Rightarrow> bind_err (merge_edge sha256 key (length ls) (\<not> right) c1 n chk_size)
                     (\<lambda>c. Inr (old_val, Some c)))"
        proof (cases old)
          case None
          then have "map_of es ?k = None" using D by (simp add: mp value_of_def)
          then show ?thesis by (simp add: re None aug_delete_result_def value_of_def value_ok_def)
        next
          case (Some s)
          have old: "value_of old = map_option (with_extra leafE) (map_of es ?k)" "value_ok old" "old \<noteq> None"
            using D Some by (simp_all add: mp)
          then have some: "map_of es ?k \<noteq> None" by (cases "map_of es ?k") (auto simp: value_of_def)
          obtain e' where e': "aug_rep_opt leafE forkE is_extra m res e'" "map_of e' = (map_of (if right then eb else ea))(k' := None)"
            using D some by (auto simp: mp)
          have upd: "map_of (pre ls (pre [False] (if right then ea else e') @ pre [True] (if right then e' else eb)))
              = (map_of es)(?k := None)"
            unfolding k branch(10) by (rule map_of_node_del [OF e'(2)])
          have result: "aug_ok ?P (bind_err q (\<lambda>c. Inr (old, Some c)))"
            if q: "aug_ok (\<lambda>c. aug_rep leafE forkE is_extra n c E y) q" and E: "map_of E = (map_of es)(?k := None)" for q E y
          proof (rule aug_ok_bind [OF q])
            fix c assume "aug_rep leafE forkE is_extra n c E y"
            from aug_rep_optI [OF this] show "aug_ok ?P (Inr (old, Some c))" using old some E by (auto simp: aug_delete_result_def)
          qed
          show ?thesis
          proof (cases res)
            case None
            have "e' = []" using e'(1) by (simp add: None aug_rep_opt_def)
            then have E: "map_of (pre (ls @ [\<not> right]) (if right then ea else eb)) = (map_of es)(?k := None)"
              using upd by (cases right) simp_all
            have "aug_rep leafE forkE is_extra (n - length ls - 1) (if right then a else b) (if right then ea else eb) (if right then xa else xb)"
              using branch(8,9) by simp
            note merge_ok [OF this branch(5) less.prems(3) branch(14) sha, of "\<not> right", unfolded branch(13)]
            from result [OF dict_ok_aug_ok [OF this] E] show ?thesis using old(3) by (cases right) (auto simp: re None)
          next
            case (Some c')
            obtain x' where x': "aug_rep leafE forkE is_extra m c' e' x'" using e'(1) by (auto simp: Some aug_rep_opt_def)
            have l: "aug_rep leafE forkE is_extra (n - length ls - 1) (if right then a else c') (if right then ea else e') (if right then xa else x')"
              and rr: "aug_rep leafE forkE is_extra (n - length ls - 1) (if right then c' else b) (if right then e' else eb) (if right then x' else xb)"
              using branch(8,9) x' by (simp_all add: m_def)
            from result [OF create_aug_fork_ok [OF branch(14,5) n31 l rr sha, unfolded branch(13)] upd]
            show ?thesis using old(3) by (cases right) (auto simp: re Some)
          qed
        qed
      qed
    qed
  qed
qed

text \<open>A key that is not there: nothing is written, and nothing can fail.\<close>

theorem aug_dict_lookup_delete_absent:
  assumes "aug_rep_opt leafE forkE is_extra n dict es" and "ptr_ok key n" and "n < 2 ^ 31" and "map_of es (ptr_bits key n) = None"
  shows "aug_dict_lookup_delete aug sha256 dict key n = Inr (None, None)"
  using assms
proof (induction n arbitrary: dict es key rule: less_induct)
  case (less n)
  show ?case
  proof (cases dict)
    case None
    then show ?thesis by (simp add: aug_dict_lookup_delete.simps [of _ _ None])
  next
    case (Some c)
    then obtain x where rep: "aug_rep leafE forkE is_extra n c es x" using less.prems(1) by (auto simp: aug_rep_opt_def)
    note unf = aug_dict_lookup_delete.simps [of aug sha256 "Some c" key n]
    from rep less.prems(2,3) show ?thesis
    proof (cases rule: aug_rep_cases)
      case (miss lab ls rest refs es0)
      then show ?thesis unfolding Some unf miss(1) by simp
    next
      case (hit lab v)
      then show ?thesis using less.prems(4) by simp
    next
      case (branch lab ls a b ea eb xa xb)
      let ?m = "n - length ls - 1" and ?key = "ptr_add key (length ls + 1)" and ?right = "ptr_bit key (length ls)"
      have m: "?m < n" "?m < 2 ^ 31" using branch(5) less.prems(3) by simp_all
      have d: "aug_rep_opt leafE forkE is_extra ?m (Some (if ?right then b else a)) (if ?right then eb else ea)"
        using branch(8,9) by (cases ?right) (auto intro: aug_rep_optI)
      have "map_of (if ?right then eb else ea) (ptr_bits ?key ?m) = None"
        using less.prems(4) unfolding branch(10,11) map_of_node .
      from less.IH [OF m(1) d branch(12) m(2) this] show ?thesis
        unfolding Some unf branch(1) using branch(3-7) by (simp add: Let_def if_distrib [of Some] cong: if_cong)
    qed
  qed
qed

end

end
