(* ===== verification/Aug_Store.thy ===== *)
theory Aug_Store
  imports Aug_Change Dict_Store
begin

text \<open>
  The object of an augmented dictionary: its invariant, with the extra data of the root, the operations
  on its entries, and its root as a slice, which the constructor takes back after it has checked it.
\<close>

unbundle bit_operations_syntax

section \<open>The invariant\<close>

text \<open>The extra data at the root, and the slice of a root: one bit, the cell if there is one, and the extra
  data.\<close>

definition root_extra ::
  "(dict_val \<Rightarrow> dict_val) \<Rightarrow> (dict_val \<Rightarrow> dict_val \<Rightarrow> dict_val) \<Rightarrow> dict_val \<Rightarrow> (dict_val \<Rightarrow> bool) \<Rightarrow> nat \<Rightarrow> cell option
     \<Rightarrow> dict_entry list \<Rightarrow> dict_val \<Rightarrow> bool" where
  "root_extra le fe ee ie n co es x \<longleftrightarrow>
     (case co of None \<Rightarrow> es = [] \<and> x = ee | Some c \<Rightarrow> aug_rep le fe ie n c es x)"

definition aug_root_slice :: "slice option \<Rightarrow> cell option \<Rightarrow> dict_val \<Rightarrow> bool" where
  "aug_root_slice r co x \<longleftrightarrow>
     (\<exists>s. r = Some s \<and> slice_ok s
       \<and> content s = joined ([co \<noteq> None], case co of None \<Rightarrow> [] | Some c \<Rightarrow> [c]) x)"

definition aug_inv ::
  "(dict_val \<Rightarrow> dict_val) \<Rightarrow> (dict_val \<Rightarrow> dict_val \<Rightarrow> dict_val) \<Rightarrow> dict_val \<Rightarrow> (dict_val \<Rightarrow> bool) \<Rightarrow> dict \<Rightarrow> nat \<Rightarrow> dict_entry list
     \<Rightarrow> dict_val \<Rightarrow> bool" where
  "aug_inv le fe ee ie d n es x \<longleftrightarrow>
     dict_is_valid d \<and> d_key_bits d = int n \<and> n \<le> max_key_bits \<and> root_extra le fe ee ie n (d_root_cell d) es x
     \<and> (d_flags d AND f_root_cached \<noteq> 0 \<longrightarrow> aug_root_slice (d_root d) (d_root_cell d) x)"

lemma root_extra_opt: "root_extra le fe ee ie n co es x \<Longrightarrow> aug_rep_opt le fe ie n co es"
  by (cases co) (auto simp: root_extra_def aug_rep_opt_def simp del: split_paired_Ex)

lemma aug_rep_opt_extra: "aug_rep_opt le fe ie n co es \<Longrightarrow> \<exists>x. root_extra le fe ee ie n co es x"
  by (cases co) (auto simp: root_extra_def aug_rep_opt_def simp del: split_paired_Ex)

lemma aug_inv_set_root_cell:
  "aug_inv le fe ee ie d n es x \<Longrightarrow> root_extra le fe ee ie n c es' x' \<Longrightarrow> aug_inv le fe ee ie (set_root_cell d c) n es' x'"
  by (simp add: aug_inv_def dict_is_valid_bit flag_bits set_root_cell_def flag_updates)

lemma aug_force_valid [simp]: "dict_is_valid d \<Longrightarrow> aug_force_validate aug sha256 d = Inr d"
  by (simp add: aug_force_validate_def)

lemma aug_rep_leaf_extra: "aug_rep le fe ie n c es x \<Longrightarrow> \<forall>v \<in> snd ` set es. ie (le v)"
proof (induction rule: aug_rep.induct)
  case (aug_fork es ls ea eb x xa xb n c a b)
  then show ?case by (auto simp: pre_def)
qed auto

theorem new_aug_dict_inv:
  "if 0 \<le> n \<and> n \<le> int max_key_bits
   then \<exists>d. new_aug_dict aug sha256 n True = Inr d \<and> aug_inv le fe ee ie d (nat n) [] ee
   else new_aug_dict aug sha256 n True = Inl (Vm_error Excno_dict_err)"
proof -
  have v: "\<not> dict_is_valid \<lparr>d_root = None, d_root_cell = None, d_key_bits = n, d_flags = 0\<rparr>"
    by (simp add: dict_is_valid_bit)
  show ?thesis
    using v by (auto simp: new_aug_dict_def new_dict_def finish_new_def aug_finish_new_def aug_force_validate_def aug_validate_def
        dict_invalidate_def aug_inv_def root_extra_def dict_is_valid_bit flag_bits flag_updates bit_flags)
qed

definition aug_obj_set_result ::
  "(dict_val \<Rightarrow> dict_val) \<Rightarrow> (dict_val \<Rightarrow> dict_val \<Rightarrow> dict_val) \<Rightarrow> dict_val \<Rightarrow> (dict_val \<Rightarrow> bool) \<Rightarrow> set_mode \<Rightarrow> nat \<Rightarrow> dict_entry list
     \<Rightarrow> bool list \<Rightarrow> dict_val \<Rightarrow> bool \<times> dict \<Rightarrow> bool" where
  "aug_obj_set_result le fe ee ie mode n es k v r \<longleftrightarrow>
     fst r = (\<not> (mode = Mode_Replace \<and> map_of es k = None \<or> mode = Mode_Add \<and> map_of es k \<noteq> None))
     \<and> (\<exists>es' x'. aug_inv le fe ee ie (snd r) n es' x' \<and> map_of es' = (if fst r then (map_of es)(k \<mapsto> v) else map_of es))"

definition aug_obj_delete_result ::
  "(dict_val \<Rightarrow> dict_val) \<Rightarrow> (dict_val \<Rightarrow> dict_val \<Rightarrow> dict_val) \<Rightarrow> dict_val \<Rightarrow> (dict_val \<Rightarrow> bool) \<Rightarrow> nat \<Rightarrow> dict_entry list
     \<Rightarrow> bool list \<Rightarrow> slice option \<times> dict \<Rightarrow> bool" where
  "aug_obj_delete_result le fe ee ie n es k r \<longleftrightarrow>
     value_of (fst r) = map_of es k \<and> value_ok (fst r)
     \<and> (\<exists>es' x'. aug_inv le fe ee ie (snd r) n es' x' \<and> map_of es' = (map_of es)(k := None))"

context augmentation_laws
begin

section \<open>The operations on the map\<close>

lemma extract_value_ok:
  assumes r: "value_of r = map_option (with_extra leafE) v" "value_ok r" and x: "\<And>y. v = Some y \<Longrightarrow> is_extra (leafE y)"
  shows "value_of (aug_extract_value aug r) = v \<and> value_ok (aug_extract_value aug r)"
proof (cases r)
  case None
  then show ?thesis using r by (simp add: aug_extract_value_def value_of_def value_ok_def)
next
  case (Some s)
  then obtain y where y: "v = Some y" "content s = joined (leafE y) y" "slice_ok s"
    using r by (cases v) (auto simp: value_of_def value_ok_def content_def with_extra_def)
  obtain s' where "skip_extra aug s = (True, s')" "slice_ok s'" "content s' = y"
    using skip_extra_ok [OF y(3,2) x [OF y(1)]] .
  then show ?thesis by (simp add: Some y(1) aug_extract_value_def value_of_def value_ok_def content_def)
qed

lemma decompose_ok:
  assumes r: "value_of r = map_option (with_extra leafE) v" "value_ok r" and x: "\<And>y. v = Some y \<Longrightarrow> is_extra (leafE y)"
  shows "case aug_decompose_value_extra aug r of
      None \<Rightarrow> v = None
    | Some (s, e) \<Rightarrow> v = Some (content s) \<and> content e = leafE (content s) \<and> slice_ok s \<and> slice_ok e"
proof (cases r)
  case None
  then show ?thesis using r by (simp add: aug_decompose_value_extra_def value_of_def)
next
  case (Some s)
  then obtain y where y: "v = Some y" "content s = joined (leafE y) y" "slice_ok s"
    using r by (cases v) (auto simp: value_of_def value_ok_def content_def with_extra_def)
  obtain e s' where "extract_extra aug s = (Some e, s')" "slice_ok e" "content e = leafE y" "slice_ok s'" "content s' = y"
    using extract_extra_ok [OF y(3,2) x [OF y(1)]] by metis
  then show ?thesis by (simp add: Some y(1) aug_decompose_value_extra_def)
qed

lemma leaf_extra:
  assumes "root_extra leafE forkE emptyE is_extra n co es x" and "map_of es k = Some v"
  shows "is_extra (leafE v)"
proof -
  have "(k, v) \<in> set es" by (rule map_of_SomeD [OF assms(2)])
  then show ?thesis using assms(1) aug_rep_leaf_extra by (cases co) (fastforce simp: root_extra_def)+
qed

theorem aug_lookup_with_extra_ok:
  assumes d: "aug_inv leafE forkE emptyE is_extra d n es x" and key: "ptr_ok key n"
  shows "\<exists>r. aug_lookup_with_extra aug sha256 d key n = Inr (r, d)
     \<and> value_of r = map_option (with_extra leafE) (map_of es (ptr_bits key n)) \<and> value_ok r"
proof -
  have i: "dict_is_valid d" "d_key_bits d = int n" "root_extra leafE forkE emptyE is_extra n (d_root_cell d) es x" "n < 2 ^ 31"
    using d by (simp_all add: aug_inv_def)
  show ?thesis
  proof (cases "d_root_cell d")
    case None
    then show ?thesis using i
      by (simp add: aug_lookup_with_extra_def dict_is_empty_def root_extra_def value_of_def value_ok_def)
  next
    case (Some c)
    then have "aug_rep leafE forkE is_extra n c es x" using i by (simp add: root_extra_def)
    from aug_dict_lookup_correct [OF this key i(4)] show ?thesis using i Some
      by (auto simp: aug_lookup_with_extra_def dict_is_empty_def)
  qed
qed

theorem aug_lookup_ok:
  assumes d: "aug_inv leafE forkE emptyE is_extra d n es x" and key: "ptr_ok key n"
  shows "\<exists>r. aug_lookup aug sha256 d key n = Inr (r, d) \<and> value_of r = map_of es (ptr_bits key n) \<and> value_ok r"
proof -
  have e: "root_extra leafE forkE emptyE is_extra n (d_root_cell d) es x" using d by (simp add: aug_inv_def)
  obtain r where r: "aug_lookup_with_extra aug sha256 d key n = Inr (r, d)"
    "value_of r = map_option (with_extra leafE) (map_of es (ptr_bits key n))" "value_ok r"
    using aug_lookup_with_extra_ok [OF d key] by blast
  from extract_value_ok [OF r(2,3) leaf_extra [OF e]] show ?thesis by (simp add: aug_lookup_def r(1))
qed

theorem aug_lookup_extra_ok:
  assumes d: "aug_inv leafE forkE emptyE is_extra d n es x" and key: "ptr_ok key n"
  shows "\<exists>r. aug_lookup_extra aug sha256 d key n = Inr (r, d) \<and>
     (case r of None \<Rightarrow> map_of es (ptr_bits key n) = None
      | Some (s, e) \<Rightarrow> map_of es (ptr_bits key n) = Some (content s) \<and> content e = leafE (content s) \<and> slice_ok s \<and> slice_ok e)"
proof -
  have e: "root_extra leafE forkE emptyE is_extra n (d_root_cell d) es x" using d by (simp add: aug_inv_def)
  obtain r where r: "aug_lookup_with_extra aug sha256 d key n = Inr (r, d)"
    "value_of r = map_option (with_extra leafE) (map_of es (ptr_bits key n))" "value_ok r"
    using aug_lookup_with_extra_ok [OF d key] by blast
  from decompose_ok [OF r(2,3) leaf_extra [OF e]] show ?thesis by (simp add: aug_lookup_extra_def r(1))
qed

theorem aug_set_ok:
  assumes d: "aug_inv leafE forkE emptyE is_extra d n es x" and key: "ptr_ok key n" and v: "aug_val_ok val"
    and sha: "\<And>x. length (sha256 x) = hash_bytes"
  shows "aug_ok (aug_obj_set_result leafE forkE emptyE is_extra mode n es (ptr_bits key n) (content val))
     (aug_set aug sha256 d key n val mode)"
proof -
  have i: "dict_is_valid d" "d_key_bits d = int n" "root_extra leafE forkE emptyE is_extra n (d_root_cell d) es x" "n < 2 ^ 31"
    using d by (simp_all add: aug_inv_def)
  let ?k = "ptr_bits key n" and ?v = "content val"
  have e: "aug_set aug sha256 d key n val mode =
      bind_err (aug_dict_set aug sha256 (d_root_cell d) key n val mode) (\<lambda>(c, changed).
         Inr (changed, if changed then set_root_cell d c else d))"
    using i by (simp add: aug_set_def)
  show ?thesis unfolding e
  proof (rule aug_ok_bind [OF aug_dict_set_ok [OF root_extra_opt [OF i(3)] key i(4) v sha]])
    fix r assume r: "aug_set_result leafE forkE is_extra mode n es ?k ?v r"
    show "aug_ok (aug_obj_set_result leafE forkE emptyE is_extra mode n es ?k ?v) (case r of (c, changed) \<Rightarrow>
        Inr (changed, if changed then set_root_cell d c else d))"
    proof (cases "mode = Mode_Replace \<and> map_of es ?k = None \<or> mode = Mode_Add \<and> map_of es ?k \<noteq> None")
      case True
      then have "r = (None, False)" using r by (simp add: aug_set_result_def)
      then show ?thesis using True d by (auto simp: aug_obj_set_result_def simp del: split_paired_Ex)
    next
      case False
      then obtain c' es' x' where c': "r = (Some c', True)" "aug_rep leafE forkE is_extra n c' es' x'" "map_of es' = (map_of es)(?k \<mapsto> ?v)"
        using r by (cases r) (auto simp: aug_set_result_def)
      then have "aug_inv leafE forkE emptyE is_extra (set_root_cell d (Some c')) n es' x'"
        using aug_inv_set_root_cell [OF d] by (simp add: root_extra_def)
      then show ?thesis using False c' by (auto simp: aug_obj_set_result_def simp del: split_paired_Ex)
    qed
  qed
qed

theorem aug_lookup_delete_ok:
  assumes d: "aug_inv leafE forkE emptyE is_extra d n es x" and key: "ptr_ok key n" and sha: "\<And>x. length (sha256 x) = hash_bytes"
  shows "aug_ok (aug_obj_delete_result leafE forkE emptyE is_extra n es (ptr_bits key n)) (aug_lookup_delete aug sha256 d key n)"
proof -
  have i: "dict_is_valid d" "d_key_bits d = int n" "root_extra leafE forkE emptyE is_extra n (d_root_cell d) es x" "n \<le> max_key_bits"
    using d by (simp_all add: aug_inv_def)
  let ?k = "ptr_bits key n"
  have e: "aug_lookup_delete aug sha256 d key n =
      bind_err (aug_dict_lookup_delete aug sha256 (d_root_cell d) key n) (\<lambda>(old, c).
         Inr (aug_extract_value aug old, if old \<noteq> None then set_root_cell d c else d))"
    using i by (cases "aug_dict_lookup_delete aug sha256 (d_root_cell d) key n")
      (auto simp: aug_lookup_delete_def aug_lookup_delete_with_extra_def)
  show ?thesis unfolding e
  proof (rule aug_ok_bind [OF aug_dict_lookup_delete_ok [OF root_extra_opt [OF i(3)] key i(4) sha]])
    fix r assume r: "aug_delete_result leafE forkE is_extra n es ?k r"
    obtain old c where re: "r = (old, c)" by fastforce
    note D = r [unfolded aug_delete_result_def re fst_conv snd_conv]
    have val: "value_of (aug_extract_value aug old) = map_of es ?k \<and> value_ok (aug_extract_value aug old)"
      by (rule extract_value_ok [OF _ _ leaf_extra [OF i(3)]]) (use D in simp_all)
    show "aug_ok (aug_obj_delete_result leafE forkE emptyE is_extra n es ?k) (case r of (old, c) \<Rightarrow>
        Inr (aug_extract_value aug old, if old \<noteq> None then set_root_cell d c else d))"
    proof (cases "map_of es ?k")
      case None
      then have "old = None" using D by (simp add: value_of_def)
      moreover have "map_of es = (map_of es)(?k := None)" using None by (simp add: fun_upd_idem)
      ultimately show ?thesis using d val by (auto simp: re aug_obj_delete_result_def simp del: split_paired_Ex)
    next
      case (Some v)
      then have "old \<noteq> None" using D by (auto simp: value_of_def)
      moreover obtain es' where "aug_rep_opt leafE forkE is_extra n c es'" "map_of es' = (map_of es)(?k := None)" using D Some by auto
      moreover obtain x' where "root_extra leafE forkE emptyE is_extra n c es' x'" using aug_rep_opt_extra calculation(2) by blast
      ultimately have "\<exists>es' x'. aug_inv leafE forkE emptyE is_extra (set_root_cell d c) n es' x' \<and> map_of es' = (map_of es)(?k := None)"
        using aug_inv_set_root_cell [OF d] by blast
      with \<open>old \<noteq> None\<close> val show ?thesis by (simp add: re aug_obj_delete_result_def)
    qed
  qed
qed

theorem aug_lookup_delete_absent:
  assumes d: "aug_inv leafE forkE emptyE is_extra d n es x" and key: "ptr_ok key n" and none: "map_of es (ptr_bits key n) = None"
  shows "aug_lookup_delete aug sha256 d key n = Inr (None, d)"
proof -
  have i: "dict_is_valid d" "d_key_bits d = int n" "root_extra leafE forkE emptyE is_extra n (d_root_cell d) es x" "n < 2 ^ 31"
    using d by (simp_all add: aug_inv_def)
  from aug_dict_lookup_delete_absent [OF root_extra_opt [OF i(3)] key i(4) none] show ?thesis
    using i by (simp add: aug_lookup_delete_def aug_lookup_delete_with_extra_def aug_extract_value_def)
qed

end

end
