(* ===== verification/Aug_Root.thy ===== *)
theory Aug_Root
  imports Aug_Store
begin

text \<open>
  The root of an augmented dictionary as a slice: a bit, the cell if there is one, and the extra data
  of the root. The constructor takes it back, after it has compared the extra data with that of the
  tree.
\<close>

unbundle bit_operations_syntax

lemma builder_contents_equal_eq:
  assumes b: "builder_ok b" and s: "slice_ok s"
  shows "builder_contents_equal b s \<longleftrightarrow> builder_out b = slice_bits s
     \<and> map (\<lambda>c. get_hash c max_level) (b_refs b) = map (\<lambda>c. get_hash c max_level) (slice_children s)"
proof (cases "b_bits b = slice_size s \<and> length (b_refs b) = slice_size_refs s")
  case True
  have "same_bits (b_data b) 0 (slice_data s) (bits_st s) (b_bits b) \<longleftrightarrow> builder_out b = slice_bits s"
    using b slice_room [OF s] True by (simp add: same_bits_eq builder_ok_def builder_out_def slice_bits_window)
  then show ?thesis using True s by (auto simp: builder_contents_equal_def prefetch_ref_eq list_eq_iff_nth_eq [where xs = "map _ _"])
next
  case False
  have "builder_out b = slice_bits s \<Longrightarrow> b_bits b = slice_size s" using b s by (metis length_builder_out length_slice_bits)
  moreover have "map f (b_refs b) = map f (slice_children s) \<Longrightarrow> length (b_refs b) = slice_size_refs s" for f :: "cell \<Rightarrow> byte list"
    using s by (metis length_map length_slice_children)
  ultimately show ?thesis using False unfolding builder_contents_equal_def by blast
qed

lemma contents_equal_same: "slice_ok s \<Longrightarrow> slice_ok t \<Longrightarrow> content s = content t \<Longrightarrow> contents_equal s t"
  by (simp add: contents_equal_eq content_def)

lemma finalize_content:
  assumes b: "builder_ok cb" and sha: "\<And>x. length (sha256 x) = hash_bytes" and refs: "\<forall>r \<in> set (b_refs cb). wf_cell r"
  shows "dict_ok (\<lambda>(c, cb'). slice_ok (slice_of_loaded (Some c) virt_none) \<and>
     content (slice_of_loaded (Some c) virt_none) = (builder_out cb, b_refs cb)) (dict_finalize sha256 cb)"
proof -
  have e: "dict_ok (\<lambda>r. dict_finalize sha256 cb = Inr r) (dict_finalize sha256 cb)"
    by (auto simp: dict_ok_def dict_finalize_def split: prod.splits sum.splits)
  show ?thesis
  proof (rule dict_ok_mono [OF e], unfold case_prod_beta, rule conjI)
    fix r assume r: "dict_finalize sha256 cb = Inr r"
    then have "dict_finalize sha256 cb = Inr (fst r, snd r)" by simp
    note F = finalized_slice [OF this b sha refs]
    show "slice_ok (slice_of_loaded (Some (fst r)) virt_none)" by (rule F(1))
    show "content (slice_of_loaded (Some (fst r)) virt_none) = (builder_out cb, b_refs cb)" unfolding content_def F(2,3) by (rule refl)
  qed
qed

lemma aug_root_slice_prefetch:
  assumes r: "slice_ok r" "content r = joined ([co \<noteq> None], case co of None \<Rightarrow> [] | Some c \<Rightarrow> [c]) x"
  obtains r1 r2 where "prefetch_ulong r 1 = (of_bool (co \<noteq> None), r1)" "slice_size r \<noteq> 0" "aug_root_slice (Some r1) co x"
    "slice_advance r1 1 = (True, r2)" "slice_ok r2" "co = None \<Longrightarrow> content r2 = x"
    "\<And>c. co = Some c \<Longrightarrow> slice_size_refs r1 \<noteq> 0 \<and> (\<exists>r3. fetch_ref r2 = (Some c, r3) \<and> slice_ok r3 \<and> content r3 = x)"
proof -
  have b: "slice_bits r = (co \<noteq> None) # fst x" "slice_children r = (case co of None \<Rightarrow> [] | Some c \<Rightarrow> [c]) @ snd x"
    using r(2) by (simp_all add: content_def joined_def)
  have le: "1 \<le> slice_size r" using slice_size_bits [OF r(1)] b(1) by simp
  note P = prefetch_ulong_correct [OF r(1) le]
  define r1 where "r1 = snd (prefetch_ulong r 1)"
  have p: "prefetch_ulong r 1 = (of_bool (co \<noteq> None), r1)" using P(1) b(1) by (simp add: r1_def word_of_bits_one prod_eq_iff)
  have rr1: "reads r 0 0 r1" using P(2) by (simp add: r1_def)
  have r1: "slice_ok r1" "content r1 = content r" using reads_ok [OF rr1] reads_content [OF rr1] by (simp_all add: content_def)
  have le1: "1 \<le> slice_size r1" using le reads_size [OF rr1 r(1)] by simp
  define r2 where "r2 = snd (slice_advance r1 1)"
  have a: "slice_advance r1 1 = (True, r2)" using slice_advance_reads(1) [OF r1(1) le1] by (cases "slice_advance r1 1") (simp add: r2_def)
  have rr2: "reads r1 1 0 r2" using slice_advance_reads(2) [OF r1(1) le1] by (simp add: r2_def)
  have r2: "slice_ok r2" "slice_bits r2 = fst x" "slice_children r2 = slice_children r"
    using reads_ok [OF rr2] reads_content [OF rr2] r1(2) b by (simp_all add: content_def)
  show ?thesis
  proof (rule that [OF p _ _ a r2(1)])
    show "slice_size r \<noteq> 0" using le by simp
    show "aug_root_slice (Some r1) co x" using r1 r(2) by (simp add: aug_root_slice_def)
    show "content r2 = x" if "co = None" using r2 b that by (simp add: content_def)
    fix c assume c: "co = Some c"
    have "slice_children r1 = slice_children r" using r1(2) by (simp add: content_def)
    then have n: "slice_size_refs r1 \<noteq> 0" using length_slice_children [OF r1(1)] b(2) c by simp
    obtain r3 where r3: "fetch_ref r2 = (Some c, r3)" "slice_children r3 = snd x" "reads r2 0 1 r3"
      using fetch_ref_eq [OF r2(1)] r2(3) b(2) c by (cases "fetch_ref r2") (auto split: option.splits)
    have "slice_ok r3" "slice_bits r3 = fst x" using reads_ok [OF r3(3)] r3(3) r2(2) by (simp_all add: reads_def)
    then show "slice_size_refs r1 \<noteq> 0 \<and> (\<exists>r3. fetch_ref r2 = (Some c, r3) \<and> slice_ok r3 \<and> content r3 = x)"
      using n r3(1,2) by (simp add: content_def)
  qed
qed

lemma added_room:
  assumes a: "added b x b'" and b: "builder_ok b"
  shows "remaining_bits b' = remaining_bits b - length (fst x)" and "remaining_refs b' = remaining_refs b - length (snd x)"
proof -
  have "length (builder_out b') = length (builder_out b) + length (fst x)" "builder_ok b'" using a by (simp_all add: added_def)
  then have "b_bits b' = b_bits b + length (fst x)" using b by simp
  then show "remaining_bits b' = remaining_bits b - length (fst x)" by (simp add: remaining_bits_def)
  show "remaining_refs b' = remaining_refs b - length (snd x)" using a by (simp add: added_def remaining_refs_def)
qed

text \<open>Extra data is compared by its bits and the hashes of its references.\<close>

definition same_extra :: "dict_val \<Rightarrow> dict_val \<Rightarrow> bool" where
  "same_extra x y \<longleftrightarrow> fst x = fst y \<and> map (\<lambda>c. get_hash c max_level) (snd x) = map (\<lambda>c. get_hash c max_level) (snd y)"

context augmentation_laws
begin

lemma empty_extra_ok:
  assumes cb: "builder_ok cb" "b_bits cb \<le> 1" "b_refs cb = []"
  obtains cb' where "eval_empty aug cb = (True, cb')" "added cb emptyE cb'"
  using eval_empty_fits [OF assms] eval_empty_adds [OF cb(1)] by (cases "eval_empty aug cb") auto

lemma empty_extra: "is_extra emptyE"
proof -
  have "b_bits empty_builder \<le> 1" "b_refs empty_builder = []" by (simp_all add: empty_builder_def new_builder_def)
  from eval_empty_fits [OF builder_ok_empty this] eval_empty_adds [OF builder_ok_empty] show ?thesis
    by (cases "eval_empty aug empty_builder") auto
qed

lemma get_root_extra_ok:
  assumes d: "root_extra leafE forkE emptyE is_extra (nat (d_key_bits d)) (d_root_cell d) es x" and n: "nat (d_key_bits d) < 2 ^ 31"
    and sha: "\<And>x. length (sha256 x) = hash_bytes"
  shows "aug_ok (\<lambda>e. \<exists>s. e = Some s \<and> slice_ok s \<and> content s = x) (aug_get_root_extra aug sha256 d)"
proof (cases "d_root_cell d")
  case None
  have x: "x = emptyE" using d None by (simp add: root_extra_def)
  obtain cb where cb: "eval_empty aug empty_builder = (True, cb)" "added empty_builder emptyE cb"
    by (rule empty_extra_ok [OF builder_ok_empty]) (simp_all add: empty_builder_def new_builder_def)
  have ok: "builder_ok cb" using cb(2) by (simp add: added_def)
  have out: "(builder_out cb, b_refs cb) = emptyE" using cb(2) fresh_empty by (simp add: added_def fresh_def)
  have wf: "\<forall>r \<in> set (b_refs cb). wf_cell r" using extra_wf [OF empty_extra] by (simp add: out [symmetric])
  have e: "aug_get_root_extra aug sha256 d =
      bind_err (dict_finalize sha256 cb) (\<lambda>(c, cb). Inr (Some (slice_of_loaded (Some c) virt_none)))"
    by (simp add: aug_get_root_extra_def aug_get_node_extra_def None cb(1))
  show ?thesis unfolding e by (rule aug_ok_bind [OF dict_ok_aug_ok [OF finalize_content [OF ok sha wf]]]) (clarsimp simp: out x)
next
  case (Some c)
  then have r: "aug_rep leafE forkE is_extra (nat (d_key_bits d)) c es x" using d by (simp add: root_extra_def)
  obtain e where "aug_get_node_extra aug sha256 (Some c) (nat (d_key_bits d)) = Inr (Some e)" "slice_ok e" "content e = x"
    by (rule get_node_extra_ok [OF r n])
  then show ?thesis by (simp add: aug_get_root_extra_def Some)
qed

lemma aug_root_extra_valid:
  assumes d: "aug_inv leafE forkE emptyE is_extra d n es x"
  shows "dict_is_valid d" and "root_extra leafE forkE emptyE is_extra (nat (d_key_bits d)) (d_root_cell d) es x"
    and "nat (d_key_bits d) < 2 ^ 31" and "is_extra x" and "\<And>c. d_root_cell d = Some c \<Longrightarrow> wf_cell c"
proof -
  show v: "dict_is_valid d" "root_extra leafE forkE emptyE is_extra (nat (d_key_bits d)) (d_root_cell d) es x"
    "nat (d_key_bits d) < 2 ^ 31" using d by (simp_all add: aug_inv_def)
  show "is_extra x" using v(2) empty_extra by (cases "d_root_cell d") (auto simp: root_extra_def intro: aug_rep_extra)
  show "wf_cell c" if "d_root_cell d = Some c" for c using v(2) that by (auto simp: root_extra_def intro: aug_rep_wf)
qed

text \<open>The steps shared by the operations that write a non-empty dictionary.\<close>

lemma store_root_ok:
  assumes d: "aug_inv leafE forkE emptyE is_extra d n es x" and c: "d_root_cell d = Some c" and b: "builder_ok cb"
    and one: "\<And>cb. builder_ok cb \<Longrightarrow> appends cb [True] [] (store_one cb)" and sha: "\<And>x. length (sha256 x) = hash_bytes"
  shows "aug_ok (\<lambda>(ok, cb'). ok = (length (fst x) < remaining_bits cb \<and> length (snd x) < remaining_refs cb)
      \<and> (ok \<longrightarrow> added cb (joined ([True], [c]) x) cb')) (aug_store_root aug sha256 d c cb store_one)"
proof (cases "fst (store_one cb)")
  case True
  define cb1 where "cb1 = snd (store_one cb)"
  have e1: "store_one cb = (True, cb1)" using True by (cases "store_one cb") (simp add: cb1_def)
  have a1: "added cb ([True], []) cb1" using appends_added [of cb "([True], [])" "store_one cb"] one [OF b] e1 by simp
  have b1: "builder_ok cb1" using a1 by (simp add: added_def)
  have room1: "1 \<le> remaining_bits cb" using one [OF b] e1 by (simp add: appends_def)
  show ?thesis
  proof (cases "fst (store_ref_bool cb1 (Some c))")
    case True
    define cb2 where "cb2 = snd (store_ref_bool cb1 (Some c))"
    have e2: "store_ref_bool cb1 (Some c) = (True, cb2)" using True by (cases "store_ref_bool cb1 (Some c)") (simp add: cb2_def)
    have a2: "added cb1 ([], [c]) cb2" using appends_added [of cb1 "([], [c])" "store_ref_bool cb1 (Some c)"] store_ref_bool_appends [OF b1, of c] e2 by simp
    have b2: "builder_ok cb2" using a2 by (simp add: added_def)
    have room2: "1 \<le> remaining_refs cb"
      using store_ref_bool_appends [OF b1, of c] e2 added_room [OF a1 b] by (simp add: appends_def)
    have e: "aug_store_root aug sha256 d c cb store_one = bind_err (aug_get_root_extra aug sha256 d) (\<lambda>extra. Inr (append_extra_bool cb2 extra))"
      by (simp add: aug_store_root_def e1 e2)
    note V = aug_root_extra_valid [OF d]
    show ?thesis unfolding e
    proof (rule aug_ok_bind [OF get_root_extra_ok [OF V(2,3) sha]])
      fix extra assume "\<exists>s. extra = Some s \<and> slice_ok s \<and> content s = x"
      then obtain s where s: "extra = Some s" "slice_ok s" "content s = x" by blast
      have "appends cb2 (fst x) (snd x) (append_cellslice_bool cb2 s)"
        using append_cellslice_appends [OF b2 s(2)] s(3) by (auto simp: content_def)
      note ap = this
      have "remaining_bits cb2 = remaining_bits cb - 1" "remaining_refs cb2 = remaining_refs cb - 1"
        using added_room [OF a1 b] added_room [OF a2 b1] by simp_all
      then have "fst (append_cellslice_bool cb2 s) = (length (fst x) < remaining_bits cb \<and> length (snd x) < remaining_refs cb)"
        using ap room1 room2 by (auto simp: appends_def)
      with appends_added [OF ap] a1 a2
      show "aug_ok (\<lambda>(ok, cb'). ok = (length (fst x) < remaining_bits cb \<and> length (snd x) < remaining_refs cb)
          \<and> (ok \<longrightarrow> added cb (joined ([True], [c]) x) cb')) (Inr (append_extra_bool cb2 extra))"
        by (auto simp add: s append_extra_bool_def case_prod_beta added_def joined_def)
    qed
  next
    case False
    then have "remaining_refs cb = 0" using store_ref_bool_appends [OF b1, of c] added_room [OF a1 b] by (simp add: appends_def)
    then show ?thesis using False by (simp add: aug_store_root_def e1 case_prod_beta)
  qed
next
  case False
  then have "remaining_bits cb = 0" using one [OF b] by (auto simp: appends_def)
  then show ?thesis using False by (simp add: aug_store_root_def case_prod_beta)
qed

lemma finalize_root_slice:
  assumes b: "builder_ok cb" "(builder_out cb, b_refs cb) = joined ([co \<noteq> None], case co of None \<Rightarrow> [] | Some c \<Rightarrow> [c]) x"
    and sha: "\<And>x. length (sha256 x) = hash_bytes" and co: "\<And>c. co = Some c \<Longrightarrow> wf_cell c" and x: "is_extra x"
  shows "aug_ok (\<lambda>(c, cb'). aug_root_slice (Some (slice_of_loaded (Some c) virt_none)) co x) (dict_finalize sha256 cb)"
proof -
  have wf: "\<forall>r \<in> set (b_refs cb). wf_cell r" using b(2) co extra_wf [OF x] by (cases co) (auto simp: joined_def)
  show ?thesis
    by (rule aug_ok_mono [OF dict_ok_aug_ok [OF finalize_content [OF b(1) sha wf]]]) (simp add: aug_root_slice_def b(2) case_prod_beta)
qed

lemma empty_dictionary_ok:
  assumes sha: "\<And>x. length (sha256 x) = hash_bytes"
  shows "aug_ok (\<lambda>r. aug_root_slice r None emptyE) (aug_get_empty_dictionary aug sha256)"
  unfolding aug_get_empty_dictionary_def
proof (rule aug_ok_bind [OF dict_ok_aug_ok [OF store_long_one [of False, unfolded of_bool_eq]]])
  fix cb assume cb: "builder_ok cb \<and> builder_out cb = [False] \<and> b_refs cb = []"
  then have "b_bits cb \<le> 1" using length_builder_out [of cb] by simp
  then obtain cb1 where e: "eval_empty aug cb = (True, cb1)" "added cb emptyE cb1" using empty_extra_ok [of cb] cb by blast
  have "builder_ok cb1" "(builder_out cb1, b_refs cb1) = joined ([None \<noteq> (None :: cell option)], case None of None \<Rightarrow> [] | Some c \<Rightarrow> [c]) emptyE"
    using e(2) cb by (simp_all add: added_def joined_def)
  from finalize_root_slice [OF this sha _ empty_extra]
  have "aug_ok (\<lambda>(c, cb'). aug_root_slice (Some (slice_of_loaded (Some c) virt_none)) None emptyE) (dict_finalize sha256 cb1)" by simp
  then show "aug_ok (\<lambda>r. aug_root_slice r None emptyE) (let (ok, cb) = eval_empty aug cb
       in if ok then bind_err (dict_finalize sha256 cb) (\<lambda>(c, cb). Inr (Some (slice_of_loaded (Some c) virt_none))) else Inr None)"
    unfolding e(1) by (auto elim!: aug_ok_bind)
qed

lemma compute_aug_root_ok:
  assumes d: "aug_inv leafE forkE emptyE is_extra d n es x" and sha: "\<And>x. length (sha256 x) = hash_bytes"
  shows "aug_ok (\<lambda>(ok, d'). aug_inv leafE forkE emptyE is_extra d' n es x \<and> d_root_cell d' = d_root_cell d
     \<and> ok \<and> aug_root_slice (d_root d') (d_root_cell d) x) (aug_compute_root aug sha256 d)"
proof -
  note V = aug_root_extra_valid [OF d]
  have keep: "aug_inv leafE forkE emptyE is_extra (d\<lparr>d_root := r, d_flags := d_flags d OR f_root_cached\<rparr>) n es x"
    if "aug_root_slice r (d_root_cell d) x" for r
    using d that by (simp add: aug_inv_def dict_is_valid_bit flag_updates)
  show ?thesis
  proof (cases "d_root_cell d")
    case None
    then have x: "x = emptyE" using V(2) by (simp add: root_extra_def)
    have e: "aug_compute_root aug sha256 d = bind_err (aug_get_empty_dictionary aug sha256) (\<lambda>r.
        Inr (True, d\<lparr>d_root := r, d_flags := d_flags d OR f_root_cached\<rparr>))" using V(1) None by (simp add: aug_compute_root_def)
    show ?thesis unfolding e
      by (rule aug_ok_bind [OF empty_dictionary_ok [OF sha]]) (use keep None x in simp)
  next
    case (Some c)
    have one: "appends cb [True] [] (store_long_bool cb 1 1)" if "builder_ok cb" for cb
      using store_long_bool_appends [OF that, of 1 1] by (simp add: low_bits_def)
    have e: "aug_compute_root aug sha256 d =
        bind_err (aug_store_root aug sha256 d c empty_builder (\<lambda>cb. store_long_bool cb 1 1)) (\<lambda>(ok, cb).
            if \<not> ok then Inr (False, d)
            else bind_err (dict_finalize sha256 cb) (\<lambda>(c, cb).
              Inr (True, d\<lparr>d_root := Some (slice_of_loaded (Some c) virt_none), d_flags := d_flags d OR f_root_cached\<rparr>)))"
      using V(1) Some by (simp add: aug_compute_root_def)
    show ?thesis unfolding e
    proof (rule aug_ok_bind [OF store_root_ok [OF d Some builder_ok_empty one sha]], assumption, unfold case_prod_beta, goal_cases)
      case (1 r)
      have "length (fst x) < remaining_bits empty_builder" "length (snd x) < remaining_refs empty_builder"
        using extra_fits [OF V(4)] by (simp_all add: remaining_bits_def remaining_refs_def empty_builder_def new_builder_def)
      then have r: "fst r" "added empty_builder (joined ([True], [c]) x) (snd r)" using 1 by simp_all
      have b: "builder_ok (snd r)" "(builder_out (snd r), b_refs (snd r)) = joined ([d_root_cell d \<noteq> None], case d_root_cell d of None \<Rightarrow> [] | Some c \<Rightarrow> [c]) x"
        using r(2) fresh_empty by (simp_all add: added_def fresh_def Some joined_def)
      show ?case using r(1)
        by (simp, intro aug_ok_bind [OF finalize_root_slice [OF b sha V(5,4)]]) (use keep Some in auto)
    qed
  qed
qed

theorem aug_get_root_ok:
  assumes d: "aug_inv leafE forkE emptyE is_extra d n es x" and sha: "\<And>x. length (sha256 x) = hash_bytes"
  shows "aug_ok (\<lambda>(r, d'). aug_inv leafE forkE emptyE is_extra d' n es x \<and> d_root_cell d' = d_root_cell d
     \<and> aug_root_slice r (d_root_cell d) x) (aug_get_root aug sha256 d)"
proof (cases "d_flags d AND f_root_cached = 0")
  case True
  then show ?thesis unfolding aug_get_root_def if_P [OF True]
    by (intro aug_ok_bind [OF compute_aug_root_ok [OF d sha]]) auto
next
  case False
  then show ?thesis using d by (simp add: aug_get_root_def aug_inv_def)
qed

text \<open>A root is accepted when the extra data that it carries is that of the tree, and refused when it differs.\<close>

lemma new_aug_dict_ref_checks:
  assumes r: "aug_root_slice r co y" and n: "n \<le> max_key_bits" and x: "root_extra leafE forkE emptyE is_extra n co es x"
  shows "if same_extra x y then \<exists>d. new_aug_dict_ref aug sha256 r (int n) True = Inr d \<and> (x = y \<longrightarrow> aug_inv leafE forkE emptyE is_extra d n es x) \<and> d_root_cell d = co
     else new_aug_dict_ref aug sha256 r (int n) True = Inl (Vm_error Excno_dict_err)"
proof -
  obtain s where s: "r = Some s" "slice_ok s" "content s = joined ([co \<noteq> None], case co of None \<Rightarrow> [] | Some c \<Rightarrow> [c]) y"
    using r by (auto simp: aug_root_slice_def)
  obtain r1 r2 where P: "prefetch_ulong s 1 = (of_bool (co \<noteq> None), r1)" "slice_size s \<noteq> 0" "aug_root_slice (Some r1) co y"
    "slice_advance r1 1 = (True, r2)" "slice_ok r2" "co = None \<Longrightarrow> content r2 = y"
    "\<And>c. co = Some c \<Longrightarrow> slice_size_refs r1 \<noteq> 0 \<and> (\<exists>r3. fetch_ref r2 = (Some c, r3) \<and> slice_ok r3 \<and> content r3 = y)"
    using aug_root_slice_prefetch [OF s(2,3)] by metis
  have f: "\<not> bit f_root_cached 0" "bit f_root_cached 1" "\<not> bit f_root_cached 7" by (simp_all add: bit_flags)
  have f0: "f_root_cached \<noteq> 0" by (simp add: f_root_cached_def)
  define d where "d = \<lparr>d_root = Some r1, d_root_cell = co, d_key_bits = int n, d_flags = f_root_cached OR f_valid\<rparr>"
  have inv: "aug_inv leafE forkE emptyE is_extra d n es x" if "x = y"
    using P(3) n x that by (simp add: d_def aug_inv_def dict_is_valid_bit flag_updates flag_bits)
  have e: "new_aug_dict_ref aug sha256 r (int n) True = (if same_extra x y then Inr d else Inl (Vm_error Excno_dict_err))"
  proof (cases co)
    case None
    have xe: "x = emptyE" using x None by (simp add: root_extra_def)
    obtain cb where cb: "eval_empty aug empty_builder = (True, cb)" "added empty_builder emptyE cb"
      by (rule empty_extra_ok [OF builder_ok_empty]) (simp_all add: empty_builder_def new_builder_def)
    have "builder_ok cb" "builder_out cb = fst emptyE" "b_refs cb = snd emptyE"
      using cb(2) fresh_empty by (simp_all add: added_def fresh_def)
    then have "aug_check_empty aug r2 = same_extra x y"
      using builder_contents_equal_eq [OF _ P(5), of cb] P(6) None by (auto simp: aug_check_empty_def cb(1) same_extra_def xe content_def)
    then show ?thesis using n f f0 P(1,2,4) None
      by (simp add: new_aug_dict_ref_def new_dict_ref_def finish_new_def aug_finish_new_def aug_force_validate_def aug_validate_def
          dict_is_valid_bit flag_bits s d_def dict_invalidate_def)
  next
    case (Some c)
    then obtain r3 where r3: "fetch_ref r2 = (Some c, r3)" "slice_ok r3" "content r3 = y" "slice_size_refs r1 \<noteq> 0" using P(7) by blast
    have rep: "aug_rep leafE forkE is_extra n c es x" and m: "n < 2 ^ 31" using x n Some by (simp_all add: root_extra_def)
    obtain e where e: "aug_get_node_extra aug sha256 (Some c) n = Inr (Some e)" "slice_ok e" "content e = x"
      by (rule get_node_extra_ok [OF rep m])
    have "contents_equal e r3 = same_extra x y"
      using contents_equal_eq [OF e(2) r3(2)] e(3) r3(3) by (auto simp: same_extra_def content_def)
    then show ?thesis using n f f0 P(1,2,4) Some r3(1,4) e(1)
      by (simp add: new_aug_dict_ref_def new_dict_ref_def finish_new_def aug_finish_new_def aug_force_validate_def aug_validate_def
          aug_get_root_extra_def dict_is_valid_bit flag_bits s d_def dict_invalidate_def)
  qed
  show ?thesis using e inv by (auto simp: d_def)
qed

text \<open>A dictionary as a field of a larger structure.\<close>

theorem aug_append_dict_ok:
  assumes d: "aug_inv leafE forkE emptyE is_extra d n es x" and b: "builder_ok cb" and sha: "\<And>x. length (sha256 x) = hash_bytes"
  shows "aug_ok (\<lambda>(ok, cb'). ok \<longrightarrow> added cb (joined ([d_root_cell d \<noteq> None], case d_root_cell d of None \<Rightarrow> [] | Some c \<Rightarrow> [c]) x) cb')
     (aug_append_dict_to_bool aug sha256 d cb)"
proof (cases "d_root_cell d")
  case None
  have v: "dict_is_valid d" "x = emptyE" using aug_root_extra_valid(1,2) [OF d] None by (simp_all add: root_extra_def)
  show ?thesis
  proof (cases "fst (store_bits_same_bool cb 1 False)")
    case True
    define cb1 where "cb1 = snd (store_bits_same_bool cb 1 False)"
    have e: "store_bits_same_bool cb 1 False = (True, cb1)" using True by (cases "store_bits_same_bool cb 1 False") (simp add: cb1_def)
    have a1: "added cb ([False], []) cb1"
      using appends_added [of cb "([False], [])" "store_bits_same_bool cb 1 False"] store_bits_same_bool_appends [OF b, of 1 False] e by simp
    then have b1: "builder_ok cb1" by (simp add: added_def)
    have "fst (eval_empty aug cb1) \<longrightarrow> added cb1 emptyE (snd (eval_empty aug cb1))"
      using eval_empty_adds [OF b1] by (cases "eval_empty aug cb1") auto
    then show ?thesis using a1 v None e [unfolded One_nat_def]
      by (auto simp: aug_append_dict_to_bool_def case_prod_beta added_def joined_def)
  next
    case False
    then show ?thesis using v None by (simp add: aug_append_dict_to_bool_def case_prod_beta)
  qed
next
  case (Some c)
  have one: "appends cb [True] [] (store_bits_same_bool cb 1 True)" if "builder_ok cb" for cb
    using store_bits_same_bool_appends [OF that, of 1 True] by simp
  have e: "aug_append_dict_to_bool aug sha256 d cb = aug_store_root aug sha256 d c cb (\<lambda>cb. store_bits_same_bool cb 1 True)"
    using aug_root_extra_valid(1) [OF d] Some by (simp add: aug_append_dict_to_bool_def)
  show ?thesis unfolding e by (rule aug_ok_mono [OF store_root_ok [OF d Some b one sha]], assumption) (auto simp: Some)
qed

end

end
