(* ===== verification/Aug_Traverse.thy ===== *)
theory Aug_Traverse
  imports Aug_Root Dict_Visit
begin

text \<open>
  The search that is guided by extra data, \<open>AugmentedDictionary::traverse_extra\<close> of
  \<open>crypto/vm/dict.cpp\<close>: a function of the caller looks at the extra data of a fork and says which of
  its branches are to be searched, and in which order.
\<close>

unbundle bit_operations_syntax

section \<open>The code\<close>

text \<open>A negative answer of the caller's function, or one that names both branches without an order, is
  thrown as \<open>CombineErrorValue\<close>.\<close>

datatype traverse_error = Dict_error dict_error | Combine_value int

definition dict_call :: "dict_error + 'a \<Rightarrow> traverse_error + 'a" where
  "dict_call r = (case r of Inl e \<Rightarrow> Inl (Dict_error e) | Inr x \<Rightarrow> Inr x)"

lemma dict_call_simps [simp]: "dict_call (Inl e) = Inl (Dict_error e)" "dict_call (Inr x) = Inr x"
  by (simp_all add: dict_call_def)

text \<open>The function is given the key, or what is known of it, the extra data, and the value at a leaf. It is
  a function of these, as in all of its uses.\<close>

type_synonym traverse_func = "bit_ptr \<Rightarrow> nat \<Rightarrow> slice \<Rightarrow> slice option \<Rightarrow> int"

function dict_traverse_extra ::
  "augmentation \<Rightarrow> cell option \<Rightarrow> bit_ptr \<Rightarrow> nat \<Rightarrow> nat \<Rightarrow> traverse_func \<Rightarrow> traverse_error + (slice \<times> slice) option \<times> byte list" where
  "dict_traverse_extra aug dict key_buffer n m traverse_node =
     (if dict = None then Inl (Dict_error Assertion)
      else
        bind_err (dict_call (label_of_cell dict n chk_size)) (\<lambda>label.
          let l = l_bits label; (buf, label) = extract_label_to label key_buffer; offs = snd key_buffer + l; k = n - l
          in if k = 0 then
               (case aug_decompose_value_extra aug (Some (l_remainder label)) of
                  None \<Rightarrow> Inl (Dict_error (Vm_error Excno_dict_err))
                | Some (val, extra) \<Rightarrow>
                    let r = traverse_node (buf, offs - m) m extra (Some val)
                    in if r < 0 then Inl (Combine_value r)
                       else if r > 0 then Inr (Some (val, extra), buf)
                       else Inr (None, buf))
             else
               let (c1, remainder) = fetch_ref (l_remainder label); (c2, remainder) = fetch_ref remainder;
                   r = traverse_node (buf, offs + k - m) (m - k) remainder None
               in if r < 0 \<or> r AND 3 = 3 then Inl (Combine_value r)
                  else if r AND 3 = 0 then Inr (None, buf)
                  else
                    let sw = (r AND 1 \<noteq> 0); (c1, c2) = (if sw then (c2, c1) else (c1, c2))
                    in bind_err
                         (if r AND 4 \<noteq> 0
                          then dict_traverse_extra aug c1 (ptr_set_bit (buf, offs) 0 sw, offs + 1) (n - l - 1) m traverse_node
                          else Inr (None, buf)) (\<lambda>(tmp, buf).
                         if tmp \<noteq> None then Inr (tmp, buf)
                         else dict_traverse_extra aug c2 (ptr_set_bit (buf, offs) 0 (\<not> sw), offs + 1) (n - l - 1) m traverse_node)))"
  by pat_completeness auto
termination
  by (relation "measure (\<lambda>(aug, dict, key_buffer, n, m, traverse_node). n)") auto

declare dict_traverse_extra.simps [simp del]

definition traverse_extra ::
  "augmentation \<Rightarrow> (byte list \<Rightarrow> byte list) \<Rightarrow> dict \<Rightarrow> bit_ptr \<Rightarrow> nat \<Rightarrow> traverse_func
     \<Rightarrow> traverse_error + ((slice \<times> slice) option \<times> byte list) \<times> dict" where
  "traverse_extra aug sha256 d key_buffer key_len traverse_node =
     bind_err (dict_call (aug_force_validate aug sha256 d)) (\<lambda>d.
       if int key_len \<noteq> d_key_bits d \<or> dict_is_empty d then Inr ((None, fst key_buffer), d)
       else bind_err (dict_traverse_extra aug (d_root_cell d) key_buffer key_len (nat (d_key_bits d)) traverse_node)
         (\<lambda>r. Inr (r, d)))"

section \<open>A guide\<close>

text \<open>The caller looks for entries that satisfy \<open>A\<close>, and wants the first one in the order of the keys, or the
  last one. The function is a guide to them when it accepts the leaves that satisfy \<open>A\<close>, never turns away
  from a branch with such a leaf, and keeps the order of the branches.\<close>

definition none_of :: "(bool list \<Rightarrow> dict_val \<Rightarrow> bool) \<Rightarrow> bool list \<Rightarrow> dict_entry list \<Rightarrow> bool" where
  "none_of A p es \<longleftrightarrow> (\<forall>(k, v) \<in> set es. \<not> A (p @ k) v)"

definition wanted :: "bool \<Rightarrow> (bool list \<Rightarrow> dict_val \<Rightarrow> bool) \<Rightarrow> bool list \<Rightarrow> dict_entry list \<Rightarrow> dict_entry option" where
  "wanted fwd A p es = List.find (\<lambda>(k, v). A (p @ k) v) (if fwd then es else rev es)"

lemma find_append: "List.find P (xs @ ys) = (case List.find P xs of None \<Rightarrow> List.find P ys | Some x \<Rightarrow> Some x)"
  by (induction xs) auto

lemma find_map_pre: "List.find P (pre q es) = map_option (\<lambda>(k, v). (q @ k, v)) (List.find (\<lambda>(k, v). P (q @ k, v)) es)"
  by (induction es) (auto simp: pre_def)

definition under_label :: "bool list \<Rightarrow> dict_entry option \<Rightarrow> dict_entry option" where
  "under_label ls = map_option (\<lambda>(k, v). (ls @ k, v))"

lemma wanted_label: "wanted fwd A Q (pre ls es) = under_label ls (wanted fwd A (Q @ ls) es)"
proof -
  have "rev (pre ls es) = pre ls (rev es)" by (simp add: pre_def rev_map)
  then show ?thesis by (simp add: wanted_def under_label_def find_map_pre)
qed

lemma wanted_append:
  "wanted fwd A Q (xs @ ys) = (case wanted fwd A Q (if fwd then xs else ys) of
     None \<Rightarrow> wanted fwd A Q (if fwd then ys else xs) | Some e \<Rightarrow> Some e)"
  by (cases fwd) (simp_all add: wanted_def find_append cong: option.case_cong)

text \<open>The entries on a side of a fork.\<close>

definition wanted_at :: "bool \<Rightarrow> (bool list \<Rightarrow> dict_val \<Rightarrow> bool) \<Rightarrow> bool list \<Rightarrow> dict_entry list \<Rightarrow> dict_entry list \<Rightarrow> bool \<Rightarrow> dict_entry option" where
  "wanted_at fwd A p ea eb s = under_label [s] (wanted fwd A (p @ [s]) (if s then eb else ea))"

lemma wanted_fork:
  "wanted fwd A p (pre [False] ea @ pre [True] eb) =
     (case wanted_at fwd A p ea eb (\<not> fwd) of None \<Rightarrow> wanted_at fwd A p ea eb fwd | Some e \<Rightarrow> Some e)"
  by (cases fwd) (simp_all add: wanted_append wanted_label wanted_at_def cong: option.case_cong)

lemma none_of_wanted: "none_of A p es \<Longrightarrow> wanted fwd A p es = None"
  by (auto simp: none_of_def wanted_def find_None_iff)

definition guided :: "bool \<Rightarrow> (bool list \<Rightarrow> dict_val \<Rightarrow> bool) \<Rightarrow> bool list \<Rightarrow> dict_entry list \<Rightarrow> dict_entry list \<Rightarrow> int \<Rightarrow> bool" where
  "guided fwd A p ea eb r \<longleftrightarrow>
     r \<in> {0, 1, 2, if fwd then 6 else 5}
     \<and> (r = 0 \<or> r = 1 \<longrightarrow> none_of A (p @ [True]) eb) \<and> (r = 0 \<or> r = 2 \<longrightarrow> none_of A (p @ [False]) ea)"

text \<open>What a search hands out: the entry that is wanted, with its extra data, and its key in the buffer.\<close>

definition hands_out :: "(dict_val \<Rightarrow> dict_val) \<Rightarrow> bool list \<Rightarrow> nat \<Rightarrow> dict_entry option \<Rightarrow> (slice \<times> slice) option \<times> byte list \<Rightarrow> bool" where
  "hands_out le Q room w r \<longleftrightarrow>
     holds (snd r) Q \<and> length (snd r) = room
     \<and> (case w of
          None \<Rightarrow> fst r = None
        | Some (k, v) \<Rightarrow> \<exists>val extra. fst r = Some (val, extra) \<and> slice_ok val \<and> content val = v \<and> slice_ok extra \<and> content extra = le v
            \<and> holds (snd r) (Q @ k))"

lemma hands_out_label:
  "hands_out le (Q @ ls) room w r \<Longrightarrow> hands_out le Q room (under_label ls w) r"
  using holds_prefix [of "snd r" Q ls] by (auto simp: hands_out_def under_label_def split: option.splits)

locale traverse_guide = augmentation_laws +
  fixes visit :: traverse_func
    and m :: nat
    and fwd :: bool
    and A :: "bool list \<Rightarrow> dict_val \<Rightarrow> bool"
    and answer :: "bool list \<Rightarrow> dict_val \<Rightarrow> dict_val option \<Rightarrow> int"
  assumes visit_answer: "\<lbrakk>slice_ok e; ptr_ok key l; l \<le> m; is_extra (content e)\<rbrakk>
      \<Longrightarrow> visit key l e w = answer (ptr_bits key l) (content e) (map_option content w)"
    and leaf_guide: "\<lbrakk>length k = m; is_extra (leafE v)\<rbrakk> \<Longrightarrow> 0 \<le> answer k (leafE v) (Some v) \<and> (0 < answer k (leafE v) (Some v) \<longleftrightarrow> A k v)"
    and fork_guide: "\<lbrakk>length p + 1 + n = m; aug_rep leafE forkE is_extra n a ea xa; aug_rep leafE forkE is_extra n b eb xb\<rbrakk>
      \<Longrightarrow> guided fwd A p ea eb (answer p (forkE xa xb) None)"
begin

lemma open_aug_node:
  assumes rep: "aug_rep leafE forkE is_extra n c es x" and h: "holds buf Q" and room: "length Q + n \<le> 8 * length buf" and n: "n < 2 ^ 31"
  obtains (leaf) lab buf1 lab1 ls v where "label_of_cell (Some c) n chk_size = Inr lab" "l_bits lab = n"
      "extract_label_to lab (buf, length Q) = (buf1, lab1)" "length ls = n" "es = [(ls, v)]" "x = leafE v"
      "holds buf1 (Q @ ls)" "length buf1 = length buf" "slice_ok (l_remainder lab1)" "content (l_remainder lab1) = joined x v"
    | (fork) lab buf1 lab1 ls a b ea eb xa xb where "label_of_cell (Some c) n chk_size = Inr lab" "l_bits lab = length ls"
      "extract_label_to lab (buf, length Q) = (buf1, lab1)" "length ls < n" "x = forkE xa xb"
      "aug_rep leafE forkE is_extra (n - length ls - 1) a ea xa" "aug_rep leafE forkE is_extra (n - length ls - 1) b eb xb"
      "es = pre ls (pre [False] ea @ pre [True] eb)" "holds buf1 (Q @ ls)" "length buf1 = length buf"
      "slice_ok (l_remainder lab1)" "content (l_remainder lab1) = (fst x, a # b # snd x)"
proof -
  have opened: "holds buf1 (Q @ ls)" "length buf1 = length buf" "slice_ok (l_remainder lab1)" "content (l_remainder lab1) = (rest, refs)"
    if "label_view lab ls rest refs" "length ls \<le> n" "extract_label_to lab (buf, length Q) = (buf1, lab1)" for lab ls rest refs buf1 lab1
  proof -
    have "ptr_ok (buf, length Q) (length ls)" using room that(2) by (simp add: ptr_ok_def)
    note X = extract_label_rest [OF that(1) this, unfolded that(3) fst_conv snd_conv]
    show "length buf1 = length buf" "slice_ok (l_remainder lab1)" "content (l_remainder lab1) = (rest, refs)"
      using X by (simp_all add: content_def)
    show "holds buf1 (Q @ ls)" using holds_extract [OF h _ _] X(1,2) room that(2) by simp
  qed
  from rep show ?thesis
  proof cases
    case (aug_leaf ls v)
    obtain lab where L: "label_of_cell (Some c) n chk_size = Inr lab" "label_view lab ls (fst (joined x v)) (snd (joined x v))"
      "l_bits lab = length ls" "length ls \<le> n" using aug_node_opened [OF aug_leaf(3) n] aug_leaf(4) by blast
    obtain buf1 lab1 where e: "extract_label_to lab (buf, length Q) = (buf1, lab1)" by fastforce
    show ?thesis using leaf [OF L(1) _ e aug_leaf(4,1,2)] opened [OF L(2,4) e] L(3) aug_leaf(4) by simp
  next
    case (aug_fork ls ea eb xa xb a b)
    obtain lab where L: "label_of_cell (Some c) n chk_size = Inr lab" "label_view lab ls (fst x) (a # b # snd x)"
      "l_bits lab = length ls" "length ls \<le> n" using aug_node_opened [OF aug_fork(3) n] by auto
    obtain buf1 lab1 where e: "extract_label_to lab (buf, length Q) = (buf1, lab1)" by fastforce
    show ?thesis using fork [OF L(1,3) e aug_fork(4,2,5,6,1)] opened [OF L(2,4) e] by blast
  qed
qed

text \<open>What becomes of the answer at a fork: one branch is searched, or both in the order of the guide.\<close>

lemma guided_run:
  assumes r: "guided fwd A p ea eb r" and hb: "holds buf p" "length buf = room"
    and child: "\<And>s buf. holds buf p \<Longrightarrow> length buf = room \<Longrightarrow> \<exists>y. run s buf = Inr y \<and> hands_out leafE p room (wanted_at fwd A p ea eb s) y"
  shows "\<exists>y. (if r < 0 \<or> r AND 3 = 3 then Inl (Combine_value r)
       else if r AND 3 = 0 then Inr (None, buf)
       else bind_err (if r AND 4 \<noteq> 0 then run (r AND 1 \<noteq> 0) buf else Inr (None, buf))
         (\<lambda>(tmp, buf). if tmp \<noteq> None then Inr (tmp, buf) else run (\<not> (r AND 1 \<noteq> 0)) buf))
     = Inr y \<and> hands_out leafE p room (wanted fwd A p (pre [False] ea @ pre [True] eb)) y"
proof -
  let ?w = "wanted_at fwd A p ea eb"
  have none: "?w True = None" if "r = 0 \<or> r = 1"
    using r that none_of_wanted [of A "p @ [True]" eb fwd] by (auto simp: guided_def wanted_at_def under_label_def)
  have none': "?w False = None" if "r = 0 \<or> r = 2"
    using r that none_of_wanted [of A "p @ [False]" ea fwd] by (auto simp: guided_def wanted_at_def under_label_def)
  consider "r = 0" | "r = 1" | "r = 2" | "r = (if fwd then 6 else 5)" using r by (auto simp: guided_def)
  then show ?thesis
  proof cases
    case 1
    then have "wanted fwd A p (pre [False] ea @ pre [True] eb) = None" using none none' unfolding wanted_fork by (cases fwd) simp_all
    then show ?thesis using 1 hb by (simp add: hands_out_def)
  next
    case 2
    then have "wanted fwd A p (pre [False] ea @ pre [True] eb) = ?w False" using none unfolding wanted_fork by (cases fwd) (auto split: option.splits)
    then show ?thesis using 2 child [OF hb, of False] by simp
  next
    case 3
    then have "wanted fwd A p (pre [False] ea @ pre [True] eb) = ?w True" using none' unfolding wanted_fork by (cases fwd) (auto split: option.splits)
    then show ?thesis using 3 child [OF hb, of True] by simp
  next
    case 4
    obtain y where y: "run (\<not> fwd) buf = Inr y" "hands_out leafE p room (?w (\<not> fwd)) y" using child [OF hb, of "\<not> fwd"] by blast
    obtain tmp buf1 where e: "y = (tmp, buf1)" by (cases y)
    have sw: "\<not> (r < 0 \<or> r AND 3 = 3)" "r AND 3 \<noteq> 0" "(r AND 1 \<noteq> 0) = (\<not> fwd)" "r AND 4 \<noteq> 0" using 4 by (cases fwd; simp)+
    have hb1: "holds buf1 p" "length buf1 = room" using y(2) by (simp_all add: hands_out_def e)
    obtain z where z: "run fwd buf1 = Inr z" "hands_out leafE p room (?w fwd) z" using child [OF hb1, of fwd] by blast
    have t: "tmp \<noteq> None \<longleftrightarrow> ?w (\<not> fwd) \<noteq> None" using y(2) by (auto simp: hands_out_def e split: option.splits)
    show ?thesis unfolding if_not_P [OF sw(1)] if_not_P [OF sw(2)] sw(3) if_P [OF sw(4)] y(1) e bind_err_simps prod.case not_not z(1) wanted_fork
      using t y(2) z(2) by (cases "?w (\<not> fwd)") (simp_all add: e)
  qed
qed

lemma dict_traverse_extra_ok:
  assumes "aug_rep leafE forkE is_extra n c es x" and "holds buf Q" and "length Q + n = m" and "m \<le> 8 * length buf" and "m < 2 ^ 31"
  shows "\<exists>y. dict_traverse_extra aug (Some c) (buf, length Q) n m visit = Inr y \<and> hands_out leafE Q (length buf) (wanted fwd A Q es) y"
  using assms
proof (induction n arbitrary: c es x buf Q rule: less_induct)
  case (less n)
  have n: "n < 2 ^ 31" "length Q + n \<le> 8 * length buf" using less.prems(3,4,5) by simp_all
  have ne: "Some c \<noteq> None" by simp
  note unf = dict_traverse_extra.simps [of aug "Some c", unfolded if_not_P [OF ne]]
  from less.prems(1,2) n(2,1) show ?case
  proof (cases rule: open_aug_node)
    case (leaf lab buf1 lab1 ls v)
    have x: "is_extra (leafE v)" using aug_rep_extra [OF less.prems(1)] leaf(6) by simp
    have rem: "value_of (Some (l_remainder lab1)) = map_option (with_extra leafE) (Some v)" "value_ok (Some (l_remainder lab1))"
      using leaf(9,10) leaf(6) by (simp_all add: value_of_def value_ok_def with_extra_def content_def)
    obtain val extra where d: "aug_decompose_value_extra aug (Some (l_remainder lab1)) = Some (val, extra)" "content val = v"
      "content extra = leafE v" "slice_ok val" "slice_ok extra"
      using decompose_ok [OF rem] x by (auto split: option.splits)
    have key: "ptr_bits (buf1, 0) m = Q @ ls" "ptr_ok (buf1, 0) m"
      using holds_ptr(2) [OF leaf(7), of 0] leaf(4,8) less.prems(3,4) by (simp_all add: ptr_ok_def)
    have offs: "length Q + n - m = 0" using less.prems(3) by simp
    have ans: "visit (buf1, length Q + n - m) m extra (Some val) = answer (Q @ ls) (leafE v) (Some v)"
      unfolding offs using visit_answer [OF d(5) key(2) order.refl, of "Some val"] x d(2,3) key(1) by simp
    have g: "0 \<le> answer (Q @ ls) (leafE v) (Some v)" "0 < answer (Q @ ls) (leafE v) (Some v) \<longleftrightarrow> A (Q @ ls) v"
      using leaf_guide [OF _ x, of "Q @ ls"] leaf(4) less.prems(3) by simp_all
    have run: "dict_traverse_extra aug (Some c) (buf, length Q) n m visit =
        Inr (if A (Q @ ls) v then Some (val, extra) else None, buf1)"
      unfolding unf leaf(1) dict_call_simps bind_err_simps Let_def leaf(2) leaf(3) prod.case fst_conv snd_conv diff_self_eq_0 if_P [OF refl] d(1)
        option.case ans using g by simp
    have "holds buf1 Q" using holds_prefix [OF leaf(7)] .
    then show ?thesis unfolding run leaf(5) using d leaf(7,8)
      by (auto simp: hands_out_def wanted_def)
  next
    case (fork lab buf1 lab1 ls a b ea eb xa xb)
    define k where "k = n - length ls - 1"
    define q where "q = length Q + length ls"
    have lens: "length (Q @ ls) + 1 + k = m" "n - length ls \<noteq> 0" "q + (n - length ls) - m = 0" "m - (n - length ls) = length (Q @ ls)" "k < n"
      using fork(4) less.prems(3) by (simp_all add: k_def q_def)
    have G: "guided fwd A (Q @ ls) ea eb (answer (Q @ ls) (forkE xa xb) None)"
      by (rule fork_guide [OF lens(1)]) (use fork(6,7) in \<open>simp_all add: k_def\<close>)
    have kids: "slice_children (l_remainder lab1) = a # b # snd x" "slice_bits (l_remainder lab1) = fst x" using fork(12) by (simp_all add: content_def)
    obtain rem1 where r1: "fetch_ref (l_remainder lab1) = (Some a, rem1)" "slice_children rem1 = b # snd x" "reads (l_remainder lab1) 0 1 rem1"
      using fetch_ref_eq [OF fork(11)] kids by (cases "fetch_ref (l_remainder lab1)") (auto split: option.splits)
    have ok1: "slice_ok rem1" "slice_bits rem1 = fst x" using reads_ok [OF r1(3)] r1(3) kids(2) by (simp_all add: reads_def)
    obtain rem2 where r2: "fetch_ref rem1 = (Some b, rem2)" "slice_children rem2 = snd x" "reads rem1 0 1 rem2"
      using fetch_ref_eq [OF ok1(1)] r1(2) by (cases "fetch_ref rem1") (auto split: option.splits)
    have ok2: "slice_ok rem2" "content rem2 = x" using reads_ok [OF r2(3)] r2(2,3) ok1(2) by (simp_all add: reads_def content_def)
    have key: "ptr_bits (buf1, 0) (length (Q @ ls)) = Q @ ls" "ptr_ok (buf1, 0) (length (Q @ ls))"
      using holds_ptr(2) [OF fork(9), of 0] fork(9) by (simp_all add: ptr_ok_def holds_def)
    have "length (Q @ ls) \<le> m" using lens(1) by simp
    from visit_answer [OF ok2(1) key(2) this, of None] aug_rep_extra [OF less.prems(1)]
    have ans: "visit (buf1, 0) (length (Q @ ls)) rem2 None = answer (Q @ ls) (forkE xa xb) None" using ok2(2) key(1) fork(5) by simp
    define run where "run = (\<lambda>s buf. dict_traverse_extra aug (Some (if s then b else a)) (ptr_set_bit (buf, q) 0 s, q + 1) k m visit)"
    have child: "\<exists>y. run s buf' = Inr y \<and> hands_out leafE (Q @ ls) (length buf) (wanted_at fwd A (Q @ ls) ea eb s) y"
      if "holds buf' (Q @ ls)" "length buf' = length buf" for s buf'
    proof -
      define Q1 where "Q1 = Q @ ls @ [s]"
      define buf2 where "buf2 = ptr_set_bit (buf', q) 0 s"
      have room: "length (Q @ ls) < 8 * length buf'" using lens(1) less.prems(4) that(2) by simp
      have h: "holds buf2 Q1" using holds_set_bit [OF that(1) room, of s] by (simp add: buf2_def Q1_def q_def)
      have l: "length buf2 = length buf" using that(2) by (simp add: buf2_def)
      have q1: "length Q1 = q + 1" "length Q1 + k = m" using lens(1) by (simp_all add: Q1_def q_def)
      have rep: "aug_rep leafE forkE is_extra k (if s then b else a) (if s then eb else ea) (if s then xb else xa)"
        using fork(6,7) by (simp add: k_def)
      from less.IH [OF lens(5) rep h q1(2) _ less.prems(5)] less.prems(4) l
      obtain y where y: "dict_traverse_extra aug (Some (if s then b else a)) (buf2, length Q1) k m visit = Inr y"
        "hands_out leafE Q1 (length buf) (wanted fwd A Q1 (if s then eb else ea)) y" by auto
      from hands_out_label [of leafE "Q @ ls" "[s]" "length buf" "wanted fwd A Q1 (if s then eb else ea)" y] y(2)
      have "hands_out leafE (Q @ ls) (length buf) (wanted_at fwd A (Q @ ls) ea eb s) y" by (simp add: wanted_at_def Q1_def)
      moreover have "run s buf' = Inr y" using y(1) by (simp add: run_def buf2_def q1(1))
      ultimately show ?thesis by blast
    qed
    let ?r = "answer (Q @ ls) (forkE xa xb) None"
    have pair: "(if t then (Some b, Some a) else (Some a, Some b)) = (Some (if t then b else a), Some (if t then a else b))" for t by simp
    have step: "dict_traverse_extra aug (Some c) (buf, length Q) n m visit =
        (if ?r < 0 \<or> ?r AND 3 = 3 then Inl (Combine_value ?r)
         else if ?r AND 3 = 0 then Inr (None, buf1)
         else bind_err (if ?r AND 4 \<noteq> 0 then run (?r AND 1 \<noteq> 0) buf1 else Inr (None, buf1))
           (\<lambda>(tmp, buf). if tmp \<noteq> None then Inr (tmp, buf) else run (\<not> (?r AND 1 \<noteq> 0)) buf))"
      unfolding unf fork(1) dict_call_simps bind_err_simps Let_def fork(2) fork(3) prod.case fst_conv snd_conv if_not_P [OF lens(2)]
        r1(1) r2(1) q_def [symmetric] lens(3,4) ans pair k_def [symmetric] run_def
      by (simp cong: if_cong)
    from guided_run [where run = run, OF G fork(9,10) child]
    obtain y where y: "dict_traverse_extra aug (Some c) (buf, length Q) n m visit = Inr y"
      "hands_out leafE (Q @ ls) (length buf) (wanted fwd A (Q @ ls) (pre [False] ea @ pre [True] eb)) y"
      unfolding step [symmetric] by blast
    have "hands_out leafE Q (length buf) (wanted fwd A Q es) y" unfolding fork(8) wanted_label by (rule hands_out_label [OF y(2)])
    then show ?thesis using y(1) by blast
  qed
qed

theorem traverse_extra_ok:
  assumes d: "aug_inv leafE forkE emptyE is_extra d m es x" and buf: "m \<le> 8 * length buf"
  shows "\<exists>y. traverse_extra aug sha256 d (buf, 0) m visit = Inr (y, d) \<and> hands_out leafE [] (length buf) (wanted fwd A [] es) y"
proof -
  have i: "dict_is_valid d" "d_key_bits d = int m" "root_extra leafE forkE emptyE is_extra m (d_root_cell d) es x" "m < 2 ^ 31"
    using d by (simp_all add: aug_inv_def)
  show ?thesis
  proof (cases "d_root_cell d")
    case None
    then show ?thesis using i by (simp add: traverse_extra_def dict_is_empty_def root_extra_def hands_out_def wanted_def)
  next
    case (Some c)
    then have rep: "aug_rep leafE forkE is_extra m c es x" using i by (simp add: root_extra_def)
    obtain y where y: "dict_traverse_extra aug (Some c) (buf, 0) m m visit = Inr y" "hands_out leafE [] (length buf) (wanted fwd A [] es) y"
      using dict_traverse_extra_ok [OF rep holds_nil _ buf i(4)] by auto
    then show ?thesis using i Some by (auto simp: traverse_extra_def dict_is_empty_def)
  qed
qed

end

end
