(* ===== verification/Aug_Checks.thy ===== *)
theory Aug_Checks
  imports Aug_Root
begin

text \<open>
  The tests that the validation of an augmented dictionary makes of its nodes, and the two variants of
  \<open>set\<close> that take a reference or a builder: both store whatever their mode says.
\<close>

context augmentation_laws
begin

section \<open>Tests\<close>

lemma aug_check_leaf_sound:
  assumes cs: "slice_ok cs" "content cs = joined x v" and x: "is_extra x" and v: "\<forall>r \<in> set (snd v). wf_cell r"
    and ok: "fst (aug_dict_check_leaf aug cs key n)"
  shows "same_extra (leafE v) x"
proof -
  obtain s' where S: "skip_extra aug cs = (True, s')" "slice_ok s'" "content s' = v" "fst (cut_tail cs s')"
    "slice_ok (snd (cut_tail cs s'))" "content (snd (cut_tail cs s')) = x"
    using skip_extra_ok [OF cs x] .
  have "s_cell cs \<noteq> None" using ok by (auto simp: aug_dict_check_leaf_def extract_extra_to_def Let_def split: if_splits)
  then have e: "extract_extra_to aug cs = (True, s', snd (cut_tail cs s'))" using S(1,4) by (simp add: extract_extra_to_def case_prod_beta)
  obtain cb t where l: "eval_leaf aug empty_builder s' = (True, cb, t)" "builder_contents_equal cb (snd (cut_tail cs s'))"
    using ok by (auto simp: aug_dict_check_leaf_def e aug_check_leaf_key_extra_def aug_check_leaf_def split: prod.splits)
  have "\<forall>r \<in> set (slice_children s'). wf_cell r" using v unfolding S(3) [symmetric] by (simp add: content_def)
  from eval_leaf_adds [OF builder_ok_empty S(2) this l(1)] S(3) have a: "added empty_builder (leafE v) cb" by simp
  then have "builder_ok cb" "builder_out cb = fst (leafE v)" "b_refs cb = snd (leafE v)" using fresh_empty by (simp_all add: added_def fresh_def)
  then show ?thesis using builder_contents_equal_eq [of cb] S(5,6) l(2) by (auto simp: same_extra_def content_def)
qed

lemma aug_check_fork_sound:
  assumes cs: "slice_ok cs" "content cs = x" and n: "n < 2 ^ 31"
    and a: "aug_rep leafE forkE is_extra (n - 1) a ea xa" and b: "aug_rep leafE forkE is_extra (n - 1) b eb xb"
    and ok: "aug_dict_check_fork aug sha256 cs (Some a) (Some b) n = Inr True"
  shows "same_extra (forkE xa xb) x"
proof -
  have m: "n - 1 < 2 ^ 31" using n by simp
  obtain e1 where e1: "aug_get_node_extra aug sha256 (Some a) (n - 1) = Inr (Some e1)" "slice_ok e1" "content e1 = xa"
    by (rule get_node_extra_ok [OF a m])
  obtain e2 where e2: "aug_get_node_extra aug sha256 (Some b) (n - 1) = Inr (Some e2)" "slice_ok e2" "content e2 = xb"
    by (rule get_node_extra_ok [OF b m])
  obtain cb where l: "eval_fork aug empty_builder e1 e2 = (True, cb)" "builder_contents_equal cb cs"
    using ok e1(1) e2(1) by (auto simp: aug_dict_check_fork_def aug_check_fork_def split: if_splits prod.splits)
  have "is_extra (content e1)" "is_extra (content e2)" using aug_rep_extra [OF a] aug_rep_extra [OF b] e1 e2 by simp_all
  from eval_fork_adds [OF builder_ok_empty e1(2) e2(2) this l(1)] have "added empty_builder (forkE xa xb) cb" using e1(3) e2(3) by simp
  then have "builder_ok cb" "builder_out cb = fst (forkE xa xb)" "b_refs cb = snd (forkE xa xb)"
    using fresh_empty by (simp_all add: added_def fresh_def)
  then show ?thesis using builder_contents_equal_eq [of cb, OF _ cs(1)] cs(2) l(2) by (auto simp: same_extra_def content_def)
qed

section \<open>The variants of set\<close>

theorem aug_set_builder_ok:
  assumes d: "aug_inv leafE forkE emptyE is_extra d n es x" and key: "ptr_ok key n"
    and b: "builder_ok b" "\<forall>r \<in> set (b_refs b). wf_cell r" and sha: "\<And>x. length (sha256 x) = hash_bytes"
  shows "aug_ok (aug_obj_set_result leafE forkE emptyE is_extra Mode_Set n es (ptr_bits key n) (builder_out b, b_refs b))
     (aug_set_builder aug sha256 d key n b mode)"
proof (cases "finalize sha256 b False")
  case (Inl e)
  then show ?thesis by (simp add: aug_set_builder_def finalize_copy_eq aug_ok_def)
next
  case (Inr c)
  have F: "dict_finalize sha256 b = Inr (c, snd (finalize_novm sha256 b False))"
    using Inr by (auto simp: dict_finalize_def finalize_def split: prod.splits sum.splits)
  note O = finalize_ordinary(1-3) [OF F b(1) sha b(2)]
  obtain s where s: "load_cell_slice_ref (Some c) = Inr s" "slice_ok s" "slice_bits s = builder_out b" "slice_children s = b_refs b"
    using load_ordinary [OF O(1)] O(2,3) by auto
  have "aug_val_ok s" using s b(2) by (simp add: aug_val_ok_def)
  from aug_set_ok [OF d key this sha, of Mode_Set] show ?thesis
    using Inr s by (simp add: aug_set_builder_def finalize_copy_eq content_def)
qed

text \<open>Whatever the mode, a key that is there is overwritten and one that is not is stored.\<close>

corollary aug_set_builder_ignores_mode:
  assumes d: "aug_inv leafE forkE emptyE is_extra d n es x" and key: "ptr_ok key n"
    and b: "builder_ok b" "\<forall>r \<in> set (b_refs b). wf_cell r" and sha: "\<And>x. length (sha256 x) = hash_bytes"
  shows "aug_ok (\<lambda>r. fst r \<and> (\<exists>es' x'. aug_inv leafE forkE emptyE is_extra (snd r) n es' x'
       \<and> map_of es' = (map_of es)(ptr_bits key n \<mapsto> (builder_out b, b_refs b))))
     (aug_set_builder aug sha256 d key n b mode)"
proof (rule aug_ok_mono [OF aug_set_builder_ok [OF d key b sha]])
  fix r :: "bool \<times> dict"
  assume R: "aug_obj_set_result leafE forkE emptyE is_extra Mode_Set n es (ptr_bits key n) (builder_out b, b_refs b) r"
  have f: "fst r" using R by (simp add: aug_obj_set_result_def)
  from R [unfolded aug_obj_set_result_def if_P [OF f]]
  have "\<exists>es' x'. aug_inv leafE forkE emptyE is_extra (snd r) n es' x' \<and> map_of es' = (map_of es)(ptr_bits key n \<mapsto> (builder_out b, b_refs b))"
    by (rule conjunct2)
  with f show "fst r \<and> (\<exists>es' x'. aug_inv leafE forkE emptyE is_extra (snd r) n es' x'
       \<and> map_of es' = (map_of es)(ptr_bits key n \<mapsto> (builder_out b, b_refs b)))" by (rule conjI)
qed

end

end
