(* ===== verification/Old_Blocks.thy ===== *)
theory Old_Blocks
  imports Aug_Checks
begin

text \<open>
  The dictionary of the old masterchain blocks: its augmentation \<open>Aug_OldMcBlocksInfo\<close> of
  \<open>crypto/block/block-parse.h\<close> and \<open>block-parse.cpp\<close>. The key of the dictionary is the number of a
  block; the value begins with the mark of a key block and the logical time at which the block ends; the
  extra data says whether there is a key block among the blocks below, and the greatest of their times.
\<close>

unbundle bit_operations_syntax

section \<open>The code\<close>

definition key_max_lt_size :: nat where "key_max_lt_size = 1 + 64"

text \<open>\<open>TLB::skip\<close> of \<open>crypto/tl/tlblib.hpp\<close>, for this type.\<close>

definition key_max_lt_skip :: "slice \<Rightarrow> bool \<times> slice" where
  "key_max_lt_skip cs = skip_packed cs (of_nat key_max_lt_size)"

definition key_max_lt_null_value :: "builder \<Rightarrow> bool \<times> builder" where
  "key_max_lt_null_value cb = store_bits_same_bool cb key_max_lt_size False"

definition key_max_lt_add_values :: "builder \<Rightarrow> slice \<Rightarrow> slice \<Rightarrow> bool \<times> builder" where
  "key_max_lt_add_values cb cs1 cs2 =
     (case fetch_bool_to cs1 of
        (True, Some key1, cs1) \<Rightarrow>
          (case fetch_ulong_bool cs1 64 of
             (True, Some lt1, cs1) \<Rightarrow>
               (case fetch_bool_to cs2 of
                  (True, Some key2, cs2) \<Rightarrow>
                    (case fetch_ulong_bool cs2 64 of
                       (True, Some lt2, cs2) \<Rightarrow>
                         let (ok, cb) = store_bool_bool cb (key1 \<or> key2)
                         in if \<not> ok then (False, cb) else store_long_bool cb (max lt1 lt2) 64
                     | _ \<Rightarrow> (False, cb))
                | _ \<Rightarrow> (False, cb))
           | _ \<Rightarrow> (False, cb))
      | _ \<Rightarrow> (False, cb))"

definition append_bitslice :: "builder \<Rightarrow> (byte list \<times> nat \<times> nat) option \<Rightarrow> bool \<times> builder" where
  "append_bitslice cb bs = (case bs of None \<Rightarrow> store_bits_bool cb [] 0 0 | Some (m, offs, n) \<Rightarrow> store_bits_bool cb m n offs)"

definition old_mc_blocks_eval_leaf :: "builder \<Rightarrow> slice \<Rightarrow> bool \<times> builder \<times> slice" where
  "old_mc_blocks_eval_leaf cb cs =
     (if slice_have cs 65 then let (ok, cb) = append_bitslice cb (prefetch_bits cs 65) in (ok, cb, cs) else (False, cb, cs))"

text \<open>\<open>AugmentationCheckData\<close> takes the other functions from the type of the extra data.\<close>

definition aug_OldMcBlocksInfo :: augmentation where
  "aug_OldMcBlocksInfo =
     \<lparr>skip_extra = key_max_lt_skip, eval_leaf = old_mc_blocks_eval_leaf, eval_fork = key_max_lt_add_values,
      eval_empty = key_max_lt_null_value\<rparr>"

section \<open>The extra data\<close>

definition key_flag :: "dict_val \<Rightarrow> bool" where
  "key_flag v \<longleftrightarrow> hd (fst v)"

definition block_lt :: "dict_val \<Rightarrow> u64" where
  "block_lt v = word_of_bits (take 64 (drop 1 (fst v)))"

definition key_lt :: "bool \<Rightarrow> u64 \<Rightarrow> dict_val" where
  "key_lt key lt = (key # low_bits 64 lt, [])"

definition is_key_lt :: "dict_val \<Rightarrow> bool" where
  "is_key_lt x \<longleftrightarrow> length (fst x) = 65 \<and> snd x = []"

definition leaf_key_lt :: "dict_val \<Rightarrow> dict_val" where
  "leaf_key_lt v = (take 65 (fst v), [])"

definition max_key_lt :: "dict_val \<Rightarrow> dict_val \<Rightarrow> dict_val" where
  "max_key_lt x y = key_lt (key_flag x \<or> key_flag y) (max (block_lt x) (block_lt y))"

definition empty_key_lt :: dict_val where
  "empty_key_lt = (replicate 65 False, [])"

lemma key_lt_simps [simp]: "key_flag (key_lt key lt) = key" "block_lt (key_lt key lt) = lt" "is_key_lt (key_lt key lt)"
  by (simp_all add: key_flag_def key_lt_def block_lt_def is_key_lt_def word_of_low_bits take_bit_word_eq_self)

lemma key_lt_eq: "is_key_lt x \<Longrightarrow> x = key_lt (key_flag x) (block_lt x)"
proof -
  assume "is_key_lt x"
  then obtain b bs where x: "x = (b # bs, [])" "length bs = 64" by (cases x; cases "fst x") (auto simp: is_key_lt_def)
  then show ?thesis using low_bits_word_of_bits [of bs, where 'a = 64] by (simp add: key_lt_def key_flag_def block_lt_def)
qed

lemma key_lt_inject:
  assumes "key_lt key lt = key_lt key' lt'"
  shows "key = key' \<and> lt = lt'"
proof
  show "key = key'" using arg_cong [OF assms, of key_flag] by simp
  show "lt = lt'" using arg_cong [OF assms, of block_lt] by simp
qed

lemma same_extra_key_lt: "same_extra (key_lt key lt) (key_lt key' lt') \<longleftrightarrow> key = key' \<and> lt = lt'"
proof
  assume "same_extra (key_lt key lt) (key_lt key' lt')"
  then have "key_lt key lt = key_lt key' lt'" by (simp add: same_extra_def prod_eq_iff key_lt_def del: list.inject)
  then show "key = key' \<and> lt = lt'" by (rule key_lt_inject)
qed (simp add: same_extra_def)

lemma max_key_lt_assoc: "max_key_lt (max_key_lt x y) z = max_key_lt x (max_key_lt y z)"
  by (simp add: max_key_lt_def max.assoc disj_assoc)

section \<open>The laws\<close>

lemma fetch_key_lt:
  assumes s: "slice_ok s" and x: "is_key_lt (content s)"
  obtains s1 s2 where "fetch_bool_to s = (True, Some (key_flag (content s)), s1)"
    "fetch_ulong_bool s1 64 = (True, Some (block_lt (content s)), s2)"
proof -
  have len: "length (slice_bits s) = 65" using x by (simp add: is_key_lt_def content_def)
  then have n: "slice_size s = 65" using s by simp
  obtain b bs where b: "slice_bits s = b # bs" "length bs = 64" using len by (cases "slice_bits s") auto
  have le: "1 \<le> slice_size s" using n by simp
  have F: "fst (fetch_ulong s 1) = of_bool b" "reads s 1 0 (snd (fetch_ulong s 1))"
    using fetch_ulong_correct [OF s le] b by (simp_all add: word_of_bits_one)
  define s1 where "s1 = snd (fetch_ulong s 1)"
  have s1: "slice_ok s1" "slice_bits s1 = bs" using reads_ok [OF F(2)] F(2) b by (simp_all add: s1_def reads_def)
  then have n1: "slice_size s1 = 64" using b(2) slice_size_bits [OF s1(1)] by simp
  have le1: "64 \<le> slice_size s1" using n1 by simp
  have G: "fst (fetch_ulong s1 64) = word_of_bits bs" using fetch_ulong_correct(1) [OF s1(1) le1] s1(2) b(2) by simp
  show ?thesis
  proof (rule that)
    show "fetch_bool_to s = (True, Some (key_flag (content s)), s1)"
      using n F(1) b(1) by (simp add: fetch_bool_to_def slice_have_def case_prod_beta s1_def key_flag_def content_def)
    show "fetch_ulong_bool s1 64 = (True, Some (block_lt (content s)), snd (fetch_ulong s1 64))"
      using n1 G b by (simp add: fetch_ulong_bool_def slice_have_def case_prod_beta block_lt_def content_def)
  qed
qed

lemma added_by: "appends b (fst x) (snd x) (True, b') \<Longrightarrow> added b x b'"
  using appends_added [of b x "(True, b')"] by simp

lemma add_key_lt:
  assumes b: "builder_ok b" and s: "slice_ok s" "is_key_lt (content s)" and t: "slice_ok t" "is_key_lt (content t)"
    and r: "key_max_lt_add_values b s t = (True, b')"
  shows "added b (max_key_lt (content s) (content t)) b'"
proof -
  let ?key = "key_flag (content s) \<or> key_flag (content t)" and ?lt = "max (block_lt (content s)) (block_lt (content t))"
  obtain s1 s2 where S: "fetch_bool_to s = (True, Some (key_flag (content s)), s1)"
    "fetch_ulong_bool s1 64 = (True, Some (block_lt (content s)), s2)" by (rule fetch_key_lt [OF s])
  obtain t1 t2 where T: "fetch_bool_to t = (True, Some (key_flag (content t)), t1)"
    "fetch_ulong_bool t1 64 = (True, Some (block_lt (content t)), t2)" by (rule fetch_key_lt [OF t])
  obtain b1 where b1: "store_bool_bool b ?key = (True, b1)" "store_long_bool b1 ?lt 64 = (True, b')"
    using r by (cases "store_bool_bool b ?key") (auto simp: key_max_lt_add_values_def S T split: if_splits)
  have a1: "added b ([?key], []) b1" using added_by [of b "([?key], [])"] store_bool_bool_appends [OF b, of ?key] b1(1) by simp
  then have "builder_ok b1" by (simp add: added_def)
  then have "added b1 (low_bits 64 ?lt, []) b'" using added_by [of b1 "(low_bits 64 ?lt, [])"] store_long_bool_appends [of b1 64 ?lt] b1(2) by simp
  then show ?thesis using a1 by (simp add: added_def max_key_lt_def key_lt_def)
qed

interpretation old_blocks: augmentation_laws aug_OldMcBlocksInfo leaf_key_lt max_key_lt empty_key_lt is_key_lt
proof
  note defs = aug_OldMcBlocksInfo_def
  fix b b' s s' assume b: "builder_ok b" and s: "slice_ok s" and r: "eval_leaf aug_OldMcBlocksInfo b s = (True, b', s')"
  have h: "slice_have s 65" and st: "store_bits_bool b (slice_data s) 65 (bits_st s) = (True, b')"
    using r by (auto simp: defs old_mc_blocks_eval_leaf_def append_bitslice_def prefetch_bits_def split: if_splits prod.splits)
  then have n: "65 \<le> slice_size s" by (simp add: slice_have_def)
  have "bits_st s + 65 \<le> 8 * length (slice_data s)" using n slice_room [OF s] by simp
  from store_bits_bool_appends [OF b this] st
  have "appends b (take 65 (slice_bits s)) [] (True, b')" using n by (simp add: slice_bits_window)
  then show "added b (leaf_key_lt (content s)) b' \<and> is_key_lt (leaf_key_lt (content s))"
    using added_by [of b "(take 65 (slice_bits s), [])"] n s by (simp add: leaf_key_lt_def is_key_lt_def content_def)
next
  fix b s t b' assume "builder_ok b" "slice_ok s" "slice_ok t" "is_key_lt (content s)" "is_key_lt (content t)"
    "eval_fork aug_OldMcBlocksInfo b s t = (True, b')"
  then show "added b (max_key_lt (content s) (content t)) b' \<and> is_key_lt (max_key_lt (content s) (content t))"
    using add_key_lt by (simp add: aug_OldMcBlocksInfo_def max_key_lt_def)
next
  fix b b' assume "builder_ok b" "eval_empty aug_OldMcBlocksInfo b = (True, b')"
  then show "added b empty_key_lt b' \<and> is_key_lt empty_key_lt"
    using added_by [of b empty_key_lt] store_bits_same_bool_appends [of b 65 False]
    by (simp add: aug_OldMcBlocksInfo_def key_max_lt_null_value_def key_max_lt_size_def empty_key_lt_def is_key_lt_def)
next
  fix s x y assume s: "slice_ok s" "content s = joined x y" and x: "is_key_lt x"
  have b: "slice_bits s = fst x @ fst y" using s(2) by (simp add: content_def joined_def)
  have n: "65 \<le> slice_size s" using arg_cong [OF b, of length] s(1) x by (simp add: is_key_lt_def)
  have u: "unat (of_nat key_max_lt_size AND 0xffff :: u32) = 65" "unat (drop_bit 16 (of_nat key_max_lt_size) :: u32) = 0"
    by (simp_all add: key_max_lt_size_def)
  have e: "skip_extra aug_OldMcBlocksInfo s = slice_advance s 65"
    using n by (simp add: aug_OldMcBlocksInfo_def key_max_lt_skip_def skip_packed_def u skip_first_def slice_have2_def)
  show "\<exists>s'. skip_extra aug_OldMcBlocksInfo s = (True, s') \<and> reads s (length (fst x)) (length (snd x)) s'"
    using slice_advance_reads [OF s(1) n] x unfolding e by (cases "slice_advance s 65") (simp add: is_key_lt_def)
next
  fix b assume b: "builder_ok b" "b_bits b \<le> 1"
  then show "fst (eval_empty aug_OldMcBlocksInfo b)"
    using store_bits_same_bool_appends [of b 65 False]
    by (simp add: aug_OldMcBlocksInfo_def key_max_lt_null_value_def key_max_lt_size_def appends_def remaining_bits_def)
qed (simp_all add: is_key_lt_def)

end
