(* ===== verification/Block_Search.thy ===== *)
theory Block_Search
  imports Aug_Traverse Old_Blocks
begin

text \<open>
  Looking for old masterchain blocks: by number (\<open>get_old_mc_block_id\<close> and \<open>check_old_mc_block_id\<close> of
  \<open>crypto/block/block.cpp\<close>), by time, and for the key block before or after a number (\<open>ConfigInfo\<close> of
  \<open>crypto/block/mc-config.cpp\<close>). The last three are searches guided by extra data.
\<close>

unbundle bit_operations_syntax

section \<open>Block identifiers\<close>

definition workchainInvalid :: u32 where "workchainInvalid = 0x80000000"
definition workchainIdNotYet :: u32 where "workchainIdNotYet = push_bit 31 1"
definition masterchainId :: u32 where "masterchainId = - 1"
definition shardIdAll :: u64 where "shardIdAll = push_bit 63 1"

record block_id_ext =
  bi_workchain :: u32
  bi_seqno :: u32
  bi_shard :: u64
  bi_root_hash :: "byte list"
  bi_file_hash :: "byte list"

definition block_id_invalidate :: "block_id_ext \<Rightarrow> block_id_ext" where
  "block_id_invalidate b = b\<lparr>bi_workchain := workchainInvalid\<rparr>"

definition block_id_is_valid :: "block_id_ext \<Rightarrow> bool" where
  "block_id_is_valid b \<longleftrightarrow> bi_workchain b \<noteq> workchainInvalid"

definition is_masterchain_ext :: "block_id_ext \<Rightarrow> bool" where
  "is_masterchain_ext b \<longleftrightarrow> bi_workchain b = masterchainId \<and> bi_shard b = shardIdAll"

text \<open>The hashes of a new identifier are not initialised; they are zeroes here.\<close>

definition new_block_id :: block_id_ext where
  "new_block_id = \<lparr>bi_workchain = workchainIdNotYet, bi_seqno = 0, bi_shard = 0,
     bi_root_hash = replicate 32 0, bi_file_hash = replicate 32 0\<rparr>"

section \<open>References to blocks\<close>

record ext_blk_ref =
  er_end_lt :: u64
  er_seq_no :: u32
  er_root_hash :: "byte list"
  er_file_hash :: "byte list"

definition ext_blk_ref_unpack :: "slice \<Rightarrow> ext_blk_ref option \<times> slice" where
  "ext_blk_ref_unpack cs =
     (case fetch_uint_to_u64 cs 64 of
        (True, Some end_lt, cs) \<Rightarrow>
          (case fetch_uint_to_u32 cs 32 of
             (True, Some seq_no, cs) \<Rightarrow>
               (case fetch_bits_to cs (replicate 32 0) 0 256 of
                  (True, root_hash, cs) \<Rightarrow>
                    (case fetch_bits_to cs (replicate 32 0) 0 256 of
                       (True, file_hash, cs) \<Rightarrow>
                         (Some \<lparr>er_end_lt = end_lt, er_seq_no = seq_no, er_root_hash = root_hash, er_file_hash = file_hash\<rparr>, cs)
                     | (False, _, cs) \<Rightarrow> (None, cs))
                | (False, _, cs) \<Rightarrow> (None, cs))
           | (_, _, cs) \<Rightarrow> (None, cs))
      | (_, _, cs) \<Rightarrow> (None, cs))"

definition ext_blk_ref_pack :: "builder \<Rightarrow> ext_blk_ref \<Rightarrow> bool \<times> builder" where
  "ext_blk_ref_pack cb data =
     (let (ok, cb) = store_ulong_rchk_bool cb (er_end_lt data) 64
      in if \<not> ok then (False, cb)
         else let (ok, cb) = store_ulong_rchk_bool cb (ucast (er_seq_no data)) 32
           in if \<not> ok then (False, cb)
              else let (ok, cb) = store_bits_bool cb (er_root_hash data) 256 0
                in if \<not> ok then (False, cb) else store_bits_bool cb (er_file_hash data) 256 0)"

text \<open>\<open>ExtBlkRef::unpack\<close> of \<open>block-parse.cpp\<close>, from a reference; \<open>blkid\<close> and \<open>end_lt\<close> are out parameters,
  and a caller that gives no place for \<open>end_lt\<close> ignores it. \<open>csr_unpack_safe\<close> wants the whole slice.\<close>

definition unpack_block_ref :: "slice option \<Rightarrow> block_id_ext \<Rightarrow> u64 \<Rightarrow> bool \<times> block_id_ext \<times> u64" where
  "unpack_block_ref cs_ref blkid end_lt =
     (case cs_ref of
        None \<Rightarrow> (False, block_id_invalidate blkid, end_lt)
      | Some cs \<Rightarrow>
          (case ext_blk_ref_unpack cs of
             (None, cs) \<Rightarrow> (False, block_id_invalidate blkid, end_lt)
           | (Some data, cs) \<Rightarrow>
               if \<not> (slice_size cs = 0 \<and> slice_size_refs cs = 0) then (False, block_id_invalidate blkid, end_lt)
               else (True, \<lparr>bi_workchain = masterchainId, bi_seqno = er_seq_no data, bi_shard = shardIdAll,
                       bi_root_hash = er_root_hash data, bi_file_hash = er_file_hash data\<rparr>, er_end_lt data)))"

definition store_block_ref :: "builder \<Rightarrow> block_id_ext \<Rightarrow> u64 \<Rightarrow> bool \<times> builder" where
  "store_block_ref cb blkid end_lt =
     (let (ok, cb) = store_long_bool cb end_lt 64
      in if \<not> ok then (False, cb)
         else let (ok, cb) = store_long_bool cb (ucast (bi_seqno blkid)) 32
           in if \<not> ok then (False, cb)
              else let (ok, cb) = store_bits_bool cb (bi_root_hash blkid) 256 0
                in if \<not> ok then (False, cb) else store_bits_bool cb (bi_file_hash blkid) 256 0)"

definition unpack_old_mc_block_id :: "slice option \<Rightarrow> u32 \<Rightarrow> block_id_ext \<Rightarrow> u64 \<Rightarrow> bool \<times> block_id_ext \<times> u64" where
  "unpack_old_mc_block_id old_blk_info seqno blkid end_lt =
     (case old_blk_info of
        None \<Rightarrow> (False, blkid, end_lt)
      | Some cs \<Rightarrow>
          let (ok, cs) = slice_advance cs 1
          in if \<not> ok then (False, blkid, end_lt)
             else let (ok, blkid, end_lt) = unpack_block_ref (Some cs) blkid end_lt in (ok \<and> bi_seqno blkid = seqno, blkid, end_lt))"

section \<open>By number\<close>

text \<open>The key for a number, \<open>td::BitArray<32>{seqno}\<close>: all of its bits are written.\<close>

definition seqno_key :: "u32 \<Rightarrow> byte list" where
  "seqno_key seqno = bits_store_long (replicate 4 0) 0 (ucast seqno) 32"

definition get_old_mc_block_id ::
  "(byte list \<Rightarrow> byte list) \<Rightarrow> dict \<Rightarrow> u32 \<Rightarrow> block_id_ext \<Rightarrow> u64 \<Rightarrow> dict_error + (bool \<times> block_id_ext \<times> u64) \<times> dict" where
  "get_old_mc_block_id sha256 d seqno blkid end_lt =
     bind_err (aug_lookup aug_OldMcBlocksInfo sha256 d (seqno_key seqno, 0) 32) (\<lambda>(r, d).
       Inr (unpack_old_mc_block_id r seqno blkid end_lt, d))"

definition check_old_mc_block_id :: "(byte list \<Rightarrow> byte list) \<Rightarrow> dict \<Rightarrow> block_id_ext \<Rightarrow> dict_error + bool \<times> dict" where
  "check_old_mc_block_id sha256 d blkid =
     (if \<not> is_masterchain_ext blkid then Inr (False, d)
      else bind_err (aug_lookup aug_OldMcBlocksInfo sha256 d (seqno_key (bi_seqno blkid), 0) 32) (\<lambda>(r, d).
        let (ok, old_blkid, end_lt) = unpack_old_mc_block_id r (bi_seqno blkid) new_block_id 0
        in Inr (ok \<and> old_blkid = blkid, d)))"

section \<open>The configuration of a masterchain state\<close>

text \<open>What \<open>ConfigInfo\<close> uses for these operations. A null dictionary is answered for only where the code
  tests for it.\<close>

record mc_config =
  mc_block_id :: block_id_ext
  mc_lt :: u64
  mc_is_key_state :: bool
  mc_prev_blocks :: "dict option"

type_synonym found_block = "bool \<times> block_id_ext \<times> u64"

definition with_prev_blocks :: "mc_config \<Rightarrow> 'a \<times> dict \<Rightarrow> 'a \<times> mc_config" where
  "with_prev_blocks cfg r = (fst r, cfg\<lparr>mc_prev_blocks := Some (snd r)\<rparr>)"

definition config_get_old_mc_block_id ::
  "(byte list \<Rightarrow> byte list) \<Rightarrow> mc_config \<Rightarrow> u32 \<Rightarrow> block_id_ext \<Rightarrow> u64 \<Rightarrow> dict_error + found_block \<times> mc_config" where
  "config_get_old_mc_block_id sha256 cfg seqno blkid end_lt =
     (if block_id_is_valid (mc_block_id cfg) \<and> seqno = bi_seqno (mc_block_id cfg) then Inr ((True, mc_block_id cfg, mc_lt cfg), cfg)
      else case mc_prev_blocks cfg of
        None \<Rightarrow> Inr ((False, blkid, end_lt), cfg)
      | Some d \<Rightarrow> bind_err (get_old_mc_block_id sha256 d seqno blkid end_lt) (\<lambda>r. Inr (with_prev_blocks cfg r)))"

definition config_check_old_mc_block_id ::
  "(byte list \<Rightarrow> byte list) \<Rightarrow> mc_config \<Rightarrow> block_id_ext \<Rightarrow> bool \<Rightarrow> dict_error + bool \<times> mc_config" where
  "config_check_old_mc_block_id sha256 cfg blkid strict =
     (if \<not> strict \<and> bi_seqno blkid = bi_seqno (mc_block_id cfg) \<and> block_id_is_valid (mc_block_id cfg)
      then Inr (blkid = mc_block_id cfg, cfg)
      else case mc_prev_blocks cfg of
        None \<Rightarrow> Inr (False, cfg)
      | Some d \<Rightarrow> bind_err (check_old_mc_block_id sha256 d blkid) (\<lambda>r. Inr (with_prev_blocks cfg r)))"

section \<open>By time\<close>

definition by_lt_visit :: "u64 \<Rightarrow> traverse_func" where
  "by_lt_visit req_lt key_prefix key_pfx_len extra val =
     (let (ok, extra) = slice_advance extra 1
      in if \<not> ok then - 1
         else case fetch_ulong_bool extra 64 of
           (True, Some found_lt, extra) \<Rightarrow> if found_lt < req_lt then 0 else 6
         | _ \<Rightarrow> - 1)"

text \<open>\<open>traverse_prev_blocks\<close> is the search with the buffer \<open>key0\<close>, which need not be initialised, and
  \<open>found_key\<close> the number in it.\<close>

definition traverse_prev_blocks ::
  "(byte list \<Rightarrow> byte list) \<Rightarrow> byte list \<Rightarrow> mc_config \<Rightarrow> traverse_func
     \<Rightarrow> traverse_error + ((slice \<times> slice) option \<times> byte list) \<times> mc_config" where
  "traverse_prev_blocks sha256 key0 cfg visit =
     (case mc_prev_blocks cfg of
        None \<Rightarrow> Inl (Dict_error Assertion)
      | Some d \<Rightarrow> bind_err (traverse_extra aug_OldMcBlocksInfo sha256 d (key0, 0) 32 visit) (\<lambda>r. Inr (with_prev_blocks cfg r)))"

definition found_key :: "byte list \<Rightarrow> u32" where
  "found_key key = ucast (bits_load_ulong key 0 32)"

definition get_mc_block_by_lt ::
  "(byte list \<Rightarrow> byte list) \<Rightarrow> byte list \<Rightarrow> mc_config \<Rightarrow> u64 \<Rightarrow> block_id_ext \<Rightarrow> u64 \<Rightarrow> traverse_error + found_block \<times> mc_config" where
  "get_mc_block_by_lt sha256 key0 cfg req_lt blkid end_lt =
     (if req_lt > mc_lt cfg then Inr ((False, blkid, end_lt), cfg)
      else bind_err (traverse_prev_blocks sha256 key0 cfg (by_lt_visit req_lt)) (\<lambda>((found, key), cfg).
        case found of
          Some (val, extra) \<Rightarrow>
            let (ok, blkid, end_lt) = unpack_old_mc_block_id (Some val) (found_key key) blkid end_lt
            in if \<not> ok then Inl (Dict_error Assertion) else Inr ((True, blkid, end_lt), cfg)
        | None \<Rightarrow>
            if block_id_is_valid (mc_block_id cfg) then Inr ((True, mc_block_id cfg, mc_lt cfg), cfg)
            else Inr ((False, blkid, end_lt), cfg)))"

section \<open>Key blocks\<close>

definition prev_key_visit :: "u32 \<Rightarrow> traverse_func" where
  "prev_key_visit req_seqno key_prefix key_pfx_len extra val =
     (if fst (prefetch_ulong extra 1) \<noteq> 1 then 0
      else
        let x = ucast (bits_load_ulong (fst key_prefix) (snd key_prefix) key_pfx_len) :: u32; d = 32 - key_pfx_len
        in if d = 0 then (if x \<le> req_seqno then 1 else 0)
           else
             let y = drop_bit (d - 1) req_seqno
             in if y < 2 * x then 0 else if y = 2 * x then 1 else 5)"

definition next_key_visit :: "u32 \<Rightarrow> traverse_func" where
  "next_key_visit req_seqno key_prefix key_pfx_len extra val =
     (if fst (prefetch_ulong extra 1) \<noteq> 1 then 0
      else
        let x = ucast (bits_load_ulong (fst key_prefix) (snd key_prefix) key_pfx_len) :: u32; d = 32 - key_pfx_len
        in if d = 0 then (if x \<ge> req_seqno then 1 else 0)
           else
             let y = drop_bit (d - 1) req_seqno
             in if y > 2 * x + 1 then 0 else if y = 2 * x + 1 then 2 else 6)"

definition get_prev_key_block ::
  "(byte list \<Rightarrow> byte list) \<Rightarrow> byte list \<Rightarrow> mc_config \<Rightarrow> u32 \<Rightarrow> block_id_ext \<Rightarrow> u64 \<Rightarrow> traverse_error + found_block \<times> mc_config" where
  "get_prev_key_block sha256 key0 cfg req_seqno blkid end_lt =
     (if block_id_is_valid (mc_block_id cfg) \<and> mc_is_key_state cfg \<and> bi_seqno (mc_block_id cfg) \<le> req_seqno
      then Inr ((True, mc_block_id cfg, mc_lt cfg), cfg)
      else bind_err (traverse_prev_blocks sha256 key0 cfg (prev_key_visit req_seqno)) (\<lambda>((found, key), cfg).
        case found of
          Some (val, extra) \<Rightarrow>
            let (ok, blkid, end_lt) = unpack_old_mc_block_id (Some val) (found_key key) blkid end_lt
            in if \<not> ok then Inl (Dict_error Assertion)
               else if \<not> bi_seqno blkid \<le> req_seqno then Inl (Dict_error Assertion)
               else Inr ((True, blkid, end_lt), cfg)
        | None \<Rightarrow> Inr ((False, block_id_invalidate blkid, end_lt), cfg)))"

definition get_next_key_block ::
  "(byte list \<Rightarrow> byte list) \<Rightarrow> byte list \<Rightarrow> mc_config \<Rightarrow> u32 \<Rightarrow> block_id_ext \<Rightarrow> u64 \<Rightarrow> traverse_error + found_block \<times> mc_config" where
  "get_next_key_block sha256 key0 cfg req_seqno blkid end_lt =
     bind_err (traverse_prev_blocks sha256 key0 cfg (next_key_visit req_seqno)) (\<lambda>((found, key), cfg).
       case found of
         Some (val, extra) \<Rightarrow>
           let (ok, blkid, end_lt) = unpack_old_mc_block_id (Some val) (found_key key) blkid end_lt
           in if \<not> ok then Inl (Dict_error Assertion)
              else if \<not> bi_seqno blkid \<ge> req_seqno then Inl (Dict_error Assertion)
              else Inr ((True, blkid, end_lt), cfg)
       | None \<Rightarrow>
           if block_id_is_valid (mc_block_id cfg) \<and> mc_is_key_state cfg \<and> bi_seqno (mc_block_id cfg) \<ge> req_seqno
           then Inr ((True, mc_block_id cfg, mc_lt cfg), cfg)
           else Inr ((False, block_id_invalidate blkid, end_lt), cfg))"

end
