(* ===== verification/Block_Found.thy ===== *)
theory Block_Found
  imports Block_Search
begin

text \<open>
  The searches of \<open>Block_Search\<close> find what they should: the block with the number, the first block that
  ends at a time or later, the last key block up to a number and the first from a number on.
\<close>

unbundle bit_operations_syntax

section \<open>References to blocks\<close>

lemma ucast_word_of_bits: "(ucast (word_of_bits xs :: u64) :: u32) = word_of_bits xs"
  by (rule bit_word_eqI) (auto simp: bit_views bit_simps)

lemma fetch_u64_reads:
  assumes s: "slice_ok s" and n: "64 \<le> slice_size s"
  obtains s' where "fetch_uint_to_u64 s 64 = (True, Some (word_of_bits (take 64 (slice_bits s))), s')" "reads s 64 0 s'"
  using fetch_ulong_correct [OF s n] n that by (simp add: fetch_uint_to_u64_def slice_have_def case_prod_beta)

lemma fetch_u32_reads:
  assumes s: "slice_ok s" and n: "32 \<le> slice_size s"
  obtains s' where "fetch_uint_to_u32 s 32 = (True, Some (word_of_bits (take 32 (slice_bits s))), s')" "reads s 32 0 s'"
  using fetch_ulong_correct [OF s n] n that by (simp add: fetch_uint_to_u32_def slice_have_def case_prod_beta ucast_word_of_bits)

lemma fetch_hash_reads:
  assumes s: "slice_ok s" and n: "256 \<le> slice_size s"
  obtains h s' where "fetch_bits_to s (replicate 32 0) 0 256 = (True, h, s')" "length h = 32" "bits_of h = take 256 (slice_bits s)" "reads s 256 0 s'"
proof -
  have room: "bits_st s + 256 \<le> 8 * length (slice_data s)" using n slice_room [OF s] by simp
  define h where "h = bits_memcpy (replicate 32 (0 :: byte)) 0 (slice_data s) (bits_st s) 256"
  have h: "bits_of h = overwrite (bits_of (replicate 32 (0 :: byte))) 0 (take 256 (drop (bits_st s) (bits_of (slice_data s))))"
    unfolding h_def by (rule bits_memcpy_correct) (use room in simp_all)
  moreover have "take 256 (drop (bits_st s) (bits_of (slice_data s))) = take 256 (slice_bits s)" using n by (simp add: slice_bits_window)
  moreover have "length (bits_of (replicate 32 (0 :: byte))) = 256" by simp
  ultimately have b: "bits_of h = take 256 (slice_bits s)" using n s by (simp add: overwrite_def)
  have "8 * length h = 256" using arg_cong [OF b, of length] n s by simp
  then show ?thesis using that [of h "snd (slice_advance s 256)"] b n slice_advance_reads(2) [OF s n]
    by (simp add: fetch_bits_to_def fetch_bits_def slice_have_def h_def)
qed

text \<open>The value of an entry: the mark of a key block, and the reference to the block.\<close>

definition block_seqno :: "dict_val \<Rightarrow> u32" where
  "block_seqno v = word_of_bits (take 32 (drop 65 (fst v)))"

definition block_entry :: "dict_entry \<Rightarrow> bool" where
  "block_entry e \<longleftrightarrow> length (fst (snd e)) = 609 \<and> snd (snd e) = [] \<and> fst e = low_bits 32 (block_seqno (snd e))"

definition is_block :: "dict_val \<Rightarrow> block_id_ext \<Rightarrow> u64 \<Rightarrow> bool" where
  "is_block v b lt \<longleftrightarrow>
     bi_workchain b = masterchainId \<and> bi_shard b = shardIdAll \<and> bi_seqno b = block_seqno v
     \<and> bits_of (bi_root_hash b) = take 256 (drop 97 (fst v)) \<and> bits_of (bi_file_hash b) = take 256 (drop 353 (fst v)) \<and> lt = block_lt v"

lemma ext_blk_ref_unpack_ok:
  assumes s: "slice_ok s" and n: "slice_bits s = drop 1 (fst v)" "609 \<le> length (fst v)"
  obtains data s' where "ext_blk_ref_unpack s = (Some data, s')" "reads s 608 0 s'" "er_end_lt data = block_lt v" "er_seq_no data = block_seqno v"
    "length (er_root_hash data) = 32" "length (er_file_hash data) = 32"
    "bits_of (er_root_hash data) = take 256 (drop 97 (fst v))" "bits_of (er_file_hash data) = take 256 (drop 353 (fst v))"
proof -
  have size: "608 \<le> slice_size s" using slice_size_bits [OF s] n by simp
  then have le1: "64 \<le> slice_size s" by simp
  obtain s1 where r1: "fetch_uint_to_u64 s 64 = (True, Some (word_of_bits (take 64 (slice_bits s))), s1)" "reads s 64 0 s1"
    by (rule fetch_u64_reads [OF s le1])
  have ok1: "slice_ok s1" "slice_bits s1 = drop 65 (fst v)" "slice_size s1 = slice_size s - 64"
    using reads_ok [OF r1(2)] r1(2) reads_size [OF r1(2) s] n(1) by (simp_all add: reads_def)
  have le2: "32 \<le> slice_size s1" using ok1(3) size by simp
  obtain s2 where r2: "fetch_uint_to_u32 s1 32 = (True, Some (word_of_bits (take 32 (slice_bits s1))), s2)" "reads s1 32 0 s2"
    by (rule fetch_u32_reads [OF ok1(1) le2])
  have ok2: "slice_ok s2" "slice_bits s2 = drop 97 (fst v)" "slice_size s2 = slice_size s - 96"
    using reads_ok [OF r2(2)] r2(2) reads_size [OF r2(2) ok1(1)] ok1 by (simp_all add: reads_def)
  have le3: "256 \<le> slice_size s2" using ok2(3) size by simp
  obtain rh s3 where r3: "fetch_bits_to s2 (replicate 32 0) 0 256 = (True, rh, s3)" "length rh = 32" "bits_of rh = take 256 (slice_bits s2)"
    "reads s2 256 0 s3" by (rule fetch_hash_reads [OF ok2(1) le3])
  have ok3: "slice_ok s3" "slice_bits s3 = drop 353 (fst v)" "slice_size s3 = slice_size s - 352"
    using reads_ok [OF r3(4)] r3(4) reads_size [OF r3(4) ok2(1)] ok2 by (simp_all add: reads_def)
  have le4: "256 \<le> slice_size s3" using ok3(3) size by simp
  obtain fh s4 where r4: "fetch_bits_to s3 (replicate 32 0) 0 256 = (True, fh, s4)" "length fh = 32" "bits_of fh = take 256 (slice_bits s3)"
    "reads s3 256 0 s4" by (rule fetch_hash_reads [OF ok3(1) le4])
  have "reads s 608 0 s4" using reads_trans [OF reads_trans [OF reads_trans [OF r1(2) r2(2)] r3(4)] r4(4)] by simp
  then show ?thesis
    by (intro that [of "\<lparr>er_end_lt = block_lt v, er_seq_no = block_seqno v, er_root_hash = rh, er_file_hash = fh\<rparr>" s4])
      (use r1(1) r2(1) r3 r4 n(1) ok1(2) ok2(2) ok3(2) in \<open>simp_all add: ext_blk_ref_unpack_def block_lt_def block_seqno_def\<close>)
qed

lemma unpack_old_mc_block_id_ok:
  assumes s: "slice_ok s" "content s = v" and e: "block_entry (k, v)" and seqno: "k = low_bits 32 seqno"
  obtains b where "unpack_old_mc_block_id (Some s) seqno blkid end_lt = (True, b, block_lt v)" "is_block v b (block_lt v)"
    "length (bi_root_hash b) = 32" "length (bi_file_hash b) = 32"
proof -
  have v: "slice_bits s = fst v" "slice_children s = []" "length (fst v) = 609" using s(2) e by (auto simp: content_def block_entry_def)
  then have n: "1 \<le> slice_size s" using slice_size_bits [OF s(1)] by simp
  define s1 where "s1 = snd (slice_advance s 1)"
  have a: "slice_advance s 1 = (True, s1)" "reads s 1 0 s1" using slice_advance_reads [OF s(1) n] by (simp_all add: s1_def prod_eq_iff)
  have s1: "slice_ok s1" "slice_bits s1 = drop 1 (fst v)" using reads_ok [OF a(2)] a(2) v(1) by (simp_all add: reads_def)
  have "609 \<le> length (fst v)" using v(3) by simp
  from ext_blk_ref_unpack_ok [OF s1 this] obtain data s2 where U: "ext_blk_ref_unpack s1 = (Some data, s2)" "reads s1 608 0 s2"
    "er_end_lt data = block_lt v" "er_seq_no data = block_seqno v" "length (er_root_hash data) = 32" "length (er_file_hash data) = 32"
    "bits_of (er_root_hash data) = take 256 (drop 97 (fst v))" "bits_of (er_file_hash data) = take 256 (drop 353 (fst v))" .
  have r: "reads s 609 0 s2" using reads_trans [OF a(2) U(2)] by simp
  have z: "slice_size s2 = 0" "slice_size_refs s2 = 0"
    using reads_size [OF r s(1)] slice_size_bits [OF s(1)] v length_slice_children [OF s(1)] by simp_all
  have "low_bits 32 seqno = low_bits 32 (block_seqno v)" using e seqno by (simp add: block_entry_def)
  then have "word_of_bits (low_bits 32 seqno) = (word_of_bits (low_bits 32 (block_seqno v)) :: u32)" by simp
  then have q: "block_seqno v = seqno" by (simp add: word_of_low_bits take_bit_word_eq_self)
  show ?thesis
    by (rule that [of "\<lparr>bi_workchain = masterchainId, bi_seqno = block_seqno v, bi_shard = shardIdAll, bi_root_hash = er_root_hash data,
          bi_file_hash = er_file_hash data\<rparr>"])
      (use a(1) [unfolded One_nat_def] U z q in \<open>simp_all add: unpack_old_mc_block_id_def unpack_block_ref_def is_block_def\<close>)
qed

section \<open>What the extra data says\<close>

abbreviation blocks_rep :: "nat \<Rightarrow> cell \<Rightarrow> dict_entry list \<Rightarrow> dict_val \<Rightarrow> bool" where
  "blocks_rep \<equiv> aug_rep leaf_key_lt max_key_lt is_key_lt"

lemma leaf_key_lt_views [simp]: "is_key_lt (leaf_key_lt v) \<Longrightarrow> key_flag (leaf_key_lt v) = key_flag v" "block_lt (leaf_key_lt v) = block_lt v"
proof -
  assume "is_key_lt (leaf_key_lt v)"
  then show "key_flag (leaf_key_lt v) = key_flag v" by (cases "fst v") (simp_all add: is_key_lt_def leaf_key_lt_def key_flag_def)
next
  show "block_lt (leaf_key_lt v) = block_lt v" by (simp add: block_lt_def leaf_key_lt_def drop_take)
qed

lemma max_key_lt_views [simp]:
  "key_flag (max_key_lt x y) = (key_flag x \<or> key_flag y)" "block_lt (max_key_lt x y) = max (block_lt x) (block_lt y)"
  by (simp_all add: max_key_lt_def)

lemma snd_pre: "snd ` set (pre p es) = snd ` set es"
  by (auto simp: pre_def image_image case_prod_beta)

lemma blocks_rep_extra:
  "blocks_rep n c es x \<Longrightarrow> (key_flag x \<longleftrightarrow> (\<exists>v \<in> snd ` set es. key_flag v)) \<and> (\<forall>v \<in> snd ` set es. block_lt v \<le> block_lt x)
     \<and> (\<exists>v \<in> snd ` set es. block_lt v = block_lt x)"
proof (induction rule: aug_rep.induct)
  case (aug_fork es ls ea eb x xa xb n c a b)
  have snds: "snd ` set es = snd ` set ea \<union> snd ` set eb" unfolding aug_fork.hyps(1) snd_pre set_append image_Un by (rule refl)
  define va vb where "va = snd ` set ea" and "vb = snd ` set eb"
  from aug_fork.IH show ?case unfolding snds va_def [symmetric] vb_def [symmetric] aug_fork.hyps(2) max_key_lt_views
    by (intro conjI) (blast, auto simp: max_def)
qed simp

text \<open>The search by time.\<close>

definition by_lt_answer :: "u64 \<Rightarrow> bool list \<Rightarrow> dict_val \<Rightarrow> dict_val option \<Rightarrow> int" where
  "by_lt_answer req p x v = (if block_lt x < req then 0 else 6)"

lemma read_lt:
  assumes e: "slice_ok e" and x: "is_key_lt (content e)"
  obtains e1 e2 where "slice_advance e 1 = (True, e1)" "fetch_ulong_bool e1 64 = (True, Some (block_lt (content e)), e2)"
proof -
  have len: "length (slice_bits e) = 65" using x by (simp add: is_key_lt_def content_def)
  then have n: "1 \<le> slice_size e" using e by simp
  define e1 where "e1 = snd (slice_advance e 1)"
  have a: "slice_advance e 1 = (True, e1)" "reads e 1 0 e1" using slice_advance_reads [OF e n] by (simp_all add: e1_def prod_eq_iff)
  have e1: "slice_ok e1" "slice_bits e1 = drop 1 (slice_bits e)" using reads_ok [OF a(2)] a(2) by (simp_all add: reads_def)
  then have n1: "64 \<le> slice_size e1" using len slice_size_bits [OF e1(1)] by simp
  show ?thesis
    using that [OF a(1)] fetch_ulong_correct(1) [OF e1(1) n1] n1 e1(2)
    by (simp add: fetch_ulong_bool_def slice_have_def case_prod_beta block_lt_def content_def)
qed

interpretation by_lt: traverse_guide aug_OldMcBlocksInfo leaf_key_lt max_key_lt empty_key_lt is_key_lt "by_lt_visit req" 32 True
  "\<lambda>k v. req \<le> block_lt v" "by_lt_answer req" for req
proof
  fix e key l w assume e: "slice_ok e" and x: "is_key_lt (content e)"
  obtain e1 e2 where "slice_advance e 1 = (True, e1)" "fetch_ulong_bool e1 64 = (True, Some (block_lt (content e)), e2)"
    by (rule read_lt [OF e x])
  then show "by_lt_visit req key l e w = by_lt_answer req (ptr_bits key l) (content e) (map_option content w)"
    by (simp add: by_lt_visit_def by_lt_answer_def)
next
  fix k v show "0 \<le> by_lt_answer req k (leaf_key_lt v) (Some v) \<and> (0 < by_lt_answer req k (leaf_key_lt v) (Some v) \<longleftrightarrow> req \<le> block_lt v)"
    by (auto simp: by_lt_answer_def)
next
  fix p n a ea xa b eb xb assume "blocks_rep n a ea xa" "blocks_rep n b eb xb"
  then have le: "\<forall>v \<in> snd ` set ea. block_lt v \<le> block_lt xa" "\<forall>v \<in> snd ` set eb. block_lt v \<le> block_lt xb"
    using blocks_rep_extra by blast+
  have "none_of (\<lambda>k v. req \<le> block_lt v) q es" if "\<forall>v \<in> snd ` set es. block_lt v \<le> y" "y < req" for q es y
    using that by (force simp: none_of_def)
  then show "guided True (\<lambda>k v. req \<le> block_lt v) p ea eb (by_lt_answer req p (max_key_lt xa xb) None)"
    using le by (auto simp: guided_def by_lt_answer_def)
qed

text \<open>The searches for key blocks: the answers, in terms of numbers.\<close>

definition prev_key_answer :: "u32 \<Rightarrow> bool list \<Rightarrow> dict_val \<Rightarrow> dict_val option \<Rightarrow> int" where
  "prev_key_answer req p x v =
     (if \<not> key_flag x then 0
      else if length p = 32 then (if nat_of_bits p \<le> unat req then 1 else 0)
      else let y = unat req div 2 ^ (31 - length p); x = nat_of_bits p in if y < 2 * x then 0 else if y = 2 * x then 1 else 5)"

definition next_key_answer :: "u32 \<Rightarrow> bool list \<Rightarrow> dict_val \<Rightarrow> dict_val option \<Rightarrow> int" where
  "next_key_answer req p x v =
     (if \<not> key_flag x then 0
      else if length p = 32 then (if nat_of_bits p \<ge> unat req then 1 else 0)
      else let y = unat req div 2 ^ (31 - length p); x = nat_of_bits p in if y > 2 * x + 1 then 0 else if y = 2 * x + 1 then 2 else 6)"

lemma read_key_flag:
  assumes e: "slice_ok e" and x: "is_key_lt (content e)"
  shows "fst (prefetch_ulong e 1) = of_bool (key_flag (content e))"
proof -
  have len: "length (slice_bits e) = 65" using x by (simp add: is_key_lt_def content_def)
  then have n: "1 \<le> slice_size e" using e by simp
  obtain b bs where b: "slice_bits e = b # bs" using len by (cases "slice_bits e") auto
  show ?thesis using prefetch_ulong_correct(1) [OF e n] b by (simp add: word_of_bits_one key_flag_def content_def)
qed

text \<open>The part of a number that is known at a fork, doubled, does not overflow.\<close>

lemma read_prefix:
  assumes key: "ptr_ok key l" and l: "l \<le> 32"
  defines "x \<equiv> ucast (bits_load_ulong (fst key) (snd key) l) :: u32" and "n \<equiv> nat_of_bits (ptr_bits key l)"
  shows "unat x = n" and "l < 32 \<Longrightarrow> unat (2 * x) = 2 * n" and "l < 32 \<Longrightarrow> unat (2 * x + 1) = 2 * n + 1"
proof -
  have "bits_load_ulong (fst key) (snd key) l = word_of_bits (ptr_bits key l)"
    using bits_load_ulong_correct [of l "snd key" "fst key"] key l by (simp add: ptr_ok_def ptr_bits_def)
  then have x: "x = word_of_bits (ptr_bits key l)" by (simp add: x_def ucast_word_of_bits)
  show u: "unat x = n" using key l by (simp add: x n_def unat_word_of_bits)
  have b: "2 * n + 1 < 2 ^ 32" if "l < 32"
  proof -
    have "n < 2 ^ l" using nat_of_bits_less [of "ptr_bits key l"] key by (simp add: n_def)
    moreover have "(2 :: nat) ^ l \<le> 2 ^ 31" by (rule power_increasing) (use that in simp_all)
    ultimately have "n < 2 ^ 31" by linarith
    then show ?thesis by simp
  qed
  show d: "unat (2 * x) = 2 * n" if "l < 32" using b [OF that] u by (simp add: unat_word_ariths)
  show "unat (2 * x + 1) = 2 * n + 1" if "l < 32" using b [OF that] d [OF that] by (simp add: unat_word_ariths)
qed

lemma prev_key_visit_answer:
  assumes e: "slice_ok e" and x: "is_key_lt (content e)" and key: "ptr_ok key l" and l: "l \<le> 32"
  shows "prev_key_visit req key l e w = prev_key_answer req (ptr_bits key l) (content e) v"
proof -
  note R = read_prefix [OF key l]
  have len: "length (ptr_bits key l) = l" using key by simp
  show ?thesis
  proof (cases "l = 32")
    case True
    then show ?thesis using R(1) len by (simp add: prev_key_visit_def prev_key_answer_def read_key_flag [OF e x, unfolded One_nat_def] word_le_nat_alt)
  next
    case False
    then have lt: "l < 32" using l by simp
    have y: "unat (drop_bit (31 - l) req) = unat req div 2 ^ (31 - l)" by (simp add: unat_drop_bit_eq flip: drop_bit_eq_div)
    have s: "32 - l - 1 = 31 - l" "32 - l \<noteq> 0" using lt by simp_all
    show ?thesis unfolding prev_key_visit_def prev_key_answer_def Let_def read_key_flag [OF e x] len s(1) word_less_nat_alt word_unat_eq_iff
        R(2) [OF lt] y
      using False s(2) by simp
  qed
qed

lemma next_key_visit_answer:
  assumes e: "slice_ok e" and x: "is_key_lt (content e)" and key: "ptr_ok key l" and l: "l \<le> 32"
  shows "next_key_visit req key l e w = next_key_answer req (ptr_bits key l) (content e) v"
proof -
  note R = read_prefix [OF key l]
  have len: "length (ptr_bits key l) = l" using key by simp
  show ?thesis
  proof (cases "l = 32")
    case True
    then show ?thesis using R(1) len by (simp add: next_key_visit_def next_key_answer_def read_key_flag [OF e x, unfolded One_nat_def] word_le_nat_alt)
  next
    case False
    then have lt: "l < 32" using l by simp
    have y: "unat (drop_bit (31 - l) req) = unat req div 2 ^ (31 - l)" by (simp add: unat_drop_bit_eq flip: drop_bit_eq_div)
    have s: "32 - l - 1 = 31 - l" "32 - l \<noteq> 0" using lt by simp_all
    show ?thesis unfolding next_key_visit_def next_key_answer_def Let_def read_key_flag [OF e x] len s(1) word_less_nat_alt word_unat_eq_iff
        R(3) [OF lt] y
      using False s(2) by simp
  qed
qed

text \<open>The numbers below a branch.\<close>

lemma branch_numbers:
  assumes len: "length p + 1 + n = 32" and rep: "blocks_rep n c es x" and e: "(k, v) \<in> set es"
  shows "nat_of_bits (p @ s # k) div 2 ^ (31 - length p) = 2 * nat_of_bits p + of_bool s" and "length (p @ s # k) = 32"
proof -
  have "k \<in> set (map fst es)" using e by force
  then have k: "length k = n" using aug_rep_lengths [OF rep] by blast
  then show "length (p @ s # k) = 32" using len by simp
  have n: "31 - length p = n" using len by simp
  have "nat_of_bits ((p @ [s]) @ k) = nat_of_bits (p @ [s]) * 2 ^ n + nat_of_bits k" unfolding nat_of_bits_append k ..
  moreover have "nat_of_bits k < 2 ^ n" using nat_of_bits_less [of k] k by simp
  ultimately show "nat_of_bits (p @ s # k) div 2 ^ (31 - length p) = 2 * nat_of_bits p + of_bool s" by (simp add: n nat_of_bits_snoc)
qed

definition key_block_upto :: "u32 \<Rightarrow> bool list \<Rightarrow> dict_val \<Rightarrow> bool" where
  "key_block_upto req k v \<longleftrightarrow> key_flag v \<and> nat_of_bits k \<le> unat req"

definition key_block_from :: "u32 \<Rightarrow> bool list \<Rightarrow> dict_val \<Rightarrow> bool" where
  "key_block_from req k v \<longleftrightarrow> key_flag v \<and> unat req \<le> nat_of_bits k"

lemma no_key_block:
  assumes "blocks_rep n c es x" and "\<not> key_flag x"
  shows "none_of (key_block_upto req) p es" and "none_of (key_block_from req) p es"
  using blocks_rep_extra [OF assms(1)] assms(2) by (force simp: none_of_def key_block_upto_def key_block_from_def)+

lemma none_upto:
  assumes rep: "blocks_rep n c es x" and len: "length p + 1 + n = 32"
    and y: "unat req div 2 ^ (31 - length p) < 2 * nat_of_bits p + of_bool s"
  shows "none_of (key_block_upto req) (p @ [s]) es"
proof -
  have "\<not> nat_of_bits (p @ s # k) \<le> unat req" if e: "(k, v) \<in> set es" for k v
    using div_le_mono [of "nat_of_bits (p @ s # k)" "unat req" "2 ^ (31 - length p)"] branch_numbers(1) [OF len rep e, of s] y by linarith
  then show ?thesis by (auto simp: none_of_def key_block_upto_def)
qed

lemma none_from:
  assumes rep: "blocks_rep n c es x" and len: "length p + 1 + n = 32"
    and y: "unat req div 2 ^ (31 - length p) > 2 * nat_of_bits p + of_bool s"
  shows "none_of (key_block_from req) (p @ [s]) es"
proof -
  have "\<not> unat req \<le> nat_of_bits (p @ s # k)" if e: "(k, v) \<in> set es" for k v
    using div_le_mono [of "unat req" "nat_of_bits (p @ s # k)" "2 ^ (31 - length p)"] branch_numbers(1) [OF len rep e, of s] y by linarith
  then show ?thesis by (auto simp: none_of_def key_block_from_def)
qed

interpretation prev_key: traverse_guide aug_OldMcBlocksInfo leaf_key_lt max_key_lt empty_key_lt is_key_lt "prev_key_visit req" 32 False
  "key_block_upto req" "prev_key_answer req" for req
proof
  fix p :: "bool list" and n a ea xa b eb xb
  assume len: "length p + 1 + n = 32" and a: "blocks_rep n a ea xa" and b: "blocks_rep n b eb xb"
  let ?y = "unat req div 2 ^ (31 - length p)" and ?x = "nat_of_bits p"
  show "guided False (key_block_upto req) p ea eb (prev_key_answer req p (max_key_lt xa xb) None)"
  proof (cases "key_flag xa \<or> key_flag xb")
    case True
    have "?y < 2 * ?x \<Longrightarrow> none_of (key_block_upto req) (p @ [False]) ea" "?y < 2 * ?x + 1 \<Longrightarrow> none_of (key_block_upto req) (p @ [True]) eb"
      using none_upto [OF a len, of req False] none_upto [OF b len, of req True] by simp_all
    then show ?thesis using True len by (auto simp: guided_def prev_key_answer_def Let_def)
  next
    case False
    then show ?thesis using no_key_block(1) [OF a] no_key_block(1) [OF b] by (simp add: guided_def prev_key_answer_def)
  qed
qed (simp_all add: prev_key_visit_answer, auto simp: prev_key_answer_def key_block_upto_def)

interpretation next_key: traverse_guide aug_OldMcBlocksInfo leaf_key_lt max_key_lt empty_key_lt is_key_lt "next_key_visit req" 32 True
  "key_block_from req" "next_key_answer req" for req
proof
  fix p :: "bool list" and n a ea xa b eb xb
  assume len: "length p + 1 + n = 32" and a: "blocks_rep n a ea xa" and b: "blocks_rep n b eb xb"
  let ?y = "unat req div 2 ^ (31 - length p)" and ?x = "nat_of_bits p"
  show "guided True (key_block_from req) p ea eb (next_key_answer req p (max_key_lt xa xb) None)"
  proof (cases "key_flag xa \<or> key_flag xb")
    case True
    have "?y > 2 * ?x \<Longrightarrow> none_of (key_block_from req) (p @ [False]) ea" "?y > 2 * ?x + 1 \<Longrightarrow> none_of (key_block_from req) (p @ [True]) eb"
      using none_from [OF a len, of False req] none_from [OF b len, of True req] by simp_all
    then show ?thesis using True len by (auto simp: guided_def next_key_answer_def Let_def)
  next
    case False
    then show ?thesis using no_key_block(2) [OF a] no_key_block(2) [OF b] by (simp add: guided_def next_key_answer_def)
  qed
qed (simp_all add: next_key_visit_answer, auto simp: next_key_answer_def key_block_from_def)

section \<open>What is found\<close>

text \<open>A dictionary of old blocks, with its entries; a block of it that satisfies \<open>P\<close>, with the least or the
  greatest number.\<close>

definition prev_blocks :: "dict \<Rightarrow> dict_entry list \<Rightarrow> bool" where
  "prev_blocks d es \<longleftrightarrow> (\<exists>x. aug_inv leaf_key_lt max_key_lt empty_key_lt is_key_lt d 32 es x) \<and> (\<forall>e \<in> set es. block_entry e)"

definition least_block :: "(dict_val \<Rightarrow> bool) \<Rightarrow> dict_entry list \<Rightarrow> dict_val \<Rightarrow> bool" where
  "least_block P es v \<longleftrightarrow> v \<in> snd ` set es \<and> P v \<and> (\<forall>w \<in> snd ` set es. P w \<longrightarrow> block_seqno v \<le> block_seqno w)"

definition greatest_block :: "(dict_val \<Rightarrow> bool) \<Rightarrow> dict_entry list \<Rightarrow> dict_val \<Rightarrow> bool" where
  "greatest_block P es v \<longleftrightarrow> v \<in> snd ` set es \<and> P v \<and> (\<forall>w \<in> snd ` set es. P w \<longrightarrow> block_seqno w \<le> block_seqno v)"

lemma find_member: "List.find P xs = Some x \<Longrightarrow> x \<in> set xs \<and> P x"
  by (induction xs) (auto split: if_splits)

lemma seqno_of_bits: "nat_of_bits (low_bits 32 q) = unat (q :: u32)"
  using unat_word_of_bits [of "low_bits 32 q", where 'a = 32] by (simp add: word_of_low_bits take_bit_word_eq_self)

lemma find_sorted_first: "sorted_wrt R xs \<Longrightarrow> List.find P xs = Some x \<Longrightarrow> y \<in> set xs \<Longrightarrow> P y \<Longrightarrow> y = x \<or> R x y"
  by (induction xs) (auto split: if_splits)

lemma prev_blocks_sorted:
  assumes d: "prev_blocks d es"
  shows "sorted_wrt (\<lambda>e f. block_seqno (snd e) < block_seqno (snd f)) es"
proof -
  obtain x where x: "aug_inv leaf_key_lt max_key_lt empty_key_lt is_key_lt d 32 es x" using d by (auto simp: prev_blocks_def)
  have srt: "sorted_keys es"
    using x by (cases "d_root_cell d") (auto simp: aug_inv_def root_extra_def sorted_keys_def dest: aug_rep_sorted)
  show ?thesis
  proof (rule sorted_wrt_mono_rel [OF _ srt [unfolded sorted_keys_def]])
    fix e f assume m: "e \<in> set es" "f \<in> set es" and lex: "lex_cmp (fst e) (fst f) = - 1"
    have "fst e = low_bits 32 (block_seqno (snd e))" "fst f = low_bits 32 (block_seqno (snd f))"
      using d m by (simp_all add: prev_blocks_def block_entry_def)
    then have n: "unat (block_seqno (snd e)) = nat_of_bits (fst e)" "unat (block_seqno (snd f)) = nat_of_bits (fst f)" "length (fst e) = length (fst f)"
      by (simp_all add: seqno_of_bits)
    then show "block_seqno (snd e) < block_seqno (snd f)" using nat_of_bits_lex [OF n(3)] lex by (simp add: word_less_nat_alt)
  qed
qed

lemma wanted_least:
  assumes d: "prev_blocks d es" and w: "wanted True A [] es = Some (k, v)" and A: "\<And>k v. (k, v) \<in> set es \<Longrightarrow> A k v = P v"
  shows "least_block P es v" and "(k, v) \<in> set es"
proof -
  have f: "List.find (\<lambda>(k, v). A k v) es = Some (k, v)" using w by (simp add: wanted_def)
  note F = find_member [OF f]
  then show m: "(k, v) \<in> set es" by simp
  have P: "P v" using F A [OF m] by simp
  have "block_seqno v \<le> block_seqno w" if "(k', w) \<in> set es" "P w" for k' w
    using find_sorted_first [OF prev_blocks_sorted [OF d] f that(1)] that(2) A [OF that(1)] by auto
  then show "least_block P es v" using m P by (force simp: least_block_def)
qed

lemma wanted_greatest:
  assumes d: "prev_blocks d es" and w: "wanted False A [] es = Some (k, v)" and A: "\<And>k v. (k, v) \<in> set es \<Longrightarrow> A k v = P v"
  shows "greatest_block P es v" and "(k, v) \<in> set es"
proof -
  have f: "List.find (\<lambda>(k, v). A k v) (rev es) = Some (k, v)" using w by (simp add: wanted_def)
  note F = find_member [OF f]
  then show m: "(k, v) \<in> set es" by simp
  have P: "P v" using F A [OF m] by simp
  have srt: "sorted_wrt (\<lambda>e f. block_seqno (snd f) < block_seqno (snd e)) (rev es)"
    using prev_blocks_sorted [OF d] by (simp add: sorted_wrt_rev)
  have "block_seqno w \<le> block_seqno v" if "(k', w) \<in> set es" "P w" for k' w
    using find_sorted_first [OF srt f, of "(k', w)"] that A [OF that(1)] by auto
  then show "greatest_block P es v" using m P by (force simp: greatest_block_def)
qed

lemma wanted_none: "wanted fwd A [] es = None \<longleftrightarrow> (\<forall>(k, v) \<in> set es. \<not> A k v)"
  by (auto simp: wanted_def find_None_iff)

lemma found_key_eq:
  assumes "holds key k" and "length k = 32"
  shows "k = low_bits 32 (found_key key)"
proof -
  have "bits_load_ulong key 0 32 = word_of_bits k" using assms by (simp add: bits_load_ulong_correct holds_def)
  then show ?thesis using low_bits_word_of_bits [of k, where 'a = 32] assms(2) by (simp add: found_key_def ucast_word_of_bits)
qed

text \<open>The search, and the reading of what it hands out.\<close>

lemma traverse_prev_blocks_ok:
  assumes c: "mc_prev_blocks cfg = Some d" and d: "prev_blocks d es" and key0: "length key0 = 4"
    and t: "\<exists>y. traverse_extra aug_OldMcBlocksInfo sha256 d (key0, 0) 32 visit = Inr (y, d) \<and> hands_out leaf_key_lt [] (length key0) w y"
    and w: "\<And>k v. w = Some (k, v) \<Longrightarrow> (k, v) \<in> set es"
  shows "\<exists>found key. traverse_prev_blocks sha256 key0 cfg visit = Inr ((found, key), cfg)
     \<and> (case w of
          None \<Rightarrow> found = None
        | Some (k, v) \<Rightarrow> \<exists>val extra b. found = Some (val, extra)
            \<and> unpack_old_mc_block_id (Some val) (found_key key) blkid end_lt = (True, b, block_lt v) \<and> is_block v b (block_lt v))"
proof -
  obtain found key where y: "traverse_extra aug_OldMcBlocksInfo sha256 d (key0, 0) 32 visit = Inr ((found, key), d)"
    "hands_out leaf_key_lt [] (length key0) w (found, key)" using t by auto
  have "cfg\<lparr>mc_prev_blocks := Some d\<rparr> = cfg" using c by (cases cfg) simp
  then have r: "traverse_prev_blocks sha256 key0 cfg visit = Inr ((found, key), cfg)"
    using y(1) c by (simp add: traverse_prev_blocks_def with_prev_blocks_def)
  show ?thesis
  proof (cases w)
    case None
    then show ?thesis using r y(2) by (simp add: hands_out_def)
  next
    case (Some e)
    obtain k v where e: "e = (k, v)" by (cases e)
    obtain val extra where h: "found = Some (val, extra)" "slice_ok val" "content val = v" "holds key k"
      using y(2) by (auto simp: hands_out_def Some e)
    have b: "block_entry (k, v)" using d w Some e by (simp add: prev_blocks_def)
    then have "length k = 32" by (simp add: block_entry_def)
    from unpack_old_mc_block_id_ok [OF h(2,3) b found_key_eq [OF h(4) this], of blkid end_lt] show ?thesis
      using r h(1) by (auto simp: Some e)
  qed
qed

text \<open>What an operation reports: whether there is such a block, and which.\<close>

definition reports :: "found_block \<Rightarrow> dict_val \<Rightarrow> bool" where
  "reports r v \<longleftrightarrow> fst r \<and> is_block v (fst (snd r)) (snd (snd r))"

lemma traverse_invariant:
  assumes d: "prev_blocks d es" and key0: "length key0 = 4"
  obtains x where "aug_inv leaf_key_lt max_key_lt empty_key_lt is_key_lt d 32 es x" "32 \<le> 8 * length key0"
  using d key0 by (auto simp: prev_blocks_def)

theorem get_mc_block_by_lt_ok:
  assumes c: "mc_prev_blocks cfg = Some d" and d: "prev_blocks d es" and key0: "length key0 = 4"
  shows "\<exists>r. get_mc_block_by_lt sha256 key0 cfg req blkid end_lt = Inr (r, cfg)
     \<and> (if mc_lt cfg < req then r = (False, blkid, end_lt)
        else if \<exists>v \<in> snd ` set es. req \<le> block_lt v then \<exists>v. least_block (\<lambda>v. req \<le> block_lt v) es v \<and> reports r v
        else r = (if block_id_is_valid (mc_block_id cfg) then (True, mc_block_id cfg, mc_lt cfg) else (False, blkid, end_lt)))"
proof (cases "mc_lt cfg < req")
  case True
  then show ?thesis by (simp add: get_mc_block_by_lt_def)
next
  case False
  obtain x where x: "aug_inv leaf_key_lt max_key_lt empty_key_lt is_key_lt d 32 es x" "32 \<le> 8 * length key0"
    by (rule traverse_invariant [OF d key0])
  let ?w = "wanted True (\<lambda>k v. req \<le> block_lt v) [] es"
  note L = wanted_least [OF d, where A = "\<lambda>k v. req \<le> block_lt v" and P = "\<lambda>v. req \<le> block_lt v"]
  from traverse_prev_blocks_ok [OF c d key0 by_lt.traverse_extra_ok [OF x, where req = req and ?sha256.0 = sha256], where blkid = blkid and end_lt = end_lt] L(2)
  obtain found key where t: "traverse_prev_blocks sha256 key0 cfg (by_lt_visit req) = Inr ((found, key), cfg)"
    "case ?w of None \<Rightarrow> found = None
        | Some (k, v) \<Rightarrow> \<exists>val extra b. found = Some (val, extra)
            \<and> unpack_old_mc_block_id (Some val) (found_key key) blkid end_lt = (True, b, block_lt v) \<and> is_block v b (block_lt v)" by blast
  show ?thesis
  proof (cases ?w)
    case None
    then have "\<not> (\<exists>v \<in> snd ` set es. req \<le> block_lt v)" by (auto simp: wanted_none)
    then show ?thesis using False t None by (simp add: get_mc_block_by_lt_def del: split_paired_Ex)
  next
    case (Some e)
    obtain k v where e: "e = (k, v)" by (cases e)
    have l: "least_block (\<lambda>v. req \<le> block_lt v) es v" by (rule L(1) [OF Some [unfolded e] refl])
    then have "\<exists>v \<in> snd ` set es. req \<le> block_lt v" by (auto simp: least_block_def)
    then show ?thesis using False t l by (auto simp: get_mc_block_by_lt_def Some e reports_def simp del: split_paired_Ex)
  qed
qed

text \<open>In terms of the numbers of the blocks.\<close>

lemma key_block_number:
  assumes d: "prev_blocks d es" and e: "(k, v) \<in> set es"
  shows "key_block_upto req k v \<longleftrightarrow> key_flag v \<and> block_seqno v \<le> req" and "key_block_from req k v \<longleftrightarrow> key_flag v \<and> req \<le> block_seqno v"
proof -
  have "k = low_bits 32 (block_seqno v)" using d e by (force simp: prev_blocks_def block_entry_def)
  then show "key_block_upto req k v \<longleftrightarrow> key_flag v \<and> block_seqno v \<le> req" "key_block_from req k v \<longleftrightarrow> key_flag v \<and> req \<le> block_seqno v"
    by (simp_all add: key_block_upto_def key_block_from_def seqno_of_bits word_le_nat_alt)
qed

theorem get_prev_key_block_ok:
  assumes c: "mc_prev_blocks cfg = Some d" and d: "prev_blocks d es" and key0: "length key0 = 4"
  shows "\<exists>r. get_prev_key_block sha256 key0 cfg req blkid end_lt = Inr (r, cfg)
     \<and> (if block_id_is_valid (mc_block_id cfg) \<and> mc_is_key_state cfg \<and> bi_seqno (mc_block_id cfg) \<le> req
        then r = (True, mc_block_id cfg, mc_lt cfg)
        else if \<exists>v \<in> snd ` set es. key_flag v \<and> block_seqno v \<le> req
        then \<exists>v. greatest_block (\<lambda>v. key_flag v \<and> block_seqno v \<le> req) es v \<and> reports r v
        else r = (False, block_id_invalidate blkid, end_lt))"
proof (cases "block_id_is_valid (mc_block_id cfg) \<and> mc_is_key_state cfg \<and> bi_seqno (mc_block_id cfg) \<le> req")
  case True
  then show ?thesis by (simp add: get_prev_key_block_def)
next
  case False
  obtain x where x: "aug_inv leaf_key_lt max_key_lt empty_key_lt is_key_lt d 32 es x" "32 \<le> 8 * length key0"
    by (rule traverse_invariant [OF d key0])
  let ?w = "wanted False (key_block_upto req) [] es"
  note G = wanted_greatest [OF d, where A = "key_block_upto req" and P = "\<lambda>v. key_flag v \<and> block_seqno v \<le> req", OF _ key_block_number(1) [OF d]]
  from traverse_prev_blocks_ok [OF c d key0 prev_key.traverse_extra_ok [OF x, where req = req and ?sha256.0 = sha256], where blkid = blkid and end_lt = end_lt] G(2)
  obtain found key where t: "traverse_prev_blocks sha256 key0 cfg (prev_key_visit req) = Inr ((found, key), cfg)"
    "case ?w of None \<Rightarrow> found = None
        | Some (k, v) \<Rightarrow> \<exists>val extra b. found = Some (val, extra)
            \<and> unpack_old_mc_block_id (Some val) (found_key key) blkid end_lt = (True, b, block_lt v) \<and> is_block v b (block_lt v)" by blast
  note e0 = get_prev_key_block_def [of sha256 key0 cfg req blkid end_lt, unfolded if_not_P [OF False] t(1) bind_err_simps prod.case]
  show ?thesis
  proof (cases ?w)
    case None
    then have none: "\<not> (\<exists>v \<in> snd ` set es. key_flag v \<and> block_seqno v \<le> req)" using key_block_number(1) [OF d] by (auto simp: wanted_none)
    moreover have "found = None" using t(2) None by simp
    ultimately show ?thesis unfolding e0 if_not_P [OF False] if_not_P [OF none] by (simp del: split_paired_Ex)
  next
    case (Some e)
    obtain k v where e: "e = (k, v)" by (cases e)
    have l: "greatest_block (\<lambda>v. key_flag v \<and> block_seqno v \<le> req) es v" by (rule G(1) [OF Some [unfolded e]])
    obtain val extra b where f: "found = Some (val, extra)" "unpack_old_mc_block_id (Some val) (found_key key) blkid end_lt = (True, b, block_lt v)"
      "is_block v b (block_lt v)" using t(2) by (auto simp: Some e)
    have ex: "\<exists>v \<in> snd ` set es. key_flag v \<and> block_seqno v \<le> req" and q: "bi_seqno b \<le> req"
      using l f(3) by (auto simp: greatest_block_def is_block_def)
    then have "get_prev_key_block sha256 key0 cfg req blkid end_lt = Inr ((True, b, block_lt v), cfg)" unfolding e0 f(1) by (simp add: f(2))
    moreover have "reports (True, b, block_lt v) v" using f(3) by (simp add: reports_def)
    ultimately show ?thesis unfolding if_not_P [OF False] if_P [OF ex] using l by blast
  qed
qed

theorem get_next_key_block_ok:
  assumes c: "mc_prev_blocks cfg = Some d" and d: "prev_blocks d es" and key0: "length key0 = 4"
  shows "\<exists>r. get_next_key_block sha256 key0 cfg req blkid end_lt = Inr (r, cfg)
     \<and> (if \<exists>v \<in> snd ` set es. key_flag v \<and> req \<le> block_seqno v
        then \<exists>v. least_block (\<lambda>v. key_flag v \<and> req \<le> block_seqno v) es v \<and> reports r v
        else r = (if block_id_is_valid (mc_block_id cfg) \<and> mc_is_key_state cfg \<and> req \<le> bi_seqno (mc_block_id cfg)
                  then (True, mc_block_id cfg, mc_lt cfg) else (False, block_id_invalidate blkid, end_lt)))"
proof -
  obtain x where x: "aug_inv leaf_key_lt max_key_lt empty_key_lt is_key_lt d 32 es x" "32 \<le> 8 * length key0"
    by (rule traverse_invariant [OF d key0])
  let ?w = "wanted True (key_block_from req) [] es"
  note L = wanted_least [OF d, where A = "key_block_from req" and P = "\<lambda>v. key_flag v \<and> req \<le> block_seqno v", OF _ key_block_number(2) [OF d]]
  from traverse_prev_blocks_ok [OF c d key0 next_key.traverse_extra_ok [OF x, where req = req and ?sha256.0 = sha256], where blkid = blkid and end_lt = end_lt] L(2)
  obtain found key where t: "traverse_prev_blocks sha256 key0 cfg (next_key_visit req) = Inr ((found, key), cfg)"
    "case ?w of None \<Rightarrow> found = None
        | Some (k, v) \<Rightarrow> \<exists>val extra b. found = Some (val, extra)
            \<and> unpack_old_mc_block_id (Some val) (found_key key) blkid end_lt = (True, b, block_lt v) \<and> is_block v b (block_lt v)" by blast
  note e0 = get_next_key_block_def [of sha256 key0 cfg req blkid end_lt, unfolded t(1) bind_err_simps prod.case]
  show ?thesis
  proof (cases ?w)
    case None
    then have none: "\<not> (\<exists>v \<in> snd ` set es. key_flag v \<and> req \<le> block_seqno v)" using key_block_number(2) [OF d] by (auto simp: wanted_none)
    moreover have "found = None" using t(2) None by simp
    ultimately show ?thesis unfolding e0 if_not_P [OF none] by (simp del: split_paired_Ex)
  next
    case (Some e)
    obtain k v where e: "e = (k, v)" by (cases e)
    have l: "least_block (\<lambda>v. key_flag v \<and> req \<le> block_seqno v) es v" by (rule L(1) [OF Some [unfolded e]])
    obtain val extra b where f: "found = Some (val, extra)" "unpack_old_mc_block_id (Some val) (found_key key) blkid end_lt = (True, b, block_lt v)"
      "is_block v b (block_lt v)" using t(2) by (auto simp: Some e)
    have ex: "\<exists>v \<in> snd ` set es. key_flag v \<and> req \<le> block_seqno v" and q: "req \<le> bi_seqno b"
      using l f(3) by (auto simp: least_block_def is_block_def)
    then have "get_next_key_block sha256 key0 cfg req blkid end_lt = Inr ((True, b, block_lt v), cfg)" unfolding e0 f(1) by (simp add: f(2))
    moreover have "reports (True, b, block_lt v) v" using f(3) by (simp add: reports_def)
    ultimately show ?thesis unfolding if_P [OF ex] using l by blast
  qed
qed

end
