(* ===== verification/Block_Ids.thy ===== *)
theory Block_Ids
  imports Block_Found
begin

text \<open>
  Old blocks by number, and references to blocks in cells: what is written for a block is read back, by
  either of the two pairs of functions.
\<close>

unbundle bit_operations_syntax

section \<open>By number\<close>

lemma seqno_key_bits: "ptr_bits (seqno_key q, 0) 32 = low_bits 32 q" and seqno_key_ok: "ptr_ok (seqno_key q, 0) 32"
proof -
  have "bits_of (seqno_key q) = overwrite (bits_of (replicate 4 (0 :: byte))) 0 (low_bits 32 (ucast q :: u64))"
    unfolding seqno_key_def by (rule bits_store_long_correct) simp_all
  moreover have "low_bits 32 (ucast q :: u64) = low_bits 32 q" by (rule nth_equalityI) (auto simp: bit_views bit_simps)
  moreover have "length (bits_of (replicate 4 (0 :: byte))) = 32" by simp
  ultimately have b: "bits_of (seqno_key q) = low_bits 32 q" by (simp add: overwrite_def)
  then show "ptr_bits (seqno_key q, 0) 32 = low_bits 32 q" by (simp add: ptr_bits_def)
  show "ptr_ok (seqno_key q, 0) 32" using arg_cong [OF b, of length] by (simp add: ptr_ok_def)
qed

lemma prev_blocks_lookup:
  assumes d: "prev_blocks d es"
  obtains (found) s v where "aug_lookup aug_OldMcBlocksInfo sha256 d (seqno_key q, 0) 32 = Inr (Some s, d)" "slice_ok s" "content s = v"
      "(low_bits 32 q, v) \<in> set es" "block_entry (low_bits 32 q, v)" "block_seqno v = q"
    | (missing) "aug_lookup aug_OldMcBlocksInfo sha256 d (seqno_key q, 0) 32 = Inr (None, d)" "\<forall>v \<in> snd ` set es. block_seqno v \<noteq> q"
proof -
  obtain x where x: "aug_inv leaf_key_lt max_key_lt empty_key_lt is_key_lt d 32 es x" using d by (auto simp: prev_blocks_def)
  obtain r where r: "aug_lookup aug_OldMcBlocksInfo sha256 d (seqno_key q, 0) 32 = Inr (r, d)" "value_of r = map_of es (low_bits 32 q)" "value_ok r"
    using old_blocks.aug_lookup_ok [OF x seqno_key_ok] unfolding seqno_key_bits by blast
  show ?thesis
  proof (cases r)
    case None
    then have n: "low_bits 32 q \<notin> fst ` set es" using r(2) by (simp add: value_of_def eq_commute [of None] map_of_eq_None_iff)
    have "\<forall>v \<in> snd ` set es. block_seqno v \<noteq> q"
    proof
      fix v assume "v \<in> snd ` set es"
      then obtain k where e: "(k, v) \<in> set es" by auto
      then have "k = low_bits 32 (block_seqno v)" using d by (force simp: prev_blocks_def block_entry_def)
      then show "block_seqno v \<noteq> q" using n e by force
    qed
    then show ?thesis using missing r(1) None by blast
  next
    case (Some s)
    then have m: "map_of es (low_bits 32 q) = Some (content s)" "slice_ok s" using r(2,3) by (simp_all add: value_of_def value_ok_def content_def)
    have e: "(low_bits 32 q, content s) \<in> set es" by (rule map_of_SomeD [OF m(1)])
    then have b: "block_entry (low_bits 32 q, content s)" using d by (auto simp: prev_blocks_def)
    then have "unat (block_seqno (content s)) = unat q" using seqno_of_bits by (metis block_entry_def fst_conv snd_conv)
    then have "block_seqno (content s) = q" by (simp only: word_unat_eq_iff)
    then show ?thesis using found r(1) Some m(2) e b by simp
  qed
qed

theorem get_old_mc_block_id_ok:
  assumes d: "prev_blocks d es"
  shows "\<exists>r. get_old_mc_block_id sha256 d q blkid end_lt = Inr (r, d)
     \<and> (if \<exists>v \<in> snd ` set es. block_seqno v = q then \<exists>v \<in> snd ` set es. block_seqno v = q \<and> reports r v else \<not> fst r)"
  using d
proof (cases rule: prev_blocks_lookup [where q = q and ?sha256.0 = sha256])
  case (found s v)
  obtain b where "unpack_old_mc_block_id (Some s) q blkid end_lt = (True, b, block_lt v)" "is_block v b (block_lt v)"
    by (rule unpack_old_mc_block_id_ok [OF found(2,3,5) refl])
  then have r: "get_old_mc_block_id sha256 d q blkid end_lt = Inr ((True, b, block_lt v), d)" "reports (True, b, block_lt v) v"
    using found(1) by (simp_all add: get_old_mc_block_id_def reports_def)
  have v: "v \<in> snd ` set es" using imageI [OF found(4), of snd] by simp
  then have ex: "\<exists>v \<in> snd ` set es. block_seqno v = q" using found(6) by (rule rev_bexI)
  show ?thesis unfolding if_P [OF ex] by (intro exI conjI bexI) (rule r(1), rule found(6), rule r(2), rule v)
next
  case missing
  have none: "\<not> (\<exists>v \<in> snd ` set es. block_seqno v = q)" using missing(2) by blast
  show ?thesis unfolding if_not_P [OF none] by (simp add: get_old_mc_block_id_def missing(1) unpack_old_mc_block_id_def)
qed

lemma is_block_unique:
  assumes "is_block v b lt" and "is_block v b' lt'" and "length (bi_root_hash b) = length (bi_root_hash b')"
    and "length (bi_file_hash b) = length (bi_file_hash b')"
  shows "b = b'"
  using assms bits_of_inject [of "bi_root_hash b" "bi_root_hash b'"] bits_of_inject [of "bi_file_hash b" "bi_file_hash b'"]
  by (simp add: is_block_def)

theorem check_old_mc_block_id_ok:
  assumes d: "prev_blocks d es" and b: "length (bi_root_hash blkid) = 32" "length (bi_file_hash blkid) = 32"
  shows "check_old_mc_block_id sha256 d blkid = Inr (\<exists>v \<in> snd ` set es. is_block v blkid (block_lt v), d)"
proof (cases "is_masterchain_ext blkid")
  case False
  then show ?thesis by (auto simp: check_old_mc_block_id_def is_block_def is_masterchain_ext_def)
next
  case True
  from d show ?thesis
  proof (cases rule: prev_blocks_lookup [where q = "bi_seqno blkid" and ?sha256.0 = sha256])
    case (found s v)
    obtain b where u: "unpack_old_mc_block_id (Some s) (bi_seqno blkid) new_block_id 0 = (True, b, block_lt v)" "is_block v b (block_lt v)"
      "length (bi_root_hash b) = 32" "length (bi_file_hash b) = 32"
      by (rule unpack_old_mc_block_id_ok [OF found(2,3,5) refl])
    have "b = blkid \<longleftrightarrow> (\<exists>v \<in> snd ` set es. is_block v blkid (block_lt v))"
    proof
      assume "b = blkid"
      moreover have "v \<in> snd ` set es" using found(4) by force
      ultimately show "\<exists>v \<in> snd ` set es. is_block v blkid (block_lt v)" using u(2) by blast
    next
      assume "\<exists>v \<in> snd ` set es. is_block v blkid (block_lt v)"
      then obtain k w where w: "(k, w) \<in> set es" "is_block w blkid (block_lt w)" by auto
      then have k: "k = low_bits 32 (bi_seqno blkid)" using d by (force simp: prev_blocks_def block_entry_def is_block_def)
      have srt: "sorted_wrt (\<lambda>e f. block_seqno (snd e) < block_seqno (snd f)) es" by (rule prev_blocks_sorted [OF d])
      have "block_seqno w = block_seqno v" using w(2) found(6) by (simp add: is_block_def)
      moreover have "w = v" if "block_seqno w = block_seqno v"
      proof -
        obtain i j where ij: "i < length es" "es ! i = (k, w)" "j < length es" "es ! j = (low_bits 32 (bi_seqno blkid), v)"
          using w(1) found(4) by (auto simp: in_set_conv_nth)
        have "\<not> i < j" "\<not> j < i" using sorted_wrt_nth_less [OF srt] ij that by fastforce+
        then show ?thesis using ij k by simp
      qed
      ultimately show "b = blkid" using is_block_unique [OF u(2)] w(2) u(3,4) b by metis
    qed
    then show ?thesis using True found(1) u(1) by (simp add: check_old_mc_block_id_def)
  next
    case missing
    then show ?thesis using True by (auto simp: check_old_mc_block_id_def unpack_old_mc_block_id_def is_block_def)
  qed
qed

section \<open>Writing a reference\<close>

lemma pack_stores:
  assumes "er_end_lt data = lt" and "er_seq_no data = bi_seqno b" and "er_root_hash data = bi_root_hash b" and "er_file_hash data = bi_file_hash b"
  shows "ext_blk_ref_pack cb data = store_block_ref cb b lt"
proof -
  have "unat (ucast (bi_seqno b) :: u64) < 2 ^ 32" using unsigned_less [of "bi_seqno b", where 'a = nat] by (simp add: unsigned_ucast_eq take_bit_nat_eq_self)
  then have n: "store_ulong_rchk_bool cb (ucast (bi_seqno b)) 32 = store_long_bool cb (ucast (bi_seqno b)) 32" for cb
    by (subst store_ulong_rchk_bool_eq) simp_all
  have l: "store_ulong_rchk_bool cb lt 64 = store_long_bool cb lt 64" for cb
    using unsigned_less [of lt, where 'a = nat] by (subst store_ulong_rchk_bool_eq) simp_all
  show ?thesis unfolding ext_blk_ref_pack_def store_block_ref_def assms n l by (rule refl)
qed

lemma store_with_room:
  assumes "appends b (fst x) (snd x) r" and "length (fst x) \<le> remaining_bits b" and "length (snd x) \<le> remaining_refs b"
  obtains b' where "r = (True, b')" "added b x b'"
  using assms appends_added [OF assms(1)] by (cases r) (auto simp: appends_def)

lemma store_block_ref_adds:
  assumes cb: "builder_ok cb" "608 \<le> remaining_bits cb" and b: "length (bi_root_hash b) = 32" "length (bi_file_hash b) = 32"
  obtains cb' where "store_block_ref cb b lt = (True, cb')"
    "added cb (low_bits 64 lt @ low_bits 32 (bi_seqno b) @ bits_of (bi_root_hash b) @ bits_of (bi_file_hash b), []) cb'"
proof -
  have q: "low_bits 32 (ucast (bi_seqno b) :: u64) = low_bits 32 (bi_seqno b)" by (rule nth_equalityI) (auto simp: bit_views bit_simps)
  obtain c1 where c1: "store_long_bool cb lt 64 = (True, c1)" "added cb (low_bits 64 lt, []) c1"
    by (rule store_with_room [of cb "(low_bits 64 lt, [])" "store_long_bool cb lt 64"])
      (use store_long_bool_appends [OF cb(1), of 64 lt] cb in simp_all)
  have r1: "builder_ok c1" "544 \<le> remaining_bits c1" using c1(2) added_room(1) [OF c1(2) cb(1)] cb(2) by (simp_all add: added_def)
  obtain c2 where c2: "store_long_bool c1 (ucast (bi_seqno b)) 32 = (True, c2)" "added c1 (low_bits 32 (bi_seqno b), []) c2"
    by (rule store_with_room [of c1 "(low_bits 32 (bi_seqno b), [])" "store_long_bool c1 (ucast (bi_seqno b)) 32"])
      (use store_long_bool_appends [OF r1(1), of 32 "ucast (bi_seqno b)"] q r1 in simp_all)
  have r2: "builder_ok c2" "512 \<le> remaining_bits c2" using c2(2) added_room(1) [OF c2(2) r1(1)] r1(2) by (simp_all add: added_def)
  obtain c3 where c3: "store_bits_bool c2 (bi_root_hash b) 256 0 = (True, c3)" "added c2 (bits_of (bi_root_hash b), []) c3"
    by (rule store_with_room [of c2 "(bits_of (bi_root_hash b), [])" "store_bits_bool c2 (bi_root_hash b) 256 0"])
      (use store_bits_bool_appends [OF r2(1), of 0 256 "bi_root_hash b"] r2 b in simp_all)
  have r3: "builder_ok c3" "256 \<le> remaining_bits c3" using c3(2) added_room(1) [OF c3(2) r2(1)] r2(2) b by (simp_all add: added_def)
  obtain c4 where c4: "store_bits_bool c3 (bi_file_hash b) 256 0 = (True, c4)" "added c3 (bits_of (bi_file_hash b), []) c4"
    by (rule store_with_room [of c3 "(bits_of (bi_file_hash b), [])" "store_bits_bool c3 (bi_file_hash b) 256 0"])
      (use store_bits_bool_appends [OF r3(1), of 0 256 "bi_file_hash b"] r3 b in simp_all)
  show ?thesis
    by (rule that [of c4]) (use c1 c2 c3 c4 in \<open>simp_all add: store_block_ref_def added_def\<close>)
qed

text \<open>A masterchain block is read back, with its time, by \<open>unpack_block_ref\<close>.\<close>

theorem unpack_stored:
  assumes s: "slice_ok s" "content s = (low_bits 64 lt @ low_bits 32 (bi_seqno b) @ bits_of (bi_root_hash b) @ bits_of (bi_file_hash b), [])"
    and b: "is_masterchain_ext b" "length (bi_root_hash b) = 32" "length (bi_file_hash b) = 32"
  shows "unpack_block_ref (Some s) blkid end_lt = (True, b, lt)"
proof -
  define v :: dict_val where "v = (False # slice_bits s, [])"
  have bits: "slice_bits s = low_bits 64 lt @ low_bits 32 (bi_seqno b) @ bits_of (bi_root_hash b) @ bits_of (bi_file_hash b)"
    "slice_children s = []" using s(2) by (simp_all add: content_def)
  have len: "length (slice_bits s) = 608" using b unfolding bits by simp
  have v: "slice_bits s = drop 1 (fst v)" "609 \<le> length (fst v)" using len by (simp_all add: v_def)
  obtain data s' where U: "ext_blk_ref_unpack s = (Some data, s')" "reads s 608 0 s'" "er_end_lt data = block_lt v" "er_seq_no data = block_seqno v"
    "length (er_root_hash data) = 32" "length (er_file_hash data) = 32"
    "bits_of (er_root_hash data) = take 256 (drop 97 (fst v))" "bits_of (er_file_hash data) = take 256 (drop 353 (fst v))"
    by (rule ext_blk_ref_unpack_ok [OF s(1) v])
  have "block_lt v = lt" by (simp add: block_lt_def v_def bits word_of_low_bits take_bit_word_eq_self)
  moreover have "block_seqno v = bi_seqno b" by (simp add: block_seqno_def v_def bits word_of_low_bits take_bit_word_eq_self)
  moreover have "er_root_hash data = bi_root_hash b" "er_file_hash data = bi_file_hash b"
    using U(5-8) b by (simp_all add: v_def bits bits_of_inject [symmetric])
  moreover have "slice_size s' = 0" "slice_size_refs s' = 0"
    using reads_size [OF U(2) s(1)] len slice_size_bits [OF s(1)] bits(2) length_slice_children [OF s(1)] by simp_all
  moreover have "bi_workchain b = masterchainId" "bi_shard b = shardIdAll" using b(1) by (simp_all add: is_masterchain_ext_def)
  ultimately show ?thesis using U(1,3,4) by (cases b) (simp add: unpack_block_ref_def)
qed

theorem block_ref_round_trip:
  assumes b: "is_masterchain_ext b" "length (bi_root_hash b) = 32" "length (bi_file_hash b) = 32"
  shows "\<exists>cb. store_block_ref empty_builder b lt = (True, cb) \<and> builder_ok cb
     \<and> (\<forall>s. slice_ok s \<and> content s = (builder_out cb, b_refs cb) \<longrightarrow> unpack_block_ref (Some s) blkid end_lt = (True, b, lt))"
proof -
  have "608 \<le> remaining_bits empty_builder" by (simp add: remaining_bits_def empty_builder_def new_builder_def)
  from store_block_ref_adds [OF builder_ok_empty this b(2,3), of lt] obtain cb where cb: "store_block_ref empty_builder b lt = (True, cb)"
    "added empty_builder (low_bits 64 lt @ low_bits 32 (bi_seqno b) @ bits_of (bi_root_hash b) @ bits_of (bi_file_hash b), []) cb" .
  then have "builder_ok cb" "(builder_out cb, b_refs cb) = (low_bits 64 lt @ low_bits 32 (bi_seqno b) @ bits_of (bi_root_hash b) @ bits_of (bi_file_hash b), [])"
    using fresh_empty by (simp_all add: added_def fresh_def)
  then show ?thesis using cb(1) unpack_stored [OF _ _ b] by auto
qed

end
