(* ===== verification/Block_Samples.thy ===== *)
theory Block_Samples
  imports Block_Ids Samples
begin

text \<open>
  A dictionary of two old blocks on which the properties are instantiated: the key block 0, which ends at
  the time 5, and the block 1, which ends at the time 9.
\<close>

definition block_value :: "bool \<Rightarrow> u64 \<Rightarrow> u32 \<Rightarrow> dict_val" where
  "block_value key lt seqno = (key # low_bits 64 lt @ low_bits 32 seqno @ replicate 512 False, [])"

definition block_leaf_0 :: cell where
  "block_leaf_0 = Data_Cell (plain_info 676 0) ([0x20] @ replicate 7 0 @ [0xb0] @ replicate 7 0 @ [0x50] @ replicate 67 0 @ [0x8]) [] [replicate 32 0] [0]"

definition block_leaf_1 :: cell where
  "block_leaf_1 = Data_Cell (plain_info 676 0) (replicate 7 0 @ [0x1, 0x20] @ replicate 7 0 @ [0x90, 0x0, 0x0, 0x0, 0x10] @ replicate 63 0 @ [0x8]) [] [replicate 32 0] [0]"

definition blocks_root :: cell where
  "blocks_root = Data_Cell (plain_info 74 2) ([0xcf, 0xc0] @ replicate 6 0 @ [0x2, 0x60]) [block_leaf_0, block_leaf_1] [replicate 32 0] [1]"

definition blocks_dict :: dict where
  "blocks_dict = \<lparr>d_root = None, d_root_cell = Some blocks_root, d_key_bits = 32, d_flags = f_valid\<rparr>"

definition block_entries :: "dict_entry list" where
  "block_entries = [(low_bits 32 (0 :: u32), block_value True 5 0), (low_bits 32 (1 :: u32), block_value False 9 1)]"

definition blocks_config :: mc_config where
  "blocks_config = \<lparr>mc_block_id = new_block_id\<lparr>bi_seqno := 2\<rparr>, mc_lt = 12, mc_is_key_state = False, mc_prev_blocks = Some blocks_dict\<rparr>"

lemma wf_blocks: "wf_cell block_leaf_0" "wf_cell block_leaf_1" "wf_cell blocks_root"
  by code_simp+

lemma ordinary_blocks: "ordinary block_leaf_0" "ordinary block_leaf_1" "ordinary blocks_root"
  using wf_blocks by (simp_all add: ordinary_def block_leaf_0_def block_leaf_1_def blocks_root_def plain_info_def)

lemma blocks_bits:
  "cell_bits block_leaf_0 = False # False # fst (joined (leaf_key_lt (block_value True 5 0)) (block_value True 5 0))"
  "cell_bits block_leaf_1 = False # False # fst (joined (leaf_key_lt (block_value False 9 1)) (block_value False 9 1))"
  "cell_bits blocks_root = [True, True, False, False, True, True, True, True, True] @ fst (key_lt True 9)"
  by code_simp+

lemma sample_leaf_rep:
  assumes "ordinary c" and "cell_bits c = False # False # fst (joined (leaf_key_lt v) v)" and "c_refs c = []" and "snd v = []" and "65 \<le> length (fst v)"
  shows "blocks_rep 0 c [([], v)] (leaf_key_lt v)"
  by (rule aug_leaf [where ls = "[]" and v = v]) (use assms in \<open>simp_all add: node_cell_def joined_def leaf_key_lt_def is_key_lt_def\<close>)

lemma blocks_root_rep: "blocks_rep 32 blocks_root block_entries (key_lt True 9)"
proof -
  have a: "blocks_rep 0 block_leaf_0 [([], block_value True 5 0)] (leaf_key_lt (block_value True 5 0))"
    by (rule sample_leaf_rep [OF ordinary_blocks(1) blocks_bits(1)]) (simp_all add: block_leaf_0_def block_value_def)
  have b: "blocks_rep 0 block_leaf_1 [([], block_value False 9 1)] (leaf_key_lt (block_value False 9 1))"
    by (rule sample_leaf_rep [OF ordinary_blocks(2) blocks_bits(2)]) (simp_all add: block_leaf_1_def block_value_def)
  let ?ls = "replicate 31 False"
  have len: "length ?ls = 31" by simp
  show ?thesis
  proof (rule aug_fork [where ls = ?ls and ea = "[([], block_value True 5 0)]" and eb = "[([], block_value False 9 1)]"
        and a = block_leaf_0 and b = block_leaf_1 and xa = "leaf_key_lt (block_value True 5 0)" and xb = "leaf_key_lt (block_value False 9 1)"])
    have "low_bits 32 (0 :: u32) = replicate 31 False @ [False]" "low_bits 32 (1 :: u32) = replicate 31 False @ [True]" by code_simp+
    then show "block_entries = pre ?ls (pre [False] [([], block_value True 5 0)] @ pre [True] [([], block_value False 9 1)])"
      by (simp add: block_entries_def)
    show "key_lt True 9 = max_key_lt (leaf_key_lt (block_value True 5 0)) (leaf_key_lt (block_value False 9 1))" by code_simp
    have "parse_bits 32 ([True, True, False, False, True, True, True, True, True] @ fst (key_lt True 9)) = Some (?ls, fst (key_lt True 9))"
      by code_simp
    then have "parse_bits 32 (cell_bits blocks_root) = Some (?ls, fst (key_lt True 9))" unfolding blocks_bits(3) .
    moreover have "c_refs blocks_root = block_leaf_0 # block_leaf_1 # snd (key_lt True 9)" by (simp add: blocks_root_def key_lt_def)
    ultimately show "node_cell 32 blocks_root ?ls (fst (key_lt True 9)) (block_leaf_0 # block_leaf_1 # snd (key_lt True 9))"
      unfolding node_cell_def using ordinary_blocks(3) by blast
    show "blocks_rep (32 - length ?ls - 1) block_leaf_0 [([], block_value True 5 0)] (leaf_key_lt (block_value True 5 0))"
      "blocks_rep (32 - length ?ls - 1) block_leaf_1 [([], block_value False 9 1)] (leaf_key_lt (block_value False 9 1))"
      using a b by simp_all
  qed simp_all
qed

lemma blocks_dict_inv: "aug_inv leaf_key_lt max_key_lt empty_key_lt is_key_lt blocks_dict 32 block_entries (key_lt True 9)"
  using blocks_root_rep by (simp add: aug_inv_def blocks_dict_def dict_is_valid_def f_valid_def f_root_cached_def root_extra_def)

lemma block_value_views:
  "key_flag (block_value k lt q) = k" "block_lt (block_value k lt q) = lt" "block_seqno (block_value k lt q) = q"
  by (simp_all add: block_value_def key_flag_def block_lt_def block_seqno_def word_of_low_bits take_bit_word_eq_self)

lemma blocks_dict_prev: "prev_blocks blocks_dict block_entries"
proof -
  have "block_entry (low_bits 32 q, block_value k lt q)" for q k lt
    by (simp add: block_entry_def block_value_views, simp add: block_value_def)
  then have "\<forall>e \<in> set block_entries. block_entry e" by (simp add: block_entries_def)
  then show ?thesis using blocks_dict_inv unfolding prev_blocks_def by blast
qed

text \<open>The same dictionary as a field of a cell: the mark, the extra data, and the tree as a reference.\<close>

definition blocks_field :: cell where
  "blocks_field = Data_Cell (plain_info 66 1) ([0xc0] @ replicate 6 0 @ [0x2, 0x60]) [blocks_root] [replicate 32 0] [2]"

lemma blocks_field_root: "aug_root_slice (Some (slice_NoVm blocks_field)) (Some blocks_root) (key_lt True 9)"
proof -
  have "wf_cell blocks_field" and b: "cell_bits blocks_field = True # fst (key_lt True 9)" by code_simp+
  then have "slice_ok (slice_NoVm blocks_field)" "slice_bits (slice_NoVm blocks_field) = True # fst (key_lt True 9)"
    "slice_children (slice_NoVm blocks_field) = [blocks_root]"
    using slice_NoVm_data_cell unfolding b [symmetric] by (simp_all add: blocks_field_def)
  then show ?thesis by (simp add: aug_root_slice_def content_def joined_def key_lt_def)
qed

text \<open>A builder of a value, and the value as a slice.\<close>

definition value_builder :: builder where
  "value_builder = snd (store_bits_same_bool empty_builder 65 True)"

lemma value_builder: "builder_ok value_builder" "builder_out value_builder = replicate 65 True" "b_refs value_builder = []"
  using store_bits_same_bool_appends [OF builder_ok_empty, of 65 True] fresh_empty
  by (auto simp: value_builder_def appends_def fresh_def remaining_bits_def empty_builder_def new_builder_def)

lemma slice_block_leaf: "aug_val_ok (slice_NoVm block_leaf_0)" "content (slice_NoVm block_leaf_0) = (cell_bits block_leaf_0, [])"
proof -
  have "wf_cell (Data_Cell (c_info block_leaf_0) (c_data block_leaf_0) [] [replicate 32 0] [0])" 
    using wf_blocks(1) by (simp add: block_leaf_0_def)
  note S = slice_NoVm_data_cell [OF this]
  have "block_leaf_0 = Data_Cell (c_info block_leaf_0) (c_data block_leaf_0) [] [replicate 32 0] [0]" by (simp add: block_leaf_0_def)
  then show "aug_val_ok (slice_NoVm block_leaf_0)" "content (slice_NoVm block_leaf_0) = (cell_bits block_leaf_0, [])"
    using S by (simp_all add: aug_val_ok_def content_def)
qed

text \<open>A smaller dictionary with keys of one bit, on which the operations are evaluated.\<close>

definition small_leaf_0 :: cell where
  "small_leaf_0 = Data_Cell (plain_info 132 0) ([0x20] @ replicate 7 0 @ [0xb0] @ replicate 7 0 @ [0x58]) [] [replicate 32 0] [0]"

definition small_leaf_1 :: cell where
  "small_leaf_1 = Data_Cell (plain_info 132 0) (replicate 7 0 @ [0x1] @ [0x20] @ replicate 7 0 @ [0x98]) [] [replicate 32 0] [0]"

definition small_root :: cell where
  "small_root = Data_Cell (plain_info 67 2) ([0x20] @ replicate 6 0 @ [0x1, 0x30]) [small_leaf_0, small_leaf_1] [replicate 32 0] [1]"

definition small_blocks :: dict where
  "small_blocks = \<lparr>d_root = None, d_root_cell = Some small_root, d_key_bits = 1, d_flags = f_valid\<rparr>"

definition small_entries :: "dict_entry list" where
  "small_entries = [([False], key_lt True 5), ([True], key_lt False 9)]"

lemma small_bits:
  "cell_bits small_leaf_0 = False # False # fst (joined (leaf_key_lt (key_lt True 5)) (key_lt True 5))"
  "cell_bits small_leaf_1 = False # False # fst (joined (leaf_key_lt (key_lt False 9)) (key_lt False 9))"
  "cell_bits small_root = False # False # fst (key_lt True 9)"
  by code_simp+

lemma small_ordinary: "ordinary small_leaf_0" "ordinary small_leaf_1" "ordinary small_root"
proof -
  have "wf_cell small_leaf_0" "wf_cell small_leaf_1" "wf_cell small_root" by code_simp+
  then show "ordinary small_leaf_0" "ordinary small_leaf_1" "ordinary small_root"
    by (simp_all add: ordinary_def small_leaf_0_def small_leaf_1_def small_root_def plain_info_def)
qed

lemma small_root_rep: "blocks_rep 1 small_root small_entries (key_lt True 9)"
proof (rule aug_fork [where ls = "[]" and ea = "[([], key_lt True 5)]" and eb = "[([], key_lt False 9)]" and a = small_leaf_0 and b = small_leaf_1
      and xa = "leaf_key_lt (key_lt True 5)" and xb = "leaf_key_lt (key_lt False 9)"])
  show "node_cell 1 small_root [] (fst (key_lt True 9)) (small_leaf_0 # small_leaf_1 # snd (key_lt True 9))"
    using small_ordinary(3) small_bits(3) by (simp add: node_cell_def small_root_def key_lt_def)
  show "key_lt True 9 = max_key_lt (leaf_key_lt (key_lt True 5)) (leaf_key_lt (key_lt False 9))" by code_simp
  show "blocks_rep (1 - length [] - 1) small_leaf_0 [([], key_lt True 5)] (leaf_key_lt (key_lt True 5))"
    using sample_leaf_rep [OF small_ordinary(1) small_bits(1)] by (simp add: small_leaf_0_def key_lt_def)
  show "blocks_rep (1 - length [] - 1) small_leaf_1 [([], key_lt False 9)] (leaf_key_lt (key_lt False 9))"
    using sample_leaf_rep [OF small_ordinary(2) small_bits(2)] by (simp add: small_leaf_1_def key_lt_def)
qed (simp_all add: small_entries_def)

lemma small_inv: "aug_inv leaf_key_lt max_key_lt empty_key_lt is_key_lt small_blocks 1 small_entries (key_lt True 9)"
  using small_root_rep by (simp add: aug_inv_def small_blocks_def dict_is_valid_def f_valid_def f_root_cached_def root_extra_def)

end
