(* ===== verification/Lib_Lookup.thy ===== *)
theory Lib_Lookup
  imports Dict_Samples
begin

text \<open>
  The libraries of the virtual machine: \<open>lookup_library_in\<close> and \<open>VmState::load_library\<close> of
  \<open>crypto/vm/vm.cpp\<close>. A library collection is a dictionary of 256-bit keys; a library is the first reference of
  the value stored under its hash, and it is taken only when this is its hash.
\<close>

section \<open>The code\<close>

text \<open>What the handler for \<open>VmError\<close> catches; \<open>VmVirtError\<close> is another class.\<close>

definition is_vm_error :: "dict_error \<Rightarrow> bool" where
  "is_vm_error e \<longleftrightarrow> (case e of Vm_error _ \<Rightarrow> True | Load_error (Cell_und _) \<Rightarrow> True | _ \<Rightarrow> False)"

text \<open>The dictionary is a temporary of the other function, so that its state is not kept. Its nodes are
  opened as without a virtual machine: the code wants the same, and installs an empty state for the time.\<close>

definition lookup_library_in_dict :: "bit_ptr \<Rightarrow> dict \<Rightarrow> dict_error + cell option" where
  "lookup_library_in_dict key d =
     (case obj_lookup d key 256 of
        Inl e \<Rightarrow> if is_vm_error e then Inr None else Inl e
      | Inr (None, d) \<Rightarrow> Inr None
      | Inr (Some val, d) \<Rightarrow>
          if slice_size_refs val = 0 then Inr None
          else
            (case prefetch_ref val 0 of
               None \<Rightarrow> Inr None
             | Some root \<Rightarrow>
                 if fst (bits_memcmp (get_hash root max_level) 0 (fst key) (snd key) 256) = 0 then Inr (Some root) else Inr None))"

definition lookup_library_in :: "bit_ptr \<Rightarrow> cell option \<Rightarrow> dict_error + cell option" where
  "lookup_library_in key lib_root =
     (if lib_root = None then Inr None
      else bind_err (new_dict_cell lib_root 256 True) (\<lambda>d. lookup_library_in_dict key d))"

text \<open>The collections are tried in order; when the library is in none of them, its hash is noted in \<open>missing_library\<close>.\<close>

fun load_library :: "cell option list \<Rightarrow> bit_ptr \<Rightarrow> bool list option \<Rightarrow> dict_error + cell option \<times> bool list option" where
  "load_library [] key missing = Inr (None, Some (ptr_bits key 256))"
| "load_library (lib # libs) key missing =
     bind_err (lookup_library_in key lib) (\<lambda>r. case r of Some c \<Rightarrow> Inr (Some c, missing) | None \<Rightarrow> load_library libs key missing)"

definition register_library_collection :: "cell option list \<Rightarrow> cell option \<Rightarrow> bool \<times> cell option list" where
  "register_library_collection libs lib = (if lib = None then (True, libs) else (True, libs @ [lib]))"

section \<open>What is found\<close>

lemma entries_wf:
  "dict_rep n c es \<Longrightarrow> \<forall>e \<in> set es. \<forall>r \<in> set (snd (snd e)). wf_cell r"
  "payload_rep m rest refs es \<Longrightarrow> (\<forall>r \<in> set refs. wf_cell r) \<longrightarrow> (\<forall>e \<in> set es. \<forall>r \<in> set (snd (snd e)). wf_cell r)"
  by (induction rule: dict_rep_payload_rep.inducts) (auto simp: pre_def dest: ordinary_refs)

text \<open>The library of a collection with the entries \<open>es\<close>.\<close>

definition library_of :: "bool list \<Rightarrow> dict_entry list \<Rightarrow> cell option" where
  "library_of k es =
     (case map_of es k of
        Some (bs, r # rs) \<Rightarrow> if bits_of (get_hash r max_level) = k then Some r else None
      | _ \<Rightarrow> None)"

lemma library_of_hash: "library_of k es = Some r \<Longrightarrow> bits_of (get_hash r max_level) = k"
  by (auto simp: library_of_def split: option.splits list.splits if_splits)

lemma lookup_library_in_dict_ok:
  assumes d: "dict_inv d 256 es" and key: "ptr_ok key 256"
  shows "lookup_library_in_dict key d = Inr (library_of (ptr_bits key 256) es)"
proof -
  let ?k = "ptr_bits key 256"
  obtain r where r: "obj_lookup d key 256 = Inr (r, d)" "value_of r = map_of es ?k" "value_ok r"
    using obj_lookup_ok [OF d key] by blast
  show ?thesis
  proof (cases r)
    case None
    then have "map_of es ?k = None" using r(2) by (simp add: value_of_def)
    then show ?thesis using r(1) None by (simp add: lookup_library_in_dict_def library_of_def)
  next
    case (Some val)
    then have m: "map_of es ?k = Some (slice_bits val, slice_children val)" and s: "slice_ok val"
      using r(2,3) by (simp_all add: value_of_def value_ok_def)
    have len: "length (slice_children val) = slice_size_refs val" by (rule length_slice_children [OF s])
    show ?thesis
    proof (cases "slice_children val")
      case Nil
      then show ?thesis using r(1) Some m len by (simp add: lookup_library_in_dict_def library_of_def)
    next
      case (Cons root rs)
      have p: "prefetch_ref val 0 = Some root" using prefetch_ref_eq [OF s, of 0] len Cons by simp
      obtain c where c: "d_root_cell d = Some c" "dict_rep 256 c es"
        using d m by (auto simp: dict_inv_def dict_rep_opt_def split: option.splits)
      have "wf_cell root" using entries_wf(1) [OF c(2)] map_of_SomeD [OF m] Cons by fastforce
      then have "length (get_hash root max_level) = 32" using length_get_hash by simp
      then have "fst (bits_memcmp (get_hash root max_level) 0 (fst key) (snd key) 256) = lex_cmp (bits_of (get_hash root max_level)) ?k"
        using key by (simp add: bits_memcmp_correct ptr_ok_def ptr_bits_def)
      then show ?thesis using r(1) Some m len Cons p
        by (simp add: lookup_library_in_dict_def library_of_def lex_cmp_eq_0)
    qed
  qed
qed

lemma new_dict_cell_ok:
  assumes "dict_rep_opt n co es" and "n \<le> max_key_bits"
  shows "\<exists>d. new_dict_cell co (int n) True = Inr d \<and> dict_inv d n es"
proof -
  have v: "\<not> dict_is_valid \<lparr>d_root = None, d_root_cell = co, d_key_bits = int n, d_flags = 0\<rparr>"
    by (simp add: dict_is_valid_bit)
  show ?thesis
    using assms v by (auto simp: new_dict_cell_def finish_new_def force_validate_def dict_validate_def dict_invalidate_def dict_inv_def
        dict_is_valid_bit flag_bits flag_updates bit_flags)
qed

lemma lookup_library_in_ok:
  assumes c: "dict_rep 256 c es" and key: "ptr_ok key 256"
  shows "lookup_library_in key (Some c) = Inr (library_of (ptr_bits key 256) es)"
proof -
  obtain d where "new_dict_cell (Some c) 256 True = Inr d" "dict_inv d 256 es"
    using new_dict_cell_ok [of 256 "Some c" es] c by (auto simp: dict_rep_opt_def)
  then show ?thesis using lookup_library_in_dict_ok [OF _ key] by (simp add: lookup_library_in_def)
qed

text \<open>The first library found in a list of collections, given by their roots and entries.\<close>

fun first_library :: "bool list \<Rightarrow> (cell \<times> dict_entry list) list \<Rightarrow> cell option" where
  "first_library k [] = None"
| "first_library k ((c, es) # cs) = (case library_of k es of Some r \<Rightarrow> Some r | None \<Rightarrow> first_library k cs)"

theorem load_library_ok:
  assumes "\<forall>(c, es) \<in> set cs. dict_rep 256 c es" and key: "ptr_ok key 256"
  shows "load_library (map (\<lambda>x. Some (fst x)) cs) key missing =
    Inr (case first_library (ptr_bits key 256) cs of Some r \<Rightarrow> (Some r, missing) | None \<Rightarrow> (None, Some (ptr_bits key 256)))"
  using assms(1)
proof (induction cs)
  case (Cons x cs)
  obtain c es where x: "x = (c, es)" by (cases x)
  then have "lookup_library_in key (Some c) = Inr (library_of (ptr_bits key 256) es)"
    using Cons.prems lookup_library_in_ok [OF _ key] by simp
  then show ?case using Cons by (simp add: x split: option.splits)
qed simp

lemma first_library_hash: "first_library k cs = Some r \<Longrightarrow> bits_of (get_hash r max_level) = k"
  by (induction cs rule: first_library.induct) (auto simp: library_of_hash split: option.splits)

section \<open>A collection\<close>

text \<open>The hash of every cell is zero here, so that the only library is under the key of zeroes.\<close>

definition library_root :: cell where
  "library_root = Data_Cell (plain_info 12 1) [0xd0, 0x08] [leaf_a] [replicate 32 0] [1]"

lemma library_root_rep: "dict_rep 256 library_root [(replicate 256 False, [], [leaf_a])]"
proof -
  have "wf_cell library_root" by code_simp
  then have o: "ordinary library_root" by (simp add: ordinary_def library_root_def plain_info_def)
  have p: "parse_bits 256 (cell_bits library_root) = Some (replicate 256 False, [])" by code_simp
  have "payload_rep (256 - length (replicate 256 False)) [] (c_refs library_root) [([], [], [leaf_a])]"
    using leaf [of "[]" "[leaf_a]"] by (simp add: library_root_def)
  from node [OF o p this] show ?thesis by simp
qed

end
