(* ===== verification/Spec2Isabelle.thy ===== *)
theory Spec2Isabelle
  imports Merkle Slice_Quirks Samples Dict_Access Dict_Filter Dict_Prefix Dict_Visit Dict_Combine Dict_Scan Pfx_Change Iter_Lookup Dict_Samples Bit_Text Block_Samples Lib_Lookup
begin

text \<open>
  Verification development for the cell layer of the TON virtual machine, as it is contained in this
  repository under \<open>src/tonlib/ton/crypto\<close>: bit strings, cells, cell builders and slices, Merkle
  proofs and dictionaries, with the dictionary of old masterchain blocks as a client. The desktop wallet reads every balance, account state and contract through
  this layer.

  How the parts interact. A cell holds up to 1023 bits and four references to other cells. Cells are
  made by a \<open>CellBuilder\<close>, which appends fields and then finalizes, and are read through a \<open>CellSlice\<close>,
  a window into the bits and references of one cell. Every cell has a hash, and a special cell can stand
  for a tree that has been cut off (pruned branch) or vouch for one (Merkle proof). Dictionaries are
  binary tries whose nodes are cells with compressed labels; all their operations open cells with
  slices and write new cells with builders. Builders and slices copy and compare bits that do not
  start at byte boundaries, with the routines of \<open>bitstring.cpp\<close>.

  Theories and sources (under \<open>src/tonlib/ton/\<close>):
    \<^item> \<open>Prelude\<close>: bytes, bits of byte lists and words, the collection \<open>bit_views\<close>.
    \<^item> \<open>Bit_Copy\<close>, \<open>Bit_Load\<close>, \<open>Bit_Scan\<close>: \<open>crypto/common/bitstring.cpp\<close>. A pointer into a buffer is the list
      of its bytes with a bit offset; words are 32 or 64 bits wide as in the code. The lemmas \<open>..._correct\<close>
      state each routine against the list of bits: copying overwrites a segment, scanning counts a run,
      comparison finds the first difference.
    \<^item> \<open>Bit_Ptr\<close>, \<open>Bit_Text\<close>: pointers to bits (\<open>bitstring.h\<close>) and the text forms of bit strings (\<open>bitstring.cpp\<close>).
      \<open>hex_text\<close> is the hexadecimal text of a list of bits and \<open>hex_literal\<close> reads a text; writer and parser are
      proved against them, and reading what was written gives the bits back.
    \<^item> \<open>Level_Mask\<close>: \<open>crypto/vm/cells/LevelMask.h\<close>.
    \<^item> \<open>Cells\<close>, \<open>Cell_Hash\<close>: \<open>DataCell.cpp\<close>, \<open>VirtualCell.h\<close>: creation with its checks, hashes and depths for every
      level, virtualization, serialization. \<open>wf_cell\<close> is the invariant that creation establishes; for
      ordinary cells the hash determines the tree up to a collision of the hash function.
    \<^item> \<open>Cell_Builder\<close>, \<open>Builder_Hash\<close>, \<open>Merkle\<close>: \<open>CellBuilder.cpp\<close>. \<open>appends\<close> is the specification of storing: all or
      nothing, in order; the interpretations of the field locales give it for sequences of fields.
    \<^item> \<open>Cell_Slice\<close>, \<open>Slice_Ops\<close>, \<open>Slice_View\<close>, \<open>Slice_Codec\<close>, \<open>Slice_Quirks\<close>: \<open>CellSlice.cpp\<close>, with the preloading cache.
      \<open>slice_ok\<close> is the invariant of the window and the cache, \<open>reads\<close> the specification of reading;
      \<open>Slice_Codec\<close> joins builders and slices in round trips.
    \<^item> \<open>Dict_Label\<close>: \<open>LabelParser\<close> and \<open>append_dict_label\<close> of \<open>crypto/vm/dict.cpp\<close>. \<open>parse_bits\<close> and \<open>label_code\<close> are the
      format of a label; the code is proved against them and they are inverse to each other.
    \<^item> \<open>Dict_Node\<close>: \<open>dict_rep n c es\<close>, the cell \<open>c\<close> is a dictionary of \<open>n\<close>-bit keys with the entries \<open>es\<close>, which are
      sorted and of length \<open>n\<close>.
    \<^item> \<open>Dict_Set\<close>, \<open>Dict_Delete\<close>, \<open>Dict_Order\<close>, \<open>Dict_Map\<close>, \<open>Dict_Filter\<close>, \<open>Dict_Prefix\<close>, \<open>Dict_Combine\<close>,
      \<open>Dict_Visit\<close>, \<open>Dict_Scan\<close>: the operations on the trees of cells, one theory for each group of
      operations, with the theorems that they do on the map of entries what they promise.
    \<^item> \<open>Dict_Object\<close>, \<open>Dict_Store\<close>, \<open>Dict_Access\<close>: the classes \<open>DictionaryBase\<close>, \<open>DictionaryFixed\<close> and \<open>Dictionary\<close>;
      \<open>dict_inv\<close> is the invariant of an object, and the locale \<open>map_store\<close> is what a client relies on.
    \<^item> \<open>Pfx_Dict\<close>, \<open>Pfx_Change\<close>: \<open>PrefixDictionary\<close>, whose keys have different lengths and none is a prefix of
      another (\<open>pfx_rep\<close> and \<open>pfx_inv\<close>).
    \<^item> \<open>Dict_Iterator\<close>, \<open>Iter_Lookup\<close>: \<open>DictIterator\<close>. \<open>spine\<close> relates the path of an iterator to the entries before and
      behind it; the locale \<open>cursor\<close> is what a client that walks over the entries relies on.
    \<^item> \<open>Aug_Dict\<close>: \<open>AugmentedDictionary\<close>, whose leaves and forks carry extra data: those of a leaf are made from the
      value, those of a fork from the extra data below. \<open>Aug_Rep\<close>, \<open>Aug_Change\<close>, \<open>Aug_Store\<close>, \<open>Aug_Root\<close>, \<open>Aug_Checks\<close> prove the
      operations for every augmentation with the laws of the locale \<open>augmentation_laws\<close>; \<open>aug_rep\<close> and \<open>aug_inv\<close> say that the
      extra data are right at every node, and \<open>aug_ok\<close> is \<open>dict_ok\<close> with the errors of an augmentation.
      \<open>Aug_Traverse\<close>: the search guided by extra data (\<open>traverse_extra\<close>); the locale \<open>traverse_guide\<close> is what the function
      of the caller has to promise so that the search hands out the first or the last entry wanted.
    \<^item> \<open>Lib_Lookup\<close>: \<open>lookup_library_in\<close> and \<open>VmState::load_library\<close> (\<open>crypto/vm/vm.cpp\<close>), which find the cells that library
      cells stand for in dictionaries, and check their hashes.
    \<^item> \<open>Old_Blocks\<close>, \<open>Block_Search\<close>: the dictionary of old masterchain blocks (\<open>crypto/block/block-parse.cpp\<close>, \<open>block.cpp\<close> and
      \<open>mc-config.cpp\<close>) with its searches by number, by time and for key blocks. \<open>Old_Blocks\<close> proves the laws for its
      augmentation, \<open>Block_Found\<close> and \<open>Block_Ids\<close> state the searches in terms of the blocks stored (\<open>prev_blocks\<close>).
    \<^item> \<open>Samples\<close>, \<open>Dict_Samples\<close>, \<open>Block_Samples\<close>: concrete cells and dictionaries for the witnesses.
  Errors are values: \<open>builder_error\<close>, \<open>load_error\<close> and \<open>dict_error\<close> have a constructor for each exception, and a
  method that reports failure by its result gives that result. \<open>dict_ok P r\<close> says that an operation
  gave a result with \<open>P\<close> or ran out of room in a cell (a full cell, or a tree deeper than 1024), which
  are the only ways in which the operations on well-formed dictionaries fail.

  Parameters. SHA-256 is a function from bytes to bytes; the theorems that need it assume that a hash has
  32 bytes. The library resolver of the virtual machine, and the functions that callers hand to
  dictionaries, are parameters; what is relied on is stated in the locales \<open>value_store\<close>, \<open>map_function\<close>,
  \<open>filter_function\<close>, \<open>diff_function\<close>, \<open>augmentation_laws\<close>, \<open>traverse_guide\<close> and the like, each with an interpretation on functions of the code.

  Bounds and termination. Keys have at most 1023 bits (\<open>max_key_bits\<close>) and every step of a recursion over a
  dictionary consumes at least one of them, so the recursions are defined with their measure and
  no fuel; the labels that the parser accepts are never longer than what is left of the key. The
  only loop without a bound of its own, the resolution of library cells, is a partial function, and a
  theorem shows that it ends when the libraries do not lead back to themselves (a library is found by
  its hash, so that a cycle would be a cycle of hashes). Buffers for keys have 128 bytes.

  Not modelled. Reference counting and the sharing of cells (a cell is its value; usage trees and
  external cells, which load on demand, are left out); integers of 257 bits (\<open>store_int256\<close> and the like);
  of \<open>AugmentedDictionary\<close>, \<open>check_for_each_extra\<close>, \<open>validate_check_extra\<close> and the operations on whole dictionaries
  that it inherits; bags of cells; the text output of cells and slices; logging; the exact wording of
  exceptions; the virtual machine itself, the block layout (generated parsers and hand-written ones)
  but for the dictionary of old blocks, networking, key management and the desktop
  application. Generated code (\<open>block-auto\<close>, \<open>ton_api\<close>) makes up most of the repository and is the
  output of generators from schemes.
\<close>

section \<open>Properties\<close>

text \<open>
  C1. Two trees of ordinary cells with the same hash (at any levels) are the same tree, or the messages hashed for their cells contain a collision of the hash function.
\<close>

theorem cell_hash_identifies:
  assumes "plain sha256 c" and "plain sha256 c'" and "\<And>x. length (sha256 x) = hash_bytes"
    and "get_hash c l = get_hash c' l'"
  shows "c = c' \<or> collision_in sha256 c c'"
  by (rule hash_determines_plain [OF assms])

lemma cell_hash_identifies_witness:
  "leaf_a = leaf_b \<or> collision_in zero_hash leaf_a leaf_b"
  by (rule cell_hash_identifies [OF plain_leaf_a plain_leaf_b, of 0 0])
    (simp_all add: zero_hash_def leaf_a_def leaf_b_def data_get_hash_def data_special_type_def plain_info_def)

text \<open>
  C2. A cell that create accepts is well formed (sizes of the data, hashes and depths at every significant level, level mask, layout of pruned branches), keeps the references and the special flag, and its data are the given bits followed by the completion tag.
\<close>

theorem created_cell_well_formed:
  assumes "create sha256 data offs bits (map Some refs) special = Inr c"
    and "\<And>x. length (sha256 x) = hash_bytes" and "\<forall>r \<in> set refs. wf_cell r" and "offs + bits \<le> 8 * length data"
  shows "wf_cell c \<and> c_refs c = refs \<and> i_bits (c_info c) = bits \<and> i_is_special (c_info c) = special
     \<and> bits_of (c_data c) = take bits (drop offs (bits_of data)) @ tag_bits bits"
  using create_wf [OF assms] by blast

lemma created_cell_well_formed_witness:
  "wf_cell leaf_b \<and> bits_of (c_data leaf_b) = bits_of [7]"
  using created_cell_well_formed [OF leaf_b_created] by (simp add: zero_hash_def tag_bits_def)

text \<open>
  C3. Numbers stored with their widths in an empty builder, finalized to a cell and opened as a slice are read back by the same widths, each reduced to its width, and nothing is left.
\<close>

theorem fields_survive_cell:
  assumes "store_all put_field fs empty_builder = Inr b" and "\<forall>f \<in> set fs. snd f \<le> 64"
    and "finalize sha256 b False = Inr c" and "\<And>x. length (sha256 x) = hash_bytes"
  shows "\<exists>s'. load_all get_field (map snd fs) (slice_NoVm c) = Some (map (\<lambda>f. take_bit (snd f) (fst f)) fs, s')
     \<and> slice_bits s' = []"
  by (rule fields_round_trip [OF assms])

lemma fields_survive_cell_witness:
  "\<exists>c s'. load_all get_field [5, 64] (slice_NoVm c) = Some ([21, 7], s') \<and> slice_bits s' = []"
proof -
  obtain b where b: "store_all put_field [(21, 5), (7, 64)] empty_builder = Inr b"
    and c: "\<exists>c. finalize zero_hash b False = Inr c"
    by (rule sample_fields)
  then obtain c where "finalize zero_hash b False = Inr c" by blast
  from fields_survive_cell [OF b _ this] show ?thesis by (auto simp: zero_hash_def take_bit_eq_mod)
qed

text \<open>
  C4. A pruned branch of a well-formed cell can always be built for a level above the level of the cell, has that level, and answers for hash and depth at every lower level as the cell does.
\<close>

theorem pruned_branch_stands_for_cell:
  assumes "wf_cell c" and "virt_level < 32"
    and "mask_level (mask_apply (get_level_mask c) virt_level) < new_level" and "new_level \<le> 3"
  shows "\<exists>p. do_create_pruned_branch sha256 c new_level virt_level = Inr p \<and> get_level p = new_level
     \<and> (\<forall>l < new_level. get_hash p l = get_hash c (min virt_level l) \<and> get_depth p l = get_depth c (min virt_level l))"
  by (rule pruned_branch_answers [OF assms])

lemma pruned_branch_stands_for_cell_witness:
  "\<exists>p. do_create_pruned_branch zero_hash leaf_b 1 3 = Inr p \<and> get_level p = 1
     \<and> (\<forall>l < 1. get_hash p l = get_hash leaf_b (min 3 l) \<and> get_depth p l = get_depth leaf_b (min 3 l))"
  by (rule pruned_branch_stands_for_cell [OF wf_leaf_b]) (simp_all add: leaf_b_def plain_info_def)

text \<open>
  C5. A Merkle proof cell that create accepts has one reference, and its data hold the hash and the depth of that reference at level 0; its level mask is that of the reference shifted down.
\<close>

theorem merkle_proof_commits:
  assumes "create sha256 data offs bits (map Some refs) True = Inr c"
    and "created_type data offs True = MerkleProof"
    and "\<forall>r \<in> set refs. wf_cell r" and "offs + bits \<le> 8 * length data"
  shows "\<exists>r. refs = [r] \<and> take 256 (drop (offs + 8) (bits_of data)) = bits_of (get_hash r 0)
     \<and> nat_of_bits (take 16 (drop (offs + 264) (bits_of data))) = get_depth r 0
     \<and> get_level_mask c = mask_shift_right (get_level_mask r)"
  by (rule merkle_proof_bound [OF assms])

lemma merkle_proof_commits_witness:
  "take 256 (drop 8 (bits_of (3 # replicate 34 0))) = bits_of (get_hash leaf_b 0)"
proof -
  obtain c where c: "create zero_hash (3 # replicate 34 0) 0 280 (map Some [leaf_b]) True = Inr c"
    using sample_proof by blast
  have t: "created_type (3 # replicate 34 0) 0 True = MerkleProof" by code_simp
  from merkle_proof_commits [OF c t] show ?thesis by (simp add: wf_leaf_b)
qed

text \<open>
  C6. In a dictionary of n-bit keys, lookup never throws and gives the value stored under the key, or nothing when the key is not there.
\<close>

theorem dict_lookup_finds:
  assumes "dict_inv d n es" and "ptr_ok key n"
  shows "\<exists>r. obj_lookup d key n = Inr (r, d) \<and> value_of r = map_of es (ptr_bits key n) \<and> value_ok r"
  by (rule obj_lookup_ok [OF assms])

lemma dict_lookup_finds_witness:
  "\<exists>r. obj_lookup sample_dict ([0x80], 0) 1 = Inr (r, sample_dict) \<and> value_of r = Some (bits_of [9], [])"
  using dict_lookup_finds [OF sample_inv sample_keys(1), unfolded sample_keys] by (auto simp: sample_entries_def)

text \<open>
  C7. Setting a key of a dictionary in the mode Set, Replace or Add either has no room in a cell, or changes exactly what the mode allows: the new dictionary is well formed and stands for the old map with the key updated, or for the old map, and the result says which.
\<close>

theorem dict_set_updates:
  assumes "dict_inv d n es" and "ptr_ok key n" and "slice_ok v" and "\<forall>r \<in> set (slice_children v). wf_cell r"
    and "\<And>x. length (sha256 x) = hash_bytes"
  shows "case obj_set sha256 d key n v mode of
      Inl e \<Rightarrow> no_room e
    | Inr (changed, d') \<Rightarrow>
        changed = (\<not> (mode = Mode_Replace \<and> map_of es (ptr_bits key n) = None
                    \<or> mode = Mode_Add \<and> map_of es (ptr_bits key n) \<noteq> None))
        \<and> (\<exists>es'. dict_inv d' n es' \<and> map_of es' =
              (if changed then (map_of es)(ptr_bits key n \<mapsto> (slice_bits v, slice_children v)) else map_of es))"
proof -
  have "slice_ok v \<and> (\<forall>r \<in> set (slice_children v). wf_cell r)" using assms(3,4) by simp
  from slices.set_gen_ok [OF assms(1,2) this assms(5)]
  have "dict_ok (obj_set_result mode n es (ptr_bits key n) (slice_bits v, slice_children v)) (obj_set sha256 d key n v mode)"
    by (simp add: obj_set_def)
  then show ?thesis by (cases "obj_set sha256 d key n v mode") (auto simp only: dict_ok_def obj_set_result_def sum.case prod.case fst_conv snd_conv)
qed

lemma dict_set_updates_witness:
  "case obj_set zero_hash sample_dict ([0x80], 0) 1 (slice_NoVm leaf_b) Mode_Replace of
      Inl e \<Rightarrow> no_room e
    | Inr (changed, d') \<Rightarrow> changed \<and> (\<exists>es'. dict_inv d' 1 es' \<and> map_of es' = (map_of sample_entries)([True] \<mapsto> (bits_of [7], [])))"
proof -
  have "map_of sample_entries [True] \<noteq> None" by (simp add: sample_entries_def)
  with dict_set_updates [OF sample_inv sample_keys(1) slice_leaf_b(1), of zero_hash Mode_Replace, unfolded sample_keys slice_leaf_b]
  show ?thesis by (cases "obj_set zero_hash sample_dict ([0x80], 0) 1 (slice_NoVm leaf_b) Mode_Replace") auto
qed

text \<open>
  C8. Deleting a key that is not there cannot fail and changes nothing. Deleting a key that is there either finds no room in a cell (the label of a merged edge is longer than before), or gives the value that was stored under it and leaves a well-formed dictionary for the map without the key.
\<close>

theorem dict_delete_removes:
  assumes "dict_inv d n es" and "ptr_ok key n" and "\<And>x. length (sha256 x) = hash_bytes"
  shows "if map_of es (ptr_bits key n) = None then lookup_delete sha256 d key n = Inr (None, d)
    else case lookup_delete sha256 d key n of
        Inl e \<Rightarrow> no_room e
      | Inr (old, d') \<Rightarrow> value_of old = map_of es (ptr_bits key n)
          \<and> (\<exists>es'. dict_inv d' n es' \<and> map_of es' = (map_of es)(ptr_bits key n := None))"
  using lookup_delete_absent [OF assms(1,2)] lookup_delete_ok [of d n es key sha256, OF assms]
  by (auto simp: dict_ok_def obj_delete_result_def split: sum.splits)

lemma dict_delete_removes_witness:
  "\<exists>old d' es'. lookup_delete zero_hash sample_dict ([0x80], 0) 1 = Inr (old, d') \<and> value_of old = Some (bits_of [9], [])
     \<and> dict_inv d' 1 es' \<and> map_of es' = (map_of sample_entries)([True] := None)"
proof -
  have "succeeds (lookup_delete zero_hash sample_dict ([0x80], 0) 1)" by code_simp
  then obtain old d' where r: "lookup_delete zero_hash sample_dict ([0x80], 0) 1 = Inr (old, d')" by (auto dest: succeedsD)
  have e: "map_of sample_entries [True] = Some (bits_of [9], [])" by (simp add: sample_entries_def)
  from dict_delete_removes [OF sample_inv sample_keys(1), where ?sha256.0 = zero_hash, OF length_zero_hash, unfolded sample_keys e if_not_P [OF option.distinct(2)] r sum.case prod.case] r
  show ?thesis by blast
qed

text \<open>
  C9. A client that runs any sequence of stores and deletions on a dictionary and then reads a key gets what the same sequence of updates of a map gives, unless some step had no room in a cell.
\<close>

theorem dict_changes_then_read:
  assumes "dict_store sha256 n d m" and "\<forall>c \<in> set cs. change_ok (\<lambda>p. ptr_ok p n) slice_value_ok c" and "ptr_ok p n"
  shows "case run_changes (put_slice sha256 n) (drop_key sha256 n) cs d of
      Inl e \<Rightarrow> no_room e
    | Inr d' \<Rightarrow> read_key n p d' = Inr (effect (\<lambda>p. ptr_bits p n) slice_value cs m (ptr_bits p n))"
  using dict_map_store.read_after_changes [OF assms] by (simp add: dict_ok_def)

lemma dict_changes_then_read_witness:
  "case run_changes (put_slice zero_hash 1) (drop_key zero_hash 1)
        [Drop ([0], 0), Put ([0x80], 0) (slice_NoVm leaf_b)] sample_dict of
      Inl e \<Rightarrow> no_room e
    | Inr d' \<Rightarrow> read_key 1 ([0x80], 0) d' = Inr (Some (bits_of [7], []))"
proof -
  have c: "\<forall>c \<in> set [Drop ([0], 0), Put ([0x80], 0) (slice_NoVm leaf_b)]. change_ok (\<lambda>p. ptr_ok p 1) slice_value_ok c"
    using sample_keys by (simp add: slice_value_ok_def slice_leaf_b)
  have v: "slice_value (slice_NoVm leaf_b) = (bits_of [7], [])" by (simp add: slice_value_def slice_leaf_b)
  show ?thesis
    using dict_changes_then_read [OF sample_store c sample_keys(1), unfolded effect.simps sample_keys v] by (simp only: fun_upd_same)
qed

text \<open>
  C10. ConfigInfo::get_mc_block_by_lt gives the first old masterchain block that ends at the requested time or later; without one it gives the current block, and it refuses a time after the current state. Whatever is in the key buffer does not matter.
\<close>

theorem block_found_by_time:
  assumes "mc_prev_blocks cfg = Some d" and "prev_blocks d es" and "length key0 = 4"
  shows "\<exists>r. get_mc_block_by_lt sha256 key0 cfg req blkid end_lt = Inr (r, cfg)
     \<and> (if mc_lt cfg < req then r = (False, blkid, end_lt)
        else if \<exists>v \<in> snd ` set es. req \<le> block_lt v then \<exists>v. least_block (\<lambda>v. req \<le> block_lt v) es v \<and> reports r v
        else r = (if block_id_is_valid (mc_block_id cfg) then (True, mc_block_id cfg, mc_lt cfg) else (False, blkid, end_lt)))"
  by (rule get_mc_block_by_lt_ok [OF assms])

lemma block_found_by_time_witness:
  "\<exists>b. get_mc_block_by_lt zero_hash (replicate 4 0) blocks_config 6 new_block_id 0 = Inr ((True, b, 9), blocks_config) \<and> bi_seqno b = 1"
proof -
  have c: "mc_prev_blocks blocks_config = Some blocks_dict" "\<not> mc_lt blocks_config < 6" by (simp_all add: blocks_config_def)
  have ex: "\<exists>v \<in> snd ` set block_entries. 6 \<le> block_lt v" by (simp add: block_entries_def block_value_views)
  have key0: "length (replicate 4 (0 :: byte)) = 4" by simp
  from block_found_by_time [OF c(1) blocks_dict_prev key0, where req = 6 and ?sha256.0 = zero_hash and blkid = new_block_id and end_lt = 0, unfolded if_not_P [OF c(2)] if_P [OF ex]]
  obtain r v where r: "get_mc_block_by_lt zero_hash (replicate 4 0) blocks_config 6 new_block_id 0 = Inr (r, blocks_config)"
    "least_block (\<lambda>v. 6 \<le> block_lt v) block_entries v" "reports r v" by blast
  have "v = block_value False 9 1" using r(2) by (auto simp: least_block_def block_entries_def block_value_views)
  then show ?thesis using r(1,3) by (cases r) (auto simp: reports_def is_block_def block_value_views)
qed

text \<open>
  C11. ConfigInfo::get_prev_key_block gives the current block when it is a key block not after the requested number, and otherwise the last old key block with this number or before, with its time and hashes; without one the identifier is invalidated.
\<close>

theorem prev_key_block_found:
  assumes "mc_prev_blocks cfg = Some d" and "prev_blocks d es" and "length key0 = 4"
  shows "\<exists>r. get_prev_key_block sha256 key0 cfg req blkid end_lt = Inr (r, cfg)
     \<and> (if block_id_is_valid (mc_block_id cfg) \<and> mc_is_key_state cfg \<and> bi_seqno (mc_block_id cfg) \<le> req
        then r = (True, mc_block_id cfg, mc_lt cfg)
        else if \<exists>v \<in> snd ` set es. key_flag v \<and> block_seqno v \<le> req
        then \<exists>v. greatest_block (\<lambda>v. key_flag v \<and> block_seqno v \<le> req) es v \<and> reports r v
        else r = (False, block_id_invalidate blkid, end_lt))"
  by (rule get_prev_key_block_ok [OF assms])

lemma prev_key_block_found_witness:
  "\<exists>b. get_prev_key_block zero_hash (replicate 4 0) blocks_config 1 new_block_id 0 = Inr ((True, b, 5), blocks_config) \<and> bi_seqno b = 0"
proof -
  have c: "mc_prev_blocks blocks_config = Some blocks_dict"
    "\<not> (block_id_is_valid (mc_block_id blocks_config) \<and> mc_is_key_state blocks_config \<and> bi_seqno (mc_block_id blocks_config) \<le> 1)"
    by (simp_all add: blocks_config_def)
  have ex: "\<exists>v \<in> snd ` set block_entries. key_flag v \<and> block_seqno v \<le> 1" by (simp add: block_entries_def block_value_views)
  have key0: "length (replicate 4 (0 :: byte)) = 4" by simp
  from prev_key_block_found [OF c(1) blocks_dict_prev key0, where req = 1 and ?sha256.0 = zero_hash and blkid = new_block_id and end_lt = 0, unfolded if_not_P [OF c(2)] if_P [OF ex]]
  obtain r v where r: "get_prev_key_block zero_hash (replicate 4 0) blocks_config 1 new_block_id 0 = Inr (r, blocks_config)"
    "greatest_block (\<lambda>v. key_flag v \<and> block_seqno v \<le> 1) block_entries v" "reports r v" by blast
  have "v = block_value True 5 0" using r(2) by (auto simp: greatest_block_def block_entries_def block_value_views)
  then show ?thesis using r(1,3) by (cases r) (auto simp: reports_def is_block_def block_value_views)
qed

text \<open>
  C12. ConfigInfo::get_next_key_block gives the first old key block with the requested number or after, otherwise the current block when it is such a key block; without one the identifier is invalidated.
\<close>

theorem next_key_block_found:
  assumes "mc_prev_blocks cfg = Some d" and "prev_blocks d es" and "length key0 = 4"
  shows "\<exists>r. get_next_key_block sha256 key0 cfg req blkid end_lt = Inr (r, cfg)
     \<and> (if \<exists>v \<in> snd ` set es. key_flag v \<and> req \<le> block_seqno v
        then \<exists>v. least_block (\<lambda>v. key_flag v \<and> req \<le> block_seqno v) es v \<and> reports r v
        else r = (if block_id_is_valid (mc_block_id cfg) \<and> mc_is_key_state cfg \<and> req \<le> bi_seqno (mc_block_id cfg)
                  then (True, mc_block_id cfg, mc_lt cfg) else (False, block_id_invalidate blkid, end_lt)))"
  by (rule get_next_key_block_ok [OF assms])

lemma next_key_block_found_witness:
  "\<exists>b. get_next_key_block zero_hash (replicate 4 0) blocks_config 0 new_block_id 0 = Inr ((True, b, 5), blocks_config) \<and> bi_seqno b = 0"
proof -
  have c: "mc_prev_blocks blocks_config = Some blocks_dict" by (simp add: blocks_config_def)
  have ex: "\<exists>v \<in> snd ` set block_entries. key_flag v \<and> 0 \<le> block_seqno v" by (simp add: block_entries_def block_value_views)
  have key0: "length (replicate 4 (0 :: byte)) = 4" by simp
  from next_key_block_found [OF c blocks_dict_prev key0, where req = 0 and ?sha256.0 = zero_hash and blkid = new_block_id and end_lt = 0, unfolded if_P [OF ex]]
  obtain r v where r: "get_next_key_block zero_hash (replicate 4 0) blocks_config 0 new_block_id 0 = Inr (r, blocks_config)"
    "least_block (\<lambda>v. key_flag v \<and> 0 \<le> block_seqno v) block_entries v" "reports r v" by blast
  have "v = block_value True 5 0" using r(2) by (auto simp: least_block_def block_entries_def block_value_views)
  then show ?thesis using r(1,3) by (cases r) (auto simp: reports_def is_block_def block_value_views)
qed

text \<open>
  C13. Setting a key of the augmented dictionary of old blocks either reports an error (no room in a cell, or a value without the extra data), or changes what the mode allows: the new dictionary stands for the old map with the key updated, or for the old map, and the extra data at every fork are again the mark of a key block and the greatest time below it.
\<close>

theorem old_blocks_set_updates:
  assumes "aug_inv leaf_key_lt max_key_lt empty_key_lt is_key_lt d n es x" and "ptr_ok key n" and "aug_val_ok v"
    and "\<And>x. length (sha256 x) = hash_bytes"
  shows "case aug_set aug_OldMcBlocksInfo sha256 d key n v mode of
      Inl e \<Rightarrow> no_room e \<or> e = Vm_error Excno_dict_err
    | Inr (changed, d') \<Rightarrow>
        changed = (\<not> (mode = Mode_Replace \<and> map_of es (ptr_bits key n) = None
                    \<or> mode = Mode_Add \<and> map_of es (ptr_bits key n) \<noteq> None))
        \<and> (\<exists>es' x'. aug_inv leaf_key_lt max_key_lt empty_key_lt is_key_lt d' n es' x'
             \<and> map_of es' = (if changed then (map_of es)(ptr_bits key n \<mapsto> content v) else map_of es))"
proof -
  have "aug_ok (aug_obj_set_result leaf_key_lt max_key_lt empty_key_lt is_key_lt mode n es (ptr_bits key n) (content v))
     (aug_set aug_OldMcBlocksInfo sha256 d key n v mode)" by (rule old_blocks.aug_set_ok [OF assms])
  then show ?thesis
    unfolding aug_ok_def aug_obj_set_result_def case_prod_beta .
qed

lemma old_blocks_set_updates_witness:
  "case aug_set aug_OldMcBlocksInfo zero_hash blocks_dict (seqno_key 0, 0) 32 (slice_NoVm block_leaf_0) Mode_Add of
      Inl e \<Rightarrow> no_room e \<or> e = Vm_error Excno_dict_err
    | Inr (changed, d') \<Rightarrow> \<not> changed"
proof -
  have "map_of block_entries (low_bits 32 (0 :: u32)) \<noteq> None" by (simp add: block_entries_def)
  with old_blocks_set_updates [OF blocks_dict_inv seqno_key_ok [of 0] slice_block_leaf(1), where ?sha256.0 = zero_hash and mode = Mode_Add, unfolded seqno_key_bits]
  show ?thesis by (cases "aug_set aug_OldMcBlocksInfo zero_hash blocks_dict (seqno_key 0, 0) 32 (slice_NoVm block_leaf_0) Mode_Add") auto
qed

text \<open>
  C14. Deleting a key that is not in the augmented dictionary of old blocks cannot fail and changes nothing. Deleting one that is there either throws (no room in a cell, or extra data of a fork that cannot be made), or gives the value without its extra data and leaves a dictionary for the map without the key, whose extra data are right again at every fork.
\<close>

theorem old_blocks_delete_removes:
  assumes "aug_inv leaf_key_lt max_key_lt empty_key_lt is_key_lt d n es x" and "ptr_ok key n" and "\<And>x. length (sha256 x) = hash_bytes"
  shows "if map_of es (ptr_bits key n) = None then aug_lookup_delete aug_OldMcBlocksInfo sha256 d key n = Inr (None, d)
    else case aug_lookup_delete aug_OldMcBlocksInfo sha256 d key n of
        Inl e \<Rightarrow> no_room e \<or> e = Vm_error Excno_dict_err
      | Inr (old, d') \<Rightarrow> value_of old = map_of es (ptr_bits key n)
          \<and> (\<exists>es' x'. aug_inv leaf_key_lt max_key_lt empty_key_lt is_key_lt d' n es' x' \<and> map_of es' = (map_of es)(ptr_bits key n := None))"
proof (cases "map_of es (ptr_bits key n)")
  case None
  then show ?thesis using old_blocks.aug_lookup_delete_absent [OF assms(1,2)] by simp
next
  case (Some v)
  have "aug_ok (\<lambda>r. value_of (fst r) = map_of es (ptr_bits key n)
        \<and> (\<exists>es' x'. aug_inv leaf_key_lt max_key_lt empty_key_lt is_key_lt (snd r) n es' x' \<and> map_of es' = (map_of es)(ptr_bits key n := None)))
     (aug_lookup_delete aug_OldMcBlocksInfo sha256 d key n)"
    by (rule aug_ok_mono [OF old_blocks.aug_lookup_delete_ok [OF assms]]) (simp add: aug_obj_delete_result_def del: split_paired_Ex)
  then show ?thesis using Some unfolding aug_ok_def case_prod_beta by simp
qed

lemma old_blocks_delete_removes_witness:
  "\<exists>old d'. aug_lookup_delete aug_OldMcBlocksInfo zero_hash small_blocks ([0x80], 0) 1 = Inr (old, d') \<and> value_of old = Some (key_lt False 9)
     \<and> (\<exists>es' x'. aug_inv leaf_key_lt max_key_lt empty_key_lt is_key_lt d' 1 es' x' \<and> map_of es' = (map_of small_entries)([True] := None))"
proof -
  have "succeeds (aug_lookup_delete aug_OldMcBlocksInfo zero_hash small_blocks ([0x80], 0) 1)" by code_simp
  then obtain old d' where r: "aug_lookup_delete aug_OldMcBlocksInfo zero_hash small_blocks ([0x80], 0) 1 = Inr (old, d')" by (auto dest: succeedsD)
  have e: "map_of small_entries [True] = Some (key_lt False 9)" by (simp add: small_entries_def)
  from old_blocks_delete_removes [OF small_inv sample_keys(1), where ?sha256.0 = zero_hash, OF length_zero_hash, unfolded sample_keys e if_not_P [OF option.distinct(2)] r sum.case prod.case] r
  show ?thesis by blast
qed

text \<open>
  C15. The constructor of the augmented dictionary of old blocks from a field accepts it exactly when the extra data written in the field are those of the tree, and throws otherwise; what it accepts satisfies the invariant.
\<close>

theorem blocks_root_checked:
  assumes "root_extra leaf_key_lt max_key_lt empty_key_lt is_key_lt n co es (key_lt key lt)" and "n \<le> max_key_bits"
    and "aug_root_slice (Some s) co (key_lt key' lt')"
  shows "if key = key' \<and> lt = lt'
     then \<exists>d. new_aug_dict_ref aug_OldMcBlocksInfo sha256 (Some s) (int n) True = Inr d
            \<and> aug_inv leaf_key_lt max_key_lt empty_key_lt is_key_lt d n es (key_lt key lt) \<and> d_root_cell d = co
     else new_aug_dict_ref aug_OldMcBlocksInfo sha256 (Some s) (int n) True = Inl (Vm_error Excno_dict_err)"
  using old_blocks.new_aug_dict_ref_checks [OF assms(3,2,1), of sha256, unfolded same_extra_key_lt]
  by (cases "key = key' \<and> lt = lt'") auto

lemma blocks_root_checked_witness:
  "\<exists>d. new_aug_dict_ref aug_OldMcBlocksInfo zero_hash (Some (slice_NoVm blocks_field)) 32 True = Inr d \<and> d_root_cell d = Some blocks_root"
proof -
  have "root_extra leaf_key_lt max_key_lt empty_key_lt is_key_lt 32 (Some blocks_root) block_entries (key_lt True 9)"
    using blocks_root_rep by (simp add: root_extra_def)
  from blocks_root_checked [OF this _ blocks_field_root, of zero_hash] show ?thesis by auto
qed

text \<open>
  C16. AugmentedDictionary::set_builder does not look at its mode. On the dictionary of old blocks it either throws (no room in a cell, or a value too short for the extra data), or it has stored the value and says that the dictionary has changed, also in the mode Add when the key is there and in the mode Replace when it is not.
\<close>

theorem builder_stored_whatever_mode:
  assumes "aug_inv leaf_key_lt max_key_lt empty_key_lt is_key_lt d n es x" and "ptr_ok key n" and "builder_ok b"
    and "\<forall>r \<in> set (b_refs b). wf_cell r" and "\<And>x. length (sha256 x) = hash_bytes"
  shows "case aug_set_builder aug_OldMcBlocksInfo sha256 d key n b mode of
      Inl e \<Rightarrow> no_room e \<or> e = Vm_error Excno_dict_err
    | Inr (changed, d') \<Rightarrow> changed \<and> (\<exists>es' x'. aug_inv leaf_key_lt max_key_lt empty_key_lt is_key_lt d' n es' x'
        \<and> map_of es' = (map_of es)(ptr_bits key n \<mapsto> (builder_out b, b_refs b)))"
  using old_blocks.aug_set_builder_ignores_mode [of d n es x key b sha256 mode, OF assms] unfolding aug_ok_def case_prod_beta .

lemma builder_stored_whatever_mode_witness:
  "\<exists>d'. aug_set_builder aug_OldMcBlocksInfo zero_hash blocks_dict (seqno_key 0, 0) 32 value_builder Mode_Add = Inr (True, d')
     \<and> (\<exists>es' x'. aug_inv leaf_key_lt max_key_lt empty_key_lt is_key_lt d' 32 es' x'
          \<and> map_of es' = (map_of block_entries)(low_bits 32 (0 :: u32) \<mapsto> (replicate 65 True, [])))"
proof -
  have "succeeds (aug_set_builder aug_OldMcBlocksInfo zero_hash blocks_dict (seqno_key 0, 0) 32 value_builder Mode_Add)" by code_simp
  then obtain changed d' where r: "aug_set_builder aug_OldMcBlocksInfo zero_hash blocks_dict (seqno_key 0, 0) 32 value_builder Mode_Add = Inr (changed, d')"
    by (auto dest: succeedsD)
  from builder_stored_whatever_mode [OF blocks_dict_inv seqno_key_ok [of 0] value_builder(1), where ?sha256.0 = zero_hash and mode = Mode_Add,
      unfolded seqno_key_bits value_builder r sum.case prod.case] r
  show ?thesis by (simp del: split_paired_Ex)
qed

text \<open>
  C17. block::check_old_mc_block_id accepts an identifier exactly when it is that of a block of the dictionary: masterchain, number and both hashes.
\<close>

theorem old_block_checked:
  assumes "prev_blocks d es" and "length (bi_root_hash blkid) = 32" and "length (bi_file_hash blkid) = 32"
  shows "check_old_mc_block_id sha256 d blkid = Inr (\<exists>v \<in> snd ` set es. is_block v blkid (block_lt v), d)"
  by (rule check_old_mc_block_id_ok [OF assms])

lemma old_block_checked_witness:
  "check_old_mc_block_id zero_hash blocks_dict (new_block_id\<lparr>bi_workchain := masterchainId, bi_shard := shardIdAll\<rparr>) = Inr (True, blocks_dict)"
proof -
  let ?b = "new_block_id\<lparr>bi_workchain := masterchainId, bi_shard := shardIdAll\<rparr>"
  have "bits_of (replicate 32 0) = take 256 (drop 97 (fst (block_value True 5 0)))" "bits_of (replicate 32 0) = take 256 (drop 353 (fst (block_value True 5 0)))"
    by code_simp+
  then have "is_block (block_value True 5 0) ?b (block_lt (block_value True 5 0))" by (simp add: is_block_def block_value_views new_block_id_def)
  then have "\<exists>v \<in> snd ` set block_entries. is_block v ?b (block_lt v)" by (simp add: block_entries_def)
  moreover have "length (bi_root_hash ?b) = 32" "length (bi_file_hash ?b) = 32" by (simp_all add: new_block_id_def)
  ultimately show ?thesis using old_block_checked [OF blocks_dict_prev, of ?b zero_hash] by simp
qed

text \<open>
  C18. What store_block_ref writes for a masterchain block into an empty builder is read back by unpack_block_ref as the same identifier and time.
\<close>

theorem block_reference_round_trip:
  assumes "is_masterchain_ext b" and "length (bi_root_hash b) = 32" and "length (bi_file_hash b) = 32"
  shows "\<exists>cb. store_block_ref empty_builder b lt = (True, cb) \<and> builder_ok cb
     \<and> (\<forall>s. slice_ok s \<and> content s = (builder_out cb, b_refs cb) \<longrightarrow> unpack_block_ref (Some s) blkid end_lt = (True, b, lt))"
  by (rule block_ref_round_trip [OF assms])

lemma block_reference_round_trip_witness:
  "fst (store_block_ref empty_builder (new_block_id\<lparr>bi_workchain := masterchainId, bi_shard := shardIdAll\<rparr>) 5)"
  using block_reference_round_trip [of "new_block_id\<lparr>bi_workchain := masterchainId, bi_shard := shardIdAll\<rparr>" 5 new_block_id 0]
  by (auto simp: is_masterchain_ext_def new_block_id_def)

text \<open>
  C19. A dictionary appended to a builder occupies one bit and at most one reference, and the constructor that advances a slice reads the same dictionary back from them and leaves the rest of the slice.
\<close>

theorem dict_field_round_trip:
  assumes "dict_inv d n es" and "builder_ok cb" and "1 \<le> remaining_bits cb" and "1 \<le> remaining_refs cb" and "slice_ok s"
    and "slice_bits s = drop (length (builder_out cb)) (builder_out (snd (append_dict_to_bool d cb))) @ xs"
    and "slice_children s = drop (length (b_refs cb)) (b_refs (snd (append_dict_to_bool d cb))) @ cs"
  shows "fst (append_dict_to_bool d cb) \<and> (\<exists>d' s'. new_dict_advance s (int n) True = Inr (d', s') \<and> dict_inv d' n es
     \<and> d_root_cell d' = d_root_cell d \<and> slice_bits s' = xs \<and> slice_children s' = cs)"
proof -
  have a: "fst (append_dict_to_bool d cb)" "builder_out (snd (append_dict_to_bool d cb)) = builder_out cb @ [d_root_cell d \<noteq> None]"
    "b_refs (snd (append_dict_to_bool d cb)) = b_refs cb @ (case d_root_cell d of None \<Rightarrow> [] | Some c \<Rightarrow> [c])"
    using append_dict_ok [OF assms(1-4)] assms(3,4) by (auto simp: appends_def split: option.splits)
  have s: "slice_bits s = (d_root_cell d \<noteq> None) # xs" "slice_children s = (case d_root_cell d of None \<Rightarrow> [] | Some c \<Rightarrow> [c]) @ cs"
    using assms(6,7) by (simp_all add: a)
  note D = dict_inv_parts [OF assms(1)]
  from new_dict_advance_ok [OF assms(5) s D(3,5)] a(1) show ?thesis by blast
qed

lemma dict_field_round_trip_witness:
  "\<exists>d. new_dict 8 True = Inr d \<and> fst (append_dict_to_bool d empty_builder)"
proof -
  obtain d where d: "new_dict 8 True = Inr d" "dict_inv d 8 []" using new_dict_inv [of 8] by auto
  have c: "d_root_cell d = None" using d(2) dict_rep_not_empty(1) by (auto simp: dict_inv_def dict_rep_opt_def split: option.splits)
  have room: "1 \<le> remaining_bits empty_builder" "1 \<le> remaining_refs empty_builder" by code_simp+
  have a: "builder_out (snd (append_dict_to_bool d empty_builder)) = [False]" "b_refs (snd (append_dict_to_bool d empty_builder)) = []"
    "builder_out empty_builder = []" "b_refs empty_builder = []"
    using append_dict_ok [OF d(2) builder_ok_empty room] room fresh_empty by (auto simp: appends_def c fresh_def)
  have b: "slice_bits (slice_NoVm leaf_b) = False # tl (bits_of [7])" unfolding slice_leaf_b by code_simp
  from dict_field_round_trip [OF d(2) builder_ok_empty room slice_leaf_b(1), of "tl (bits_of [7])" "[]"] d(1) a b
  show ?thesis by (simp add: slice_leaf_b)
qed

text \<open>
  C20. A label written in the shortest of the three forms and finalized into a cell is parsed back as the same bits, for every length up to the limit.
\<close>

theorem label_written_is_parsed:
  assumes "append_dict_label empty_builder p len n = Inr cb" and "ptr_ok p len" and "len \<le> n" and "n < 2 ^ 31"
    and "dict_finalize sha256 cb = Inr (c, cb')" and "\<And>x. length (sha256 x) = hash_bytes"
  shows "\<exists>lab. label_of_cell (Some c) n 1 = Inr lab \<and> label_view lab (ptr_bits p len) [] []"
  by (rule label_survives [OF assms])

lemma label_written_is_parsed_witness:
  "\<exists>c lab. label_of_cell (Some c) 8 1 = Inr lab \<and> label_view lab (bits_of [0xA5]) [] []"
proof -
  have w: "written empty_builder (label_code 8 (ptr_bits ([0xA5], 0) 8)) (append_dict_label empty_builder ([0xA5], 0) 8 8)"
    by (rule append_dict_label_writes [OF builder_ok_empty]) (simp_all add: ptr_ok_def)
  have "length (label_code 8 (ptr_bits ([0xA5], 0) 8)) \<le> remaining_bits empty_builder" by code_simp
  then obtain cb where cb: "append_dict_label empty_builder ([0xA5], 0) 8 8 = Inr cb" "builder_ok cb" "b_refs cb = []"
    using w fresh_empty by (auto simp: written_def fresh_def)
  obtain c where "finalize zero_hash cb False = Inr c" using plain_finalizes [OF cb(2,3)] by blast
  then obtain cb' where c: "dict_finalize zero_hash cb = Inr (c, cb')"
    by (cases "finalize_novm zero_hash cb False") (auto simp: dict_finalize_def finalize_def)
  have "ptr_bits ([0xA5], 0) 8 = bits_of [0xA5]" by code_simp
  with label_written_is_parsed [OF cb(1) _ _ _ c] show ?thesis by (auto simp: ptr_ok_def)
qed

text \<open>
  C21. lookup_nearest_key gives the closest key after (or before) the given one in the order of the keys as unsigned or as two's complement numbers, with its value, and writes it into the buffer; without such a key it gives nothing and leaves the buffer.
\<close>

theorem nearest_key_found:
  assumes "dict_inv d n es" and "ptr_ok key n"
  shows "\<exists>r. lookup_nearest_key d key n after allow_eq sgnd = Inr (r, d)
    \<and> (if \<exists>k' \<in> fst ` set es. beyond after allow_eq sgnd (ptr_bits key n) k'
       then \<exists>k0. found key es k0 r \<and> beyond after allow_eq sgnd (ptr_bits key n) k0
         \<and> (\<forall>k' \<in> fst ` set es. beyond after allow_eq sgnd (ptr_bits key n) k' \<longrightarrow>
              (if after then key_num sgnd k0 \<le> key_num sgnd k' else key_num sgnd k' \<le> key_num sgnd k0))
       else r = (None, fst key))"
  by (rule lookup_nearest_key_ok [OF assms])

lemma nearest_key_found_witness:
  "lookup_nearest_key sample_dict ([0x80], 0) 1 True False False = Inr ((None, [0x80]), sample_dict)"
  using nearest_key_found [OF sample_inv sample_keys(1), of True False False, unfolded sample_keys]
  by (simp add: sample_entries_def beyond_def key_num_def nat_of_bits_Cons)

text \<open>
  C22. map either finds no room in a cell, or it has called the function on every value with its whole key and gives a well-formed dictionary for what the function has stored, without the leaves that it has refused. The function may rely on getting a builder with nothing but a label in it.
\<close>

theorem dict_map_rewrites:
  assumes "dict_inv d n es" and "map_function mf n keeps drops" and "\<And>x. length (sha256 x) = hash_bytes"
  shows "case obj_map sha256 d mf of
      Inl e \<Rightarrow> no_room e
    | Inr d' \<Rightarrow> \<exists>es'. dict_inv d' n es' \<and> mapped keeps drops [] es es'"
  using obj_map_ok [OF assms] by (simp add: dict_ok_def)

lemma dict_map_rewrites_witness:
  "\<exists>d'. obj_map zero_hash sample_dict (\<lambda>cb s key l. cell_builder_add_slice_bool cb s) = Inr d' \<and> dict_inv d' 1 sample_entries"
proof -
  have "succeeds (obj_map zero_hash sample_dict (\<lambda>cb s key l. cell_builder_add_slice_bool cb s))" by code_simp
  then obtain d' where r: "obj_map zero_hash sample_dict (\<lambda>cb s key l. cell_builder_add_slice_bool cb s) = Inr d'" by (auto dest: succeedsD)
  obtain es' where es': "dict_inv d' 1 es'"
    "mapped (\<lambda>k v v'. v' = v) (\<lambda>k v. max_bits < 1 + 33 + length (fst v) \<or> max_refs < length (snd v)) [] sample_entries es'"
    using dict_map_rewrites [OF sample_inv copying.map_function_axioms, of zero_hash] by (auto simp: r)
  have "es' = sample_entries" by (rule mapped_copy [OF es'(2)]) (simp add: sample_entries_def)
  with es'(1) r show ?thesis by simp
qed

text \<open>
  C23. combine_with in the mode 0 merges two dictionaries in place: unless there is no room in a cell or the function throws for a common key, a key of one side keeps its value, and a common key gets what the function makes of its two values or disappears; when the function gives up with a CombineError, the first dictionary is left as it was and the result says so.
\<close>

theorem dict_combine_joins:
  assumes "dict_inv d n e1" and "dict_inv d2 n e2" and "combine_function cf n joining fails" and "\<And>x. length (sha256 x) = hash_bytes"
  shows "case combine_with sha256 d d2 cf 0 of
      Inl e \<Rightarrow> no_room e \<or> clash fails [] e1 e2 e
    | Inr (ok, d', d2') \<Rightarrow> d2' = d2 \<and>
        (if ok then \<exists>e. dict_inv d' n e \<and> (\<forall>k. merged joining k (map_of e1 k) (map_of e2 k) (map_of e k))
         else d' = d \<and> clash fails [] e1 e2 Combine_error)"
  using combine_with_ok [of d n e1 d2 e2 cf joining fails sha256 0, OF assms]
  by (auto simp: combine_with_result_def combined_def split: sum.splits if_splits)

lemma dict_combine_joins_witness:
  "\<exists>d' e. combine_with zero_hash old_dict changed_dict keep_equal 0 = Inr (True, d', changed_dict)
     \<and> dict_inv d' 1 e \<and> map_of e [False] = Some (bits_of [7], []) \<and> map_of e [True] = None"
proof -
  have "case combine_with zero_hash old_dict changed_dict keep_equal 0 of Inl e \<Rightarrow> False | Inr (ok, d) \<Rightarrow> ok" by code_simp
  then obtain d' d2' where r: "combine_with zero_hash old_dict changed_dict keep_equal 0 = Inr (True, d', d2')"
    by (auto split: sum.splits prod.splits)
  have v: "bits_of [9] \<noteq> bits_of [8]" by code_simp
  obtain e where e: "d2' = changed_dict" "dict_inv d' 1 e"
    "\<And>k. merged (\<lambda>k v1 v2 r. case r of Some v \<Rightarrow> v = v1 \<and> fst v1 = fst v2 | None \<Rightarrow> v1 \<noteq> v2) k (map_of sample_entries k) (map_of changed_entries k) (map_of e k)"
    using dict_combine_joins [OF hashed_inv keep_equal.combine_function_axioms, of zero_hash] unfolding r by auto
  have "map_of e [False] = Some (bits_of [7], [])"
    using e(3) [of "[False]"] by (simp add: merged_def sample_entries_def changed_entries_def split: option.splits)
  moreover have "map_of e [True] = None"
    using e(3) [of "[True]"] v by (simp add: merged_def sample_entries_def changed_entries_def split: option.splits)
  ultimately show ?thesis using r e(1,2) by blast
qed

text \<open>
  C24. scan_diff calls the function for exactly the keys that have different values in the two dictionaries or are in one of them only, in the order of the keys and with both values, and stops when it fails; equal subtrees may be passed over by their hashes as long as different cells have different hashes.
\<close>

theorem scan_reports_differences:
  assumes "dict_inv d n e1" and "dict_inv d2 n e2" and "diff_function func n f" and "faithful (d_root_cell d) (d_root_cell d2)"
  shows "\<exists>ds. sorted_wrt (\<lambda>x y. lex_cmp (fst x) (fst y) = - 1) ds
     \<and> (\<forall>k a b. (k, a, b) \<in> set ds \<longleftrightarrow> a = map_of e1 k \<and> b = map_of e2 k \<and> a \<noteq> b)
     \<and> scan_diff d d2 func mode s =
         (case visit_all (\<lambda>k v. f k (fst v) (snd v)) ds s of
            Inr (ok, s) \<Rightarrow> Inr ((ok, Some s), d, d2)
          | Inl e \<Rightarrow> if e = Combine_error then Inr ((False, None), d, d2) else Inl e)"
  using diffs_sorted diffs_set scan_diff_ok [OF assms] dict_inv_sorted [OF assms(1)] dict_inv_sorted [OF assms(2)] by blast

lemma scan_reports_differences_witness:
  "\<exists>ds :: (bool list \<times> dict_val option \<times> dict_val option) list.
       set ds = {([True], Some (bits_of [9], []), Some (bits_of [8], []))}
     \<and> scan_diff old_dict changed_dict stop_diff 0 () = Inr ((False, Some ()), old_dict, changed_dict)"
proof -
  from scan_reports_differences [OF hashed_inv stop_diff.diff_function_axioms hashed_faithful, of 0 "()"]
  obtain ds where d: "(k, a, b) \<in> set ds \<longleftrightarrow> a = map_of sample_entries k \<and> b = map_of changed_entries k \<and> a \<noteq> b"
    and r: "scan_diff old_dict changed_dict stop_diff 0 () =
      (case visit_all (\<lambda>k v s. Inr (False, s)) ds () of Inr (ok, s) \<Rightarrow> Inr ((ok, Some s), old_dict, changed_dict)
       | Inl e \<Rightarrow> if e = Combine_error then Inr ((False, None), old_dict, changed_dict) else Inl e)" for k a b by auto
  have "bits_of [9] \<noteq> bits_of [8]" by code_simp
  then have ds: "set ds = {([True], Some (bits_of [9], []), Some (bits_of [8], []))}"
    by (auto simp: d sample_entries_def changed_entries_def split: if_splits)
  from this have "scan_diff old_dict changed_dict stop_diff 0 () = Inr ((False, Some ()), old_dict, changed_dict)"
    using r ds by (cases ds) auto
  with ds show ?thesis by blast
qed

text \<open>
  C25. lookup_prefix of a prefix code dictionary follows the key as far as some stored key agrees with it, says how many bits these are, and gives the value of the stored key that ends there, if there is one.
\<close>

theorem prefix_code_lookup:
  assumes "pfx_inv d n es" and "ptr_ok key m" and "es \<noteq> []"
  shows "\<exists>r pos. pfx_lookup_prefix d key m = Inr ((r, pos), d)
     \<and> (\<exists>x \<in> keys_of es. lcp x (ptr_bits key m) = pos) \<and> (\<forall>x \<in> keys_of es. lcp x (ptr_bits key m) \<le> pos)
     \<and> value_of r = map_of es (take pos (ptr_bits key m))"
  using pfx_lookup_prefix_ok [OF assms] by (auto simp: longest_def)

lemma prefix_code_lookup_witness:
  "\<exists>r pos. pfx_lookup_prefix pfx_dict ([0xC0], 0) 2 = Inr ((r, pos), pfx_dict) \<and> pos = 1 \<and> value_of r = Some (tl (bits_of [9]), [])"
proof -
  have k: "ptr_ok ([0xC0], 0) 2" "ptr_bits ([0xC0], 0) 2 = [True, True]" by code_simp+
  show ?thesis using prefix_code_lookup [OF pfx_sample_inv k(1), unfolded k(2)] by (auto simp: pfx_entries_def)
qed

text \<open>
  C26. Setting a key of a prefix code dictionary either finds no room in a cell, or succeeds exactly when the mode allows it, the key is not too long and no other key is a prefix of it or begins with it; then the dictionary stands for the updated map and no key is a prefix of another one, and otherwise the object is unchanged.
\<close>

theorem prefix_code_set:
  assumes "pfx_inv d n es" and "ptr_ok key (nat key_len)" and "slice_ok v" and "\<forall>r \<in> set (slice_children v). wf_cell r"
    and "\<And>x. length (sha256 x) = hash_bytes"
  shows "case pfx_set sha256 d key key_len v mode of
      Inl e \<Rightarrow> no_room e
    | Inr (ok, d') \<Rightarrow>
        ok = (0 \<le> key_len \<and> key_len \<le> int n \<and> \<not> clashes es (ptr_bits key (nat key_len))
              \<and> \<not> (mode = Mode_Replace \<and> map_of es (ptr_bits key (nat key_len)) = None)
              \<and> \<not> (mode = Mode_Add \<and> map_of es (ptr_bits key (nat key_len)) \<noteq> None))
        \<and> (if ok then \<exists>es'. pfx_inv d' n es' \<and> prefix_free es'
                \<and> map_of es' = (map_of es)(ptr_bits key (nat key_len) \<mapsto> (slice_bits v, slice_children v))
            else d' = d)"
proof -
  have "slice_ok v \<and> (\<forall>r \<in> set (slice_children v). wf_cell r)" using assms(3,4) by simp
  note R = slices.pfx_set_gen_ok [of v d n es key key_len sha256 mode, OF this assms(1,2,5), folded pfx_set_def]
  show ?thesis
  proof (cases "pfx_set sha256 d key key_len v mode")
    case (Inl e)
    then show ?thesis using R by (simp add: dict_ok_def)
  next
    case (Inr r)
    obtain ok d' where r: "r = (ok, d')" by fastforce
    have "ok = pfx_changed mode n es key_len (ptr_bits key (nat key_len))"
      and "if ok then \<exists>es'. pfx_inv d' n es' \<and> map_of es' = (map_of es)(ptr_bits key (nat key_len) \<mapsto> (slice_bits v, slice_children v))
           else d' = d" using R by (simp_all add: Inr r)
    then show ?thesis using pfx_inv_free unfolding Inr r sum.case prod.case pfx_changed_def by metis
  qed
qed

lemma prefix_code_set_witness:
  "\<exists>d' es'. pfx_set zero_hash pfx_dict ([0x80], 0) 1 (slice_NoVm leaf_b) Mode_Replace = Inr (True, d')
     \<and> pfx_inv d' 8 es' \<and> prefix_free es' \<and> map_of es' = (map_of pfx_entries)([True] \<mapsto> (bits_of [7], []))"
proof -
  have "succeeds (pfx_set zero_hash pfx_dict ([0x80], 0) 1 (slice_NoVm leaf_b) Mode_Replace)" by code_simp
  then obtain ok d' where r: "pfx_set zero_hash pfx_dict ([0x80], 0) 1 (slice_NoVm leaf_b) Mode_Replace = Inr (ok, d')" by (auto dest: succeedsD)
  have k: "ptr_ok ([0x80], 0) (nat 1)" "ptr_bits ([0x80], 0) (nat 1) = [True]" by code_simp+
  have "\<not> clashes pfx_entries [True]" "map_of pfx_entries [True] \<noteq> None" by (auto simp: clashes_def pfx_entries_def)
  with prefix_code_set [OF pfx_sample_inv k(1) slice_leaf_b(1), of zero_hash Mode_Replace, unfolded k(2) slice_leaf_b r] r
  show ?thesis by auto
qed

text \<open>
  C27. Deleting from a prefix code dictionary a key that is not there, or with a length out of range, cannot fail and changes nothing. Deleting a key that is there either finds no room in a cell, or gives its old value and leaves the map without the key, in a dictionary that is well formed: a fork that loses a child disappears.
\<close>

theorem prefix_code_delete:
  assumes "pfx_inv d n es" and "ptr_ok key (nat key_len)" and "\<And>x. length (sha256 x) = hash_bytes"
  shows "if key_len < 0 \<or> int n < key_len \<or> map_of es (ptr_bits key (nat key_len)) = None
    then pfx_lookup_delete sha256 d key key_len = Inr (None, d)
    else case pfx_lookup_delete sha256 d key key_len of
        Inl e \<Rightarrow> no_room e
      | Inr (old, d') \<Rightarrow> value_of old = map_of es (ptr_bits key (nat key_len))
          \<and> (\<exists>es'. pfx_inv d' n es' \<and> map_of es' = (map_of es)(ptr_bits key (nat key_len) := None))"
proof (cases "key_len < 0 \<or> int n < key_len \<or> map_of es (ptr_bits key (nat key_len)) = None")
  case True
  then show ?thesis using pfx_lookup_delete_absent [OF assms(1,2), of sha256] by auto
next
  case False
  then show ?thesis using pfx_lookup_delete_ok [of d n es key key_len sha256, OF assms]
    by (auto simp: dict_ok_def value_of_def split: sum.splits if_splits)
qed

lemma prefix_code_delete_witness:
  "\<exists>old d' es'. pfx_lookup_delete zero_hash pfx_dict ([0x80], 0) 1 = Inr (old, d') \<and> value_of old = Some (tl (bits_of [9]), [])
     \<and> pfx_inv d' 8 es' \<and> map_of es' = (map_of pfx_entries)([True] := None)"
proof -
  have "succeeds (pfx_lookup_delete zero_hash pfx_dict ([0x80], 0) 1)" by code_simp
  then obtain old d' where r: "pfx_lookup_delete zero_hash pfx_dict ([0x80], 0) 1 = Inr (old, d')" by (auto dest: succeedsD)
  have k: "ptr_ok ([0x80], 0) (nat 1)" "ptr_bits ([0x80], 0) (nat 1) = [True]" by code_simp+
  have "map_of pfx_entries [True] = Some (tl (bits_of [9]), [])" by (simp add: pfx_entries_def)
  with prefix_code_delete [OF pfx_sample_inv k(1), of zero_hash, unfolded k(2) r] r show ?thesis by simp
qed

text \<open>
  C28. check_for_each calls the function on every entry in the order of the keys, unsigned or signed, with the whole key and the effects of the calls before, and stops at the first entry for which it fails or throws.
\<close>

theorem entries_visited_in_order:
  assumes "dict_inv d n es" and "foreach_function func n f"
  shows "check_for_each d func flip s = bind_err (visit_all f (visit_order flip es) s) (\<lambda>r. Inr (r, d))
     \<and> set (visit_order flip es) = set es
     \<and> sorted_wrt (\<lambda>x y. key_less (of_bool flip) (fst x) (fst y)) (visit_order flip es)"
  using check_for_each_visits [OF assms] visit_order_of_dict [OF assms(1)] by simp

lemma entries_visited_in_order_witness:
  "check_for_each sample_dict collect_visit True [] =
    Inr ((True, [([True], bits_of [9], []), ([False], bits_of [7], [])]), sample_dict)"
  using entries_visited_in_order [OF sample_inv collect_visit.foreach_function_axioms, of True "[]"]
  by (simp add: visit_order_def sample_entries_def)

text \<open>
  C29. An iterator of a dictionary with keys of at least one bit, in any of the four modes, starts at the first entry, is at every entry once, in the order of the mode, and is at its end after the last one, however many steps are allowed. With keys of no bits it is at its end from the beginning.
\<close>

theorem iterator_visits_all:
  assumes "dict_inv d n es"
  shows "if n = 0 then \<exists>it. make_iterator d mode = Inr (it, d) \<and> iter_eof it
    else \<exists>it xs. make_iterator d mode = Inr (it, d) \<and> iter_ready it n es
      \<and> (\<forall>steps \<ge> length es. iter_walk False steps it = Inr xs)
      \<and> set xs = set es \<and> length xs = length es
      \<and> sorted_wrt (\<lambda>x y. key_less (iter_order (mode AND 3)) (fst x) (fst y)) xs"
proof (cases "n = 0")
  case True
  then show ?thesis using make_iterator_no_bits [of d es mode] assms by auto
next
  case False
  then show ?thesis using make_iterator_walk [OF assms, of mode] arranged_of_dict [OF assms, of mode] by fastforce
qed

lemma iterator_visits_all_witness:
  "\<exists>it xs. make_iterator sample_dict 1 = Inr (it, sample_dict) \<and> iter_ready it 1 sample_entries
    \<and> iter_walk False 2 it = Inr xs \<and> iter_walk False 3 it = Inr xs \<and> set xs = set sample_entries"
proof -
  have "length sample_entries = 2" by (simp add: sample_entries_def)
  then show ?thesis using iterator_visits_all [OF sample_inv, of 1] by auto
qed

text \<open>
  C30. From any place, lookup of some first bits of a key goes to the first entry of the direction that is not before them (or is after them), tells whether there is one, and what is left of the iteration are exactly the entries from there on.
\<close>

theorem iterator_lookup_finds:
  assumes "iter_ready it n es" and "ptr_ok pos l" and "l \<le> n"
  shows "\<exists>it' xs. iter_lookup it pos (int l) strict backw = Inr (xs \<noteq> [], it') \<and> iter_ready it' n es
     \<and> iter_walk backw (length es) it' = Inr xs
     \<and> xs = filter (\<lambda>x. \<not> before_pos (toward it backw) strict (ptr_bits pos l) (fst x)) (arranged (toward it backw) es)"
  using iter_lookup_walk [OF assms] by blast

lemma iterator_lookup_finds_witness:
  "\<exists>it it' xs. make_iterator sample_dict 0 = Inr (it, sample_dict)
    \<and> iter_lookup it ([0x80], 0) 1 False False = Inr (xs \<noteq> [], it') \<and> iter_walk False 2 it' = Inr xs"
proof -
  obtain it where it: "make_iterator sample_dict 0 = Inr (it, sample_dict)" "iter_ready it 1 sample_entries"
    using make_iterator_ok [OF sample_inv, of 0] by auto
  have "length sample_entries = 2" by (simp add: sample_entries_def)
  then show ?thesis using iterator_lookup_finds [OF it(2) sample_keys(1), of False False] it(1) by auto
qed

text \<open>
  C31. filter with a predicate either finds no room in a cell, or leaves exactly the entries that satisfy it, in a well-formed dictionary; its result is the number of the entries that it has removed, as long as there are fewer than 2^30 of them.
\<close>

theorem dict_filter_keeps:
  assumes "dict_inv d n es" and "\<And>x. length (sha256 x) = hash_bytes"
  shows "case obj_filter sha256 d (pred_filter p) of
      Inl e \<Rightarrow> no_room e
    | Inr (changes, d') \<Rightarrow> dict_inv d' n (filter (\<lambda>(k, v). p k v) es)
        \<and> (length (filter (\<lambda>(k, v). \<not> p k v) es) < 2 ^ 30 \<longrightarrow> changes = int (length (filter (\<lambda>(k, v). \<not> p k v) es)))"
  using obj_filter_pred [of d n es sha256 p, OF assms] by (simp only: dict_ok_def)

lemma dict_filter_keeps_witness:
  "\<exists>d'. obj_filter zero_hash sample_dict (pred_filter (\<lambda>k v. k = [True])) = Inr (1, d') \<and> dict_inv d' 1 [([True], bits_of [9], [])]"
proof -
  have "succeeds (obj_filter zero_hash sample_dict (pred_filter (\<lambda>k v. k = [True])))" by code_simp
  then obtain changes d' where r: "obj_filter zero_hash sample_dict (pred_filter (\<lambda>k v. k = [True])) = Inr (changes, d')" by (auto dest: succeedsD)
  show ?thesis using dict_filter_keeps [OF sample_inv, of zero_hash "\<lambda>k v. k = [True]"] by (simp add: r sample_entries_def)
qed

text \<open>
  C32. cut_prefix_subdict refuses to take off a prefix longer than the keys; otherwise it either finds no room in a cell for a new label, or leaves the entries whose key begins with the prefix, under their keys or with the prefix taken off.
\<close>

theorem dict_prefix_cut:
  assumes "dict_inv d n es" and "ptr_ok pfx (length P)" and "ptr_bits pfx (length P) = P" and "\<And>x. length (sha256 x) = hash_bytes"
  shows "if remove_prefix \<and> n < length P then cut_prefix_subdict sha256 d pfx (int (length P)) remove_prefix = Inr (False, d)
    else case cut_prefix_subdict sha256 d pfx (int (length P)) remove_prefix of
        Inl e \<Rightarrow> no_room e
      | Inr (ok, d') \<Rightarrow> ok \<and> (if remove_prefix then dict_inv d' (n - length P) (chop (length P) (with_prefix P es))
          else dict_inv d' n (with_prefix P es))"
  using cut_prefix_subdict_ok [of d n es pfx P sha256 remove_prefix, OF assms] by (simp only: dict_ok_def)

lemma dict_prefix_cut_witness:
  "\<exists>d'. cut_prefix_subdict zero_hash sample_dict ([0x80], 0) 1 True = Inr (True, d') \<and> dict_inv d' 0 [([], bits_of [9], [])]"
proof -
  have "succeeds (cut_prefix_subdict zero_hash sample_dict ([0x80], 0) 1 True)" by code_simp
  then obtain ok d' where r: "cut_prefix_subdict zero_hash sample_dict ([0x80], 0) 1 True = Inr (ok, d')" by (auto dest: succeedsD)
  have "chop 1 (with_prefix [True] sample_entries) = [([], bits_of [9], [])]"
    by (simp add: sample_entries_def with_prefix_def chop_def)
  with dict_prefix_cut [OF sample_inv, of "([0x80], 0)" "[True]" zero_hash True] sample_keys
  show ?thesis by (simp add: r)
qed

text \<open>
  C33. Loading a cell through library cells ends when the libraries do not form a cycle: every library cell resolves to a cell of smaller rank.
\<close>

theorem library_loading_ends:
  assumes "\<And>c c'. library_target f c = Some c' \<Longrightarrow> rank c' < (rank c :: nat)"
  shows "\<exists>r. load_cell_slice_impl (Some f) c can_be_special reg = Some r"
  by (rule load_cell_slice_impl_ends [where rank = rank, OF assms])

lemma library_loading_ends_witness:
  "\<exists>r. load_cell_slice_impl (Some (\<lambda>k. Some leaf_b)) library_leaf False [] = Some r"
  by (rule library_loading_ends [where rank = "\<lambda>c. if c = leaf_b then 0 else 1"])
    (auto simp: library_target_def Let_def leaf_b_def plain_info_def data_special_type_def split: if_splits)

text \<open>
  C34. dict_lookup_set makes the same change, with the same errors, as dict_set, for any tree of cells, and gives the old value that a lookup of the key gives.
\<close>

theorem lookup_set_is_set_and_lookup:
  shows "bind_err (dict_lookup_set sha256 dict key n store_val mode) (\<lambda>(old, c, changed). Inr (c, changed))
     = dict_set sha256 dict key n store_val mode
     \<and> (\<forall>c es old c' changed. dict = Some c \<and> dict_rep n c es \<and> ptr_ok key n \<and> n < 2 ^ 31
          \<and> dict_lookup_set sha256 dict key n store_val mode = Inr (old, c', changed)
          \<longrightarrow> value_of old = map_of es (ptr_bits key n))"
  using dict_lookup_set_changes dict_lookup_set_old by blast

lemma lookup_set_is_set_and_lookup_witness:
  "case dict_lookup_set zero_hash (Some sample_root) ([0x80], 0) 1 (\<lambda>cb. cell_builder_add_slice_bool cb (slice_NoVm leaf_b)) Mode_Set of
      Inl e \<Rightarrow> True
    | Inr (old, c, changed) \<Rightarrow> value_of old = Some (bits_of [9], [])"
proof -
  let ?r = "dict_lookup_set zero_hash (Some sample_root) ([0x80], 0) 1 (\<lambda>cb. cell_builder_add_slice_bool cb (slice_NoVm leaf_b)) Mode_Set"
  have e: "map_of sample_entries [True] = Some (bits_of [9], [])" by (simp add: sample_entries_def)
  have "value_of old = Some (bits_of [9], [])" if "?r = Inr (old, c, changed)" for old c changed
    using conjunct2 [OF lookup_set_is_set_and_lookup, rule_format, OF conjI, OF refl conjI, OF sample_rep conjI,
        OF sample_keys(1) conjI, OF _ that] unfolding sample_keys e by simp
  then show ?thesis by (auto split: sum.splits)
qed

text \<open>
  C35. parse_bitstring_hex_literal reads exactly the hexadecimal literals that fit into the buffer: blanks do not count, an underscore at the end takes the last one and the zeroes behind it away; the bits go to the start of the buffer and the result is their number. For every other text the result is negative. The byte before the buffer, which is read when all digits are zero, does not matter.
\<close>

theorem hex_literal_read:
  assumes "buff_size \<le> length buff"
  shows "case room (8 * buff_size) (hex_literal str) of
       Some (xs, tag) \<Rightarrow>
         (let ys = if tag then untag xs else xs; (r, buff') = parse_bitstring_hex_literal before buff buff_size str
          in r = int (length ys) \<and> take (length ys) (bits_of buff') = ys \<and> length buff' = length buff)
     | None \<Rightarrow> fst (parse_bitstring_hex_literal before buff buff_size str) < 0"
  by (rule parse_bitstring_hex_literal_ok [OF assms])

lemma hex_literal_read_witness:
  "fst (parse_bitstring_hex_literal 0 [0, 0] 2 ''0x8'') < 0 \<and> hex_literal ''c 8_'' = Some (low_bits 8 (0xc8 :: byte), True)"
proof -
  have "hex_literal ''0x8'' = None" and l: "hex_literal ''c 8_'' = Some (low_bits 8 (0xc8 :: byte), True)" by code_simp+
  then show ?thesis using hex_literal_read [where buff_size = 2 and buff = "[0, 0]" and str = "''0x8''" and before = 0] by (simp add: room_def)
qed

text \<open>
  C36. The text that bits_to_hex writes for bits anywhere in a buffer is read back by parse_bitstring_hex_literal: the result is the number of bits, and the target buffer begins with them.
\<close>

theorem hex_text_round_trip:
  assumes "offs + len \<le> 8 * length bs" and "len \<le> 8 * buff_size" and "buff_size \<le> length buff"
  shows "case parse_bitstring_hex_literal before buff buff_size (bits_to_hex bs offs len) of
      (r, buff') \<Rightarrow> r = int len \<and> take len (bits_of buff') = take len (drop offs (bits_of bs))"
  by (rule hex_round_trip [OF assms])

lemma hex_text_round_trip_witness:
  "case parse_bitstring_hex_literal 7 [0] 1 (bits_to_hex [0xa5, 0x3c] 3 6) of
      (r, buff') \<Rightarrow> r = 6 \<and> take 6 (bits_of buff') = take 6 (drop 3 (bits_of [0xa5, 0x3c]))"
  using hex_text_round_trip [where offs = 3 and len = 6 and bs = "[0xa5, 0x3c]" and buff_size = 1 and buff = "[0]" and before = 7] by simp



text \<open>
  C38. The hash of the cell that a builder with ordinary references is finalized to is that of the message of two descriptor bytes, the completed data, the depths of the references and their hashes; compute_hash of the builder hashes the same message without the depths.
\<close>

theorem builder_hash_misses_depths:
  assumes "builder_ok b" and "\<forall>r \<in> set (b_refs b). plain sha256 r" and "finalize sha256 b False = Inr c"
  shows "get_hash c l = sha256 (message_head b @ concat (map (\<lambda>r. depth_buf (get_depth r 0)) (b_refs b))
        @ concat (map (\<lambda>r. get_hash r 0) (b_refs b)))
    \<and> compute_hash sha256 b = sha256 (message_head b @ concat (map (\<lambda>r. get_hash r 0) (b_refs b)))"
  using compute_hash_message [OF assms] by blast

lemma builder_hash_misses_depths_witness:
  "\<exists>c. finalize len_hash one_ref False = Inr c \<and> get_hash c 0 \<noteq> compute_hash len_hash one_ref"
proof -
  obtain c where c: "finalize len_hash one_ref False = Inr c" using one_ref_ok(2) by blast
  have h: "length (get_hash len_leaf 0) = 32" "message_head one_ref = [1, 0]" by code_simp+
  have "\<forall>r \<in> set (b_refs one_ref). plain len_hash r" using plain_len_leaf by (simp add: one_ref_def)
  from builder_hash_misses_depths [OF one_ref_ok(1) this c, of 0] c show ?thesis
    by (simp add: h one_ref_def len_hash_def del: get_hash.simps)
qed

text \<open>
  C39. fetch_octet gives the next eight bits as a number but leaves the position where it was: the slice keeps its size, while its cache has moved on by eight bits.
\<close>

theorem octet_leaves_position:
  assumes "slice_ok s" and "8 \<le> slice_size s"
  shows "fst (fetch_octet s) = int (nat_of_bits (take 8 (slice_bits s))) \<and> slice_size (snd (fetch_octet s)) = slice_size s
     \<and> s_zd (snd (fetch_octet s)) = s_zd (preload_at_least s 8) - 8"
  by (rule fetch_octet_stays [OF assms])

lemma octet_leaves_position_witness:
  "fst (fetch_octet (slice_NoVm leaf_b)) = int (nat_of_bits (bits_of [7])) \<and> slice_size (snd (fetch_octet (slice_NoVm leaf_b))) = 8"
  using octet_leaves_position [OF slice_leaf_b(1)] by (simp add: slice_leaf_b slice_size_leaf_b)

text \<open>
  C40. operator+ drops the offset at both ends: of the bits that are left, the first offs and the last offs are gone, and the references stay. The assertion of the constructor fails when the offset is more than half of the size, unless the slice has no bits at all.
\<close>

theorem plus_operator_drops_both_ends:
  assumes "slice_ok s"
  shows "if 2 * offs \<le> slice_size s
    then slice_plus_assert s offs \<and> slice_ok (slice_plus s offs)
      \<and> slice_bits (slice_plus s offs) = drop offs (take (slice_size s - offs) (slice_bits s))
      \<and> slice_children (slice_plus s offs) = slice_children s
    else slice_plus_assert s offs \<longleftrightarrow> slice_size s = 0"
  by (rule slice_plus_window [OF assms])

lemma plus_operator_drops_both_ends_witness:
  "slice_bits (slice_plus (slice_NoVm leaf_b) 2) = drop 2 (take 6 (bits_of [7]))"
  using plus_operator_drops_both_ends [OF slice_leaf_b(1), of 2] by (simp add: slice_size_leaf_b slice_leaf_b)

end
